(* ===== verification/Git_Prelude.thy ===== *)
theory Git_Prelude
  imports Complex_Main "HOL-Library.Word" "HOL-Library.Multiset" "HOL-Library.Char_ord"
    "HOL-Library.List_Lexorder"
begin

text \<open>
  Shared vocabulary of the development: the machine types of the C sources, the outcome type
  of routines that read through raw pointers, the collections of simplification rules the
  component theories contribute to, and generic lemmas on lists and words.
\<close>

unbundle bit_operations_syntax

type_synonym byte = "8 word"
type_synonym u32 = "32 word"
type_synonym u64 = "64 word"

text \<open>
  The outcome of a C routine that walks raw memory: a value, an error the routine reports
  itself, or a fault (an access outside the buffer it was given, which C leaves undefined).
\<close>

datatype 'a outcome = Value 'a | Failure | Fault

named_theorems roundtrip_simps
named_theorems bounds_simps

subsection \<open>Words\<close>

lemma unat_drop_bit_div: "unat (drop_bit n (v :: 'a::len word)) = unat v div 2 ^ n"
  by (metis drop_bit_eq_div unat_drop_bit_eq)

lemma unat_drop_bit_less [bounds_simps]:
  assumes "drop_bit n (v :: 'a::len word) \<noteq> 0" and "0 < n"
  shows "unat (drop_bit n v) < unat v"
proof -
  have "0 < unat v div 2 ^ n"
    using assms(1) by (metis unat_drop_bit_div unat_eq_zero gr0I)
  then have "0 < unat v"
    using gr_zeroI by fastforce
  moreover have "1 < (2::nat) ^ n"
    using assms(2) by (simp del: One_nat_def)
  ultimately show ?thesis
    by (simp add: unat_drop_bit_div)
qed

lemma unat_pred: "(v :: 'a::len word) \<noteq> 0 \<Longrightarrow> unat (v - 1) = unat v - 1"
  by (simp add: unat_minus_one)

lemma bit_word_128: "bit (128 :: 'a::len word) n \<longleftrightarrow> n = 7 \<and> 7 < LENGTH('a)"
proof -
  have "(128 :: 'a word) = 2 ^ 7"
    by simp
  then show ?thesis
    by (simp only: bit_exp_iff possible_bit_word) auto
qed

lemma bit_int_128: "bit (128 :: int) n \<longleftrightarrow> n = 7"
proof -
  have "(128 :: int) = 2 ^ 7"
    by simp
  then show ?thesis
    by (simp only: bit_exp_iff possible_bit_int) auto
qed

lemmas bit_128_simps = bit_word_128 bit_int_128

lemma and_127_take_bit: "(v :: 'a::len word) AND 127 = take_bit 7 v"
proof -
  have "(127 :: 'a word) = mask 7"
    by (simp add: mask_eq_exp_minus_1)
  then show ?thesis
    by (simp add: take_bit_eq_mask)
qed

lemma and_128_bit: "((c :: byte) AND 128 = 0) = (\<not> bit c 7)"
proof -
  have "(128 :: byte) = push_bit 7 1"
    by simp
  then show ?thesis
    by (metis and_exp_eq_0_iff_not_bit push_bit_of_1)
qed

lemma bit_word_odd: "bit (w :: 'a::len word) n \<longleftrightarrow> odd (unat w div 2 ^ n)"
proof -
  have "bit w n = bit (unat w) n"
    by (simp add: bit_unsigned_iff)
  then show ?thesis
    by (simp add: bit_iff_odd)
qed

lemma byte_and_128: "(c :: byte) AND 128 = 0 \<longleftrightarrow> unat c < 128"
proof -
  have "unat c < 256"
    using unsigned_less [of c, where 'a = nat] by simp
  then have "unat c div 128 = (if unat c < 128 then 0 else 1)"
    by auto
  then show ?thesis
    unfolding and_128_bit bit_word_odd by simp
qed

lemma unat_of_nat_small: "n < 2 ^ LENGTH('a) \<Longrightarrow> unat (of_nat n :: 'a::len word) = n"
  by (simp add: unat_of_nat)

lemma unat_64_less: "unat (w :: u64) < 18446744073709551616"
  using unsigned_less [of w, where 'a = nat] by simp

lemma unat_sub_of_nat:
  assumes "n \<le> unat (w :: u64)"
  shows "unat (w - of_nat n) = unat w - n"
proof -
  have "unat (of_nat n :: u64) = n"
    using assms unat_64_less [of w] by (intro unat_of_nat_small) simp
  then show ?thesis
    using assms by (simp add: unat_sub word_le_nat_alt)
qed

subsection \<open>Lists\<close>

lemma take_drop_split: "n \<le> length xs \<Longrightarrow> xs = take n xs @ drop n xs"
  by simp

lemma nth_take_Suc_snoc: "n < length xs \<Longrightarrow> take (Suc n) xs = take n xs @ [xs ! n]"
  by (rule take_Suc_conv_app_nth)

end
