(* ===== verification/Git_Varint.thy ===== *)
theory Git_Varint
  imports Git_Prelude
begin

text \<open>
  \<^verbatim>\<open>varint.c\<close>: the offset encoding of unsigned integers used by the index and by pack
  files, over 64-bit \<open>uintmax_t\<close>.  The theory also states the interface \<open>codec\<close>: an encoder and
  a decoder that consumes exactly what the encoder wrote and returns the rest of its input.
\<close>

subsection \<open>The codec interface\<close>

fun decode_many :: "('b list \<Rightarrow> ('a \<times> 'b list) option) \<Rightarrow> nat \<Rightarrow> 'b list \<Rightarrow> ('a list \<times> 'b list) option" where
  "decode_many dec 0 bs = Some ([], bs)"
| "decode_many dec (Suc n) bs =
     (case dec bs of
        None \<Rightarrow> None
      | Some (x, bs') \<Rightarrow>
          (case decode_many dec n bs' of
             None \<Rightarrow> None
           | Some (xs, rest) \<Rightarrow> Some (x # xs, rest)))"

locale codec =
  fixes enc :: "'a \<Rightarrow> 'b list"
    and dec :: "'b list \<Rightarrow> ('a \<times> 'b list) option"
    and valid :: "'a \<Rightarrow> bool"
  assumes dec_enc: "valid x \<Longrightarrow> dec (enc x @ rest) = Some (x, rest)"
begin

lemma enc_injective: "valid x \<Longrightarrow> valid y \<Longrightarrow> enc x @ r = enc y @ s \<Longrightarrow> x = y \<and> r = s"
  by (metis dec_enc option.inject prod.inject)

lemma enc_prefix_free: "valid x \<Longrightarrow> valid y \<Longrightarrow> enc y = enc x @ r \<Longrightarrow> x = y \<and> r = []"
  by (metis append_Nil2 enc_injective)

lemma decode_many_encode:
  "\<forall>x\<in>set xs. valid x \<Longrightarrow>
     decode_many dec (length xs) (concat (map enc xs) @ rest) = Some (xs, rest)"
  by (induction xs) (simp_all add: dec_enc)

end

subsection \<open>Encoding\<close>

text \<open>
  \<open>encode_varint\<close> fills a 16-byte scratch array from its end: the list holds the bytes written
  so far, \<open>varint + pos\<close> to the end of the array, so its length is \<open>sizeof(varint) - pos\<close>.
\<close>

function encode_varint_loop :: "u64 \<Rightarrow> byte list \<Rightarrow> byte list" where
  "encode_varint_loop value acc =
     (let value1 = drop_bit 7 value in
      if value1 = 0 then acc
      else let value2 = value1 - 1 in
           encode_varint_loop value2 (ucast (128 OR (value2 AND 127)) # acc))"
  by pat_completeness auto
termination
proof (relation "measure (\<lambda>(value, acc). unat value)")
  fix v :: u64 and acc :: "byte list" and v1 v2
  assume "v1 = drop_bit 7 v" and "v1 \<noteq> 0" and "v2 = v1 - 1"
  then show "((v2, ucast (128 OR (v2 AND 127)) # acc), (v, acc))
      \<in> measure (\<lambda>(value, acc). unat value)"
    using unat_drop_bit_less [of 7 v] by (simp add: unat_pred)
qed simp

declare encode_varint_loop.simps [simp del]

definition encode_varint :: "u64 \<Rightarrow> byte list" where
  "encode_varint value = encode_varint_loop value [ucast (value AND 127)]"

subsection \<open>Decoding\<close>

text \<open>
  \<open>decode_varint\<close> advances \<open>*bufp\<close> only on success; on overflow it returns 0 and leaves the
  pointer where it was.  \<open>None\<close> is a read past the end of the buffer.
\<close>

fun decode_varint_loop :: "byte list \<Rightarrow> u64 \<Rightarrow> byte \<Rightarrow> byte list \<Rightarrow> (u64 \<times> byte list) option" where
  "decode_varint_loop bufp val c buf =
     (if c AND 128 = 0 then Some (val, buf)
      else let val1 = val + 1 in
           if val1 = 0 \<or> val1 AND push_bit 57 127 \<noteq> 0 then Some (0, bufp)
           else (case buf of
                   [] \<Rightarrow> None
                 | c' # buf' \<Rightarrow>
                     decode_varint_loop bufp (push_bit 7 val1 + ucast (c' AND 127)) c' buf'))"

declare decode_varint_loop.simps [simp del]

fun decode_varint :: "byte list \<Rightarrow> (u64 \<times> byte list) option" where
  "decode_varint [] = None"
| "decode_varint (c # buf) = decode_varint_loop (c # buf) (ucast (c AND 127)) c buf"

subsection \<open>Low seven bits\<close>

lemma split_low_7: "push_bit 7 (drop_bit 7 (v :: 'a::len word)) + (v AND 127) = v"
  by (simp add: and_127_take_bit bits_ident)

lemma cont_byte_low: "ucast ((ucast (128 OR (v AND 127)) :: byte) AND 127) = (v :: u64) AND 127"
  by (rule bit_word_eqI) (auto simp: bit_simps and_127_take_bit bit_128_simps)

lemma cont_byte_bit: "(ucast (128 OR ((v :: u64) AND 127)) :: byte) AND 128 \<noteq> 0"
  unfolding and_128_bit by (simp add: bit_simps bit_128_simps)

lemma cont_byte_id:
  assumes "bit (c :: byte) 7"
  shows "(ucast (128 OR (ucast (c AND 127) :: u64)) :: byte) = c"
proof (rule bit_word_eqI)
  fix n
  assume "n < LENGTH(8)"
  then have "n < 7 \<or> n = 7"
    by simp arith
  then show "bit (ucast (128 OR (ucast (c AND 127) :: u64)) :: byte) n = bit c n"
    using assms by (auto simp: bit_simps and_127_take_bit bit_128_simps)
qed

lemma top_bits_clear: "drop_bit 7 (v :: u64) AND push_bit 57 127 = 0"
proof -
  have high: "push_bit 57 127 = (push_bit 57 (mask 7) :: u64)"
    by (simp add: mask_eq_exp_minus_1)
  show ?thesis
    unfolding high by (rule bit_word_eqI) (auto simp: bit_simps dest: bit_imp_le_length)
qed

subsection \<open>Round trip and canonical form\<close>

lemma encode_varint_loop_append:
  "encode_varint_loop v (acc @ r) = encode_varint_loop v acc @ r"
proof (induction v acc rule: encode_varint_loop.induct)
  case (1 v acc)
  then show ?case
    by (subst (1 2) encode_varint_loop.simps) (simp add: Let_def)
qed

lemma encode_varint_loop_Cons:
  "encode_varint_loop v (c # r) = encode_varint_loop v [c] @ r"
  using encode_varint_loop_append [of v "[c]" r] by simp

text \<open>The decoder, run over what the encoder put before a byte, reaches that byte.\<close>

lemma decode_encode_loop:
  "\<exists>b bs. encode_varint_loop v (c # r) = b # bs \<and>
     (\<forall>bufp. decode_varint_loop bufp (ucast (b AND 127)) b bs =
        decode_varint_loop bufp (push_bit 7 (drop_bit 7 v) + ucast (c AND 127)) c r)"
proof (induction v "c # r" arbitrary: c r rule: encode_varint_loop.induct)
  case (1 v c r)
  show ?case
  proof (cases "drop_bit 7 v = 0")
    case True
    then show ?thesis
      by (subst encode_varint_loop.simps) simp
  next
    case False
    define w where "w = drop_bit 7 v - 1"
    define d :: byte where "d = ucast (128 OR (w AND 127))"
    have enc: "encode_varint_loop v (c # r) = encode_varint_loop w (d # c # r)"
      using False by (subst encode_varint_loop.simps) (simp add: Let_def w_def d_def)
    obtain b bs where b: "encode_varint_loop w (d # c # r) = b # bs"
      and dec: "\<And>bufp. decode_varint_loop bufp (ucast (b AND 127)) b bs =
        decode_varint_loop bufp (push_bit 7 (drop_bit 7 w) + ucast (d AND 127)) d (c # r)"
      using "1.hyps" [OF refl False refl] unfolding w_def d_def by blast
    have "push_bit 7 (drop_bit 7 w) + ucast (d AND 127) = w"
      by (simp add: d_def cont_byte_low split_low_7)
    moreover have "decode_varint_loop bufp w d (c # r) =
        decode_varint_loop bufp (push_bit 7 (drop_bit 7 v) + ucast (c AND 127)) c r" for bufp
      using False cont_byte_bit [of w] top_bits_clear [of v]
      by (subst decode_varint_loop.simps) (simp add: Let_def d_def w_def)
    ultimately show ?thesis
      using enc b dec by simp
  qed
qed

lemma decode_encode_varint: "decode_varint (encode_varint v @ rest) = Some (v, rest)"
proof -
  let ?c = "ucast (v AND 127) :: byte"
  obtain b bs where b: "encode_varint_loop v (?c # rest) = b # bs"
    and dec: "\<And>bufp. decode_varint_loop bufp (ucast (b AND 127)) b bs =
        decode_varint_loop bufp (push_bit 7 (drop_bit 7 v) + ucast (?c AND 127)) ?c rest"
    using decode_encode_loop [of v ?c rest] by blast
  have low: "push_bit 7 (drop_bit 7 v) + ucast (?c AND 127) = v"
  proof -
    have "(ucast (?c AND 127) :: u64) = v AND 127"
      by (rule bit_word_eqI) (auto simp: bit_simps and_127_take_bit)
    then show ?thesis
      by (simp add: split_low_7)
  qed
  have "?c AND 128 = 0"
    unfolding and_128_bit by (simp add: bit_simps and_127_take_bit)
  then have "decode_varint_loop bufp v ?c rest = Some (v, rest)" for bufp
    by (subst decode_varint_loop.simps) simp
  moreover have "encode_varint v @ rest = b # bs"
    using b encode_varint_loop_Cons [of v ?c rest] by (simp add: encode_varint_def)
  ultimately show ?thesis
    using dec low by simp
qed

interpretation varint: codec encode_varint decode_varint "\<lambda>_. True"
  by unfold_locales (rule decode_encode_varint)

text \<open>Conversely, what the decoder consumed is the encoding of the value it returned.\<close>

lemma push_bit_add_or:
  "push_bit 7 (x :: u64) + ucast (c AND 127 :: byte) = push_bit 7 x OR ucast (c AND 127)"
  by (rule disjunctive_add) (auto simp: bit_simps and_127_take_bit)

lemma push_bit_add_low:
  "(push_bit 7 (x :: u64) + ucast (c AND 127 :: byte)) AND 127 = ucast (c AND 127)"
  unfolding push_bit_add_or by (rule bit_word_eqI) (auto simp: bit_simps and_127_take_bit)

lemma encode_loop_step:
  assumes "bit (c :: byte) 7" and "val + 1 \<noteq> 0" and "(val + 1) AND push_bit 57 127 = 0"
    and "val AND 127 = ucast (c AND 127)"
  shows "encode_varint_loop (push_bit 7 (val + 1) + ucast (c' AND 127 :: byte)) acc =
    encode_varint_loop val (c # acc)"
proof -
  have small: "bit (val + 1) n \<Longrightarrow> n < 57" for n
  proof (rule ccontr)
    assume n: "bit (val + 1) n" "\<not> n < 57"
    have high: "push_bit 57 127 = (push_bit 57 (mask 7) :: u64)"
      by (simp add: mask_eq_exp_minus_1)
    have "n < 64"
      using n(1) by (auto dest: bit_imp_le_length)
    then have "bit ((val + 1) AND push_bit 57 127) n"
      using n unfolding high by (auto simp: bit_simps)
    then show False
      using assms(3) by simp
  qed
  have "drop_bit 7 (push_bit 7 (val + 1) + ucast (c' AND 127)) = val + 1"
    unfolding push_bit_add_or
    by (rule bit_word_eqI) (use small in \<open>fastforce simp: bit_simps and_127_take_bit\<close>)
  moreover have "ucast (128 OR (val AND 127)) = c"
    unfolding assms(4) using assms(1) by (rule cont_byte_id)
  ultimately show ?thesis
    using assms(2) by (subst encode_varint_loop.simps) (simp add: Let_def)
qed

lemma decode_loop_sound:
  assumes "decode_varint_loop bufp val c buf = Some (v, rest)"
    and "val AND 127 = ucast (c AND 127)"
  shows "encode_varint_loop val [c] @ buf = encode_varint v @ rest \<or> v = 0 \<and> rest = bufp"
  using assms
proof (induction bufp val c buf arbitrary: v rest rule: decode_varint_loop.induct)
  case (1 bufp val c buf)
  show ?case
  proof (cases "c AND 128 = 0")
    case True
    then have "\<not> bit c 7"
      by (simp add: and_128_bit)
    then have "c = ucast (val AND 127)"
      unfolding "1.prems"(2)
      by (intro bit_word_eqI) (auto simp: bit_simps and_127_take_bit less_Suc_eq numeral_eq_Suc)
    then show ?thesis
      using True "1.prems"(1) by (subst (asm) decode_varint_loop.simps) (simp add: encode_varint_def)
  next
    case False
    then have bit7: "bit c 7"
      by (simp add: and_128_bit)
    show ?thesis
    proof (cases "val + 1 = 0 \<or> (val + 1) AND push_bit 57 127 \<noteq> 0")
      case True
      then show ?thesis
        using False "1.prems"(1)
        by (subst (asm) decode_varint_loop.simps) (simp add: Let_def del: push_bit_numeral)
    next
      case ok: False
      obtain c' buf' where buf: "buf = c' # buf'"
        and rec: "decode_varint_loop bufp (push_bit 7 (val + 1) + ucast (c' AND 127)) c' buf'
          = Some (v, rest)"
        using False ok "1.prems"(1)
        by (subst (asm) decode_varint_loop.simps) (auto simp: Let_def split: list.splits)
      have low: "(push_bit 7 (val + 1) + ucast (c' AND 127)) AND 127 = (ucast (c' AND 127) :: u64)"
        by (rule push_bit_add_low)
      have "encode_varint_loop (push_bit 7 (val + 1) + ucast (c' AND 127)) [c'] @ buf' =
          encode_varint v @ rest \<or> v = 0 \<and> rest = bufp"
        using "1.IH" [OF False refl ok buf rec low] .
      moreover have "encode_varint_loop (push_bit 7 (val + 1) + ucast (c' AND 127)) [c'] =
          encode_varint_loop val [c, c']"
        using bit7 ok "1.prems"(2) by (intro encode_loop_step) auto
      ultimately show ?thesis
        using encode_varint_loop_Cons [of val c "[c']"] buf by simp
    qed
  qed
qed

subsection \<open>Properties\<close>

lemma encode_loop_length:
  "unat v < 128 ^ Suc k \<Longrightarrow> length (encode_varint_loop v acc) \<le> length acc + k"
proof (induction k arbitrary: v acc)
  case 0
  then have "unat (drop_bit 7 v) = 0"
    by (simp add: unat_drop_bit_div)
  then have "drop_bit 7 v = 0"
    by (simp only: unat_eq_zero)
  then show ?case
    by (subst encode_varint_loop.simps) simp
next
  case (Suc k)
  show ?case
  proof (cases "drop_bit 7 v = 0")
    case True
    then show ?thesis
      by (subst encode_varint_loop.simps) simp
  next
    case False
    have "unat (drop_bit 7 v) < 128 ^ Suc k"
      using Suc.prems by (simp add: unat_drop_bit_div less_mult_imp_div_less mult.commute)
    then have "unat (drop_bit 7 v - 1) < 128 ^ Suc k"
      using False by (simp add: unat_pred)
    then have "length (encode_varint_loop (drop_bit 7 v - 1) (c # acc)) \<le> Suc (length acc) + k" for c
      using Suc.IH [of "drop_bit 7 v - 1" "c # acc"] by simp
    then show ?thesis
      using False by (subst encode_varint_loop.simps) (simp add: Let_def le_SucI)
  qed
qed

text \<open>
  (C6) Every 64-bit value survives a round trip through the offset encoding, and the decoder
  leaves exactly the bytes that follow the encoding, so encodings can be laid out back to back.
\<close>

theorem varint_roundtrip:
  "decode_varint (encode_varint v @ rest) = Some (v, rest) \<and>
   decode_many decode_varint (length vs) (concat (map encode_varint vs) @ rest) = Some (vs, rest)"
  using decode_encode_varint varint.decode_many_encode [of vs rest] by simp

text \<open>
  The encoding is canonical: whenever the decoder accepts a byte string, what it consumed is
  the encoding of the value it returns; the only other result is the overflow answer, value 0
  with the buffer pointer unmoved.
\<close>

theorem varint_canonical:
  assumes "decode_varint bs = Some (v, rest)"
  shows "bs = encode_varint v @ rest \<or> v = 0 \<and> rest = bs"
proof (cases bs)
  case Nil
  then show ?thesis
    using assms by simp
next
  case (Cons c buf)
  have "(ucast (c AND 127) :: u64) AND 127 = ucast (c AND 127)"
    by (rule bit_word_eqI) (auto simp: bit_simps and_127_take_bit)
  moreover have "encode_varint_loop (ucast (c AND 127)) [c] = [c]"
    proof -
    have "drop_bit 7 (ucast (c AND 127) :: u64) = 0"
      by (rule bit_word_eqI) (auto simp: bit_simps and_127_take_bit)
    then show ?thesis
      by (subst encode_varint_loop.simps) (simp add: Let_def)
  qed
  ultimately show ?thesis
    using assms decode_loop_sound [of bs "ucast (c AND 127)" c buf v rest] Cons by simp
qed

theorem varint_canonical_witness:
  "decode_varint [0x81, 0x00, 0x2a] = Some (256, [0x2a]) \<and>
   ([0x81, 0x00, 0x2a] = encode_varint 256 @ [0x2a] \<or> (256 :: u64) = 0 \<and> [0x2a] = [0x81, 0x00, (0x2a::byte)])"
proof -
  have h: "decode_varint [0x81, 0x00, 0x2a] = Some (256, [0x2a])"
    by (simp add: decode_varint_loop.simps)
  show ?thesis
    using h varint_canonical [OF h] by simp
qed

text \<open>
  The scratch array of \<open>encode_varint\<close> never overflows: the encoding of any 64-bit value
  takes between 1 and 10 of its 16 bytes.
\<close>

theorem varint_length_bounds: "1 \<le> length (encode_varint v) \<and> length (encode_varint v) \<le> 10"
proof
  have "encode_varint v \<noteq> []"
    using decode_encode_varint [of v "[]"] by (cases "encode_varint v") auto
  then show "1 \<le> length (encode_varint v)"
    by (simp add: Suc_leI)
  have "unat v < 2 ^ 64"
    using unsigned_less [of v] by simp
  then have "unat v < 128 ^ Suc 9"
    by simp
  from encode_loop_length [OF this] show "length (encode_varint v) \<le> 10"
    unfolding encode_varint_def by (rule order_trans) simp
qed

end
