(* ===== verification/Git_Rabin.thy ===== *)
theory Git_Rabin
  imports Git_Prelude
begin

text \<open>
  The Rabin fingerprint of \<^verbatim>\<open>diff-delta.c\<close>: its tables \<open>T\<close> and \<open>U\<close> and the hash of a 16-byte
  window, with the facts the delta routines need: a table index never leaves its table, and the
  rolling update of \<open>create_delta\<close> computes the hash of the shifted window.
\<close>

subsection \<open>Rabin fingerprints\<close>

definition HASH_LIMIT :: nat where "HASH_LIMIT = 64"
definition RABIN_SHIFT :: nat where "RABIN_SHIFT = 23"
definition RABIN_WINDOW :: nat where "RABIN_WINDOW = 16"

lemmas delta_consts = HASH_LIMIT_def RABIN_SHIFT_def RABIN_WINDOW_def

definition rabin_T :: "u32 list" where
  "rabin_T =
    [0x00000000, 0xab59b4d1, 0x56b369a2, 0xfdeadd73, 0x063f6795, 0xad66d344,
     0x508c0e37, 0xfbd5bae6, 0x0c7ecf2a, 0xa7277bfb, 0x5acda688, 0xf1941259,
     0x0a41a8bf, 0xa1181c6e, 0x5cf2c11d, 0xf7ab75cc, 0x18fd9e54, 0xb3a42a85,
     0x4e4ef7f6, 0xe5174327, 0x1ec2f9c1, 0xb59b4d10, 0x48719063, 0xe32824b2,
     0x1483517e, 0xbfdae5af, 0x423038dc, 0xe9698c0d, 0x12bc36eb, 0xb9e5823a,
     0x440f5f49, 0xef56eb98, 0x31fb3ca8, 0x9aa28879, 0x6748550a, 0xcc11e1db,
     0x37c45b3d, 0x9c9defec, 0x6177329f, 0xca2e864e, 0x3d85f382, 0x96dc4753,
     0x6b369a20, 0xc06f2ef1, 0x3bba9417, 0x90e320c6, 0x6d09fdb5, 0xc6504964,
     0x2906a2fc, 0x825f162d, 0x7fb5cb5e, 0xd4ec7f8f, 0x2f39c569, 0x846071b8,
     0x798aaccb, 0xd2d3181a, 0x25786dd6, 0x8e21d907, 0x73cb0474, 0xd892b0a5,
     0x23470a43, 0x881ebe92, 0x75f463e1, 0xdeadd730, 0x63f67950, 0xc8afcd81,
     0x354510f2, 0x9e1ca423, 0x65c91ec5, 0xce90aa14, 0x337a7767, 0x9823c3b6,
     0x6f88b67a, 0xc4d102ab, 0x393bdfd8, 0x92626b09, 0x69b7d1ef, 0xc2ee653e,
     0x3f04b84d, 0x945d0c9c, 0x7b0be704, 0xd05253d5, 0x2db88ea6, 0x86e13a77,
     0x7d348091, 0xd66d3440, 0x2b87e933, 0x80de5de2, 0x7775282e, 0xdc2c9cff,
     0x21c6418c, 0x8a9ff55d, 0x714a4fbb, 0xda13fb6a, 0x27f92619, 0x8ca092c8,
     0x520d45f8, 0xf954f129, 0x04be2c5a, 0xafe7988b, 0x5432226d, 0xff6b96bc,
     0x02814bcf, 0xa9d8ff1e, 0x5e738ad2, 0xf52a3e03, 0x08c0e370, 0xa39957a1,
     0x584ced47, 0xf3155996, 0x0eff84e5, 0xa5a63034, 0x4af0dbac, 0xe1a96f7d,
     0x1c43b20e, 0xb71a06df, 0x4ccfbc39, 0xe79608e8, 0x1a7cd59b, 0xb125614a,
     0x468e1486, 0xedd7a057, 0x103d7d24, 0xbb64c9f5, 0x40b17313, 0xebe8c7c2,
     0x16021ab1, 0xbd5bae60, 0x6cb54671, 0xc7ecf2a0, 0x3a062fd3, 0x915f9b02,
     0x6a8a21e4, 0xc1d39535, 0x3c394846, 0x9760fc97, 0x60cb895b, 0xcb923d8a,
     0x3678e0f9, 0x9d215428, 0x66f4eece, 0xcdad5a1f, 0x3047876c, 0x9b1e33bd,
     0x7448d825, 0xdf116cf4, 0x22fbb187, 0x89a20556, 0x7277bfb0, 0xd92e0b61,
     0x24c4d612, 0x8f9d62c3, 0x7836170f, 0xd36fa3de, 0x2e857ead, 0x85dcca7c,
     0x7e09709a, 0xd550c44b, 0x28ba1938, 0x83e3ade9, 0x5d4e7ad9, 0xf617ce08,
     0x0bfd137b, 0xa0a4a7aa, 0x5b711d4c, 0xf028a99d, 0x0dc274ee, 0xa69bc03f,
     0x5130b5f3, 0xfa690122, 0x0783dc51, 0xacda6880, 0x570fd266, 0xfc5666b7,
     0x01bcbbc4, 0xaae50f15, 0x45b3e48d, 0xeeea505c, 0x13008d2f, 0xb85939fe,
     0x438c8318, 0xe8d537c9, 0x153feaba, 0xbe665e6b, 0x49cd2ba7, 0xe2949f76,
     0x1f7e4205, 0xb427f6d4, 0x4ff24c32, 0xe4abf8e3, 0x19412590, 0xb2189141,
     0x0f433f21, 0xa41a8bf0, 0x59f05683, 0xf2a9e252, 0x097c58b4, 0xa225ec65,
     0x5fcf3116, 0xf49685c7, 0x033df00b, 0xa86444da, 0x558e99a9, 0xfed72d78,
     0x0502979e, 0xae5b234f, 0x53b1fe3c, 0xf8e84aed, 0x17bea175, 0xbce715a4,
     0x410dc8d7, 0xea547c06, 0x1181c6e0, 0xbad87231, 0x4732af42, 0xec6b1b93,
     0x1bc06e5f, 0xb099da8e, 0x4d7307fd, 0xe62ab32c, 0x1dff09ca, 0xb6a6bd1b,
     0x4b4c6068, 0xe015d4b9, 0x3eb80389, 0x95e1b758, 0x680b6a2b, 0xc352defa,
     0x3887641c, 0x93ded0cd, 0x6e340dbe, 0xc56db96f, 0x32c6cca3, 0x999f7872,
     0x6475a501, 0xcf2c11d0, 0x34f9ab36, 0x9fa01fe7, 0x624ac294, 0xc9137645,
     0x26459ddd, 0x8d1c290c, 0x70f6f47f, 0xdbaf40ae, 0x207afa48, 0x8b234e99,
     0x76c993ea, 0xdd90273b, 0x2a3b52f7, 0x8162e626, 0x7c883b55, 0xd7d18f84,
     0x2c043562, 0x875d81b3, 0x7ab75cc0, 0xd1eee811]"

definition rabin_U :: "u32 list" where
  "rabin_U =
    [0x00000000, 0x7eb5200d, 0x5633f4cb, 0x2886d4c6, 0x073e5d47, 0x798b7d4a,
     0x510da98c, 0x2fb88981, 0x0e7cba8e, 0x70c99a83, 0x584f4e45, 0x26fa6e48,
     0x0942e7c9, 0x77f7c7c4, 0x5f711302, 0x21c4330f, 0x1cf9751c, 0x624c5511,
     0x4aca81d7, 0x347fa1da, 0x1bc7285b, 0x65720856, 0x4df4dc90, 0x3341fc9d,
     0x1285cf92, 0x6c30ef9f, 0x44b63b59, 0x3a031b54, 0x15bb92d5, 0x6b0eb2d8,
     0x4388661e, 0x3d3d4613, 0x39f2ea38, 0x4747ca35, 0x6fc11ef3, 0x11743efe,
     0x3eccb77f, 0x40799772, 0x68ff43b4, 0x164a63b9, 0x378e50b6, 0x493b70bb,
     0x61bda47d, 0x1f088470, 0x30b00df1, 0x4e052dfc, 0x6683f93a, 0x1836d937,
     0x250b9f24, 0x5bbebf29, 0x73386bef, 0x0d8d4be2, 0x2235c263, 0x5c80e26e,
     0x740636a8, 0x0ab316a5, 0x2b7725aa, 0x55c205a7, 0x7d44d161, 0x03f1f16c,
     0x2c4978ed, 0x52fc58e0, 0x7a7a8c26, 0x04cfac2b, 0x73e5d470, 0x0d50f47d,
     0x25d620bb, 0x5b6300b6, 0x74db8937, 0x0a6ea93a, 0x22e87dfc, 0x5c5d5df1,
     0x7d996efe, 0x032c4ef3, 0x2baa9a35, 0x551fba38, 0x7aa733b9, 0x041213b4,
     0x2c94c772, 0x5221e77f, 0x6f1ca16c, 0x11a98161, 0x392f55a7, 0x479a75aa,
     0x6822fc2b, 0x1697dc26, 0x3e1108e0, 0x40a428ed, 0x61601be2, 0x1fd53bef,
     0x3753ef29, 0x49e6cf24, 0x665e46a5, 0x18eb66a8, 0x306db26e, 0x4ed89263,
     0x4a173e48, 0x34a21e45, 0x1c24ca83, 0x6291ea8e, 0x4d29630f, 0x339c4302,
     0x1b1a97c4, 0x65afb7c9, 0x446b84c6, 0x3adea4cb, 0x1258700d, 0x6ced5000,
     0x4355d981, 0x3de0f98c, 0x15662d4a, 0x6bd30d47, 0x56ee4b54, 0x285b6b59,
     0x00ddbf9f, 0x7e689f92, 0x51d01613, 0x2f65361e, 0x07e3e2d8, 0x7956c2d5,
     0x5892f1da, 0x2627d1d7, 0x0ea10511, 0x7014251c, 0x5facac9d, 0x21198c90,
     0x099f5856, 0x772a785b, 0x4c921c31, 0x32273c3c, 0x1aa1e8fa, 0x6414c8f7,
     0x4bac4176, 0x3519617b, 0x1d9fb5bd, 0x632a95b0, 0x42eea6bf, 0x3c5b86b2,
     0x14dd5274, 0x6a687279, 0x45d0fbf8, 0x3b65dbf5, 0x13e30f33, 0x6d562f3e,
     0x506b692d, 0x2ede4920, 0x06589de6, 0x78edbdeb, 0x5755346a, 0x29e01467,
     0x0166c0a1, 0x7fd3e0ac, 0x5e17d3a3, 0x20a2f3ae, 0x08242768, 0x76910765,
     0x59298ee4, 0x279caee9, 0x0f1a7a2f, 0x71af5a22, 0x7560f609, 0x0bd5d604,
     0x235302c2, 0x5de622cf, 0x725eab4e, 0x0ceb8b43, 0x246d5f85, 0x5ad87f88,
     0x7b1c4c87, 0x05a96c8a, 0x2d2fb84c, 0x539a9841, 0x7c2211c0, 0x029731cd,
     0x2a11e50b, 0x54a4c506, 0x69998315, 0x172ca318, 0x3faa77de, 0x411f57d3,
     0x6ea7de52, 0x1012fe5f, 0x38942a99, 0x46210a94, 0x67e5399b, 0x19501996,
     0x31d6cd50, 0x4f63ed5d, 0x60db64dc, 0x1e6e44d1, 0x36e89017, 0x485db01a,
     0x3f77c841, 0x41c2e84c, 0x69443c8a, 0x17f11c87, 0x38499506, 0x46fcb50b,
     0x6e7a61cd, 0x10cf41c0, 0x310b72cf, 0x4fbe52c2, 0x67388604, 0x198da609,
     0x36352f88, 0x48800f85, 0x6006db43, 0x1eb3fb4e, 0x238ebd5d, 0x5d3b9d50,
     0x75bd4996, 0x0b08699b, 0x24b0e01a, 0x5a05c017, 0x728314d1, 0x0c3634dc,
     0x2df207d3, 0x534727de, 0x7bc1f318, 0x0574d315, 0x2acc5a94, 0x54797a99,
     0x7cffae5f, 0x024a8e52, 0x06852279, 0x78300274, 0x50b6d6b2, 0x2e03f6bf,
     0x01bb7f3e, 0x7f0e5f33, 0x57888bf5, 0x293dabf8, 0x08f998f7, 0x764cb8fa,
     0x5eca6c3c, 0x207f4c31, 0x0fc7c5b0, 0x7172e5bd, 0x59f4317b, 0x27411176,
     0x1a7c5765, 0x64c97768, 0x4c4fa3ae, 0x32fa83a3, 0x1d420a22, 0x63f72a2f,
     0x4b71fee9, 0x35c4dee4, 0x1400edeb, 0x6ab5cde6, 0x42331920, 0x3c86392d,
     0x133eb0ac, 0x6d8b90a1, 0x450d4467, 0x3bb8646a]"

definition rabin_step :: "u32 \<Rightarrow> byte \<Rightarrow> u32" where
  "rabin_step v b = (push_bit 8 v OR ucast b) XOR rabin_T ! unat (drop_bit RABIN_SHIFT v)"

definition rabin_window :: "byte list \<Rightarrow> u32" where
  "rabin_window bs = foldl rabin_step 0 bs"

lemma rabin_T_length: "length rabin_T = 256"
  by (simp add: rabin_T_def)

lemma rabin_U_length: "length rabin_U = 256"
  by (simp add: rabin_U_def)

subsection \<open>Linearity of the tables\<close>

text \<open>
  Both tables are the linear span of their entries at the powers of two.  \<open>xor_span\<close> lists the
  span in the order of the tables.
\<close>

fun xor_span :: "u32 list \<Rightarrow> u32 list" where
  "xor_span [] = [0]"
| "xor_span (b # bs) = concat (map (\<lambda>x. [x, x XOR b]) (xor_span bs))"

lemma length_xor_span: "length (xor_span bs) = 2 ^ length bs"
  by (induction bs) (simp_all add: length_concat comp_def sum_list_triv)

definition rabin_T_basis :: "u32 list" where
  "rabin_T_basis = [0xab59b4d1, 0x56b369a2, 0x063f6795, 0x0c7ecf2a, 0x18fd9e54, 0x31fb3ca8, 0x63f67950, 0x6cb54671]"

definition rabin_U_basis :: "u32 list" where
  "rabin_U_basis = [0x7eb5200d, 0x5633f4cb, 0x073e5d47, 0x0e7cba8e, 0x1cf9751c, 0x39f2ea38, 0x73e5d470, 0x4c921c31]"

lemma rabin_T_basis_length: "length rabin_T_basis = 8"
  by (simp add: rabin_T_basis_def)

lemma rabin_U_basis_length: "length rabin_U_basis = 8"
  by (simp add: rabin_U_basis_def)

lemma rabin_T_span: "rabin_T = xor_span rabin_T_basis"
  by (simp add: rabin_T_def rabin_T_basis_def)

lemma rabin_U_span: "rabin_U = xor_span rabin_U_basis"
  by (simp add: rabin_U_def rabin_U_basis_def)

fun xor_pick :: "u32 list \<Rightarrow> nat \<Rightarrow> u32" where
  "xor_pick [] n = 0"
| "xor_pick (b # bs) n = xor_pick bs (n div 2) XOR (if odd n then b else 0)"

lemma nth_concat_pairs:
  "n < 2 * length xs \<Longrightarrow>
     concat (map (\<lambda>x. [f x, g x]) xs) ! n = (if odd n then g else f) (xs ! (n div 2))"
proof (induction xs arbitrary: n)
  case Nil
  then show ?case by simp
next
  case (Cons x xs)
  consider "n = 0" | "n = 1" | m where "n = Suc (Suc m)"
    by (metis One_nat_def not0_implies_Suc)
  then show ?case
    using Cons.IH Cons.prems by cases auto
qed

lemma xor_span_nth: "n < 2 ^ length bs \<Longrightarrow> xor_span bs ! n = xor_pick bs n"
proof (induction bs arbitrary: n)
  case Nil
  then show ?case by simp
next
  case (Cons b bs)
  then have "n div 2 < 2 ^ length bs"
    by auto
  then show ?case
    using Cons by (simp add: nth_concat_pairs length_xor_span)
qed

lemma xor_pick_xor: "xor_pick bs (m XOR n) = xor_pick bs m XOR xor_pick bs n"
proof (induction bs arbitrary: m n)
  case Nil
  then show ?case by simp
next
  case (Cons b bs)
  have "(m XOR n) div 2 = m div 2 XOR n div 2"
    using drop_bit_xor [of 1 m n] by (simp add: drop_bit_eq_div)
  moreover have "odd (m XOR n) \<longleftrightarrow> odd m \<noteq> odd n"
    using bit_xor_iff [of m n 0] by (simp add: bit_0)
  ultimately show ?case
    using Cons by (auto simp: ac_simps)
qed

lemma xor_pick_top_bit:
  "\<forall>b\<in>set bs. \<not> bit b k \<Longrightarrow> \<not> bit (xor_pick bs n) k"
  by (induction bs arbitrary: n) (auto simp: bit_xor_iff)

text \<open>
  A fingerprint is a 31-bit value.  On such values the index into \<open>T\<close> is below 256, and the
  step keeps the value below \<open>2\<^sup>31\<close>.
\<close>

definition rabin_ok :: "u32 \<Rightarrow> bool" where
  "rabin_ok v \<longleftrightarrow> \<not> bit v 31"

lemma rabin_ok_0 [simp]: "rabin_ok 0"
  by (simp add: rabin_ok_def)

lemma rabin_index:
  assumes "rabin_ok v"
  shows "unat (drop_bit RABIN_SHIFT v) < 256"
proof -
  have "take_bit 8 (drop_bit 23 v) = drop_bit 23 v"
    using assms
  proof (intro bit_word_eqI)
    fix n
    show "bit (take_bit 8 (drop_bit 23 v)) n = bit (drop_bit 23 v) n"
    proof (cases "bit v (23 + n)")
      case True
      moreover have "23 + n < 32"
        using bit_imp_le_length [OF True] by simp
      moreover have "23 + n \<noteq> 31"
        using True assms by (metis rabin_ok_def)
      ultimately show ?thesis
        by (simp add: bit_simps)
    next
      case False
      then show ?thesis
        by (simp add: bit_simps)
    qed
  qed
  then have "unat (drop_bit 23 v) = take_bit 8 (unat (drop_bit 23 v))"
    by (metis unsigned_take_bit_eq)
  then show ?thesis
    using take_bit_nat_less_exp [of 8 "unat (drop_bit 23 v)"] by (simp add: RABIN_SHIFT_def)
qed

lemma rabin_T_pick:
  assumes "rabin_ok v"
  shows "rabin_T ! unat (drop_bit RABIN_SHIFT v) = xor_pick rabin_T_basis (unat (drop_bit RABIN_SHIFT v))"
  using rabin_index [OF assms] unfolding rabin_T_span
  by (intro xor_span_nth) (simp add: rabin_T_basis_length)

lemma rabin_step_pick:
  assumes "rabin_ok v"
  shows "rabin_step v b =
    push_bit 8 v XOR ucast b XOR xor_pick rabin_T_basis (unat (drop_bit 23 v))"
proof -
  have "push_bit 8 v OR ucast b = push_bit 8 v XOR (ucast b :: u32)"
    by (rule bit_word_eqI) (auto simp: bit_simps dest: bit_imp_le_length)
  then show ?thesis
    using rabin_T_pick [OF assms] by (simp add: rabin_step_def RABIN_SHIFT_def xor.assoc)
qed

lemma rabin_step_ok:
  assumes "rabin_ok v"
  shows "rabin_ok (rabin_step v b)"
proof -
  obtain b0 bs where basis: "rabin_T_basis = b0 # bs" and set: "bit b0 31"
    and clear: "\<forall>b\<in>set bs. \<not> bit b 31"
    by (simp add: rabin_T_basis_def bit_word_odd)
  have "bit (xor_pick rabin_T_basis n) 31 \<longleftrightarrow> odd n" for n
    unfolding basis using xor_pick_top_bit [OF clear] set by (simp add: bit_xor_iff)
  moreover have "odd (unat (drop_bit 23 v)) \<longleftrightarrow> bit v 23"
    by (simp add: unat_drop_bit_div bit_word_odd)
  moreover have "bit (push_bit 8 v) 31 \<longleftrightarrow> bit v 23" and "\<not> bit (ucast b :: u32) 31"
    by (simp_all add: bit_push_bit_iff bit_unsigned_iff)
      (use bit_imp_le_length in fastforce)
  ultimately show ?thesis
    unfolding rabin_ok_def rabin_step_pick [OF assms] bit_xor_iff by simp
qed

lemma rabin_foldl_ok: "rabin_ok v \<Longrightarrow> rabin_ok (foldl rabin_step v bs)"
  by (induction bs arbitrary: v) (simp_all add: rabin_step_ok)

lemma rabin_window_ok [simp]: "rabin_ok (rabin_window bs)"
  by (simp add: rabin_window_def rabin_foldl_ok)

lemma rabin_step_xor:
  assumes "rabin_ok v" and "rabin_ok w"
  shows "rabin_step (v XOR w) (b XOR c) = rabin_step v b XOR rabin_step w c"
proof -
  have "rabin_ok (v XOR w)"
    using assms by (simp add: rabin_ok_def bit_xor_iff)
  then show ?thesis
    using assms
    by (simp add: rabin_step_pick drop_bit_xor push_bit_xor unsigned_xor_eq xor_pick_xor ac_simps)
qed

lemma rabin_foldl_xor:
  "length bs = length cs \<Longrightarrow> rabin_ok v \<Longrightarrow> rabin_ok w \<Longrightarrow>
     foldl rabin_step (v XOR w) (map2 (XOR) bs cs) =
       foldl rabin_step v bs XOR foldl rabin_step w cs"
  by (induction bs cs arbitrary: v w rule: list_induct2) (simp_all add: rabin_step_xor rabin_step_ok)

lemma xor_pick_0: "xor_pick bs 0 = 0"
  by (induction bs) auto

lemma rabin_step_0_0: "rabin_step 0 0 = 0"
  by (simp add: rabin_step_pick xor_pick_0)

lemma rabin_step_0: "rabin_ok v \<Longrightarrow> rabin_step v 0 = push_bit 8 v XOR xor_pick rabin_T_basis (unat (drop_bit 23 v))"
  by (simp add: rabin_step_pick)

lemma replicate_15_0: "replicate 15 (0 :: byte) = [0, 0, 0, 0, 0, 0, 0, 0, 0, 0, 0, 0, 0, 0, 0]"
  by (simp add: eval_nat_numeral)

lemma rabin_U_power_0: "foldl rabin_step 0 (1 # replicate 15 0) = xor_pick rabin_U_basis 1"
  by (simp add: replicate_15_0 rabin_step_pick xor_pick_0 rabin_ok_def bit_word_odd
      rabin_T_basis_def rabin_U_basis_def)

lemma rabin_U_power_1: "foldl rabin_step 0 (2 # replicate 15 0) = xor_pick rabin_U_basis 2"
  by (simp add: replicate_15_0 rabin_step_pick xor_pick_0 rabin_ok_def bit_word_odd
      rabin_T_basis_def rabin_U_basis_def)

lemma rabin_U_power_2: "foldl rabin_step 0 (4 # replicate 15 0) = xor_pick rabin_U_basis 4"
  by (simp add: replicate_15_0 rabin_step_pick xor_pick_0 rabin_ok_def bit_word_odd
      rabin_T_basis_def rabin_U_basis_def)

lemma rabin_U_power_3: "foldl rabin_step 0 (8 # replicate 15 0) = xor_pick rabin_U_basis 8"
  by (simp add: replicate_15_0 rabin_step_pick xor_pick_0 rabin_ok_def bit_word_odd
      rabin_T_basis_def rabin_U_basis_def)

lemma rabin_U_power_4: "foldl rabin_step 0 (16 # replicate 15 0) = xor_pick rabin_U_basis 16"
  by (simp add: replicate_15_0 rabin_step_pick xor_pick_0 rabin_ok_def bit_word_odd
      rabin_T_basis_def rabin_U_basis_def)

lemma rabin_U_power_5: "foldl rabin_step 0 (32 # replicate 15 0) = xor_pick rabin_U_basis 32"
  by (simp add: replicate_15_0 rabin_step_pick xor_pick_0 rabin_ok_def bit_word_odd
      rabin_T_basis_def rabin_U_basis_def)

lemma rabin_U_power_6: "foldl rabin_step 0 (64 # replicate 15 0) = xor_pick rabin_U_basis 64"
  by (simp add: replicate_15_0 rabin_step_pick xor_pick_0 rabin_ok_def bit_word_odd
      rabin_T_basis_def rabin_U_basis_def)

lemma rabin_U_power_7: "foldl rabin_step 0 (128 # replicate 15 0) = xor_pick rabin_U_basis 128"
  by (simp add: replicate_15_0 rabin_step_pick xor_pick_0 rabin_ok_def bit_word_odd
      rabin_T_basis_def rabin_U_basis_def)

lemma bit_if_zero: "bit (if P then a else (0 :: byte)) n \<longleftrightarrow> P \<and> bit a n"
  by simp

lemma byte_xor_bits:
  fixes c :: byte
  shows "c = (if bit c 0 then 1 else 0) XOR (if bit c 1 then 2 else 0) XOR
    (if bit c 2 then 4 else 0) XOR (if bit c 3 then 8 else 0) XOR
    (if bit c 4 then 16 else 0) XOR (if bit c 5 then 32 else 0) XOR
    (if bit c 6 then 64 else 0) XOR (if bit c 7 then 128 else 0)" (is "c = ?x")
proof (rule bit_word_eqI)
  fix n
  assume "n < LENGTH(8)"
  then consider "n = 0" | "n = 1" | "n = 2" | "n = 3" | "n = 4" | "n = 5" | "n = 6" | "n = 7"
    by fastforce
  then show "bit c n = bit ?x n"
    by cases (simp_all only: bit_xor_iff bit_if_zero, simp_all add: bit_word_odd)
qed

lemma additive_byte_eqI:
  fixes f g :: "byte \<Rightarrow> u32"
  assumes f: "\<And>a b. f (a XOR b) = f a XOR f b" and g: "\<And>a b. g (a XOR b) = g a XOR g b"
    and base: "f 0 = g 0" "f 1 = g 1" "f 2 = g 2" "f 4 = g 4" "f 8 = g 8" "f 16 = g 16" "f 32 = g 32"
      "f 64 = g 64" "f 128 = g 128"
  shows "f c = g c"
  by (subst (1 2) byte_xor_bits [of c]) (simp only: f g if_distrib [of f] if_distrib [of g] base)

lemma map2_xor_0: "map2 (XOR) (replicate n (0 :: byte)) bs = take n bs"
proof (induction n arbitrary: bs)
  case 0
  then show ?case by simp
next
  case (Suc n)
  then show ?case by (cases bs) simp_all
qed

text \<open>\<open>U\<close> holds the contribution of the oldest byte of a window to the fingerprint.\<close>

lemma rabin_U_window: "rabin_U ! unat c = foldl rabin_step 0 (c # replicate 15 0)"
proof -
  have U: "rabin_U ! unat c = xor_pick rabin_U_basis (unat c)" for c :: byte
    using unsigned_less [of c, where 'a = nat] unfolding rabin_U_span
    by (intro xor_span_nth) (simp add: rabin_U_basis_length)
  have lin: "foldl rabin_step 0 ((a XOR b) # replicate 15 0) =
      foldl rabin_step 0 (a # replicate 15 0) XOR foldl rabin_step 0 (b # replicate 15 0)" for a b
    using rabin_foldl_xor [of "a # replicate 15 0" "b # replicate 15 0" 0 0]
    by (simp add: map2_xor_0)
  have zero: "foldl rabin_step 0 (0 # replicate 15 0) = 0"
    by (simp add: replicate_15_0 rabin_step_0_0)
  show ?thesis
    unfolding U
    by (rule additive_byte_eqI [where f = "\<lambda>c. xor_pick rabin_U_basis (unat c)"
          and g = "\<lambda>c. foldl rabin_step 0 (c # replicate 15 0)"])
      (use lin zero in \<open>simp_all add: unsigned_xor_eq xor_pick_xor xor_pick_0
         rabin_U_power_0 rabin_U_power_1 rabin_U_power_2 rabin_U_power_3 rabin_U_power_4
         rabin_U_power_5 rabin_U_power_6 rabin_U_power_7 del: foldl.simps\<close>)
qed

lemma rabin_roll:
  assumes "length bs = 15"
  shows "rabin_step (rabin_window (c # bs) XOR rabin_U ! unat c) d = rabin_window (bs @ [d])"
proof -
  have "rabin_window (c # bs) XOR rabin_U ! unat c = foldl rabin_step (0 XOR 0) (map2 (XOR) (c # bs) (c # replicate 15 0))"
    unfolding rabin_U_window rabin_window_def
    by (rule rabin_foldl_xor [symmetric]) (use assms in simp_all)
  also have "map2 (XOR) (c # bs) (c # replicate 15 0) = 0 # bs"
  proof -
    have "map2 (XOR) bs (replicate 15 0) = map2 (XOR) (replicate 15 0) bs"
      using assms by (intro nth_equalityI) (auto simp: xor.commute)
    then show ?thesis
      using assms map2_xor_0 [of 15 bs] by simp
  qed
  finally show ?thesis
    by (simp add: rabin_window_def rabin_step_0_0)
qed

lemma window_roll:
  assumes "RABIN_WINDOW \<le> d" and "d < length trg"
  shows "rabin_step (rabin_window (take RABIN_WINDOW (drop (d - RABIN_WINDOW) trg)) XOR
      rabin_U ! unat (trg ! (d - RABIN_WINDOW))) (trg ! d) =
    rabin_window (take RABIN_WINDOW (drop (d - (RABIN_WINDOW - 1)) trg))"
proof -
  define bs where "bs = take 15 (drop (d - 15) trg)"
  have w: "RABIN_WINDOW = 16"
    by (simp add: RABIN_WINDOW_def)
  have len: "length bs = 15"
    using assms by (simp add: bs_def w)
  have "Suc (d - 16) = d - 15"
    using assms(1) by (simp add: w)
  then have "drop (d - 16) trg = trg ! (d - 16) # drop (d - 15) trg"
    using assms(2) Cons_nth_drop_Suc [of "d - 16" trg] by simp
  then have "take 16 (drop (d - 16) trg) = trg ! (d - 16) # bs"
    by (simp add: bs_def)
  moreover have "take 16 (drop (d - 15) trg) = bs @ [trg ! d]"
    using assms take_Suc_conv_app_nth [of 15 "drop (d - 15) trg"] by (simp add: bs_def w)
  ultimately show ?thesis
    using rabin_roll [OF len] by (simp add: w)
qed

text \<open>
  The rolling hash: after XORing out the table entry of the byte that leaves, and stepping with
  the byte that enters, the hash is the hash of the new window computed from scratch.
\<close>
theorem rabin_rolling:
  assumes "RABIN_WINDOW \<le> d" and "d < length buf"
  shows "rabin_step (rabin_window (take RABIN_WINDOW (drop (d - RABIN_WINDOW) buf)) XOR
      rabin_U ! unat (buf ! (d - RABIN_WINDOW))) (buf ! d) =
    rabin_window (take RABIN_WINDOW (drop (Suc d - RABIN_WINDOW) buf))"
  using window_roll [OF assms] assms(1) by (simp add: RABIN_WINDOW_def Suc_diff_le)

lemma rabin_rolling_witness:
  "rabin_step (rabin_window (replicate 16 3) XOR rabin_U ! 3) 9 = rabin_window (replicate 15 3 @ [9])"
  using rabin_rolling [of 16 "replicate 16 3 @ [9]"] by (simp add: RABIN_WINDOW_def nth_append)

end
