(* ===== verification/Git_Delta_Index.thy ===== *)
theory Git_Delta_Index
  imports Git_Rabin
begin

text \<open>
  \<open>create_delta_index\<close> of \<^verbatim>\<open>diff-delta.c\<close>: it hashes every block of the source buffer into
  buckets, thins the buckets that are too full and packs them into one array.  Addresses into the
  source buffer are offsets.  Memory allocation is assumed to succeed; a NULL result is
  \<open>Failure\<close>, and a NULL dereference, an access before the entry array or a failed \<open>assert\<close> is
  \<open>Fault\<close>.
\<close>

subsection \<open>The packed index\<close>

record delta_index =
  src_buf :: "byte list"
  hash_mask :: u32
  hash_start :: "nat list"
  packed_entry :: "(nat \<times> u32) list"

text \<open>The entries from \<open>index->hash[i]\<close> up to \<open>index->hash[i+1]\<close>.\<close>

definition index_bucket :: "delta_index \<Rightarrow> nat \<Rightarrow> (nat \<times> u32) list" where
  "index_bucket idx i =
     take (hash_start idx ! Suc i - hash_start idx ! i) (drop (hash_start idx ! i) (packed_entry idx))"

subsection \<open>Building the buckets\<close>

text \<open>
  The state of the loop that populates the index: the entry array up to the pointer \<open>entry\<close>, each
  entry with its \<open>ptr\<close> and \<open>val\<close>; for every bucket the entries linked from \<open>hash[i]\<close>, by
  position and in list order, whose number is \<open>hash_count[i]\<close>; \<open>prev_val\<close>; and \<open>entries\<close>.
\<close>

record index_build =
  ib_entry :: "(nat \<times> u32) list"
  ib_hash :: "nat list list"
  ib_prev_val :: u32
  ib_entries :: nat

definition index_block :: "byte list \<Rightarrow> u32 \<Rightarrow> nat \<Rightarrow> index_build \<Rightarrow> index_build option" where
  "index_block buffer hmask k st =
     (let data = k * RABIN_WINDOW;
          val = rabin_window (take RABIN_WINDOW (drop (Suc data) buffer))
      in if val = ib_prev_val st then
           (case ib_entry st of
              [] \<Rightarrow> None
            | _ \<Rightarrow> Some (st\<lparr>ib_entry := (ib_entry st)
                                 [length (ib_entry st) - 1 :=
                                    (data + RABIN_WINDOW, snd (last (ib_entry st)))],
                            ib_entries := ib_entries st - 1\<rparr>))
         else
           (let i = unat (val AND hmask) in
            Some (st\<lparr>ib_prev_val := val,
                     ib_entry := ib_entry st @ [(data + RABIN_WINDOW, val)],
                     ib_hash := (ib_hash st)[i := length (ib_entry st) # ib_hash st ! i]\<rparr>)))"

fun index_blocks :: "byte list \<Rightarrow> u32 \<Rightarrow> nat \<Rightarrow> index_build \<Rightarrow> index_build option" where
  "index_blocks buffer hmask 0 st = Some st"
| "index_blocks buffer hmask (Suc k) st =
     (case index_block buffer hmask k st of
        None \<Rightarrow> None
      | Some st' \<Rightarrow> index_blocks buffer hmask k st')"

subsection \<open>Thinning the buckets\<close>

text \<open>
  The inner \<open>do\<close> loop steps \<open>entry\<close> along the list, at least once, until \<open>acc\<close> is no longer
  positive, and the code then follows \<open>entry->next\<close>: each step needs one more list element.
\<close>

function cull_skip :: "int \<Rightarrow> 'a list \<Rightarrow> (int \<times> 'a list) option" where
  "cull_skip acc [] = None"
| "cull_skip acc (e # es) =
     (let acc1 = acc - int HASH_LIMIT in
      if acc1 > 0 then cull_skip acc1 es else Some (acc1, es))"
  by pat_completeness auto
termination
  by (relation "measure (\<lambda>(acc, es). length es)") auto

lemma cull_skip_length: "cull_skip acc es = Some (acc', es') \<Longrightarrow> length es' < length es"
  by (induction acc es rule: cull_skip.induct) (fastforce simp: Let_def split: if_splits)+

function cull :: "int \<Rightarrow> int \<Rightarrow> 'a list \<Rightarrow> 'a list option" where
  "cull d acc [] = Some []"
| "cull d acc (e # es) =
     (let acc1 = acc + d in
      if acc1 > 0 then
        (case cull_skip acc1 es of
           None \<Rightarrow> None
         | Some (acc2, es') \<Rightarrow> map_option ((#) e) (cull d acc2 es'))
      else map_option ((#) e) (cull d acc1 es))"
  by pat_completeness auto
termination
  by (relation "measure (\<lambda>(d, acc, es). length es)") (auto dest: cull_skip_length)

definition cull_bucket :: "'a list \<Rightarrow> 'a list option" where
  "cull_bucket b =
     (if length b \<le> HASH_LIMIT then Some b
      else cull (int (length b) - int HASH_LIMIT) 0 b)"

fun cull_buckets :: "'a list list \<Rightarrow> nat \<Rightarrow> ('a list list \<times> nat) option" where
  "cull_buckets [] entries = Some ([], entries)"
| "cull_buckets (b # bs) entries =
     (case cull_bucket b of
        None \<Rightarrow> None
      | Some b' \<Rightarrow>
          map_option (apfst ((#) b')) (cull_buckets bs (entries - (length b - HASH_LIMIT))))"

subsection \<open>Packing\<close>

fun pack_starts :: "nat \<Rightarrow> 'a list list \<Rightarrow> nat list" where
  "pack_starts n [] = [n]"
| "pack_starts n (b # bs) = n # pack_starts (n + length b) bs"

function hash_bits :: "nat \<Rightarrow> nat \<Rightarrow> nat" where
  "hash_bits i hsize = (if 2 ^ i < hsize then hash_bits (Suc i) hsize else i)"
  by pat_completeness auto
termination
  by (relation "measure (\<lambda>(i, hsize). hsize - 2 ^ i)") (auto intro!: diff_less_mono2)

declare hash_bits.simps [simp del]

definition create_delta_index :: "byte list \<Rightarrow> delta_index outcome" where
  "create_delta_index buffer =
     (if buffer = [] then Failure
      else
        let entries = (if length buffer \<ge> 0xffffffff then 0xfffffffe div RABIN_WINDOW
                       else (length buffer - 1) div RABIN_WINDOW);
            hsize = 2 ^ hash_bits 4 (entries div 4);
            hmask = of_nat hsize - 1
        in case index_blocks buffer hmask entries
                  \<lparr>ib_entry = [], ib_hash = replicate hsize [], ib_prev_val = - 1, ib_entries = entries\<rparr> of
             None \<Rightarrow> Fault
           | Some st \<Rightarrow>
               (case cull_buckets (ib_hash st) (ib_entries st) of
                  None \<Rightarrow> Fault
                | Some (buckets, entries) \<Rightarrow>
                    let packed = map ((!) (ib_entry st)) (concat buckets)
                    in if length packed = entries then
                         Value \<lparr>src_buf = buffer, hash_mask = hmask,
                                hash_start = pack_starts 0 buckets, packed_entry = packed\<rparr>
                       else Fault))"

subsection \<open>Thinning keeps exactly the limit\<close>

lemma cull_skip_drop:
  "0 < acc \<Longrightarrow> n = nat ((acc + 63) div 64) \<Longrightarrow> n \<le> length es \<Longrightarrow>
     cull_skip acc es = Some (acc - 64 * int n, drop n es)"
proof (induction acc es arbitrary: n rule: cull_skip.induct)
  case (1 acc)
  then show ?case by simp
next
  case (2 acc e es)
  show ?case
  proof (cases "acc - 64 > 0")
    case True
    have n: "n = Suc (nat ((acc - 64 + 63) div 64))"
    proof -
      have "(acc + 63) div 64 = (acc - 1) div 64 + 1"
        using div_add_self2 [of 64 "acc - 1"] by simp
      moreover have "0 \<le> (acc - 1) div 64"
        using True by simp
      ultimately show ?thesis
        using "2.prems"(2) by (simp add: nat_add_distrib)
    qed
    have "cull_skip (acc - 64) es =
        Some (acc - 64 - 64 * int (n - 1), drop (n - 1) es)"
      using True "2.IH" [of "acc - 64" "n - 1"] "2.prems"(3) n by (simp add: delta_consts)
    then show ?thesis
      using True n by (simp add: delta_consts Let_def)
  next
    case False
    then have "(acc + 63) div 64 = 1"
      using "2.prems"(1) by presburger
    then have "n = 1"
      using "2.prems"(2) by simp
    then show ?thesis
      using False by (simp add: delta_consts Let_def)
  qed
qed

lemma cull_keeps:
  assumes "0 \<le> d" and "- 64 < acc" and "acc \<le> 0"
    and "64 * (int (length es) - int j) = acc + int j * d"
  shows "\<exists>r. cull d acc es = Some r \<and> length r = j \<and> set r \<subseteq> set es"
  using assms(2-)
proof (induction j arbitrary: acc es)
  case 0
  then have "64 * int (length es) = acc"
    by simp
  then have "int (length es) = 0"
    using "0.prems"(1,2) by presburger
  then show ?case
    by simp
next
  case (Suc j)
  have jd: "0 \<le> int j * d"
    using assms(1) by simp
  have eq: "64 * (int (length es) - int j - 1) = acc + d + int j * d"
    using Suc.prems(3) by (simp add: algebra_simps)
  then have "0 < length es"
    using Suc.prems(1) assms(1) jd by (cases "length es") auto
  then obtain e es' where es: "es = e # es'"
    by (cases es) auto
  have eq': "64 * (int (length es') - int j) = acc + d + int j * d"
    using eq es by simp
  show ?case
  proof (cases "acc + d > 0")
    case True
    define n where "n = nat ((acc + d + 63) div 64)"
    have n: "acc + d \<le> 64 * int n" "64 * int n < acc + d + 64"
      using True unfolding n_def by auto
    have "n \<le> length es'"
    proof -
      have "64 * int n < 64 * (int (length es') + 1)"
      proof -
        obtain p where "64 * (int (length es') - int j) = acc + d + p" and "0 \<le> p"
          using eq' jd by blast
        then show ?thesis
          using n(2) by simp
      qed
      then show ?thesis
        by simp
    qed
    then have skip: "cull_skip (acc + d) es' = Some (acc + d - 64 * int n, drop n es')"
      using True n_def by (intro cull_skip_drop) auto
    have "64 * (int (length (drop n es')) - int j) = (acc + d - 64 * int n) + int j * d"
      using eq' \<open>n \<le> length es'\<close> by (simp add: of_nat_diff algebra_simps)
    then obtain r where "cull d (acc + d - 64 * int n) (drop n es') = Some r" "length r = j"
      and r: "set r \<subseteq> set (drop n es')"
      using Suc.IH [of "acc + d - 64 * int n" "drop n es'"] n by auto
    then show ?thesis
      using True skip set_drop_subset [of n es'] unfolding es by (auto simp: Let_def)
  next
    case False
    then obtain r where "cull d (acc + d) es' = Some r" "length r = j" "set r \<subseteq> set es'"
      using Suc.IH [of "acc + d" es'] Suc.prems(1) assms(1) eq' by auto
    then show ?thesis
      using False unfolding es by (auto simp: Let_def)
  qed
qed

lemma cull_bucket_ok:
  "\<exists>r. cull_bucket b = Some r \<and> length r = min (length b) HASH_LIMIT \<and> set r \<subseteq> set b"
proof (cases "length b \<le> HASH_LIMIT")
  case True
  then show ?thesis
    by (simp add: cull_bucket_def)
next
  case False
  then have "\<exists>r. cull (int (length b) - 64) 0 b = Some r \<and> length r = 64 \<and> set r \<subseteq> set b"
    by (intro cull_keeps) (auto simp: delta_consts)
  then show ?thesis
    using False by (auto simp: cull_bucket_def delta_consts)
qed

lemma cull_count: "(b :: nat) + s \<le> e \<Longrightarrow> e - (b - h) - s = e - (b + s) + min b h"
  by (cases "b \<le> h") auto

lemma cull_buckets_ok:
  assumes "sum_list (map length bs) \<le> entries"
  shows "\<exists>cs. cull_buckets bs entries = Some (cs, entries - sum_list (map length bs) + sum_list (map length cs)) \<and>
     length cs = length bs \<and>
     (\<forall>i<length bs. length (cs ! i) = min (length (bs ! i)) HASH_LIMIT \<and> set (cs ! i) \<subseteq> set (bs ! i))"
  using assms
proof (induction bs arbitrary: entries)
  case Nil
  then show ?case by simp
next
  case (Cons b bs)
  obtain r where r: "cull_bucket b = Some r" "length r = min (length b) HASH_LIMIT" "set r \<subseteq> set b"
    using cull_bucket_ok [of b] by blast
  let ?e = "entries - (length b - HASH_LIMIT)"
  have le: "sum_list (map length bs) \<le> ?e"
    using Cons.prems by simp
  then obtain cs where cs: "cull_buckets bs ?e = Some (cs, ?e - sum_list (map length bs) + sum_list (map length cs))"
    "length cs = length bs"
    "\<forall>i<length bs. length (cs ! i) = min (length (bs ! i)) HASH_LIMIT \<and> set (cs ! i) \<subseteq> set (bs ! i)"
    using Cons.IH [OF le] by blast
  have "?e - sum_list (map length bs) + sum_list (map length cs) =
      entries - sum_list (map length (b # bs)) + sum_list (map length (r # cs))"
  proof -
    have "?e - sum_list (map length bs) =
        entries - (length b + sum_list (map length bs)) + min (length b) HASH_LIMIT"
      using Cons.prems by (intro cull_count) simp
    then show ?thesis
      using r(2) by simp
  qed
  then show ?case
    using r cs by (intro exI [of _ "r # cs"]) (auto simp: nth_Cons split: nat.splits)
qed

subsection \<open>The packed buckets are the linked ones\<close>

lemma pack_starts_nth:
  "i \<le> length bs \<Longrightarrow> pack_starts n bs ! i = n + length (concat (take i bs))"
proof (induction bs arbitrary: n i)
  case Nil
  then show ?case by simp
next
  case (Cons b bs)
  then show ?case by (cases i) auto
qed

lemma length_pack_starts: "length (pack_starts n bs) = Suc (length bs)"
  by (induction bs arbitrary: n) auto

lemma concat_split_nth: "i < length bs \<Longrightarrow> concat bs = concat (take i bs) @ bs ! i @ concat (drop (Suc i) bs)"
  by (metis concat.simps(2) concat_append id_take_nth_drop)

lemma index_bucket_packed:
  assumes "i < length buckets"
    and "idx = \<lparr>src_buf = buf, hash_mask = m, hash_start = pack_starts 0 buckets,
           packed_entry = map f (concat buckets)\<rparr>"
  shows "index_bucket idx i = map f (buckets ! i)"
proof -
  have "concat (take (Suc i) buckets) = concat (take i buckets) @ buckets ! i"
    using assms(1) by (simp add: take_Suc_conv_app_nth)
  then show ?thesis
    using assms concat_split_nth [OF assms(1)]
    by (simp add: index_bucket_def pack_starts_nth drop_map take_map)
qed

subsection \<open>What the index holds\<close>

text \<open>
  An entry points at the last byte of a window of the source and carries that window's hash.
\<close>

definition index_entry_ok :: "byte list \<Rightarrow> nat \<times> u32 \<Rightarrow> bool" where
  "index_entry_ok src e \<longleftrightarrow>
     RABIN_WINDOW \<le> fst e \<and> fst e < length src \<and> fst e < 0xffffffff \<and>
     snd e = rabin_window (take RABIN_WINDOW (drop (fst e - (RABIN_WINDOW - 1)) src))"

definition delta_index_ok :: "delta_index \<Rightarrow> bool" where
  "delta_index_ok idx \<longleftrightarrow>
     length (hash_start idx) = Suc (Suc (unat (hash_mask idx))) \<and>
     (\<forall>i \<le> unat (hash_mask idx).
        length (index_bucket idx i) \<le> HASH_LIMIT \<and>
        (\<forall>e \<in> set (index_bucket idx i).
           index_entry_ok (src_buf idx) e \<and> unat (snd e AND hash_mask idx) = i))"

definition index_build_ok :: "byte list \<Rightarrow> u32 \<Rightarrow> nat \<Rightarrow> index_build \<Rightarrow> bool" where
  "index_build_ok src hmask k st \<longleftrightarrow>
     length (ib_hash st) = Suc (unat hmask) \<and>
     (\<forall>e \<in> set (ib_entry st). index_entry_ok src e) \<and>
     (\<forall>i \<le> unat hmask. \<forall>j \<in> set (ib_hash st ! i).
        j < length (ib_entry st) \<and> unat (snd (ib_entry st ! j) AND hmask) = i) \<and>
     ib_prev_val st = (if ib_entry st = [] then - 1 else snd (last (ib_entry st))) \<and>
     ib_entries st = k + length (ib_entry st) \<and>
     sum_list (map length (ib_hash st)) = length (ib_entry st)"

lemma unat_and_le: "unat ((v :: u32) AND m) \<le> unat m"
  by (metis word_and_le1 word_le_nat_alt and.commute)

lemma rabin_window_not_minus_1: "rabin_window bs \<noteq> - 1"
proof
  assume eq: "rabin_window bs = - 1"
  have "bit (- 1 :: u32) 31"
    by simp
  then show False
    using rabin_window_ok [of bs] unfolding eq rabin_ok_def by simp
qed

lemma index_block_ok:
  assumes ok: "index_build_ok src hmask (Suc k) st"
    and fits: "Suc k * RABIN_WINDOW < length src" "Suc k * RABIN_WINDOW < 0xffffffff"
  shows "\<exists>st'. index_block src hmask k st = Some st' \<and> index_build_ok src hmask k st'"
proof -
  define v where "v = rabin_window (take RABIN_WINDOW (drop (Suc (k * RABIN_WINDOW)) src))"
  have entry: "index_entry_ok src (k * RABIN_WINDOW + RABIN_WINDOW, v)"
    using fits by (auto simp: index_entry_ok_def v_def delta_consts)
  show ?thesis
  proof (cases "v = ib_prev_val st")
    case True
    then have ne: "ib_entry st \<noteq> []" and last: "snd (last (ib_entry st)) = v"
      using ok rabin_window_not_minus_1 unfolding index_build_ok_def v_def by (auto split: if_splits)
    define es where "es = (ib_entry st)[length (ib_entry st) - 1 := (k * RABIN_WINDOW + RABIN_WINDOW, v)]"
    have es: "length es = length (ib_entry st)" "es \<noteq> []" "last es = (k * RABIN_WINDOW + RABIN_WINDOW, v)"
      "\<forall>e\<in>set es. index_entry_ok src e"
      using ne entry ok set_update_subset_insert [of "ib_entry st" "length (ib_entry st) - 1"]
      by (auto simp: es_def index_build_ok_def last_list_update)
    have snd: "j < length es \<Longrightarrow> snd (es ! j) = snd (ib_entry st ! j)" for j
      using ne last by (auto simp: es_def nth_list_update last_conv_nth)
    have "index_block src hmask k st = Some (st\<lparr>ib_entry := es, ib_entries := ib_entries st - 1\<rparr>)"
    proof -
      have "es = (ib_entry st)[length (ib_entry st) - 1 :=
          (k * RABIN_WINDOW + RABIN_WINDOW, snd (last (ib_entry st)))]"
        unfolding es_def last ..
      then show ?thesis
        using True ne by (simp add: index_block_def v_def Let_def split: list.split)
    qed
    moreover have "index_build_ok src hmask k (st\<lparr>ib_entry := es, ib_entries := ib_entries st - 1\<rparr>)"
      using ok True es ne last snd unfolding index_build_ok_def by auto
    ultimately show ?thesis
      by blast
  next
    case False
    define i where "i = unat (v AND hmask)"
    define st' where "st' = st\<lparr>ib_prev_val := v,
        ib_entry := ib_entry st @ [(k * RABIN_WINDOW + RABIN_WINDOW, v)],
        ib_hash := (ib_hash st)[i := length (ib_entry st) # ib_hash st ! i]\<rparr>"
    have i: "i < length (ib_hash st)"
      using ok unat_and_le [of v hmask] by (simp add: index_build_ok_def i_def)
    have "index_block src hmask k st = Some st'"
      using False by (simp add: index_block_def v_def [symmetric] Let_def st'_def i_def)
    moreover have "sum_list (map length (ib_hash st')) = length (ib_entry st')"
      using ok i elem_le_sum_list [of i "map length (ib_hash st)"]
      by (simp add: st'_def map_update sum_list_update index_build_ok_def)
    moreover have "j < length (ib_entry st') \<and> unat (snd (ib_entry st' ! j) AND hmask) = i'"
      if i': "i' \<le> unat hmask" and j: "j \<in> set (ib_hash st' ! i')" for i' j
    proof (cases "i' = i \<and> j = length (ib_entry st)")
      case True
      then show ?thesis
        by (simp add: st'_def i_def)
    next
      case old: False
      then have "j \<in> set (ib_hash st ! i')"
        using j i by (auto simp: st'_def nth_list_update split: if_splits)
      then have "j < length (ib_entry st) \<and> unat (snd (ib_entry st ! j) AND hmask) = i'"
        using ok i' unfolding index_build_ok_def by blast
      then show ?thesis
        by (simp add: st'_def nth_append)
    qed
    ultimately have "index_build_ok src hmask k st'"
      using ok entry unfolding index_build_ok_def by (simp add: st'_def)
    then show ?thesis
      using \<open>index_block src hmask k st = Some st'\<close> by blast
  qed
qed

lemma index_blocks_ok:
  assumes "index_build_ok src hmask k st"
    and "k * RABIN_WINDOW < length src" "k * RABIN_WINDOW < 0xffffffff"
  shows "\<exists>st'. index_blocks src hmask k st = Some st' \<and> index_build_ok src hmask 0 st'"
  using assms
proof (induction k arbitrary: st)
  case 0
  then show ?case by simp
next
  case (Suc k)
  obtain st' where st': "index_block src hmask k st = Some st'" "index_build_ok src hmask k st'"
    using index_block_ok [OF Suc.prems] by blast
  have "k * RABIN_WINDOW < length src" "k * RABIN_WINDOW < 0xffffffff"
    using Suc.prems(2,3) by auto
  then show ?case
    using Suc.IH [OF st'(2)] st'(1) by simp
qed

lemma hash_bits_ge: "i \<le> hash_bits i h"
proof (induction i h rule: hash_bits.induct)
  case (1 i h)
  then show ?case
    by (subst hash_bits.simps) (auto intro: Suc_leD)
qed

lemma hash_bits_bound: "h \<le> 2 ^ b \<Longrightarrow> i \<le> b \<Longrightarrow> hash_bits i h \<le> b"
proof (induction i h rule: hash_bits.induct)
  case (1 i h)
  show ?case
  proof (cases "2 ^ i < h")
    case True
    then have "i \<noteq> b"
      using "1.prems"(1) by auto
    then show ?thesis
      using True 1 by (subst hash_bits.simps) simp
  next
    case False
    then show ?thesis
      using "1.prems"(2) by (subst hash_bits.simps) simp
  qed
qed

lemma create_delta_index_cases:
  assumes "src \<noteq> []"
  shows "\<exists>idx. create_delta_index src = Value idx \<and> src_buf idx = src \<and> delta_index_ok idx"
proof -
  define entries where "entries = (if length src \<ge> 0xffffffff then 0xfffffffe div RABIN_WINDOW
      else (length src - 1) div RABIN_WINDOW)"
  define hsize where "hsize = (2::nat) ^ hash_bits 4 (entries div 4)"
  define hmask :: u32 where "hmask = of_nat hsize - 1"
  define st0 where "st0 = \<lparr>ib_entry = [], ib_hash = replicate hsize [], ib_prev_val = - 1, ib_entries = entries\<rparr>"
  have len: "0 < length src"
    using assms by simp
  have fits: "entries * RABIN_WINDOW < length src" "entries * RABIN_WINDOW < 0xffffffff"
  proof -
    have "entries * RABIN_WINDOW \<le> (if length src \<ge> 0xffffffff then 0xfffffffe else length src - 1)"
      by (simp add: entries_def)
    moreover obtain n where "length src = Suc n"
      using len by (cases "length src") auto
    ultimately show "entries * RABIN_WINDOW < length src" "entries * RABIN_WINDOW < 0xffffffff"
      by (auto split: if_splits)
  qed
  have "entries div 4 \<le> 2 ^ 26"
    using fits(2) by (simp add: delta_consts)
  then have "hash_bits 4 (entries div 4) \<le> 26"
    by (rule hash_bits_bound) simp
  then have "hsize \<le> 2 ^ 26"
    unfolding hsize_def by (rule power_increasing) simp
  moreover have "0 < hsize"
    by (simp add: hsize_def)
  ultimately have hmask: "unat hmask = hsize - 1"
    unfolding hmask_def by (simp add: unat_of_nat_small unat_pred word_unat_eq_iff)
  have "index_build_ok src hmask entries st0"
    using \<open>0 < hsize\<close> by (simp add: index_build_ok_def st0_def hmask sum_list_replicate)
  then obtain st where st: "index_blocks src hmask entries st0 = Some st"
    and ok: "index_build_ok src hmask 0 st"
    using index_blocks_ok fits by blast
  obtain cs where cs: "cull_buckets (ib_hash st) (ib_entries st) = Some (cs, sum_list (map length cs))"
    and lcs: "length cs = length (ib_hash st)"
    and sub: "\<forall>i<length (ib_hash st). length (cs ! i) = min (length (ib_hash st ! i)) HASH_LIMIT \<and>
       set (cs ! i) \<subseteq> set (ib_hash st ! i)"
    using cull_buckets_ok [of "ib_hash st" "ib_entries st"] ok by (auto simp: index_build_ok_def)
  define idx where "idx = \<lparr>src_buf = src, hash_mask = hmask, hash_start = pack_starts 0 cs,
      packed_entry = map ((!) (ib_entry st)) (concat cs)\<rparr>"
  have "create_delta_index src = Value idx"
    using assms st cs
    unfolding create_delta_index_def entries_def [symmetric] Let_def hsize_def [symmetric]
      hmask_def [symmetric] st0_def [symmetric]
    by (simp add: idx_def length_concat)
  moreover have "delta_index_ok idx"
  proof -
    have bucket: "index_bucket idx i = map ((!) (ib_entry st)) (cs ! i)" if "i \<le> unat hmask" for i
      using that ok lcs by (intro index_bucket_packed [OF _ idx_def]) (simp add: index_build_ok_def)
    have "length (hash_start idx) = Suc (Suc (unat (hash_mask idx)))"
      using ok lcs by (simp add: idx_def length_pack_starts index_build_ok_def)
    moreover have "length (index_bucket idx i) \<le> HASH_LIMIT \<and>
        (\<forall>e \<in> set (index_bucket idx i). index_entry_ok src e \<and> unat (snd e AND hmask) = i)"
      if i: "i \<le> unat hmask" for i
    proof -
      have lt: "i < length (ib_hash st)"
        using i ok by (simp add: index_build_ok_def)
      have "index_entry_ok src e \<and> unat (snd e AND hmask) = i" if mem: "e \<in> set (index_bucket idx i)" for e
      proof -
        obtain j where "j \<in> set (cs ! i)" and e: "e = ib_entry st ! j"
          using mem unfolding bucket [OF i] by auto
        then have "j \<in> set (ib_hash st ! i)"
          using sub lt by blast
        then have "j < length (ib_entry st)" and "unat (snd (ib_entry st ! j) AND hmask) = i"
          using ok i unfolding index_build_ok_def by blast+
        then show ?thesis
          using ok e nth_mem [of j "ib_entry st"] unfolding index_build_ok_def by blast
      qed
      moreover have "length (index_bucket idx i) \<le> HASH_LIMIT"
        using sub lt unfolding bucket [OF i] by simp
      ultimately show ?thesis
        by blast
    qed
    ultimately show ?thesis
      by (simp add: delta_index_ok_def idx_def)
  qed
  ultimately show ?thesis
    by (auto simp: idx_def)
qed

subsection \<open>The properties of the component\<close>

text \<open>
  (C9) \<open>create_delta_index\<close> succeeds on every non-empty buffer, without reading or writing outside its
  tables; every bucket holds at most \<open>HASH_LIMIT\<close> entries, and every entry of bucket \<open>i\<close> points at
  the end of a full window inside the buffer, carries the hash of that window, and belongs to \<open>i\<close>.
\<close>
theorem delta_index_correct:
  assumes "src \<noteq> []"
  shows "\<exists>idx. create_delta_index src = Value idx \<and> src_buf idx = src \<and>
    (\<forall>i \<le> unat (hash_mask idx). length (index_bucket idx i) \<le> HASH_LIMIT \<and>
      (\<forall>(ref, v) \<in> set (index_bucket idx i).
         RABIN_WINDOW \<le> ref \<and> ref < length src \<and>
         v = rabin_window (take RABIN_WINDOW (drop (ref - (RABIN_WINDOW - 1)) src)) \<and>
         unat (v AND hash_mask idx) = i))"
  using create_delta_index_cases [OF assms] by (fastforce simp: delta_index_ok_def index_entry_ok_def)

lemma delta_index_correct_witness:
  "\<exists>idx. create_delta_index (replicate 17 5) = Value idx \<and> src_buf idx = replicate 17 5"
  using delta_index_correct [of "replicate 17 5"] by auto

text \<open>
  Culling a bucket keeps \<open>min n HASH_LIMIT\<close> of its \<open>n\<close> entries and never follows the list past
  its end.
\<close>
theorem cull_bucket_limit:
  "\<exists>r. cull_bucket b = Some r \<and> length r = min (length b) HASH_LIMIT \<and> set r \<subseteq> set b"
  by (rule cull_bucket_ok)

end
