(* ===== verification/Git_Delta_Patch.thy ===== *)
theory Git_Delta_Patch
  imports Git_Prelude "HOL-Library.Monad_Syntax"
begin

text \<open>
  \<^verbatim>\<open>patch-delta.c\<close> and the header reader of \<^verbatim>\<open>delta.h\<close>: rebuilding a target buffer from a
  source buffer and a delta.  The routine walks the delta through a raw pointer and checks
  \<open>data < top\<close> only between opcodes, so a read that would leave the delta is a \<open>Fault\<close>; a NULL
  result is \<open>Failure\<close>.  Memory allocation is assumed to succeed.
\<close>

subsection \<open>Size header\<close>

text \<open>
  \<open>get_delta_hdr_size\<close>: \<open>None\<close> is a read past the end of the delta or a shift by 64 bits or more,
  both undefined in C.
\<close>

fun get_delta_hdr_loop :: "u64 \<Rightarrow> nat \<Rightarrow> byte list \<Rightarrow> (u64 \<times> byte list) option" where
  "get_delta_hdr_loop sz i [] = None"
| "get_delta_hdr_loop sz i (cmd # data) =
     (if 64 \<le> i then None
      else let size1 = sz OR push_bit i (ucast (cmd AND 0x7f)) in
           if cmd AND 0x80 \<noteq> 0 \<and> data \<noteq> [] then get_delta_hdr_loop size1 (i + 7) data
           else Some (size1, data))"

definition get_delta_hdr_size :: "byte list \<Rightarrow> (u64 \<times> byte list) option" where
  "get_delta_hdr_size data = get_delta_hdr_loop 0 0 data"

subsection \<open>Opcodes\<close>

text \<open>One conditional operand byte: \<open>if (cmd & bit) x |= *data++ << shift\<close>.\<close>

fun delta_operand :: "bool \<Rightarrow> nat \<Rightarrow> u64 \<times> byte list \<Rightarrow> (u64 \<times> byte list) option" where
  "delta_operand False shift (x, data) = Some (x, data)"
| "delta_operand True shift (x, []) = None"
| "delta_operand True shift (x, b # data) = Some (x OR push_bit shift (ucast b), data)"

definition copy_operands :: "byte \<Rightarrow> byte list \<Rightarrow> (u64 \<times> u64 \<times> byte list) option" where
  "copy_operands cmd data =
     do {
       s0 \<leftarrow> delta_operand (cmd AND 0x01 \<noteq> 0) 0 (0, data);
       s1 \<leftarrow> delta_operand (cmd AND 0x02 \<noteq> 0) 8 s0;
       s2 \<leftarrow> delta_operand (cmd AND 0x04 \<noteq> 0) 16 s1;
       (cp_off, d3) \<leftarrow> delta_operand (cmd AND 0x08 \<noteq> 0) 24 s2;
       s4 \<leftarrow> delta_operand (cmd AND 0x10 \<noteq> 0) 0 (0, d3);
       s5 \<leftarrow> delta_operand (cmd AND 0x20 \<noteq> 0) 8 s4;
       (cp_size, d6) \<leftarrow> delta_operand (cmd AND 0x40 \<noteq> 0) 16 s5;
       Some (cp_off, (if cp_size = 0 then 0x10000 else cp_size), d6)
     }"

lemma delta_operand_length: "delta_operand c sh s = Some (x, d) \<Longrightarrow> length d \<le> length (snd s)"
  by (cases "(c, sh, s)" rule: delta_operand.cases) auto

lemma copy_operands_length: "copy_operands cmd data = Some (off, sz, d) \<Longrightarrow> length d \<le> length data"
  unfolding copy_operands_def
  by (auto simp: bind_eq_Some_conv dest!: delta_operand_length)

subsection \<open>The replay loop\<close>

text \<open>
  The loop returns the unread delta, the output so far and the number of bytes still owed at the
  point where it stopped, either because \<open>data\<close> reached \<open>top\<close> or by one of its two \<open>break\<close>s;
  opcode 0 goes to \<open>bad\<close>.
\<close>

function patch_delta_loop ::
    "byte list \<Rightarrow> byte list \<Rightarrow> byte list \<Rightarrow> u64 \<Rightarrow> (byte list \<times> byte list \<times> u64) outcome" where
  "patch_delta_loop src [] out sz = Value ([], out, sz)"
| "patch_delta_loop src (cmd # data) out sz =
     (if cmd AND 0x80 \<noteq> 0 then
        (case copy_operands cmd data of
           None \<Rightarrow> Fault
         | Some (cp_off, cp_size, data') \<Rightarrow>
             if cp_size > - 1 - cp_off \<or> cp_off + cp_size > of_nat (length src) \<or> cp_size > sz
             then Value (data', out, sz)
             else patch_delta_loop src data'
                    (out @ take (unat cp_size) (drop (unat cp_off) src)) (sz - cp_size))
      else if cmd \<noteq> 0 then
        (if ucast cmd > sz then Value (data, out, sz)
         else if length data < unat cmd then Fault
         else patch_delta_loop src (drop (unat cmd) data) (out @ take (unat cmd) data)
                (sz - ucast cmd))
      else Failure)"
  by pat_completeness auto
termination
  by (relation "measure (\<lambda>(src, data, out, sz). length data)") (auto dest: copy_operands_length)

definition DELTA_SIZE_MIN :: nat where
  "DELTA_SIZE_MIN = 4"

definition patch_delta :: "byte list \<Rightarrow> byte list \<Rightarrow> byte list outcome" where
  "patch_delta src delta =
     (if length delta < DELTA_SIZE_MIN then Failure
      else case get_delta_hdr_size delta of
        None \<Rightarrow> Fault
      | Some (sz, data) \<Rightarrow>
          if sz \<noteq> of_nat (length src) then Failure
          else case get_delta_hdr_size data of
            None \<Rightarrow> Fault
          | Some (sz, data) \<Rightarrow>
              (case patch_delta_loop src data [] sz of
                 Fault \<Rightarrow> Fault
               | Failure \<Rightarrow> Failure
               | Value (data, out, sz) \<Rightarrow>
                   if data \<noteq> [] \<or> sz \<noteq> 0 then Failure else Value out))"

declare patch_delta_loop.simps(2) [simp del]

subsection \<open>What a stretch of opcodes produces\<close>

text \<open>
  \<open>delta_produces src ops X\<close>: replaying \<open>ops\<close> appends \<open>X\<close> to the output, whatever follows in the
  delta, as long as at least \<open>length X\<close> bytes are still owed.
\<close>

definition delta_produces :: "byte list \<Rightarrow> byte list \<Rightarrow> byte list \<Rightarrow> bool" where
  "delta_produces src ops X \<longleftrightarrow>
     (\<forall>rest out sz. length X \<le> unat sz \<longrightarrow>
        patch_delta_loop src (ops @ rest) out sz =
          patch_delta_loop src rest (out @ X) (sz - of_nat (length X)))"

lemma delta_producesD:
  "delta_produces src ops X \<Longrightarrow> length X \<le> unat sz \<Longrightarrow>
     patch_delta_loop src (ops @ rest) out sz =
       patch_delta_loop src rest (out @ X) (sz - of_nat (length X))"
  by (simp add: delta_produces_def)

lemma delta_produces_Nil: "delta_produces src [] []"
  by (simp add: delta_produces_def)

lemma delta_produces_append:
  assumes "delta_produces src ops X" and "delta_produces src ops' Y"
  shows "delta_produces src (ops @ ops') (X @ Y)"
  unfolding delta_produces_def
proof (intro allI impI)
  fix rest out and sz :: u64
  assume le: "length (X @ Y) \<le> unat sz"
  then have "patch_delta_loop src (ops @ ops' @ rest) out sz =
      patch_delta_loop src (ops' @ rest) (out @ X) (sz - of_nat (length X))"
    using assms(1) by (intro delta_producesD) auto
  also have "\<dots> = patch_delta_loop src rest ((out @ X) @ Y) (sz - of_nat (length X) - of_nat (length Y))"
    using assms(2) le by (intro delta_producesD) (auto simp: unat_sub_of_nat)
  finally show "patch_delta_loop src ((ops @ ops') @ rest) out sz =
      patch_delta_loop src rest (out @ X @ Y) (sz - of_nat (length (X @ Y)))"
    by (simp add: algebra_simps)
qed

lemma delta_produces_insert:
  assumes "0 < n" and "n < 128" and "length lits = n"
  shows "delta_produces src (of_nat n # lits) lits"
  unfolding delta_produces_def
proof (intro allI impI)
  fix rest out and sz :: u64
  assume le: "length lits \<le> unat sz"
  have u: "unat (of_nat n :: byte) = n"
    using assms by (simp add: unat_of_nat_small)
  have "(of_nat n :: byte) AND 0x80 = 0"
    unfolding byte_and_128 using assms(2) u by simp
  moreover have "(of_nat n :: byte) \<noteq> 0"
    using assms u by (metis unsigned_0 less_irrefl)
  moreover have w: "ucast (of_nat n :: byte) = (of_nat n :: u64)"
    using u by (metis of_nat_unat)
  moreover have "\<not> ucast (of_nat n :: byte) > sz"
    using le assms unat_64_less [of sz] unfolding w
    by (simp add: word_less_nat_alt unat_of_nat_small not_less)
  ultimately show "patch_delta_loop src ((of_nat n # lits) @ rest) out sz =
      patch_delta_loop src rest (out @ lits) (sz - of_nat (length lits))"
    using assms u by (simp add: patch_delta_loop.simps(2))
qed

subsection \<open>Accounting\<close>

lemma unat_ucast_64: "unat (ucast (c :: byte) :: u64) = unat c"
  using unsigned_less [of c, where 'a = nat] by (simp add: unsigned_ucast_eq take_bit_nat_eq_self)

lemma sum_less_64: "i < 18446744073709551616 \<Longrightarrow> k = 2 ^ 64 - 1 - i \<Longrightarrow> n \<le> k \<Longrightarrow> n + i < (2 :: nat) ^ 64"
  by simp

lemma len64: "LENGTH(64) = 64"
  by simp

lemma unat_copy_range:
  assumes "\<not> (n > - 1 - off \<or> off + n > of_nat (length src) \<or> n > (sz :: u64))" and "length src < 2 ^ 64"
  shows "unat off + unat n \<le> length src \<and> n \<le> sz"
proof -
  have "unat (- 1 - off) = 2 ^ 64 - 1 - unat off"
    using unat_64_less [of off]
    by (simp add: unat_sub word_le_nat_alt unsigned_minus_1_eq_mask mask_eq_exp_minus_1)
  moreover have "unat n \<le> unat (- 1 - off)"
    using assms(1) by (simp add: word_le_nat_alt not_less)
  ultimately have "unat n + unat off < 2 ^ 64"
    by (rule sum_less_64 [OF unat_64_less])
  then have "unat off + unat n < 2 ^ LENGTH(64)"
    by (simp only: add.commute len64)
  then have "unat (off + n) = unat off + unat n"
    by (rule unat_add_lem [THEN iffD1])
  moreover have "unat (of_nat (length src) :: u64) = length src"
    by (rule unat_of_nat_small) (simp only: assms(2) len64)
  then have "unat (off + n) \<le> length src"
    using assms(1) by (simp add: word_le_nat_alt not_less)
  ultimately show ?thesis
    using assms(1) by (simp add: not_less)
qed

text \<open>The number of bytes written plus the number still owed does not change.\<close>

lemma patch_delta_loop_size:
  "patch_delta_loop src data out sz = Value (data', out', sz') \<Longrightarrow>
     length src < 2 ^ 64 \<Longrightarrow> length out' + unat sz' = length out + unat sz"
proof (induction src data out sz rule: patch_delta_loop.induct)
  case (1 src out sz)
  then show ?case by simp
next
  case (2 src cmd data out sz)
  show ?case
  proof (cases "cmd AND 0x80 \<noteq> 0")
    case True
    show ?thesis
    proof (cases "copy_operands cmd data")
      case None
      then show ?thesis
        using True "2.prems"(1) by (simp add: patch_delta_loop.simps(2))
    next
      case (Some ops)
      obtain off n rest where ops: "ops = (off, n, rest)"
        by (cases ops) auto
      show ?thesis
      proof (cases "n > - 1 - off \<or> off + n > of_nat (length src) \<or> n > sz")
        case stop: True
        then have "patch_delta_loop src (cmd # data) out sz = Value (rest, out, sz)"
          using True Some ops by (simp only: patch_delta_loop.simps(2)) simp
        then show ?thesis
          using "2.prems"(1) by simp
      next
        case False
        then have "unat off + unat n \<le> length src" "n \<le> sz"
          using "2.prems"(2) unat_copy_range by auto
        moreover from \<open>n \<le> sz\<close> have "unat (sz - n) = unat sz - unat n" "unat n \<le> unat sz"
          by (simp_all add: unat_sub word_le_nat_alt)
        ultimately show ?thesis
          using "2.IH"(1) [OF True Some ops [symmetric] refl False] "2.prems" True Some ops False
          by (simp add: patch_delta_loop.simps(2))
      qed
    qed
  next
    case lit: False
    show ?thesis
    proof (cases "cmd = 0 \<or> ucast cmd > sz \<or> length data < unat cmd")
      case True
      then show ?thesis
        using lit "2.prems" by (auto simp: patch_delta_loop.simps(2) split: if_splits)
    next
      case False
      then have c: "cmd \<noteq> 0" "\<not> ucast cmd > sz" "\<not> length data < unat cmd"
        by auto
      then have "ucast cmd \<le> sz"
        by simp
      then have "unat (sz - ucast cmd) = unat sz - unat cmd" "unat cmd \<le> unat sz"
        unfolding unat_sub [OF \<open>ucast cmd \<le> sz\<close>] word_le_nat_alt unat_ucast_64 by simp_all
      then show ?thesis
        using "2.IH"(2) [OF lit c(1) c(2) c(3)] "2.prems" lit c
        by (simp add: patch_delta_loop.simps(2))
    qed
  qed
qed

subsection \<open>The properties of the component\<close>

text \<open>
  (C8) When \<open>patch_delta\<close> accepts a delta, the delta declares the size of the source it was given, and
  the result has exactly the size its second header declares: the allocated buffer is filled to the
  last byte and not beyond.
\<close>
theorem patch_delta_size:
  assumes "patch_delta src d = Value out" and "length src < 2 ^ 64"
  shows "\<exists>d1 d2 sz. get_delta_hdr_size d = Some (of_nat (length src), d1) \<and>
    get_delta_hdr_size d1 = Some (sz, d2) \<and> length out = unat sz"
  using assms(1) patch_delta_loop_size [OF _ assms(2), of _ "[]"] unfolding patch_delta_def
  by (fastforce split: if_splits option.splits outcome.splits)

lemma patch_delta_size_witness:
  "\<exists>d1 d2 sz. get_delta_hdr_size [1, 1, 1, 8] = Some (of_nat (length [7 :: byte]), d1) \<and>
    get_delta_hdr_size d1 = Some (sz, d2) \<and> length [8 :: byte] = unat sz"
proof (rule patch_delta_size)
  show "patch_delta [7] [1, 1, 1, 8] = Value [8]"
    by code_simp
qed simp

text \<open>A truncated literal run, and a truncated copy opcode, are read past the end of the delta.\<close>

lemma patch_delta_overread:
  "patch_delta [7] [1, 2, 2, 8] = Fault" "patch_delta [7] [1, 1, 0x91, 0] = Fault"
  by code_simp+

text \<open>A broken last opcode is accepted when nothing more is owed.\<close>

lemma patch_delta_trailing:
  "patch_delta [7] [1, 1, 1, 8] = Value [8] \<and> patch_delta [7] [1, 1, 1, 8, 1] = Value [8]"
  by code_simp

end
