(* ===== verification/Git_Delta_Create.thy ===== *)
theory Git_Delta_Create
  imports Git_Delta_Index Git_Delta_Patch
begin

text \<open>
  \<open>create_delta\<close> of \<^verbatim>\<open>diff-delta.c\<close>: it encodes a target buffer as a sequence of literal runs and
  copies from the indexed source, finding the copies with a rolling hash.

  The list \<open>ds_out\<close> is \<open>out[0..outpos)\<close>; \<open>outpos++\<close> without a write appends a zero that is
  overwritten when the run ends, and \<open>outpos--\<close> drops the last byte.  \<open>ds_data\<close> is the offset of
  \<open>data\<close> in the target.  Memory allocation is assumed to succeed.
\<close>

definition MAX_OP_SIZE :: nat where
  "MAX_OP_SIZE = 5 + 5 + 1 + RABIN_WINDOW + 7"

record delta_state =
  ds_out :: "byte list"
  ds_outsize :: nat
  ds_data :: nat
  ds_val :: u32
  ds_inscnt :: nat
  ds_moff :: nat
  ds_msize :: nat

function delta_hdr :: "nat \<Rightarrow> byte list" where
  "delta_hdr l = (if 0x80 \<le> l then (of_nat l OR 0x80) # delta_hdr (drop_bit 7 l) else [of_nat l])"
  by pat_completeness auto
termination
  by (relation "measure id") (auto simp: drop_bit_eq_div)

declare delta_hdr.simps [simp del]

subsection \<open>Searching a copy\<close>

text \<open>\<open>while (ref_size-- && *src++ == *ref) ref++\<close>, as the number of steps of \<open>ref\<close>.\<close>

fun match_run :: "nat \<Rightarrow> byte list \<Rightarrow> byte list \<Rightarrow> nat" where
  "match_run n [] rs = 0"
| "match_run n (s # ss) [] = 0"
| "match_run n (s # ss) (r # rs) = (if n \<noteq> 0 \<and> s = r then Suc (match_run (n - 1) ss rs) else 0)"

text \<open>
  The loop over a bucket, with the best match so far; \<open>trg\<close> is the target from \<open>data\<close> on.  The
  unsigned \<open>ref_size\<close> keeps 32 bits of the distance to the end of the source.
\<close>

primrec delta_search ::
    "byte list \<Rightarrow> byte list \<Rightarrow> u32 \<Rightarrow> (nat \<times> u32) list \<Rightarrow> nat \<Rightarrow> nat \<Rightarrow> nat \<times> nat" where
  "delta_search src trg v [] moff msize = (moff, msize)"
| "delta_search src trg v (e # es) moff msize =
     (let ref = fst e in
      if snd e \<noteq> v then delta_search src trg v es moff msize
      else
        let ref_size0 = (length src - ref) mod 2 ^ 32;
            ref_size = (if ref_size0 > length trg then length trg else ref_size0)
        in if ref_size \<le> msize then (moff, msize)
           else
             let m = match_run ref_size trg (drop ref src)
             in if msize < m then
                  (if 4096 \<le> m then (ref, m) else delta_search src trg v es ref m)
                else delta_search src trg v es moff msize)"

definition delta_find :: "delta_index \<Rightarrow> byte list \<Rightarrow> delta_state \<Rightarrow> delta_state" where
  "delta_find idx trg st =
     (if ds_msize st < 4096 then
        let v1 = ds_val st XOR rabin_U ! unat (trg ! (ds_data st - RABIN_WINDOW));
            v2 = rabin_step v1 (trg ! ds_data st);
            i = unat (v2 AND hash_mask idx);
            (moff, msize) = delta_search (src_buf idx) (drop (ds_data st) trg) v2
              (index_bucket idx i) (ds_moff st) (ds_msize st)
        in st\<lparr>ds_val := v2, ds_moff := moff, ds_msize := msize\<rparr>
      else st)"

subsection \<open>Emitting a literal byte or a copy\<close>

definition delta_literal :: "byte list \<Rightarrow> delta_state \<Rightarrow> delta_state" where
  "delta_literal trg st =
     (let out = (if ds_inscnt st = 0 then ds_out st @ [0] else ds_out st) @ [trg ! ds_data st];
          inscnt = Suc (ds_inscnt st)
      in if inscnt = 0x7f then
           st\<lparr>ds_out := out[length out - inscnt - 1 := of_nat inscnt], ds_data := Suc (ds_data st),
              ds_inscnt := 0, ds_msize := 0\<rparr>
         else
           st\<lparr>ds_out := out, ds_data := Suc (ds_data st), ds_inscnt := inscnt, ds_msize := 0\<rparr>)"

text \<open>
  Extending a match backwards over the pending literals; the count of pending literals ends as
  \<open>- 1\<close> when all of them, and the count slot, were taken back.
\<close>

fun delta_back :: "byte list \<Rightarrow> byte list \<Rightarrow> nat \<Rightarrow> nat \<Rightarrow> nat \<Rightarrow> nat \<Rightarrow> byte list
    \<Rightarrow> nat \<times> nat \<times> nat \<times> byte list \<times> int" where
  "delta_back src trg 0 moff msize data out = (moff, msize, data, out, 0)"
| "delta_back src trg (Suc n) moff msize data out =
     (if moff \<noteq> 0 \<and> src ! (moff - 1) = trg ! (data - 1) then
        (if n \<noteq> 0 then
           delta_back src trg n (moff - 1) (Suc msize) (data - 1) (butlast out)
         else (moff - 1, Suc msize, data - 1, butlast (butlast out), - 1))
      else (moff, msize, data, out, int (Suc n)))"

text \<open>The copy opcode: the operand bytes that are zero are left out, and the opcode says which.\<close>

definition delta_copy_op :: "u64 \<Rightarrow> u64 \<Rightarrow> byte list" where
  "delta_copy_op moff msize =
     (let opt = (\<lambda>v mask shift. if v AND mask \<noteq> 0 then [ucast (drop_bit shift v)] else []);
          flag = (\<lambda>v mask b. if v AND mask \<noteq> 0 then b else 0)
      in (0x80 OR flag moff 0xff 0x01 OR flag moff 0xff00 0x02 OR flag moff 0xff0000 0x04 OR
            flag moff 0xff000000 0x08 OR flag msize 0xff 0x10 OR flag msize 0xff00 0x20) #
         opt moff 0xff 0 @ opt moff 0xff00 8 @ opt moff 0xff0000 16 @ opt moff 0xff000000 24 @
         opt msize 0xff 0 @ opt msize 0xff00 8)"

definition delta_copy :: "byte list \<Rightarrow> byte list \<Rightarrow> delta_state \<Rightarrow> delta_state" where
  "delta_copy src trg st =
     (let (moff, msize, data, out) =
            (if ds_inscnt st \<noteq> 0 then
               (case delta_back src trg (ds_inscnt st) (ds_moff st) (ds_msize st) (ds_data st) (ds_out st) of
                  (moff, msize, data, out, inscnt) \<Rightarrow>
                    (moff, msize, data,
                     out[nat (int (length out) - inscnt - 1) := of_int inscnt]))
             else (ds_moff st, ds_msize st, ds_data st, ds_out st));
          left = (if msize < 0x10000 then 0 else msize - 0x10000);
          msize1 = msize - left;
          out1 = out @ delta_copy_op (of_nat moff) (of_nat msize1);
          data1 = data + msize1;
          moff1 = moff + msize1;
          msize2 = (if moff1 > 0xffffffff then 0 else left);
          val1 = (if msize2 < 4096
                  then rabin_window (take RABIN_WINDOW (drop (data1 - RABIN_WINDOW) trg))
                  else ds_val st)
      in st\<lparr>ds_out := out1, ds_data := data1, ds_inscnt := 0, ds_moff := moff1,
            ds_msize := msize2, ds_val := val1\<rparr>)"

definition delta_emit :: "delta_index \<Rightarrow> byte list \<Rightarrow> delta_state \<Rightarrow> delta_state" where
  "delta_emit idx trg st =
     (let st1 = delta_find idx trg st
      in if ds_msize st1 < 4 then delta_literal trg st1 else delta_copy (src_buf idx) trg st1)"

subsection \<open>The loop\<close>

text \<open>The end of the loop body: \<open>Inl\<close> is the \<open>break\<close> when the delta has outgrown its limit.\<close>

definition delta_grow :: "nat \<Rightarrow> delta_state \<Rightarrow> delta_state + delta_state" where
  "delta_grow max_size st =
     (if length (ds_out st) \<ge> ds_outsize st - MAX_OP_SIZE then
        let outsize = ds_outsize st * 3 div 2;
            outsize = (if max_size \<noteq> 0 \<and> outsize \<ge> max_size then max_size + MAX_OP_SIZE + 1 else outsize)
        in if max_size \<noteq> 0 \<and> length (ds_out st) > max_size then Inl (st\<lparr>ds_outsize := outsize\<rparr>)
           else Inr (st\<lparr>ds_outsize := outsize\<rparr>)
      else Inr st)"

partial_function (option) delta_loop ::
    "delta_index \<Rightarrow> byte list \<Rightarrow> nat \<Rightarrow> delta_state \<Rightarrow> delta_state option" where
  "delta_loop idx trg max_size st =
     (if ds_data st < length trg then
        (case delta_grow max_size (delta_emit idx trg st) of
           Inl st' \<Rightarrow> Some st'
         | Inr st' \<Rightarrow> delta_loop idx trg max_size st')
      else Some st)"

declare delta_loop.simps [code]

definition delta_start :: "delta_index \<Rightarrow> byte list \<Rightarrow> nat \<Rightarrow> delta_state" where
  "delta_start idx trg max_size =
     \<lparr>ds_out = delta_hdr (length (src_buf idx)) @ delta_hdr (length trg) @ [0] @ take RABIN_WINDOW trg,
      ds_outsize = (if max_size \<noteq> 0 \<and> 8192 \<ge> max_size then max_size + MAX_OP_SIZE + 1 else 8192),
      ds_data = min RABIN_WINDOW (length trg),
      ds_val = rabin_window (take RABIN_WINDOW trg),
      ds_inscnt = min RABIN_WINDOW (length trg),
      ds_moff = 0,
      ds_msize = 0\<rparr>"

definition create_delta :: "delta_index \<Rightarrow> byte list \<Rightarrow> nat \<Rightarrow> byte list outcome" where
  "create_delta idx trg max_size =
     (if trg = [] then Failure
      else case delta_loop idx trg max_size (delta_start idx trg max_size) of
        None \<Rightarrow> Fault
      | Some st \<Rightarrow>
          let out = (if ds_inscnt st \<noteq> 0
                     then (ds_out st)[length (ds_out st) - ds_inscnt st - 1 := of_nat (ds_inscnt st)]
                     else ds_out st)
          in if max_size \<noteq> 0 \<and> length out > max_size then Failure else Value out)"

definition diff_delta :: "byte list \<Rightarrow> byte list \<Rightarrow> nat \<Rightarrow> byte list outcome" where
  "diff_delta src trg max_size =
     (case create_delta_index src of
        Fault \<Rightarrow> Fault
      | Failure \<Rightarrow> Failure
      | Value idx \<Rightarrow> create_delta idx trg max_size)"

subsection \<open>Headers\<close>

lemma take_bit_or_push:
  "take_bit i (w :: u64) OR push_bit i (take_bit 7 (drop_bit i w)) = take_bit (i + 7) w"
  by (rule bit_word_eqI) (auto simp: bit_simps)

lemma delta_hdr_byte_low:
  "ucast ((of_nat l :: byte) AND 0x7f) = take_bit 7 (of_nat l :: u64)"
  "ucast ((of_nat l OR 0x80 :: byte) AND 0x7f) = take_bit 7 (of_nat l :: u64)"
  by (rule bit_word_eqI; auto simp: bit_simps and_127_take_bit bit_128_simps)+

lemma delta_hdr_nonempty [simp]: "delta_hdr l \<noteq> []"
  by (subst delta_hdr.simps) simp

lemma delta_hdr_loop:
  assumes "i < 64" and "l = unat (drop_bit i w)"
  shows "get_delta_hdr_loop (take_bit i w) i (delta_hdr l @ rest) = Some (w, rest)"
  using assms
proof (induction l arbitrary: i rule: delta_hdr.induct)
  case (1 l)
  have l: "(of_nat l :: u64) = drop_bit i w"
    using "1.prems"(2) by simp
  show ?case
  proof (cases "0x80 \<le> l")
    case True
    have "i + 7 < 64"
    proof (rule ccontr)
      assume "\<not> i + 7 < 64"
      then have "drop_bit 7 (drop_bit i w) = 0"
        by (intro bit_word_eqI) (auto simp: bit_simps dest: bit_imp_le_length)
      then have "unat (drop_bit i w) div 2 ^ 7 = 0"
        by (metis unat_drop_bit_div unsigned_0)
      then show False
        using True "1.prems"(2) by simp
    qed
    moreover have "drop_bit 7 l = unat (drop_bit (i + 7) w)"
      using "1.prems"(2) unat_drop_bit_div [of 7 "drop_bit i w"]
      by (simp add: drop_bit_eq_div [where 'a = nat] add.commute)
    moreover have "((of_nat l OR 0x80) :: byte) AND 0x80 \<noteq> 0"
      unfolding and_128_bit by (simp add: bit_simps bit_128_simps)
    ultimately show ?thesis
      using "1.IH" [OF True, of "i + 7"] True "1.prems"(1)
      by (subst delta_hdr.simps)
        (simp add: Let_def delta_hdr_byte_low l take_bit_or_push del: take_bit_of_nat)
  next
    case False
    then have "(of_nat l :: byte) AND 0x80 = 0"
      unfolding byte_and_128 by (simp add: unat_of_nat)
    moreover have "take_bit (i + 7) w = w"
    proof -
      have "unat (drop_bit i w) div 2 ^ 7 = 0"
        using False "1.prems"(2) by simp
      then have "drop_bit 7 (drop_bit i w) = 0"
        by (metis unat_drop_bit_div unat_eq_zero)
      then have "drop_bit (i + 7) w = 0"
        by (simp add: add.commute)
      then show ?thesis
        using bits_ident [of "i + 7" w] by simp
    qed
    ultimately show ?thesis
      using False "1.prems"(1)
      by (subst delta_hdr.simps)
        (simp add: Let_def delta_hdr_byte_low l take_bit_or_push del: take_bit_of_nat)
  qed
qed

lemma delta_hdr_read:
  assumes "l < 2 ^ 64"
  shows "get_delta_hdr_size (delta_hdr l @ rest) = Some (of_nat l, rest)"
  using delta_hdr_loop [of 0 l "of_nat l" rest] assms
  by (simp add: get_delta_hdr_size_def unat_of_nat_small)

subsection \<open>Copies\<close>

lemma delta_operand_opt:
  "delta_operand c sh (x, (if c then [b] else []) @ d) =
     Some (if c then x OR push_bit sh (ucast b) else x, d)"
  by (cases c) auto

lemma or_masked_byte:
  assumes "m = push_bit sh (mask 8)"
  shows "(if v AND m \<noteq> 0 then x OR push_bit sh (ucast (ucast (drop_bit sh v) :: byte)) else x) =
     x OR ((v :: u64) AND m)"
proof -
  have "push_bit sh (ucast (ucast (drop_bit sh v) :: byte)) = v AND m"
    unfolding assms by (rule bit_word_eqI) (auto simp: bit_simps)
  then show ?thesis
    by simp
qed

lemma operand_masked:
  assumes "m = push_bit sh (mask 8)"
  shows "delta_operand (v AND m \<noteq> 0) sh
      (x, (if v AND m \<noteq> 0 then [ucast (drop_bit sh v)] else []) @ d) = Some (x OR (v AND m), d)"
  unfolding delta_operand_opt or_masked_byte [OF assms] ..

lemma byte_masks:
  "(0xff :: u64) = push_bit 0 (mask 8)" "(0xff00 :: u64) = push_bit 8 (mask 8)"
  "(0xff0000 :: u64) = push_bit 16 (mask 8)" "(0xff000000 :: u64) = push_bit 24 (mask 8)"
  by (simp_all add: mask_eq_exp_minus_1)

lemma or_bytes_16: "(v AND 0xff) OR (v AND 0xff00) = take_bit 16 (v :: u64)"
  unfolding byte_masks by (rule bit_word_eqI) (auto simp: bit_simps)

lemma or_bytes_16_32:
  "take_bit 16 v OR (v AND 0xff0000) OR (v AND 0xff000000) = take_bit 32 (v :: u64)"
  unfolding byte_masks by (rule bit_word_eqI) (auto simp: bit_simps)

lemma copy_op_flags:
  fixes a b c d e f :: bool
  defines "cmd \<equiv> (0x80 OR (if a then 0x01 else 0) OR (if b then 0x02 else 0) OR (if c then 0x04 else 0) OR
      (if d then 0x08 else 0) OR (if e then 0x10 else 0) OR (if f then 0x20 else 0) :: byte)"
  shows "cmd AND 0x80 \<noteq> 0 \<and> (cmd AND 0x01 \<noteq> 0) = a \<and> (cmd AND 0x02 \<noteq> 0) = b \<and>
    (cmd AND 0x04 \<noteq> 0) = c \<and> (cmd AND 0x08 \<noteq> 0) = d \<and> (cmd AND 0x10 \<noteq> 0) = e \<and>
    (cmd AND 0x20 \<noteq> 0) = f \<and> cmd AND 0x40 = 0"
  unfolding cmd_def by (cases a; cases b; cases c; cases d; cases e; cases f) simp_all

lemma copy_operands_copy_op:
  assumes "delta_copy_op moff msize = cmd # ops"
  shows "cmd AND 0x80 \<noteq> 0 \<and>
    copy_operands cmd (ops @ rest) =
      Some (take_bit 32 moff, (if take_bit 16 msize = 0 then 0x10000 else take_bit 16 msize), rest)"
proof -
  have cmd: "cmd AND 0x80 \<noteq> 0" "(cmd AND 0x01 \<noteq> 0) = (moff AND 0xff \<noteq> 0)"
    "(cmd AND 0x02 \<noteq> 0) = (moff AND 0xff00 \<noteq> 0)" "(cmd AND 0x04 \<noteq> 0) = (moff AND 0xff0000 \<noteq> 0)"
    "(cmd AND 0x08 \<noteq> 0) = (moff AND 0xff000000 \<noteq> 0)" "(cmd AND 0x10 \<noteq> 0) = (msize AND 0xff \<noteq> 0)"
    "(cmd AND 0x20 \<noteq> 0) = (msize AND 0xff00 \<noteq> 0)" "cmd AND 0x40 = 0"
    using copy_op_flags [of "moff AND 0xff \<noteq> 0" "moff AND 0xff00 \<noteq> 0" "moff AND 0xff0000 \<noteq> 0"
        "moff AND 0xff000000 \<noteq> 0" "msize AND 0xff \<noteq> 0" "msize AND 0xff00 \<noteq> 0"] assms
    unfolding delta_copy_op_def Let_def list.inject by metis+
  have ops: "ops =
      (if moff AND 0xff \<noteq> 0 then [ucast (drop_bit 0 moff)] else []) @
      (if moff AND 0xff00 \<noteq> 0 then [ucast (drop_bit 8 moff)] else []) @
      (if moff AND 0xff0000 \<noteq> 0 then [ucast (drop_bit 16 moff)] else []) @
      (if moff AND 0xff000000 \<noteq> 0 then [ucast (drop_bit 24 moff)] else []) @
      (if msize AND 0xff \<noteq> 0 then [ucast (drop_bit 0 msize)] else []) @
      (if msize AND 0xff00 \<noteq> 0 then [ucast (drop_bit 8 msize)] else [])"
    using assms unfolding delta_copy_op_def Let_def by blast
  have none: "delta_operand False 16 s = Some s" for s
    by (cases s) simp
  show ?thesis
    unfolding copy_operands_def ops cmd append_assoc
    by (simp only: operand_masked [OF byte_masks(1)] operand_masked [OF byte_masks(2)]
        operand_masked [OF byte_masks(3)] operand_masked [OF byte_masks(4)]
        bind.bind_lunit none prod.case or.left_neutral or.assoc or_bytes_16)
      (simp add: cmd(1) or_bytes_16_32)
qed

lemma unat_take_bit_of_nat:
  assumes "n < 2 ^ k" and "k \<le> 64"
  shows "take_bit k (of_nat n :: u64) = of_nat n"
proof -
  have "(2::nat) ^ k \<le> 2 ^ 64"
    using assms(2) by (rule power_increasing) simp
  then have "unat (of_nat n :: u64) = n"
    using assms(1) by (intro unat_of_nat_small) simp
  then show ?thesis
    using assms(1)
    by (simp only: word_unat_eq_iff unsigned_take_bit_eq take_bit_nat_eq_self)
qed

lemma delta_produces_copy:
  assumes moff: "moff \<le> 0xffffffff" and n: "0 < n" "n \<le> 0x10000"
    and src: "moff + n \<le> length src" "length src < 2 ^ 64"
  shows "delta_produces src (delta_copy_op (of_nat moff) (of_nat n)) (take n (drop moff src))"
proof -
  obtain cmd ops where op: "delta_copy_op (of_nat moff) (of_nat n) = cmd # ops"
    by (simp add: delta_copy_op_def Let_def)
  have off: "take_bit 32 (of_nat moff :: u64) = of_nat moff"
    using moff by (intro unat_take_bit_of_nat) simp_all
  have sz: "(if take_bit 16 (of_nat n :: u64) = 0 then 0x10000 else take_bit 16 (of_nat n)) = (of_nat n :: u64)"
  proof (cases "n = 0x10000")
    case True
    then show ?thesis
      by simp
  next
    case False
    then have "take_bit 16 (of_nat n :: u64) = of_nat n"
      using n by (intro unat_take_bit_of_nat) simp_all
    moreover have "(of_nat n :: u64) \<noteq> 0"
    proof -
      have "unat (of_nat n :: u64) = n"
        using n by (intro unat_of_nat_small) simp
      then show ?thesis
        using n by (simp only: word_unat_eq_iff) simp
    qed
    ultimately show ?thesis
      by simp
  qed
  note args = copy_operands_copy_op [OF op, unfolded off sz]
  have u: "unat (of_nat moff :: u64) = moff" "unat (of_nat n :: u64) = n"
    "unat (of_nat (length src) :: u64) = length src"
    using src by (auto intro!: unat_of_nat_small)
  have fit: "\<not> of_nat n > - 1 - (of_nat moff :: u64)"
  proof -
    have "unat (- 1 - (of_nat moff :: u64)) = unat (- 1 :: u64) - moff"
      using src by (intro unat_sub_of_nat) (simp add: unsigned_minus_1_eq_mask mask_eq_exp_minus_1)
    then show ?thesis
      using src u by (simp add: word_less_nat_alt unsigned_minus_1_eq_mask mask_eq_exp_minus_1)
  qed
  have inside: "\<not> of_nat moff + of_nat n > (of_nat (length src) :: u64)"
  proof -
    have "unat (of_nat moff + of_nat n :: u64) = moff + n"
      using src by (simp add: unat_of_nat_small flip: of_nat_add)
    then show ?thesis
      using src u by (simp add: word_less_nat_alt)
  qed
  show ?thesis
    unfolding delta_produces_def op
  proof (intro allI impI)
    fix rest out and sz :: u64
    assume "length (take n (drop moff src)) \<le> unat sz"
    then have "\<not> of_nat n > sz"
      using src u by (simp add: word_less_nat_alt)
    then show "patch_delta_loop src ((cmd # ops) @ rest) out sz =
        patch_delta_loop src rest (out @ take n (drop moff src)) (sz - of_nat (length (take n (drop moff src))))"
      using args fit inside u src by (simp add: patch_delta_loop.simps(2))
  qed
qed

subsection \<open>Matches\<close>

definition copy_ok :: "byte list \<Rightarrow> byte list \<Rightarrow> nat \<Rightarrow> nat \<Rightarrow> bool" where
  "copy_ok src trg moff msize \<longleftrightarrow> msize = 0 \<or>
     moff \<le> 0xffffffff \<and> moff + msize \<le> length src \<and> msize \<le> length trg \<and>
     take msize (drop moff src) = take msize trg"

lemma match_run_take:
  "take (match_run k ss rs) ss = take (match_run k ss rs) rs \<and> match_run k ss rs \<le> length ss \<and>
     match_run k ss rs \<le> length rs"
  by (induction k ss rs rule: match_run.induct) auto

lemma delta_search_ok:
  assumes "\<forall>e\<in>set es. index_entry_ok src e" and "copy_ok src trg moff msize"
    and "delta_search src trg v es moff msize = (moff', msize')"
  shows "copy_ok src trg moff' msize'"
  using assms
proof (induction es arbitrary: moff msize)
  case Nil
  then show ?case by simp
next
  case (Cons e es)
  define n where "n = (if (length src - fst e) mod 2 ^ 32 > length trg then length trg
      else (length src - fst e) mod 2 ^ 32)"
  define m where "m = match_run n trg (drop (fst e) src)"
  have e: "fst e < length src" "fst e \<le> 0xffffffff"
    using Cons.prems(1) by (auto simp: index_entry_ok_def)
  then have better: "copy_ok src trg (fst e) m"
    using match_run_take [of n trg "drop (fst e) src"] by (auto simp: copy_ok_def m_def)
  show ?case
    using Cons.prems Cons.IH [OF _ better] Cons.IH [OF _ Cons.prems(2)] better
    unfolding delta_search.simps Let_def n_def [symmetric] m_def [symmetric]
    by (auto split: if_splits)
qed

subsection \<open>The loop invariant\<close>

text \<open>
  The output is the two size headers, opcodes that produce the target up to the pending literals,
  and, when literals are pending, a count slot and those literals.
\<close>

definition delta_pending :: "byte list \<Rightarrow> byte list \<Rightarrow> nat \<Rightarrow> nat \<Rightarrow> byte list \<Rightarrow> bool" where
  "delta_pending src trg data inscnt out \<longleftrightarrow>
     inscnt \<le> data \<and> data \<le> length trg \<and>
     (\<exists>ops x. out = delta_hdr (length src) @ delta_hdr (length trg) @ ops @
          (if inscnt = 0 then [] else x # take inscnt (drop (data - inscnt) trg)) \<and>
        delta_produces src ops (take (data - inscnt) trg))"

definition delta_inv :: "byte list \<Rightarrow> byte list \<Rightarrow> delta_state \<Rightarrow> bool" where
  "delta_inv src trg st \<longleftrightarrow>
     ds_inscnt st < 0x7f \<and>
     delta_pending src trg (ds_data st) (ds_inscnt st) (ds_out st) \<and>
     copy_ok src (drop (ds_data st) trg) (ds_moff st) (ds_msize st) \<and>
     (ds_data st < length trg \<longrightarrow>
        RABIN_WINDOW \<le> ds_data st \<and>
        (ds_msize st < 4096 \<longrightarrow>
           ds_val st = rabin_window (take RABIN_WINDOW (drop (ds_data st - RABIN_WINDOW) trg))))"

lemma update_slot:
  "length lits = n \<Longrightarrow> (pre @ x # lits)[length (pre @ x # lits) - n - 1 := y] = pre @ y # lits"
  by simp

lemma delta_pending_flush:
  assumes p: "delta_pending src trg data n out" and n: "0 < n" "n < 128"
  shows "delta_pending src trg data 0 (out[length out - n - 1 := of_nat n])"
proof -
  define lits where "lits = take n (drop (data - n) trg)"
  obtain ops x where out: "out = (delta_hdr (length src) @ delta_hdr (length trg) @ ops) @ x # lits"
    and ops: "delta_produces src ops (take (data - n) trg)" and le: "n \<le> data" "data \<le> length trg"
    using p n by (auto simp: delta_pending_def lits_def)
  have len: "length lits = n"
    using le by (simp add: lits_def)
  have "delta_produces src (ops @ of_nat n # lits) (take (data - n) trg @ lits)"
    using delta_produces_append [OF ops delta_produces_insert [OF n len]] .
  moreover have "take (data - n) trg @ lits = take data trg"
    using le by (metis lits_def le_add_diff_inverse2 take_add)
  moreover have "out[length out - n - 1 := of_nat n] =
      (delta_hdr (length src) @ delta_hdr (length trg) @ ops) @ of_nat n # lits"
    unfolding out by (rule update_slot [OF len])
  ultimately show ?thesis
    using le by (auto simp: delta_pending_def)
qed

lemma delta_pending_copy:
  assumes "delta_pending src trg data 0 out" and "delta_produces src op (take n (drop data trg))"
    and "data + n \<le> length trg"
  shows "delta_pending src trg (data + n) 0 (out @ op)"
  using assms delta_produces_append by (fastforce simp: delta_pending_def take_add)

lemma delta_pending_literal:
  assumes "delta_pending src trg data n out" and "data < length trg"
  shows "delta_pending src trg (Suc data) (Suc n)
    ((if n = 0 then out @ [0] else out) @ [trg ! data])"
proof -
  have "take (Suc n) (drop (data - n) trg) = take n (drop (data - n) trg) @ [trg ! data]"
    if "n \<le> data"
    using that assms(2) by (simp add: take_Suc_conv_app_nth)
  then show ?thesis
    using assms by (auto simp: delta_pending_def)
qed

lemma delta_literal_inv:
  assumes p: "delta_pending src trg (ds_data st) (ds_inscnt st) (ds_out st)"
    and cnt: "ds_inscnt st < 0x7f" and data: "ds_data st < length trg" "RABIN_WINDOW \<le> ds_data st"
    and v: "ds_val st = rabin_window (take RABIN_WINDOW (drop (ds_data st - (RABIN_WINDOW - 1)) trg))"
  shows "delta_inv src trg (delta_literal trg st)"
proof -
  define out where "out = (if ds_inscnt st = 0 then ds_out st @ [0] else ds_out st) @ [trg ! ds_data st]"
  have pend: "delta_pending src trg (Suc (ds_data st)) (Suc (ds_inscnt st)) out"
    unfolding out_def using p data(1) by (rule delta_pending_literal)
  have v': "ds_val st = rabin_window (take RABIN_WINDOW (drop (Suc (ds_data st) - RABIN_WINDOW) trg))"
    using v data(2) by (simp add: delta_consts)
  show ?thesis
  proof (cases "Suc (ds_inscnt st) = 0x7f")
    case True
    then have "delta_pending src trg (Suc (ds_data st)) 0 (out[length out - 0x7f - 1 := of_nat 0x7f])"
      using delta_pending_flush [OF pend] by simp
    then show ?thesis
      using True data v' unfolding delta_literal_def Let_def out_def [symmetric]
      by (simp add: delta_inv_def copy_ok_def)
  next
    case False
    then show ?thesis
      using pend cnt data v' unfolding delta_literal_def Let_def out_def [symmetric]
      by (simp add: delta_inv_def copy_ok_def)
  qed
qed

end
