(* ===== verification/Git_Delta_Roundtrip.thy ===== *)
theory Git_Delta_Roundtrip
  imports Git_Delta_Create
begin

text \<open>
  The loop of \<open>create_delta\<close>: every step keeps the invariant \<open>delta_inv\<close>, the loop returns, and
  the delta it leaves makes \<open>patch_delta\<close> rebuild the target.
\<close>

subsection \<open>Extending a match backwards\<close>

lemma copy_ok_back:
  assumes ok: "copy_ok src (drop data trg) moff msize" and pos: "0 < msize" "0 < moff" "0 < data"
    and eq: "src ! (moff - 1) = trg ! (data - 1)"
  shows "copy_ok src (drop (data - 1) trg) (moff - 1) (Suc msize)"
proof -
  have len: "moff + msize \<le> length src" "data + msize \<le> length trg"
    using ok pos by (auto simp: copy_ok_def)
  have "drop (moff - 1) src = src ! (moff - 1) # drop moff src"
    using len pos Cons_nth_drop_Suc [of "moff - 1" src] by simp
  moreover have "drop (data - 1) trg = trg ! (data - 1) # drop data trg"
    using len pos Cons_nth_drop_Suc [of "data - 1" trg] by simp
  ultimately show ?thesis
    using ok pos eq len by (auto simp: copy_ok_def)
qed

lemma butlast_lits:
  "length lits = Suc n \<Longrightarrow> butlast (pre @ x # lits) = pre @ x # take n lits"
  by (simp add: butlast_append butlast_conv_take)

lemma delta_back_ok:
  assumes "copy_ok src (drop data trg) moff msize" and "0 < msize" and "data \<le> length trg"
    and "n \<le> data" and "out = pre @ x # take n (drop (data - n) trg)"
    and "delta_back src trg n moff msize data out = (moff', msize', data', out', k)"
    and "0 < n"
  shows "copy_ok src (drop data' trg) moff' msize' \<and> msize \<le> msize' \<and> data' + msize' = data + msize \<and>
     data - n \<le> data' \<and> data' \<le> data \<and>
     (if data' = data - n then k = - 1 \<and> out' = pre
      else k = int (data' - (data - n)) \<and>
        out' = pre @ x # take (data' - (data - n)) (drop (data - n) trg))"
  using assms
proof (induction n arbitrary: moff msize data out)
  case 0
  then show ?case by simp
next
  case (Suc n)
  define lits where "lits = take (Suc n) (drop (data - Suc n) trg)"
  have out: "out = pre @ x # lits" and len: "length lits = Suc n"
    using Suc.prems(3-5) by (simp_all add: lits_def)
  show ?case
  proof (cases "moff \<noteq> 0 \<and> src ! (moff - 1) = trg ! (data - 1)")
    case True
    then have ok: "copy_ok src (drop (data - 1) trg) (moff - 1) (Suc msize)"
      using Suc.prems by (intro copy_ok_back) auto
    have base: "data - 1 - n = data - Suc n"
      by simp
    show ?thesis
    proof (cases "n = 0")
      case n0: True
      have "butlast (butlast out) = pre"
        using n0 len unfolding out by (cases lits) (simp_all add: butlast_append)
      then show ?thesis
        using True n0 Suc.prems ok by auto
    next
      case False
      have "butlast out = pre @ x # take n lits"
        unfolding out using len by (rule butlast_lits)
      also have "take n lits = take n (drop (data - 1 - n) trg)"
        by (simp add: lits_def min_def)
      finally have bl: "butlast out = pre @ x # take n (drop (data - 1 - n) trg)" .
      have rec: "delta_back src trg n (moff - 1) (Suc msize) (data - 1) (butlast out) =
          (moff', msize', data', out', k)"
        using Suc.prems(6) True False by simp
      have "data - 1 \<le> length trg" "n \<le> data - 1" "0 < n" "0 < data"
        using Suc.prems(3,4) False by auto
      then show ?thesis
        using Suc.IH [OF ok _ _ _ bl rec] unfolding base by auto
    qed
  next
    case False
    then show ?thesis
      using Suc.prems by auto
  qed
qed


subsection \<open>One step of the loop\<close>

definition find_ok :: "byte list \<Rightarrow> byte list \<Rightarrow> delta_state \<Rightarrow> delta_state \<Rightarrow> bool" where
  "find_ok src trg st st1 \<longleftrightarrow>
     ds_out st1 = ds_out st \<and> ds_data st1 = ds_data st \<and> ds_inscnt st1 = ds_inscnt st \<and>
     ds_outsize st1 = ds_outsize st \<and>
     copy_ok src (drop (ds_data st) trg) (ds_moff st1) (ds_msize st1) \<and>
     (ds_msize st1 < 4096 \<longrightarrow>
        ds_val st1 = rabin_window (take RABIN_WINDOW (drop (ds_data st - (RABIN_WINDOW - 1)) trg)))"

lemma delta_find_ok:
  assumes inv: "delta_inv src trg st" and data: "ds_data st < length trg"
    and idx: "delta_index_ok idx" "src_buf idx = src"
  shows "find_ok src trg st (delta_find idx trg st)"
proof (cases "ds_msize st < 4096")
  case True
  define v where "v = rabin_step (ds_val st XOR rabin_U ! unat (trg ! (ds_data st - RABIN_WINDOW))) (trg ! ds_data st)"
  have v: "v = rabin_window (take RABIN_WINDOW (drop (ds_data st - (RABIN_WINDOW - 1)) trg))"
    using inv data True window_roll [of "ds_data st" trg] by (auto simp: delta_inv_def v_def)
  obtain moff msize where search: "delta_search (src_buf idx) (drop (ds_data st) trg) v
      (index_bucket idx (unat (v AND hash_mask idx))) (ds_moff st) (ds_msize st) = (moff, msize)"
    by fastforce
  have "\<forall>e\<in>set (index_bucket idx (unat (v AND hash_mask idx))). index_entry_ok src e"
    using idx unat_and_le by (auto simp: delta_index_ok_def)
  then have "copy_ok src (drop (ds_data st) trg) moff msize"
    using inv search idx(2) delta_search_ok by (auto simp: delta_inv_def)
  moreover have "delta_find idx trg st = st\<lparr>ds_val := v, ds_moff := moff, ds_msize := msize\<rparr>"
    using True search unfolding delta_find_def Let_def v_def by simp
  ultimately show ?thesis
    using v by (simp add: find_ok_def)
next
  case False
  then show ?thesis
    using inv by (simp add: find_ok_def delta_find_def delta_inv_def)
qed

text \<open>The match, the data pointer and the output after the pending literals have been dealt with.\<close>

lemma delta_flush_back:
  assumes p: "delta_pending src trg data n out" and ok: "copy_ok src (drop data trg) moff msize"
    and msize: "0 < msize" and n: "0 < n" "n < 0x7f"
    and bk: "delta_back src trg n moff msize data out = (moff', msize', data', out', k)"
  shows "copy_ok src (drop data' trg) moff' msize' \<and> msize \<le> msize' \<and> data' + msize' = data + msize \<and>
     data \<le> data' + n \<and>
     delta_pending src trg data' 0 (out'[nat (int (length out') - k - 1) := of_int k])"
proof -
  obtain ops x where out: "out = (delta_hdr (length src) @ delta_hdr (length trg) @ ops) @
      x # take n (drop (data - n) trg)"
    and ops: "delta_produces src ops (take (data - n) trg)" and le: "n \<le> data" "data \<le> length trg"
    using p n by (auto simp: delta_pending_def)
  note b = delta_back_ok [OF ok msize le(2) le(1) out bk n(1)]
  have "delta_pending src trg data' 0 (out'[nat (int (length out') - k - 1) := of_int k])"
  proof (cases "data' = data - n")
    case True
    then have "out'[nat (int (length out') - k - 1) := of_int k] = out'"
      using b by (intro list_update_beyond) simp
    then show ?thesis
      using True b ops le by (auto simp: delta_pending_def)
  next
    case False
    define m where "m = data' - (data - n)"
    have m: "0 < m" "m < 128" "data' - m = data - n" "m \<le> data'" "k = int m" "data' \<le> data"
      using False b n le by (auto simp: m_def)
    have "delta_pending src trg data' m out'"
      using False b ops le m by (auto simp: delta_pending_def m_def)
    then have "delta_pending src trg data' 0 (out'[length out' - m - 1 := of_nat m])"
      using m by (intro delta_pending_flush) auto
    moreover have "nat (int (length out') - k - 1) = length out' - m - 1"
      using m(5) by linarith
    ultimately show ?thesis
      using m(5) by simp
  qed
  then show ?thesis
    using b le by auto
qed


lemma copy_ok_advance:
  assumes "copy_ok src (drop data trg) moff (n + left)"
  shows "copy_ok src (drop (data + n) trg) (moff + n) (if moff + n > 0xffffffff then 0 else left)"
proof (cases "left = 0")
  case False
  then have len: "moff + (n + left) \<le> length src" "n + left \<le> length trg - data"
    and eq: "take (n + left) (drop moff src) = take (n + left) (drop data trg)"
    using assms by (auto simp: copy_ok_def)
  have "take left (drop (moff + n) src) = take left (drop (data + n) trg)"
    using arg_cong [OF eq, of "drop n"] by (simp add: drop_take add.commute)
  then show ?thesis
    using len by (auto simp: copy_ok_def)
qed (simp add: copy_ok_def)

lemma delta_copy_flushed:
  assumes pend: "delta_pending src trg data 0 out" and ok: "copy_ok src (drop data trg) moff msize"
    and msize: "0 < msize" and src: "length src < 2 ^ 64"
    and n: "n = min msize 0x10000"
  shows "delta_pending src trg (data + n) 0 (out @ delta_copy_op (of_nat moff) (of_nat n)) \<and>
    data + n \<le> length trg"
proof -
  have len: "moff \<le> 0xffffffff" "moff + msize \<le> length src" "msize \<le> length trg - data"
    and eq: "take msize (drop moff src) = take msize (drop data trg)"
    using ok msize by (auto simp: copy_ok_def)
  have "n \<le> msize"
    using n by simp
  then have "take n (drop moff src) = take n (drop data trg)"
    using arg_cong [OF eq, of "take n"] by (simp add: min_def)
  moreover have "delta_produces src (delta_copy_op (of_nat moff) (of_nat n)) (take n (drop moff src))"
    using len msize n src by (intro delta_produces_copy) auto
  moreover have "data + n \<le> length trg"
    using len(3) \<open>n \<le> msize\<close> msize by linarith
  ultimately show ?thesis
    using delta_pending_copy [OF pend] by simp
qed

lemma delta_copy_inv:
  assumes inv: "delta_inv src trg st" and data: "ds_data st < length trg"
    and found: "find_ok src trg st st1" and msize: "4 \<le> ds_msize st1" and src: "length src < 2 ^ 64"
  shows "delta_inv src trg (delta_copy src trg st1) \<and> ds_data st < ds_data (delta_copy src trg st1)"
proof -
  have pend: "delta_pending src trg (ds_data st1) (ds_inscnt st1) (ds_out st1)"
    and ok: "copy_ok src (drop (ds_data st1) trg) (ds_moff st1) (ds_msize st1)"
    and cnt: "ds_inscnt st1 < 0x7f" and st1: "ds_data st1 = ds_data st"
    and low: "RABIN_WINDOW \<le> ds_data st"
    using inv found data by (auto simp: find_ok_def delta_inv_def)
  obtain moff msz dat out where flush: "(if ds_inscnt st1 \<noteq> 0 then
               (case delta_back src trg (ds_inscnt st1) (ds_moff st1) (ds_msize st1) (ds_data st1) (ds_out st1) of
                  (moff, msize, data, out, inscnt) \<Rightarrow>
                    (moff, msize, data,
                     out[nat (int (length out) - inscnt - 1) := of_int inscnt]))
             else (ds_moff st1, ds_msize st1, ds_data st1, ds_out st1)) = (moff, msz, dat, out)"
    using prod_cases4 by blast
  have flushed: "copy_ok src (drop dat trg) moff msz \<and> ds_msize st1 \<le> msz \<and>
     dat + msz = ds_data st + ds_msize st1 \<and> ds_data st \<le> dat + 0x7f \<and> delta_pending src trg dat 0 out"
  proof (cases "ds_inscnt st1 = 0")
    case True
    then show ?thesis
      using flush pend ok st1 by auto
  next
    case False
    obtain moff' msz' dat' out' k where b: "delta_back src trg (ds_inscnt st1) (ds_moff st1) (ds_msize st1)
        (ds_data st1) (ds_out st1) = (moff', msz', dat', out', k)"
      using prod_cases5 by blast
    then have "moff = moff'" "msz = msz'" "dat = dat'"
      "out = out'[nat (int (length out') - k - 1) := of_int k]"
      using flush False by auto
    then show ?thesis
      using delta_flush_back [OF pend ok _ _ cnt b] msize False cnt st1 by auto
  qed
  define n where "n = min msz 0x10000"
  define left where "left = msz - n"
  have left: "(if msz < 0x10000 then 0 else msz - 0x10000) = left" "msz - left = n" "n + left = msz"
    by (auto simp: left_def n_def)
  have step: "delta_pending src trg (dat + n) 0 (out @ delta_copy_op (of_nat moff) (of_nat n))"
    "dat + n \<le> length trg"
    using delta_copy_flushed [of src trg dat out moff msz n] flushed msize src n_def by auto
  have nxt: "copy_ok src (drop (dat + n) trg) (moff + n) (if moff + n > 0xffffffff then 0 else left)"
    using flushed left(3) by (intro copy_ok_advance) simp
  have more: "ds_data st < dat + n"
  proof (cases "msz < 0x10000")
    case True
    then have "n = msz"
      by (simp add: n_def)
    then show ?thesis
      using flushed msize by simp
  next
    case False
    then have "n = 0x10000"
      by (simp add: n_def)
    then show ?thesis
      using flushed by simp
  qed
  show ?thesis
    using step nxt more low
    unfolding delta_copy_def flush Let_def prod.case left
    by (auto simp: delta_inv_def)
qed

lemma delta_emit_inv:
  assumes "delta_inv src trg st" and "ds_data st < length trg"
    and "delta_index_ok idx" and "src_buf idx = src" and "length src < 2 ^ 64"
  shows "delta_inv src trg (delta_emit idx trg st) \<and> ds_data st < ds_data (delta_emit idx trg st)"
proof -
  have found: "find_ok src trg st (delta_find idx trg st)"
    using assms by (intro delta_find_ok)
  show ?thesis
  proof (cases "ds_msize (delta_find idx trg st) < 4")
    case True
    then have "delta_inv src trg (delta_literal trg (delta_find idx trg st))"
      using assms found by (intro delta_literal_inv) (auto simp: find_ok_def delta_inv_def)
    moreover have "ds_data (delta_literal trg (delta_find idx trg st)) = Suc (ds_data st)"
      using found by (simp add: delta_literal_def Let_def find_ok_def)
    ultimately show ?thesis
      using True by (simp add: delta_emit_def)
  next
    case False
    then show ?thesis
      using delta_copy_inv [OF assms(1,2) found] assms by (simp add: delta_emit_def)
  qed
qed


subsection \<open>The loop returns\<close>

lemma delta_grow_cases:
  obtains k where "delta_grow max_size st = Inr (st\<lparr>ds_outsize := k\<rparr>)"
  | k where "delta_grow max_size st = Inl (st\<lparr>ds_outsize := k\<rparr>)" and "max_size \<noteq> 0"
    and "max_size < length (ds_out st)"
proof (cases "ds_outsize st - MAX_OP_SIZE \<le> length (ds_out st)")
  case True
  define k where "k = (if max_size \<noteq> 0 \<and> ds_outsize st * 3 div 2 \<ge> max_size
      then max_size + MAX_OP_SIZE + 1 else ds_outsize st * 3 div 2)"
  have "delta_grow max_size st = (if max_size \<noteq> 0 \<and> length (ds_out st) > max_size
      then Inl (st\<lparr>ds_outsize := k\<rparr>) else Inr (st\<lparr>ds_outsize := k\<rparr>))"
    using True unfolding delta_grow_def Let_def k_def by simp
  then show ?thesis
    using that by (metis (full_types))
next
  case False
  then have "delta_grow max_size st = Inr (st\<lparr>ds_outsize := ds_outsize st\<rparr>)"
    by (simp add: delta_grow_def)
  then show ?thesis
    using that(1) by blast
qed

lemma delta_inv_outsize [simp]: "delta_inv src trg (st\<lparr>ds_outsize := k\<rparr>) = delta_inv src trg st"
  by (simp add: delta_inv_def)

lemma delta_loop_ok:
  assumes "delta_inv src trg st" and idx: "delta_index_ok idx" "src_buf idx = src" "length src < 2 ^ 64"
  shows "\<exists>st'. delta_loop idx trg max_size st = Some st' \<and> delta_inv src trg st' \<and>
    (ds_data st' = length trg \<or> max_size \<noteq> 0 \<and> max_size < length (ds_out st'))"
  using assms(1)
proof (induction "length trg - ds_data st" arbitrary: st rule: less_induct)
  case less
  show ?case
  proof (cases "ds_data st < length trg")
    case False
    then have "ds_data st = length trg"
      using less.prems by (auto simp: delta_inv_def delta_pending_def)
    then show ?thesis
      using less.prems by (subst delta_loop.simps) simp
  next
    case True
    define st1 where "st1 = delta_emit idx trg st"
    have st1: "delta_inv src trg st1" "ds_data st < ds_data st1"
      using delta_emit_inv [OF less.prems True idx(1,2,3)] by (auto simp: st1_def)
    show ?thesis
    proof (rule delta_grow_cases [of max_size st1])
      fix k
      assume "delta_grow max_size st1 = Inr (st1\<lparr>ds_outsize := k\<rparr>)"
      moreover have "\<exists>st'. delta_loop idx trg max_size (st1\<lparr>ds_outsize := k\<rparr>) = Some st' \<and> delta_inv src trg st' \<and>
          (ds_data st' = length trg \<or> max_size \<noteq> 0 \<and> max_size < length (ds_out st'))"
        using st1 True by (intro less.hyps) auto
      ultimately show ?thesis
        using True by (subst delta_loop.simps) (simp add: st1_def)
    next
      fix k
      assume "delta_grow max_size st1 = Inl (st1\<lparr>ds_outsize := k\<rparr>)" "max_size \<noteq> 0"
        "max_size < length (ds_out st1)"
      then show ?thesis
        using True st1 by (subst delta_loop.simps) (simp add: st1_def)
    qed
  qed
qed

lemma delta_start_inv:
  assumes "src_buf idx = src" and "trg \<noteq> []"
  shows "delta_inv src trg (delta_start idx trg max_size)"
proof -
  have w: "RABIN_WINDOW = 16"
    by (simp add: delta_consts)
  have "delta_pending src trg (min 16 (length trg)) (min 16 (length trg))
      (delta_hdr (length src) @ delta_hdr (length trg) @ [] @ 0 # take 16 trg)"
    unfolding delta_pending_def using assms(2) delta_produces_Nil by (fastforce simp: min_def)
  then show ?thesis
    using assms by (auto simp: delta_inv_def delta_start_def copy_ok_def w)
qed

subsection \<open>What the finished delta rebuilds\<close>

lemma delta_operand_Nil: "delta_operand c sh (x, []) = Some s \<Longrightarrow> s = (x, [])"
  by (cases c) auto

lemma copy_operands_Nil: "copy_operands cmd [] = Some (off, sz, d) \<Longrightarrow> sz = 0x10000"
  unfolding copy_operands_def
  by (auto simp: bind_eq_Some_conv dest!: delta_operand_Nil split: if_splits)

lemma delta_produces_short:
  assumes "delta_produces src ops X" and X: "X \<noteq> []" "length X < 128"
  shows "2 \<le> length ops"
proof (rule ccontr)
  define sz :: u64 where "sz = of_nat (length X)"
  assume "\<not> 2 \<le> length ops"
  then consider "ops = []" | c where "ops = [c]"
    by (cases ops; cases "tl ops") auto
  moreover have run: "patch_delta_loop src ops [] sz = Value ([], X, 0)"
    using delta_producesD [OF assms(1), of sz "[]" "[]"] X by (simp add: sz_def unat_of_nat_small)
  ultimately show False
  proof cases
    case 1
    then show False
      using run X by simp
  next
    case (2 c)
    have "\<not> 0x10000 \<le> sz"
      using X by (simp add: sz_def word_le_nat_alt unat_of_nat_small)
    then show False
      using run X unfolding 2
      by (auto simp: patch_delta_loop.simps(2) not_le unat_eq_0 split: if_splits option.splits
          dest: copy_operands_Nil)
  qed
qed

lemma length_delta_hdr: "0 < length (delta_hdr l)" "128 \<le> l \<Longrightarrow> 2 \<le> length (delta_hdr l)"
  by (simp, subst delta_hdr.simps) (simp add: Suc_le_eq)

lemma patch_of_pending:
  assumes pend: "delta_pending src trg (length trg) 0 out" and trg: "trg \<noteq> []"
    and len: "length src < 2 ^ 64" "length trg < 2 ^ 64"
  shows "patch_delta src out = Value trg \<and> DELTA_SIZE_MIN \<le> length out"
proof -
  obtain ops where out: "out = delta_hdr (length src) @ delta_hdr (length trg) @ ops"
    and ops: "delta_produces src ops trg"
    using pend by (auto simp: delta_pending_def)
  have nonempty: "ops \<noteq> []"
  proof
    assume "ops = []"
    then show False
      using delta_producesD [OF ops, of "of_nat (length trg)" "[]" "[]"] trg len
      by (simp add: unat_of_nat_small)
  qed
  have size: "DELTA_SIZE_MIN \<le> length out"
  proof (cases "length trg < 128")
    case True
    then have "2 \<le> length ops"
      using ops trg by (intro delta_produces_short)
    then show ?thesis
      using length_delta_hdr(1) [of "length src"] length_delta_hdr(1) [of "length trg"]
      unfolding DELTA_SIZE_MIN_def out length_append by linarith
  next
    case False
    moreover have "0 < length ops"
      using nonempty by simp
    ultimately show ?thesis
      using length_delta_hdr(1) [of "length src"] length_delta_hdr(2) [of "length trg"]
      unfolding DELTA_SIZE_MIN_def out length_append by linarith
  qed
  have "patch_delta_loop src ops [] (of_nat (length trg)) = Value ([], trg, 0)"
    using delta_producesD [OF ops, of "of_nat (length trg)" "[]" "[]"] len
    by (simp add: unat_of_nat_small)
  then have "patch_delta src out = Value trg"
    using size unfolding patch_delta_def out
    by (simp add: delta_hdr_read [OF len(1)] delta_hdr_read [OF len(2)] del: length_append)
  then show ?thesis
    using size by simp
qed

lemma create_delta_result:
  assumes idx: "delta_index_ok idx" "src_buf idx = src" and trg: "trg \<noteq> []"
    and len: "length src < 2 ^ 64" "length trg < 2 ^ 64"
  shows "(\<exists>d. create_delta idx trg max_size = Value d \<and> patch_delta src d = Value trg \<and>
      DELTA_SIZE_MIN \<le> length d \<and> (max_size \<noteq> 0 \<longrightarrow> length d \<le> max_size)) \<or>
    create_delta idx trg max_size = Failure \<and> max_size \<noteq> 0"
proof -
  obtain st where run: "delta_loop idx trg max_size (delta_start idx trg max_size) = Some st"
    and inv: "delta_inv src trg st"
    and fin: "ds_data st = length trg \<or> max_size \<noteq> 0 \<and> max_size < length (ds_out st)"
    using delta_loop_ok [OF delta_start_inv [OF idx(2) trg] idx len(1)] by blast
  define out where "out = (if ds_inscnt st \<noteq> 0
      then (ds_out st)[length (ds_out st) - ds_inscnt st - 1 := of_nat (ds_inscnt st)] else ds_out st)"
  have result: "create_delta idx trg max_size =
      (if max_size \<noteq> 0 \<and> length out > max_size then Failure else Value out)"
    using trg run by (simp add: create_delta_def out_def)
  have "length out = length (ds_out st)"
    by (simp add: out_def)
  moreover have "patch_delta src out = Value trg \<and> DELTA_SIZE_MIN \<le> length out"
    if "ds_data st = length trg"
  proof -
    have "delta_pending src trg (length trg) 0 out"
      using inv that delta_pending_flush [of src trg "length trg" "ds_inscnt st" "ds_out st"]
      by (auto simp: delta_inv_def out_def)
    then show ?thesis
      using trg len by (rule patch_of_pending)
  qed
  ultimately show ?thesis
    using fin by (auto simp: result)
qed


subsection \<open>The output buffer\<close>

text \<open>The states in which the loop head is reached.\<close>

inductive delta_reach :: "delta_index \<Rightarrow> byte list \<Rightarrow> nat \<Rightarrow> delta_state \<Rightarrow> bool"
  for idx trg max_size where
  reach_start: "delta_reach idx trg max_size (delta_start idx trg max_size)"
| reach_step: "delta_reach idx trg max_size st \<Longrightarrow> ds_data st < length trg \<Longrightarrow>
     delta_grow max_size (delta_emit idx trg st) = Inr st' \<Longrightarrow> delta_reach idx trg max_size st'"

definition delta_room :: "delta_state \<Rightarrow> bool" where
  "delta_room st \<longleftrightarrow> length (ds_out st) + 7 \<le> ds_outsize st \<and> MAX_OP_SIZE < ds_outsize st"

lemma length_delta_hdr_le: "0 < n \<Longrightarrow> l < 2 ^ (7 * n) \<Longrightarrow> length (delta_hdr l) \<le> n"
proof (induction l arbitrary: n rule: delta_hdr.induct)
  case (1 l)
  show ?case
  proof (cases "0x80 \<le> l")
    case True
    obtain m where m: "n = Suc m"
      using "1.prems"(1) by (cases n) auto
    have m0: "0 < m"
      using True "1.prems"(2) by (cases m) (auto simp: m)
    have "drop_bit 7 l < 2 ^ (7 * m)"
      using "1.prems"(2) by (simp add: m drop_bit_eq_div power_add less_mult_imp_div_less)
    then show ?thesis
      using "1.IH" [OF True m0] True by (subst delta_hdr.simps) (simp add: m)
  next
    case False
    then show ?thesis
      using "1.prems"(1) by (subst delta_hdr.simps) simp
  qed
qed

lemma length_delta_copy_op: "length (delta_copy_op off n) \<le> 7"
  unfolding delta_copy_op_def Let_def by simp

lemma length_delta_back:
  "delta_back src trg n off m d out = (off', m', d', out', k) \<Longrightarrow> length out' \<le> length out"
proof (induction n arbitrary: off m d out)
  case (Suc n)
  show ?case
  proof (cases "off \<noteq> 0 \<and> src ! (off - 1) = trg ! (d - 1) \<and> n \<noteq> 0")
    case True
    then show ?thesis
      using Suc.prems Suc.IH [of "off - 1" "Suc m" "d - 1" "butlast out"] by auto
  next
    case False
    then show ?thesis
      using Suc.prems by (auto split: if_splits)
  qed
qed simp

lemma length_delta_copy: "length (ds_out (delta_copy src trg st)) \<le> length (ds_out st) + 7"
  unfolding delta_copy_def Let_def
  by (auto split: prod.splits if_splits dest!: length_delta_back
      intro!: add_mono length_delta_copy_op)

lemma delta_emit_length:
  "length (ds_out (delta_emit idx trg st)) \<le> length (ds_out st) + 7 \<and>
   ds_outsize (delta_emit idx trg st) = ds_outsize st"
proof -
  have find: "ds_out (delta_find idx trg st) = ds_out st" "ds_outsize (delta_find idx trg st) = ds_outsize st"
    by (simp_all add: delta_find_def Let_def split: prod.splits)
  have copy: "ds_outsize (delta_copy src trg s) = ds_outsize s" for src s
    by (simp add: delta_copy_def Let_def split: prod.splits)
  show ?thesis
    using length_delta_copy [of "src_buf idx" trg "delta_find idx trg st"]
    by (simp add: delta_emit_def delta_literal_def Let_def find copy)
qed

lemma delta_grow_room:
  assumes "delta_grow max_size st = Inr st'" and len: "length (ds_out st) \<le> ds_outsize st"
    and "MAX_OP_SIZE < ds_outsize st"
    and big: "8192 \<le> ds_outsize st \<or> max_size \<noteq> 0 \<and> ds_outsize st = max_size + MAX_OP_SIZE + 1"
  shows "delta_room st' \<and>
    (8192 \<le> ds_outsize st' \<or> max_size \<noteq> 0 \<and> ds_outsize st' = max_size + MAX_OP_SIZE + 1)"
proof (cases "ds_outsize st - MAX_OP_SIZE \<le> length (ds_out st)")
  case False
  then have "st' = st"
    using assms(1) by (simp add: delta_grow_def)
  then show ?thesis
    using False assms by (simp add: delta_room_def MAX_OP_SIZE_def delta_consts)
next
  case True
  then have st': "st' = st\<lparr>ds_outsize := (if max_size \<noteq> 0 \<and> ds_outsize st * 3 div 2 \<ge> max_size
      then max_size + MAX_OP_SIZE + 1 else ds_outsize st * 3 div 2)\<rparr>"
    and lim: "max_size \<noteq> 0 \<longrightarrow> length (ds_out st) \<le> max_size"
    using assms(1) by (auto simp: delta_grow_def Let_def split: if_splits)
  show ?thesis
  proof (cases "max_size \<noteq> 0 \<and> ds_outsize st * 3 div 2 \<ge> max_size")
    case True
    then show ?thesis
      using lim by (simp add: st' delta_room_def MAX_OP_SIZE_def)
  next
    case False
    then have "8192 \<le> ds_outsize st"
      using big by auto
    then show ?thesis
      using False len by (auto simp: st' delta_room_def MAX_OP_SIZE_def delta_consts)
  qed
qed

lemma delta_start_room:
  assumes "length (src_buf idx) < 2 ^ 35" and "length trg < 2 ^ 35"
  shows "delta_room (delta_start idx trg max_size) \<and>
    (8192 \<le> ds_outsize (delta_start idx trg max_size) \<or>
     max_size \<noteq> 0 \<and> ds_outsize (delta_start idx trg max_size) = max_size + MAX_OP_SIZE + 1)"
  using length_delta_hdr_le [of 5 "length (src_buf idx)"] length_delta_hdr_le [of 5 "length trg"] assms
  by (auto simp: delta_room_def delta_start_def MAX_OP_SIZE_def delta_consts)

lemma delta_reach_room:
  assumes "delta_reach idx trg max_size st"
    and "length (src_buf idx) < 2 ^ 35" and "length trg < 2 ^ 35"
  shows "delta_room st \<and>
    (8192 \<le> ds_outsize st \<or> max_size \<noteq> 0 \<and> ds_outsize st = max_size + MAX_OP_SIZE + 1)"
  using assms(1)
proof induction
  case reach_start
  then show ?case
    using assms(2,3) by (rule delta_start_room)
next
  case (reach_step st st')
  then show ?case
    using delta_emit_length [of idx trg st]
    by (intro delta_grow_room [OF reach_step.hyps(3)]) (auto simp: delta_room_def)
qed

subsection \<open>The properties of the component\<close>

text \<open>
  (C7) For every non-empty source and target, \<open>diff_delta\<close> without a size limit returns a delta,
  and \<open>patch_delta\<close> rebuilds the target from the source and that delta.
\<close>
theorem delta_roundtrip:
  assumes "src \<noteq> []" and "trg \<noteq> []" and "length src < 2 ^ 64" and "length trg < 2 ^ 64"
  shows "\<exists>d. diff_delta src trg 0 = Value d \<and> patch_delta src d = Value trg"
proof -
  obtain idx where "create_delta_index src = Value idx" "src_buf idx = src" "delta_index_ok idx"
    using create_delta_index_cases [OF assms(1)] by blast
  then show ?thesis
    using create_delta_result [of idx src trg 0] assms by (auto simp: diff_delta_def)
qed

lemma delta_roundtrip_witness:
  "\<exists>d. diff_delta [1, 2, 3] [2, 3] 0 = Value d \<and> patch_delta [1, 2, 3] d = Value [2, 3]"
  by (rule delta_roundtrip) simp_all

text \<open>
  With a size limit, \<open>diff_delta\<close> either returns a delta of at least \<open>DELTA_SIZE_MIN\<close> bytes that
  respects the limit and rebuilds the target, or it answers NULL; it never reads outside its buffers.
\<close>
theorem delta_limit:
  assumes "src \<noteq> []" and "trg \<noteq> []" and "length src < 2 ^ 64" and "length trg < 2 ^ 64"
    and "max_size \<noteq> 0"
  shows "case diff_delta src trg max_size of
      Value d \<Rightarrow> DELTA_SIZE_MIN \<le> length d \<and> length d \<le> max_size \<and> patch_delta src d = Value trg
    | Failure \<Rightarrow> True
    | Fault \<Rightarrow> False"
proof -
  obtain idx where "create_delta_index src = Value idx" "src_buf idx = src" "delta_index_ok idx"
    using create_delta_index_cases [OF assms(1)] by blast
  then show ?thesis
    using create_delta_result [of idx src trg max_size] assms by (auto simp: diff_delta_def)
qed

lemma delta_limit_witness:
  "case diff_delta [7] [8, 9] 100 of
      Value d \<Rightarrow> DELTA_SIZE_MIN \<le> length d \<and> length d \<le> 100 \<and> patch_delta [7] d = Value [8, 9]
    | Failure \<Rightarrow> True
    | Fault \<Rightarrow> False"
  by (rule delta_limit) simp_all

text \<open>
  The output buffer is never overrun: at every loop head there is room for the seven bytes an
  iteration can add, for any index, target and limit, when both sizes need at most five header bytes.
\<close>
theorem delta_buffer_room:
  assumes "delta_reach idx trg max_size st"
    and "length (src_buf idx) < 2 ^ 35" and "length trg < 2 ^ 35"
  shows "length (ds_out st) + 7 \<le> ds_outsize st \<and>
    length (ds_out (delta_emit idx trg st)) \<le> length (ds_out st) + 7"
  using delta_reach_room [OF assms] delta_emit_length by (simp add: delta_room_def)

definition example_index :: delta_index where
  "example_index = \<lparr>src_buf = [1], hash_mask = 0, hash_start = [0, 0], packed_entry = []\<rparr>"

lemma delta_buffer_room_witness:
  "length (ds_out (delta_start example_index [5, 6] 3)) + 7 \<le> ds_outsize (delta_start example_index [5, 6] 3)"
  using delta_buffer_room [OF reach_start [of example_index "[5, 6]" 3]] by (simp add: example_index_def)

end
