(* ===== verification/Git_Order.thy ===== *)
theory Git_Order
  imports Git_Prelude "HOL-Library.Multiset"
begin

text \<open>
  The contract of the comparison callbacks of the C code (\<open>prio_queue_compare_fn\<close>, the callback of
  \<open>llist_mergesort\<close>, \<open>strcmp\<close>, \<open>hashcmp\<close>): only the sign of the result counts, and it is a total
  preorder on the set of the things compared.  What sorting with such a callback means.
\<close>

locale comparator_on =
  fixes S :: "'a set" and cmp :: "'a \<Rightarrow> 'a \<Rightarrow> int"
  assumes flip: "x \<in> S \<Longrightarrow> y \<in> S \<Longrightarrow> sgn (cmp y x) = - sgn (cmp x y)"
    and order_trans: "x \<in> S \<Longrightarrow> y \<in> S \<Longrightarrow> z \<in> S \<Longrightarrow> cmp x y \<le> 0 \<Longrightarrow> cmp y z \<le> 0 \<Longrightarrow> cmp x z \<le> 0"
begin

lemma refl: "x \<in> S \<Longrightarrow> cmp x x = 0"
  using flip [of x x] by (simp add: sgn_if split: if_splits)

lemma pos_flip: "x \<in> S \<Longrightarrow> y \<in> S \<Longrightarrow> 0 < cmp x y \<longleftrightarrow> cmp y x < 0"
  using flip [of x y] by (auto simp: sgn_if split: if_splits)

lemma zero_flip: "x \<in> S \<Longrightarrow> y \<in> S \<Longrightarrow> cmp x y = 0 \<longleftrightarrow> cmp y x = 0"
  using flip [of x y] by (auto simp: sgn_if split: if_splits)

lemma total: "x \<in> S \<Longrightarrow> y \<in> S \<Longrightarrow> cmp x y \<le> 0 \<or> cmp y x \<le> 0"
  using pos_flip [of x y] by auto

lemma nonneg_flip: "x \<in> S \<Longrightarrow> y \<in> S \<Longrightarrow> 0 \<le> cmp x y \<longleftrightarrow> cmp y x \<le> 0"
  using pos_flip [of y x] by auto

lemma zero_trans: "x \<in> S \<Longrightarrow> y \<in> S \<Longrightarrow> z \<in> S \<Longrightarrow> cmp x y = 0 \<Longrightarrow> cmp y z = 0 \<Longrightarrow> cmp x z = 0"
  using order_trans [of x y z] order_trans [of z y x] zero_flip pos_flip
  by (metis dual_order.order_iff_strict less_le_not_le linorder_cases order.refl)

lemma zero_congruent: "x \<in> S \<Longrightarrow> y \<in> S \<Longrightarrow> z \<in> S \<Longrightarrow> cmp x y = 0 \<Longrightarrow> cmp x z = 0 \<longleftrightarrow> cmp y z = 0"
  using zero_trans [of x y z] zero_trans [of y x z] zero_flip [of x y] by blast

lemma less_trans: "x \<in> S \<Longrightarrow> y \<in> S \<Longrightarrow> z \<in> S \<Longrightarrow> cmp x y < 0 \<Longrightarrow> cmp y z \<le> 0 \<Longrightarrow> cmp x z < 0"
  using order_trans [of x y z] order_trans [of y z x] pos_flip [of y x] zero_flip [of x z]
  by (metis dual_order.order_iff_strict linorder_not_less)

end

lemma comparator_on_subset: "comparator_on S cmp \<Longrightarrow> T \<subseteq> S \<Longrightarrow> comparator_on T cmp"
  unfolding comparator_on_def by blast

text \<open>Comparing by a key in a linear order, in either direction.\<close>

definition compare_keys :: "('a \<Rightarrow> 'k::linorder) \<Rightarrow> 'a \<Rightarrow> 'a \<Rightarrow> int" where
  "compare_keys k x y = (if k x < k y then - 1 else if k x > k y then 1 else 0)"

interpretation keys: comparator_on UNIV "compare_keys k" for k
  by unfold_locales (auto simp: compare_keys_def split: if_splits)

definition ordered_by :: "('a \<Rightarrow> 'a \<Rightarrow> int) \<Rightarrow> 'a list \<Rightarrow> bool" where
  "ordered_by cmp = sorted_wrt (\<lambda>x y. cmp x y \<le> 0)"

lemma ordered_by_simps [simp]:
  "ordered_by cmp []"
  "ordered_by cmp (x # xs) \<longleftrightarrow> (\<forall>y\<in>set xs. cmp x y \<le> 0) \<and> ordered_by cmp xs"
  by (simp_all add: ordered_by_def)

lemma ordered_by_append:
  "ordered_by cmp (xs @ ys) \<longleftrightarrow>
     ordered_by cmp xs \<and> ordered_by cmp ys \<and> (\<forall>x\<in>set xs. \<forall>y\<in>set ys. cmp x y \<le> 0)"
  by (simp add: ordered_by_def sorted_wrt_append)

text \<open>
  \<open>stable_sort_of cmp xs ys\<close>: \<open>ys\<close> holds the elements of \<open>xs\<close> in order, and elements that compare
  equal keep the order they have in \<open>xs\<close>.
\<close>

definition stable_sort_of :: "('a \<Rightarrow> 'a \<Rightarrow> int) \<Rightarrow> 'a list \<Rightarrow> 'a list \<Rightarrow> bool" where
  "stable_sort_of cmp xs ys \<longleftrightarrow>
     ordered_by cmp ys \<and> mset ys = mset xs \<and>
     (\<forall>x\<in>set xs. filter (\<lambda>y. cmp x y = 0) ys = filter (\<lambda>y. cmp x y = 0) xs)"

context comparator_on
begin

text \<open>The order and stability determine the result.\<close>

lemma stable_sort_unique:
  assumes "set xs \<subseteq> S" and "stable_sort_of cmp xs ys" and "stable_sort_of cmp xs zs"
  shows "ys = zs"
proof -
  have sets: "set ys = set xs" "set zs = set xs"
    using assms(2,3) by (auto simp: stable_sort_of_def dest: mset_eq_setD)
  have eq: "ys = zs"
    if "ordered_by cmp ys" "ordered_by cmp zs" "set ys \<subseteq> S" "set zs \<subseteq> S" "mset ys = mset zs"
      "\<forall>x\<in>S. filter (\<lambda>y. cmp x y = 0) ys = filter (\<lambda>y. cmp x y = 0) zs"
    for ys zs
    using that
  proof (induction ys arbitrary: zs)
    case Nil
    then show ?case by simp
  next
    case (Cons y ys)
    obtain z zs' where zs: "zs = z # zs'"
      using Cons.prems(5) by (cases zs) auto
    have mem: "y \<in> set zs" "z \<in> set (y # ys)" "y \<in> S" "z \<in> S"
      using Cons.prems mset_eq_setD [OF Cons.prems(5)] zs by auto
    have "cmp y z \<le> 0" "cmp z y \<le> 0"
      using mem Cons.prems(1,2) zs refl by auto
    then have "cmp y z = 0"
      using pos_flip [of z y] mem by auto
    then have "y = z"
      using Cons.prems(6) mem(3) refl [of y] zs by auto
    moreover have "ys = zs'"
    proof (rule Cons.IH)
      show "\<forall>x\<in>S. filter (\<lambda>y. cmp x y = 0) ys = filter (\<lambda>y. cmp x y = 0) zs'"
        using Cons.prems(6) zs \<open>y = z\<close> by (auto split: if_splits)
    qed (use Cons.prems zs \<open>y = z\<close> in auto)
    ultimately show ?case
      using zs by simp
  qed
  have none: "filter (\<lambda>y. cmp x y = 0) us = []"
    if "x \<in> S" "\<forall>u\<in>set xs. cmp x u \<noteq> 0" "set us = set xs" for x us
    using that by (auto simp: filter_empty_conv)
  have "filter (\<lambda>y. cmp x y = 0) ys = filter (\<lambda>y. cmp x y = 0) zs" if x: "x \<in> S" for x
  proof (cases "\<exists>u\<in>set xs. cmp x u = 0")
    case True
    then obtain u where u: "u \<in> set xs" "cmp x u = 0"
      by blast
    have "filter (\<lambda>y. cmp x y = 0) us = filter (\<lambda>y. cmp u y = 0) us" if "set us = set xs" for us
      using that u x assms(1) zero_congruent [of x u] by (intro filter_cong) blast+
    then show ?thesis
      using u(1) assms(2,3) sets by (auto simp: stable_sort_of_def)
  next
    case False
    then show ?thesis
      using none [OF x] sets by auto
  qed
  then show ?thesis
    using assms sets by (intro eq) (auto simp: stable_sort_of_def)
qed

end

end
