(* ===== verification/Git_Prio_Queue.thy ===== *)
theory Git_Prio_Queue
  imports Git_Order
begin

text \<open>
  \<^verbatim>\<open>prio-queue.c\<close>: a binary heap in an array whose entries carry an insertion counter that breaks
  ties, or a stack when there is no comparison function.  \<open>pq_array\<close> holds the first \<open>nr\<close> entries of
  \<open>array\<close>; the counters are 32-bit unsigned and their difference is converted to \<open>int\<close>.
\<close>

record 'a prio_queue =
  pq_compare :: "('a \<Rightarrow> 'a \<Rightarrow> int) option"
  pq_insertion_ctr :: u32
  pq_array :: "(u32 \<times> 'a) list"

subsection \<open>Operations\<close>

definition pq_entry_cmp :: "('a \<Rightarrow> 'a \<Rightarrow> int) \<Rightarrow> u32 \<times> 'a \<Rightarrow> u32 \<times> 'a \<Rightarrow> int" where
  "pq_entry_cmp f x y =
     (let cmp = f (snd x) (snd y) in if cmp = 0 then sint (fst x - fst y) else cmp)"

definition swap_entries :: "'b list \<Rightarrow> nat \<Rightarrow> nat \<Rightarrow> 'b list" where
  "swap_entries a i j = a[i := a ! j, j := a ! i]"

fun pq_reverse_loop :: "nat \<Rightarrow> 'b list \<Rightarrow> nat \<Rightarrow> 'b list" where
  "pq_reverse_loop 0 a i = a"
| "pq_reverse_loop (Suc k) a i =
     (let j = int (length a) - 1 - int i in
      if int i < j then pq_reverse_loop k (swap_entries a i (nat j)) (Suc i) else a)"

text \<open>\<open>None\<close> is the \<open>die\<close> on a queue that is not a stack; \<open>nr\<close> steps are more than the loop takes.\<close>

definition prio_queue_reverse :: "'a prio_queue \<Rightarrow> 'a prio_queue option" where
  "prio_queue_reverse q =
     (case pq_compare q of
        Some f \<Rightarrow> None
      | None \<Rightarrow> Some (q\<lparr>pq_array := pq_reverse_loop (length (pq_array q)) (pq_array q) 0\<rparr>))"

definition clear_prio_queue :: "'a prio_queue \<Rightarrow> 'a prio_queue" where
  "clear_prio_queue q = q\<lparr>pq_array := [], pq_insertion_ctr := 0\<rparr>"

function bubble_up :: "('b \<Rightarrow> 'b \<Rightarrow> int) \<Rightarrow> 'b list \<Rightarrow> nat \<Rightarrow> 'b list" where
  "bubble_up cmp a ix =
     (if ix = 0 then a
      else let parent = (ix - 1) div 2 in
           if cmp (a ! parent) (a ! ix) \<le> 0 then a
           else bubble_up cmp (swap_entries a parent ix) parent)"
  by pat_completeness auto
termination
  by (relation "measure (\<lambda>(cmp, a, ix). ix)") auto

definition prio_queue_put :: "'a prio_queue \<Rightarrow> 'a \<Rightarrow> 'a prio_queue" where
  "prio_queue_put q thing =
     (let a = pq_array q @ [(pq_insertion_ctr q, thing)];
          q1 = q\<lparr>pq_insertion_ctr := pq_insertion_ctr q + 1\<rparr>
      in case pq_compare q of
           None \<Rightarrow> q1\<lparr>pq_array := a\<rparr>
         | Some f \<Rightarrow> q1\<lparr>pq_array := bubble_up (pq_entry_cmp f) a (length a - 1)\<rparr>)"

text \<open>The child that is swapped up: the right one when it exists and is not larger than the left.\<close>

definition heap_child :: "('b \<Rightarrow> 'b \<Rightarrow> int) \<Rightarrow> 'b list \<Rightarrow> nat \<Rightarrow> nat" where
  "heap_child cmp a ix =
     (let child = ix * 2 + 1 in
      if child + 1 < length a \<and> cmp (a ! child) (a ! (child + 1)) \<ge> 0 then child + 1 else child)"

lemma heap_child_cases: "heap_child cmp a ix = ix * 2 + 1 \<or> heap_child cmp a ix = ix * 2 + 2"
  by (simp add: heap_child_def Let_def)

lemma heap_child_less: "ix * 2 + 1 < length a \<Longrightarrow> heap_child cmp a ix < length a"
  by (simp add: heap_child_def Let_def)

lemma heap_child_gt: "ix < heap_child cmp a ix"
  using heap_child_cases [of cmp a ix] by auto

lemma length_swap_entries [simp]: "length (swap_entries a i j) = length a"
  by (simp add: swap_entries_def)

function push_down :: "('b \<Rightarrow> 'b \<Rightarrow> int) \<Rightarrow> 'b list \<Rightarrow> nat \<Rightarrow> 'b list" where
  "push_down cmp a ix =
     (if ix * 2 + 1 < length a then
        let child = heap_child cmp a ix in
        if cmp (a ! ix) (a ! child) \<le> 0 then a
        else push_down cmp (swap_entries a child ix) child
      else a)"
  by pat_completeness auto
termination
  by (relation "measure (\<lambda>(cmp, a, ix). length a - ix)")
    (use heap_child_gt heap_child_less in \<open>auto intro!: diff_less_mono2\<close>)

declare bubble_up.simps [simp del] push_down.simps [simp del]

definition prio_queue_get :: "'a prio_queue \<Rightarrow> ('a \<times> 'a prio_queue) option" where
  "prio_queue_get q =
     (let a = pq_array q in
      if a = [] then None
      else case pq_compare q of
        None \<Rightarrow> Some (snd (last a), q\<lparr>pq_array := butlast a\<rparr>)
      | Some f \<Rightarrow>
          let result = snd (a ! 0); a1 = butlast a in
          if a1 = [] then Some (result, q\<lparr>pq_array := a1\<rparr>)
          else Some (result, q\<lparr>pq_array := push_down (pq_entry_cmp f) (a1[0 := last a]) 0\<rparr>))"

subsection \<open>The queue as a bag\<close>

text \<open>What every walk over the commit graph uses: nothing put is lost, and \<open>get\<close> takes one out.\<close>

locale bag =
  fixes put :: "'q \<Rightarrow> 'a \<Rightarrow> 'q" and get :: "'q \<Rightarrow> ('a \<times> 'q) option" and items :: "'q \<Rightarrow> 'a multiset"
  assumes items_put: "items (put q x) = add_mset x (items q)"
    and get_None: "get q = None \<longleftrightarrow> items q = {#}"
    and get_Some: "get q = Some (x, q') \<Longrightarrow> items q = add_mset x (items q')"
begin

lemma items_puts: "items (foldl put q xs) = mset xs + items q"
  by (induction xs arbitrary: q) (simp_all add: items_put)

lemma get_nonempty: "items q \<noteq> {#} \<Longrightarrow> \<exists>x q'. get q = Some (x, q') \<and> items q = add_mset x (items q')"
  using get_None [of q] get_Some [of q] by (cases "get q") auto

lemma size_get: "get q = Some (x, q') \<Longrightarrow> size (items q) = Suc (size (items q'))"
  using get_Some [of q x q'] by simp

lemma get_member: "get q = Some (x, q') \<Longrightarrow> x \<in># items q"
  using get_Some [of q x q'] by simp

end

definition pq_items :: "'a prio_queue \<Rightarrow> 'a multiset" where
  "pq_items q = image_mset snd (mset (pq_array q))"

lemma mset_swap_entries: "i < length a \<Longrightarrow> j < length a \<Longrightarrow> mset (swap_entries a i j) = mset a"
  unfolding swap_entries_def by (rule mset_swap)

lemma mset_bubble_up: "ix < length a \<Longrightarrow> mset (bubble_up cmp a ix) = mset a"
proof (induction cmp a ix rule: bubble_up.induct)
  case (1 cmp a ix)
  have "(ix - 1) div 2 < length a"
    using 1(2) by linarith
  then show ?case
    using 1 by (subst bubble_up.simps) (auto simp: Let_def mset_swap_entries)
qed

lemma mset_push_down: "mset (push_down cmp a ix) = mset a"
proof (induction cmp a ix rule: push_down.induct)
  case (1 cmp a ix)
  show ?case
  proof (cases "ix * 2 + 1 < length a")
    case True
    then have "heap_child cmp a ix < length a" "ix < length a"
      using heap_child_less by auto
    then show ?thesis
      using 1 True by (subst push_down.simps) (auto simp: Let_def mset_swap_entries)
  next
    case False
    then show ?thesis
      by (subst push_down.simps) simp
  qed
qed

lemma mset_root_replaced:
  assumes "butlast a \<noteq> []"
  shows "mset a = add_mset (a ! 0) (mset ((butlast a)[0 := last a]))"
proof -
  obtain x xs where "butlast a = x # xs"
    using assms by (cases "butlast a") auto
  then have "a = x # xs @ [last a]"
    by (metis append_butlast_last_id append_Cons butlast.simps(1) list.distinct(1))
  then have "mset a = add_mset x (add_mset (last a) (mset xs))" "a ! 0 = x"
    by (metis append_Cons mset.simps(2) union_mset_add_mset_right add.right_neutral mset_append mset_single_iff
        mset.simps(1)) (metis \<open>a = x # xs @ [last a]\<close> nth_Cons_0)
  then show ?thesis
    using \<open>butlast a = x # xs\<close> by simp
qed

lemma mset_last: "a \<noteq> [] \<Longrightarrow> mset a = add_mset (last a) (mset (butlast a))"
  by (metis append_butlast_last_id mset_append mset.simps union_mset_add_mset_right add.right_neutral)

interpretation pq: bag prio_queue_put prio_queue_get pq_items
proof
  fix q :: "'a prio_queue" and x :: 'a
  show "pq_items (prio_queue_put q x) = add_mset x (pq_items q)"
    by (simp add: prio_queue_put_def pq_items_def Let_def mset_bubble_up split: option.splits)
  show "prio_queue_get q = None \<longleftrightarrow> pq_items q = {#}"
    by (simp add: prio_queue_get_def pq_items_def Let_def split: option.splits)
next
  fix q q' :: "'a prio_queue" and x :: 'a
  assume get: "prio_queue_get q = Some (x, q')"
  show "pq_items q = add_mset x (pq_items q')"
  proof (cases "pq_compare q")
    case None
    then show ?thesis
      using get by (auto simp: prio_queue_get_def pq_items_def Let_def mset_last split: if_splits)
  next
    case (Some f)
    show ?thesis
    proof (cases "butlast (pq_array q) = []")
      case True
      then obtain e where "pq_array q = [e]"
        using get by (cases "pq_array q") (auto simp: prio_queue_get_def split: if_splits)
      then show ?thesis
        using get Some by (auto simp: prio_queue_get_def pq_items_def)
    next
      case False
      then have "x = snd (pq_array q ! 0)"
        "pq_array q' = push_down (pq_entry_cmp f) ((butlast (pq_array q))[0 := last (pq_array q)]) 0"
        using get Some by (auto simp: prio_queue_get_def Let_def split: if_splits)
      then show ?thesis
        using mset_root_replaced [OF False] by (simp add: pq_items_def mset_push_down)
    qed
  qed
qed

subsection \<open>The heap order\<close>

definition heap :: "('b \<Rightarrow> 'b \<Rightarrow> int) \<Rightarrow> 'b list \<Rightarrow> bool" where
  "heap cmp a \<longleftrightarrow> (\<forall>k. 0 < k \<and> k < length a \<longrightarrow> cmp (a ! ((k - 1) div 2)) (a ! k) \<le> 0)"

text \<open>A heap but for the entry at \<open>ix\<close>, which may be too small for its place, or too large.\<close>

definition heap_but_up :: "('b \<Rightarrow> 'b \<Rightarrow> int) \<Rightarrow> 'b list \<Rightarrow> nat \<Rightarrow> bool" where
  "heap_but_up cmp a ix \<longleftrightarrow>
     (\<forall>k. 0 < k \<and> k < length a \<and> k \<noteq> ix \<longrightarrow> cmp (a ! ((k - 1) div 2)) (a ! k) \<le> 0) \<and>
     (\<forall>k. 0 < k \<and> k < length a \<and> 0 < ix \<and> (k - 1) div 2 = ix \<longrightarrow> cmp (a ! ((ix - 1) div 2)) (a ! k) \<le> 0)"

definition heap_but_down :: "('b \<Rightarrow> 'b \<Rightarrow> int) \<Rightarrow> 'b list \<Rightarrow> nat \<Rightarrow> bool" where
  "heap_but_down cmp a ix \<longleftrightarrow>
     (\<forall>k. 0 < k \<and> k < length a \<and> (k - 1) div 2 \<noteq> ix \<longrightarrow> cmp (a ! ((k - 1) div 2)) (a ! k) \<le> 0) \<and>
     (\<forall>k. 0 < k \<and> k < length a \<and> 0 < ix \<and> (k - 1) div 2 = ix \<longrightarrow> cmp (a ! ((ix - 1) div 2)) (a ! k) \<le> 0)"

lemma swap_entries_nth:
  "i < length a \<Longrightarrow> j < length a \<Longrightarrow>
     swap_entries a i j ! k = (if k = j then a ! i else if k = i then a ! j else a ! k)"
  by (auto simp: swap_entries_def nth_list_update)

lemma set_swap_entries: "i < length a \<Longrightarrow> j < length a \<Longrightarrow> set (swap_entries a i j) = set a"
  using mset_swap_entries [of i a j] by (rule mset_eq_setD)

context comparator_on
begin

lemma bubble_up_heap:
  "set a \<subseteq> S \<Longrightarrow> ix < length a \<Longrightarrow> heap_but_up cmp a ix \<Longrightarrow> heap cmp (bubble_up cmp a ix)"
proof (induction ix arbitrary: a rule: less_induct)
  case (less ix)
  define p where "p = (ix - 1) div 2"
  have mem: "a ! k \<in> S" if "k < length a" for k
    using less.prems(1) that by auto
  show ?case
  proof (cases "ix = 0 \<or> cmp (a ! p) (a ! ix) \<le> 0")
    case True
    then have "heap cmp a"
      using less.prems(3) by (auto simp: heap_but_up_def heap_def p_def)
    then show ?thesis
      using True by (subst bubble_up.simps) (auto simp: Let_def p_def)
  next
    case False
    then have p: "p < ix" "p < length a"
      using less.prems(2) by (auto simp: p_def)
    have down: "cmp (a ! ix) (a ! p) \<le> 0"
      using False p less.prems(2) mem pos_flip by (metis less_imp_le not_le)
    have up: "cmp (a ! ((p - 1) div 2)) (a ! k) \<le> 0"
      if k: "0 < k" "k < length a" "(k - 1) div 2 = p" "0 < p" "k \<noteq> ix" for k
    proof -
      have "cmp (a ! ((p - 1) div 2)) (a ! p) \<le> 0" "cmp (a ! p) (a ! k) \<le> 0"
        using less.prems(3) k p by (auto simp: heap_but_up_def)
      then show ?thesis
        using order_trans mem k(2) p(2) by (meson le_less_trans diff_le_self div_le_dividend)
    qed
    have "heap_but_up cmp (swap_entries a p ix) p"
      unfolding heap_but_up_def length_swap_entries swap_entries_nth [OF p(2) less.prems(2)]
    proof (intro conjI allI impI)
      fix k
      assume k: "0 < k \<and> k < length a \<and> k \<noteq> p"
      have trans: "cmp (a ! ix) (a ! k) \<le> 0" if "cmp (a ! p) (a ! k) \<le> 0"
        using order_trans [OF _ _ _ down that] mem p less.prems(2) k by auto
      show "cmp (if (k - 1) div 2 = ix then a ! p else if (k - 1) div 2 = p then a ! ix else a ! ((k - 1) div 2))
          (if k = ix then a ! p else if k = p then a ! ix else a ! k) \<le> 0"
        using less.prems(3) k p down trans unfolding heap_but_up_def p_def [symmetric]
        by (auto simp: p_def)
    next
      fix k
      assume k: "0 < k \<and> k < length a \<and> 0 < p \<and> (k - 1) div 2 = p"
      have "(p - 1) div 2 < p" "p < k"
        using k by linarith+
      then have "(p - 1) div 2 \<noteq> ix" "(p - 1) div 2 \<noteq> p" "k \<noteq> p"
        using p by auto
      moreover have "cmp (a ! ((p - 1) div 2)) (a ! p) \<le> 0"
        using less.prems(3) k p by (auto simp: heap_but_up_def)
      ultimately show "cmp (if (p - 1) div 2 = ix then a ! p else if (p - 1) div 2 = p then a ! ix else a ! ((p - 1) div 2))
          (if k = ix then a ! p else if k = p then a ! ix else a ! k) \<le> 0"
        using up k by auto
    qed
    then have "heap cmp (bubble_up cmp (swap_entries a p ix) p)"
      using p less.prems by (intro less.IH) (simp_all add: set_swap_entries)
    then show ?thesis
      using False by (subst bubble_up.simps) (simp add: Let_def p_def)
  qed
qed

lemma heap_child_least:
  assumes "set a \<subseteq> S" and k: "k < length a" "(k - 1) div 2 = ix" "0 < k"
  shows "cmp (a ! heap_child cmp a ix) (a ! k) \<le> 0"
proof -
  have mem: "a ! i \<in> S" if "i < length a" for i
    using assms(1) that by auto
  have "k = ix * 2 + 1 \<or> k = ix * 2 + 2"
    using k by linarith
  then show ?thesis
  proof
    assume "k = ix * 2 + 1"
    then show ?thesis
      using mem k(1) refl nonneg_flip [of "a ! (ix * 2 + 1)" "a ! (ix * 2 + 2)"]
      by (auto simp: heap_child_def Let_def)
  next
    assume "k = ix * 2 + 2"
    then show ?thesis
      using mem k(1) refl by (auto simp: heap_child_def Let_def)
  qed
qed

lemma push_down_heap:
  "set a \<subseteq> S \<Longrightarrow> ix < length a \<Longrightarrow> heap_but_down cmp a ix \<Longrightarrow> heap cmp (push_down cmp a ix)"
proof (induction "length a - ix" arbitrary: a ix rule: less_induct)
  case less
  define c where "c = heap_child cmp a ix"
  have mem: "a ! k \<in> S" if "k < length a" for k
    using less.prems(1) that by auto
  consider "length a \<le> ix * 2 + 1"
    | "ix * 2 + 1 < length a" "cmp (a ! ix) (a ! c) \<le> 0"
    | "ix * 2 + 1 < length a" "0 < cmp (a ! ix) (a ! c)"
    by linarith
  then show ?case
  proof cases
    case 1
    have "heap cmp a"
      unfolding heap_def
    proof (intro allI impI)
      fix k
      assume k: "0 < k \<and> k < length a"
      then have "(k - 1) div 2 \<noteq> ix"
        using 1 by linarith
      then show "cmp (a ! ((k - 1) div 2)) (a ! k) \<le> 0"
        using k less.prems(3) by (auto simp: heap_but_down_def)
    qed
    then show ?thesis
      using 1 by (subst push_down.simps) simp
  next
    case 2
    have c: "c < length a"
      using 2 heap_child_less by (auto simp: c_def)
    have "heap cmp a"
      unfolding heap_def
    proof (intro allI impI)
      fix k
      assume k: "0 < k \<and> k < length a"
      show "cmp (a ! ((k - 1) div 2)) (a ! k) \<le> 0"
      proof (cases "(k - 1) div 2 = ix")
        case True
        then have "cmp (a ! c) (a ! k) \<le> 0"
          using heap_child_least [OF less.prems(1)] k by (simp add: c_def)
        then show ?thesis
          using order_trans [OF _ _ _ 2(2)] True mem c k less.prems(2) by auto
      next
        case False
        then show ?thesis
          using k less.prems(3) by (auto simp: heap_but_down_def)
      qed
    qed
    then show ?thesis
      using 2 by (subst push_down.simps) (simp add: Let_def c_def)
  next
    case 3
    have c: "c < length a" "ix < c" "(c - 1) div 2 = ix"
      using 3 heap_child_less heap_child_gt heap_child_cases [of cmp a ix] by (auto simp: c_def)
    have down: "cmp (a ! c) (a ! ix) \<le> 0"
      using 3(2) pos_flip mem c(1) less.prems(2) by (metis less_imp_le)
    have above: "cmp (a ! ((ix - 1) div 2)) (a ! c) \<le> 0" if "0 < ix"
      using that less.prems(3) c by (auto simp: heap_but_down_def)
    have below: "cmp (a ! c) (a ! k) \<le> 0" if "(k - 1) div 2 = ix" "0 < k" "k < length a" for k
      using heap_child_least [OF less.prems(1)] that by (simp add: c_def)
    have "heap_but_down cmp (swap_entries a c ix) c"
      unfolding heap_but_down_def length_swap_entries swap_entries_nth [OF c(1) less.prems(2)]
    proof (intro conjI allI impI)
      fix k
      assume k: "0 < k \<and> k < length a \<and> (k - 1) div 2 \<noteq> c"
      have "(k - 1) div 2 < k"
        using k by linarith
      then show "cmp (if (k - 1) div 2 = ix then a ! c else if (k - 1) div 2 = c then a ! ix else a ! ((k - 1) div 2))
          (if k = ix then a ! c else if k = c then a ! ix else a ! k) \<le> 0"
        using less.prems(3) k down above below c unfolding heap_but_down_def by auto
    next
      fix k
      assume k: "0 < k \<and> k < length a \<and> 0 < c \<and> (k - 1) div 2 = c"
      have "c < k"
        using k by linarith
      moreover have "cmp (a ! c) (a ! k) \<le> 0"
        using less.prems(3) k c by (auto simp: heap_but_down_def)
      ultimately show "cmp (if (c - 1) div 2 = ix then a ! c else if (c - 1) div 2 = c then a ! ix else a ! ((c - 1) div 2))
          (if k = ix then a ! c else if k = c then a ! ix else a ! k) \<le> 0"
        using c by auto
    qed
    then have "heap cmp (push_down cmp (swap_entries a c ix) c)"
      using c less.prems by (intro less.hyps) (auto simp: set_swap_entries)
    then show ?thesis
      using 3 by (subst push_down.simps) (simp add: Let_def c_def)
  qed
qed

lemma heap_root_least:
  assumes "set a \<subseteq> S" and "heap cmp a" and "k < length a"
  shows "cmp (a ! 0) (a ! k) \<le> 0"
  using assms(3)
proof (induction k rule: less_induct)
  case (less k)
  have mem: "a ! i \<in> S" if "i < length a" for i
    using assms(1) that by auto
  show ?case
  proof (cases "k = 0")
    case True
    then show ?thesis
      using less.prems refl mem by simp
  next
    case False
    then have p: "(k - 1) div 2 < k" "(k - 1) div 2 < length a"
      using less.prems by linarith+
    then have "cmp (a ! 0) (a ! ((k - 1) div 2)) \<le> 0" "cmp (a ! ((k - 1) div 2)) (a ! k) \<le> 0"
      using less False assms(2) by (auto simp: heap_def)
    moreover have "0 < length a"
      using less.prems by linarith
    then have "a ! 0 \<in> S" "a ! ((k - 1) div 2) \<in> S" "a ! k \<in> S"
      using mem p less.prems by blast+
    ultimately show ?thesis
      using order_trans by blast
  qed
qed

end

subsection \<open>The counters\<close>

text \<open>
  How many insertions ago an entry was put.  The tie-break compares insertion times as long as no
  entry is \<open>2 ^ 31\<close> insertions old.
\<close>

definition entry_age :: "u32 \<Rightarrow> u32 \<times> 'a \<Rightarrow> nat" where
  "entry_age ctr e = unat (ctr - fst e)"

definition pq_window :: "u32 \<Rightarrow> (u32 \<times> 'a) set" where
  "pq_window ctr = {e. entry_age ctr e < 2 ^ 31}"

lemma sint_ctr_diff:
  assumes "e \<in> pq_window ctr" and "e' \<in> pq_window ctr"
  shows "sint (fst e - fst e') = int (entry_age ctr e') - int (entry_age ctr e)"
proof -
  have "fst e - fst e' = of_int (int (entry_age ctr e') - int (entry_age ctr e))"
    by (simp add: entry_age_def)
  moreover have "- (2 ^ 31) \<le> int (entry_age ctr e') - int (entry_age ctr e)"
    "int (entry_age ctr e') - int (entry_age ctr e) < 2 ^ 31"
    using assms by (auto simp: pq_window_def)
  ultimately show ?thesis
    by (simp only: signed_of_int) (simp add: signed_take_bit_int_eq_self)
qed

lemma pq_entry_comparator:
  assumes "comparator_on UNIV f"
  shows "comparator_on (pq_window ctr) (pq_entry_cmp f)"
proof -
  note zero_flip = comparator_on.zero_flip [OF assms UNIV_I UNIV_I]
    and pos_flip = comparator_on.pos_flip [OF assms UNIV_I UNIV_I]
    and order_trans = comparator_on.order_trans [OF assms UNIV_I UNIV_I UNIV_I]
    and zero_trans = comparator_on.zero_trans [OF assms UNIV_I UNIV_I UNIV_I]
    and less_trans = comparator_on.less_trans [OF assms UNIV_I UNIV_I UNIV_I]
  show ?thesis
  proof
    fix x y :: "u32 \<times> 'a"
    assume "x \<in> pq_window ctr" "y \<in> pq_window ctr"
    then show "sgn (pq_entry_cmp f y x) = - sgn (pq_entry_cmp f x y)"
      using zero_flip [of "snd x" "snd y"] pos_flip [of "snd x" "snd y"] pos_flip [of "snd y" "snd x"]
      by (auto simp: pq_entry_cmp_def Let_def sint_ctr_diff sgn_if)
  next
    fix x y z :: "u32 \<times> 'a"
    assume w: "x \<in> pq_window ctr" "y \<in> pq_window ctr" "z \<in> pq_window ctr"
      and le: "pq_entry_cmp f x y \<le> 0" "pq_entry_cmp f y z \<le> 0"
    have "f (snd x) (snd y) \<le> 0" "f (snd y) (snd z) \<le> 0"
      using le by (auto simp: pq_entry_cmp_def Let_def split: if_splits)
    moreover have "entry_age ctr z \<le> entry_age ctr x"
      if "f (snd x) (snd y) = 0" "f (snd y) (snd z) = 0"
      using le that w by (simp add: pq_entry_cmp_def sint_ctr_diff)
    moreover have "f (snd x) (snd z) < 0" if "f (snd x) (snd y) < 0 \<or> f (snd y) (snd z) < 0"
      using that calculation less_trans [of "snd x" "snd y" "snd z"] order_trans [of "snd x" "snd y" "snd z"]
        order_trans [of "snd z" "snd x" "snd y"] zero_flip [of "snd x" "snd z"] pos_flip [of "snd z" "snd y"]
      by fastforce
    ultimately show "pq_entry_cmp f x z \<le> 0"
      using w order_trans [of "snd x" "snd y" "snd z"] zero_trans [of "snd x" "snd y" "snd z"]
      by (fastforce simp: pq_entry_cmp_def sint_ctr_diff)
  qed
qed


subsection \<open>Order of the queue\<close>

text \<open>The heap invariant of a queue with a comparison function.\<close>

definition pq_ok :: "('a \<Rightarrow> 'a \<Rightarrow> int) \<Rightarrow> 'a prio_queue \<Rightarrow> bool" where
  "pq_ok f q \<longleftrightarrow>
     pq_compare q = Some f \<and> heap (pq_entry_cmp f) (pq_array q) \<and>
     (\<forall>e \<in> set (pq_array q). entry_age (pq_insertion_ctr q) e < 2 ^ 31)"

lemma entry_age_put:
  assumes "entry_age ctr e < 2 ^ 31 - 1"
  shows "entry_age (ctr + 1) e = Suc (entry_age ctr e)"
proof -
  have "unat (ctr - fst e) + unat (1 :: u32) < 2 ^ LENGTH(32)"
    using assms by (simp add: entry_age_def)
  then have "unat ((ctr - fst e) + 1) = unat (ctr - fst e) + unat (1 :: u32)"
    by (rule unat_add_lem [THEN iffD1])
  then show ?thesis
    by (simp add: entry_age_def algebra_simps)
qed

lemma prio_queue_put_ok:
  assumes f: "comparator_on UNIV f" and ok: "pq_ok f q"
    and young: "\<forall>e \<in> set (pq_array q). entry_age (pq_insertion_ctr q) e < 2 ^ 31 - 1"
  shows "pq_ok f (prio_queue_put q x)"
proof -
  define a where "a = pq_array q @ [(pq_insertion_ctr q, x)]"
  define ctr where "ctr = pq_insertion_ctr q + 1"
  have "entry_age ctr e < 2 ^ 31" if "e \<in> set (pq_array q)" for e
    using young entry_age_put [of "pq_insertion_ctr q" e] that by (auto simp: ctr_def)
  moreover have "entry_age ctr (pq_insertion_ctr q, x) = 1"
    by (simp add: entry_age_def ctr_def)
  ultimately have window: "set a \<subseteq> pq_window ctr"
    by (auto simp: pq_window_def a_def)
  have "heap_but_up (pq_entry_cmp f) a (length a - 1)"
    unfolding heap_but_up_def
  proof (intro conjI allI impI)
    fix k
    assume k: "0 < k \<and> k < length a \<and> k \<noteq> length a - 1"
    then have "k < length (pq_array q)" "(k - 1) div 2 < length (pq_array q)"
      by (auto simp: a_def)
    then show "pq_entry_cmp f (a ! ((k - 1) div 2)) (a ! k) \<le> 0"
      using ok k by (auto simp: pq_ok_def heap_def a_def nth_append)
  next
    fix k
    assume "0 < k \<and> k < length a \<and> 0 < length a - 1 \<and> (k - 1) div 2 = length a - 1"
    then show "pq_entry_cmp f (a ! ((length a - 1 - 1) div 2)) (a ! k) \<le> 0"
      by linarith
  qed
  then have "heap (pq_entry_cmp f) (bubble_up (pq_entry_cmp f) a (length a - 1))"
    using comparator_on.bubble_up_heap [OF pq_entry_comparator [OF f] window, of "length a - 1"]
    by (simp add: a_def)
  moreover have "set (bubble_up (pq_entry_cmp f) a (length a - 1)) = set a"
    by (rule mset_eq_setD) (simp add: mset_bubble_up a_def)
  ultimately show ?thesis
    using ok window by (auto simp: pq_ok_def prio_queue_put_def a_def ctr_def pq_window_def)
qed

lemma heap_root_replaced:
  assumes "heap cmp a"
  shows "heap_but_down cmp ((butlast a)[0 := y]) 0"
  using assms unfolding heap_but_down_def heap_def
  by (auto simp: nth_butlast nth_list_update)

lemma heap_butlast: "heap cmp a \<Longrightarrow> heap cmp (butlast a)"
  unfolding heap_def by (auto simp: nth_butlast)

lemma prio_queue_get_ok:
  assumes f: "comparator_on UNIV f" and ok: "pq_ok f q" and get: "prio_queue_get q = Some (x, q')"
  shows "pq_ok f q' \<and> x = snd (pq_array q ! 0) \<and>
    mset (pq_array q) = add_mset (pq_array q ! 0) (mset (pq_array q')) \<and>
    (\<forall>e \<in> set (pq_array q). pq_entry_cmp f (pq_array q ! 0) e \<le> 0)"
proof -
  define a where "a = pq_array q"
  define ctr where "ctr = pq_insertion_ctr q"
  have a: "a \<noteq> []" "heap (pq_entry_cmp f) a" "set a \<subseteq> pq_window ctr" "pq_compare q = Some f"
    using ok get by (auto simp: a_def ctr_def pq_ok_def pq_window_def prio_queue_get_def Let_def split: if_splits)
  have root: "\<forall>e \<in> set a. pq_entry_cmp f (a ! 0) e \<le> 0"
    using comparator_on.heap_root_least [OF pq_entry_comparator [OF f] a(3,2)] by (metis in_set_conv_nth)
  show ?thesis
  proof (cases "butlast a = []")
    case True
    then obtain e where "a = [e]"
      using a(1) by (cases a) (auto split: if_splits)
    then show ?thesis
      using get a ok root by (auto simp: prio_queue_get_def a_def pq_ok_def heap_def)
  next
    case False
    define b where "b = (butlast a)[0 := last a]"
    have q': "x = snd (a ! 0)" "q' = q\<lparr>pq_array := push_down (pq_entry_cmp f) b 0\<rparr>"
      using get a False by (auto simp: prio_queue_get_def Let_def a_def b_def split: if_splits)
    have mset: "mset a = add_mset (a ! 0) (mset b)"
      unfolding b_def using False by (rule mset_root_replaced)
    have sub: "set b \<subseteq> set a"
      using arg_cong [OF mset, of set_mset] by auto
    have "heap (pq_entry_cmp f) (push_down (pq_entry_cmp f) b 0)"
    proof (rule comparator_on.push_down_heap [OF pq_entry_comparator [OF f]])
      show "set b \<subseteq> pq_window ctr"
        using sub a(3) by blast
      show "0 < length b"
        unfolding b_def length_list_update using False by (rule length_greater_0_conv [THEN iffD2])
      show "heap_but_down (pq_entry_cmp f) b 0"
        unfolding b_def using a(2) by (rule heap_root_replaced)
    qed
    moreover have "set (push_down (pq_entry_cmp f) b 0) = set b"
      using mset_push_down by (rule mset_eq_setD)
    ultimately show ?thesis
      using q' mset sub a root ok by (auto simp: pq_ok_def mset_push_down a_def)
  qed
qed


subsection \<open>Reversing a stack\<close>

lemma pq_reverse_loop_nth:
  assumes "length a \<le> 2 * i + 2 * k"
  shows "length (pq_reverse_loop k a i) = length a \<and>
    (\<forall>m < length a. pq_reverse_loop k a i ! m =
       (if i \<le> m \<and> m < length a - i then a ! (length a - 1 - m) else a ! m))"
  using assms
proof (induction k a i rule: pq_reverse_loop.induct)
  case (1 a i)
  have "m = length a - 1 - m" if "i \<le> m" "m < length a - i" for m
    using 1 that by linarith
  then show ?case
    by auto
next
  case (2 k a i)
  show ?case
  proof (cases "int i < int (length a) - 1 - int i")
    case True
    define j where "j = length a - 1 - i"
    have j: "nat (int (length a) - 1 - int i) = j" "i < j" "j < length a" "i < length a"
      using True by (auto simp: j_def)
    have j_sum: "j + Suc i = length a" "length a - Suc i = j" "length a - Suc j = i"
      using True by (auto simp: j_def)
    have "pq_reverse_loop k (swap_entries a i j) (Suc i) ! m =
        (if i \<le> m \<and> m < length a - i then a ! (length a - 1 - m) else a ! m)" if m: "m < length a" for m
    proof -
      have rec: "pq_reverse_loop k (swap_entries a i j) (Suc i) ! m =
          (if Suc i \<le> m \<and> m < length a - Suc i then swap_entries a i j ! (length a - 1 - m)
           else swap_entries a i j ! m)"
        using "2.IH" [OF refl True] "2.prems" m j by simp
      consider "m = i" | "m = j" | "Suc i \<le> m" "m < length a - Suc i" | "m < i" | "j < m"
        using m j_sum by linarith
      then show ?thesis
        unfolding rec swap_entries_nth [OF j(4,3)] using m j(2-4) j_sum by cases auto
    qed
    then show ?thesis
      using "2.IH" [OF refl True] "2.prems" True j by (simp add: Let_def)
  next
    case False
    then have "m = length a - 1 - m" if "i \<le> m" "m < length a - i" for m
      using that by linarith
    then show ?thesis
      using False by (auto simp: Let_def)
  qed
qed

lemma prio_queue_reverse_rev:
  assumes "pq_compare q = None"
  shows "prio_queue_reverse q = Some (q\<lparr>pq_array := rev (pq_array q)\<rparr>)"
proof -
  have "pq_reverse_loop (length (pq_array q)) (pq_array q) 0 = rev (pq_array q)"
    using pq_reverse_loop_nth [of "pq_array q" 0 "length (pq_array q)"]
    by (intro nth_equalityI) (auto simp: rev_nth)
  then show ?thesis
    using assms by (simp add: prio_queue_reverse_def)
qed

subsection \<open>The properties of the component\<close>

text \<open>
  (C11) \<open>prio_queue_get\<close> on a queue in heap order answers NULL exactly when the queue is empty; otherwise
  it removes an entry that no other entry sorts before, the oldest of those that compare equal, and
  leaves the queue in heap order.
\<close>
theorem prio_queue_get_first:
  assumes "comparator_on UNIV f" and "pq_ok f q"
  shows "case prio_queue_get q of
      None \<Rightarrow> pq_array q = []
    | Some (x, q') \<Rightarrow> pq_ok f q' \<and>
        (\<exists>c. mset (pq_array q) = add_mset (c, x) (mset (pq_array q')) \<and>
           (\<forall>(d, y) \<in> set (pq_array q'). f x y < 0 \<or>
              f x y = 0 \<and> entry_age (pq_insertion_ctr q) (d, y) \<le> entry_age (pq_insertion_ctr q) (c, x)))"
proof (cases "prio_queue_get q")
  case None
  then show ?thesis
    using pq.get_None [of q] by (simp add: pq_items_def)
next
  case (Some r)
  obtain x q' where r: "r = (x, q')"
    by (cases r)
  note got = prio_queue_get_ok [OF assms Some [unfolded r]]
  obtain c where root: "pq_array q ! 0 = (c, x)"
    using got by (cases "pq_array q ! 0") auto
  have window: "set (pq_array q) \<subseteq> pq_window (pq_insertion_ctr q)"
    using assms(2) by (auto simp: pq_ok_def pq_window_def)
  have mem: "(c, x) \<in> set (pq_array q)" "set (pq_array q') \<subseteq> set (pq_array q)"
    using got root by (metis set_mset_add_mset_insert set_mset_mset insertI1 insertCI subsetI)+
  have "f x y < 0 \<or> f x y = 0 \<and>
      entry_age (pq_insertion_ctr q) (d, y) \<le> entry_age (pq_insertion_ctr q) (c, x)"
    if "(d, y) \<in> set (pq_array q')" for d y
  proof -
    have "(d, y) \<in> set (pq_array q)"
      using that mem(2) by blast
    then have "pq_entry_cmp f (c, x) (d, y) \<le> 0"
      "sint (c - d) = int (entry_age (pq_insertion_ctr q) (d, y)) - int (entry_age (pq_insertion_ctr q) (c, x))"
      using got root mem(1) window sint_ctr_diff [of "(c, x)" "pq_insertion_ctr q" "(d, y)"] by auto
    then show ?thesis
      by (auto simp: pq_entry_cmp_def Let_def split: if_splits)
  qed
  then have "\<forall>(d, y) \<in> set (pq_array q'). f x y < 0 \<or>
      f x y = 0 \<and> entry_age (pq_insertion_ctr q) (d, y) \<le> entry_age (pq_insertion_ctr q) (c, x)"
    by blast
  then show ?thesis
    using got unfolding Some r root by auto
qed

definition example_queue :: "nat prio_queue" where
  "example_queue = foldl prio_queue_put \<lparr>pq_compare = Some (compare_keys id), pq_insertion_ctr = 0, pq_array = []\<rparr> [5, 3, 4]"

lemma pq_compare_put [simp]: "pq_compare (prio_queue_put q x) = pq_compare q"
  by (simp add: prio_queue_put_def Let_def split: option.splits)

lemma example_queue_array: "pq_array example_queue = [(1, 3), (0, 5), (2, 4)]"
  "pq_insertion_ctr example_queue = 3"
  unfolding example_queue_def by code_simp+

lemma example_queue_compare: "pq_compare example_queue = Some (compare_keys id)"
  by (simp add: example_queue_def)

lemma example_queue_ok: "pq_ok (compare_keys id) example_queue"
proof -
  have "0 < k \<and> k < length [(1 :: u32, 3 :: nat), (0, 5), (2, 4)] \<longleftrightarrow> k = 1 \<or> k = 2" for k :: nat
    by auto
  then show ?thesis
    unfolding pq_ok_def example_queue_array example_queue_compare heap_def
    by (auto simp: pq_entry_cmp_def compare_keys_def entry_age_def)
qed

lemma prio_queue_get_first_witness:
  "\<exists>q'. prio_queue_get example_queue = Some (3, q') \<and> pq_ok (compare_keys id) q'"
proof -
  have "map_option fst (prio_queue_get example_queue) = Some 3"
    unfolding example_queue_def by code_simp
  then show ?thesis
    using prio_queue_get_first [OF keys.comparator_on_axioms example_queue_ok] by (auto split: option.splits)
qed

text \<open>
  \<open>prio_queue_put\<close> keeps the heap order, and adds exactly the new thing, while no entry in the queue is
  older than \<open>2 ^ 31 - 2\<close> insertions.
\<close>
theorem prio_queue_put_order:
  assumes "comparator_on UNIV f" and "pq_ok f q"
    and "\<forall>e \<in> set (pq_array q). entry_age (pq_insertion_ctr q) e < 2 ^ 31 - 1"
  shows "pq_ok f (prio_queue_put q x) \<and>
    mset (pq_array (prio_queue_put q x)) = add_mset (pq_insertion_ctr q, x) (mset (pq_array q))"
  using prio_queue_put_ok [OF assms] assms(2)
  by (simp add: prio_queue_put_def pq_ok_def mset_bubble_up)

lemma prio_queue_put_order_witness: "pq_ok (compare_keys id) (prio_queue_put example_queue 4)"
  using prio_queue_put_order [OF keys.comparator_on_axioms example_queue_ok, of 4]
  by (simp add: example_queue_array entry_age_def)


text \<open>
  Without a comparison function the queue is a stack: \<open>prio_queue_get\<close> takes the thing put last,
  and \<open>prio_queue_reverse\<close> reverses the order in which the things come out.
\<close>
theorem prio_queue_stack:
  assumes "pq_compare q = None"
  shows "prio_queue_get (prio_queue_put q x) = Some (x, q\<lparr>pq_insertion_ctr := pq_insertion_ctr q + 1\<rparr>) \<and>
    prio_queue_reverse q = Some (q\<lparr>pq_array := rev (pq_array q)\<rparr>)"
  using assms prio_queue_reverse_rev [OF assms]
  by (simp add: prio_queue_get_def prio_queue_put_def Let_def)

lemma prio_queue_stack_witness:
  "\<exists>q. prio_queue_reverse \<lparr>pq_compare = None, pq_insertion_ctr = 2, pq_array = [(0, 7 :: nat), (1, 8)]\<rparr> = Some q \<and>
    pq_array q = [(1, 8), (0, 7)]"
  using prio_queue_stack [of "\<lparr>pq_compare = None, pq_insertion_ctr = 2, pq_array = [(0, 7 :: nat), (1, 8)]\<rparr>"]
  by simp

end
