(* ===== verification/Git_Mergesort.thy ===== *)
theory Git_Mergesort
  imports Git_Order
begin

text \<open>
  \<^verbatim>\<open>mergesort.c\<close>: an in-place bottom-up merge sort of a linked list that is only seen through the
  callbacks that read and write a node's link.  The store of links is a function from nodes to the
  next node or NULL, \<open>get_next_fn\<close> applies it and \<open>set_next_fn\<close> updates it; a NULL dereference is
  \<open>None\<close>.  The run length \<open>l\<close> is not wrapped: it stays below twice the number of nodes.
\<close>

type_synonym 'p links = "'p \<Rightarrow> 'p option"

record 'p mergesort_sublist =
  ms_ptr :: "'p option"
  ms_len :: nat

subsection \<open>The code\<close>

fun get_nth_next :: "'p links \<Rightarrow> 'p option \<Rightarrow> nat \<Rightarrow> 'p option" where
  "get_nth_next nx None n = None"
| "get_nth_next nx (Some p) 0 = Some p"
| "get_nth_next nx (Some p) (Suc n) = get_nth_next nx (nx p) n"

definition pop_item :: "'p links \<Rightarrow> 'p mergesort_sublist \<Rightarrow> ('p \<times> 'p mergesort_sublist) option" where
  "pop_item nx l =
     (case ms_ptr l of
        None \<Rightarrow> None
      | Some p \<Rightarrow>
          let ptr = nx p
          in Some (p, \<lparr>ms_ptr = ptr, ms_len = (if ptr \<noteq> None then ms_len l - 1 else 0)\<rparr>))"

lemma pop_item_len: "pop_item nx l = Some (p, l') \<Longrightarrow> ms_len l \<noteq> 0 \<Longrightarrow> ms_len l' < ms_len l"
  by (auto simp: pop_item_def Let_def split: option.splits)

text \<open>Whether the next item is taken from the second run: \<open>compare_fn\<close> is called only when both have items.\<close>

definition take_second :: "('p \<Rightarrow> 'p \<Rightarrow> int) \<Rightarrow> 'p mergesort_sublist \<Rightarrow> 'p mergesort_sublist \<Rightarrow> bool" where
  "take_second cmp p q =
     (ms_len p = 0 \<or> ms_len q \<noteq> 0 \<and> cmp (the (ms_ptr p)) (the (ms_ptr q)) > 0)"

function merge_loop ::
    "('p \<Rightarrow> 'p \<Rightarrow> int) \<Rightarrow> 'p links \<Rightarrow> 'p \<Rightarrow> 'p mergesort_sublist \<Rightarrow> 'p mergesort_sublist
      \<Rightarrow> ('p links \<times> 'p \<times> 'p mergesort_sublist \<times> 'p mergesort_sublist) option" where
  "merge_loop cmp nx cur p q =
     (if ms_len p \<noteq> 0 \<or> ms_len q \<noteq> 0 then
        if take_second cmp p q then
          (case pop_item nx q of
             None \<Rightarrow> None
           | Some (c, q') \<Rightarrow> merge_loop cmp (nx(cur := Some c)) c p q')
        else
          (case pop_item nx p of
             None \<Rightarrow> None
           | Some (c, p') \<Rightarrow> merge_loop cmp (nx(cur := Some c)) c p' q)
      else Some (nx, cur, p, q))"
  by pat_completeness auto
termination
  by (relation "measure (\<lambda>(cmp, nx, cur, p, q). ms_len p + ms_len q)")
    (auto simp: take_second_def dest!: pop_item_len)

declare merge_loop.simps [simp del]

partial_function (option) merge_pass ::
    "('p \<Rightarrow> 'p \<Rightarrow> int) \<Rightarrow> nat \<Rightarrow> 'p links \<Rightarrow> 'p \<Rightarrow> 'p mergesort_sublist \<Rightarrow> 'p mergesort_sublist
      \<Rightarrow> ('p links \<times> 'p) option" where
  "merge_pass cmp l nx cur p q =
     (if ms_ptr p \<noteq> None then
        (case merge_loop cmp nx cur p q of
           None \<Rightarrow> None
         | Some (nx', cur', p', q') \<Rightarrow>
             let ptr = ms_ptr q'; second = get_nth_next nx' ptr l
             in merge_pass cmp l nx' cur' \<lparr>ms_ptr = ptr, ms_len = l\<rparr>
                  \<lparr>ms_ptr = second, ms_len = (if second \<noteq> None then l else 0)\<rparr>)
      else Some (nx, cur))"

partial_function (option) mergesort_loop ::
    "('p \<Rightarrow> 'p \<Rightarrow> int) \<Rightarrow> nat \<Rightarrow> 'p links \<Rightarrow> 'p \<Rightarrow> ('p links \<times> 'p) option" where
  "mergesort_loop cmp l nx lst =
     (case get_nth_next nx (Some lst) l of
        None \<Rightarrow> Some (nx, lst)
      | Some second \<Rightarrow>
          let p = \<lparr>ms_ptr = Some lst, ms_len = l\<rparr>; q = \<lparr>ms_ptr = Some second, ms_len = l\<rparr>;
              popped = (if cmp lst second > 0
                        then map_option (\<lambda>(c, q'). (c, p, q')) (pop_item nx q)
                        else map_option (\<lambda>(c, p'). (c, p', q)) (pop_item nx p))
          in case popped of
               None \<Rightarrow> None
             | Some (c, p', q') \<Rightarrow>
                 (case merge_pass cmp l nx c p' q' of
                    None \<Rightarrow> None
                  | Some (nx', cur) \<Rightarrow> mergesort_loop cmp (l * 2) (nx'(cur := None)) c))"

declare merge_pass.simps [code] mergesort_loop.simps [code]

definition llist_mergesort :: "('p \<Rightarrow> 'p \<Rightarrow> int) \<Rightarrow> 'p links \<Rightarrow> 'p option \<Rightarrow> ('p links \<times> 'p option) option" where
  "llist_mergesort cmp nx lst =
     (case lst of
        None \<Rightarrow> Some (nx, None)
      | Some p \<Rightarrow> map_option (apsnd Some) (mergesort_loop cmp 1 nx p))"

subsection \<open>Merging lists\<close>

fun merge_runs :: "('a \<Rightarrow> 'a \<Rightarrow> int) \<Rightarrow> 'a list \<Rightarrow> 'a list \<Rightarrow> 'a list" where
  "merge_runs cmp [] ys = ys"
| "merge_runs cmp xs [] = xs"
| "merge_runs cmp (x # xs) (y # ys) =
     (if cmp x y > 0 then y # merge_runs cmp (x # xs) ys else x # merge_runs cmp xs (y # ys))"

lemma two_lists_induct [case_names Nil1 Nil2 Cons]:
  "(\<And>ys. P [] ys) \<Longrightarrow> (\<And>x xs. P (x # xs) []) \<Longrightarrow>
     (\<And>x xs y ys. P (x # xs) ys \<Longrightarrow> P xs (y # ys) \<Longrightarrow> P (x # xs) (y # ys)) \<Longrightarrow> P xs ys"
  by induction_schema (pat_completeness, lexicographic_order)

lemma merge_runs_Nil2 [simp]: "merge_runs cmp xs [] = xs"
  by (cases xs) simp_all

lemma mset_merge_runs [simp]: "mset (merge_runs cmp xs ys) = mset xs + mset ys"
  by (induction cmp xs ys rule: merge_runs.induct) simp_all

lemma set_merge_runs [simp]: "set (merge_runs cmp xs ys) = set xs \<union> set ys"
  using mset_merge_runs [of cmp xs ys] by (metis set_mset_mset set_mset_union)

lemma length_merge_runs [simp]: "length (merge_runs cmp xs ys) = length xs + length ys"
  using mset_merge_runs [of cmp xs ys] by (metis size_mset size_union)

function merge_all :: "('a \<Rightarrow> 'a \<Rightarrow> int) \<Rightarrow> nat \<Rightarrow> 'a list \<Rightarrow> 'a list" where
  "merge_all cmp l us =
     (if us = [] \<or> l = 0 then us
      else merge_runs cmp (take l us) (take l (drop l us)) @ merge_all cmp l (drop (2 * l) us))"
  by pat_completeness auto
termination
  by (relation "measure (\<lambda>(cmp, l, us). length us)") auto

declare merge_all.simps [simp del]

text \<open>Every run of \<open>l\<close> elements is in order.\<close>

function runs_ordered :: "('a \<Rightarrow> 'a \<Rightarrow> int) \<Rightarrow> nat \<Rightarrow> 'a list \<Rightarrow> bool" where
  "runs_ordered cmp l us =
     (if us = [] \<or> l = 0 then True
      else ordered_by cmp (take l us) \<and> runs_ordered cmp l (drop l us))"
  by pat_completeness auto
termination
  by (relation "measure (\<lambda>(cmp, l, us). length us)") auto

declare runs_ordered.simps [simp del]

lemma runs_ordered_Nil [simp]: "runs_ordered cmp l []"
  by (subst runs_ordered.simps) simp

lemma runs_ordered_one: "runs_ordered cmp 1 us"
  by (induction us) (simp, subst runs_ordered.simps, simp)

lemma runs_ordered_block:
  assumes "ordered_by cmp xs" and "length xs \<le> l" and "length xs = l \<or> us = []" and "runs_ordered cmp l us"
  shows "runs_ordered cmp l (xs @ us)"
  using assms by (subst runs_ordered.simps) auto

lemma runs_orderedD:
  "runs_ordered cmp l us \<Longrightarrow> 0 < l \<Longrightarrow> ordered_by cmp (take l us) \<and> runs_ordered cmp l (drop l us)"
  by (subst (asm) runs_ordered.simps) (auto split: if_splits)

lemma mset_merge_all: "mset (merge_all cmp l us) = mset us"
proof (induction cmp l us rule: merge_all.induct)
  case (1 cmp l us)
  show ?case
  proof (cases "us = [] \<or> l = 0")
    case False
    have "mset us = mset (take l us) + mset (take l (drop l us)) + mset (drop l (drop l us))"
      by (metis append_take_drop_id mset_append add.assoc)
    then show ?thesis
      using 1 False by (subst merge_all.simps) (simp add: mult_2)
  qed (subst merge_all.simps, simp)
qed

context comparator_on
begin

lemma merge_runs_ordered:
  "set xs \<subseteq> S \<Longrightarrow> set ys \<subseteq> S \<Longrightarrow> ordered_by cmp xs \<Longrightarrow> ordered_by cmp ys \<Longrightarrow>
     ordered_by cmp (merge_runs cmp xs ys)"
proof (induction xs ys rule: two_lists_induct)
  case (Cons x xs y ys)
  then have mem: "x \<in> S" "y \<in> S" "\<forall>z\<in>set xs \<union> set ys. z \<in> S"
    by auto
  show ?case
  proof (cases "cmp x y > 0")
    case True
    then have "cmp y x \<le> 0"
      using pos_flip mem by (metis less_imp_le)
    then have "\<forall>z\<in>set xs. cmp y z \<le> 0"
      using Cons.prems(3) order_trans [of y x] mem by (meson Un_iff ordered_by_simps(2))
    then show ?thesis
      using True Cons \<open>cmp y x \<le> 0\<close> by auto
  next
    case False
    then have "\<forall>z\<in>set ys. cmp x z \<le> 0"
      using Cons.prems(4) order_trans [of x y] mem by (meson Un_iff not_le ordered_by_simps(2))
    then show ?thesis
      using False Cons by auto
  qed
qed simp_all

lemma filter_merge_runs:
  "set xs \<subseteq> S \<Longrightarrow> set ys \<subseteq> S \<Longrightarrow> ordered_by cmp xs \<Longrightarrow> k \<in> S \<Longrightarrow>
     filter (\<lambda>z. cmp k z = 0) (merge_runs cmp xs ys) =
       filter (\<lambda>z. cmp k z = 0) xs @ filter (\<lambda>z. cmp k z = 0) ys"
proof (induction xs ys rule: two_lists_induct)
  case (Cons x xs y ys)
  then have mem: "x \<in> S" "y \<in> S" "\<forall>z\<in>set xs \<union> set ys. z \<in> S"
    by auto
  show ?case
  proof (cases "cmp x y > 0")
    case True
    have "filter (\<lambda>z. cmp k z = 0) (x # xs) = []" if "cmp k y = 0"
    proof -
      have "cmp k z \<noteq> 0" if z: "z \<in> set (x # xs)" for z
      proof
        assume "cmp k z = 0"
        then have "cmp z y = 0"
          using \<open>cmp k y = 0\<close> zero_congruent zero_flip mem z Cons.prems(4)
          by (metis Un_iff set_ConsD)
        moreover have "cmp x z \<le> 0"
          using z Cons.prems(3) refl mem by auto
        ultimately have "cmp x y \<le> 0"
          using order_trans [of x z y] z mem by auto
        then show False
          using True by simp
      qed
      then show ?thesis
        by (simp add: filter_empty_conv)
    qed
    then show ?thesis
      using True Cons by auto
  next
    case False
    then show ?thesis
      using Cons by auto
  qed
qed simp_all

lemma merge_all_runs:
  assumes "set us \<subseteq> S" and "0 < l" and "runs_ordered cmp l us"
  shows "runs_ordered cmp (2 * l) (merge_all cmp l us) \<and>
    (\<forall>k\<in>S. filter (\<lambda>z. cmp k z = 0) (merge_all cmp l us) = filter (\<lambda>z. cmp k z = 0) us)"
  using assms
proof (induction "length us" arbitrary: us rule: less_induct)
  case less
  show ?case
  proof (cases "us = []")
    case True
    then show ?thesis
      by (subst (1 2) merge_all.simps) simp
  next
    case False
    define xs where "xs = take l us"
    define ys where "ys = take l (drop l us)"
    define rest where "rest = drop (2 * l) us"
    have us: "us = xs @ ys @ rest"
      unfolding xs_def ys_def rest_def by (metis append_take_drop_id drop_drop mult_2)
    have "ordered_by cmp xs \<and> runs_ordered cmp l (drop l us)"
      unfolding xs_def using less.prems by (intro runs_orderedD)
    moreover from this have "ordered_by cmp ys \<and> runs_ordered cmp l (drop l (drop l us))"
      unfolding ys_def using less.prems by (intro runs_orderedD) auto
    ultimately have runs: "ordered_by cmp xs" "ordered_by cmp ys" "runs_ordered cmp l rest"
      by (auto simp: rest_def mult_2)
    have sub: "set xs \<subseteq> S" "set ys \<subseteq> S" "set rest \<subseteq> S"
      using less.prems(1) us by auto
    have "length rest < length us"
      using False less.prems(2) by (simp add: rest_def)
    then have rec: "runs_ordered cmp (2 * l) (merge_all cmp l rest)"
      "\<forall>k\<in>S. filter (\<lambda>z. cmp k z = 0) (merge_all cmp l rest) = filter (\<lambda>z. cmp k z = 0) rest"
      using less.hyps [of rest] sub runs less.prems(2) by auto
    have eq: "merge_all cmp l us = merge_runs cmp xs ys @ merge_all cmp l rest"
      using False less.prems(2) by (subst merge_all.simps) (simp add: xs_def ys_def rest_def)
    have len: "length xs + length ys \<le> 2 * l"
      "length xs + length ys = 2 * l \<or> merge_all cmp l rest = []"
    proof -
      show "length xs + length ys \<le> 2 * l"
        by (simp add: xs_def ys_def)
      have "length xs + length ys = 2 * l \<or> rest = []"
        by (auto simp: xs_def ys_def rest_def)
      moreover have "merge_all cmp l [] = []"
        by (subst merge_all.simps) simp
      ultimately show "length xs + length ys = 2 * l \<or> merge_all cmp l rest = []"
        by auto
    qed
    have "runs_ordered cmp (2 * l) (merge_runs cmp xs ys @ merge_all cmp l rest)"
      using merge_runs_ordered [OF sub(1,2) runs(1,2)] len rec(1)
      by (intro runs_ordered_block) simp_all
    moreover have "filter (\<lambda>z. cmp k z = 0) (merge_runs cmp xs ys @ merge_all cmp l rest) =
        filter (\<lambda>z. cmp k z = 0) (xs @ ys @ rest)" if "k \<in> S" for k
      using filter_merge_runs [OF sub(1,2) runs(1) that] rec(2) that by simp
    ultimately show ?thesis
      unfolding eq using us by simp
  qed
qed

end

subsection \<open>Linked lists\<close>

fun chain :: "'p links \<Rightarrow> 'p option \<Rightarrow> 'p list \<Rightarrow> 'p option \<Rightarrow> bool" where
  "chain nx p [] e = (p = e)"
| "chain nx p (x # xs) e = (p = Some x \<and> chain nx (nx x) xs e)"

lemma chain_append: "chain nx p (xs @ ys) e \<longleftrightarrow> (\<exists>m. chain nx p xs m \<and> chain nx m ys e)"
  by (induction xs arbitrary: p) auto

lemma chain_upd [simp]: "a \<notin> set xs \<Longrightarrow> chain (nx(a := v)) p xs e = chain nx p xs e"
  by (induction xs arbitrary: p) auto

lemma chain_cong: "\<forall>x\<in>set xs. nx' x = nx x \<Longrightarrow> chain nx' p xs e = chain nx p xs e"
  by (induction xs arbitrary: p) auto

lemma chain_snoc: "chain nx p (xs @ [x]) e \<longleftrightarrow> chain nx p xs (Some x) \<and> nx x = e"
  by (auto simp: chain_append)

lemma get_nth_next_chain:
  "chain nx p us None \<Longrightarrow> chain nx (get_nth_next nx p n) (drop n us) None \<and>
     chain nx p (take n us) (get_nth_next nx p n)"
proof (induction nx p n arbitrary: us rule: get_nth_next.induct)
  case (1 nx n)
  then show ?case
    by (cases us) auto
next
  case (2 nx p)
  then show ?case by simp
next
  case (3 nx p n)
  then show ?case
    by (cases us) auto
qed

text \<open>A run: the nodes still to be popped, and the node that follows the last of them.\<close>

definition is_run :: "'p links \<Rightarrow> 'p mergesort_sublist \<Rightarrow> 'p list \<Rightarrow> 'p option \<Rightarrow> bool" where
  "is_run nx s xs e \<longleftrightarrow>
     chain nx (ms_ptr s) xs e \<and> (xs = [] \<longrightarrow> ms_len s = 0) \<and> length xs \<le> ms_len s \<and>
     (e \<noteq> None \<longrightarrow> ms_len s = length xs)"

lemma is_run_len: "is_run nx s xs e \<Longrightarrow> ms_len s = 0 \<longleftrightarrow> xs = []"
  by (cases xs) (auto simp: is_run_def)

lemma is_run_pop:
  assumes "is_run nx s (x # xs) e"
  shows "\<exists>s'. pop_item nx s = Some (x, s') \<and> is_run nx s' xs e"
proof -
  have "nx x = (if xs = [] then e else Some (hd xs))"
    using assms by (cases xs) (auto simp: is_run_def)
  then show ?thesis
    using assms by (cases xs; cases e) (auto simp: is_run_def pop_item_def Let_def)
qed

lemma is_run_upd: "a \<notin> set xs \<Longrightarrow> is_run (nx(a := v)) s xs e = is_run nx s xs e"
  by (simp add: is_run_def)

lemma is_run_head: "is_run nx s (x # xs) e \<Longrightarrow> ms_ptr s = Some x"
  by (simp add: is_run_def)

lemma merge_runs_take:
  "merge_runs cmp xs (y # ys) = y # merge_runs cmp xs ys" if "xs = [] \<or> cmp (hd xs) y > 0"
  using that by (cases xs) auto

lemma merge_runs_keep:
  "merge_runs cmp (x # xs) ys = x # merge_runs cmp xs ys" if "ys = [] \<or> \<not> cmp x (hd ys) > 0"
  using that by (cases ys) auto

lemma merge_loop_ok:
  assumes "is_run nx p xs e" and "is_run nx q ys e'" and "distinct (cur # xs @ ys)"
  shows "\<exists>nx' p' q'. merge_loop cmp nx cur p q = Some (nx', last (cur # merge_runs cmp xs ys), p', q') \<and>
    is_run nx' q' [] e' \<and>
    chain nx' (Some cur) (cur # merge_runs cmp xs ys) (nx' (last (cur # merge_runs cmp xs ys))) \<and>
    (\<forall>a. a \<notin> set (cur # xs @ ys) \<longrightarrow> nx' a = nx a)"
  using assms
proof (induction "length xs + length ys" arbitrary: nx cur p q xs ys rule: less_induct)
  case less
  note lens = is_run_len [OF less.prems(1)] is_run_len [OF less.prems(2)]
  have second: "take_second cmp p q \<longleftrightarrow> xs = [] \<or> ys \<noteq> [] \<and> cmp (hd xs) (hd ys) > 0"
    using lens less.prems by (cases xs; cases ys) (auto simp: take_second_def is_run_head)
  consider "xs = []" "ys = []"
    | y ys' where "take_second cmp p q" "ys = y # ys'" "xs = [] \<or> cmp (hd xs) y > 0"
    | x xs' where "\<not> take_second cmp p q" "xs = x # xs'" "ys = [] \<or> \<not> cmp x (hd ys) > 0"
    using second by (cases xs; cases ys) auto
  then show ?case
  proof cases
    case 1
    then show ?thesis
      using lens less.prems by (subst merge_loop.simps) auto
  next
    case (2 y ys')
    obtain q' where pop: "pop_item nx q = Some (y, q')" "is_run nx q' ys' e'"
      using is_run_pop [OF less.prems(2) [unfolded 2(2)]] by blast
    have "is_run (nx(cur := Some y)) p xs e" "is_run (nx(cur := Some y)) q' ys' e'"
      using less.prems pop 2 by (auto simp: is_run_upd)
    then obtain nx' p' q'' where rec: "merge_loop cmp (nx(cur := Some y)) y p q' =
        Some (nx', last (y # merge_runs cmp xs ys'), p', q'')" "is_run nx' q'' [] e'"
      "chain nx' (Some y) (y # merge_runs cmp xs ys') (nx' (last (y # merge_runs cmp xs ys')))"
      "\<forall>a. a \<notin> set (y # xs @ ys') \<longrightarrow> nx' a = (nx(cur := Some y)) a"
      using less.hyps [of xs ys' "nx(cur := Some y)" p q' y] less.prems(3) 2(2) by auto
    have "nx' cur = Some y"
      using rec(4) less.prems(3) 2(2) by auto
    then show ?thesis
      using rec 2 pop(1) lens
      by (subst merge_loop.simps) (auto simp: merge_runs_take)
  next
    case (3 x xs')
    obtain p1 where pop: "pop_item nx p = Some (x, p1)" "is_run nx p1 xs' e"
      using is_run_pop [OF less.prems(1) [unfolded 3(2)]] by blast
    have "is_run (nx(cur := Some x)) p1 xs' e" "is_run (nx(cur := Some x)) q ys e'"
      using less.prems pop 3 by (auto simp: is_run_upd)
    then obtain nx' p' q'' where rec: "merge_loop cmp (nx(cur := Some x)) x p1 q =
        Some (nx', last (x # merge_runs cmp xs' ys), p', q'')" "is_run nx' q'' [] e'"
      "chain nx' (Some x) (x # merge_runs cmp xs' ys) (nx' (last (x # merge_runs cmp xs' ys)))"
      "\<forall>a. a \<notin> set (x # xs' @ ys) \<longrightarrow> nx' a = (nx(cur := Some x)) a"
      using less.hyps [of xs' ys "nx(cur := Some x)" p1 q x] less.prems(3) 3(2) by auto
    have "nx' cur = Some x"
      using rec(4) less.prems(3) 3(2) by auto
    then show ?thesis
      using rec 3 pop(1) lens
      by (subst merge_loop.simps) (auto simp: merge_runs_keep)
  qed
qed

text \<open>The runs of a fresh list.\<close>

lemma chain_None: "chain nx p us None \<Longrightarrow> p = None \<longleftrightarrow> us = []"
  by (cases us) auto

lemma is_run_take:
  assumes "chain nx ptr (take l us) e" and "0 < l" and "e \<noteq> None \<longrightarrow> drop l us \<noteq> []"
    and "len = (if us = [] then 0 else l)"
  shows "is_run nx \<lparr>ms_ptr = ptr, ms_len = len\<rparr> (take l us) e"
  using assms by (auto simp: is_run_def)

lemma fresh_runs:
  assumes us: "chain nx ptr us None" "us \<noteq> []" and l: "0 < l"
    and q: "q = get_nth_next nx ptr l" and r: "r = get_nth_next nx q l"
  shows "is_run nx \<lparr>ms_ptr = ptr, ms_len = l\<rparr> (take l us) q \<and>
    is_run nx \<lparr>ms_ptr = q, ms_len = (if q \<noteq> None then l else 0)\<rparr> (take l (drop l us)) r \<and>
    chain nx r (drop (2 * l) us) None"
proof -
  have c: "chain nx ptr (take l us) q" "chain nx q (drop l us) None"
    using get_nth_next_chain [OF us(1), of l] by (auto simp: q)
  have d: "chain nx q (take l (drop l us)) r" "chain nx r (drop l (drop l us)) None"
    using get_nth_next_chain [OF c(2), of l] by (auto simp: r)
  have "is_run nx \<lparr>ms_ptr = ptr, ms_len = l\<rparr> (take l us) q"
    using c(1) l us(2) chain_None [OF c(2)] by (intro is_run_take) auto
  moreover have "is_run nx \<lparr>ms_ptr = q, ms_len = (if q \<noteq> None then l else 0)\<rparr> (take l (drop l us)) r"
    using d(1) l chain_None [OF c(2)] chain_None [OF d(2)] by (intro is_run_take) auto
  ultimately show ?thesis
    using d(2) by (simp add: mult_2)
qed

subsection \<open>The passes\<close>

lemma chain_first: "chain nx p us (Some x) \<Longrightarrow> p \<noteq> None"
  by (cases us) auto

lemma chain_join:
  assumes "chain nx p ds (Some c)" and "chain nx' (Some c) (c # m) e" and "\<forall>x\<in>set ds. nx' x = nx x"
  shows "chain nx' p (ds @ c # m) e"
  using assms(1,2) chain_cong [OF assms(3)] unfolding chain_append by blast

lemma chain_close:
  assumes "chain nx p zs (nx (last zs))" and "distinct zs" and "zs \<noteq> []"
  shows "chain (nx(last zs := None)) p zs None"
proof -
  obtain ys z where zs: "zs = ys @ [z]"
    using assms(3) by (cases zs rule: rev_cases) auto
  then show ?thesis
    using assms(1,2) by (auto simp: chain_append)
qed

lemma merge_all_Nil [simp]: "merge_all cmp l [] = []"
  by (subst merge_all.simps) simp

lemma merge_pass_ok:
  assumes "is_run nx p xs e" and "is_run nx q ys e'" and "chain nx e' rest None" and "ms_ptr p \<noteq> None"
    and "chain nx start (ds @ [cur]) (nx cur)" and "distinct (ds @ cur # xs @ ys @ rest)" and "0 < l"
  shows "\<exists>nx' zs. merge_pass cmp l nx cur p q = Some (nx', last zs) \<and>
    zs = ds @ cur # merge_runs cmp xs ys @ merge_all cmp l rest \<and>
    chain nx' start zs (nx' (last zs)) \<and> (\<forall>a. a \<notin> set (ds @ cur # xs @ ys @ rest) \<longrightarrow> nx' a = nx a)"
  using assms
proof (induction "length rest" arbitrary: nx cur p q xs ys e e' ds rest rule: less_induct)
  case less
  define m where "m = merge_runs cmp xs ys"
  define c where "c = last (cur # m)"
  have dist: "distinct (cur # xs @ ys)"
    using less.prems(6) by auto
  obtain nx1 p1 q1 where loop: "merge_loop cmp nx cur p q = Some (nx1, c, p1, q1)" "is_run nx1 q1 [] e'"
    "chain nx1 (Some cur) (cur # m) (nx1 c)" "\<forall>a. a \<notin> set (cur # xs @ ys) \<longrightarrow> nx1 a = nx a"
    using merge_loop_ok [OF less.prems(1,2) dist, of cmp] unfolding m_def c_def by blast
  have frame: "\<forall>x\<in>set ds. nx1 x = nx x" "\<forall>x\<in>set rest. nx1 x = nx x"
    using loop(4) less.prems(6) by auto
  have joined: "chain nx1 start (ds @ cur # m) (nx1 c)"
    using less.prems(5) by (intro chain_join [OF _ loop(3) frame(1)]) (simp add: chain_snoc)
  have rest: "chain nx1 e' rest None"
    using less.prems(3) chain_cong [OF frame(2)] by blast
  have ptr: "ms_ptr q1 = e'"
    using loop(2) by (simp add: is_run_def)
  define q2 where "q2 = get_nth_next nx1 e' l"
  have step: "merge_pass cmp l nx cur p q = merge_pass cmp l nx1 c \<lparr>ms_ptr = e', ms_len = l\<rparr>
      \<lparr>ms_ptr = q2, ms_len = (if q2 \<noteq> None then l else 0)\<rparr>"
    using less.prems(4) loop(1) ptr by (subst merge_pass.simps) (simp add: q2_def Let_def)
  have set_m: "set m = set xs \<union> set ys" "distinct m"
    using dist unfolding m_def by (simp, metis distinct.simps(2) mset_merge_runs mset_append mset_eq_imp_distinct_iff)
  show ?case
  proof (cases "rest = []")
    case True
    then have "e' = None"
      using rest chain_None by blast
    then have "merge_pass cmp l nx cur p q = Some (nx1, c)"
      unfolding step by (subst merge_pass.simps) simp
    moreover have "last (ds @ cur # m) = c"
      by (simp add: c_def)
    ultimately show ?thesis
      using True joined loop(4) by (auto simp: m_def)
  next
    case False
    then have e': "e' \<noteq> None"
      using rest chain_None by blast
    define r where "r = get_nth_next nx1 q2 l"
    define xs' where "xs' = take l rest"
    define ys' where "ys' = take l (drop l rest)"
    define rest' where "rest' = drop (2 * l) rest"
    have runs: "is_run nx1 \<lparr>ms_ptr = e', ms_len = l\<rparr> xs' q2"
      "is_run nx1 \<lparr>ms_ptr = q2, ms_len = (if q2 \<noteq> None then l else 0)\<rparr> ys' r" "chain nx1 r rest' None"
      using fresh_runs [OF rest False less.prems(7) q2_def r_def] by (auto simp: xs'_def ys'_def rest'_def)
    have split: "rest = xs' @ ys' @ rest'"
      unfolding xs'_def ys'_def rest'_def by (metis append_take_drop_id drop_drop mult_2)
    obtain ds' where ds': "ds @ cur # m = ds' @ [c]"
      unfolding c_def by (metis append_butlast_last_id append_assoc list.distinct(1))
    have sets: "set (ds' @ [c]) = set ds \<union> {cur} \<union> set xs \<union> set ys"
      using arg_cong [OF ds', of set] set_m(1) by auto
    have "distinct (ds' @ [c])"
      using less.prems(6) set_m unfolding ds' [symmetric] by auto
    then have "distinct (ds' @ c # xs' @ ys' @ rest')"
      using less.prems(6) sets unfolding split by auto
    moreover have "length rest' < length rest"
      using False less.prems(7) by (simp add: rest'_def)
    moreover have "chain nx1 start (ds' @ [c]) (nx1 c)"
      using joined ds' by simp
    ultimately obtain nx' zs where rec: "merge_pass cmp l nx cur p q = Some (nx', last zs)"
      "zs = ds' @ c # merge_runs cmp xs' ys' @ merge_all cmp l rest'"
      "chain nx' start zs (nx' (last zs))" "\<forall>a. a \<notin> set (ds' @ c # xs' @ ys' @ rest') \<longrightarrow> nx' a = nx1 a"
      using less.hyps [OF _ runs, of ds' c] e' less.prems(7) unfolding step by auto
    have "merge_all cmp l rest = merge_runs cmp xs' ys' @ merge_all cmp l rest'"
      using False less.prems(7) by (subst merge_all.simps) (simp add: xs'_def ys'_def rest'_def)
    then have "zs = ds @ cur # m @ merge_all cmp l rest"
      using rec(2) ds' by (metis append.assoc append_Cons append_Nil)
    moreover have "nx' a = nx a" if "a \<notin> set (ds @ cur # xs @ ys @ rest)" for a
      using that rec(4) loop(4) sets unfolding split by auto
    ultimately show ?thesis
      using rec(1,3) by (auto simp: m_def)
  qed
qed

text \<open>One turn of the outer loop merges every pair of runs.\<close>

lemma mergesort_turn:
  assumes us: "chain nx (Some lst) us None" "distinct us" and l: "0 < l"
    and second: "get_nth_next nx (Some lst) l = Some second"
  shows "\<exists>nx'. mergesort_loop cmp l nx lst = mergesort_loop cmp (l * 2) nx' (hd (merge_all cmp l us)) \<and>
    chain nx' (Some (hd (merge_all cmp l us))) (merge_all cmp l us) None \<and>
    (\<forall>a. a \<notin> set us \<longrightarrow> nx' a = nx a)"
proof -
  define q where "q = get_nth_next nx (Some lst) l"
  define r where "r = get_nth_next nx q l"
  define xs where "xs = take l us"
  define ys where "ys = take l (drop l us)"
  define rest where "rest = drop (2 * l) us"
  define p0 where "p0 = \<lparr>ms_ptr = Some lst, ms_len = l\<rparr>"
  define q0 where "q0 = \<lparr>ms_ptr = Some second, ms_len = l\<rparr>"
  have ne: "us \<noteq> []"
    using us(1) by auto
  have "q = Some second"
    using second by (simp add: q_def)
  then have runs: "is_run nx p0 xs (Some second)" "is_run nx q0 ys r" "chain nx r rest None"
    using fresh_runs [OF us(1) ne l q_def r_def] by (auto simp: xs_def ys_def rest_def p0_def q0_def)
  have split: "us = xs @ ys @ rest"
    unfolding xs_def ys_def rest_def by (metis append_take_drop_id drop_drop mult_2)
  have "length xs = l" "length ys \<noteq> 0"
    using runs(1,2) l by (auto simp: is_run_def p0_def q0_def)
  then obtain x xs' y ys' where cons: "xs = x # xs'" "ys = y # ys'"
    using l by (cases xs; cases ys) auto
  have heads: "x = lst" "y = second"
    using runs(1,2) unfolding cons by (auto simp: is_run_def p0_def q0_def)
  have all: "merge_all cmp l us = merge_runs cmp xs ys @ merge_all cmp l rest"
    using ne l by (subst merge_all.simps) (simp add: xs_def ys_def rest_def)
  have finish: "\<exists>nx'. mergesort_loop cmp l nx lst = mergesort_loop cmp (l * 2) nx' (hd (merge_all cmp l us)) \<and>
      chain nx' (Some (hd (merge_all cmp l us))) (merge_all cmp l us) None \<and>
      (\<forall>a. a \<notin> set us \<longrightarrow> nx' a = nx a)"
    if popped: "(if cmp lst second > 0 then map_option (\<lambda>(c, q'). (c, p0, q')) (pop_item nx q0)
        else map_option (\<lambda>(c, p'). (c, p', q0)) (pop_item nx p0)) = Some (c, p1, q1)"
      and p1: "is_run nx p1 xs1 (Some second)" and q1: "is_run nx q1 ys1 r" and ptr: "ms_ptr p1 \<noteq> None"
      and merged: "merge_runs cmp xs ys = c # merge_runs cmp xs1 ys1" and d: "distinct (c # xs1 @ ys1 @ rest)"
      and sub: "set (c # xs1 @ ys1 @ rest) \<subseteq> set us"
    for c p1 q1 xs1 ys1
  proof -
    have start: "chain nx (Some c) ([] @ [c]) (nx c)" and d': "distinct ([] @ c # xs1 @ ys1 @ rest)"
      using d by auto
    obtain nx' zs where pass: "merge_pass cmp l nx c p1 q1 = Some (nx', last zs)"
      "zs = [] @ c # merge_runs cmp xs1 ys1 @ merge_all cmp l rest" "chain nx' (Some c) zs (nx' (last zs))"
      "\<forall>a. a \<notin> set ([] @ c # xs1 @ ys1 @ rest) \<longrightarrow> nx' a = nx a"
      using merge_pass_ok [OF p1 q1 runs(3) ptr start d' l, of cmp] by blast
    have zs: "zs = merge_all cmp l us"
      using pass(2) merged by (simp add: all)
    have dz: "distinct zs" "set zs = set us"
      using mset_merge_all [of cmp l us] us(2) unfolding zs
      by (metis mset_eq_imp_distinct_iff, metis mset_eq_setD)
    have "chain (nx'(last zs := None)) (Some c) zs None"
      using pass(3) dz(1) pass(2) by (intro chain_close) auto
    moreover have "c = hd zs"
      using pass(2) by simp
    moreover have "last zs \<in> set us"
      using dz(2) pass(2) by (metis append_Nil last_in_set list.distinct(1))
    moreover have "mergesort_loop cmp l nx lst = mergesort_loop cmp (l * 2) (nx'(last zs := None)) c"
      by (subst mergesort_loop.simps) (simp only: second option.case Let_def p0_def [symmetric]
          q0_def [symmetric] popped prod.case pass(1))
    moreover have "\<forall>a. a \<notin> set us \<longrightarrow> nx' a = nx a"
      using pass(4) sub by auto
    ultimately show ?thesis
      unfolding zs [symmetric] by (auto intro!: exI [of _ "nx'(last zs := None)"])
  qed
  show ?thesis
  proof (cases "cmp lst second > 0")
    case True
    obtain q1 where "pop_item nx q0 = Some (y, q1)" "is_run nx q1 ys' r"
      using is_run_pop [OF runs(2) [unfolded cons]] by blast
    then show ?thesis
      using True runs(1) us(2) heads cons unfolding split
      by (intro finish [unfolded split, of y p0 q1 xs ys']) (auto simp: p0_def)
  next
    case False
    obtain p1 where pop: "pop_item nx p0 = Some (x, p1)" "is_run nx p1 xs' (Some second)"
      using is_run_pop [OF runs(1) [unfolded cons]] by blast
    then have "ms_ptr p1 \<noteq> None"
      using chain_first [of nx "ms_ptr p1" xs' second] by (simp add: is_run_def)
    then show ?thesis
      using False pop runs(2) us(2) heads cons unfolding split
      by (intro finish [unfolded split, of x p1 q0 xs' ys]) auto
  qed
qed

context comparator_on
begin

lemma mergesort_loop_ok:
  assumes "chain nx (Some lst) us None" and "distinct us" and "set us \<subseteq> S" and "0 < l"
    and "runs_ordered cmp l us"
  shows "\<exists>nx' lst' ys. mergesort_loop cmp l nx lst = Some (nx', lst') \<and> chain nx' (Some lst') ys None \<and>
    stable_sort_of cmp us ys \<and> (\<forall>a. a \<notin> set us \<longrightarrow> nx' a = nx a)"
  using assms
proof (induction "length us - l" arbitrary: nx lst us l rule: less_induct)
  case less
  show ?case
  proof (cases "get_nth_next nx (Some lst) l")
    case None
    then have "drop l us = []"
      using get_nth_next_chain [OF less.prems(1), of l] chain_None by fastforce
    then have "ordered_by cmp us"
      using runs_orderedD [OF less.prems(5,4)] by simp
    then show ?thesis
      using None less.prems(1) by (subst mergesort_loop.simps) (auto simp: stable_sort_of_def)
  next
    case (Some second)
    define vs where "vs = merge_all cmp l us"
    have eq: "mset vs = mset us" "set vs = set us"
      unfolding vs_def using mset_merge_all by (metis, metis mset_eq_setD)
    obtain nx1 where turn: "mergesort_loop cmp l nx lst = mergesort_loop cmp (l * 2) nx1 (hd vs)"
      "chain nx1 (Some (hd vs)) vs None" "\<forall>a. a \<notin> set us \<longrightarrow> nx1 a = nx a"
      using mergesort_turn [OF less.prems(1,2,4) Some] unfolding vs_def by blast
    have runs: "runs_ordered cmp (l * 2) vs"
      "\<forall>k\<in>S. filter (\<lambda>z. cmp k z = 0) vs = filter (\<lambda>z. cmp k z = 0) us"
      using merge_all_runs [OF less.prems(3,4,5)] unfolding vs_def by (auto simp: mult.commute)
    have len: "length vs = length us"
      using eq(1) by (metis size_mset)
    have "drop l us \<noteq> []"
      using get_nth_next_chain [OF less.prems(1), of l] chain_None [of nx _ "drop l us"] Some by fastforce
    then have "length vs - l * 2 < length us - l"
      using less.prems(4) len by auto
    moreover have "distinct vs"
      using eq(1) less.prems(2) by (metis mset_eq_imp_distinct_iff)
    ultimately obtain nx' lst' ys where rec: "mergesort_loop cmp (l * 2) nx1 (hd vs) = Some (nx', lst')"
      "chain nx' (Some lst') ys None" "stable_sort_of cmp vs ys" "\<forall>a. a \<notin> set vs \<longrightarrow> nx' a = nx1 a"
      using less.hyps [of vs "l * 2" nx1 "hd vs"] turn(2) runs(1) less.prems(3,4) eq by auto
    have "stable_sort_of cmp us ys"
      using rec(3) runs(2) eq less.prems(3) by (auto simp: stable_sort_of_def)
    then show ?thesis
      using rec turn eq by auto
  qed
qed

end

context comparator_on
begin

lemma llist_mergesort_ok:
  assumes "set us \<subseteq> S" and "distinct us" and "chain nx lst us None"
  shows "\<exists>nx' lst' ys. llist_mergesort cmp nx lst = Some (nx', lst') \<and> chain nx' lst' ys None \<and>
    stable_sort_of cmp us ys \<and> (\<forall>a. a \<notin> set us \<longrightarrow> nx' a = nx a)"
proof (cases lst)
  case None
  then show ?thesis
    using assms(3) chain_None [of nx lst us] by (auto simp: llist_mergesort_def stable_sort_of_def)
next
  case (Some p)
  then show ?thesis
    using mergesort_loop_ok [OF _ assms(2,1) _ runs_ordered_one, of nx p] assms(3)
    by (fastforce simp: llist_mergesort_def)
qed

end

subsection \<open>The properties of the component\<close>

text \<open>
  \<open>llist_mergesort\<close> returns on every well-formed list, dereferences no NULL pointer, and leaves a
  well-formed list of the same nodes in order, nodes that compare equal in their original order; no
  other link changes.
\<close>
theorem llist_mergesort_sorts:
  assumes "comparator_on S cmp" and "set us \<subseteq> S" and "distinct us" and "chain nx lst us None"
  shows "\<exists>nx' lst' ys. llist_mergesort cmp nx lst = Some (nx', lst') \<and> chain nx' lst' ys None \<and>
    stable_sort_of cmp us ys \<and> (\<forall>a. a \<notin> set us \<longrightarrow> nx' a = nx a)"
  by (rule comparator_on.llist_mergesort_ok [OF assms])

lemma llist_mergesort_sorts_witness:
  "\<exists>nx' lst' ys. llist_mergesort (compare_keys id) (\<lambda>n :: nat. if n = 3 then Some 1 else if n = 1 then Some 2 else None) (Some 3) =
      Some (nx', lst') \<and> chain nx' lst' ys None \<and> stable_sort_of (compare_keys id) [3, 1, 2] ys"
  using llist_mergesort_sorts [OF keys.comparator_on_axioms, of "[3, 1, 2]" "\<lambda>n :: nat. if n = 3 then Some 1 else if n = 1 then Some 2 else None" "Some 3" id]
  by auto

end
