(* ===== verification/Git_Commit.thy ===== *)
theory Git_Commit
  imports Git_Prio_Queue Git_Mergesort "HOL-Library.Monad_Syntax" "HOL-Library.Product_Lexorder"
begin

text \<open>
  Commits and commit lists of \<^verbatim>\<open>commit.c\<close>.  A commit is identified by its address; what parsing
  it yields, its parents, its date and whether \<open>parse_commit\<close> succeeds at all, is read from the
  object database and is the parameter \<open>repo\<close> of the model.  The flag words of all the objects are
  the mutable state.
\<close>

record 'c repo =
  parents :: "'c \<Rightarrow> 'c list"
  date :: "'c \<Rightarrow> nat"
  parse_ok :: "'c \<Rightarrow> bool"

type_synonym 'c flags = "'c \<Rightarrow> u32"

subsection \<open>Commit lists\<close>

definition commit_list_insert :: "'c \<Rightarrow> 'c list \<Rightarrow> 'c list" where
  "commit_list_insert item lst = item # lst"

fun commit_list_count :: "'c list \<Rightarrow> u32" where
  "commit_list_count [] = 0"
| "commit_list_count (c # l) = commit_list_count l + 1"

fun copy_commit_list :: "'c list \<Rightarrow> 'c list" where
  "copy_commit_list [] = []"
| "copy_commit_list (c # l) = c # copy_commit_list l"

fun pop_commit :: "'c list \<Rightarrow> 'c option \<times> 'c list" where
  "pop_commit [] = (None, [])"
| "pop_commit (c # l) = (Some c, l)"

fun commit_list_insert_by_date :: "'c repo \<Rightarrow> 'c \<Rightarrow> 'c list \<Rightarrow> 'c list" where
  "commit_list_insert_by_date g item [] = [item]"
| "commit_list_insert_by_date g item (p # l) =
     (if date g p < date g item then item # p # l
      else p # commit_list_insert_by_date g item l)"

definition commit_list_compare_by_date :: "'c repo \<Rightarrow> 'c \<Rightarrow> 'c \<Rightarrow> int" where
  "commit_list_compare_by_date g a b =
     (if date g a < date g b then 1 else if date g a > date g b then - 1 else 0)"

definition compare_commits_by_commit_date :: "'c repo \<Rightarrow> 'c \<Rightarrow> 'c \<Rightarrow> int" where
  "compare_commits_by_commit_date g a b =
     (if date g a < date g b then 1 else if date g a > date g b then - 1 else 0)"

text \<open>The list cells are nodes of their own, with the commit each one holds given by \<open>item\<close>.\<close>

definition commit_list_sort_by_date ::
    "'c repo \<Rightarrow> ('p \<Rightarrow> 'c) \<Rightarrow> 'p links \<Rightarrow> 'p option \<Rightarrow> ('p links \<times> 'p option) option" where
  "commit_list_sort_by_date g item nx lst =
     llist_mergesort (\<lambda>a b. commit_list_compare_by_date g (item a) (item b)) nx lst"

text \<open>\<open>None\<close>: the list is empty and the NULL commit is dereferenced.\<close>

definition pop_most_recent_commit ::
    "'c repo \<Rightarrow> u32 \<Rightarrow> 'c flags \<Rightarrow> 'c list \<Rightarrow> ('c \<times> 'c flags \<times> 'c list) option" where
  "pop_most_recent_commit g mark fl lst =
     (case pop_commit lst of
        (None, _) \<Rightarrow> None
      | (Some ret, l) \<Rightarrow>
          let (fl', l') = foldl (\<lambda>(fl, l) c.
                if parse_ok g c \<and> fl c AND mark = 0
                then (fl(c := fl c OR mark), commit_list_insert_by_date g c l) else (fl, l))
              (fl, l) (parents g ret)
          in Some (ret, fl', l'))"

lemma mset_insert_by_date: "mset (commit_list_insert_by_date g c l) = add_mset c (mset l)"
  by (induction l) auto

lemma set_insert_by_date [simp]: "set (commit_list_insert_by_date g c l) = insert c (set l)"
  using mset_insert_by_date [of g c l] by (metis set_mset_mset set_mset_add_mset_insert)

lemma distinct_insert_by_date [simp]:
  "distinct (commit_list_insert_by_date g c l) \<longleftrightarrow> c \<notin> set l \<and> distinct l"
  by (induction l) auto

definition by_date :: "'c repo \<Rightarrow> 'c list \<Rightarrow> bool" where
  "by_date g = sorted_wrt (\<lambda>a b. date g b \<le> date g a)"

lemma by_date_simps [simp]:
  "by_date g []" "by_date g (c # l) \<longleftrightarrow> (\<forall>d\<in>set l. date g d \<le> date g c) \<and> by_date g l"
  by (simp_all add: by_date_def)

lemma insert_by_date_sorted: "by_date g l \<Longrightarrow> by_date g (commit_list_insert_by_date g c l)"
  by (induction l) (auto intro: order_trans)

interpretation commit_date: comparator_on UNIV "compare_commits_by_commit_date g" for g
  by unfold_locales (auto simp: compare_commits_by_commit_date_def split: if_splits)

interpretation commit_cells: comparator_on UNIV "\<lambda>a b. commit_list_compare_by_date g (item a) (item b)" for g item
  by unfold_locales (auto simp: commit_list_compare_by_date_def split: if_splits)

subsection \<open>Clearing marks\<close>

text \<open>
  \<open>clear_commit_marks_1\<close> follows first parents and pushes the others on the work list; the loop ends at a
  commit without any of the marks, or without parents.
\<close>

partial_function (option) clear_commit_marks_1 ::
    "'c repo \<Rightarrow> u32 \<Rightarrow> 'c flags \<Rightarrow> 'c list \<Rightarrow> 'c \<Rightarrow> ('c flags \<times> 'c list) option" where
  "clear_commit_marks_1 g mark fl plist c =
     (if mark AND fl c = 0 then Some (fl, plist)
      else let fl1 = fl(c := fl c AND NOT mark)
           in case parents g c of
                [] \<Rightarrow> Some (fl1, plist)
              | p # ps \<Rightarrow> clear_commit_marks_1 g mark fl1 (foldl (\<lambda>l x. commit_list_insert x l) plist ps) p)"

partial_function (option) clear_commit_marks_loop ::
    "'c repo \<Rightarrow> u32 \<Rightarrow> 'c flags \<Rightarrow> 'c list \<Rightarrow> 'c flags option" where
  "clear_commit_marks_loop g mark fl lst =
     (case pop_commit lst of
        (None, _) \<Rightarrow> Some fl
      | (Some c, l) \<Rightarrow>
          (case clear_commit_marks_1 g mark fl l c of
             None \<Rightarrow> None
           | Some (fl', l') \<Rightarrow> clear_commit_marks_loop g mark fl' l'))"

declare clear_commit_marks_1.simps [code] clear_commit_marks_loop.simps [code]

definition clear_commit_marks_many :: "'c repo \<Rightarrow> 'c flags \<Rightarrow> 'c list \<Rightarrow> u32 \<Rightarrow> 'c flags option" where
  "clear_commit_marks_many g fl commits mark =
     clear_commit_marks_loop g mark fl (foldl (\<lambda>l x. commit_list_insert x l) [] commits)"

definition clear_commit_marks :: "'c repo \<Rightarrow> 'c flags \<Rightarrow> 'c \<Rightarrow> u32 \<Rightarrow> 'c flags option" where
  "clear_commit_marks g fl c mark = clear_commit_marks_many g fl [c] mark"

text \<open>The object array holds objects; \<open>lookup\<close> is \<open>lookup_commit_reference_gently\<close>.\<close>

definition clear_commit_marks_for_object_array ::
    "'c repo \<Rightarrow> ('o \<Rightarrow> 'c option) \<Rightarrow> 'c flags \<Rightarrow> 'o list \<Rightarrow> u32 \<Rightarrow> 'c flags option" where
  "clear_commit_marks_for_object_array g lookup fl objs mark =
     foldl (\<lambda>r x. case r of
         None \<Rightarrow> None
       | Some fl \<Rightarrow> (case lookup x of None \<Rightarrow> Some fl | Some c \<Rightarrow> clear_commit_marks g fl c mark))
       (Some fl) objs"

definition marked :: "u32 \<Rightarrow> 'c flags \<Rightarrow> 'c set" where
  "marked mark fl = {c. mark AND fl c \<noteq> 0}"

definition marked_edges :: "'c repo \<Rightarrow> 'c set \<Rightarrow> ('c \<times> 'c) set" where
  "marked_edges g M = {(c, p). c \<in> M \<and> p \<in> M \<and> p \<in> set (parents g c)}"

lemma foldl_insert: "foldl (\<lambda>l x. commit_list_insert x l) l xs = rev xs @ l"
  by (induction xs arbitrary: l) (simp_all add: commit_list_insert_def)

text \<open>The marked commits a walk from \<open>T\<close> through marked commits comes to.\<close>

definition marked_reach :: "'c repo \<Rightarrow> 'c set \<Rightarrow> 'c set \<Rightarrow> 'c set" where
  "marked_reach g M T = (marked_edges g M)\<^sup>* `` (T \<inter> M)"

lemma marked_reach_sub: "marked_reach g M T \<subseteq> M"
proof -
  have "d \<in> M" if "(c, d) \<in> (marked_edges g M)\<^sup>*" "c \<in> M" for c d
    using that by (induction rule: rtrancl_induct) (auto simp: marked_edges_def)
  then show ?thesis
    by (auto simp: marked_reach_def)
qed

lemma marked_reach_step:
  assumes "c \<in> marked_reach g M T" and "p \<in> set (parents g c)" and "p \<in> M"
  shows "p \<in> marked_reach g M T"
proof -
  obtain t where "t \<in> T \<inter> M" "(t, c) \<in> (marked_edges g M)\<^sup>*"
    using assms(1) by (auto simp: marked_reach_def)
  moreover have "(c, p) \<in> marked_edges g M"
    using assms marked_reach_sub [of g M T] by (auto simp: marked_edges_def)
  ultimately show ?thesis
    unfolding marked_reach_def by (meson ImageI rtrancl.rtrancl_into_rtrancl)
qed

text \<open>
  The loop invariant: outside the original marks nothing changes, a cleared commit is one the walk
  comes to and has lost exactly the marks, and a parent of a cleared commit, and a start commit, is
  cleared or waits in the list.
\<close>

definition clear_inv :: "'c repo \<Rightarrow> u32 \<Rightarrow> 'c flags \<Rightarrow> 'c set \<Rightarrow> 'c flags \<Rightarrow> 'c set \<Rightarrow> bool" where
  "clear_inv g mark fl0 T fl W \<longleftrightarrow>
     (\<forall>c. fl c = fl0 c \<or> c \<in> marked_reach g (marked mark fl0) T \<and> fl c = fl0 c AND NOT mark) \<and>
     (\<forall>c \<in> marked mark fl0 - marked mark fl. \<forall>p \<in> set (parents g c) \<inter> marked mark fl. p \<in> W) \<and>
     T \<inter> marked mark fl \<subseteq> W \<and> W \<inter> marked mark fl0 \<subseteq> marked_reach g (marked mark fl0) T"

lemma and_not_mask: "(mark :: u32) AND (x AND NOT mark) = 0"
  by (rule bit_word_eqI) (auto simp: bit_simps)

lemma and_not_and_not: "((x :: u32) AND NOT mark) AND NOT mark = x AND NOT mark"
  by (rule bit_word_eqI) (auto simp: bit_simps)

lemma clear_inv_flags:
  "clear_inv g mark fl0 T fl W \<Longrightarrow>
     fl c = fl0 c \<or> c \<in> marked_reach g (marked mark fl0) T \<and> fl c = fl0 c AND NOT mark"
  unfolding clear_inv_def by blast

lemma clear_inv_marked:
  assumes "clear_inv g mark fl0 T fl W"
  shows "marked mark fl \<subseteq> marked mark fl0"
proof
  fix c
  assume "c \<in> marked mark fl"
  then show "c \<in> marked mark fl0"
    using clear_inv_flags [OF assms, of c] by (auto simp: marked_def and_not_mask)
qed

lemma clear_inv_drop:
  assumes "clear_inv g mark fl0 T fl (insert c W)" and c: "c \<notin> marked mark fl"
  shows "clear_inv g mark fl0 T fl W"
proof -
  have inv: "\<forall>d\<in>marked mark fl0 - marked mark fl. \<forall>p\<in>set (parents g d) \<inter> marked mark fl. p \<in> insert c W"
    "T \<inter> marked mark fl \<subseteq> insert c W" "insert c W \<inter> marked mark fl0 \<subseteq> marked_reach g (marked mark fl0) T"
    using assms(1) unfolding clear_inv_def by auto
  have "p \<in> W" if "d \<in> marked mark fl0 - marked mark fl" "p \<in> set (parents g d) \<inter> marked mark fl" for d p
    using inv(1) that c by (metis IntD2 insertE)
  then show ?thesis
    using clear_inv_flags [OF assms(1)] inv(2,3) c unfolding clear_inv_def by auto
qed

lemma clear_step:
  assumes inv: "clear_inv g mark fl0 T fl (insert c W)" and c: "c \<in> marked mark fl"
  shows "clear_inv g mark fl0 T (fl(c := fl c AND NOT mark)) (W \<union> set (parents g c)) \<and>
    marked mark (fl(c := fl c AND NOT mark)) = marked mark fl - {c}"
proof -
  have eq: "marked mark (fl(c := fl c AND NOT mark)) = marked mark fl - {c}"
    by (auto simp: marked_def and_not_mask)
  have same: "fl c AND NOT mark = fl0 c AND NOT mark"
    using clear_inv_flags [OF inv, of c] and_not_and_not by auto
  have c0: "c \<in> marked_reach g (marked mark fl0) T"
    using inv c clear_inv_marked [OF inv] unfolding clear_inv_def by blast
  then have par: "set (parents g c) \<inter> marked mark fl0 \<subseteq> marked_reach g (marked mark fl0) T"
    using marked_reach_step by fast
  show ?thesis
    unfolding clear_inv_def eq
  proof (intro conjI)
    show "\<forall>d. (fl(c := fl c AND NOT mark)) d = fl0 d \<or>
        d \<in> marked_reach g (marked mark fl0) T \<and> (fl(c := fl c AND NOT mark)) d = fl0 d AND NOT mark"
      using clear_inv_flags [OF inv] same c0 by simp
    show "\<forall>d\<in>marked mark fl0 - (marked mark fl - {c}).
        \<forall>p\<in>set (parents g d) \<inter> (marked mark fl - {c}). p \<in> W \<union> set (parents g c)"
      using inv unfolding clear_inv_def by blast
    show "T \<inter> (marked mark fl - {c}) \<subseteq> W \<union> set (parents g c)"
      using inv unfolding clear_inv_def by blast
    show "(W \<union> set (parents g c)) \<inter> marked mark fl0 \<subseteq> marked_reach g (marked mark fl0) T"
      using inv par unfolding clear_inv_def by blast
  qed simp
qed

lemma clear_commit_marks_1_ok:
  assumes "clear_inv g mark fl0 T fl (insert c (set plist))" and "finite (marked mark fl)"
  shows "\<exists>fl' plist'. clear_commit_marks_1 g mark fl plist c = Some (fl', plist') \<and>
    clear_inv g mark fl0 T fl' (set plist') \<and> marked mark fl' \<subseteq> marked mark fl \<and>
    (fl' = fl \<and> plist' = plist \<or> card (marked mark fl') < card (marked mark fl))"
  using assms
proof (induction "card (marked mark fl)" arbitrary: fl plist c rule: less_induct)
  case less
  show ?case
  proof (cases "mark AND fl c = 0")
    case True
    then have "c \<notin> marked mark fl"
      by (simp add: marked_def)
    then have "clear_inv g mark fl0 T fl (set plist)"
      by (rule clear_inv_drop [OF less.prems(1)])
    moreover have "clear_commit_marks_1 g mark fl plist c = Some (fl, plist)"
      by (subst clear_commit_marks_1.simps) (rule if_P [OF True])
    ultimately show ?thesis
      by blast
  next
    case False
    define fl1 where "fl1 = fl(c := fl c AND NOT mark)"
    have c: "c \<in> marked mark fl"
      using False by (simp add: marked_def)
    have inv: "clear_inv g mark fl0 T fl1 (set plist \<union> set (parents g c))"
      and eq: "marked mark fl1 = marked mark fl - {c}"
      using clear_step [OF less.prems(1) c] by (auto simp: fl1_def)
    have card: "card (marked mark fl1) < card (marked mark fl)"
      unfolding eq using c less.prems(2) by (rule card_Diff1_less [rotated])
    have run: "clear_commit_marks_1 g mark fl plist c =
        (case parents g c of
           [] \<Rightarrow> Some (fl1, plist)
         | p # ps \<Rightarrow> clear_commit_marks_1 g mark fl1 (foldl (\<lambda>l x. commit_list_insert x l) plist ps) p)"
      using False by (subst clear_commit_marks_1.simps) (simp only: fl1_def Let_def if_False)
    show ?thesis
    proof (cases "parents g c")
      case Nil
      then have "clear_inv g mark fl0 T fl1 (set plist)"
        using inv by simp
      then show ?thesis
        using card eq by (intro exI [of _ fl1] exI [of _ plist])
          (simp only: run Nil list.case, blast)
    next
      case (Cons p ps)
      have "set plist \<union> set (parents g c) = insert p (set (rev ps @ plist))"
        using Cons by auto
      then have inv': "clear_inv g mark fl0 T fl1 (insert p (set (rev ps @ plist)))"
        using inv by simp
      have fin: "finite (marked mark fl1)"
        using less.prems(2) eq by simp
      obtain fl' plist' where rec: "clear_commit_marks_1 g mark fl1 (rev ps @ plist) p = Some (fl', plist')"
        "clear_inv g mark fl0 T fl' (set plist')" "marked mark fl' \<subseteq> marked mark fl1"
        using less.hyps [OF card inv' fin] by blast
      have "card (marked mark fl') < card (marked mark fl)"
        using card_mono [OF fin rec(3)] card by linarith
      then show ?thesis
        using rec eq by (intro exI [of _ fl'] exI [of _ plist'])
          (simp only: run Cons list.case foldl_insert, blast)
    qed
  qed
qed

lemma clear_commit_marks_loop_ok:
  assumes "clear_inv g mark fl0 T fl (set lst)" and "finite (marked mark fl)"
  shows "\<exists>fl'. clear_commit_marks_loop g mark fl lst = Some fl' \<and> clear_inv g mark fl0 T fl' {}"
  using assms
proof (induction "(card (marked mark fl), length lst)" arbitrary: fl lst rule: less_induct)
  case less
  show ?case
  proof (cases lst)
    case Nil
    then show ?thesis
      using less.prems by (subst clear_commit_marks_loop.simps) simp
  next
    case (Cons c l)
    obtain fl' l' where step: "clear_commit_marks_1 g mark fl l c = Some (fl', l')"
      "clear_inv g mark fl0 T fl' (set l')" "marked mark fl' \<subseteq> marked mark fl"
      "fl' = fl \<and> l' = l \<or> card (marked mark fl') < card (marked mark fl)"
      using clear_commit_marks_1_ok [of g mark fl0 T fl c l] less.prems Cons by auto
    have "(card (marked mark fl'), length l') < (card (marked mark fl), length lst)"
      using step(4) Cons by (auto simp: less_prod_def)
    then show ?thesis
      using less.hyps [OF _ step(2)] step finite_subset [OF step(3) less.prems(2)] Cons
      by (subst clear_commit_marks_loop.simps) auto
  qed
qed

lemma clear_inv_done:
  assumes inv: "clear_inv g mark fl0 T fl {}"
  shows "fl = (\<lambda>c. if c \<in> marked_reach g (marked mark fl0) T then fl0 c AND NOT mark else fl0 c)"
proof -
  have unmarked: "c \<notin> marked mark fl" if "(t, c) \<in> (marked_edges g (marked mark fl0))\<^sup>*" "t \<in> T" for t c
    using that
  proof (induction rule: rtrancl_induct)
    case base
    then show ?case
      using inv unfolding clear_inv_def by blast
  next
    case (step c p)
    then have "c \<in> marked mark fl0 - marked mark fl" "p \<in> set (parents g c)"
      by (auto simp: marked_edges_def)
    then show ?case
      using inv unfolding clear_inv_def by blast
  qed
  have "fl c = fl0 c AND NOT mark" if c: "c \<in> marked_reach g (marked mark fl0) T" for c
  proof -
    obtain t where "(t, c) \<in> (marked_edges g (marked mark fl0))\<^sup>*" "t \<in> T"
      using c by (auto simp: marked_reach_def)
    then have "c \<notin> marked mark fl"
      by (rule unmarked)
    moreover have "c \<in> marked mark fl0"
      by (rule subsetD [OF marked_reach_sub c])
    ultimately have "fl c \<noteq> fl0 c"
      by (metis marked_def mem_Collect_eq)
    then show ?thesis
      using clear_inv_flags [OF inv, of c] by blast
  qed
  moreover have "fl c = fl0 c" if "c \<notin> marked_reach g (marked mark fl0) T" for c
    using that clear_inv_flags [OF inv, of c] by simp
  ultimately show ?thesis
    by auto
qed

lemma clear_commit_marks_many_ok:
  assumes "finite (marked mark fl)"
  shows "clear_commit_marks_many g fl commits mark =
    Some (\<lambda>c. if c \<in> marked_reach g (marked mark fl) (set commits) then fl c AND NOT mark else fl c)"
proof -
  have "clear_inv g mark fl (set commits) fl (set (rev commits))"
    by (auto simp: clear_inv_def marked_reach_def)
  then obtain fl' where "clear_commit_marks_loop g mark fl (rev commits) = Some fl'"
    "clear_inv g mark fl (set commits) fl' {}"
    using clear_commit_marks_loop_ok [OF _ assms] by blast
  then show ?thesis
    using clear_inv_done unfolding clear_commit_marks_many_def foldl_insert by fastforce
qed

subsection \<open>The properties of the component\<close>

text \<open>
  (C10) \<open>clear_commit_marks_many\<close> returns, and clears the given marks on exactly the commits that a walk from
  the given commits through marked commits comes to; nothing else changes.
\<close>
theorem clear_marks_exact:
  assumes "finite (marked mark fl)"
  shows "clear_commit_marks_many g fl commits mark =
    Some (\<lambda>c. if c \<in> (marked_edges g (marked mark fl))\<^sup>* `` (set commits \<inter> marked mark fl)
              then fl c AND NOT mark else fl c)"
  using clear_commit_marks_many_ok [OF assms] unfolding marked_reach_def .

definition example_repo :: "nat repo" where
  "example_repo = \<lparr>parents = (\<lambda>c. if c = 5 then [4, 3] else if c = 4 then [2] else if c = 3 then [2]
      else if c = 2 then [1] else []), date = (\<lambda>c. c), parse_ok = (\<lambda>c. True)\<rparr>"

lemma clear_marks_exact_witness:
  "\<exists>fl. clear_commit_marks_many example_repo ((\<lambda>c. 0)(4 := 1, 1 := 3)) [4, 5] 1 = Some fl \<and> fl 4 = 0"
proof -
  have "marked 1 ((\<lambda>c :: nat. 0)(4 := 1, 1 := 3)) \<subseteq> {4, 1}"
    by (auto simp: marked_def split: if_splits)
  then have fin: "finite (marked 1 ((\<lambda>c :: nat. 0)(4 := 1, 1 := 3)))"
    by (rule finite_subset) simp
  have "4 \<in> (marked_edges example_repo (marked 1 ((\<lambda>c. 0)(4 := 1, 1 := 3))))\<^sup>* ``
      (set [4, 5] \<inter> marked 1 ((\<lambda>c. 0)(4 := 1, 1 := 3)))"
    by (rule ImageI [OF rtrancl.rtrancl_refl]) (simp add: marked_def)
  then show ?thesis
    using clear_marks_exact [OF fin, of example_repo "[4, 5]"] by simp
qed

text \<open>
  \<open>commit_list_sort_by_date\<close> returns on every well-formed list and sorts its cells by descending
  date, keeping the order of cells whose commits have the same date.
\<close>
theorem commit_list_sort_by_date_sorts:
  assumes "distinct cells" and "chain nx lst cells None"
  shows "\<exists>nx' lst' ys. commit_list_sort_by_date g item nx lst = Some (nx', lst') \<and> chain nx' lst' ys None \<and>
    mset ys = mset cells \<and> sorted_wrt (\<lambda>a b. date g (item b) \<le> date g (item a)) ys \<and>
    (\<forall>d. filter (\<lambda>c. date g (item c) = d) ys = filter (\<lambda>c. date g (item c) = d) cells)"
proof -
  obtain nx' lst' ys where run: "commit_list_sort_by_date g item nx lst = Some (nx', lst')" "chain nx' lst' ys None"
    and sorted: "stable_sort_of (\<lambda>a b. commit_list_compare_by_date g (item a) (item b)) cells ys"
    using comparator_on.llist_mergesort_ok [OF commit_cells.comparator_on_axioms subset_UNIV assms]
    unfolding commit_list_sort_by_date_def by blast
  have eq: "commit_list_compare_by_date g (item a) (item b) = 0 \<longleftrightarrow> date g (item b) = date g (item a)"
    "commit_list_compare_by_date g (item a) (item b) \<le> 0 \<longleftrightarrow> date g (item b) \<le> date g (item a)" for a b
    by (auto simp: commit_list_compare_by_date_def)
  have "filter (\<lambda>c. date g (item c) = d) ys = filter (\<lambda>c. date g (item c) = d) cells" for d
  proof (cases "\<exists>x\<in>set cells. date g (item x) = d")
    case True
    then show ?thesis
      using sorted by (auto simp: stable_sort_of_def eq)
  next
    case False
    moreover have "set ys = set cells"
      using sorted by (auto simp: stable_sort_of_def dest: mset_eq_setD)
    ultimately show ?thesis
      by (metis (mono_tags, lifting) filter_False)
  qed
  then show ?thesis
    using run sorted by (auto simp: stable_sort_of_def ordered_by_def eq)
qed

lemma commit_list_sort_by_date_sorts_witness:
  "\<exists>nx' lst' ys. commit_list_sort_by_date example_repo id ((\<lambda>n. None)(1 := Some 5)) (Some 1) = Some (nx', lst') \<and>
    chain nx' lst' ys None \<and> mset ys = {#1, 5#}"
  using commit_list_sort_by_date_sorts [of "[1, 5]" "(\<lambda>n. None)(1 := Some 5)" "Some 1" example_repo id] by fastforce

end
