(* ===== verification/Git_Merge_Base.thy ===== *)
theory Git_Merge_Base
  imports Git_Commit
begin

text \<open>
  The merge-base routines of \<^verbatim>\<open>commit.c\<close>: painting the history down from two sides, removing
  redundant merge bases, and the ancestry tests built on it.  Every routine takes and returns the flag
  words; \<open>None\<close> is a NULL dereference or a loop that does not end.
\<close>

subsection \<open>Flags\<close>

definition PARENT1 :: u32 where "PARENT1 = push_bit 16 1"
definition PARENT2 :: u32 where "PARENT2 = push_bit 17 1"
definition STALE :: u32 where "STALE = push_bit 18 1"
definition RESULT :: u32 where "RESULT = push_bit 19 1"

definition all_flags :: u32 where
  "all_flags = PARENT1 OR PARENT2 OR STALE OR RESULT"

lemma bit_flags [simp]:
  "bit PARENT1 n \<longleftrightarrow> n = 16" "bit PARENT2 n \<longleftrightarrow> n = 17" "bit STALE n \<longleftrightarrow> n = 18" "bit RESULT n \<longleftrightarrow> n = 19"
  unfolding PARENT1_def PARENT2_def STALE_def RESULT_def bit_push_bit_iff bit_1_iff by auto

lemma bit_all_flags [simp]: "bit all_flags n \<longleftrightarrow> n = 16 \<or> n = 17 \<or> n = 18 \<or> n = 19"
  by (auto simp: all_flags_def bit_simps)

subsection \<open>Painting\<close>

definition queue_has_nonstale :: "'c flags \<Rightarrow> 'c prio_queue \<Rightarrow> bool" where
  "queue_has_nonstale fl q = list_ex (\<lambda>e. fl (snd e) AND STALE = 0) (pq_array q)"

text \<open>
  The loop over the parents of a commit: \<open>Inl\<close> is the early return when a parent cannot be parsed,
  which leaves the flags painted so far.
\<close>

primrec paint_parents ::
    "'c repo \<Rightarrow> u32 \<Rightarrow> 'c list \<Rightarrow> 'c flags \<Rightarrow> 'c prio_queue \<Rightarrow> 'c flags + 'c flags \<times> 'c prio_queue" where
  "paint_parents g f [] fl q = Inr (fl, q)"
| "paint_parents g f (p # ps) fl q =
     (if fl p AND f = f then paint_parents g f ps fl q
      else if \<not> parse_ok g p then Inl fl
      else paint_parents g f ps (fl(p := fl p OR f)) (prio_queue_put q p))"

text \<open>What is painted on the parents, and the new result when the commit is a common ancestor.\<close>

definition paint_carry :: "u32 \<Rightarrow> u32" where
  "paint_carry w =
     (let flags = w AND (PARENT1 OR PARENT2 OR STALE)
      in if flags = PARENT1 OR PARENT2 then flags OR STALE else flags)"

definition paint_result :: "'c repo \<Rightarrow> 'c \<Rightarrow> 'c flags \<Rightarrow> 'c list \<Rightarrow> 'c flags \<times> 'c list" where
  "paint_result g c fl result =
     (if fl c AND (PARENT1 OR PARENT2 OR STALE) = PARENT1 OR PARENT2 \<and> fl c AND RESULT = 0
      then (fl(c := fl c OR RESULT), commit_list_insert_by_date g c result)
      else (fl, result))"

partial_function (option) paint_loop ::
    "'c repo \<Rightarrow> 'c flags \<Rightarrow> 'c prio_queue \<Rightarrow> 'c list \<Rightarrow> ('c flags \<times> 'c list) option" where
  "paint_loop g fl q result =
     (if queue_has_nonstale fl q then
        (case prio_queue_get q of
           None \<Rightarrow> None
         | Some (c, q1) \<Rightarrow>
             let f = paint_carry (fl c); (fl1, result1) = paint_result g c fl result
             in case paint_parents g f (parents g c) fl1 q1 of
                  Inl fl2 \<Rightarrow> Some (fl2, [])
                | Inr (fl2, q2) \<Rightarrow> paint_loop g fl2 q2 result1)
      else Some (fl, result))"

declare paint_loop.simps [code]

definition paint_down_to_common ::
    "'c repo \<Rightarrow> 'c flags \<Rightarrow> 'c \<Rightarrow> 'c list \<Rightarrow> ('c flags \<times> 'c list) option" where
  "paint_down_to_common g fl one twos =
     (let queue = \<lparr>pq_compare = Some (compare_commits_by_commit_date g), pq_insertion_ctr = 0, pq_array = []\<rparr>;
          fl1 = fl(one := fl one OR PARENT1)
      in if twos = [] then Some (fl1, [one])
         else
           let (fl2, queue) = foldl (\<lambda>(fl, q) t. (fl(t := fl t OR PARENT2), prio_queue_put q t))
                 (fl1, prio_queue_put queue one) twos
           in paint_loop g fl2 queue [])"

subsection \<open>Merge bases\<close>

definition merge_bases_many ::
    "'c repo \<Rightarrow> 'c flags \<Rightarrow> 'c \<Rightarrow> 'c list \<Rightarrow> ('c flags \<times> 'c list) option" where
  "merge_bases_many g fl one twos =
     (if one \<in> set twos then Some (fl, commit_list_insert one [])
      else if \<not> parse_ok g one \<or> (\<exists>t\<in>set twos. \<not> parse_ok g t) then Some (fl, [])
      else do {
        (fl1, lst) \<leftarrow> paint_down_to_common g fl one twos;
        Some (fl1, foldl (\<lambda>result c. if fl1 c AND STALE = 0
                                     then commit_list_insert_by_date g c result else result) [] lst)
      })"

text \<open>One turn of the first loop of \<open>remove_redundant\<close>, for the commit at \<open>i\<close>.\<close>

primrec clear_each :: "'c repo \<Rightarrow> 'c flags \<Rightarrow> 'c list \<Rightarrow> 'c flags option" where
  "clear_each g fl [] = Some fl"
| "clear_each g fl (c # cs) =
     (case clear_commit_marks g fl c all_flags of None \<Rightarrow> None | Some fl' \<Rightarrow> clear_each g fl' cs)"

definition redundant_turn ::
    "'c repo \<Rightarrow> 'c list \<Rightarrow> nat \<Rightarrow> 'c flags \<times> bool list \<Rightarrow> ('c flags \<times> bool list) option" where
  "redundant_turn g array i s =
     (case s of (fl, redundant) \<Rightarrow>
        if redundant ! i then Some (fl, redundant)
        else
          let filled = filter (\<lambda>j. i \<noteq> j \<and> \<not> redundant ! j) [0..<length array];
              work = map ((!) array) filled
          in do {
            (fl1, common) \<leftarrow> paint_down_to_common g fl (array ! i) work;
            let red1 = (if fl1 (array ! i) AND PARENT2 \<noteq> 0 then redundant[i := True] else redundant);
            let red2 = foldl (\<lambda>r j. if fl1 (array ! j) AND PARENT1 \<noteq> 0 then r[j := True] else r) red1 filled;
            fl2 \<leftarrow> clear_commit_marks g fl1 (array ! i) all_flags;
            fl3 \<leftarrow> clear_each g fl2 work;
            Some (fl3, red2)
          })"

primrec redundant_turns ::
    "'c repo \<Rightarrow> 'c list \<Rightarrow> nat list \<Rightarrow> 'c flags \<times> bool list \<Rightarrow> ('c flags \<times> bool list) option" where
  "redundant_turns g array [] s = Some s"
| "redundant_turns g array (i # is) s =
     (case redundant_turn g array i s of None \<Rightarrow> None | Some s' \<Rightarrow> redundant_turns g array is s')"

text \<open>The array with the redundant commits moved to the end, and the number of the others.\<close>

definition remove_redundant ::
    "'c repo \<Rightarrow> 'c flags \<Rightarrow> 'c list \<Rightarrow> ('c flags \<times> 'c list \<times> nat) option" where
  "remove_redundant g fl array =
     do {
       (fl1, redundant) \<leftarrow> redundant_turns g array [0..<length array] (fl, replicate (length array) False);
       let keep = filter (\<lambda>i. \<not> redundant ! i) [0..<length array];
       let drop = filter (\<lambda>i. redundant ! i) [0..<length array];
       Some (fl1, map ((!) array) keep @ map ((!) array) drop, length keep)
     }"

definition get_merge_bases_many_0 ::
    "'c repo \<Rightarrow> 'c flags \<Rightarrow> 'c \<Rightarrow> 'c list \<Rightarrow> bool \<Rightarrow> ('c flags \<times> 'c list) option" where
  "get_merge_bases_many_0 g fl one twos cleanup =
     do {
       (fl1, result) \<leftarrow> merge_bases_many g fl one twos;
       if one \<in> set twos then Some (fl1, result)
       else if length result \<le> 1 then
         (if cleanup then do {
            fl2 \<leftarrow> clear_commit_marks g fl1 one all_flags;
            fl3 \<leftarrow> clear_commit_marks_many g fl2 twos all_flags;
            Some (fl3, result)
          } else Some (fl1, result))
       else do {
         fl2 \<leftarrow> clear_commit_marks g fl1 one all_flags;
         fl3 \<leftarrow> clear_commit_marks_many g fl2 twos all_flags;
         (fl4, rslt, cnt) \<leftarrow> remove_redundant g fl3 result;
         Some (fl4, foldl (\<lambda>r c. commit_list_insert_by_date g c r) [] (take cnt rslt))
       }
     }"

definition get_merge_bases_many ::
    "'c repo \<Rightarrow> 'c flags \<Rightarrow> 'c \<Rightarrow> 'c list \<Rightarrow> ('c flags \<times> 'c list) option" where
  "get_merge_bases_many g fl one twos = get_merge_bases_many_0 g fl one twos True"

definition get_merge_bases_many_dirty ::
    "'c repo \<Rightarrow> 'c flags \<Rightarrow> 'c \<Rightarrow> 'c list \<Rightarrow> ('c flags \<times> 'c list) option" where
  "get_merge_bases_many_dirty g fl one twos = get_merge_bases_many_0 g fl one twos False"

definition get_merge_bases :: "'c repo \<Rightarrow> 'c flags \<Rightarrow> 'c \<Rightarrow> 'c \<Rightarrow> ('c flags \<times> 'c list) option" where
  "get_merge_bases g fl one two = get_merge_bases_many_0 g fl one [two] True"

text \<open>All the merge bases of \<open>i\<close> with the members of the list.\<close>

primrec octopus_round :: "'c repo \<Rightarrow> 'c flags \<Rightarrow> 'c \<Rightarrow> 'c list \<Rightarrow> ('c flags \<times> 'c list) option" where
  "octopus_round g fl i [] = Some (fl, [])"
| "octopus_round g fl i (j # js) =
     do {
       (fl1, bases) \<leftarrow> get_merge_bases g fl i j;
       (fl2, new) \<leftarrow> octopus_round g fl1 i js;
       Some (fl2, bases @ new)
     }"

primrec octopus_rounds :: "'c repo \<Rightarrow> 'c flags \<Rightarrow> 'c list \<Rightarrow> 'c list \<Rightarrow> ('c flags \<times> 'c list) option" where
  "octopus_rounds g fl ret [] = Some (fl, ret)"
| "octopus_rounds g fl ret (i # is) =
     do {
       (fl1, new) \<leftarrow> octopus_round g fl i ret;
       octopus_rounds g fl1 new is
     }"

definition get_octopus_merge_bases :: "'c repo \<Rightarrow> 'c flags \<Rightarrow> 'c list \<Rightarrow> ('c flags \<times> 'c list) option" where
  "get_octopus_merge_bases g fl inl =
     (case inl of [] \<Rightarrow> Some (fl, []) | c # is \<Rightarrow> octopus_rounds g fl (commit_list_insert c []) is)"

subsection \<open>Ancestry tests\<close>

definition in_merge_bases_many ::
    "'c repo \<Rightarrow> 'c flags \<Rightarrow> 'c \<Rightarrow> 'c list \<Rightarrow> ('c flags \<times> bool) option" where
  "in_merge_bases_many g fl commit reference =
     (if \<not> parse_ok g commit \<or> (\<exists>r\<in>set reference. \<not> parse_ok g r) then Some (fl, False)
      else do {
        (fl1, bases) \<leftarrow> paint_down_to_common g fl commit reference;
        let ret = (fl1 commit AND PARENT2 \<noteq> 0);
        fl2 \<leftarrow> clear_commit_marks g fl1 commit all_flags;
        fl3 \<leftarrow> clear_commit_marks_many g fl2 reference all_flags;
        Some (fl3, ret)
      })"

definition in_merge_bases :: "'c repo \<Rightarrow> 'c flags \<Rightarrow> 'c \<Rightarrow> 'c \<Rightarrow> ('c flags \<times> bool) option" where
  "in_merge_bases g fl commit reference = in_merge_bases_many g fl commit [reference]"

primrec is_descendant_of_loop :: "'c repo \<Rightarrow> 'c flags \<Rightarrow> 'c \<Rightarrow> 'c list \<Rightarrow> ('c flags \<times> bool) option" where
  "is_descendant_of_loop g fl commit [] = Some (fl, False)"
| "is_descendant_of_loop g fl commit (other # ws) =
     do {
       (fl1, r) \<leftarrow> in_merge_bases g fl other commit;
       if r then Some (fl1, True) else is_descendant_of_loop g fl1 commit ws
     }"

definition is_descendant_of :: "'c repo \<Rightarrow> 'c flags \<Rightarrow> 'c \<Rightarrow> 'c list \<Rightarrow> ('c flags \<times> bool) option" where
  "is_descendant_of g fl commit with_commit =
     (if with_commit = [] then Some (fl, True) else is_descendant_of_loop g fl commit with_commit)"

text \<open>The three passes of \<open>reduce_heads\<close> that drop duplicate heads, with \<open>STALE\<close> as a scratch mark.\<close>

definition uniquify_heads :: "'c flags \<Rightarrow> 'c list \<Rightarrow> 'c flags \<times> nat \<times> 'c list" where
  "uniquify_heads fl heads =
     (let fl1 = foldl (\<lambda>fl c. fl(c := fl c AND NOT STALE)) fl heads;
          (fl2, num_head) = foldl (\<lambda>(fl, n) c. if fl c AND STALE \<noteq> 0 then (fl, n)
                                     else (fl(c := fl c OR STALE), n + 1)) (fl1, 0) heads;
          (fl3, array) = foldl (\<lambda>(fl, a) c. if fl c AND STALE \<noteq> 0
                                     then (fl(c := fl c AND NOT STALE), a @ [c]) else (fl, a)) (fl2, []) heads
      in (fl3, num_head, array))"

definition reduce_heads :: "'c repo \<Rightarrow> 'c flags \<Rightarrow> 'c list \<Rightarrow> ('c flags \<times> 'c list) option" where
  "reduce_heads g fl heads =
     (if heads = [] then Some (fl, [])
      else case uniquify_heads fl heads of
        (fl1, num_head, array) \<Rightarrow> do {
          (fl2, array, num_head) \<leftarrow> remove_redundant g fl1 array;
          Some (fl2, take num_head array)
        })"

end
