(* ===== verification/Git_Paint.thy ===== *)
theory Git_Paint
  imports Git_Merge_Base
begin

text \<open>
  Correctness of \<open>paint_down_to_common\<close>: its loop ends on every finite history, what it paints is
  reachable from the sides it stands for, and what it leaves unpainted lies below a stale commit.
\<close>

subsection \<open>The history as a graph\<close>

definition edges :: "'c repo \<Rightarrow> ('c \<times> 'c) set" where
  "edges g = {(c, p). p \<in> set (parents g c)}"

definition reaches :: "'c repo \<Rightarrow> 'c \<Rightarrow> 'c \<Rightarrow> bool" where
  "reaches g c d \<longleftrightarrow> (c, d) \<in> (edges g)\<^sup>*"

definition strictly_above :: "'c repo \<Rightarrow> 'c \<Rightarrow> 'c \<Rightarrow> bool" where
  "strictly_above g c d \<longleftrightarrow> (c, d) \<in> (edges g)\<^sup>+"

definition history :: "'c repo \<Rightarrow> 'c set \<Rightarrow> 'c set" where
  "history g T = {d. \<exists>t\<in>T. reaches g t d}"

text \<open>A commit that is reachable from \<open>one\<close> and from a member of \<open>twos\<close>.\<close>

definition common_ancestor :: "'c repo \<Rightarrow> 'c \<Rightarrow> 'c list \<Rightarrow> 'c \<Rightarrow> bool" where
  "common_ancestor g one twos c \<longleftrightarrow> reaches g one c \<and> (\<exists>t\<in>set twos. reaches g t c)"

lemma reaches_refl [simp]: "reaches g c c"
  by (simp add: reaches_def)

lemma reaches_trans: "reaches g c d \<Longrightarrow> reaches g d e \<Longrightarrow> reaches g c e"
  unfolding reaches_def by (rule rtrancl_trans)

lemma reaches_parent: "reaches g c d \<Longrightarrow> p \<in> set (parents g d) \<Longrightarrow> reaches g c p"
  unfolding reaches_def edges_def by (erule rtrancl.rtrancl_into_rtrancl) simp

lemma above_reaches: "strictly_above g c d \<Longrightarrow> reaches g c d"
  unfolding strictly_above_def reaches_def by (rule trancl_into_rtrancl)

lemma above_parent: "reaches g c d \<Longrightarrow> p \<in> set (parents g d) \<Longrightarrow> strictly_above g c p"
  unfolding strictly_above_def reaches_def edges_def by (rule rtrancl_into_trancl1) simp_all

lemma above_parent': "strictly_above g c d \<Longrightarrow> p \<in> set (parents g d) \<Longrightarrow> strictly_above g c p"
  by (blast dest: above_reaches intro: above_parent)

lemma reaches_above: "reaches g c d \<Longrightarrow> strictly_above g d e \<Longrightarrow> strictly_above g c e"
  unfolding strictly_above_def reaches_def by (rule rtrancl_trancl_trancl)

lemma above_reaches_trans: "strictly_above g c d \<Longrightarrow> reaches g d e \<Longrightarrow> strictly_above g c e"
  unfolding strictly_above_def reaches_def by (rule trancl_rtrancl_trancl)

lemma reaches_cases: "reaches g c d \<longleftrightarrow> c = d \<or> strictly_above g c d"
  unfolding strictly_above_def reaches_def by (auto simp: rtrancl_eq_or_trancl)

lemma reaches_induct [consumes 1, case_names base step]:
  assumes "reaches g c d" and "P c"
    and "\<And>d p. reaches g c d \<Longrightarrow> p \<in> set (parents g d) \<Longrightarrow> P d \<Longrightarrow> P p"
  shows "P d"
  using assms(1) unfolding reaches_def
proof (induction rule: rtrancl_induct)
  case base
  then show ?case by (rule assms(2))
next
  case (step d p)
  then show ?case
    using assms(3) [of d p] by (simp add: reaches_def edges_def)
qed

lemma history_parent: "c \<in> history g T \<Longrightarrow> p \<in> set (parents g c) \<Longrightarrow> p \<in> history g T"
  unfolding history_def by (blast intro: reaches_parent)

lemma history_start: "T \<subseteq> history g T"
  unfolding history_def by (blast intro: reaches_refl)

lemma top_exists:
  assumes "finite A" and acyclic: "\<forall>c. \<not> strictly_above g c c" and "c \<in> A"
  shows "\<exists>b\<in>A. reaches g b c \<and> (\<forall>d\<in>A. \<not> strictly_above g d b)"
  using assms(3)
proof (induction "card {d \<in> A. strictly_above g d c}" arbitrary: c rule: less_induct)
  case less
  show ?case
  proof (cases "\<exists>d\<in>A. strictly_above g d c")
    case True
    then obtain d where d: "d \<in> A" "strictly_above g d c"
      by blast
    have "{e \<in> A. strictly_above g e d} \<subset> {e \<in> A. strictly_above g e c}"
    proof
      show "{e \<in> A. strictly_above g e d} \<subseteq> {e \<in> A. strictly_above g e c}"
        using reaches_above [OF above_reaches d(2)] by auto
      show "{e \<in> A. strictly_above g e d} \<noteq> {e \<in> A. strictly_above g e c}"
        using d acyclic by auto
    qed
    then have "card {e \<in> A. strictly_above g e d} < card {e \<in> A. strictly_above g e c}"
      using assms(1) by (intro psubset_card_mono) auto
    then obtain b where "b \<in> A" "reaches g b d" "\<forall>e\<in>A. \<not> strictly_above g e b"
      using less.hyps d(1) by blast
    then show ?thesis
      using reaches_trans [OF _ above_reaches [OF d(2)], of b] by blast
  next
    case False
    then show ?thesis
      using less.prems reaches_refl [of g c] by blast
  qed
qed

lemma example_acyclic: "\<forall>c. \<not> strictly_above example_repo c c"
proof -
  have "d < c" if "(c, d) \<in> (edges example_repo)\<^sup>+" for c d
    using that by (induction rule: trancl_induct) (auto simp: edges_def example_repo_def split: if_splits)
  then show ?thesis
    by (auto simp: strictly_above_def)
qed

subsection \<open>Flag words\<close>

lemma and_eq_bits: "(w :: u32) AND m = v \<longleftrightarrow> (\<forall>n. bit w n \<and> bit m n \<longleftrightarrow> bit v n)"
  using bit_imp_le_length [of w] bit_imp_le_length [of m] bit_imp_le_length [of v]
  by (subst bit_eq_iff) (auto simp: bit_and_iff)

lemma or_eq_bits: "(w :: u32) OR m = v \<longleftrightarrow> (\<forall>n. bit w n \<or> bit m n \<longleftrightarrow> bit v n)"
  using bit_imp_le_length [of w] bit_imp_le_length [of m] bit_imp_le_length [of v]
  by (subst bit_eq_iff) (auto simp: bit_or_iff)

lemma and_bit_0: "(w AND STALE = 0) \<longleftrightarrow> \<not> bit w 18" "(w AND PARENT1 = 0) \<longleftrightarrow> \<not> bit w 16"
  "(w AND PARENT2 = 0) \<longleftrightarrow> \<not> bit w 17" "(w AND RESULT = 0) \<longleftrightarrow> \<not> bit w 19"
  unfolding and_eq_bits by auto

lemma paint_both: "w AND (PARENT1 OR PARENT2 OR STALE) = PARENT1 OR PARENT2 \<longleftrightarrow>
    bit w 16 \<and> bit w 17 \<and> \<not> bit w 18"
  unfolding and_eq_bits bit_or_iff bit_flags
  by (auto dest: spec [of _ 16] spec [of _ 17] spec [of _ 18])

lemma bit_paint_carry: "bit (paint_carry w) n \<longleftrightarrow>
    n = 16 \<and> bit w 16 \<or> n = 17 \<and> bit w 17 \<or> n = 18 \<and> (bit w 18 \<or> bit w 16 \<and> bit w 17)"
  unfolding paint_carry_def Let_def paint_both by (auto simp: bit_and_iff bit_or_iff)

lemma and_eq_or: "(x :: u32) AND f = f \<longleftrightarrow> x OR f = x"
  unfolding and_eq_bits or_eq_bits by blast

lemma all_flags_0: "w AND all_flags = 0 \<longleftrightarrow> \<not> bit w 16 \<and> \<not> bit w 17 \<and> \<not> bit w 18 \<and> \<not> bit w 19"
  unfolding and_eq_bits bit_all_flags by auto

definition painted :: "'c flags \<Rightarrow> 'c set" where
  "painted fl = marked all_flags fl"

lemma painted_iff: "c \<in> painted fl \<longleftrightarrow> bit (fl c) 16 \<or> bit (fl c) 17 \<or> bit (fl c) 18 \<or> bit (fl c) 19"
  using all_flags_0 [of "fl c"] by (auto simp: painted_def marked_def and.commute)

text \<open>How much paint is missing on a set of commits; the loop measure.\<close>

definition missing :: "'c set \<Rightarrow> 'c flags \<Rightarrow> nat" where
  "missing R fl = (\<Sum>c\<in>R. card {b \<in> {16, 17, 18}. \<not> bit (fl c) b})"

lemma missing_less:
  assumes "finite R" and "p \<in> R" and f: "\<forall>n. bit f n \<longrightarrow> n \<in> {16, 17, 18}" and "fl p AND f \<noteq> f"
  shows "Suc (missing R (fl(p := fl p OR f))) \<le> missing R fl"
proof -
  obtain b where b: "bit f b" "\<not> bit (fl p) b"
    using assms(4) unfolding and_eq_bits by blast
  have "{b \<in> {16, 17, 18}. \<not> bit (fl p OR f) b} \<subset> {b \<in> {16, 17, 18}. \<not> bit (fl p) b}"
    using b f by (auto simp: bit_or_iff)
  then have "card {b \<in> {16, 17, 18}. \<not> bit (fl p OR f) b} < card {b \<in> {16, 17, 18}. \<not> bit (fl p) b}"
    by (intro psubset_card_mono) auto
  then have "missing R (fl(p := fl p OR f)) < missing R fl"
    unfolding missing_def using assms(1,2) by (intro sum_strict_mono_ex1) (auto simp: bit_or_iff intro!: card_mono)
  then show ?thesis
    by simp
qed

lemma missing_or: "missing R (fl(c := fl c OR RESULT)) = missing R fl"
  unfolding missing_def by (intro sum.cong) (auto simp: bit_or_iff intro!: arg_cong [of _ _ card])

subsection \<open>Painting the parents of a commit\<close>

lemma paint_parents_ok:
  assumes "finite R" and "\<forall>n. bit f n \<longrightarrow> n \<in> {16, 17, 18}" and "\<forall>p\<in>set ps. parse_ok g p" and "set ps \<subseteq> R"
  shows "\<exists>q'. paint_parents g f ps fl q = Inr (\<lambda>x. if x \<in> set ps then fl x OR f else fl x, q') \<and>
    (\<forall>x. x \<in># pq_items q' \<longleftrightarrow> x \<in># pq_items q \<or> x \<in> set ps \<and> fl x OR f \<noteq> fl x) \<and>
    size (pq_items q') + missing R (\<lambda>x. if x \<in> set ps then fl x OR f else fl x) \<le>
      size (pq_items q) + missing R fl"
  using assms(3,4)
proof (induction ps arbitrary: fl q)
  case Nil
  then show ?case by simp
next
  case (Cons p ps)
  show ?case
  proof (cases "fl p AND f = f")
    case True
    then have "fl p OR f = fl p"
      by (simp add: and_eq_or)
    then have "(\<lambda>x. if x \<in> set (p # ps) then fl x OR f else fl x) = (\<lambda>x. if x \<in> set ps then fl x OR f else fl x)"
      "x \<in> set (p # ps) \<and> fl x OR f \<noteq> fl x \<longleftrightarrow> x \<in> set ps \<and> fl x OR f \<noteq> fl x" for x
      by auto
    moreover have "paint_parents g f (p # ps) fl q = paint_parents g f ps fl q"
      using True by simp
    ultimately show ?thesis
      using Cons.IH [of fl q] Cons.prems by (simp only:) simp
  next
    case False
    define fl1 where "fl1 = fl(p := fl p OR f)"
    have eq: "(\<lambda>x. if x \<in> set ps then fl1 x OR f else fl1 x) = (\<lambda>x. if x \<in> set (p # ps) then fl x OR f else fl x)"
      by (auto simp: fl1_def or.assoc)
    have "Suc (missing R fl1) \<le> missing R fl"
      unfolding fl1_def using assms(1,2) Cons.prems False by (intro missing_less) auto
    moreover obtain q' where "paint_parents g f ps fl1 (prio_queue_put q p) =
        Inr (\<lambda>x. if x \<in> set ps then fl1 x OR f else fl1 x, q')"
      "\<forall>x. x \<in># pq_items q' \<longleftrightarrow> x \<in># pq_items (prio_queue_put q p) \<or> x \<in> set ps \<and> fl1 x OR f \<noteq> fl1 x"
      "size (pq_items q') + missing R (\<lambda>x. if x \<in> set ps then fl1 x OR f else fl1 x) \<le>
        size (pq_items (prio_queue_put q p)) + missing R fl1"
      using Cons.IH [of fl1 "prio_queue_put q p"] Cons.prems by auto
    moreover have "fl p OR f \<noteq> fl p"
      using False by (simp add: and_eq_or)
    ultimately show ?thesis
      using False Cons.prems unfolding eq
      by (intro exI [of _ q']) (auto simp: pq.items_put fl1_def or.assoc)
  qed
qed

subsection \<open>The loop invariant\<close>

text \<open>
  What is painted is sound, a commit that has left the queue has passed its paint on to its parents,
  and the result holds the common ancestors found so far.
\<close>

definition paint_sound :: "'c repo \<Rightarrow> 'c \<Rightarrow> 'c list \<Rightarrow> 'c flags \<Rightarrow> bool" where
  "paint_sound g one twos fl \<longleftrightarrow>
     (\<forall>c. bit (fl c) 16 \<longrightarrow> reaches g one c) \<and>
     (\<forall>c. bit (fl c) 17 \<longrightarrow> (\<exists>t\<in>set twos. reaches g t c)) \<and>
     (\<forall>c. bit (fl c) 18 \<longrightarrow> bit (fl c) 16 \<and> bit (fl c) 17 \<and>
        (\<exists>d. common_ancestor g one twos d \<and> strictly_above g d c)) \<and>
     (\<forall>c. bit (fl c) 19 \<longrightarrow> bit (fl c) 16 \<and> bit (fl c) 17)"

definition paint_closed :: "'c repo \<Rightarrow> 'c flags \<Rightarrow> 'c set \<Rightarrow> bool" where
  "paint_closed g fl Q \<longleftrightarrow>
     (\<forall>c. c \<notin> Q \<longrightarrow> (\<forall>p\<in>set (parents g c). \<forall>n. bit (paint_carry (fl c)) n \<longrightarrow> bit (fl p) n))"

definition paint_found :: "'c repo \<Rightarrow> 'c flags \<Rightarrow> 'c set \<Rightarrow> 'c list \<Rightarrow> bool" where
  "paint_found g fl Q result \<longleftrightarrow>
     set result = {c. bit (fl c) 19} \<and> distinct result \<and> by_date g result \<and>
     (\<forall>c. c \<notin> Q \<and> bit (fl c) 16 \<and> bit (fl c) 17 \<longrightarrow> bit (fl c) 18 \<or> bit (fl c) 19)"

definition paint_frame :: "'c repo \<Rightarrow> 'c \<Rightarrow> 'c list \<Rightarrow> 'c flags \<Rightarrow> 'c flags \<Rightarrow> bool" where
  "paint_frame g one twos fl0 fl \<longleftrightarrow>
     (\<forall>c. fl c AND NOT all_flags = fl0 c AND NOT all_flags) \<and>
     bit (fl one) 16 \<and> (\<forall>t\<in>set twos. bit (fl t) 17) \<and>
     painted fl \<subseteq> marked_reach g (painted fl) (insert one (set twos))"

definition paint_inv :: "'c repo \<Rightarrow> 'c \<Rightarrow> 'c list \<Rightarrow> 'c flags \<Rightarrow> 'c flags \<Rightarrow> 'c set \<Rightarrow> 'c list \<Rightarrow> bool" where
  "paint_inv g one twos fl0 fl Q result \<longleftrightarrow>
     paint_sound g one twos fl \<and> paint_closed g fl Q \<and> paint_found g fl Q result \<and>
     paint_frame g one twos fl0 fl \<and> Q \<subseteq> painted fl"

definition paint_step :: "'c repo \<Rightarrow> 'c \<Rightarrow> 'c flags \<Rightarrow> 'c flags" where
  "paint_step g c fl1 = (\<lambda>x. if x \<in> set (parents g c) then fl1 x OR paint_carry (fl1 c) else fl1 x)"

lemma bit_paint_step:
  "bit (paint_step g c fl x) n \<longleftrightarrow> bit (fl x) n \<or> x \<in> set (parents g c) \<and> bit (paint_carry (fl c)) n"
  by (auto simp: paint_step_def bit_or_iff)

lemma paint_step_changed:
  "paint_step g c fl x \<noteq> fl x \<longleftrightarrow> x \<in> set (parents g c) \<and> fl x OR paint_carry (fl c) \<noteq> fl x"
  by (simp add: paint_step_def)

lemma paint_sound_step:
  assumes "paint_sound g one twos fl"
  shows "paint_sound g one twos (paint_step g c fl)"
proof -
  have s: "bit (fl d) 16 \<Longrightarrow> reaches g one d" "bit (fl d) 17 \<Longrightarrow> \<exists>t\<in>set twos. reaches g t d"
    "bit (fl d) 18 \<Longrightarrow> bit (fl d) 16 \<and> bit (fl d) 17 \<and> (\<exists>e. common_ancestor g one twos e \<and> strictly_above g e d)"
    "bit (fl d) 19 \<Longrightarrow> bit (fl d) 16 \<and> bit (fl d) 17" for d
    using assms unfolding paint_sound_def by auto
  have "common_ancestor g one twos c" if "bit (fl c) 16" "bit (fl c) 17"
    using s that by (auto simp: common_ancestor_def)
  then have above: "\<exists>e. common_ancestor g one twos e \<and> strictly_above g e p"
    if "bit (fl c) 18 \<or> bit (fl c) 16 \<and> bit (fl c) 17" "p \<in> set (parents g c)" for p
    using s(3) [of c] that above_parent [OF reaches_refl, of p g c] above_parent' [of g _ c p] by blast
  show ?thesis
    unfolding paint_sound_def
  proof (intro conjI allI impI)
    fix x
    assume "bit (paint_step g c fl x) 16"
    then show "reaches g one x"
      using s(1) reaches_parent [of g one c x] by (auto simp: bit_paint_step bit_paint_carry)
  next
    fix x
    assume "bit (paint_step g c fl x) 17"
    then show "\<exists>t\<in>set twos. reaches g t x"
      using s(2) reaches_parent [of g _ c x] by (auto simp: bit_paint_step bit_paint_carry)
  next
    fix x
    assume "bit (paint_step g c fl x) 18"
    then have "bit (fl x) 18 \<or> x \<in> set (parents g c) \<and> (bit (fl c) 18 \<or> bit (fl c) 16 \<and> bit (fl c) 17)"
      by (auto simp: bit_paint_step bit_paint_carry)
    then show "bit (paint_step g c fl x) 16" "bit (paint_step g c fl x) 17"
      "\<exists>d. common_ancestor g one twos d \<and> strictly_above g d x"
      using s(3) [of x] s(3) [of c] above by (auto simp: bit_paint_step bit_paint_carry)
  next
    fix x
    assume "bit (paint_step g c fl x) 19"
    then have "bit (fl x) 19"
      by (auto simp: bit_paint_step bit_paint_carry)
    then show "bit (paint_step g c fl x) 16" "bit (paint_step g c fl x) 17"
      using s(4) by (auto simp: bit_paint_step)
  qed
qed

lemma paint_carry_mono:
  assumes "\<And>n. bit w n \<Longrightarrow> bit w' n" and "bit (paint_carry w) n"
  shows "bit (paint_carry w') n"
  using assms by (auto simp: bit_paint_carry)

text \<open>The commits whose paint changes are back in the queue.\<close>

lemma paint_closed_step:
  assumes "paint_closed g fl (insert c Q)"
    and Q': "\<And>x. x \<in> Q' \<longleftrightarrow> x \<in> Q \<or> paint_step g c fl x \<noteq> fl x"
  shows "paint_closed g (paint_step g c fl) Q'"
  unfolding paint_closed_def
proof (intro allI impI ballI)
  fix d p n
  assume d: "d \<notin> Q'" "p \<in> set (parents g d)" and n: "bit (paint_carry (paint_step g c fl d)) n"
  have same: "paint_step g c fl d = fl d" and "d \<notin> Q"
    using d Q' by auto
  show "bit (paint_step g c fl p) n"
  proof (cases "d = c")
    case True
    then show ?thesis
      using d(2) n same by (simp add: bit_paint_step)
  next
    case False
    then have "bit (fl p) n"
      using assms(1) \<open>d \<notin> Q\<close> d(2) n same by (auto simp: paint_closed_def)
    then show ?thesis
      by (simp add: bit_paint_step)
  qed
qed

lemma painted_step: "painted fl \<subseteq> painted (paint_step g c fl)"
  by (auto simp: painted_iff bit_paint_step)

lemma marked_reach_mono:
  assumes "M \<subseteq> M'"
  shows "marked_reach g M T \<subseteq> marked_reach g M' T"
proof -
  have "marked_edges g M \<subseteq> marked_edges g M'"
    using assms by (auto simp: marked_edges_def)
  then have "(marked_edges g M)\<^sup>* \<subseteq> (marked_edges g M')\<^sup>*"
    by (rule rtrancl_mono)
  then show ?thesis
    unfolding marked_reach_def using assms by blast
qed

lemma paint_frame_step:
  assumes "paint_frame g one twos fl0 fl" and c: "c \<in> painted fl"
  shows "paint_frame g one twos fl0 (paint_step g c fl)"
proof -
  have old: "painted fl \<subseteq> marked_reach g (painted (paint_step g c fl)) (insert one (set twos))"
  proof (rule order_trans)
    show "painted fl \<subseteq> marked_reach g (painted fl) (insert one (set twos))"
      using assms(1) by (simp add: paint_frame_def)
  qed (rule marked_reach_mono [OF painted_step])
  have "x \<in> marked_reach g (painted (paint_step g c fl)) (insert one (set twos))"
    if x: "x \<in> painted (paint_step g c fl)" for x
  proof (cases "x \<in> painted fl")
    case False
    then have "x \<in> set (parents g c)"
      using x by (auto simp: painted_iff bit_paint_step)
    then show ?thesis
      by (rule marked_reach_step [OF subsetD [OF old c] _ x])
  next
    case True
    then show ?thesis
      by (rule subsetD [OF old])
  qed
  moreover have "paint_step g c fl x AND NOT all_flags = fl x AND NOT all_flags" for x
    unfolding and_eq_bits by (auto simp: bit_paint_step bit_paint_carry bit_and_iff bit_not_iff)
  ultimately show ?thesis
    using assms(1) by (auto simp: paint_frame_def bit_paint_step)
qed

text \<open>Taking \<open>c\<close> out of the queue and recording it.\<close>

lemma paint_result_inv:
  assumes inv: "paint_inv g one twos fl0 fl (insert c Q) result"
    and res: "paint_result g c fl result = (fl1, result1)"
  shows "paint_sound g one twos fl1 \<and> paint_closed g fl1 (insert c Q) \<and> paint_found g fl1 Q result1 \<and>
    paint_frame g one twos fl0 fl1 \<and> insert c Q \<subseteq> painted fl1 \<and> paint_carry (fl1 c) = paint_carry (fl c)"
proof (cases "bit (fl c) 16 \<and> bit (fl c) 17 \<and> \<not> bit (fl c) 18 \<and> \<not> bit (fl c) 19")
  case True
  then have "paint_result g c fl result = (fl(c := fl c OR RESULT), commit_list_insert_by_date g c result)"
    unfolding paint_result_def paint_both and_bit_0 by (intro if_P) blast
  then have r: "fl1 = fl(c := fl c OR RESULT)" "result1 = commit_list_insert_by_date g c result"
    unfolding res by (blast dest: Pair_inject)+
  have b: "bit (fl1 x) n \<longleftrightarrow> bit (fl x) n \<or> x = c \<and> n = 19" for x n
    by (auto simp: r bit_or_iff)
  have carry: "paint_carry (fl1 x) = paint_carry (fl x)" for x
    by (rule bit_word_eqI) (simp add: bit_paint_carry b)
  have "painted fl1 = painted fl"
    using True by (auto simp: painted_iff b)
  moreover have "paint_sound g one twos fl1"
    using inv True by (auto simp: paint_inv_def paint_sound_def b)
  moreover have "paint_closed g fl1 (insert c Q)"
    using inv by (auto simp: paint_inv_def paint_closed_def b carry)
  moreover have "paint_found g fl1 Q result1"
    using inv True insert_by_date_sorted [of g result c]
    by (auto simp: paint_inv_def paint_found_def b r(2))
  moreover have "fl1 x AND NOT all_flags = fl x AND NOT all_flags" for x
    unfolding and_eq_bits by (auto simp: b bit_and_iff bit_not_iff)
  ultimately show ?thesis
    using inv carry by (auto simp: paint_inv_def paint_frame_def b)
next
  case False
  then have "paint_result g c fl result = (fl, result)"
    unfolding paint_result_def paint_both and_bit_0 by (intro if_not_P) blast
  then have r: "fl1 = fl" "result1 = result"
    unfolding res by (blast dest: Pair_inject)+
  have "paint_found g fl Q result"
    using inv False by (auto simp: paint_inv_def paint_found_def)
  then show ?thesis
    using inv by (auto simp: paint_inv_def r)
qed

lemma paint_loop_ok:
  assumes R: "finite R" "R = history g (insert one (set twos))" and ok: "\<forall>c\<in>R. parse_ok g c"
    and inv: "paint_inv g one twos fl0 fl (set_mset (pq_items q)) result"
  shows "\<exists>fl' result' Q. paint_loop g fl q result = Some (fl', result') \<and>
    paint_inv g one twos fl0 fl' Q result' \<and> (\<forall>c\<in>Q. bit (fl' c) 18)"
  using inv
proof (induction "size (pq_items q) + missing R fl" arbitrary: fl q result rule: less_induct)
  case less
  show ?case
  proof (cases "queue_has_nonstale fl q")
    case False
    then have "\<forall>c\<in>set_mset (pq_items q). bit (fl c) 18"
      by (auto simp: queue_has_nonstale_def pq_items_def and_bit_0 list_ex_iff)
    moreover have "paint_loop g fl q result = Some (fl, result)"
      by (subst paint_loop.simps) (rule if_not_P [OF False])
    ultimately show ?thesis
      using less.prems by blast
  next
    case True
    then have "pq_items q \<noteq> {#}"
      by (auto simp: queue_has_nonstale_def pq_items_def list_ex_iff)
    then obtain c q1 where get: "prio_queue_get q = Some (c, q1)" and items: "pq_items q = add_mset c (pq_items q1)"
      using pq.get_nonempty by blast
    obtain fl1 result1 where res: "paint_result g c fl result = (fl1, result1)"
      by fastforce
    have inv1: "paint_sound g one twos fl1" "paint_closed g fl1 (insert c (set_mset (pq_items q1)))"
      "paint_found g fl1 (set_mset (pq_items q1)) result1" "paint_frame g one twos fl0 fl1"
      "insert c (set_mset (pq_items q1)) \<subseteq> painted fl1" "paint_carry (fl1 c) = paint_carry (fl c)"
      using paint_result_inv [OF _ res] less.prems unfolding items set_mset_add_mset_insert by blast+
    have "c \<in> painted fl1"
      using inv1(5) by simp
    then have "reaches g one c \<or> (\<exists>t\<in>set twos. reaches g t c)"
      using inv1(1) unfolding painted_iff paint_sound_def by blast
    then have "c \<in> R"
      using R(2) by (auto simp: history_def)
    then have sub: "set (parents g c) \<subseteq> R"
      unfolding R(2) by (blast intro: history_parent)
    have par_ok: "\<forall>p\<in>set (parents g c). parse_ok g p"
      using sub ok by blast
    have bits: "\<forall>n. bit (paint_carry (fl1 c)) n \<longrightarrow> n \<in> {16, 17, 18}"
      by (auto simp: bit_paint_carry)
    obtain q2 where step: "paint_parents g (paint_carry (fl1 c)) (parents g c) fl1 q1 = Inr (paint_step g c fl1, q2)"
      and items2: "\<And>x. x \<in># pq_items q2 \<longleftrightarrow> x \<in># pq_items q1 \<or> paint_step g c fl1 x \<noteq> fl1 x"
      and size2: "size (pq_items q2) + missing R (paint_step g c fl1) \<le> size (pq_items q1) + missing R fl1"
      using paint_parents_ok [OF R(1) bits par_ok sub, of fl1 q1]
      unfolding paint_step_def [symmetric] paint_step_changed [symmetric] by blast
    have "missing R fl1 = missing R fl"
      using res missing_or [of R fl c] by (auto simp: paint_result_def split: if_splits)
    then have less_size: "size (pq_items q2) + missing R (paint_step g c fl1) < size (pq_items q) + missing R fl"
      using size2 items by simp
    have closed: "paint_closed g (paint_step g c fl1) (set_mset (pq_items q2))"
      using inv1(2) by (rule paint_closed_step) (use items2 in simp)
    have found: "paint_found g (paint_step g c fl1) (set_mset (pq_items q2)) result1"
    proof -
      have b19: "bit (paint_step g c fl1 x) 19 \<longleftrightarrow> bit (fl1 x) 19" for x
        by (auto simp: bit_paint_step bit_paint_carry)
      have "bit (paint_step g c fl1 x) 18 \<or> bit (paint_step g c fl1 x) 19"
        if x: "x \<notin># pq_items q2" "bit (paint_step g c fl1 x) 16" "bit (paint_step g c fl1 x) 17" for x
      proof -
        have "paint_step g c fl1 x = fl1 x" "x \<notin># pq_items q1"
          using x(1) items2 by auto
        then show ?thesis
          using x(2,3) inv1(3) by (simp add: paint_found_def)
      qed
      then show ?thesis
        using inv1(3) b19 by (simp add: paint_found_def)
    qed
    have "set_mset (pq_items q2) \<subseteq> painted (paint_step g c fl1)"
    proof
      fix x
      assume "x \<in># pq_items q2"
      then consider "x \<in># pq_items q1" | "paint_step g c fl1 x \<noteq> fl1 x"
        using items2 by blast
      then show "x \<in> painted (paint_step g c fl1)"
      proof cases
        case 1
        then have "x \<in> painted fl1"
          using inv1(5) by blast
        then show ?thesis
          by (rule subsetD [OF painted_step])
      next
        case 2
        then obtain n where "bit (paint_carry (fl1 c)) n" "x \<in> set (parents g c)"
          unfolding paint_step_def by (metis and_eq_or and_eq_bits)
        then show ?thesis
          using bits by (auto simp: painted_iff bit_paint_step)
      qed
    qed
    then have "paint_inv g one twos fl0 (paint_step g c fl1) (set_mset (pq_items q2)) result1"
      using paint_sound_step [OF inv1(1)] closed found paint_frame_step [OF inv1(4) \<open>c \<in> painted fl1\<close>]
      unfolding paint_inv_def by blast
    moreover have "paint_loop g fl q result = paint_loop g (paint_step g c fl1) q2 result1"
      using True get res step inv1(6) by (subst paint_loop.simps) (simp add: Let_def)
    ultimately show ?thesis
      using less.hyps [OF less_size] by simp
  qed
qed

subsection \<open>What painting finds\<close>

definition clean :: "'c flags \<Rightarrow> bool" where
  "clean fl \<longleftrightarrow> (\<forall>c. fl c AND all_flags = 0)"

text \<open>A commit on the one side is painted, or lies strictly below a common ancestor; so on the other side.\<close>

lemma paint_complete:
  assumes inv: "paint_inv g one twos fl0 fl Q result" and stale: "\<forall>c\<in>Q. bit (fl c) 18"
    and start: "bit (fl s) n" "n = 16 \<or> n = 17" and "reaches g s c"
  shows "bit (fl c) n \<or> (\<exists>d. common_ancestor g one twos d \<and> strictly_above g d c)"
  using assms(5)
proof (induction rule: reaches_induct)
  case base
  then show ?case
    using start(1) by simp
next
  case (step c p)
  have sound: "bit (fl c) 18 \<Longrightarrow> \<exists>d. common_ancestor g one twos d \<and> strictly_above g d c"
    using inv by (simp add: paint_inv_def paint_sound_def)
  from step.IH show ?case
  proof
    assume bit: "bit (fl c) n"
    show ?thesis
    proof (cases "c \<in> Q")
      case True
      then obtain d where "common_ancestor g one twos d" "strictly_above g d c"
        using stale sound by blast
      then show ?thesis
        using above_parent' [of g d c p, OF _ step.hyps(2)] by blast
    next
      case False
      moreover have "bit (paint_carry (fl c)) n"
        using bit start(2) by (auto simp: bit_paint_carry)
      ultimately have "bit (fl p) n"
        using inv step.hyps(2) unfolding paint_inv_def paint_closed_def by blast
      then show ?thesis
        by blast
    qed
  next
    assume "\<exists>d. common_ancestor g one twos d \<and> strictly_above g d c"
    then obtain d where "common_ancestor g one twos d" "strictly_above g d c"
      by blast
    then show ?thesis
      using above_parent' [of g d c p, OF _ step.hyps(2)] by blast
  qed
qed

text \<open>A common ancestor that is not strictly below another one.\<close>

definition best_common_ancestor :: "'c repo \<Rightarrow> 'c \<Rightarrow> 'c list \<Rightarrow> 'c \<Rightarrow> bool" where
  "best_common_ancestor g one twos c \<longleftrightarrow>
     common_ancestor g one twos c \<and> \<not> (\<exists>d. common_ancestor g one twos d \<and> strictly_above g d c)"

definition paint_done :: "'c repo \<Rightarrow> 'c \<Rightarrow> 'c list \<Rightarrow> 'c flags \<Rightarrow> 'c flags \<Rightarrow> 'c list \<Rightarrow> bool" where
  "paint_done g one twos fl0 fl result \<longleftrightarrow>
     paint_sound g one twos fl \<and> paint_frame g one twos fl0 fl \<and>
     (\<forall>c t. t \<in> set twos \<and> reaches g t c \<longrightarrow>
        bit (fl c) 17 \<or> (\<exists>d. common_ancestor g one twos d \<and> strictly_above g d c)) \<and>
     distinct result \<and> by_date g result \<and>
     (\<forall>c. best_common_ancestor g one twos c \<longrightarrow> c \<in> set result \<and> \<not> bit (fl c) 18) \<and>
     (\<forall>c\<in>set result. twos \<noteq> [] \<longrightarrow> common_ancestor g one twos c)"

lemma paint_inv_done:
  assumes inv: "paint_inv g one twos fl0 fl Q result" and stale: "\<forall>c\<in>Q. bit (fl c) 18"
  shows "paint_done g one twos fl0 fl result"
proof -
  have frame: "bit (fl one) 16" "\<forall>t\<in>set twos. bit (fl t) 17"
    using inv by (auto simp: paint_inv_def paint_frame_def)
  have sound: "bit (fl c) 16 \<Longrightarrow> reaches g one c" "bit (fl c) 17 \<Longrightarrow> \<exists>t\<in>set twos. reaches g t c"
    "bit (fl c) 18 \<Longrightarrow> \<exists>d. common_ancestor g one twos d \<and> strictly_above g d c"
    "bit (fl c) 19 \<Longrightarrow> bit (fl c) 16 \<and> bit (fl c) 17" for c
    using inv by (auto simp: paint_inv_def paint_sound_def)
  have found: "set result = {c. bit (fl c) 19}" "distinct result" "by_date g result"
    "c \<notin> Q \<and> bit (fl c) 16 \<and> bit (fl c) 17 \<Longrightarrow> bit (fl c) 18 \<or> bit (fl c) 19" for c
    using inv by (auto simp: paint_inv_def paint_found_def)
  have complete: "bit (fl c) 17 \<or> (\<exists>d. common_ancestor g one twos d \<and> strictly_above g d c)"
    if "t \<in> set twos" "reaches g t c" for c t
    using paint_complete [OF inv stale _ _ that(2), of 17] frame(2) that(1) by auto
  have best: "c \<in> set result \<and> \<not> bit (fl c) 18" if c: "best_common_ancestor g one twos c" for c
  proof -
    have none: "\<not> (\<exists>d. common_ancestor g one twos d \<and> strictly_above g d c)"
      using c by (simp add: best_common_ancestor_def)
    obtain t where t: "t \<in> set twos" "reaches g t c" "reaches g one c"
      using c by (auto simp: best_common_ancestor_def common_ancestor_def)
    have "bit (fl c) 16"
      using paint_complete [OF inv stale frame(1) _ t(3)] none by simp
    moreover have "bit (fl c) 17"
      using complete [OF t(1,2)] none by simp
    moreover have "\<not> bit (fl c) 18"
      using sound(3) none by blast
    ultimately show ?thesis
      using found(1) found(4) [of c] stale by auto
  qed
  have "common_ancestor g one twos c" if "c \<in> set result" for c
    using that found(1) sound by (auto simp: common_ancestor_def)
  then show ?thesis
    using inv complete best found unfolding paint_done_def paint_inv_def by blast
qed

lemma paint_twos:
  "foldl (\<lambda>(fl, q) t. (fl(t := fl t OR PARENT2), prio_queue_put q t)) (fl, q) ts =
     (\<lambda>c. if c \<in> set ts then fl c OR PARENT2 else fl c, foldl prio_queue_put q ts)"
proof (induction ts arbitrary: fl q)
  case (Cons t ts)
  have "(\<lambda>c. if c \<in> set ts then (fl(t := fl t OR PARENT2)) c OR PARENT2 else (fl(t := fl t OR PARENT2)) c) =
      (\<lambda>c. if c \<in> set (t # ts) then fl c OR PARENT2 else fl c)"
    by (auto simp: or.assoc)
  then show ?case
    using Cons.IH [of "fl(t := fl t OR PARENT2)" "prio_queue_put q t"] by simp
qed simp

lemma marked_reach_start: "T \<subseteq> M \<Longrightarrow> M \<subseteq> T \<Longrightarrow> M \<subseteq> marked_reach g M T"
  by (auto simp: marked_reach_def)

lemma paint_down_ok:
  assumes R: "finite (history g (insert one (set twos)))"
    and ok: "\<forall>c\<in>history g (insert one (set twos)). parse_ok g c" and clean: "clean fl0"
  shows "\<exists>fl result. paint_down_to_common g fl0 one twos = Some (fl, result) \<and>
    paint_done g one twos fl0 fl result"
proof -
  have c0: "\<not> bit (fl0 c) 16" "\<not> bit (fl0 c) 17" "\<not> bit (fl0 c) 18" "\<not> bit (fl0 c) 19" for c
    using clean all_flags_0 by (auto simp: clean_def)
  define fl1 where "fl1 = fl0(one := fl0 one OR PARENT1)"
  define fl2 where "fl2 = (\<lambda>c. if c \<in> set twos then fl1 c OR PARENT2 else fl1 c)"
  have b: "bit (fl2 c) n \<longleftrightarrow> bit (fl0 c) n \<or> c = one \<and> n = 16 \<or> c \<in> set twos \<and> n = 17" for c n
    by (auto simp: fl2_def fl1_def bit_or_iff)
  have painted2: "painted fl2 = insert one (set twos)"
    using c0 by (auto simp: painted_iff b)
  have sound: "paint_sound g one twos fl2"
  proof -
    have "\<exists>t\<in>set twos. reaches g t c" if "c \<in> set twos" for c
      using that reaches_refl [of g c] by blast
    then show ?thesis
      using c0 by (auto simp: paint_sound_def b)
  qed
  have frame: "paint_frame g one twos fl0 fl2"
  proof -
    have "fl2 c AND NOT all_flags = fl0 c AND NOT all_flags" for c
      unfolding and_eq_bits by (auto simp: b bit_and_iff bit_not_iff)
    then show ?thesis
      using marked_reach_start [of "insert one (set twos)" "painted fl2" g] painted2
      by (auto simp: paint_frame_def b)
  qed
  show ?thesis
  proof (cases "twos = []")
    case True
    then have "fl2 = fl1"
      by (simp add: fl2_def)
    moreover have "paint_down_to_common g fl0 one twos = Some (fl1, [one])"
      using True by (simp add: paint_down_to_common_def fl1_def Let_def)
    ultimately show ?thesis
      using sound frame True
      by (auto simp: paint_done_def best_common_ancestor_def common_ancestor_def)
  next
    case False
    define queue where "queue = \<lparr>pq_compare = Some (compare_commits_by_commit_date g), pq_insertion_ctr = 0,
        pq_array = []\<rparr>"
    define q where "q = foldl prio_queue_put (prio_queue_put queue one) twos"
    have "pq_items queue = {#}"
      by (simp add: queue_def pq_items_def)
    then have items: "set_mset (pq_items q) = insert one (set twos)"
      by (simp add: q_def pq.items_puts pq.items_put)
    have run: "paint_down_to_common g fl0 one twos = paint_loop g fl2 q []"
      using False unfolding paint_down_to_common_def Let_def queue_def [symmetric] fl1_def [symmetric]
        paint_twos q_def fl2_def by simp
    have carry: "\<not> bit (paint_carry (fl2 c)) n" if "c \<notin> insert one (set twos)" for c n
      using that c0 by (auto simp: bit_paint_carry b)
    have "paint_inv g one twos fl0 fl2 (set_mset (pq_items q)) []"
      using sound frame painted2 carry c0 unfolding items
      by (auto simp: paint_inv_def paint_closed_def paint_found_def b)
    then obtain fl result Q where fin: "paint_loop g fl2 q [] = Some (fl, result)"
      "paint_inv g one twos fl0 fl Q result" "\<forall>c\<in>Q. bit (fl c) 18"
      using paint_loop_ok [OF R refl ok, of fl0 fl2 q "[]"] by auto
    show ?thesis
      unfolding run using fin(1) paint_inv_done [OF fin(2,3)] by auto
  qed
qed

end
