(* ===== verification/Git_Ancestry.thy ===== *)
theory Git_Ancestry
  imports Git_Paint "HOL-Library.Sublist"
begin

text \<open>
  What the merge-base and ancestry routines return: the best common ancestors, ancestry in the
  history, and flag words that are as they were before.
\<close>

subsection \<open>Clearing what was painted\<close>

lemma marked_reach_compose:
  "marked_reach g M (A \<union> B) =
     marked_reach g M A \<union> marked_reach g (M - marked_reach g M A) B"
proof
  show "marked_reach g M (A \<union> B) \<subseteq> marked_reach g M A \<union> marked_reach g (M - marked_reach g M A) B"
  proof
    fix c
    assume "c \<in> marked_reach g M (A \<union> B)"
    then obtain t where t: "t \<in> (A \<union> B) \<inter> M" "(t, c) \<in> (marked_edges g M)\<^sup>*"
      by (auto simp: marked_reach_def)
    from t(2) show "c \<in> marked_reach g M A \<union> marked_reach g (M - marked_reach g M A) B"
    proof (induction rule: rtrancl_induct)
      case base
      then show ?case
        using t(1) by (auto simp: marked_reach_def)
    next
      case (step c p)
      have edge: "p \<in> set (parents g c)" "p \<in> M"
        using step.hyps(2) by (auto simp: marked_edges_def)
      show ?case
      proof (cases "p \<in> marked_reach g M A")
        case False
        then have "c \<notin> marked_reach g M A"
          using marked_reach_step [OF _ edge] by (rule contrapos_nn)
        then have "c \<in> marked_reach g (M - marked_reach g M A) B"
          using step.IH by blast
        then have "p \<in> marked_reach g (M - marked_reach g M A) B"
          by (rule marked_reach_step [OF _ edge(1)]) (use edge(2) False in simp)
        then show ?thesis
          by blast
      qed blast
    qed
  qed
next
  have "marked_reach g M A \<subseteq> marked_reach g M (A \<union> B)"
    by (auto simp: marked_reach_def)
  moreover have "marked_reach g M B \<subseteq> marked_reach g M (A \<union> B)"
    by (auto simp: marked_reach_def)
  moreover have "marked_reach g (M - marked_reach g M A) B \<subseteq> marked_reach g M B"
    by (rule marked_reach_mono) blast
  ultimately show "marked_reach g M A \<union> marked_reach g (M - marked_reach g M A) B \<subseteq> marked_reach g M (A \<union> B)"
    by blast
qed

definition cleared :: "'c repo \<Rightarrow> 'c flags \<Rightarrow> 'c set \<Rightarrow> 'c flags" where
  "cleared g fl T = (\<lambda>c. if c \<in> marked_reach g (painted fl) T then fl c AND NOT all_flags else fl c)"

lemma painted_cleared: "painted (cleared g fl T) = painted fl - marked_reach g (painted fl) T"
  by (auto simp: painted_def marked_def cleared_def and_not_mask)

lemma cleared_cleared: "cleared g (cleared g fl A) B = cleared g fl (A \<union> B)"
  unfolding cleared_def [of g "cleared g fl A"] painted_cleared
  by (auto simp: cleared_def [of g fl] marked_reach_compose and_not_and_not)

lemma clear_many_cleared:
  "finite (painted fl) \<Longrightarrow> clear_commit_marks_many g fl cs all_flags = Some (cleared g fl (set cs))"
  using clear_commit_marks_many_ok [of all_flags fl g cs] by (simp add: cleared_def painted_def)

lemma clear_one_cleared:
  "finite (painted fl) \<Longrightarrow> clear_commit_marks g fl c all_flags = Some (cleared g fl {c})"
  using clear_many_cleared [of fl g "[c]"] by (simp add: clear_commit_marks_def)

lemma finite_cleared: "finite (painted fl) \<Longrightarrow> finite (painted (cleared g fl T))"
  by (simp add: painted_cleared)

lemma cleared_empty [simp]: "cleared g fl {} = fl"
  by (simp add: cleared_def marked_reach_def)

lemma clear_each_cleared:
  "finite (painted fl) \<Longrightarrow> clear_each g fl cs = Some (cleared g fl (set cs))"
proof (induction cs arbitrary: fl)
  case (Cons c cs)
  then show ?case
    by (simp add: clear_one_cleared finite_cleared cleared_cleared)
qed simp

text \<open>After painting, clearing from both sides restores the flags.\<close>

lemma paint_done_cleared:
  assumes "paint_done g one twos fl0 fl result" and "clean fl0"
  shows "cleared g fl (insert one (set twos)) = fl0"
proof
  fix c
  have frame: "fl c AND NOT all_flags = fl0 c AND NOT all_flags"
    "painted fl \<subseteq> marked_reach g (painted fl) (insert one (set twos))"
    using assms(1) by (auto simp: paint_done_def paint_frame_def)
  have clean0: "w AND NOT all_flags = w" if "w AND all_flags = 0" for w
    using that unfolding and_eq_bits by (auto simp: bit_and_iff bit_not_iff dest: bit_imp_le_length)
  then have fl0: "fl0 c AND NOT all_flags = fl0 c"
    using assms(2) by (simp add: clean_def)
  show "cleared g fl (insert one (set twos)) c = fl0 c"
  proof (cases "c \<in> painted fl")
    case True
    then have "c \<in> marked_reach g (painted fl) (insert one (set twos))"
      by (rule subsetD [OF frame(2)])
    then show ?thesis
      using frame(1) fl0 by (simp add: cleared_def)
  next
    case False
    then have "fl c AND all_flags = 0"
      by (simp add: painted_def marked_def and.commute)
    then have "fl c AND NOT all_flags = fl c"
      by (rule clean0)
    moreover have "c \<notin> marked_reach g (painted fl) (insert one (set twos))"
      using False subsetD [OF marked_reach_sub] by fast
    ultimately show ?thesis
      using frame(1) fl0 by (simp add: cleared_def)
  qed
qed

lemma paint_done_finite:
  assumes "paint_done g one twos fl0 fl result" and "finite (history g (insert one (set twos)))"
  shows "finite (painted fl)"
proof (rule finite_subset [OF _ assms(2)])
  show "painted fl \<subseteq> history g (insert one (set twos))"
  proof
    fix c
    assume "c \<in> painted fl"
    then have "reaches g one c \<or> (\<exists>t\<in>set twos. reaches g t c)"
      using assms(1) unfolding painted_iff paint_done_def paint_sound_def by metis
    then show "c \<in> history g (insert one (set twos))"
      by (auto simp: history_def)
  qed
qed

text \<open>A finite history without cycles.\<close>

definition sane :: "'c repo \<Rightarrow> 'c set \<Rightarrow> bool" where
  "sane g T \<longleftrightarrow> finite (history g T) \<and> (\<forall>c\<in>history g T. parse_ok g c) \<and> (\<forall>c. \<not> strictly_above g c c)"

lemma history_mono: "T \<subseteq> history g S \<Longrightarrow> history g T \<subseteq> history g S"
  unfolding history_def by (blast intro: reaches_trans)

lemma sane_subset:
  assumes "sane g S" and "T \<subseteq> history g S"
  shows "sane g T"
  using assms history_mono [OF assms(2)] unfolding sane_def by (blast intro: finite_subset)

lemma sane_paint:
  assumes "sane g (insert one (set twos))" and "clean fl0"
  shows "\<exists>fl result. paint_down_to_common g fl0 one twos = Some (fl, result) \<and>
    paint_done g one twos fl0 fl result \<and> finite (painted fl) \<and>
    cleared g fl (insert one (set twos)) = fl0"
  using paint_down_ok [OF _ _ assms(2)] paint_done_cleared [OF _ assms(2)] paint_done_finite assms(1)
  unfolding sane_def by metis

subsection \<open>Ancestry\<close>

text \<open>Painting decides whether \<open>one\<close> is reachable from the other side.\<close>

lemma paint_done_ancestor:
  assumes "paint_done g one twos fl0 fl result" and "sane g T"
  shows "fl one AND PARENT2 \<noteq> 0 \<longleftrightarrow> (\<exists>t\<in>set twos. reaches g t one)"
proof -
  have sound: "bit (fl one) 17 \<Longrightarrow> \<exists>t\<in>set twos. reaches g t one"
    using assms(1) by (simp add: paint_done_def paint_sound_def)
  have "\<not> (common_ancestor g one twos d \<and> strictly_above g d one)" for d
    using assms(2) reaches_above [of g one d one] unfolding sane_def common_ancestor_def by blast
  then have "bit (fl one) 17" if "t \<in> set twos" "reaches g t one" for t
    using assms(1) that unfolding paint_done_def by blast
  then show ?thesis
    using sound unfolding and_bit_0 by blast
qed

lemma in_merge_bases_many_ok:
  assumes "sane g (insert c (set refs))" and "clean fl"
  shows "in_merge_bases_many g fl c refs = Some (fl, \<exists>r\<in>set refs. reaches g r c)"
proof -
  obtain fl1 result where paint: "paint_down_to_common g fl c refs = Some (fl1, result)"
    "paint_done g c refs fl fl1 result" "finite (painted fl1)" "cleared g fl1 (insert c (set refs)) = fl"
    using sane_paint [OF assms] by blast
  have ok: "parse_ok g c" "\<forall>r\<in>set refs. parse_ok g r"
    using assms(1) history_start [of "insert c (set refs)" g] unfolding sane_def by blast+
  have "clear_commit_marks g fl1 c all_flags = Some (cleared g fl1 {c})"
    "clear_commit_marks_many g (cleared g fl1 {c}) refs all_flags = Some fl"
    using paint(3,4) by (simp_all add: clear_one_cleared clear_many_cleared finite_cleared cleared_cleared)
  then show ?thesis
    using ok paint(1) paint_done_ancestor [OF paint(2) assms(1)]
    by (auto simp: in_merge_bases_many_def Let_def)
qed

lemma is_descendant_of_loop_ok:
  assumes "sane g (insert c (set ws))" and "clean fl"
  shows "is_descendant_of_loop g fl c ws = Some (fl, \<exists>w\<in>set ws. reaches g c w)"
  using assms(1)
proof (induction ws)
  case (Cons w ws)
  have "sane g (insert w (set [c]))" "sane g (insert c (set ws))"
    using sane_subset [OF Cons.prems] history_start [of "insert c (set (w # ws))" g] by auto
  then show ?case
    using in_merge_bases_many_ok [of g w "[c]" fl] assms(2) Cons.IH
    by (simp add: in_merge_bases_def)
qed simp

subsection \<open>Redundant commits\<close>

text \<open>A member of the array that is reachable from another member.\<close>

definition redundant_in :: "'c repo \<Rightarrow> 'c list \<Rightarrow> nat \<Rightarrow> bool" where
  "redundant_in g array k \<longleftrightarrow> (\<exists>m<length array. m \<noteq> k \<and> reaches g (array ! m) (array ! k))"

definition redundant_inv :: "'c repo \<Rightarrow> 'c list \<Rightarrow> nat set \<Rightarrow> bool list \<Rightarrow> bool" where
  "redundant_inv g array visited red \<longleftrightarrow>
     length red = length array \<and> visited \<subseteq> {..<length array} \<and>
     (\<forall>k<length array. red ! k \<longrightarrow> redundant_in g array k) \<and>
     (\<forall>k\<in>visited. \<not> red ! k \<longrightarrow> \<not> redundant_in g array k)"

lemma foldl_marks:
  assumes "set js \<subseteq> {..<length r}"
  shows "length (foldl (\<lambda>r j. if P j then r[j := True] else r) r js) = length r \<and>
    (\<forall>k<length r. foldl (\<lambda>r j. if P j then r[j := True] else r) r js ! k \<longleftrightarrow> r ! k \<or> k \<in> set js \<and> P k)"
  using assms
proof (induction js arbitrary: r)
  case (Cons j js)
  then show ?case
    using Cons.IH [of "if P j then r[j := True] else r"] by (auto simp: nth_list_update)
qed simp

lemma redundant_witness:
  assumes "distinct array" and acyclic: "\<forall>c. \<not> strictly_above g c c" and inv: "redundant_inv g array V red"
    and i: "i < length array" "redundant_in g array i"
  shows "\<exists>m<length array. m \<noteq> i \<and> \<not> red ! m \<and> reaches g (array ! m) (array ! i)"
proof -
  obtain m where m: "m < length array" "m \<noteq> i" "reaches g (array ! m) (array ! i)"
    using i(2) by (auto simp: redundant_in_def)
  then have "array ! m \<noteq> array ! i"
    using assms(1) i(1) by (simp add: nth_eq_iff_index_eq)
  then have mi: "strictly_above g (array ! m) (array ! i)"
    using m(3) unfolding reaches_cases by blast
  obtain b where b: "b \<in> set array" "reaches g b (array ! m)" "\<forall>d\<in>set array. \<not> strictly_above g d b"
    using top_exists [OF finite_set acyclic, of "array ! m" array] m(1) by auto
  obtain k where k: "k < length array" "array ! k = b"
    using b(1) by (auto simp: in_set_conv_nth)
  have "strictly_above g b (array ! i)"
    using reaches_above [OF b(2) mi] .
  then have "k \<noteq> i" "reaches g (array ! k) (array ! i)"
    using acyclic k(2) above_reaches by auto
  moreover have "\<not> redundant_in g array k"
  proof
    assume "redundant_in g array k"
    then obtain l where l: "l < length array" "l \<noteq> k" "reaches g (array ! l) (array ! k)"
      by (auto simp: redundant_in_def)
    then have "array ! l \<noteq> array ! k"
      using assms(1) k(1) by (simp add: nth_eq_iff_index_eq)
    then have "strictly_above g (array ! l) b"
      using l(3) k(2) unfolding reaches_cases by blast
    then show False
      using b(3) l(1) by auto
  qed
  then have "\<not> red ! k"
    using inv k(1) by (auto simp: redundant_inv_def)
  ultimately show ?thesis
    using k(1) by blast
qed

lemma redundant_turn_ok:
  assumes "distinct array" and sane: "sane g (set array)" and "clean fl"
    and inv: "redundant_inv g array V red" and i: "i < length array"
  shows "\<exists>red'. redundant_turn g array i (fl, red) = Some (fl, red') \<and> redundant_inv g array (insert i V) red'"
proof (cases "red ! i")
  case True
  then show ?thesis
    using inv i by (auto simp: redundant_turn_def redundant_inv_def)
next
  case False
  define filled where "filled = filter (\<lambda>j. i \<noteq> j \<and> \<not> red ! j) [0..<length array]"
  define work where "work = map ((!) array) filled"
  have acyclic: "\<forall>c. \<not> strictly_above g c c"
    using sane by (simp add: sane_def)
  have "insert (array ! i) (set work) \<subseteq> set array"
    using i by (auto simp: work_def filled_def)
  then have sub: "sane g (insert (array ! i) (set work))"
    using sane history_start [of "set array" g] by (blast intro: sane_subset)
  obtain fl1 common where paint: "paint_down_to_common g fl (array ! i) work = Some (fl1, common)"
    "paint_done g (array ! i) work fl fl1 common" "finite (painted fl1)"
    "cleared g fl1 (insert (array ! i) (set work)) = fl"
    using sane_paint [OF sub assms(3)] by blast
  define red1 where "red1 = (if fl1 (array ! i) AND PARENT2 \<noteq> 0 then red[i := True] else red)"
  define red2 where "red2 = foldl (\<lambda>r j. if fl1 (array ! j) AND PARENT1 \<noteq> 0 then r[j := True] else r) red1 filled"
  have clear: "clear_commit_marks g fl1 (array ! i) all_flags = Some (cleared g fl1 {array ! i})"
    "clear_each g (cleared g fl1 {array ! i}) work = Some fl"
    using paint(3,4) by (simp_all add: clear_one_cleared clear_each_cleared finite_cleared cleared_cleared)
  have "redundant_turn g array i (fl, red) = Some (fl, red2)"
    using False paint(1) clear
    unfolding redundant_turn_def Let_def prod.case filled_def [symmetric] work_def [symmetric]
    by (simp add: red2_def red1_def)
  moreover have "redundant_inv g array (insert i V) red2"
  proof -
    have len: "length red1 = length array"
      using inv by (simp add: red1_def redundant_inv_def)
    have nth: "length red2 = length array"
      "\<forall>k<length array. red2 ! k \<longleftrightarrow> red1 ! k \<or> k \<in> set filled \<and> fl1 (array ! k) AND PARENT1 \<noteq> 0"
      using foldl_marks [of filled red1 "\<lambda>j. fl1 (array ! j) AND PARENT1 \<noteq> 0"] len
      unfolding red2_def by (auto simp: filled_def)
    have p2: "fl1 (array ! i) AND PARENT2 \<noteq> 0 \<longleftrightarrow> (\<exists>t\<in>set work. reaches g t (array ! i))"
      using paint_done_ancestor [OF paint(2) sane] .
    have p1: "reaches g (array ! i) c" if "fl1 c AND PARENT1 \<noteq> 0" for c
      using paint(2) that unfolding and_bit_0 paint_done_def paint_sound_def by blast
    have "(\<exists>t\<in>set work. reaches g t (array ! i)) \<longleftrightarrow> redundant_in g array i"
    proof
      assume "\<exists>t\<in>set work. reaches g t (array ! i)"
      then show "redundant_in g array i"
        by (auto simp: work_def filled_def redundant_in_def)
    next
      assume "redundant_in g array i"
      then obtain m where "m < length array" "m \<noteq> i" "\<not> red ! m" "reaches g (array ! m) (array ! i)"
        using redundant_witness [OF assms(1) acyclic inv i] by blast
      then show "\<exists>t\<in>set work. reaches g t (array ! i)"
        by (auto simp: work_def filled_def)
    qed
    then have red1: "red1 ! k \<longleftrightarrow> red ! k \<or> k = i \<and> redundant_in g array i" if "k < length array" for k
      using p2 that inv by (cases "k = i") (auto simp: red1_def redundant_inv_def)
    have "redundant_in g array k" if k: "k < length array" "red2 ! k" for k
    proof -
      consider "red ! k" | "k = i" "redundant_in g array i" | "k \<in> set filled" "fl1 (array ! k) AND PARENT1 \<noteq> 0"
        using k nth(2) red1 by blast
      then show ?thesis
      proof cases
        case 1
        then show ?thesis
          using inv k(1) by (simp add: redundant_inv_def)
      next
        case 3
        then have "i \<noteq> k" "reaches g (array ! i) (array ! k)"
          using p1 by (auto simp: filled_def)
        then show ?thesis
          using i by (auto simp: redundant_in_def)
      qed simp
    qed
    moreover have "\<not> redundant_in g array i" if "\<not> red2 ! i"
      using that nth(2) red1 i by blast
    moreover have "\<not> redundant_in g array k" if "k \<in> V" "\<not> red2 ! k" for k
      using that nth(2) red1 inv by (auto simp: redundant_inv_def)
    moreover have "insert i V \<subseteq> {..<length array}"
      using inv i by (auto simp: redundant_inv_def)
    ultimately show ?thesis
      using nth(1) unfolding redundant_inv_def by blast
  qed
  ultimately show ?thesis
    by blast
qed

lemma redundant_turns_ok:
  assumes "distinct array" and "sane g (set array)" and "clean fl"
    and "redundant_inv g array V red" and "set is \<subseteq> {..<length array}"
  shows "\<exists>red'. redundant_turns g array is (fl, red) = Some (fl, red') \<and> redundant_inv g array (V \<union> set is) red'"
  using assms(4,5)
proof (induction "is" arbitrary: V red)
  case (Cons i "is")
  obtain red1 where "redundant_turn g array i (fl, red) = Some (fl, red1)" "redundant_inv g array (insert i V) red1"
    using redundant_turn_ok [OF assms(1-3) Cons.prems(1), of i] Cons.prems(2) by auto
  then show ?case
    using Cons.IH [of "insert i V" red1] Cons.prems(2) by auto
qed auto

lemma map_nth_filter: "map ((!) xs) (filter (\<lambda>i. P (xs ! i)) [0..<length xs]) = filter P xs"
proof -
  have "filter P (map ((!) xs) [0..<length xs]) = map ((!) xs) (filter (\<lambda>i. P (xs ! i)) [0..<length xs])"
    by (simp add: filter_map comp_def)
  then show ?thesis
    by (simp add: map_nth)
qed

definition independent_of :: "'c repo \<Rightarrow> 'c list \<Rightarrow> 'c \<Rightarrow> bool" where
  "independent_of g array c \<longleftrightarrow> \<not> (\<exists>d\<in>set array. d \<noteq> c \<and> reaches g d c)"

lemma redundant_in_iff:
  assumes "distinct array" and "k < length array"
  shows "redundant_in g array k \<longleftrightarrow> \<not> independent_of g array (array ! k)"
proof -
  have "array ! m \<noteq> array ! k \<longleftrightarrow> m \<noteq> k" if "m < length array" for m
    using assms that by (simp add: nth_eq_iff_index_eq)
  then show ?thesis
    unfolding redundant_in_def independent_of_def by (metis in_set_conv_nth)
qed

lemma remove_redundant_ok:
  assumes "distinct array" and "sane g (set array)" and "clean fl"
  shows "remove_redundant g fl array = Some (fl,
      filter (independent_of g array) array @ filter (\<lambda>c. \<not> independent_of g array c) array,
      length (filter (independent_of g array) array))"
proof -
  have "redundant_inv g array {} (replicate (length array) False)"
    by (auto simp: redundant_inv_def)
  then obtain red where run: "redundant_turns g array [0..<length array] (fl, replicate (length array) False) = Some (fl, red)"
    and inv: "redundant_inv g array ({} \<union> set [0..<length array]) red"
    using redundant_turns_ok [OF assms, of "{}" "replicate (length array) False" "[0..<length array]"]
    by (auto simp: atLeast0LessThan)
  have red: "red ! k \<longleftrightarrow> \<not> independent_of g array (array ! k)" if "k < length array" for k
    using inv that redundant_in_iff [OF assms(1) that] by (auto simp: redundant_inv_def)
  have keep: "filter (\<lambda>i. \<not> red ! i) [0..<length array] = filter (\<lambda>i. independent_of g array (array ! i)) [0..<length array]"
    "filter (\<lambda>i. red ! i) [0..<length array] = filter (\<lambda>i. \<not> independent_of g array (array ! i)) [0..<length array]"
    using red by (auto intro!: filter_cong)
  have "length (filter (\<lambda>i. independent_of g array (array ! i)) [0..<length array]) =
      length (filter (independent_of g array) array)"
    using arg_cong [OF map_nth_filter [of array "independent_of g array"], of length] by simp
  then show ?thesis
    unfolding remove_redundant_def run by (simp add: keep map_nth_filter [of array "independent_of g array"]
        map_nth_filter [of array "\<lambda>c. \<not> independent_of g array c"])
qed

subsection \<open>Merge bases\<close>

lemma insert_by_date_all:
  "by_date g r \<Longrightarrow> distinct (l @ r) \<Longrightarrow>
     set (foldl (\<lambda>r c. if P c then commit_list_insert_by_date g c r else r) r l) = {c \<in> set l. P c} \<union> set r \<and>
     distinct (foldl (\<lambda>r c. if P c then commit_list_insert_by_date g c r else r) r l) \<and>
     by_date g (foldl (\<lambda>r c. if P c then commit_list_insert_by_date g c r else r) r l)"
proof (induction l arbitrary: r)
  case (Cons c l)
  have "by_date g (if P c then commit_list_insert_by_date g c r else r)"
    "distinct (l @ (if P c then commit_list_insert_by_date g c r else r))"
    using Cons.prems insert_by_date_sorted by auto
  then show ?case
    using Cons.IH [of "if P c then commit_list_insert_by_date g c r else r"] by auto
qed simp

lemma finite_common:
  "sane g (insert one (set twos)) \<Longrightarrow> finite {c. common_ancestor g one twos c}"
  unfolding sane_def by (auto elim!: finite_subset [rotated] simp: common_ancestor_def history_def)

lemma best_above:
  assumes "sane g (insert one (set twos))" and "common_ancestor g one twos c"
  shows "\<exists>b. best_common_ancestor g one twos b \<and> reaches g b c"
  using top_exists [OF finite_common [OF assms(1)], of g c] assms
  by (auto simp: sane_def best_common_ancestor_def)

lemma merge_bases_many_ok:
  assumes "sane g (insert one (set twos))" and "clean fl" and "one \<notin> set twos" and "twos \<noteq> []"
  shows "\<exists>fl1 bases. merge_bases_many g fl one twos = Some (fl1, bases) \<and> finite (painted fl1) \<and>
    cleared g fl1 (insert one (set twos)) = fl \<and> distinct bases \<and> by_date g bases \<and>
    {c. best_common_ancestor g one twos c} \<subseteq> set bases \<and> set bases \<subseteq> {c. common_ancestor g one twos c}"
proof -
  obtain fl1 result where paint: "paint_down_to_common g fl one twos = Some (fl1, result)"
    "paint_done g one twos fl fl1 result" "finite (painted fl1)" "cleared g fl1 (insert one (set twos)) = fl"
    using sane_paint [OF assms(1,2)] by blast
  have ok: "parse_ok g one" "\<forall>r\<in>set twos. parse_ok g r"
    using assms(1) history_start [of "insert one (set twos)" g] unfolding sane_def by blast+
  define bases where "bases = foldl (\<lambda>result c. if fl1 c AND STALE = 0
      then commit_list_insert_by_date g c result else result) [] result"
  have fin: "distinct result"
    "\<forall>c. best_common_ancestor g one twos c \<longrightarrow> c \<in> set result \<and> \<not> bit (fl1 c) 18"
    "\<forall>c\<in>set result. common_ancestor g one twos c"
    using paint(2) assms(4) by (auto simp: paint_done_def)
  have bases: "set bases = {c \<in> set result. fl1 c AND STALE = 0}" "distinct bases" "by_date g bases"
    using insert_by_date_all [of g "[]" result "\<lambda>c. fl1 c AND STALE = 0"] fin(1)
    unfolding bases_def by simp_all
  have "merge_bases_many g fl one twos = Some (fl1, bases)"
    using assms(3) ok paint(1) by (auto simp: merge_bases_many_def bases_def)
  then show ?thesis
    using paint(3,4) bases fin(2,3) by (auto simp: and_bit_0)
qed

lemma best_unique:
  assumes sane: "sane g (insert one (set twos))" and best: "{c. best_common_ancestor g one twos c} \<subseteq> B"
    and B: "B \<subseteq> {c. common_ancestor g one twos c}" and small: "\<And>c d. c \<in> B \<Longrightarrow> d \<in> B \<Longrightarrow> c = d"
  shows "B = {c. best_common_ancestor g one twos c}"
proof
  show "B \<subseteq> {c. best_common_ancestor g one twos c}"
  proof
    fix c
    assume c: "c \<in> B"
    then obtain b where "best_common_ancestor g one twos b"
      using best_above [OF sane, of c] B by blast
    then show "c \<in> {c. best_common_ancestor g one twos c}"
      using small [OF c, of b] best by auto
  qed
qed (rule best)

lemma independent_best:
  assumes sane: "sane g (insert one (set twos))" and best: "{c. best_common_ancestor g one twos c} \<subseteq> set bases"
    and bases: "set bases \<subseteq> {c. common_ancestor g one twos c}" and c: "c \<in> set bases"
  shows "independent_of g bases c \<longleftrightarrow> best_common_ancestor g one twos c"
proof
  assume ind: "independent_of g bases c"
  obtain b where b: "best_common_ancestor g one twos b" "reaches g b c"
    using best_above [OF sane, of c] bases c by blast
  then have "b = c"
    using ind best by (auto simp: independent_of_def)
  then show "best_common_ancestor g one twos c"
    using b(1) by simp
next
  assume best_c: "best_common_ancestor g one twos c"
  have "\<not> reaches g d c" if "d \<in> set bases" "d \<noteq> c" for d
    using that bases best_c unfolding best_common_ancestor_def reaches_cases by blast
  then show "independent_of g bases c"
    by (auto simp: independent_of_def)
qed

text \<open>The result of the merge-base routines.\<close>

definition merge_bases_spec :: "'c repo \<Rightarrow> 'c \<Rightarrow> 'c list \<Rightarrow> 'c list \<Rightarrow> bool" where
  "merge_bases_spec g one twos bases \<longleftrightarrow>
     set bases = {c. best_common_ancestor g one twos c} \<and> distinct bases \<and> by_date g bases"

lemma best_one:
  assumes "sane g (insert one (set twos))" and "one \<in> set twos"
  shows "{c. best_common_ancestor g one twos c} = {one}"
proof -
  have common: "common_ancestor g one twos one"
    using assms(2) reaches_refl [of g one] unfolding common_ancestor_def by blast
  have acyclic: "\<not> strictly_above g c c" for c
    using assms(1) by (simp add: sane_def)
  have "best_common_ancestor g one twos one"
    using common reaches_above [of g one _ one] acyclic unfolding best_common_ancestor_def common_ancestor_def by blast
  moreover have "c = one" if "best_common_ancestor g one twos c" for c
    using that common unfolding best_common_ancestor_def common_ancestor_def reaches_cases by blast
  ultimately show ?thesis
    by auto
qed

lemma get_merge_bases_many_ok:
  assumes sane: "sane g (insert one (set twos))" and clean: "clean fl" and "twos \<noteq> []"
  shows "\<exists>bases. get_merge_bases_many_0 g fl one twos True = Some (fl, bases) \<and> merge_bases_spec g one twos bases"
proof (cases "one \<in> set twos")
  case True
  then show ?thesis
    using best_one [OF sane True]
    by (auto simp: get_merge_bases_many_0_def merge_bases_many_def merge_bases_spec_def commit_list_insert_def)
next
  case False
  obtain fl1 bases where run: "merge_bases_many g fl one twos = Some (fl1, bases)" "finite (painted fl1)"
    "cleared g fl1 (insert one (set twos)) = fl" "distinct bases" "by_date g bases"
    and best: "{c. best_common_ancestor g one twos c} \<subseteq> set bases"
    and common: "set bases \<subseteq> {c. common_ancestor g one twos c}"
    using merge_bases_many_ok [OF sane clean False assms(3)] by blast
  have clear: "clear_commit_marks g fl1 one all_flags = Some (cleared g fl1 {one})"
    "clear_commit_marks_many g (cleared g fl1 {one}) twos all_flags = Some fl"
    using run(2,3) by (simp_all add: clear_one_cleared clear_many_cleared finite_cleared cleared_cleared)
  show ?thesis
  proof (cases "length bases \<le> 1")
    case True
    then have "c = d" if "c \<in> set bases" "d \<in> set bases" for c d
      using that by (cases bases) auto
    then have "set bases = {c. best_common_ancestor g one twos c}"
      by (intro best_unique [OF sane best common])
    then show ?thesis
      using False True run clear by (simp add: get_merge_bases_many_0_def merge_bases_spec_def)
  next
    case long: False
    have "set bases \<subseteq> history g (insert one (set twos))"
      using common by (auto simp: common_ancestor_def history_def)
    then have "sane g (set bases)"
      by (rule sane_subset [OF sane])
    note rr = remove_redundant_ok [OF run(4) this clean]
    define ind where "ind = filter (independent_of g bases) bases"
    have ind: "set ind = {c. best_common_ancestor g one twos c}" "distinct ind"
      using independent_best [OF sane best common] best run(4) by (auto simp: ind_def)
    have "get_merge_bases_many_0 g fl one twos True =
        Some (fl, foldl (\<lambda>r c. commit_list_insert_by_date g c r) [] ind)"
      using False long run(1) clear rr by (simp add: get_merge_bases_many_0_def ind_def)
    then show ?thesis
      using insert_by_date_all [of g "[]" ind "\<lambda>c. True"] ind by (auto simp: merge_bases_spec_def)
  qed
qed

subsection \<open>Reducing heads\<close>

text \<open>The first occurrences in a list of the members of \<open>S\<close>.\<close>

fun first_in :: "'c set \<Rightarrow> 'c list \<Rightarrow> 'c list" where
  "first_in S [] = []"
| "first_in S (c # cs) = (if c \<in> S then c # first_in (S - {c}) cs else first_in S cs)"

lemma first_in_props: "set (first_in S cs) = S \<inter> set cs \<and> distinct (first_in S cs) \<and> subseq (first_in S cs) cs"
  by (induction cs arbitrary: S) auto

definition staled :: "'c flags \<Rightarrow> 'c set \<Rightarrow> 'c flags" where
  "staled fl S = (\<lambda>c. if c \<in> S then fl c OR STALE else fl c)"

lemma stale_or: "(w OR STALE) AND STALE \<noteq> 0"
  unfolding and_bit_0 by (simp add: bit_or_iff)

lemma stale_or_not: "w AND STALE = 0 \<Longrightarrow> (w OR STALE) AND NOT STALE = w"
  unfolding and_bit_0 and_eq_bits by (auto simp: bit_or_iff bit_not_iff dest: bit_imp_le_length)

lemma stale_not: "w AND STALE = 0 \<Longrightarrow> w AND NOT STALE = w"
  unfolding and_bit_0 and_eq_bits by (auto simp: bit_not_iff dest: bit_imp_le_length)

lemma uniquify_pass1: "\<forall>c. fl c AND STALE = 0 \<Longrightarrow> foldl (\<lambda>fl c. fl(c := fl c AND NOT STALE)) fl hs = fl"
  by (induction hs) (simp_all add: stale_not)

lemma uniquify_pass2:
  assumes "\<forall>c. fl c AND STALE = 0"
  shows "foldl (\<lambda>(fl, n) c. if fl c AND STALE \<noteq> 0 then (fl, n) else (fl(c := fl c OR STALE), n + 1)) (staled fl S, n) hs =
    (staled fl (S \<union> set hs), n + length (first_in (- S) hs))"
proof (induction hs arbitrary: S n)
  case (Cons h hs)
  show ?case
  proof (cases "h \<in> S")
    case True
    then show ?thesis
      using Cons.IH [of S n] stale_or [of "fl h"] by (simp add: insert_absorb) (simp add: staled_def)
  next
    case False
    have "(staled fl S)(h := staled fl S h OR STALE) = staled fl (insert h S)"
      using False by (auto simp: staled_def)
    moreover have "staled fl S h AND STALE = 0"
      using False assms by (simp add: staled_def)
    moreover have "- insert h S = - S - {h}"
      by auto
    ultimately show ?thesis
      using Cons.IH [of "insert h S" "n + 1"] False by simp
  qed
qed simp

lemma uniquify_pass3:
  assumes "\<forall>c. fl c AND STALE = 0"
  shows "foldl (\<lambda>(fl, a) c. if fl c AND STALE \<noteq> 0 then (fl(c := fl c AND NOT STALE), a @ [c]) else (fl, a)) (staled fl S, a) hs =
    (staled fl (S - set hs), a @ first_in S hs)"
proof (induction hs arbitrary: S a)
  case (Cons h hs)
  show ?case
  proof (cases "h \<in> S")
    case True
    have "(staled fl S)(h := staled fl S h AND NOT STALE) = staled fl (S - {h})"
      using True assms by (auto simp: staled_def stale_or_not)
    moreover have "staled fl S h AND STALE \<noteq> 0"
      using True stale_or by (simp add: staled_def)
    moreover have "S - {h} - set hs = S - set (h # hs)"
      by auto
    ultimately show ?thesis
      using Cons.IH [of "S - {h}" "a @ [h]"] True by simp
  next
    case False
    then have "staled fl S h AND STALE = 0"
      using assms by (simp add: staled_def)
    moreover have "S - set hs = S - set (h # hs)"
      using False by auto
    ultimately show ?thesis
      using Cons.IH [of S a] False by simp
  qed
qed simp

lemma uniquify_heads_ok:
  assumes "clean fl"
  shows "uniquify_heads fl heads = (fl, length (first_in (set heads) heads), first_in (set heads) heads)"
proof -
  have s: "\<forall>c. fl c AND STALE = 0"
    using assms all_flags_0 unfolding clean_def and_bit_0 by blast
  have none: "staled fl {} = fl"
    by (simp add: staled_def)
  have all: "first_in UNIV hs = first_in (set hs \<union> T) hs" for hs :: "'a list" and T
  proof -
    have "first_in S hs = first_in S' hs" if "\<forall>c\<in>set hs. c \<in> S \<longleftrightarrow> c \<in> S'" for S S'
      using that by (induction hs arbitrary: S S') auto
    then show ?thesis
      by simp
  qed
  show ?thesis
    using uniquify_pass2 [OF s, of "{}" 0 heads] uniquify_pass3 [OF s, of "set heads" "[]" heads] all [of heads "{}"]
    unfolding uniquify_heads_def Let_def uniquify_pass1 [OF s] by (simp add: none)
qed

subsection \<open>The properties of the component\<close>

text \<open>
  (C2) \<open>in_merge_bases_many\<close> decides ancestry: on a finite history without cycles whose commits can all be
  parsed it returns, answers whether the commit is reachable from one of the references, whatever the
  dates say, and leaves every flag word as it was.
\<close>
theorem in_merge_bases_many_decides:
  assumes "sane g (insert c (set refs))" and "clean fl"
  shows "in_merge_bases_many g fl c refs = Some (fl, \<exists>r\<in>set refs. reaches g r c)"
  by (rule in_merge_bases_many_ok [OF assms])

lemma example_history: "history example_repo T \<subseteq> T \<union> {1, 2, 3, 4}"
proof
  fix d
  assume "d \<in> history example_repo T"
  then obtain t where "t \<in> T" "reaches example_repo t d"
    by (auto simp: history_def)
  from this(2) show "d \<in> T \<union> {1, 2, 3, 4}"
    by (induction rule: reaches_induct) (use \<open>t \<in> T\<close> in \<open>auto simp: example_repo_def split: if_splits\<close>)
qed

lemma example_sane: "finite T \<Longrightarrow> sane example_repo T"
proof -
  assume fin: "finite T"
  have "finite (history example_repo T)"
    by (rule finite_subset [OF example_history]) (use fin in simp)
  then show ?thesis
    using example_acyclic by (simp add: sane_def) (simp add: example_repo_def)
qed

lemma clean_zero: "clean (\<lambda>c. 0)"
  by (simp add: clean_def)

lemma in_merge_bases_many_decides_witness:
  "in_merge_bases_many example_repo (\<lambda>c. 0) 2 [5] = Some (\<lambda>c. 0, True)"
proof -
  have "reaches example_repo 5 4" "reaches example_repo 4 2"
    by (auto simp: example_repo_def intro: reaches_parent [OF reaches_refl])
  then have "reaches example_repo 5 2"
    by (rule reaches_trans)
  then show ?thesis
    using in_merge_bases_many_decides [OF example_sane clean_zero, of 2 "[5]"] by simp
qed

text \<open>
  \<open>is_descendant_of\<close> answers whether one of the listed commits is reachable from the commit, and whether
  the list is empty, and restores the flags.
\<close>
theorem is_descendant_of_decides:
  assumes "sane g (insert c (set ws))" and "clean fl"
  shows "is_descendant_of g fl c ws = Some (fl, ws = [] \<or> (\<exists>w\<in>set ws. reaches g c w))"
  using is_descendant_of_loop_ok [OF assms] by (simp add: is_descendant_of_def)

lemma is_descendant_of_decides_witness:
  "\<exists>b. is_descendant_of example_repo (\<lambda>c. 0) 5 [2] = Some (\<lambda>c. 0, b)"
  using is_descendant_of_decides [OF example_sane clean_zero, of 5 "[2]"] by simp

text \<open>
  (C1) \<open>get_merge_bases_many\<close> returns exactly the best common ancestors, each once and newest first: the
  commits reachable from \<open>one\<close> and from one of \<open>twos\<close> that are not strictly below another such
  commit.  The flags are restored.
\<close>
theorem get_merge_bases_many_best:
  assumes "sane g (insert one (set twos))" and "clean fl" and "twos \<noteq> []"
  shows "\<exists>bases. get_merge_bases_many g fl one twos = Some (fl, bases) \<and>
    set bases = {c. common_ancestor g one twos c \<and>
                    \<not> (\<exists>d. common_ancestor g one twos d \<and> strictly_above g d c)} \<and>
    distinct bases \<and> sorted_wrt (\<lambda>a b. date g b \<le> date g a) bases"
  using get_merge_bases_many_ok [OF assms]
  by (auto simp: get_merge_bases_many_def merge_bases_spec_def best_common_ancestor_def by_date_def)

lemma get_merge_bases_many_best_witness:
  "\<exists>bases. get_merge_bases_many example_repo (\<lambda>c. 0) 4 [3] = Some (\<lambda>c. 0, bases) \<and> distinct bases"
  using get_merge_bases_many_best [OF example_sane clean_zero, of 4 "[3]"] by auto

text \<open>
  (C3) \<open>remove_redundant\<close> moves the commits that are reachable from another commit of the array to the end,
  keeps the order of the others, and returns their number; the flags are restored.
\<close>
theorem remove_redundant_splits:
  assumes "distinct array" and "sane g (set array)" and "clean fl"
  shows "remove_redundant g fl array = Some (fl,
      filter (\<lambda>c. \<not> (\<exists>d\<in>set array. d \<noteq> c \<and> reaches g d c)) array @
      filter (\<lambda>c. \<exists>d\<in>set array. d \<noteq> c \<and> reaches g d c) array,
      length (filter (\<lambda>c. \<not> (\<exists>d\<in>set array. d \<noteq> c \<and> reaches g d c)) array))"
  using remove_redundant_ok [OF assms] unfolding independent_of_def not_not .

lemma remove_redundant_splits_witness:
  "\<exists>a n. remove_redundant example_repo (\<lambda>c. 0) [2, 4, 3] = Some (\<lambda>c. 0, a, n)"
  using remove_redundant_splits [OF _ example_sane clean_zero, of "[2, 4, 3]"] by simp

text \<open>
  (C4) \<open>reduce_heads\<close> returns the heads that are not reachable from another head, each once and in the
  order of the list, and restores the flags it used as scratch marks.
\<close>
theorem reduce_heads_independent:
  assumes "sane g (set heads)" and "clean fl"
  shows "\<exists>result. reduce_heads g fl heads = Some (fl, result) \<and>
    set result = {h \<in> set heads. \<not> (\<exists>d\<in>set heads. d \<noteq> h \<and> reaches g d h)} \<and>
    distinct result \<and> subseq result heads"
proof (cases "heads = []")
  case False
  define array where "array = first_in (set heads) heads"
  have array: "set array = set heads" "distinct array" "subseq array heads"
    using first_in_props [of "set heads" heads] by (auto simp: array_def)
  have "reduce_heads g fl heads = Some (fl, filter (independent_of g array) array)"
    using False remove_redundant_ok [OF array(2) _ assms(2), of g] assms(1) array(1)
    by (simp add: reduce_heads_def uniquify_heads_ok [OF assms(2)] array_def)
  moreover have "subseq (filter (independent_of g array) array) heads"
    using subseq_filter_left array(3) by (rule subseq_order.trans)
  ultimately show ?thesis
    using array(1,2) by (auto simp: independent_of_def)
qed (simp add: reduce_heads_def)

lemma reduce_heads_independent_witness:
  "\<exists>result. reduce_heads example_repo (\<lambda>c. 0) [3, 2, 4, 3] = Some (\<lambda>c. 0, result) \<and> distinct result"
  using reduce_heads_independent [OF example_sane clean_zero, of "[3, 2, 4, 3]"] by auto

end
