(* ===== verification/Git_Topo_Sort.thy ===== *)
theory Git_Topo_Sort
  imports Git_Paint
begin

text \<open>
  \<open>sort_in_topological_order\<close> of \<^verbatim>\<open>commit.c\<close>.  The indegree slab is a function that is zero where
  nothing was stored; the author dates, which the code parses from the commit buffers, are the
  parameter \<open>author_date\<close>.  The \<open>int\<close> counters do not wrap below \<open>2 ^ 31\<close> parent links.
\<close>

datatype rev_sort_order = REV_SORT_IN_GRAPH_ORDER | REV_SORT_BY_COMMIT_DATE | REV_SORT_BY_AUTHOR_DATE

definition compare_commits_by_author_date :: "('c \<Rightarrow> nat) \<Rightarrow> 'c \<Rightarrow> 'c \<Rightarrow> int" where
  "compare_commits_by_author_date author_date a b =
     (if author_date a < author_date b then 1 else if author_date a > author_date b then - 1 else 0)"

definition topo_compare :: "'c repo \<Rightarrow> ('c \<Rightarrow> nat) \<Rightarrow> rev_sort_order \<Rightarrow> ('c \<Rightarrow> 'c \<Rightarrow> int) option" where
  "topo_compare g author_date order =
     (case order of
        REV_SORT_IN_GRAPH_ORDER \<Rightarrow> None
      | REV_SORT_BY_COMMIT_DATE \<Rightarrow> Some (compare_commits_by_commit_date g)
      | REV_SORT_BY_AUTHOR_DATE \<Rightarrow> Some (compare_commits_by_author_date author_date))"

definition mark_indegree :: "'c list \<Rightarrow> 'c \<Rightarrow> nat" where
  "mark_indegree orig = foldl (\<lambda>d c. d(c := 1)) (\<lambda>c. 0) orig"

definition count_parents :: "'c list \<Rightarrow> ('c \<Rightarrow> nat) \<Rightarrow> 'c \<Rightarrow> nat" where
  "count_parents ps d = foldl (\<lambda>d p. if d p \<noteq> 0 then d(p := d p + 1) else d) d ps"

definition update_indegree :: "'c repo \<Rightarrow> 'c list \<Rightarrow> ('c \<Rightarrow> nat) \<Rightarrow> 'c \<Rightarrow> nat" where
  "update_indegree g orig d = foldl (\<lambda>d c. count_parents (parents g c) d) d orig"

definition put_tips :: "('c \<Rightarrow> nat) \<Rightarrow> 'c list \<Rightarrow> 'c prio_queue \<Rightarrow> 'c prio_queue" where
  "put_tips d orig q = foldl (\<lambda>q c. if d c = 1 then prio_queue_put q c else q) q orig"

definition release_parents ::
    "'c list \<Rightarrow> ('c \<Rightarrow> nat) \<times> 'c prio_queue \<Rightarrow> ('c \<Rightarrow> nat) \<times> 'c prio_queue" where
  "release_parents ps s =
     foldl (\<lambda>(d, q) p.
         if d p = 0 then (d, q)
         else let d1 = d(p := d p - 1) in (d1, if d1 p = 1 then prio_queue_put q p else q)) s ps"

partial_function (option) topo_loop ::
    "'c repo \<Rightarrow> ('c \<Rightarrow> nat) \<Rightarrow> 'c prio_queue \<Rightarrow> 'c list \<Rightarrow> 'c list option" where
  "topo_loop g d q out =
     (case prio_queue_get q of
        None \<Rightarrow> Some out
      | Some (c, q1) \<Rightarrow>
          let (d1, q2) = release_parents (parents g c) (d, q1)
          in topo_loop g (d1(c := 0)) q2 (out @ [c]))"

declare topo_loop.simps [code]

definition sort_in_topological_order ::
    "'c repo \<Rightarrow> ('c \<Rightarrow> nat) \<Rightarrow> 'c list \<Rightarrow> rev_sort_order \<Rightarrow> 'c list option" where
  "sort_in_topological_order g author_date orig order =
     (if orig = [] then Some []
      else
        let d = update_indegree g orig (mark_indegree orig);
            q0 = \<lparr>pq_compare = topo_compare g author_date order, pq_insertion_ctr = 0, pq_array = []\<rparr>;
            q1 = put_tips d orig q0
        in case (if order = REV_SORT_IN_GRAPH_ORDER then prio_queue_reverse q1 else Some q1) of
             None \<Rightarrow> None
           | Some q2 \<Rightarrow> topo_loop g d q2 [])"

subsection \<open>Counting\<close>

lemma mark_indegree_eq: "mark_indegree orig c = (if c \<in> set orig then 1 else 0)"
proof -
  have "foldl (\<lambda>d c. d(c := 1)) d orig c = (if c \<in> set orig then 1 else d c)" for d :: "'a \<Rightarrow> nat"
    by (induction orig arbitrary: d) auto
  then show ?thesis
    by (simp add: mark_indegree_def)
qed

lemma count_parents_eq: "count_parents ps d c = (if d c = 0 then 0 else d c + count_list ps c)"
  unfolding count_parents_def by (induction ps arbitrary: d) auto

lemma update_indegree_eq:
  "update_indegree g orig d c = (if d c = 0 then 0 else d c + (\<Sum>x\<leftarrow>orig. count_list (parents g x) c))"
proof (induction orig arbitrary: d)
  case (Cons x orig)
  then show ?case
    using Cons.IH [of "count_parents (parents g x) d"] by (simp add: update_indegree_def count_parents_eq)
qed (simp add: update_indegree_def)

definition children_left :: "'c repo \<Rightarrow> 'c set \<Rightarrow> 'c \<Rightarrow> nat" where
  "children_left g L p = (\<Sum>c\<in>L. count_list (parents g c) p)"

lemma initial_indegree:
  assumes "distinct orig"
  shows "update_indegree g orig (mark_indegree orig) p =
    (if p \<in> set orig then Suc (children_left g (set orig) p) else 0)"
  using assms by (simp add: update_indegree_eq mark_indegree_eq children_left_def sum_list_distinct_conv_sum_set)

lemma children_left_remove:
  "finite L \<Longrightarrow> c \<in> L \<Longrightarrow> children_left g L p = count_list (parents g c) p + children_left g (L - {c}) p"
  unfolding children_left_def by (rule sum.remove)

lemma children_left_0: "finite L \<Longrightarrow> children_left g L p = 0 \<longleftrightarrow> (\<forall>c\<in>L. p \<notin> set (parents g c))"
  by (simp add: children_left_def count_list_0_iff)

lemma put_tips_items: "distinct orig \<Longrightarrow> pq_items (put_tips d orig q) = mset_set {c \<in> set orig. d c = 1} + pq_items q"
proof (induction orig arbitrary: q)
  case (Cons c orig)
  have "{x \<in> set (c # orig). d x = 1} = (if d c = 1 then insert c {x \<in> set orig. d x = 1} else {x \<in> set orig. d x = 1})"
    by auto
  then show ?case
    using Cons.IH [of "if d c = 1 then prio_queue_put q c else q"] Cons.prems
    by (simp add: put_tips_def pq.items_put)
qed (simp add: put_tips_def)

lemma release_parents_ok:
  assumes "\<forall>p\<in>set ps. d p \<noteq> 0 \<longrightarrow> count_list ps p < d p"
  shows "fst (release_parents ps (d, q)) = (\<lambda>p. d p - count_list ps p) \<and>
    pq_items (snd (release_parents ps (d, q))) =
      pq_items q + mset_set {p \<in> set ps. d p \<noteq> 0 \<and> d p - count_list ps p = 1}"
  using assms
proof (induction ps arbitrary: d q)
  case Nil
  then show ?case
    by (simp add: release_parents_def)
next
  case (Cons p ps)
  show ?case
  proof (cases "d p = 0")
    case True
    have "release_parents (p # ps) (d, q) = release_parents ps (d, q)"
      using True by (simp add: release_parents_def)
    moreover have "\<forall>x\<in>set ps. d x \<noteq> 0 \<longrightarrow> count_list ps x < d x"
      using Cons.prems True by (metis count_list.simps(2) list.set_intros(2))
    moreover have "{x \<in> set (p # ps). d x \<noteq> 0 \<and> d x - count_list (p # ps) x = 1} =
        {x \<in> set ps. d x \<noteq> 0 \<and> d x - count_list ps x = 1}"
      using True by auto
    moreover have "(\<lambda>x. d x - count_list (p # ps) x) = (\<lambda>x. d x - count_list ps x)"
      by (rule ext) (use True in auto)
    ultimately show ?thesis
      using Cons.IH [of d q] by simp
  next
    case False
    define d1 where "d1 = d(p := d p - 1)"
    define q1 where "q1 = (if d1 p = 1 then prio_queue_put q p else q)"
    have less: "Suc (count_list ps p) < d p"
      using Cons.prems False by simp
    have step: "release_parents (p # ps) (d, q) = release_parents ps (d1, q1)"
      using False by (simp add: release_parents_def d1_def q1_def Let_def)
    have pre: "\<forall>x\<in>set ps. d1 x \<noteq> 0 \<longrightarrow> count_list ps x < d1 x"
      using Cons.prems less by (auto simp: d1_def split: if_splits)
    have d1: "d1 x - count_list ps x = d x - count_list (p # ps) x" for x
      by (simp add: d1_def)
    then have d1_fun: "(\<lambda>x. d1 x - count_list ps x) = (\<lambda>x. d x - count_list (p # ps) x)"
      by (rule ext)
    have items: "pq_items q1 + mset_set {x \<in> set ps. d1 x \<noteq> 0 \<and> d1 x - count_list ps x = 1} =
        pq_items q + mset_set {x \<in> set (p # ps). d x \<noteq> 0 \<and> d x - count_list (p # ps) x = 1}"
    proof (cases "d1 p = 1")
      case True
      then have "count_list ps p = 0"
        using less by (simp add: d1_def)
      then have p: "p \<notin> set ps"
        by (simp add: count_list_0_iff)
      then have "{x \<in> set (p # ps). d x \<noteq> 0 \<and> d x - count_list (p # ps) x = 1} =
          insert p {x \<in> set ps. d1 x \<noteq> 0 \<and> d1 x - count_list ps x = 1}"
        using False True \<open>count_list ps p = 0\<close> by (auto simp: d1_def)
      then show ?thesis
        using True p by (simp add: q1_def pq.items_put)
    next
      case d1p: False
      have mem: "p \<in> set ps" if "d1 p - count_list ps p = 1"
        using that d1p by (metis count_list_0_iff diff_zero)
      have nonzero: "d1 p \<noteq> 0" "d p \<noteq> 0" "\<And>x. x \<noteq> p \<Longrightarrow> d1 x = d x"
        using less by (auto simp: d1_def)
      have "x \<in> set (p # ps) \<and> d x \<noteq> 0 \<and> d1 x - count_list ps x = 1 \<longleftrightarrow>
          x \<in> set ps \<and> d1 x \<noteq> 0 \<and> d1 x - count_list ps x = 1" for x
      proof (cases "x = p")
        case True
        have "p \<in> set (p # ps)"
          by simp
        then show ?thesis
          unfolding True using mem nonzero(1,2) by blast
      next
        case False
        then have "x \<in> set (p # ps) \<longleftrightarrow> x \<in> set ps"
          by simp
        then show ?thesis
          using nonzero(3) [OF False] by metis
      qed
      then have "{x \<in> set (p # ps). d x \<noteq> 0 \<and> d x - count_list (p # ps) x = 1} =
          {x \<in> set ps. d1 x \<noteq> 0 \<and> d1 x - count_list ps x = 1}"
        by (simp only: d1)
      then show ?thesis
        using d1p by (simp add: q1_def)
    qed
    show ?thesis
      unfolding step using Cons.IH [OF pre, of q1] unfolding items d1_fun .
  qed
qed

subsection \<open>The emission loop\<close>

text \<open>
  \<open>L\<close> is the list being sorted: what has been emitted respects the order and is complete upwards, and
  the queue holds the commits all of whose children have been emitted.
\<close>

definition topo_inv :: "'c repo \<Rightarrow> 'c set \<Rightarrow> ('c \<Rightarrow> nat) \<Rightarrow> 'c multiset \<Rightarrow> 'c list \<Rightarrow> bool" where
  "topo_inv g L d Q out \<longleftrightarrow>
     distinct out \<and> set out \<subseteq> L \<and> sorted_wrt (\<lambda>a b. a \<notin> set (parents g b)) out \<and>
     (\<forall>p. d p = (if p \<in> L - set out then Suc (children_left g (L - set out) p) else 0)) \<and>
     Q = mset_set {c \<in> L - set out. d c = 1} \<and>
     (\<forall>a\<in>set out. children_left g (L - set out) a = 0)"

lemma topo_step:
  assumes inv: "topo_inv g L d Q out" and fin: "finite L" and acyclic: "\<forall>c. \<not> strictly_above g c c"
    and Q: "Q = add_mset c (pq_items q1)" and release: "release_parents (parents g c) (d, q1) = (d1, q2)"
  shows "topo_inv g L (d1(c := 0)) (pq_items q2) (out @ [c])"
proof -
  define E where "E = L - set out"
  have finE: "finite {x \<in> E. d x = 1}" "finite E"
    using fin by (simp_all add: E_def)
  have d: "d p = (if p \<in> E then Suc (children_left g E p) else 0)" for p
    using inv by (simp add: topo_inv_def E_def)
  have QE: "Q = mset_set {x \<in> E. d x = 1}"
    using inv by (simp add: topo_inv_def E_def)
  have "c \<in># Q"
    using Q by simp
  then have c: "c \<in> E" "d c = 1"
    using finE by (auto simp: QE)
  have q1: "pq_items q1 = mset_set ({x \<in> E. d x = 1} - {c})"
    using c finE Q unfolding QE by (simp add: mset_set.remove)
  have own: "c \<notin> set (parents g c)"
    using acyclic above_parent [OF reaches_refl, of c g c] by blast
  have split: "children_left g E p = count_list (parents g c) p + children_left g (E - {c}) p" for p
    using finE(2) c(1) by (rule children_left_remove)
  have pre: "\<forall>p\<in>set (parents g c). d p \<noteq> 0 \<longrightarrow> count_list (parents g c) p < d p"
    by (auto simp: d split split: if_splits)
  have d1: "d1 = (\<lambda>p. d p - count_list (parents g c) p)"
    and q2: "pq_items q2 = pq_items q1 + mset_set {p \<in> set (parents g c). d p \<noteq> 0 \<and> d p - count_list (parents g c) p = 1}"
    using release_parents_ok [OF pre, of q1] unfolding release by auto
  have d': "(d1(c := 0)) p = (if p \<in> E - {c} then Suc (children_left g (E - {c}) p) else 0)" for p
    using d [of p] split [of p] by (simp add: d1)
  have old: "d x = 1 \<Longrightarrow> x \<in> E \<Longrightarrow> x \<notin> set (parents g c)" for x
    using c(1) finE(2) children_left_0 [of E g x] by (auto simp: d)
  have sets: "{x \<in> E - {c}. (d1(c := 0)) x = 1} =
      ({x \<in> E. d x = 1} - {c}) \<union> {p \<in> set (parents g c). d p \<noteq> 0 \<and> d p - count_list (parents g c) p = 1}"
  proof (rule set_eqI)
    fix x
    have "count_list (parents g c) x = 0" if "x \<notin> set (parents g c)"
      using that by (simp add: count_list_0_iff)
    then show "x \<in> {x \<in> E - {c}. (d1(c := 0)) x = 1} \<longleftrightarrow>
        x \<in> ({x \<in> E. d x = 1} - {c}) \<union> {p \<in> set (parents g c). d p \<noteq> 0 \<and> d p - count_list (parents g c) p = 1}"
      using own old [of x] d [of x] by (cases "x \<in> set (parents g c)") (auto simp: d1 split: if_splits)
  qed
  have "pq_items q2 = mset_set {x \<in> E - {c}. (d1(c := 0)) x = 1}"
    unfolding sets q2 q1 using finE old by (intro mset_set_Union [symmetric]) auto
  moreover have "E - {c} = L - set (out @ [c])"
    by (auto simp: E_def)
  moreover have "\<forall>a\<in>set (out @ [c]). children_left g (E - {c}) a = 0"
    using inv d [of c] c split by (auto simp: topo_inv_def E_def)
  moreover have "\<forall>a\<in>set out. a \<notin> set (parents g c)"
    using inv c(1) finE(2) children_left_0 [of E g] by (auto simp: topo_inv_def E_def)
  ultimately show ?thesis
    using inv c(1) d' by (auto simp: topo_inv_def E_def sorted_wrt_append)
qed

lemma topo_loop_ok:
  assumes "topo_inv g L d (pq_items q) out" and fin: "finite L" and acyclic: "\<forall>c. \<not> strictly_above g c c"
  shows "\<exists>out'. topo_loop g d q out = Some out' \<and> set out' = L \<and> distinct out' \<and>
    sorted_wrt (\<lambda>a b. a \<notin> set (parents g b)) out'"
  using assms(1)
proof (induction "card (L - set out)" arbitrary: d q out rule: less_induct)
  case less
  show ?case
  proof (cases "prio_queue_get q")
    case None
    then have "pq_items q = {#}"
      using pq.get_None by blast
    moreover have "pq_items q = mset_set {c \<in> L - set out. d c = 1}"
      using less.prems unfolding topo_inv_def by blast
    ultimately have none: "{c \<in> L - set out. d c = 1} = {}"
      using fin by (simp only: mset_set_empty_iff) auto
    have "L - set out = {}"
    proof (rule ccontr)
      assume "L - set out \<noteq> {}"
      then obtain b where b: "b \<in> L - set out" "\<forall>c\<in>L - set out. \<not> strictly_above g c b"
        using top_exists [of "L - set out" g] fin acyclic by blast
      then have "\<forall>c\<in>L - set out. b \<notin> set (parents g c)"
        using above_parent [OF reaches_refl, of b g] by blast
      then have "children_left g (L - set out) b = 0"
        using fin children_left_0 [of "L - set out" g b] by simp
      then have "d b = 1"
        using less.prems b(1) by (simp add: topo_inv_def)
      then show False
        using none b(1) by blast
    qed
    then have "set out = L"
      using less.prems by (auto simp: topo_inv_def)
    moreover have "topo_loop g d q out = Some out"
      using None by (subst topo_loop.simps) simp
    ultimately show ?thesis
      using less.prems by (auto simp: topo_inv_def)
  next
    case (Some r)
    obtain c q1 where r: "prio_queue_get q = Some (c, q1)"
      using Some by (cases r) simp
    obtain d1 q2 where release: "release_parents (parents g c) (d, q1) = (d1, q2)"
      by fastforce
    have inv': "topo_inv g L (d1(c := 0)) (pq_items q2) (out @ [c])"
      using topo_step [OF less.prems fin acyclic pq.get_Some [OF r] release] .
    have "c \<in># pq_items q"
      using pq.get_member [OF r] .
    then have "c \<in> L - set out"
      using less.prems fin by (auto simp: topo_inv_def)
    then have "card (L - set (out @ [c])) < card (L - set out)"
      using fin by (intro psubset_card_mono) auto
    moreover have "topo_loop g d q out = topo_loop g (d1(c := 0)) q2 (out @ [c])"
      using r release by (subst topo_loop.simps) simp
    ultimately show ?thesis
      using less.hyps [OF _ inv'] by simp
  qed
qed

lemma pq_items_empty: "pq_items \<lparr>pq_compare = f, pq_insertion_ctr = n, pq_array = []\<rparr> = {#}"
  by (simp add: pq_items_def)

lemma pq_compare_puts: "pq_compare (put_tips d orig q) = pq_compare q"
  unfolding put_tips_def by (induction orig arbitrary: q) auto

lemma reverse_items:
  assumes "pq_compare q = None"
  shows "\<exists>q'. prio_queue_reverse q = Some q' \<and> pq_items q' = pq_items q"
  using prio_queue_reverse_rev [OF assms] by (simp add: pq_items_def)

lemma sort_in_topological_order_ok:
  assumes "distinct orig" and acyclic: "\<forall>c. \<not> strictly_above g c c"
  shows "\<exists>out. sort_in_topological_order g author_date orig order = Some out \<and>
    mset out = mset orig \<and> sorted_wrt (\<lambda>a b. a \<notin> set (parents g b)) out"
proof (cases "orig = []")
  case True
  then show ?thesis
    by (simp add: sort_in_topological_order_def)
next
  case False
  define d where "d = update_indegree g orig (mark_indegree orig)"
  define q0 where "q0 = \<lparr>pq_compare = topo_compare g author_date order, pq_insertion_ctr = 0, pq_array = []\<rparr>"
  define q1 where "q1 = put_tips d orig q0"
  have items: "pq_items q1 = mset_set {c \<in> set orig. d c = 1}"
    using assms(1) by (simp add: q1_def put_tips_items q0_def pq_items_empty)
  have inv: "topo_inv g (set orig) d (mset_set {c \<in> set orig. d c = 1}) []"
    using assms(1) by (simp add: topo_inv_def d_def initial_indegree)
  obtain q2 where q2: "(if order = REV_SORT_IN_GRAPH_ORDER then prio_queue_reverse q1 else Some q1) = Some q2"
    "pq_items q2 = pq_items q1"
  proof (cases "order = REV_SORT_IN_GRAPH_ORDER")
    case True
    then have "pq_compare q1 = None"
      by (simp add: q1_def pq_compare_puts q0_def topo_compare_def)
    then show ?thesis
      using reverse_items [of q1] that True by auto
  qed (use that in auto)
  obtain out where out: "topo_loop g d q2 [] = Some out" "set out = set orig" "distinct out"
    "sorted_wrt (\<lambda>a b. a \<notin> set (parents g b)) out"
    using topo_loop_ok [of g "set orig" d q2 "[]"] inv items q2(2) acyclic by auto
  have "sort_in_topological_order g author_date orig order = Some out"
    using False q2(1) out(1) unfolding sort_in_topological_order_def Let_def d_def [symmetric]
      q0_def [symmetric] q1_def [symmetric] by simp
  then show ?thesis
    using out assms(1) by (simp add: set_eq_iff_mset_eq_distinct [symmetric])
qed

subsection \<open>The properties of the component\<close>

text \<open>
  (C5) \<open>sort_in_topological_order\<close> returns for every sort order, the list it returns is a permutation of the
  one given, and no commit comes after one of its parents.
\<close>
theorem topological_order:
  assumes "distinct orig" and "\<forall>c. \<not> strictly_above g c c"
  shows "\<exists>out. sort_in_topological_order g author_date orig order = Some out \<and>
    mset out = mset orig \<and>
    (\<forall>i j. i < j \<and> j < length out \<longrightarrow> out ! i \<notin> set (parents g (out ! j)))"
  using sort_in_topological_order_ok [OF assms, of author_date order] unfolding sorted_wrt_iff_nth_less by blast

lemma topological_order_witness:
  "\<exists>out. sort_in_topological_order example_repo id [2, 5, 3, 4] REV_SORT_BY_COMMIT_DATE = Some out \<and>
    mset out = mset [2, 5, 3, 4]"
  using topological_order [of "[2, 5, 3, 4]" example_repo id REV_SORT_BY_COMMIT_DATE] example_acyclic by auto

end
