(* ===== verification/Git_Strings.thy ===== *)
theory Git_Strings
  imports Git_Order
begin

text \<open>
  Strings and object names as the code compares them: \<open>strcmp\<close> on the bytes before the NUL,
  \<open>memcmp\<close> on \<open>n\<close> bytes, \<open>hashcmp\<close> on the 20 bytes of an object name; growing an array with
  \<open>ALLOC_GROW\<close> (\<^verbatim>\<open>cache.h\<close>); and the interface of a lookup in a sorted table, which the binary
  searches of \<^verbatim>\<open>sha1-lookup.c\<close> and \<^verbatim>\<open>string-list.c\<close> provide.
\<close>

subsection \<open>Comparing bytes\<close>

fun strcmp :: "byte list \<Rightarrow> byte list \<Rightarrow> int" where
  "strcmp [] [] = 0"
| "strcmp [] (y # ys) = - uint y - 1"
| "strcmp (x # xs) [] = uint x + 1"
| "strcmp (x # xs) (y # ys) = (if x = y then strcmp xs ys else uint x - uint y)"

fun memcmp :: "byte list \<Rightarrow> byte list \<Rightarrow> nat \<Rightarrow> int" where
  "memcmp (x # xs) (y # ys) (Suc n) = (if x = y then memcmp xs ys n else uint x - uint y)"
| "memcmp _ _ _ = 0"

definition GIT_SHA1_RAWSZ :: nat where "GIT_SHA1_RAWSZ = 20"

definition hashcmp :: "byte list \<Rightarrow> byte list \<Rightarrow> int" where
  "hashcmp sha1 sha2 = memcmp sha1 sha2 GIT_SHA1_RAWSZ"

text \<open>The object names: the byte arrays of \<open>GIT_SHA1_RAWSZ\<close> bytes.\<close>

definition hashes :: "byte list set" where
  "hashes = {h. length h = GIT_SHA1_RAWSZ}"

lemma hashes_iff [simp]: "h \<in> hashes \<longleftrightarrow> length h = 20"
  by (simp add: hashes_def GIT_SHA1_RAWSZ_def)

text \<open>The sign of a comparison is that of the lexicographic order on the byte values.\<close>

lemma sgn_uint_diff: "sgn (uint (x :: byte) - uint y) = (if x < y then - 1 else if y < x then 1 else 0)"
  by (auto simp: word_less_def sgn_if)

lemma strcmp_sgn: "sgn (strcmp s t) = compare_keys id s t"
proof (induction s t rule: strcmp.induct)
  case (2 y ys)
  have "- uint y - 1 < 0"
    using uint_ge_0 [of y] by linarith
  then show ?case
    by (simp add: compare_keys_def sgn_if)
next
  case (3 x xs)
  have "0 < uint x + 1" "uint x + 1 \<noteq> 0"
    using uint_ge_0 [of x] by linarith+
  then show ?case
    by (simp add: compare_keys_def sgn_if)
next
  case (4 x xs y ys)
  then show ?case
    by (auto simp: compare_keys_def sgn_uint_diff split: if_splits)
qed (simp add: compare_keys_def)

lemma memcmp_sgn:
  "n \<le> length s \<Longrightarrow> n \<le> length t \<Longrightarrow> sgn (memcmp s t n) = compare_keys (take n) s t"
proof (induction s t n rule: memcmp.induct)
  case (1 x xs y ys n)
  then show ?case
    by (auto simp: compare_keys_def sgn_uint_diff split: if_splits)
qed (auto simp: compare_keys_def)

lemma hashcmp_sgn: "s \<in> hashes \<Longrightarrow> t \<in> hashes \<Longrightarrow> sgn (hashcmp s t) = compare_keys id s t"
  by (simp add: hashcmp_def GIT_SHA1_RAWSZ_def memcmp_sgn) (simp add: compare_keys_def)

lemma comparator_by_keys:
  assumes "\<And>x y. x \<in> S \<Longrightarrow> y \<in> S \<Longrightarrow> sgn (cmp x y) = compare_keys k x y"
  shows "comparator_on S cmp"
proof
  fix x y assume xy: "x \<in> S" "y \<in> S"
  then show "sgn (cmp y x) = - sgn (cmp x y)"
    using assms [OF xy] assms [OF xy(2,1)] by (auto simp: compare_keys_def)
next
  fix x y z assume xyz: "x \<in> S" "y \<in> S" "z \<in> S" "cmp x y \<le> 0" "cmp y z \<le> 0"
  then have "k x \<le> k y" "k y \<le> k z"
    using assms [of x y] assms [of y z] by (auto simp: compare_keys_def sgn_if split: if_splits)
  then have "k x \<le> k z"
    by (rule order.trans)
  then show "cmp x z \<le> 0"
    using assms [of x z] xyz by (auto simp: compare_keys_def sgn_if split: if_splits)
qed

lemma cmp_by_keys_less: "sgn (cmp x y) = compare_keys k x y \<Longrightarrow> cmp x y < 0 \<longleftrightarrow> k x < k y"
  by (auto simp: compare_keys_def sgn_if split: if_splits)

lemma cmp_by_keys_zero: "sgn (cmp x y) = compare_keys k x y \<Longrightarrow> cmp x y = 0 \<longleftrightarrow> k x = k y"
  by (auto simp: compare_keys_def sgn_if split: if_splits)

interpretation strcmp: comparator_on UNIV strcmp
  by (rule comparator_by_keys) (rule strcmp_sgn)

interpretation hashcmp: comparator_on hashes hashcmp
  by (rule comparator_by_keys) (rule hashcmp_sgn)

lemma strcmp_0 [simp]: "strcmp s t = 0 \<longleftrightarrow> s = t"
  using cmp_by_keys_zero [of strcmp s t id] strcmp_sgn [of s t] by simp

lemma strcmp_neg: "strcmp s t < 0 \<longleftrightarrow> s < t"
  using cmp_by_keys_less [of strcmp s t id] strcmp_sgn [of s t] by simp

lemma hashcmp_0: "s \<in> hashes \<Longrightarrow> t \<in> hashes \<Longrightarrow> hashcmp s t = 0 \<longleftrightarrow> s = t"
  using cmp_by_keys_zero [of hashcmp s t id] hashcmp_sgn [of s t] by simp

lemma hashcmp_neg: "s \<in> hashes \<Longrightarrow> t \<in> hashes \<Longrightarrow> hashcmp s t < 0 \<longleftrightarrow> s < t"
  using cmp_by_keys_less [of hashcmp s t id] hashcmp_sgn [of s t] by simp

subsection \<open>Growing an array\<close>

definition alloc_nr :: "nat \<Rightarrow> nat" where
  "alloc_nr x = (x + 16) * 3 div 2"

definition ALLOC_GROW :: "nat \<Rightarrow> nat \<Rightarrow> nat" where
  "ALLOC_GROW nr alloc =
     (if nr > alloc then (if alloc_nr alloc < nr then nr else alloc_nr alloc) else alloc)"

lemma ALLOC_GROW_room [bounds_simps]: "nr \<le> ALLOC_GROW nr alloc" "alloc \<le> ALLOC_GROW nr alloc"
  by (auto simp: ALLOC_GROW_def alloc_nr_def)

subsection \<open>Looking up a sorted table\<close>

text \<open>
  A lookup answers \<open>Inl i\<close>, the index of an equal key, or \<open>Inr p\<close>, the index at which the key
  would have to be inserted.
\<close>

locale sorted_lookup = comparator_on K cmp for K :: "'k set" and cmp :: "'k \<Rightarrow> 'k \<Rightarrow> int" +
  fixes ok :: "'k list \<Rightarrow> bool" and find :: "'k list \<Rightarrow> 'k \<Rightarrow> nat + nat"
  assumes table: "ok t \<Longrightarrow> set t \<subseteq> K \<and> ordered_by cmp t"
    and hit: "ok t \<Longrightarrow> k \<in> K \<Longrightarrow> find t k = Inl i \<Longrightarrow> i < length t \<and> cmp k (t ! i) = 0"
    and miss: "ok t \<Longrightarrow> k \<in> K \<Longrightarrow> find t k = Inr p \<Longrightarrow>
      p \<le> length t \<and> (\<forall>x\<in>set (take p t). cmp x k < 0) \<and> (\<forall>x\<in>set (drop p t). cmp k x < 0)"
begin

lemma miss_all:
  assumes "ok t" and "k \<in> K" and "find t k = Inr p" and "x \<in> set t"
  shows "cmp k x \<noteq> 0"
proof -
  have "x \<in> set (take p t) \<or> x \<in> set (drop p t)"
    using assms(4) by (metis Un_iff append_take_drop_id set_append)
  then show ?thesis
    using miss [OF assms(1-3)] zero_flip [of x k] table [OF assms(1)] assms(2,4)
    by (metis less_irrefl subsetD)
qed

lemma found_iff:
  assumes "ok t" and "k \<in> K"
  shows "isl (find t k) \<longleftrightarrow> (\<exists>x\<in>set t. cmp k x = 0)"
proof (cases "find t k")
  case (Inl i)
  then have "i < length t \<and> cmp k (t ! i) = 0"
    using assms hit by blast
  then show ?thesis
    using Inl nth_mem [of i t] by auto
next
  case (Inr p)
  then show ?thesis
    using miss_all [OF assms] by auto
qed

lemma insertion_ordered:
  assumes "ok t" and "k \<in> K" and "find t k = Inr p"
  shows "ordered_by cmp (take p t @ k # drop p t)"
proof -
  have "ordered_by cmp (take p t @ drop p t)"
    using table [OF assms(1)] by simp
  then show ?thesis
    using miss [OF assms] by (auto simp: ordered_by_append less_imp_le simp del: append_take_drop_id)
qed

lemma insertion_point:
  assumes "ok t" and "k \<in> K" and "find t k = Inr p"
  shows "p = length (filter (\<lambda>x. cmp x k < 0) t)"
proof -
  have "filter (\<lambda>x. cmp x k < 0) (take p t) = take p t"
    using miss [OF assms] by simp
  moreover have "filter (\<lambda>x. cmp x k < 0) (drop p t) = []"
  proof -
    have "\<not> cmp x k < 0" if "x \<in> set (drop p t)" for x
      using that miss [OF assms] pos_flip [of x k] table [OF assms(1)] assms(2) in_set_dropD [of x p t]
      by fastforce
    then show ?thesis
      by (simp add: filter_empty_conv)
  qed
  ultimately have "filter (\<lambda>x. cmp x k < 0) (take p t @ drop p t) = take p t"
    by (simp only: filter_append append_Nil2)
  then show ?thesis
    using miss [OF assms] by simp
qed

end

end
