(* ===== verification/Git_Qsort.thy ===== *)
theory Git_Qsort
  imports Git_Mergesort "HOL-Library.Monad_Syntax"
begin

text \<open>
  \<^verbatim>\<open>compat/qsort.c\<close> and \<^verbatim>\<open>compat/qsort_s.c\<close>: the top-down merge sort of arrays behind \<open>QSORT\<close> and
  \<open>QSORT_S\<close>.  An array is the list of its elements, a pointer into it an index, and the temporary
  buffer is a second array whose first contents are arbitrary.  An access outside an array is
  \<open>None\<close>.  The context pointer of the \<open>_s\<close> variant is part of the comparison function.
\<close>

subsection \<open>The code\<close>

definition mem_copy :: "'a list \<Rightarrow> nat \<Rightarrow> 'a list \<Rightarrow> nat \<Rightarrow> nat \<Rightarrow> 'a list option" where
  "mem_copy dst k src i n =
     (if length dst < k + n \<or> length src < i + n then None
      else Some (take k dst @ take n (drop i src) @ drop (k + n) dst))"

function msort_merge ::
    "('a \<Rightarrow> 'a \<Rightarrow> int) \<Rightarrow> 'a list \<Rightarrow> nat \<Rightarrow> nat \<Rightarrow> nat \<Rightarrow> nat \<Rightarrow> 'a list \<Rightarrow> nat \<Rightarrow>
       (nat \<times> nat \<times> nat \<times> 'a list \<times> nat) option" where
  "msort_merge cmp a b1 n1 b2 n2 t tmp =
     (if 0 < n1 \<and> 0 < n2 then
        (if length a \<le> b1 \<or> length a \<le> b2 \<or> length t \<le> tmp then None
         else if cmp (a ! b1) (a ! b2) \<le> 0
         then msort_merge cmp a (b1 + 1) (n1 - 1) b2 n2 (t[tmp := a ! b1]) (tmp + 1)
         else msort_merge cmp a b1 n1 (b2 + 1) (n2 - 1) (t[tmp := a ! b2]) (tmp + 1))
      else Some (b1, n1, n2, t, tmp))"
  by pat_completeness auto
termination
  by (relation "measure (\<lambda>(cmp, a, b1, n1, b2, n2, t, tmp). n1 + n2)") auto

declare msort_merge.simps [simp del]

function msort_with_tmp ::
    "('a \<Rightarrow> 'a \<Rightarrow> int) \<Rightarrow> 'a list \<Rightarrow> nat \<Rightarrow> nat \<Rightarrow> 'a list \<Rightarrow> ('a list \<times> 'a list) option" where
  "msort_with_tmp cmp a b n t =
     (if n \<le> 1 then Some (a, t)
      else
        let n1 = n div 2; n2 = n - n1; b1 = b; b2 = b + n1
        in do {
          (a1, t1) \<leftarrow> msort_with_tmp cmp a b1 n1 t;
          (a2, t2) \<leftarrow> msort_with_tmp cmp a1 b2 n2 t1;
          (b1, n1, n2, t3, tmp) \<leftarrow> msort_merge cmp a2 b1 n1 b2 n2 t2 0;
          t4 \<leftarrow> (if 0 < n1 then mem_copy t3 tmp a2 b1 n1 else Some t3);
          a3 \<leftarrow> mem_copy a2 b t4 0 (n - n2);
          Some (a3, t4)
        })"
  by pat_completeness auto
termination
  by (relation "measure (\<lambda>(cmp, a, b, n, t). n)") auto

declare msort_with_tmp.simps [simp del]

text \<open>
  \<open>s\<close> is the element size; \<open>st_mult\<close> dies when \<open>n * s\<close> does not fit a \<open>size_t\<close>, and an array below
  1024 bytes uses the buffer on the stack.  \<open>garbage\<close> is what the buffer holds before the sort.
\<close>

definition qsort_room :: "nat \<Rightarrow> nat \<Rightarrow> nat" where
  "qsort_room n s = (if n * s < 1024 then 1024 div s else n)"

definition git_qsort :: "(nat \<Rightarrow> 'a) \<Rightarrow> nat \<Rightarrow> ('a \<Rightarrow> 'a \<Rightarrow> int) \<Rightarrow> 'a list \<Rightarrow> 'a list outcome" where
  "git_qsort garbage s cmp b =
     (let n = length b in
      if 2 ^ 64 \<le> n * s then Failure
      else case msort_with_tmp cmp b 0 n (map garbage [0..<qsort_room n s]) of
        None \<Rightarrow> Fault
      | Some (b', t) \<Rightarrow> Value b')"

definition sane_qsort :: "(nat \<Rightarrow> 'a) \<Rightarrow> nat \<Rightarrow> ('a \<Rightarrow> 'a \<Rightarrow> int) \<Rightarrow> 'a list \<Rightarrow> 'a list outcome" where
  "sane_qsort garbage s cmp b = (if length b > 1 then git_qsort garbage s cmp b else Value b)"

text \<open>
  \<open>git_qsort_s\<close> returns \<open>-1\<close> for a NULL array or callback: \<open>None\<close> as the array stands for NULL.
\<close>

definition git_qsort_s ::
    "(nat \<Rightarrow> 'a) \<Rightarrow> nat \<Rightarrow> ('a \<Rightarrow> 'a \<Rightarrow> int) option \<Rightarrow> 'a list option \<Rightarrow> nat \<Rightarrow> (int \<times> 'a list option) outcome" where
  "git_qsort_s garbage s cmp b n =
     (if 2 ^ 64 \<le> n * s then Failure
      else if n = 0 then Value (0, b)
      else case (b, cmp) of
        (Some b, Some cmp) \<Rightarrow>
          (case msort_with_tmp cmp b 0 n (map garbage [0..<qsort_room n s]) of
             None \<Rightarrow> Fault
           | Some (b', t) \<Rightarrow> Value (0, Some b'))
      | _ \<Rightarrow> Value (- 1, b))"

subsection \<open>Sorting a list by halves\<close>

function msort_list :: "('a \<Rightarrow> 'a \<Rightarrow> int) \<Rightarrow> 'a list \<Rightarrow> 'a list" where
  "msort_list cmp xs =
     (if length xs \<le> 1 then xs
      else merge_runs cmp (msort_list cmp (take (length xs div 2) xs))
             (msort_list cmp (drop (length xs div 2) xs)))"
  by pat_completeness auto
termination
  by (relation "measure (\<lambda>(cmp, xs). length xs)") auto

declare msort_list.simps [simp del]

lemma msort_list_short: "length xs \<le> 1 \<Longrightarrow> msort_list cmp xs = xs"
  by (subst msort_list.simps) simp

lemma msort_list_halves:
  "length xs = (length xs + length ys) div 2 \<Longrightarrow> 1 < length xs + length ys \<Longrightarrow>
     msort_list cmp (xs @ ys) = merge_runs cmp (msort_list cmp xs) (msort_list cmp ys)"
  by (subst msort_list.simps) simp

lemma mset_msort_list [simp]: "mset (msort_list cmp xs) = mset xs"
proof (induction cmp xs rule: msort_list.induct)
  case (1 cmp xs)
  show ?case
    using 1 by (subst msort_list.simps) (simp flip: mset_append)
qed

lemma set_msort_list [simp]: "set (msort_list cmp xs) = set xs"
  by (metis mset_msort_list set_mset_mset)

lemma length_msort_list [simp]: "length (msort_list cmp xs) = length xs"
  by (metis mset_msort_list size_mset)

context comparator_on
begin

lemma msort_list_ordered: "set xs \<subseteq> S \<Longrightarrow> ordered_by cmp (msort_list cmp xs)"
proof (induction "length xs" arbitrary: xs rule: less_induct)
  case less
  show ?case
  proof (cases "length xs \<le> 1")
    case True
    then show ?thesis
      by (subst msort_list.simps, cases xs) auto
  next
    case False
    let ?l = "take (length xs div 2) xs" and ?r = "drop (length xs div 2) xs"
    have "set ?l \<subseteq> S" "set ?r \<subseteq> S"
      using less.prems by (auto dest: in_set_takeD in_set_dropD)
    then show ?thesis
      using False less.hyps [of ?l] less.hyps [of ?r] merge_runs_ordered
      by (subst msort_list.simps) (simp add: subset_iff)
  qed
qed

lemma filter_msort_list:
  "set xs \<subseteq> S \<Longrightarrow> k \<in> S \<Longrightarrow>
     filter (\<lambda>z. cmp k z = 0) (msort_list cmp xs) = filter (\<lambda>z. cmp k z = 0) xs"
proof (induction "length xs" arbitrary: xs rule: less_induct)
  case less
  show ?case
  proof (cases "length xs \<le> 1")
    case True
    then show ?thesis
      by (subst msort_list.simps) auto
  next
    case False
    let ?l = "take (length xs div 2) xs" and ?r = "drop (length xs div 2) xs"
    have sub: "set ?l \<subseteq> S" "set ?r \<subseteq> S"
      using less.prems by (auto dest: in_set_takeD in_set_dropD)
    have "filter (\<lambda>z. cmp k z = 0) (msort_list cmp xs) =
        filter (\<lambda>z. cmp k z = 0) ?l @ filter (\<lambda>z. cmp k z = 0) ?r"
      using False sub less.hyps [of ?l] less.hyps [of ?r] less.prems(2) msort_list_ordered [of ?l]
      by (subst msort_list.simps) (simp add: filter_merge_runs)
    then show ?thesis
      by (metis append_take_drop_id filter_append)
  qed
qed

lemma msort_list_stable: "set xs \<subseteq> S \<Longrightarrow> stable_sort_of cmp xs (msort_list cmp xs)"
  unfolding stable_sort_of_def using msort_list_ordered filter_msort_list by auto

end

subsection \<open>The array code computes it\<close>

lemma take_Suc_update: "k < length t \<Longrightarrow> take (Suc k) (t[k := x]) = take k t @ [x]"
  by (simp add: take_Suc_conv_app_nth)

lemma take_drop_Cons: "b < length a \<Longrightarrow> 0 < n \<Longrightarrow> take n (drop b a) = a ! b # take (n - 1) (drop (b + 1) a)"
  by (cases n) (simp_all add: Cons_nth_drop_Suc [symmetric])

text \<open>What the merge loop leaves: the merged prefix in the buffer, and at most one run unread.\<close>

definition merged :: "('a \<Rightarrow> 'a \<Rightarrow> int) \<Rightarrow> 'a list \<Rightarrow> nat \<Rightarrow> nat \<Rightarrow> nat \<Rightarrow> nat \<Rightarrow> 'a list \<Rightarrow> nat \<Rightarrow>
    nat \<times> nat \<times> nat \<times> 'a list \<times> nat \<Rightarrow> bool" where
  "merged cmp a b1 n1 b2 n2 t tmp r \<longleftrightarrow>
     (case r of (b1', n1', n2', t', tmp') \<Rightarrow>
        b1' + n1' = b1 + n1 \<and> n1' \<le> n1 \<and> n2' \<le> n2 \<and> (n1' = 0 \<or> n2' = 0) \<and>
        tmp' + n1' + n2' = tmp + n1 + n2 \<and> length t' = length t \<and>
        take tmp' t' @ take n1' (drop b1' a) @ take n2' (drop (b2 + n2 - n2') a) =
          take tmp t @ merge_runs cmp (take n1 (drop b1 a)) (take n2 (drop b2 a)))"

lemma msort_merge_ok:
  assumes "b1 + n1 \<le> length a" and "b2 + n2 \<le> length a" and "tmp + n1 + n2 \<le> length t"
  shows "\<exists>r. msort_merge cmp a b1 n1 b2 n2 t tmp = Some r \<and> merged cmp a b1 n1 b2 n2 t tmp r"
  using assms
proof (induction cmp a b1 n1 b2 n2 t tmp rule: msort_merge.induct)
  case (1 cmp a b1 n1 b2 n2 t tmp)
  show ?case
  proof (cases "0 < n1 \<and> 0 < n2")
    case False
    then show ?thesis
      by (subst msort_merge.simps) (auto simp: merged_def)
  next
    case True
    then have in_range: "\<not> (length a \<le> b1 \<or> length a \<le> b2 \<or> length t \<le> tmp)"
      using "1.prems" by auto
    note heads = take_drop_Cons [of b1 a n1] take_drop_Cons [of b2 a n2]
    show ?thesis
    proof (cases "cmp (a ! b1) (a ! b2) \<le> 0")
      case le: True
      obtain r where r: "msort_merge cmp a (b1 + 1) (n1 - 1) b2 n2 (t[tmp := a ! b1]) (tmp + 1) = Some r"
        "merged cmp a (b1 + 1) (n1 - 1) b2 n2 (t[tmp := a ! b1]) (tmp + 1) r"
        using "1.IH"(1) [OF True in_range le] "1.prems" True by auto
      have "merged cmp a b1 n1 b2 n2 t tmp r"
        using r(2) True in_range le heads
        by (auto simp: merged_def take_Suc_update split: prod.splits)
      then show ?thesis
        using r(1) True in_range le by (subst msort_merge.simps) auto
    next
      case gt: False
      obtain r where r: "msort_merge cmp a b1 n1 (b2 + 1) (n2 - 1) (t[tmp := a ! b2]) (tmp + 1) = Some r"
        "merged cmp a b1 n1 (b2 + 1) (n2 - 1) (t[tmp := a ! b2]) (tmp + 1) r"
        using "1.IH"(2) [OF True in_range gt] "1.prems" True by auto
      have "merged cmp a b1 n1 b2 n2 t tmp r"
        using r(2) True in_range gt heads
        by (auto simp: merged_def take_Suc_update split: prod.splits)
      then show ?thesis
        using r(1) True in_range gt by (subst msort_merge.simps) auto
    qed
  qed
qed

text \<open>Sorting the \<open>n\<close> elements at \<open>b\<close> replaces them and nothing else.\<close>

definition sorted_at :: "('a \<Rightarrow> 'a \<Rightarrow> int) \<Rightarrow> 'a list \<Rightarrow> nat \<Rightarrow> nat \<Rightarrow> 'a list" where
  "sorted_at cmp a b n = take b a @ msort_list cmp (take n (drop b a)) @ drop (b + n) a"

lemma length_sorted_at [simp]: "b + n \<le> length a \<Longrightarrow> length (sorted_at cmp a b n) = length a"
  by (simp add: sorted_at_def)

lemma sorted_at_split:
  fixes cmp :: "'a \<Rightarrow> 'a \<Rightarrow> int"
  assumes "n = n1 + n2" and "n1 = n div 2" and "b + n \<le> length a" and "1 < n"
  defines "a2 \<equiv> sorted_at cmp (sorted_at cmp a b n1) (b + n1) n2"
  shows "take b a2 = take b a" and "drop (b + n) a2 = drop (b + n) a"
    and "merge_runs cmp (take n1 (drop b a2)) (take n2 (drop (b + n1) a2)) =
      msort_list cmp (take n (drop b a))"
proof -
  define xs where "xs = take n1 (drop b a)"
  define ys where "ys = take n2 (drop (b + n1) a)"
  have lens: "length xs = n1" "length ys = n2" "length (take b a) = b"
    using assms by (auto simp: xs_def ys_def)
  have ys: "drop (b + n1) a = ys @ drop (b + n) a"
  proof -
    have "drop (b + n) a = drop n2 (drop (b + n1) a)"
      by (simp add: assms(1) add.commute add.left_commute)
    then show ?thesis
      using append_take_drop_id [of n2 "drop (b + n1) a"] by (simp add: ys_def)
  qed
  have xs: "drop b a = xs @ drop (b + n1) a"
    using append_take_drop_id [of n1 "drop b a"] by (simp add: xs_def add.commute)
  have a1: "sorted_at cmp a b n1 = (take b a @ msort_list cmp xs) @ ys @ drop (b + n) a"
    using ys by (simp add: sorted_at_def xs_def)
  have len1: "length (take b a @ msort_list cmp xs) = b + n1"
    using lens by simp
  have a2: "a2 = take b a @ msort_list cmp xs @ msort_list cmp ys @ drop (b + n) a"
    unfolding a2_def a1 by (subst sorted_at_def) (use len1 lens(2) in simp)
  show "take b a2 = take b a" "drop (b + n) a2 = drop (b + n) a"
    using a2 lens assms(1) by simp_all
  have "take n (drop b a) = xs @ ys"
    using xs ys lens assms(1) by simp
  moreover have "take n1 (drop b a2) = msort_list cmp xs" "take n2 (drop (b + n1) a2) = msort_list cmp ys"
    using a2 lens by simp_all
  ultimately show "merge_runs cmp (take n1 (drop b a2)) (take n2 (drop (b + n1) a2)) =
      msort_list cmp (take n (drop b a))"
    using msort_list_halves [of xs ys cmp] assms(1,2,4) lens(1,2) by metis
qed

lemma msort_with_tmp_ok:
  assumes "b + n \<le> length a" and "n \<le> length t"
  shows "\<exists>t'. msort_with_tmp cmp a b n t = Some (sorted_at cmp a b n, t') \<and> length t' = length t"
  using assms
proof (induction n arbitrary: a b t rule: less_induct)
  case (less n)
  show ?case
  proof (cases "n \<le> 1")
    case True
    moreover have "msort_list cmp (take n (drop b a)) = take n (drop b a)"
      using True by (intro msort_list_short) simp
    moreover have "take b a @ take n (drop b a) @ drop (b + n) a = a"
      by (metis add.commute append_take_drop_id drop_drop)
    ultimately show ?thesis
      by (subst msort_with_tmp.simps) (simp add: sorted_at_def)
  next
    case False
    define n1 where "n1 = n div 2"
    define n2 where "n2 = n - n1"
    have n: "n1 < n" "n2 < n" "n = n1 + n2"
      using False by (auto simp: n1_def n2_def)
    define a2 where "a2 = sorted_at cmp (sorted_at cmp a b n1) (b + n1) n2"
    obtain t1 where t1: "msort_with_tmp cmp a b n1 t = Some (sorted_at cmp a b n1, t1)" "length t1 = length t"
      using less.IH [OF n(1), of b a t] less.prems n by auto
    obtain t2 where t2: "msort_with_tmp cmp (sorted_at cmp a b n1) (b + n1) n2 t1 = Some (a2, t2)"
      "length t2 = length t"
      using less.IH [OF n(2), of "b + n1" "sorted_at cmp a b n1" t1] less.prems n t1(2)
      by (auto simp: a2_def)
    have len: "length a2 = length a"
      using less.prems n by (simp add: a2_def)
    obtain b1' n1' n2' t3 k where m: "msort_merge cmp a2 b n1 (b + n1) n2 t2 0 = Some (b1', n1', n2', t3, k)"
      "merged cmp a2 b n1 (b + n1) n2 t2 0 (b1', n1', n2', t3, k)"
      using msort_merge_ok [of b n1 a2 "b + n1" n2 0 t2 cmp] less.prems n len t2(2) by auto
    note split = sorted_at_split [OF n(3) n1_def less.prems(1), of cmp, folded a2_def]
    have k: "k + n1' + n2' = n" "b1' + n1' = b + n1" "n1' \<le> n1" "n2' \<le> n2" "length t3 = length t"
      using m(2) n(3) t2(2) by (auto simp: merged_def)
    have runs: "take k t3 @ take n1' (drop b1' a2) @ take n2' (drop (b + n - n2') a2) =
        msort_list cmp (take n (drop b a))"
      using m(2) split(3) n(3) False by (simp add: merged_def add.assoc)
    define t4 where "t4 = take k t3 @ take n1' (drop b1' a2) @ drop (k + n1') t3"
    have t4: "(if 0 < n1' then mem_copy t3 k a2 b1' n1' else Some t3) = Some t4" "length t4 = length t"
      using k less.prems n len by (auto simp: mem_copy_def t4_def)
    have len4: "length (take k t3) = k" "length (take n1' (drop b1' a2)) = n1'"
      using k less.prems n len by simp_all
    have "n - n2' = k + n1'"
      using k(1) by simp
    then have pre: "take (n - n2') t4 = take k t3 @ take n1' (drop b1' a2)"
      using len4 by (simp add: t4_def)
    have suf: "drop (b + (n - n2')) a2 = take n2' (drop (b + n - n2') a2) @ drop (b + n) a"
    proof -
      have "n2' + (b + n - n2') = b + n" "b + (n - n2') = b + n - n2'"
        using k(4) n(3) by simp_all
      then show ?thesis
        using append_take_drop_id [of n2' "drop (b + n - n2') a2"] split(2) False by simp
    qed
    have "take b a2 @ take (n - n2') t4 @ drop (b + (n - n2')) a2 = sorted_at cmp a b n"
      unfolding sorted_at_def runs [symmetric] using pre suf split(1) False by simp
    then have "mem_copy a2 b t4 0 (n - n2') = Some (sorted_at cmp a b n)"
      using t4(2) less.prems len by (auto simp: mem_copy_def)
    then show ?thesis
      using False t1(1) t2(1) m(1) t4
      by (subst msort_with_tmp.simps) (simp add: n1_def [symmetric] n2_def [symmetric] Let_def)
  qed
qed

lemma qsort_room_ok: "0 < s \<Longrightarrow> n \<le> qsort_room n s"
  by (auto simp: qsort_room_def less_eq_div_iff_mult_less_eq)

lemma git_qsort_eq:
  "0 < s \<Longrightarrow> length b * s < 2 ^ 64 \<Longrightarrow> git_qsort garbage s cmp b = Value (msort_list cmp b)"
  using msort_with_tmp_ok [of 0 "length b" b "map garbage [0..<qsort_room (length b) s]" cmp]
    qsort_room_ok [of s "length b"]
  by (auto simp: git_qsort_def sorted_at_def Let_def)

lemma sane_qsort_eq:
  assumes "0 < s" and "length b * s < 2 ^ 64"
  shows "sane_qsort garbage s cmp b = Value (msort_list cmp b)"
proof (cases "length b > 1")
  case False
  then show ?thesis
    by (simp add: sane_qsort_def msort_list_short)
qed (use assms in \<open>simp add: sane_qsort_def git_qsort_eq\<close>)

lemma git_qsort_s_eq:
  "0 < s \<Longrightarrow> length b * s < 2 ^ 64 \<Longrightarrow>
     git_qsort_s garbage s (Some cmp) (Some b) (length b) = Value (0, Some (msort_list cmp b))"
  using msort_with_tmp_ok [of 0 "length b" b "map garbage [0..<qsort_room (length b) s]" cmp]
    qsort_room_ok [of s "length b"]
  by (cases "b = []") (auto simp: git_qsort_s_def sorted_at_def msort_list_short)

text \<open>
  (C12) For a comparison callback that is a total preorder on the elements, \<open>git_qsort\<close> of an array
  whose size fits \<open>size_t\<close> never reads or writes outside the array and its temporary buffer,
  whatever the buffer holds at first, and leaves a stable sort of the array.
\<close>
theorem git_qsort_sorts:
  assumes "comparator_on S cmp" and "set b \<subseteq> S" and "0 < s" and "length b * s < 2 ^ 64"
  shows "\<exists>b'. git_qsort garbage s cmp b = Value b' \<and> stable_sort_of cmp b b'"
  using assms comparator_on.msort_list_stable git_qsort_eq by blast

lemma git_qsort_sorts_witness:
  "\<exists>b'. git_qsort (\<lambda>i. 7) 4 (compare_keys (\<lambda>x. x div 10)) [31, 12, 35, 11 :: nat] = Value b' \<and>
     stable_sort_of (compare_keys (\<lambda>x. x div 10)) [31, 12, 35, 11] b'"
  by (rule git_qsort_sorts [OF keys.comparator_on_axioms]) simp_all

end
