(* ===== verification/Git_Sha1_Lookup.thy ===== *)
theory Git_Sha1_Lookup
  imports Git_Strings Git_Qsort
begin

text \<open>
  \<^verbatim>\<open>sha1-lookup.c\<close>: the binary search over object names whose first probe is interpolated from
  the leading bytes, and \<^verbatim>\<open>sha1-array.c\<close>: an array of object names sorted on demand.  A table is
  the list of the names that the access function returns; \<open>size_t\<close> values are naturals, with the
  product in the probe reduced modulo \<open>2 ^ 64\<close>, and the conversions of the results to \<open>int\<close> are
  written out.
\<close>

subsection \<open>The interpolated binary search\<close>

definition size_to_int :: "int \<Rightarrow> int" where
  "size_to_int x = signed_take_bit 31 x"

text \<open>The \<open>uint32_t\<close> value of the two bytes at \<open>ofs\<close>.\<close>

definition take2 :: "byte list \<Rightarrow> nat \<Rightarrow> nat" where
  "take2 sha1 ofs = unat (push_bit 8 (ucast (sha1 ! ofs)) OR ucast (sha1 ! (ofs + 1)) :: u32)"

text \<open>The \<open>for\<close> loop over \<open>ofs\<close>: \<open>Inl\<close> is a \<open>return\<close>, \<open>Inr\<close> the first probe, \<open>Failure\<close> the \<open>die\<close>.\<close>

fun sha1_pos_probe :: "byte list \<Rightarrow> byte list list \<Rightarrow> nat list \<Rightarrow> (int + nat) outcome" where
  "sha1_pos_probe sha1 table [] = Value (Inr 0)"
| "sha1_pos_probe sha1 table (ofs # rest) =
     (let nr = length table;
          lov = take2 (table ! 0) ofs; hiv = take2 (table ! (nr - 1)) ofs; miv = take2 sha1 ofs
      in if miv < lov then Value (Inl (- 1))
         else if hiv < miv then Value (Inl (size_to_int (- 1 - int nr)))
         else if lov \<noteq> hiv then
           (let mi = ((nr - 1) * (miv - lov)) mod 2 ^ 64 div (hiv - lov)
            in if mi < nr then Value (Inr mi) else Failure)
         else sha1_pos_probe sha1 table rest)"

text \<open>One comparison of the \<open>do\<close> loop: a hit, or the next \<open>lo\<close> and \<open>hi\<close>.\<close>

definition sha1_pos_step :: "byte list \<Rightarrow> byte list list \<Rightarrow> nat \<Rightarrow> nat \<Rightarrow> nat \<Rightarrow> nat + nat \<times> nat" where
  "sha1_pos_step sha1 table lo hi mi =
     (let cmp = hashcmp (table ! mi) sha1
      in if cmp = 0 then Inl mi else if cmp > 0 then Inr (lo, mi) else Inr (mi + 1, hi))"

function sha1_pos_loop :: "byte list \<Rightarrow> byte list list \<Rightarrow> nat \<Rightarrow> nat \<Rightarrow> int" where
  "sha1_pos_loop sha1 table lo hi =
     (if lo < hi then
        (case sha1_pos_step sha1 table lo hi (lo + (hi - lo) div 2) of
           Inl mi \<Rightarrow> size_to_int (int mi)
         | Inr (lo', hi') \<Rightarrow> sha1_pos_loop sha1 table lo' hi')
      else size_to_int (- int lo - 1))"
  by pat_completeness auto
termination
  by (relation "measure (\<lambda>(sha1, table, lo, hi). hi - lo)")
    (auto simp: sha1_pos_step_def Let_def split: if_splits)

declare sha1_pos_loop.simps [simp del]

definition sha1_pos :: "byte list \<Rightarrow> byte list list \<Rightarrow> int outcome" where
  "sha1_pos sha1 table =
     (let nr = length table in
      if nr = 0 then Value (- 1)
      else case (if nr \<noteq> 1 then sha1_pos_probe sha1 table [0, 2, 4, 6, 8, 10, 12, 14, 16] else Value (Inr 0)) of
        Fault \<Rightarrow> Fault
      | Failure \<Rightarrow> Failure
      | Value (Inl r) \<Rightarrow> Value r
      | Value (Inr mi) \<Rightarrow>
          (case sha1_pos_step sha1 table 0 nr mi of
             Inl mi \<Rightarrow> Value (size_to_int (int mi))
           | Inr (lo, hi) \<Rightarrow> Value (sha1_pos_loop sha1 table lo hi)))"

subsection \<open>Object name arrays\<close>

record oid_array =
  oa_oid :: "byte list list"
  oa_alloc :: nat
  oa_sorted :: bool

definition OID_ARRAY_INIT :: oid_array where
  "OID_ARRAY_INIT = \<lparr>oa_oid = [], oa_alloc = 0, oa_sorted = False\<rparr>"

definition oid_array_append :: "oid_array \<Rightarrow> byte list \<Rightarrow> oid_array" where
  "oid_array_append array oid =
     array\<lparr>oa_alloc := ALLOC_GROW (length (oa_oid array) + 1) (oa_alloc array),
           oa_oid := oa_oid array @ [oid], oa_sorted := False\<rparr>"

definition oid_array_sort :: "(nat \<Rightarrow> byte list) \<Rightarrow> oid_array \<Rightarrow> oid_array outcome" where
  "oid_array_sort garbage array =
     (case sane_qsort garbage GIT_SHA1_RAWSZ hashcmp (oa_oid array) of
        Value oid \<Rightarrow> Value (array\<lparr>oa_oid := oid, oa_sorted := True\<rparr>)
      | Failure \<Rightarrow> Failure
      | Fault \<Rightarrow> Fault)"

definition sort_if_needed :: "(nat \<Rightarrow> byte list) \<Rightarrow> oid_array \<Rightarrow> oid_array outcome" where
  "sort_if_needed garbage array =
     (if \<not> oa_sorted array then oid_array_sort garbage array else Value array)"

definition oid_array_lookup ::
    "(nat \<Rightarrow> byte list) \<Rightarrow> oid_array \<Rightarrow> byte list \<Rightarrow> (oid_array \<times> int) outcome" where
  "oid_array_lookup garbage array oid =
     (case sort_if_needed garbage array of
        Value array \<Rightarrow>
          (case sha1_pos oid (oa_oid array) of
             Value i \<Rightarrow> Value (array, i)
           | Failure \<Rightarrow> Failure
           | Fault \<Rightarrow> Fault)
      | Failure \<Rightarrow> Failure
      | Fault \<Rightarrow> Fault)"

definition oid_array_clear :: "oid_array \<Rightarrow> oid_array" where
  "oid_array_clear array = array\<lparr>oa_oid := [], oa_alloc := 0, oa_sorted := False\<rparr>"

text \<open>The callback takes a name and the caller's data; a non-zero result ends the walk.\<close>

fun for_each_unique_loop ::
    "(byte list \<Rightarrow> 'd \<Rightarrow> int \<times> 'd) \<Rightarrow> byte list option \<Rightarrow> byte list list \<Rightarrow> 'd \<Rightarrow> int \<times> 'd" where
  "for_each_unique_loop f prev [] d = (0, d)"
| "for_each_unique_loop f prev (oid # oids) d =
     (if (case prev of None \<Rightarrow> False | Some p \<Rightarrow> hashcmp oid p = 0)
      then for_each_unique_loop f (Some oid) oids d
      else case f oid d of
        (ret, d') \<Rightarrow> if ret \<noteq> 0 then (ret, d') else for_each_unique_loop f (Some oid) oids d')"

definition oid_array_for_each_unique ::
    "(nat \<Rightarrow> byte list) \<Rightarrow> oid_array \<Rightarrow> (byte list \<Rightarrow> 'd \<Rightarrow> int \<times> 'd) \<Rightarrow> 'd \<Rightarrow> (oid_array \<times> int \<times> 'd) outcome" where
  "oid_array_for_each_unique garbage array f d =
     (case sort_if_needed garbage array of
        Value array \<Rightarrow> Value (array, for_each_unique_loop f None (oa_oid array) d)
      | Failure \<Rightarrow> Failure
      | Fault \<Rightarrow> Fault)"

subsection \<open>Two bytes at a time\<close>

lemma take2_eq: "take2 s ofs = 256 * unat (s ! ofs) + unat (s ! (ofs + 1))"
proof -
  let ?a = "s ! ofs" and ?b = "s ! (ofs + 1)"
  have lt: "unat ?a < 256" "unat ?b < 256"
    using unsigned_less [of ?a, where 'a = nat] unsigned_less [of ?b, where 'a = nat] by simp_all
  have hi: "unat (push_bit 8 (ucast ?a) :: u32) = 256 * unat ?a"
    using lt by (simp add: push_bit_eq_mult unat_word_ariths unsigned_ucast_eq take_bit_nat_eq_self)
  have lo: "unat (ucast ?b :: u32) = unat ?b"
    using lt by (simp add: unsigned_ucast_eq take_bit_nat_eq_self)
  have "(push_bit 8 (ucast ?a) :: u32) OR ucast ?b = push_bit 8 (ucast ?a) + ucast ?b"
    by (rule disjunctive_add [symmetric]) (auto simp: bit_simps dest: bit_imp_le_length)
  moreover have "unat (push_bit 8 (ucast ?a) + ucast ?b :: u32) = 256 * unat ?a + unat ?b"
    using hi lo lt by (subst unat_plus_simple [THEN iffD1])
      (simp_all add: word_le_nat_alt unat_word_ariths)
  ultimately show ?thesis
    by (simp add: take2_def)
qed

lemma append_less_append: "xs @ ys < xs @ zs \<longleftrightarrow> ys < (zs :: 'a::linorder list)"
  by (induction xs) simp_all

lemma drop_two: "ofs + 1 < length s \<Longrightarrow> drop ofs s = s ! ofs # s ! (ofs + 1) # drop (ofs + 2) s"
  by (metis Cons_nth_drop_Suc Suc_eq_plus1 add_2_eq_Suc' add_lessD1)

lemma take2_less:
  assumes "take ofs s = take ofs t" and "ofs + 1 < length s" and "ofs + 1 < length t"
    and "take2 s ofs < take2 t ofs"
  shows "s < t"
proof -
  have "unat (s ! (ofs + 1)) < 256" "unat (t ! (ofs + 1)) < 256"
    using unsigned_less [where 'a = nat and 'b = 8] by simp_all
  then have "unat (s ! ofs) < unat (t ! ofs) \<or>
      unat (s ! ofs) = unat (t ! ofs) \<and> unat (s ! (ofs + 1)) < unat (t ! (ofs + 1))"
    using assms(4) unfolding take2_eq by linarith
  then have "s ! ofs < t ! ofs \<or> s ! ofs = t ! ofs \<and> s ! (ofs + 1) < t ! (ofs + 1)"
    unfolding word_less_nat_alt word_unat_eq_iff .
  then have "drop ofs s < drop ofs t"
    using drop_two [OF assms(2)] drop_two [OF assms(3)] by auto
  then show ?thesis
    using assms(1) append_less_append [of "take ofs s" "drop ofs s" "drop ofs t"]
    by (metis append_take_drop_id)
qed

lemma two_digits: "256 * a + b = 256 * c + d \<Longrightarrow> b < 256 \<Longrightarrow> d < 256 \<Longrightarrow> a = c \<and> b = (d :: nat)"
  using mod_mult_self3 [of a 256 b] mod_mult_self3 [of c 256 d] by (auto simp: mult.commute)

lemma take2_same:
  assumes "take ofs s = take ofs t" and "ofs + 1 < length s" and "ofs + 1 < length t"
    and "take2 s ofs = take2 t ofs"
  shows "take (ofs + 2) s = take (ofs + 2) t"
proof -
  have "unat (s ! (ofs + 1)) < 256" "unat (t ! (ofs + 1)) < 256"
    using unsigned_less [where 'a = nat and 'b = 8] by simp_all
  then have "s ! ofs = t ! ofs" "s ! (ofs + 1) = t ! (ofs + 1)"
    using two_digits [OF assms(4) [unfolded take2_eq]] by (simp_all add: word_unat_eq_iff)
  then show ?thesis
    using assms(1-3) by (simp add: take_Suc_conv_app_nth)
qed

subsection \<open>The result of a search\<close>

definition search_result :: "byte list list \<Rightarrow> byte list \<Rightarrow> int \<Rightarrow> bool" where
  "search_result t k r \<longleftrightarrow>
     (\<exists>i<length t. r = int i \<and> t ! i = k) \<or>
     (\<exists>p\<le>length t. r = - int p - 1 \<and> (\<forall>i<p. t ! i < k) \<and> (\<forall>i. p \<le> i \<and> i < length t \<longrightarrow> k < t ! i))"

definition search_inv :: "byte list list \<Rightarrow> byte list \<Rightarrow> nat \<Rightarrow> nat \<Rightarrow> bool" where
  "search_inv t k lo hi \<longleftrightarrow>
     lo \<le> hi \<and> hi \<le> length t \<and> (\<forall>i<lo. t ! i < k) \<and> (\<forall>i. hi \<le> i \<and> i < length t \<longrightarrow> k < t ! i)"

lemma size_to_int_small: "- (2 ^ 31) \<le> x \<Longrightarrow> x < 2 ^ 31 \<Longrightarrow> size_to_int x = x"
  by (simp add: size_to_int_def signed_take_bit_int_eq_self)

definition hash_table :: "byte list list \<Rightarrow> bool" where
  "hash_table t \<longleftrightarrow> set t \<subseteq> hashes \<and> sorted t \<and> length t < 2 ^ 31"

lemma sha1_pos_step_inv:
  assumes "hash_table t" and "k \<in> hashes" and "search_inv t k lo hi" and "lo \<le> mi" and "mi < hi"
  shows "case sha1_pos_step k t lo hi mi of
      Inl i \<Rightarrow> i < length t \<and> t ! i = k
    | Inr (lo', hi') \<Rightarrow> search_inv t k lo' hi'"
proof -
  have mi: "mi < length t" "t ! mi \<in> hashes"
    using assms nth_mem [of mi t] unfolding hash_table_def search_inv_def
    by (auto simp del: hashes_iff)
  have mono: "t ! i \<le> t ! j" if "i \<le> j" "j < length t" for i j
    using assms(1) that by (simp add: hash_table_def sorted_nth_mono)
  consider "hashcmp (t ! mi) k = 0" "t ! mi = k" | "hashcmp (t ! mi) k > 0" "k < t ! mi"
    | "hashcmp (t ! mi) k < 0" "t ! mi < k"
    using hashcmp_0 [OF mi(2) assms(2)] hashcmp_neg [OF mi(2) assms(2)]
    by (metis linorder_neqE_linordered_idom linorder_cases)
  then show ?thesis
  proof cases
    case 1
    then show ?thesis
      using mi by (simp add: sha1_pos_step_def)
  next
    case 2
    then have "\<forall>i. mi \<le> i \<and> i < length t \<longrightarrow> k < t ! i"
      using mono by (meson less_le_trans)
    then show ?thesis
      using 2 assms(3,4) mi by (auto simp: sha1_pos_step_def search_inv_def)
  next
    case 3
    then have "\<forall>i<mi + 1. t ! i < k"
      using mono [OF _ mi(1)] by (metis Suc_eq_plus1 le_less_trans less_Suc_eq_le)
    then show ?thesis
      using 3 assms(3,5) by (auto simp: sha1_pos_step_def search_inv_def)
  qed
qed

lemma sha1_pos_loop_result:
  assumes "hash_table t" and "k \<in> hashes"
  shows "search_inv t k lo hi \<Longrightarrow> search_result t k (sha1_pos_loop k t lo hi)"
  using assms
proof (induction k t lo hi rule: sha1_pos_loop.induct)
  case (1 k t lo hi)
  have len: "length t < 2 ^ 31"
    using "1.prems" by (simp add: hash_table_def)
  show ?case
  proof (cases "lo < hi")
    case True
    let ?mi = "lo + (hi - lo) div 2"
    have step: "case sha1_pos_step k t lo hi ?mi of
        Inl i \<Rightarrow> i < length t \<and> t ! i = k
      | Inr (lo', hi') \<Rightarrow> search_inv t k lo' hi'"
      by (rule sha1_pos_step_inv [OF "1.prems"(2,3,1)]) (use True in linarith)+
    show ?thesis
    proof (cases "sha1_pos_step k t lo hi ?mi")
      case (Inl i)
      then have "search_result t k (int i)" "size_to_int (int i) = int i"
        using step len by (auto simp: search_result_def size_to_int_small)
      then show ?thesis
        using True Inl by (subst sha1_pos_loop.simps) simp
    next
      case (Inr r)
      obtain lo' hi' where r: "r = (lo', hi')"
        by (cases r)
      then have "search_result t k (sha1_pos_loop k t lo' hi')"
        using "1.IH" [OF True Inr r [symmetric]] step "1.prems" Inr by simp
      then show ?thesis
        using True Inr r by (subst sha1_pos_loop.simps) simp
    qed
  next
    case False
    then have "hi = lo" "lo \<le> length t"
      using "1.prems"(1) by (auto simp: search_inv_def)
    then have "search_result t k (- int lo - 1)" "size_to_int (- int lo - 1) = - int lo - 1"
      using "1.prems"(1) len by (auto simp: search_result_def search_inv_def size_to_int_small)
    then show ?thesis
      using False by (subst sha1_pos_loop.simps) simp
  qed
qed

subsection \<open>The first probe\<close>

definition probe_ok :: "byte list list \<Rightarrow> byte list \<Rightarrow> (int + nat) outcome \<Rightarrow> bool" where
  "probe_ok t k r \<longleftrightarrow>
     (case r of
        Value (Inl v) \<Rightarrow> search_result t k v
      | Value (Inr mi) \<Rightarrow> mi < length t
      | _ \<Rightarrow> False)"

lemma probe_bound:
  assumes "lov \<le> miv" and "miv \<le> hiv" and "lov \<noteq> hiv" and "0 < nr"
  shows "((nr - 1) * (miv - lov)) mod m div (hiv - lov) < (nr :: nat)"
proof -
  have "((nr - 1) * (miv - lov)) mod m \<le> (nr - 1) * (hiv - lov)"
    using assms by (meson mod_less_eq_dividend mult_le_mono order.trans diff_le_mono order_refl)
  then have "((nr - 1) * (miv - lov)) mod m div (hiv - lov) \<le> nr - 1"
    using div_le_mono [of "((nr - 1) * (miv - lov)) mod m" "(nr - 1) * (hiv - lov)" "hiv - lov"] assms
    by simp
  then show ?thesis
    using assms(4) by linarith
qed

lemma sha1_pos_probe_ok:
  assumes "hash_table t" and "k \<in> hashes" and "t \<noteq> []" and "j \<le> 9"
    and "take (2 * j) (t ! 0) = take (2 * j) k" and "take (2 * j) (t ! (length t - 1)) = take (2 * j) k"
  shows "probe_ok t k (sha1_pos_probe k t (map ((*) 2) [j..<9]))"
  using assms(4-)
proof (induction "9 - j" arbitrary: j)
  case 0
  then show ?case
    using assms(3) by (simp add: probe_ok_def)
next
  case (Suc d)
  let ?a = "t ! 0" and ?z = "t ! (length t - 1)" and ?o = "2 * j"
  have j: "j < 9" "[j..<9] = j # [Suc j..<9]"
    using Suc.hyps(2) by (simp_all add: upt_conv_Cons)
  have "?a \<in> set t" "?z \<in> set t"
    using assms(3) by simp_all
  then have len: "length ?a = 20" "length ?z = 20" "length k = 20"
    using assms(1,2) by (auto simp: hash_table_def)
  have small: "length t < 2 ^ 31"
    using assms(1) by (simp add: hash_table_def)
  have mono: "?a \<le> t ! i" "t ! i \<le> ?z" if "i < length t" for i
    using assms(1) that by (simp_all add: hash_table_def sorted_nth_mono)
  show ?case
  proof (cases "take2 k ?o < take2 ?a ?o")
    case True
    have "k < ?a"
      by (rule take2_less [OF _ _ _ True]) (use Suc.prems len j in auto)
    then have "search_result t k (- 1)"
      using mono by (auto simp: search_result_def intro!: exI [of _ 0] intro: less_le_trans)
    then show ?thesis
      using True j by (simp add: probe_ok_def Let_def)
  next
    case ge: False
    show ?thesis
    proof (cases "take2 ?z ?o < take2 k ?o")
      case True
      have "?z < k"
        by (rule take2_less [OF _ _ _ True]) (use Suc.prems len j in auto)
      then have "search_result t k (- 1 - int (length t))"
        using mono by (auto simp: search_result_def intro!: exI [of _ "length t"] intro: le_less_trans)
      then show ?thesis
        using True ge j small by (simp add: probe_ok_def Let_def size_to_int_small)
    next
      case le: False
      show ?thesis
      proof (cases "take2 ?a ?o = take2 ?z ?o")
        case False
        have "((length t - 1) * (take2 k ?o - take2 ?a ?o)) mod 2 ^ 64 div (take2 ?z ?o - take2 ?a ?o) < length t"
          by (rule probe_bound) (use ge le False assms(3) in auto)
        then show ?thesis
          using ge le False j by (simp add: probe_ok_def Let_def)
      next
        case True
        then have "take2 ?a ?o = take2 k ?o" "take2 ?z ?o = take2 k ?o"
          using ge le by auto
        then have "take (?o + 2) ?a = take (?o + 2) k" "take (?o + 2) ?z = take (?o + 2) k"
          using take2_same [OF Suc.prems(2)] take2_same [OF Suc.prems(3)] len j by auto
        then have "probe_ok t k (sha1_pos_probe k t (map ((*) 2) [Suc j..<9]))"
          using Suc.hyps(2) j by (intro Suc.hyps(1)) auto
        then show ?thesis
          using True ge le j by (simp add: Let_def)
      qed
    qed
  qed
qed

lemma sha1_pos_result:
  assumes "hash_table t" and "k \<in> hashes"
  shows "\<exists>r. sha1_pos k t = Value r \<and> search_result t k r"
proof (cases "t = []")
  case True
  then show ?thesis
    by (simp add: sha1_pos_def search_result_def)
next
  case False
  let ?r = "if length t \<noteq> 1 then sha1_pos_probe k t [0, 2, 4, 6, 8, 10, 12, 14, 16] else Value (Inr 0)"
  have offsets: "map ((*) 2) [0..<9] = [0, 2, 4, 6, 8, 10, 12, 14, 16 :: nat]"
    by (simp add: upt_rec)
  have "probe_ok t k ?r"
    using sha1_pos_probe_ok [OF assms False, of 0] offsets False by (auto simp: probe_ok_def)
  then consider v where "?r = Value (Inl v)" "search_result t k v"
    | mi where "?r = Value (Inr mi)" "mi < length t"
    unfolding probe_ok_def by (auto split: outcome.splits sum.splits simp del: upt_Suc)
  then show ?thesis
  proof cases
    case 1
    then show ?thesis
      using False by (simp add: sha1_pos_def)
  next
    case 2
    have start: "search_inv t k 0 (length t)"
      by (auto simp: search_inv_def)
    have step: "case sha1_pos_step k t 0 (length t) mi of
        Inl i \<Rightarrow> i < length t \<and> t ! i = k
      | Inr (lo', hi') \<Rightarrow> search_inv t k lo' hi'"
      by (rule sha1_pos_step_inv [OF assms start]) (use 2 in auto)
    have small: "length t < 2 ^ 31"
      using assms(1) by (simp add: hash_table_def)
    show ?thesis
    proof (cases "sha1_pos_step k t 0 (length t) mi")
      case (Inl i)
      then have "search_result t k (int i)" "size_to_int (int i) = int i"
        using step small by (auto simp: search_result_def size_to_int_small)
      then show ?thesis
        using 2 False Inl by (simp add: sha1_pos_def)
    next
      case (Inr p)
      then show ?thesis
        using 2 False step sha1_pos_loop_result [OF assms] by (cases p) (simp add: sha1_pos_def)
    qed
  qed
qed

subsection \<open>As a lookup in a sorted table\<close>

definition sha1_find :: "byte list list \<Rightarrow> byte list \<Rightarrow> nat + nat" where
  "sha1_find t k =
     (case sha1_pos k t of
        Value r \<Rightarrow> if 0 \<le> r then Inl (nat r) else Inr (nat (- r - 1))
      | _ \<Rightarrow> Inr 0)"

lemma sha1_find_cases:
  assumes "hash_table t" and "k \<in> hashes"
  shows "case sha1_find t k of
      Inl i \<Rightarrow> sha1_pos k t = Value (int i) \<and> i < length t \<and> t ! i = k
    | Inr p \<Rightarrow> sha1_pos k t = Value (- int p - 1) \<and> p \<le> length t \<and> (\<forall>i<p. t ! i < k) \<and>
        (\<forall>i. p \<le> i \<and> i < length t \<longrightarrow> k < t ! i)"
proof -
  obtain r where r: "sha1_pos k t = Value r" "search_result t k r"
    using sha1_pos_result [OF assms] by blast
  show ?thesis
    using r(2) unfolding search_result_def
  proof
    assume "\<exists>i<length t. r = int i \<and> t ! i = k"
    then show ?thesis
      using r(1) by (auto simp: sha1_find_def)
  next
    assume "\<exists>p\<le>length t. r = - int p - 1 \<and> (\<forall>i<p. t ! i < k) \<and> (\<forall>i. p \<le> i \<and> i < length t \<longrightarrow> k < t ! i)"
    then show ?thesis
      using r(1) by (auto simp: sha1_find_def)
  qed
qed

lemma hash_table_ordered: "hash_table t \<Longrightarrow> ordered_by hashcmp t"
proof -
  assume t: "hash_table t"
  have "hashcmp x y \<le> 0" if "x \<in> set t" "y \<in> set t" "x \<le> y" for x y
  proof -
    have "x \<in> hashes" "y \<in> hashes"
      using t that unfolding hash_table_def by auto
    then show ?thesis
      using hashcmp_neg [of x y] hashcmp_0 [of x y] that(3) by fastforce
  qed
  then show ?thesis
    using t unfolding hash_table_def ordered_by_def
    by (auto intro: sorted_wrt_mono_rel [of t "(\<le>)"])
qed

interpretation sha1: sorted_lookup hashes hashcmp hash_table sha1_find
proof
  fix t assume "hash_table t"
  then show "set t \<subseteq> hashes \<and> ordered_by hashcmp t"
    using hash_table_ordered by (auto simp: hash_table_def)
next
  fix t k i assume t: "hash_table t" "k \<in> hashes" "sha1_find t k = Inl i"
  then show "i < length t \<and> hashcmp k (t ! i) = 0"
    using sha1_find_cases [OF t(1,2)] hashcmp_0 [of k k] by auto
next
  fix t k p assume t: "hash_table t" "k \<in> hashes" "sha1_find t k = Inr p"
  then have p: "p \<le> length t" "\<forall>i<p. t ! i < k" "\<forall>i. p \<le> i \<and> i < length t \<longrightarrow> k < t ! i"
    using sha1_find_cases [OF t(1,2)] by auto
  have sub: "set t \<subseteq> hashes"
    using t(1) by (simp add: hash_table_def)
  have "hashcmp x k < 0" if x: "x \<in> set (take p t)" for x
  proof -
    have "x < k"
      using x p(2) by (auto simp: in_set_conv_nth)
    moreover have "x \<in> hashes"
      using sub in_set_takeD [OF x] by blast
    ultimately show ?thesis
      using hashcmp_neg t(2) by blast
  qed
  moreover have "hashcmp k x < 0" if x: "x \<in> set (drop p t)" for x
  proof -
    obtain i where "i < length t - p" "x = t ! (p + i)"
      using x by (auto simp: in_set_conv_nth)
    then have "k < x"
      using p(3) by simp
    moreover have "x \<in> hashes"
      using sub in_set_dropD [OF x] by blast
    ultimately show ?thesis
      using hashcmp_neg t(2) by blast
  qed
  ultimately show "p \<le> length t \<and> (\<forall>x\<in>set (take p t). hashcmp x k < 0) \<and> (\<forall>x\<in>set (drop p t). hashcmp k x < 0)"
    using p(1) by blast
qed

subsection \<open>Object name arrays as sets\<close>

definition oid_array_ok :: "oid_array \<Rightarrow> bool" where
  "oid_array_ok a \<longleftrightarrow>
     set (oa_oid a) \<subseteq> hashes \<and> length (oa_oid a) < 2 ^ 31 \<and> length (oa_oid a) \<le> oa_alloc a \<and>
     (oa_sorted a \<longrightarrow> sorted (oa_oid a))"

definition oid_set :: "oid_array \<Rightarrow> byte list set" where
  "oid_set a = set (oa_oid a)"

lemma ordered_by_hashcmp_sorted: "set t \<subseteq> hashes \<Longrightarrow> ordered_by hashcmp t \<Longrightarrow> sorted t"
proof (induction t)
  case (Cons x t)
  have "x \<le> y" if "y \<in> set t" for y
  proof -
    have "hashcmp x y \<le> 0" "x \<in> hashes" "y \<in> hashes"
      using Cons.prems that by (simp_all del: hashes_iff) blast+
    then show ?thesis
      using hashcmp_neg [of x y] hashcmp_0 [of x y] by fastforce
  qed
  then show ?case
    using Cons by simp
qed simp

lemma sort_if_needed_ok:
  assumes "oid_array_ok a"
  shows "\<exists>a'. sort_if_needed g a = Value a' \<and> oid_array_ok a' \<and> hash_table (oa_oid a') \<and>
    oa_sorted a' \<and> mset (oa_oid a') = mset (oa_oid a)"
proof (cases "oa_sorted a")
  case True
  then show ?thesis
    using assms by (simp add: sort_if_needed_def oid_array_ok_def hash_table_def)
next
  case False
  let ?t = "msort_list hashcmp (oa_oid a)"
  have a: "set (oa_oid a) \<subseteq> hashes" "length (oa_oid a) < 2 ^ 31" "length (oa_oid a) \<le> oa_alloc a"
    using assms by (simp_all add: oid_array_ok_def)
  have "sorted ?t"
    using comparator_on.msort_list_ordered [OF hashcmp.comparator_on_axioms a(1)] a(1) by (intro ordered_by_hashcmp_sorted) simp_all
  moreover have "oid_array_sort g a = Value (a\<lparr>oa_oid := ?t, oa_sorted := True\<rparr>)"
    using a(2) by (simp add: oid_array_sort_def sane_qsort_eq GIT_SHA1_RAWSZ_def)
  ultimately show ?thesis
    using a False by (simp add: sort_if_needed_def oid_array_ok_def hash_table_def)
qed

lemma oid_array_lookup_ok:
  assumes "oid_array_ok a" and "k \<in> hashes"
  shows "\<exists>a' i. oid_array_lookup g a k = Value (a', i) \<and> oid_array_ok a' \<and> oid_set a' = oid_set a \<and>
    (0 \<le> i \<longleftrightarrow> k \<in> oid_set a) \<and> (0 \<le> i \<longrightarrow> nat i < length (oa_oid a') \<and> oa_oid a' ! nat i = k) \<and>
    (i < 0 \<longrightarrow> nat (- i - 1) = length (filter (\<lambda>x. x < k) (oa_oid a')))"
proof -
  obtain a' where a': "sort_if_needed g a = Value a'" "oid_array_ok a'" "hash_table (oa_oid a')"
    "mset (oa_oid a') = mset (oa_oid a)"
    using sort_if_needed_ok [OF assms(1)] by blast
  let ?t = "oa_oid a'"
  have set: "oid_set a' = oid_set a"
    using a'(4) unfolding oid_set_def by (metis set_mset_mset)
  have sub: "set ?t \<subseteq> hashes"
    using a'(3) by (simp add: hash_table_def)
  have mem: "k \<in> set ?t \<longleftrightarrow> isl (sha1_find ?t k)"
  proof -
    have "(\<exists>x\<in>set ?t. hashcmp k x = 0) \<longleftrightarrow> k \<in> set ?t"
      using hashcmp_0 [OF assms(2)] sub by blast
    then show ?thesis
      using sha1.found_iff [OF a'(3) assms(2)] by simp
  qed
  show ?thesis
  proof (cases "sha1_find ?t k")
    case (Inl i)
    then show ?thesis
      using sha1_find_cases [OF a'(3) assms(2)] a' mem set
      by (simp add: oid_array_lookup_def oid_set_def)
  next
    case (Inr p)
    have "p = length (filter (\<lambda>x. hashcmp x k < 0) ?t)"
      using sha1.insertion_point [OF a'(3) assms(2) Inr] .
    also have "filter (\<lambda>x. hashcmp x k < 0) ?t = filter (\<lambda>x. x < k) ?t"
      using hashcmp_neg assms(2) sub by (intro filter_cong) blast+
    finally show ?thesis
      using sha1_find_cases [OF a'(3) assms(2)] a' mem set Inr
      by (simp add: oid_array_lookup_def oid_set_def)
  qed
qed

subsection \<open>Visiting each name once\<close>

fun visit :: "('a \<Rightarrow> 'd \<Rightarrow> int \<times> 'd) \<Rightarrow> 'a list \<Rightarrow> 'd \<Rightarrow> int \<times> 'd" where
  "visit f [] d = (0, d)"
| "visit f (x # xs) d = (case f x d of (ret, d') \<Rightarrow> if ret \<noteq> 0 then (ret, d') else visit f xs d')"

lemma for_each_unique_loop_Some:
  "set (p # t) \<subseteq> hashes \<Longrightarrow>
     for_each_unique_loop f (Some p) t d = visit f (tl (remdups_adj (p # t))) d"
proof (induction t arbitrary: p d)
  case (Cons x t)
  have rec: "for_each_unique_loop f (Some x) t d' = visit f (tl (remdups_adj (x # t))) d'" for d'
    using Cons by simp
  have "hashcmp x p = 0 \<longleftrightarrow> x = p"
    using Cons.prems by (intro hashcmp_0) simp_all
  moreover have "visit f (remdups_adj (x # t)) d =
      (case f x d of (ret, d') \<Rightarrow> if ret \<noteq> 0 then (ret, d') else visit f (tl (remdups_adj (x # t))) d')"
    by (subst remdups_adj_Cons_alt [symmetric]) (simp del: remdups_adj_Cons_alt)
  ultimately show ?case
    using rec by (cases "x = p"; cases "f x d") simp_all
qed simp

lemma for_each_unique_loop_None:
  "set t \<subseteq> hashes \<Longrightarrow> for_each_unique_loop f None t d = visit f (remdups_adj t) d"
proof (cases t)
  case (Cons x t')
  assume "set t \<subseteq> hashes"
  then have "for_each_unique_loop f (Some x) t' d' = visit f (tl (remdups_adj (x # t'))) d'" for d'
    using Cons for_each_unique_loop_Some by simp
  moreover have "visit f (remdups_adj (x # t')) d =
      (case f x d of (ret, d') \<Rightarrow> if ret \<noteq> 0 then (ret, d') else visit f (tl (remdups_adj (x # t'))) d')"
    by (subst remdups_adj_Cons_alt [symmetric]) (simp del: remdups_adj_Cons_alt)
  ultimately show ?thesis
    using Cons by (cases "f x d") simp
qed simp

lemma distinct_remdups_adj_sorted: "sorted (t :: 'a::linorder list) \<Longrightarrow> distinct (remdups_adj t)"
proof (induction t rule: remdups_adj.induct)
  case (3 x y xs)
  then show ?case
    by auto
qed simp_all

lemma remdups_adj_sorted: "sorted (t :: 'a::linorder list) \<Longrightarrow> remdups_adj t = sorted_list_of_set (set t)"
  by (metis distinct_remdups_adj_sorted remdups_adj_set sorted_list_of_set.idem_if_sorted_distinct
      sorted_remdups_adj)

lemma oid_array_for_each_unique_ok:
  assumes "oid_array_ok a"
  shows "\<exists>a'. oid_array_for_each_unique g a f d = Value (a', visit f (sorted_list_of_set (oid_set a)) d) \<and>
      oid_array_ok a' \<and> oid_set a' = oid_set a"
proof -
  obtain a' where a': "sort_if_needed g a = Value a'" "oid_array_ok a'" "hash_table (oa_oid a')"
    "mset (oa_oid a') = mset (oa_oid a)"
    using sort_if_needed_ok [OF assms] by blast
  then have "set (oa_oid a') = oid_set a"
    unfolding oid_set_def by (metis set_mset_mset)
  moreover have "for_each_unique_loop f None (oa_oid a') d = visit f (remdups_adj (oa_oid a')) d"
    using a'(3) by (intro for_each_unique_loop_None) (simp add: hash_table_def)
  moreover have "remdups_adj (oa_oid a') = sorted_list_of_set (set (oa_oid a'))"
    using a'(3) by (intro remdups_adj_sorted) (simp add: hash_table_def)
  ultimately show ?thesis
    using a' by (auto simp: oid_array_for_each_unique_def oid_set_def)
qed

lemma oid_array_append_ok:
  "oid_array_ok a \<Longrightarrow> k \<in> hashes \<Longrightarrow> length (oa_oid a) + 1 < 2 ^ 31 \<Longrightarrow> oid_array_ok (oid_array_append a k)"
  using ALLOC_GROW_room by (simp add: oid_array_ok_def oid_array_append_def)

text \<open>
  (C13) An object name array behaves as a set of names, in whatever order they were appended: a new
  array is empty, appending inserts, a lookup (which may sort the array) never dies and tells
  whether the name is in the set, with its index or its insertion point, and
  \<open>oid_array_for_each_unique\<close> calls the callback once for every name, in ascending order, until
  it answers non-zero.  The invariant (room for the names, sorted when flagged) is kept.
\<close>
theorem oid_array_refines_set:
  assumes "oid_array_ok a" and "k \<in> hashes" and "length (oa_oid a) + 1 < 2 ^ 31"
  shows "oid_array_ok OID_ARRAY_INIT \<and> oid_set OID_ARRAY_INIT = {} \<and>
    oid_array_ok (oid_array_append a k) \<and> oid_set (oid_array_append a k) = insert k (oid_set a) \<and>
    oid_array_ok (oid_array_clear a) \<and> oid_set (oid_array_clear a) = {} \<and>
    (\<exists>a' i. oid_array_lookup garbage a k = Value (a', i) \<and> oid_array_ok a' \<and> oid_set a' = oid_set a \<and>
      (0 \<le> i \<longleftrightarrow> k \<in> oid_set a) \<and> (0 \<le> i \<longrightarrow> nat i < length (oa_oid a') \<and> oa_oid a' ! nat i = k) \<and>
      (i < 0 \<longrightarrow> nat (- i - 1) = length (filter (\<lambda>x. x < k) (oa_oid a')))) \<and>
    (\<exists>a'. oid_array_for_each_unique garbage a f d = Value (a', visit f (sorted_list_of_set (oid_set a)) d) \<and>
      oid_array_ok a' \<and> oid_set a' = oid_set a)"
  using oid_array_lookup_ok [OF assms(1,2)] oid_array_for_each_unique_ok [OF assms(1)]
    oid_array_append_ok [OF assms]
  by (simp add: oid_set_def OID_ARRAY_INIT_def oid_array_clear_def oid_array_append_def oid_array_ok_def)

definition example_array :: oid_array where
  "example_array = oid_array_append OID_ARRAY_INIT (replicate 20 7)"

lemma oid_array_refines_set_witness:
  "\<exists>a' i. oid_array_lookup (\<lambda>i. []) example_array (replicate 20 3) = Value (a', i) \<and>
     oid_set a' = {replicate 20 7} \<and> i < 0"
proof -
  have ok: "oid_array_ok example_array" "replicate 20 3 \<in> hashes" "length (oa_oid example_array) + 1 < 2 ^ 31"
    "oid_set example_array = {replicate 20 7}"
    by (simp_all add: example_array_def oid_array_ok_def oid_set_def oid_array_append_def
        OID_ARRAY_INIT_def ALLOC_GROW_def alloc_nr_def)
  have "replicate 20 3 \<noteq> replicate 20 (7 :: byte)"
    by simp
  then show ?thesis
    using oid_array_refines_set [OF ok(1-3), of "\<lambda>i. []" "\<lambda>x d. (0, d)" "()"] ok(4)
    by (metis empty_iff insert_iff not_less)
qed

end
