(* ===== verification/Git_Hex.thy ===== *)
theory Git_Hex
  imports Git_Strings Git_Varint
begin

text \<open>
  \<^verbatim>\<open>hex.c\<close> and the inline functions of \<^verbatim>\<open>cache.h\<close> it uses: object names to and from
  hexadecimal.  A \<open>char *\<close> is the list of the bytes from the pointer to the end of its buffer, the
  terminating NUL included, and a read past it is \<open>None\<close>.
\<close>

subsection \<open>Digits\<close>

definition hexval_table :: "int list" where
  "hexval_table =
    [
     - 1, - 1, - 1, - 1, - 1, - 1, - 1, - 1, - 1, - 1, - 1, - 1, - 1, - 1, - 1, - 1,
     - 1, - 1, - 1, - 1, - 1, - 1, - 1, - 1, - 1, - 1, - 1, - 1, - 1, - 1, - 1, - 1,
     - 1, - 1, - 1, - 1, - 1, - 1, - 1, - 1, - 1, - 1, - 1, - 1, - 1, - 1, - 1, - 1,
     0, 1, 2, 3, 4, 5, 6, 7, 8, 9, - 1, - 1, - 1, - 1, - 1, - 1,
     - 1, 10, 11, 12, 13, 14, 15, - 1, - 1, - 1, - 1, - 1, - 1, - 1, - 1, - 1,
     - 1, - 1, - 1, - 1, - 1, - 1, - 1, - 1, - 1, - 1, - 1, - 1, - 1, - 1, - 1, - 1,
     - 1, 10, 11, 12, 13, 14, 15, - 1, - 1, - 1, - 1, - 1, - 1, - 1, - 1, - 1,
     - 1, - 1, - 1, - 1, - 1, - 1, - 1, - 1, - 1, - 1, - 1, - 1, - 1, - 1, - 1, - 1,
     - 1, - 1, - 1, - 1, - 1, - 1, - 1, - 1, - 1, - 1, - 1, - 1, - 1, - 1, - 1, - 1,
     - 1, - 1, - 1, - 1, - 1, - 1, - 1, - 1, - 1, - 1, - 1, - 1, - 1, - 1, - 1, - 1,
     - 1, - 1, - 1, - 1, - 1, - 1, - 1, - 1, - 1, - 1, - 1, - 1, - 1, - 1, - 1, - 1,
     - 1, - 1, - 1, - 1, - 1, - 1, - 1, - 1, - 1, - 1, - 1, - 1, - 1, - 1, - 1, - 1,
     - 1, - 1, - 1, - 1, - 1, - 1, - 1, - 1, - 1, - 1, - 1, - 1, - 1, - 1, - 1, - 1,
     - 1, - 1, - 1, - 1, - 1, - 1, - 1, - 1, - 1, - 1, - 1, - 1, - 1, - 1, - 1, - 1,
     - 1, - 1, - 1, - 1, - 1, - 1, - 1, - 1, - 1, - 1, - 1, - 1, - 1, - 1, - 1, - 1,
     - 1, - 1, - 1, - 1, - 1, - 1, - 1, - 1, - 1, - 1, - 1, - 1, - 1, - 1, - 1, - 1
    ]"

definition hexval :: "byte \<Rightarrow> u32" where
  "hexval c = of_int (hexval_table ! unat c)"

definition hex2chr :: "byte list \<Rightarrow> int option" where
  "hex2chr s =
     (case s of
        [] \<Rightarrow> None
      | c0 # s1 \<Rightarrow>
          let val = hexval c0 in
          if val AND NOT 0xf \<noteq> 0 then Some (sint val)
          else (case s1 of
                  [] \<Rightarrow> None
                | c1 # _ \<Rightarrow> Some (sint (push_bit 4 val OR hexval c1))))"

subsection \<open>Parsing\<close>

definition GIT_SHA1_HEXSZ :: nat where "GIT_SHA1_HEXSZ = 40"

text \<open>The result, and the bytes of \<open>sha1\<close> written before the return.\<close>

primrec get_sha1_hex_loop :: "nat \<Rightarrow> byte list \<Rightarrow> byte list \<Rightarrow> (int \<times> byte list) option" where
  "get_sha1_hex_loop 0 hex sha1 = Some (0, sha1)"
| "get_sha1_hex_loop (Suc n) hex sha1 =
     (case hex2chr hex of
        None \<Rightarrow> None
      | Some val \<Rightarrow>
          if val < 0 then Some (- 1, sha1)
          else get_sha1_hex_loop n (drop 2 hex) (sha1 @ [of_int val]))"

definition get_sha1_hex :: "byte list \<Rightarrow> (int \<times> byte list) option" where
  "get_sha1_hex hex = get_sha1_hex_loop GIT_SHA1_RAWSZ hex []"

definition get_oid_hex :: "byte list \<Rightarrow> (int \<times> byte list) option" where
  "get_oid_hex hex = get_sha1_hex hex"

text \<open>\<open>parse_oid_hex\<close> sets \<open>*end\<close> only on success: \<open>None\<close> is an end that is left alone.\<close>

definition parse_oid_hex :: "byte list \<Rightarrow> (int \<times> byte list \<times> byte list option) option" where
  "parse_oid_hex hex =
     (case get_oid_hex hex of
        None \<Rightarrow> None
      | Some (ret, oid) \<Rightarrow>
          Some (ret, oid, if ret = 0 then Some (drop GIT_SHA1_HEXSZ hex) else None))"

subsection \<open>Printing\<close>

definition hex_digits :: "byte list" where
  "hex_digits = map of_char ''0123456789abcdef''"

primrec sha1_to_hex_loop :: "nat \<Rightarrow> byte list \<Rightarrow> byte list \<Rightarrow> byte list option" where
  "sha1_to_hex_loop 0 sha1 buf = Some (buf @ [0])"
| "sha1_to_hex_loop (Suc n) sha1 buf =
     (case sha1 of
        [] \<Rightarrow> None
      | val # sha1' \<Rightarrow>
          sha1_to_hex_loop n sha1'
            (buf @ [hex_digits ! unat (drop_bit 4 val), hex_digits ! unat (val AND 0xf)]))"

definition sha1_to_hex_r :: "byte list \<Rightarrow> byte list option" where
  "sha1_to_hex_r sha1 = sha1_to_hex_loop GIT_SHA1_RAWSZ sha1 []"

definition oid_to_hex_r :: "byte list \<Rightarrow> byte list option" where
  "oid_to_hex_r oid = sha1_to_hex_r oid"

text \<open>\<open>sha1_to_hex\<close> prints into one of four static buffers in turn and returns its index.\<close>

record hex_buffers =
  bufno :: nat
  hexbuffer :: "byte list list"

definition sha1_to_hex :: "hex_buffers \<Rightarrow> byte list \<Rightarrow> (hex_buffers \<times> nat) option" where
  "sha1_to_hex s sha1 =
     (let n = (bufno s + 1) mod 4
      in case sha1_to_hex_r sha1 of
           None \<Rightarrow> None
         | Some str \<Rightarrow> Some (s\<lparr>bufno := n, hexbuffer := (hexbuffer s)[n := str]\<rparr>, n))"

definition oid_to_hex :: "hex_buffers \<Rightarrow> byte list \<Rightarrow> (hex_buffers \<times> nat) option" where
  "oid_to_hex s oid = sha1_to_hex s oid"

subsection \<open>What the digits stand for\<close>

definition is_hex :: "byte \<Rightarrow> bool" where
  "is_hex c \<longleftrightarrow>
     48 \<le> unat c \<and> unat c \<le> 57 \<or> 65 \<le> unat c \<and> unat c \<le> 70 \<or> 97 \<le> unat c \<and> unat c \<le> 102"

definition digit_of :: "nat \<Rightarrow> int" where
  "digit_of n =
     (if 48 \<le> n \<and> n \<le> 57 then int n - 48
      else if 65 \<le> n \<and> n \<le> 70 then int n - 55
      else if 97 \<le> n \<and> n \<le> 102 then int n - 87
      else - 1)"

definition to_lower :: "byte \<Rightarrow> byte" where
  "to_lower c = (if 65 \<le> unat c \<and> unat c \<le> 90 then c + 32 else c)"

lemma hexval_table_eq: "hexval_table = map digit_of [0..<256]"
  by code_simp

lemma hexval_eq: "hexval c = of_int (digit_of (unat c))"
proof -
  have "unat c < 256"
    using unsigned_less [of c, where 'a = nat] by simp
  then show ?thesis
    by (simp add: hexval_def hexval_table_eq)
qed

lemma digit_of_cases: "digit_of n = - 1 \<or> (\<exists>d<16. digit_of n = int d)"
proof -
  have "digit_of n = - 1 \<or> 0 \<le> digit_of n \<and> digit_of n < 16"
    by (auto simp: digit_of_def)
  then show ?thesis
    by (auto intro!: exI [of _ "nat (digit_of n)"])
qed

lemma is_hex_iff: "is_hex c \<longleftrightarrow> digit_of (unat c) \<noteq> - 1"
proof -
  have "48 \<le> n \<and> n \<le> 57 \<or> 65 \<le> n \<and> n \<le> 70 \<or> 97 \<le> n \<and> n \<le> 102 \<longleftrightarrow> digit_of n \<noteq> - 1" for n
    by (auto simp: digit_of_def)
  then show ?thesis
    by (simp add: is_hex_def)
qed

lemma is_hexE:
  assumes "is_hex c"
  obtains n where "n < 16" and "digit_of (unat c) = int n" and "hexval c = of_nat n"
  using assms digit_of_cases [of "unat c"] by (auto simp: is_hex_iff hexval_eq)

lemma not_hex_0 [simp]: "\<not> is_hex 0"
  by (simp add: is_hex_def)

lemma hexval_other [simp]: "\<not> is_hex c \<Longrightarrow> hexval c = - 1"
  by (simp add: hexval_eq is_hex_iff)

lemma small_no_high: "n < 16 \<Longrightarrow> (of_nat n :: u32) AND NOT 0xf = 0"
proof -
  have "\<forall>n\<in>set [0..<16]. (of_nat n :: u32) AND NOT 0xf = 0"
    by code_simp
  then show "n < 16 \<Longrightarrow> ?thesis"
    by simp
qed

lemma sint_two_digits:
  "n < 16 \<Longrightarrow> m < 16 \<Longrightarrow> sint (push_bit 4 (of_nat n :: u32) OR of_nat m) = 16 * int n + int m"
proof -
  have "\<forall>n\<in>set [0..<16]. \<forall>m\<in>set [0..<16].
      sint (push_bit 4 (of_nat n :: u32) OR of_nat m) = 16 * int n + int m"
    by code_simp
  then show "n < 16 \<Longrightarrow> m < 16 \<Longrightarrow> ?thesis"
    by simp
qed

lemma hex2chr_digits:
  assumes "is_hex c" and "is_hex d"
  shows "hex2chr (c # d # s) = Some (16 * digit_of (unat c) + digit_of (unat d))"
proof -
  obtain n where "n < 16" "digit_of (unat c) = int n" "hexval c = of_nat n"
    using assms(1) by (rule is_hexE)
  moreover obtain m where "m < 16" "digit_of (unat d) = int m" "hexval d = of_nat m"
    using assms(2) by (rule is_hexE)
  ultimately show ?thesis
    using small_no_high [of n] sint_two_digits [of n m] by (simp add: hex2chr_def)
qed

lemma hex2chr_first: "\<not> is_hex c \<Longrightarrow> hex2chr (c # s) = Some (- 1)"
  by (simp add: hex2chr_def)

lemma hex2chr_second: "is_hex c \<Longrightarrow> \<not> is_hex d \<Longrightarrow> hex2chr (c # d # s) = Some (- 1)"
  using small_no_high by (auto simp: hex2chr_def elim!: is_hexE)

text \<open>The byte a pair of digits stands for, and the two digits of a byte.\<close>

definition hex_byte :: "byte \<Rightarrow> byte \<Rightarrow> byte" where
  "hex_byte c d = of_int (16 * digit_of (unat c) + digit_of (unat d))"

definition byte_hex :: "byte \<Rightarrow> byte list" where
  "byte_hex b = [hex_digits ! unat (drop_bit 4 b), hex_digits ! unat (b AND 0xf)]"

lemma hex_digits_inverse: "n < 16 \<Longrightarrow> digit_of (unat (hex_digits ! n)) = int n"
proof -
  have "\<forall>n\<in>set [0..<16]. digit_of (unat (hex_digits ! n)) = int n"
    by code_simp
  then show "n < 16 \<Longrightarrow> ?thesis"
    by simp
qed

lemma hex_digits_digit: "is_hex c \<Longrightarrow> hex_digits ! nat (digit_of (unat c)) = to_lower c"
proof -
  have "\<forall>n\<in>set [0..<256]. digit_of n \<noteq> - 1 \<longrightarrow>
      hex_digits ! nat (digit_of n) = (if 65 \<le> n \<and> n \<le> 90 then of_nat n + 32 else of_nat n)"
    by code_simp
  moreover have "unat c < 256"
    using unsigned_less [of c, where 'a = nat] by simp
  ultimately show "is_hex c \<Longrightarrow> ?thesis"
    by (simp add: is_hex_iff to_lower_def)
qed

lemma nibbles: "unat (drop_bit 4 (b :: byte)) = unat b div 16" "unat (b AND 0xf) = unat b mod 16"
proof -
  have "(0xf :: byte) = mask 4"
    by (simp add: mask_eq_exp_minus_1)
  then have "b AND 0xf = take_bit 4 b"
    unfolding take_bit_eq_mask by simp
  then have "unat (b AND 0xf) = take_bit 4 (unat b)"
    by (simp only: unsigned_take_bit_eq)
  then show "unat (b AND 0xf) = unat b mod 16"
    by (simp add: take_bit_eq_mod)
qed (simp add: unat_drop_bit_div)

lemma unat_byte_less: "unat (b :: byte) < 256"
  using unsigned_less [of b, where 'a = nat] by simp

lemma hex_byte_inverse:
  obtains c d where "byte_hex b = [c, d]" and "is_hex c" and "is_hex d" and "hex_byte c d = b"
    and "0 \<le> 16 * digit_of (unat c) + digit_of (unat d)"
proof -
  have lt: "unat b div 16 < 16" "unat b mod 16 < 16"
    using unat_byte_less [of b] by simp_all
  let ?c = "hex_digits ! (unat b div 16)" and ?d = "hex_digits ! (unat b mod 16)"
  have digits: "digit_of (unat ?c) = int (unat b div 16)" "digit_of (unat ?d) = int (unat b mod 16)"
    using lt by (simp_all only: hex_digits_inverse)
  have "16 * int (unat b div 16) + int (unat b mod 16) = int (unat b)"
    by (metis mult_div_mod_eq of_nat_add of_nat_mult of_nat_numeral)
  then have "hex_byte ?c ?d = b"
    unfolding hex_byte_def digits by simp
  moreover have "is_hex ?c" "is_hex ?d"
    unfolding is_hex_iff digits by simp_all
  ultimately show ?thesis
    using that [of ?c ?d] digits by (simp add: byte_hex_def nibbles)
qed

lemma byte_hex_byte:
  assumes "is_hex c" and "is_hex d"
  shows "byte_hex (hex_byte c d) = [to_lower c, to_lower d]"
proof -
  obtain n where n: "n < 16" "digit_of (unat c) = int n"
    using assms(1) by (rule is_hexE)
  obtain m where m: "m < 16" "digit_of (unat d) = int m"
    using assms(2) by (rule is_hexE)
  have "hex_byte c d = of_nat (16 * n + m)"
    by (simp add: hex_byte_def n m)
  then have "unat (hex_byte c d) = 16 * n + m"
    using n m unat_of_nat_small [of "16 * n + m", where 'a = 8] by (simp only:) simp
  then show ?thesis
    using n m hex_digits_digit [OF assms(1)] hex_digits_digit [OF assms(2)]
    by (simp add: byte_hex_def nibbles)
qed

subsection \<open>Whole names\<close>

lemma sha1_to_hex_loop_eq:
  "n \<le> length sha1 \<Longrightarrow> sha1_to_hex_loop n sha1 buf = Some (buf @ concat (map byte_hex (take n sha1)) @ [0])"
  by (induction n arbitrary: sha1 buf) (auto simp: byte_hex_def split: list.splits)

lemma sha1_to_hex_r_eq:
  "oid \<in> hashes \<Longrightarrow> sha1_to_hex_r oid = Some (concat (map byte_hex oid) @ [0])"
  by (simp add: sha1_to_hex_r_def sha1_to_hex_loop_eq GIT_SHA1_RAWSZ_def)

fun hex_bytes :: "byte list \<Rightarrow> byte list" where
  "hex_bytes (c # d # s) = hex_byte c d # hex_bytes s"
| "hex_bytes _ = []"

lemma hex2chr_value:
  assumes "is_hex c" and "is_hex d"
  shows "\<exists>v. hex2chr (c # d # s) = Some v \<and> \<not> v < 0 \<and> of_int v = hex_byte c d"
proof -
  have "0 \<le> digit_of (unat c)" "0 \<le> digit_of (unat d)"
    using is_hexE [OF assms(1)] is_hexE [OF assms(2)] of_nat_0_le_iff by metis+
  then show ?thesis
    using hex2chr_digits [OF assms, of s] by (simp add: hex_byte_def)
qed

lemma get_sha1_hex_loop_ok:
  "length s = 2 * n \<Longrightarrow> \<forall>c\<in>set s. is_hex c \<Longrightarrow>
     get_sha1_hex_loop n (s @ r) acc = Some (0, acc @ hex_bytes s) \<and> length (hex_bytes s) = n"
proof (induction n arbitrary: s acc)
  case (Suc n)
  then obtain c d s' where s: "s = c # d # s'"
    by (cases s; cases "tl s") auto
  have c: "is_hex c" "is_hex d"
    using Suc.prems s by simp_all
  obtain v where "hex2chr (c # d # s' @ r) = Some v" "\<not> v < 0" "of_int v = hex_byte c d"
    using hex2chr_value [OF c] by blast
  then show ?case
    using Suc.IH [of s' "acc @ [hex_byte c d]"] Suc.prems s by simp
qed simp

lemma get_sha1_hex_loop_bad:
  "0 \<in> set hex \<Longrightarrow> \<not> (2 * n \<le> length hex \<and> (\<forall>c\<in>set (take (2 * n) hex). is_hex c)) \<Longrightarrow>
     \<exists>sha1. get_sha1_hex_loop n hex acc = Some (- 1, sha1)"
proof (induction n arbitrary: hex acc)
  case (Suc n)
  then obtain c s where hex: "hex = c # s"
    by (cases hex) auto
  show ?case
  proof (cases "is_hex c")
    case False
    then show ?thesis
      using hex by (simp add: hex2chr_first)
  next
    case c: True
    then have "0 \<in> set s"
      using Suc.prems(1) hex by auto
    then obtain d s' where s: "s = d # s'"
      by (cases s) auto
    show ?thesis
    proof (cases "is_hex d")
      case False
      then show ?thesis
        using hex s c by (simp add: hex2chr_second)
    next
      case True
      then have "0 \<in> set s'"
        using \<open>0 \<in> set s\<close> s by auto
      moreover have "\<not> (2 * n \<le> length s' \<and> (\<forall>c\<in>set (take (2 * n) s'). is_hex c))"
        using Suc.prems(2) hex s c True by auto
      ultimately obtain sha1 where "get_sha1_hex_loop n s' (acc @ [hex_byte c d]) = Some (- 1, sha1)"
        using Suc.IH by blast
      moreover obtain v where "hex2chr (c # d # s') = Some v" "\<not> v < 0" "of_int v = hex_byte c d"
        using hex2chr_value [OF c True] by blast
      ultimately show ?thesis
        using hex s by simp
    qed
  qed
qed simp

lemma concat_byte_hex:
  "(\<forall>c\<in>set (concat (map byte_hex bs)). is_hex c) \<and> length (concat (map byte_hex bs)) = 2 * length bs \<and>
     hex_bytes (concat (map byte_hex bs)) = bs"
proof (induction bs)
  case (Cons b bs)
  obtain c d where "byte_hex b = [c, d]" "is_hex c" "is_hex d" "hex_byte c d = b"
    by (rule hex_byte_inverse)
  then show ?case
    using Cons by simp
qed simp

lemma byte_hex_bytes:
  "even (length s) \<Longrightarrow> \<forall>c\<in>set s. is_hex c \<Longrightarrow> concat (map byte_hex (hex_bytes s)) = map to_lower s"
  by (induction s rule: hex_bytes.induct) (auto simp: byte_hex_byte)

lemma parse_oid_hex_ok:
  assumes "length s = 40" and "\<forall>c\<in>set s. is_hex c"
  shows "parse_oid_hex (s @ r) = Some (0, hex_bytes s, Some r) \<and> hex_bytes s \<in> hashes"
  using get_sha1_hex_loop_ok [of s 20 r "[]"] assms
  by (simp add: parse_oid_hex_def get_oid_hex_def get_sha1_hex_def GIT_SHA1_RAWSZ_def GIT_SHA1_HEXSZ_def)

subsection \<open>As a codec\<close>

definition oid_hex :: "byte list \<Rightarrow> byte list" where
  "oid_hex oid = (case oid_to_hex_r oid of Some str \<Rightarrow> butlast str | None \<Rightarrow> [])"

definition hex_oid :: "byte list \<Rightarrow> (byte list \<times> byte list) option" where
  "hex_oid hex =
     (case parse_oid_hex hex of Some (ret, oid, Some end) \<Rightarrow> Some (oid, end) | _ \<Rightarrow> None)"

interpretation hex: codec oid_hex hex_oid "\<lambda>oid. oid \<in> hashes"
proof
  fix oid rest :: "byte list"
  assume oid: "oid \<in> hashes"
  have "oid_hex oid = concat (map byte_hex oid)"
    using oid by (simp add: oid_hex_def oid_to_hex_r_def sha1_to_hex_r_eq)
  then show "hex_oid (oid_hex oid @ rest) = Some (oid, rest)"
    using concat_byte_hex [of oid] parse_oid_hex_ok [of "oid_hex oid" rest] oid
    by (simp add: hex_oid_def)
qed

text \<open>
  Printing an object name gives 40 characters and a NUL, and parsing them, whatever follows,
  gives the name back and leaves \<open>end\<close> right after them; so names printed back to back parse
  back to the list of names.
\<close>
theorem hex_roundtrip:
  assumes "oid \<in> hashes"
  shows "\<exists>str. oid_to_hex_r oid = Some (str @ [0]) \<and> length str = GIT_SHA1_HEXSZ \<and>
      (\<forall>rest. parse_oid_hex (str @ rest) = Some (0, oid, Some rest)) \<and>
      (\<forall>oids rest. set oids \<subseteq> hashes \<longrightarrow>
         decode_many hex_oid (length (oid # oids)) (str @ concat (map oid_hex oids) @ rest) =
           Some (oid # oids, rest))"
proof -
  let ?str = "concat (map byte_hex oid)"
  have str: "oid_to_hex_r oid = Some (?str @ [0])"
    using assms by (simp add: oid_to_hex_r_def sha1_to_hex_r_eq)
  then have "oid_hex oid = ?str"
    by (simp add: oid_hex_def)
  then have "decode_many hex_oid (length (oid # oids)) (?str @ concat (map oid_hex oids) @ rest) =
      Some (oid # oids, rest)" if "set oids \<subseteq> hashes" for oids rest
  proof -
    have "\<forall>x\<in>set (oid # oids). x \<in> hashes"
      using assms that by (simp only: list.set) blast
    then show ?thesis
      using hex.decode_many_encode [of "oid # oids" rest] \<open>oid_hex oid = ?str\<close>
      by (simp only: list.map concat.simps append_assoc)
  qed
  then show ?thesis
    using str concat_byte_hex [of oid] parse_oid_hex_ok [of ?str] assms
    by (intro exI [of _ ?str]) (simp add: GIT_SHA1_HEXSZ_def)
qed

lemma hex_roundtrip_witness:
  "\<exists>str. oid_to_hex_r (replicate 20 0xab) = Some (str @ [0]) \<and>
     (\<forall>rest. parse_oid_hex (str @ rest) = Some (0, replicate 20 0xab, Some rest))"
  using hex_roundtrip [of "replicate 20 0xab"] by auto

text \<open>
  (C14) On a NUL-terminated string \<open>parse_oid_hex\<close> never reads past the NUL.  It succeeds exactly
  when the first 40 characters are hexadecimal digits, the name it writes prints as these
  characters in lower case, and it fails with \<open>-1\<close> and an untouched \<open>end\<close> otherwise.
\<close>
theorem parse_oid_hex_safe:
  assumes "0 \<in> set hex"
  shows "\<exists>ret oid e. parse_oid_hex hex = Some (ret, oid, e) \<and>
    (ret = 0 \<longleftrightarrow> 40 \<le> length hex \<and> (\<forall>c\<in>set (take 40 hex). is_hex c)) \<and>
    (ret = 0 \<longrightarrow> e = Some (drop 40 hex) \<and> oid_to_hex_r oid = Some (map to_lower (take 40 hex) @ [0])) \<and>
    (ret \<noteq> 0 \<longrightarrow> ret = - 1 \<and> e = None)"
proof (cases "40 \<le> length hex \<and> (\<forall>c\<in>set (take 40 hex). is_hex c)")
  case True
  let ?s = "take 40 hex"
  have "parse_oid_hex (?s @ drop 40 hex) = Some (0, hex_bytes ?s, Some (drop 40 hex)) \<and> hex_bytes ?s \<in> hashes"
    using True by (intro parse_oid_hex_ok) simp_all
  moreover have "concat (map byte_hex (hex_bytes ?s)) = map to_lower ?s"
    using True by (intro byte_hex_bytes) simp_all
  ultimately show ?thesis
    using True by (simp add: oid_to_hex_r_def sha1_to_hex_r_eq)
next
  case False
  then obtain sha1 where "get_sha1_hex_loop 20 hex [] = Some (- 1, sha1)"
    using get_sha1_hex_loop_bad [OF assms, of 20 "[]"] by auto
  then show ?thesis
    using False
    by (simp add: parse_oid_hex_def get_oid_hex_def get_sha1_hex_def GIT_SHA1_RAWSZ_def)
qed

lemma parse_oid_hex_safe_witness:
  "\<exists>ret oid e. parse_oid_hex [49, 50, 0] = Some (ret, oid, e) \<and> ret = - 1 \<and> e = None"
  using parse_oid_hex_safe [of "[49, 50, 0]"] by auto

text \<open>A string returned by \<open>sha1_to_hex\<close> is intact until the fourth call after it.\<close>

lemma sha1_to_hex_lifetime:
  assumes "length (hexbuffer s) = 4" and "bufno s < 4" and "sha1_to_hex s a = Some (s1, n)"
    and "sha1_to_hex s1 b = Some (s2, n2)" and "sha1_to_hex s2 c = Some (s3, n3)"
    and "sha1_to_hex s3 d = Some (s4, n4)"
  shows "sha1_to_hex_r a = Some (hexbuffer s4 ! n)"
proof -
  have "bufno s = 0 \<or> bufno s = 1 \<or> bufno s = 2 \<or> bufno s = 3"
    using assms(2) by auto
  then show ?thesis
    using assms by (auto simp: sha1_to_hex_def split: option.splits)
qed

end
