(* ===== verification/Git_Base85.thy ===== *)
theory Git_Base85
  imports Git_Strings
begin

text \<open>
  \<^verbatim>\<open>base85.c\<close>: the encoding of binary patches, four bytes to five characters.  \<open>unsigned\<close> is a
  32-bit word and buffers are byte lists; \<open>Fault\<close> is a read past the end of the input.
\<close>

subsection \<open>The tables\<close>

definition en85 :: "byte list" where
  "en85 = map of_char ''0123456789ABCDEFGHIJKLMNOPQRSTUVWXYZabcdefghijklmnopqrstuvwxyz!#$%&()*+-;<=>?@^_`{|}~''"

text \<open>\<open>prep_base85\<close> fills the static table once: entry 90 is that of \<^verbatim>\<open>Z\<close>.\<close>

definition prep_base85 :: "nat list \<Rightarrow> nat list" where
  "prep_base85 de85 =
     (if de85 ! 90 \<noteq> 0 then de85
      else foldl (\<lambda>t i. t[unat (en85 ! i) := i + 1]) de85 [0..<length en85])"

definition de85 :: "nat list" where
  "de85 = prep_base85 (replicate 256 0)"

subsection \<open>Decoding\<close>

text \<open>Four digits, then a fifth with the overflow check.\<close>

fun decode_85_digits :: "nat \<Rightarrow> u32 \<Rightarrow> byte list \<Rightarrow> (u32 \<times> byte list) outcome" where
  "decode_85_digits 0 acc buffer = Value (acc, buffer)"
| "decode_85_digits (Suc cnt) acc [] = Fault"
| "decode_85_digits (Suc cnt) acc (ch # buffer) =
     (let de = int (de85 ! unat ch) - 1 in
      if de < 0 then Failure else decode_85_digits cnt (acc * 85 + of_int de) buffer)"

definition decode_85_group :: "byte list \<Rightarrow> (u32 \<times> byte list) outcome" where
  "decode_85_group buffer =
     (case decode_85_digits 4 0 buffer of
        Value (acc, []) \<Rightarrow> Fault
      | Value (acc, ch # buffer) \<Rightarrow>
          let de = int (de85 ! unat ch) - 1 in
          if de < 0 then Failure
          else if 0xffffffff div 85 < acc \<or> 0xffffffff - of_int de < acc * 85 then Failure
          else Value (acc * 85 + of_int de, buffer)
      | Failure \<Rightarrow> Failure
      | Fault \<Rightarrow> Fault)"

primrec decode_85_out :: "nat \<Rightarrow> u32 \<Rightarrow> byte list" where
  "decode_85_out 0 acc = []"
| "decode_85_out (Suc cnt) acc =
     (let acc = push_bit 8 acc OR drop_bit 24 acc in ucast acc # decode_85_out cnt acc)"

text \<open>The result of \<open>decode_85\<close> and the bytes written to \<open>dst\<close>.\<close>

function decode_85 :: "byte list \<Rightarrow> nat \<Rightarrow> byte list \<Rightarrow> (int \<times> byte list) outcome" where
  "decode_85 buffer len dst =
     (if len = 0 then Value (0, dst)
      else case decode_85_group buffer of
        Fault \<Rightarrow> Fault
      | Failure \<Rightarrow> Value (- 1, dst)
      | Value (acc, buffer) \<Rightarrow>
          let cnt = (if len < 4 then len else 4)
          in decode_85 buffer (len - cnt) (dst @ decode_85_out cnt acc))"
  by pat_completeness auto
termination
  by (relation "measure (\<lambda>(buffer, len, dst). len)") auto

declare decode_85.simps [simp del]

subsection \<open>Encoding\<close>

fun encode_85_pack :: "nat list \<Rightarrow> u32 \<Rightarrow> byte list \<Rightarrow> nat \<Rightarrow> (u32 \<times> byte list \<times> nat) option" where
  "encode_85_pack [] acc data bytes = Some (acc, data, bytes)"
| "encode_85_pack (cnt # cnts) acc [] bytes = None"
| "encode_85_pack (cnt # cnts) acc (ch # data) bytes =
     (let acc = acc OR push_bit cnt (ucast ch) in
      if bytes - 1 = 0 then Some (acc, data, bytes - 1)
      else encode_85_pack cnts acc data (bytes - 1))"

lemma encode_85_pack_less:
  "encode_85_pack (cnt # cnts) acc data bytes = Some (a, d, b) \<Longrightarrow> bytes \<noteq> 0 \<Longrightarrow> b < bytes"
proof (induction "cnt # cnts" acc data bytes arbitrary: cnt cnts rule: encode_85_pack.induct)
  case (3 cnt cnts acc ch data bytes)
  then show ?case
    by (cases cnts) (fastforce simp: Let_def split: if_splits)+
qed simp_all

text \<open>The digits are stored from \<open>buf[4]\<close> down to \<open>buf[0]\<close>.\<close>

primrec encode_85_digits :: "nat \<Rightarrow> u32 \<Rightarrow> byte list \<Rightarrow> byte list" where
  "encode_85_digits 0 acc buf = buf"
| "encode_85_digits (Suc cnt) acc buf =
     encode_85_digits cnt (acc div 85) (en85 ! unat (acc mod 85) # buf)"

function encode_85 :: "byte list \<Rightarrow> nat \<Rightarrow> byte list \<Rightarrow> byte list option" where
  "encode_85 data bytes buf =
     (if bytes = 0 then Some (buf @ [0])
      else case encode_85_pack [24, 16, 8, 0] 0 data bytes of
        None \<Rightarrow> None
      | Some (acc, data, bytes) \<Rightarrow> encode_85 data bytes (buf @ encode_85_digits 5 acc []))"
  by pat_completeness auto
termination
  by (relation "measure (\<lambda>(data, bytes, buf). bytes)") (auto dest: encode_85_pack_less)

declare encode_85.simps [simp del]

subsection \<open>Digits\<close>

lemma length_en85 [simp]: "length en85 = 85"
  by code_simp

lemma distinct_en85: "distinct en85"
  by code_simp

lemma unat_byte_256: "unat (c :: byte) < 256"
  using unsigned_less [of c, where 'a = nat] by simp

lemma de85_steps:
  fixes t0 :: "nat list"
  assumes "n \<le> 85" and "t0 = replicate 256 0"
  defines "t \<equiv> foldl (\<lambda>t i. t[unat (en85 ! i) := i + 1]) t0 [0..<n]"
  shows "length t = 256 \<and> (\<forall>i<n. t ! unat (en85 ! i) = i + 1) \<and>
    (\<forall>c<256. t ! c \<noteq> 0 \<longrightarrow> (\<exists>i<n. c = unat (en85 ! i)))"
  using assms(1) unfolding t_def
proof (induction n)
  case 0
  then show ?case
    by (simp add: assms(2))
next
  case (Suc n)
  have "en85 ! i \<noteq> en85 ! n" if "i < n" for i
    using that Suc.prems distinct_en85 by (simp add: nth_eq_iff_index_eq)
  then have "unat (en85 ! n) \<noteq> unat (en85 ! i)" if "i < n" for i
    using that by (metis word_unat_eq_iff)
  then show ?case
    using Suc unat_byte_256 [of "en85 ! n"] by (auto simp: less_Suc_eq nth_list_update)
qed

lemma de85_table:
  "(\<forall>i<85. de85 ! unat (en85 ! i) = i + 1) \<and>
     (\<forall>c<256. de85 ! c \<noteq> 0 \<longrightarrow> (\<exists>i<85. c = unat (en85 ! i)))"
  using de85_steps [of 85 "replicate 256 0"] by (simp add: de85_def prep_base85_def)

lemma de85_en85: "d < 85 \<Longrightarrow> de85 ! unat (en85 ! d) = d + 1"
  using de85_table by blast

lemma en85_de85:
  assumes "de85 ! unat ch \<noteq> 0"
  obtains d where "d < 85" and "ch = en85 ! d" and "de85 ! unat ch = d + 1"
proof -
  obtain d where "d < 85" "unat ch = unat (en85 ! d)"
    using de85_table assms unat_byte_256 by blast
  then show ?thesis
    using that de85_en85 by (metis word_unat_eq_iff)
qed

lemma prep_base85_once: "prep_base85 de85 = de85"
proof -
  have "en85 ! 35 = 90"
    by code_simp
  then have "de85 ! 90 = 36"
    using de85_en85 [of 35] by simp
  then show ?thesis
    by (simp add: prep_base85_def)
qed

text \<open>The value of a list of digits, and the characters of a list of digits.\<close>

definition value85 :: "nat list \<Rightarrow> nat" where
  "value85 ds = foldl (\<lambda>a d. a * 85 + d) 0 ds"

definition chars85 :: "nat list \<Rightarrow> byte list" where
  "chars85 ds = map ((!) en85) ds"

definition digits85 :: "nat \<Rightarrow> nat list" where
  "digits85 n =
     (let a = n div 85; b = a div 85; c = b div 85; d = c div 85
      in [d mod 85, c mod 85, b mod 85, a mod 85, n mod 85])"

lemma digits85_less: "\<forall>d\<in>set (digits85 n). d < 85"
  by (simp add: digits85_def Let_def)

lemma value85_digits85:
  assumes "n < 85 ^ 5"
  shows "value85 (digits85 n) = n"
proof -
  define a where "a = n div 85"
  define b where "b = a div 85"
  define c where "c = b div 85"
  define d where "d = c div 85"
  have "d < 85"
    using assms by (simp add: a_def b_def c_def d_def div_mult2_eq [symmetric] less_mult_imp_div_less)
  then have "d mod 85 = d"
    by simp
  moreover have "d * 85 + c mod 85 = c" "c * 85 + b mod 85 = b" "b * 85 + a mod 85 = a" "a * 85 + n mod 85 = n"
    by (simp_all add: a_def b_def c_def d_def)
  ultimately show ?thesis
    by (simp add: value85_def digits85_def Let_def flip: a_def b_def c_def d_def)
qed

lemma unat_numeral_85: "unat (85 :: u32) = 85"
  by simp

lemma unat_div_85: "unat ((acc :: u32) div 85) = unat acc div 85"
  by (simp add: unat_div_distrib)

lemma unat_mod_85: "unat ((acc :: u32) mod 85) = unat acc mod 85"
  by (simp add: unat_mod_distrib)

lemma encode_85_digits_eq: "encode_85_digits 5 acc [] = chars85 (digits85 (unat acc))"
proof -
  have five: "(5 :: nat) = Suc (Suc (Suc (Suc (Suc 0))))"
    by simp
  show ?thesis
    unfolding five encode_85_digits.simps
    by (simp add: chars85_def digits85_def Let_def unat_div_85 unat_mod_85)
qed

lemma decode_85_digits_ok:
  "\<forall>d\<in>set ds. d < 85 \<Longrightarrow>
     decode_85_digits (length ds) (of_nat a) (chars85 ds @ r) =
       Value (of_nat (foldl (\<lambda>a d. a * 85 + d) a ds), r)"
proof (induction ds arbitrary: a)
  case (Cons d ds)
  then show ?case
    using Cons.IH [of "a * 85 + d"] by (simp add: chars85_def de85_en85)
qed (simp add: chars85_def)

lemma decode_85_digits_inv:
  "decode_85_digits n acc buf = Value (acc', buf') \<Longrightarrow>
     \<exists>ds. length ds = n \<and> (\<forall>d\<in>set ds. d < 85) \<and> buf = chars85 ds @ buf'"
proof (induction n arbitrary: acc buf)
  case (Suc n)
  then obtain ch buf1 where buf: "buf = ch # buf1"
    by (cases buf) auto
  have nz: "de85 ! unat ch \<noteq> 0"
    using Suc.prems buf by (auto simp: Let_def split: if_splits)
  then obtain d where d: "d < 85" "ch = en85 ! d"
    by (rule en85_de85)
  obtain ds where "length ds = n" "\<forall>d\<in>set ds. d < 85" "buf1 = chars85 ds @ buf'"
    using Suc.IH [of "acc * 85 + of_int (int (de85 ! unat ch) - 1)" buf1] Suc.prems buf
    by (auto simp: Let_def split: if_splits)
  then show ?case
    using d buf by (intro exI [of _ "d # ds"]) (simp add: chars85_def)
qed (simp add: chars85_def)

text \<open>The overflow check of the fifth digit is exact: it passes when the value fits 32 bits.\<close>

lemma overflow_check:
  assumes "a < 85 ^ 4" and "d < 85"
  shows "(0xffffffff div 85 < (of_nat a :: u32) \<or> 0xffffffff - of_nat d < (of_nat a :: u32) * 85) \<longleftrightarrow>
    2 ^ 32 \<le> a * 85 + d"
proof -
  have a: "unat (of_nat a :: u32) = a"
    using assms(1) by (intro unat_of_nat_small) simp
  have lim: "unat (0xffffffff div 85 :: u32) = 50529027"
    by (simp add: unat_div_distrib)
  show ?thesis
  proof (cases "50529027 < a")
    case True
    then show ?thesis
      using assms a lim by (simp add: word_less_nat_alt)
  next
    case False
    then have "a * 85 < 2 ^ 32"
      by simp
    then have m: "unat (of_nat a * 85 :: u32) = a * 85"
      using unat_of_nat_small [of "a * 85", where 'a = 32] by simp
    have "(0xffffffff - of_nat d :: u32) = of_nat (0xffffffff - d)"
      using assms(2) by (simp add: of_nat_diff)
    then have "unat (0xffffffff - of_nat d :: u32) = 0xffffffff - d"
      using unat_of_nat_small [of "0xffffffff - d", where 'a = 32] by simp
    then show ?thesis
      using False a lim m assms(2) by (auto simp: word_less_nat_alt)
  qed
qed

subsection \<open>Groups\<close>

lemma value85_snoc: "value85 (ds @ [d]) = value85 ds * 85 + d"
  by (simp add: value85_def)

lemma value85_less: "\<forall>d\<in>set ds. d < 85 \<Longrightarrow> value85 ds < 85 ^ length ds"
proof (induction ds rule: rev_induct)
  case (snoc d ds)
  then have "value85 ds < 85 ^ length ds" "d < 85"
    by simp_all
  have "Suc (value85 ds) * 85 \<le> 85 ^ length ds * 85"
    using \<open>value85 ds < 85 ^ length ds\<close> by (intro mult_le_mono1) simp
  then have "value85 ds * 85 + d < 85 ^ length ds * 85"
    using \<open>d < 85\<close> by simp
  then show ?case
    by (simp add: value85_snoc)
qed (simp add: value85_def)

lemma decode_85_group_digits:
  assumes "length ds = 4" and "\<forall>x\<in>set ds. x < 85" and "d < 85"
  shows "decode_85_group (chars85 (ds @ [d]) @ r) =
    (if 2 ^ 32 \<le> value85 (ds @ [d]) then Failure else Value (of_nat (value85 (ds @ [d])), r))"
proof -
  have four: "decode_85_digits 4 0 (chars85 ds @ chars85 [d] @ r) = Value (of_nat (value85 ds), chars85 [d] @ r)"
    using decode_85_digits_ok [OF assms(2), of 0 "chars85 [d] @ r"] assms(1) by (simp add: value85_def)
  have "value85 ds < 85 ^ 4"
    using value85_less [OF assms(2)] assms(1) by simp
  note check = overflow_check [OF this assms(3)]
  have "chars85 (ds @ [d]) @ r = chars85 ds @ chars85 [d] @ r"
    by (simp add: chars85_def)
  then show ?thesis
    unfolding decode_85_group_def using four check assms(3)
    by (simp add: chars85_def de85_en85 value85_snoc Let_def)
qed

lemma digit_step: "d < 85 \<Longrightarrow> (v * 85 + d) div 85 = v \<and> (v * 85 + d) mod 85 = (d :: nat)"
  by simp

lemma decode_85_group_inv:
  assumes "decode_85_group buf = Value (acc, r)"
  shows "buf = chars85 (digits85 (unat acc)) @ r"
proof -
  obtain a ch buf1 where d4: "decode_85_digits 4 0 buf = Value (a, ch # buf1)"
    using assms by (auto simp: decode_85_group_def split: outcome.splits list.splits)
  have "de85 ! unat ch \<noteq> 0"
    using assms d4 by (auto simp: decode_85_group_def Let_def split: if_splits)
  then obtain d where d: "d < 85" "ch = en85 ! d"
    by (rule en85_de85)
  obtain ds where ds: "length ds = 4" "\<forall>d\<in>set ds. d < 85" "buf = chars85 ds @ ch # buf1"
    using decode_85_digits_inv [OF d4] by blast
  have "decode_85_group (chars85 (ds @ [d]) @ buf1) = Value (acc, r)"
    using assms ds(3) d(2) by (simp add: chars85_def)
  then have v: "value85 (ds @ [d]) < 2 ^ 32" "acc = of_nat (value85 (ds @ [d]))" "buf1 = r"
    unfolding decode_85_group_digits [OF ds(1,2) d(1)] by (auto split: if_splits)
  have "digits85 (value85 (ds @ [d])) = ds @ [d]"
  proof -
    obtain d1 d2 d3 d4 where e: "ds = [d1, d2, d3, d4]"
      using ds(1) by (auto simp: eval_nat_numeral length_Suc_conv)
    have "d1 < 85" "d2 < 85" "d3 < 85" "d4 < 85"
      using ds(2) e by simp_all
    define v2 where "v2 = d1 * 85 + d2"
    define v3 where "v3 = v2 * 85 + d3"
    define v4 where "v4 = v3 * 85 + d4"
    define v5 where "v5 = v4 * 85 + d"
    have "value85 (ds @ [d]) = v5"
      by (simp add: e value85_def v2_def v3_def v4_def v5_def)
    moreover have "v5 div 85 = v4" "v5 mod 85 = d" "v4 div 85 = v3" "v4 mod 85 = d4"
      "v3 div 85 = v2" "v3 mod 85 = d3" "v2 div 85 = d1" "v2 mod 85 = d2"
      unfolding v5_def [symmetric] using digit_step [OF d(1), of v4] digit_step [OF \<open>d4 < 85\<close>, of v3]
        digit_step [OF \<open>d3 < 85\<close>, of v2] digit_step [OF \<open>d2 < 85\<close>, of d1]
      by (simp_all only: v2_def [symmetric] v3_def [symmetric] v4_def [symmetric] v5_def [symmetric])
    ultimately show ?thesis
      using \<open>d1 < 85\<close> by (simp add: e digits85_def Let_def)
  qed
  then show ?thesis
    using v ds(3) d(2) unat_of_nat_small [of "value85 (ds @ [d])", where 'a = 32]
    by (simp add: chars85_def)
qed

lemma decode_85_group_ok: "decode_85_group (chars85 (digits85 (unat acc)) @ r) = Value (acc, r)"
proof -
  have lt: "unat acc < 2 ^ 32"
    using unsigned_less [of acc, where 'a = nat] by simp
  obtain ds d where ds: "digits85 (unat acc) = ds @ [d]" "length ds = 4"
    by (auto simp: digits85_def Let_def)
  have "value85 (ds @ [d]) = unat acc"
    using value85_digits85 [of "unat acc"] lt ds(1) by simp
  then show ?thesis
    using decode_85_group_digits [OF ds(2), of d r] digits85_less [of "unat acc"] ds(1) lt by simp
qed

subsection \<open>Bytes\<close>

definition word_bytes :: "u32 \<Rightarrow> byte list" where
  "word_bytes acc = [ucast (drop_bit 24 acc), ucast (drop_bit 16 acc), ucast (drop_bit 8 acc), ucast acc]"

definition rot8 :: "u32 \<Rightarrow> u32" where
  "rot8 w = push_bit 8 w OR drop_bit 24 w"

lemma bit_rot8: "n < 8 \<Longrightarrow> bit (rot8 w) n = bit w (n + 24)" "8 \<le> n \<Longrightarrow> n < 32 \<Longrightarrow> bit (rot8 w) n = bit w (n - 8)"
  by (auto simp: rot8_def bit_simps add.commute dest: bit_imp_le_length)

lemma ucast_rot8:
  "(ucast (rot8 w) :: byte) = ucast (drop_bit 24 w)"
  "(ucast (drop_bit 24 (rot8 w)) :: byte) = ucast (drop_bit 16 w)"
  "(ucast (drop_bit 16 (rot8 w)) :: byte) = ucast (drop_bit 8 w)"
  "(ucast (drop_bit 8 (rot8 w)) :: byte) = ucast w"
     apply (rule bit_word_eqI; simp add: bit_rot8 bit_unsigned_iff bit_drop_bit_eq add.commute)
    apply (rule bit_word_eqI; simp add: bit_rot8 bit_unsigned_iff bit_drop_bit_eq add.commute)
   apply (rule bit_word_eqI; simp add: bit_rot8 bit_unsigned_iff bit_drop_bit_eq add.commute)
  apply (rule bit_word_eqI; simp add: bit_rot8 bit_unsigned_iff bit_drop_bit_eq add.commute)
  done

lemma decode_85_out_Suc: "decode_85_out (Suc n) acc = ucast (rot8 acc) # decode_85_out n (rot8 acc)"
  by (simp add: rot8_def Let_def)

lemma decode_85_out_eq:
  assumes "n \<le> 4"
  shows "decode_85_out n acc = take n (word_bytes acc)"
proof -
  have "n = 0 \<or> n = Suc 0 \<or> n = Suc (Suc 0) \<or> n = Suc (Suc (Suc 0)) \<or> n = Suc (Suc (Suc (Suc 0)))"
    using assms by auto
  then show ?thesis
    by (auto simp: word_bytes_def decode_85_out_Suc ucast_rot8 simp del: decode_85_out.simps(2))
qed

text \<open>Packing puts the bytes, padded with zero bytes, into the word.\<close>

lemma word_bytes_pack:
  "word_bytes (push_bit 24 (ucast a) OR push_bit 16 (ucast b) OR push_bit 8 (ucast c) OR ucast d) = [a, b, c, d]"
  unfolding word_bytes_def list.inject
  by (intro conjI refl; rule bit_word_eqI;
      auto simp: bit_simps dest: bit_imp_le_length)

lemma encode_85_pack_eq:
  assumes "0 < bytes" and "bytes \<le> length data"
  shows "\<exists>acc. encode_85_pack [24, 16, 8, 0] 0 data bytes =
      Some (acc, drop (min 4 bytes) data, bytes - min 4 bytes) \<and>
    take (min 4 bytes) (word_bytes acc) = take (min 4 bytes) data"
proof -
  have "bytes = 1 \<or> bytes = 2 \<or> bytes = 3 \<or> 4 \<le> bytes"
    using assms(1) by auto
  moreover have "\<exists>a b c d data'. data = a # b # c # d # data'" if "4 \<le> bytes"
  proof -
    have "Suc (Suc (Suc (Suc 0))) \<le> length data"
      using that assms(2) by simp
    then show ?thesis
      by (auto simp: Suc_le_length_iff)
  qed
  ultimately consider
      a data' where "bytes = 1" "data = a # data'"
    | a b data' where "bytes = 2" "data = a # b # data'"
    | a b c data' where "bytes = 3" "data = a # b # c # data'"
    | a b c d data' where "4 \<le> bytes" "data = a # b # c # d # data'"
    using assms(2) by (auto simp: eval_nat_numeral Suc_le_length_iff)
  then show ?thesis
  proof cases
    case 1
    then show ?thesis
      using word_bytes_pack [of a 0 0 0] by (auto simp: or.assoc Let_def)
  next
    case 2
    then show ?thesis
      using word_bytes_pack [of a b 0 0] by (auto simp: or.assoc Let_def)
  next
    case 3
    then show ?thesis
      using word_bytes_pack [of a b c 0] by (auto simp: or.assoc Let_def)
  next
    case 4
    then show ?thesis
      using word_bytes_pack [of a b c d] by (auto simp: or.assoc Let_def)
  qed
qed

lemma length_chars85 [simp]: "length (chars85 (digits85 n)) = 5"
  by (simp add: chars85_def digits85_def Let_def)

lemma length_word_bytes [simp]: "length (word_bytes acc) = 4"
  by (simp add: word_bytes_def)

lemma word_bytes_inject: "word_bytes v = word_bytes w \<longleftrightarrow> v = w"
proof
  assume eq: "word_bytes v = word_bytes w"
  show "v = w"
  proof (rule bit_word_eqI)
    fix n assume "n < LENGTH(32)"
    have *: "bit v (k + m) = bit w (k + m)" if "k \<in> {0, 8, 16, 24}" "m < 8" for k m
    proof -
      have "(ucast (drop_bit k v) :: byte) = ucast (drop_bit k w)"
        using eq that(1) by (auto simp: word_bytes_def)
      then have "bit (ucast (drop_bit k v) :: byte) m = bit (ucast (drop_bit k w) :: byte) m"
        by simp
      then show ?thesis
        using that(2) by (simp add: bit_unsigned_iff bit_drop_bit_eq)
    qed
    show "bit v n = bit w n"
      using *[of 0 n] *[of 8 "n - 8"] *[of 16 "n - 16"] *[of 24 "n - 24"] \<open>n < LENGTH(32)\<close>
      by (cases "n < 8"; cases "n < 16"; cases "n < 24") simp_all
  qed
qed simp

subsection \<open>Round trip\<close>

lemma encode_85_decodes:
  "n \<le> length data \<Longrightarrow>
     \<exists>str. (\<forall>buf. encode_85 data n buf = Some (buf @ str @ [0])) \<and> length str = 5 * ((n + 3) div 4) \<and>
       (\<forall>r dst. decode_85 (str @ r) n dst = Value (0, dst @ take n data))"
proof (induction n arbitrary: data rule: less_induct)
  case (less n)
  show ?case
  proof (cases "n = 0")
    case True
    then show ?thesis
      by (intro exI [of _ "[]"]) (simp add: encode_85.simps decode_85.simps)
  next
    case False
    obtain acc where acc: "encode_85_pack [24, 16, 8, 0] 0 data n =
        Some (acc, drop (min 4 n) data, n - min 4 n)"
      "take (min 4 n) (word_bytes acc) = take (min 4 n) data"
      using encode_85_pack_eq [of n data] False less.prems by auto
    have "n - min 4 n < n" "n - min 4 n \<le> length (drop (min 4 n) data)"
      using False less.prems by simp_all
    then obtain str where str:
      "\<And>buf. encode_85 (drop (min 4 n) data) (n - min 4 n) buf = Some (buf @ str @ [0])"
      "length str = 5 * ((n - min 4 n + 3) div 4)"
      "\<And>r dst. decode_85 (str @ r) (n - min 4 n) dst =
        Value (0, dst @ take (n - min 4 n) (drop (min 4 n) data))"
      using less.IH by blast
    let ?c = "chars85 (digits85 (unat acc))"
    have "encode_85 data n buf = Some (buf @ (?c @ str) @ [0])" for buf
      using False acc(1) str(1) by (subst encode_85.simps) (simp add: encode_85_digits_eq)
    moreover have "length (?c @ str) = 5 * ((n + 3) div 4)"
    proof -
      have "(n - min 4 n + 3) div 4 + 1 = (n + 3) div 4"
        using False by (cases "n \<le> 4") (auto simp: min_def)
      then show ?thesis
        using str(2) by simp
    qed
    moreover have "decode_85 ((?c @ str) @ r) n dst = Value (0, dst @ take n data)" for r dst
    proof -
      have "(if n < 4 then n else 4) = min 4 n"
        by simp
      moreover have "take n data = take (min 4 n) data @ take (n - min 4 n) (drop (min 4 n) data)"
        by (metis le_add_diff_inverse min.cobounded2 take_add)
      moreover have "decode_85_out (min 4 n) acc = take (min 4 n) data"
        using acc(2) by (simp add: decode_85_out_eq)
      ultimately show ?thesis
        using False decode_85_group_ok [of acc "str @ r"] str(3)
        by (subst decode_85.simps) (simp add: Let_def)
    qed
    ultimately show ?thesis
      by blast
  qed
qed

lemma decode_85_encodes:
  "decode_85 str (4 * m) dst = Value (0, out) \<Longrightarrow>
     \<exists>data. out = dst @ data \<and> length data = 4 * m \<and>
       (\<forall>buf. encode_85 data (4 * m) buf = Some (buf @ take (5 * m) str @ [0]))"
proof (induction m arbitrary: str dst)
  case 0
  then show ?case
    by (simp add: decode_85.simps encode_85.simps)
next
  case (Suc m)
  obtain acc r where g: "decode_85_group str = Value (acc, r)"
    using Suc.prems by (subst (asm) decode_85.simps) (auto split: outcome.splits)
  have "decode_85 r (4 * m) (dst @ word_bytes acc) = Value (0, out)"
    using Suc.prems g by (subst (asm) decode_85.simps) (simp add: decode_85_out_eq)
  then obtain data where data: "out = dst @ word_bytes acc @ data" "length data = 4 * m"
    "\<And>buf. encode_85 data (4 * m) buf = Some (buf @ take (5 * m) r @ [0])"
    using Suc.IH by fastforce
  obtain acc' where acc': "encode_85_pack [24, 16, 8, 0] 0 (word_bytes acc @ data) (4 * Suc m) =
      Some (acc', data, 4 * m)" "take 4 (word_bytes acc') = word_bytes acc"
    using encode_85_pack_eq [of "4 * Suc m" "word_bytes acc @ data"] data(2) by auto
  then have "acc' = acc"
    by (simp add: word_bytes_inject)
  moreover have "take (5 * Suc m) str = chars85 (digits85 (unat acc)) @ take (5 * m) r"
    using decode_85_group_inv [OF g] by simp
  ultimately have "encode_85 (word_bytes acc @ data) (4 * Suc m) buf = Some (buf @ take (5 * Suc m) str @ [0])"
    for buf
    using acc' data(3) by (subst encode_85.simps) (simp add: encode_85_digits_eq)
  then show ?case
    using data(1,2) by (intro exI [of _ "word_bytes acc @ data"]) simp
qed

text \<open>
  (C15) Encoding \<open>n\<close> bytes writes five characters for every four bytes, the last group padded, and a
  NUL; decoding \<open>n\<close> bytes from these characters succeeds, reads nothing after them and gives the
  data back.
\<close>
theorem base85_roundtrip:
  assumes "n \<le> length data"
  shows "\<exists>str. encode_85 data n [] = Some (str @ [0]) \<and> length str = 5 * ((n + 3) div 4) \<and>
    (\<forall>rest. decode_85 (str @ rest) n [] = Value (0, take n data))"
  using encode_85_decodes [OF assms] by auto

lemma base85_roundtrip_witness:
  "\<exists>str. encode_85 [1, 2, 3, 4, 255] 5 [] = Some (str @ [0]) \<and> length str = 10 \<and>
     (\<forall>rest. decode_85 (str @ rest) 5 [] = Value (0, [1, 2, 3, 4, 255]))"
  using base85_roundtrip [of 5 "[1, 2, 3, 4, 255]"] by simp

text \<open>
  The overflow check leaves no second spelling: whatever the decoder accepts for a number of
  bytes divisible by four is exactly what the encoder writes for the bytes it returns.
\<close>
theorem base85_canonical:
  assumes "decode_85 str (4 * m) [] = Value (0, data)"
  shows "length data = 4 * m \<and> encode_85 data (4 * m) [] = Some (take (5 * m) str @ [0])"
  using decode_85_encodes [OF assms] by auto

lemma base85_canonical_witness:
  "encode_85 [0, 0, 0, 0] 4 [] = Some ([48, 48, 48, 48, 48] @ [0])"
proof -
  have "chars85 (digits85 (unat (0 :: u32))) = [48, 48, 48, 48, 48]"
    by code_simp
  then have "decode_85_group [48, 48, 48, 48, 48] = Value (0, [])"
    using decode_85_group_ok [of 0 "[]"] by simp
  then have "decode_85 [48, 48, 48, 48, 48] (4 * 1) [] = Value (0, [0, 0, 0, 0])"
    by (subst decode_85.simps, subst decode_85.simps)
      (simp add: decode_85_out_eq word_bytes_def)
  from base85_canonical [OF this] show ?thesis
    by simp
qed

end
