(* ===== verification/Git_String_List.thy ===== *)
theory Git_String_List
  imports Git_Strings Git_Qsort
begin

text \<open>
  \<^verbatim>\<open>string-list.c\<close>: arrays of strings with a pointer to user data each, sorted or not.  A string is
  the list of its bytes before the NUL, the array is the list of its first \<open>nr\<close> items with the
  size it is allocated for, and a pointer to an item is its index.  Operations that release
  memory return, beside the list, what they call \<open>free\<close> or the clear callback on, in order.
\<close>

record 'u string_list_item =
  sl_string :: "byte list"
  sl_util :: "'u option"

record 'u string_list =
  sl_items :: "'u string_list_item list"
  sl_alloc :: nat
  strdup_strings :: bool
  sl_cmp :: "(byte list \<Rightarrow> byte list \<Rightarrow> int) option"

definition string_list_init :: "bool \<Rightarrow> 'u string_list" where
  "string_list_init strdup = \<lparr>sl_items = [], sl_alloc = 0, strdup_strings = strdup, sl_cmp = None\<rparr>"

datatype 'u released = FreeString "byte list" | FreeUtil "'u option" | ClearItem "'u option" "byte list"

text \<open>What dropping an item frees: its string when the list owns it, its data when asked to.\<close>

definition free_item :: "'u string_list \<Rightarrow> bool \<Rightarrow> 'u string_list_item \<Rightarrow> 'u released list" where
  "free_item list free_util item =
     (if strdup_strings list then [FreeString (sl_string item)] else []) @
     (if free_util then [FreeUtil (sl_util item)] else [])"

abbreviation compare_strings :: "'u string_list \<Rightarrow> byte list \<Rightarrow> byte list \<Rightarrow> int" where
  "compare_strings list \<equiv> (case sl_cmp list of Some cmp \<Rightarrow> cmp | None \<Rightarrow> strcmp)"

subsection \<open>Sorted lists\<close>

text \<open>The loop of \<open>get_entry_index\<close>: the index and whether the match is exact.\<close>

function get_entry_loop :: "(byte list \<Rightarrow> byte list \<Rightarrow> int) \<Rightarrow> byte list list \<Rightarrow> byte list \<Rightarrow> int \<Rightarrow> int \<Rightarrow> int \<times> bool" where
  "get_entry_loop cmp keys string left right =
     (if left + 1 < right then
        let middle = left + (right - left) div 2;
            compare = cmp string (keys ! nat middle)
        in if compare < 0 then get_entry_loop cmp keys string left middle
           else if compare > 0 then get_entry_loop cmp keys string middle right
           else (middle, True)
      else (right, False))"
  by pat_completeness auto
termination
  by (relation "measure (\<lambda>(cmp, keys, string, left, right). nat (right - left))") auto

declare get_entry_loop.simps [simp del]

definition get_entry_index :: "'u string_list \<Rightarrow> byte list \<Rightarrow> int \<times> bool" where
  "get_entry_index list string =
     get_entry_loop (compare_strings list) (map sl_string (sl_items list)) string (- 1) (int (length (sl_items list)))"

definition add_entry :: "int \<Rightarrow> 'u string_list \<Rightarrow> byte list \<Rightarrow> 'u string_list \<times> int" where
  "add_entry insert_at list string =
     (let (index, exact_match) = (if insert_at \<noteq> - 1 then (insert_at, False) else get_entry_index list string) in
      if exact_match then (list, - 1 - index)
      else
        let items = sl_items list; i = nat index; item = \<lparr>sl_string = string, sl_util = None\<rparr>
        in (list\<lparr>sl_alloc := ALLOC_GROW (length items + 1) (sl_alloc list),
                 sl_items := take i items @ item # drop i items\<rparr>, index))"

definition string_list_insert :: "'u string_list \<Rightarrow> byte list \<Rightarrow> 'u string_list \<times> int" where
  "string_list_insert list string =
     (let (list, index) = add_entry (- 1) list string
      in (list, if index < 0 then - 1 - index else index))"

definition string_list_remove ::
    "'u string_list \<Rightarrow> byte list \<Rightarrow> bool \<Rightarrow> 'u string_list \<times> 'u released list" where
  "string_list_remove list string free_util =
     (let (i, exact_match) = get_entry_index list string in
      if exact_match
      then (list\<lparr>sl_items := take (nat i) (sl_items list) @ drop (nat i + 1) (sl_items list)\<rparr>,
            free_item list free_util (sl_items list ! nat i))
      else (list, []))"

definition string_list_has_string :: "'u string_list \<Rightarrow> byte list \<Rightarrow> bool" where
  "string_list_has_string list string = snd (get_entry_index list string)"

definition string_list_find_insert_index :: "'u string_list \<Rightarrow> byte list \<Rightarrow> bool \<Rightarrow> int" where
  "string_list_find_insert_index list string negative_existing_index =
     (let (index, exact_match) = get_entry_index list string
      in if exact_match then - 1 - (if negative_existing_index then index else 0) else index)"

definition string_list_lookup :: "'u string_list \<Rightarrow> byte list \<Rightarrow> nat option" where
  "string_list_lookup list string =
     (let (i, exact_match) = get_entry_index list string in if exact_match then Some (nat i) else None)"

text \<open>The items up to \<open>dst\<close> and what was freed, one step of the loop over \<open>src\<close>.\<close>

definition remove_duplicates_step ::
    "(byte list \<Rightarrow> byte list \<Rightarrow> int) \<Rightarrow> ('u string_list_item \<Rightarrow> 'u released list) \<Rightarrow>
       'u string_list_item list \<times> 'u released list \<Rightarrow> 'u string_list_item \<Rightarrow>
       'u string_list_item list \<times> 'u released list" where
  "remove_duplicates_step cmp fr s src =
     (case s of (dst, freed) \<Rightarrow>
        if cmp (sl_string (last dst)) (sl_string src) = 0 then (dst, freed @ fr src)
        else (dst @ [src], freed))"

definition string_list_remove_duplicates ::
    "'u string_list \<Rightarrow> bool \<Rightarrow> 'u string_list \<times> 'u released list" where
  "string_list_remove_duplicates list free_util =
     (if length (sl_items list) > 1
      then (case foldl (remove_duplicates_step (compare_strings list) (free_item list free_util))
                   ([hd (sl_items list)], []) (tl (sl_items list)) of
              (dst, freed) \<Rightarrow> (list\<lparr>sl_items := dst\<rparr>, freed))
      else (list, []))"

subsection \<open>All lists\<close>

fun for_each_string :: "('u string_list_item \<Rightarrow> 'd \<Rightarrow> int \<times> 'u string_list_item \<times> 'd) \<Rightarrow>
    'u string_list_item list \<Rightarrow> 'd \<Rightarrow> int \<times> 'u string_list_item list \<times> 'd" where
  "for_each_string f [] d = (0, [], d)"
| "for_each_string f (it # items) d =
     (case f it d of
        (ret, it', d') \<Rightarrow>
          if ret \<noteq> 0 then (ret, it' # items, d')
          else case for_each_string f items d' of (ret, items', d'') \<Rightarrow> (ret, it' # items', d''))"

definition for_each_string_list :: "'u string_list \<Rightarrow>
    ('u string_list_item \<Rightarrow> 'd \<Rightarrow> int \<times> 'u string_list_item \<times> 'd) \<Rightarrow> 'd \<Rightarrow> 'u string_list \<times> int \<times> 'd" where
  "for_each_string_list list f d =
     (case for_each_string f (sl_items list) d of
        (ret, items, d') \<Rightarrow> (list\<lparr>sl_items := items\<rparr>, ret, d'))"

fun filter_items ::
    "('u string_list_item \<Rightarrow> 'd \<Rightarrow> bool \<times> 'd) \<Rightarrow> ('u string_list_item \<Rightarrow> 'u released list) \<Rightarrow>
       'u string_list_item list \<Rightarrow> 'd \<Rightarrow> 'u string_list_item list \<times> 'u released list \<times> 'd" where
  "filter_items want fr [] d = ([], [], d)"
| "filter_items want fr (it # items) d =
     (case want it d of
        (keep, d1) \<Rightarrow>
          case filter_items want fr items d1 of
            (kept, freed, d2) \<Rightarrow> if keep then (it # kept, freed, d2) else (kept, fr it @ freed, d2))"

definition filter_string_list ::
    "'u string_list \<Rightarrow> bool \<Rightarrow> ('u string_list_item \<Rightarrow> 'd \<Rightarrow> bool \<times> 'd) \<Rightarrow> 'd \<Rightarrow>
       'u string_list \<times> 'u released list \<times> 'd" where
  "filter_string_list list free_util want d =
     (case filter_items want (free_item list free_util) (sl_items list) d of
        (kept, freed, d1) \<Rightarrow> (list\<lparr>sl_items := kept\<rparr>, freed, d1))"

definition item_is_not_empty :: "'u string_list_item \<Rightarrow> unit \<Rightarrow> bool \<times> unit" where
  "item_is_not_empty item unused = (sl_string item \<noteq> [], unused)"

definition string_list_remove_empty_items ::
    "'u string_list \<Rightarrow> bool \<Rightarrow> 'u string_list \<times> 'u released list" where
  "string_list_remove_empty_items list free_util =
     (case filter_string_list list free_util item_is_not_empty () of (l, freed, _) \<Rightarrow> (l, freed))"

definition string_list_clear :: "'u string_list \<Rightarrow> bool \<Rightarrow> 'u string_list \<times> 'u released list" where
  "string_list_clear list free_util =
     (list\<lparr>sl_items := [], sl_alloc := 0\<rparr>,
      (if strdup_strings list then map (\<lambda>it. FreeString (sl_string it)) (sl_items list) else []) @
      (if free_util then map (\<lambda>it. FreeUtil (sl_util it)) (sl_items list) else []))"

definition string_list_clear_func :: "'u string_list \<Rightarrow> bool \<Rightarrow> 'u string_list \<times> 'u released list" where
  "string_list_clear_func list clearfunc =
     (list\<lparr>sl_items := [], sl_alloc := 0\<rparr>,
      (if clearfunc then map (\<lambda>it. ClearItem (sl_util it) (sl_string it)) (sl_items list) else []) @
      (if strdup_strings list then map (\<lambda>it. FreeString (sl_string it)) (sl_items list) else []))"

definition string_list_append_nodup :: "'u string_list \<Rightarrow> byte list \<Rightarrow> 'u string_list" where
  "string_list_append_nodup list string =
     list\<lparr>sl_alloc := ALLOC_GROW (length (sl_items list) + 1) (sl_alloc list),
          sl_items := sl_items list @ [\<lparr>sl_string = string, sl_util = None\<rparr>]\<rparr>"

definition string_list_append :: "'u string_list \<Rightarrow> byte list \<Rightarrow> 'u string_list" where
  "string_list_append list string = string_list_append_nodup list string"

definition cmp_items :: "(byte list \<Rightarrow> byte list \<Rightarrow> int) \<Rightarrow> 'u string_list_item \<Rightarrow> 'u string_list_item \<Rightarrow> int" where
  "cmp_items cmp one two = cmp (sl_string one) (sl_string two)"

text \<open>\<open>QSORT_S\<close> dies when \<open>git_qsort_s\<close> does not return 0; an item is two pointers.\<close>

definition string_list_sort :: "(nat \<Rightarrow> 'u string_list_item) \<Rightarrow> 'u string_list \<Rightarrow> 'u string_list outcome" where
  "string_list_sort garbage list =
     (case git_qsort_s garbage 16 (Some (cmp_items (compare_strings list)))
             (if sl_alloc list = 0 then None else Some (sl_items list)) (length (sl_items list)) of
        Value (ret, items) \<Rightarrow>
          if ret \<noteq> 0 then Failure
          else Value (list\<lparr>sl_items := (case items of Some b \<Rightarrow> b | None \<Rightarrow> [])\<rparr>)
      | Failure \<Rightarrow> Failure
      | Fault \<Rightarrow> Fault)"

fun unsorted_lookup_loop :: "(byte list \<Rightarrow> byte list \<Rightarrow> int) \<Rightarrow> byte list \<Rightarrow> 'u string_list_item list \<Rightarrow> nat \<Rightarrow> nat option" where
  "unsorted_lookup_loop cmp string [] i = None"
| "unsorted_lookup_loop cmp string (it # items) i =
     (if cmp string (sl_string it) = 0 then Some i else unsorted_lookup_loop cmp string items (i + 1))"

definition unsorted_string_list_lookup :: "'u string_list \<Rightarrow> byte list \<Rightarrow> nat option" where
  "unsorted_string_list_lookup list string =
     unsorted_lookup_loop (compare_strings list) string (sl_items list) 0"

definition unsorted_string_list_has_string :: "'u string_list \<Rightarrow> byte list \<Rightarrow> bool" where
  "unsorted_string_list_has_string list string = (unsorted_string_list_lookup list string \<noteq> None)"

definition unsorted_string_list_delete_item ::
    "'u string_list \<Rightarrow> nat \<Rightarrow> bool \<Rightarrow> 'u string_list \<times> 'u released list" where
  "unsorted_string_list_delete_item list i free_util =
     (list\<lparr>sl_items := butlast ((sl_items list)[i := last (sl_items list)])\<rparr>,
      free_item list free_util (sl_items list ! i))"

subsection \<open>Splitting\<close>

text \<open>
  \<open>strchr\<close> on the bytes before the NUL: the index of the first occurrence, which for \<open>delim = 0\<close> is
  that of the NUL itself; the code then continues one byte after it, outside the string.
\<close>

fun strchr :: "byte list \<Rightarrow> byte \<Rightarrow> nat option" where
  "strchr [] c = (if c = 0 then Some 0 else None)"
| "strchr (x # xs) c = (if x = c then Some 0 else map_option Suc (strchr xs c))"

lemma strchr_less: "strchr p c = Some k \<Longrightarrow> k \<le> length p"
  by (induction p arbitrary: k) (auto split: if_splits)

function split_loop :: "'u string_list \<Rightarrow> byte list \<Rightarrow> byte \<Rightarrow> int \<Rightarrow> int \<Rightarrow> ('u string_list \<times> int) outcome" where
  "split_loop list p delim maxsplit n =
     (let n = n + 1 in
      if maxsplit \<ge> 0 \<and> n > maxsplit then Value (string_list_append list p, n)
      else case strchr p delim of
        Some e \<Rightarrow>
          if e = length p then Fault
          else split_loop (string_list_append_nodup list (take e p)) (drop (e + 1) p) delim maxsplit n
      | None \<Rightarrow> Value (string_list_append list p, n))"
  by pat_completeness auto
termination
  by (relation "measure (\<lambda>(list, p, delim, maxsplit, n). length p)") (auto dest: strchr_less)

declare split_loop.simps [simp del]

definition string_list_split :: "'u string_list \<Rightarrow> byte list \<Rightarrow> byte \<Rightarrow> int \<Rightarrow> ('u string_list \<times> int) outcome" where
  "string_list_split list string delim maxsplit =
     (if \<not> strdup_strings list then Failure else split_loop list string delim maxsplit 0)"

text \<open>In place: \<open>pre\<close> is the part of the buffer before \<open>p\<close>, its delimiters already overwritten.\<close>

function split_in_place_loop ::
    "'u string_list \<Rightarrow> byte list \<Rightarrow> byte list \<Rightarrow> byte \<Rightarrow> int \<Rightarrow> int \<Rightarrow> ('u string_list \<times> byte list \<times> int) outcome" where
  "split_in_place_loop list pre p delim maxsplit n =
     (let n = n + 1 in
      if maxsplit \<ge> 0 \<and> n > maxsplit then Value (string_list_append list p, pre @ p, n)
      else case strchr p delim of
        Some e \<Rightarrow>
          if e = length p then Fault
          else split_in_place_loop (string_list_append list (take e p)) (pre @ take e p @ [0])
                 (drop (e + 1) p) delim maxsplit n
      | None \<Rightarrow> Value (string_list_append list p, pre @ p, n))"
  by pat_completeness auto
termination
  by (relation "measure (\<lambda>(list, pre, p, delim, maxsplit, n). length p)") (auto dest: strchr_less)

declare split_in_place_loop.simps [simp del]

definition string_list_split_in_place ::
    "'u string_list \<Rightarrow> byte list \<Rightarrow> byte \<Rightarrow> int \<Rightarrow> ('u string_list \<times> byte list \<times> int) outcome" where
  "string_list_split_in_place list string delim maxsplit =
     (if strdup_strings list then Failure else split_in_place_loop list [] string delim maxsplit 0)"

subsection \<open>The binary search\<close>

definition entry_inv :: "(byte list \<Rightarrow> byte list \<Rightarrow> int) \<Rightarrow> byte list list \<Rightarrow> byte list \<Rightarrow> int \<Rightarrow> int \<Rightarrow> bool" where
  "entry_inv cmp keys s left right \<longleftrightarrow>
     - 1 \<le> left \<and> left < right \<and> right \<le> int (length keys) \<and>
     (\<forall>i. int i \<le> left \<longrightarrow> cmp s (keys ! i) > 0) \<and>
     (\<forall>i. right \<le> int i \<and> i < length keys \<longrightarrow> cmp s (keys ! i) < 0)"

definition entry_result :: "(byte list \<Rightarrow> byte list \<Rightarrow> int) \<Rightarrow> byte list list \<Rightarrow> byte list \<Rightarrow> int \<times> bool \<Rightarrow> bool" where
  "entry_result cmp keys s r \<longleftrightarrow>
     (\<exists>i<length keys. r = (int i, True) \<and> cmp s (keys ! i) = 0) \<or>
     (\<exists>p\<le>length keys. r = (int p, False) \<and> (\<forall>i<p. cmp s (keys ! i) > 0) \<and>
        (\<forall>i. p \<le> i \<and> i < length keys \<longrightarrow> cmp s (keys ! i) < 0))"

lemma ordered_by_nth: "ordered_by cmp xs \<Longrightarrow> i < j \<Longrightarrow> j < length xs \<Longrightarrow> cmp (xs ! i) (xs ! j) \<le> 0"
  unfolding ordered_by_def by (rule sorted_wrt_nth_less)

context comparator_on
begin

lemma less_of_ordered:
  assumes "ordered_by cmp xs" and "set xs \<subseteq> S" and "k \<in> S" and "m < length xs" and "i < length xs"
  shows "cmp k (xs ! m) < 0 \<Longrightarrow> m \<le> i \<Longrightarrow> cmp k (xs ! i) < 0"
    and "cmp k (xs ! m) > 0 \<Longrightarrow> i \<le> m \<Longrightarrow> cmp k (xs ! i) > 0"
proof -
  have mem: "xs ! m \<in> S" "xs ! i \<in> S"
    using assms(2,4,5) nth_mem by blast+
  show "cmp k (xs ! i) < 0" if "cmp k (xs ! m) < 0" "m \<le> i"
  proof (cases "m = i")
    case False
    then have "cmp (xs ! m) (xs ! i) \<le> 0"
      using ordered_by_nth [OF assms(1)] that(2) assms(5) by simp
    then show ?thesis
      using less_trans [OF assms(3) mem that(1)] by blast
  qed (use that in simp)
  show "cmp k (xs ! i) > 0" if "cmp k (xs ! m) > 0" "i \<le> m"
  proof (cases "m = i")
    case False
    then have le: "cmp (xs ! i) (xs ! m) \<le> 0"
      using ordered_by_nth [OF assms(1)] that(2) assms(4) by simp
    show ?thesis
    proof (rule ccontr)
      assume "\<not> 0 < cmp k (xs ! i)"
      then have "cmp k (xs ! m) \<le> 0"
        using order_trans [OF assms(3) mem(2,1)] le by simp
      then show False
        using that(1) by simp
    qed
  qed (use that in simp)
qed

end

lemma get_entry_loop_result:
  assumes "comparator_on UNIV cmp" and "ordered_by cmp keys"
  shows "entry_inv cmp keys s left right \<Longrightarrow> entry_result cmp keys s (get_entry_loop cmp keys s left right)"
  using assms
proof (induction cmp keys s left right rule: get_entry_loop.induct)
  case (1 cmp keys s left right)
  note less = comparator_on.less_of_ordered [OF "1.prems"(2,3) subset_UNIV UNIV_I]
  show ?case
  proof (cases "left + 1 < right")
    case True
    define middle where "middle = left + (right - left) div 2"
    obtain m where m: "middle = int m" "m < length keys" "left < int m" "int m < right"
    proof
      have "left < middle" "middle < right"
        using True unfolding middle_def by linarith+
      then show "middle = int (nat middle)" "nat middle < length keys" "left < int (nat middle)"
        "int (nat middle) < right"
        using "1.prems"(1) by (auto simp: entry_inv_def)
    qed
    consider "cmp s (keys ! m) < 0" | "cmp s (keys ! m) > 0" | "cmp s (keys ! m) = 0"
      by linarith
    then show ?thesis
    proof cases
      case 1
      have "cmp s (keys ! i) < 0" if "middle \<le> int i" "i < length keys" for i
        using less(1) [OF m(2) that(2) 1] that(1) m(1) by simp
      then have "entry_inv cmp keys s left middle"
        using "1.prems"(1) m by (simp add: entry_inv_def)
      then show ?thesis
        using "1.IH"(1) [OF True middle_def refl] \<open>cmp s (keys ! m) < 0\<close> True "1.prems"(2,3) m(1)
        by (subst get_entry_loop.simps) (simp add: middle_def [symmetric])
    next
      case 2
      have "cmp s (keys ! i) > 0" if "int i \<le> middle" for i
        using less(2) [OF m(2) _ 2] that m(1,2) by simp
      then have "entry_inv cmp keys s middle right"
        using "1.prems"(1) m by (simp add: entry_inv_def)
      then show ?thesis
        using "1.IH"(2) [OF True middle_def refl] \<open>cmp s (keys ! m) > 0\<close> True "1.prems"(2,3) m(1)
        by (subst get_entry_loop.simps) (simp add: middle_def [symmetric])
    next
      case 3
      then show ?thesis
        using True m by (subst get_entry_loop.simps) (auto simp: entry_result_def middle_def [symmetric])
    qed
  next
    case False
    then have "right = left + 1"
      using "1.prems"(1) by (simp add: entry_inv_def)
    then have "entry_result cmp keys s (right, False)"
      using "1.prems"(1) unfolding entry_inv_def entry_result_def
      by (intro disjI2 exI [of _ "nat right"]) auto
    then show ?thesis
      using False by (subst get_entry_loop.simps) simp
  qed
qed

lemma get_entry_result:
  assumes "comparator_on UNIV cmp" and "ordered_by cmp keys"
  shows "entry_result cmp keys s (get_entry_loop cmp keys s (- 1) (int (length keys)))"
  by (rule get_entry_loop_result [OF assms]) (simp add: entry_inv_def)

definition entry_find :: "(byte list \<Rightarrow> byte list \<Rightarrow> int) \<Rightarrow> byte list list \<Rightarrow> byte list \<Rightarrow> nat + nat" where
  "entry_find cmp keys s =
     (case get_entry_loop cmp keys s (- 1) (int (length keys)) of
        (i, exact_match) \<Rightarrow> if exact_match then Inl (nat i) else Inr (nat i))"

lemma entry_find_lookup:
  assumes cmp: "comparator_on UNIV cmp"
  shows "sorted_lookup UNIV cmp (ordered_by cmp) (entry_find cmp)"
proof (intro sorted_lookup.intro [OF cmp] sorted_lookup_axioms.intro)
  fix t k i assume t: "ordered_by cmp t" "entry_find cmp t k = Inl i"
  then show "i < length t \<and> cmp k (t ! i) = 0"
    using get_entry_result [OF cmp t(1), of k] by (auto simp: entry_find_def entry_result_def)
next
  fix t k p assume t: "ordered_by cmp t" "entry_find cmp t k = Inr p"
  then have p: "p \<le> length t" "\<forall>i<p. cmp k (t ! i) > 0" "\<forall>i. p \<le> i \<and> i < length t \<longrightarrow> cmp k (t ! i) < 0"
    using get_entry_result [OF cmp t(1), of k] by (auto simp: entry_find_def entry_result_def)
  have "cmp x k < 0" if "x \<in> set (take p t)" for x
    using that p(2) comparator_on.pos_flip [OF cmp, of k x] by (auto simp: in_set_conv_nth)
  moreover have "cmp k x < 0" if "x \<in> set (drop p t)" for x
    using that p(3) by (auto simp: in_set_conv_nth)
  ultimately show "p \<le> length t \<and> (\<forall>x\<in>set (take p t). cmp x k < 0) \<and> (\<forall>x\<in>set (drop p t). cmp k x < 0)"
    using p(1) by blast
qed simp_all

interpretation slist: sorted_lookup UNIV strcmp "ordered_by strcmp" "entry_find strcmp"
  by (rule entry_find_lookup [OF strcmp.comparator_on_axioms])

subsection \<open>A sorted list as a map\<close>

abbreviation keys_of :: "'u string_list_item list \<Rightarrow> byte list list" where
  "keys_of items \<equiv> map sl_string items"

definition items_map :: "'u string_list_item list \<Rightarrow> byte list \<rightharpoonup> 'u option" where
  "items_map items = map_of (map (\<lambda>it. (sl_string it, sl_util it)) items)"

definition slist_map :: "'u string_list \<Rightarrow> byte list \<rightharpoonup> 'u option" where
  "slist_map l = items_map (sl_items l)"

definition slist_ok :: "'u string_list \<Rightarrow> bool" where
  "slist_ok l \<longleftrightarrow>
     sl_cmp l = None \<and> sorted_wrt (<) (keys_of (sl_items l)) \<and> length (sl_items l) \<le> sl_alloc l"

lemma items_map_append: "items_map (xs @ ys) = items_map ys ++ items_map xs"
  by (simp add: items_map_def)

lemma items_map_Cons: "items_map (it # xs) = (items_map xs)(sl_string it \<mapsto> sl_util it)"
  by (simp add: items_map_def)

lemma items_map_None: "items_map xs s = None \<longleftrightarrow> s \<notin> set (keys_of xs)"
  by (auto simp: items_map_def map_of_eq_None_iff image_image)

lemma items_map_nth:
  "distinct (keys_of items) \<Longrightarrow> i < length items \<Longrightarrow>
     items_map items (sl_string (items ! i)) = Some (sl_util (items ! i))"
  unfolding items_map_def by (rule map_of_eq_Some_iff [THEN iffD2]) (auto simp: comp_def intro: nth_mem)

lemma items_map_insert:
  assumes "s \<notin> set (keys_of xs)"
  shows "items_map (xs @ \<lparr>sl_string = s, sl_util = u\<rparr> # ys) = (items_map (xs @ ys))(s \<mapsto> u)"
  using assms items_map_None [of xs s]
  by (auto simp: items_map_append items_map_Cons map_add_def split: option.splits)

lemma items_map_delete:
  assumes "distinct (keys_of (xs @ it # ys))"
  shows "items_map (xs @ ys) = (items_map (xs @ it # ys))(sl_string it := None)"
  using assms items_map_None [of xs "sl_string it"] items_map_None [of ys "sl_string it"]
  by (auto simp: items_map_append items_map_Cons map_add_def fun_eq_iff split: option.splits)

lemma strict_ordered: "sorted_wrt (<) ks \<Longrightarrow> ordered_by strcmp ks \<and> distinct ks"
proof -
  assume s: "sorted_wrt (<) ks"
  have "strcmp x y \<le> 0" if "x < y" for x y
    using that strcmp_neg [of x y] by simp
  then show ?thesis
    using s strict_sorted_imp_sorted sorted_wrt_mono_rel [of ks "(<)" "\<lambda>x y. strcmp x y \<le> 0"]
    by (auto simp: ordered_by_def strict_sorted_iff)
qed

lemma get_entry_index_cases:
  assumes "slist_ok l"
  obtains
    i where "i < length (sl_items l)" and "get_entry_index l s = (int i, True)" and "sl_string (sl_items l ! i) = s"
  | p where "p \<le> length (sl_items l)" and "get_entry_index l s = (int p, False)"
      and "\<forall>k\<in>set (keys_of (take p (sl_items l))). k < s" and "\<forall>k\<in>set (keys_of (drop p (sl_items l))). s < k"
proof -
  let ?ks = "keys_of (sl_items l)"
  have ks: "ordered_by strcmp ?ks" "sl_cmp l = None"
    using assms strict_ordered by (auto simp: slist_ok_def)
  then have g: "get_entry_index l s = get_entry_loop strcmp ?ks s (- 1) (int (length ?ks))"
    by (simp add: get_entry_index_def)
  show ?thesis
    using get_entry_result [OF strcmp.comparator_on_axioms ks(1), of s] unfolding entry_result_def
  proof
    assume "\<exists>i<length ?ks. get_entry_loop strcmp ?ks s (- 1) (int (length ?ks)) = (int i, True) \<and> strcmp s (?ks ! i) = 0"
    then show ?thesis
      using that(1) g by auto
  next
    assume "\<exists>p\<le>length ?ks. get_entry_loop strcmp ?ks s (- 1) (int (length ?ks)) = (int p, False) \<and>
      (\<forall>i<p. strcmp s (?ks ! i) > 0) \<and> (\<forall>i. p \<le> i \<and> i < length ?ks \<longrightarrow> strcmp s (?ks ! i) < 0)"
    then obtain p where p: "p \<le> length ?ks" "get_entry_index l s = (int p, False)"
      "entry_find strcmp ?ks s = Inr p"
      using g by (auto simp: entry_find_def)
    have "\<forall>x\<in>set (take p ?ks). strcmp x s < 0" "\<forall>x\<in>set (drop p ?ks). strcmp s x < 0"
      using slist.miss [OF ks(1) UNIV_I p(3)] by blast+
    then show ?thesis
      using that(2) [of p] p by (simp add: strcmp_neg take_map drop_map)
  qed
qed

lemma slist_ok_distinct: "slist_ok l \<Longrightarrow> distinct (keys_of (sl_items l))"
  using strict_ordered by (auto simp: slist_ok_def)

lemma slist_lookup_ok:
  assumes "slist_ok l"
  shows "(string_list_has_string l s \<longleftrightarrow> slist_map l s \<noteq> None) \<and>
    (case string_list_lookup l s of
       None \<Rightarrow> slist_map l s = None
     | Some i \<Rightarrow> i < length (sl_items l) \<and> sl_string (sl_items l ! i) = s \<and>
         slist_map l s = Some (sl_util (sl_items l ! i)))"
  using assms
proof (cases rule: get_entry_index_cases [where s = s])
  case (1 i)
  then have "slist_map l s = Some (sl_util (sl_items l ! i))"
    using items_map_nth [OF slist_ok_distinct [OF assms], of i] by (simp add: slist_map_def)
  then show ?thesis
    using 1 by (simp add: string_list_has_string_def string_list_lookup_def)
next
  case (2 p)
  have "s \<notin> set (keys_of (take p (sl_items l))) \<union> set (keys_of (drop p (sl_items l)))"
    using 2(3,4) by blast
  then have "s \<notin> set (keys_of (sl_items l))"
    by (metis append_take_drop_id map_append set_append)
  then have "slist_map l s = None"
    by (simp add: slist_map_def items_map_None)
  then show ?thesis
    using 2 by (simp add: string_list_has_string_def string_list_lookup_def)
qed

lemma slist_insert_ok:
  assumes "slist_ok l"
  shows "case string_list_insert l s of (l', i) \<Rightarrow>
    slist_ok l' \<and> 0 \<le> i \<and> nat i < length (sl_items l') \<and> sl_string (sl_items l' ! nat i) = s \<and>
    slist_map l' = (slist_map l)(s \<mapsto> (case slist_map l s of None \<Rightarrow> None | Some u \<Rightarrow> u))"
  using assms
proof (cases rule: get_entry_index_cases [where s = s])
  case (1 i)
  then have "slist_map l s = Some (sl_util (sl_items l ! i))"
    using items_map_nth [OF slist_ok_distinct [OF assms], of i] by (simp add: slist_map_def)
  then show ?thesis
    using 1 assms by (auto simp: string_list_insert_def add_entry_def)
next
  case (2 p)
  let ?xs = "take p (sl_items l)" and ?ys = "drop p (sl_items l)" and ?it = "\<lparr>sl_string = s, sl_util = None\<rparr>"
  have ins: "string_list_insert l s =
      (l\<lparr>sl_alloc := ALLOC_GROW (length (sl_items l) + 1) (sl_alloc l), sl_items := ?xs @ ?it # ?ys\<rparr>, int p)"
    using 2 by (simp add: string_list_insert_def add_entry_def Let_def)
  have none: "s \<notin> set (keys_of ?xs)" "s \<notin> set (keys_of ?ys)"
    using 2(3,4) by auto
  then have "s \<notin> set (keys_of (?xs @ ?ys))"
    by (simp del: append_take_drop_id)
  then have absent: "slist_map l s = None"
    by (simp add: slist_map_def items_map_None)
  have "sorted_wrt (<) (keys_of (?xs @ ?ys))"
    using assms by (simp add: slist_ok_def)
  then have "sorted_wrt (<) (keys_of (?xs @ ?it # ?ys))"
    using 2(3,4) by (auto simp: sorted_wrt_append simp del: append_take_drop_id)
  moreover have "items_map (?xs @ ?it # ?ys) = (items_map (sl_items l))(s \<mapsto> None)"
    using items_map_insert [OF none(1), of None ?ys] by simp
  ultimately show ?thesis
    using ins absent 2(1) assms ALLOC_GROW_room by (simp add: slist_ok_def slist_map_def nth_append)
qed

lemma slist_remove_ok:
  assumes "slist_ok l"
  shows "case string_list_remove l s free_util of (l', freed) \<Rightarrow>
    slist_ok l' \<and> slist_map l' = (slist_map l)(s := None) \<and>
    freed = (case string_list_lookup l s of None \<Rightarrow> [] | Some i \<Rightarrow> free_item l free_util (sl_items l ! i))"
  using assms
proof (cases rule: get_entry_index_cases [where s = s])
  case (1 i)
  let ?xs = "take i (sl_items l)" and ?ys = "drop (i + 1) (sl_items l)"
  have items: "sl_items l = ?xs @ sl_items l ! i # ?ys"
    using 1(1) by (simp add: id_take_nth_drop)
  have "sorted_wrt (<) (keys_of (?xs @ sl_items l ! i # ?ys))" "distinct (keys_of (?xs @ sl_items l ! i # ?ys))"
    using assms slist_ok_distinct items by (simp_all add: slist_ok_def)
  then have "sorted_wrt (<) (keys_of (?xs @ ?ys))" "items_map (?xs @ ?ys) = (slist_map l)(s := None)"
    using items_map_delete [of ?xs "sl_items l ! i" ?ys] items 1(3)
    by (simp_all add: sorted_wrt_append slist_map_def)
  then show ?thesis
    using 1 assms by (auto simp: string_list_remove_def string_list_lookup_def slist_ok_def slist_map_def)
next
  case (2 p)
  then have "slist_map l s = None"
    using slist_lookup_ok [OF assms, of s] by (simp add: string_list_has_string_def)
  then show ?thesis
    using 2 assms by (simp add: string_list_remove_def string_list_lookup_def fun_upd_idem)
qed

lemma slist_find_insert_index_ok:
  assumes "slist_ok l"
  shows "(slist_map l s = None \<longrightarrow> string_list_find_insert_index l s neg =
      int (length (filter (\<lambda>k. k < s) (keys_of (sl_items l))))) \<and>
    (slist_map l s \<noteq> None \<longrightarrow> string_list_find_insert_index l s neg =
      (if neg then - 1 - int (the (string_list_lookup l s)) else - 1))"
  using assms
proof (cases rule: get_entry_index_cases [where s = s])
  case (1 i)
  then show ?thesis
    using slist_lookup_ok [OF assms, of s]
    by (auto simp: string_list_find_insert_index_def string_list_has_string_def string_list_lookup_def)
next
  case (2 p)
  have "filter (\<lambda>k. k < s) (keys_of (take p (sl_items l))) = keys_of (take p (sl_items l))"
    "filter (\<lambda>k. k < s) (keys_of (drop p (sl_items l))) = []"
    using 2(3,4) by (auto simp: filter_id_conv filter_empty_conv dest: less_asym)
  then have "filter (\<lambda>k. k < s) (keys_of (take p (sl_items l) @ drop p (sl_items l))) = keys_of (take p (sl_items l))"
    by (simp only: map_append filter_append append_Nil2)
  then show ?thesis
    using 2 slist_lookup_ok [OF assms, of s]
    by (auto simp: string_list_find_insert_index_def string_list_has_string_def)
qed

text \<open>
  (C16) A sorted string list is a map from strings to their user data: lookups answer as the map
  does and point at the item, insertion of a string that is absent adds it with no data and
  otherwise only returns the item, removal deletes it and frees what the list owned of it, the
  insertion index is the number of smaller strings; every operation keeps the list strictly sorted within its allocation.
\<close>
theorem string_list_refines_map:
  assumes "slist_ok l"
  shows "(string_list_has_string l s \<longleftrightarrow> slist_map l s \<noteq> None) \<and>
    (case string_list_lookup l s of
       None \<Rightarrow> slist_map l s = None
     | Some i \<Rightarrow> i < length (sl_items l) \<and> sl_string (sl_items l ! i) = s \<and>
         slist_map l s = Some (sl_util (sl_items l ! i))) \<and>
    (case string_list_insert l s of (l', i) \<Rightarrow>
       slist_ok l' \<and> 0 \<le> i \<and> nat i < length (sl_items l') \<and> sl_string (sl_items l' ! nat i) = s \<and>
       slist_map l' = (slist_map l)(s \<mapsto> (case slist_map l s of None \<Rightarrow> None | Some u \<Rightarrow> u))) \<and>
    (case string_list_remove l s free_util of (l', freed) \<Rightarrow>
       slist_ok l' \<and> slist_map l' = (slist_map l)(s := None) \<and>
       freed = (case string_list_lookup l s of None \<Rightarrow> [] | Some i \<Rightarrow> free_item l free_util (sl_items l ! i))) \<and>
    (slist_map l s = None \<longrightarrow> string_list_find_insert_index l s neg =
       int (length (filter (\<lambda>k. k < s) (keys_of (sl_items l))))) \<and>
    slist_ok (fst (string_list_clear l free_util)) \<and> slist_map (fst (string_list_clear l free_util)) = Map.empty"
  using slist_lookup_ok [OF assms, of s] slist_insert_ok [OF assms, of s] slist_remove_ok [OF assms, of s free_util]
    slist_find_insert_index_ok [OF assms, of s neg] assms
  by (simp add: string_list_clear_def slist_ok_def slist_map_def items_map_def)

definition example_list :: "nat string_list" where
  "example_list = \<lparr>sl_items = [\<lparr>sl_string = [97], sl_util = Some 1\<rparr>, \<lparr>sl_string = [99], sl_util = None\<rparr>],
     sl_alloc = 24, strdup_strings = True, sl_cmp = None\<rparr>"

lemma string_list_refines_map_witness:
  "slist_map (fst (string_list_insert example_list [98])) [98] = Some None \<and>
   slist_map (fst (string_list_remove example_list [97] False)) [97] = None"
proof -
  have ok: "slist_ok example_list"
    by (simp add: slist_ok_def example_list_def)
  have none: "slist_map example_list [98] = None"
    by (simp add: example_list_def slist_map_def items_map_def)
  show ?thesis
    using string_list_refines_map [OF ok, of "[98]" False True] string_list_refines_map [OF ok, of "[97]" False True] none
    by (auto split: prod.splits)
qed

subsection \<open>Sorting a list\<close>

lemma comparator_on_vimage: "comparator_on S cmp \<Longrightarrow> comparator_on {x. f x \<in> S} (\<lambda>x y. cmp (f x) (f y))"
  unfolding comparator_on_def by blast

lemma items_map_filter:
  "items_map xs k = (case filter (\<lambda>it. sl_string it = k) xs of [] \<Rightarrow> None | it # _ \<Rightarrow> Some (sl_util it))"
  by (induction xs) (auto simp: items_map_def)

lemma items_map_stable:
  assumes "stable_sort_of (cmp_items strcmp) xs ys"
  shows "items_map ys = items_map xs"
proof
  fix k
  have keys: "set ys = set xs"
    using assms by (metis stable_sort_of_def mset_eq_setD)
  show "items_map ys k = items_map xs k"
  proof (cases "\<exists>it\<in>set xs. sl_string it = k")
    case True
    then obtain it where "it \<in> set xs" "sl_string it = k"
      by blast
    moreover have "filter (\<lambda>y. cmp_items strcmp it y = 0) ys = filter (\<lambda>y. cmp_items strcmp it y = 0) xs"
      using assms \<open>it \<in> set xs\<close> by (simp add: stable_sort_of_def)
    ultimately have "filter (\<lambda>y. sl_string y = k) ys = filter (\<lambda>y. sl_string y = k) xs"
      by (simp add: cmp_items_def eq_commute [of k])
    then show ?thesis
      by (simp add: items_map_filter)
  next
    case False
    then show ?thesis
      using keys items_map_None [of ys k] items_map_None [of xs k] by fastforce
  qed
qed

lemma remove_duplicates_fold:
  "sorted_wrt (<) (keys_of dst) \<Longrightarrow> dst \<noteq> [] \<Longrightarrow> sorted (sl_string (last dst) # keys_of src) \<Longrightarrow>
     (case foldl (remove_duplicates_step strcmp fr) (dst, freed) src of (dst', freed') \<Rightarrow>
       sorted_wrt (<) (keys_of dst') \<and> items_map dst' = items_map (dst @ src) \<and>
       length dst' \<le> length dst + length src)"
proof (induction src arbitrary: dst freed)
  case (Cons it src)
  show ?case
  proof (cases "sl_string (last dst) = sl_string it")
    case True
    have "it_key \<in> set (keys_of dst)" if "it_key = sl_string it" for it_key
      using True Cons.prems(2) that by (metis last_in_set last_map list.map_disc_iff)
    then have "items_map (dst @ it # src) = items_map (dst @ src)"
      using items_map_None [of dst "sl_string it"]
      by (auto simp: items_map_append items_map_Cons map_add_def fun_eq_iff split: option.splits)
    moreover have "remove_duplicates_step strcmp fr (dst, freed) it = (dst, freed @ fr it)"
      using True by (simp add: remove_duplicates_step_def)
    ultimately show ?thesis
      using Cons.IH [of dst "freed @ fr it"] Cons.prems True by (auto split: prod.splits)
  next
    case False
    then have less: "sl_string (last dst) < sl_string it"
      using Cons.prems(3) by auto
    have "k \<le> sl_string (last dst)" if "k \<in> set (keys_of dst)" for k
    proof -
      have "keys_of dst = keys_of (butlast dst) @ [sl_string (last dst)]"
        using Cons.prems(2) by (metis append_butlast_last_id list.simps(8,9) map_append)
      then show ?thesis
        using Cons.prems(1) that by (auto simp: sorted_wrt_append intro: less_imp_le)
    qed
    then have "sorted_wrt (<) (keys_of (dst @ [it]))"
      using Cons.prems(1) less by (fastforce simp: sorted_wrt_append)
    moreover have "remove_duplicates_step strcmp fr (dst, freed) it = (dst @ [it], freed)"
      using False by (simp add: remove_duplicates_step_def)
    ultimately show ?thesis
      using Cons.IH [of "dst @ [it]" freed] Cons.prems by (auto split: prod.splits)
  qed
qed simp

text \<open>
  Sorting an unsorted string list with the default order and then dropping duplicates gives
  a strictly sorted list that holds the same strings, each with the user data of its first
  occurrence in the unsorted list; the sort does not die.
\<close>
theorem string_list_sort_unique:
  assumes "sl_cmp l = None" and "length (sl_items l) \<le> sl_alloc l" and "length (sl_items l) < 2 ^ 60"
  shows "\<exists>l'. string_list_sort garbage l = Value l' \<and> mset (sl_items l') = mset (sl_items l) \<and>
    slist_ok (fst (string_list_remove_duplicates l' free_util)) \<and>
    slist_map (fst (string_list_remove_duplicates l' free_util)) = slist_map l"
proof -
  let ?ys = "msort_list (cmp_items strcmp) (sl_items l)"
  have cmp: "comparator_on UNIV (cmp_items strcmp :: 'a string_list_item \<Rightarrow> _)"
  proof -
    have "cmp_items strcmp = (\<lambda>x y :: 'a string_list_item. strcmp (sl_string x) (sl_string y))"
      by (simp add: cmp_items_def fun_eq_iff)
    then show ?thesis
      using comparator_on_vimage [OF strcmp.comparator_on_axioms, of sl_string] by simp
  qed
  have stable: "stable_sort_of (cmp_items strcmp) (sl_items l) ?ys"
    using comparator_on.msort_list_stable [OF cmp] by simp
  have sort: "string_list_sort garbage l = Value (l\<lparr>sl_items := ?ys\<rparr>)"
  proof (cases "sl_items l = []")
    case True
    then show ?thesis
      by (simp add: string_list_sort_def git_qsort_s_def msort_list_short)
  next
    case False
    then have "sl_alloc l \<noteq> 0"
      using assms(2) by (metis le_zero_eq length_0_conv)
    then show ?thesis
      using assms(1,3) git_qsort_s_eq [of 16 "sl_items l" garbage "cmp_items strcmp"]
      by (simp add: string_list_sort_def)
  qed
  have "ordered_by (cmp_items strcmp) ?ys"
    using stable by (simp add: stable_sort_of_def)
  then have sorted: "sorted (keys_of ?ys)"
    using strcmp_neg strcmp_0 unfolding ordered_by_def sorted_map
    by (elim sorted_wrt_mono_rel [rotated]) (metis cmp_items_def le_less not_less)
  have "slist_ok (fst (string_list_remove_duplicates (l\<lparr>sl_items := ?ys\<rparr>) free_util)) \<and>
      slist_map (fst (string_list_remove_duplicates (l\<lparr>sl_items := ?ys\<rparr>) free_util)) = items_map ?ys"
  proof (cases ?ys)
    case Nil
    then show ?thesis
      using assms by (simp add: string_list_remove_duplicates_def slist_ok_def slist_map_def)
  next
    case (Cons y ys)
    have "length (y # ys) = length (sl_items l)"
      by (metis Cons length_msort_list)
    then show ?thesis
      using remove_duplicates_fold [of "[y]" ys "free_item (l\<lparr>sl_items := y # ys\<rparr>) free_util" "[]"] sorted Cons assms(1,2)
      by (cases ys) (auto split: prod.splits simp: string_list_remove_duplicates_def slist_ok_def slist_map_def)
  qed
  then show ?thesis
    using sort items_map_stable [OF stable] by (auto simp: slist_map_def)
qed

lemma string_list_sort_unique_witness:
  "\<exists>l'. string_list_sort (\<lambda>i. \<lparr>sl_string = [], sl_util = None\<rparr>) (string_list_append example_list [97]) = Value l' \<and>
     slist_map (fst (string_list_remove_duplicates l' False)) [97] = Some (Some 1)"
proof -
  have "slist_map (string_list_append example_list [97]) [97] = Some (Some 1)"
    by (simp add: example_list_def slist_map_def items_map_def string_list_append_def
        string_list_append_nodup_def)
  then show ?thesis
    using string_list_sort_unique [of "string_list_append example_list [97]" "\<lambda>i. \<lparr>sl_string = [], sl_util = None\<rparr>" False]
    by (auto simp: example_list_def string_list_append_def string_list_append_nodup_def ALLOC_GROW_def)
qed

subsection \<open>Splitting a string\<close>

fun join :: "'a \<Rightarrow> 'a list list \<Rightarrow> 'a list" where
  "join d [] = []"
| "join d [p] = p"
| "join d (p # q # ps) = p @ d # join d (q # ps)"

lemma join_Cons: "ps \<noteq> [] \<Longrightarrow> join d (p # ps) = p @ d # join d ps"
  by (cases ps) simp_all

definition new_items :: "byte list list \<Rightarrow> 'u string_list_item list" where
  "new_items ps = map (\<lambda>p. \<lparr>sl_string = p, sl_util = None\<rparr>) ps"

lemma strchr_None: "c \<noteq> 0 \<Longrightarrow> strchr p c = None \<longleftrightarrow> c \<notin> set p"
  by (induction p) auto

lemma strchr_Some:
  "c \<noteq> 0 \<Longrightarrow> strchr p c = Some k \<Longrightarrow> k < length p \<and> p = take k p @ c # drop (k + 1) p \<and> c \<notin> set (take k p)"
proof (induction p arbitrary: k)
  case (Cons x p)
  then show ?case
    by (cases "x = c") auto
qed simp

text \<open>
  \<open>pieces_of d m n p ps\<close>: \<open>ps\<close> are the pieces of \<open>p\<close> between delimiters, where splitting stops when
  \<open>m\<close> pieces (if \<open>m\<close> is not negative) have been cut, \<open>n\<close> of them before.
\<close>

definition pieces_of :: "byte \<Rightarrow> int \<Rightarrow> int \<Rightarrow> byte list \<Rightarrow> byte list list \<Rightarrow> bool" where
  "pieces_of d m n p ps \<longleftrightarrow>
     ps \<noteq> [] \<and> join d ps = p \<and> (\<forall>q\<in>set (butlast ps). d \<notin> set q) \<and>
     (0 \<le> m \<longrightarrow> n + int (length ps) \<le> m + 1) \<and>
     (d \<in> set (last ps) \<longrightarrow> 0 \<le> m \<and> n + int (length ps) = m + 1)"

lemma pieces_of_Cons:
  assumes "pieces_of d m (n + 1) p ps" and "d \<notin> set q"
  shows "pieces_of d m n (q @ d # p) (q # ps)"
  using assms by (auto simp: pieces_of_def join_Cons)

lemma sl_items_append: "sl_items (string_list_append_nodup l p) = sl_items l @ new_items [p]"
  "sl_items (string_list_append l p) = sl_items l @ new_items [p]"
  by (simp_all add: string_list_append_def string_list_append_nodup_def new_items_def)

lemma split_loops_ok:
  assumes "d \<noteq> 0"
  shows "(0 \<le> m \<longrightarrow> n \<le> m) \<Longrightarrow>
    \<exists>ps l1 l2. pieces_of d m n p ps \<and>
      split_loop l p d m n = Value (l1, n + int (length ps)) \<and> sl_items l1 = sl_items l @ new_items ps \<and>
      split_in_place_loop l' pre p d m n = Value (l2, pre @ join 0 ps, n + int (length ps)) \<and>
      sl_items l2 = sl_items l' @ new_items ps"
proof (induction "length p" arbitrary: p n l l' pre rule: less_induct)
  case less
  show ?case
  proof (cases "0 \<le> m \<and> m < n + 1")
    case True
    then have "pieces_of d m n p [p]"
      using less.prems by (simp add: pieces_of_def)
    then show ?thesis
      using True by (intro exI [of _ "[p]"])
        (subst split_loop.simps, subst split_in_place_loop.simps, simp add: sl_items_append)
  next
    case False
    show ?thesis
    proof (cases "strchr p d")
      case None
      then have "pieces_of d m n p [p]"
        using False assms strchr_None by (auto simp: pieces_of_def)
      then show ?thesis
        using None False by (intro exI [of _ "[p]"])
          (subst split_loop.simps, subst split_in_place_loop.simps, auto simp: sl_items_append Let_def)
    next
      case (Some k)
      note k = strchr_Some [OF assms Some]
      define rest where "rest = drop (k + 1) p"
      have "length rest < length p" "0 \<le> m \<longrightarrow> n + 1 \<le> m"
        using k False by (auto simp: rest_def)
      then obtain ps l1 l2 where ps: "pieces_of d m (n + 1) rest ps"
        "split_loop (string_list_append_nodup l (take k p)) rest d m (n + 1) = Value (l1, n + 1 + int (length ps))"
        "sl_items l1 = sl_items (string_list_append_nodup l (take k p)) @ new_items ps"
        "split_in_place_loop (string_list_append l' (take k p)) (pre @ take k p @ [0]) rest d m (n + 1) =
           Value (l2, (pre @ take k p @ [0]) @ join 0 ps, n + 1 + int (length ps))"
        "sl_items l2 = sl_items (string_list_append l' (take k p)) @ new_items ps"
        using less.hyps [of rest "n + 1" "string_list_append_nodup l (take k p)"
            "string_list_append l' (take k p)" "pre @ take k p @ [0]"] by blast
      have "pieces_of d m n p (take k p # ps)"
        using pieces_of_Cons [OF ps(1), of "take k p"] k by (simp add: rest_def)
      moreover have "split_loop l p d m n = Value (l1, n + int (length (take k p # ps)))"
        using ps(2) Some False k by (subst split_loop.simps) (auto simp: rest_def Let_def)
      moreover have "split_in_place_loop l' pre p d m n =
          Value (l2, pre @ join 0 (take k p # ps), n + int (length (take k p # ps)))"
        using ps(1,4) Some False k
        by (subst split_in_place_loop.simps) (auto simp: rest_def Let_def pieces_of_def join_Cons)
      ultimately show ?thesis
        using ps(3,5) by (auto simp: sl_items_append new_items_def)
    qed
  qed
qed

text \<open>
  For a delimiter other than NUL, \<open>string_list_split\<close> and \<open>string_list_split_in_place\<close> append
  the same pieces and return their number: joined with the delimiter they give the string back,
  no piece but the last holds the delimiter, a limit \<open>maxsplit\<close> allows at most \<open>maxsplit + 1\<close>
  pieces, and the last piece holds the delimiter only when the limit was reached.  In place, the
  buffer ends up with a NUL for every delimiter that was cut at.  Each dies on a list with the
  wrong \<open>strdup_strings\<close>.
\<close>
theorem string_list_split_joins:
  assumes "delim \<noteq> 0" and "strdup_strings l" and "\<not> strdup_strings l'"
  shows "\<exists>ps l1 l2. pieces_of delim maxsplit 0 string ps \<and>
    string_list_split l string delim maxsplit = Value (l1, int (length ps)) \<and>
    sl_items l1 = sl_items l @ new_items ps \<and>
    string_list_split_in_place l' string delim maxsplit = Value (l2, join 0 ps, int (length ps)) \<and>
    sl_items l2 = sl_items l' @ new_items ps \<and>
    string_list_split l' string delim maxsplit = Failure \<and>
    string_list_split_in_place l string delim maxsplit = Failure"
  using split_loops_ok [OF assms(1), of maxsplit 0 string l l' "[]"] assms(2,3)
  by (auto simp: string_list_split_def string_list_split_in_place_def)

lemma string_list_split_joins_witness:
  "\<exists>ps l1. pieces_of 58 (- 1) 0 [97, 58, 98, 58] ps \<and>
     string_list_split (string_list_init True :: nat string_list) [97, 58, 98, 58] 58 (- 1) = Value (l1, int (length ps))"
  using string_list_split_joins [of 58 "string_list_init True :: nat string_list" "string_list_init False :: nat string_list" "- 1" "[97, 58, 98, 58]"]
  by (auto simp: string_list_init_def)

end
