(* ===== verification/Git_Ewah_Word.thy ===== *)
theory Git_Ewah_Word
  imports Git_Prelude
begin

text \<open>
  \<^verbatim>\<open>ewah/ewok_rlw.h\<close>: the running length word of a compressed bitmap.  A word of 64 bits holds
  the bit that is repeated (bit 0), how many words it fills (bits 1 to 32) and how many literal
  words follow (bits 33 to 63).  Flags that the C code passes as \<open>int\<close> are booleans.
\<close>

type_synonym eword = u64

subsection \<open>The code\<close>

definition RLW_RUNNING_BITS :: nat where "RLW_RUNNING_BITS = 8 * 4"
definition RLW_LITERAL_BITS :: nat where "RLW_LITERAL_BITS = 8 * 8 - 1 - RLW_RUNNING_BITS"

definition RLW_LARGEST_RUNNING_COUNT :: eword where
  "RLW_LARGEST_RUNNING_COUNT = push_bit RLW_RUNNING_BITS 1 - 1"

definition RLW_LARGEST_LITERAL_COUNT :: eword where
  "RLW_LARGEST_LITERAL_COUNT = push_bit RLW_LITERAL_BITS 1 - 1"

definition RLW_LARGEST_RUNNING_COUNT_SHIFT :: eword where
  "RLW_LARGEST_RUNNING_COUNT_SHIFT = push_bit 1 RLW_LARGEST_RUNNING_COUNT"

definition RLW_RUNNING_LEN_PLUS_BIT :: eword where
  "RLW_RUNNING_LEN_PLUS_BIT = push_bit (RLW_RUNNING_BITS + 1) 1 - 1"

definition rlw_get_run_bit :: "eword \<Rightarrow> bool" where
  "rlw_get_run_bit word = (word AND 1 \<noteq> 0)"

definition rlw_set_run_bit :: "eword \<Rightarrow> bool \<Rightarrow> eword" where
  "rlw_set_run_bit word b = (if b then word OR 1 else word AND NOT 1)"

definition rlw_xor_run_bit :: "eword \<Rightarrow> eword" where
  "rlw_xor_run_bit word = (if word AND 1 \<noteq> 0 then word AND NOT 1 else word OR 1)"

definition rlw_set_running_len :: "eword \<Rightarrow> eword \<Rightarrow> eword" where
  "rlw_set_running_len word l =
     (word OR RLW_LARGEST_RUNNING_COUNT_SHIFT) AND (push_bit 1 l OR NOT RLW_LARGEST_RUNNING_COUNT_SHIFT)"

definition rlw_get_running_len :: "eword \<Rightarrow> eword" where
  "rlw_get_running_len word = drop_bit 1 word AND RLW_LARGEST_RUNNING_COUNT"

definition rlw_get_literal_words :: "eword \<Rightarrow> eword" where
  "rlw_get_literal_words word = drop_bit (1 + RLW_RUNNING_BITS) word"

definition rlw_set_literal_words :: "eword \<Rightarrow> eword \<Rightarrow> eword" where
  "rlw_set_literal_words word l =
     (word OR NOT RLW_RUNNING_LEN_PLUS_BIT) AND (push_bit (RLW_RUNNING_BITS + 1) l OR RLW_RUNNING_LEN_PLUS_BIT)"

definition rlw_size :: "eword \<Rightarrow> eword" where
  "rlw_size word = rlw_get_running_len word + rlw_get_literal_words word"

subsection \<open>Fields\<close>

definition mk_rlw :: "bool \<Rightarrow> nat \<Rightarrow> nat \<Rightarrow> eword" where
  "mk_rlw b r l = of_bool b OR push_bit 1 (of_nat r) OR push_bit 33 (of_nat l)"

definition max_run :: nat where "max_run = 2 ^ 32 - 1"
definition max_lits :: nat where "max_lits = 2 ^ 31 - 1"

lemma largest_masks:
  "RLW_LARGEST_RUNNING_COUNT = mask 32" "RLW_LARGEST_LITERAL_COUNT = mask 31"
  "RLW_LARGEST_RUNNING_COUNT_SHIFT = push_bit 1 (mask 32)" "RLW_RUNNING_LEN_PLUS_BIT = mask 33"
  by (simp_all add: RLW_LARGEST_RUNNING_COUNT_def RLW_LARGEST_LITERAL_COUNT_def
      RLW_LARGEST_RUNNING_COUNT_SHIFT_def RLW_RUNNING_LEN_PLUS_BIT_def RLW_RUNNING_BITS_def
      RLW_LITERAL_BITS_def mask_eq_exp_minus_1)

lemma unat_largest [simp]: "unat RLW_LARGEST_RUNNING_COUNT = max_run" "unat RLW_LARGEST_LITERAL_COUNT = max_lits"
  by (simp_all add: largest_masks max_run_def max_lits_def mask_eq_exp_minus_1)

lemma bit_of_nat_run: "r \<le> max_run \<Longrightarrow> bit (of_nat r :: eword) n \<longleftrightarrow> n < 32 \<and> bit r n"
proof -
  assume r: "r \<le> max_run"
  then have "take_bit 32 r = r"
    by (simp add: max_run_def take_bit_nat_eq_self)
  then have "bit r n \<longleftrightarrow> n < 32 \<and> bit r n"
    by (metis bit_take_bit_iff)
  then show ?thesis
    by (auto simp: bit_of_nat_iff)
qed

lemma bit_of_nat_lits: "l \<le> max_lits \<Longrightarrow> bit (of_nat l :: eword) n \<longleftrightarrow> n < 31 \<and> bit l n"
proof -
  assume r: "l \<le> max_lits"
  then have "take_bit 31 l = l"
    by (simp add: max_lits_def take_bit_nat_eq_self)
  then have "bit l n \<longleftrightarrow> n < 31 \<and> bit l n"
    by (metis bit_take_bit_iff)
  then show ?thesis
    by (auto simp: bit_of_nat_iff)
qed

lemma bit_mk_rlw:
  assumes "r \<le> max_run" and "l \<le> max_lits"
  shows "bit (mk_rlw b r l) n \<longleftrightarrow>
    (if n = 0 then b else if n \<le> 32 then bit r (n - 1) else n < 64 \<and> bit l (n - 33))"
  unfolding mk_rlw_def bit_or_iff bit_push_bit_iff using assms
  by (auto simp: bit_of_nat_run bit_of_nat_lits bit_of_bool_iff)

lemma run_bit_0: "rlw_get_run_bit w \<longleftrightarrow> bit w 0"
  by (simp add: rlw_get_run_bit_def and_one_eq bit_0 odd_iff_mod_2_eq_one)

lemma get_run_bit_mk [simp]:
  assumes "r \<le> max_run" and "l \<le> max_lits"
  shows "rlw_get_run_bit (mk_rlw b r l) = b"
  using assms by (simp add: run_bit_0 bit_mk_rlw)

lemma get_running_len_mk [simp]:
  "r \<le> max_run \<Longrightarrow> l \<le> max_lits \<Longrightarrow> rlw_get_running_len (mk_rlw b r l) = of_nat r"
  by (rule bit_word_eqI)
    (auto simp: rlw_get_running_len_def largest_masks bit_and_iff bit_drop_bit_eq bit_mask_iff bit_mk_rlw
      bit_of_nat_run)

lemma get_literal_words_mk [simp]:
  "r \<le> max_run \<Longrightarrow> l \<le> max_lits \<Longrightarrow> rlw_get_literal_words (mk_rlw b r l) = of_nat l"
  by (rule bit_word_eqI)
    (auto simp: rlw_get_literal_words_def RLW_RUNNING_BITS_def bit_drop_bit_eq bit_mk_rlw bit_of_nat_lits)

lemma set_run_bit_mk [simp]:
  "r \<le> max_run \<Longrightarrow> l \<le> max_lits \<Longrightarrow> rlw_set_run_bit (mk_rlw b r l) b' = mk_rlw b' r l"
  by (rule bit_word_eqI)
    (auto simp: rlw_set_run_bit_def bit_and_iff bit_or_iff bit_not_iff bit_1_iff bit_mk_rlw)

lemma xor_run_bit_mk [simp]:
  assumes "r \<le> max_run" and "l \<le> max_lits"
  shows "rlw_xor_run_bit (mk_rlw b r l) = mk_rlw (\<not> b) r l"
proof -
  have "rlw_xor_run_bit w = rlw_set_run_bit w (\<not> rlw_get_run_bit w)" for w
    by (simp add: rlw_xor_run_bit_def rlw_set_run_bit_def rlw_get_run_bit_def)
  then show ?thesis
    using assms by simp
qed

lemma set_running_len_mk [simp]:
  assumes "r \<le> max_run" and "l \<le> max_lits" and "unat r' \<le> max_run"
  shows "rlw_set_running_len (mk_rlw b r l) r' = mk_rlw b (unat r') l"
proof (rule bit_word_eqI)
  fix n assume n: "n < LENGTH(64)"
  have r': "bit (unat r') k \<longleftrightarrow> bit r' k" "bit r' k \<Longrightarrow> k < 32" for k
    using bit_of_nat_run [OF assms(3), of k] by (auto simp: bit_unsigned_iff possible_bit_def dest: bit_imp_le_length)
  have "bit (rlw_set_running_len (mk_rlw b r l) r') n \<longleftrightarrow>
      (bit (mk_rlw b r l) n \<or> 1 \<le> n \<and> n \<le> 32) \<and> (1 \<le> n \<and> bit r' (n - 1) \<or> \<not> (1 \<le> n \<and> n \<le> 32))"
    unfolding rlw_set_running_len_def largest_masks bit_and_iff bit_or_iff bit_not_iff bit_push_bit_iff
    using n by (auto simp: bit_mask_iff)
  then show "bit (rlw_set_running_len (mk_rlw b r l) r') n = bit (mk_rlw b (unat r') l) n"
    using r'(2) [of "n - 1"] n assms by (auto simp: bit_mk_rlw r'(1))
qed

lemma set_literal_words_mk [simp]:
  assumes "r \<le> max_run" and "l \<le> max_lits" and "unat l' \<le> max_lits"
  shows "rlw_set_literal_words (mk_rlw b r l) l' = mk_rlw b r (unat l')"
proof (rule bit_word_eqI)
  fix n assume n: "n < LENGTH(64)"
  have l': "bit (unat l') k \<longleftrightarrow> bit l' k" for k
    by (auto simp: bit_unsigned_iff possible_bit_def dest: bit_imp_le_length)
  have "bit (rlw_set_literal_words (mk_rlw b r l) l') n \<longleftrightarrow>
      (bit (mk_rlw b r l) n \<or> 33 \<le> n) \<and> (33 \<le> n \<and> bit l' (n - 33) \<or> n < 33)"
    unfolding rlw_set_literal_words_def largest_masks RLW_RUNNING_BITS_def bit_and_iff bit_or_iff
      bit_not_iff bit_push_bit_iff
    using n by (auto simp: bit_mask_iff)
  then show "bit (rlw_set_literal_words (mk_rlw b r l) l') n = bit (mk_rlw b r (unat l')) n"
    using n assms by (auto simp: bit_mk_rlw l')
qed

lemma mk_rlw_0: "mk_rlw False 0 0 = 0"
  by (simp add: mk_rlw_def)

lemma max_fits: "max_run < 2 ^ 64" "max_lits < 2 ^ 64"
  by (simp_all add: max_run_def max_lits_def)

lemma unat_run [simp]: "r \<le> max_run \<Longrightarrow> unat (of_nat r :: eword) = r"
  using max_fits(1) by (intro unat_of_nat_small) simp

lemma unat_lits [simp]: "l \<le> max_lits \<Longrightarrow> unat (of_nat l :: eword) = l"
  using max_fits(2) by (intro unat_of_nat_small) simp

lemma unat_rlw_size_mk:
  assumes "r \<le> max_run" and "l \<le> max_lits"
  shows "unat (rlw_size (mk_rlw b r l)) = r + l"
proof -
  have "r + l < 2 ^ LENGTH(64)"
    using assms by (simp add: max_run_def max_lits_def)
  then show ?thesis
    using assms unat_of_nat_small [of "r + l", where 'a = 64] by (simp add: rlw_size_def)
qed

text \<open>Every word is made of its fields.\<close>

lemma unat_running_len_le: "unat (rlw_get_running_len w) \<le> max_run"
proof -
  have "rlw_get_running_len w = take_bit 32 (drop_bit 1 w)"
    by (simp only: rlw_get_running_len_def largest_masks take_bit_eq_mask)
  then have "unat (rlw_get_running_len w) = take_bit 32 (unat (drop_bit 1 w))"
    by (simp only: unsigned_take_bit_eq)
  then show ?thesis
    using take_bit_nat_less_exp [of 32 "unat (drop_bit 1 w)"] by (simp add: max_run_def)
qed

lemma unat_literal_words_le: "unat (rlw_get_literal_words w) \<le> max_lits"
proof -
  have "unat (rlw_get_literal_words w) = unat w div 2 ^ 33"
    by (simp add: rlw_get_literal_words_def RLW_RUNNING_BITS_def unat_drop_bit_div)
  then show ?thesis
    using unat_64_less [of w] by (simp add: max_lits_def)
qed

lemma mk_rlw_fields:
  "mk_rlw (rlw_get_run_bit w) (unat (rlw_get_running_len w)) (unat (rlw_get_literal_words w)) = w"
proof (rule bit_word_eqI)
  fix n assume n: "n < LENGTH(64)"
  have b: "rlw_get_run_bit w = bit w 0"
    by (rule run_bit_0)
  have r: "bit (unat (rlw_get_running_len w)) k \<longleftrightarrow> k < 32 \<and> bit w (k + 1)" for k
    unfolding rlw_get_running_len_def largest_masks
    by (auto simp: bit_unsigned_iff bit_and_iff bit_drop_bit_eq bit_mask_iff possible_bit_def)
  have l: "bit (unat (rlw_get_literal_words w)) k \<longleftrightarrow> bit w (k + 33)" for k
    unfolding rlw_get_literal_words_def RLW_RUNNING_BITS_def
    by (auto simp: bit_unsigned_iff bit_drop_bit_eq possible_bit_def add.commute dest: bit_imp_le_length)
  show "bit (mk_rlw (rlw_get_run_bit w) (unat (rlw_get_running_len w)) (unat (rlw_get_literal_words w))) n = bit w n"
    using n by (auto simp: bit_mk_rlw unat_running_len_le unat_literal_words_le b r l)
qed

end
