(* ===== verification/Git_Ewah.thy ===== *)
theory Git_Ewah
  imports Git_Ewah_Word "HOL-Library.Monad_Syntax"
begin

text \<open>
  \<^verbatim>\<open>ewah/ewah_bitmap.c\<close>: building compressed bitmaps and reading them back.  The buffer is the
  list of its first \<open>buffer_size\<close> words together with the number of words allocated, and the
  pointer \<open>rlw\<close> to the last running length word is an index.  A write beyond the allocation, a
  read beyond the buffer and a failed assertion are \<open>None\<close>; sizes are naturals (they stay below
  \<open>2 ^ 64\<close>), and allocation succeeds.
\<close>

record ewah_bitmap =
  ew_buffer :: "eword list"
  ew_alloc :: nat
  ew_bits :: nat
  ew_rlw :: nat

abbreviation "BITS_IN_EWORD \<equiv> (64 :: nat)"

subsection \<open>The buffer\<close>

definition buffer_grow :: "ewah_bitmap \<Rightarrow> nat \<Rightarrow> ewah_bitmap" where
  "buffer_grow self new_size = (if ew_alloc self \<ge> new_size then self else self\<lparr>ew_alloc := new_size\<rparr>)"

definition buffer_push :: "ewah_bitmap \<Rightarrow> eword \<Rightarrow> ewah_bitmap option" where
  "buffer_push self word =
     (let n = length (ew_buffer self);
          self1 = (if n + 1 \<ge> ew_alloc self then buffer_grow self (n * 3 div 2) else self)
      in if n < ew_alloc self1 then Some (self1\<lparr>ew_buffer := ew_buffer self1 @ [word]\<rparr>) else None)"

definition buffer_push_rlw :: "ewah_bitmap \<Rightarrow> eword \<Rightarrow> ewah_bitmap option" where
  "buffer_push_rlw self word =
     (case buffer_push self word of
        None \<Rightarrow> None
      | Some self1 \<Rightarrow> Some (self1\<lparr>ew_rlw := length (ew_buffer self1) - 1\<rparr>))"

text \<open>The word \<open>rlw\<close> points at, and writing it.\<close>

definition cur_rlw :: "ewah_bitmap \<Rightarrow> eword" where
  "cur_rlw self = ew_buffer self ! ew_rlw self"

definition map_rlw :: "(eword \<Rightarrow> eword) \<Rightarrow> ewah_bitmap \<Rightarrow> ewah_bitmap" where
  "map_rlw f self = self\<lparr>ew_buffer := (ew_buffer self)[ew_rlw self := f (cur_rlw self)]\<rparr>"

subsection \<open>Runs of equal words\<close>

text \<open>The first conditional of \<open>add_empty_words\<close>: the bitmap and the number of words added.\<close>

definition add_empty_start :: "ewah_bitmap \<Rightarrow> bool \<Rightarrow> (ewah_bitmap \<times> nat) option" where
  "add_empty_start self v =
     (if rlw_get_run_bit (cur_rlw self) \<noteq> v \<and> rlw_size (cur_rlw self) = 0
      then Some (map_rlw (\<lambda>w. rlw_set_run_bit w v) self, 0)
      else if rlw_get_literal_words (cur_rlw self) \<noteq> 0 \<or> rlw_get_run_bit (cur_rlw self) \<noteq> v
      then do {
        self1 \<leftarrow> buffer_push_rlw self 0;
        Some (if v then map_rlw (\<lambda>w. rlw_set_run_bit w v) self1 else self1, 1)
      }
      else Some (self, 0))"

text \<open>A new running length word of \<open>number\<close> words.\<close>

definition add_empty_run :: "ewah_bitmap \<Rightarrow> bool \<Rightarrow> eword \<Rightarrow> ewah_bitmap option" where
  "add_empty_run self v number =
     do {
       self1 \<leftarrow> buffer_push_rlw self 0;
       let self2 = (if v then map_rlw (\<lambda>w. rlw_set_run_bit w v) self1 else self1);
       Some (map_rlw (\<lambda>w. rlw_set_running_len w number) self2)
     }"

function add_empty_full :: "ewah_bitmap \<Rightarrow> bool \<Rightarrow> nat \<Rightarrow> nat \<Rightarrow> (ewah_bitmap \<times> nat \<times> nat) option" where
  "add_empty_full self v number added =
     (if number \<ge> unat RLW_LARGEST_RUNNING_COUNT then
        (case add_empty_run self v RLW_LARGEST_RUNNING_COUNT of
           None \<Rightarrow> None
         | Some self1 \<Rightarrow> add_empty_full self1 v (number - unat RLW_LARGEST_RUNNING_COUNT) (added + 1))
      else Some (self, number, added))"
  by pat_completeness auto
termination
  by (relation "measure (\<lambda>(self, v, number, added). number)") (auto simp: max_run_def)

declare add_empty_full.simps [simp del]

definition add_empty_words :: "ewah_bitmap \<Rightarrow> bool \<Rightarrow> nat \<Rightarrow> (ewah_bitmap \<times> nat) option" where
  "add_empty_words self v number =
     do {
       (self1, added) \<leftarrow> add_empty_start self v;
       let runlen = rlw_get_running_len (cur_rlw self1);
       let can_add = min number (unat (RLW_LARGEST_RUNNING_COUNT - runlen));
       let self2 = map_rlw (\<lambda>w. rlw_set_running_len w (runlen + of_nat can_add)) self1;
       (self3, number, added) \<leftarrow> add_empty_full self2 v (number - can_add) added;
       if number > 0 then do {
         self4 \<leftarrow> add_empty_run self3 v (of_nat number);
         Some (self4, added + 1)
       } else Some (self3, added)
     }"

definition ewah_add_empty_words :: "ewah_bitmap \<Rightarrow> bool \<Rightarrow> nat \<Rightarrow> (ewah_bitmap \<times> nat) option" where
  "ewah_add_empty_words self v number =
     (if number = 0 then Some (self, 0)
      else add_empty_words (self\<lparr>ew_bits := ew_bits self + number * BITS_IN_EWORD\<rparr>) v number)"

definition add_empty_word :: "ewah_bitmap \<Rightarrow> bool \<Rightarrow> (ewah_bitmap \<times> nat) option" where
  "add_empty_word self v =
     (let no_literal = (rlw_get_literal_words (cur_rlw self) = 0);
          run_len = rlw_get_running_len (cur_rlw self);
          self1 = (if no_literal \<and> run_len = 0 then map_rlw (\<lambda>w. rlw_set_run_bit w v) self else self)
      in if no_literal \<and> rlw_get_run_bit (cur_rlw self1) = v \<and> run_len < RLW_LARGEST_RUNNING_COUNT
         then Some (map_rlw (\<lambda>w. rlw_set_running_len w (run_len + 1)) self1, 0)
         else do {
           self2 \<leftarrow> buffer_push_rlw self1 0;
           Some (map_rlw (\<lambda>w. rlw_set_running_len (rlw_set_run_bit w v) 1) self2, 1)
         })"

subsection \<open>Literal words\<close>

definition add_literal :: "ewah_bitmap \<Rightarrow> eword \<Rightarrow> (ewah_bitmap \<times> nat) option" where
  "add_literal self new_data =
     (let current_num = rlw_get_literal_words (cur_rlw self) in
      if current_num \<ge> RLW_LARGEST_LITERAL_COUNT then do {
        self1 \<leftarrow> buffer_push_rlw self 0;
        self2 \<leftarrow> buffer_push (map_rlw (\<lambda>w. rlw_set_literal_words w 1) self1) new_data;
        Some (self2, 2)
      } else do {
        self1 \<leftarrow> buffer_push (map_rlw (\<lambda>w. rlw_set_literal_words w (current_num + 1)) self) new_data;
        Some (self1, 1)
      })"

definition literal_room :: "ewah_bitmap \<Rightarrow> nat" where
  "literal_room self = unat (RLW_LARGEST_LITERAL_COUNT - rlw_get_literal_words (cur_rlw self))"

text \<open>One turn of the loop of \<open>ewah_add_dirty_words\<close>, which takes \<open>can_add\<close> words.\<close>

definition add_dirty_chunk :: "ewah_bitmap \<Rightarrow> eword list \<Rightarrow> nat \<Rightarrow> bool \<Rightarrow> ewah_bitmap option" where
  "add_dirty_chunk self buffer can_add negate =
     (let literals = rlw_get_literal_words (cur_rlw self);
          self1 = map_rlw (\<lambda>w. rlw_set_literal_words w (literals + of_nat can_add)) self;
          n = length (ew_buffer self1);
          self2 = (if n + can_add \<ge> ew_alloc self1 then buffer_grow self1 ((n + can_add) * 3 div 2) else self1);
          new = (if negate then map NOT (take can_add buffer) else take can_add buffer)
      in if length buffer < can_add \<or> ew_alloc self2 < n + can_add then None
         else Some (self2\<lparr>ew_buffer := ew_buffer self2 @ new, ew_bits := ew_bits self2 + can_add * BITS_IN_EWORD\<rparr>))"

lemma buffer_push_rlw_cur: "buffer_push_rlw self w = Some self1 \<Longrightarrow> cur_rlw self1 = w"
  by (auto simp: buffer_push_rlw_def buffer_push_def cur_rlw_def buffer_grow_def Let_def
      split: if_splits option.splits)

function ewah_add_dirty_words :: "ewah_bitmap \<Rightarrow> eword list \<Rightarrow> nat \<Rightarrow> bool \<Rightarrow> ewah_bitmap option" where
  "ewah_add_dirty_words self buffer number negate =
     (let can_add = min number (literal_room self) in
      case add_dirty_chunk self buffer can_add negate of
        None \<Rightarrow> None
      | Some self1 \<Rightarrow>
          if number - can_add = 0 then Some self1
          else case buffer_push_rlw self1 0 of
            None \<Rightarrow> None
          | Some self2 \<Rightarrow> ewah_add_dirty_words self2 (drop can_add buffer) (number - can_add) negate)"
  by pat_completeness auto
termination
proof (relation "measure (\<lambda>(self, buffer, number, negate). 2 * number + (if literal_room self = 0 then 1 else 0))")
  fix self buffer number negate x self1 self2
  assume x: "x = min number (literal_room self)" and "number - x \<noteq> 0"
    and "buffer_push_rlw self1 0 = Some self2"
  then have "literal_room self2 \<noteq> 0" "x = 0 \<longrightarrow> literal_room self = 0" "x \<le> number"
    by (auto simp: literal_room_def buffer_push_rlw_cur rlw_get_literal_words_def max_lits_def)
  then show "((self2, drop x buffer, number - x, negate), self, buffer, number, negate)
      \<in> measure (\<lambda>(self, buffer, number, negate). 2 * number + (if literal_room self = 0 then 1 else 0))"
    using \<open>number - x \<noteq> 0\<close> by auto
qed simp

declare ewah_add_dirty_words.simps [simp del]

definition ewah_add :: "ewah_bitmap \<Rightarrow> eword \<Rightarrow> (ewah_bitmap \<times> nat) option" where
  "ewah_add self word =
     (let self1 = self\<lparr>ew_bits := ew_bits self + BITS_IN_EWORD\<rparr> in
      if word = 0 then add_empty_word self1 False
      else if word = NOT 0 then add_empty_word self1 True
      else add_literal self1 word)"

subsection \<open>Setting a bit\<close>

definition DIV_ROUND_UP :: "nat \<Rightarrow> nat \<Rightarrow> nat" where
  "DIV_ROUND_UP n d = (n + d - 1) div d"

definition ewah_set :: "ewah_bitmap \<Rightarrow> nat \<Rightarrow> ewah_bitmap option" where
  "ewah_set self i =
     (let dist = DIV_ROUND_UP (i + 1) BITS_IN_EWORD - DIV_ROUND_UP (ew_bits self) BITS_IN_EWORD;
          bit_i = push_bit (i mod BITS_IN_EWORD) 1
      in if i < ew_bits self then None
         else
           let self1 = self\<lparr>ew_bits := i + 1\<rparr> in
           if dist > 0 then do {
             (self2, _) \<leftarrow> (if dist > 1 then add_empty_words self1 False (dist - 1) else Some (self1, 0));
             (self3, _) \<leftarrow> add_literal self2 bit_i;
             Some self3
           }
           else if rlw_get_literal_words (cur_rlw self1) = 0 then do {
             (self2, _) \<leftarrow> add_literal (map_rlw (\<lambda>w. rlw_set_running_len w (rlw_get_running_len w - 1)) self1) bit_i;
             Some self2
           }
           else
             let self2 = self1\<lparr>ew_buffer := butlast (ew_buffer self1) @ [last (ew_buffer self1) OR bit_i]\<rparr>
             in if last (ew_buffer self2) = NOT 0 then do {
                  (self3, _) \<leftarrow> add_empty_word
                    (map_rlw (\<lambda>w. rlw_set_literal_words w (rlw_get_literal_words w - 1))
                       (self2\<lparr>ew_buffer := butlast (ew_buffer self2)\<rparr>)) True;
                  Some self3
                } else Some self2)"

subsection \<open>A new bitmap\<close>

definition ewah_clear :: "ewah_bitmap \<Rightarrow> ewah_bitmap" where
  "ewah_clear self = self\<lparr>ew_buffer := [0], ew_bits := 0, ew_rlw := 0\<rparr>"

definition ewah_new :: ewah_bitmap where
  "ewah_new = ewah_clear \<lparr>ew_buffer = [], ew_alloc = 32, ew_bits = 0, ew_rlw = 0\<rparr>"

subsection \<open>Blocks\<close>

text \<open>
  A buffer is a sequence of blocks, a running length word and its literals; a block stands for
  its run followed by the literals.
\<close>

type_synonym block = "bool \<times> nat \<times> eword list"

definition fill :: "bool \<Rightarrow> eword" where
  "fill b = (if b then NOT 0 else 0)"

fun enc_block :: "block \<Rightarrow> eword list" where
  "enc_block (b, r, ls) = mk_rlw b r (length ls) # ls"

fun block_ok :: "block \<Rightarrow> bool" where
  "block_ok (b, r, ls) \<longleftrightarrow> r \<le> max_run \<and> length ls \<le> max_lits"

fun block_words :: "block \<Rightarrow> eword list" where
  "block_words (b, r, ls) = replicate r (fill b) @ ls"

definition enc_blocks :: "block list \<Rightarrow> eword list" where
  "enc_blocks bs = concat (map enc_block bs)"

definition words_of :: "block list \<Rightarrow> eword list" where
  "words_of bs = concat (map block_words bs)"

lemma enc_blocks_simps [simp]:
  "enc_blocks [] = []" "enc_blocks (b # bs) = enc_block b @ enc_blocks bs"
  "enc_blocks (bs @ cs) = enc_blocks bs @ enc_blocks cs"
  by (simp_all add: enc_blocks_def)

lemma words_of_simps [simp]:
  "words_of [] = []" "words_of (b # bs) = block_words b @ words_of bs"
  "words_of (bs @ cs) = words_of bs @ words_of cs"
  by (simp_all add: words_of_def)

text \<open>
  \<open>ewah_rep e bs l\<close>: the buffer holds the blocks \<open>bs\<close> and the last block \<open>l\<close>, which \<open>rlw\<close> points
  at.  Only the block of an empty bitmap is empty: \<open>solid\<close>.
\<close>

definition ewah_rep :: "ewah_bitmap \<Rightarrow> block list \<Rightarrow> block \<Rightarrow> bool" where
  "ewah_rep e bs l \<longleftrightarrow>
     ew_buffer e = enc_blocks bs @ enc_block l \<and> ew_rlw e = length (enc_blocks bs) \<and>
     (\<forall>b\<in>set bs. block_ok b) \<and> block_ok l \<and> length (ew_buffer e) \<le> ew_alloc e \<and> 2 \<le> ew_alloc e"

definition solid :: "block list \<Rightarrow> block \<Rightarrow> bool" where
  "solid bs l \<longleftrightarrow> (\<forall>b\<in>set bs. block_words b \<noteq> []) \<and> (block_words l \<noteq> [] \<or> bs = [])"

text \<open>The bitmap is well formed and holds the words \<open>ws\<close>.\<close>

definition ewah_holds :: "ewah_bitmap \<Rightarrow> eword list \<Rightarrow> bool" where
  "ewah_holds e ws \<longleftrightarrow> (\<exists>bs l. ewah_rep e bs l \<and> solid bs l \<and> words_of (bs @ [l]) = ws)"

lemma holdsI: "ewah_rep e bs l \<Longrightarrow> solid bs l \<Longrightarrow> words_of (bs @ [l]) = ws \<Longrightarrow> ewah_holds e ws"
  unfolding ewah_holds_def by blast

lemma cur_rlw_rep: "ewah_rep e bs (b, r, ls) \<Longrightarrow> cur_rlw e = mk_rlw b r (length ls)"
  by (simp add: ewah_rep_def cur_rlw_def nth_append)

lemma map_rlw_rep:
  assumes "ewah_rep e bs (b, r, ls)" and "f (mk_rlw b r (length ls)) = mk_rlw b' r' (length ls)" and "r' \<le> max_run"
  shows "ewah_rep (map_rlw f e) bs (b', r', ls)"
  using assms cur_rlw_rep [OF assms(1)] by (auto simp: ewah_rep_def map_rlw_def list_update_append)

lemma ew_bits_map_rlw [simp]: "ew_bits (map_rlw f e) = ew_bits e"
  by (simp add: map_rlw_def)

lemma ewah_rep_bits [simp]: "ewah_rep (e\<lparr>ew_bits := n\<rparr>) bs l \<longleftrightarrow> ewah_rep e bs l"
  by (simp add: ewah_rep_def)

lemma ewah_holds_bits [simp]: "ewah_holds (e\<lparr>ew_bits := n\<rparr>) ws \<longleftrightarrow> ewah_holds e ws"
  by (simp add: ewah_holds_def)

text \<open>Growing by half makes room once the buffer has two words, and one word fits from the start.\<close>

lemma buffer_push_room:
  assumes "length (ew_buffer e) \<le> ew_alloc e" and "2 \<le> ew_alloc e" and "ew_buffer e \<noteq> []"
  shows "\<exists>a. buffer_push e w = Some (e\<lparr>ew_buffer := ew_buffer e @ [w], ew_alloc := a\<rparr>) \<and>
    length (ew_buffer e) + 1 \<le> a \<and> 2 \<le> a"
proof (cases "length (ew_buffer e) + 1 \<ge> ew_alloc e")
  case True
  have "length (ew_buffer e) < (if ew_alloc e \<ge> length (ew_buffer e) * 3 div 2 then ew_alloc e else length (ew_buffer e) * 3 div 2)"
    using assms(1,2) by (cases "length (ew_buffer e) = ew_alloc e") auto
  then show ?thesis
    using True assms
    by (intro exI [of _ "ew_alloc (buffer_grow e (length (ew_buffer e) * 3 div 2))"])
      (cases e, auto simp: buffer_push_def buffer_grow_def Let_def split: if_splits)
next
  case False
  then show ?thesis
    using assms by (auto simp: buffer_push_def intro!: exI [of _ "ew_alloc e"])
qed

lemma push_rlw_rep:
  assumes "ewah_rep e bs l"
  shows "\<exists>e'. buffer_push_rlw e 0 = Some e' \<and> ewah_rep e' (bs @ [l]) (False, 0, []) \<and> ew_bits e' = ew_bits e"
proof -
  have "ew_buffer e \<noteq> []"
    using assms by (cases l) (simp add: ewah_rep_def)
  then obtain a where a: "buffer_push e 0 = Some (e\<lparr>ew_buffer := ew_buffer e @ [0], ew_alloc := a\<rparr>)"
    "length (ew_buffer e) + 1 \<le> a" "2 \<le> a"
    using buffer_push_room [of e 0] assms by (auto simp: ewah_rep_def)
  then show ?thesis
    using assms by (auto simp: buffer_push_rlw_def ewah_rep_def mk_rlw_0 max_run_def max_lits_def)
qed

lemma push_literal_rep:
  assumes "ewah_rep e bs (b, r, ls)" and "length ls < max_lits"
  shows "\<exists>e'. buffer_push (map_rlw (\<lambda>w. rlw_set_literal_words w (of_nat (length ls) + 1)) e) w = Some e' \<and>
    ewah_rep e' bs (b, r, ls @ [w]) \<and> ew_bits e' = ew_bits e"
proof -
  let ?e = "map_rlw (\<lambda>w. rlw_set_literal_words w (of_nat (length ls) + 1)) e"
  have "unat (of_nat (length ls) + 1 :: eword) = length ls + 1"
    using unat_lits [of "length ls + 1"] assms(2) by (simp add: add.commute)
  then have set: "rlw_set_literal_words (mk_rlw b r (length ls)) (of_nat (length ls) + 1) = mk_rlw b r (length ls + 1)"
    using assms by (subst set_literal_words_mk) (auto simp: ewah_rep_def)
  have buf: "ew_buffer ?e = enc_blocks bs @ mk_rlw b r (length ls + 1) # ls"
    using assms(1) set cur_rlw_rep [OF assms(1)] by (simp add: ewah_rep_def map_rlw_def list_update_append)
  obtain a where a: "buffer_push ?e w = Some (?e\<lparr>ew_buffer := ew_buffer ?e @ [w], ew_alloc := a\<rparr>)"
    "length (ew_buffer ?e) + 1 \<le> a" "2 \<le> a"
    using buffer_push_room [of ?e w] assms(1) buf by (auto simp: ewah_rep_def map_rlw_def)
  then show ?thesis
    using assms buf by (auto simp: ewah_rep_def map_rlw_def)
qed

lemma zero_rlw:
  "r \<le> max_run \<Longrightarrow> l \<le> max_lits \<Longrightarrow> rlw_size (mk_rlw b r l) = 0 \<longleftrightarrow> r = 0 \<and> l = 0"
  "l \<le> max_lits \<Longrightarrow> (of_nat l :: eword) = 0 \<longleftrightarrow> l = 0"
  "r \<le> max_run \<Longrightarrow> (of_nat r :: eword) = 0 \<longleftrightarrow> r = 0"
  using unat_rlw_size_mk [of r l b] unat_lits [of l] unat_run [of r]
  by (auto simp: unat_eq_0 [symmetric])

lemma block_words_Nil [simp]: "block_words (b, r, ls) = [] \<longleftrightarrow> r = 0 \<and> ls = []"
  by simp

declare block_words.simps [simp del]

subsection \<open>Adding words\<close>

lemma add_empty_start_rep:
  assumes "ewah_rep e bs l" and "solid bs l"
  shows "\<exists>e' k bs' r. add_empty_start e v = Some (e', k) \<and> ewah_rep e' bs' (v, r, []) \<and>
    (\<forall>b\<in>set bs'. block_words b \<noteq> []) \<and> words_of (bs' @ [(v, r, [])]) = words_of (bs @ [l]) \<and>
    ew_bits e' = ew_bits e"
proof -
  obtain b r ls where l: "l = (b, r, ls)"
    by (cases l)
  have cur: "cur_rlw e = mk_rlw b r (length ls)" and ok: "r \<le> max_run" "length ls \<le> max_lits"
    using assms(1) cur_rlw_rep [of e bs b r ls] by (auto simp: l ewah_rep_def)
  note fields = zero_rlw(1) [OF ok] zero_rlw(2) [OF ok(2)] zero_rlw(3) [OF ok(1)]
  consider "b \<noteq> v" "r = 0" "ls = []" | "ls \<noteq> [] \<or> b \<noteq> v" "r \<noteq> 0 \<or> ls \<noteq> []" | "ls = []" "b = v"
    by auto
  then show ?thesis
  proof cases
    case 1
    then have "ewah_rep (map_rlw (\<lambda>w. rlw_set_run_bit w v) e) bs (v, 0, [])"
      using assms(1) l by (intro map_rlw_rep [where b = b and r = 0]) simp_all
    then show ?thesis
      using 1 cur ok fields assms(2) l
      by (auto simp: add_empty_start_def solid_def block_words.simps intro!: exI [of _ bs] exI [of _ 0])
  next
    case 2
    obtain e1 where e1: "buffer_push_rlw e 0 = Some e1" "ewah_rep e1 (bs @ [l]) (False, 0, [])" "ew_bits e1 = ew_bits e"
      using push_rlw_rep [OF assms(1)] by blast
    have "ewah_rep (if v then map_rlw (\<lambda>w. rlw_set_run_bit w v) e1 else e1) (bs @ [l]) (v, 0, [])"
      using e1(2) map_rlw_rep [OF e1(2), of "\<lambda>w. rlw_set_run_bit w v" v 0] by (cases v) simp_all
    then show ?thesis
      using 2 cur ok fields assms(2) l e1(1,3)
      by (auto simp: add_empty_start_def solid_def block_words.simps
          intro!: exI [of _ "bs @ [l]"] exI [of _ 0])
  next
    case 3
    then show ?thesis
      using assms cur ok fields l
      by (auto simp: add_empty_start_def solid_def intro!: exI [of _ bs] exI [of _ r])
  qed
qed

lemma add_empty_run_rep:
  assumes "ewah_rep e bs l" and "unat n \<le> max_run"
  shows "\<exists>e'. add_empty_run e v n = Some e' \<and> ewah_rep e' (bs @ [l]) (v, unat n, []) \<and> ew_bits e' = ew_bits e"
proof -
  obtain e1 where e1: "buffer_push_rlw e 0 = Some e1" "ewah_rep e1 (bs @ [l]) (False, 0, [])" "ew_bits e1 = ew_bits e"
    using push_rlw_rep [OF assms(1)] by blast
  let ?e2 = "if v then map_rlw (\<lambda>w. rlw_set_run_bit w v) e1 else e1"
  have e2: "ewah_rep ?e2 (bs @ [l]) (v, 0, [])"
    using e1(2) map_rlw_rep [OF e1(2), of "\<lambda>w. rlw_set_run_bit w v" v 0] by (cases v) simp_all
  have "ewah_rep (map_rlw (\<lambda>w. rlw_set_running_len w n) ?e2) (bs @ [l]) (v, unat n, [])"
    using assms(2) by (intro map_rlw_rep [OF e2]) simp_all
  then show ?thesis
    using e1 by (simp add: add_empty_run_def Let_def split: if_splits)
qed

lemma add_empty_full_rep:
  "ewah_rep e bs l \<Longrightarrow> solid bs l \<Longrightarrow> block_words l \<noteq> [] \<Longrightarrow>
     \<exists>e' n' k' bs' l'. add_empty_full e v n k = Some (e', n', k') \<and> ewah_rep e' bs' l' \<and> solid bs' l' \<and>
       block_words l' \<noteq> [] \<and> n' < max_run \<and> n' \<le> n \<and>
       words_of (bs' @ [l']) = words_of (bs @ [l]) @ replicate (n - n') (fill v) \<and> ew_bits e' = ew_bits e"
proof (induction e v n k arbitrary: bs l rule: add_empty_full.induct)
  case (1 e v n k)
  show ?case
  proof (cases "n \<ge> max_run")
    case True
    obtain e1 where e1: "add_empty_run e v RLW_LARGEST_RUNNING_COUNT = Some e1"
      "ewah_rep e1 (bs @ [l]) (v, max_run, [])" "ew_bits e1 = ew_bits e"
      using add_empty_run_rep [OF "1.prems"(1), of RLW_LARGEST_RUNNING_COUNT v] by auto
    have "block_words (v, max_run, []) \<noteq> []"
      by (simp add: max_run_def)
    moreover have "solid (bs @ [l]) (v, max_run, [])"
      using "1.prems"(2,3) calculation by (auto simp: solid_def)
    ultimately obtain e' n' k' bs' l' where r:
      "add_empty_full e1 v (n - max_run) (k + 1) = Some (e', n', k')" "ewah_rep e' bs' l'" "solid bs' l'"
      "block_words l' \<noteq> []" "n' < max_run" "n' \<le> n - max_run"
      "words_of (bs' @ [l']) = words_of ((bs @ [l]) @ [(v, max_run, [])]) @ replicate (n - max_run - n') (fill v)"
      "ew_bits e' = ew_bits e1"
      using "1.IH" [OF _ e1(1) e1(2)] True by (metis unat_largest(1))
    have "max_run + (n - max_run - n') = n - n'"
      using True r(6) by simp
    then have "replicate max_run (fill v) @ replicate (n - max_run - n') (fill v) = replicate (n - n') (fill v)"
      by (metis replicate_add)
    then have "words_of (bs' @ [l']) = words_of (bs @ [l]) @ replicate (n - n') (fill v)"
      using r(7) by (simp add: block_words.simps)
    moreover have "add_empty_full e v n k = Some (e', n', k')"
      using r(1) e1(1) True by (subst add_empty_full.simps) simp
    moreover have "n' \<le> n" "ew_bits e' = ew_bits e"
      using r(6,8) e1(3) by simp_all
    ultimately show ?thesis
      using r(2-5) by blast
  next
    case False
    then show ?thesis
      using "1.prems" by (intro exI [of _ e] exI [of _ n] exI [of _ k] exI [of _ bs] exI [of _ l])
        (subst add_empty_full.simps, simp)
  qed
qed

lemma unat_of_nat_add_run:
  "r + c \<le> max_run \<Longrightarrow> unat (of_nat r + of_nat c :: eword) = r + c"
  using unat_run [of "r + c"] by simp

lemma unat_run_room: "r \<le> max_run \<Longrightarrow> unat (RLW_LARGEST_RUNNING_COUNT - of_nat r) = max_run - r"
  using unat_sub_of_nat [of r RLW_LARGEST_RUNNING_COUNT] by simp

lemma add_empty_words_holds:
  assumes "ewah_holds e ws" and "0 < n"
  shows "\<exists>e' k. add_empty_words e v n = Some (e', k) \<and> ewah_holds e' (ws @ replicate n (fill v)) \<and>
    ew_bits e' = ew_bits e"
proof -
  obtain bs l where rep: "ewah_rep e bs l" "solid bs l" "words_of (bs @ [l]) = ws"
    using assms(1) by (auto simp: ewah_holds_def)
  obtain e1 k1 bs1 r where e1: "add_empty_start e v = Some (e1, k1)" "ewah_rep e1 bs1 (v, r, [])"
    "\<forall>b\<in>set bs1. block_words b \<noteq> []" "words_of (bs1 @ [(v, r, [])]) = ws" "ew_bits e1 = ew_bits e"
    using add_empty_start_rep [OF rep(1,2)] rep(3) by metis
  have r: "r \<le> max_run"
    using e1(2) by (simp add: ewah_rep_def)
  define c where "c = min n (max_run - r)"
  have c: "r + c \<le> max_run" "c \<le> n" "0 < r + c"
    using r assms(2) by (auto simp: c_def max_run_def)
  have cur: "cur_rlw e1 = mk_rlw v r 0"
    using cur_rlw_rep [OF e1(2)] by simp
  let ?e2 = "map_rlw (\<lambda>w. rlw_set_running_len w (of_nat r + of_nat c)) e1"
  have e2: "ewah_rep ?e2 bs1 (v, r + c, [])"
    by (rule map_rlw_rep [OF e1(2)]) (use r c(1) in \<open>simp_all add: unat_of_nat_add_run\<close>)
  have "solid bs1 (v, r + c, [])" "block_words (v, r + c, []) \<noteq> []"
    using e1(3) c(3) by (auto simp: solid_def)
  then obtain e3 n3 k3 bs3 l3 where e3: "add_empty_full ?e2 v (n - c) k1 = Some (e3, n3, k3)"
    "ewah_rep e3 bs3 l3" "solid bs3 l3" "block_words l3 \<noteq> []" "n3 < max_run" "n3 \<le> n - c"
    "words_of (bs3 @ [l3]) = words_of (bs1 @ [(v, r + c, [])]) @ replicate (n - c - n3) (fill v)"
    "ew_bits e3 = ew_bits e1"
    using add_empty_full_rep [OF e2, of v "n - c" k1] unfolding ew_bits_map_rlw by blast
  have w3: "words_of (bs3 @ [l3]) = ws @ replicate (n - n3) (fill v)"
  proof -
    have "words_of (bs1 @ [(v, r + c, [])]) = ws @ replicate c (fill v)"
      using e1(4) by (simp add: block_words.simps replicate_add)
    moreover have "c + (n - c - n3) = n - n3"
      using c(2) e3(6) by simp
    ultimately show ?thesis
      using e3(7) by (metis append_assoc replicate_add)
  qed
  have start: "add_empty_words e v n =
      (if n3 > 0 then add_empty_run e3 v (of_nat n3) \<bind> (\<lambda>e4. Some (e4, k3 + 1)) else Some (e3, k3))"
    using e1(1) e3(1) cur r by (simp add: add_empty_words_def unat_run_room Let_def c_def)
  show ?thesis
  proof (cases "n3 > 0")
    case False
    then have "ewah_holds e3 (ws @ replicate n (fill v))"
      using w3 by (intro holdsI [OF e3(2,3)]) simp
    then show ?thesis
      using start False e3(8) e1(5) by simp
  next
    case True
    obtain e4 where e4: "add_empty_run e3 v (of_nat n3) = Some e4" "ewah_rep e4 (bs3 @ [l3]) (v, n3, [])"
      "ew_bits e4 = ew_bits e3"
      using add_empty_run_rep [OF e3(2), of "of_nat n3" v] e3(5) by auto
    have "words_of ((bs3 @ [l3]) @ [(v, n3, [])]) = ws @ replicate n (fill v)"
    proof -
      have "n - n3 + n3 = n"
        using e3(6) by simp
      then have "replicate (n - n3) (fill v) @ replicate n3 (fill v) = replicate n (fill v)"
        by (metis replicate_add)
      moreover have "words_of ((bs3 @ [l3]) @ [(v, n3, [])]) = words_of (bs3 @ [l3]) @ replicate n3 (fill v)"
        by (simp add: block_words.simps)
      ultimately show ?thesis
        using w3 by (metis append_assoc)
    qed
    moreover have "solid (bs3 @ [l3]) (v, n3, [])"
      using e3(3,4) True by (auto simp: solid_def)
    ultimately have "ewah_holds e4 (ws @ replicate n (fill v))"
      by (intro holdsI [OF e4(2)])
    then show ?thesis
      using start True e4(1,3) e3(8) e1(5) by simp
  qed
qed

lemma ewah_add_empty_words_holds:
  assumes "ewah_holds e ws"
  shows "\<exists>e' k. ewah_add_empty_words e v n = Some (e', k) \<and> ewah_holds e' (ws @ replicate n (fill v)) \<and>
    ew_bits e' = ew_bits e + n * 64"
proof (cases "n = 0")
  case False
  then show ?thesis
    using add_empty_words_holds [of "e\<lparr>ew_bits := ew_bits e + n * 64\<rparr>" ws n v] assms
    by (simp add: ewah_add_empty_words_def)
qed (use assms in \<open>simp add: ewah_add_empty_words_def\<close>)

lemma add_empty_word_holds:
  assumes "ewah_rep e bs l" and "\<forall>b\<in>set bs. block_words b \<noteq> []"
  shows "\<exists>e' k. add_empty_word e v = Some (e', k) \<and> ewah_holds e' (words_of (bs @ [l]) @ [fill v]) \<and>
    ew_bits e' = ew_bits e"
proof -
  obtain b r ls where l: "l = (b, r, ls)"
    by (cases l)
  have cur: "cur_rlw e = mk_rlw b r (length ls)" and ok: "r \<le> max_run" "length ls \<le> max_lits"
    using assms(1) cur_rlw_rep [of e bs b r ls] by (auto simp: l ewah_rep_def)
  note fields = zero_rlw(1) [OF ok] zero_rlw(2) [OF ok(2)] zero_rlw(3) [OF ok(1)]
  have less: "of_nat r < RLW_LARGEST_RUNNING_COUNT \<longleftrightarrow> r < max_run"
    using ok(1) by (simp add: word_less_nat_alt)
  let ?e1 = "if ls = [] \<and> r = 0 then map_rlw (\<lambda>w. rlw_set_run_bit w v) e else e"
  let ?b1 = "if ls = [] \<and> r = 0 then v else b"
  have e1: "ewah_rep ?e1 bs (?b1, r, ls)"
    using assms(1) l map_rlw_rep [of e bs b r ls "\<lambda>w. rlw_set_run_bit w v" v r] ok
    by (cases "ls = [] \<and> r = 0") auto
  then have cur1: "cur_rlw ?e1 = mk_rlw ?b1 r (length ls)"
    by (rule cur_rlw_rep)
  show ?thesis
  proof (cases "ls = [] \<and> ?b1 = v \<and> r < max_run")
    case True
    let ?e2 = "map_rlw (\<lambda>w. rlw_set_running_len w (of_nat r + 1)) ?e1"
    have "unat (of_nat r + 1 :: eword) = r + 1"
      using unat_of_nat_add_run [of r 1] True by simp
    moreover have "ewah_rep ?e1 bs (v, r, [])"
      using e1 True by (cases "r = 0") auto
    ultimately have "ewah_rep ?e2 bs (v, r + 1, [])"
      using True ok by (intro map_rlw_rep [where b = v and r = r]) simp_all
    moreover have "words_of (bs @ [(v, r + 1, [])]) = words_of (bs @ [l]) @ [fill v]"
      using True l by (auto simp: block_words.simps replicate_append_same split: if_splits)
    moreover have "solid bs (v, r + 1, [])"
      using assms(2) by (simp add: solid_def)
    moreover have "add_empty_word e v = Some (?e2, 0)"
      using True cur cur1 ok fields less by (auto simp: add_empty_word_def Let_def)
    ultimately show ?thesis
      unfolding ewah_holds_def by (auto split: if_splits)
  next
    case False
    obtain e2 where e2: "buffer_push_rlw ?e1 0 = Some e2" "ewah_rep e2 (bs @ [(?b1, r, ls)]) (False, 0, [])"
      "ew_bits e2 = ew_bits ?e1"
      using push_rlw_rep [OF e1] by blast
    let ?e3 = "map_rlw (\<lambda>w. rlw_set_running_len (rlw_set_run_bit w v) 1) e2"
    have "ewah_rep ?e3 (bs @ [(?b1, r, ls)]) (v, 1, [])"
      by (rule map_rlw_rep [OF e2(2)]) (simp_all add: max_run_def max_lits_def)
    moreover have ne: "ls \<noteq> [] \<or> r \<noteq> 0"
      using False by (cases "r = 0") (auto simp: max_run_def)
    moreover from ne have "solid (bs @ [(?b1, r, ls)]) (v, 1, [])"
      using assms(2) by (auto simp: solid_def)
    moreover have "words_of ((bs @ [(?b1, r, ls)]) @ [(v, 1, [])]) = words_of (bs @ [l]) @ [fill v]"
      using ne l by (auto simp: block_words.simps)
    moreover have "add_empty_word e v = Some (?e3, 1)"
      using False e2(1) cur cur1 ok fields less by (auto simp: add_empty_word_def Let_def split: if_splits)
    moreover have "ew_bits ?e3 = ew_bits e"
      using e2(3) by simp
    ultimately show ?thesis
      unfolding ewah_holds_def by blast
  qed
qed

lemma unat_lit_room: "l \<le> max_lits \<Longrightarrow> unat (RLW_LARGEST_LITERAL_COUNT - of_nat l) = max_lits - l"
  using unat_sub_of_nat [of l RLW_LARGEST_LITERAL_COUNT] by simp

lemma unat_of_nat_add_lits:
  "l + c \<le> max_lits \<Longrightarrow> unat (of_nat l + of_nat c :: eword) = l + c"
  using unat_lits [of "l + c"] by simp

lemma add_literal_holds:
  assumes "ewah_rep e bs l" and "\<forall>b\<in>set bs. block_words b \<noteq> []"
  shows "\<exists>e' k. add_literal e w = Some (e', k) \<and> ewah_holds e' (words_of (bs @ [l]) @ [w]) \<and>
    ew_bits e' = ew_bits e"
proof -
  obtain b r ls where l: "l = (b, r, ls)"
    by (cases l)
  have cur: "cur_rlw e = mk_rlw b r (length ls)" and ok: "r \<le> max_run" "length ls \<le> max_lits"
    using assms(1) cur_rlw_rep [of e bs b r ls] by (auto simp: l ewah_rep_def)
  have full: "RLW_LARGEST_LITERAL_COUNT \<le> of_nat (length ls) \<longleftrightarrow> max_lits \<le> length ls"
    using ok(2) by (simp add: word_le_nat_alt)
  show ?thesis
  proof (cases "max_lits \<le> length ls")
    case True
    obtain e1 where e1: "buffer_push_rlw e 0 = Some e1" "ewah_rep e1 (bs @ [l]) (False, 0, [])" "ew_bits e1 = ew_bits e"
      using push_rlw_rep [OF assms(1)] by blast
    obtain e2 where e2: "buffer_push (map_rlw (\<lambda>w. rlw_set_literal_words w 1) e1) w = Some e2"
      "ewah_rep e2 (bs @ [l]) (False, 0, [w])" "ew_bits e2 = ew_bits e1"
      using push_literal_rep [OF e1(2), of w] by (auto simp: max_lits_def)
    have "solid (bs @ [l]) (False, 0, [w])"
      using assms(2) True l by (auto simp: solid_def max_lits_def)
    then have "ewah_holds e2 (words_of (bs @ [l]) @ [w])"
      by (rule holdsI [OF e2(2)]) (simp add: block_words.simps)
    then show ?thesis
      using True full e1 e2 cur ok by (simp add: add_literal_def)
  next
    case False
    obtain e1 where e1: "buffer_push (map_rlw (\<lambda>w. rlw_set_literal_words w (of_nat (length ls) + 1)) e) w = Some e1"
      "ewah_rep e1 bs (b, r, ls @ [w])" "ew_bits e1 = ew_bits e"
      using push_literal_rep [of e bs b r ls w] assms(1) False l by auto
    have "solid bs (b, r, ls @ [w])"
      using assms(2) by (auto simp: solid_def)
    then have "ewah_holds e1 (words_of (bs @ [l]) @ [w])"
      by (rule holdsI [OF e1(2)]) (simp add: l block_words.simps)
    then show ?thesis
      using False full e1 cur ok by (simp add: add_literal_def)
  qed
qed

lemma holds_repE:
  assumes "ewah_holds e ws"
  obtains bs l where "ewah_rep e bs l" and "solid bs l" and "words_of (bs @ [l]) = ws"
    and "\<forall>b\<in>set bs. block_words b \<noteq> []"
  using assms unfolding ewah_holds_def solid_def by blast

lemma ewah_add_holds:
  assumes "ewah_holds e ws"
  shows "\<exists>e' k. ewah_add e w = Some (e', k) \<and> ewah_holds e' (ws @ [w]) \<and> ew_bits e' = ew_bits e + 64"
proof -
  let ?e = "e\<lparr>ew_bits := ew_bits e + 64\<rparr>"
  have "ewah_holds ?e ws"
    using assms by simp
  then obtain bs l where rep: "ewah_rep ?e bs l" "words_of (bs @ [l]) = ws" "\<forall>b\<in>set bs. block_words b \<noteq> []"
    by (rule holds_repE)
  note ops = add_empty_word_holds [OF rep(1,3), unfolded rep(2)] add_literal_holds [OF rep(1,3), unfolded rep(2)]
  show ?thesis
    using ops(1) [of False] ops(1) [of True] ops(2) [of w] by (auto simp: ewah_add_def fill_def Let_def)
qed

lemma add_dirty_chunk_rep:
  assumes "ewah_rep e bs (b, r, ls)" and "c \<le> length buf" and "length ls + c \<le> max_lits"
  shows "\<exists>e'. add_dirty_chunk e buf c neg = Some e' \<and>
    ewah_rep e' bs (b, r, ls @ (if neg then map NOT (take c buf) else take c buf)) \<and>
    ew_bits e' = ew_bits e + c * 64"
proof -
  let ?new = "if neg then map NOT (take c buf) else take c buf"
  let ?e1 = "map_rlw (\<lambda>w. rlw_set_literal_words w (of_nat (length ls) + of_nat c)) e"
  have ok: "r \<le> max_run" "length ls \<le> max_lits" "length (ew_buffer e) \<le> ew_alloc e" "2 \<le> ew_alloc e"
    using assms(1) by (auto simp: ewah_rep_def)
  have set: "rlw_set_literal_words (mk_rlw b r (length ls)) (of_nat (length ls) + of_nat c) = mk_rlw b r (length ls + c)"
    using ok assms(3) by (subst set_literal_words_mk) (simp_all add: unat_of_nat_add_lits)
  have buf: "ew_buffer ?e1 = enc_blocks bs @ mk_rlw b r (length ls + c) # ls"
    using assms(1) set cur_rlw_rep [OF assms(1)] by (simp add: ewah_rep_def map_rlw_def list_update_append)
  have cur: "rlw_get_literal_words (cur_rlw e) = of_nat (length ls)"
    using cur_rlw_rep [OF assms(1)] ok by simp
  let ?n = "length (ew_buffer ?e1)"
  let ?e2 = "if ?n + c \<ge> ew_alloc ?e1 then buffer_grow ?e1 ((?n + c) * 3 div 2) else ?e1"
  have len: "?n = length (ew_buffer e)" "ew_alloc ?e1 = ew_alloc e" "length ?new = c"
    using assms(2) by (simp_all add: map_rlw_def)
  have room: "?n + c \<le> ew_alloc ?e2" "2 \<le> ew_alloc ?e2" "ew_buffer ?e2 = ew_buffer ?e1" "ew_rlw ?e2 = ew_rlw e"
    "ew_bits ?e2 = ew_bits e"
    using ok len by (auto simp: buffer_grow_def map_rlw_def)
  have "add_dirty_chunk e buf c neg = Some (?e2\<lparr>ew_buffer := ew_buffer ?e2 @ ?new, ew_bits := ew_bits ?e2 + c * 64\<rparr>)"
    using room(1) assms(2) cur by (simp add: add_dirty_chunk_def Let_def)
  moreover have "ewah_rep (?e2\<lparr>ew_buffer := ew_buffer ?e2 @ ?new, ew_bits := ew_bits ?e2 + c * 64\<rparr>) bs (b, r, ls @ ?new)"
    using assms room buf len ok by (auto simp: ewah_rep_def)
  ultimately show ?thesis
    using room(5) by auto
qed

lemma ewah_add_dirty_words_holds:
  "ewah_rep e bs l \<Longrightarrow> \<forall>b\<in>set bs. block_words b \<noteq> [] \<Longrightarrow> n \<le> length buf \<Longrightarrow>
     n \<noteq> 0 \<or> block_words l \<noteq> [] \<or> bs = [] \<Longrightarrow>
     \<exists>e'. ewah_add_dirty_words e buf n neg = Some e' \<and>
       ewah_holds e' (words_of (bs @ [l]) @ (if neg then map NOT (take n buf) else take n buf)) \<and>
       ew_bits e' = ew_bits e + n * 64"
proof (induction e buf n neg arbitrary: bs l rule: ewah_add_dirty_words.induct)
  case (1 e buf n neg)
  obtain b r ls where l: "l = (b, r, ls)"
    by (cases l)
  have cur: "cur_rlw e = mk_rlw b r (length ls)" and ok: "r \<le> max_run" "length ls \<le> max_lits"
    using "1.prems"(1) cur_rlw_rep [of e bs b r ls] by (auto simp: l ewah_rep_def)
  define c where "c = min n (literal_room e)"
  have c: "c \<le> n" "length ls + c \<le> max_lits" "c = n \<or> length ls + c = max_lits"
    using cur ok by (auto simp: c_def literal_room_def unat_lit_room)
  let ?new = "if neg then map NOT (take c buf) else take c buf"
  let ?l1 = "(b, r, ls @ ?new)"
  obtain e1 where e1: "add_dirty_chunk e buf c neg = Some e1" "ewah_rep e1 bs ?l1" "ew_bits e1 = ew_bits e + c * 64"
    using add_dirty_chunk_rep [of e bs b r ls c buf neg] "1.prems"(1,3) c(1,2) l by auto
  have w1: "words_of (bs @ [?l1]) = words_of (bs @ [l]) @ ?new"
    by (simp add: l block_words.simps)
  show ?case
  proof (cases "n - c = 0")
    case True
    then have "c = n"
      using c(1) by simp
    moreover have "solid bs ?l1"
      using "1.prems"(2,3,4) l \<open>c = n\<close> by (auto simp: solid_def)
    ultimately have "ewah_holds e1 (words_of (bs @ [l]) @ (if neg then map NOT (take n buf) else take n buf))"
      using w1 by (intro holdsI [OF e1(2)]) simp_all
    then show ?thesis
      using e1(1,3) True \<open>c = n\<close>
      by (subst ewah_add_dirty_words.simps) (simp add: c_def [symmetric] Let_def)
  next
    case False
    then have full: "length ls + c = max_lits"
      using c(1,3) by simp
    obtain e2 where e2: "buffer_push_rlw e1 0 = Some e2" "ewah_rep e2 (bs @ [?l1]) (False, 0, [])" "ew_bits e2 = ew_bits e1"
      using push_rlw_rep [OF e1(2)] by blast
    have "length ?new = c"
      using "1.prems"(3) c(1) by simp
    then have "length (ls @ ?new) = max_lits"
      using full by (simp only: length_append)
    then have "ls @ ?new \<noteq> []"
      by (intro notI) (simp add: max_lits_def)
    then have "block_words ?l1 \<noteq> []"
      by (simp only: block_words_Nil) blast
    then have "\<forall>b\<in>set (bs @ [?l1]). block_words b \<noteq> []"
      using "1.prems"(2) by simp
    moreover have "n - c \<le> length (drop c buf)" "n - c \<noteq> 0 \<or> block_words (False, 0, []) \<noteq> [] \<or> bs @ [?l1] = []"
      using "1.prems"(3) False by simp_all
    ultimately obtain e3 where e3: "ewah_add_dirty_words e2 (drop c buf) (n - c) neg = Some e3"
      "ewah_holds e3 (words_of ((bs @ [?l1]) @ [(False, 0, [])]) @
         (if neg then map NOT (take (n - c) (drop c buf)) else take (n - c) (drop c buf)))"
      "ew_bits e3 = ew_bits e2 + (n - c) * 64"
      using "1.IH" [OF c_def e1(1) False e2(1) e2(2)] by blast
    have "take n buf = take c buf @ take (n - c) (drop c buf)"
      using c(1) by (metis le_add_diff_inverse take_add)
    then have "words_of ((bs @ [?l1]) @ [(False, 0, [])]) @
        (if neg then map NOT (take (n - c) (drop c buf)) else take (n - c) (drop c buf)) =
      words_of (bs @ [l]) @ (if neg then map NOT (take n buf) else take n buf)"
      using w1 by (auto simp: block_words.simps)
    moreover have "ew_bits e3 = ew_bits e + n * 64"
    proof -
      have "c * 64 + (n - c) * 64 = n * 64"
        using c(1) by (metis add_mult_distrib le_add_diff_inverse)
      then show ?thesis
        using e1(3) e2(3) e3(3) by simp
    qed
    ultimately show ?thesis
      using e1(1) e2(1) e3 False
      by (subst ewah_add_dirty_words.simps) (simp add: c_def [symmetric] Let_def)
  qed
qed

lemma ewah_new_holds: "ewah_holds ewah_new []"
  by (rule holdsI [of _ "[]" "(False, 0, [])"])
    (simp_all add: ewah_rep_def solid_def ewah_new_def ewah_clear_def mk_rlw_0 max_run_def max_lits_def block_words.simps(1))

lemma ewah_single: "\<exists>e. ewah_holds e [w]"
  using ewah_add_holds [OF ewah_new_holds, of w] by auto

subsection \<open>Setting a bit appends it\<close>

definition bit_at :: "eword list \<Rightarrow> nat \<Rightarrow> bool" where
  "bit_at ws p \<longleftrightarrow> p div 64 < length ws \<and> bit (ws ! (p div 64)) (p mod 64)"

lemma bit_at_append: "bit_at (xs @ ys) p \<longleftrightarrow> bit_at xs p \<or> length xs * 64 \<le> p \<and> bit_at ys (p - length xs * 64)"
proof (cases "p div 64 < length xs")
  case True
  then have "\<not> length xs * 64 \<le> p"
    by (metis div_le_mono nonzero_mult_div_cancel_right not_le zero_neq_numeral)
  then show ?thesis
    using True by (simp add: bit_at_def nth_append)
next
  case False
  then have le: "length xs * 64 \<le> p"
    by (metis div_times_less_eq_dividend le_trans mult_le_mono1 not_le)
  then have "(p - length xs * 64) div 64 = p div 64 - length xs" "(p - length xs * 64) mod 64 = p mod 64"
    using div_mult_self1 [of 64 "p - length xs * 64" "length xs"] mod_mult_self1 [of "p - length xs * 64" "length xs" 64]
    by simp_all
  moreover have "p div 64 < length xs + length ys \<longleftrightarrow> p div 64 - length xs < length ys"
    using False by linarith
  ultimately show ?thesis
    using False le by (simp add: bit_at_def nth_append)
qed

lemma bit_at_zeros [simp]: "\<not> bit_at (replicate n 0) p"
  by (auto simp: bit_at_def)

lemma bit_at_single: "bit_at [w] p \<longleftrightarrow> p < 64 \<and> bit w p"
  by (auto simp: bit_at_def)

lemma bit_at_Nil [simp]: "\<not> bit_at [] p"
  by (simp add: bit_at_def)

text \<open>
  A bitmap that is only extended: as many words as its bits need, and no bit at or after
  \<open>bit_size\<close>.
\<close>

definition ewah_tight :: "ewah_bitmap \<Rightarrow> eword list \<Rightarrow> bool" where
  "ewah_tight e ws \<longleftrightarrow>
     ewah_holds e ws \<and> length ws = DIV_ROUND_UP (ew_bits e) 64 \<and> (\<forall>p. bit_at ws p \<longrightarrow> p < ew_bits e)"

lemma round_up_Suc: "DIV_ROUND_UP (i + 1) 64 = i div 64 + 1"
  by (simp add: DIV_ROUND_UP_def)

lemma bit_single: "bit (push_bit (i mod 64) 1 :: eword) n \<longleftrightarrow> n = i mod 64"
  unfolding bit_push_bit_iff by (auto simp: bit_1_iff possible_bit_def)

lemma set_last_bit:
  assumes "length ws = i div 64 + 1" and "ws = us @ [w]"
  shows "bit_at (us @ [w OR push_bit (i mod 64) 1]) p \<longleftrightarrow> bit_at ws p \<or> p = i"
proof -
  have len: "length us = i div 64"
    using assms by simp
  have "length us * 64 + i mod 64 = i"
    using len by simp
  moreover have "i mod 64 < 64"
    by simp
  ultimately have "length us * 64 \<le> p \<and> p - length us * 64 < 64 \<and> p - length us * 64 = i mod 64 \<longleftrightarrow> p = i"
    by linarith
  then show ?thesis
    unfolding assms(2) bit_at_append bit_at_single bit_or_iff bit_single by blast
qed

lemma last_literal_rep:
  assumes "ewah_rep e bs (b, r, ls @ [x])"
  shows "ew_buffer e \<noteq> []" and "last (ew_buffer e) = x"
    and "ewah_rep (e\<lparr>ew_buffer := butlast (ew_buffer e) @ [y]\<rparr>) bs (b, r, ls @ [y])"
    and "ewah_rep (map_rlw (\<lambda>w. rlw_set_literal_words w (rlw_get_literal_words w - 1))
      (e\<lparr>ew_buffer := butlast (ew_buffer e)\<rparr>)) bs (b, r, ls)"
proof -
  have buf: "ew_buffer e = enc_blocks bs @ mk_rlw b r (length ls + 1) # ls @ [x]"
    and ok: "r \<le> max_run" "length ls + 1 \<le> max_lits"
    using assms by (simp_all add: ewah_rep_def)
  show "ew_buffer e \<noteq> []" "last (ew_buffer e) = x"
    using buf by simp_all
  have but: "butlast (ew_buffer e) = enc_blocks bs @ mk_rlw b r (length ls + 1) # ls"
    by (simp add: buf butlast_append)
  show "ewah_rep (e\<lparr>ew_buffer := butlast (ew_buffer e) @ [y]\<rparr>) bs (b, r, ls @ [y])"
    using assms but by (simp add: ewah_rep_def buf)
  have "rlw_get_literal_words (mk_rlw b r (length ls + 1)) - 1 = of_nat (length ls)"
    using ok by (simp only: get_literal_words_mk) simp
  then have "rlw_set_literal_words (mk_rlw b r (length ls + 1)) (rlw_get_literal_words (mk_rlw b r (length ls + 1)) - 1)
      = mk_rlw b r (length ls)"
    using ok by (simp only:) simp
  then show "ewah_rep (map_rlw (\<lambda>w. rlw_set_literal_words w (rlw_get_literal_words w - 1))
      (e\<lparr>ew_buffer := butlast (ew_buffer e)\<rparr>)) bs (b, r, ls)"
    using assms but by (simp add: ewah_rep_def map_rlw_def cur_rlw_def nth_append list_update_append buf)
qed

lemma ewah_set_tight:
  assumes "ewah_tight e ws" and "ew_bits e \<le> i"
  shows "\<exists>e' ws'. ewah_set e i = Some e' \<and> ewah_tight e' ws' \<and> ew_bits e' = i + 1 \<and>
    (\<forall>p. bit_at ws' p \<longleftrightarrow> bit_at ws p \<or> p = i)"
proof -
  have len: "length ws = DIV_ROUND_UP (ew_bits e) 64" and clear: "\<forall>p. bit_at ws p \<longrightarrow> p < ew_bits e"
    using assms(1) by (simp_all add: ewah_tight_def)
  let ?e1 = "e\<lparr>ew_bits := i + 1\<rparr>"
  let ?w = "push_bit (i mod 64) 1 :: eword"
  have h1: "ewah_holds ?e1 ws"
    using assms(1) by (simp add: ewah_tight_def)
  then obtain bs l where rep: "ewah_rep ?e1 bs l" "solid bs l" "words_of (bs @ [l]) = ws"
    "\<forall>b\<in>set bs. block_words b \<noteq> []"
    by (rule holds_repE)
  define dist where "dist = i div 64 + 1 - length ws"
  have dist_eq: "DIV_ROUND_UP (i + 1) 64 - DIV_ROUND_UP (ew_bits e) 64 = dist"
    by (simp only: round_up_Suc len [symmetric] dist_def)
  have no_abort: "\<not> i < ew_bits e"
    using assms(2) by simp
  have main: "\<exists>e' ws'. ewah_set e i = Some e' \<and> ewah_holds e' ws' \<and> ew_bits e' = i + 1 \<and>
      length ws' = i div 64 + 1 \<and> (\<forall>p. bit_at ws' p \<longleftrightarrow> bit_at ws p \<or> p = i)"
  proof (cases "dist > 0")
    case True
    obtain e2 k2 where e2: "(if dist > 1 then add_empty_words ?e1 False (dist - 1) else Some (?e1, 0)) = Some (e2, k2)"
      "ewah_holds e2 (ws @ replicate (dist - 1) 0)" "ew_bits e2 = i + 1"
      using add_empty_words_holds [OF h1, of "dist - 1" False] h1 True
      by (cases "dist > 1") (auto simp: fill_def)
    obtain bs2 l2 where rep2: "ewah_rep e2 bs2 l2" "words_of (bs2 @ [l2]) = ws @ replicate (dist - 1) 0"
      "\<forall>b\<in>set bs2. block_words b \<noteq> []"
      using e2(2) by (rule holds_repE)
    obtain e3 k3 where e3: "add_literal e2 ?w = Some (e3, k3)"
      "ewah_holds e3 ((ws @ replicate (dist - 1) 0) @ [?w])" "ew_bits e3 = i + 1"
      using add_literal_holds [OF rep2(1,3), of ?w] unfolding rep2(2) e2(3) by blast
    have len2: "length (ws @ replicate (dist - 1) 0) = i div 64"
      using True by (simp add: dist_def)
    have zero: "bit_at ((ws @ replicate (dist - 1) 0) @ [0]) p \<longleftrightarrow> bit_at ws p" for p
      by (simp add: bit_at_append bit_at_single)
    have "bit_at ((ws @ replicate (dist - 1) 0) @ [?w]) p \<longleftrightarrow> bit_at ws p \<or> p = i" for p
      using set_last_bit [of "(ws @ replicate (dist - 1) 0) @ [0]" i "ws @ replicate (dist - 1) 0" 0 p] len2 zero [of p]
      by simp
    moreover have "ewah_set e i = Some e3"
      unfolding ewah_set_def dist_eq Let_def using no_abort True e2(1) e3(1)
      by (simp del: One_nat_def)
    ultimately show ?thesis
      using e3(2,3) len2 by (intro exI [of _ e3] exI [of _ "(ws @ replicate (dist - 1) 0) @ [?w]"]) simp
  next
    case False
    have len1: "length ws = i div 64 + 1"
    proof -
      have "length ws \<le> i div 64 + 1"
        using len assms(2) unfolding DIV_ROUND_UP_def by (simp add: div_le_mono)
      then show ?thesis
        using False by (simp add: dist_def)
    qed
    obtain b r ls where l: "l = (b, r, ls)"
      by (cases l)
    have ok: "r \<le> max_run" "length ls \<le> max_lits" and cur: "cur_rlw ?e1 = mk_rlw b r (length ls)"
      using rep(1) cur_rlw_rep [of ?e1 bs b r ls] by (auto simp: l ewah_rep_def)
    note fields = zero_rlw(2) [OF ok(2)]
    have ne: "block_words l \<noteq> []"
      using rep(2,3) len1 by (auto simp: solid_def)
    show ?thesis
    proof (cases "ls = []")
      case True
      then have r: "0 < r"
        using ne l by simp
      let ?us = "words_of bs @ replicate (r - 1) (fill b)"
      have ws: "ws = ?us @ [fill b]"
      proof -
        have "replicate r (fill b) = replicate (r - 1) (fill b) @ [fill b]"
          using r by (cases r) (simp_all add: replicate_append_same)
        then show ?thesis
          using rep(3) l True by (simp add: block_words.simps)
      qed
      have "\<not> b"
      proof
        assume b
        then have "bit (fill b) (i mod 64)"
          by (simp add: fill_def bit_not_iff)
        moreover have "ws ! (i div 64) = fill b"
          using ws len1 by (metis add_diff_cancel_right' length_append_singleton nth_append_length Suc_eq_plus1 add_right_cancel)
        ultimately have "bit_at ws i"
          using len1 by (simp add: bit_at_def)
        then show False
          using clear assms(2) by auto
      qed
      let ?e2 = "map_rlw (\<lambda>w. rlw_set_running_len w (rlw_get_running_len w - 1)) ?e1"
      have r1: "unat (of_nat r - 1 :: eword) = r - 1"
        using unat_run [of "r - 1"] ok(1) r by (simp add: of_nat_diff)
      have rep2: "ewah_rep ?e2 bs (b, r - 1, [])"
        using rep(1) l True ok r1 by (intro map_rlw_rep [where b = b and r = r]) auto
      obtain e3 k3 where e3: "add_literal ?e2 ?w = Some (e3, k3)"
        "ewah_holds e3 (words_of (bs @ [(b, r - 1, [])]) @ [?w])" "ew_bits e3 = i + 1"
        using add_literal_holds [OF rep2 rep(4), of ?w] by auto
      have "bit_at (?us @ [?w]) p \<longleftrightarrow> bit_at ws p \<or> p = i" for p
        using set_last_bit [OF len1 ws, of p] \<open>\<not> b\<close> by (simp add: fill_def)
      moreover have "words_of (bs @ [(b, r - 1, [])]) = ?us"
        by (simp add: block_words.simps)
      moreover have "ewah_set e i = Some e3"
        unfolding ewah_set_def dist_eq Let_def using no_abort False e3(1) cur fields True ok
        by simp
      moreover have "length (?us @ [?w]) = i div 64 + 1"
        using ws len1 by (metis length_append_singleton)
      ultimately show ?thesis
        using e3(2,3) by (intro exI [of _ e3] exI [of _ "?us @ [?w]"]) simp
    next
      case ls: False
      then obtain ls' x where x: "ls = ls' @ [x]"
        by (metis rev_exhaust)
      let ?us = "words_of bs @ replicate r (fill b) @ ls'"
      have ws: "ws = ?us @ [x]"
        using rep(3) l x by (simp add: block_words.simps)
      have rep1: "ewah_rep ?e1 bs (b, r, ls' @ [x])"
        using rep(1) l x by simp
      note ll = last_literal_rep [OF rep1]
      let ?y = "x OR ?w"
      let ?e2 = "?e1\<lparr>ew_buffer := butlast (ew_buffer ?e1) @ [?y]\<rparr>"
      have rep2: "ewah_rep ?e2 bs (b, r, ls' @ [?y])"
        by (rule ll(3))
      have set: "ewah_set e i = (if ?y = NOT 0 then
          map_option fst (add_empty_word
            (map_rlw (\<lambda>w. rlw_set_literal_words w (rlw_get_literal_words w - 1))
               (?e2\<lparr>ew_buffer := butlast (ew_buffer ?e2)\<rparr>)) True) else Some ?e2)"
        unfolding ewah_set_def dist_eq Let_def using no_abort False cur fields ls ok ll(2)
        by (simp split: option.splits prod.splits bind_splits)
      have bits: "bit_at (?us @ [?y]) p \<longleftrightarrow> bit_at ws p \<or> p = i" for p
        using set_last_bit [OF len1 ws] .
      have lenw: "length (?us @ [?y]) = i div 64 + 1"
        using ws len1 by (metis length_append_singleton)
      show ?thesis
      proof (cases "?y = NOT 0")
        case True
        note rep3 = last_literal_rep(4) [OF rep2]
        obtain e4 k4 where e4: "add_empty_word (map_rlw (\<lambda>w. rlw_set_literal_words w (rlw_get_literal_words w - 1))
               (?e2\<lparr>ew_buffer := butlast (ew_buffer ?e2)\<rparr>)) True = Some (e4, k4)"
          "ewah_holds e4 (words_of (bs @ [(b, r, ls')]) @ [fill True])" "ew_bits e4 = i + 1"
          using add_empty_word_holds [OF rep3 rep(4), of True] by auto
        have "words_of (bs @ [(b, r, ls')]) @ [fill True] = ?us @ [?y]"
          using True by (simp add: block_words.simps fill_def)
        then have "ewah_holds e4 (?us @ [?y])"
          using e4(2) by (simp only:)
        then show ?thesis
          using set True e4(1,3) bits lenw by (intro exI [of _ e4] exI [of _ "?us @ [?y]"]) simp
      next
        case no: False
        have "ewah_holds ?e2 (?us @ [?y])"
          by (rule holdsI [OF rep2]) (use rep(4) in \<open>auto simp: solid_def block_words.simps(1)\<close>)
        then show ?thesis
          using set no bits lenw by (intro exI [of _ ?e2] exI [of _ "?us @ [?y]"]) simp
      qed
    qed
  qed
  then obtain e' ws' where r: "ewah_set e i = Some e'" "ewah_holds e' ws'" "ew_bits e' = i + 1"
    "length ws' = i div 64 + 1" "\<forall>p. bit_at ws' p \<longleftrightarrow> bit_at ws p \<or> p = i"
    by blast
  have "ewah_tight e' ws'"
    using r clear assms(2) round_up_Suc by (fastforce simp: ewah_tight_def)
  then show ?thesis
    using r by blast
qed

end
