(* ===== verification/Git_Ewah_Ops.thy ===== *)
theory Git_Ewah_Ops
  imports Git_Ewah
begin

text \<open>
  \<^verbatim>\<open>ewah/ewah_rlw.c\<close> and the operations of \<^verbatim>\<open>ewah/ewah_bitmap.c\<close> that read bitmaps: visiting the
  set bits, the word iterator, negation, and the binary operations, which walk two compressed
  bitmaps with \<open>rlw_iterator\<close>s.  The \<open>int\<close> fields of that iterator are integers reduced to 32 bits
  when they are loaded, and are converted to \<open>size_t\<close> where the code does.
\<close>

subsection \<open>Visiting the set bits\<close>

definition literal_bits :: "nat \<Rightarrow> eword \<Rightarrow> nat list" where
  "literal_bits pos word = map (\<lambda>c. pos + c) (filter (\<lambda>c. word AND push_bit c 1 \<noteq> 0) [0..<BITS_IN_EWORD])"

fun literals_bits :: "nat \<Rightarrow> eword list \<Rightarrow> nat list" where
  "literals_bits pos [] = []"
| "literals_bits pos (w # ws) = literal_bits pos w @ literals_bits (pos + BITS_IN_EWORD) ws"

text \<open>The words from \<open>pointer\<close> on; the result lists the positions in the order of the callbacks.\<close>

function each_bit_loop :: "eword list \<Rightarrow> nat \<Rightarrow> nat list option" where
  "each_bit_loop [] pos = Some []"
| "each_bit_loop (word # rest) pos =
     (let len = unat (rlw_get_running_len word) * BITS_IN_EWORD;
          run = (if rlw_get_run_bit word then [pos..<pos + len] else []);
          lits = unat (rlw_get_literal_words word)
      in if length rest < lits then None
         else case each_bit_loop (drop lits rest) (pos + len + lits * BITS_IN_EWORD) of
           None \<Rightarrow> None
         | Some ps \<Rightarrow> Some (run @ literals_bits (pos + len) (take lits rest) @ ps))"
  by pat_completeness auto
termination
  by (relation "measure (\<lambda>(ws, pos). length ws)") auto

definition ewah_each_bit :: "ewah_bitmap \<Rightarrow> nat list option" where
  "ewah_each_bit self = each_bit_loop (ew_buffer self) 0"

subsection \<open>The word iterator\<close>

record ewah_iterator =
  ei_buffer :: "eword list"
  ei_pointer :: nat
  ei_compressed :: nat
  ei_literals :: nat
  ei_rl :: nat
  ei_lw :: nat
  ei_b :: bool

function read_new_rlw_loop :: "ewah_iterator \<Rightarrow> ewah_iterator" where
  "read_new_rlw_loop it =
     (let word = ei_buffer it ! ei_pointer it;
          it1 = it\<lparr>ei_rl := unat (rlw_get_running_len word), ei_lw := unat (rlw_get_literal_words word),
                   ei_b := rlw_get_run_bit word\<rparr>
      in if ei_rl it1 \<noteq> 0 \<or> ei_lw it1 \<noteq> 0 then it1
         else if ei_pointer it1 < length (ei_buffer it1) - 1
         then read_new_rlw_loop (it1\<lparr>ei_pointer := ei_pointer it1 + 1\<rparr>)
         else it1\<lparr>ei_pointer := length (ei_buffer it1)\<rparr>)"
  by pat_completeness auto
termination
  by (relation "measure (\<lambda>it. length (ei_buffer it) - ei_pointer it)") (auto simp: Let_def)

declare read_new_rlw_loop.simps [simp del]

definition read_new_rlw :: "ewah_iterator \<Rightarrow> ewah_iterator" where
  "read_new_rlw it = read_new_rlw_loop (it\<lparr>ei_literals := 0, ei_compressed := 0\<rparr>)"

definition ewah_iterator_init :: "ewah_bitmap \<Rightarrow> ewah_iterator" where
  "ewah_iterator_init parent =
     (let it = \<lparr>ei_buffer = ew_buffer parent, ei_pointer = 0, ei_compressed = 0, ei_literals = 0,
                ei_rl = 0, ei_lw = 0, ei_b = False\<rparr>
      in if ei_pointer it < length (ei_buffer it) then read_new_rlw it else it)"

text \<open>Leaving a running length word that is used up, at the end of \<open>ewah_iterator_next\<close>.\<close>

definition ewah_iterator_advance :: "ewah_iterator \<Rightarrow> ewah_iterator" where
  "ewah_iterator_advance it =
     (if ei_compressed it = ei_rl it \<and> ei_literals it = ei_lw it
      then let it' = it\<lparr>ei_pointer := ei_pointer it + 1\<rparr>
           in if ei_pointer it' < length (ei_buffer it') then read_new_rlw it' else it'
      else it)"

text \<open>The next word, if any; the outer \<open>None\<close> is a failed assertion.\<close>

definition ewah_iterator_next :: "ewah_iterator \<Rightarrow> (eword option \<times> ewah_iterator) option" where
  "ewah_iterator_next it =
     (if ei_pointer it \<ge> length (ei_buffer it) then Some (None, it)
      else do {
        (word, it1) \<leftarrow>
          (if ei_compressed it < ei_rl it
           then Some (fill (ei_b it), it\<lparr>ei_compressed := ei_compressed it + 1\<rparr>)
           else if \<not> ei_literals it < ei_lw it \<or> \<not> ei_pointer it + 1 < length (ei_buffer it) then None
           else Some (ei_buffer it ! (ei_pointer it + 1),
                      it\<lparr>ei_literals := ei_literals it + 1, ei_pointer := ei_pointer it + 1\<rparr>));
        Some (Some word, ewah_iterator_advance it1)
      })"

text \<open>A loop \<open>while (ewah_iterator_next(&word, &it))\<close> with the body \<open>f\<close>.\<close>

partial_function (option) ewah_iterate :: "(eword \<Rightarrow> 's \<Rightarrow> 's) \<Rightarrow> ewah_iterator \<Rightarrow> 's \<Rightarrow> 's option" where
  "ewah_iterate f it s =
     (case ewah_iterator_next it of
        None \<Rightarrow> None
      | Some (None, it') \<Rightarrow> Some s
      | Some (Some word, it') \<Rightarrow> ewah_iterate f it' (f word s))"

declare ewah_iterate.simps [code]

subsection \<open>Negation\<close>

function not_loop :: "eword list \<Rightarrow> eword list option" where
  "not_loop [] = Some []"
| "not_loop (word # rest) =
     (let word' = rlw_xor_run_bit word; literals = unat (rlw_get_literal_words word')
      in if length rest < literals then None
         else map_option (\<lambda>r. word' # map NOT (take literals rest) @ r) (not_loop (drop literals rest)))"
  by pat_completeness auto
termination
  by (relation "measure length") auto

definition ewah_not :: "ewah_bitmap \<Rightarrow> ewah_bitmap option" where
  "ewah_not self = map_option (\<lambda>b. self\<lparr>ew_buffer := b\<rparr>) (not_loop (ew_buffer self))"

subsection \<open>The running length iterator\<close>

record rlw_iterator =
  ri_buffer :: "eword list"
  ri_pointer :: nat
  ri_literal_word_start :: nat
  ri_literal_words :: int
  ri_running_len :: int
  ri_running_bit :: bool

definition to_int :: "int \<Rightarrow> int" where
  "to_int x = signed_take_bit 31 x"

definition to_size :: "int \<Rightarrow> nat" where
  "to_size x = nat (x mod 2 ^ 64)"

definition rlwit_word_size :: "rlw_iterator \<Rightarrow> nat" where
  "rlwit_word_size it = to_size (ri_running_len it + ri_literal_words it)"

definition rlwit_literal_words :: "rlw_iterator \<Rightarrow> nat" where
  "rlwit_literal_words it = to_size (int (ri_pointer it) - ri_literal_words it)"

text \<open>\<open>None\<close> is the result 0, which leaves the iterator as it is.\<close>

definition next_word :: "rlw_iterator \<Rightarrow> rlw_iterator option" where
  "next_word it =
     (if ri_pointer it \<ge> length (ri_buffer it) then None
      else let word = ri_buffer it ! ri_pointer it
           in Some (it\<lparr>ri_pointer := ri_pointer it + unat (rlw_get_literal_words word) + 1,
                       ri_literal_words := to_int (uint (rlw_get_literal_words word)),
                       ri_running_len := to_int (uint (rlw_get_running_len word)),
                       ri_running_bit := rlw_get_run_bit word\<rparr>))"

text \<open>\<open>literal_word_offset\<close> is always 0 and is left out of the sums it appears in.\<close>

definition rlwit_init :: "ewah_bitmap \<Rightarrow> rlw_iterator" where
  "rlwit_init from_ewah =
     (let it = \<lparr>ri_buffer = ew_buffer from_ewah, ri_pointer = 0, ri_literal_word_start = 0,
                ri_literal_words = 0, ri_running_len = 0, ri_running_bit = False\<rparr>;
          it1 = (case next_word it of None \<Rightarrow> it | Some it1 \<Rightarrow> it1)
      in it1\<lparr>ri_literal_word_start := rlwit_literal_words it1\<rparr>)"

definition rlwit_discard_step :: "rlw_iterator \<Rightarrow> nat \<Rightarrow> rlw_iterator \<times> nat" where
  "rlwit_discard_step it x =
     (let x1 = x - to_size (ri_running_len it);
          discard = (if x1 > to_size (ri_literal_words it) then to_size (ri_literal_words it) else x1)
      in (it\<lparr>ri_running_len := 0,
             ri_literal_word_start := ri_literal_word_start it + discard,
             ri_literal_words := to_int (ri_literal_words it - int discard)\<rparr>, x1 - discard))"

lemma next_word_progress:
  "next_word it = Some it' \<Longrightarrow> ri_buffer it' = ri_buffer it \<and> ri_pointer it < length (ri_buffer it) \<and> ri_pointer it < ri_pointer it'"
  by (auto simp: next_word_def Let_def split: if_splits)

lemma discard_step_same: "rlwit_discard_step it x = (it', x') \<Longrightarrow> ri_buffer it' = ri_buffer it \<and> ri_pointer it' = ri_pointer it"
  by (auto simp: rlwit_discard_step_def Let_def)

function rlwit_discard_first_words :: "rlw_iterator \<Rightarrow> nat \<Rightarrow> rlw_iterator" where
  "rlwit_discard_first_words it x =
     (if x = 0 then it
      else if to_size (ri_running_len it) > x
      then it\<lparr>ri_running_len := to_int (ri_running_len it - int x)\<rparr>
      else case rlwit_discard_step it x of
        (it1, x1) \<Rightarrow>
          if x1 > 0 \<or> rlwit_word_size it1 = 0 then
            (case next_word it1 of
               None \<Rightarrow> it1
             | Some it2 \<Rightarrow>
                 rlwit_discard_first_words (it2\<lparr>ri_literal_word_start := rlwit_literal_words it2\<rparr>) x1)
          else it1)"
  by pat_completeness auto
termination
  by (relation "measure (\<lambda>(it, x). length (ri_buffer it) - ri_pointer it)")
    (auto dest!: next_word_progress discard_step_same [OF sym])

declare rlwit_discard_first_words.simps [simp del]

text \<open>The iterator, the output and the number of words written.\<close>

partial_function (option) rlwit_discharge_loop ::
    "rlw_iterator \<Rightarrow> ewah_bitmap \<Rightarrow> nat \<Rightarrow> bool \<Rightarrow> nat \<Rightarrow> (rlw_iterator \<times> ewah_bitmap \<times> nat) option" where
  "rlwit_discharge_loop it out mx negate index =
     (if index < mx \<and> rlwit_word_size it > 0 then
        (let pl = min (to_size (ri_running_len it)) (mx - index);
             index1 = index + pl;
             pd = min (to_size (ri_literal_words it)) (mx - index1)
         in case ewah_add_empty_words out (ri_running_bit it \<noteq> negate) pl of
              None \<Rightarrow> None
            | Some (out1, _) \<Rightarrow>
                (case ewah_add_dirty_words out1 (drop (ri_literal_word_start it) (ri_buffer it)) pd negate of
                   None \<Rightarrow> None
                 | Some out2 \<Rightarrow>
                     rlwit_discharge_loop (rlwit_discard_first_words it (pd + pl)) out2 mx negate (index1 + pd)))
      else Some (it, out, index))"

declare rlwit_discharge_loop.simps [code]

definition rlwit_discharge ::
    "rlw_iterator \<Rightarrow> ewah_bitmap \<Rightarrow> nat \<Rightarrow> bool \<Rightarrow> (rlw_iterator \<times> ewah_bitmap \<times> nat) option" where
  "rlwit_discharge it out mx negate = rlwit_discharge_loop it out mx negate 0"

partial_function (option) rlwit_discharge_empty ::
    "rlw_iterator \<Rightarrow> ewah_bitmap \<Rightarrow> (rlw_iterator \<times> ewah_bitmap) option" where
  "rlwit_discharge_empty it out =
     (if rlwit_word_size it > 0 then
        (case ewah_add_empty_words out False (rlwit_word_size it) of
           None \<Rightarrow> None
         | Some (out1, _) \<Rightarrow> rlwit_discharge_empty (rlwit_discard_first_words it (rlwit_word_size it)) out1)
      else Some (it, out))"

declare rlwit_discharge_empty.simps [code]

subsection \<open>The binary operations\<close>

text \<open>
  The four operations share their loops and differ in three places.  With the run of the
  predator they either write equal words and skip the prey (\<open>Skip v\<close>), or copy or negate the
  prey and fill up where it ends (\<open>Copy negate\<close>); they combine literals with a word operation;
  and what is left of one input is discharged, or written as zeros.
\<close>

datatype run_action = Skip bool | Copy bool
datatype rest_action = Discharge | Discharge_Empty

fun ewah_run_action ::
    "run_action \<Rightarrow> rlw_iterator \<Rightarrow> rlw_iterator \<Rightarrow> ewah_bitmap \<Rightarrow> (rlw_iterator \<times> rlw_iterator \<times> ewah_bitmap) option" where
  "ewah_run_action (Skip v) prey predator out =
     (let n = to_size (ri_running_len predator) in do {
        (out1, _) \<leftarrow> ewah_add_empty_words out v n;
        Some (rlwit_discard_first_words prey n, rlwit_discard_first_words predator n, out1)
      })"
| "ewah_run_action (Copy negate) prey predator out =
     (let n = to_size (ri_running_len predator) in do {
        (prey1, out1, index) \<leftarrow> rlwit_discharge prey out n negate;
        (out2, _) \<leftarrow> ewah_add_empty_words out1 negate (n - index);
        Some (prey1, rlwit_discard_first_words predator n, out2)
      })"

text \<open>The inner loop; \<open>act\<close> gets whether the prey is the first input, and the bit of the predator.\<close>

partial_function (option) ewah_run_loop ::
    "(bool \<Rightarrow> bool \<Rightarrow> run_action) \<Rightarrow> rlw_iterator \<Rightarrow> rlw_iterator \<Rightarrow> ewah_bitmap \<Rightarrow>
       (rlw_iterator \<times> rlw_iterator \<times> ewah_bitmap) option" where
  "ewah_run_loop act i j out =
     (if ri_running_len i > 0 \<or> ri_running_len j > 0 then
        (if ri_running_len i < ri_running_len j then
           (case ewah_run_action (act True (ri_running_bit j)) i j out of
              None \<Rightarrow> None
            | Some (i1, j1, out1) \<Rightarrow> ewah_run_loop act i1 j1 out1)
         else
           (case ewah_run_action (act False (ri_running_bit i)) j i out of
              None \<Rightarrow> None
            | Some (j1, i1, out1) \<Rightarrow> ewah_run_loop act i1 j1 out1))
      else Some (i, j, out))"

declare ewah_run_loop.simps [code]

primrec add_literals :: "(eword \<Rightarrow> eword \<Rightarrow> eword) \<Rightarrow> eword list \<Rightarrow> nat \<Rightarrow> eword list \<Rightarrow> nat \<Rightarrow> nat \<Rightarrow>
    ewah_bitmap \<Rightarrow> ewah_bitmap option" where
  "add_literals f bi si bj sj 0 out = Some out"
| "add_literals f bi si bj sj (Suc n) out =
     (if length bi \<le> si \<or> length bj \<le> sj then None
      else case ewah_add out (f (bi ! si) (bj ! sj)) of
        None \<Rightarrow> None
      | Some (out1, _) \<Rightarrow> add_literals f bi (si + 1) bj (sj + 1) n out1)"

partial_function (option) ewah_merge_loop ::
    "(bool \<Rightarrow> bool \<Rightarrow> run_action) \<Rightarrow> (eword \<Rightarrow> eword \<Rightarrow> eword) \<Rightarrow> rlw_iterator \<Rightarrow> rlw_iterator \<Rightarrow> ewah_bitmap \<Rightarrow>
       (rlw_iterator \<times> rlw_iterator \<times> ewah_bitmap) option" where
  "ewah_merge_loop act f i j out =
     (if rlwit_word_size i > 0 \<and> rlwit_word_size j > 0 then
        (case ewah_run_loop act i j out of
           None \<Rightarrow> None
         | Some (i1, j1, out1) \<Rightarrow>
             let literals = min (to_size (ri_literal_words i1)) (to_size (ri_literal_words j1))
             in if literals \<noteq> 0 then
                  (case add_literals f (ri_buffer i1) (ri_literal_word_start i1)
                          (ri_buffer j1) (ri_literal_word_start j1) literals out1 of
                     None \<Rightarrow> None
                   | Some out2 \<Rightarrow>
                       ewah_merge_loop act f (rlwit_discard_first_words i1 literals)
                         (rlwit_discard_first_words j1 literals) out2)
                else ewah_merge_loop act f i1 j1 out1)
      else Some (i, j, out))"

declare ewah_merge_loop.simps [code]

fun rest_output :: "rest_action \<Rightarrow> rlw_iterator \<Rightarrow> ewah_bitmap \<Rightarrow> ewah_bitmap option" where
  "rest_output Discharge it out = map_option (\<lambda>(it1, out1, index). out1) (rlwit_discharge it out (2 ^ 64 - 1) False)"
| "rest_output Discharge_Empty it out = map_option snd (rlwit_discharge_empty it out)"

definition ewah_merge ::
    "(bool \<Rightarrow> bool \<Rightarrow> run_action) \<Rightarrow> (eword \<Rightarrow> eword \<Rightarrow> eword) \<Rightarrow> rest_action \<Rightarrow> rest_action \<Rightarrow>
       ewah_bitmap \<Rightarrow> ewah_bitmap \<Rightarrow> ewah_bitmap \<Rightarrow> ewah_bitmap option" where
  "ewah_merge act f rest_i rest_j ewah_i ewah_j out =
     do {
       (i, j, out1) \<leftarrow> ewah_merge_loop act f (rlwit_init ewah_i) (rlwit_init ewah_j) out;
       out2 \<leftarrow> (if rlwit_word_size i > 0 then rest_output rest_i i out1 else rest_output rest_j j out1);
       Some (out2\<lparr>ew_bits := max (ew_bits ewah_i) (ew_bits ewah_j)\<rparr>)
     }"

definition ewah_xor :: "ewah_bitmap \<Rightarrow> ewah_bitmap \<Rightarrow> ewah_bitmap \<Rightarrow> ewah_bitmap option" where
  "ewah_xor = ewah_merge (\<lambda>prey_i bit. Copy bit) (XOR) Discharge Discharge"

definition ewah_and :: "ewah_bitmap \<Rightarrow> ewah_bitmap \<Rightarrow> ewah_bitmap \<Rightarrow> ewah_bitmap option" where
  "ewah_and = ewah_merge (\<lambda>prey_i bit. if \<not> bit then Skip False else Copy False) (AND)
     Discharge_Empty Discharge_Empty"

definition ewah_and_not :: "ewah_bitmap \<Rightarrow> ewah_bitmap \<Rightarrow> ewah_bitmap \<Rightarrow> ewah_bitmap option" where
  "ewah_and_not =
     ewah_merge (\<lambda>prey_i bit. if bit \<and> prey_i \<or> \<not> bit \<and> \<not> prey_i then Skip False else Copy (\<not> prey_i))
       (\<lambda>x y. x AND NOT y) Discharge Discharge_Empty"

definition ewah_or :: "ewah_bitmap \<Rightarrow> ewah_bitmap \<Rightarrow> ewah_bitmap \<Rightarrow> ewah_bitmap option" where
  "ewah_or = ewah_merge (\<lambda>prey_i bit. if bit then Skip False else Copy False) (OR) Discharge Discharge"

end
