(* ===== verification/Git_Ewah_Merge.thy ===== *)
theory Git_Ewah_Merge
  imports Git_Ewah_Ops
begin

text \<open>
  The binary operations on compressed bitmaps: the running length iterator represents the words
  still to be read, and the merge writes the words combined position by position, the shorter
  input padded with zeros.
\<close>

subsection \<open>The running length iterator\<close>

lemma to_int_small: "0 \<le> x \<Longrightarrow> x < 2 ^ 31 \<Longrightarrow> to_int x = x"
  unfolding to_int_def by (rule signed_take_bit_int_eq_self) simp_all

lemma to_size_small: "0 \<le> x \<Longrightarrow> x < 2 ^ 32 \<Longrightarrow> to_size x = nat x"
  by (simp add: to_size_def)

definition ri_rep :: "rlw_iterator \<Rightarrow> bool \<Rightarrow> nat \<Rightarrow> eword list \<Rightarrow> block list \<Rightarrow> bool" where
  "ri_rep it b r ls cs \<longleftrightarrow>
     ri_running_bit it = b \<and> ri_running_len it = int r \<and> ri_literal_words it = int (length ls) \<and>
     ri_literal_word_start it + length ls = ri_pointer it \<and> ri_pointer it \<le> length (ri_buffer it) \<and>
     length (ri_buffer it) < 2 ^ 32 \<and>
     take (length ls) (drop (ri_literal_word_start it) (ri_buffer it)) = ls \<and>
     drop (ri_pointer it) (ri_buffer it) = enc_blocks cs \<and>
     r + length ls + length (words_of cs) < 2 ^ 31 \<and> (\<forall>c\<in>set cs. block_ok c \<and> block_words c \<noteq> [])"

definition ri_holds :: "rlw_iterator \<Rightarrow> eword list \<Rightarrow> bool" where
  "ri_holds it ws \<longleftrightarrow> (\<exists>b r ls cs. ri_rep it b r ls cs \<and> ws = replicate r (fill b) @ ls @ words_of cs \<and>
     (r = 0 \<and> ls = [] \<longrightarrow> cs = []))"

lemma ri_sizes:
  assumes "ri_rep it b r ls cs"
  shows "to_size (ri_running_len it) = r" "to_size (ri_literal_words it) = length ls"
    "rlwit_word_size it = r + length ls" "ri_running_len it = int r" "ri_literal_words it = int (length ls)"
proof -
  show "to_size (ri_running_len it) = r" "to_size (ri_literal_words it) = length ls"
    using assms by (auto simp: ri_rep_def to_size_small)
  have "nat (int r + int (length ls)) = r + length ls"
    by simp
  then show "rlwit_word_size it = r + length ls"
    using assms by (auto simp: ri_rep_def rlwit_word_size_def to_size_small)
  show "ri_running_len it = int r" "ri_literal_words it = int (length ls)"
    using assms by (simp_all add: ri_rep_def)
qed

lemma ri_holds_size: "ri_holds it ws \<Longrightarrow> rlwit_word_size it > 0 \<longleftrightarrow> ws \<noteq> []"
  by (auto simp: ri_holds_def ri_sizes(3))

lemma next_word_rep:
  assumes "drop (ri_pointer it) (ri_buffer it) = enc_blocks ((b, r, ls) # cs)"
    and "\<forall>c\<in>set ((b, r, ls) # cs). block_ok c"
    and "\<forall>c\<in>set cs. block_words c \<noteq> []"
    and "length (words_of ((b, r, ls) # cs)) < 2 ^ 31" and "length (ri_buffer it) < 2 ^ 32"
  obtains it' where "next_word it = Some it'" "ri_rep (it'\<lparr>ri_literal_word_start := rlwit_literal_words it'\<rparr>) b r ls cs"
proof -
  have p: "ri_pointer it < length (ri_buffer it)"
    using assms(1) by (metis enc_blocks_simps(2) enc_block.simps append_Cons drop_eq_Nil list.distinct(1) not_le)
  have w: "ri_buffer it ! ri_pointer it = mk_rlw b r (length ls)"
    using assms(1) p by (metis Cons_nth_drop_Suc append_Cons enc_block.simps enc_blocks_simps(2) list.inject)
  have rest: "drop (ri_pointer it + 1) (ri_buffer it) = ls @ enc_blocks cs"
    using assms(1) p by (metis Cons_nth_drop_Suc Suc_eq_plus1 append_Cons enc_block.simps enc_blocks_simps(2) list.inject)
  have ok: "r \<le> max_run" "length ls \<le> max_lits"
    using assms(2) by simp_all
  have small: "r + length ls + length (words_of cs) < 2 ^ 31"
    using assms(4) by (simp add: block_words.simps)
  let ?it = "it\<lparr>ri_pointer := ri_pointer it + length ls + 1, ri_literal_words := int (length ls),
    ri_running_len := int r, ri_running_bit := b\<rparr>"
  have u: "uint (of_nat (length ls) :: eword) = int (length ls)" "uint (of_nat r :: eword) = int r"
    using unat_lits [OF ok(2)] unat_run [OF ok(1)] by (metis uint_nat)+
  have "to_int (int (length ls)) = int (length ls)" "to_int (int r) = int r"
    using small by (simp_all add: to_int_small)
  then have "next_word it = Some ?it"
    using p w ok by (simp add: next_word_def Let_def u)
  moreover have "ri_rep (?it\<lparr>ri_literal_word_start := rlwit_literal_words ?it\<rparr>) b r ls cs"
  proof -
    have "length (drop (ri_pointer it + 1) (ri_buffer it)) = length ls + length (enc_blocks cs)"
      by (simp only: rest length_append)
    then have le: "ri_pointer it + 1 + length ls \<le> length (ri_buffer it)"
      using p by simp
    have "drop (ri_pointer it + 1 + length ls) (ri_buffer it) = enc_blocks cs"
      using rest by (metis add.commute append_eq_conv_conj drop_drop)
    moreover have "rlwit_literal_words ?it = ri_pointer it + 1"
    proof -
      have "nat (int (ri_pointer it + length ls + 1) - int (length ls)) = ri_pointer it + 1"
        by simp
      then show ?thesis
        using p assms(5) by (simp add: rlwit_literal_words_def to_size_small)
    qed
    ultimately show ?thesis
      using le small assms(2,3,5) rest by (simp add: ri_rep_def add.commute add.left_commute)
  qed
  ultimately show ?thesis
    by (rule that)
qed

lemma next_word_end: "ri_rep it b r ls [] \<Longrightarrow> next_word it = None"
  by (simp add: ri_rep_def next_word_def)

lemma next_word_ri:
  assumes "ri_rep it b r ls ((b', r', ls') # cs)"
  obtains it' where "next_word it = Some it'" "ri_rep (it'\<lparr>ri_literal_word_start := rlwit_literal_words it'\<rparr>) b' r' ls' cs"
  using next_word_rep [of it b' r' ls' cs] assms by (auto simp: ri_rep_def)

lemma enc_words_length:
  "\<forall>c\<in>set cs. block_words c \<noteq> [] \<Longrightarrow> length (enc_blocks cs) \<le> 2 * length (words_of cs)"
proof (induction cs)
  case (Cons c cs)
  obtain b r ls where c: "c = (b, r, ls)"
    by (cases c)
  have "r + length ls \<noteq> 0"
    using Cons.prems c by auto
  then show ?case
    using Cons c by (cases ls) (auto simp: block_words.simps)
qed simp

lemma rlwit_init_holds:
  assumes "ewah_holds e ws" and "length ws < 2 ^ 31"
  shows "ri_holds (rlwit_init e) ws"
proof -
  obtain bs l where rep: "ewah_rep e bs l" "solid bs l" "words_of (bs @ [l]) = ws"
    using assms(1) unfolding ewah_holds_def by blast
  obtain b r ls cs where cs: "bs @ [l] = (b, r, ls) # cs"
    by (metis list.exhaust prod_cases3 snoc_eq_iff_butlast)
  have buf: "ew_buffer e = enc_blocks ((b, r, ls) # cs)"
    using rep(1) unfolding cs [symmetric] by (simp add: ewah_rep_def)
  have ne: "\<forall>c\<in>set cs. block_words c \<noteq> []" "r = 0 \<and> ls = [] \<longrightarrow> cs = []"
    using cs rep(2) by (cases bs; auto simp: solid_def)+
  have ok: "\<forall>c\<in>set ((b, r, ls) # cs). block_ok c"
    using rep(1) unfolding cs [symmetric] by (auto simp: ewah_rep_def)
  have "length (enc_blocks cs) \<le> 2 * length (words_of cs)"
    by (rule enc_words_length [OF ne(1)])
  then have "length (ew_buffer e) \<le> 2 * length ws + 1"
    unfolding buf rep(3) [symmetric] cs by (simp add: block_words.simps)
  then have len: "length (ew_buffer e) < 2 ^ 32"
    using assms(2) by simp
  let ?it = "\<lparr>ri_buffer = ew_buffer e, ri_pointer = 0, ri_literal_word_start = 0,
                ri_literal_words = 0, ri_running_len = 0, ri_running_bit = False\<rparr>"
  obtain it' where it': "next_word ?it = Some it'" "ri_rep (it'\<lparr>ri_literal_word_start := rlwit_literal_words it'\<rparr>) b r ls cs"
    by (rule next_word_rep [of ?it b r ls cs]) (use buf ok ne(1) assms(2) rep(3) cs len in \<open>auto simp: rep(3) [symmetric]\<close>)
  moreover have "rlwit_init e = it'\<lparr>ri_literal_word_start := rlwit_literal_words it'\<rparr>"
    using it'(1) by (simp add: rlwit_init_def)
  moreover have "ws = replicate r (fill b) @ ls @ words_of cs"
    using rep(3) unfolding cs by (simp add: block_words.simps)
  ultimately show ?thesis
    using ne(2) unfolding ri_holds_def by (metis (no_types, lifting))
qed


subsection \<open>Discarding words\<close>

lemma ri_repI_bounds:
  "ri_rep it b r ls cs \<Longrightarrow> r < 2 ^ 31 \<and> length ls < 2 ^ 31"
  by (simp add: ri_rep_def)

lemma discard_step_rep:
  assumes "ri_rep it b r ls cs" and "r \<le> x"
  shows "\<exists>it1. rlwit_discard_step it x = (it1, (x - r) - min (x - r) (length ls)) \<and>
    ri_rep it1 b 0 (drop (x - r) ls) cs"
proof -
  let ?d = "min (x - r) (length ls)"
  have "int (length ls) - int ?d = int (length (drop (x - r) ls))"
    by simp
  moreover have "to_int (int (length (drop (x - r) ls))) = int (length (drop (x - r) ls))"
    using ri_repI_bounds [OF assms(1)] by (intro to_int_small) auto
  ultimately have lw: "to_int (int (length ls) - int ?d) = int (length (drop (x - r) ls))"
    by (simp only:)
  have d: "(if x - r > length ls then length ls else x - r) = ?d"
    by simp
  have take_drop: "take (length ls - (x - r)) (drop (ri_literal_word_start it + ?d) (ri_buffer it)) = drop (x - r) ls"
  proof -
    have "take (length ls) (drop (ri_literal_word_start it) (ri_buffer it)) = ls"
      using assms(1) by (simp add: ri_rep_def)
    then have "drop (x - r) ls = drop (x - r) (take (length ls) (drop (ri_literal_word_start it) (ri_buffer it)))"
      by (simp only:)
    also have "\<dots> = take (length ls - (x - r)) (drop (x - r) (drop (ri_literal_word_start it) (ri_buffer it)))"
      by (rule drop_take)
    finally show ?thesis
      by (cases "x - r \<le> length ls") (simp_all add: add.commute min_def)
  qed
  let ?it = "it\<lparr>ri_running_len := 0, ri_literal_word_start := ri_literal_word_start it + ?d,
    ri_literal_words := int (length (drop (x - r) ls))\<rparr>"
  have "rlwit_discard_step it x = (?it, x - r - ?d)"
    unfolding rlwit_discard_step_def Let_def
    unfolding ri_sizes(1,2) [OF assms(1)] unfolding ri_sizes(5) [OF assms(1)] d lw ..
  moreover have "ri_rep ?it b 0 (drop (x - r) ls) cs"
    using assms(1) take_drop by (auto simp: ri_rep_def)
  ultimately show ?thesis
    by blast
qed

lemma discard_first_words_holds:
  "ri_holds it ws \<Longrightarrow> ri_holds (rlwit_discard_first_words it x) (drop x ws)"
proof (induction it x arbitrary: ws rule: rlwit_discard_first_words.induct)
  case (1 it x)
  obtain b r ls cs where rep: "ri_rep it b r ls cs" and ws: "ws = replicate r (fill b) @ ls @ words_of cs"
    and cs: "r = 0 \<and> ls = [] \<longrightarrow> cs = []"
    using "1.prems" unfolding ri_holds_def by blast
  note sizes = ri_sizes [OF rep]
  show ?case
  proof (cases "x = 0 \<or> r > x")
    case True
    show ?thesis
    proof (cases "x = 0")
      case False
      then have "to_int (int r - int x) = int (r - x)"
        using True ri_repI_bounds [OF rep] to_int_small [of "int (r - x)"] by (simp add: of_nat_diff)
      then have "ri_rep (rlwit_discard_first_words it x) b (r - x) ls cs"
        using False True rep sizes by (subst rlwit_discard_first_words.simps) (auto simp: ri_rep_def)
      moreover have "drop x ws = replicate (r - x) (fill b) @ ls @ words_of cs"
        using True False by (simp add: ws)
      ultimately show ?thesis
        using True False cs unfolding ri_holds_def by fastforce
    qed (use "1.prems" in \<open>simp add: rlwit_discard_first_words.simps\<close>)
  next
    case False
    then obtain it1 where it1: "rlwit_discard_step it x = (it1, (x - r) - min (x - r) (length ls))"
      "ri_rep it1 b 0 (drop (x - r) ls) cs"
      using discard_step_rep [OF rep, of x] by auto
    define x1 where "x1 = (x - r) - min (x - r) (length ls)"
    have d: "drop x ws = drop (x - r) ls @ drop x1 (words_of cs)"
      using False by (simp add: ws x1_def min_def not_less)
    have step: "rlwit_discard_first_words it x = (if x1 > 0 \<or> rlwit_word_size it1 = 0 then
            (case next_word it1 of
               None \<Rightarrow> it1
             | Some it2 \<Rightarrow>
                 rlwit_discard_first_words (it2\<lparr>ri_literal_word_start := rlwit_literal_words it2\<rparr>) x1)
          else it1)"
      using False it1(1) [folded x1_def] sizes(1) by (subst rlwit_discard_first_words.simps) simp
    show ?thesis
    proof (cases "x1 > 0 \<or> rlwit_word_size it1 = 0")
      case more: True
      then have none: "drop (x - r) ls = []"
        using ri_sizes(3) [OF it1(2)] by (auto simp: x1_def)
      show ?thesis
      proof (cases cs)
        case Nil
        then show ?thesis
          using step next_word_end [of it1] it1(2) d none more unfolding ri_holds_def by fastforce
      next
        case (Cons c cs')
        obtain b' r' ls' where c: "c = (b', r', ls')"
          by (cases c)
        obtain it2 where it2: "next_word it1 = Some it2"
          "ri_rep (it2\<lparr>ri_literal_word_start := rlwit_literal_words it2\<rparr>) b' r' ls' cs'"
          using next_word_ri it1(2) unfolding Cons c by blast
        have "block_words c \<noteq> []"
          using rep Cons by (simp add: ri_rep_def)
        then have "ri_holds (it2\<lparr>ri_literal_word_start := rlwit_literal_words it2\<rparr>) (words_of cs)"
          using it2(2) unfolding ri_holds_def Cons c
          by (intro exI [of _ b'] exI [of _ r'] exI [of _ ls'] exI [of _ cs']) (auto simp: block_words.simps(1))
        then have "ri_holds (rlwit_discard_first_words (it2\<lparr>ri_literal_word_start := rlwit_literal_words it2\<rparr>) x1)
            (drop x1 (words_of cs))"
          using "1.IH" [OF _ _ it1(1) [folded x1_def, symmetric] more it2(1)] False sizes by auto
        then show ?thesis
          using step more it2(1) d none by simp
      qed
    next
      case enough: False
      then have "drop (x - r) ls \<noteq> []"
        using ri_sizes(3) [OF it1(2)] by auto
      then show ?thesis
        using step enough it1(2) d unfolding ri_holds_def by fastforce
    qed
  qed
qed


subsection \<open>Copying words to the output\<close>

text \<open>What a running length word and its literals give, read from the iterator.\<close>

lemma ri_holds_cur:
  assumes "ri_holds it ws" and "ws \<noteq> []"
  obtains b r ls rest where "to_size (ri_running_len it) = r" "to_size (ri_literal_words it) = length ls"
    "ri_running_bit it = b" "rlwit_word_size it = r + length ls" "0 < r + length ls"
    "take (length ls) (drop (ri_literal_word_start it) (ri_buffer it)) = ls"
    "ws = replicate r (fill b) @ ls @ rest" "ri_running_len it = int r"
proof -
  obtain b r ls cs where rep: "ri_rep it b r ls cs" and ws: "ws = replicate r (fill b) @ ls @ words_of cs"
    and cs: "r = 0 \<and> ls = [] \<longrightarrow> cs = []"
    using assms(1) unfolding ri_holds_def by blast
  have "0 < r + length ls"
    using assms(2) ws cs by (cases "r = 0 \<and> ls = []") auto
  moreover have "take (length ls) (drop (ri_literal_word_start it) (ri_buffer it)) = ls" "ri_running_bit it = b"
    using rep by (simp_all add: ri_rep_def)
  ultimately show ?thesis
    by (intro that [of r ls b "words_of cs"]) (use ri_sizes [OF rep] ws in simp_all)
qed

definition negated :: "bool \<Rightarrow> eword list \<Rightarrow> eword list" where
  "negated neg ws = (if neg then map NOT ws else ws)"

lemma negated_append [simp]: "negated neg (xs @ ys) = negated neg xs @ negated neg ys"
  and negated_Nil [simp]: "negated neg [] = []"
  and length_negated [simp]: "length (negated neg xs) = length xs"
  and negated_False [simp]: "negated False xs = xs"
  by (simp_all add: negated_def)

lemma negated_fill: "negated neg (replicate n (fill b)) = replicate n (fill (b \<noteq> neg))"
  by (cases b; cases neg) (simp_all add: negated_def fill_def)

lemma add_dirty_words_holds:
  assumes "ewah_holds e ws" and "n \<le> length buf"
  shows "\<exists>e'. ewah_add_dirty_words e buf n neg = Some e' \<and> ewah_holds e' (ws @ negated neg (take n buf)) \<and>
    ew_bits e' = ew_bits e + n * 64"
proof -
  obtain bs l where rep: "ewah_rep e bs l" "solid bs l" "words_of (bs @ [l]) = ws"
    using assms(1) unfolding ewah_holds_def by blast
  have "(\<forall>b\<in>set bs. block_words b \<noteq> []) \<and> (n \<noteq> 0 \<or> block_words l \<noteq> [] \<or> bs = [])"
    using rep(2) by (auto simp: solid_def)
  then show ?thesis
    using ewah_add_dirty_words_holds [OF rep(1) _ assms(2), of neg] unfolding rep(3) negated_def by blast
qed

lemma discharge_loop_holds:
  "ri_holds it ws \<Longrightarrow> ewah_holds out os \<Longrightarrow> index \<le> mx \<Longrightarrow>
    \<exists>it' out'. rlwit_discharge_loop it out mx neg index = Some (it', out', min mx (index + length ws)) \<and>
      ri_holds it' (drop (mx - index) ws) \<and> ewah_holds out' (os @ negated neg (take (mx - index) ws))"
proof (induction "length ws" arbitrary: it ws out os index rule: less_induct)
  case less
  show ?case
  proof (cases "index < mx \<and> ws \<noteq> []")
    case False
    then have "min mx (index + length ws) = index" "take (mx - index) ws = []" "drop (mx - index) ws = ws"
      using less.prems(3) by auto
    then show ?thesis
      using False less.prems ri_holds_size [OF less.prems(1)] by (subst rlwit_discharge_loop.simps) auto
  next
    case True
    then have ne: "ws \<noteq> []"
      by simp
    obtain b r ls rest where cur: "to_size (ri_running_len it) = r" "to_size (ri_literal_words it) = length ls"
      "ri_running_bit it = b" "rlwit_word_size it = r + length ls" "0 < r + length ls"
      "take (length ls) (drop (ri_literal_word_start it) (ri_buffer it)) = ls"
      "ws = replicate r (fill b) @ ls @ rest" "ri_running_len it = int r"
      by (rule ri_holds_cur [OF less.prems(1) ne])
    define pl where "pl = min r (mx - index)"
    define pd where "pd = min (length ls) (mx - (index + pl))"
    obtain o1 k1 where o1: "ewah_add_empty_words out (b \<noteq> neg) pl = Some (o1, k1)"
      "ewah_holds o1 (os @ replicate pl (fill (b \<noteq> neg)))"
      using ewah_add_empty_words_holds [OF less.prems(2)] by blast
    have "length ls \<le> length (drop (ri_literal_word_start it) (ri_buffer it))"
      using arg_cong [OF cur(6), of length] by simp
    then have len: "pd \<le> length (drop (ri_literal_word_start it) (ri_buffer it))"
      by (simp add: pd_def)
    have lits: "take pd (drop (ri_literal_word_start it) (ri_buffer it)) = take pd ls"
      by (subst cur(6) [symmetric]) (simp add: pd_def)
    obtain o2 where o2: "ewah_add_dirty_words o1 (drop (ri_literal_word_start it) (ri_buffer it)) pd neg = Some o2"
      "ewah_holds o2 ((os @ replicate pl (fill (b \<noteq> neg))) @ negated neg (take pd ls))"
      using add_dirty_words_holds [OF o1(2) len, of neg] unfolding lits by blast
    have tk: "take (pd + pl) ws = replicate pl (fill b) @ take pd ls"
    proof (cases "pl = r")
      case True
      then show ?thesis
        by (simp add: cur(7) pd_def)
    next
      case False
      then have "pl = mx - index" "pl < r"
        by (simp_all add: pl_def min_def split: if_splits)
      then show ?thesis
        using True by (simp add: cur(7) pd_def)
    qed
    have pos: "0 < pd + pl"
      using True cur(5) by (auto simp: pd_def pl_def min_def)
    have ple: "pd + pl \<le> mx - index" "pd + pl \<le> length ws"
      by (auto simp: pd_def pl_def cur(7))
    have ih: "\<exists>it' out'. rlwit_discharge_loop (rlwit_discard_first_words it (pd + pl)) o2 mx neg (index + (pd + pl)) =
          Some (it', out', min mx (index + (pd + pl) + length (drop (pd + pl) ws))) \<and>
        ri_holds it' (drop (mx - (index + (pd + pl))) (drop (pd + pl) ws)) \<and>
        ewah_holds out' ((os @ negated neg (take (pd + pl) ws)) @
          negated neg (take (mx - (index + (pd + pl))) (drop (pd + pl) ws)))"
    proof (rule less.hyps)
      show "length (drop (pd + pl) ws) < length ws"
        using True pos by simp
      show "ri_holds (rlwit_discard_first_words it (pd + pl)) (drop (pd + pl) ws)"
        by (rule discard_first_words_holds [OF less.prems(1)])
      show "ewah_holds o2 (os @ negated neg (take (pd + pl) ws))"
        using o2(2) by (simp add: tk negated_fill)
      show "index + (pd + pl) \<le> mx"
        using ple(1) True by linarith
    qed
    have step: "rlwit_discharge_loop it out mx neg index =
        rlwit_discharge_loop (rlwit_discard_first_words it (pd + pl)) o2 mx neg (index + (pd + pl))"
      using True cur(1-5) o1(1) o2(1)
      by (subst rlwit_discharge_loop.simps) (simp add: pl_def [symmetric] pd_def [symmetric] Let_def add_ac)
    have split: "mx - index = (pd + pl) + (mx - (index + (pd + pl)))"
      using ple by linarith
    have "drop (mx - (index + (pd + pl))) (drop (pd + pl) ws) = drop (mx - index) ws"
      by (subst split) (simp add: add.commute)
    moreover have "take (pd + pl) ws @ take (mx - (index + (pd + pl))) (drop (pd + pl) ws) = take (mx - index) ws"
      by (subst split) (rule take_add [symmetric])
    moreover have "index + (pd + pl) + length (drop (pd + pl) ws) = index + length ws"
      using ple by simp
    ultimately show ?thesis
      using ih unfolding step by (metis append.assoc negated_append)
  qed
qed

lemma discharge_holds:
  assumes "ri_holds it ws" and "ewah_holds out os"
  obtains it' out' where "rlwit_discharge it out mx neg = Some (it', out', min mx (length ws))"
    "ri_holds it' (drop mx ws)" "ewah_holds out' (os @ negated neg (take mx ws))"
  using discharge_loop_holds [OF assms, of 0 mx neg] by (auto simp: rlwit_discharge_def)

lemma discharge_empty_holds:
  "ri_holds it ws \<Longrightarrow> ewah_holds out os \<Longrightarrow>
    \<exists>it' out'. rlwit_discharge_empty it out = Some (it', out') \<and> ewah_holds out' (os @ replicate (length ws) 0)"
proof (induction "length ws" arbitrary: it ws out os rule: less_induct)
  case less
  show ?case
  proof (cases "ws = []")
    case True
    then show ?thesis
      using less.prems ri_holds_size [OF less.prems(1)] by (subst rlwit_discharge_empty.simps) auto
  next
    case False
    obtain b r ls rest where "to_size (ri_running_len it) = r" "to_size (ri_literal_words it) = length ls"
      "ri_running_bit it = b" and cur: "rlwit_word_size it = r + length ls" "0 < r + length ls"
      and "take (length ls) (drop (ri_literal_word_start it) (ri_buffer it)) = ls"
      and ws: "ws = replicate r (fill b) @ ls @ rest" and "ri_running_len it = int r"
      by (rule ri_holds_cur [OF less.prems(1) False])
    define n where "n = rlwit_word_size it"
    obtain o1 k1 where o1: "ewah_add_empty_words out False n = Some (o1, k1)" "ewah_holds o1 (os @ replicate n 0)"
      using ewah_add_empty_words_holds [OF less.prems(2), of False n] by (auto simp: fill_def)
    have n: "0 < n" "n \<le> length ws"
      using cur ws by (simp_all add: n_def)
    have "\<exists>it' out'. rlwit_discharge_empty (rlwit_discard_first_words it n) o1 = Some (it', out') \<and>
        ewah_holds out' ((os @ replicate n 0) @ replicate (length (drop n ws)) 0)"
      using n False by (intro less.hyps discard_first_words_holds [OF less.prems(1)] o1(2)) simp
    moreover have "replicate n 0 @ replicate (length (drop n ws)) 0 = replicate (length ws) (0 :: eword)"
      using n by (simp flip: replicate_add)
    ultimately show ?thesis
      using n(1) o1(1) by (subst rlwit_discharge_empty.simps) (simp add: n_def [symmetric])
  qed
qed


subsection \<open>Combining two inputs\<close>

definition nth0 :: "eword list \<Rightarrow> nat \<Rightarrow> eword" where
  "nth0 xs k = (if k < length xs then xs ! k else 0)"

definition zip_words :: "(eword \<Rightarrow> eword \<Rightarrow> eword) \<Rightarrow> eword list \<Rightarrow> eword list \<Rightarrow> nat \<Rightarrow> eword list" where
  "zip_words f xs ys n = map (\<lambda>k. f (nth0 xs k) (nth0 ys k)) [0..<n]"

lemma nth0_drop [simp]: "nth0 (drop m xs) k = nth0 xs (m + k)"
  by (auto simp: nth0_def)

lemma zip_words_add: "zip_words f xs ys (m + n) = zip_words f xs ys m @ zip_words f (drop m xs) (drop m ys) n"
proof -
  have "[m..<m + n] = map (\<lambda>k. m + k) [0..<n]"
    by (simp add: map_add_upt add.commute)
  then have "map g [m..<m + n] = map (\<lambda>k. g (m + k)) [0..<n]" for g :: "nat \<Rightarrow> eword"
    by simp
  then show ?thesis
    unfolding zip_words_def by (simp add: upt_add_eq_append [of 0 m n])
qed

lemma zip_words_0 [simp]: "zip_words f xs ys 0 = []"
  by (simp add: zip_words_def)

lemma zip_words_swap: "zip_words f xs ys n = zip_words (\<lambda>x y. f y x) ys xs n"
  by (simp add: zip_words_def)

lemma nth0_take: "map (nth0 xs) [0..<n] = take n xs @ replicate (n - length xs) 0"
  by (rule nth_equalityI) (auto simp: nth0_def nth_append)

lemma nth0_run: "n \<le> r \<Longrightarrow> k < n \<Longrightarrow> nth0 (replicate r v @ rest) k = v"
  by (simp add: nth0_def nth_append)

text \<open>
  Acting on a run of the predator is right for \<open>g\<close>, the operation with the predator's word fixed.
\<close>

fun act_fits :: "run_action \<Rightarrow> (eword \<Rightarrow> eword) \<Rightarrow> bool" where
  "act_fits (Skip v) g \<longleftrightarrow> (\<forall>w. g w = fill v)"
| "act_fits (Copy neg) g \<longleftrightarrow> (\<forall>w. g w = (if neg then NOT w else w))"

lemma negated_map: "negated neg xs = map (\<lambda>w. if neg then NOT w else w) xs"
  by (simp add: negated_def)

lemma run_action_holds:
  assumes "ri_holds prey ps" and "ri_holds pred ds" and "ewah_holds out os"
    and "to_size (ri_running_len pred) = n" and "n \<le> length ds"
    and "act_fits act g"
  shows "\<exists>prey' pred' out'. ewah_run_action act prey pred out = Some (prey', pred', out') \<and>
    ri_holds prey' (drop n ps) \<and> ri_holds pred' (drop n ds) \<and>
    ewah_holds out' (os @ map g (map (nth0 ps) [0..<n]))"
proof (cases act)
  case (Skip v)
  have "map g (map (nth0 ps) [0..<n]) = replicate n (fill v)"
    using assms(6) Skip by (intro nth_equalityI) auto
  then show ?thesis
    using Skip assms(4) ewah_add_empty_words_holds [OF assms(3), of v n]
      discard_first_words_holds [OF assms(1), of n] discard_first_words_holds [OF assms(2), of n]
    by (auto simp: Let_def)
next
  case (Copy neg)
  obtain prey1 o1 where o1: "rlwit_discharge prey out n neg = Some (prey1, o1, min n (length ps))"
    "ri_holds prey1 (drop n ps)" "ewah_holds o1 (os @ negated neg (take n ps))"
    by (rule discharge_holds [OF assms(1,3)])
  obtain o2 k2 where o2: "ewah_add_empty_words o1 neg (n - min n (length ps)) = Some (o2, k2)"
    "ewah_holds o2 ((os @ negated neg (take n ps)) @ replicate (n - min n (length ps)) (fill neg))"
    using ewah_add_empty_words_holds [OF o1(3)] by blast
  have "map g (map (nth0 ps) [0..<n]) = negated neg (map (nth0 ps) [0..<n])"
    using assms(6) Copy by (simp add: negated_map)
  also have "\<dots> = negated neg (take n ps) @ replicate (n - min n (length ps)) (fill neg)"
    using negated_fill [of neg "n - length ps" False]
    by (simp add: nth0_take fill_def min_def)
  finally show ?thesis
    using Copy assms(4) o1(1,2) o2 discard_first_words_holds [OF assms(2), of n] by (auto simp: Let_def)
qed


lemma run_front:
  assumes "ri_holds it ws" and "to_size (ri_running_len it) = n" and "k < n"
  shows "nth0 ws k = fill (ri_running_bit it)" and "n \<le> length ws"
proof -
  obtain b r ls cs where rep: "ri_rep it b r ls cs" and ws: "ws = replicate r (fill b) @ ls @ words_of cs"
    using assms(1) unfolding ri_holds_def by blast
  then have "r = n" "ri_running_bit it = b"
    using assms(2) ri_sizes(1) [OF rep] by (auto simp: ri_rep_def)
  then show "nth0 ws k = fill (ri_running_bit it)" "n \<le> length ws"
    using ws assms(3) nth0_run [of n n k] by simp_all
qed

lemma run_len_pos: "ri_holds it ws \<Longrightarrow> ri_running_len it = int (to_size (ri_running_len it))"
  using ri_sizes(1,4) unfolding ri_holds_def by metis

text \<open>
  \<open>f\<close> is combined correctly by the actions for runs of the bits in \<open>ok\<close>.
\<close>

definition acts_fit :: "(bool \<Rightarrow> bool \<Rightarrow> run_action) \<Rightarrow> (eword \<Rightarrow> eword \<Rightarrow> eword) \<Rightarrow> bool \<Rightarrow> bool" where
  "acts_fit act f b \<longleftrightarrow> act_fits (act True b) (\<lambda>w. f w (fill b)) \<and> act_fits (act False b) (\<lambda>w. f (fill b) w)"

definition fills_fit :: "(bool \<Rightarrow> bool \<Rightarrow> run_action) \<Rightarrow> (eword \<Rightarrow> eword \<Rightarrow> eword) \<Rightarrow> eword list \<Rightarrow> bool" where
  "fills_fit act f ws \<longleftrightarrow> (\<forall>b. fill b \<in> set ws \<longrightarrow> acts_fit act f b)"

lemma fills_fit_drop: "fills_fit act f ws \<Longrightarrow> fills_fit act f (drop n ws)"
  unfolding fills_fit_def by (meson in_set_dropD)

lemma run_turn:
  assumes "ri_holds prey ps" and "ri_holds pred ds" and "ewah_holds out os"
    and "to_size (ri_running_len pred) = n" and "0 < n" and "fills_fit act f ds" and "h = (if fst_prey then f else (\<lambda>x y. f y x))"
  shows "\<exists>prey' pred' out'. ewah_run_action (act fst_prey (ri_running_bit pred)) prey pred out = Some (prey', pred', out') \<and>
    ri_holds prey' (drop n ps) \<and> ri_holds pred' (drop n ds) \<and>
    ewah_holds out' (os @ zip_words h ps ds n)"
proof -
  let ?b = "ri_running_bit pred"
  note front = run_front [OF assms(2,4)]
  have "0 < length ds"
    using front(2) [OF assms(5)] assms(5) by linarith
  then have "nth0 ds 0 \<in> set ds"
    by (simp add: nth0_def)
  then have "fill ?b \<in> set ds"
    using front(1) [OF assms(5)] by simp
  then have "acts_fit act f ?b"
    using assms(6) by (simp add: fills_fit_def)
  then have "act_fits (act fst_prey ?b) (\<lambda>w. h w (fill ?b))"
    using assms(7) by (auto simp: acts_fit_def)
  note act = run_action_holds [OF assms(1-4) front(2) [OF assms(5)] this]
  have "map (\<lambda>w. h w (fill ?b)) (map (nth0 ps) [0..<n]) = zip_words h ps ds n"
    using front(1) by (simp add: zip_words_def)
  then show ?thesis
    using act by (simp only:)
qed

lemma run_loop_holds:
  "ri_holds i xs \<Longrightarrow> ri_holds j ys \<Longrightarrow> ewah_holds out os \<Longrightarrow> fills_fit act f xs \<Longrightarrow> fills_fit act f ys \<Longrightarrow>
    \<exists>i' j' out' n. ewah_run_loop act i j out = Some (i', j', out') \<and> ri_running_len i' = 0 \<and> ri_running_len j' = 0 \<and>
      n \<le> max (length xs) (length ys) \<and> (ri_running_len i > 0 \<longrightarrow> 0 < n) \<and>
      ri_holds i' (drop n xs) \<and> ri_holds j' (drop n ys) \<and> ewah_holds out' (os @ zip_words f xs ys n)"
proof (induction "length xs + length ys" arbitrary: i j xs ys out os rule: less_induct)
  case less
  note len = run_len_pos [OF less.prems(1)] run_len_pos [OF less.prems(2)]
  have nn: "0 \<le> ri_running_len i" "0 \<le> ri_running_len j"
    using len by (metis of_nat_0_le_iff)+
  show ?case
  proof (cases "ri_running_len i > 0 \<or> ri_running_len j > 0")
    case False
    then have "ewah_run_loop act i j out = Some (i, j, out)" "ri_running_len i = 0" "ri_running_len j = 0"
      using nn by (simp_all add: ewah_run_loop.simps)
    then show ?thesis
      using False less.prems by (intro exI [of _ i] exI [of _ j] exI [of _ out] exI [of _ 0]) simp
  next
    case True
    have "\<exists>i1 j1 o1 n. ewah_run_loop act i j out = ewah_run_loop act i1 j1 o1 \<and> 0 < n \<and>
        (n \<le> length xs \<or> n \<le> length ys) \<and>
        ri_holds i1 (drop n xs) \<and> ri_holds j1 (drop n ys) \<and> ewah_holds o1 (os @ zip_words f xs ys n)"
    proof (cases "ri_running_len i < ri_running_len j")
      case lt: True
      define n where "n = to_size (ri_running_len j)"
      have n: "0 < n" "n \<le> length ys"
        using lt len run_front(2) [OF less.prems(2) n_def [symmetric], of 0] by (simp_all add: n_def)
      obtain i1 j1 o1 where "ewah_run_action (act True (ri_running_bit j)) i j out = Some (i1, j1, o1)"
        "ri_holds i1 (drop n xs)" "ri_holds j1 (drop n ys)" "ewah_holds o1 (os @ zip_words f xs ys n)"
        using run_turn [OF less.prems(1,2,3) n_def [symmetric] n(1) less.prems(5), of f True] by auto
      then show ?thesis
        using lt True n by (intro exI [of _ i1] exI [of _ j1] exI [of _ o1] exI [of _ n])
          (simp add: ewah_run_loop.simps [of act i j out])
    next
      case ge: False
      define n where "n = to_size (ri_running_len i)"
      have n: "0 < n" "n \<le> length xs"
        using ge True len run_front(2) [OF less.prems(1) n_def [symmetric], of 0] by (auto simp: n_def)
      obtain i1 j1 o1 where "ewah_run_action (act False (ri_running_bit i)) j i out = Some (j1, i1, o1)"
        "ri_holds i1 (drop n xs)" "ri_holds j1 (drop n ys)" "ewah_holds o1 (os @ zip_words f xs ys n)"
        using run_turn [OF less.prems(2,1,3) n_def [symmetric] n(1) less.prems(4), of "\<lambda>x y. f y x" False]
        unfolding zip_words_swap [of f xs] by auto
      then show ?thesis
        using ge True n by (intro exI [of _ i1] exI [of _ j1] exI [of _ o1] exI [of _ n])
          (simp add: ewah_run_loop.simps [of act i j out])
    qed
    then obtain i1 j1 o1 n where t: "ewah_run_loop act i j out = ewah_run_loop act i1 j1 o1" "0 < n"
      "n \<le> length xs \<or> n \<le> length ys" "ri_holds i1 (drop n xs)" "ri_holds j1 (drop n ys)"
      "ewah_holds o1 (os @ zip_words f xs ys n)"
      by blast
    have "length (drop n xs) + length (drop n ys) < length xs + length ys"
      using t(2,3) by auto
    from less.hyps [OF this t(4-6) fills_fit_drop [OF less.prems(4)] fills_fit_drop [OF less.prems(5)]]
    obtain i' j' out' m where r: "ewah_run_loop act i1 j1 o1 = Some (i', j', out')" "ri_running_len i' = 0" "ri_running_len j' = 0"
      "m \<le> max (length (drop n xs)) (length (drop n ys))"
      "ri_holds i' (drop m (drop n xs))" "ri_holds j' (drop m (drop n ys))"
      "ewah_holds out' ((os @ zip_words f xs ys n) @ zip_words f (drop n xs) (drop n ys) m)"
      by blast
    have "n + m \<le> max (length xs) (length ys)"
      using t(3) r(4) by auto
    moreover have "ewah_holds out' (os @ zip_words f xs ys (n + m))"
      using r(7) by (simp add: zip_words_add)
    moreover have "0 < n + m"
      using t(2) by simp
    ultimately show ?thesis
      using t(1) r by (intro exI [of _ i'] exI [of _ j'] exI [of _ out'] exI [of _ "n + m"]) (simp add: add.commute)
  qed
qed


lemma literals_front:
  assumes "ri_holds it ws" and "ri_running_len it = 0" and "k < to_size (ri_literal_words it)"
  shows "ri_literal_word_start it + k < length (ri_buffer it)"
    and "ri_buffer it ! (ri_literal_word_start it + k) = nth0 ws k"
    and "to_size (ri_literal_words it) \<le> length ws"
proof -
  obtain b r ls cs where rep: "ri_rep it b r ls cs" and ws: "ws = replicate r (fill b) @ ls @ words_of cs"
    using assms(1) unfolding ri_holds_def by blast
  note sizes = ri_sizes [OF rep]
  have r: "r = 0"
    using assms(2) sizes(4) by simp
  have k: "k < length ls"
    using assms(3) sizes(2) by simp
  show "ri_literal_word_start it + k < length (ri_buffer it)"
    using rep k by (simp add: ri_rep_def)
  have ls: "take (length ls) (drop (ri_literal_word_start it) (ri_buffer it)) = ls"
    and le: "ri_literal_word_start it + length ls \<le> length (ri_buffer it)"
    using rep by (simp_all add: ri_rep_def)
  have "ls ! k = take (length ls) (drop (ri_literal_word_start it) (ri_buffer it)) ! k"
    by (simp only: ls)
  also have "\<dots> = ri_buffer it ! (ri_literal_word_start it + k)"
    using k le by simp
  finally show "ri_buffer it ! (ri_literal_word_start it + k) = nth0 ws k"
    using k by (simp add: ws r nth0_def nth_append)
  show "to_size (ri_literal_words it) \<le> length ws"
    by (simp add: sizes(2) ws)
qed

lemma literals_pos:
  assumes "ri_holds it ws" and "ws \<noteq> []" and "ri_running_len it = 0"
  shows "0 < to_size (ri_literal_words it)"
proof -
  obtain b r ls rest where "to_size (ri_running_len it) = r" and l: "to_size (ri_literal_words it) = length ls"
    and "ri_running_bit it = b" "rlwit_word_size it = r + length ls" and pos: "0 < r + length ls"
    and "take (length ls) (drop (ri_literal_word_start it) (ri_buffer it)) = ls"
    "ws = replicate r (fill b) @ ls @ rest" and r: "ri_running_len it = int r"
    by (rule ri_holds_cur [OF assms(1,2)])
  show ?thesis
    using l pos r assms(3) by simp
qed

lemma add_literals_holds:
  assumes "ewah_holds out os"
    and "\<forall>k<n. si + k < length bi \<and> sj + k < length bj \<and> bi ! (si + k) = nth0 xs k \<and> bj ! (sj + k) = nth0 ys k"
  shows "\<exists>out'. add_literals f bi si bj sj n out = Some out' \<and> ewah_holds out' (os @ zip_words f xs ys n)"
  using assms
proof (induction n arbitrary: si sj xs ys out os)
  case (Suc n)
  obtain o1 k1 where o1: "ewah_add out (f (bi ! si) (bj ! sj)) = Some (o1, k1)"
    "ewah_holds o1 (os @ [f (bi ! si) (bj ! sj)])"
    using ewah_add_holds [OF Suc.prems(1)] by blast
  have at: "si + k < length bi \<and> sj + k < length bj \<and> bi ! (si + k) = nth0 xs k \<and> bj ! (sj + k) = nth0 ys k"
    if "k < Suc n" for k
    using Suc.prems(2) that by blast
  have "\<exists>out'. add_literals f bi (si + 1) bj (sj + 1) n o1 = Some out' \<and>
      ewah_holds out' ((os @ [f (bi ! si) (bj ! sj)]) @ zip_words f (drop 1 xs) (drop 1 ys) n)"
  proof (rule Suc.IH [OF o1(2)])
    show "\<forall>k<n. si + 1 + k < length bi \<and> sj + 1 + k < length bj \<and> bi ! (si + 1 + k) = nth0 (drop 1 xs) k \<and>
        bj ! (sj + 1 + k) = nth0 (drop 1 ys) k"
    proof (intro allI impI)
      fix k assume "k < n"
      then show "si + 1 + k < length bi \<and> sj + 1 + k < length bj \<and> bi ! (si + 1 + k) = nth0 (drop 1 xs) k \<and>
        bj ! (sj + 1 + k) = nth0 (drop 1 ys) k"
        using at [of "1 + k"] by simp
    qed
  qed
  moreover have "zip_words f xs ys (1 + n) = [f (bi ! si) (bj ! sj)] @ zip_words f (drop 1 xs) (drop 1 ys) n"
    unfolding zip_words_add using at [of 0] by (simp add: zip_words_def)
  ultimately show ?case
    using o1(1) at [of 0] by (auto simp: not_le)
qed simp

lemma merge_loop_holds:
  "ri_holds i xs \<Longrightarrow> ri_holds j ys \<Longrightarrow> ewah_holds out os \<Longrightarrow> fills_fit act f xs \<Longrightarrow> fills_fit act f ys \<Longrightarrow>
    \<exists>i' j' out' n. ewah_merge_loop act f i j out = Some (i', j', out') \<and> n \<le> max (length xs) (length ys) \<and>
      (drop n xs = [] \<or> drop n ys = []) \<and>
      ri_holds i' (drop n xs) \<and> ri_holds j' (drop n ys) \<and> ewah_holds out' (os @ zip_words f xs ys n)"
proof (induction "length xs + length ys" arbitrary: i j xs ys out os rule: less_induct)
  case less
  show ?case
  proof (cases "xs = [] \<or> ys = []")
    case True
    then have "ewah_merge_loop act f i j out = Some (i, j, out)"
      using ri_holds_size [OF less.prems(1)] ri_holds_size [OF less.prems(2)] by (subst ewah_merge_loop.simps) auto
    then show ?thesis
      using True less.prems by (intro exI [of _ i] exI [of _ j] exI [of _ out] exI [of _ 0]) simp
  next
    case False
    then have sizes: "rlwit_word_size i > 0" "rlwit_word_size j > 0"
      using ri_holds_size [OF less.prems(1)] ri_holds_size [OF less.prems(2)] by auto
    obtain i1 j1 o1 n where r: "ewah_run_loop act i j out = Some (i1, j1, o1)" "ri_running_len i1 = 0" "ri_running_len j1 = 0"
      "n \<le> max (length xs) (length ys)"
      "ri_holds i1 (drop n xs)" "ri_holds j1 (drop n ys)" "ewah_holds o1 (os @ zip_words f xs ys n)"
      using run_loop_holds [OF less.prems] by blast
    define m where "m = min (to_size (ri_literal_words i1)) (to_size (ri_literal_words j1))"
    obtain o2 where o2: "add_literals f (ri_buffer i1) (ri_literal_word_start i1)
        (ri_buffer j1) (ri_literal_word_start j1) m o1 = Some o2"
      "ewah_holds o2 ((os @ zip_words f xs ys n) @ zip_words f (drop n xs) (drop n ys) m)"
    proof -
      have "\<forall>k<m. ri_literal_word_start i1 + k < length (ri_buffer i1) \<and> ri_literal_word_start j1 + k < length (ri_buffer j1) \<and>
          ri_buffer i1 ! (ri_literal_word_start i1 + k) = nth0 (drop n xs) k \<and>
          ri_buffer j1 ! (ri_literal_word_start j1 + k) = nth0 (drop n ys) k"
        using literals_front(1,2) [OF r(5,2)] literals_front(1,2) [OF r(6,3)] by (simp add: m_def)
      from add_literals_holds [OF r(7) this] that show ?thesis
        by blast
    qed
    define i2 where "i2 = (if m = 0 then i1 else rlwit_discard_first_words i1 m)"
    define j2 where "j2 = (if m = 0 then j1 else rlwit_discard_first_words j1 m)"
    have step: "ewah_merge_loop act f i j out = ewah_merge_loop act f i2 j2 o2"
      unfolding ewah_merge_loop.simps [of act f i j out] r(1) option.case prod.case Let_def m_def [symmetric]
      using sizes o2(1) by (cases "m = 0") (simp_all add: i2_def j2_def)
    have i2: "ri_holds i2 (drop (n + m) xs)" and j2: "ri_holds j2 (drop (n + m) ys)"
      using discard_first_words_holds [OF r(5), of m] discard_first_words_holds [OF r(6), of m] r(5,6)
      by (auto simp: i2_def j2_def add.commute)
    have o2': "ewah_holds o2 (os @ zip_words f xs ys (n + m))"
      using o2(2) by (simp add: zip_words_add)
    have m_le: "m \<le> length (drop n xs)" "m \<le> length (drop n ys)"
      using literals_front(3) [OF r(5,2), of 0] literals_front(3) [OF r(6,3), of 0]
      by (cases "m = 0"; simp add: m_def)+
    have pos: "0 < n + m"
    proof (cases n)
      case 0
      then have "0 < m"
        using False r(2,3) literals_pos [OF r(5)] literals_pos [OF r(6)] by (simp add: m_def)
      then show ?thesis
        by simp
    qed simp
    have "length (drop (n + m) xs) + length (drop (n + m) ys) < length xs + length ys"
      unfolding length_drop using pos False by (intro add_strict_mono diff_less) auto
    from less.hyps [OF this i2 j2 o2' fills_fit_drop [OF less.prems(4)] fills_fit_drop [OF less.prems(5)]]
    obtain i' j' out' k where fin: "ewah_merge_loop act f i2 j2 o2 = Some (i', j', out')"
      "k \<le> max (length (drop (n + m) xs)) (length (drop (n + m) ys))"
      "drop k (drop (n + m) xs) = [] \<or> drop k (drop (n + m) ys) = []"
      "ri_holds i' (drop k (drop (n + m) xs))" "ri_holds j' (drop k (drop (n + m) ys))"
      "ewah_holds out' ((os @ zip_words f xs ys (n + m)) @ zip_words f (drop (n + m) xs) (drop (n + m) ys) k)"
      by blast
    have "n + m + k \<le> max (length xs) (length ys)"
      using r(4) fin(2) m_le by auto
    moreover have "ewah_holds out' (os @ zip_words f xs ys (n + m + k))"
      using fin(6) by (simp add: zip_words_add [of f xs ys "n + m" k])
    ultimately show ?thesis
      using step fin(1,3-5) by (intro exI [of _ i'] exI [of _ j'] exI [of _ out'] exI [of _ "n + m + k"])
        (simp add: add.commute add.left_commute)
  qed
qed


fun rest_fits :: "rest_action \<Rightarrow> (eword \<Rightarrow> eword) \<Rightarrow> bool" where
  "rest_fits Discharge g \<longleftrightarrow> (\<forall>w. g w = w)"
| "rest_fits Discharge_Empty g \<longleftrightarrow> (\<forall>w. g w = 0)"

lemma rest_output_holds:
  assumes "ri_holds it ws" and "ewah_holds out os" and "rest_fits rest g" and "length ws < 2 ^ 31"
  shows "\<exists>out'. rest_output rest it out = Some out' \<and> ewah_holds out' (os @ map g ws)"
proof (cases rest)
  case Discharge
  obtain it' out' where "rlwit_discharge it out (2 ^ 64 - 1) False = Some (it', out', min (2 ^ 64 - 1) (length ws))"
    "ewah_holds out' (os @ negated False (take (2 ^ 64 - 1) ws))"
    by (rule discharge_holds [OF assms(1,2)])
  moreover have "map g ws = ws"
    using assms(3) Discharge by (simp add: map_idI)
  ultimately show ?thesis
    using Discharge assms(4) by simp
next
  case Discharge_Empty
  have "map g ws = replicate (length ws) 0"
    using assms(3) Discharge_Empty by (intro nth_equalityI) simp_all
  then show ?thesis
    using Discharge_Empty discharge_empty_holds [OF assms(1,2)] by auto
qed

lemma ri_holds_bound: "ri_holds it ws \<Longrightarrow> length ws < 2 ^ 31"
  by (auto simp: ri_holds_def ri_rep_def)

lemma zip_words_Nil:
  "zip_words f xs [] (length xs) = map (\<lambda>w. f w 0) xs" "zip_words f [] ys (length ys) = map (\<lambda>w. f 0 w) ys"
  by (rule nth_equalityI; simp add: zip_words_def nth0_def)+

lemma ewah_merge_holds:
  assumes "ewah_holds ei xs" and "ewah_holds ej ys" and "ewah_holds out os"
    and "length xs < 2 ^ 31" and "length ys < 2 ^ 31"
    and "fills_fit act f xs" and "fills_fit act f ys"
    and "rest_fits rest_i (\<lambda>w. f w 0)" and "rest_fits rest_j (\<lambda>w. f 0 w)"
  shows "\<exists>out'. ewah_merge act f rest_i rest_j ei ej out = Some out' \<and>
    ewah_holds out' (os @ zip_words f xs ys (max (length xs) (length ys))) \<and>
    ew_bits out' = max (ew_bits ei) (ew_bits ej)"
proof -
  obtain i j o1 n where m: "ewah_merge_loop act f (rlwit_init ei) (rlwit_init ej) out = Some (i, j, o1)"
    "n \<le> max (length xs) (length ys)" "drop n xs = [] \<or> drop n ys = []"
    "ri_holds i (drop n xs)" "ri_holds j (drop n ys)" "ewah_holds o1 (os @ zip_words f xs ys n)"
    using merge_loop_holds [OF rlwit_init_holds [OF assms(1,4)] rlwit_init_holds [OF assms(2,5)] assms(3,6,7)]
    by blast
  have "\<exists>o2. (if rlwit_word_size i > 0 then rest_output rest_i i o1 else rest_output rest_j j o1) = Some o2 \<and>
      ewah_holds o2 (os @ zip_words f xs ys (max (length xs) (length ys)))"
  proof (cases "drop n xs = []")
    case True
    have "max (length xs) (length ys) = n + length (drop n ys)"
      using m(2) True by auto
    then have "zip_words f xs ys (max (length xs) (length ys)) = zip_words f xs ys n @ map (\<lambda>w. f 0 w) (drop n ys)"
      using True by (simp only: zip_words_add zip_words_Nil)
    then show ?thesis
      using rest_output_holds [OF m(5,6) assms(9) ri_holds_bound [OF m(5)]] ri_holds_size [OF m(4)] True by auto
  next
    case False
    then have "drop n ys = []"
      using m(3) by blast
    moreover have "max (length xs) (length ys) = n + length (drop n xs)"
      using False \<open>drop n ys = []\<close> by auto
    ultimately have "zip_words f xs ys (max (length xs) (length ys)) = zip_words f xs ys n @ map (\<lambda>w. f w 0) (drop n xs)"
      by (simp only: zip_words_add zip_words_Nil)
    then show ?thesis
      using rest_output_holds [OF m(4,6) assms(8) ri_holds_bound [OF m(4)]] ri_holds_size [OF m(4)] False by auto
  qed
  then show ?thesis
    using m(1) by (auto simp: ewah_merge_def)
qed

subsection \<open>The operations\<close>

lemma xor_fits: "fills_fit (\<lambda>prey_i bit. Copy bit) (XOR) ws"
  unfolding fills_fit_def acts_fit_def by (auto simp: fill_def)

lemma and_fits: "fills_fit (\<lambda>prey_i bit. if \<not> bit then Skip False else Copy False) (AND) ws"
  unfolding fills_fit_def acts_fit_def by (auto simp: fill_def)

lemma and_not_fits:
  "fills_fit (\<lambda>prey_i bit. if bit \<and> prey_i \<or> \<not> bit \<and> \<not> prey_i then Skip False else Copy (\<not> prey_i))
     (\<lambda>x y. x AND NOT y) ws"
  unfolding fills_fit_def acts_fit_def by (auto simp: fill_def)

lemma or_fits:
  "NOT 0 \<notin> set ws \<Longrightarrow> fills_fit (\<lambda>prey_i bit. if bit then Skip False else Copy False) (OR) ws"
  unfolding fills_fit_def acts_fit_def by (auto simp: fill_def)

text \<open>
  (C18) The exclusive or, the intersection and the difference of two compressed bitmaps always
  complete, and append to the output exactly the words obtained position by position from the
  words of the inputs, the shorter one padded with zeros; the bit size becomes the larger of the
  two.  The inputs hold fewer than \<open>2 ^ 31\<close> words, the range of the iterator's counters.
\<close>

theorem ewah_binary_operations:
  assumes "ewah_holds ei xs" and "ewah_holds ej ys" and "ewah_holds out os"
    and "length xs < 2 ^ 31" and "length ys < 2 ^ 31"
  shows "(\<exists>e. ewah_xor ei ej out = Some e \<and> ew_bits e = max (ew_bits ei) (ew_bits ej) \<and>
      ewah_holds e (os @ map (\<lambda>k. nth0 xs k XOR nth0 ys k) [0..<max (length xs) (length ys)])) \<and>
    (\<exists>e. ewah_and ei ej out = Some e \<and> ew_bits e = max (ew_bits ei) (ew_bits ej) \<and>
      ewah_holds e (os @ map (\<lambda>k. nth0 xs k AND nth0 ys k) [0..<max (length xs) (length ys)])) \<and>
    (\<exists>e. ewah_and_not ei ej out = Some e \<and> ew_bits e = max (ew_bits ei) (ew_bits ej) \<and>
      ewah_holds e (os @ map (\<lambda>k. nth0 xs k AND NOT (nth0 ys k)) [0..<max (length xs) (length ys)]))"
  using ewah_merge_holds [OF assms xor_fits xor_fits, of Discharge Discharge]
    ewah_merge_holds [OF assms and_fits and_fits, of Discharge_Empty Discharge_Empty]
    ewah_merge_holds [OF assms and_not_fits and_not_fits, of Discharge Discharge_Empty]
  unfolding ewah_xor_def ewah_and_def ewah_and_not_def zip_words_def by auto


theorem ewah_binary_operations_witness:
  "\<exists>ei ej e. ewah_holds ei [5] \<and> ewah_holds ej [3] \<and> ewah_xor ei ej ewah_new = Some e \<and> ewah_holds e [6]"
proof -
  obtain ei ej where e: "ewah_holds ei [5]" "ewah_holds ej [3]"
    using ewah_single by blast
  then show ?thesis
    using ewah_binary_operations [OF e ewah_new_holds] by (fastforce simp: nth0_def)
qed

text \<open>A bitmap of 64 ones, and the union with it.\<close>

definition run_of_ones :: ewah_bitmap where
  "run_of_ones = ewah_new\<lparr>ew_buffer := [mk_rlw True 1 0]\<rparr>"

lemma run_of_ones_holds: "ewah_holds run_of_ones [NOT 0]"
  by (rule holdsI [of _ "[]" "(True, 1, [])"])
    (simp_all add: ewah_rep_def solid_def run_of_ones_def ewah_new_def ewah_clear_def max_run_def max_lits_def
      block_words.simps(1) fill_def)

lemma ewah_or_run_of_ones:
  assumes "ewah_holds ej [1]"
  shows "\<exists>e. ewah_or run_of_ones ej ewah_new = Some e \<and> ewah_holds e [0]"
proof -
  let ?act = "\<lambda>prey_i bit. if bit then Skip False else Copy False"
  let ?i = "rlwit_init run_of_ones" and ?j = "rlwit_init ej"
  have i: "ri_holds ?i [NOT 0]" and j: "ri_holds ?j [1]"
    using rlwit_init_holds run_of_ones_holds assms by simp_all
  have fits: "fills_fit ?act (\<lambda>x y. 0) [NOT 0]" "fills_fit ?act (\<lambda>x y. 0) [1]"
    by (auto simp: fills_fit_def acts_fit_def fill_def)
  have "ri_running_len ?i > 0"
    by (simp add: rlwit_init_def next_word_def run_of_ones_def Let_def max_run_def max_lits_def to_int_def)
  with run_loop_holds [OF i j ewah_new_holds fits]
  obtain i' j' o' n where r: "ewah_run_loop ?act ?i ?j ewah_new = Some (i', j', o')" "n \<le> 1" "0 < n"
    "ri_holds i' (drop n [NOT 0])" "ri_holds j' (drop n [1])" "ewah_holds o' (zip_words (\<lambda>x y. 0) [NOT 0] [1] n)"
    by auto
  have n: "n = 1"
    using r(2,3) by simp
  have i': "ri_holds i' []" and j': "ri_holds j' []" and o': "ewah_holds o' [0]"
    using r(4-6) by (simp_all add: n zip_words_def)
  have zero: "rlwit_word_size i' = 0" "rlwit_word_size j' = 0"
    using ri_holds_size [OF i'] ri_holds_size [OF j'] by simp_all
  have "to_size (ri_literal_words i') = 0"
    using i' ri_sizes(2) unfolding ri_holds_def by fastforce
  then have "ewah_merge_loop ?act (OR) ?i ?j ewah_new = Some (i', j', o')"
    using r(1) zero ri_holds_size [OF i] ri_holds_size [OF j]
    by (subst ewah_merge_loop.simps) (simp add: ewah_merge_loop.simps [of _ _ i'])
  moreover obtain o2 where "rest_output Discharge j' o' = Some o2" "ewah_holds o2 [0]"
    using rest_output_holds [OF j' o', of Discharge "\<lambda>w. w"] by auto
  ultimately show ?thesis
    using zero by (auto simp: ewah_or_def ewah_merge_def)
qed

text \<open>
  The union is right when no word of the inputs is all ones, and wrong otherwise: where one
  input has a run of ones, \<open>ewah_or\<close> writes as many zeros.  With a first input of 64 set bits and
  a second one of a single set bit the result is an empty word.
\<close>

theorem ewah_or_loses_runs:
  "(\<forall>ei ej out xs ys os. ewah_holds ei xs \<and> ewah_holds ej ys \<and> ewah_holds out os \<and>
      length xs < 2 ^ 31 \<and> length ys < 2 ^ 31 \<and> NOT 0 \<notin> set xs \<union> set ys \<longrightarrow>
      (\<exists>e. ewah_or ei ej out = Some e \<and> ew_bits e = max (ew_bits ei) (ew_bits ej) \<and>
        ewah_holds e (os @ map (\<lambda>k. nth0 xs k OR nth0 ys k) [0..<max (length xs) (length ys)]))) \<and>
   (\<exists>ei ej e. ewah_holds ei [NOT 0] \<and> ewah_holds ej [1] \<and> ewah_or ei ej ewah_new = Some e \<and> ewah_holds e [0])"
  (is "?good \<and> ?bad")
proof (rule conjI)
  show ?good
  proof (intro allI impI, elim conjE)
    fix ei ej out xs ys os
    assume a: "ewah_holds ei xs" "ewah_holds ej ys" "ewah_holds out os" "length xs < 2 ^ 31" "length ys < 2 ^ 31"
      and no: "NOT 0 \<notin> set xs \<union> set ys"
    then have "fills_fit (\<lambda>prey_i bit. if bit then Skip False else Copy False) (OR) xs"
      "fills_fit (\<lambda>prey_i bit. if bit then Skip False else Copy False) (OR) ys"
      by (simp_all add: or_fits)
    from ewah_merge_holds [OF a this, of Discharge Discharge]
    show "\<exists>e. ewah_or ei ej out = Some e \<and> ew_bits e = max (ew_bits ei) (ew_bits ej) \<and>
        ewah_holds e (os @ map (\<lambda>k. nth0 xs k OR nth0 ys k) [0..<max (length xs) (length ys)])"
      unfolding ewah_or_def zip_words_def by auto
  qed
  show ?bad
  proof -
    obtain ej where ej: "ewah_holds ej [1]"
      using ewah_single by blast
    show ?thesis
      using run_of_ones_holds ej ewah_or_run_of_ones [OF ej] by blast
  qed
qed

theorem ewah_or_loses_runs_witness:
  "\<exists>ei ej e. ewah_holds ei [5] \<and> ewah_holds ej [3] \<and> ewah_or ei ej ewah_new = Some e \<and> ewah_holds e [7]"
proof -
  obtain ei ej where e: "ewah_holds ei [5]" "ewah_holds ej [3]"
    using ewah_single by blast
  then show ?thesis
    using conjunct1 [OF ewah_or_loses_runs, rule_format, of ei "[5]" ej "[3]" ewah_new "[]"] ewah_new_holds
    by (fastforce simp: nth0_def)
qed

end
