(* ===== verification/Git_Bswap.thy ===== *)
theory Git_Bswap
  imports Git_Prelude
begin

text \<open>
  \<^verbatim>\<open>compat/bswap.h\<close>: integers in network byte order.  Memory is a list of bytes; an integer
  stored by a little-endian machine, for which \<open>htonl\<close> and \<open>htonll\<close> swap, has its low byte first.
\<close>

subsection \<open>The code\<close>

definition default_swab32 :: "u32 \<Rightarrow> u32" where
  "default_swab32 val =
     drop_bit 24 (val AND 0xff000000) OR drop_bit 8 (val AND 0x00ff0000) OR
     push_bit 8 (val AND 0x0000ff00) OR push_bit 24 (val AND 0x000000ff)"

definition default_bswap64 :: "u64 \<Rightarrow> u64" where
  "default_bswap64 val =
     push_bit 56 (val AND 0x00000000000000ff) OR push_bit 40 (val AND 0x000000000000ff00) OR
     push_bit 24 (val AND 0x0000000000ff0000) OR push_bit 8 (val AND 0x00000000ff000000) OR
     drop_bit 8 (val AND 0x000000ff00000000) OR drop_bit 24 (val AND 0x0000ff0000000000) OR
     drop_bit 40 (val AND 0x00ff000000000000) OR drop_bit 56 (val AND 0xff00000000000000)"

text \<open>Reading and writing big-endian integers at the start of a list of bytes.\<close>

fun get_be16 :: "byte list \<Rightarrow> 16 word option" where
  "get_be16 (p0 # p1 # rest) = Some (push_bit 8 (ucast p0) OR push_bit 0 (ucast p1))"
| "get_be16 _ = None"

fun get_be32 :: "byte list \<Rightarrow> u32 option" where
  "get_be32 (p0 # p1 # p2 # p3 # rest) =
     Some (push_bit 24 (ucast p0) OR push_bit 16 (ucast p1) OR push_bit 8 (ucast p2) OR push_bit 0 (ucast p3))"
| "get_be32 _ = None"

definition put_be32 :: "u32 \<Rightarrow> byte list" where
  "put_be32 val = [ucast (drop_bit 24 val), ucast (drop_bit 16 val), ucast (drop_bit 8 val), ucast (drop_bit 0 val)]"

definition le_bytes :: "nat \<Rightarrow> 'a::len word \<Rightarrow> byte list" where
  "le_bytes n w = map (\<lambda>i. ucast (drop_bit (8 * i) w)) [0..<n]"

primrec of_le_bytes :: "byte list \<Rightarrow> 'a::len word" where
  "of_le_bytes [] = 0"
| "of_le_bytes (b # bs) = ucast b OR push_bit 8 (of_le_bytes bs)"

subsection \<open>Correctness\<close>

lemma swab_masks:
  "(0xff000000 :: u32) = push_bit 24 (mask 8)" "(0x00ff0000 :: u32) = push_bit 16 (mask 8)"
  "(0x0000ff00 :: u32) = push_bit 8 (mask 8)" "(0x000000ff :: u32) = mask 8"
  by (simp_all add: mask_eq_exp_minus_1 push_bit_eq_mult)

lemma bswap_masks:
  "(0x00000000000000ff :: u64) = mask 8" "(0x000000000000ff00 :: u64) = push_bit 8 (mask 8)"
  "(0x0000000000ff0000 :: u64) = push_bit 16 (mask 8)" "(0x00000000ff000000 :: u64) = push_bit 24 (mask 8)"
  "(0x000000ff00000000 :: u64) = push_bit 32 (mask 8)" "(0x0000ff0000000000 :: u64) = push_bit 40 (mask 8)"
  "(0x00ff000000000000 :: u64) = push_bit 48 (mask 8)" "(0xff00000000000000 :: u64) = push_bit 56 (mask 8)"
  by (simp_all add: mask_eq_exp_minus_1 push_bit_eq_mult)

lemma bit_byte_of: "bit (v AND push_bit k (mask 8)) n \<longleftrightarrow> bit v n \<and> k \<le> n \<and> n < k + 8" for v :: "'a::len word"
  by (auto simp: bit_and_iff bit_push_bit_iff bit_mask_iff possible_bit_def dest: bit_imp_le_length)

lemma bit_byte_low: "bit (v AND mask 8) n \<longleftrightarrow> bit v n \<and> n < 8" for v :: "'a::len word"
  by (auto simp: bit_and_iff bit_mask_iff possible_bit_def dest: bit_imp_le_length)

lemma bit_swab32:
  assumes "n < 32"
  shows "bit (default_swab32 v) n \<longleftrightarrow>
    (if n < 8 then bit v (n + 24) else if n < 16 then bit v (n + 8) else if n < 24 then bit v (n - 8) else bit v (n - 24))"
  unfolding default_swab32_def swab_masks bit_or_iff bit_push_bit_iff bit_drop_bit_eq comp_def bit_byte_of bit_byte_low
  using assms by (auto simp: possible_bit_def add.commute)

lemma bit_bswap64:
  assumes "n < 64"
  shows "bit (default_bswap64 v) n \<longleftrightarrow>
    (if n < 8 then bit v (n + 56) else if n < 16 then bit v (n + 40) else if n < 24 then bit v (n + 24)
     else if n < 32 then bit v (n + 8) else if n < 40 then bit v (n - 8) else if n < 48 then bit v (n - 24)
     else if n < 56 then bit v (n - 40) else bit v (n - 56))"
  unfolding default_bswap64_def bswap_masks bit_or_iff bit_push_bit_iff bit_drop_bit_eq comp_def bit_byte_of bit_byte_low
  using assms by (auto simp: possible_bit_def add.commute)

lemma swab32_swab32 [simp]: "default_swab32 (default_swab32 v) = v"
  by (rule bit_word_eqI) (auto simp: bit_swab32)

lemma bswap64_bswap64 [simp]: "default_bswap64 (default_bswap64 v) = v"
  by (rule bit_word_eqI) (auto simp: bit_bswap64)

lemma bit_byte: "bit (ucast (drop_bit k w) :: byte) n \<longleftrightarrow> n < 8 \<and> bit w (k + n)" for w :: "'a::len word"
  by (auto simp: bit_unsigned_iff bit_drop_bit_eq possible_bit_def)

lemma put_be32_swab: "put_be32 v = le_bytes 4 (default_swab32 v)"
proof -
  have "(ucast (drop_bit (24 - k) v) :: byte) = ucast (drop_bit k (default_swab32 v))" if "k \<in> {0, 8, 16, 24}" for k
    by (rule bit_word_eqI) (use that in \<open>auto simp: bit_byte bit_swab32 add.commute\<close>)
  from this [of 0] this [of 8] this [of 16] this [of 24] show ?thesis
    by (simp add: put_be32_def le_bytes_def upt_rec numeral_eq_Suc)
qed

lemma bit_byte_cast: "bit (ucast (ucast (drop_bit k v) :: byte) :: u32) n \<longleftrightarrow> n < 8 \<and> bit v (k + n)" for v :: u32
  by (auto simp: bit_unsigned_iff bit_drop_bit_eq possible_bit_def)

lemma get_put_be32 [simp]: "get_be32 (put_be32 v @ rest) = Some v"
proof -
  have "(push_bit 24 (ucast (ucast (drop_bit 24 v) :: byte)) :: u32) OR push_bit 16 (ucast (ucast (drop_bit 16 v) :: byte)) OR
      push_bit 8 (ucast (ucast (drop_bit 8 v) :: byte)) OR push_bit 0 (ucast (ucast (drop_bit 0 v) :: byte)) = v" (is "?l = v")
  proof (rule bit_word_eqI)
    fix n assume n: "n < LENGTH(32)"
    consider "n < 8" | "8 \<le> n" "n < 16" | "16 \<le> n" "n < 24" | "24 \<le> n"
      by linarith
    then show "bit ?l n = bit v n"
      unfolding bit_or_iff bit_push_bit_iff bit_byte_cast using n by cases (auto simp: possible_bit_def)
  qed
  then show ?thesis
    by (simp add: put_be32_def)
qed

lemma length_le_bytes [simp]: "length (le_bytes n w) = n"
  by (simp add: le_bytes_def)

lemma le_bytes_Suc: "le_bytes (Suc n) w = ucast w # le_bytes n (drop_bit 8 w)"
proof -
  have "[0..<Suc n] = 0 # map Suc [0..<n]"
    by (simp add: map_Suc_upt upt_conv_Cons)
  then show ?thesis
    by (simp add: le_bytes_def drop_bit_drop_bit add.commute)
qed

lemma of_le_bytes_le: "of_le_bytes (le_bytes n w) = take_bit (8 * n) w" for w :: "'a::len word"
proof (induction n arbitrary: w)
  case 0
  then show ?case
    by (simp add: le_bytes_def)
next
  case (Suc n)
  show ?case
    unfolding le_bytes_Suc of_le_bytes.simps Suc
    by (rule bit_word_eqI) (auto simp: bit_or_iff bit_push_bit_iff bit_take_bit_iff bit_unsigned_iff bit_drop_bit_eq possible_bit_def)
qed

end
