(* ===== verification/Git_Ewah_Io.thy ===== *)
theory Git_Ewah_Io
  imports Git_Bswap Git_Ewah_Ops
begin

text \<open>
  \<^verbatim>\<open>ewah/ewah_io.c\<close> and the end of \<^verbatim>\<open>ewah/ewah_bitmap.c\<close>: writing and reading compressed bitmaps,
  their checksum, and the pool of free bitmaps.  The function that writes (\<open>write\<close> on a file
  descriptor, or \<open>write_strbuf\<close>) and the one that reads are parameters; a writer gets the bytes
  and gives a count, a reader gives the bytes it got.  The machine is little-endian.
\<close>

subsection \<open>Writing\<close>

type_synonym 's writer = "'s \<Rightarrow> byte list \<Rightarrow> int \<times> 's"

definition htonl :: "u32 \<Rightarrow> u32" where "htonl x = default_swab32 x"
definition htonll :: "u64 \<Rightarrow> u64" where "htonll x = default_bswap64 x"

text \<open>Memory holding an array of words.\<close>

definition mem_words :: "u64 list \<Rightarrow> byte list" where
  "mem_words ws = concat (map (le_bytes 8) ws)"

definition write_all :: "'s writer \<Rightarrow> 's \<Rightarrow> byte list \<Rightarrow> 's option" where
  "write_all write_fun data buf =
     (case write_fun data buf of (written, data') \<Rightarrow> if written \<noteq> int (length buf) then None else Some data')"

definition ewah_serialize_native :: "'s writer \<Rightarrow> ewah_bitmap \<Rightarrow> 's \<Rightarrow> (int \<times> 's) option" where
  "ewah_serialize_native write self fd =
     do {
       fd1 \<leftarrow> write_all write fd (le_bytes 4 (of_nat (ew_bits self) :: u32));
       fd2 \<leftarrow> write_all write fd1 (le_bytes 4 (of_nat (length (ew_buffer self)) :: u32));
       fd3 \<leftarrow> write_all write fd2 (mem_words (ew_buffer self));
       fd4 \<leftarrow> write_all write fd3 (le_bytes 4 (of_nat (ew_rlw self) :: u32));
       Some (to_int (int (3 * 4 + length (ew_buffer self) * 8)), fd4)
     }"

abbreviation "words_per_dump \<equiv> (2048 :: nat)"

text \<open>\<open>None\<close> is the result -1.\<close>

function write_words :: "'s writer \<Rightarrow> 's \<Rightarrow> u64 list \<Rightarrow> 's option" where
  "write_words write_fun data buffer =
     (if length buffer \<ge> words_per_dump then
        (case write_all write_fun data (mem_words (map htonll (take words_per_dump buffer))) of
           None \<Rightarrow> None
         | Some data1 \<Rightarrow> write_words write_fun data1 (drop words_per_dump buffer))
      else if buffer \<noteq> [] then write_all write_fun data (mem_words (map htonll buffer))
      else Some data)"
  by pat_completeness auto
termination
  by (relation "measure (\<lambda>(write_fun, data, buffer). length buffer)") auto

declare write_words.simps [simp del]

definition ewah_serialize_to :: "'s writer \<Rightarrow> ewah_bitmap \<Rightarrow> 's \<Rightarrow> (int \<times> 's) option" where
  "ewah_serialize_to write_fun self data =
     do {
       data1 \<leftarrow> write_all write_fun data (le_bytes 4 (htonl (of_nat (ew_bits self))));
       data2 \<leftarrow> write_all write_fun data1 (le_bytes 4 (htonl (of_nat (length (ew_buffer self)))));
       data3 \<leftarrow> write_words write_fun data2 (ew_buffer self);
       let rlw_pos = (of_nat (ew_rlw self * 8) :: u32);
       data4 \<leftarrow> write_all write_fun data3 (le_bytes 4 (htonl (of_nat (unat rlw_pos div 8))));
       Some (to_int (int (3 * 4 + length (ew_buffer self) * 8)), data4)
     }"

definition write_strbuf :: "byte list writer" where
  "write_strbuf sb data = (to_int (int (length data)), sb @ data)"

definition ewah_serialize_strbuf :: "ewah_bitmap \<Rightarrow> byte list \<Rightarrow> (int \<times> byte list) option" where
  "ewah_serialize_strbuf self sb = ewah_serialize_to write_strbuf self sb"

subsection \<open>Reading\<close>

text \<open>The first \<open>n\<close> words of a piece of memory.\<close>

fun words_of_mem :: "nat \<Rightarrow> byte list \<Rightarrow> u64 list" where
  "words_of_mem 0 bs = []"
| "words_of_mem (Suc n) bs = of_le_bytes (take 8 bs) # words_of_mem n (drop 8 bs)"

text \<open>
  \<open>ewah_read_mmap\<close> is given the length of the map and does not look at it; reading beyond the map
  is \<open>None\<close>.
\<close>

definition ewah_read_mmap :: "ewah_bitmap \<Rightarrow> byte list \<Rightarrow> nat \<Rightarrow> (int \<times> ewah_bitmap) option" where
  "ewah_read_mmap self map_mem len =
     do {
       bits \<leftarrow> get_be32 map_mem;
       words \<leftarrow> get_be32 (drop 4 map_mem);
       let n = unat words;
       let ptr = drop 8 map_mem;
       buffer \<leftarrow> (if length ptr < n * 8 then None else Some (map htonll (words_of_mem n ptr)));
       rlw \<leftarrow> get_be32 (drop (n * 8) ptr);
       Some (to_int (int (3 * 4 + n * 8)),
             self\<lparr>ew_buffer := buffer, ew_alloc := n, ew_bits := unat bits, ew_rlw := unat rlw\<rparr>)
     }"

type_synonym 's reader = "'s \<Rightarrow> nat \<Rightarrow> byte list \<times> 's"

definition read_all :: "'s reader \<Rightarrow> 's \<Rightarrow> nat \<Rightarrow> (byte list \<times> 's) option" where
  "read_all read fd n = (case read fd n of (bs, fd') \<Rightarrow> if length bs \<noteq> n then None else Some (bs, fd'))"

function read_words :: "'s reader \<Rightarrow> 's \<Rightarrow> nat \<Rightarrow> (u64 list \<times> 's) option" where
  "read_words read fd words_left =
     (if words_left \<ge> words_per_dump then
        (case read_all read fd (words_per_dump * 8) of
           None \<Rightarrow> None
         | Some (bs, fd1) \<Rightarrow>
             (case read_words read fd1 (words_left - words_per_dump) of
                None \<Rightarrow> None
              | Some (ws, fd2) \<Rightarrow> Some (map htonll (words_of_mem words_per_dump bs) @ ws, fd2)))
      else if words_left \<noteq> 0 then
        map_option (\<lambda>(bs, fd1). (map htonll (words_of_mem words_left bs), fd1)) (read_all read fd (words_left * 8))
      else Some ([], fd))"
  by pat_completeness auto
termination
  by (relation "measure (\<lambda>(read, fd, words_left). words_left)") auto

declare read_words.simps [simp del]

text \<open>\<open>None\<close> is the result -1, after which the bitmap is in no usable state.\<close>

definition ewah_deserialize :: "'s reader \<Rightarrow> ewah_bitmap \<Rightarrow> 's \<Rightarrow> (ewah_bitmap \<times> 's) option" where
  "ewah_deserialize read self fd =
     do {
       let self = ewah_clear self;
       (bs, fd) \<leftarrow> read_all read fd 4;
       let self = self\<lparr>ew_bits := unat (htonl (of_le_bytes bs))\<rparr>;
       (bs, fd) \<leftarrow> read_all read fd 4;
       let n = unat (htonl (of_le_bytes bs));
       (buffer, fd) \<leftarrow> read_words read fd n;
       (bs, fd) \<leftarrow> read_all read fd 4;
       Some (self\<lparr>ew_buffer := buffer, ew_alloc := n, ew_rlw := unat (htonl (of_le_bytes bs))\<rparr>, fd)
     }"

subsection \<open>Checksum and pool\<close>

definition ewah_checksum :: "ewah_bitmap \<Rightarrow> u32" where
  "ewah_checksum self =
     fold (\<lambda>p crc. push_bit 5 crc - crc + ucast p) (mem_words (ew_buffer self)) (of_nat (ew_bits self))"

abbreviation "BITMAP_POOL_MAX \<equiv> (16 :: nat)"

text \<open>The pool is the list of the free bitmaps, the one to be used next in front.\<close>

definition ewah_pool_new :: "ewah_bitmap list \<Rightarrow> ewah_bitmap \<times> ewah_bitmap list" where
  "ewah_pool_new pool = (case pool of e # rest \<Rightarrow> (e, rest) | [] \<Rightarrow> (ewah_new, []))"

definition ewah_pool_free :: "ewah_bitmap \<Rightarrow> ewah_bitmap list \<Rightarrow> ewah_bitmap list" where
  "ewah_pool_free self pool =
     (if length pool = BITMAP_POOL_MAX \<or> ew_alloc self = 0 then pool else ewah_clear self # pool)"

subsection \<open>Round trip\<close>

lemma length_mem_words [simp]: "length (mem_words ws) = 8 * length ws"
  by (induction ws) (simp_all add: mem_words_def)

lemma mem_words_Nil [simp]: "mem_words [] = []"
  by (simp add: mem_words_def)

lemma mem_words_append: "mem_words (xs @ ys) = mem_words xs @ mem_words ys"
  by (simp add: mem_words_def)

lemma words_of_mem_words [simp]: "n = length ws \<Longrightarrow> words_of_mem n (mem_words ws @ rest) = ws"
proof (induction ws arbitrary: n)
  case (Cons w ws)
  have "of_le_bytes (le_bytes 8 w) = w"
    by (simp add: of_le_bytes_le take_bit_word_eq_self)
  then show ?case
    using Cons by (simp add: mem_words_def)
qed simp

lemma htonll_htonll [simp]: "htonll (htonll w) = w" "htonll \<circ> htonll = id"
  by (simp_all add: htonll_def comp_def id_def)

lemma le_htonl: "le_bytes 4 (htonl v) = put_be32 v"
  by (simp add: htonl_def put_be32_swab)

lemma length_put_be32 [simp]: "length (put_be32 v) = 4"
  by (simp add: put_be32_def)

lemma of_put_be32 [simp]: "htonl (of_le_bytes (put_be32 v)) = v"
  by (simp add: put_be32_swab of_le_bytes_le take_bit_word_eq_self htonl_def)

lemma to_int_nat: "n < 2 ^ 31 \<Longrightarrow> to_int (int n) = int n"
  unfolding to_int_def by (rule signed_take_bit_int_eq_self) simp_all

lemma write_all_strbuf: "length bs < 2 ^ 31 \<Longrightarrow> write_all write_strbuf sb bs = Some (sb @ bs)"
  by (simp add: write_all_def write_strbuf_def to_int_nat)

lemma write_words_strbuf: "write_words write_strbuf sb ws = Some (sb @ mem_words (map htonll ws))"
proof (induction "length ws" arbitrary: sb ws rule: less_induct)
  case less
  have small: "length (mem_words (map htonll (take words_per_dump ws))) < 2 ^ 31"
    by simp
  have all: "mem_words (map htonll (take words_per_dump ws)) @ mem_words (map htonll (drop words_per_dump ws)) =
      mem_words (map htonll ws)"
    by (simp flip: mem_words_append map_append)
  show ?case
  proof (cases "length ws \<ge> words_per_dump")
    case True
    then have "length (drop words_per_dump ws) < length ws"
      by simp
    then show ?thesis
      using True write_all_strbuf [OF small] less by (subst write_words.simps) (simp add: all)
  next
    case False
    then show ?thesis
      by (subst write_words.simps) (simp add: write_all_strbuf)
  qed
qed

text \<open>A reader over a list of bytes, which gives what is left at the end.\<close>

definition read_list :: "byte list reader" where
  "read_list bs n = (take n bs, drop n bs)"

lemma read_all_list: "length bs = n \<Longrightarrow> read_all read_list (bs @ rest) n = Some (bs, rest)"
  by (simp add: read_all_def read_list_def)

lemma read_words_list:
  "n = length ws \<Longrightarrow> read_words read_list (mem_words (map htonll ws) @ rest) n = Some (ws, rest)"
proof (induction n arbitrary: ws rule: less_induct)
  case (less n)
  show ?case
  proof (cases "n \<ge> words_per_dump")
    case True
    let ?ws = "take words_per_dump ws" and ?rest = "drop words_per_dump ws"
    have split: "mem_words (map htonll ws) @ rest = mem_words (map htonll ?ws) @ (mem_words (map htonll ?rest) @ rest)"
      by (simp flip: mem_words_append map_append append_assoc)
    have "read_all read_list (mem_words (map htonll ws) @ rest) (words_per_dump * 8) =
        Some (mem_words (map htonll ?ws), mem_words (map htonll ?rest) @ rest)"
      unfolding split by (rule read_all_list) (use True less.prems in simp)
    moreover have "read_words read_list (mem_words (map htonll ?rest) @ rest) (n - words_per_dump) = Some (?rest, rest)"
      using True less.prems by (intro less.IH) simp_all
    moreover have "words_of_mem words_per_dump (mem_words (map htonll ?ws)) = map htonll ?ws"
      using words_of_mem_words [of words_per_dump "map htonll ?ws" "[]"] True less.prems by simp
    ultimately show ?thesis
      using True by (subst read_words.simps) simp
  next
    case False
    have "words_of_mem n (mem_words (map htonll ws)) = map htonll ws"
      using words_of_mem_words [of n "map htonll ws" "[]"] less.prems by simp
    then show ?thesis
      using False less.prems read_all_list [of "mem_words (map htonll ws)" "n * 8" rest]
      by (subst read_words.simps) auto
  qed
qed

text \<open>The bytes of a serialized bitmap.\<close>

definition ewah_bytes :: "ewah_bitmap \<Rightarrow> byte list" where
  "ewah_bytes e = put_be32 (of_nat (ew_bits e)) @ put_be32 (of_nat (length (ew_buffer e))) @
     mem_words (map htonll (ew_buffer e)) @ put_be32 (of_nat (ew_rlw e))"

text \<open>
  (C21) A bitmap whose bit size fits 32 bits and whose buffer has fewer than \<open>2 ^ 28 - 2\<close> words is
  written in full, and what was written is read back as the same bitmap, from memory and from a
  file, whatever follows it; the functions return its length.
\<close>

theorem ewah_serialize_roundtrip:
  assumes "ew_bits e < 2 ^ 32" and "length (ew_buffer e) < 2 ^ 28 - 2" and "ew_rlw e < length (ew_buffer e)"
  shows "ewah_serialize_strbuf e sb = Some (int (length (ewah_bytes e)), sb @ ewah_bytes e) \<and>
    ewah_read_mmap e0 (ewah_bytes e @ rest) len =
      Some (int (length (ewah_bytes e)), e\<lparr>ew_alloc := length (ew_buffer e)\<rparr>) \<and>
    ewah_deserialize read_list e0 (ewah_bytes e @ rest) =
      Some (e\<lparr>ew_alloc := length (ew_buffer e)\<rparr>, rest)"
proof -
  let ?n = "length (ew_buffer e)"
  have len: "length (ewah_bytes e) = 3 * 4 + ?n * 8"
    by (simp add: ewah_bytes_def)
  have n: "unat (of_nat ?n :: u32) = ?n" and b: "unat (of_nat (ew_bits e) :: u32) = ew_bits e"
    and r: "unat (of_nat (ew_rlw e) :: u32) = ew_rlw e"
    using assms by (simp_all add: unat_of_nat_small)
  have ret: "to_int (int (3 * 4 + ?n * 8)) = int (length (ewah_bytes e))"
    unfolding len using assms(2) by (intro to_int_nat) simp
  have rlw: "unat (of_nat (ew_rlw e * 8) :: u32) div 8 = ew_rlw e"
    using assms(2,3) by (simp add: unat_of_nat_small del: of_nat_mult)
  have serialize: "ewah_serialize_strbuf e sb = Some (int (length (ewah_bytes e)), sb @ ewah_bytes e)"
    unfolding ewah_serialize_strbuf_def ewah_serialize_to_def le_htonl Let_def rlw ret
    by (simp add: write_all_strbuf write_words_strbuf ewah_bytes_def)
  moreover have "ewah_read_mmap e0 (ewah_bytes e @ rest) len =
      Some (int (length (ewah_bytes e)), e\<lparr>ew_alloc := ?n\<rparr>)"
  proof -
    have ptr: "drop 4 (ewah_bytes e @ rest) =
        put_be32 (of_nat ?n) @ mem_words (map htonll (ew_buffer e)) @ put_be32 (of_nat (ew_rlw e)) @ rest"
      "drop 8 (ewah_bytes e @ rest) = mem_words (map htonll (ew_buffer e)) @ put_be32 (of_nat (ew_rlw e)) @ rest"
      "get_be32 (ewah_bytes e @ rest) = Some (of_nat (ew_bits e))"
      by (simp_all add: ewah_bytes_def)
    have "uint (of_nat ?n :: u32) = int ?n"
      using n by (metis uint_nat)
    then show ?thesis
      unfolding ewah_read_mmap_def ptr using ret by (simp add: Let_def n b r)
  qed
  moreover have "ewah_deserialize read_list e0 (ewah_bytes e @ rest) = Some (e\<lparr>ew_alloc := ?n\<rparr>, rest)"
    using n b r read_words_list [OF refl, of "ew_buffer e" "put_be32 (of_nat (ew_rlw e)) @ rest"]
    by (simp add: ewah_deserialize_def ewah_bytes_def read_all_list ewah_clear_def Let_def)
  ultimately show ?thesis
    by blast
qed

theorem ewah_serialize_roundtrip_witness:
  "\<exists>bs. ewah_serialize_strbuf ewah_new [] = Some (20, bs) \<and>
     ewah_read_mmap ewah_new bs 0 = Some (20, ewah_new\<lparr>ew_alloc := 1\<rparr>)"
proof -
  have "length (ewah_bytes ewah_new) = 20"
    by (simp add: ewah_bytes_def ewah_new_def ewah_clear_def)
  then show ?thesis
    using ewah_serialize_roundtrip [of ewah_new "[]" ewah_new "[]" 0]
    by (simp add: ewah_new_def ewah_clear_def)
qed

text \<open>
  A bitmap that was read from a map of one word is allocated one word, and \<open>buffer_push\<close> does not
  grow a buffer of one word (its new size is half as much again, rounded down, which is one): the
  next word is written beyond the allocation.  \<open>ewah_pool_free\<close> puts such a bitmap into the pool.
\<close>

lemma buffer_push_one_word:
  "length (ew_buffer e) = 1 \<Longrightarrow> ew_alloc e = 1 \<Longrightarrow> buffer_push e w = None"
  by (simp add: buffer_push_def buffer_grow_def)

lemma pool_one_word:
  "length pool < BITMAP_POOL_MAX \<Longrightarrow> ew_alloc e = 1 \<Longrightarrow>
    buffer_push (fst (ewah_pool_new (ewah_pool_free e pool))) w = None"
  by (simp add: ewah_pool_new_def ewah_pool_free_def ewah_clear_def buffer_push_one_word)

text \<open>The pool stays within its array; a bitmap from a pool of bitmaps with two words or more is empty and usable.\<close>

definition pool_ok :: "ewah_bitmap list \<Rightarrow> bool" where
  "pool_ok pool \<longleftrightarrow> length pool \<le> BITMAP_POOL_MAX \<and> (\<forall>e\<in>set pool. ewah_holds e [] \<and> ew_bits e = 0)"

lemma ewah_clear_holds: "2 \<le> ew_alloc e \<Longrightarrow> ewah_holds (ewah_clear e) []"
  by (rule holdsI [of _ "[]" "(False, 0, [])"])
    (simp_all add: ewah_rep_def solid_def ewah_clear_def mk_rlw_0 max_run_def max_lits_def block_words.simps(1))

lemma pool_preserved:
  "pool_ok pool \<Longrightarrow> 2 \<le> ew_alloc e \<Longrightarrow> pool_ok (ewah_pool_free e pool)"
  "pool_ok pool \<Longrightarrow> ewah_pool_new pool = (e, pool') \<Longrightarrow> ewah_holds e [] \<and> ew_bits e = 0 \<and> pool_ok pool'"
proof -
  show "pool_ok pool \<Longrightarrow> 2 \<le> ew_alloc e \<Longrightarrow> pool_ok (ewah_pool_free e pool)"
    using ewah_clear_holds [of e] by (auto simp: pool_ok_def ewah_pool_free_def ewah_clear_def)
  show "pool_ok pool \<Longrightarrow> ewah_pool_new pool = (e, pool') \<Longrightarrow> ewah_holds e [] \<and> ew_bits e = 0 \<and> pool_ok pool'"
    using ewah_new_holds
    by (auto simp: pool_ok_def ewah_pool_new_def ewah_new_def ewah_clear_def split: list.splits)
qed

end
