(* ===== verification/Git_Bits.thy ===== *)
theory Git_Bits
  imports Git_Prelude
begin

text \<open>
  The bit counting functions of \<^verbatim>\<open>ewah/ewok.h\<close>: the parallel population count, and the number of
  trailing zeros by halving, for compilers that have no builtin.
\<close>

subsection \<open>Counting\<close>

definition ewah_bit_popcount64 :: "u64 \<Rightarrow> u32" where
  "ewah_bit_popcount64 x =
     (let x = (x AND 0x5555555555555555) + (drop_bit 1 x AND 0x5555555555555555);
          x = (x AND 0x3333333333333333) + (drop_bit 2 x AND 0x3333333333333333);
          x = (x AND 0x0F0F0F0F0F0F0F0F) + (drop_bit 4 x AND 0x0F0F0F0F0F0F0F0F)
      in ucast (drop_bit 56 (x * 0x0101010101010101)))"

text \<open>One step of \<open>ewah_bit_ctz64\<close>, for the compilers without \<open>__builtin_ctzll\<close>.\<close>

definition ctz_step :: "u64 \<Rightarrow> nat \<Rightarrow> u64 \<times> nat \<Rightarrow> u64 \<times> nat" where
  "ctz_step low k = (\<lambda>(x, n). if x AND low = 0 then (drop_bit k x, n + k) else (x, n))"

definition ewah_bit_ctz64 :: "u64 \<Rightarrow> nat" where
  "ewah_bit_ctz64 x =
     (let (x, n) = ctz_step 0xffffffff 32 (x, 0);
          (x, n) = ctz_step 0xffff 16 (x, n);
          (x, n) = ctz_step 0xff 8 (x, n);
          (x, n) = ctz_step 0xf 4 (x, n);
          (x, n) = ctz_step 0x3 2 (x, n);
          (x, n) = ctz_step 0x1 1 (x, n)
      in n + (if x = 0 then 1 else 0))"

subsection \<open>Bits of a word\<close>

lemma sum_bits_split:
  "(\<Sum>i<m + n. of_bool (bit (a :: nat) i) :: nat) = (\<Sum>i<m. of_bool (bit a i)) + (\<Sum>i<n. of_bool (bit (a div 2 ^ m) i))"
proof -
  have "bit (a div 2 ^ m) i \<longleftrightarrow> bit a (m + i)" for i
    by (simp add: bit_drop_bit_eq flip: drop_bit_eq_div)
  moreover have "(\<Sum>i<m + n. f i) = (\<Sum>i<m. f i) + (\<Sum>i<n. f (m + i))" for f :: "nat \<Rightarrow> nat"
    by (induction n) simp_all
  ultimately show ?thesis
    by simp
qed

subsection \<open>The population count\<close>

text \<open>A number whose eight bits wide digits are those of \<open>n\<close>, changed by \<open>f\<close>.\<close>

primrec digitwise :: "(nat \<Rightarrow> nat) \<Rightarrow> nat \<Rightarrow> nat \<Rightarrow> nat" where
  "digitwise f 0 n = 0"
| "digitwise f (Suc k) n = f (n mod 256) + 256 * digitwise f k (n div 256)"

lemma digitwise_comp:
  "(\<And>r. r < 256 \<Longrightarrow> g r < 256) \<Longrightarrow> digitwise f k (digitwise g k n) = digitwise (\<lambda>r. f (g r)) k n"
  by (induction k arbitrary: n) simp_all

lemma digitwise_less: "(\<And>r. r < 256 \<Longrightarrow> g r < 256) \<Longrightarrow> digitwise g k n < 256 ^ k"
proof (induction k arbitrary: n)
  case (Suc k)
  have "digitwise g k (n div 256) < 256 ^ k" "g (n mod 256) < 256"
    using Suc by simp_all
  then show ?case
    by simp
qed simp

lemma digitwise_cong: "(\<And>r. r < 256 \<Longrightarrow> f r = g r) \<Longrightarrow> digitwise f k n = digitwise g k n"
  by (induction k arbitrary: n) simp_all

primrec repeat_byte :: "nat \<Rightarrow> nat \<Rightarrow> nat" where
  "repeat_byte c 0 = 0"
| "repeat_byte c (Suc k) = c + 256 * repeat_byte c k"

lemma and_div_mod: "(a AND b :: nat) = (a mod 256 AND b mod 256) + 256 * (a div 256 AND b div 256)"
proof -
  have "(a AND b) mod 256 = a mod 256 AND b mod 256" "(a AND b) div 256 = a div 256 AND b div 256"
    using take_bit_and [of 8 a b] drop_bit_and [of 8 a b] by (simp_all add: take_bit_eq_mod drop_bit_eq_div)
  then show ?thesis
    by (metis mult_div_mod_eq add.commute)
qed

text \<open>One stage: a mask that has no bits where the shift brings bits of the next digit.\<close>

lemma stage_digitwise:
  assumes "c < 2 ^ (8 - s)" and "s \<le> 8"
  shows "(n AND repeat_byte c k) + (n div 2 ^ s AND repeat_byte c k) = digitwise (\<lambda>r. (r AND c) + (r div 2 ^ s AND c)) k n"
proof (induction k arbitrary: n)
  case (Suc k)
  have "(2 :: nat) ^ (8 - s) \<le> 2 ^ 8"
    by (rule power_increasing) simp_all
  then have c: "c < 256"
    using assms(1) by simp
  have low: "a AND c = a mod 2 ^ (8 - s) AND c" for a
  proof -
    have "take_bit (8 - s) c = c"
      using assms(1) by (simp add: take_bit_nat_eq_self)
    then have "bit c i \<Longrightarrow> i < 8 - s" for i
      by (metis bit_take_bit_iff)
    then show ?thesis
      unfolding take_bit_eq_mod [symmetric] by (intro bit_eqI) (auto simp: bit_and_iff bit_take_bit_iff)
  qed
  have pow: "(2 :: nat) ^ s * 2 ^ (8 - s) = 256"
    using assms(2) by (simp flip: power_add)
  have "(n div 2 ^ s) mod 256 mod 2 ^ (8 - s) = (n div 2 ^ s) mod 2 ^ (8 - s)"
    by (metis mod_mod_cancel dvd_triv_right pow)
  also have "\<dots> = (n mod 256) div 2 ^ s"
    using drop_bit_take_bit [of s 8 n] by (simp add: drop_bit_eq_div take_bit_eq_mod)
  finally have shifted: "(n div 2 ^ s) mod 256 AND c = (n mod 256) div 2 ^ s AND c"
    by (metis low)
  have "n div 2 ^ s div 256 = n div 256 div 2 ^ s"
    by (metis div_mult2_eq mult.commute)
  then show ?case
    using Suc [of "n div 256"] c and_div_mod [of n "repeat_byte c (Suc k)"] and_div_mod [of "n div 2 ^ s" "repeat_byte c (Suc k)"]
    by (simp add: shifted algebra_simps)
qed simp


text \<open>The three stages on one byte.\<close>

definition byte_stage :: "nat \<Rightarrow> nat \<Rightarrow> nat \<Rightarrow> nat" where
  "byte_stage s c r = (r AND c) + (r div 2 ^ s AND c)"

definition byte_bits :: "nat \<Rightarrow> nat" where
  "byte_bits r = r mod 2 + (r div 2 mod 2 + (r div 4 mod 2 + (r div 8 mod 2 + (r div 16 mod 2 +
     (r div 32 mod 2 + (r div 64 mod 2 + r div 128 mod 2))))))"

lemma nat_and_le: "(a AND c :: nat) \<le> c"
proof -
  have "int (a AND c) \<le> int c"
    by (simp add: of_nat_and_eq)
  then show ?thesis
    by simp
qed

lemma byte_stage_less: "c < 128 \<Longrightarrow> byte_stage s c r < 256"
  using nat_and_le [of r c] nat_and_le [of "r div 2 ^ s" c] by (simp add: byte_stage_def)

lemma byte_stages_2: "list_all (\<lambda>r. byte_stage 4 15 (byte_stage 2 51 (byte_stage 1 85 r)) = byte_bits r) [2..<256]"
  by (simp add: upt_rec_numeral byte_stage_def byte_bits_def flip: numeral_2_eq_2 numeral_3_eq_3)

lemma byte_stages: "r < 256 \<Longrightarrow> byte_stage 4 15 (byte_stage 2 51 (byte_stage 1 85 r)) = byte_bits r"
proof -
  assume "r < 256"
  then consider "r = 0" | "r = 1" | "r \<in> set [2..<256]"
    unfolding set_upt atLeastLessThan_iff by linarith
  then show ?thesis
  proof cases
    case 3
    then show ?thesis
      using byte_stages_2 unfolding list_all_iff by blast
  qed (simp_all add: byte_stage_def byte_bits_def)
qed

lemma byte_bits_sum: "byte_bits (n mod 256) = (\<Sum>i<8. of_bool (bit n i))"
proof -
  have "bit n i \<longleftrightarrow> bit (n mod 256) i" if "i < 8" for i
    using that bit_take_bit_iff [of 8 n i] by (simp add: take_bit_eq_mod)
  then have "(\<Sum>i<8. of_bool (bit n i) :: nat) = (\<Sum>i<8. of_bool (bit (n mod 256) i))"
    by (intro sum.cong) simp_all
  moreover have "(\<Sum>i<8. of_bool (bit m i)) = byte_bits m" for m :: nat
  proof -
    have "{..<8} = {0, 1, 2, 3, 4, 5, 6, 7 :: nat}"
      by auto
    then show ?thesis
      by (simp add: byte_bits_def bit_iff_odd mod_2_eq_odd)
  qed
  ultimately show ?thesis
    by (simp only:)
qed

lemma byte_bits_le: "byte_bits r \<le> 8"
  unfolding byte_bits_def mod_2_eq_odd by auto

primrec sum_bytes :: "nat \<Rightarrow> nat \<Rightarrow> nat" where
  "sum_bytes 0 n = 0"
| "sum_bytes (Suc k) n = byte_bits (n mod 256) + sum_bytes k (n div 256)"

lemma sum_bytes_bits: "sum_bytes k n = (\<Sum>i<8 * k. of_bool (bit n i))"
proof (induction k arbitrary: n)
  case (Suc k)
  have "(2 :: nat) ^ 8 = 256"
    by simp
  then show ?case
    by (simp only: mult_Suc_right sum_bits_split byte_bits_sum sum_bytes.simps Suc)
qed simp

lemma div_low_high: "low < b \<Longrightarrow> (low + b * high) div b = (high :: nat)"
  by simp

text \<open>Multiplying by \<open>0x0101010101010101\<close> adds the eight digits up in the top byte.\<close>

lemma top_byte_sum:
  fixes p0 p1 p2 p3 p4 p5 p6 p7 :: nat
  assumes "p0 \<le> 8" "p1 \<le> 8" "p2 \<le> 8" "p3 \<le> 8" "p4 \<le> 8" "p5 \<le> 8" "p6 \<le> 8" "p7 \<le> 8"
  shows "(p0 + 256 * (p1 + 256 * (p2 + 256 * (p3 + 256 * (p4 + 256 * (p5 + 256 * (p6 + 256 * p7))))))) *
    0x0101010101010101 mod 2 ^ 64 div 2 ^ 56 = p0 + p1 + p2 + p3 + p4 + p5 + p6 + p7"
proof -
  let ?low = "p0 + 256 * ((p0 + p1) + 256 * ((p0 + p1 + p2) + 256 * ((p0 + p1 + p2 + p3) +
    256 * ((p0 + p1 + p2 + p3 + p4) + 256 * ((p0 + p1 + p2 + p3 + p4 + p5) + 256 * (p0 + p1 + p2 + p3 + p4 + p5 + p6))))))"
  let ?sum = "p0 + p1 + p2 + p3 + p4 + p5 + p6 + p7"
  let ?high = "(p1 + p2 + p3 + p4 + p5 + p6 + p7) + 256 * ((p2 + p3 + p4 + p5 + p6 + p7) + 256 * ((p3 + p4 + p5 + p6 + p7) +
    256 * ((p4 + p5 + p6 + p7) + 256 * ((p5 + p6 + p7) + 256 * ((p6 + p7) + 256 * p7)))))"
  have "(p0 + 256 * (p1 + 256 * (p2 + 256 * (p3 + 256 * (p4 + 256 * (p5 + 256 * (p6 + 256 * p7))))))) *
      0x0101010101010101 = (?low + 2 ^ 56 * ?sum) + 2 ^ 64 * ?high"
    by simp
  moreover have low: "?low < 2 ^ 56" and sum: "?sum < 256"
    using assms by simp_all
  have "?low + 2 ^ 56 * ?sum < 2 ^ 64"
    using low sum by simp
  ultimately have "(p0 + 256 * (p1 + 256 * (p2 + 256 * (p3 + 256 * (p4 + 256 * (p5 + 256 * (p6 + 256 * p7))))))) *
      0x0101010101010101 mod 2 ^ 64 = ?low + 2 ^ 56 * ?sum"
    by (simp only: mod_mult_self2 mod_less)
  also have "\<dots> div 2 ^ 56 = ?sum"
    using low by (rule div_low_high)
  finally show ?thesis .
qed


lemma popcount_masks:
  "repeat_byte 85 8 = 0x5555555555555555" "repeat_byte 51 8 = 0x3333333333333333" "repeat_byte 15 8 = 0x0F0F0F0F0F0F0F0F"
proof -
  have "(8 :: nat) = Suc (Suc (Suc (Suc (Suc (Suc (Suc (Suc 0)))))))"
    by simp
  then show "repeat_byte 85 8 = 0x5555555555555555" "repeat_byte 51 8 = 0x3333333333333333"
    "repeat_byte 15 8 = 0x0F0F0F0F0F0F0F0F"
    by (simp_all only: repeat_byte.simps) simp_all
qed

lemma ewah_bit_popcount64_eq: "unat (ewah_bit_popcount64 x) = (\<Sum>i<64. of_bool (bit x i))"
proof -
  define stage where "stage s m y = (y AND m) + (drop_bit s y AND m)" for s :: nat and m y :: u64
  have stage: "unat (stage s m y) = (unat y AND unat m) + (unat y div 2 ^ s AND unat m)" if "unat m < 2 ^ 63" for s m y
  proof -
    have "unat (y AND m) \<le> unat m" "unat (drop_bit s y AND m) \<le> unat m"
      by (simp_all add: unsigned_and_eq nat_and_le)
    then have "unat (y AND m) + unat (drop_bit s y AND m) < 2 ^ LENGTH(64)"
      using that by simp
    then show ?thesis
      unfolding stage_def by (subst unat_add_lem [THEN iffD1]) (simp_all add: unsigned_and_eq unat_drop_bit_div)
  qed
  have digits: "unat (stage s m y) = digitwise (byte_stage s c) 8 (unat y)"
    if "unat m = repeat_byte c 8" "c < 2 ^ (8 - s)" "s \<le> 8" "repeat_byte c 8 < 2 ^ 63" for s c m y
    using stage_digitwise [OF that(2,3), of "unat y" 8] stage [of m s y] that(1,4)
    by (simp add: byte_stage_def [abs_def])
  let ?n = "unat x"
  let ?y1 = "stage 1 0x5555555555555555 x"
  let ?y2 = "stage 2 0x3333333333333333 ?y1"
  let ?y3 = "stage 4 0x0F0F0F0F0F0F0F0F ?y2"
  have y1: "unat ?y1 = digitwise (byte_stage 1 85) 8 ?n"
    by (rule digits) (simp_all add: popcount_masks)
  have y2: "unat ?y2 = digitwise (\<lambda>r. byte_stage 2 51 (byte_stage 1 85 r)) 8 ?n"
    using digits [where m = "0x3333333333333333" and c = 51 and s = 2 and y = ?y1] digitwise_comp [where g = "byte_stage 1 85" and f = "byte_stage 2 51" and k = 8 and n = ?n]
      byte_stage_less [of 85 1]
    by (simp add: popcount_masks y1 del: One_nat_def)
  have "unat ?y3 = digitwise (\<lambda>r. byte_stage 4 15 (byte_stage 2 51 (byte_stage 1 85 r))) 8 ?n"
    using digits [where m = "0x0F0F0F0F0F0F0F0F" and c = 15 and s = 4 and y = ?y2]
      digitwise_comp [of "\<lambda>r. byte_stage 2 51 (byte_stage 1 85 r)" "byte_stage 4 15" 8 ?n] byte_stage_less [of 51 2]
    by (simp add: popcount_masks y2 del: One_nat_def)
  also have "\<dots> = digitwise byte_bits 8 ?n"
    by (rule digitwise_cong) (rule byte_stages)
  finally have y3: "unat ?y3 = digitwise byte_bits 8 ?n" .
  have "ewah_bit_popcount64 x = ucast (drop_bit 56 (?y3 * 0x0101010101010101))"
    by (simp only: ewah_bit_popcount64_def stage_def Let_def)
  then have "unat (ewah_bit_popcount64 x) = unat ?y3 * 0x0101010101010101 mod 2 ^ 64 div 2 ^ 56"
  proof -
    have "unat (ucast (drop_bit 56 w) :: u32) = unat w div 2 ^ 56" for w :: u64
      using unat_64_less [of w] by (simp add: unsigned_ucast_eq take_bit_nat_eq_self unat_drop_bit_div)
    moreover have "unat (?y3 * 0x0101010101010101) = unat ?y3 * 0x0101010101010101 mod 2 ^ 64"
      by (simp add: unat_word_ariths)
    ultimately show ?thesis
      using \<open>ewah_bit_popcount64 x = _\<close> by (simp only:)
  qed
  also have "\<dots> = sum_bytes 8 ?n"
  proof -
    have eight: "(8 :: nat) = Suc (Suc (Suc (Suc (Suc (Suc (Suc (Suc 0)))))))"
      by simp
    show ?thesis
      unfolding y3 eight digitwise.simps sum_bytes.simps mult_0_right add_0_right
      unfolding eight [symmetric]
      by (subst top_byte_sum) (simp_all add: byte_bits_le)
  qed
  also have "\<dots> = (\<Sum>i<64. of_bool (bit x i))"
    by (simp only: sum_bytes_bits) (simp add: bit_unsigned_iff)
  finally show ?thesis .
qed


text \<open>The number of trailing zeros is the position of the lowest set bit.\<close>

definition lowest_bit :: "u64 \<Rightarrow> nat \<Rightarrow> bool" where
  "lowest_bit x k \<longleftrightarrow> bit x k \<and> (\<forall>i<k. \<not> bit x i)"

lemma ctz_step_lowest:
  assumes "lowest_bit x k" and "k < 2 * m" and "ctz_step (mask m) m (x, n) = (x', n')"
  shows "\<exists>k'. lowest_bit x' k' \<and> k' < m \<and> n' + k' = n + k"
proof (cases "x AND mask m = 0")
  case True
  then have "take_bit m x = 0"
    by (simp add: take_bit_eq_mask)
  then have "\<not> bit x i" if "i < m" for i
    using that by (metis bit_take_bit_iff bit_0_eq bot_apply bot_bool_def)
  then have "m \<le> k"
    using assms(1) by (meson lowest_bit_def not_le)
  then show ?thesis
    using True assms by (intro exI [of _ "k - m"]) (auto simp: ctz_step_def lowest_bit_def bit_drop_bit_eq)
next
  case False
  then have "take_bit m x \<noteq> 0"
    by (simp add: take_bit_eq_mask)
  moreover have "take_bit m x = 0" if "\<forall>i<m. \<not> bit x i"
    using that by (intro bit_eqI) (auto simp: bit_take_bit_iff)
  ultimately obtain i where "i < m" "bit x i"
    by blast
  then have "k < m"
    using assms(1) by (meson le_less_trans lowest_bit_def not_le)
  then show ?thesis
    using False assms by (auto simp: ctz_step_def)
qed

lemma ctz_masks: "(0xffffffff :: u64) = mask 32" "(0xffff :: u64) = mask 16" "(0xff :: u64) = mask 8"
  "(0xf :: u64) = mask 4" "(0x3 :: u64) = mask 2" "(0x1 :: u64) = mask 1"
  by (simp_all add: mask_eq_exp_minus_1)

lemma ewah_bit_ctz64_lowest: "lowest_bit x k \<Longrightarrow> ewah_bit_ctz64 x = k"
proof -
  assume low: "lowest_bit x k"
  then have "k < 2 * 32"
    by (auto simp: lowest_bit_def dest: bit_imp_le_length)
  obtain x1 n1 where s1: "ctz_step (mask 32) 32 (x, 0) = (x1, n1)" by fastforce
  obtain x2 n2 where s2: "ctz_step (mask 16) 16 (x1, n1) = (x2, n2)" by fastforce
  obtain x3 n3 where s3: "ctz_step (mask 8) 8 (x2, n2) = (x3, n3)" by fastforce
  obtain x4 n4 where s4: "ctz_step (mask 4) 4 (x3, n3) = (x4, n4)" by fastforce
  obtain x5 n5 where s5: "ctz_step (mask 2) 2 (x4, n4) = (x5, n5)" by fastforce
  obtain x6 n6 where s6: "ctz_step (mask 1) 1 (x5, n5) = (x6, n6)" by fastforce
  obtain k1 where k1: "lowest_bit x1 k1" "k1 < 32" "n1 + k1 = k"
    using ctz_step_lowest [OF low \<open>k < 2 * 32\<close> s1] by auto
  obtain k2 where k2: "lowest_bit x2 k2" "k2 < 16" "n2 + k2 = n1 + k1"
    using ctz_step_lowest [OF k1(1) _ s2] k1(2) by auto
  obtain k3 where k3: "lowest_bit x3 k3" "k3 < 8" "n3 + k3 = n2 + k2"
    using ctz_step_lowest [OF k2(1) _ s3] k2(2) by auto
  obtain k4 where k4: "lowest_bit x4 k4" "k4 < 4" "n4 + k4 = n3 + k3"
    using ctz_step_lowest [OF k3(1) _ s4] k3(2) by auto
  obtain k5 where k5: "lowest_bit x5 k5" "k5 < 2" "n5 + k5 = n4 + k4"
    using ctz_step_lowest [OF k4(1) _ s5] k4(2) by auto
  obtain k6 where k6: "lowest_bit x6 k6" "k6 < 1" "n6 + k6 = n5 + k5"
    using ctz_step_lowest [OF k5(1) _ s6] k5(2) by auto
  have "x6 \<noteq> 0"
    using k6(1) by (auto simp: lowest_bit_def)
  moreover have "n6 = k"
    using k1 k2 k3 k4 k5 k6 by simp
  moreover have "ewah_bit_ctz64 x = n6 + (if x6 = 0 then 1 else 0)"
    unfolding ewah_bit_ctz64_def ctz_masks by (simp only: Let_def s1 s2 s3 s4 s5 s6 prod.case)
  ultimately show ?thesis
    by simp
qed

end
