(* ===== verification/Git_Ewah_Read.thy ===== *)
theory Git_Ewah_Read
  imports Git_Ewah_Ops
begin

text \<open>
  Reading a compressed bitmap: the positions reported by \<open>ewah_each_bit\<close>, the words given by the
  iterator, and negation.
\<close>

subsection \<open>The positions of the set bits\<close>

definition bits_of :: "eword list \<Rightarrow> nat list" where
  "bits_of ws = filter (bit_at ws) [0..<length ws * 64]"

lemma bits_of_Nil [simp]: "bits_of [] = []"
  by (simp add: bits_of_def)

lemma bit_at_bound: "bit_at ws p \<Longrightarrow> p < length ws * 64"
  unfolding bit_at_def by (metis div_less_iff_less_mult zero_less_numeral)

lemma set_bits_of: "set (bits_of ws) = {p. bit_at ws p}"
  by (auto simp: bits_of_def bit_at_bound)

lemma sorted_bits_of: "sorted (bits_of ws)" "distinct (bits_of ws)"
  by (simp_all add: bits_of_def sorted_wrt_filter)

lemma bits_of_append: "bits_of (xs @ ys) = bits_of xs @ map (\<lambda>p. length xs * 64 + p) (bits_of ys)"
proof -
  have "[0..<(length xs + length ys) * 64] = [0..<length xs * 64] @ map (\<lambda>p. length xs * 64 + p) [0..<length ys * 64]"
    using upt_add_eq_append [of 0 "length xs * 64" "length ys * 64"] map_add_upt [of "length xs * 64" "length ys * 64"]
    by (simp add: distrib_right add.commute [of "length xs * 64"])
  moreover have "filter (bit_at (xs @ ys)) [0..<length xs * 64] = bits_of xs"
    unfolding bits_of_def by (intro filter_cong) (auto simp: bit_at_append)
  moreover have "filter (bit_at (xs @ ys)) (map (\<lambda>p. length xs * 64 + p) [0..<length ys * 64]) =
      map (\<lambda>p. length xs * 64 + p) (bits_of ys)"
    unfolding bits_of_def filter_map by (rule arg_cong [where f = "map _"], intro filter_cong)
      (auto simp: bit_at_append dest: bit_at_bound)
  ultimately show ?thesis
    by (simp add: bits_of_def)
qed

lemma bits_of_run: "bits_of (replicate n (fill b)) = (if b then [0..<n * 64] else [])"
proof -
  have "bit_at (replicate n (fill b)) p \<longleftrightarrow> b" if "p < n * 64" for p
  proof -
    have "p div 64 < n" "bit (NOT 0 :: eword) (p mod 64)"
      using that by (simp_all add: less_mult_imp_div_less bit_not_iff)
    then show ?thesis
      by (simp add: bit_at_def fill_def)
  qed
  then show ?thesis
    by (auto simp: bits_of_def filter_empty_conv filter_id_conv)
qed

lemma literal_bits_eq: "literal_bits pos w = map (\<lambda>p. pos + p) (bits_of [w])"
  unfolding literal_bits_def bits_of_def
  by (rule arg_cong [where f = "map _"], simp, intro filter_cong) (auto simp: bit_at_single bit_iff_and_push_bit_not_eq_0)

lemma literals_bits_eq: "literals_bits pos ws = map (\<lambda>p. pos + p) (bits_of ws)"
proof (induction ws arbitrary: pos)
  case (Cons w ws)
  have "bits_of (w # ws) = bits_of [w] @ map (\<lambda>p. 64 + p) (bits_of ws)"
    using bits_of_append [of "[w]" ws] by simp
  then show ?case
    by (simp add: Cons literal_bits_eq add.assoc)
qed simp

lemma each_bit_loop_blocks:
  "\<forall>b\<in>set bs. block_ok b \<Longrightarrow>
    each_bit_loop (enc_blocks bs) pos = Some (map (\<lambda>p. pos + p) (bits_of (words_of bs)))"
proof (induction bs arbitrary: pos)
  case (Cons c bs)
  obtain b r ls where c: "c = (b, r, ls)"
    by (cases c)
  have ok: "r \<le> max_run" "length ls \<le> max_lits"
    using Cons.prems c by simp_all
  have words: "words_of (c # bs) = replicate r (fill b) @ ls @ words_of bs"
    by (simp add: c block_words.simps)
  have run: "(if b then [pos..<pos + r * 64] else []) = map (\<lambda>p. pos + p) (if b then [0..<r * 64] else [])"
    by (simp add: map_add_upt add.commute)
  show ?case
    using Cons ok unfolding words bits_of_append bits_of_run
    by (simp add: c Let_def literals_bits_eq run comp_def add_ac del: upt_Suc)
qed simp

lemma ewah_each_bit_holds: "ewah_holds e ws \<Longrightarrow> ewah_each_bit e = Some (bits_of ws)"
proof -
  assume "ewah_holds e ws"
  then obtain bs l where rep: "ewah_rep e bs l" "words_of (bs @ [l]) = ws"
    unfolding ewah_holds_def by blast
  then have "ew_buffer e = enc_blocks (bs @ [l])" "\<forall>b\<in>set (bs @ [l]). block_ok b"
    by (auto simp: ewah_rep_def)
  then show ?thesis
    using each_bit_loop_blocks [of "bs @ [l]" 0] rep(2) by (simp add: ewah_each_bit_def del: words_of_simps enc_blocks_simps)
qed

subsection \<open>Negation\<close>

lemma not_loop_blocks:
  "\<forall>b\<in>set bs. block_ok b \<Longrightarrow>
    not_loop (enc_blocks bs) = Some (enc_blocks (map (\<lambda>(b, r, ls). (\<not> b, r, map NOT ls)) bs))"
proof (induction bs)
  case (Cons c bs)
  obtain b r ls where c: "c = (b, r, ls)"
    by (cases c)
  have "r \<le> max_run" "length ls \<le> max_lits"
    using Cons.prems c by simp_all
  then show ?case
    using Cons by (simp add: c Let_def)
qed simp

lemma not_block_words: "block_words (case c of (b, r, ls) \<Rightarrow> (\<not> b, r, map NOT ls)) = map NOT (block_words c)"
  by (cases c) (auto simp: block_words.simps fill_def)

lemma ewah_not_holds:
  assumes "ewah_holds e ws"
  shows "\<exists>e'. ewah_not e = Some e' \<and> ewah_holds e' (map NOT ws) \<and> ew_bits e' = ew_bits e"
proof -
  obtain bs l where rep: "ewah_rep e bs l" "solid bs l" "words_of (bs @ [l]) = ws"
    using assms unfolding ewah_holds_def by blast
  let ?f = "\<lambda>(b, r, ls). (\<not> b, r, map NOT ls)"
  have buf: "ew_buffer e = enc_blocks (bs @ [l])" and ok: "\<forall>b\<in>set (bs @ [l]). block_ok b"
    using rep(1) by (auto simp: ewah_rep_def)
  have len: "length (enc_blocks (map ?f cs)) = length (enc_blocks cs)" for cs
    by (induction cs) auto
  let ?e = "e\<lparr>ew_buffer := enc_blocks (map ?f (bs @ [l]))\<rparr>"
  have "ewah_not e = Some ?e"
    by (simp only: ewah_not_def buf not_loop_blocks [OF ok] option.map)
  moreover have "ewah_holds ?e (map NOT ws)"
  proof (rule holdsI [of _ "map ?f bs" "?f l"])
    show "ewah_rep ?e (map ?f bs) (?f l)"
      using rep(1) len [of bs] len [of "[l]"] by (auto simp: ewah_rep_def split: prod.splits)
    show "solid (map ?f bs) (?f l)"
      using rep(2) by (auto simp: solid_def not_block_words)
    show "words_of (map ?f bs @ [?f l]) = map NOT ws"
      unfolding rep(3) [symmetric] by (induction bs) (simp_all add: not_block_words)
  qed
  ultimately show ?thesis
    by simp
qed


subsection \<open>The words in order\<close>

definition ei_rep :: "ewah_iterator \<Rightarrow> eword list \<Rightarrow> block list \<Rightarrow> bool" where
  "ei_rep it ls cs \<longleftrightarrow>
     ei_compressed it \<le> ei_rl it \<and> ei_literals it + length ls = ei_lw it \<and>
     ei_pointer it < length (ei_buffer it) \<and>
     drop (ei_pointer it + 1) (ei_buffer it) = ls @ enc_blocks cs \<and> (\<forall>c\<in>set cs. block_ok c) \<and>
     \<not> (ei_compressed it = ei_rl it \<and> ei_literals it = ei_lw it)"

definition ei_holds :: "ewah_iterator \<Rightarrow> eword list \<Rightarrow> bool" where
  "ei_holds it ws \<longleftrightarrow>
     ei_pointer it \<ge> length (ei_buffer it) \<and> ws = [] \<or>
     (\<exists>ls cs. ei_rep it ls cs \<and> ws = replicate (ei_rl it - ei_compressed it) (fill (ei_b it)) @ ls @ words_of cs)"

lemma ei_holdsI:
  "ei_rep it ls cs \<Longrightarrow> ws = replicate (ei_rl it - ei_compressed it) (fill (ei_b it)) @ ls @ words_of cs \<Longrightarrow> ei_holds it ws"
  unfolding ei_holds_def by blast

lemma read_new_rlw_loop_holds:
  "drop (ei_pointer it) (ei_buffer it) = enc_blocks cs \<Longrightarrow> cs \<noteq> [] \<Longrightarrow> \<forall>c\<in>set cs. block_ok c \<Longrightarrow>
    ei_literals it = 0 \<Longrightarrow> ei_compressed it = 0 \<Longrightarrow> ei_holds (read_new_rlw_loop it) (words_of cs)"
proof (induction cs arbitrary: it)
  case (Cons c cs)
  obtain b r ls where c: "c = (b, r, ls)"
    by (cases c)
  have ok: "r \<le> max_run" "length ls \<le> max_lits"
    using Cons.prems(3) c by simp_all
  have d: "drop (ei_pointer it) (ei_buffer it) = mk_rlw b r (length ls) # ls @ enc_blocks cs"
    using Cons.prems(1) c by simp
  then have p: "ei_pointer it < length (ei_buffer it)"
    by (metis drop_eq_Nil list.distinct(1) not_le)
  have w: "ei_buffer it ! ei_pointer it = mk_rlw b r (length ls)"
    and d1: "drop (ei_pointer it + 1) (ei_buffer it) = ls @ enc_blocks cs"
    using d p by (metis Cons_nth_drop_Suc list.inject Suc_eq_plus1)+
  let ?it = "it\<lparr>ei_rl := r, ei_lw := length ls, ei_b := b\<rparr>"
  show ?case
  proof (cases "r \<noteq> 0 \<or> length ls \<noteq> 0")
    case True
    then have "read_new_rlw_loop it = ?it"
      using w ok by (subst read_new_rlw_loop.simps) (simp add: Let_def)
    moreover have "ei_rep ?it ls cs"
      using True Cons.prems p d1 by (auto simp: ei_rep_def)
    ultimately show ?thesis
      using Cons.prems(5) by (intro ei_holdsI [of _ ls cs]) (simp_all add: c block_words.simps)
  next
    case empty: False
    show ?thesis
    proof (cases cs)
      case Nil
      then have "length (ei_buffer it) = ei_pointer it + 1"
        using arg_cong [OF d, of length] empty p by simp
      then show ?thesis
        using w ok empty Nil
        by (subst read_new_rlw_loop.simps) (simp add: Let_def ei_holds_def c block_words.simps)
    next
      case (Cons c' cs')
      have "length (drop (ei_pointer it + 1) (ei_buffer it)) > 0"
        unfolding d1 Cons by (cases c') simp
      then have "read_new_rlw_loop it = read_new_rlw_loop (?it\<lparr>ei_pointer := ei_pointer it + 1\<rparr>)"
        using w ok empty by (subst read_new_rlw_loop.simps) (simp add: Let_def)
      moreover have "ei_holds (read_new_rlw_loop (?it\<lparr>ei_pointer := ei_pointer it + 1\<rparr>)) (words_of cs)"
        using Cons.prems d1 empty Cons by (intro Cons.IH) simp_all
      moreover have "words_of (c # cs) = words_of cs"
        using empty by (simp add: c block_words.simps)
      ultimately show ?thesis
        by simp
    qed
  qed
qed simp

lemma read_new_rlw_holds:
  "drop (ei_pointer it) (ei_buffer it) = enc_blocks cs \<Longrightarrow> \<forall>c\<in>set cs. block_ok c \<Longrightarrow>
    ei_holds (if ei_pointer it < length (ei_buffer it) then read_new_rlw it else it) (words_of cs)"
proof (cases cs)
  case Nil
  assume "drop (ei_pointer it) (ei_buffer it) = enc_blocks cs"
  then show ?thesis
    using Nil by (simp add: ei_holds_def)
next
  case (Cons c cs')
  assume a: "drop (ei_pointer it) (ei_buffer it) = enc_blocks cs" "\<forall>c\<in>set cs. block_ok c"
  moreover have "ei_pointer it < length (ei_buffer it)"
    using a(1) Cons by (cases c) (metis append_Cons drop_eq_Nil enc_block.simps enc_blocks_simps(2) list.distinct(1) not_le)
  ultimately show ?thesis
    unfolding read_new_rlw_def using Cons
      read_new_rlw_loop_holds [of "it\<lparr>ei_literals := 0, ei_compressed := 0\<rparr>" cs] by simp
qed

lemma ewah_iterator_init_holds: "ewah_holds e ws \<Longrightarrow> ei_holds (ewah_iterator_init e) ws"
proof -
  assume "ewah_holds e ws"
  then obtain bs l where rep: "ewah_rep e bs l" "words_of (bs @ [l]) = ws"
    unfolding ewah_holds_def by blast
  then have "drop 0 (ew_buffer e) = enc_blocks (bs @ [l])" "\<forall>b\<in>set (bs @ [l]). block_ok b"
    by (auto simp: ewah_rep_def)
  then show ?thesis
    using read_new_rlw_holds [of "\<lparr>ei_buffer = ew_buffer e, ei_pointer = 0, ei_compressed = 0, ei_literals = 0,
      ei_rl = 0, ei_lw = 0, ei_b = False\<rparr>" "bs @ [l]"] rep(2)
    unfolding ewah_iterator_init_def Let_def by (simp del: words_of_simps enc_blocks_simps)
qed

lemma ewah_iterator_next_Nil: "ei_holds it [] \<Longrightarrow> ewah_iterator_next it = Some (None, it)"
  by (auto simp: ei_holds_def ei_rep_def ewah_iterator_next_def)

text \<open>After a word, the iterator moves to the next running length word once the current one is used up.\<close>

lemma ei_advance:
  assumes "drop (ei_pointer it + 1) (ei_buffer it) = ls @ enc_blocks cs"
    and "ei_compressed it \<le> ei_rl it" and "ei_literals it + length ls = ei_lw it"
    and "ei_pointer it < length (ei_buffer it)" and "\<forall>c\<in>set cs. block_ok c"
    and "ws = replicate (ei_rl it - ei_compressed it) (fill (ei_b it)) @ ls @ words_of cs"
  shows "ei_holds (ewah_iterator_advance it) ws"
proof (cases "ei_compressed it = ei_rl it \<and> ei_literals it = ei_lw it")
  case True
  then show ?thesis
    using assms read_new_rlw_holds [of "it\<lparr>ei_pointer := Suc (ei_pointer it)\<rparr>" cs]
    by (simp add: ewah_iterator_advance_def Let_def split: if_splits)
next
  case False
  then show ?thesis
    using assms by (auto intro!: ei_holdsI [of it ls cs] simp: ei_rep_def ewah_iterator_advance_def)
qed

lemma ewah_iterator_next_Cons:
  assumes "ei_holds it (w # ws)"
  obtains it' where "ewah_iterator_next it = Some (Some w, it')" "ei_holds it' ws"
proof -
  obtain ls cs where rep: "ei_rep it ls cs"
    and ws: "w # ws = replicate (ei_rl it - ei_compressed it) (fill (ei_b it)) @ ls @ words_of cs"
    using assms unfolding ei_holds_def by blast
  have p: "ei_pointer it < length (ei_buffer it)"
    using rep by (simp add: ei_rep_def)
  show ?thesis
  proof (cases "ei_compressed it < ei_rl it")
    case True
    then have "ei_rl it - ei_compressed it = Suc (ei_rl it - (ei_compressed it + 1))"
      by simp
    then have w: "w = fill (ei_b it)" "ws = replicate (ei_rl it - (ei_compressed it + 1)) (fill (ei_b it)) @ ls @ words_of cs"
      using ws by simp_all
    let ?it = "it\<lparr>ei_compressed := ei_compressed it + 1\<rparr>"
    have "ewah_iterator_next it = Some (Some w, ewah_iterator_advance ?it)"
      using True p by (simp add: ewah_iterator_next_def w)
    moreover have "ei_holds (ewah_iterator_advance ?it) ws"
      using True rep by (intro ei_advance [of ?it ls cs]) (simp_all add: ei_rep_def w)
    ultimately show ?thesis
      by (rule that)
  next
    case False
    then have run: "ei_compressed it = ei_rl it"
      using rep by (simp add: ei_rep_def)
    then have "ls \<noteq> []"
      using rep by (auto simp: ei_rep_def)
    then obtain x ls' where ls: "ls = x # ls'"
      by (cases ls) simp_all
    have w: "w = x" "ws = ls' @ words_of cs"
      using ws run ls by simp_all
    have d: "drop (ei_pointer it + 1) (ei_buffer it) = x # ls' @ enc_blocks cs"
      using rep ls by (simp add: ei_rep_def)
    then have p1: "ei_pointer it + 1 < length (ei_buffer it)"
      by (metis drop_eq_Nil list.distinct(1) not_le)
    have x: "ei_buffer it ! (ei_pointer it + 1) = x" "drop (ei_pointer it + 1 + 1) (ei_buffer it) = ls' @ enc_blocks cs"
      using d p1 by (metis Cons_nth_drop_Suc list.inject Suc_eq_plus1)+
    let ?it = "it\<lparr>ei_literals := ei_literals it + 1, ei_pointer := ei_pointer it + 1\<rparr>"
    have "ei_literals it < ei_lw it"
      using rep ls by (simp add: ei_rep_def)
    then have "ewah_iterator_next it = Some (Some w, ewah_iterator_advance ?it)"
      using run p p1 x(1) by (simp add: ewah_iterator_next_def w)
    moreover have "ei_holds (ewah_iterator_advance ?it) ws"
      using run rep ls p1 x(2) by (intro ei_advance [of ?it ls' cs]) (simp_all add: ei_rep_def w)
    ultimately show ?thesis
      by (rule that)
  qed
qed

lemma ewah_iterate_holds: "ei_holds it ws \<Longrightarrow> ewah_iterate f it s = Some (fold f ws s)"
proof (induction ws arbitrary: it s)
  case Nil
  then show ?case
    by (simp add: ewah_iterate.simps ewah_iterator_next_Nil)
next
  case (Cons w ws)
  obtain it' where "ewah_iterator_next it = Some (Some w, it')" "ei_holds it' ws"
    by (rule ewah_iterator_next_Cons [OF Cons.prems])
  then show ?case
    using Cons.IH by (simp add: ewah_iterate.simps)
qed

text \<open>Setting several bits.\<close>

fun ewah_set_all :: "ewah_bitmap \<Rightarrow> nat list \<Rightarrow> ewah_bitmap option" where
  "ewah_set_all e [] = Some e"
| "ewah_set_all e (p # ps) = (case ewah_set e p of None \<Rightarrow> None | Some e' \<Rightarrow> ewah_set_all e' ps)"

lemma ewah_set_all_tight:
  "ewah_tight e ws \<Longrightarrow> sorted_wrt (<) ps \<Longrightarrow> \<forall>p\<in>set ps. ew_bits e \<le> p \<Longrightarrow>
    \<exists>e' ws'. ewah_set_all e ps = Some e' \<and> ewah_tight e' ws' \<and> ew_bits e' = (if ps = [] then ew_bits e else last ps + 1) \<and>
      (\<forall>p. bit_at ws' p \<longleftrightarrow> bit_at ws p \<or> p \<in> set ps)"
proof (induction ps arbitrary: e ws)
  case (Cons p ps)
  have "ew_bits e \<le> p"
    using Cons.prems(3) by simp
  then obtain e1 ws1 where e1: "ewah_set e p = Some e1" "ewah_tight e1 ws1" "ew_bits e1 = p + 1"
    "\<forall>q. bit_at ws1 q \<longleftrightarrow> bit_at ws q \<or> q = p"
    using ewah_set_tight [OF Cons.prems(1)] by blast
  have "sorted_wrt (<) ps" "\<forall>q\<in>set ps. ew_bits e1 \<le> q"
    using Cons.prems(2) e1(3) by auto
  from Cons.IH [OF e1(2) this] show ?case
    using e1 by (auto split: if_splits)
qed auto

text \<open>
  (C17) Setting bits in increasing order, which is the only order \<open>ewah_set\<close> accepts, never fails, and
  reading the bitmap back gives them: \<open>ewah_each_bit\<close> reports exactly these positions in order,
  the bit size is one more than the last, and the iterator gives words that have exactly these
  bits.
\<close>

theorem ewah_set_each_bit:
  assumes "sorted_wrt (<) ps"
  shows "\<exists>e ws. ewah_set_all ewah_new ps = Some e \<and> ew_bits e = (if ps = [] then 0 else last ps + 1) \<and>
    ewah_each_bit e = Some ps \<and> (\<forall>p. bit_at ws p \<longleftrightarrow> p \<in> set ps) \<and>
    ewah_iterate (\<lambda>w acc. acc @ [w]) (ewah_iterator_init e) [] = Some ws"
proof -
  have new: "ew_bits ewah_new = 0"
    by (simp add: ewah_new_def ewah_clear_def)
  then have "ewah_tight ewah_new []"
    using ewah_new_holds by (simp add: ewah_tight_def DIV_ROUND_UP_def)
  then obtain e ws where e: "ewah_set_all ewah_new ps = Some e" "ewah_tight e ws"
    "ew_bits e = (if ps = [] then 0 else last ps + 1)" "\<forall>p. bit_at ws p \<longleftrightarrow> p \<in> set ps"
    using ewah_set_all_tight [of ewah_new "[]" ps] assms new by auto
  have holds: "ewah_holds e ws"
    using e(2) by (simp add: ewah_tight_def)
  have "bits_of ws = ps"
    using sorted_bits_of [of ws] set_bits_of [of ws] e(4) assms
    by (intro sorted_distinct_set_unique) (auto simp: strict_sorted_iff)
  then have bits: "ewah_each_bit e = Some ps"
    using ewah_each_bit_holds [OF holds] by simp
  have fold_snoc: "fold (\<lambda>w acc. acc @ [w]) vs acc = acc @ vs" for vs acc :: "eword list"
    by (induction vs arbitrary: acc) simp_all
  have "ewah_iterate (\<lambda>w acc. acc @ [w]) (ewah_iterator_init e) [] = Some ws"
    by (simp add: ewah_iterate_holds [OF ewah_iterator_init_holds [OF holds]] fold_snoc)
  then show ?thesis
    using e bits by blast
qed

theorem ewah_set_each_bit_witness:
  "\<exists>e. ewah_set_all ewah_new [0, 63, 64, 1000] = Some e \<and> ewah_each_bit e = Some [0, 63, 64, 1000]"
  using ewah_set_each_bit [of "[0, 63, 64, 1000]"] by auto

end
