(* ===== verification/Git_Bitmap.thy ===== *)
theory Git_Bitmap
  imports Git_Bits Git_Ewah_Read
begin

text \<open>
  \<^verbatim>\<open>ewah/bitmap.c\<close>: uncompressed bitmaps.  A bitmap is the list of its \<open>word_alloc\<close> words; an access
  beyond them is \<open>None\<close>.
\<close>

subsection \<open>The operations\<close>

definition EWAH_MASK :: "nat \<Rightarrow> eword" where "EWAH_MASK x = push_bit (x mod BITS_IN_EWORD) 1"
definition EWAH_BLOCK :: "nat \<Rightarrow> nat" where "EWAH_BLOCK x = x div BITS_IN_EWORD"

definition bitmap_new :: "eword list" where "bitmap_new = replicate 32 0"

definition bitmap_set :: "eword list \<Rightarrow> nat \<Rightarrow> eword list option" where
  "bitmap_set self pos =
     (let block = EWAH_BLOCK pos;
          words = (if block \<ge> length self then self @ replicate (block * 2 - length self) 0 else self)
      in if block < length words then Some (words[block := words ! block OR EWAH_MASK pos]) else None)"

definition bitmap_clear :: "eword list \<Rightarrow> nat \<Rightarrow> eword list" where
  "bitmap_clear self pos =
     (let block = EWAH_BLOCK pos
      in if block < length self then self[block := self ! block AND NOT (EWAH_MASK pos)] else self)"

definition bitmap_get :: "eword list \<Rightarrow> nat \<Rightarrow> bool" where
  "bitmap_get self pos =
     (let block = EWAH_BLOCK pos in block < length self \<and> self ! block AND EWAH_MASK pos \<noteq> 0)"

text \<open>The loop of \<open>bitmap_to_ewah\<close>, with the empty words and the last word held back.\<close>

fun to_ewah_loop :: "eword list \<Rightarrow> ewah_bitmap \<Rightarrow> nat \<Rightarrow> eword \<Rightarrow> (ewah_bitmap \<times> eword) option" where
  "to_ewah_loop [] ewah running_empty_words last_word = Some (ewah, last_word)"
| "to_ewah_loop (word # words) ewah running_empty_words last_word =
     (if word = 0 then to_ewah_loop words ewah (running_empty_words + 1) last_word
      else do {
        ewah1 \<leftarrow> (if last_word \<noteq> 0 then map_option fst (ewah_add ewah last_word) else Some ewah);
        ewah2 \<leftarrow> (if running_empty_words > 0
                  then map_option fst (ewah_add_empty_words ewah1 False running_empty_words) else Some ewah1);
        to_ewah_loop words ewah2 0 word
      })"

definition bitmap_to_ewah :: "eword list \<Rightarrow> ewah_bitmap option" where
  "bitmap_to_ewah bitmap =
     do {
       (ewah, last_word) \<leftarrow> to_ewah_loop bitmap ewah_new 0 0;
       map_option fst (ewah_add ewah last_word)
     }"

text \<open>
  Storing the word number \<open>i\<close>.  The words that growing the array makes room for beyond it are
  overwritten or cut off before they are read.
\<close>

definition store_word :: "eword \<Rightarrow> eword list \<times> nat \<Rightarrow> eword list \<times> nat" where
  "store_word blowup = (\<lambda>(words, i). (if i < length words then words[i := blowup] else words @ [blowup], i + 1))"

definition ewah_to_bitmap :: "ewah_bitmap \<Rightarrow> eword list option" where
  "ewah_to_bitmap ewah =
     map_option (\<lambda>(words, i). take i words) (ewah_iterate store_word (ewah_iterator_init ewah) (bitmap_new, 0))"

definition bitmap_and_not :: "eword list \<Rightarrow> eword list \<Rightarrow> eword list" where
  "bitmap_and_not self other =
     (let count = (if length self < length other then length self else length other)
      in fold (\<lambda>i words. words[i := words ! i AND NOT (other ! i)]) [0..<count] self)"

definition or_word :: "eword \<Rightarrow> (eword list \<times> nat) option \<Rightarrow> (eword list \<times> nat) option" where
  "or_word word st =
     (case st of
        None \<Rightarrow> None
      | Some (words, i) \<Rightarrow> if i < length words then Some (words[i := words ! i OR word], i + 1) else None)"

definition bitmap_or_ewah :: "eword list \<Rightarrow> ewah_bitmap \<Rightarrow> eword list option" where
  "bitmap_or_ewah self other =
     (let other_final = ew_bits other div BITS_IN_EWORD + 1;
          words = (if length self < other_final then self @ replicate (other_final - length self) 0 else self)
      in do {
        st \<leftarrow> ewah_iterate or_word (ewah_iterator_init other) (Some (words, 0));
        map_option fst st
      })"

text \<open>The positions passed to the callback.\<close>

function word_bits_loop :: "eword \<Rightarrow> nat \<Rightarrow> nat \<Rightarrow> nat list" where
  "word_bits_loop word pos offset =
     (if offset < BITS_IN_EWORD then
        (if drop_bit offset word = 0 then []
         else let offset = offset + ewah_bit_ctz64 (drop_bit offset word)
              in (pos + offset) # word_bits_loop word pos (offset + 1))
      else [])"
  by pat_completeness auto
termination
  by (relation "measure (\<lambda>(word, pos, offset). BITS_IN_EWORD - offset)") auto

declare word_bits_loop.simps [simp del]

fun bitmap_each_bit_loop :: "eword list \<Rightarrow> nat \<Rightarrow> nat list" where
  "bitmap_each_bit_loop [] pos = []"
| "bitmap_each_bit_loop (word # words) pos =
     (if word = NOT 0 then [pos..<pos + BITS_IN_EWORD] else word_bits_loop word pos 0) @
     bitmap_each_bit_loop words (pos + BITS_IN_EWORD)"

definition bitmap_each_bit :: "eword list \<Rightarrow> nat list" where
  "bitmap_each_bit self = bitmap_each_bit_loop self 0"

definition bitmap_popcount :: "eword list \<Rightarrow> nat" where
  "bitmap_popcount self = fold (\<lambda>word count. count + unat (ewah_bit_popcount64 word)) self 0"

definition bitmap_equals :: "eword list \<Rightarrow> eword list \<Rightarrow> bool" where
  "bitmap_equals self other =
     (let (small, big) = (if length self < length other then (self, other) else (other, self))
      in list_all (\<lambda>i. small ! i = big ! i) [0..<length small] \<and>
         list_all (\<lambda>i. big ! i = 0) [length small..<length big])"

definition bitmap_reset :: "eword list \<Rightarrow> eword list" where
  "bitmap_reset bitmap = replicate (length bitmap) 0"

subsection \<open>Words and bits\<close>

lemma and_mask_bit: "w AND EWAH_MASK p \<noteq> 0 \<longleftrightarrow> bit w (p mod 64)"
  by (simp add: EWAH_MASK_def bit_iff_and_push_bit_not_eq_0)

lemma bitmap_get_bit: "bitmap_get ws p \<longleftrightarrow> bit_at ws p"
  by (simp add: bitmap_get_def bit_at_def EWAH_BLOCK_def Let_def and_mask_bit)

lemma same_place: "p div 64 = q div 64 \<Longrightarrow> p mod 64 = q mod 64 \<Longrightarrow> p = (q :: nat)"
  by (metis div_mult_mod_eq)

lemma bitmap_set_bit:
  assumes "ws \<noteq> [] \<or> 64 \<le> p"
  shows "\<exists>ws'. bitmap_set ws p = Some ws' \<and> ws' \<noteq> [] \<and> length ws \<le> length ws' \<and> (\<forall>q. bit_at ws' q \<longleftrightarrow> bit_at ws q \<or> q = p)"
proof -
  define grown where "grown = (if p div 64 \<ge> length ws then ws @ replicate (p div 64 * 2 - length ws) 0 else ws)"
  have "0 < p div 64" if "p div 64 \<ge> length ws"
    using assms that by (cases "ws = []") (simp_all add: div_greater_zero_iff flip: length_greater_0_conv)
  then have room: "p div 64 < length grown" "length ws \<le> length grown"
    by (auto simp: grown_def)
  have bits: "bit_at grown q \<longleftrightarrow> bit_at ws q" for q
    by (simp add: grown_def bit_at_append)
  let ?ws = "grown[p div 64 := grown ! (p div 64) OR EWAH_MASK p]"
  have "bit_at ?ws q \<longleftrightarrow> bit_at grown q \<or> q = p" for q
  proof (cases "q div 64 = p div 64")
    case True
    then have "q mod 64 = p mod 64 \<longleftrightarrow> q = p"
      using same_place by blast
    then show ?thesis
      using True room by (auto simp: bit_at_def EWAH_MASK_def bit_or_iff bit_exp_iff possible_bit_def)
  next
    case False
    then show ?thesis
      by (auto simp: bit_at_def)
  qed
  moreover have "bitmap_set ws p = Some ?ws"
    using room by (simp add: bitmap_set_def EWAH_BLOCK_def grown_def [symmetric] Let_def)
  ultimately show ?thesis
    using room bits by (intro exI [of _ ?ws]) auto
qed

text \<open>
  An empty bitmap, such as \<open>ewah_to_bitmap\<close> gives for an empty input, is not grown for a bit of
  the first word: the new size is twice the block number, zero.
\<close>

lemma bitmap_set_empty: "p < 64 \<Longrightarrow> bitmap_set [] p = None"
  by (simp add: bitmap_set_def EWAH_BLOCK_def)

lemma bitmap_clear_bit: "bit_at (bitmap_clear ws p) q \<longleftrightarrow> bit_at ws q \<and> q \<noteq> p"
proof (cases "q div 64 = p div 64")
  case True
  then have "q mod 64 = p mod 64 \<longleftrightarrow> q = p"
    using same_place by blast
  then show ?thesis
    using True by (auto simp: bit_at_def bitmap_clear_def EWAH_BLOCK_def Let_def EWAH_MASK_def bit_and_iff bit_not_iff bit_exp_iff possible_bit_def)
next
  case False
  then show ?thesis
    by (auto simp: bit_at_def bitmap_clear_def EWAH_BLOCK_def Let_def)
qed

lemma fold_update:
  "n \<le> length ws \<Longrightarrow>
    fold (\<lambda>i ws. ws[i := f i (ws ! i)]) [0..<n] ws = map (\<lambda>i. f i (ws ! i)) [0..<n] @ drop n ws"
proof (induction n)
  case (Suc n)
  then have "fold (\<lambda>i ws. ws[i := f i (ws ! i)]) [0..<Suc n] ws =
      (map (\<lambda>i. f i (ws ! i)) [0..<n] @ drop n ws)[n := f n ((map (\<lambda>i. f i (ws ! i)) [0..<n] @ drop n ws) ! n)]"
    by simp
  also have "\<dots> = map (\<lambda>i. f i (ws ! i)) [0..<n] @ (drop n ws)[0 := f n (ws ! n)]"
    using Suc.prems by (simp add: list_update_append nth_append)
  also have "(drop n ws)[0 := f n (ws ! n)] = f n (ws ! n) # drop (Suc n) ws"
    using Suc.prems by (metis Cons_nth_drop_Suc Suc_le_lessD list_update_code(2))
  finally show ?case
    by simp
qed simp

lemma bitmap_and_not_bit: "bit_at (bitmap_and_not ws vs) q \<longleftrightarrow> bit_at ws q \<and> \<not> bit_at vs q"
proof -
  let ?n = "if length ws < length vs then length ws else length vs"
  have "bitmap_and_not ws vs = map (\<lambda>i. ws ! i AND NOT (vs ! i)) [0..<?n] @ drop ?n ws"
    unfolding bitmap_and_not_def Let_def by (rule fold_update) simp
  then show ?thesis
    by (auto simp: bit_at_def nth_append bit_and_iff bit_not_iff split: if_splits)
qed

lemma length_and_not: "length (bitmap_and_not ws vs) = length ws"
proof -
  let ?n = "if length ws < length vs then length ws else length vs"
  have "bitmap_and_not ws vs = map (\<lambda>i. ws ! i AND NOT (vs ! i)) [0..<?n] @ drop ?n ws"
    unfolding bitmap_and_not_def Let_def by (rule fold_update) simp
  then show ?thesis
    by simp
qed

subsection \<open>Visiting and counting\<close>

lemma word_bits_loop_eq:
  "offset \<le> 64 \<Longrightarrow> word_bits_loop w pos offset = map (\<lambda>p. pos + p) (filter (bit w) [offset..<64])"
proof (induction w pos offset rule: word_bits_loop.induct)
  case (1 w pos offset)
  show ?case
  proof (cases "offset < 64 \<and> drop_bit offset w \<noteq> 0")
    case False
    have "filter (bit w) [offset..<64] = []"
    proof (cases "offset < 64")
      case True
      then have "drop_bit offset w = 0"
        using False by simp
      have "\<not> bit w i" if "offset \<le> i" for i
      proof -
        have "bit (drop_bit offset w) (i - offset) = bit w i"
          using that by (simp add: bit_drop_bit_eq)
        then show ?thesis
          using \<open>drop_bit offset w = 0\<close> by simp
      qed
      then show ?thesis
        by (simp add: filter_empty_conv)
    qed (use "1.prems" in simp)
    then show ?thesis
      using False by (subst word_bits_loop.simps) simp
  next
    case True
    then have "\<exists>i. bit (drop_bit offset w) i"
      by (metis bit_eqI bit_0_eq bot_apply bot_bool_def)
    then obtain k where k: "lowest_bit (drop_bit offset w) k"
      unfolding lowest_bit_def using exists_least_iff [of "bit (drop_bit offset w)"] by blast
    then have bits: "bit w (offset + k)" "\<And>i. offset \<le> i \<Longrightarrow> i < offset + k \<Longrightarrow> \<not> bit w i"
    proof -
      show "bit w (offset + k)"
        using k by (simp add: lowest_bit_def bit_drop_bit_eq)
      show "\<not> bit w i" if "offset \<le> i" "i < offset + k" for i
      proof -
        have "\<not> bit (drop_bit offset w) (i - offset)"
          using k that by (auto simp: lowest_bit_def)
        then show ?thesis
          using that by (simp add: bit_drop_bit_eq)
      qed
    qed
    then have lt: "offset + k < 64"
      by (auto dest: bit_imp_le_length)
    have ctz: "ewah_bit_ctz64 (drop_bit offset w) = k"
      by (rule ewah_bit_ctz64_lowest [OF k])
    have "[offset..<64] = [offset..<offset + k] @ (offset + k) # [offset + k + 1..<64]"
      using lt by (metis Suc_eq_plus1 le_add1 less_imp_le upt_add_eq_append upt_conv_Cons le_add_diff_inverse)
    moreover have "filter (bit w) [offset..<offset + k] = []"
      using bits(2) by (simp add: filter_empty_conv)
    ultimately have "filter (bit w) [offset..<64] = (offset + k) # filter (bit w) [offset + k + 1..<64]"
      using bits(1) by simp
    then show ?thesis
      using True lt "1.IH" ctz by (subst word_bits_loop.simps) (simp add: Let_def)
  qed
qed

lemma bitmap_each_bit_loop_eq: "bitmap_each_bit_loop ws pos = map (\<lambda>p. pos + p) (bits_of ws)"
proof (induction ws arbitrary: pos)
  case (Cons w ws)
  have "bits_of (w # ws) = bits_of [w] @ map (\<lambda>p. 64 + p) (bits_of ws)"
    using bits_of_append [of "[w]" ws] by simp
  moreover have "(if w = NOT 0 then [pos..<pos + 64] else word_bits_loop w pos 0) = map (\<lambda>p. pos + p) (bits_of [w])"
  proof (cases "w = NOT 0")
    case True
    then show ?thesis
      using bits_of_run [of 1 True] map_add_upt [of pos 64] by (simp add: fill_def add.commute)
  next
    case False
    have "bits_of [w] = filter (bit w) [0..<64]"
      unfolding bits_of_def by (rule filter_cong) (simp_all add: bit_at_single)
    then show ?thesis
      using False by (simp add: word_bits_loop_eq)
  qed
  ultimately show ?case
    by (simp add: Cons add.assoc)
qed simp

lemma bitmap_each_bit_eq: "bitmap_each_bit ws = bits_of ws"
  by (simp add: bitmap_each_bit_def bitmap_each_bit_loop_eq)

lemma bitmap_popcount_eq: "bitmap_popcount ws = length (bits_of ws)"
proof -
  have word: "unat (ewah_bit_popcount64 w) = length (bits_of [w])" for w
  proof -
    have "bits_of [w] = filter (bit w) [0..<64]"
      unfolding bits_of_def by (rule filter_cong) (simp_all add: bit_at_single)
    moreover have "length (filter (bit w) [0..<n]) = (\<Sum>i<n. of_bool (bit w i))" for n
      by (induction n) simp_all
    ultimately show ?thesis
      by (simp only: ewah_bit_popcount64_eq)
  qed
  have "fold (\<lambda>word count. count + unat (ewah_bit_popcount64 word)) ws c = c + length (bits_of ws)" for c
  proof (induction ws arbitrary: c)
    case (Cons w ws)
    then show ?case
      using bits_of_append [of "[w]" ws] word [of w] by simp
  qed simp
  then show ?thesis
    by (simp add: bitmap_popcount_def)
qed


text \<open>Two bitmaps are equal when they have the same bits, whatever their lengths.\<close>

lemma bit_at_same_words: "(\<forall>p. bit_at xs p \<longleftrightarrow> bit_at ys p) \<longleftrightarrow>
  (\<forall>i. (if i < length xs then xs ! i else 0) = (if i < length ys then ys ! i else 0))"
proof -
  have at: "bit_at ws p \<longleftrightarrow> bit (if p div 64 < length ws then ws ! (p div 64) else 0) (p mod 64)" for ws p
    by (simp add: bit_at_def)
  show ?thesis
  proof (rule iffI; rule allI)
    fix i
    assume same: "\<forall>p. bit_at xs p \<longleftrightarrow> bit_at ys p"
    show "(if i < length xs then xs ! i else 0) = (if i < length ys then ys ! i else 0)"
    proof (rule bit_word_eqI)
      fix n assume "n < LENGTH(64)"
      then have at_n: "(i * 64 + n) div 64 = i" "(i * 64 + n) mod 64 = n"
        by simp_all
      then show "bit (if i < length xs then xs ! i else 0) n = bit (if i < length ys then ys ! i else 0) n"
        using same [rule_format, of "i * 64 + n"] unfolding at at_n by (simp only:)
    qed
  next
    fix p
    assume same: "\<forall>i. (if i < length xs then xs ! i else 0) = (if i < length ys then ys ! i else 0)"
    show "bit_at xs p = bit_at ys p"
      unfolding at using same [rule_format, of "p div 64"] by (simp only:)
  qed
qed

lemma bitmap_equals_bits: "bitmap_equals xs ys \<longleftrightarrow> (\<forall>p. bit_at xs p \<longleftrightarrow> bit_at ys p)"
proof -
  have main: "list_all (\<lambda>i. small ! i = big ! i) [0..<length small] \<and> list_all (\<lambda>i. big ! i = 0) [length small..<length big] \<longleftrightarrow>
      (\<forall>i. (if i < length small then small ! i else 0) = (if i < length big then big ! i else 0))"
    if "length small \<le> length big" for small big :: "eword list"
    using that by (auto simp: list_all_iff)
  show ?thesis
    unfolding bit_at_same_words using main [of xs ys] main [of ys xs]
    by (auto simp: bitmap_equals_def Let_def)
qed

lemma bitmap_reset_bit: "\<not> bit_at (bitmap_reset ws) p"
  by (simp add: bitmap_reset_def)

text \<open>
  (C19) A bitmap refines a set of positions: reading, setting, clearing, taking differences, visiting
  in increasing order, counting, comparing and resetting are the operations on sets.  Setting
  a bit succeeds unless the bitmap has no words and the position is in the first.
\<close>

theorem bitmap_refines_set:
  defines "bits ws \<equiv> {p. bit_at ws p}"
  shows "bitmap_get ws p = (p \<in> bits ws) \<and>
    (if ws = [] \<and> p < 64 then bitmap_set ws p = None
     else \<exists>ws'. bitmap_set ws p = Some ws' \<and> bits ws' = insert p (bits ws) \<and> ws' \<noteq> []) \<and>
    bits (bitmap_clear ws p) = bits ws - {p} \<and>
    bits (bitmap_and_not ws vs) = bits ws - bits vs \<and>
    bitmap_each_bit ws = sorted_list_of_set (bits ws) \<and>
    bitmap_popcount ws = card (bits ws) \<and>
    bitmap_equals ws vs = (bits ws = bits vs) \<and>
    bits (bitmap_reset ws) = {}"
proof (intro conjI)
  have bits_of: "set (bits_of ws) = bits ws"
    by (simp add: set_bits_of bits_def)
  show "bitmap_get ws p = (p \<in> bits ws)"
    by (simp add: bitmap_get_bit bits_def)
  show "if ws = [] \<and> p < 64 then bitmap_set ws p = None
     else \<exists>ws'. bitmap_set ws p = Some ws' \<and> bits ws' = insert p (bits ws) \<and> ws' \<noteq> []"
  proof (cases "ws = [] \<and> p < 64")
    case False
    then obtain ws' where "bitmap_set ws p = Some ws'" "ws' \<noteq> []" "\<forall>q. bit_at ws' q \<longleftrightarrow> bit_at ws q \<or> q = p"
      using bitmap_set_bit [of ws p] by auto
    then show ?thesis
      using False by (auto simp: bits_def)
  qed (simp add: bitmap_set_empty)
  show "bits (bitmap_clear ws p) = bits ws - {p}"
    by (auto simp: bits_def bitmap_clear_bit)
  show "bits (bitmap_and_not ws vs) = bits ws - bits vs"
    by (auto simp: bits_def bitmap_and_not_bit)
  show "bitmap_each_bit ws = sorted_list_of_set (bits ws)"
    using sorted_bits_of [of ws] bits_of by (metis bitmap_each_bit_eq sorted_list_of_set.idem_if_sorted_distinct)
  show "bitmap_popcount ws = card (bits ws)"
    using sorted_bits_of(2) [of ws] bits_of by (metis bitmap_popcount_eq distinct_card)
  show "bitmap_equals ws vs = (bits ws = bits vs)"
    by (auto simp: bits_def bitmap_equals_bits)
  show "bits (bitmap_reset ws) = {}"
    by (simp add: bits_def bitmap_reset_bit)
qed


subsection \<open>Compressed bitmaps\<close>

lemma to_ewah_loop_holds:
  "ewah_holds e ws \<Longrightarrow> ew_bits e = length ws * 64 \<Longrightarrow>
    \<exists>e' lw. to_ewah_loop words e n last_word = Some (e', lw) \<and>
      (\<exists>ws' m. ewah_holds e' ws' \<and> ew_bits e' = length ws' * 64 \<and>
        ws @ (if last_word = 0 then [] else [last_word]) @ replicate n 0 @ words =
        ws' @ (if lw = 0 then [] else [lw]) @ replicate m 0)"
proof (induction words arbitrary: e ws n last_word)
  case (Cons w words)
  show ?case
  proof (cases "w = 0")
    case True
    then show ?thesis
      using Cons.IH [OF Cons.prems, of "n + 1" last_word] by (simp add: replicate_app_Cons_same)
  next
    case False
    let ?ws1 = "ws @ (if last_word = 0 then [] else [last_word])"
    obtain e1 where e1: "(if last_word \<noteq> 0 then map_option fst (ewah_add e last_word) else Some e) = Some e1"
      "ewah_holds e1 ?ws1" "ew_bits e1 = length ?ws1 * 64"
      using ewah_add_holds [OF Cons.prems(1), of last_word] Cons.prems by (cases "last_word = 0") auto
    obtain e2 where e2: "(if n > 0 then map_option fst (ewah_add_empty_words e1 False n) else Some e1) = Some e2"
      "ewah_holds e2 (?ws1 @ replicate n 0)" "ew_bits e2 = length (?ws1 @ replicate n 0) * 64"
      using ewah_add_empty_words_holds [OF e1(2), of False n] e1(2,3)
      by (cases "n = 0") (auto simp: fill_def add_mult_distrib)
    show ?thesis
      using Cons.IH [OF e2(2,3), of 0 w] False e1(1) e2(1) by simp
  qed
qed auto

lemma bitmap_to_ewah_holds:
  obtains e ws' where "bitmap_to_ewah ws = Some e" "ewah_holds e ws'" "ew_bits e = length ws' * 64"
    "\<forall>p. bit_at ws' p \<longleftrightarrow> bit_at ws p"
proof -
  have "ew_bits ewah_new = length ([] :: eword list) * 64"
    by (simp add: ewah_new_def ewah_clear_def)
  then obtain e lw ws' m where e: "to_ewah_loop ws ewah_new 0 0 = Some (e, lw)" "ewah_holds e ws'" "ew_bits e = length ws' * 64"
    "ws = ws' @ (if lw = 0 then [] else [lw]) @ replicate m 0"
    using to_ewah_loop_holds [OF ewah_new_holds, of ws 0 0] by auto
  obtain e' k where e': "ewah_add e lw = Some (e', k)" "ewah_holds e' (ws' @ [lw])" "ew_bits e' = ew_bits e + 64"
    using ewah_add_holds [OF e(2)] by blast
  have "bit_at (ws' @ [lw]) p \<longleftrightarrow> bit_at ws p" for p
    unfolding e(4) by (auto simp: bit_at_append bit_at_single)
  then show ?thesis
    using that [of e' "ws' @ [lw]"] e(1,3) e' by (simp add: bitmap_to_ewah_def)
qed

lemma fold_store_word:
  "i \<le> length words \<Longrightarrow>
    \<exists>words'. fold store_word ws (words, i) = (words', i + length ws) \<and> i + length ws \<le> length words' \<and>
      take (i + length ws) words' = take i words @ ws"
proof (induction ws arbitrary: words i)
  case (Cons w ws)
  let ?words = "if i < length words then words[i := w] else words @ [w]"
  have "i + 1 \<le> length ?words" "take (i + 1) ?words = take i words @ [w]"
    using Cons.prems by (auto simp: take_Suc_conv_app_nth)
  then show ?case
    using Cons.IH [of "i + 1" ?words] by (simp add: store_word_def)
qed simp

lemma ewah_to_bitmap_holds: "ewah_holds e ws \<Longrightarrow> ewah_to_bitmap e = Some ws"
proof -
  assume "ewah_holds e ws"
  then have "ewah_iterate store_word (ewah_iterator_init e) (bitmap_new, 0) = Some (fold store_word ws (bitmap_new, 0))"
    by (intro ewah_iterate_holds ewah_iterator_init_holds)
  moreover obtain words' where "fold store_word ws (bitmap_new, 0) = (words', length ws)" "take (length ws) words' = ws"
    using fold_store_word [of 0 bitmap_new ws] by auto
  ultimately show ?thesis
    by (simp add: ewah_to_bitmap_def)
qed

lemma or_word_Some: "or_word w (Some (words, i)) = (if i < length words then Some (words[i := words ! i OR w], i + 1) else None)"
  by (simp add: or_word_def)

lemma fold_or_word:
  "i + length ws \<le> length words \<Longrightarrow>
    \<exists>words'. fold or_word ws (Some (words, i)) = Some (words', i + length ws) \<and> length words' = length words \<and>
      (\<forall>p. bit_at words' p \<longleftrightarrow> bit_at words p \<or> i * 64 \<le> p \<and> bit_at ws (p - i * 64))"
proof (induction ws arbitrary: words i)
  case (Cons w ws)
  have i: "i < length words"
    using Cons.prems by simp
  let ?words = "words[i := words ! i OR w]"
  have at: "bit_at ?words p \<longleftrightarrow> bit_at words p \<or> i * 64 \<le> p \<and> bit_at [w] (p - i * 64)" for p
  proof (cases "p div 64 = i")
    case True
    then have "i * 64 \<le> p" "p - i * 64 = p mod 64"
      by (auto simp: minus_div_mult_eq_mod)
    then show ?thesis
      using True i by (auto simp: bit_at_def bit_or_iff)
  next
    case False
    then have "\<not> (i * 64 \<le> p \<and> p - i * 64 < 64)"
      by auto
    then show ?thesis
      using False by (auto simp: bit_at_def bit_at_single)
  qed
  have cons: "i * 64 \<le> p \<and> bit_at (w # ws) (p - i * 64) \<longleftrightarrow>
      i * 64 \<le> p \<and> bit_at [w] (p - i * 64) \<or> (i + 1) * 64 \<le> p \<and> bit_at ws (p - (i + 1) * 64)" for p
    using bit_at_append [of "[w]" ws "p - i * 64"] by (auto simp: algebra_simps)
  obtain words' where "fold or_word ws (Some (?words, i + 1)) = Some (words', i + 1 + length ws)"
    "length words' = length ?words"
    "\<forall>p. bit_at words' p \<longleftrightarrow> bit_at ?words p \<or> (i + 1) * 64 \<le> p \<and> bit_at ws (p - (i + 1) * 64)"
    using Cons.IH [of "i + 1" ?words] Cons.prems by auto
  then show ?case
    using i at cons by (intro exI [of _ words']) (auto simp: or_word_Some)
qed simp

lemma bitmap_or_ewah_holds:
  assumes "ewah_holds e vs" and "length vs \<le> ew_bits e div 64 + 1"
  shows "\<exists>ws'. bitmap_or_ewah ws e = Some ws' \<and> (\<forall>p. bit_at ws' p \<longleftrightarrow> bit_at ws p \<or> bit_at vs p)"
proof -
  let ?final = "ew_bits e div 64 + 1"
  let ?words = "if length ws < ?final then ws @ replicate (?final - length ws) 0 else ws"
  have bits: "bit_at ?words p \<longleftrightarrow> bit_at ws p" for p
    by (simp add: bit_at_append)
  have "0 + length vs \<le> length ?words"
    using assms(2) by simp
  from fold_or_word [OF this] obtain words' n where w: "fold or_word vs (Some (?words, 0)) = Some (words', n)"
    "\<forall>p. bit_at words' p \<longleftrightarrow> bit_at ?words p \<or> bit_at vs p"
    by auto
  have "ewah_iterate or_word (ewah_iterator_init e) (Some (?words, 0)) = Some (Some (words', n))"
    using ewah_iterate_holds [OF ewah_iterator_init_holds [OF assms(1)], of or_word "Some (?words, 0)"] w(1) by simp
  then show ?thesis
    using w(2) bits unfolding bitmap_or_ewah_def Let_def by simp
qed

text \<open>
  (C20) Compressing a bitmap always succeeds and keeps its bits: uncompressing gives a bitmap with
  the same bits (equal for \<open>bitmap_equals\<close>, trailing zero words may be gone), visiting the
  compressed one gives the same positions, and adding it to another bitmap never writes beyond
  its words and gives the union.
\<close>

theorem bitmap_ewah_roundtrip:
  "\<exists>e ws'. bitmap_to_ewah ws = Some e \<and> ewah_to_bitmap e = Some ws' \<and> bitmap_equals ws ws' \<and>
     ewah_each_bit e = Some (bitmap_each_bit ws) \<and>
     (\<exists>us. bitmap_or_ewah vs e = Some us \<and> set (bitmap_each_bit us) = set (bitmap_each_bit vs) \<union> set (bitmap_each_bit ws))"
proof -
  obtain e ws' where e: "bitmap_to_ewah ws = Some e" "ewah_holds e ws'" "ew_bits e = length ws' * 64"
    "\<forall>p. bit_at ws' p \<longleftrightarrow> bit_at ws p"
    by (rule bitmap_to_ewah_holds)
  have "bits_of ws' = bits_of ws"
    using sorted_bits_of set_bits_of e(4) by (intro sorted_distinct_set_unique) auto
  then have "ewah_each_bit e = Some (bitmap_each_bit ws)"
    using ewah_each_bit_holds [OF e(2)] by (simp add: bitmap_each_bit_eq)
  moreover have "\<exists>us. bitmap_or_ewah vs e = Some us \<and> set (bitmap_each_bit us) = set (bitmap_each_bit vs) \<union> set (bitmap_each_bit ws)"
    using bitmap_or_ewah_holds [OF e(2), of vs] e(3,4) by (auto simp: bitmap_each_bit_eq set_bits_of)
  ultimately show ?thesis
    using e ewah_to_bitmap_holds [OF e(2)] bitmap_equals_bits by blast
qed

end
