(* ===== verification/Git_Hashmap.thy ===== *)
theory Git_Hashmap
  imports Git_Strings Git_Bswap "HOL-Library.Monad_Syntax"
begin

text \<open>
  \<^verbatim>\<open>hashmap.c\<close> and \<^verbatim>\<open>hashmap.h\<close>: hash tables with chained entries.  An entry is what is at the address
  \<open>he_id\<close>: its hash and the structure it is embedded in; entries of the caller's stack have address
  0.  A chain of \<open>next\<close> pointers is the list of its entries, so an entry is in one chain at most.
  The counters and sizes are unsigned words of 32 bits.  An access outside the table, for
  instance to the table of a hm that is not initialized, is \<open>None\<close>.
\<close>

subsection \<open>Hash functions\<close>

definition FNV32_BASE :: u32 where "FNV32_BASE = 0x811c9dc5"
definition FNV32_PRIME :: u32 where "FNV32_PRIME = 0x01000193"

definition hash_step :: "u32 \<Rightarrow> u32 \<Rightarrow> u32" where
  "hash_step hash c = (hash * FNV32_PRIME) XOR c"

text \<open>The C strings end before their first NUL.\<close>

fun strhash_loop :: "byte list \<Rightarrow> u32 \<Rightarrow> u32" where
  "strhash_loop [] hash = hash"
| "strhash_loop (c # str) hash = (if c = 0 then hash else strhash_loop str (hash_step hash (ucast c)))"

definition strhash :: "byte list \<Rightarrow> u32" where
  "strhash str = strhash_loop str FNV32_BASE"

definition upcase :: "u32 \<Rightarrow> u32" where
  "upcase c = (if 97 \<le> c \<and> c \<le> 122 then c - (97 - 65) else c)"

fun strihash_loop :: "byte list \<Rightarrow> u32 \<Rightarrow> u32" where
  "strihash_loop [] hash = hash"
| "strihash_loop (c # str) hash = (if c = 0 then hash else strihash_loop str (hash_step hash (upcase (ucast c))))"

definition strihash :: "byte list \<Rightarrow> u32" where
  "strihash str = strihash_loop str FNV32_BASE"

fun memhash_loop :: "byte list \<Rightarrow> u32 \<Rightarrow> u32" where
  "memhash_loop [] hash = hash"
| "memhash_loop (c # buf) hash = memhash_loop buf (hash_step hash (ucast c))"

definition memhash :: "byte list \<Rightarrow> u32" where
  "memhash buf = memhash_loop buf FNV32_BASE"

fun memihash_loop :: "byte list \<Rightarrow> u32 \<Rightarrow> u32" where
  "memihash_loop [] hash = hash"
| "memihash_loop (c # buf) hash = memihash_loop buf (hash_step hash (upcase (ucast c)))"

definition memihash :: "byte list \<Rightarrow> u32" where
  "memihash buf = memihash_loop buf FNV32_BASE"

definition memihash_cont :: "u32 \<Rightarrow> byte list \<Rightarrow> u32" where
  "memihash_cont hash_seed buf = memihash_loop buf hash_seed"

subsection \<open>The table\<close>

record 'a hashmap_entry =
  he_id :: nat
  he_hash :: u32
  he_data :: 'a

text \<open>The comparison gets two entries and the key data, if any; 0 means equal.\<close>

type_synonym ('a, 'k) cmp_fn = "'a hashmap_entry \<Rightarrow> 'a hashmap_entry \<Rightarrow> 'k option \<Rightarrow> int"

record ('a, 'k) hashmap =
  hm_table :: "'a hashmap_entry list list"
  hm_cmpfn :: "('a, 'k) cmp_fn"
  hm_private_size :: u32
  hm_tablesize :: u32
  hm_grow_at :: u32
  hm_shrink_at :: u32
  hm_do_count_items :: bool

definition HASHMAP_INITIAL_SIZE :: u32 where "HASHMAP_INITIAL_SIZE = 64"
definition HASHMAP_RESIZE_BITS :: nat where "HASHMAP_RESIZE_BITS = 2"
definition HASHMAP_LOAD_FACTOR :: u64 where "HASHMAP_LOAD_FACTOR = 80"

definition alloc_table :: "('a, 'k) hashmap \<Rightarrow> u32 \<Rightarrow> ('a, 'k) hashmap" where
  "alloc_table hm sz =
     (let grow_at = (ucast ((ucast sz :: u64) * HASHMAP_LOAD_FACTOR div 100) :: u32)
      in hm\<lparr>hm_tablesize := sz, hm_table := replicate (unat sz) [], hm_grow_at := grow_at,
             hm_shrink_at := (if sz \<le> HASHMAP_INITIAL_SIZE then 0
                              else grow_at div (push_bit HASHMAP_RESIZE_BITS 1 + 1))\<rparr>)"

definition entry_equals :: "('a, 'k) hashmap \<Rightarrow> 'a hashmap_entry \<Rightarrow> 'a hashmap_entry \<Rightarrow> 'k option \<Rightarrow> bool" where
  "entry_equals hm e1 e2 keydata =
     (he_id e1 = he_id e2 \<or> he_hash e1 = he_hash e2 \<and> hm_cmpfn hm e1 e2 keydata = 0)"

definition hashmap_bucket :: "('a, 'k) hashmap \<Rightarrow> u32 \<Rightarrow> nat" where
  "hashmap_bucket hm hash = unat (hash AND (hm_tablesize hm - 1))"

definition bucket :: "('a, 'k) hashmap \<Rightarrow> 'a hashmap_entry \<Rightarrow> nat" where
  "bucket hm key = hashmap_bucket hm (he_hash key)"

text \<open>The chain of a bucket, and storing one.\<close>

definition get_chain :: "('a, 'k) hashmap \<Rightarrow> nat \<Rightarrow> 'a hashmap_entry list option" where
  "get_chain hm b = (if b < length (hm_table hm) then Some (hm_table hm ! b) else None)"

definition set_chain :: "nat \<Rightarrow> 'a hashmap_entry list \<Rightarrow> ('a, 'k) hashmap \<Rightarrow> ('a, 'k) hashmap" where
  "set_chain b chain hm = hm\<lparr>hm_table := (hm_table hm)[b := chain]\<rparr>"

definition push_entry :: "('a, 'k) hashmap \<Rightarrow> 'a hashmap_entry \<Rightarrow> ('a, 'k) hashmap option" where
  "push_entry hm e =
     do {
       chain \<leftarrow> get_chain hm (bucket hm e);
       Some (set_chain (bucket hm e) (e # chain) hm)
     }"

fun push_entries :: "('a, 'k) hashmap \<Rightarrow> 'a hashmap_entry list \<Rightarrow> ('a, 'k) hashmap option" where
  "push_entries hm [] = Some hm"
| "push_entries hm (e # es) = (case push_entry hm e of None \<Rightarrow> None | Some map1 \<Rightarrow> push_entries map1 es)"

fun rehash_buckets :: "('a, 'k) hashmap \<Rightarrow> 'a hashmap_entry list list \<Rightarrow> ('a, 'k) hashmap option" where
  "rehash_buckets hm [] = Some hm"
| "rehash_buckets hm (chain # oldtable) =
     (case push_entries hm chain of None \<Rightarrow> None | Some map1 \<Rightarrow> rehash_buckets map1 oldtable)"

definition rehash :: "('a, 'k) hashmap \<Rightarrow> u32 \<Rightarrow> ('a, 'k) hashmap option" where
  "rehash hm newsize = rehash_buckets (alloc_table hm newsize) (hm_table hm)"

text \<open>
  The link that \<open>find_entry_ptr\<close> returns: the bucket, the entries before the link, and the chain it
  points to, whose first entry is the one looked for.
\<close>

fun split_chain :: "('e \<Rightarrow> bool) \<Rightarrow> 'e list \<Rightarrow> 'e list \<times> 'e list" where
  "split_chain found [] = ([], [])"
| "split_chain found (e # chain) =
     (if found e then ([], e # chain) else (case split_chain found chain of (before, rest) \<Rightarrow> (e # before, rest)))"

definition find_entry_ptr ::
    "('a, 'k) hashmap \<Rightarrow> 'a hashmap_entry \<Rightarrow> 'k option \<Rightarrow> (nat \<times> 'a hashmap_entry list \<times> 'a hashmap_entry list) option" where
  "find_entry_ptr hm key keydata =
     do {
       chain \<leftarrow> get_chain hm (bucket hm key);
       Some (bucket hm key, split_chain (\<lambda>e. entry_equals hm e key keydata) chain)
     }"

definition always_equal :: "('a, 'k) cmp_fn" where
  "always_equal e1 e2 keydata = 0"

text \<open>The loop of \<open>hashmap_init\<close>: shifting a size of 0 never makes it large enough.\<close>

partial_function (option) init_size :: "u64 \<Rightarrow> u32 \<Rightarrow> u32 option" where
  "init_size initial_size sz =
     (if initial_size > ucast sz then init_size initial_size (push_bit HASHMAP_RESIZE_BITS sz) else Some sz)"

declare init_size.simps [code]

text \<open>A zeroed map.\<close>

definition HASHMAP_ZERO :: "('a, 'k) hashmap" where
  "HASHMAP_ZERO = \<lparr>hm_table = [], hm_cmpfn = always_equal, hm_private_size = 0, hm_tablesize = 0,
     hm_grow_at = 0, hm_shrink_at = 0, hm_do_count_items = False\<rparr>"

definition hashmap_init :: "('a, 'k) cmp_fn option \<Rightarrow> u64 \<Rightarrow> ('a, 'k) hashmap option" where
  "hashmap_init equals_function initial_size =
     (let hm = HASHMAP_ZERO\<lparr>hm_cmpfn := (case equals_function of None \<Rightarrow> always_equal | Some f \<Rightarrow> f)\<rparr>;
          initial_size = (ucast (ucast (initial_size * 100 div HASHMAP_LOAD_FACTOR) :: u32) :: u64)
      in do {
        sz \<leftarrow> init_size initial_size HASHMAP_INITIAL_SIZE;
        Some ((alloc_table hm sz)\<lparr>hm_do_count_items := True\<rparr>)
      })"

subsection \<open>The operations\<close>

definition hashmap_get :: "('a, 'k) hashmap \<Rightarrow> 'a hashmap_entry \<Rightarrow> 'k option \<Rightarrow> 'a hashmap_entry option option" where
  "hashmap_get hm key keydata =
     do {
       (b, before, rest) \<leftarrow> find_entry_ptr hm key keydata;
       Some (case rest of [] \<Rightarrow> None | e # _ \<Rightarrow> Some e)
     }"

text \<open>
  A key that is a bare \<open>hashmap_entry\<close>: what follows it in memory is anything.
\<close>

definition hashmap_entry_init :: "nat \<Rightarrow> u32 \<Rightarrow> 'a \<Rightarrow> 'a hashmap_entry" where
  "hashmap_entry_init addr hash data = \<lparr>he_id = addr, he_hash = hash, he_data = data\<rparr>"

definition hashmap_get_from_hash :: "'a \<Rightarrow> ('a, 'k) hashmap \<Rightarrow> u32 \<Rightarrow> 'k option \<Rightarrow> 'a hashmap_entry option option" where
  "hashmap_get_from_hash stack hm hash keydata = hashmap_get hm (hashmap_entry_init 0 hash stack) keydata"

text \<open>The next equal entry of the chain that \<open>entry\<close> is in.\<close>

definition hashmap_get_next :: "('a, 'k) hashmap \<Rightarrow> 'a hashmap_entry \<Rightarrow> 'a hashmap_entry option option" where
  "hashmap_get_next hm entry =
     do {
       chain \<leftarrow> get_chain hm (bucket hm entry);
       let following = tl (dropWhile (\<lambda>e. he_id e \<noteq> he_id entry) chain);
       Some (find (\<lambda>e. entry_equals hm entry e None) following)
     }"

definition hashmap_add :: "('a, 'k) hashmap \<Rightarrow> 'a hashmap_entry \<Rightarrow> ('a, 'k) hashmap option" where
  "hashmap_add hm entry =
     do {
       map1 \<leftarrow> push_entry hm entry;
       if hm_do_count_items map1 then
         (let map2 = map1\<lparr>hm_private_size := hm_private_size map1 + 1\<rparr>
          in if hm_private_size map2 > hm_grow_at map2
             then rehash map2 (push_bit HASHMAP_RESIZE_BITS (hm_tablesize map2)) else Some map2)
       else Some map1
     }"

definition hashmap_remove ::
    "('a, 'k) hashmap \<Rightarrow> 'a hashmap_entry \<Rightarrow> 'k option \<Rightarrow> (('a, 'k) hashmap \<times> 'a hashmap_entry option) option" where
  "hashmap_remove hm key keydata =
     do {
       (b, before, rest) \<leftarrow> find_entry_ptr hm key keydata;
       case rest of
         [] \<Rightarrow> Some (hm, None)
       | old # following \<Rightarrow> do {
           let map1 = set_chain b (before @ following) hm;
           map2 \<leftarrow> (if hm_do_count_items map1 then
               (let map2 = map1\<lparr>hm_private_size := hm_private_size map1 - 1\<rparr>
                in if hm_private_size map2 < hm_shrink_at map2
                   then rehash map2 (drop_bit HASHMAP_RESIZE_BITS (hm_tablesize map2)) else Some map2)
             else Some map1);
           Some (map2, Some old)
         }
     }"

definition hashmap_put :: "('a, 'k) hashmap \<Rightarrow> 'a hashmap_entry \<Rightarrow> (('a, 'k) hashmap \<times> 'a hashmap_entry option) option" where
  "hashmap_put hm entry =
     do {
       (map1, old) \<leftarrow> hashmap_remove hm entry None;
       map2 \<leftarrow> hashmap_add map1 entry;
       Some (map2, old)
     }"

text \<open>The iterator: the bucket after the current one, and the rest of the current chain.\<close>

record 'a hashmap_iter =
  hi_tablepos :: nat
  hi_next :: "'a hashmap_entry list"

definition hashmap_iter_init :: "'a hashmap_iter" where
  "hashmap_iter_init = \<lparr>hi_tablepos = 0, hi_next = []\<rparr>"

function iter_loop :: "('a, 'k) hashmap \<Rightarrow> nat \<Rightarrow> 'a hashmap_entry list \<Rightarrow> 'a hashmap_entry option \<times> 'a hashmap_iter" where
  "iter_loop hm pos cur =
     (case cur of
        e # following \<Rightarrow> (Some e, \<lparr>hi_tablepos = pos, hi_next = following\<rparr>)
      | [] \<Rightarrow> if pos \<ge> unat (hm_tablesize hm) then (None, \<lparr>hi_tablepos = pos, hi_next = []\<rparr>)
              else iter_loop hm (pos + 1) (hm_table hm ! pos))"
  by pat_completeness auto
termination
  by (relation "measure (\<lambda>(hm, pos, cur). unat (hm_tablesize hm) - pos)") auto

declare iter_loop.simps [simp del]

definition hashmap_iter_next :: "('a, 'k) hashmap \<Rightarrow> 'a hashmap_iter \<Rightarrow> 'a hashmap_entry option \<times> 'a hashmap_iter" where
  "hashmap_iter_next hm it = iter_loop hm (hi_tablepos it) (hi_next it)"

definition hashmap_iter_first :: "('a, 'k) hashmap \<Rightarrow> 'a hashmap_entry option \<times> 'a hashmap_iter" where
  "hashmap_iter_first hm = hashmap_iter_next hm hashmap_iter_init"

text \<open>A loop over the entries, which collects them; it runs at most once for every entry.\<close>

fun collect_entries :: "nat \<Rightarrow> ('a, 'k) hashmap \<Rightarrow> 'a hashmap_iter \<Rightarrow> 'a hashmap_entry list" where
  "collect_entries 0 hm it = []"
| "collect_entries (Suc n) hm it =
     (case hashmap_iter_next hm it of (None, _) \<Rightarrow> [] | (Some e, it') \<Rightarrow> e # collect_entries n hm it')"

text \<open>The entries freed, and the zeroed map.\<close>

definition hashmap_free :: "('a, 'k) hashmap \<Rightarrow> bool \<Rightarrow> ('a, 'k) hashmap \<times> 'a hashmap_entry list" where
  "hashmap_free hm free_entries =
     (if hm_table hm = [] then (hm, [])
      else (HASHMAP_ZERO,
            if free_entries then collect_entries (length (concat (hm_table hm)) + 1) hm hashmap_iter_init else []))"

definition hashmap_get_size :: "('a, 'k) hashmap \<Rightarrow> u32 option" where
  "hashmap_get_size hm = (if hm_do_count_items hm then Some (hm_private_size hm) else None)"

definition hashmap_disable_item_counting :: "('a, 'k) hashmap \<Rightarrow> ('a, 'k) hashmap" where
  "hashmap_disable_item_counting hm = hm\<lparr>hm_do_count_items := False\<rparr>"

definition hashmap_enable_item_counting :: "('a, 'k) hashmap \<Rightarrow> ('a, 'k) hashmap" where
  "hashmap_enable_item_counting hm =
     (if hm_do_count_items hm then hm
      else hm\<lparr>hm_do_count_items := True,
               hm_private_size := of_nat (length (collect_entries (length (concat (hm_table hm)) + 1) hm hashmap_iter_init))\<rparr>)"

end
