(* ===== verification/Git_Hashmap_Map.thy ===== *)
theory Git_Hashmap_Map
  imports Git_Hashmap
begin

text \<open>
  The hash tables of \<^verbatim>\<open>hashmap.c\<close> refine finite maps: the shape of the table, which every
  operation keeps, the interface of a comparison function that identifies entries by a key, and
  the operations as updates of a map from keys to entries.
\<close>

subsection \<open>The shape of a table\<close>

definition hm_entries :: "('a, 'k) hashmap \<Rightarrow> 'a hashmap_entry list" where
  "hm_entries m = concat (hm_table m)"

text \<open>The size is a power of two, and every entry is in the bucket of its hash.\<close>

definition hm_shape :: "nat \<Rightarrow> ('a, 'k) hashmap \<Rightarrow> bool" where
  "hm_shape k m \<longleftrightarrow>
     4 \<le> k \<and> k \<le> 31 \<and> hm_tablesize m = 2 ^ k \<and> length (hm_table m) = 2 ^ k \<and>
     (\<forall>b<2 ^ k. \<forall>e\<in>set (hm_table m ! b). unat (take_bit k (he_hash e)) = b) \<and>
     unat (hm_grow_at m) = 2 ^ k * 80 div 100 \<and>
     unat (hm_shrink_at m) = (if k \<le> 6 then 0 else 2 ^ k * 80 div 100 div 5)"

lemma unat_pow: "k < 32 \<Longrightarrow> unat (2 ^ k :: u32) = 2 ^ k"
proof -
  assume "k < 32"
  then have "(2 :: nat) ^ k < 2 ^ 32"
    by (rule power_strict_increasing) simp
  then show ?thesis
    using unat_of_nat_small [of "2 ^ k", where 'a = 32] by simp
qed

lemma bucket_shape: "hm_shape k m \<Longrightarrow> hashmap_bucket m h = unat (take_bit k h)"
  by (simp add: hashmap_bucket_def hm_shape_def take_bit_eq_mask mask_eq_exp_minus_1)

lemma unat_take_bit_less: "k < 32 \<Longrightarrow> unat (take_bit k (h :: u32)) < 2 ^ k"
  by (simp add: unsigned_take_bit_eq)

lemma get_chain_shape:
  assumes "hm_shape k m"
  shows "get_chain m (bucket m e) = Some (hm_table m ! unat (take_bit k (he_hash e)))"
  using assms unat_take_bit_less [of k "he_hash e"]
  by (simp add: get_chain_def bucket_def bucket_shape) (simp add: hm_shape_def)

lemma alloc_table_shape:
  assumes "4 \<le> k" and "k \<le> 31"
  shows "hm_shape k (alloc_table m (2 ^ k))" and "hm_entries (alloc_table m (2 ^ k)) = []"
proof -
  have le: "(2 :: nat) ^ k \<le> 2 ^ 31"
    using assms by (intro power_increasing) simp_all
  have sz: "unat (2 ^ k :: u32) = 2 ^ k"
    using assms by (simp add: unat_pow)
  then have sz64: "unat (ucast (2 ^ k :: u32) :: u64) = 2 ^ k"
    using le assms(2) by (simp add: unsigned_ucast_eq take_bit_nat_eq_self)
  have "2 ^ k * 80 < (2 :: nat) ^ LENGTH(64)"
    using le by simp
  then have mul: "unat ((ucast (2 ^ k :: u32) :: u64) * HASHMAP_LOAD_FACTOR div 100) = 2 ^ k * 80 div 100"
    using sz64 by (simp add: HASHMAP_LOAD_FACTOR_def unat_div unat_mult_lem [THEN iffD1])
  then have grow: "unat (ucast ((ucast (2 ^ k :: u32) :: u64) * HASHMAP_LOAD_FACTOR div 100) :: u32) = 2 ^ k * 80 div 100"
    using le by (simp add: unsigned_ucast_eq take_bit_nat_eq_self)
  have small: "(2 ^ k :: u32) \<le> HASHMAP_INITIAL_SIZE \<longleftrightarrow> k \<le> 6"
  proof -
    have "(2 ^ k :: u32) \<le> HASHMAP_INITIAL_SIZE \<longleftrightarrow> (2 :: nat) ^ k \<le> 2 ^ 6"
      by (simp only: word_le_nat_alt sz HASHMAP_INITIAL_SIZE_def) simp
    then show ?thesis
      by (simp only: power_increasing_iff)
  qed
  have five: "unat (push_bit HASHMAP_RESIZE_BITS 1 + 1 :: u32) = 5"
    by (simp add: HASHMAP_RESIZE_BITS_def)
  show "hm_shape k (alloc_table m (2 ^ k))"
    using assms sz grow small five by (simp add: hm_shape_def alloc_table_def Let_def unat_div)
  show "hm_entries (alloc_table m (2 ^ k)) = []"
    by (simp add: hm_entries_def alloc_table_def Let_def)
qed

text \<open>The fields that only change with the size of the table.\<close>

definition hm_same :: "('a, 'k) hashmap \<Rightarrow> ('a, 'k) hashmap \<Rightarrow> bool" where
  "hm_same m m' \<longleftrightarrow> hm_cmpfn m' = hm_cmpfn m \<and> hm_private_size m' = hm_private_size m \<and>
     hm_do_count_items m' = hm_do_count_items m"

lemma hm_same_trans: "hm_same m m' \<Longrightarrow> hm_same m' m'' \<Longrightarrow> hm_same m m''"
  by (simp add: hm_same_def)

lemma entries_update:
  "b < length (hm_table m) \<Longrightarrow>
    mset (hm_entries (set_chain b chain m)) + mset (hm_table m ! b) = mset (hm_entries m) + mset chain"
proof -
  assume b: "b < length (hm_table m)"
  then have "hm_table m = take b (hm_table m) @ hm_table m ! b # drop (Suc b) (hm_table m)"
    by (simp add: id_take_nth_drop)
  then have "mset (hm_entries m) = mset (concat (take b (hm_table m))) + mset (hm_table m ! b) + mset (concat (drop (Suc b) (hm_table m)))"
    unfolding hm_entries_def by (metis concat.simps(2) concat_append mset_append add.assoc)
  moreover have "hm_entries (set_chain b chain m) = concat (take b (hm_table m)) @ chain @ concat (drop (Suc b) (hm_table m))"
    using b by (simp add: hm_entries_def set_chain_def upd_conv_take_nth_drop)
  ultimately show ?thesis
    by simp
qed

lemma set_chain_shape:
  assumes "hm_shape k m" and "\<forall>e\<in>set chain. unat (take_bit k (he_hash e)) = b"
  shows "hm_shape k (set_chain b chain m)" and "hm_same m (set_chain b chain m)"
proof -
  have "unat (take_bit k (he_hash e)) = i" if "i < 2 ^ k" "e \<in> set ((hm_table m)[b := chain] ! i)" for i e
    using that assms by (cases "i = b") (auto simp: hm_shape_def)
  then show "hm_shape k (set_chain b chain m)"
    using assms(1) by (simp add: hm_shape_def set_chain_def)
  show "hm_same m (set_chain b chain m)"
    by (simp add: hm_same_def set_chain_def)
qed

lemma push_entry_shape:
  assumes "hm_shape k m"
  shows "\<exists>m'. push_entry m e = Some m' \<and> hm_shape k m' \<and> hm_same m m' \<and>
    mset (hm_entries m') = add_mset e (mset (hm_entries m))"
proof -
  let ?b = "unat (take_bit k (he_hash e))"
  have k: "k < 32" "length (hm_table m) = 2 ^ k"
    using assms by (simp_all add: hm_shape_def)
  have b: "?b < length (hm_table m)"
    unfolding k(2) by (rule unat_take_bit_less [OF k(1)])
  have "bucket m e = ?b"
    by (simp only: bucket_def bucket_shape [OF assms])
  then have "push_entry m e = Some (set_chain ?b (e # hm_table m ! ?b) m)"
    using get_chain_shape [OF assms, of e] by (simp add: push_entry_def)
  moreover have "\<forall>x\<in>set (e # hm_table m ! ?b). unat (take_bit k (he_hash x)) = ?b"
    using assms b unfolding k(2) by (simp add: hm_shape_def)
  moreover have "mset (hm_entries (set_chain ?b (e # hm_table m ! ?b) m)) = add_mset e (mset (hm_entries m))"
    using entries_update [OF b, of "e # hm_table m ! ?b"] by simp
  ultimately show ?thesis
    using set_chain_shape [OF assms, of "e # hm_table m ! ?b" ?b] by blast
qed

lemma push_entries_shape:
  "hm_shape k m \<Longrightarrow> \<exists>m'. push_entries m es = Some m' \<and> hm_shape k m' \<and> hm_same m m' \<and>
    mset (hm_entries m') = mset es + mset (hm_entries m)"
proof (induction es arbitrary: m)
  case (Cons e es)
  obtain m1 where m1: "push_entry m e = Some m1" "hm_shape k m1" "hm_same m m1"
    "mset (hm_entries m1) = add_mset e (mset (hm_entries m))"
    using push_entry_shape [OF Cons.prems] by blast
  show ?case
    using Cons.IH [OF m1(2)] m1 hm_same_trans by fastforce
qed (simp add: hm_same_def)

lemma rehash_buckets_shape:
  "hm_shape k m \<Longrightarrow> \<exists>m'. rehash_buckets m ts = Some m' \<and> hm_shape k m' \<and> hm_same m m' \<and>
    mset (hm_entries m') = mset (concat ts) + mset (hm_entries m)"
proof (induction ts arbitrary: m)
  case (Cons t ts)
  obtain m1 where m1: "push_entries m t = Some m1" "hm_shape k m1" "hm_same m m1"
    "mset (hm_entries m1) = mset t + mset (hm_entries m)"
    using push_entries_shape [OF Cons.prems] by blast
  show ?case
    using Cons.IH [OF m1(2)] m1 hm_same_trans by fastforce
qed (simp add: hm_same_def)

lemma rehash_shape:
  assumes "4 \<le> k" and "k \<le> 31"
  shows "\<exists>m'. rehash m (2 ^ k) = Some m' \<and> hm_shape k m' \<and> hm_same m m' \<and> mset (hm_entries m') = mset (hm_entries m)"
proof -
  have "hm_same m (alloc_table m (2 ^ k))"
    by (simp add: hm_same_def alloc_table_def Let_def)
  then show ?thesis
    using rehash_buckets_shape [OF alloc_table_shape(1) [OF assms], of m "hm_table m"] alloc_table_shape(2) [OF assms, of m]
    by (auto simp: rehash_def hm_entries_def [symmetric] intro: hm_same_trans)
qed

text \<open>With the count of the entries.\<close>

definition hm_wf :: "('a, 'k) hashmap \<Rightarrow> bool" where
  "hm_wf m \<longleftrightarrow> (\<exists>k. hm_shape k m) \<and> (hm_do_count_items m \<longrightarrow> unat (hm_private_size m) = length (hm_entries m))"

lemma hashmap_add_shape:
  assumes "hm_wf m" and "length (hm_entries m) < 2 ^ 29"
  shows "\<exists>m'. hashmap_add m e = Some m' \<and> hm_wf m' \<and> hm_cmpfn m' = hm_cmpfn m \<and>
    hm_do_count_items m' = hm_do_count_items m \<and> mset (hm_entries m') = add_mset e (mset (hm_entries m))"
proof -
  obtain k where k: "hm_shape k m"
    using assms(1) by (auto simp: hm_wf_def)
  obtain m1 where m1: "push_entry m e = Some m1" "hm_shape k m1" "hm_same m m1"
    "mset (hm_entries m1) = add_mset e (mset (hm_entries m))"
    using push_entry_shape [OF k] by blast
  then have len: "length (hm_entries m1) = length (hm_entries m) + 1"
    by (metis size_add_mset size_mset Suc_eq_plus1)
  show ?thesis
  proof (cases "hm_do_count_items m1")
    case False
    then show ?thesis
      using m1 by (auto simp: hashmap_add_def hm_wf_def hm_same_def)
  next
    case True
    let ?m2 = "m1\<lparr>hm_private_size := hm_private_size m1 + 1\<rparr>"
    have "unat (hm_private_size m1) = length (hm_entries m)"
      using assms(1) True m1(3) by (simp add: hm_wf_def hm_same_def)
    then have size: "unat (hm_private_size ?m2) = length (hm_entries m1)"
      using assms(2) len by (simp add: unat_add_lem [THEN iffD1])
    have m2: "hm_shape k ?m2" "hm_entries ?m2 = hm_entries m1"
      using m1(2) by (simp_all add: hm_shape_def hm_entries_def)
    show ?thesis
    proof (cases "hm_private_size ?m2 > hm_grow_at ?m2")
      case False
      then show ?thesis
        using True m1 m2 size by (auto simp: hashmap_add_def hm_wf_def hm_same_def Let_def)
    next
      case grow: True
      have "2 ^ k * 80 div 100 < length (hm_entries m1)"
        using grow size m2(1) by (simp add: word_less_nat_alt hm_shape_def)
      then have "(2 :: nat) ^ k * 80 div 100 < 2 ^ 29"
        using len assms(2) by simp
      then have "(2 :: nat) ^ k < 2 ^ 30"
        by simp
      then have "k < 30"
        by (simp only: power_strict_increasing_iff rel_simps)
      then have k2: "4 \<le> k + 2" "k + 2 \<le> 31"
        using k by (simp_all add: hm_shape_def)
      have "push_bit HASHMAP_RESIZE_BITS (hm_tablesize ?m2) = 2 ^ (k + 2)"
        using m2(1) by (simp add: hm_shape_def HASHMAP_RESIZE_BITS_def push_bit_eq_mult power_add)
      then show ?thesis
        using rehash_shape [OF k2, of ?m2] True grow m1 m2 size
        by (fastforce simp: hashmap_add_def hm_wf_def hm_same_def Let_def dest: mset_eq_length)
    qed
  qed
qed


subsection \<open>Looking up and removing\<close>

lemma split_chain_parts:
  "split_chain P chain = (before, rest) \<Longrightarrow>
    chain = before @ rest \<and> (\<forall>e\<in>set before. \<not> P e) \<and> (case rest of [] \<Rightarrow> True | e # _ \<Rightarrow> P e)"
proof (induction chain arbitrary: before)
  case (Cons e chain)
  then show ?case
    by (cases "P e"; cases "split_chain P chain") auto
qed simp

text \<open>Where all entries that can equal the key are: in its bucket.\<close>

lemma find_entry_shape:
  assumes "hm_shape k m"
  obtains b before rest where "find_entry_ptr m key kd = Some (b, before, rest)"
    "b = unat (take_bit k (he_hash key))" "b < length (hm_table m)" "hm_table m ! b = before @ rest"
    "\<forall>e\<in>set before. \<not> entry_equals m e key kd" "case rest of [] \<Rightarrow> True | e # _ \<Rightarrow> entry_equals m e key kd"
    "\<forall>e\<in>set (hm_entries m). he_hash e = he_hash key \<longrightarrow> e \<in> set (before @ rest)"
proof -
  let ?b = "unat (take_bit k (he_hash key))"
  have k: "k < 32" "length (hm_table m) = 2 ^ k"
    using assms by (simp_all add: hm_shape_def)
  have b: "?b < length (hm_table m)"
    unfolding k(2) by (rule unat_take_bit_less [OF k(1)])
  obtain before rest where s: "split_chain (\<lambda>e. entry_equals m e key kd) (hm_table m ! ?b) = (before, rest)"
    by fastforce
  have f: "find_entry_ptr m key kd = Some (?b, before, rest)"
    using get_chain_shape [OF assms, of key] s by (simp add: find_entry_ptr_def bucket_def bucket_shape [OF assms])
  note parts = split_chain_parts [OF s]
  have all: "\<forall>e\<in>set (hm_entries m). he_hash e = he_hash key \<longrightarrow> e \<in> set (before @ rest)"
  proof (intro ballI impI)
    fix e
    assume e: "e \<in> set (hm_entries m)" "he_hash e = he_hash key"
    then obtain t where "t \<in> set (hm_table m)" "e \<in> set t"
      by (auto simp: hm_entries_def)
    then obtain i where i: "i < 2 ^ k" "e \<in> set (hm_table m ! i)"
      unfolding k(2) [symmetric] by (metis in_set_conv_nth)
    moreover have "\<forall>b<2 ^ k. \<forall>e\<in>set (hm_table m ! b). unat (take_bit k (he_hash e)) = b"
      using assms by (simp add: hm_shape_def)
    ultimately have "i = ?b"
      using e(2) by metis
    then show "e \<in> set (before @ rest)"
      using i(2) parts by simp
  qed
  show ?thesis
    using that [OF f refl b] parts all by auto
qed

lemma chain_entries: "b < length (hm_table m) \<Longrightarrow> e \<in> set (hm_table m ! b) \<Longrightarrow> e \<in> set (hm_entries m)"
  by (auto simp: hm_entries_def)

lemma hashmap_remove_shape:
  assumes "hm_wf m"
  shows "(hashmap_remove m key kd = Some (m, None) \<and> (\<forall>e\<in>set (hm_entries m). he_hash e = he_hash key \<longrightarrow> \<not> entry_equals m e key kd)) \<or>
    (\<exists>m' old. hashmap_remove m key kd = Some (m', Some old) \<and> old \<in> set (hm_entries m) \<and> entry_equals m old key kd \<and>
      hm_wf m' \<and> hm_cmpfn m' = hm_cmpfn m \<and> hm_do_count_items m' = hm_do_count_items m \<and>
      mset (hm_entries m) = add_mset old (mset (hm_entries m')))"
proof -
  obtain k where k: "hm_shape k m"
    using assms by (auto simp: hm_wf_def)
  obtain b before rest where f: "find_entry_ptr m key kd = Some (b, before, rest)"
    "b = unat (take_bit k (he_hash key))" "b < length (hm_table m)" "hm_table m ! b = before @ rest"
    "\<forall>e\<in>set before. \<not> entry_equals m e key kd" "case rest of [] \<Rightarrow> True | e # _ \<Rightarrow> entry_equals m e key kd"
    "\<forall>e\<in>set (hm_entries m). he_hash e = he_hash key \<longrightarrow> e \<in> set (before @ rest)"
    by (rule find_entry_shape [OF k])
  show ?thesis
  proof (cases rest)
    case Nil
    then show ?thesis
      using f by (auto simp: hashmap_remove_def)
  next
    case (Cons old following)
    have old: "old \<in> set (hm_entries m)" "entry_equals m old key kd"
      using f(3,4,6) Cons chain_entries [of b m old] by auto
    let ?m1 = "set_chain b (before @ following) m"
    have "\<forall>e\<in>set (before @ following). unat (take_bit k (he_hash e)) = b"
      using k f(3,4) Cons by (auto simp: hm_shape_def)
    then have m1: "hm_shape k ?m1" "hm_same m ?m1"
      using set_chain_shape [OF k] by blast+
    have ms: "mset (hm_entries m) = add_mset old (mset (hm_entries ?m1))"
      using entries_update [OF f(3), of "before @ following"] f(4) Cons by simp
    then have len: "length (hm_entries m) = length (hm_entries ?m1) + 1"
      by (metis size_add_mset size_mset Suc_eq_plus1)
    have remove: "hashmap_remove m key kd =
        map_option (\<lambda>m2. (m2, Some old)) (if hm_do_count_items ?m1 then
             (let m2 = ?m1\<lparr>hm_private_size := hm_private_size ?m1 - 1\<rparr>
              in if hm_private_size m2 < hm_shrink_at m2
                 then rehash m2 (drop_bit HASHMAP_RESIZE_BITS (hm_tablesize m2)) else Some m2)
           else Some ?m1)"
      using f(1) Cons by (auto simp: hashmap_remove_def Let_def map_conv_bind_option comp_def)
    have "\<exists>m'. hashmap_remove m key kd = Some (m', Some old) \<and> hm_wf m' \<and> hm_cmpfn m' = hm_cmpfn m \<and>
        hm_do_count_items m' = hm_do_count_items m \<and> mset (hm_entries m') = mset (hm_entries ?m1)"
    proof (cases "hm_do_count_items ?m1")
      case False
      then show ?thesis
        using remove m1 by (auto simp: hm_wf_def hm_same_def)
    next
      case True
      let ?m2 = "?m1\<lparr>hm_private_size := hm_private_size ?m1 - 1\<rparr>"
      have "unat (hm_private_size ?m1) = length (hm_entries ?m1) + 1"
        using assms True m1(2) len by (simp add: hm_wf_def hm_same_def)
      then have size: "unat (hm_private_size ?m2) = length (hm_entries ?m1)"
        by (simp add: unat_pred unat_eq_0 [symmetric] del: unat_eq_0)
      have m2: "hm_shape k ?m2" "hm_entries ?m2 = hm_entries ?m1"
        using m1(1) by (simp_all add: hm_shape_def hm_entries_def)
      show ?thesis
      proof (cases "hm_private_size ?m2 < hm_shrink_at ?m2")
        case False
        then show ?thesis
          using remove True m1(2) m2 size by (auto simp: hm_wf_def hm_same_def Let_def)
      next
        case shrink: True
        then have "hm_shrink_at ?m2 \<noteq> 0"
          by (metis word_not_simps(1))
        then have k7: "6 < k" "k \<le> 31"
          using m2(1) by (auto simp: hm_shape_def unat_eq_0 split: if_splits)
        then have k2: "4 \<le> k - 2" "k - 2 \<le> 31"
          by simp_all
        have "drop_bit HASHMAP_RESIZE_BITS (hm_tablesize ?m2) = 2 ^ (k - 2)"
        proof -
          have "(2 :: u32) ^ k = 2 ^ (k - 2) * 2 ^ 2"
          proof -
            have "k = (k - 2) + 2"
              using k7 by simp
            then show ?thesis
              by (metis power_add)
          qed
          then have "hm_tablesize ?m2 = push_bit 2 (2 ^ (k - 2))"
            using m2(1) by (simp add: hm_shape_def push_bit_eq_mult)
          moreover have "drop_bit 2 (push_bit 2 (2 ^ (k - 2) :: u32)) = 2 ^ (k - 2)"
            using k7 by (intro bit_word_eqI) (auto simp: bit_drop_bit_eq bit_push_bit_iff bit_exp_iff)
          ultimately show ?thesis
            by (simp add: HASHMAP_RESIZE_BITS_def)
        qed
        then show ?thesis
          using rehash_shape [OF k2, of ?m2] remove True shrink m1(2) m2 size
          by (fastforce simp: hm_wf_def hm_same_def Let_def dest: mset_eq_length)
      qed
    qed
    then show ?thesis
      using old ms by auto
  qed
qed


lemma hashmap_get_shape:
  assumes "hm_wf m"
  shows "(hashmap_get m key kd = Some None \<and> (\<forall>e\<in>set (hm_entries m). he_hash e = he_hash key \<longrightarrow> \<not> entry_equals m e key kd)) \<or>
    (\<exists>e. hashmap_get m key kd = Some (Some e) \<and> e \<in> set (hm_entries m) \<and> entry_equals m e key kd)"
proof -
  obtain k where k: "hm_shape k m"
    using assms by (auto simp: hm_wf_def)
  obtain b before rest where f: "find_entry_ptr m key kd = Some (b, before, rest)" "b < length (hm_table m)"
    "hm_table m ! b = before @ rest"
    "\<forall>e\<in>set before. \<not> entry_equals m e key kd" "case rest of [] \<Rightarrow> True | e # _ \<Rightarrow> entry_equals m e key kd"
    "\<forall>e\<in>set (hm_entries m). he_hash e = he_hash key \<longrightarrow> e \<in> set (before @ rest)"
    using find_entry_shape [OF k] by metis
  show ?thesis
    using f chain_entries [of b m] by (cases rest) (auto simp: hashmap_get_def)
qed

text \<open>A loop over the table visits every entry once.\<close>

lemma iter_loop_entries:
  "unat (hm_tablesize m) = length (hm_table m) \<Longrightarrow>
    (cur @ concat (drop pos (hm_table m)) = [] \<longrightarrow> fst (iter_loop m pos cur) = None) \<and>
    (\<forall>e es. cur @ concat (drop pos (hm_table m)) = e # es \<longrightarrow>
       (\<exists>it'. iter_loop m pos cur = (Some e, it') \<and> es = hi_next it' @ concat (drop (hi_tablepos it') (hm_table m))))"
proof (induction m pos cur rule: iter_loop.induct)
  case (1 m pos cur)
  show ?case
  proof (cases cur)
    case Nil
    show ?thesis
    proof (cases "pos < length (hm_table m)")
      case True
      have d: "drop pos (hm_table m) = hm_table m ! pos # drop (pos + 1) (hm_table m)"
        using True by (simp add: Cons_nth_drop_Suc)
      have i: "iter_loop m pos [] = iter_loop m (pos + 1) (hm_table m ! pos)"
        using True "1.prems" by (subst iter_loop.simps) simp
      show ?thesis
        unfolding Nil append.left_neutral i d concat.simps
        using "1.IH" [OF Nil _ "1.prems"] True "1.prems" by simp
    next
      case False
      then show ?thesis
        using Nil "1.prems" by (subst iter_loop.simps) simp
    qed
  next
    case (Cons e es)
    then show ?thesis
      by (simp add: iter_loop.simps)
  qed
qed

lemma collect_entries_rest:
  "unat (hm_tablesize m) = length (hm_table m) \<Longrightarrow> length es < n \<Longrightarrow>
    es = hi_next it @ concat (drop (hi_tablepos it) (hm_table m)) \<Longrightarrow> collect_entries n m it = es"
proof (induction n arbitrary: it es)
  case (Suc n)
  note entries = iter_loop_entries [OF Suc.prems(1), where cur = "hi_next it" and pos = "hi_tablepos it",
      folded Suc.prems(3) hashmap_iter_next_def]
  show ?case
  proof (cases es)
    case Nil
    then have "fst (hashmap_iter_next m it) = None"
      using entries by blast
    then show ?thesis
      using Nil by (cases "hashmap_iter_next m it") simp
  next
    case (Cons e es')
    then obtain it' where "hashmap_iter_next m it = (Some e, it')"
      "es' = hi_next it' @ concat (drop (hi_tablepos it') (hm_table m))"
      using entries by blast
    moreover have "length es' < n"
      using Suc.prems(2) Cons by simp
    ultimately show ?thesis
      using Suc.IH [OF Suc.prems(1), of es' it'] Cons by simp
  qed
qed simp

lemma collect_all:
  "hm_wf m \<Longrightarrow> length (hm_entries m) < n \<Longrightarrow> collect_entries n m hashmap_iter_init = hm_entries m"
  by (rule collect_entries_rest)
    (auto simp: hm_wf_def hm_shape_def hm_entries_def hashmap_iter_init_def unat_pow)

subsection \<open>Initialization\<close>

text \<open>
  The loop of \<open>hashmap_init\<close> ends if the size asked for is at most \<open>2 ^ 30\<close>; otherwise the table
  size is shifted to 0 and the loop never ends.
\<close>

lemma init_size_ends:
  "unat n \<le> 2 ^ (6 + 2 * (j + i)) \<Longrightarrow> j + i \<le> 12 \<Longrightarrow> \<exists>k. 6 \<le> k \<and> k \<le> 30 \<and> init_size n (2 ^ (6 + 2 * j)) = Some (2 ^ k)"
proof (induction i arbitrary: j)
  case 0
  have "unat (ucast (2 ^ (6 + 2 * j) :: u32) :: u64) = 2 ^ (6 + 2 * j)"
  proof -
    have "(2 :: nat) ^ (6 + 2 * j) < 2 ^ 32"
      using 0 by (intro power_strict_increasing) simp_all
    then show ?thesis
      using unat_pow [of "6 + 2 * j"] 0 by (simp add: unsigned_ucast_eq take_bit_nat_eq_self)
  qed
  then show ?case
    using 0 by (subst init_size.simps) (auto simp: word_less_nat_alt intro!: exI [of _ "6 + 2 * j"])
next
  case (Suc i)
  have "push_bit HASHMAP_RESIZE_BITS (2 ^ (6 + 2 * j) :: u32) = 2 ^ (6 + 2 * (j + 1))"
    by (simp add: HASHMAP_RESIZE_BITS_def push_bit_eq_mult power_add)
  then show ?case
    using Suc.IH [of "j + 1"] Suc.prems
    by (subst init_size.simps) (auto intro!: exI [of _ "6 + 2 * j"])
qed

lemma init_size_some:
  assumes "init_size n s = Some r"
  shows "unat n \<le> unat r \<and> (\<exists>j. r = push_bit (2 * j) s)"
proof (rule init_size.raw_induct [OF _ assms])
  fix f :: "64 word \<Rightarrow> 32 word \<Rightarrow> 32 word option" and n s r
  assume ih: "\<And>n s r. f n s = Some r \<Longrightarrow> unat n \<le> unat r \<and> (\<exists>j. r = push_bit (2 * j) s)"
    and eq: "(if ucast s < n then f n (push_bit HASHMAP_RESIZE_BITS s) else Some s) = Some r"
  show "unat n \<le> unat r \<and> (\<exists>j. r = push_bit (2 * j) s)"
  proof (cases "ucast s < n")
    case True
    then obtain j where "unat n \<le> unat r" "r = push_bit (2 * j) (push_bit HASHMAP_RESIZE_BITS s)"
      using ih [of n "push_bit HASHMAP_RESIZE_BITS s" r] eq by auto
    moreover have "2 * j + HASHMAP_RESIZE_BITS = 2 * (j + 1)"
      by (simp add: HASHMAP_RESIZE_BITS_def)
    ultimately show ?thesis
      by (auto simp only: push_bit_push_bit)
  next
    case False
    have "unat s < 2 ^ LENGTH(32)"
      by (rule unsigned_less)
    then have "unat (ucast s :: u64) = unat s"
      by (simp add: unsigned_ucast_eq take_bit_nat_eq_self)
    then have "unat n \<le> unat r"
      using False eq by (auto simp: word_less_nat_alt)
    moreover have "\<exists>j. r = push_bit (2 * j) s"
      using False eq by (intro exI [of _ 0]) simp
    ultimately show ?thesis
      by blast
  qed
qed

lemma init_size_diverges:
  assumes "2 ^ 30 < unat n"
  shows "init_size n 64 = None"
proof (rule ccontr)
  assume "init_size n 64 \<noteq> None"
  then obtain r where "init_size n 64 = Some r"
    by blast
  from init_size_some [OF this] obtain j where r: "unat n \<le> unat r" "r = push_bit (2 * j) 64"
    by blast
  have "unat r \<le> 2 ^ 30"
  proof (cases "j \<le> 12")
    case True
    have "(64 :: u32) = 2 ^ 6"
      by simp
    then have "r = 2 ^ (6 + 2 * j)"
      by (simp only: r(2) push_bit_eq_mult power_add)
    then have "unat r = 2 ^ (6 + 2 * j)"
      using True by (simp only: unat_pow)
    also have "\<dots> \<le> 2 ^ 30"
      using True by (intro power_increasing) simp_all
    finally show ?thesis .
  next
    case False
    have "(64 :: u32) = push_bit 6 1"
      by (simp add: push_bit_eq_mult)
    then have "r = push_bit (2 * j + 6) 1"
      by (simp only: r(2) push_bit_push_bit)
    moreover have "(push_bit (2 * j + 6) 1 :: u32) = 0"
      using False by (intro bit_word_eqI) (unfold bit_push_bit_iff, auto simp: bit_1_iff)
    ultimately have "r = 0"
      by (simp only:)
    then show ?thesis
      by simp
  qed
  then show False
    using r(1) assms by linarith
qed


text \<open>The size found is the smallest that is tried and large enough.\<close>

lemma init_size_least:
  assumes "init_size n s = Some r"
  shows "r = s \<or> unat r < 4 * unat n"
proof (rule init_size.raw_induct [where P = "\<lambda>n s r. r = s \<or> unat r < 4 * unat n", OF _ assms])
  fix f :: "64 word \<Rightarrow> 32 word \<Rightarrow> 32 word option" and n s r
  assume ih: "\<And>n s r. f n s = Some r \<Longrightarrow> r = s \<or> unat r < 4 * unat n"
    and eq: "(if ucast s < n then f n (push_bit HASHMAP_RESIZE_BITS s) else Some s) = Some r"
  show "r = s \<or> unat r < 4 * unat n"
  proof (cases "ucast s < n")
    case True
    have "unat s < 2 ^ LENGTH(32)"
      by (rule unsigned_less)
    then have "unat s < unat n"
      using True by (simp add: word_less_nat_alt unsigned_ucast_eq take_bit_nat_eq_self)
    moreover have "unat (push_bit HASHMAP_RESIZE_BITS s) \<le> 4 * unat s"
      by (simp add: HASHMAP_RESIZE_BITS_def push_bit_eq_mult unat_word_ariths)
    ultimately show ?thesis
      using ih [of n "push_bit HASHMAP_RESIZE_BITS s" r] eq True by auto
  qed (use eq in simp)
qed

text \<open>The number of buckets that the code computes for a number of entries, in 32 bits.\<close>

definition init_buckets :: "u64 \<Rightarrow> nat" where
  "init_buckets sz = unat sz * 100 mod 2 ^ 64 div 80 mod 2 ^ 32"

lemma unat_init_buckets: "unat (ucast (ucast (sz * 100 div HASHMAP_LOAD_FACTOR) :: u32) :: u64) = init_buckets sz"
  by (simp add: init_buckets_def HASHMAP_LOAD_FACTOR_def unsigned_ucast_eq take_bit_eq_mod unat_div unat_word_ariths)

lemma init_buckets_small: "unat sz \<le> 3435973836 \<Longrightarrow> init_buckets sz = unat sz * 5 div 4"
  by (simp add: init_buckets_def)

lemma hashmap_init_wf_cmpfn:
  assumes "init_buckets sz \<le> 2 ^ 30"
  shows "\<exists>m. hashmap_init (Some f) sz = Some m \<and> hm_wf m \<and> hm_entries m = [] \<and> hm_cmpfn m = f \<and> hm_do_count_items m \<and>
    init_buckets sz \<le> unat (hm_tablesize m) \<and>
    (unat (hm_tablesize m) = 64 \<or> unat (hm_tablesize m) < 4 * init_buckets sz)"
proof -
  let ?n = "ucast (ucast (sz * 100 div HASHMAP_LOAD_FACTOR) :: u32) :: u64"
  note n = unat_init_buckets [of sz]
  then obtain k where k: "6 \<le> k" "k \<le> 30" "init_size ?n 64 = Some (2 ^ k)"
    using init_size_ends [of ?n 0 12] assms by auto
  have large: "init_buckets sz \<le> unat (2 ^ k :: u32)" "unat (2 ^ k :: u32) = 64 \<or> unat (2 ^ k :: u32) < 4 * init_buckets sz"
    using init_size_some [OF k(3)] init_size_least [OF k(3)] unfolding n by auto
  have shape: "hm_shape k (alloc_table (HASHMAP_ZERO\<lparr>hm_cmpfn := f\<rparr>) (2 ^ k))"
    "hm_entries (alloc_table (HASHMAP_ZERO\<lparr>hm_cmpfn := f\<rparr>) (2 ^ k)) = []"
    by (rule alloc_table_shape; use k in simp)+
  have same: "hm_cmpfn (alloc_table (HASHMAP_ZERO\<lparr>hm_cmpfn := f\<rparr>) (2 ^ k)) = f"
    "hm_private_size (alloc_table (HASHMAP_ZERO\<lparr>hm_cmpfn := f\<rparr>) (2 ^ k)) = 0"
    "hm_tablesize (alloc_table (HASHMAP_ZERO\<lparr>hm_cmpfn := f\<rparr>) (2 ^ k)) = 2 ^ k"
    by (simp_all add: alloc_table_def HASHMAP_ZERO_def Let_def)
  show ?thesis
    using k(3) shape same large
    by (auto simp: hashmap_init_def Let_def HASHMAP_INITIAL_SIZE_def hm_wf_def hm_shape_def hm_entries_def)
qed

lemma hashmap_init_wf:
  assumes "unat sz \<le> 800000000"
  shows "\<exists>m. hashmap_init (Some f) sz = Some m \<and> hm_wf m \<and> hm_entries m = [] \<and> hm_cmpfn m = f \<and> hm_do_count_items m"
proof -
  have "init_buckets sz \<le> 2 ^ 30"
    using assms div_le_mono [of "unat sz * 5" 4000000000 4] by (simp add: init_buckets_small)
  from hashmap_init_wf_cmpfn [OF this] show ?thesis
    by blast
qed

subsection \<open>Keys\<close>

text \<open>
  What a comparison function promises: entries are compared by a key, either that of another entry
  or one given as key data, for keys in \<open>keys\<close>; the hash depends on the key.
\<close>

locale hashmap_keys =
  fixes cmp :: "('a, 'k) cmp_fn" and key_of :: "'a \<Rightarrow> 'key" and kd_key :: "'k \<Rightarrow> 'key"
    and hash_of :: "'key \<Rightarrow> u32" and keys :: "'key set"
    and fits :: "'a hashmap_entry \<Rightarrow> 'a hashmap_entry \<Rightarrow> 'k \<Rightarrow> bool"
  assumes cmp_key: "key_of (he_data e1) \<in> keys \<Longrightarrow> kd_key d \<in> keys \<Longrightarrow> fits e1 e2 d \<Longrightarrow>
      cmp e1 e2 (Some d) = 0 \<longleftrightarrow> key_of (he_data e1) = kd_key d"
begin

text \<open>Entries of a map have their own addresses, the hash of their key, and different keys.\<close>

definition entries_ok :: "'a hashmap_entry list \<Rightarrow> bool" where
  "entries_ok es \<longleftrightarrow>
     (\<forall>e\<in>set es. he_id e \<noteq> 0 \<and> key_of (he_data e) \<in> keys \<and> he_hash e = hash_of (key_of (he_data e))) \<and>
     distinct (map he_id es) \<and> distinct (map (\<lambda>e. key_of (he_data e)) es)"

definition hm_ok :: "('a, 'k) hashmap \<Rightarrow> bool" where
  "hm_ok m \<longleftrightarrow> hm_wf m \<and> hm_cmpfn m = cmp \<and> entries_ok (hm_entries m)"

definition hm_map :: "('a, 'k) hashmap \<Rightarrow> 'key \<Rightarrow> 'a hashmap_entry option" where
  "hm_map m = map_of (map (\<lambda>e. (key_of (he_data e), e)) (hm_entries m))"

lemma entries_ok_mset: "mset es = mset es' \<Longrightarrow> entries_ok es \<Longrightarrow> entries_ok es'"
  unfolding entries_ok_def by (metis mset_eq_setD mset_map mset_eq_imp_distinct_iff)

lemma map_of_entries:
  "entries_ok es \<Longrightarrow>
    map_of (map (\<lambda>e. (key_of (he_data e), e)) es) k = Some e \<longleftrightarrow> e \<in> set es \<and> key_of (he_data e) = k"
  unfolding entries_ok_def by (subst map_of_eq_Some_iff) (auto simp: comp_def)

lemma hm_map_iff: "hm_ok m \<Longrightarrow> hm_map m k = Some e \<longleftrightarrow> e \<in> set (hm_entries m) \<and> key_of (he_data e) = k"
  unfolding hm_map_def hm_ok_def by (simp add: map_of_entries)

lemma hm_map_None: "hm_map m k = None \<longleftrightarrow> (\<forall>e\<in>set (hm_entries m). key_of (he_data e) \<noteq> k)"
  by (force simp: hm_map_def map_of_eq_None_iff)

text \<open>Searching with this key and key data finds the entry with key \<open>k\<close>.\<close>

definition denotes :: "('a, 'k) hashmap \<Rightarrow> 'a hashmap_entry \<Rightarrow> 'k option \<Rightarrow> 'key \<Rightarrow> bool" where
  "denotes m key kd k \<longleftrightarrow> he_hash key = hash_of k \<and>
     (\<forall>e\<in>set (hm_entries m). entry_equals m e key kd \<longleftrightarrow> key_of (he_data e) = k)"

lemma denotes_key:
  assumes "hm_ok m" and "he_hash key = hash_of (kd_key d)" and "kd_key d \<in> keys"
    and "\<forall>e\<in>set (hm_entries m). fits e key d \<and> he_id e \<noteq> he_id key"
  shows "denotes m key (Some d) (kd_key d)"
proof -
  have "entry_equals m e key (Some d) \<longleftrightarrow> key_of (he_data e) = kd_key d" if e: "e \<in> set (hm_entries m)" for e
  proof -
    have "key_of (he_data e) \<in> keys" "he_hash e = hash_of (key_of (he_data e))" "hm_cmpfn m = cmp"
      using assms(1) e by (auto simp: hm_ok_def entries_ok_def)
    then show ?thesis
      using assms(2-4) e cmp_key [of e d key] by (auto simp: entry_equals_def)
  qed
  then show ?thesis
    using assms(2) by (simp add: denotes_def)
qed

lemma not_denoted:
  assumes "hm_ok m" and "denotes m key kd k"
    and "\<forall>e\<in>set (hm_entries m). he_hash e = he_hash key \<longrightarrow> \<not> entry_equals m e key kd"
  shows "hm_map m k = None"
proof -
  have "key_of (he_data e) \<noteq> k" if "e \<in> set (hm_entries m)" for e
    using assms that by (auto simp: hm_ok_def entries_ok_def denotes_def)
  then show ?thesis
    by (simp add: hm_map_None)
qed

lemma get_map:
  assumes "hm_ok m" and "denotes m key kd k"
  shows "hashmap_get m key kd = Some (hm_map m k)"
proof -
  have wf: "hm_wf m"
    using assms(1) by (simp add: hm_ok_def)
  consider "hashmap_get m key kd = Some None"
      "\<forall>e\<in>set (hm_entries m). he_hash e = he_hash key \<longrightarrow> \<not> entry_equals m e key kd"
    | e where "hashmap_get m key kd = Some (Some e)" "e \<in> set (hm_entries m)" "entry_equals m e key kd"
    using hashmap_get_shape [OF wf] by blast
  then show ?thesis
  proof cases
    case 1
    then have "hm_map m k = None"
      using not_denoted [OF assms] by blast
    then show ?thesis
      using 1 by simp
  next
    case 2
    then have "hm_map m k = Some e"
      using assms(2) hm_map_iff [OF assms(1)] by (simp add: denotes_def)
    then show ?thesis
      using 2 by simp
  qed
qed

lemma remove_map:
  assumes "hm_ok m" and "denotes m key kd k"
  obtains m' where "hashmap_remove m key kd = Some (m', hm_map m k)" "hm_ok m'" "hm_map m' = (hm_map m)(k := None)"
    "hm_do_count_items m' = hm_do_count_items m" "set (hm_entries m') \<subseteq> set (hm_entries m)"
    "length (hm_entries m') \<le> length (hm_entries m)"
proof -
  have wf: "hm_wf m"
    using assms(1) by (simp add: hm_ok_def)
  consider "hashmap_remove m key kd = Some (m, None)"
      "\<forall>e\<in>set (hm_entries m). he_hash e = he_hash key \<longrightarrow> \<not> entry_equals m e key kd"
    | m' old where "hashmap_remove m key kd = Some (m', Some old)" "old \<in> set (hm_entries m)" "entry_equals m old key kd"
      "hm_wf m'" "hm_cmpfn m' = hm_cmpfn m" "hm_do_count_items m' = hm_do_count_items m"
      "mset (hm_entries m) = add_mset old (mset (hm_entries m'))"
    using hashmap_remove_shape [OF wf, of key kd] by blast
  then show thesis
  proof cases
    case 1
    then have "hm_map m k = None"
      using not_denoted [OF assms] by blast
    then show ?thesis
      using that [of m] 1 assms(1) by (simp add: fun_upd_idem)
  next
    case 2
    have key: "key_of (he_data old) = k"
      using assms(2) 2(2,3) by (simp add: denotes_def)
    have "entries_ok (old # hm_entries m')"
      using entries_ok_mset [of "hm_entries m" "old # hm_entries m'"] assms(1) 2(7) by (simp add: hm_ok_def)
    then have ok: "hm_ok m'" and "k \<notin> (\<lambda>e. key_of (he_data e)) ` set (hm_entries m')"
      using 2 assms(1) key by (auto simp: hm_ok_def entries_ok_def)
    then have nokey: "\<forall>e\<in>set (hm_entries m'). key_of (he_data e) \<noteq> k"
      by blast
    have set: "set (hm_entries m) = insert old (set (hm_entries m'))"
      using 2(7) by (metis set_mset_add_mset_insert set_mset_mset)
    have "hm_map m' = (hm_map m)(k := None)"
    proof
      fix j
      show "hm_map m' j = ((hm_map m)(k := None)) j"
      proof (cases "j = k")
        case False
        then have "hm_map m' j = Some e \<longleftrightarrow> hm_map m j = Some e" for e
          using hm_map_iff [OF ok] hm_map_iff [OF assms(1)] set key by auto
        then show ?thesis
          using False by (metis fun_upd_apply not_None_eq)
      qed (use nokey in \<open>simp add: hm_map_None\<close>)
    qed
    moreover have "hm_map m k = Some old"
      using hm_map_iff [OF assms(1)] 2(2) key by blast
    moreover have "length (hm_entries m') \<le> length (hm_entries m)"
      using 2(7) by (metis size_mset size_add_mset le_add2 plus_1_eq_Suc)
    ultimately show ?thesis
      using that [of m'] 2 ok set by auto
  qed
qed

text \<open>An entry that can be added: with its own address and the hash of its key \<open>k\<close>.\<close>

definition fresh_entry :: "('a, 'k) hashmap \<Rightarrow> 'a hashmap_entry \<Rightarrow> 'key \<Rightarrow> bool" where
  "fresh_entry m e k \<longleftrightarrow> key_of (he_data e) = k \<and> k \<in> keys \<and> he_hash e = hash_of k \<and> he_id e \<noteq> 0 \<and>
     (\<forall>x\<in>set (hm_entries m). he_id x \<noteq> he_id e)"

lemma add_map:
  assumes "hm_ok m" and "fresh_entry m e k" and "hm_map m k = None"
    and "length (hm_entries m) < 2 ^ 29"
  obtains m' where "hashmap_add m e = Some m'" "hm_ok m'" "hm_map m' = (hm_map m)(k \<mapsto> e)"
    "hm_do_count_items m' = hm_do_count_items m" "set (hm_entries m') = insert e (set (hm_entries m))"
    "length (hm_entries m') = length (hm_entries m) + 1"
proof -
  have wf: "hm_wf m"
    using assms(1) by (simp add: hm_ok_def)
  obtain m' where m': "hashmap_add m e = Some m'" "hm_wf m'" "hm_cmpfn m' = hm_cmpfn m"
    "hm_do_count_items m' = hm_do_count_items m" "mset (hm_entries m') = add_mset e (mset (hm_entries m))"
    using hashmap_add_shape [OF wf assms(4), of e] by blast
  have key: "key_of (he_data e) = k" "k \<in> keys" "he_hash e = hash_of k" "\<forall>x\<in>set (hm_entries m). he_id x \<noteq> he_id e"
    using assms(2) by (auto simp: fresh_entry_def)
  have "entries_ok (e # hm_entries m)"
    using assms(1-3) key unfolding hm_map_None by (fastforce simp: hm_ok_def entries_ok_def fresh_entry_def)
  then have ok: "hm_ok m'"
    using entries_ok_mset [of "e # hm_entries m" "hm_entries m'"] m' assms(1) by (simp add: hm_ok_def)
  have set: "set (hm_entries m') = insert e (set (hm_entries m))"
    using m'(5) by (metis set_mset_add_mset_insert set_mset_mset)
  have "hm_map m' j = ((hm_map m)(k \<mapsto> e)) j" for j
  proof (cases "j = k")
    case True
    then show ?thesis
      using hm_map_iff [OF ok, of k e] set key(1) by simp
  next
    case False
    then have "hm_map m' j = Some x \<longleftrightarrow> hm_map m j = Some x" for x
      using hm_map_iff [OF ok] hm_map_iff [OF assms(1)] set key by auto
    then show ?thesis
      using False by (metis fun_upd_apply not_None_eq)
  qed
  moreover have "length (hm_entries m') = length (hm_entries m) + 1"
    using m'(5) by (metis size_mset size_add_mset Suc_eq_plus1)
  ultimately show ?thesis
    using that [of m'] m' ok set by blast
qed

lemma length_entries: "hm_ok m \<Longrightarrow> length (hm_entries m) = card (dom (hm_map m))"
proof -
  assume ok: "hm_ok m"
  then have "dom (hm_map m) = (\<lambda>e. key_of (he_data e)) ` set (hm_entries m)"
    by (force simp: dom_def hm_map_iff)
  moreover have "distinct (map (\<lambda>e. key_of (he_data e)) (hm_entries m))"
    using ok by (simp add: hm_ok_def entries_ok_def)
  ultimately show ?thesis
    by (metis distinct_card length_map set_map)
qed

end

text \<open>A comparison function that also compares two entries by their keys, as \<open>hashmap_put\<close> needs it.\<close>

locale hashmap_entry_keys = hashmap_keys cmp key_of kd_key hash_of keys fits
  for cmp :: "('a, 'k) cmp_fn" and key_of :: "'a \<Rightarrow> 'key" and kd_key hash_of keys fits +
  assumes cmp_entry: "key_of (he_data e1) \<in> keys \<Longrightarrow> key_of (he_data e2) \<in> keys \<Longrightarrow>
      cmp e1 e2 None = 0 \<longleftrightarrow> key_of (he_data e1) = key_of (he_data e2)"
begin

lemma denotes_entry:
  assumes "hm_ok m" and "fresh_entry m e k"
  shows "denotes m e None k"
proof -
  have "entry_equals m x e None \<longleftrightarrow> key_of (he_data x) = k" if x: "x \<in> set (hm_entries m)" for x
  proof -
    have "key_of (he_data x) \<in> keys" "he_hash x = hash_of (key_of (he_data x))" "hm_cmpfn m = cmp"
      using assms(1) x by (auto simp: hm_ok_def entries_ok_def)
    then show ?thesis
      using assms(2) x cmp_entry [of x e] by (auto simp: entry_equals_def fresh_entry_def)
  qed
  then show ?thesis
    using assms(2) by (simp add: denotes_def fresh_entry_def)
qed

lemma put_map:
  assumes "hm_ok m" and "fresh_entry m e k" and "length (hm_entries m) < 2 ^ 29"
  obtains m' where "hashmap_put m e = Some (m', hm_map m k)" "hm_ok m'" "hm_map m' = (hm_map m)(k \<mapsto> e)"
    "hm_do_count_items m' = hm_do_count_items m" "set (hm_entries m') \<subseteq> insert e (set (hm_entries m))"
    "length (hm_entries m') \<le> length (hm_entries m) + 1"
proof -
  obtain m1 where m1: "hashmap_remove m e None = Some (m1, hm_map m k)" "hm_ok m1" "hm_map m1 = (hm_map m)(k := None)"
    "hm_do_count_items m1 = hm_do_count_items m" "set (hm_entries m1) \<subseteq> set (hm_entries m)"
    "length (hm_entries m1) \<le> length (hm_entries m)"
    by (rule remove_map [OF assms(1) denotes_entry [OF assms(1,2)]])
  have fresh: "fresh_entry m1 e k" "hm_map m1 k = None" "length (hm_entries m1) < 2 ^ 29"
    using assms(2,3) m1(3,5,6) by (auto simp: fresh_entry_def)
  obtain m2 where "hashmap_add m1 e = Some m2" "hm_ok m2" "hm_map m2 = (hm_map m1)(k \<mapsto> e)"
    "hm_do_count_items m2 = hm_do_count_items m1" "set (hm_entries m2) = insert e (set (hm_entries m1))"
    "length (hm_entries m2) = length (hm_entries m1) + 1"
    by (rule add_map [OF m1(2) fresh])
  then show ?thesis
    using that [of m2] m1 by (auto simp: hashmap_put_def)
qed

end

end
