(* ===== verification/Git_Oidmap.thy ===== *)
theory Git_Oidmap
  imports Git_Hashmap_Map
begin

text \<open>
  The users of the hash tables: \<^verbatim>\<open>oidmap.c\<close>, maps from object names; \<^verbatim>\<open>oidset.c\<close>, sets of object
  names; and the pool of interned strings at the end of \<^verbatim>\<open>hashmap.c\<close>.  The data of an entry of an
  \<open>oidmap\<close> are its name and what the caller's structure holds besides.  Allocation returns an
  address, which is a parameter; \<open>stack\<close> is what follows a key on the stack.
\<close>

subsection \<open>Maps from object names\<close>

definition oidmap_cmpfn :: "(byte list \<times> 'u, byte list) cmp_fn" where
  "oidmap_cmpfn entry entry_or_key keydata =
     (case keydata of
        Some oid \<Rightarrow> hashcmp (fst (he_data entry)) oid
      | None \<Rightarrow> hashcmp (fst (he_data entry)) (fst (he_data entry_or_key)))"

definition oidmap_hash :: "byte list \<Rightarrow> u32" where
  "oidmap_hash oid = of_le_bytes (take 4 oid)"

type_synonym 'u oidmap = "(byte list \<times> 'u, byte list) hashmap"
type_synonym 'u oidmap_entry = "(byte list \<times> 'u) hashmap_entry"

definition oidmap_init :: "u64 \<Rightarrow> 'u oidmap option" where
  "oidmap_init initial_size = hashmap_init (Some oidmap_cmpfn) initial_size"

definition oidmap_free :: "'u oidmap \<Rightarrow> bool \<Rightarrow> 'u oidmap \<times> 'u oidmap_entry list" where
  "oidmap_free m free_entries = hashmap_free m free_entries"

definition oidmap_get :: "byte list \<times> 'u \<Rightarrow> 'u oidmap \<Rightarrow> byte list \<Rightarrow> 'u oidmap_entry option option" where
  "oidmap_get stack m key = hashmap_get_from_hash stack m (oidmap_hash key) (Some key)"

definition oidmap_remove ::
    "byte list \<times> 'u \<Rightarrow> 'u oidmap \<Rightarrow> byte list \<Rightarrow> ('u oidmap \<times> 'u oidmap_entry option) option" where
  "oidmap_remove stack m key = hashmap_remove m (hashmap_entry_init 0 (oidmap_hash key) stack) (Some key)"

definition oidmap_put :: "'u oidmap \<Rightarrow> 'u oidmap_entry \<Rightarrow> ('u oidmap \<times> 'u oidmap_entry option) option" where
  "oidmap_put m entry =
     (let to_put = hashmap_entry_init (he_id entry) (oidmap_hash (fst (he_data entry))) (he_data entry)
      in hashmap_put m to_put)"

subsection \<open>Sets of object names\<close>

type_synonym oidset = "unit oidmap"

definition oidset_contains :: "byte list \<times> unit \<Rightarrow> oidset \<Rightarrow> byte list \<Rightarrow> bool option" where
  "oidset_contains stack oids oid =
     (if hm_tablesize oids = 0 then Some False
      else map_option (\<lambda>e. e \<noteq> None) (oidmap_get stack oids oid))"

definition oidset_insert :: "byte list \<times> unit \<Rightarrow> nat \<Rightarrow> oidset \<Rightarrow> byte list \<Rightarrow> (oidset \<times> bool) option" where
  "oidset_insert stack addr oids oid =
     do {
       (oids1, present) \<leftarrow>
         (if hm_tablesize oids = 0 then map_option (\<lambda>m. (m, False)) (oidmap_init 0)
          else map_option (\<lambda>p. (oids, p)) (oidset_contains stack oids oid));
       if present then Some (oids1, True)
       else do {
         (oids2, _) \<leftarrow> oidmap_put oids1 \<lparr>he_id = addr, he_hash = 0, he_data = (oid, ())\<rparr>;
         Some (oids2, False)
       }
     }"

definition oidset_clear :: "oidset \<Rightarrow> oidset \<times> unit oidmap_entry list" where
  "oidset_clear oids = oidmap_free oids True"

subsection \<open>Interned strings\<close>

text \<open>
  The data of an entry are its bytes, and their address is that of the entry; key data are an
  address and the bytes there.  The pool is never searched without key data.
\<close>

definition pool_entry_cmp :: "(byte list, nat \<times> byte list) cmp_fn" where
  "pool_entry_cmp e1 e2 keydata =
     (case keydata of
        Some (addr, bytes) \<Rightarrow>
          (if he_id e1 \<noteq> addr \<and>
              (length (he_data e1) \<noteq> length (he_data e2) \<or> memcmp (he_data e1) bytes (length (he_data e1)) \<noteq> 0)
           then 1 else 0)
      | None \<Rightarrow> if length (he_data e1) \<noteq> length (he_data e2) then 1 else 0)"

type_synonym string_pool = "(byte list, nat \<times> byte list) hashmap"

text \<open>The pool, and the address of the interned data.\<close>

definition memintern :: "nat \<Rightarrow> string_pool \<Rightarrow> nat \<times> byte list \<Rightarrow> (string_pool \<times> nat) option" where
  "memintern addr pool data =
     do {
       pool1 \<leftarrow> (if hm_tablesize pool = 0 then hashmap_init (Some pool_entry_cmp) 0 else Some pool);
       let key = hashmap_entry_init 0 (memhash (snd data)) (snd data);
       found \<leftarrow> hashmap_get pool1 key (Some data);
       case found of
         Some e \<Rightarrow> Some (pool1, he_id e)
       | None \<Rightarrow> do {
           pool2 \<leftarrow> hashmap_add pool1 (hashmap_entry_init addr (he_hash key) (snd data));
           Some (pool2, addr)
         }
     }"

subsection \<open>Hash functions\<close>

lemma strhash_memhash: "strhash str = memhash (takeWhile (\<lambda>c. c \<noteq> 0) str)"
proof -
  have "strhash_loop str h = memhash_loop (takeWhile (\<lambda>c. c \<noteq> 0) str) h" for h
    by (induction str arbitrary: h) simp_all
  then show ?thesis
    by (simp add: strhash_def memhash_def)
qed

lemma strihash_memihash: "strihash str = memihash (takeWhile (\<lambda>c. c \<noteq> 0) str)"
proof -
  have "strihash_loop str h = memihash_loop (takeWhile (\<lambda>c. c \<noteq> 0) str) h" for h
    by (induction str arbitrary: h) simp_all
  then show ?thesis
    by (simp add: strihash_def memihash_def)
qed

lemma memihash_cont_append: "memihash_cont (memihash xs) ys = memihash (xs @ ys)"
proof -
  have "memihash_loop ys (memihash_loop xs h) = memihash_loop (xs @ ys) h" for h
    by (induction xs arbitrary: h) simp_all
  then show ?thesis
    by (simp add: memihash_cont_def memihash_def)
qed

subsection \<open>The comparison functions keep their promises\<close>

interpretation oid: hashmap_entry_keys oidmap_cmpfn fst id oidmap_hash hashes "\<lambda>e k d. True"
proof unfold_locales
  fix e1 e2 :: "'u oidmap_entry" and d
  show "fst (he_data e1) \<in> hashes \<Longrightarrow> fst (he_data e2) \<in> hashes \<Longrightarrow>
      oidmap_cmpfn e1 e2 None = 0 \<longleftrightarrow> fst (he_data e1) = fst (he_data e2)"
    using hashcmp_0 [of "fst (he_data e1)" "fst (he_data e2)"] by (simp add: oidmap_cmpfn_def)
  show "fst (he_data e1) \<in> hashes \<Longrightarrow> id d \<in> hashes \<Longrightarrow> True \<Longrightarrow>
      oidmap_cmpfn e1 e2 (Some d) = 0 \<longleftrightarrow> fst (he_data e1) = id d"
    using hashcmp_0 [of "fst (he_data e1)" d] by (simp add: oidmap_cmpfn_def)
qed

definition pool_fits :: "byte list hashmap_entry \<Rightarrow> byte list hashmap_entry \<Rightarrow> nat \<times> byte list \<Rightarrow> bool" where
  "pool_fits e key d \<longleftrightarrow> he_id e \<noteq> fst d \<and> he_data key = snd d"

lemma memcmp_same: "length xs = length ys \<Longrightarrow> memcmp xs ys (length xs) = 0 \<longleftrightarrow> xs = ys"
  using memcmp_sgn [of "length xs" xs ys] by (auto simp: compare_keys_def sgn_if split: if_splits)

interpretation pool: hashmap_keys pool_entry_cmp id snd memhash UNIV pool_fits
proof unfold_locales
  fix e1 e2 :: "byte list hashmap_entry" and d
  assume "pool_fits e1 e2 d"
  then show "pool_entry_cmp e1 e2 (Some d) = 0 \<longleftrightarrow> id (he_data e1) = snd d"
    using memcmp_same [of "he_data e1" "he_data e2"]
    by (cases d; cases "length (he_data e1) = length (he_data e2)") (auto simp: pool_entry_cmp_def pool_fits_def)
qed

subsection \<open>The operations\<close>

text \<open>The map, when it is initialized, and the addresses of its entries.\<close>

definition hm_addrs :: "('a, 'k) hashmap \<Rightarrow> nat set" where
  "hm_addrs m = he_id ` set (hm_entries m)"

lemma oid_denotes:
  "oid.hm_ok m \<Longrightarrow> key \<in> hashes \<Longrightarrow> oid.denotes m (hashmap_entry_init 0 (oidmap_hash key) stack) (Some key) key"
  using oid.denotes_key [of m "hashmap_entry_init 0 (oidmap_hash key) stack" key]
  by (auto simp: hashmap_entry_init_def oid.hm_ok_def oid.entries_ok_def)

text \<open>
  (C22) An \<open>oidmap\<close> of fewer than \<open>2 ^ 29\<close> entries refines a map from object names to entries, through
  every growing and shrinking of its table: \<open>oidmap_get\<close> is lookup, \<open>oidmap_put\<close> of an entry at a
  new address is update, \<open>oidmap_remove\<close> is deletion, and both give the old entry.
\<close>

theorem oidmap_refines_map:
  fixes m :: "'u oidmap" and u :: 'u and oid addr
  assumes "oid.hm_ok m" and "oid \<in> hashes" and "length (hm_entries m) < 2 ^ 29"
    and "addr \<noteq> 0" and "addr \<notin> hm_addrs m"
  defines "e \<equiv> \<lparr>he_id = addr, he_hash = oidmap_hash oid, he_data = (oid, u)\<rparr>"
  shows "oidmap_get stack m oid = Some (oid.hm_map m oid) \<and>
    (\<exists>m'. oidmap_put m (e\<lparr>he_hash := junk\<rparr>) = Some (m', oid.hm_map m oid) \<and> oid.hm_ok m' \<and>
       oid.hm_map m' = (oid.hm_map m)(oid \<mapsto> e) \<and> hm_addrs m' \<subseteq> insert addr (hm_addrs m)) \<and>
    (\<exists>m'. oidmap_remove stack m oid = Some (m', oid.hm_map m oid) \<and> oid.hm_ok m' \<and>
       oid.hm_map m' = (oid.hm_map m)(oid := None) \<and> hm_addrs m' \<subseteq> hm_addrs m)"
proof (intro conjI)
  note denotes = oid_denotes [OF assms(1,2)]
  show "oidmap_get stack m oid = Some (oid.hm_map m oid)"
    using oid.get_map [OF assms(1) denotes] by (simp add: oidmap_get_def hashmap_get_from_hash_def)
  have "oid.fresh_entry m e oid"
    using assms(2,4,5) by (auto simp: oid.fresh_entry_def e_def hm_addrs_def)
  then obtain m' where "hashmap_put m e = Some (m', oid.hm_map m oid)" "oid.hm_ok m'"
    "oid.hm_map m' = (oid.hm_map m)(oid \<mapsto> e)" "set (hm_entries m') \<subseteq> insert e (set (hm_entries m))"
    using oid.put_map [OF assms(1) _ assms(3)] by metis
  then show "\<exists>m'. oidmap_put m (e\<lparr>he_hash := junk\<rparr>) = Some (m', oid.hm_map m oid) \<and> oid.hm_ok m' \<and>
       oid.hm_map m' = (oid.hm_map m)(oid \<mapsto> e) \<and> hm_addrs m' \<subseteq> insert addr (hm_addrs m)"
    by (auto simp: oidmap_put_def hashmap_entry_init_def e_def hm_addrs_def)
  obtain m' where "hashmap_remove m (hashmap_entry_init 0 (oidmap_hash oid) stack) (Some oid) = Some (m', oid.hm_map m oid)"
    "oid.hm_ok m'" "oid.hm_map m' = (oid.hm_map m)(oid := None)" "set (hm_entries m') \<subseteq> set (hm_entries m)"
    by (rule oid.remove_map [OF assms(1) denotes])
  then show "\<exists>m'. oidmap_remove stack m oid = Some (m', oid.hm_map m oid) \<and> oid.hm_ok m' \<and>
       oid.hm_map m' = (oid.hm_map m)(oid := None) \<and> hm_addrs m' \<subseteq> hm_addrs m"
    by (auto simp: oidmap_remove_def hm_addrs_def)
qed


lemma hm_wf_tablesize: "hm_wf m \<Longrightarrow> hm_tablesize m \<noteq> 0"
proof -
  assume "hm_wf m"
  then obtain k where "hm_shape k m"
    by (auto simp: hm_wf_def)
  then have "unat (hm_tablesize m) \<noteq> 0"
    by (simp add: hm_shape_def unat_pow)
  then show ?thesis
    by auto
qed

lemma oidmap_init_ok: "\<exists>m :: 'u oidmap. oidmap_init 0 = Some m \<and> oid.hm_ok m \<and> hm_entries m = [] \<and> hm_tablesize m \<noteq> 0"
proof -
  obtain m :: "'u oidmap" where m: "hashmap_init (Some oidmap_cmpfn) 0 = Some m" "hm_wf m" "hm_entries m = []"
    "hm_cmpfn m = oidmap_cmpfn"
    using hashmap_init_wf [of 0] by auto
  then show ?thesis
    using hm_wf_tablesize [OF m(2)] by (auto simp: oidmap_init_def oid.hm_ok_def oid.entries_ok_def)
qed

theorem oidmap_refines_map_witness:
  "\<exists>(m :: nat oidmap) m'. oidmap_init 0 = Some m \<and> oidmap_get ([], 0) m (replicate 20 7) = Some None \<and>
     oidmap_put m \<lparr>he_id = 1, he_hash = 0, he_data = (replicate 20 7, 5)\<rparr> = Some (m', None) \<and>
     oid.hm_map m' (replicate 20 7) = Some \<lparr>he_id = 1, he_hash = oidmap_hash (replicate 20 7), he_data = (replicate 20 7, 5)\<rparr>"
proof -
  obtain m :: "nat oidmap" where m: "oidmap_init 0 = Some m" "oid.hm_ok m" "hm_entries m = []"
    using oidmap_init_ok by blast
  then have "oid.hm_map m (replicate 20 7) = None" "hm_addrs m = {}" "length (hm_entries m) < 2 ^ 29"
    by (simp_all add: oid.hm_map_def hm_addrs_def)
  then show ?thesis
    using oidmap_refines_map [OF m(2), of "replicate 20 7" 1 "([], 0)" 0 5] m(1) by auto
qed

text \<open>A set of object names: zeroed, or an initialized map that has them as its keys.\<close>

definition oidset_rep :: "oidset \<Rightarrow> byte list set \<Rightarrow> bool" where
  "oidset_rep oids S \<longleftrightarrow>
     hm_tablesize oids = 0 \<and> hm_table oids = [] \<and> S = {} \<or>
     hm_tablesize oids \<noteq> 0 \<and> oid.hm_ok oids \<and> S = dom (oid.hm_map oids)"

lemma oidset_rep_size: "oidset_rep oids S \<Longrightarrow> length (hm_entries oids) = card S"
  by (auto simp: oidset_rep_def hm_entries_def oid.length_entries [unfolded hm_entries_def])

lemma oidset_contains_rep:
  "oidset_rep oids S \<Longrightarrow> oid \<in> hashes \<Longrightarrow> oidset_contains stack oids oid = Some (oid \<in> S)"
  using oid.get_map [OF _ oid_denotes, of oids oid stack]
  by (auto simp: oidset_rep_def oidset_contains_def oidmap_get_def hashmap_get_from_hash_def)

lemma hm_ok_tablesize: "oid.hm_ok m \<Longrightarrow> hm_tablesize m \<noteq> 0"
  by (simp add: oid.hm_ok_def hm_wf_tablesize)

lemma oidset_insert_rep:
  assumes "oidset_rep oids S" and "oid \<in> hashes" and "card S < 2 ^ 29" and "addr \<noteq> 0" and "addr \<notin> hm_addrs oids"
  shows "\<exists>oids'. oidset_insert stack addr oids oid = Some (oids', oid \<in> S) \<and> oidset_rep oids' (insert oid S) \<and>
    hm_addrs oids' \<subseteq> insert addr (hm_addrs oids)"
proof -
  obtain oids1 where start: "(if hm_tablesize oids = 0 then map_option (\<lambda>m. (m, False)) (oidmap_init 0)
      else map_option (\<lambda>p. (oids, p)) (oidset_contains stack oids oid)) = Some (oids1, oid \<in> S)"
    "oid.hm_ok oids1" "S = dom (oid.hm_map oids1)" "hm_addrs oids1 = hm_addrs oids" "length (hm_entries oids1) < 2 ^ 29"
  proof (cases "hm_tablesize oids = 0")
    case True
    then have empty: "S = {}" "hm_entries oids = []"
      using assms(1) by (auto simp: oidset_rep_def hm_entries_def)
    obtain m :: oidset where "oidmap_init 0 = Some m" "oid.hm_ok m" "hm_entries m = []"
      using oidmap_init_ok by blast
    then show ?thesis
      using that [of m] True empty by (auto simp: hm_addrs_def oid.hm_map_def)
  next
    case False
    then show ?thesis
      using that [of oids] assms(1,3) oidset_contains_rep [OF assms(1,2), of stack] oidset_rep_size [OF assms(1)]
      by (auto simp: oidset_rep_def)
  qed
  show ?thesis
  proof (cases "oid \<in> S")
    case True
    then show ?thesis
      using start hm_ok_tablesize [OF start(2)] by (auto simp: oidset_insert_def oidset_rep_def)
  next
    case False
    let ?e = "\<lparr>he_id = addr, he_hash = oidmap_hash oid, he_data = (oid, ())\<rparr>"
    have "oid.fresh_entry oids1 ?e oid"
      using assms(2,4,5) start(4) by (auto simp: oid.fresh_entry_def hm_addrs_def)
    then obtain m' old where m': "hashmap_put oids1 ?e = Some (m', old)" "oid.hm_ok m'"
      "oid.hm_map m' = (oid.hm_map oids1)(oid \<mapsto> ?e)" "set (hm_entries m') \<subseteq> insert ?e (set (hm_entries oids1))"
      using oid.put_map [OF start(2) _ start(5)] by metis
    then have "oidset_insert stack addr oids oid = Some (m', False)"
      using start(1) False by (simp add: oidset_insert_def oidmap_put_def hashmap_entry_init_def)
    moreover have "oidset_rep m' (insert oid S)"
      using m'(2,3) start(3) hm_ok_tablesize [OF m'(2)] by (auto simp: oidset_rep_def)
    moreover have "hm_addrs m' \<subseteq> insert addr (hm_addrs oids)"
    proof -
      have "he_id ` set (hm_entries m') \<subseteq> insert (he_id ?e) (he_id ` set (hm_entries oids1))"
        using m'(4) by blast
      then show ?thesis
        using start(4) by (simp add: hm_addrs_def)
    qed
    ultimately show ?thesis
      using False by auto
  qed
qed

lemma oidset_clear_rep:
  assumes "oidset_rep oids S"
  shows "oidset_rep (fst (oidset_clear oids)) {} \<and> mset (map he_id (snd (oidset_clear oids))) = mset_set (hm_addrs oids)"
proof (cases "hm_table oids = []")
  case True
  then have "hm_tablesize oids = 0"
    using assms by (auto simp: oidset_rep_def oid.hm_ok_def hm_wf_def hm_shape_def)
  then show ?thesis
    using True by (simp add: oidset_clear_def oidmap_free_def hashmap_free_def oidset_rep_def hm_addrs_def hm_entries_def)
next
  case False
  then have ok: "oid.hm_ok oids"
    using assms by (auto simp: oidset_rep_def)
  then have "collect_entries (length (concat (hm_table oids)) + 1) oids hashmap_iter_init = hm_entries oids"
    by (intro collect_all) (simp_all add: oid.hm_ok_def hm_entries_def)
  moreover have "mset (map he_id (hm_entries oids)) = mset_set (hm_addrs oids)"
    using ok by (simp add: oid.hm_ok_def oid.entries_ok_def hm_addrs_def mset_set_set flip: set_map)
  ultimately show ?thesis
    using False by (simp add: oidset_clear_def oidmap_free_def hashmap_free_def oidset_rep_def HASHMAP_ZERO_def)
qed

text \<open>
  An \<open>oidset\<close> of fewer than \<open>2 ^ 29\<close> names refines a set: membership, insertion, which tells
  whether the name was there and initializes the set when it must, and clearing, which frees
  every entry exactly once.
\<close>

theorem oidset_refines_set:
  assumes "oidset_rep oids S" and "oid \<in> hashes" and "card S < 2 ^ 29" and "addr \<noteq> 0" and "addr \<notin> hm_addrs oids"
  shows "oidset_contains stack oids oid = Some (oid \<in> S) \<and>
    (\<exists>oids'. oidset_insert stack addr oids oid = Some (oids', oid \<in> S) \<and> oidset_rep oids' (insert oid S) \<and>
       hm_addrs oids' \<subseteq> insert addr (hm_addrs oids)) \<and>
    oidset_rep (fst (oidset_clear oids)) {} \<and>
    mset (map he_id (snd (oidset_clear oids))) = mset_set (hm_addrs oids)"
  using oidset_contains_rep [OF assms(1,2)] oidset_insert_rep [OF assms] oidset_clear_rep [OF assms(1)] by blast

theorem oidset_refines_set_witness:
  "\<exists>oids. oidset_insert ([], ()) 1 HASHMAP_ZERO (replicate 20 7) = Some (oids, False) \<and> oidset_rep oids {replicate 20 7}"
proof -
  have "oidset_rep HASHMAP_ZERO {}"
    by (simp add: oidset_rep_def HASHMAP_ZERO_def)
  then show ?thesis
    using oidset_refines_set [of HASHMAP_ZERO "{}" "replicate 20 7" 1 "([], ())"]
    by (auto simp: hm_addrs_def hm_entries_def HASHMAP_ZERO_def)
qed

text \<open>Interning gives equal addresses to equal data, and to different data different ones.\<close>

definition pool_rep :: "string_pool \<Rightarrow> (byte list \<Rightarrow> nat option) \<Rightarrow> bool" where
  "pool_rep m p \<longleftrightarrow>
     hm_tablesize m = 0 \<and> hm_table m = [] \<and> p = (\<lambda>_. None) \<or>
     hm_tablesize m \<noteq> 0 \<and> pool.hm_ok m \<and> p = map_option he_id \<circ> pool.hm_map m"

lemma memintern_rep:
  assumes "pool_rep m p" and "length (hm_entries m) < 2 ^ 29" and "addr \<noteq> 0" and "addr \<notin> hm_addrs m"
    and "fst data \<notin> hm_addrs m"
  shows "\<exists>m'. memintern addr m data = Some (m', case p (snd data) of None \<Rightarrow> addr | Some a \<Rightarrow> a) \<and>
    pool_rep m' (if p (snd data) = None then p(snd data \<mapsto> addr) else p)"
proof -
  obtain m1 where m1: "(if hm_tablesize m = 0 then hashmap_init (Some pool_entry_cmp) 0 else Some m) = Some m1"
    "pool.hm_ok m1" "p = map_option he_id \<circ> pool.hm_map m1" "hm_addrs m1 = hm_addrs m" "length (hm_entries m1) < 2 ^ 29"
  proof (cases "hm_tablesize m = 0")
    case True
    obtain m1 :: string_pool where "hashmap_init (Some pool_entry_cmp) 0 = Some m1" "hm_wf m1" "hm_entries m1 = []"
      "hm_cmpfn m1 = pool_entry_cmp"
      using hashmap_init_wf [of 0] by auto
    moreover have "p = (\<lambda>_. None)" "hm_entries m = []"
      using True assms(1) by (auto simp: pool_rep_def hm_entries_def)
    ultimately show ?thesis
      using that [of m1] True
      by (simp add: pool.hm_ok_def pool.entries_ok_def pool.hm_map_def hm_addrs_def comp_def)
  next
    case False
    then show ?thesis
      using that [of m] assms(1,2) by (auto simp: pool_rep_def)
  qed
  have tab: "pool.hm_ok x \<Longrightarrow> hm_tablesize x \<noteq> 0" for x
    by (simp add: pool.hm_ok_def hm_wf_tablesize)
  let ?key = "hashmap_entry_init 0 (memhash (snd data)) (snd data)"
  have "\<forall>e\<in>set (hm_entries m1). he_id e \<noteq> fst data"
    using assms(5) m1(4) unfolding hm_addrs_def by (metis imageI)
  then have "\<forall>e\<in>set (hm_entries m1). pool_fits e ?key data \<and> he_id e \<noteq> he_id ?key"
    using m1(2) by (auto simp: pool_fits_def hashmap_entry_init_def pool.hm_ok_def pool.entries_ok_def)
  then have "pool.denotes m1 ?key (Some data) (snd data)"
    using pool.denotes_key [OF m1(2), of ?key data] by (simp add: hashmap_entry_init_def)
  note get = pool.get_map [OF m1(2) this]
  show ?thesis
  proof (cases "pool.hm_map m1 (snd data)")
    case (Some e)
    then show ?thesis
      using m1 get tab [OF m1(2)] by (auto simp: memintern_def Let_def pool_rep_def)
  next
    case None
    let ?e = "hashmap_entry_init addr (memhash (snd data)) (snd data)"
    have fresh: "pool.fresh_entry m1 ?e (snd data)"
      using assms(3,4) m1(4) by (auto simp: pool.fresh_entry_def hashmap_entry_init_def hm_addrs_def)
    obtain m2 where m2: "hashmap_add m1 ?e = Some m2" "pool.hm_ok m2" "pool.hm_map m2 = (pool.hm_map m1)(snd data \<mapsto> ?e)"
      by (rule pool.add_map [OF m1(2) fresh None m1(5)])
    have "map_option he_id \<circ> pool.hm_map m2 = p(snd data \<mapsto> addr)"
      by (auto simp: m2(3) m1(3) hashmap_entry_init_def)
    then show ?thesis
      using m1 get m2 None tab [OF m2(2)]
      by (auto simp: memintern_def Let_def pool_rep_def hashmap_entry_init_def)
  qed
qed



end
