(* ===== verification/Git_Ctype.thy ===== *)
theory Git_Ctype
  imports Git_Hex
begin

text \<open>
  \<^verbatim>\<open>ctype.c\<close> and the character tests of \<^verbatim>\<open>git-compat-util.h\<close>: the table of the locale-independent
  classes, the tests on it, and the change of case; and the classes the table denotes.
\<close>

subsection \<open>The table\<close>

definition GIT_SPACE :: byte where "GIT_SPACE = 0x01"
definition GIT_DIGIT :: byte where "GIT_DIGIT = 0x02"
definition GIT_ALPHA :: byte where "GIT_ALPHA = 0x04"
definition GIT_GLOB_SPECIAL :: byte where "GIT_GLOB_SPECIAL = 0x08"
definition GIT_REGEX_SPECIAL :: byte where "GIT_REGEX_SPECIAL = 0x10"
definition GIT_PATHSPEC_MAGIC :: byte where "GIT_PATHSPEC_MAGIC = 0x20"
definition GIT_CNTRL :: byte where "GIT_CNTRL = 0x40"
definition GIT_PUNCT :: byte where "GIT_PUNCT = 0x80"

lemmas ctype_masks = GIT_SPACE_def GIT_DIGIT_def GIT_ALPHA_def GIT_GLOB_SPECIAL_def
  GIT_REGEX_SPECIAL_def GIT_PATHSPEC_MAGIC_def GIT_CNTRL_def GIT_PUNCT_def

definition sane_ctype :: "byte list" where
  "sane_ctype =
    (let S = GIT_SPACE; A = GIT_ALPHA; D = GIT_DIGIT; G = GIT_GLOB_SPECIAL;
         R = GIT_REGEX_SPECIAL; P = GIT_PATHSPEC_MAGIC; X = GIT_CNTRL; U = GIT_PUNCT;
         Z = GIT_CNTRL OR GIT_SPACE in
     [X, X, X, X, X, X, X, X, X, Z, Z, X, X, Z, X, X,
      X, X, X, X, X, X, X, X, X, X, X, X, X, X, X, X,
      S, P, P, P, R, P, P, P, R, R, G, R, P, P, R, P,
      D, D, D, D, D, D, D, D, D, D, P, P, P, P, P, G,
      P, A, A, A, A, A, A, A, A, A, A, A, A, A, A, A,
      A, A, A, A, A, A, A, A, A, A, A, G, G, U, R, P,
      P, A, A, A, A, A, A, A, A, A, A, A, A, A, A, A,
      A, A, A, A, A, A, A, A, A, A, A, R, R, U, P, X]
     @ replicate 128 0)"

subsection \<open>The tests\<close>

definition sane_istest :: "byte \<Rightarrow> byte \<Rightarrow> bool" where
  "sane_istest x m \<longleftrightarrow> sane_ctype ! unat x AND m \<noteq> 0"

definition sane_case :: "byte \<Rightarrow> byte \<Rightarrow> byte" where
  "sane_case x high = (if sane_istest x GIT_ALPHA then (x AND NOT 0x20) OR high else x)"

definition sane_iscase :: "byte \<Rightarrow> bool \<Rightarrow> bool" where
  "sane_iscase x is_lower =
     (if \<not> sane_istest x GIT_ALPHA then False
      else if is_lower then x AND 0x20 \<noteq> 0 else x AND 0x20 = 0)"

definition isascii :: "byte \<Rightarrow> bool" where "isascii x \<longleftrightarrow> x AND NOT 0x7f = 0"
definition isspace :: "byte \<Rightarrow> bool" where "isspace x = sane_istest x GIT_SPACE"
definition isdigit :: "byte \<Rightarrow> bool" where "isdigit x = sane_istest x GIT_DIGIT"
definition isalpha :: "byte \<Rightarrow> bool" where "isalpha x = sane_istest x GIT_ALPHA"
definition isalnum :: "byte \<Rightarrow> bool" where "isalnum x = sane_istest x (GIT_ALPHA OR GIT_DIGIT)"
definition isprint :: "byte \<Rightarrow> bool" where "isprint x \<longleftrightarrow> 0x20 \<le> x \<and> x \<le> 0x7e"
definition islower :: "byte \<Rightarrow> bool" where "islower x = sane_iscase x True"
definition isupper :: "byte \<Rightarrow> bool" where "isupper x = sane_iscase x False"
definition is_glob_special :: "byte \<Rightarrow> bool" where
  "is_glob_special x = sane_istest x GIT_GLOB_SPECIAL"
definition is_regex_special :: "byte \<Rightarrow> bool" where
  "is_regex_special x = sane_istest x (GIT_GLOB_SPECIAL OR GIT_REGEX_SPECIAL)"
definition iscntrl :: "byte \<Rightarrow> bool" where "iscntrl x = sane_istest x GIT_CNTRL"
definition ispunct :: "byte \<Rightarrow> bool" where
  "ispunct x = sane_istest x (GIT_PUNCT OR GIT_REGEX_SPECIAL OR GIT_GLOB_SPECIAL OR GIT_PATHSPEC_MAGIC)"
definition isxdigit :: "byte \<Rightarrow> bool" where "isxdigit x \<longleftrightarrow> hexval_table ! unat x \<noteq> - 1"
definition tolower :: "byte \<Rightarrow> byte" where "tolower x = sane_case x 0x20"
definition toupper :: "byte \<Rightarrow> byte" where "toupper x = sane_case x 0"

subsection \<open>What the table denotes\<close>

text \<open>A property of the bytes is decided by the list of its values.\<close>

lemma upt_0_1: "2 \<le> n \<Longrightarrow> 0 # 1 # [2..<n] = [0..<n]"
  by (simp add: upt_conv_Cons numeral_2_eq_2)

lemmas bytes_upt = upt_0_1 [of 256, OF less_imp_le]

lemma byte_all:
  assumes "list_all P (map of_nat (0 # 1 # [2..<256]))"
  shows "\<forall>x :: byte. P x"
proof
  fix x :: byte
  have "unat x < 256"
    using unsigned_less [of x] by simp
  then have "of_nat (unat x) \<in> set (map of_nat (0 # 1 # [2..<256]) :: byte list)"
    unfolding set_map by (intro imageI) (subst bytes_upt, simp, simp only: set_upt atLeastLessThan_iff zero_le)
  with assms have "P (of_nat (unat x))"
    unfolding list_all_iff by (rule bspec)
  then show "P x"
    by simp
qed

definition alpha_byte :: "byte \<Rightarrow> bool" where
  "alpha_byte x \<longleftrightarrow> 65 \<le> x \<and> x \<le> 90 \<or> 97 \<le> x \<and> x \<le> 122"

lemma isalpha_table [rule_format]: "\<forall>x. sane_istest x GIT_ALPHA \<longleftrightarrow> alpha_byte x"
  unfolding sane_istest_def alpha_byte_def
  by (rule byte_all) (simp add: upt_rec_numeral word_le_nat_alt sane_ctype_def ctype_masks Let_def)

lemma is_glob_special_iff [rule_format]: "\<forall>x. is_glob_special x \<longleftrightarrow> x \<in> {42, 63, 91, 92}"
  unfolding is_glob_special_def sane_istest_def
  by (rule byte_all) (simp add: upt_rec_numeral word_le_nat_alt sane_ctype_def ctype_masks Let_def)

lemma isspace_iff [rule_format]: "\<forall>x. isspace x \<longleftrightarrow> x \<in> {9, 10, 13, 32}"
  unfolding isspace_def sane_istest_def
  by (rule byte_all) (simp add: upt_rec_numeral word_le_nat_alt sane_ctype_def ctype_masks Let_def)

lemma isdigit_iff [rule_format]: "\<forall>x. isdigit x \<longleftrightarrow> 48 \<le> x \<and> x \<le> 57"
  unfolding isdigit_def sane_istest_def
  by (rule byte_all) (simp add: upt_rec_numeral word_le_nat_alt sane_ctype_def ctype_masks Let_def)

lemma isupper_iff [rule_format]: "\<forall>x. isupper x \<longleftrightarrow> 65 \<le> x \<and> x \<le> 90"
  unfolding isupper_def sane_iscase_def isalpha_table alpha_byte_def
  by (rule byte_all) (simp add: upt_rec_numeral word_le_nat_alt)

lemma islower_iff [rule_format]: "\<forall>x. islower x \<longleftrightarrow> 97 \<le> x \<and> x \<le> 122"
  unfolding islower_def sane_iscase_def isalpha_table alpha_byte_def
  by (rule byte_all) (simp add: upt_rec_numeral word_le_nat_alt)

lemma tolower_eq [rule_format]: "\<forall>x. tolower x = (if isupper x then x + 32 else x)"
  unfolding tolower_def sane_case_def isalpha_table alpha_byte_def isupper_iff
  by (rule byte_all) (simp add: upt_rec_numeral word_le_nat_alt)

lemma toupper_eq [rule_format]: "\<forall>x. toupper x = (if islower x then x - 32 else x)"
  unfolding toupper_def sane_case_def isalpha_table alpha_byte_def islower_iff
  by (rule byte_all) (simp add: upt_rec_numeral word_le_nat_alt)

end
