(* ===== verification/Git_Wildmatch.thy ===== *)
theory Git_Wildmatch
  imports Git_Ctype "HOL-Library.Monad_Syntax" "HOL-Library.Sublist"
begin

text \<open>
  \<^verbatim>\<open>wildmatch.c\<close>: shell-style matching of a path against a pattern.  A \<open>const uchar *\<close> is the list
  of the bytes from the pointer to the end of its buffer, the terminating NUL included; a read past
  the end is \<open>None\<close>.  The meaning of a pattern is given on its own, as a list of tokens and the
  texts that match them.
\<close>

subsection \<open>The matcher\<close>

definition WM_CASEFOLD :: u32 where "WM_CASEFOLD = 1"
definition WM_PATHNAME :: u32 where "WM_PATHNAME = 2"

definition WM_ABORT_MALFORMED :: int where "WM_ABORT_MALFORMED = 2"
definition WM_NOMATCH :: int where "WM_NOMATCH = 1"
definition WM_MATCH :: int where "WM_MATCH = 0"
definition WM_ABORT_ALL :: int where "WM_ABORT_ALL = - 1"
definition WM_ABORT_TO_STARSTAR :: int where "WM_ABORT_TO_STARSTAR = - 2"

lemmas wm_codes = WM_ABORT_MALFORMED_def WM_NOMATCH_def WM_MATCH_def WM_ABORT_ALL_def
  WM_ABORT_TO_STARSTAR_def

abbreviation pathname :: "u32 \<Rightarrow> bool" where "pathname flags \<equiv> flags AND WM_PATHNAME \<noteq> 0"
abbreviation casefold :: "u32 \<Rightarrow> bool" where "casefold flags \<equiv> flags AND WM_CASEFOLD \<noteq> 0"

abbreviation Star_ch :: byte where "Star_ch \<equiv> 42"
abbreviation Dash_ch :: byte where "Dash_ch \<equiv> 45"
abbreviation Slash_ch :: byte where "Slash_ch \<equiv> 47"
abbreviation Colon_ch :: byte where "Colon_ch \<equiv> 58"
abbreviation Quest_ch :: byte where "Quest_ch \<equiv> 63"
abbreviation Open_ch :: byte where "Open_ch \<equiv> 91"
abbreviation Backslash_ch :: byte where "Backslash_ch \<equiv> 92"
abbreviation Close_ch :: byte where "Close_ch \<equiv> 93"

definition ld :: "byte list \<Rightarrow> byte option" where
  "ld p = (case p of [] \<Rightarrow> None | c # _ \<Rightarrow> Some c)"

text \<open>The tests of \<open>[:class:]\<close>: \<open>ISASCII\<close> guards each of them.\<close>

definition ISBLANK :: "byte \<Rightarrow> bool" where "ISBLANK c \<longleftrightarrow> c = 32 \<or> c = 9"
definition ISGRAPH :: "byte \<Rightarrow> bool" where "ISGRAPH c \<longleftrightarrow> isascii c \<and> isprint c \<and> \<not> isspace c"
definition ISPRINT :: "byte \<Rightarrow> bool" where "ISPRINT c \<longleftrightarrow> isascii c \<and> isprint c"
definition ISDIGIT :: "byte \<Rightarrow> bool" where "ISDIGIT c \<longleftrightarrow> isascii c \<and> isdigit c"
definition ISALNUM :: "byte \<Rightarrow> bool" where "ISALNUM c \<longleftrightarrow> isascii c \<and> isalnum c"
definition ISALPHA :: "byte \<Rightarrow> bool" where "ISALPHA c \<longleftrightarrow> isascii c \<and> isalpha c"
definition ISCNTRL :: "byte \<Rightarrow> bool" where "ISCNTRL c \<longleftrightarrow> isascii c \<and> iscntrl c"
definition ISLOWER :: "byte \<Rightarrow> bool" where "ISLOWER c \<longleftrightarrow> isascii c \<and> islower c"
definition ISPUNCT :: "byte \<Rightarrow> bool" where "ISPUNCT c \<longleftrightarrow> isascii c \<and> ispunct c"
definition ISSPACE :: "byte \<Rightarrow> bool" where "ISSPACE c \<longleftrightarrow> isascii c \<and> isspace c"
definition ISUPPER :: "byte \<Rightarrow> bool" where "ISUPPER c \<longleftrightarrow> isascii c \<and> isupper c"
definition ISXDIGIT :: "byte \<Rightarrow> bool" where "ISXDIGIT c \<longleftrightarrow> isascii c \<and> isxdigit c"

definition fold_case :: "u32 \<Rightarrow> byte \<Rightarrow> byte" where
  "fold_case flags c = (if casefold flags \<and> ISUPPER c then tolower c else c)"

text \<open>The named classes: \<open>None\<close> is an unknown name.\<close>

definition CC_EQ :: "byte list \<Rightarrow> string \<Rightarrow> bool" where
  "CC_EQ cls litmatch \<longleftrightarrow> cls = map of_char litmatch"

definition class_test :: "u32 \<Rightarrow> byte list \<Rightarrow> byte \<Rightarrow> bool option" where
  "class_test flags s t_ch =
     (if CC_EQ s ''alnum'' then Some (ISALNUM t_ch)
      else if CC_EQ s ''alpha'' then Some (ISALPHA t_ch)
      else if CC_EQ s ''blank'' then Some (ISBLANK t_ch)
      else if CC_EQ s ''cntrl'' then Some (ISCNTRL t_ch)
      else if CC_EQ s ''digit'' then Some (ISDIGIT t_ch)
      else if CC_EQ s ''graph'' then Some (ISGRAPH t_ch)
      else if CC_EQ s ''lower'' then Some (ISLOWER t_ch)
      else if CC_EQ s ''print'' then Some (ISPRINT t_ch)
      else if CC_EQ s ''punct'' then Some (ISPUNCT t_ch)
      else if CC_EQ s ''space'' then Some (ISSPACE t_ch)
      else if CC_EQ s ''upper'' then Some (ISUPPER t_ch \<or> casefold flags \<and> ISLOWER t_ch)
      else if CC_EQ s ''xdigit'' then Some (ISXDIGIT t_ch)
      else None)"

text \<open>The range test of \<open>[a-z]\<close>.\<close>

definition range_test :: "u32 \<Rightarrow> byte \<Rightarrow> byte \<Rightarrow> byte \<Rightarrow> bool" where
  "range_test flags prev_ch p_ch t_ch \<longleftrightarrow>
     (t_ch \<le> p_ch \<and> t_ch \<ge> prev_ch)
     \<or> (casefold flags \<and> ISLOWER t_ch \<and> toupper t_ch \<le> p_ch \<and> toupper t_ch \<ge> prev_ch)"

text \<open>
  The scan \<open>for (s = p += 2; (p_ch = *p) && p_ch != ']'; p++)\<close>: the bytes from \<open>s\<close> to the place it
  stops at, and that place.
\<close>

fun class_scan :: "byte list \<Rightarrow> (byte list \<times> byte list) option" where
  "class_scan [] = None"
| "class_scan (c # p) =
     (if c = 0 \<or> c = Close_ch then Some ([], c # p)
      else map_option (\<lambda>(nm, q). (c # nm, q)) (class_scan p))"

lemma class_scan_length: "class_scan p = Some (nm, q) \<Longrightarrow> length q \<le> length p"
  by (induction p arbitrary: nm) (auto split: if_splits)

lemma ld_Some [simp]: "ld p = Some c \<longleftrightarrow> (\<exists>q. p = c # q)"
  by (auto simp: ld_def split: list.splits)

lemma ld_Cons [simp]: "ld (c # p) = Some c" and ld_Nil [simp]: "ld [] = None"
  by (simp_all add: ld_def)

text \<open>
  One round of the \<open>do\<close> loop of a bracket expression at \<open>p\<close>, whose current byte is \<open>p_ch\<close>: the new
  \<open>matched\<close>, \<open>p_ch\<close> and \<open>p\<close>, or \<open>Inl\<close> for \<open>return WM_ABORT_ALL\<close>.
\<close>

definition bracket_step ::
    "u32 \<Rightarrow> byte \<Rightarrow> byte \<Rightarrow> byte \<Rightarrow> byte list \<Rightarrow> (int + bool \<times> byte \<times> byte list) option" where
  "bracket_step flags t_ch p_ch prev_ch p =
     (if p_ch = 0 then Some (Inl WM_ABORT_ALL)
      else if p_ch = Backslash_ch then do {
        p_ch \<leftarrow> ld (tl p);
        if p_ch = 0 then Some (Inl WM_ABORT_ALL)
        else Some (Inr (t_ch = p_ch, p_ch, tl p))
      }
      else do {
        p1 \<leftarrow> (if p_ch = Dash_ch \<and> prev_ch \<noteq> 0 \<or> p_ch = Open_ch then ld (tl p) else Some 0);
        if p_ch = Dash_ch \<and> prev_ch \<noteq> 0 \<and> p1 \<noteq> 0 \<and> p1 \<noteq> Close_ch then
          if p1 = Backslash_ch then do {
            p_ch \<leftarrow> ld (tl (tl p));
            if p_ch = 0 then Some (Inl WM_ABORT_ALL)
            else Some (Inr (range_test flags prev_ch p_ch t_ch, 0, tl (tl p)))
          }
          else Some (Inr (range_test flags prev_ch p1 t_ch, 0, tl p))
        else if p_ch = Open_ch \<and> p1 = Colon_ch then do {
          (s, q) \<leftarrow> class_scan (tl (tl p));
          c \<leftarrow> ld q;
          if c = 0 then Some (Inl WM_ABORT_ALL)
          else if s = [] \<or> last s \<noteq> Colon_ch then Some (Inr (t_ch = Open_ch, Open_ch, p))
          else (case class_test flags (butlast s) t_ch of
                  None \<Rightarrow> Some (Inl WM_ABORT_ALL)
                | Some m \<Rightarrow> Some (Inr (m, 0, q)))
        }
        else Some (Inr (t_ch = p_ch, p_ch, p))
      })"

text \<open>The loop goes on at \<open>*++p\<close> until that is the closing bracket.\<close>

lemma bracket_step_length: "bracket_step flags t_ch p_ch prev_ch p = Some (Inr (m, c, q)) \<Longrightarrow> length q \<le> length p"
  by (cases p; cases "tl p")
    (auto simp: bracket_step_def Let_def split: if_splits option.splits bind_splits
      dest!: class_scan_length)

lemma length_tl_less: "tl q = c # r \<Longrightarrow> length q \<le> length p \<Longrightarrow> length (tl q) < length p"
  by (cases q) auto

lemma length_tl_minus: "tl q = c # r \<Longrightarrow> length q \<le> n \<Longrightarrow> length q - Suc 0 < n"
  by (cases q) auto

function bracket_loop ::
    "u32 \<Rightarrow> byte \<Rightarrow> byte \<Rightarrow> byte \<Rightarrow> bool \<Rightarrow> byte list \<Rightarrow> (int + bool \<times> byte list) option" where
  "bracket_loop flags t_ch p_ch prev_ch matched p = do {
     r \<leftarrow> bracket_step flags t_ch p_ch prev_ch p;
     (case r of
        Inl ret \<Rightarrow> Some (Inl ret)
      | Inr (m, p_ch, p) \<Rightarrow> do {
          c \<leftarrow> ld (tl p);
          if c = Close_ch then Some (Inr (matched \<or> m, tl p))
          else bracket_loop flags t_ch c p_ch (matched \<or> m) (tl p)
        })
   }"
  by pat_completeness auto

termination
  by (relation "measure (\<lambda>(_, _, _, _, _, p). length p)")
    (auto dest!: bracket_step_length simp del: length_tl intro: length_tl_less)

text \<open>\<open>case '['\<close>: the result, or the place of the closing bracket when the byte is in the class.\<close>

definition bracket :: "u32 \<Rightarrow> byte \<Rightarrow> byte list \<Rightarrow> (int + byte list) option" where
  "bracket flags t_ch p = do {
     p_ch \<leftarrow> ld (tl p);
     let negated = (p_ch = 94 \<or> p_ch = 33);
     let p = (if negated then tl (tl p) else tl p);
     p_ch \<leftarrow> ld p;
     r \<leftarrow> bracket_loop flags t_ch p_ch 0 False p;
     (case r of
        Inl ret \<Rightarrow> Some (Inl ret)
      | Inr (matched, p) \<Rightarrow>
          Some (if matched = negated \<or> pathname flags \<and> t_ch = Slash_ch then Inl WM_NOMATCH
                else Inr p))
   }"

declare bracket_loop.simps [simp del]

lemma bracket_loop_length:
  "bracket_loop flags t_ch p_ch prev_ch matched p = Some (Inr (m, q)) \<Longrightarrow> length q < length p \<and> q \<noteq> []"
proof (induction flags t_ch p_ch prev_ch matched p rule: bracket_loop.induct)
  case (1 flags t_ch p_ch prev_ch matched p)
  then obtain m1 c1 p1 c p2 where r: "bracket_step flags t_ch p_ch prev_ch p = Some (Inr (m1, c1, p1))"
    and c: "tl p1 = c # p2"
    by (subst (asm) (2) bracket_loop.simps) (auto split: bind_splits sum.splits)
  show ?case
  proof (cases "c = Close_ch")
    case True
    with 1(2) r c have "q = tl p1"
      by (subst (asm) bracket_loop.simps) simp
    with c bracket_step_length [OF r] show ?thesis
      by (cases p1) auto
  next
    case False
    with 1(2) r c have "bracket_loop flags t_ch c c1 (matched \<or> m1) (tl p1) = Some (Inr (m, q))"
      by (subst (asm) bracket_loop.simps) simp
    with 1(1) [OF r refl refl refl, of c] c False bracket_step_length [OF r] show ?thesis
      by (cases p1) auto
  qed
qed

lemma bracket_length: "bracket flags t_ch p = Some (Inr q) \<Longrightarrow> length q < length p \<and> q \<noteq> []"
  by (cases p; cases "tl p")
    (auto simp: bracket_def Let_def split: if_splits bind_splits sum.splits
      dest!: bracket_loop_length)

text \<open>\<open>while (*++p == '*') {}\<close>\<close>

fun skip_stars :: "byte list \<Rightarrow> byte list option" where
  "skip_stars [] = None"
| "skip_stars (_ # p) =
     (case p of
        [] \<Rightarrow> None
      | c # _ \<Rightarrow> if c = Star_ch then skip_stars p else Some p)"

lemma skip_stars_length: "skip_stars p = Some q \<Longrightarrow> length q < length p"
  by (induction p rule: skip_stars.induct) (auto split: list.splits if_splits)

text \<open>
  The bytes of the pattern before \<open>p\<close> are those of \<open>pattern\<close> that \<open>p\<close> no longer has.  A run of stars
  at \<open>p\<close> gives \<open>match_slash\<close> and the place after it; \<open>Inl\<close> is \<open>return WM_ABORT_MALFORMED\<close>.  The
  last component tells whether the rest may also be tried without the slash that follows.
\<close>

definition star_run :: "u32 \<Rightarrow> byte list \<Rightarrow> byte list \<Rightarrow> (int + bool \<times> byte list \<times> bool) option" where
  "star_run flags pattern p = do {
     c \<leftarrow> ld (tl p);
     if c = Star_ch then do {
       let prev = length pattern - length (tl p);
       q \<leftarrow> skip_stars (tl p);
       if \<not> pathname flags then Some (Inr (True, q, False))
       else do {
         c \<leftarrow> ld q;
         c1 \<leftarrow> (if c = Backslash_ch then ld (tl q) else Some 0);
         if (prev < 2 \<or> pattern ! (prev - 2) = Slash_ch)
             \<and> (c = 0 \<or> c = Slash_ch \<or> c = Backslash_ch \<and> c1 = Slash_ch)
         then Some (Inr (True, q, c = Slash_ch))
         else Some (Inl WM_ABORT_MALFORMED)
       }
     }
     else Some (Inr (\<not> pathname flags, tl p, False))
   }"

text \<open>\<open>strchr\<close>: the outer option is the read past the end, the inner one the null pointer.\<close>

fun strchr :: "byte list \<Rightarrow> byte \<Rightarrow> byte list option option" where
  "strchr [] c = None"
| "strchr (x # s) c = (if x = c then Some (Some (x # s)) else if x = 0 then Some None else strchr s c)"

text \<open>
  The loop that advances the text to the literal \<open>p_ch\<close> that follows an asterisk, and its use:
  \<open>t_ch\<close>, the text, and whether \<open>t_ch\<close> is the byte sought.
\<close>

fun advance :: "u32 \<Rightarrow> bool \<Rightarrow> byte \<Rightarrow> byte list \<Rightarrow> (byte \<times> byte list) option" where
  "advance flags match_slash p_ch [] = None"
| "advance flags match_slash p_ch (t_ch # text) =
     (if t_ch \<noteq> 0 \<and> (match_slash \<or> t_ch \<noteq> Slash_ch) then
        (if fold_case flags t_ch = p_ch then Some (fold_case flags t_ch, t_ch # text)
         else advance flags match_slash p_ch text)
      else Some (t_ch, t_ch # text))"

definition skip_ahead ::
    "u32 \<Rightarrow> bool \<Rightarrow> byte list \<Rightarrow> byte \<Rightarrow> byte list \<Rightarrow> (byte \<times> byte list \<times> bool) option" where
  "skip_ahead flags match_slash p t_ch text = do {
     c \<leftarrow> ld p;
     if \<not> is_glob_special c then do {
       let p_ch = fold_case flags c;
       (t_ch, text) \<leftarrow> advance flags match_slash p_ch text;
       Some (t_ch, text, t_ch = p_ch)
     }
     else Some (t_ch, text, True)
   }"

lemma strchr_length: "strchr s c = Some (Some q) \<Longrightarrow> length q \<le> length s"
  by (induction s) (auto split: if_splits)

lemma advance_length: "advance flags ms p_ch s = Some (c, q) \<Longrightarrow> length q \<le> length s \<and> q \<noteq> []"
  by (induction s) (auto split: if_splits)

lemma skip_ahead_length: "skip_ahead flags ms p t_ch s = Some (c, q, b) \<Longrightarrow> length q \<le> length s"
  by (auto simp: skip_ahead_def Let_def split: if_splits bind_splits dest!: advance_length)

lemma star_run_length:
  "star_run flags pattern p = Some (Inr (ms, q, b)) \<Longrightarrow> length q < length p"
  by (cases p)
    (auto simp: star_run_def Let_def simp del: skip_stars.simps split: if_splits bind_splits
      dest!: skip_stars_length)

function dowild :: "u32 \<Rightarrow> byte list \<Rightarrow> byte list \<Rightarrow> byte list \<Rightarrow> int option"
  and star_loop :: "u32 \<Rightarrow> bool \<Rightarrow> byte list \<Rightarrow> byte \<Rightarrow> byte list \<Rightarrow> int option" where
  "dowild flags pattern p text = do {
     p_ch \<leftarrow> ld p;
     t_ch \<leftarrow> ld text;
     if p_ch = 0 then Some (if t_ch \<noteq> 0 then WM_NOMATCH else WM_MATCH)
     else if t_ch = 0 \<and> p_ch \<noteq> Star_ch then Some WM_ABORT_ALL
     else do {
       let t_ch = fold_case flags t_ch;
       let p_ch = fold_case flags p_ch;
       if p_ch = Backslash_ch then do {
         p_ch \<leftarrow> ld (tl p);
         if t_ch \<noteq> p_ch then Some WM_NOMATCH
         else dowild flags pattern (tl (tl p)) (tl text)
       }
       else if p_ch = Quest_ch then
         (if pathname flags \<and> t_ch = Slash_ch then Some WM_NOMATCH
          else dowild flags pattern (tl p) (tl text))
       else if p_ch = Star_ch then do {
         r \<leftarrow> star_run flags pattern p;
         (case r of
            Inl ret \<Rightarrow> Some ret
          | Inr (match_slash, p, skip) \<Rightarrow> do {
              m \<leftarrow> (if skip then dowild flags (tl p) (tl p) text else Some WM_NOMATCH);
              c \<leftarrow> ld p;
              if skip \<and> m = WM_MATCH then Some WM_MATCH
              else if c = 0 then
                (if \<not> match_slash then do {
                   slash \<leftarrow> strchr text Slash_ch;
                   Some (if slash \<noteq> None then WM_NOMATCH else WM_MATCH)
                 }
                 else Some WM_MATCH)
              else if \<not> match_slash \<and> c = Slash_ch then do {
                slash \<leftarrow> strchr text Slash_ch;
                (case slash of
                   None \<Rightarrow> Some WM_NOMATCH
                 | Some text \<Rightarrow> dowild flags pattern (tl p) (tl text))
              }
              else star_loop flags match_slash p t_ch text
            })
       }
       else if p_ch = Open_ch then do {
         r \<leftarrow> bracket flags t_ch p;
         (case r of
            Inl ret \<Rightarrow> Some ret
          | Inr p \<Rightarrow> dowild flags pattern (tl p) (tl text))
       }
       else if t_ch \<noteq> p_ch then Some WM_NOMATCH
       else dowild flags pattern (tl p) (tl text)
     }
   }"
| "star_loop flags match_slash p t_ch text =
     (if t_ch = 0 then Some WM_ABORT_ALL
      else do {
        (t_ch, text, found) \<leftarrow> skip_ahead flags match_slash p t_ch text;
        if \<not> found then Some WM_NOMATCH
        else do {
          matched \<leftarrow> dowild flags p p text;
          if matched \<noteq> WM_NOMATCH \<and> (\<not> match_slash \<or> matched \<noteq> WM_ABORT_TO_STARSTAR)
          then Some matched
          else if matched = WM_NOMATCH \<and> \<not> match_slash \<and> t_ch = Slash_ch
          then Some WM_ABORT_TO_STARSTAR
          else do {
            t_ch \<leftarrow> ld (tl text);
            star_loop flags match_slash p t_ch (tl text)
          }
        }
      })"
  by pat_completeness auto

termination
  by (relation "measures
      [\<lambda>x. case x of Inl (_, _, p, _) \<Rightarrow> length p | Inr (_, _, p, _, _) \<Rightarrow> length p,
       \<lambda>x. case x of Inl (_, _, _, t) \<Rightarrow> length t | Inr (_, _, _, _, t) \<Rightarrow> length t,
       \<lambda>x. case x of Inl _ \<Rightarrow> 0 | Inr _ \<Rightarrow> 1]")
    (auto dest!: star_run_length bracket_length skip_ahead_length strchr_length
      simp: length_tl_minus split: if_splits)

definition wildmatch :: "byte list \<Rightarrow> byte list \<Rightarrow> u32 \<Rightarrow> int option" where
  "wildmatch pattern text flags = dowild flags pattern pattern text"

declare dowild.simps [simp del] star_loop.simps [simp del]

subsection \<open>The meaning of a pattern\<close>

text \<open>
  A bracket expression is a list of items; \<open>prev\<close> is the literal before a dash that may start a
  range, and \<open>True\<close> lets a closing bracket stand for itself.
\<close>

datatype bracket_item = BLit byte | BRange byte byte | BClass "byte list"

fun item_has :: "u32 \<Rightarrow> byte \<Rightarrow> bracket_item \<Rightarrow> bool" where
  "item_has flags c (BLit d) \<longleftrightarrow> c = d"
| "item_has flags c (BRange lo hi) \<longleftrightarrow>
     lo \<le> c \<and> c \<le> hi \<or> casefold flags \<and> ISLOWER c \<and> lo \<le> toupper c \<and> toupper c \<le> hi"
| "item_has flags c (BClass nm) \<longleftrightarrow> class_test flags nm c = Some True"

definition class_known :: "byte list \<Rightarrow> bool" where
  "class_known nm \<longleftrightarrow>
     nm \<in> map of_char ` {''alnum'', ''alpha'', ''blank'', ''cntrl'', ''digit'', ''graph'', ''lower'',
                        ''print'', ''punct'', ''space'', ''upper'', ''xdigit''}"

definition with_item :: "bracket_item \<Rightarrow> (bracket_item list \<times> byte list) option \<Rightarrow>
    (bracket_item list \<times> byte list) option" where
  "with_item i r = map_option (\<lambda>(is, q). (i # is, q)) r"

lemma length_tl_dropWhile: "length (tl (dropWhile P (tl p))) \<le> length p"
  using length_dropWhile_le [of P "tl p"] by simp

lemma length_tl_le: "length (tl p) \<le> length p" and length_tl_Suc: "length (tl p) = Suc n \<Longrightarrow> n \<le> length p"
  by simp_all

function (sequential) bracket_items ::
    "bool \<Rightarrow> byte option \<Rightarrow> byte list \<Rightarrow> (bracket_item list \<times> byte list) option" where
  "bracket_items b prev [] = None"
| "bracket_items b prev (c # p) =
     (if c = Close_ch \<and> \<not> b then Some ([], p)
      else if c = Backslash_ch then
        (case p of
           [] \<Rightarrow> None
         | d # q \<Rightarrow> with_item (BLit d) (bracket_items False (Some d) q))
      else if c = Dash_ch \<and> prev \<noteq> None \<and> p \<noteq> [] \<and> hd p \<noteq> Close_ch then
        (if hd p = Backslash_ch then
           (case tl p of
              [] \<Rightarrow> None
            | d # q \<Rightarrow> with_item (BRange (the prev) d) (bracket_items False None q))
         else with_item (BRange (the prev) (hd p)) (bracket_items False None (tl p)))
      else if c = Open_ch \<and> p \<noteq> [] \<and> hd p = Colon_ch then
        (let nm = takeWhile (\<lambda>c. c \<noteq> Close_ch) (tl p); q = dropWhile (\<lambda>c. c \<noteq> Close_ch) (tl p) in
         if q = [] then None
         else if nm = [] \<or> last nm \<noteq> Colon_ch then
           with_item (BLit Open_ch) (bracket_items False (Some Open_ch) p)
         else if class_known (butlast nm) then
           with_item (BClass (butlast nm)) (bracket_items False None (tl q))
         else None)
      else with_item (BLit c) (bracket_items False (Some c) p))"
  by pat_completeness auto

termination
  by (relation "measure (\<lambda>(_, _, p). length p)")
    (auto simp: less_Suc_eq_le simp del: length_tl
      intro: length_tl_dropWhile length_tl_le length_tl_Suc dest!: arg_cong [where f = length])

definition bracket_expr :: "byte list \<Rightarrow> (bool \<times> bracket_item list \<times> byte list) option" where
  "bracket_expr p =
     (let neg = (p \<noteq> [] \<and> (hd p = 94 \<or> hd p = 33)) in
      map_option (Pair neg) (bracket_items True None (if neg then tl p else p)))"

text \<open>
  The tokens of a pattern: one byte of a kind, any bytes but slashes, any bytes, any directories
  (nothing, or any bytes up to and including a slash), and what matches nothing.  The flag tells
  whether the pattern is at its start or after a slash.
\<close>

datatype token = One "byte \<Rightarrow> bool" | Star | DStar | DStarDir | Bad

lemma with_item_Some: "with_item i r = Some (is, q) \<longleftrightarrow> (\<exists>is'. r = Some (is', q) \<and> is = i # is')"
  by (auto simp: with_item_def)

declare bracket_items.simps [simp del]

lemma bracket_items_length: "bracket_items b prev p = Some (is, q) \<Longrightarrow> length q < length p"
proof (induction "length p" arbitrary: b prev p "is" rule: less_induct)
  case less
  show ?case
  proof (cases p)
    case (Cons c r)
    have IH: "length q < length p'" if "bracket_items b' prev' p' = Some (is', q)" "length p' \<le> length r"
      for b' prev' p' is'
      using less(1) [OF _ that(1)] that(2) Cons by simp
    note sizes = length_tl_dropWhile [of "\<lambda>c. c \<noteq> Close_ch" r] length_tl_le [of r]
    show ?thesis
      using less(2) sizes unfolding Cons bracket_items.simps(2) Let_def
      by (auto simp: with_item_Some simp del: length_tl split: if_splits list.splits dest!: IH
          dest: length_tl_Suc)
  qed (use less in \<open>simp add: bracket_items.simps\<close>)
qed

lemma bracket_expr_length: "bracket_expr p = Some (neg, is, q) \<Longrightarrow> length q < length p"
  by (auto simp: bracket_expr_def Let_def split: if_splits dest!: bracket_items_length)

function (sequential) tokens :: "u32 \<Rightarrow> bool \<Rightarrow> byte list \<Rightarrow> token list" where
  "tokens flags b [] = []"
| "tokens flags b (c # p) =
     (if c = Backslash_ch then
        (case p of
           [] \<Rightarrow> [Bad]
         | d # q \<Rightarrow> One (\<lambda>t. fold_case flags t = d) # tokens flags (d = Slash_ch) q)
      else if c = Quest_ch then
        One (\<lambda>t. \<not> (pathname flags \<and> t = Slash_ch)) # tokens flags False p
      else if c = Star_ch then
        (let q = dropWhile (\<lambda>c. c = Star_ch) p in
         if \<not> pathname flags then DStar # tokens flags False q
         else if p = q then Star # tokens flags False q
         else if b \<and> (q = [] \<or> hd q = Slash_ch \<or> take 2 q = [Backslash_ch, Slash_ch]) then
           (if q \<noteq> [] \<and> hd q = Slash_ch then DStarDir # tokens flags True (tl q)
            else DStar # tokens flags False q)
         else [Bad])
      else if c = Open_ch then
        (case bracket_expr p of
           None \<Rightarrow> [Bad]
         | Some (neg, is, q) \<Rightarrow>
             One (\<lambda>t. (\<exists>i\<in>set is. item_has flags (fold_case flags t) i) \<noteq> neg
                      \<and> \<not> (pathname flags \<and> t = Slash_ch)) # tokens flags False q)
      else One (\<lambda>t. fold_case flags t = fold_case flags c) # tokens flags (c = Slash_ch) p)"
  by pat_completeness auto

termination
  by (relation "measure (\<lambda>(_, _, p). length p)")
    (auto simp: less_Suc_eq_le length_dropWhile_le simp del: length_tl
      intro: le_trans [OF length_tl_le length_dropWhile_le] dest!: bracket_expr_length)

primrec matches :: "token list \<Rightarrow> byte list \<Rightarrow> bool" where
  "matches [] t \<longleftrightarrow> t = []"
| "matches (x # ts) t \<longleftrightarrow>
     (case x of
        One f \<Rightarrow> t \<noteq> [] \<and> f (hd t) \<and> matches ts (tl t)
      | Star \<Rightarrow> (\<exists>n \<le> length t. Slash_ch \<notin> set (take n t) \<and> matches ts (drop n t))
      | DStar \<Rightarrow> (\<exists>n \<le> length t. matches ts (drop n t))
      | DStarDir \<Rightarrow> matches ts t \<or> (\<exists>n < length t. t ! n = Slash_ch \<and> matches ts (drop (Suc n) t))
      | Bad \<Rightarrow> False)"

end
