(* ===== verification/Git_Wildmatch_Match.thy ===== *)
theory Git_Wildmatch_Match
  imports Git_Wildmatch
begin

text \<open>
  \<^verbatim>\<open>wildmatch.c\<close>, continued: the results of the matcher, its loop after an asterisk, its bracket
  expressions and its runs of stars against the tokens of the pattern, and the theorem that the
  matcher decides their meaning.
\<close>

subsection \<open>The results of the matcher\<close>

text \<open>
  What a result says of the tokens and the text: \<open>WM_ABORT_ALL\<close> that no suffix of the text matches
  either (none after a slash, for tokens that start with directories), \<open>WM_ABORT_TO_STARSTAR\<close> that
  none does that starts at or before the next slash.
\<close>

definition dirs_first :: "token list \<Rightarrow> bool" where
  "dirs_first ts \<longleftrightarrow> ts \<noteq> [] \<and> hd ts = DStarDir"

lemma dirs_first_simps [simp]: "\<not> dirs_first []" "dirs_first (x # ts) \<longleftrightarrow> x = DStarDir"
  by (simp_all add: dirs_first_def)

definition answers :: "u32 \<Rightarrow> token list \<Rightarrow> byte list \<Rightarrow> int \<Rightarrow> bool" where
  "answers flags ts t r \<longleftrightarrow>
     r \<in> {WM_MATCH, WM_NOMATCH, WM_ABORT_MALFORMED, WM_ABORT_ALL, WM_ABORT_TO_STARSTAR}
     \<and> (r = WM_MATCH \<longleftrightarrow> matches ts t)
     \<and> (r = WM_ABORT_ALL \<longrightarrow>
          (\<forall>n \<le> length t. n = 0 \<or> \<not> dirs_first ts \<or> t ! (n - 1) = Slash_ch \<longrightarrow> \<not> matches ts (drop n t)))
     \<and> (r = WM_ABORT_MALFORMED \<longrightarrow> Bad \<in> set ts)
     \<and> (r = WM_ABORT_TO_STARSTAR \<longrightarrow>
          pathname flags \<and>
          (\<forall>n \<le> length t. Slash_ch \<notin> set (take n t) \<longrightarrow> \<not> matches ts (drop n t)))"

lemma Bad_no_match: "Bad \<in> set ts \<Longrightarrow> \<not> matches ts t"
  by (induction ts arbitrary: t) (auto split: token.splits)

lemma all_drop_Cons: "(\<forall>n \<le> length (c # t). P n (drop n (c # t))) \<longleftrightarrow>
    P 0 (c # t) \<and> (\<forall>n \<le> length t. P (Suc n) (drop n t))"
  (is "(\<forall>n \<le> length (c # t). ?Q n) \<longleftrightarrow> ?R")
proof
  assume all: "\<forall>n \<le> length (c # t). ?Q n"
  have "?Q 0" "\<And>n. n \<le> length t \<Longrightarrow> ?Q (Suc n)"
    using all [rule_format, of 0] all [rule_format, of "Suc n" for n] by auto
  then show ?R
    by simp
next
  assume ?R
  then have "?Q n" if "n \<le> length (c # t)" for n
    using that by (cases n) auto
  then show "\<forall>n \<le> length (c # t). ?Q n"
    by blast
qed

lemma ex_drop_Cons: "(\<exists>n \<le> length (c # t). P n (drop n (c # t))) \<longleftrightarrow>
    P 0 (c # t) \<or> (\<exists>n \<le> length t. P (Suc n) (drop n t))"
  using all_drop_Cons [of c t "\<lambda>n x. \<not> P n x"] by blast

abbreviation Star_or_DStar :: "bool \<Rightarrow> token" where
  "Star_or_DStar match_slash \<equiv> (if match_slash then DStar else Star)"

lemma matches_star_Nil [simp]: "matches (Star_or_DStar ms # ts) [] \<longleftrightarrow> matches ts []"
  by simp

lemma matches_star_Cons:
  "matches (Star_or_DStar ms # ts) (c # t) \<longleftrightarrow>
     matches ts (c # t) \<or> (ms \<or> c \<noteq> Slash_ch) \<and> matches (Star_or_DStar ms # ts) t"
  using ex_drop_Cons [of c t "\<lambda>n x. (ms \<or> Slash_ch \<notin> set (take n (c # t))) \<and> matches ts x"]
  by (cases ms) auto

lemma answers_fail: "\<not> matches ts t \<Longrightarrow> answers flags ts t WM_NOMATCH"
  by (simp add: answers_def wm_codes)

lemma answers_end: "\<not> matches ts [] \<Longrightarrow> answers flags ts [] WM_ABORT_ALL"
  by (simp add: answers_def wm_codes)

lemma answers_malformed: "Bad \<in> set ts \<Longrightarrow> answers flags ts t WM_ABORT_MALFORMED"
  by (simp add: answers_def wm_codes Bad_no_match)

lemma answers_bad_class: "Bad \<in> set ts \<Longrightarrow> answers flags ts t WM_ABORT_ALL"
  by (simp add: answers_def wm_codes Bad_no_match)

lemma answers_One:
  assumes "f c" and "answers flags ts t r"
    and "\<And>d. pathname flags \<Longrightarrow> f Slash_ch \<Longrightarrow> f d \<Longrightarrow> d = Slash_ch"
    and "\<And>d. dirs_first ts \<Longrightarrow> f d \<Longrightarrow> d = Slash_ch"
  shows "answers flags (One f # ts) (c # t) r"
proof -
  have step: "matches (One f # ts) (drop n t) \<Longrightarrow> n \<le> length t \<Longrightarrow>
      n < length t \<and> f (t ! n) \<and> matches ts (drop (Suc n) t)" for n
    by (auto simp: hd_drop_conv_nth tl_drop drop_Suc le_less)
  have all: "\<not> matches (One f # ts) (drop n (c # t))" if "r = WM_ABORT_ALL" "n \<le> length (c # t)" for n
  proof (cases n)
    case 0
    with assms(2) that show ?thesis
      by (simp add: answers_def wm_codes)
  next
    case (Suc m)
    show ?thesis
    proof
      assume "matches (One f # ts) (drop n (c # t))"
      then have m: "Suc m \<le> length t" "f (t ! m)" "matches ts (drop (Suc m) t)"
        using step [of m] that(2) Suc by auto
      moreover have "\<not> dirs_first ts \<or> t ! m = Slash_ch"
        using assms(4) m(2) by blast
      ultimately show False
        using assms(2) that(1) unfolding answers_def by (metis diff_Suc_1)
    qed
  qed
  have slash: "Slash_ch \<in> set (take n (c # t))"
    if "r = WM_ABORT_TO_STARSTAR" "n \<le> length (c # t)" "matches (One f # ts) (drop n (c # t))" for n
  proof (cases n)
    case 0
    with assms(2) that show ?thesis
      by (simp add: answers_def wm_codes)
  next
    case (Suc m)
    then have m: "m < length t" "f (t ! m)" "matches ts (drop (Suc m) t)"
      using step [of m] that by auto
    with assms(2) that(1) have "Slash_ch \<in> set (take (Suc m) t)"
      unfolding answers_def by (meson Suc_leI)
    moreover have "t ! m = Slash_ch \<Longrightarrow> c = Slash_ch"
      using assms m that(1) by (simp add: answers_def)
    ultimately show ?thesis
      using m(1) Suc by (auto simp: take_Suc_conv_app_nth)
  qed
  show ?thesis
    using assms(1,2) all slash unfolding answers_def by (auto simp: wm_codes)
qed

lemma answers_star_step:
  assumes "\<not> matches ts (c # t)" and "ms \<or> c \<noteq> Slash_ch"
    and "answers flags (Star_or_DStar ms # ts) t r"
  shows "answers flags (Star_or_DStar ms # ts) (c # t) r"
proof -
  let ?ts = "Star_or_DStar ms # ts"
  have m: "matches ?ts (c # t) \<longleftrightarrow> matches ?ts t"
    using assms(1,2) by (simp only: matches_star_Cons) simp
  have all: "\<forall>n \<le> length (c # t). \<not> matches ?ts (drop n (c # t))" if "r = WM_ABORT_ALL"
  proof -
    have "\<not> dirs_first ?ts"
      by simp
    then have "\<forall>n \<le> length t. \<not> matches ?ts (drop n t)"
      using assms(3) that unfolding answers_def by blast
    then show ?thesis
      unfolding all_drop_Cons [where P = "\<lambda>_ x. \<not> matches ?ts x"] m by (metis drop0 zero_le)
  qed
  have slash: "\<forall>n \<le> length (c # t). Slash_ch \<notin> set (take n (c # t)) \<longrightarrow> \<not> matches ?ts (drop n (c # t))"
    if "r = WM_ABORT_TO_STARSTAR"
    unfolding all_drop_Cons [where P = "\<lambda>n x. Slash_ch \<notin> set (take n (c # t)) \<longrightarrow> \<not> matches ?ts x"] m
    using assms(3) that by (auto simp: answers_def wm_codes)
  show ?thesis
    using assms(3) m all slash unfolding answers_def by (auto simp: wm_codes)
qed

lemma answers_star_here:
  assumes "answers flags ts t r" and "r \<noteq> WM_NOMATCH" and "\<not> ms \<or> r \<noteq> WM_ABORT_TO_STARSTAR"
    and "\<not> dirs_first ts"
  shows "answers flags (Star_or_DStar ms # ts) t r"
proof -
  have all: "\<not> matches (Star_or_DStar ms # ts) (drop n t)"
    if "\<forall>n \<le> length t. \<not> matches ts (drop n t)" "n \<le> length t" for n
    using that by (cases ms) (auto simp: add.commute)
  have slash: "\<not> matches (Star_or_DStar ms # ts) (drop n t)"
    if "\<forall>n \<le> length t. Slash_ch \<notin> set (take n t) \<longrightarrow> \<not> matches ts (drop n t)"
      "n \<le> length t" "Slash_ch \<notin> set (take n t)" "\<not> ms" for n
    using that by (auto simp: take_add add.commute [of _ n])
  have here: "matches ts t \<Longrightarrow> matches (Star_or_DStar ms # ts) t"
    by (auto intro: exI [of _ 0])
  consider "r = WM_MATCH" | "r = WM_ABORT_MALFORMED" | "r = WM_ABORT_ALL"
    | "r = WM_ABORT_TO_STARSTAR" "\<not> ms"
    using assms unfolding answers_def by blast
  then show ?thesis
  proof cases
    case 3
    with assms(1,4) all all [of 0] show ?thesis
      by (simp add: answers_def wm_codes)
  next
    case 4
    with assms(1) slash slash [of 0] show ?thesis
      by (simp add: answers_def wm_codes)
  qed (use assms(1) here Bad_no_match [of "Star_or_DStar ms # ts"] in
      \<open>auto simp: answers_def wm_codes\<close>)
qed

lemma answers_star_slash:
  "pathname flags \<and> P \<Longrightarrow> \<not> matches ts (Slash_ch # u) \<Longrightarrow>
    answers flags (Star # ts) (Slash_ch # u) WM_ABORT_TO_STARSTAR"
  unfolding answers_def by (auto simp: wm_codes take_Cons' split: if_splits)

lemma answers_star_skip:
  assumes "\<forall>d \<in> set sk. (ms \<or> d \<noteq> Slash_ch) \<and> \<not> f d"
    and "answers flags (Star_or_DStar ms # One f # ts) t r"
  shows "answers flags (Star_or_DStar ms # One f # ts) (sk @ t) r"
  using assms
proof (induction sk)
  case (Cons d sk)
  show ?case
    unfolding append_Cons by (rule answers_star_step) (use Cons in auto)
qed simp

subsection \<open>The loop after an asterisk\<close>

lemma fold_case_0 [simp]: "fold_case flags c = 0 \<longleftrightarrow> c = 0"
proof -
  have "\<forall>c. tolower c = 0 \<longleftrightarrow> c = 0"
    unfolding tolower_eq isupper_iff
    by (rule byte_all) (simp add: upt_rec_numeral word_le_nat_alt)
  then show ?thesis
    by (simp add: fold_case_def)
qed

lemma fold_case_slash [simp]: "fold_case flags c = Slash_ch \<longleftrightarrow> c = Slash_ch"
proof -
  have "\<forall>c. tolower c = Slash_ch \<longleftrightarrow> c = Slash_ch"
    unfolding tolower_eq isupper_iff
    by (rule byte_all) (simp add: upt_rec_numeral word_le_nat_alt)
  then show ?thesis
    by (simp add: fold_case_def)
qed

definition advanced :: "u32 \<Rightarrow> bool \<Rightarrow> byte \<Rightarrow> byte list \<Rightarrow> byte \<Rightarrow> byte list \<Rightarrow> byte list \<Rightarrow> bool" where
  "advanced flags ms p_ch t t_ch sk t' \<longleftrightarrow>
     t = sk @ t' \<and> (\<forall>d \<in> set sk. (ms \<or> d \<noteq> Slash_ch) \<and> fold_case flags d \<noteq> p_ch)
     \<and> (t' = [] \<and> t_ch = 0
        \<or> (\<exists>d u. t' = d # u \<and> (t_ch = Slash_ch \<longleftrightarrow> d = Slash_ch) \<and>
            (fold_case flags d = t_ch \<and> t_ch = p_ch \<and> (ms \<or> d \<noteq> Slash_ch)
             \<or> \<not> ms \<and> d = Slash_ch)))"

lemma advance_text:
  assumes "0 \<notin> set t"
  shows "\<exists>t_ch sk t'. advance flags ms p_ch (t @ [0]) = Some (t_ch, t' @ [0]) \<and>
    advanced flags ms p_ch t t_ch sk t'"
  using assms
proof (induction t)
  case (Cons d t)
  show ?case
  proof (cases "(ms \<or> d \<noteq> Slash_ch) \<and> fold_case flags d \<noteq> p_ch")
    case True
    obtain t_ch sk t' where "advance flags ms p_ch (t @ [0]) = Some (t_ch, t' @ [0])"
        "advanced flags ms p_ch t t_ch sk t'"
      using Cons by auto
    moreover from this(2) True have "advanced flags ms p_ch (d # t) t_ch (d # sk) t'"
      unfolding advanced_def by simp
    ultimately show ?thesis
      using True Cons.prems by (intro exI conjI) auto
  next
    case False
    with Cons.prems show ?thesis
      by (intro exI [of _ "if ms \<or> d \<noteq> Slash_ch then fold_case flags d else d"] exI [of _ "[]"]
          exI [of _ "d # t"]) (auto simp: advanced_def)
  qed
qed (simp add: advanced_def)

lemma star_loop_answers:
  assumes dowild: "\<And>t'. suffix t' t \<Longrightarrow>
      \<exists>r. dowild flags (c0 # p) (c0 # p) (t' @ [0]) = Some r \<and> answers flags ts t' r"
    and ts: "\<not> matches ts []" "\<not> dirs_first ts"
      "\<not> is_glob_special c0 \<Longrightarrow> \<exists>ts'. ts = One (\<lambda>t. fold_case flags t = fold_case flags c0) # ts'"
    and c0: "c0 \<noteq> 0" and ms: "\<not> ms \<Longrightarrow> pathname flags \<and> c0 \<noteq> Slash_ch"
    and t: "0 \<notin> set t" "t_ch = 0 \<longleftrightarrow> t = []" "\<And>d t'. t = d # t' \<Longrightarrow> t_ch = Slash_ch \<longleftrightarrow> d = Slash_ch"
  shows "\<exists>r. star_loop flags ms (c0 # p) t_ch (t @ [0]) = Some r \<and>
    answers flags (Star_or_DStar ms # ts) t r"
  using dowild t
proof (induction "length t" arbitrary: t t_ch rule: less_induct)
  case less
  show ?case
  proof (cases "t = []")
    case True
    with less ts(1) show ?thesis
      by (intro exI [of _ WM_ABORT_ALL] conjI) (auto simp: star_loop.simps intro: answers_end)
  next
    case False
    let ?ts = "Star_or_DStar ms # ts"
    have next_: "\<exists>r. star_loop flags ms (c0 # p) d' (t' @ [0]) = Some r \<and> answers flags ?ts t' r"
      if "suffix (d # t') t" "t' @ [0] = d' # u" for d d' t' u
    proof (rule less.hyps)
      show "length t' < length t"
        using that(1) by (auto simp: suffix_def)
      show "d' = 0 \<longleftrightarrow> t' = []"
        using that less.prems(2) by (cases t') (auto simp: suffix_def)
    qed (use that less.prems in \<open>auto simp: suffix_def\<close>)
    have round: "\<exists>r. (do {
          matched \<leftarrow> dowild flags (c0 # p) (c0 # p) (d # u @ [0]);
          if matched \<noteq> WM_NOMATCH \<and> (\<not> ms \<or> matched \<noteq> WM_ABORT_TO_STARSTAR) then Some matched
          else if matched = WM_NOMATCH \<and> \<not> ms \<and> t1 = Slash_ch then Some WM_ABORT_TO_STARSTAR
          else do { t_ch \<leftarrow> ld (tl (d # u @ [0])); star_loop flags ms (c0 # p) t_ch (tl (d # u @ [0])) }
        }) = Some r \<and> answers flags ?ts (d # u) r"
      if du: "suffix (d # u) t" "t1 = Slash_ch \<longleftrightarrow> d = Slash_ch" for d u t1
    proof -
      obtain r where r: "dowild flags (c0 # p) (c0 # p) ((d # u) @ [0]) = Some r"
          "answers flags ts (d # u) r"
        using less.prems(1) [OF du(1)] by auto
      consider (ret) "r \<noteq> WM_NOMATCH \<and> (\<not> ms \<or> r \<noteq> WM_ABORT_TO_STARSTAR)"
        | (slash) "r = WM_NOMATCH" "\<not> ms" "d = Slash_ch"
        | (step) "r = WM_NOMATCH \<or> ms \<and> r = WM_ABORT_TO_STARSTAR" "ms \<or> d \<noteq> Slash_ch"
        using r(2) by (auto simp: answers_def)
      then show ?thesis
      proof cases
        case ret
        with r ts(2) show ?thesis
          by (intro exI [of _ r] conjI answers_star_here) auto
      next
        case slash
        with r(2) have "\<not> matches ts (Slash_ch # u)"
          by (simp add: answers_def wm_codes)
        from answers_star_slash [OF ms [OF slash(2)] this] slash r du(2) show ?thesis
          by (intro exI [of _ WM_ABORT_TO_STARSTAR]) simp
      next
        case step
        obtain d' u' where d': "u @ [0] = d' # u'"
          by (cases u) auto
        obtain r' where r': "star_loop flags ms (c0 # p) d' (u @ [0]) = Some r'" "answers flags ?ts u r'"
          using next_ [OF du(1) d'] by auto
        have "\<not> matches ts (d # u)"
          using r(2) step(1) by (auto simp: answers_def wm_codes)
        then have "answers flags ?ts (d # u) r'"
          using step(2) r'(2) by (rule answers_star_step)
        with r r' d' step du(2) show ?thesis
          by (intro exI [of _ r']) (auto simp: wm_codes)
      qed
    qed
    obtain d u where du: "t = d # u"
      using False by (cases t) auto
    show ?thesis
    proof (cases "is_glob_special c0")
      case True
      obtain r where "star_loop flags ms (c0 # p) t_ch (t @ [0]) = Some r" "answers flags ?ts (d # u) r"
        using round [of d u t_ch] less.prems(3) less.prems(4) [OF du] True du
        by (subst (asm) star_loop.simps) (auto simp: skip_ahead_def)
      then show ?thesis
        unfolding du by blast
    next
      case False
      then obtain ts' where ts': "ts = One (\<lambda>t. fold_case flags t = fold_case flags c0) # ts'"
        using ts(3) by blast
      obtain t1 sk t' where t1: "advance flags ms (fold_case flags c0) (t @ [0]) = Some (t1, t' @ [0])"
          "advanced flags ms (fold_case flags c0) t t1 sk t'"
        using advance_text less.prems(2) by blast
      then have t: "t = sk @ t'" and sk: "\<forall>d \<in> set sk. (ms \<or> d \<noteq> Slash_ch) \<and>
          \<not> (fold_case flags d = fold_case flags c0)"
        by (simp_all add: advanced_def)
      show ?thesis
      proof (cases "t1 = fold_case flags c0")
        case True
        then obtain d' u' where t': "t' = d' # u'" "t1 = Slash_ch \<longleftrightarrow> d' = Slash_ch"
          using t1(2) c0 by (auto simp: advanced_def)
        obtain r where "star_loop flags ms (c0 # p) t_ch (t @ [0]) = Some r" "answers flags ?ts t' r"
          using round [of d' u' t1] t t' t1(1) True False \<open>t \<noteq> []\<close> less.prems(3)
          by (subst (asm) star_loop.simps) (auto simp: skip_ahead_def suffix_def)
        with answers_star_skip [OF sk] show ?thesis
          unfolding t ts' by blast
      next
        case neq: False
        have "\<not> ms \<Longrightarrow> fold_case flags Slash_ch \<noteq> fold_case flags c0"
          using ms by (metis fold_case_slash)
        then have "\<not> matches ?ts t'"
          using t1(2) neq c0 by (auto simp: advanced_def ts' take_Cons' split: if_splits)
        then have "answers flags ?ts t WM_NOMATCH"
          unfolding t ts' by (intro answers_star_skip [OF sk]) (rule answers_fail)
        with t1(1) False neq \<open>t \<noteq> []\<close> less.prems(3) show ?thesis
          by (subst star_loop.simps) (simp add: skip_ahead_def)
      qed
    qed
  qed
qed

subsection \<open>Bracket expressions\<close>

lemma class_test_known: "class_known nm \<Longrightarrow> \<exists>b. class_test flags nm c = Some b"
  and class_test_unknown: "\<not> class_known nm \<Longrightarrow> class_test flags nm c = None"
  by (auto simp: class_known_def class_test_def CC_EQ_def)

lemma class_scan_text:
  "0 \<notin> set p \<Longrightarrow> class_scan (p @ [0]) =
     Some (takeWhile (\<lambda>c. c \<noteq> Close_ch) p, dropWhile (\<lambda>c. c \<noteq> Close_ch) p @ [0])"
  by (induction p) auto

lemma range_test_item: "range_test flags lo hi c = item_has flags c (BRange lo hi)"
  by (auto simp: range_test_def)

definition prev_byte :: "byte option \<Rightarrow> byte" where
  "prev_byte prev = (case prev of None \<Rightarrow> 0 | Some c \<Rightarrow> c)"

lemma prev_byte_simps [simp]: "prev_byte None = 0" "prev_byte (Some c) = c"
  by (simp_all add: prev_byte_def)

definition bracket_result :: "u32 \<Rightarrow> byte \<Rightarrow> bool \<Rightarrow> (bracket_item list \<times> byte list) option \<Rightarrow>
    (int + bool \<times> byte list) option" where
  "bracket_result flags t_ch matched r =
     (case r of
        None \<Rightarrow> Some (Inl WM_ABORT_ALL)
      | Some (is, q) \<Rightarrow> Some (Inr (matched \<or> (\<exists>i \<in> set is. item_has flags t_ch i), Close_ch # q @ [0])))"

lemma bracket_result_with_item:
  "bracket_result flags t_ch matched (with_item i r) =
     bracket_result flags t_ch (matched \<or> item_has flags t_ch i) r"
  by (cases r) (auto simp: bracket_result_def with_item_def)

lemma bracket_items_first: "p = [] \<or> hd p \<noteq> Close_ch \<Longrightarrow> bracket_items b prev p = bracket_items True prev p"
  by (cases p) (simp_all add: bracket_items.simps)

lemma bracket_loop_items:
  assumes "0 \<notin> set p" and "prev \<noteq> Some 0" and "p @ [0] = c # u"
  shows "bracket_loop flags t_ch c (prev_byte prev) matched (p @ [0]) =
    bracket_result flags t_ch matched (bracket_items True prev p)"
  using assms
proof (induction "length p" arbitrary: p prev c u matched rule: less_induct)
  case less
  have next_: "(do {
        c \<leftarrow> ld (q @ [0]);
        if c = Close_ch then Some (Inr (m, q @ [0]))
        else bracket_loop flags t_ch c (prev_byte prev') m (q @ [0])
      }) = bracket_result flags t_ch m (bracket_items False prev' q)"
    if "length q < length p" "0 \<notin> set q" "prev' \<noteq> Some 0" for q prev' m
  proof (cases q)
    case Nil
    with less.hyps [OF that, of 0 "[]" m] show ?thesis
      by (simp add: bracket_items.simps)
  next
    case (Cons d r)
    with less.hyps [OF that, of d "r @ [0]" m] bracket_items_first [of q False prev'] show ?thesis
      by (auto simp: bracket_items.simps(2) [of False] bracket_result_def)
  qed
  show ?case
  proof (cases p)
    case Nil
    with less.prems show ?thesis
      by (subst bracket_loop.simps) (simp add: bracket_step_def bracket_result_def bracket_items.simps)
  next
    case (Cons d r)
    then have c: "c = d" and "0 \<notin> set r" "c \<noteq> 0"
      using less.prems by auto
    have step: ?thesis
      if "bracket_step flags t_ch c (prev_byte prev) (p @ [0]) =
            Some (Inr (item_has flags t_ch i, prev_byte prev', x # q @ [0]))"
        "bracket_items True prev p = with_item i (bracket_items False prev' q)"
        "length q < length p" "0 \<notin> set q" "prev' \<noteq> Some 0" for i prev' x q
      by (subst bracket_loop.simps)
        (simp add: that(1,2) next_ [OF that(3-5)] bracket_result_with_item cong: if_cong)
    have abort: ?thesis
      if "bracket_step flags t_ch c (prev_byte prev) (p @ [0]) = Some (Inl WM_ABORT_ALL)"
        "bracket_items True prev p = None"
      by (subst bracket_loop.simps) (simp add: that bracket_result_def)
    show ?thesis
    proof (cases "c = Backslash_ch")
      case True
      show ?thesis
      proof (cases r)
        case Nil
        with True Cons c show ?thesis
          by (intro abort) (simp_all add: bracket_step_def bracket_items.simps)
      next
        case (Cons e q)
        with True \<open>p = d # r\<close> c less.prems show ?thesis
          by (intro step [of "BLit e" "Some e" e q]) (auto simp: bracket_step_def bracket_items.simps)
      qed
    next
      case not_backslash: False
      consider (range) "c = Dash_ch" "prev \<noteq> None" "r \<noteq> []" "hd r \<noteq> Close_ch"
        | (cls) "c = Open_ch" "r \<noteq> []" "hd r = Colon_ch"
        | (plain) "\<not> (c = Dash_ch \<and> prev \<noteq> None \<and> r \<noteq> [] \<and> hd r \<noteq> Close_ch)"
            "\<not> (c = Open_ch \<and> r \<noteq> [] \<and> hd r = Colon_ch)"
        by blast
      then show ?thesis
      proof cases
        case range
        then obtain e q lo where r: "r = e # q" "e \<noteq> Close_ch" "e \<noteq> 0" "prev = Some lo" "lo \<noteq> 0"
          using \<open>0 \<notin> set r\<close> less.prems(2) by (cases r) auto
        show ?thesis
        proof (cases "e = Backslash_ch")
          case False
          with range r c \<open>p = d # r\<close> \<open>0 \<notin> set r\<close> show ?thesis
            by (intro step [of "BRange lo e" None e q])
              (auto simp: bracket_step_def bracket_items.simps range_test_item simp del: item_has.simps)
        next
          case True
          show ?thesis
          proof (cases q)
            case Nil
            with True range r c \<open>p = d # r\<close> show ?thesis
              by (intro abort) (simp_all add: bracket_step_def bracket_items.simps)
          next
            case (Cons f u)
            with True range r c \<open>p = d # r\<close> \<open>0 \<notin> set r\<close> show ?thesis
              by (intro step [of "BRange lo f" None f u])
                (auto simp: bracket_step_def bracket_items.simps range_test_item simp del: item_has.simps)
          qed
        qed
      next
        case cls
        then obtain q where r: "r = Colon_ch # q" "0 \<notin> set q"
          using \<open>0 \<notin> set r\<close> by (cases r) auto
        define nm where "nm = takeWhile (\<lambda>c. c \<noteq> Close_ch) q"
        define z where "z = dropWhile (\<lambda>c. c \<noteq> Close_ch) q"
        have scan: "class_scan (q @ [0]) = Some (nm, z @ [0])"
          using class_scan_text [OF r(2)] by (simp add: nm_def z_def)
        have z: "length z \<le> length q" "set z \<subseteq> set q" "z \<noteq> [] \<Longrightarrow> hd z = Close_ch"
          using hd_dropWhile [of "\<lambda>c. c \<noteq> Close_ch" q]
          by (auto simp: z_def length_dropWhile_le dest: set_dropWhileD)
        have items: "bracket_items True prev p =
            (if z = [] then None
             else if nm = [] \<or> last nm \<noteq> Colon_ch then
               with_item (BLit Open_ch) (bracket_items False (Some Open_ch) r)
             else if class_known (butlast nm) then
               with_item (BClass (butlast nm)) (bracket_items False None (tl z))
             else None)"
          using cls r c
          unfolding Cons bracket_items.simps(2) [of True] Let_def nm_def z_def
          by (simp split del: if_split del: dropWhile_eq_Nil_conv takeWhile_eq_Nil_iff cong: if_cong)
        show ?thesis
        proof (cases z)
          case Nil
          with items scan cls r c Cons show ?thesis
            by (intro abort) (simp_all add: bracket_step_def)
        next
          case z': (Cons e z')
          then have e: "e = Close_ch"
            using z(3) by simp
          consider "nm = [] \<or> last nm \<noteq> Colon_ch"
            | "nm \<noteq> []" "last nm = Colon_ch" "class_known (butlast nm)"
            | "nm \<noteq> []" "last nm = Colon_ch" "\<not> class_known (butlast nm)"
            by blast
          then show ?thesis
          proof cases
            case 1
            with items scan cls r c Cons z' e show ?thesis
              by (intro step [of "BLit Open_ch" "Some Open_ch" Open_ch r])
                (auto simp: bracket_step_def)
          next
            case 2
            obtain b where b: "class_test flags (butlast nm) t_ch = Some b"
              using class_test_known [OF 2(3)] by blast
            show ?thesis
            proof (rule step [of "BClass (butlast nm)" None Close_ch z'])
              show "bracket_step flags t_ch c (prev_byte prev) (p @ [0]) =
                  Some (Inr (item_has flags t_ch (BClass (butlast nm)), prev_byte None, Close_ch # z' @ [0]))"
                using 2 b scan cls r c Cons z' e by (simp add: bracket_step_def)
            qed (use 2 items z' z r Cons in auto)
          next
            case 3
            with class_test_unknown [OF 3(3)] items scan cls r c Cons z' e show ?thesis
              by (intro abort) (simp_all add: bracket_step_def)
          qed
        qed
      next
        case plain
        with not_backslash c \<open>p = d # r\<close> \<open>0 \<notin> set r\<close> \<open>c \<noteq> 0\<close> show ?thesis
          by (intro step [of "BLit c" "Some c" c r])
            (cases r; auto simp: bracket_step_def bracket_items.simps prev_byte_def split: option.splits)+
      qed
    qed
  qed
qed

lemma bracket_text:
  assumes "0 \<notin> set p"
  shows "bracket flags t_ch (Open_ch # p @ [0]) =
    (case bracket_expr p of
       None \<Rightarrow> Some (Inl WM_ABORT_ALL)
     | Some (neg, is, q) \<Rightarrow>
         Some (if (\<exists>i \<in> set is. item_has flags t_ch i) = neg \<or> pathname flags \<and> t_ch = Slash_ch
               then Inl WM_NOMATCH else Inr (Close_ch # q @ [0])))"
proof -
  obtain c u where c: "p @ [0] = c # u"
    by (cases p) auto
  define neg where "neg \<longleftrightarrow> p \<noteq> [] \<and> (hd p = 94 \<or> hd p = 33)"
  have neg: "neg \<longleftrightarrow> c = 94 \<or> c = 33"
    using c by (cases p) (auto simp: neg_def)
  define p' where "p' = (if neg then tl p else p)"
  have p': "(if neg then tl (p @ [0]) else p @ [0]) = p' @ [0]" "0 \<notin> set p'"
    using assms by (auto simp: p'_def neg_def dest: list.set_sel)
  obtain c' u' where c': "p' @ [0] = c' # u'"
    by (cases p') auto
  have loop: "bracket_loop flags t_ch c' 0 False (c' # u') =
      bracket_result flags t_ch False (bracket_items True None p')"
    using bracket_loop_items [of p' None c' u' flags t_ch False] p'(2) c' by simp
  show ?thesis
    using c c' p'(1) loop neg
    unfolding bracket_def bracket_expr_def neg_def [symmetric] p'_def [symmetric] Let_def
    by (cases "bracket_items True None p'") (auto simp: bracket_result_def cong: if_cong)
qed

subsection \<open>The runs of stars\<close>

lemma skip_stars_text:
  "0 \<notin> set p \<Longrightarrow> skip_stars (x # p @ [0]) = Some (dropWhile (\<lambda>c. c = Star_ch) p @ [0])"
  by (induction p arbitrary: x) auto

lemma take_2_Cons: "take 2 q = [a, b] \<longleftrightarrow> (\<exists>r. q = a # b # r)"
  by (cases q; cases "tl q") (auto simp: numeral_2_eq_2)

lemma star_run_text:
  fixes p :: "byte list"
  defines "q \<equiv> dropWhile (\<lambda>c. c = Star_ch) p"
  assumes "0 \<notin> set p" and "pattern = pre @ Star_ch # p @ [0]"
  shows "star_run flags pattern (Star_ch # p @ [0]) = Some (
    if p = q then Inr (\<not> pathname flags, p @ [0], False)
    else if \<not> pathname flags then Inr (True, q @ [0], False)
    else if (pre = [] \<or> last pre = Slash_ch)
        \<and> (q = [] \<or> hd q = Slash_ch \<or> take 2 q = [Backslash_ch, Slash_ch])
      then Inr (True, q @ [0], q \<noteq> [] \<and> hd q = Slash_ch)
    else Inl WM_ABORT_MALFORMED)"
proof (cases "p = q")
  case True
  then have "p = [] \<or> hd p \<noteq> Star_ch"
    unfolding q_def using dropWhile_eq_self_iff [of "\<lambda>c. c = Star_ch" p] by metis
  with True assms(2) show ?thesis
    by (cases p) (auto simp: star_run_def)
next
  case False
  then obtain r where p: "p = Star_ch # r"
    using dropWhile_eq_self_iff [of "\<lambda>c. c = Star_ch" p] unfolding q_def by (cases p) auto
  have skip: "skip_stars (p @ [0]) = Some (q @ [0])"
    using skip_stars_text [of r Star_ch] assms(2) p by (simp add: q_def)
  have prev: "length pattern - length (p @ [0]) = length pre + 1"
    by (simp add: assms(3))
  have slash: "pre \<noteq> [] \<Longrightarrow> pattern ! (length pre - Suc 0) = last pre"
    by (simp add: assms(3) nth_append last_conv_nth)
  have q0: "0 \<notin> set q"
    using assms(2) by (auto simp: q_def dest: set_dropWhileD)
  have c: "ld (p @ [0]) = Some Star_ch"
    by (simp add: p)
  show ?thesis
    using False skip c q0 slash unfolding star_run_def list.sel(3) Let_def prev
    by (cases "pre = []"; cases q; cases "tl q") (auto simp: take_2_Cons)
qed

lemma strchr_text:
  "0 \<notin> set t \<Longrightarrow> strchr (t @ [0]) Slash_ch =
     Some (if Slash_ch \<in> set t then Some (dropWhile (\<lambda>c. c \<noteq> Slash_ch) t @ [0]) else None)"
  by (induction t) auto

lemma tokens_here: "p = [] \<or> hd p \<noteq> Star_ch \<Longrightarrow> tokens flags b p = tokens flags True p"
  by (cases p) simp_all

lemma star_loop_True:
  "star_loop flags True p t_ch s = Some r \<Longrightarrow> r \<noteq> WM_ABORT_TO_STARSTAR"
proof (induction "length s" arbitrary: t_ch s r rule: less_induct)
  case less
  have IH: False
    if "star_loop flags True p c (x # u) = Some (- 2)" "tl t = x # u" "length t \<le> length s" for c t x u
  proof -
    have "length (tl t) < length s"
      using that(2,3) by (cases t) auto
    with less(1) [of "tl t" c "- 2"] that(1,2) show False
      by (simp add: wm_codes)
  qed
  show ?case
    using less(2) by (subst (asm) star_loop.simps)
      (auto simp: wm_codes split: if_splits bind_splits dest!: skip_ahead_length IH)
qed

subsection \<open>The matcher decides the meaning\<close>

lemma fold_case_slash' [simp]: "fold_case flags t = fold_case flags Slash_ch \<longleftrightarrow> t = Slash_ch"
  by (metis fold_case_slash)

lemma fold_case_slash'' [simp]: "fold_case flags Slash_ch = fold_case flags t \<longleftrightarrow> t = Slash_ch"
  by (metis fold_case_slash)

lemma tokens_need:
  "p \<noteq> [] \<Longrightarrow> hd p \<noteq> Star_ch \<Longrightarrow> \<not> matches (tokens flags b p) [] \<and> \<not> dirs_first (tokens flags b p)"
  by (cases p) (auto split: option.splits list.splits)

lemma tokens_not_dirs: "\<not> dirs_first (tokens flags False p)"
  by (cases p) (auto simp: Let_def split: option.splits list.splits)

lemma matches_One_drop:
  "matches (One f # ts) (drop n t) \<longleftrightarrow> n < length t \<and> f (t ! n) \<and> matches ts (drop (Suc n) t)"
  by (cases "n < length t") (auto simp: hd_drop_conv_nth tl_drop drop_Suc)

lemma matches_star_One:
  assumes "\<And>d. f d \<longleftrightarrow> d = Slash_ch"
  shows "matches (Star # One f # ts) s \<longleftrightarrow>
      (\<exists>k < length s. Slash_ch \<notin> set (take k s) \<and> s ! k = Slash_ch \<and> matches ts (drop (Suc k) s))"
    and "matches (DStar # One f # ts) s \<longleftrightarrow>
      (\<exists>k < length s. s ! k = Slash_ch \<and> matches ts (drop (Suc k) s))"
  unfolding matches.simps(2) [of Star] matches.simps(2) [of DStar] token.case matches_One_drop
  by (simp_all add: assms) (meson less_imp_le)+

lemma answers_jump:
  assumes "answers flags ts t r" and "\<And>d. f d \<longleftrightarrow> d = Slash_ch"
  shows "answers flags (Star # One f # ts) (Slash_ch # t) r"
proof -
  have at: "\<exists>m \<le> length t. n \<le> m \<and> (m = 0 \<or> t ! (m - 1) = Slash_ch) \<and> matches ts (drop m t)"
    if m: "matches (Star # One f # ts) (drop n (Slash_ch # t))" for n
  proof -
    obtain k where k: "n + k < length (Slash_ch # t)" "(Slash_ch # t) ! (n + k) = Slash_ch"
        "matches ts (drop (Suc (n + k)) (Slash_ch # t))"
      using m unfolding matches_star_One [where f = f, OF assms(2)]
      by (auto simp: add.commute less_diff_conv)
    then show ?thesis
      by (intro exI [of _ "n + k"]) (cases "n + k"; auto)
  qed
  have here: "matches (Star # One f # ts) (Slash_ch # t) \<longleftrightarrow> matches ts t"
    unfolding matches_star_One [where f = f, OF assms(2)] by (auto simp: take_Cons')
  have all: "\<not> matches (Star # One f # ts) (drop n (Slash_ch # t))"
    if "r = WM_ABORT_ALL" "n \<le> length (Slash_ch # t)" for n
    using at [of n] that assms(1) unfolding answers_def by metis
  have "n = 0" if "Slash_ch \<notin> set (take n (Slash_ch # t))" for n
    using that by (cases n) auto
  then have slash: "\<not> matches (Star # One f # ts) (drop n (Slash_ch # t))"
    if "r = WM_ABORT_TO_STARSTAR" "Slash_ch \<notin> set (take n (Slash_ch # t))" for n
    using that assms(1) here by (fastforce simp: answers_def wm_codes simp del: matches.simps)
  show ?thesis
    using assms(1) here all slash unfolding answers_def by (auto simp: wm_codes simp del: matches.simps)
qed

lemma answers_dirs:
  assumes "answers flags (DStar # One f # ts) t r" and "r \<noteq> WM_ABORT_TO_STARSTAR"
    and "\<And>d. f d \<longleftrightarrow> d = Slash_ch" and "\<not> matches ts t"
  shows "answers flags (DStarDir # ts) t r"
proof -
  have dirs: "matches (DStarDir # ts) s \<longleftrightarrow> matches ts s \<or> matches (DStar # One f # ts) s" for s
    unfolding matches_star_One [where f = f, OF assms(3)] by simp
  have "\<not> matches (DStarDir # ts) (drop n t)"
    if "r = WM_ABORT_ALL" "n \<le> length t" "n = 0 \<or> t ! (n - 1) = Slash_ch" for n
  proof -
    have none: "\<not> matches (DStar # One f # ts) (drop m t)" if "m \<le> length t" for m
      using assms(1) \<open>r = WM_ABORT_ALL\<close> that unfolding answers_def by simp
    have "\<not> matches ts (drop n t)"
    proof (cases n)
      case (Suc m)
      with none [of 0] that show ?thesis
        unfolding matches_star_One [where f = f, OF assms(3)] by auto
    qed (use assms(4) in simp)
    with none that show ?thesis
      unfolding dirs by blast
  qed
  with assms(1,2,4) show ?thesis
    unfolding answers_def dirs by (auto simp: wm_codes simp del: matches.simps)
qed

lemma fold_case_special: "x \<in> {42, 63, 91, 92} \<Longrightarrow> fold_case flags c = x \<longleftrightarrow> c = x"
proof -
  have "\<forall>c. tolower c \<in> {42, 63, 91, 92} \<longrightarrow> tolower c = c"
    unfolding tolower_eq isupper_iff
    by (rule byte_all) (simp add: upt_rec_numeral word_le_nat_alt)
  moreover have "\<forall>c. c \<in> {42, 63, 91, 92} \<longrightarrow> tolower c = c"
    unfolding tolower_eq isupper_iff
    by (rule byte_all) (simp add: upt_rec_numeral word_le_nat_alt)
  ultimately show "x \<in> {42, 63, 91, 92} \<Longrightarrow> fold_case flags c = x \<longleftrightarrow> c = x"
    unfolding fold_case_def by (metis (no_types, lifting))
qed

text \<open>One round of the matcher, by the kind of the byte of the pattern.\<close>

lemma dowild_round:
  assumes "d \<noteq> 0"
  shows "dowild flags pattern (Backslash_ch # p) (d # t) =
      (ld p \<bind> (\<lambda>e. if fold_case flags d \<noteq> e then Some WM_NOMATCH else dowild flags pattern (tl p) t))"
    and "dowild flags pattern (Quest_ch # p) (d # t) =
      (if pathname flags \<and> d = Slash_ch then Some WM_NOMATCH else dowild flags pattern p t)"
    and "dowild flags pattern (Open_ch # p) (d # t) =
      (bracket flags (fold_case flags d) (Open_ch # p) \<bind> (\<lambda>r. case r of
         Inl ret \<Rightarrow> Some ret
       | Inr p \<Rightarrow> dowild flags pattern (tl p) t))"
    and "c \<noteq> 0 \<Longrightarrow> c \<notin> {42, 63, 91, 92} \<Longrightarrow> dowild flags pattern (c # p) (d # t) =
      (if fold_case flags d \<noteq> fold_case flags c then Some WM_NOMATCH else dowild flags pattern p t)"
  using assms by (subst dowild.simps; simp add: Let_def fold_case_special cong: if_cong split del: if_split)+

lemma dowild_star:
  "dowild flags pattern (Star_ch # p) (d # t) =
     (star_run flags pattern (Star_ch # p) \<bind> (\<lambda>r. case r of
        Inl ret \<Rightarrow> Some ret
      | Inr (match_slash, p, skip) \<Rightarrow> do {
          m \<leftarrow> (if skip then dowild flags (tl p) (tl p) (d # t) else Some WM_NOMATCH);
          c \<leftarrow> ld p;
          if skip \<and> m = WM_MATCH then Some WM_MATCH
          else if c = 0 then
            (if \<not> match_slash then do {
               slash \<leftarrow> strchr (d # t) Slash_ch;
               Some (if slash \<noteq> None then WM_NOMATCH else WM_MATCH)
             }
             else Some WM_MATCH)
          else if \<not> match_slash \<and> c = Slash_ch then do {
            slash \<leftarrow> strchr (d # t) Slash_ch;
            (case slash of
               None \<Rightarrow> Some WM_NOMATCH
             | Some text \<Rightarrow> dowild flags pattern (tl p) (tl text))
          }
          else star_loop flags match_slash p (fold_case flags d) (d # t)
        }))"
  by (subst dowild.simps) (simp add: Let_def fold_case_special cong: if_cong)

lemma bracket_items_split: "bracket_items b prev p = Some (is, q) \<Longrightarrow> \<exists>z. p = z @ Close_ch # q"
proof (induction "length p" arbitrary: b prev p "is" rule: less_induct)
  case less
  show ?case
  proof (cases p)
    case (Cons c r)
    have IH: "\<exists>z. c # r = z @ Close_ch # q"
      if items: "bracket_items b' prev' p' = Some (is', q)" "suffix p' r" for b' prev' p' is'
    proof -
      obtain u where u: "r = u @ p'"
        using items(2) by (auto simp: suffix_def)
      with less(1) [OF _ items(1)] Cons obtain z where "p' = z @ Close_ch # q"
        by auto
      with u show ?thesis
        by (intro exI [of _ "c # u @ z"]) simp
    qed
    have sizes: "suffix (tl (dropWhile (\<lambda>c. c \<noteq> Close_ch) (tl r))) r" "suffix (tl r) r" "suffix r r"
      using suffix_dropWhile [of "\<lambda>c. c \<noteq> Close_ch" "tl r"] suffix_tl suffix_order.trans by blast+
    have tls: "suffix u r" if "tl r = x # u" for x u
      using that by (metis suffix_ConsI suffix_order.trans suffix_tl list.sel(3))
    have heads: "suffix u r" if "r = x # u" for x u
      using that by (simp add: suffix_ConsI)
    show ?thesis
      using less(2) sizes unfolding Cons bracket_items.simps(2) Let_def
      by (auto simp: with_item_Some suffix_ConsI split: if_splits list.splits intro: exI [of _ "[]"]
          dest: tls heads dest!: IH)
  qed (use less in \<open>simp add: bracket_items.simps\<close>)
qed

lemma bracket_expr_split: "bracket_expr p = Some (neg, is, q) \<Longrightarrow> \<exists>z. p = z @ Close_ch # q"
  unfolding bracket_expr_def Let_def
  by (cases p) (auto split: if_splits dest!: bracket_items_split intro: exI [of _ "_ # _"])

text \<open>
  The matcher decides the tokens of \<open>p\<close> on \<open>t\<close>: it returns, and its result answers for them.  It
  decides \<open>p\<close> when it does so on every text, whatever comes before \<open>p\<close> in the pattern.
\<close>

definition decided :: "u32 \<Rightarrow> byte list \<Rightarrow> bool \<Rightarrow> byte list \<Rightarrow> byte list \<Rightarrow> bool" where
  "decided flags pattern b p t \<longleftrightarrow>
     (\<exists>r. dowild flags pattern (p @ [0]) (t @ [0]) = Some r \<and> answers flags (tokens flags b p) t r)"

definition decides :: "u32 \<Rightarrow> byte list \<Rightarrow> bool" where
  "decides flags p \<longleftrightarrow>
     (\<forall>t pre. 0 \<notin> set t \<longrightarrow> decided flags (pre @ p @ [0]) (pre = [] \<or> last pre = Slash_ch) p t)"

lemma decidesD:
  "decides flags p \<Longrightarrow> 0 \<notin> set t \<Longrightarrow> pattern = pre @ p @ [0] \<Longrightarrow> b \<longleftrightarrow> pre = [] \<or> last pre = Slash_ch \<Longrightarrow>
     \<exists>r. dowild flags pattern (p @ [0]) (t @ [0]) = Some r \<and> answers flags (tokens flags b p) t r"
  unfolding decides_def decided_def by blast

lemma decidedI:
  "dowild flags pattern (p @ [0]) (t @ [0]) = Some r \<Longrightarrow> answers flags (tokens flags b p) t r \<Longrightarrow>
     decided flags pattern b p t"
  unfolding decided_def by blast

lemma decided_fail:
  "dowild flags pattern (p @ [0]) (t @ [0]) = Some WM_NOMATCH \<Longrightarrow> \<not> matches (tokens flags b p) t \<Longrightarrow>
     decided flags pattern b p t"
  by (rule decidedI) (auto intro: answers_fail)

lemma decided_One:
  assumes q: "decides flags q" "0 \<notin> set t'" "pattern = pre' @ q @ [0]"
      "b' \<longleftrightarrow> pre' = [] \<or> last pre' = Slash_ch"
    and p: "tokens flags b p = One f # tokens flags b' q" "t = d # t'" "f d"
      "dowild flags pattern (p @ [0]) (t @ [0]) = dowild flags pattern (q @ [0]) (t' @ [0])"
    and f: "\<And>d. pathname flags \<Longrightarrow> f Slash_ch \<Longrightarrow> f d \<Longrightarrow> d = Slash_ch"
      "\<And>d. b' \<Longrightarrow> f d \<Longrightarrow> d = Slash_ch"
  shows "decided flags pattern b p t"
proof -
  obtain r where r: "dowild flags pattern (q @ [0]) (t' @ [0]) = Some r"
      "answers flags (tokens flags b' q) t' r"
    using decidesD [OF q] by blast
  have "answers flags (One f # tokens flags b' q) (d # t') r"
    using p(3) r(2) f tokens_not_dirs by (intro answers_One) (auto, metis (full_types))
  with r(1) p show ?thesis
    by (intro decidedI) auto
qed

lemma decided_bracket:
  assumes d: "d \<noteq> 0" "0 \<notin> set p" "0 \<notin> set t"
    and IH: "\<And>q. suffix q p \<Longrightarrow> decides flags q"
  shows "decided flags (pre @ Open_ch # p @ [0]) b (Open_ch # p) (d # t)"
proof (cases "bracket_expr p")
  case None
  with d show ?thesis
    by (intro decidedI [of _ _ _ _ WM_ABORT_ALL]) (simp_all add: dowild_round bracket_text answers_bad_class)
next
  case (Some x)
  then obtain neg "is" q where x: "bracket_expr p = Some (neg, is, q)"
    by (cases x) auto
  define f where "f = (\<lambda>t. (\<exists>i\<in>set is. item_has flags (fold_case flags t) i) \<noteq> neg
            \<and> \<not> (pathname flags \<and> t = Slash_ch))"
  have toks: "tokens flags b (Open_ch # p) = One f # tokens flags False q"
    using x by (simp add: f_def)
  have run: "dowild flags pattern (Open_ch # p @ [0]) (d # t @ [0]) =
      (if f d then dowild flags pattern (q @ [0]) (t @ [0]) else Some WM_NOMATCH)" for pattern
    using d x bracket_text [OF d(2)] by (auto simp: dowild_round f_def)
  obtain z where z: "p = z @ Close_ch # q"
    using bracket_expr_split [OF x] by blast
  show ?thesis
  proof (cases "f d")
    case True
    show ?thesis
    proof (rule decided_One [of flags q t _ "pre @ Open_ch # z @ [Close_ch]" False _ _ f _ d])
      show "\<And>d. pathname flags \<Longrightarrow> f Slash_ch \<Longrightarrow> f d \<Longrightarrow> d = Slash_ch"
        by (simp add: f_def)
      show "decides flags q"
        by (rule IH) (simp add: z suffix_def)
    qed (use d True toks run z in auto)
  next
    case False
    with toks run show ?thesis
      by (intro decided_fail) simp_all
  qed
qed

lemma decided_byte:
  assumes c: "c \<noteq> Star_ch" "c \<noteq> 0" and d: "d \<noteq> 0" "0 \<notin> set p" "0 \<notin> set t"
    and IH: "\<And>q. suffix q p \<Longrightarrow> decides flags q"
    and pattern: "pattern = pre @ (c # p) @ [0]"
  shows "decided flags pattern b (c # p) (d # t)"
proof -
  note round = dowild_round [OF d(1)]
  consider "c = Backslash_ch" | "c = Quest_ch" | "c = Open_ch" | "c \<notin> {42, 63, 91, 92}"
    using c(1) by blast
  then show ?thesis
  proof cases
    case 1
    show ?thesis
    proof (cases p)
      case Nil
      with 1 d show ?thesis
        by (intro decided_fail) (simp_all add: round)
    next
      case (Cons e q)
      show ?thesis
      proof (cases "fold_case flags d = e")
        case True
        show ?thesis
        proof (rule decided_One [of flags q t pattern "pre @ [c, e]" "e = Slash_ch" _ _
              "\<lambda>t. fold_case flags t = e" _ d])
          show "decides flags q"
            by (rule IH) (simp add: Cons suffix_ConsI)
        qed (use 1 d True Cons pattern in \<open>auto simp: round\<close>)
      next
        case False
        with 1 d Cons show ?thesis
          by (intro decided_fail) (simp_all add: round)
      qed
    qed
  next
    case 2
    show ?thesis
    proof (cases "pathname flags \<and> d = Slash_ch")
      case True
      with 2 show ?thesis
        by (intro decided_fail) (simp_all add: dowild_round)
    next
      case False
      show ?thesis
        by (rule decided_One [of flags p t pattern "pre @ [c]" False _ _
              "\<lambda>t. \<not> (pathname flags \<and> t = Slash_ch)" _ d])
          (use 2 d False pattern IH in \<open>auto simp: round\<close>)
    qed
  next
    case 3
    then show ?thesis
      by (auto intro!: decided_bracket IH simp: pattern d)
  next
    case 4
    show ?thesis
    proof (cases "fold_case flags d = fold_case flags c")
      case True
      show ?thesis
        by (rule decided_One [of flags p t pattern "pre @ [c]" "c = Slash_ch" _ _
              "\<lambda>t. fold_case flags t = fold_case flags c" _ d])
          (use 4 c d True pattern IH in \<open>auto simp: round\<close>)
    next
      case False
      with 4 c d show ?thesis
        by (intro decided_fail) (simp_all add: round)
    qed
  qed
qed

text \<open>
  A run of stars before \<open>q\<close>, which does not start with another; the loop after it, and the three
  ways the run is read.
\<close>

lemma star_loop_decides:
  assumes q: "decides flags q" "0 \<notin> set q" "q \<noteq> []" "hd q \<noteq> Star_ch"
    and ms: "\<not> ms \<Longrightarrow> pathname flags \<and> hd q \<noteq> Slash_ch"
    and t: "0 \<notin> set t" "t @ [0] = d # u"
  shows "\<exists>r. star_loop flags ms (q @ [0]) (fold_case flags d) (t @ [0]) = Some r \<and>
    answers flags (Star_or_DStar ms # tokens flags b q) t r"
proof -
  obtain c0 q' where q': "q = c0 # q'"
    using q(3) by (cases q) auto
  have "\<exists>r. star_loop flags ms (c0 # q' @ [0]) (fold_case flags d) (t @ [0]) = Some r \<and>
    answers flags (Star_or_DStar ms # tokens flags b q) t r"
  proof (rule star_loop_answers)
    show "\<not> is_glob_special c0 \<Longrightarrow>
        \<exists>ts'. tokens flags b q = One (\<lambda>t. fold_case flags t = fold_case flags c0) # ts'"
      by (simp add: q' is_glob_special_iff)
    show "\<not> matches (tokens flags b q) []" "\<not> dirs_first (tokens flags b q)"
      using tokens_need [OF q(3,4)] by auto
    show "\<exists>r. dowild flags (c0 # q' @ [0]) (c0 # q' @ [0]) (s @ [0]) = Some r \<and>
        answers flags (tokens flags b q) s r" if "suffix s t" for s
      using decidesD [OF q(1), of s "q @ [0]" "[]" True] tokens_here [of q flags b] that t(1) q(4) q'
      by (auto simp: suffix_def simp del: tokens.simps)
    show "c0 \<noteq> 0" "\<not> ms \<Longrightarrow> pathname flags \<and> c0 \<noteq> Slash_ch"
      using q ms q' by auto
    show "0 \<notin> set t" "fold_case flags d = 0 \<longleftrightarrow> t = []"
      using t by (cases t; auto)+
    show "fold_case flags d = Slash_ch \<longleftrightarrow> d' = Slash_ch" if "t = d' # t''" for d' t''
      using t that by simp
  qed
  then show ?thesis
    by (simp add: q')
qed

lemma read_text: "0 \<notin> set q \<Longrightarrow> ld (q @ [0]) = Some (if q = [] then 0 else hd q)"
  and hd_text: "0 \<notin> set q \<Longrightarrow> q \<noteq> [] \<Longrightarrow> hd q \<noteq> 0"
  by (cases q; auto)+

lemma dowild_star_run:
  assumes "star_run flags pattern (Star_ch # p @ [0]) = Some (Inr (ms, q @ [0], skip))"
    and "t @ [0] = d # u"
  shows "dowild flags pattern ((Star_ch # p) @ [0]) (t @ [0]) = do {
          m \<leftarrow> (if skip then dowild flags (tl (q @ [0])) (tl (q @ [0])) (t @ [0]) else Some WM_NOMATCH);
          c \<leftarrow> ld (q @ [0]);
          if skip \<and> m = WM_MATCH then Some WM_MATCH
          else if c = 0 then
            (if \<not> ms then do {
               slash \<leftarrow> strchr (t @ [0]) Slash_ch;
               Some (if slash \<noteq> None then WM_NOMATCH else WM_MATCH)
             }
             else Some WM_MATCH)
          else if \<not> ms \<and> c = Slash_ch then do {
            slash \<leftarrow> strchr (t @ [0]) Slash_ch;
            (case slash of
               None \<Rightarrow> Some WM_NOMATCH
             | Some text \<Rightarrow> dowild flags pattern (tl (q @ [0])) (tl text))
          }
          else star_loop flags ms (q @ [0]) (fold_case flags d) (t @ [0])
        }"
  unfolding append_Cons assms(2) dowild_star assms(1) by simp

lemma decided_any:
  assumes q: "decides flags q" "0 \<notin> set q" "q \<noteq> [] \<Longrightarrow> hd q \<noteq> Star_ch" and t: "0 \<notin> set t"
    and run: "star_run flags pattern (Star_ch # p @ [0]) = Some (Inr (True, q @ [0], False))"
    and toks: "tokens flags b (Star_ch # p) = DStar # tokens flags b' q"
  shows "decided flags pattern b (Star_ch # p) t"
proof -
  obtain d u where d: "t @ [0] = d # u"
    by (cases t) auto
  note step = dowild_star_run [OF run d]
  show ?thesis
  proof (cases "q = []")
    case True
    then show ?thesis
      unfolding decided_def step toks by (auto simp: answers_def wm_codes)
  next
    case False
    with star_loop_decides [OF q(1,2) False _ _ t d, of True b'] q(3) hd_text [OF q(2)] show ?thesis
      unfolding decided_def step toks by (simp add: read_text [OF q(2)])
  qed
qed

lemma decided_dirs:
  assumes q: "decides flags q" "decides flags (Slash_ch # q)" "0 \<notin> set q" and t: "0 \<notin> set t"
    and run: "star_run flags pattern (Star_ch # p @ [0]) = Some (Inr (True, Slash_ch # q @ [0], True))"
    and toks: "tokens flags b (Star_ch # p) = DStarDir # tokens flags True q"
  shows "decided flags pattern b (Star_ch # p) t"
proof -
  obtain d u where d: "t @ [0] = d # u"
    by (cases t) auto
  note step = dowild_star_run [of flags pattern p True "Slash_ch # q" True, simplified append_Cons,
      OF run d]
  define f where "f = (\<lambda>t. fold_case flags t = fold_case flags Slash_ch)"
  have f: "f d \<longleftrightarrow> d = Slash_ch" for d
    by (simp add: f_def)
  obtain m where m: "dowild flags (q @ [0]) (q @ [0]) (t @ [0]) = Some m"
      "answers flags (tokens flags True q) t m"
    using decidesD [OF q(1) t, of "q @ [0]" "[]" True] by auto
  obtain r where r: "star_loop flags True (Slash_ch # q @ [0]) (fold_case flags d) (t @ [0]) = Some r"
      "answers flags (DStar # One f # tokens flags True q) t r"
    using star_loop_decides [OF q(2) _ _ _ _ t d, of True False] q(3) by (auto simp: f_def)
  show ?thesis
  proof (cases "m = WM_MATCH")
    case True
    with m show ?thesis
      unfolding decided_def append_Cons step toks by (simp add: answers_def wm_codes)
  next
    case False
    with m(2) have "\<not> matches (tokens flags True q) t"
      by (simp add: answers_def)
    with answers_dirs [OF r(2) star_loop_True [OF r(1)] f] False m(1) r(1) show ?thesis
      unfolding decided_def append_Cons step toks by simp
  qed
qed

lemma decided_single:
  assumes q: "decides flags q" "0 \<notin> set q" "q \<noteq> [] \<Longrightarrow> hd q \<noteq> Star_ch"
      "q \<noteq> [] \<Longrightarrow> decides flags (tl q)"
    and t: "0 \<notin> set t" and flags: "pathname flags"
    and pattern: "pattern = pre @ (Star_ch # q) @ [0]"
    and run: "star_run flags pattern (Star_ch # q @ [0]) = Some (Inr (False, q @ [0], False))"
    and toks: "tokens flags b (Star_ch # q) = Star # tokens flags False q"
  shows "decided flags pattern b (Star_ch # q) t"
proof -
  obtain d u where d: "t @ [0] = d # u"
    by (cases t) auto
  note step = dowild_star_run [OF run d]
  consider "q = []" | q2 where "q = Slash_ch # q2" | "q \<noteq> []" "hd q \<noteq> Slash_ch"
    by (cases q) auto
  then show ?thesis
  proof cases
    case 1
    have "matches [Star] t \<longleftrightarrow> Slash_ch \<notin> set t"
      by auto
    with 1 t show ?thesis
      unfolding decided_def step toks
      by (auto simp: strchr_text answers_def wm_codes simp del: matches.simps)
  next
    case q2: 2
    define f where "f = (\<lambda>t. fold_case flags t = fold_case flags Slash_ch)"
    have f: "f d \<longleftrightarrow> d = Slash_ch" for d
      by (simp add: f_def)
    have toks2: "tokens flags b (Star_ch # q) = Star # One f # tokens flags True q2"
      unfolding toks using q2 by (simp add: f_def del: tokens.simps) (simp add: q2)
    show ?thesis
    proof (cases "Slash_ch \<in> set t")
      case False
      then have "\<not> matches (tokens flags b (Star_ch # q)) t"
        unfolding toks2 matches_star_One [where f = f, OF f] by (auto simp: in_set_conv_nth)
      then show ?thesis
        by (rule decided_fail [rotated]) (use False t q2 step in \<open>simp add: strchr_text\<close>)
    next
      case True
      then obtain v s where v: "t = v @ Slash_ch # s" "Slash_ch \<notin> set v"
        using split_list_first by metis
      then have "dropWhile (\<lambda>c. c \<noteq> Slash_ch) t = Slash_ch # s"
        by (simp add: dropWhile_append3) (metis (mono_tags, lifting) dropWhile_append2 dropWhile.simps(2))
      then have slash: "strchr (t @ [0]) Slash_ch = Some (Some (Slash_ch # s @ [0]))"
        using strchr_text [OF t] True by simp
      obtain r where r: "dowild flags pattern (q2 @ [0]) (s @ [0]) = Some r"
          "answers flags (tokens flags True q2) s r"
        using decidesD [of flags q2 s pattern "pre @ [Star_ch, Slash_ch]" True] q(4) q2 t v pattern by auto
      have "answers flags (Star # One f # tokens flags True q2) (Slash_ch # s) r"
        by (rule answers_jump [OF r(2) f])
      then have "answers flags (Star_or_DStar False # One f # tokens flags True q2) (v @ Slash_ch # s) r"
        using v(2) by (intro answers_star_skip) (auto simp: f)
      then have "answers flags (Star # One f # tokens flags True q2) t r"
        by (simp add: v(1))
      then show ?thesis
        unfolding decided_def step toks2 by (simp add: slash q2 r(1))
    qed
  next
    case 3
    with star_loop_decides [OF q(1,2) 3(1) _ _ t d, of False False] q(3) flags hd_text [OF q(2)] show ?thesis
      unfolding decided_def step toks by (simp add: read_text [OF q(2)])
  qed
qed

lemma decided_star:
  assumes p: "0 \<notin> set p" and t: "0 \<notin> set t"
    and IH: "\<And>q. suffix q p \<Longrightarrow> decides flags q"
    and pattern: "pattern = pre @ (Star_ch # p) @ [0]" "b \<longleftrightarrow> pre = [] \<or> last pre = Slash_ch"
  shows "decided flags pattern b (Star_ch # p) t"
proof -
  define q where "q = dropWhile (\<lambda>c. c = Star_ch) p"
  have suffix: "suffix q p"
    unfolding q_def by (rule suffix_dropWhile)
  then have q: "decides flags q" "0 \<notin> set q" "q \<noteq> [] \<Longrightarrow> decides flags (tl q)"
    using p IH by (auto simp: suffix_def intro!: IH suffix_order.trans [OF suffix_tl suffix])
  have q_hd: "q \<noteq> [] \<Longrightarrow> hd q \<noteq> Star_ch"
    unfolding q_def by (rule hd_dropWhile)
  have run: "star_run flags pattern (Star_ch # p @ [0]) = Some (
      if p = q then Inr (\<not> pathname flags, p @ [0], False)
      else if \<not> pathname flags then Inr (True, q @ [0], False)
      else if b \<and> (q = [] \<or> hd q = Slash_ch \<or> take 2 q = [Backslash_ch, Slash_ch])
        then Inr (True, q @ [0], q \<noteq> [] \<and> hd q = Slash_ch)
      else Inl WM_ABORT_MALFORMED)"
    using star_run_text [OF p, of pattern pre flags] pattern by (simp add: q_def)
  have toks: "tokens flags b (Star_ch # p) =
      (if \<not> pathname flags then DStar # tokens flags False q
       else if p = q then Star # tokens flags False q
       else if b \<and> (q = [] \<or> hd q = Slash_ch \<or> take 2 q = [Backslash_ch, Slash_ch]) then
         (if q \<noteq> [] \<and> hd q = Slash_ch then DStarDir # tokens flags True (tl q)
          else DStar # tokens flags False q)
       else [Bad])"
    by (simp add: q_def [symmetric] Let_def)
  consider (any) "\<not> pathname flags \<or>
        p \<noteq> q \<and> b \<and> (q = [] \<or> hd q \<noteq> Slash_ch \<and> take 2 q = [Backslash_ch, Slash_ch])"
    | (one) "pathname flags" "p = q" | (dirs) "pathname flags" "p \<noteq> q" "b" "q \<noteq> []" "hd q = Slash_ch"
    | (bad) "pathname flags" "p \<noteq> q"
        "\<not> (b \<and> (q = [] \<or> hd q = Slash_ch \<or> take 2 q = [Backslash_ch, Slash_ch]))"
    by blast
  then show ?thesis
  proof cases
    case any
    then show ?thesis
      by (intro decided_any [OF q(1,2) q_hd t, of pattern p b False]) (use run toks in auto)
  next
    case one
    then show ?thesis
      using decided_single [OF q(1,2) q_hd q(3) t, of pattern pre b] run toks pattern by simp
  next
    case dirs
    then obtain q2 where q2: "q = Slash_ch # q2"
      by (cases q) auto
    show ?thesis
      by (rule decided_dirs [of flags q2]) (use dirs q2 q t run toks in auto)
  next
    case bad
    then have "star_run flags pattern (Star_ch # p @ [0]) = Some (Inl WM_ABORT_MALFORMED)"
      using run by auto
    moreover obtain d u where d: "t @ [0] = d # u"
      by (cases t) auto
    ultimately have "dowild flags pattern ((Star_ch # p) @ [0]) (t @ [0]) = Some WM_ABORT_MALFORMED"
      by (simp add: d dowild_star)
    then show ?thesis
      by (rule decidedI) (rule answers_malformed, use bad in \<open>auto simp: toks simp del: tokens.simps\<close>)
  qed
qed

lemma dowild_decides: "0 \<notin> set p \<Longrightarrow> decides flags p"
proof (induction "length p" arbitrary: p rule: less_induct)
  case less
  have "decided flags (pre @ p @ [0]) (pre = [] \<or> last pre = Slash_ch) p t" if t: "0 \<notin> set t" for t pre
  proof (cases p)
    case Nil
    then show ?thesis
      by (cases t; unfold decided_def; subst dowild.simps) (use t in \<open>auto simp: answers_def wm_codes\<close>)
  next
    case (Cons c q)
    have IH: "decides flags r" if "suffix r q" for r
      using less that Cons by (auto simp: suffix_def)
    show ?thesis
    proof (cases "c = Star_ch")
      case True
      with decided_star [OF _ t IH] less.prems Cons show ?thesis
        by simp
    next
      case False
      with tokens_need [of p flags] Cons have nil: "\<not> matches (tokens flags b p) []" for b
        by simp
      show ?thesis
      proof (cases t)
        case Nil
        have "dowild flags pattern (p @ [0]) (t @ [0]) = Some WM_ABORT_ALL" for pattern
          using Nil Cons False less.prems by (subst dowild.simps) simp
        with nil Nil show ?thesis
          by (auto intro!: decidedI answers_end)
      next
        case t': (Cons d u)
        have "decided flags (pre @ (c # q) @ [0]) (pre = [] \<or> last pre = Slash_ch) (c # q) (d # u)"
          by (rule decided_byte [OF False _ _ _ _ IH]) (use less.prems t Cons t' in auto)
        then show ?thesis
          by (simp add: Cons t')
      qed
    qed
  qed
  then show ?case
    unfolding decides_def by blast
qed

text \<open>
  (C24) For every pattern and text without a NUL inside, \<open>wildmatch\<close> returns without reading past
  either terminator, its result is one of its five codes, and it is \<open>WM_MATCH\<close> exactly when the
  text matches the tokens of the pattern: the early aborts and the search for the next literal
  change the time it takes and never the answer.
\<close>

theorem wildmatch_decides:
  assumes "0 \<notin> set p" and "0 \<notin> set t"
  shows "\<exists>r. wildmatch (p @ [0]) (t @ [0]) flags = Some r
    \<and> r \<in> {WM_MATCH, WM_NOMATCH, WM_ABORT_MALFORMED, WM_ABORT_ALL, WM_ABORT_TO_STARSTAR}
    \<and> (r = WM_MATCH \<longleftrightarrow> matches (tokens flags True p) t)"
proof -
  obtain r where "dowild flags (p @ [0]) (p @ [0]) (t @ [0]) = Some r" "answers flags (tokens flags True p) t r"
    using decidesD [OF dowild_decides [OF assms(1)] assms(2), of "p @ [0]" "[]" True] by auto
  then show ?thesis
    by (auto simp: wildmatch_def answers_def)
qed

text \<open>The pattern \<open>**/a?\<close> on \<open>b/ab\<close>, and on \<open>b/a/\<close>.\<close>

lemma wildmatch_decides_witness:
  "wildmatch ([42, 42, 47, 97, 63] @ [0]) ([98, 47, 97, 98] @ [0]) WM_PATHNAME = Some WM_MATCH
   \<and> wildmatch ([42, 42, 47, 97, 63] @ [0]) ([98, 47, 97, 47] @ [0]) WM_PATHNAME \<noteq> Some WM_MATCH"
proof -
  have toks: "tokens WM_PATHNAME True [42, 42, 47, 97, 63] =
      [DStarDir, One (\<lambda>t. t = 97), One (\<lambda>t. t \<noteq> 47)]"
    by (simp add: WM_PATHNAME_def WM_CASEFOLD_def fold_case_def)
  have yes: "matches (tokens WM_PATHNAME True [42, 42, 47, 97, 63]) [98, 47, 97, 98]"
    and no: "\<not> matches (tokens WM_PATHNAME True [42, 42, 47, 97, 63]) [98, 47, 97, 47]"
    unfolding toks by (simp_all add: Ex_less_Suc2)
  show ?thesis
    using wildmatch_decides [of "[42, 42, 47, 97, 63]" "[98, 47, 97, 98]" WM_PATHNAME]
      wildmatch_decides [of "[42, 42, 47, 97, 63]" "[98, 47, 97, 47]" WM_PATHNAME]
    by (auto simp: yes no simp del: tokens.simps matches.simps)
qed

end
