(* ===== verification/Git_Sha1.thy ===== *)
theory Git_Sha1
  imports Git_Bswap
begin

text \<open>
  \<^verbatim>\<open>block-sha1/sha1.c\<close>: SHA-1 on blocks of 64 bytes, fed with data in pieces.  The eighty rounds
  keep the five working variables where they are and pass them to the macros in turning roles, and
  keep the last sixteen words of the message schedule in an array; the context buffers what does
  not fill a block.  The definition of FIPS 180-4 is given on its own.
\<close>

subsection \<open>The rounds\<close>

definition SHA_ROT :: "u32 \<Rightarrow> nat \<Rightarrow> nat \<Rightarrow> u32" where
  "SHA_ROT X l r = push_bit l X OR drop_bit r X"

definition SHA_ROL :: "u32 \<Rightarrow> nat \<Rightarrow> u32" where "SHA_ROL X n = SHA_ROT X n (32 - n)"
definition SHA_ROR :: "u32 \<Rightarrow> nat \<Rightarrow> u32" where "SHA_ROR X n = SHA_ROT X (32 - n) n"

text \<open>The working variables, and the array the schedule rolls over.\<close>

datatype reg = RA | RB | RC | RD | RE

type_synonym sha_state = "(reg \<Rightarrow> u32) \<times> u32 list"

definition W :: "u32 list \<Rightarrow> nat \<Rightarrow> u32" where "W array x = array ! (x mod 16)"
definition setW :: "nat \<Rightarrow> u32 \<Rightarrow> u32 list \<Rightarrow> u32 list" where "setW x val array = array[x mod 16 := val]"

definition SHA_SRC :: "byte list \<Rightarrow> nat \<Rightarrow> u32 list \<Rightarrow> u32 option" where
  "SHA_SRC block t array = get_be32 (drop (t * 4) block)"

definition SHA_MIX :: "nat \<Rightarrow> u32 list \<Rightarrow> u32 option" where
  "SHA_MIX t array = Some (SHA_ROL (W array (t + 13) XOR W array (t + 8) XOR W array (t + 2) XOR W array t) 1)"

definition SHA_ROUND ::
    "nat \<Rightarrow> (nat \<Rightarrow> u32 list \<Rightarrow> u32 option) \<Rightarrow> (u32 \<Rightarrow> u32 \<Rightarrow> u32 \<Rightarrow> u32) \<Rightarrow> u32 \<Rightarrow>
      reg \<Rightarrow> reg \<Rightarrow> reg \<Rightarrow> reg \<Rightarrow> reg \<Rightarrow> sha_state \<Rightarrow> sha_state option" where
  "SHA_ROUND t input fn const A B C D E s =
     (case s of (v, array) \<Rightarrow>
        (case input t array of
           None \<Rightarrow> None
         | Some TEMP \<Rightarrow>
             let array = setW t TEMP array;
                 v = v(E := v E + (TEMP + SHA_ROL (v A) 5 + fn (v B) (v C) (v D) + const));
                 v = v(B := SHA_ROR (v B) 2)
             in Some (v, array)))"

definition T_0_15 :: "byte list \<Rightarrow> nat \<Rightarrow> reg \<Rightarrow> reg \<Rightarrow> reg \<Rightarrow> reg \<Rightarrow> reg \<Rightarrow> sha_state \<Rightarrow> sha_state option" where
  "T_0_15 block t = SHA_ROUND t (SHA_SRC block) (\<lambda>B C D. ((C XOR D) AND B) XOR D) 0x5a827999"

definition T_16_19 :: "nat \<Rightarrow> reg \<Rightarrow> reg \<Rightarrow> reg \<Rightarrow> reg \<Rightarrow> reg \<Rightarrow> sha_state \<Rightarrow> sha_state option" where
  "T_16_19 t = SHA_ROUND t SHA_MIX (\<lambda>B C D. ((C XOR D) AND B) XOR D) 0x5a827999"

definition T_20_39 :: "nat \<Rightarrow> reg \<Rightarrow> reg \<Rightarrow> reg \<Rightarrow> reg \<Rightarrow> reg \<Rightarrow> sha_state \<Rightarrow> sha_state option" where
  "T_20_39 t = SHA_ROUND t SHA_MIX (\<lambda>B C D. B XOR C XOR D) 0x6ed9eba1"

definition T_40_59 :: "nat \<Rightarrow> reg \<Rightarrow> reg \<Rightarrow> reg \<Rightarrow> reg \<Rightarrow> reg \<Rightarrow> sha_state \<Rightarrow> sha_state option" where
  "T_40_59 t = SHA_ROUND t SHA_MIX (\<lambda>B C D. (B AND C) + (D AND (B XOR C))) 0x8f1bbcdc"

definition T_60_79 :: "nat \<Rightarrow> reg \<Rightarrow> reg \<Rightarrow> reg \<Rightarrow> reg \<Rightarrow> reg \<Rightarrow> sha_state \<Rightarrow> sha_state option" where
  "T_60_79 t = SHA_ROUND t SHA_MIX (\<lambda>B C D. B XOR C XOR D) 0xca62c1d6"

definition sha1_rounds :: "byte list \<Rightarrow> (sha_state \<Rightarrow> sha_state option) list" where
  "sha1_rounds block =
    [
     T_0_15 block 0 RA RB RC RD RE,
     T_0_15 block 1 RE RA RB RC RD,
     T_0_15 block 2 RD RE RA RB RC,
     T_0_15 block 3 RC RD RE RA RB,
     T_0_15 block 4 RB RC RD RE RA,
     T_0_15 block 5 RA RB RC RD RE,
     T_0_15 block 6 RE RA RB RC RD,
     T_0_15 block 7 RD RE RA RB RC,
     T_0_15 block 8 RC RD RE RA RB,
     T_0_15 block 9 RB RC RD RE RA,
     T_0_15 block 10 RA RB RC RD RE,
     T_0_15 block 11 RE RA RB RC RD,
     T_0_15 block 12 RD RE RA RB RC,
     T_0_15 block 13 RC RD RE RA RB,
     T_0_15 block 14 RB RC RD RE RA,
     T_0_15 block 15 RA RB RC RD RE,
     T_16_19 16 RE RA RB RC RD,
     T_16_19 17 RD RE RA RB RC,
     T_16_19 18 RC RD RE RA RB,
     T_16_19 19 RB RC RD RE RA,
     T_20_39 20 RA RB RC RD RE,
     T_20_39 21 RE RA RB RC RD,
     T_20_39 22 RD RE RA RB RC,
     T_20_39 23 RC RD RE RA RB,
     T_20_39 24 RB RC RD RE RA,
     T_20_39 25 RA RB RC RD RE,
     T_20_39 26 RE RA RB RC RD,
     T_20_39 27 RD RE RA RB RC,
     T_20_39 28 RC RD RE RA RB,
     T_20_39 29 RB RC RD RE RA,
     T_20_39 30 RA RB RC RD RE,
     T_20_39 31 RE RA RB RC RD,
     T_20_39 32 RD RE RA RB RC,
     T_20_39 33 RC RD RE RA RB,
     T_20_39 34 RB RC RD RE RA,
     T_20_39 35 RA RB RC RD RE,
     T_20_39 36 RE RA RB RC RD,
     T_20_39 37 RD RE RA RB RC,
     T_20_39 38 RC RD RE RA RB,
     T_20_39 39 RB RC RD RE RA,
     T_40_59 40 RA RB RC RD RE,
     T_40_59 41 RE RA RB RC RD,
     T_40_59 42 RD RE RA RB RC,
     T_40_59 43 RC RD RE RA RB,
     T_40_59 44 RB RC RD RE RA,
     T_40_59 45 RA RB RC RD RE,
     T_40_59 46 RE RA RB RC RD,
     T_40_59 47 RD RE RA RB RC,
     T_40_59 48 RC RD RE RA RB,
     T_40_59 49 RB RC RD RE RA,
     T_40_59 50 RA RB RC RD RE,
     T_40_59 51 RE RA RB RC RD,
     T_40_59 52 RD RE RA RB RC,
     T_40_59 53 RC RD RE RA RB,
     T_40_59 54 RB RC RD RE RA,
     T_40_59 55 RA RB RC RD RE,
     T_40_59 56 RE RA RB RC RD,
     T_40_59 57 RD RE RA RB RC,
     T_40_59 58 RC RD RE RA RB,
     T_40_59 59 RB RC RD RE RA,
     T_60_79 60 RA RB RC RD RE,
     T_60_79 61 RE RA RB RC RD,
     T_60_79 62 RD RE RA RB RC,
     T_60_79 63 RC RD RE RA RB,
     T_60_79 64 RB RC RD RE RA,
     T_60_79 65 RA RB RC RD RE,
     T_60_79 66 RE RA RB RC RD,
     T_60_79 67 RD RE RA RB RC,
     T_60_79 68 RC RD RE RA RB,
     T_60_79 69 RB RC RD RE RA,
     T_60_79 70 RA RB RC RD RE,
     T_60_79 71 RE RA RB RC RD,
     T_60_79 72 RD RE RA RB RC,
     T_60_79 73 RC RD RE RA RB,
     T_60_79 74 RB RC RD RE RA,
     T_60_79 75 RA RB RC RD RE,
     T_60_79 76 RE RA RB RC RD,
     T_60_79 77 RD RE RA RB RC,
     T_60_79 78 RC RD RE RA RB,
     T_60_79 79 RB RC RD RE RA
    ]"

subsection \<open>The context\<close>

record blk_SHA_CTX =
  ctx_size :: u64
  ctx_H :: "u32 list"
  ctx_W :: "byte list"

primrec run_rounds :: "(sha_state \<Rightarrow> sha_state option) list \<Rightarrow> sha_state \<Rightarrow> sha_state option" where
  "run_rounds [] s = Some s"
| "run_rounds (f # fs) s = (case f s of None \<Rightarrow> None | Some s \<Rightarrow> run_rounds fs s)"

text \<open>The array is not initialised: \<open>array\<close> is what it holds.\<close>

definition blk_SHA1_Block :: "u32 list \<Rightarrow> blk_SHA_CTX \<Rightarrow> byte list \<Rightarrow> blk_SHA_CTX option" where
  "blk_SHA1_Block array ctx block =
     (let H = ctx_H ctx;
          v = (\<lambda>r. case r of RA \<Rightarrow> H ! 0 | RB \<Rightarrow> H ! 1 | RC \<Rightarrow> H ! 2 | RD \<Rightarrow> H ! 3 | RE \<Rightarrow> H ! 4)
      in case run_rounds (sha1_rounds block) (v, array) of
           None \<Rightarrow> None
         | Some (v, _) \<Rightarrow>
             Some (ctx\<lparr>ctx_H := [H ! 0 + v RA, H ! 1 + v RB, H ! 2 + v RC, H ! 3 + v RD, H ! 4 + v RE]\<rparr>))"

definition blk_SHA1_Init :: "blk_SHA_CTX \<Rightarrow> blk_SHA_CTX" where
  "blk_SHA1_Init ctx =
     ctx\<lparr>ctx_size := 0, ctx_H := [0x67452301, 0xefcdab89, 0x98badcfe, 0x10325476, 0xc3d2e1f0]\<rparr>"

text \<open>\<open>while (len >= 64)\<close>: the blocks of the data itself, and what is left of it.\<close>

function sha1_data_blocks :: "u32 list \<Rightarrow> blk_SHA_CTX \<Rightarrow> byte list \<Rightarrow> (blk_SHA_CTX \<times> byte list) option" where
  "sha1_data_blocks array ctx data =
     (if 64 \<le> length data then
        (case blk_SHA1_Block array ctx data of
           None \<Rightarrow> None
         | Some ctx \<Rightarrow> sha1_data_blocks array ctx (drop 64 data))
      else Some (ctx, data))"
  by pat_completeness auto

termination
  by (relation "measure (\<lambda>(_, _, data). length data)") auto

definition memcpy_at :: "nat \<Rightarrow> byte list \<Rightarrow> byte list \<Rightarrow> byte list" where
  "memcpy_at k src dst = take k dst @ src @ drop (k + length src) dst"

text \<open>The rest of an update, when the context buffers nothing.\<close>

definition sha1_update_rest :: "u32 list \<Rightarrow> blk_SHA_CTX \<Rightarrow> byte list \<Rightarrow> blk_SHA_CTX option" where
  "sha1_update_rest array ctx data =
     (case sha1_data_blocks array ctx data of
        None \<Rightarrow> None
      | Some (ctx, data) \<Rightarrow>
          Some (if data \<noteq> [] then ctx\<lparr>ctx_W := memcpy_at 0 data (ctx_W ctx)\<rparr> else ctx))"

definition blk_SHA1_Update :: "u32 list \<Rightarrow> blk_SHA_CTX \<Rightarrow> byte list \<Rightarrow> blk_SHA_CTX option" where
  "blk_SHA1_Update array ctx data =
     (let len = length data;
          lenW = unat (ctx_size ctx AND 63);
          ctx = ctx\<lparr>ctx_size := ctx_size ctx + of_nat len\<rparr>
      in if lenW \<noteq> 0 then
           let left = min len (64 - lenW);
               ctx = ctx\<lparr>ctx_W := memcpy_at lenW (take left data) (ctx_W ctx)\<rparr>;
               lenW = (lenW + left) mod 64;
               data = drop left data
           in if lenW \<noteq> 0 then Some ctx
              else (case blk_SHA1_Block array ctx (ctx_W ctx) of
                      None \<Rightarrow> None
                    | Some ctx \<Rightarrow> sha1_update_rest array ctx data)
         else sha1_update_rest array ctx data)"

definition sha1_pad :: "byte list" where "sha1_pad = 0x80 # replicate 63 0"

text \<open>\<open>padlen\<close> holds two integers, swapped on a little-endian machine.\<close>

definition blk_SHA1_Final :: "u32 list \<Rightarrow> blk_SHA_CTX \<Rightarrow> (byte list \<times> blk_SHA_CTX) option" where
  "blk_SHA1_Final array ctx =
     (let padlen0 = default_swab32 (ucast (drop_bit 29 (ctx_size ctx)));
          padlen1 = default_swab32 (ucast (push_bit 3 (ctx_size ctx)));
          i = uint (ctx_size ctx AND 63);
          n = 1 + nat ((55 - i) AND 63)
      in case blk_SHA1_Update array ctx (take n sha1_pad) of
           None \<Rightarrow> None
         | Some ctx \<Rightarrow>
             (case blk_SHA1_Update array ctx (le_bytes 4 padlen0 @ le_bytes 4 padlen1) of
                None \<Rightarrow> None
              | Some ctx \<Rightarrow> Some (concat (map (\<lambda>i. put_be32 (ctx_H ctx ! i)) [0..<5]), ctx)))"

subsection \<open>SHA-1, as defined by FIPS 180-4\<close>

type_synonym sha_vars = "u32 \<times> u32 \<times> u32 \<times> u32 \<times> u32"

definition sha1_f :: "nat \<Rightarrow> u32 \<Rightarrow> u32 \<Rightarrow> u32 \<Rightarrow> u32" where
  "sha1_f t x y z =
     (if t < 20 then (x AND y) XOR (NOT x AND z)
      else if t < 40 then x XOR y XOR z
      else if t < 60 then (x AND y) XOR (x AND z) XOR (y AND z)
      else x XOR y XOR z)"

definition sha1_K :: "nat \<Rightarrow> u32" where
  "sha1_K t =
     (if t < 20 then 0x5a827999 else if t < 40 then 0x6ed9eba1 else if t < 60 then 0x8f1bbcdc else 0xca62c1d6)"

fun sha1_W :: "u32 list \<Rightarrow> nat \<Rightarrow> u32" where
  "sha1_W M t =
     (if t < 16 then M ! t
      else word_rotl 1 (sha1_W M (t - 3) XOR sha1_W M (t - 8) XOR sha1_W M (t - 14) XOR sha1_W M (t - 16)))"

declare sha1_W.simps [simp del]

definition sha1_step :: "u32 list \<Rightarrow> nat \<Rightarrow> sha_vars \<Rightarrow> sha_vars" where
  "sha1_step M t s =
     (case s of (a, b, c, d, e) \<Rightarrow>
        (word_rotl 5 a + sha1_f t b c d + e + sha1_K t + sha1_W M t, a, word_rotl 30 b, c, d))"

definition sha1_add :: "sha_vars \<Rightarrow> sha_vars \<Rightarrow> sha_vars" where
  "sha1_add s s' =
     (case (s, s') of ((a, b, c, d, e), (a', b', c', d', e')) \<Rightarrow> (a + a', b + b', c + c', d + d', e + e'))"

definition be_words :: "byte list \<Rightarrow> u32 list" where
  "be_words block = map (\<lambda>t. the (get_be32 (drop (t * 4) block))) [0..<16]"

definition sha1_compress :: "sha_vars \<Rightarrow> byte list \<Rightarrow> sha_vars" where
  "sha1_compress h block = sha1_add h (fold (sha1_step (be_words block)) [0..<80] h)"

fun sha1_blocks :: "sha_vars \<Rightarrow> byte list \<Rightarrow> sha_vars" where
  "sha1_blocks h m = (if length m < 64 then h else sha1_blocks (sha1_compress h (take 64 m)) (drop 64 m))"

declare sha1_blocks.simps [simp del]

definition sha1_padding :: "nat \<Rightarrow> byte list" where
  "sha1_padding len =
     0x80 # replicate ((119 - len mod 64) mod 64) 0
     @ rev (le_bytes 8 (of_nat (8 * len) :: u64))"

definition sha1 :: "byte list \<Rightarrow> byte list" where
  "sha1 m =
     (case sha1_blocks (0x67452301, 0xefcdab89, 0x98badcfe, 0x10325476, 0xc3d2e1f0)
             (m @ sha1_padding (length m)) of
        (a, b, c, d, e) \<Rightarrow> put_be32 a @ put_be32 b @ put_be32 c @ put_be32 d @ put_be32 e)"

subsection \<open>The rounds compute the compression function\<close>

lemma SHA_ROL_rotl:
  assumes "0 < n" and "n < 32"
  shows "SHA_ROL x n = word_rotl n x"
proof (rule bit_word_eqI)
  fix k assume k: "k < LENGTH(32)"
  have "(k + (32 - n)) mod 32 = (if k < n then k + (32 - n) else k - n)"
    using k assms by (auto simp: mod_if)
  then have rotl: "bit (word_rotl n x) k \<longleftrightarrow> bit x (if k < n then k + (32 - n) else k - n)"
    using k assms by (simp add: bit_word_rotl_iff)
  have "\<not> bit x (k + (32 - n))" if "n \<le> k"
    using that assms by (auto dest: bit_imp_le_length)
  then have "bit (SHA_ROL x n) k \<longleftrightarrow> bit x (if k < n then k + (32 - n) else k - n)"
    using k by (auto simp: SHA_ROL_def SHA_ROT_def bit_or_iff bit_push_bit_iff bit_drop_bit_eq
        possible_bit_def add.commute)
  with rotl show "bit (SHA_ROL x n) k = bit (word_rotl n x) k"
    by simp
qed

lemma SHA_ROR_rotl: "0 < n \<Longrightarrow> n < 32 \<Longrightarrow> SHA_ROR x n = word_rotl (32 - n) x"
  using SHA_ROL_rotl [of "32 - n" x] by (simp add: SHA_ROR_def SHA_ROL_def)

lemma ch_eq: "((c XOR d) AND b) XOR d = (b AND c) XOR (NOT b AND d)" for b c d :: u32
  by (rule bit_word_eqI) (auto simp: bit_and_iff bit_xor_iff bit_not_iff)

lemma maj_eq: "(b AND c) + (d AND (b XOR c)) = (b AND c) XOR (b AND d) XOR (c AND d)" for b c d :: u32
proof -
  have "(b AND c) + (d AND (b XOR c)) = (b AND c) OR (d AND (b XOR c))"
    by (rule disjunctive_add_eq_or) (auto intro!: bit_word_eqI simp: bit_and_iff bit_xor_iff)
  also have "\<dots> = (b AND c) XOR (b AND d) XOR (c AND d)"
    by (rule bit_word_eqI) (auto simp: bit_and_iff bit_xor_iff bit_or_iff)
  finally show ?thesis .
qed

text \<open>The roles of the variables in round \<open>t\<close>, and the macro called.\<close>

definition roles :: "nat \<Rightarrow> reg \<times> reg \<times> reg \<times> reg \<times> reg" where
  "roles t =
     (if t mod 5 = 0 then (RA, RB, RC, RD, RE) else if t mod 5 = 1 then (RE, RA, RB, RC, RD)
      else if t mod 5 = 2 then (RD, RE, RA, RB, RC) else if t mod 5 = 3 then (RC, RD, RE, RA, RB)
      else (RB, RC, RD, RE, RA))"

definition round_call :: "byte list \<Rightarrow> nat \<Rightarrow> sha_state \<Rightarrow> sha_state option" where
  "round_call block t =
     (case roles t of (a, b, c, d, e) \<Rightarrow>
        (if t < 16 then T_0_15 block else if t < 20 then T_16_19 else if t < 40 then T_20_39
         else if t < 60 then T_40_59 else T_60_79) t a b c d e)"

lemma upt_0_1_2: "2 \<le> n \<Longrightarrow> [0..<n] = 0 # 1 # [2..<n]"
  by (simp add: upt_conv_Cons numeral_2_eq_2)

lemma sha1_rounds_calls: "sha1_rounds block = map (round_call block) [0..<80]"
  by (simp add: upt_0_1_2 upt_rec_numeral sha1_rounds_def round_call_def roles_def)

text \<open>The array holds the last sixteen words of the schedule.\<close>

definition sha_window :: "u32 list \<Rightarrow> nat \<Rightarrow> u32 list \<Rightarrow> bool" where
  "sha_window M t array \<longleftrightarrow>
     length array = 16 \<and> (\<forall>j < t. t \<le> j + 16 \<longrightarrow> array ! (j mod 16) = sha1_W M j)"

lemma sha_window_setW:
  assumes "sha_window M t array"
  shows "sha_window M (Suc t) (setW t (sha1_W M t) array)"
proof -
  have "setW t (sha1_W M t) array ! (j mod 16) = sha1_W M j" if "j < Suc t" "Suc t \<le> j + 16" for j
  proof (cases "j = t")
    case False
    with that have "0 < t - j" "t - j < 16"
      by auto
    then have "\<not> 16 dvd t - j"
      by (auto dest: dvd_imp_le)
    with that have "j mod 16 \<noteq> t mod 16"
      using mod_eq_dvd_iff_nat [of j t 16] by simp
    with that False assms show ?thesis
      by (simp add: sha_window_def setW_def)
  qed (use assms in \<open>simp add: sha_window_def setW_def\<close>)
  with assms show ?thesis
    by (simp add: sha_window_def setW_def)
qed

lemma sha_window_mix:
  assumes "sha_window M t array" and "16 \<le> t"
  shows "SHA_MIX t array = Some (sha1_W M t)"
proof -
  have W: "W array (t + k) = sha1_W M (t + k - 16)" if "k < 16" for k
  proof -
    have "(t + k) mod 16 = (t + k - 16) mod 16"
      using assms(2) by (simp add: le_mod_geq)
    with assms that show ?thesis
      by (simp add: W_def sha_window_def)
  qed
  have "t + 13 - 16 = t - 3" "t + 8 - 16 = t - 8" "t + 2 - 16 = t - 14"
    using assms(2) by simp_all
  with W [of 13] W [of 8] W [of 2] W [of 0] have "SHA_MIX t array =
      Some (word_rotl 1 (sha1_W M (t - 3) XOR sha1_W M (t - 8) XOR sha1_W M (t - 14) XOR sha1_W M (t - 16)))"
    by (simp add: SHA_MIX_def SHA_ROL_rotl)
  with assms(2) show ?thesis
    by (subst sha1_W.simps) simp
qed

definition sha_vars_of :: "reg \<times> reg \<times> reg \<times> reg \<times> reg \<Rightarrow> (reg \<Rightarrow> u32) \<Rightarrow> sha_vars" where
  "sha_vars_of r v = (case r of (a, b, c, d, e) \<Rightarrow> (v a, v b, v c, v d, v e))"

lemma SHA_ROUND_step:
  assumes "distinct [a, b, c, d, e]" and "input t array = Some (sha1_W M t)"
    and "fn (v b) (v c) (v d) = sha1_f t (v b) (v c) (v d)" and "const = sha1_K t"
    and "sha_window M t array"
  shows "\<exists>v' array'. SHA_ROUND t input fn const a b c d e (v, array) = Some (v', array')
    \<and> sha_vars_of (e, a, b, c, d) v' = sha1_step M t (sha_vars_of (a, b, c, d, e) v)
    \<and> sha_window M (Suc t) array'"
proof -
  have sum: "v e + (sha1_W M t + r + f + k) = r + f + v e + k + sha1_W M t" for r f k
    by simp
  have "c \<noteq> b" "d \<noteq> b" "e \<noteq> b" "e \<noteq> a" "e \<noteq> c" "e \<noteq> d" "a \<noteq> b" "a \<noteq> e"
    using assms(1) by auto
  then show ?thesis
    using assms(2) sha_window_setW [OF assms(5)]
    by (simp add: SHA_ROUND_def Let_def sha_vars_of_def sha1_step_def SHA_ROL_rotl SHA_ROR_rotl
        sum assms(3,4))
qed

lemma roles_Suc: "roles t = (a, b, c, d, e) \<Longrightarrow> roles (Suc t) = (e, a, b, c, d) \<and> distinct [a, b, c, d, e]"
proof -
  assume r: "roles t = (a, b, c, d, e)"
  have next_: "Suc t mod 5 = (if t mod 5 = 4 then 0 else Suc (t mod 5))"
    by (simp add: mod_Suc)
  have "t mod 5 < 5"
    by simp
  then consider "t mod 5 = 0" | "t mod 5 = 1" | "t mod 5 = 2" | "t mod 5 = 3" | "t mod 5 = 4"
    by linarith
  then show "roles (Suc t) = (e, a, b, c, d) \<and> distinct [a, b, c, d, e]"
    using r next_ by cases (auto simp: roles_def)
qed

lemma round_call_step:
  assumes "t < 80" and "sha_window M t array" and "M = be_words block" and "64 \<le> length block"
  shows "\<exists>v' array'. round_call block t (v, array) = Some (v', array')
    \<and> sha_vars_of (roles (Suc t)) v' = sha1_step M t (sha_vars_of (roles t) v)
    \<and> sha_window M (Suc t) array'"
proof -
  obtain a b c d e where r: "roles t = (a, b, c, d, e)"
    by (metis prod_cases5)
  note r' = roles_Suc [OF r]
  have src: "SHA_SRC block t array = Some (sha1_W M t)" if "t < 16"
  proof -
    have "4 \<le> length (drop (t * 4) block)"
      using that assms(4) by simp
    then obtain x where "get_be32 (drop (t * 4) block) = Some x"
      by (cases "drop (t * 4) block" rule: get_be32.cases) auto
    with that show ?thesis
      by (subst sha1_W.simps) (simp add: SHA_SRC_def assms(3) be_words_def)
  qed
  note step = SHA_ROUND_step [of a b c d e _ t array M, OF conjunct2 [OF r'] _ _ _ assms(2)]
  consider "t < 16" | "16 \<le> t" "t < 20" | "20 \<le> t" "t < 40" | "40 \<le> t" "t < 60" | "60 \<le> t"
    by linarith
  then show ?thesis
  proof cases
    case 1
    with step [of "SHA_SRC block", OF src [OF 1]] show ?thesis
      by (simp add: round_call_def r r' T_0_15_def sha1_f_def sha1_K_def ch_eq)
  next
    case 2
    with step [of SHA_MIX, OF sha_window_mix [OF assms(2)]] show ?thesis
      by (simp add: round_call_def r r' T_16_19_def sha1_f_def sha1_K_def ch_eq)
  next
    case 3
    with step [of SHA_MIX, OF sha_window_mix [OF assms(2)]] show ?thesis
      by (simp add: round_call_def r r' T_20_39_def sha1_f_def sha1_K_def)
  next
    case 4
    with step [of SHA_MIX, OF sha_window_mix [OF assms(2)]] show ?thesis
      by (simp add: round_call_def r r' T_40_59_def sha1_f_def sha1_K_def maj_eq)
  next
    case 5
    with step [of SHA_MIX, OF sha_window_mix [OF assms(2)]] show ?thesis
      by (simp add: round_call_def r r' T_60_79_def sha1_f_def sha1_K_def)
  qed
qed

lemma run_rounds_correct:
  assumes "t \<le> 80" and "sha_window M t array" and "M = be_words block" and "64 \<le> length block"
  shows "\<exists>v' array'. run_rounds (map (round_call block) [t..<80]) (v, array) = Some (v', array')
    \<and> sha_vars_of (roles 80) v' = fold (sha1_step M) [t..<80] (sha_vars_of (roles t) v)"
  using assms(1,2)
proof (induction "80 - t" arbitrary: t v array)
  case (Suc n)
  then have "t < 80" and range: "[t..<80] = t # [Suc t..<80]"
    by (simp_all add: upt_conv_Cons)
  obtain v1 array1 where step: "round_call block t (v, array) = Some (v1, array1)"
      "sha_vars_of (roles (Suc t)) v1 = sha1_step M t (sha_vars_of (roles t) v)"
      "sha_window M (Suc t) array1"
    using round_call_step [OF \<open>t < 80\<close> Suc.prems(2) assms(3,4)] by blast
  from Suc.hyps(1) [of "Suc t" array1 v1] Suc.hyps(2) \<open>t < 80\<close> step show ?case
    unfolding range by simp
qed simp

definition vars_of_list :: "u32 list \<Rightarrow> sha_vars" where
  "vars_of_list H = (H ! 0, H ! 1, H ! 2, H ! 3, H ! 4)"

lemma blk_SHA1_Block_compress:
  assumes "length array = 16" and "64 \<le> length block"
  shows "\<exists>H. blk_SHA1_Block array ctx block = Some (ctx\<lparr>ctx_H := H\<rparr>) \<and> length H = 5
    \<and> vars_of_list H = sha1_compress (vars_of_list (ctx_H ctx)) block"
proof -
  have "sha_window (be_words block) 0 array"
    using assms(1) by (simp add: sha_window_def)
  define v where "v = (\<lambda>r. case r of RA \<Rightarrow> ctx_H ctx ! 0 | RB \<Rightarrow> ctx_H ctx ! 1 | RC \<Rightarrow> ctx_H ctx ! 2
      | RD \<Rightarrow> ctx_H ctx ! 3 | RE \<Rightarrow> ctx_H ctx ! 4)"
  obtain v' array' where run: "run_rounds (map (round_call block) [0..<80]) (v, array) = Some (v', array')"
      "sha_vars_of (roles 80) v' = fold (sha1_step (be_words block)) [0..<80] (sha_vars_of (roles 0) v)"
    using run_rounds_correct [OF _ \<open>sha_window (be_words block) 0 array\<close> refl assms(2), of v] by auto
  have "roles 0 = (RA, RB, RC, RD, RE)" "roles 80 = (RA, RB, RC, RD, RE)"
    by (simp_all add: roles_def)
  moreover have "sha_vars_of (RA, RB, RC, RD, RE) v = vars_of_list (ctx_H ctx)"
    by (simp add: sha_vars_of_def v_def vars_of_list_def)
  ultimately have "sha1_compress (vars_of_list (ctx_H ctx)) block =
      sha1_add (vars_of_list (ctx_H ctx)) (sha_vars_of (RA, RB, RC, RD, RE) v')"
    using run(2) by (simp add: sha1_compress_def)
  with run(1) show ?thesis
    unfolding blk_SHA1_Block_def Let_def sha1_rounds_calls v_def [symmetric]
    by (simp add: sha_vars_of_def vars_of_list_def sha1_add_def) (rule exI, rule conjI, rule refl, simp)
qed

subsection \<open>Feeding the data in pieces\<close>

declare sha1_data_blocks.simps [simp del]

lemma and_63_take_bit: "(v :: u64) AND 63 = take_bit 6 v"
proof -
  have "(63 :: u64) = 2 ^ 6 - 1"
    by simp
  then show ?thesis
    by (simp only: mask_eq_exp_minus_1 [symmetric] take_bit_eq_mask)
qed

lemma length_mod_64: "unat ((of_nat n :: u64) AND 63) = n mod 64"
  by (simp add: and_63_take_bit unsigned_take_bit_eq unsigned_of_nat) (simp add: take_bit_eq_mod)

lemma sha1_blocks_short: "length m < 64 \<Longrightarrow> sha1_blocks h m = h"
  by (subst sha1_blocks.simps) simp

lemma sha1_blocks_long:
  "64 \<le> length m \<Longrightarrow> sha1_blocks h m = sha1_blocks (sha1_compress h (take 64 m)) (drop 64 m)"
  by (subst sha1_blocks.simps) simp

lemma sha1_blocks_append: "64 dvd length m \<Longrightarrow> sha1_blocks h (m @ d) = sha1_blocks (sha1_blocks h m) d"
proof (induction h m rule: sha1_blocks.induct)
  case (1 h m)
  show ?case
  proof (cases "length m < 64")
    case True
    with 1(2) have "m = []"
      by (auto dest: dvd_imp_le)
    then show ?thesis
      by (simp add: sha1_blocks_short)
  next
    case False
    then have "64 dvd length (drop 64 m)"
      using 1(2) by simp
    with 1(1) False show ?thesis
      by (simp add: sha1_blocks_long [of m] sha1_blocks_long [of "m @ d"])
  qed
qed

lemma be_words_take: "64 \<le> length data \<Longrightarrow> be_words (take 64 data) = be_words data"
proof -
  have "get_be32 (drop (t * 4) (take 64 data)) = get_be32 (drop (t * 4) data)" if "t < 16" "64 \<le> length data" for t
  proof -
    have "4 \<le> length (drop (t * 4) data)" "4 \<le> 64 - t * 4"
      using that by auto
    then show ?thesis
      by (cases "drop (t * 4) data" rule: get_be32.cases) (auto simp: drop_take take_Cons' numeral_eq_Suc)
  qed
  then show "64 \<le> length data \<Longrightarrow> be_words (take 64 data) = be_words data"
    by (simp add: be_words_def)
qed

lemma sha1_data_blocks_correct:
  assumes "length array = 16" and "length (ctx_H ctx) = 5"
  shows "\<exists>H. sha1_data_blocks array ctx data = Some (ctx\<lparr>ctx_H := H\<rparr>, drop (64 * (length data div 64)) data)
    \<and> length H = 5 \<and> vars_of_list H = sha1_blocks (vars_of_list (ctx_H ctx)) data"
  using assms(2)
proof (induction "length data" arbitrary: ctx data rule: less_induct)
  case less
  show ?case
  proof (cases "64 \<le> length data")
    case True
    then obtain H where H: "blk_SHA1_Block array ctx data = Some (ctx\<lparr>ctx_H := H\<rparr>)" "length H = 5"
        "vars_of_list H = sha1_compress (vars_of_list (ctx_H ctx)) data"
      using blk_SHA1_Block_compress [OF assms(1)] by blast
    obtain H' where "sha1_data_blocks array (ctx\<lparr>ctx_H := H\<rparr>) (drop 64 data) =
          Some (ctx\<lparr>ctx_H := H'\<rparr>, drop (64 * (length (drop 64 data) div 64)) (drop 64 data))"
        "length H' = 5" "vars_of_list H' = sha1_blocks (vars_of_list H) (drop 64 data)"
      using less.hyps [of "drop 64 data" "ctx\<lparr>ctx_H := H\<rparr>"] True H(2) by fastforce
    then show ?thesis
      using True be_words_take [OF True] H
      by (subst sha1_data_blocks.simps, intro exI [of _ H'])
        (simp add: sha1_compress_def le_div_geq sha1_blocks_long [of data] add.commute)
  next
    case False
    with less.prems show ?thesis
      by (subst sha1_data_blocks.simps) (simp add: sha1_blocks_short exI [of _ "ctx_H ctx"])
  qed
qed

text \<open>A context that has been fed \<open>m\<close>: the buffer starts with what does not fill a block.\<close>

definition sha1_IV :: sha_vars where
  "sha1_IV = (0x67452301, 0xefcdab89, 0x98badcfe, 0x10325476, 0xc3d2e1f0)"

definition sha_buffered :: "blk_SHA_CTX \<Rightarrow> byte list \<Rightarrow> bool" where
  "sha_buffered ctx m \<longleftrightarrow>
     length (ctx_H ctx) = 5 \<and> vars_of_list (ctx_H ctx) = sha1_blocks sha1_IV m
     \<and> length (ctx_W ctx) = 64 \<and> take (length m mod 64) (ctx_W ctx) = drop (64 * (length m div 64)) m"

lemma sha1_update_rest_correct:
  assumes "length array = 16" and "64 dvd length m" and "sha_buffered ctx m"
  shows "\<exists>ctx'. sha1_update_rest array ctx data = Some ctx' \<and> sha_buffered ctx' (m @ data)
    \<and> ctx_size ctx' = ctx_size ctx"
proof -
  obtain H where H: "sha1_data_blocks array ctx data =
        Some (ctx\<lparr>ctx_H := H\<rparr>, drop (64 * (length data div 64)) data)"
      "length H = 5" "vars_of_list H = sha1_blocks (vars_of_list (ctx_H ctx)) data"
    using sha1_data_blocks_correct [OF assms(1), of ctx data] assms(3) by (auto simp: sha_buffered_def)
  obtain k where k: "length m = 64 * k"
    using assms(2) by (auto elim: dvdE)
  define rest where "rest = drop (64 * (length data div 64)) data"
  have rest: "length rest = length data mod 64"
    by (simp add: rest_def modulo_nat_def)
  have tail: "drop (64 * (length (m @ data) div 64)) (m @ data) = rest"
    by (simp add: k rest_def add.commute [of "64 * k"])
  have mod: "length (m @ data) mod 64 = length rest"
    by (simp add: k rest)
  show ?thesis
    using H assms(2,3) rest unfolding sha1_update_rest_def sha_buffered_def tail mod
    by (auto simp: rest_def [symmetric] sha1_blocks_append memcpy_at_def less_imp_le)
qed

text \<open>One update appends its data to what the context has been fed.\<close>

lemma blk_SHA1_Update_correct:
  assumes "length array = 16" and "sha_buffered ctx m" and "ctx_size ctx = of_nat (length m)"
  shows "\<exists>ctx'. blk_SHA1_Update array ctx data = Some ctx' \<and> sha_buffered ctx' (m @ data)
    \<and> ctx_size ctx' = of_nat (length (m @ data))"
proof -
  define c where "c = ctx\<lparr>ctx_size := ctx_size ctx + of_nat (length data)\<rparr>"
  have c: "ctx_size c = of_nat (length (m @ data))" "sha_buffered c m"
    using assms(2,3) by (simp_all add: c_def sha_buffered_def)
  define r where "r = length m mod 64"
  have r: "unat (ctx_size ctx AND 63) = r" "r < 64"
    by (simp_all add: assms(3) length_mod_64 r_def)
  note update = blk_SHA1_Update_def [of array ctx data, unfolded Let_def r(1), folded c_def]
  show ?thesis
  proof (cases "r = 0")
    case True
    then show ?thesis
      using sha1_update_rest_correct [OF assms(1) _ c(2), of data] c(1)
      by (auto simp: update r_def dvd_eq_mod_eq_0)
  next
    case False
    define tl_m where "tl_m = drop (64 * (length m div 64)) m"
    have tl_m: "length tl_m = r" "take r (ctx_W c) = tl_m"
      using c(2) by (simp_all add: tl_m_def r_def sha_buffered_def minus_mult_div_eq_mod)
    define hd_m where "hd_m = take (64 * (length m div 64)) m"
    have m: "m = hd_m @ tl_m"
      by (simp add: hd_m_def tl_m_def)
    have head: "length hd_m = 64 * (length m div 64)"
      by (simp add: hd_m_def)
    have blocks: "sha1_blocks sha1_IV (m @ d) = sha1_blocks (sha1_blocks sha1_IV hd_m) (tl_m @ d)" for d
      using sha1_blocks_append [of hd_m sha1_IV "tl_m @ d"] head
      by (metis append_assoc dvd_triv_left m)
    define left where "left = min (length data) (64 - r)"
    define W' where "W' = memcpy_at r (take left data) (ctx_W c)"
    have len: "length (ctx_W c) = 64" "left \<le> length data" "r + left \<le> 64"
      using c(2) r(2) by (auto simp: sha_buffered_def left_def)
    have W': "length W' = 64" "take (r + left) W' = tl_m @ take left data"
      using len tl_m r(2) by (simp_all add: W'_def memcpy_at_def)
    define c' where "c' = c\<lparr>ctx_W := W'\<rparr>"
    show ?thesis
    proof (cases "r + left < 64")
      case True
      then have "left = length data"
        by (simp add: left_def)
      have "length (m @ data) = 64 * (length m div 64) + (r + left)"
        unfolding r_def \<open>left = length data\<close> by simp
      then have lens: "length (m @ data) mod 64 = r + left" "length (m @ data) div 64 = length m div 64"
        using True by simp_all
      have drop_m: "drop (64 * (length m div 64)) (m @ data) = tl_m @ data"
        by (simp add: tl_m_def)
      have "(r + left) mod 64 \<noteq> 0"
        using True False by simp
      with \<open>left = length data\<close> have "blk_SHA1_Update array ctx data = Some c'"
        using False by (simp add: update c'_def W'_def left_def Let_def)
      moreover have "sha_buffered c' (m @ data)"
        unfolding sha_buffered_def
      proof (intro conjI)
        show "vars_of_list (ctx_H c') = sha1_blocks sha1_IV (m @ data)"
          using c(2) blocks [of data] blocks [of "[]"] True \<open>left = length data\<close> tl_m(1)
          by (simp add: c'_def sha_buffered_def sha1_blocks_short)
        show "take (length (m @ data) mod 64) (ctx_W c') = drop (64 * (length (m @ data) div 64)) (m @ data)"
          unfolding lens(1,2) drop_m using W'(2) \<open>left = length data\<close> by (simp add: c'_def)
      qed (use c(2) W'(1) in \<open>simp_all add: c'_def sha_buffered_def\<close>)
      ultimately show ?thesis
        using c(1) by (simp add: c'_def)
    next
      case full: False
      then have left: "r + left = 64"
        using len by simp
      then have W'_eq: "W' = tl_m @ take left data"
        using W' by simp
      obtain H where H: "blk_SHA1_Block array c' W' = Some (c'\<lparr>ctx_H := H\<rparr>)" "length H = 5"
          "vars_of_list H = sha1_compress (vars_of_list (ctx_H c')) W'"
        using blk_SHA1_Block_compress [OF assms(1), of W' c'] W'(1) by auto
      have "length (m @ take left data) = 64 * (length m div 64) + 64"
        using len(2) left mult_div_mod_eq [of 64 "length m"] unfolding r_def length_append length_take
        by linarith
      then have dvd: "64 dvd length (m @ take left data)"
        by simp
      have "sha1_blocks sha1_IV (m @ take left data) = sha1_compress (sha1_blocks sha1_IV hd_m) W'"
        unfolding blocks W'_eq [symmetric] using W'(1) by (simp add: sha1_blocks_long sha1_blocks_short)
      moreover have "sha1_blocks sha1_IV hd_m = sha1_blocks sha1_IV m"
        using blocks [of "[]"] tl_m(1) r(2) by (simp add: sha1_blocks_short)
      ultimately have "sha_buffered (c'\<lparr>ctx_H := H\<rparr>) (m @ take left data)"
        using H(2,3) c(2) W'(1) dvd unfolding sha_buffered_def
        by (auto simp: c'_def dvd_eq_mod_eq_0)
      from sha1_update_rest_correct [OF assms(1) dvd this, of "drop left data"]
      obtain ctx' where ctx': "sha1_update_rest array (c'\<lparr>ctx_H := H\<rparr>) (drop left data) = Some ctx'"
          "sha_buffered ctx' (m @ data)" "ctx_size ctx' = ctx_size c"
        by (auto simp: c'_def)
      have "blk_SHA1_Update array ctx data = Some ctx'"
        using False H(1) ctx'(1) left by (simp add: update c'_def W'_def left_def Let_def)
      with ctx'(2,3) c(1) show ?thesis
        by simp
    qed
  qed
qed

text \<open>The padding of the code, and that of the standard.\<close>

lemma pad_length: "nat ((55 - int (n mod 64)) AND 63) = (119 - n mod 64) mod 64"
proof -
  have "(63 :: int) = mask 6"
    by (simp add: mask_eq_exp_minus_1)
  then have "(55 - int (n mod 64)) AND 63 = (55 - int (n mod 64)) mod 64"
    by (simp only: take_bit_eq_mask [symmetric] take_bit_eq_mod) simp
  also have "\<dots> = (119 - int (n mod 64)) mod 64"
    using mod_add_self2 [of "55 - int (n mod 64)" 64] by simp
  also have "\<dots> = int ((119 - n mod 64) mod 64)"
  proof -
    have "n mod 64 < 64"
      by simp
    then have "119 - int (n mod 64) = int (119 - n mod 64)"
      by linarith
    then show ?thesis
      by (metis of_nat_mod of_nat_numeral)
  qed
  finally show ?thesis
    by simp
qed

lemma take_sha1_pad: "k < 64 \<Longrightarrow> take (1 + k) sha1_pad = 0x80 # replicate k 0"
  by (simp add: sha1_pad_def)

lemma padlen_bytes:
  fixes size :: u64
  shows "put_be32 (ucast (drop_bit 29 size)) @ put_be32 (ucast (push_bit 3 size)) = rev (le_bytes 8 (push_bit 3 size))"
proof -
  have hi: "(ucast (drop_bit k (ucast (drop_bit 29 size) :: u32)) :: byte) = ucast (drop_bit (32 + k) (push_bit 3 size))"
    if "k \<le> 24" for k
    using that by (intro bit_word_eqI)
      (auto simp: bit_unsigned_iff bit_drop_bit_eq bit_push_bit_iff possible_bit_def add.commute add.left_commute)
  have lo: "(ucast (drop_bit k (ucast (push_bit 3 size) :: u32)) :: byte) = ucast (drop_bit k (push_bit 3 size))"
    if "k \<le> 24" for k
    using that by (intro bit_word_eqI)
      (auto simp: bit_unsigned_iff bit_drop_bit_eq bit_push_bit_iff possible_bit_def)
  have "[0..<8] = [0, 1, 2, 3, 4, 5, 6, 7 :: nat]"
    by (simp add: upt_rec)
  then show ?thesis
    using hi [of 24] hi [of 16] hi [of 8] hi [of 0] lo [of 24] lo [of 16] lo [of 8] lo [of 0]
    by (simp add: put_be32_def le_bytes_def del: push_bit_numeral)
qed

lemma blk_SHA1_Final_correct:
  assumes "length array = 16" and "sha_buffered ctx m" and "ctx_size ctx = of_nat (length m)"
  shows "\<exists>ctx'. blk_SHA1_Final array ctx = Some (sha1 m, ctx')"
proof -
  have n: "1 + nat ((55 - uint (ctx_size ctx AND 63)) AND 63) = 1 + (119 - length m mod 64) mod 64"
    using pad_length [of "length m"] length_mod_64 [of "length m"] assms(3)
    by (metis unsigned_of_nat uint_nat)
  let ?p1 = "0x80 # replicate ((119 - length m mod 64) mod 64) 0 :: byte list"
  let ?p2 = "le_bytes 4 (default_swab32 (ucast (drop_bit 29 (ctx_size ctx))))
    @ le_bytes 4 (default_swab32 (ucast (push_bit 3 (ctx_size ctx))))"
  have "(of_nat (8 * length m) :: u64) = push_bit 3 (ctx_size ctx)"
    by (simp add: assms(3) push_bit_eq_mult)
  then have p2: "?p2 = rev (le_bytes 8 (of_nat (8 * length m) :: u64))"
    by (simp only: put_be32_swab [symmetric] padlen_bytes)
  obtain c1 where c1: "blk_SHA1_Update array ctx ?p1 = Some c1" "sha_buffered c1 (m @ ?p1)"
      "ctx_size c1 = of_nat (length (m @ ?p1))"
    using blk_SHA1_Update_correct [OF assms] by blast
  obtain c2 where c2: "blk_SHA1_Update array c1 ?p2 = Some c2" "sha_buffered c2 ((m @ ?p1) @ ?p2)"
    using blk_SHA1_Update_correct [OF assms(1) c1(2,3)] by blast
  have "(m @ ?p1) @ ?p2 = m @ sha1_padding (length m)"
    by (simp only: sha1_padding_def p2 append_assoc append_Cons)
  with c2(2) have "sha1_blocks sha1_IV (m @ sha1_padding (length m)) = vars_of_list (ctx_H c2)"
    by (simp add: sha_buffered_def)
  moreover have five: "[0..<5] = [0, 1, 2, 3, 4 :: nat]"
    by (simp add: upt_rec)
  ultimately have "concat (map (\<lambda>i. put_be32 (ctx_H c2 ! i)) [0..<5]) = sha1 m"
    unfolding sha1_def sha1_IV_def [symmetric] five
    by (simp add: vars_of_list_def)
  with c1(1) c2(1) take_sha1_pad [of "(119 - length m mod 64) mod 64"] show ?thesis
    unfolding blk_SHA1_Final_def Let_def n by simp
qed

primrec blk_SHA1_Updates :: "u32 list \<Rightarrow> blk_SHA_CTX \<Rightarrow> byte list list \<Rightarrow> blk_SHA_CTX option" where
  "blk_SHA1_Updates array ctx [] = Some ctx"
| "blk_SHA1_Updates array ctx (d # ds) =
     (case blk_SHA1_Update array ctx d of None \<Rightarrow> None | Some ctx \<Rightarrow> blk_SHA1_Updates array ctx ds)"

lemma blk_SHA1_Updates_correct:
  assumes "length array = 16" and "sha_buffered ctx m" and "ctx_size ctx = of_nat (length m)"
  shows "\<exists>ctx'. blk_SHA1_Updates array ctx ds = Some ctx' \<and> sha_buffered ctx' (m @ concat ds)
    \<and> ctx_size ctx' = of_nat (length (m @ concat ds))"
  using assms(2,3)
proof (induction ds arbitrary: ctx m)
  case (Cons d ds)
  then obtain c1 where "blk_SHA1_Update array ctx d = Some c1" "sha_buffered c1 (m @ d)"
      "ctx_size c1 = of_nat (length (m @ d))"
    using blk_SHA1_Update_correct [OF assms(1)] by blast
  with Cons.IH [of c1 "m @ d"] show ?case
    by simp
qed simp

text \<open>
  (C25) Whatever the context and the array held before, and however the message is cut into pieces,
  empty ones included: initialising the context, feeding the pieces and finishing never reads
  outside the data and gives the SHA-1 of the whole message.
\<close>

theorem sha1_incremental:
  assumes "length array = 16" and "length (ctx_W ctx) = 64"
  shows "\<exists>ctx1 ctx2. blk_SHA1_Updates array (blk_SHA1_Init ctx) ds = Some ctx1
    \<and> blk_SHA1_Final array ctx1 = Some (sha1 (concat ds), ctx2)"
proof -
  have "sha_buffered (blk_SHA1_Init ctx) []" "ctx_size (blk_SHA1_Init ctx) = of_nat (length [])"
    using assms(2) by (simp_all add: blk_SHA1_Init_def sha_buffered_def vars_of_list_def sha1_IV_def sha1_blocks_short)
  from blk_SHA1_Updates_correct [OF assms(1) this, of ds] blk_SHA1_Final_correct [OF assms(1)]
  show ?thesis
    by fastforce
qed

lemma sha1_incremental_witness:
  "\<exists>ctx1 ctx2. blk_SHA1_Updates (replicate 16 7) (blk_SHA1_Init \<lparr>ctx_size = 5, ctx_H = [], ctx_W = replicate 64 9\<rparr>)
      [[97], [], [98, 99]] = Some ctx1
    \<and> blk_SHA1_Final (replicate 16 7) ctx1 = Some (sha1 [97, 98, 99], ctx2)"
  using sha1_incremental [of "replicate 16 7" "\<lparr>ctx_size = 5, ctx_H = [], ctx_W = replicate 64 9\<rparr>" "[[97], [], [98, 99]]"]
  by simp

end
