(* ===== verification/Git_Strbuf.thy ===== *)
theory Git_Strbuf
  imports Git_Strings Git_Ctype
begin

text \<open>
  \<^verbatim>\<open>strbuf.c\<close> and \<^verbatim>\<open>strbuf.h\<close>: the string buffers that the rest of git builds its texts in.

  The memory of a buffer is a list of cells, \<open>None\<close> for a byte that was never written; the
  static \<open>strbuf_slopbuf\<close> that all empty buffers share holds one NUL. Every operation returns an
  outcome: the new buffer, \<open>Failure\<close> where the code dies, \<open>Fault\<close> where it would leave the
  allocated memory, read a byte that was never written or spoil the shared byte. A \<open>size_t\<close> is a
  natural number; the sums the code checks with \<open>unsigned_add_overflows\<close> are checked here,
  and \<open>strbuf_rep\<close> bounds the others. Allocation succeeds.
\<close>

subsection \<open>Outcomes and memory\<close>

fun and_then :: "'a outcome \<Rightarrow> ('a \<Rightarrow> 'b outcome) \<Rightarrow> 'b outcome" where
  "and_then (Value x) f = f x"
| "and_then Failure f = Failure"
| "and_then Fault f = Fault"

lemma and_then_Value [simp]: "and_then m Value = m"
  by (cases m) auto

lemma and_then_assoc: "and_then (and_then m f) g = and_then m (\<lambda>x. and_then (f x) g)"
  by (cases m) auto

type_synonym cells = "byte option list"

definition overwrite :: "'a list \<Rightarrow> nat \<Rightarrow> 'a list \<Rightarrow> 'a list" where
  "overwrite b i c = take i b @ c @ drop (i + length c) b"

definition realloc :: "cells \<Rightarrow> nat \<Rightarrow> cells" where
  "realloc b n = take n b @ replicate (n - length b) None"

datatype buffer = Slopbuf | Heap cells

fun cells_of :: "buffer \<Rightarrow> cells" where
  "cells_of Slopbuf = [Some 0]"
| "cells_of (Heap b) = b"

text \<open>Writing, reading any cells, and reading bytes that have to have been written.\<close>

fun mem_write :: "buffer \<Rightarrow> nat \<Rightarrow> cells \<Rightarrow> buffer outcome" where
  "mem_write Slopbuf i c =
     (if i + length c \<le> 1 \<and> overwrite [Some 0] i c = [Some 0] then Value Slopbuf else Fault)"
| "mem_write (Heap b) i c = (if i + length c \<le> length b then Value (Heap (overwrite b i c)) else Fault)"

definition mem_cells :: "buffer \<Rightarrow> nat \<Rightarrow> nat \<Rightarrow> cells outcome" where
  "mem_cells b i n =
     (if i + n \<le> length (cells_of b) then Value (take n (drop i (cells_of b))) else Fault)"

definition mem_bytes :: "buffer \<Rightarrow> nat \<Rightarrow> nat \<Rightarrow> byte list outcome" where
  "mem_bytes b i n = and_then (mem_cells b i n)
     (\<lambda>c. if None \<in> set c then Fault else Value (List.map the c))"

definition mem_byte :: "buffer \<Rightarrow> nat \<Rightarrow> byte outcome" where
  "mem_byte b i = and_then (mem_bytes b i 1) (\<lambda>c. Value (hd c))"

text \<open>The bytes of a caller's memory that an operation reads.\<close>

definition data_bytes :: "byte list \<Rightarrow> nat \<Rightarrow> byte list outcome" where
  "data_bytes data n = (if n \<le> length data then Value (take n data) else Fault)"

subsection \<open>The buffer\<close>

record strbuf =
  sb_alloc :: nat
  sb_len :: nat
  sb_buf :: buffer

definition STRBUF_INIT :: strbuf where
  "STRBUF_INIT = \<lparr>sb_alloc = 0, sb_len = 0, sb_buf = Slopbuf\<rparr>"

definition SIZE_MAX :: nat where "SIZE_MAX = 2 ^ 64 - 1"

definition unsigned_add_overflows :: "nat \<Rightarrow> nat \<Rightarrow> bool" where
  "unsigned_add_overflows a b \<longleftrightarrow> b > SIZE_MAX - a"

text \<open>\<open>ALLOC_GROW\<close> with the product of \<open>alloc_nr\<close> reduced as a \<open>size_t\<close> is.\<close>

definition alloc_nr_size :: "nat \<Rightarrow> nat" where
  "alloc_nr_size x = (x + 16) * 3 mod 2 ^ 64 div 2"

definition ALLOC_GROW_size :: "nat \<Rightarrow> nat \<Rightarrow> nat" where
  "ALLOC_GROW_size nr alloc =
     (if nr > alloc then (if alloc_nr_size alloc < nr then nr else alloc_nr_size alloc) else alloc)"

definition strbuf_grow :: "strbuf \<Rightarrow> nat \<Rightarrow> strbuf outcome" where
  "strbuf_grow sb extra =
     (let new_buf = sb_alloc sb = 0
      in if unsigned_add_overflows extra 1 \<or> unsigned_add_overflows (sb_len sb) (extra + 1) then Failure
         else
           let nr = sb_len sb + extra + 1;
               alloc = ALLOC_GROW_size nr (sb_alloc sb)
           in if new_buf then
                and_then (mem_write (Heap (realloc [] alloc)) 0 [Some 0])
                  (\<lambda>buf. Value (sb\<lparr>sb_alloc := alloc, sb_buf := buf\<rparr>))
              else if nr > sb_alloc sb then
                (case sb_buf sb of
                   Slopbuf \<Rightarrow> Fault
                 | Heap b \<Rightarrow> Value (sb\<lparr>sb_alloc := alloc, sb_buf := Heap (realloc b alloc)\<rparr>))
              else Value sb)"

definition strbuf_init :: "nat \<Rightarrow> strbuf outcome" where
  "strbuf_init hint = (if hint \<noteq> 0 then strbuf_grow STRBUF_INIT hint else Value STRBUF_INIT)"

definition strbuf_release :: "strbuf \<Rightarrow> strbuf outcome" where
  "strbuf_release sb =
     (if sb_alloc sb \<noteq> 0 then (if sb_buf sb = Slopbuf then Fault else strbuf_init 0) else Value sb)"

definition strbuf_avail :: "strbuf \<Rightarrow> nat" where
  "strbuf_avail sb = (if sb_alloc sb \<noteq> 0 then sb_alloc sb - sb_len sb - 1 else 0)"

definition strbuf_setlen :: "strbuf \<Rightarrow> nat \<Rightarrow> strbuf outcome" where
  "strbuf_setlen sb n =
     (if n > (if sb_alloc sb \<noteq> 0 then sb_alloc sb - 1 else 0) then Failure
      else if sb_buf sb \<noteq> Slopbuf then
        and_then (mem_write (sb_buf sb) n [Some 0]) (\<lambda>buf. Value (sb\<lparr>sb_len := n, sb_buf := buf\<rparr>))
      else Value (sb\<lparr>sb_len := n\<rparr>))"

definition strbuf_reset :: "strbuf \<Rightarrow> strbuf outcome" where
  "strbuf_reset sb = strbuf_setlen sb 0"

text \<open>The memory handed over, its length, and the buffer that is left.\<close>

definition strbuf_detach :: "strbuf \<Rightarrow> (buffer \<times> nat \<times> strbuf) outcome" where
  "strbuf_detach sb =
     and_then (strbuf_grow sb 0) (\<lambda>sb.
     and_then (strbuf_init 0) (\<lambda>sb'. Value (sb_buf sb, sb_len sb, sb')))"

definition strbuf_attach :: "strbuf \<Rightarrow> cells \<Rightarrow> nat \<Rightarrow> nat \<Rightarrow> strbuf outcome" where
  "strbuf_attach sb b n alloc =
     and_then (strbuf_release sb) (\<lambda>sb.
     and_then (strbuf_grow (sb\<lparr>sb_buf := Heap b, sb_len := n, sb_alloc := alloc\<rparr>) 0) (\<lambda>sb.
     and_then (mem_write (sb_buf sb) (sb_len sb) [Some 0]) (\<lambda>buf.
     Value (sb\<lparr>sb_buf := buf\<rparr>))))"

definition strbuf_swap :: "strbuf \<Rightarrow> strbuf \<Rightarrow> strbuf \<times> strbuf" where
  "strbuf_swap a b = (b, a)"

subsection \<open>Adding to the buffer\<close>

definition strbuf_addch :: "strbuf \<Rightarrow> byte \<Rightarrow> strbuf outcome" where
  "strbuf_addch sb c =
     and_then (if strbuf_avail sb = 0 then strbuf_grow sb 1 else Value sb) (\<lambda>sb.
     and_then (mem_write (sb_buf sb) (sb_len sb) [Some c]) (\<lambda>buf.
     let n = sb_len sb + 1
     in and_then (mem_write buf n [Some 0]) (\<lambda>buf. Value (sb\<lparr>sb_len := n, sb_buf := buf\<rparr>))))"

definition strbuf_add :: "strbuf \<Rightarrow> byte list \<Rightarrow> nat \<Rightarrow> strbuf outcome" where
  "strbuf_add sb data n =
     and_then (strbuf_grow sb n) (\<lambda>sb.
     and_then (data_bytes data n) (\<lambda>d.
     and_then (mem_write (sb_buf sb) (sb_len sb) (List.map Some d)) (\<lambda>buf.
     strbuf_setlen (sb\<lparr>sb_buf := buf\<rparr>) (sb_len sb + n))))"

definition strbuf_addstr :: "strbuf \<Rightarrow> byte list \<Rightarrow> strbuf outcome" where
  "strbuf_addstr sb s = strbuf_add sb s (length s)"

definition strbuf_addbuf :: "strbuf \<Rightarrow> strbuf \<Rightarrow> strbuf outcome" where
  "strbuf_addbuf sb sb2 =
     and_then (strbuf_grow sb (sb_len sb2)) (\<lambda>sb.
     and_then (mem_cells (sb_buf sb2) 0 (sb_len sb2)) (\<lambda>c.
     and_then (mem_write (sb_buf sb) (sb_len sb) c) (\<lambda>buf.
     strbuf_setlen (sb\<lparr>sb_buf := buf\<rparr>) (sb_len sb + sb_len sb2))))"

definition strbuf_addchars :: "strbuf \<Rightarrow> byte \<Rightarrow> nat \<Rightarrow> strbuf outcome" where
  "strbuf_addchars sb c n =
     and_then (strbuf_grow sb n) (\<lambda>sb.
     and_then (mem_write (sb_buf sb) (sb_len sb) (replicate n (Some c))) (\<lambda>buf.
     strbuf_setlen (sb\<lparr>sb_buf := buf\<rparr>) (sb_len sb + n)))"

definition strbuf_complete :: "strbuf \<Rightarrow> byte \<Rightarrow> strbuf outcome" where
  "strbuf_complete sb term =
     (if sb_len sb \<noteq> 0 then
        and_then (mem_byte (sb_buf sb) (sb_len sb - 1)) (\<lambda>c.
        if c \<noteq> term then strbuf_addch sb term else Value sb)
      else Value sb)"

definition strbuf_splice :: "strbuf \<Rightarrow> nat \<Rightarrow> nat \<Rightarrow> byte list \<Rightarrow> nat \<Rightarrow> strbuf outcome" where
  "strbuf_splice sb pos n data dlen =
     (if unsigned_add_overflows pos n then Failure
      else if pos > sb_len sb then Failure
      else if pos + n > sb_len sb then Failure
      else
        and_then (if dlen \<ge> n then strbuf_grow sb (dlen - n) else Value sb) (\<lambda>sb.
        and_then (mem_cells (sb_buf sb) (pos + n) (sb_len sb - pos - n)) (\<lambda>c.
        and_then (mem_write (sb_buf sb) (pos + dlen) c) (\<lambda>buf.
        and_then (data_bytes data dlen) (\<lambda>d.
        and_then (mem_write buf pos (List.map Some d)) (\<lambda>buf.
        strbuf_setlen (sb\<lparr>sb_buf := buf\<rparr>) (sb_len sb + dlen - n)))))))"

definition strbuf_insert :: "strbuf \<Rightarrow> nat \<Rightarrow> byte list \<Rightarrow> nat \<Rightarrow> strbuf outcome" where
  "strbuf_insert sb pos data n = strbuf_splice sb pos 0 data n"

definition strbuf_remove :: "strbuf \<Rightarrow> nat \<Rightarrow> nat \<Rightarrow> strbuf outcome" where
  "strbuf_remove sb pos n = strbuf_splice sb pos n [] 0"

text \<open>
  Formatted output: \<open>t\<close> is the text \<open>vsnprintf\<close> produces for the format and its arguments. It
  stores as much of it as fits with the NUL after it, and returns the length of the whole, or a
  negative number where an \<open>int\<close> cannot hold that.
\<close>

definition vsnprintf :: "buffer \<Rightarrow> nat \<Rightarrow> nat \<Rightarrow> byte list \<Rightarrow> (buffer \<times> int) outcome" where
  "vsnprintf b i n t =
     (if length t \<ge> 2 ^ 31 then Value (b, - 1)
      else if n = 0 then Value (b, int (length t))
      else and_then (mem_write b i (List.map Some (take (n - 1) t @ [0]))) (\<lambda>b. Value (b, int (length t))))"

definition strbuf_vaddf :: "strbuf \<Rightarrow> byte list \<Rightarrow> strbuf outcome" where
  "strbuf_vaddf sb t =
     and_then (if strbuf_avail sb = 0 then strbuf_grow sb 64 else Value sb) (\<lambda>sb.
     and_then (vsnprintf (sb_buf sb) (sb_len sb) (sb_alloc sb - sb_len sb) t) (\<lambda>(buf, n).
     let sb = sb\<lparr>sb_buf := buf\<rparr>
     in if n < 0 then Failure
        else if nat n > strbuf_avail sb then
          and_then (strbuf_grow sb (nat n)) (\<lambda>sb.
          and_then (vsnprintf (sb_buf sb) (sb_len sb) (sb_alloc sb - sb_len sb) t) (\<lambda>(buf, n).
          let sb = sb\<lparr>sb_buf := buf\<rparr>
          in if nat n > strbuf_avail sb then Failure
             else strbuf_setlen sb (sb_len sb + nat n)))
        else strbuf_setlen sb (sb_len sb + nat n)))"

definition strbuf_addf :: "strbuf \<Rightarrow> byte list \<Rightarrow> strbuf outcome" where
  "strbuf_addf sb t = strbuf_vaddf sb t"

subsection \<open>Changing the buffer\<close>

function rtrim_len :: "buffer \<Rightarrow> nat \<Rightarrow> nat outcome" where
  "rtrim_len b n =
     (if n > 0 then
        and_then (mem_byte b (n - 1)) (\<lambda>c. if isspace c then rtrim_len b (n - 1) else Value n)
      else Value n)"
  by auto
termination by (relation "measure snd") auto

definition strbuf_rtrim :: "strbuf \<Rightarrow> strbuf outcome" where
  "strbuf_rtrim sb =
     and_then (rtrim_len (sb_buf sb) (sb_len sb)) (\<lambda>n.
     and_then (mem_write (sb_buf sb) n [Some 0]) (\<lambda>buf.
     Value (sb\<lparr>sb_len := n, sb_buf := buf\<rparr>)))"

function ltrim_pos :: "buffer \<Rightarrow> nat \<Rightarrow> nat \<Rightarrow> (nat \<times> nat) outcome" where
  "ltrim_pos b i n =
     (if n > 0 then
        and_then (mem_byte b i) (\<lambda>c. if isspace c then ltrim_pos b (i + 1) (n - 1) else Value (i, n))
      else Value (i, n))"
  by auto
termination by (relation "measure (snd \<circ> snd)") auto

definition strbuf_ltrim :: "strbuf \<Rightarrow> strbuf outcome" where
  "strbuf_ltrim sb =
     and_then (ltrim_pos (sb_buf sb) 0 (sb_len sb)) (\<lambda>(i, n).
     and_then (mem_cells (sb_buf sb) i n) (\<lambda>c.
     and_then (mem_write (sb_buf sb) 0 c) (\<lambda>buf.
     and_then (mem_write buf n [Some 0]) (\<lambda>buf.
     Value (sb\<lparr>sb_len := n, sb_buf := buf\<rparr>)))))"

definition strbuf_trim :: "strbuf \<Rightarrow> strbuf outcome" where
  "strbuf_trim sb = and_then (strbuf_rtrim sb) strbuf_ltrim"

function tolower_loop :: "buffer \<Rightarrow> nat \<Rightarrow> nat \<Rightarrow> buffer outcome" where
  "tolower_loop b p e =
     (if p < e then
        and_then (mem_byte b p) (\<lambda>c.
        and_then (mem_write b p [Some (tolower c)]) (\<lambda>b. tolower_loop b (p + 1) e))
      else Value b)"
  by auto
termination by (relation "measure (\<lambda>(b, p, e). e - p)") auto

definition strbuf_tolower :: "strbuf \<Rightarrow> strbuf outcome" where
  "strbuf_tolower sb =
     and_then (tolower_loop (sb_buf sb) 0 (sb_len sb)) (\<lambda>buf. Value (sb\<lparr>sb_buf := buf\<rparr>))"

definition to_int32 :: "nat \<Rightarrow> int" where
  "to_int32 n = sint (word_of_nat n :: 32 word)"

definition to_size :: "int \<Rightarrow> nat" where
  "to_size i = nat (i mod 2 ^ 64)"

definition strbuf_cmp :: "strbuf \<Rightarrow> strbuf \<Rightarrow> int outcome" where
  "strbuf_cmp a b =
     (let n = to_size (to_int32 (if sb_len a < sb_len b then sb_len a else sb_len b))
      in and_then (mem_bytes (sb_buf a) 0 n) (\<lambda>s.
         and_then (mem_bytes (sb_buf b) 0 n) (\<lambda>t.
         let cmp = memcmp s t n
         in Value (if cmp \<noteq> 0 then cmp
                   else if sb_len a < sb_len b then - 1
                   else of_bool (sb_len a \<noteq> sb_len b)))))"

definition strip_suffix_mem :: "buffer \<Rightarrow> nat \<Rightarrow> byte list \<Rightarrow> (bool \<times> nat) outcome" where
  "strip_suffix_mem b n suffix =
     (let suflen = length suffix
      in if n < suflen then Value (False, n)
         else and_then (mem_bytes b (n - suflen) suflen) (\<lambda>s.
              Value (if memcmp s suffix suflen \<noteq> 0 then (False, n) else (True, n - suflen))))"

definition strbuf_strip_suffix :: "strbuf \<Rightarrow> byte list \<Rightarrow> (bool \<times> strbuf) outcome" where
  "strbuf_strip_suffix sb suffix =
     and_then (strip_suffix_mem (sb_buf sb) (sb_len sb) suffix) (\<lambda>(found, n).
     if found then
       and_then (strbuf_setlen (sb\<lparr>sb_len := n\<rparr>) n) (\<lambda>sb. Value (True, sb))
     else Value (False, sb\<lparr>sb_len := n\<rparr>))"

lemma to_int32_small: "n < 2 ^ 31 \<Longrightarrow> to_int32 n = int n"
  by (simp add: to_int32_def signed_of_nat signed_take_bit_int_eq_self)

lemma to_size_int: "n \<le> SIZE_MAX \<Longrightarrow> to_size (int n) = n"
  by (simp add: to_size_def SIZE_MAX_def nat_mod_as_int flip: zmod_int)

subsection \<open>The representation of a text\<close>

text \<open>
  A buffer holds the text \<open>s\<close> if it is the untouched empty buffer, or its memory holds the bytes
  of \<open>s\<close>, a NUL and whatever else there is room for. Between growing a buffer and setting
  its length only \<open>strbuf_room\<close> holds: the bytes of \<open>s\<close>, and room for more than \<open>n\<close> others.
\<close>

definition heap_buf :: "byte list \<Rightarrow> cells \<Rightarrow> strbuf" where
  "heap_buf s t = \<lparr>sb_alloc = length s + length t, sb_len = length s, sb_buf = Heap (List.map Some s @ t)\<rparr>"

definition strbuf_room :: "strbuf \<Rightarrow> byte list \<Rightarrow> nat \<Rightarrow> bool" where
  "strbuf_room sb s n \<longleftrightarrow>
     (\<exists>t. sb = heap_buf s t \<and> n < length t \<and> length s + length t \<le> SIZE_MAX)"

definition strbuf_rep :: "strbuf \<Rightarrow> byte list \<Rightarrow> bool" where
  "strbuf_rep sb s \<longleftrightarrow>
     sb = STRBUF_INIT \<and> s = [] \<or>
     (\<exists>t. sb = heap_buf s (Some 0 # t) \<and> length s + length t < SIZE_MAX)"

text \<open>
  An operation that makes the text \<open>s\<close>: it does, unless \<open>s\<close> and its NUL exceed the largest
  \<open>size_t\<close>; then it dies.
\<close>

definition makes :: "strbuf outcome \<Rightarrow> byte list \<Rightarrow> bool" where
  "makes m s \<longleftrightarrow> (if length s < SIZE_MAX then \<exists>sb. m = Value sb \<and> strbuf_rep sb s else m = Failure)"

lemma heap_buf_sel [simp]:
  "sb_alloc (heap_buf s t) = length s + length t"
  "sb_len (heap_buf s t) = length s"
  "sb_buf (heap_buf s t) = Heap (List.map Some s @ t)"
  by (simp_all add: heap_buf_def)

lemma STRBUF_INIT_sel [simp]:
  "sb_alloc STRBUF_INIT = 0" "sb_len STRBUF_INIT = 0" "sb_buf STRBUF_INIT = Slopbuf"
  by (simp_all add: STRBUF_INIT_def)

lemma rep_cases:
  assumes "strbuf_rep sb s"
  obtains (slop) "sb = STRBUF_INIT" "s = []"
    | (heap) t where "sb = heap_buf s (Some 0 # t)" "length s + length t < SIZE_MAX"
  using assms by (auto simp: strbuf_rep_def)

lemma rep_init [simp]: "strbuf_rep STRBUF_INIT []"
  by (simp add: strbuf_rep_def)

lemma rep_len: "strbuf_rep sb s \<Longrightarrow> sb_len sb = length s"
  by (auto elim: rep_cases)

lemma rep_small: "strbuf_rep sb s \<Longrightarrow> length s < SIZE_MAX"
  by (auto elim!: rep_cases simp: SIZE_MAX_def)

lemma rep_inj: "strbuf_rep sb s \<Longrightarrow> strbuf_rep sb t \<Longrightarrow> s = t"
  by (auto elim!: rep_cases simp: heap_buf_def STRBUF_INIT_def append_eq_append_conv)

lemma makes_Value: "strbuf_rep sb s \<Longrightarrow> makes (Value sb) s"
  using rep_small by (auto simp: makes_def)

lemma makes_and_then:
  assumes "makes m s" "\<And>sb. strbuf_rep sb s \<Longrightarrow> makes (f sb) t" "length s \<le> length t"
  shows "makes (and_then m f) t"
  using assms by (cases "length s < SIZE_MAX") (auto simp: makes_def)

lemma cells_of_rep:
  assumes "strbuf_rep sb s"
  obtains t where "cells_of (sb_buf sb) = List.map Some s @ Some 0 # t"
  using assms by (auto elim!: rep_cases)

subsection \<open>Reading\<close>

lemma mem_cells_rep:
  assumes "strbuf_rep sb s" "i + n \<le> length s"
  shows "mem_cells (sb_buf sb) i n = Value (List.map Some (take n (drop i s)))"
proof -
  obtain t where "cells_of (sb_buf sb) = List.map Some s @ Some 0 # t"
    using cells_of_rep [OF assms(1)] .
  then show ?thesis
    using assms(2) by (simp add: mem_cells_def take_map drop_map)
qed

lemma map_the_Some [simp]: "List.map (the \<circ> Some) s = s" "None \<notin> Some ` A"
  by (auto simp: map_idI)

lemma mem_bytes_rep:
  "strbuf_rep sb s \<Longrightarrow> i + n \<le> length s \<Longrightarrow> mem_bytes (sb_buf sb) i n = Value (take n (drop i s))"
  by (simp add: mem_bytes_def mem_cells_rep)

lemma mem_byte_rep: "strbuf_rep sb s \<Longrightarrow> i < length s \<Longrightarrow> mem_byte (sb_buf sb) i = Value (s ! i)"
  by (simp add: mem_byte_def mem_bytes_rep hd_drop_conv_nth)

text \<open>The NUL after the text can be read too.\<close>

lemma mem_byte_end: "strbuf_rep sb s \<Longrightarrow> mem_byte (sb_buf sb) (length s) = Value 0"
  by (erule cells_of_rep) (simp add: mem_byte_def mem_bytes_def mem_cells_def)

subsection \<open>Growing\<close>

lemma length_realloc: "length b \<le> n \<Longrightarrow> length (realloc b n) = n"
  by (simp add: realloc_def)

lemma realloc_append: "length b \<le> n \<Longrightarrow> realloc b n = b @ replicate (n - length b) None"
  by (simp add: realloc_def)

lemma ALLOC_GROW_size_bounds:
  assumes "nr \<le> SIZE_MAX" "alloc \<le> SIZE_MAX"
  shows "nr \<le> ALLOC_GROW_size nr alloc" "ALLOC_GROW_size nr alloc \<le> SIZE_MAX"
    "alloc \<le> ALLOC_GROW_size nr alloc"
proof -
  have "m mod 2 ^ 64 div 2 \<le> 2 ^ 64 - 1" for m :: nat
    using mod_less_divisor [of "2 ^ 64" m] div_le_dividend [of "m mod 2 ^ 64" 2] by simp
  then show "ALLOC_GROW_size nr alloc \<le> SIZE_MAX"
    using assms unfolding ALLOC_GROW_size_def SIZE_MAX_def alloc_nr_size_def by simp
qed (auto simp: ALLOC_GROW_size_def)

text \<open>Any memory with the bytes of \<open>s\<close> in front grows, whether or not it has its NUL.\<close>

lemma grow_heap:
  assumes "t \<noteq> []" "length s + length t \<le> SIZE_MAX" "length s + n < SIZE_MAX"
  obtains u where "strbuf_grow (heap_buf s t) n = Value (heap_buf s (t @ u))"
    "n < length (t @ u)" "length s + length (t @ u) \<le> SIZE_MAX"
proof (cases "length s + n + 1 > sb_alloc (heap_buf s t)")
  case True
  define alloc where "alloc = ALLOC_GROW_size (Suc (length s + n)) (length s + length t)"
  have "Suc (length s + n) \<le> alloc" "length s + length t \<le> alloc" "alloc \<le> SIZE_MAX"
    using ALLOC_GROW_size_bounds [of "Suc (length s + n)" "length s + length t"] assms
    by (auto simp: alloc_def)
  then show thesis
    using True assms by (intro that [of "replicate (alloc - length s - length t) None"])
      (auto simp: strbuf_grow_def unsigned_add_overflows_def Let_def heap_buf_def realloc_append
        simp flip: alloc_def)
next
  case False
  then show thesis
    using assms that [of "[]"] by (auto simp: strbuf_grow_def unsigned_add_overflows_def Let_def)
qed

lemma grow_slop:
  assumes "n < SIZE_MAX"
  obtains u where "strbuf_grow STRBUF_INIT n = Value (heap_buf [] (Some 0 # u))" "n \<le> length u" "length u < SIZE_MAX"
proof -
  define alloc where "alloc = ALLOC_GROW_size (Suc n) 0"
  have "Suc n \<le> alloc" "alloc \<le> SIZE_MAX"
    using ALLOC_GROW_size_bounds [of "Suc n" 0] assms by (auto simp: alloc_def)
  then show thesis
    using assms by (intro that [of "replicate (alloc - 1) None"])
      (auto simp: strbuf_grow_def unsigned_add_overflows_def Let_def overwrite_def realloc_def heap_buf_def
        STRBUF_INIT_def simp flip: alloc_def)
qed

lemma grow_room:
  assumes "strbuf_room sb s 0" "length s + n < SIZE_MAX"
  shows "\<exists>sb'. strbuf_grow sb n = Value sb' \<and> strbuf_room sb' s n"
  using assms by (auto simp: strbuf_room_def elim!: grow_heap [where n = n])

lemma rep_room: "strbuf_rep sb s \<Longrightarrow> sb_alloc sb \<noteq> 0 \<Longrightarrow> strbuf_room sb s 0"
  by (erule rep_cases) (auto simp: strbuf_room_def)

lemma grow_rep:
  assumes "strbuf_rep sb s" "length s + n < SIZE_MAX"
  shows "\<exists>sb'. strbuf_grow sb n = Value sb' \<and> strbuf_room sb' s n \<and> strbuf_rep sb' s"
  using assms(1)
proof (cases rule: rep_cases)
  case slop
  then obtain u where "strbuf_grow sb n = Value (heap_buf s (Some 0 # u))" "n \<le> length u" "length u < SIZE_MAX"
    using assms(2) grow_slop [of n] by auto
  then show ?thesis
    using slop by (auto simp: strbuf_room_def strbuf_rep_def)
next
  case (heap t)
  then obtain u where "strbuf_grow sb n = Value (heap_buf s ((Some 0 # t) @ u))" "n < length ((Some 0 # t) @ u)"
      "length s + length ((Some 0 # t) @ u) \<le> SIZE_MAX"
    using assms(2) grow_heap [of "Some 0 # t" s n] by auto
  then show ?thesis
    by (auto simp: strbuf_room_def strbuf_rep_def)
qed

lemma grow_Failure: "sb_len sb \<le> SIZE_MAX \<Longrightarrow> sb_len sb + n \<ge> SIZE_MAX \<Longrightarrow> strbuf_grow sb n = Failure"
  by (auto simp: strbuf_grow_def unsigned_add_overflows_def Let_def)

lemma rep_grow_Failure: "strbuf_rep sb s \<Longrightarrow> length s + n \<ge> SIZE_MAX \<Longrightarrow> strbuf_grow sb n = Failure"
  by (rule grow_Failure) (auto simp: rep_len dest: rep_small)

lemma room_0: "strbuf_room sb s n \<Longrightarrow> strbuf_room sb s 0"
  by (auto simp: strbuf_room_def)

lemma room_heap:
  assumes "strbuf_room sb s n"
  obtains t where "sb = heap_buf s t" "n < length t" "length s + length t \<le> SIZE_MAX"
  using assms by (auto simp: strbuf_room_def)

subsection \<open>Operations and the text\<close>

lemma setlen_heap:
  assumes "sb_buf sb = Heap (List.map Some v @ x # t)" "sb_alloc sb = length v + length t + 1"
  shows "strbuf_setlen sb (length v) = Value (heap_buf v (Some 0 # t))"
  using assms by (simp add: strbuf_setlen_def overwrite_def heap_buf_def)

lemma rep_heap [intro]: "length s + length t < SIZE_MAX \<Longrightarrow> strbuf_rep (heap_buf s (Some 0 # t)) s"
  by (auto simp: strbuf_rep_def)

text \<open>The bytes \<open>d\<close> go after those of the text, and the new length ends with them.\<close>

lemma append_room:
  assumes "strbuf_room sb s (length d)"
  shows "\<exists>buf sb'. mem_write (sb_buf sb) (sb_len sb) (List.map Some d) = Value buf \<and>
    strbuf_setlen (sb\<lparr>sb_buf := buf\<rparr>) (sb_len sb + length d) = Value sb' \<and> strbuf_rep sb' (s @ d)"
proof -
  obtain t where t: "sb = heap_buf s t" "length d < length t" "length s + length t \<le> SIZE_MAX"
    using assms by (rule room_heap)
  then obtain x u where u: "drop (length d) t = x # u" "length t = length d + length u + 1"
    by (cases "drop (length d) t") (auto dest: arg_cong [where f = length])
  have "strbuf_setlen (heap_buf s t\<lparr>sb_buf := Heap (List.map Some (s @ d) @ x # u)\<rparr>) (length (s @ d)) =
      Value (heap_buf (s @ d) (Some 0 # u))"
    by (rule setlen_heap) (use u in simp_all)
  then show ?thesis
    using t u by (auto simp: overwrite_def)
qed

lemma setlen_prefix:
  assumes "strbuf_rep sb s" "n \<le> length s"
  shows "\<exists>sb'. strbuf_setlen sb n = Value sb' \<and> strbuf_rep sb' (take n s)"
  using assms(1)
proof (cases rule: rep_cases)
  case slop
  then show ?thesis
    using assms(2) by (auto simp: strbuf_setlen_def STRBUF_INIT_def strbuf_rep_def)
next
  case (heap t)
  obtain x u where u: "List.map Some (drop n s) @ Some 0 # t = x # u"
    by (cases "List.map Some (drop n s) @ Some 0 # t") auto
  have l: "length s + length t = n + length u"
    using assms(2) arg_cong [OF u, of length] by simp
  have "List.map Some s @ Some 0 # t = List.map Some (take n s) @ x # u"
    by (metis append.assoc append_take_drop_id map_append u)
  then have "strbuf_setlen sb (length (take n s)) = Value (heap_buf (take n s) (Some 0 # u))"
    using assms(2) heap l by (intro setlen_heap) simp_all
  then show ?thesis
    using assms(2) heap l by (auto intro!: exI [of _ "heap_buf (take n s) (Some 0 # u)"] rep_heap simp: min_absorb2)
qed

lemma setlen_beyond:
  "strbuf_rep sb s \<Longrightarrow> n > length s + strbuf_avail sb \<Longrightarrow> strbuf_setlen sb n = Failure"
  by (erule rep_cases) (auto simp: strbuf_setlen_def strbuf_avail_def)

lemma reset_makes: "strbuf_rep sb s \<Longrightarrow> makes (strbuf_reset sb) []"
  using setlen_prefix [of sb s 0] by (auto simp: strbuf_reset_def makes_def SIZE_MAX_def)

lemma grow_makes:
  "strbuf_rep sb s \<Longrightarrow>
   (if length s + n < SIZE_MAX then \<exists>sb'. strbuf_grow sb n = Value sb' \<and> strbuf_rep sb' s \<and> n \<le> strbuf_avail sb'
    else strbuf_grow sb n = Failure)"
  using grow_rep [of sb s n] rep_grow_Failure [of sb s n]
  by (fastforce simp: strbuf_room_def strbuf_avail_def)

lemma init_makes: "(if n < SIZE_MAX then \<exists>sb. strbuf_init n = Value sb \<and> strbuf_rep sb [] \<and> n \<le> strbuf_avail sb
    else strbuf_init n = Failure)"
  using grow_makes [OF rep_init, of n] by (auto simp: strbuf_init_def SIZE_MAX_def)

lemma release_makes: "strbuf_rep sb s \<Longrightarrow> strbuf_release sb = Value STRBUF_INIT"
  by (erule rep_cases) (auto simp: strbuf_release_def strbuf_init_def)

text \<open>What is detached is the text with its NUL, and the buffer is empty again.\<close>

lemma detach_rep:
  assumes "strbuf_rep sb s"
  shows "\<exists>t. strbuf_detach sb = Value (Heap (List.map Some s @ Some 0 # t), length s, STRBUF_INIT)"
proof -
  obtain sb' where sb': "strbuf_grow sb 0 = Value sb'" "strbuf_room sb' s 0" "strbuf_rep sb' s"
    using grow_rep [OF assms, of 0] rep_small [OF assms] by auto
  then obtain t where "sb' = heap_buf s (Some 0 # t)"
    by (auto simp: strbuf_rep_def strbuf_room_def heap_buf_def STRBUF_INIT_def)
  then show ?thesis
    using sb' by (simp add: strbuf_detach_def strbuf_init_def)
qed

lemma attach_makes:
  assumes "strbuf_rep sb s" "d \<noteq> []" "length t + length d \<le> SIZE_MAX"
  shows "makes (strbuf_attach sb (List.map Some t @ d) (length t) (length t + length d)) t"
proof -
  obtain u where u: "strbuf_grow (heap_buf t d) 0 = Value (heap_buf t (d @ u))"
      "length t + length (d @ u) \<le> SIZE_MAX"
    using assms(2,3) by (cases d; cases rule: grow_heap [of d t 0]) auto
  obtain x v where v: "d @ u = x # v"
    using assms(2) by (cases d) auto
  then have "heap_buf t (d @ u)\<lparr>sb_buf := Heap (List.map Some t @ Some 0 # v)\<rparr> = heap_buf t (Some 0 # v)"
    by (simp add: heap_buf_def)
  then have "strbuf_attach sb (List.map Some t @ d) (length t) (length t + length d) = Value (heap_buf t (Some 0 # v))"
    using u v release_makes [OF assms(1)]
    by (simp add: strbuf_attach_def heap_buf_def [symmetric] STRBUF_INIT_def overwrite_def)
  moreover have "strbuf_rep (heap_buf t (Some 0 # v)) t"
    using u v by (intro rep_heap) simp
  ultimately show ?thesis
    by (simp add: makes_Value)
qed

subsection \<open>Adding\<close>

lemma add_makes:
  assumes "strbuf_rep sb s" "n \<le> length data"
  shows "makes (strbuf_add sb data n) (s @ take n data)"
proof (cases "length s + n < SIZE_MAX")
  case True
  then obtain sb' where sb': "strbuf_grow sb n = Value sb'" "strbuf_room sb' s n"
    using grow_rep [OF assms(1)] by auto
  then show ?thesis
    using append_room [of sb' s "take n data"] assms(2) True
    by (auto simp: strbuf_add_def data_bytes_def min_absorb2 makes_def)
qed (use assms in \<open>simp add: strbuf_add_def makes_def rep_grow_Failure min_absorb2\<close>)

lemma addstr_makes: "strbuf_rep sb s \<Longrightarrow> makes (strbuf_addstr sb t) (s @ t)"
  using add_makes [of sb s "length t" t] by (simp add: strbuf_addstr_def)

lemma addbuf_makes:
  assumes "strbuf_rep sb s" "strbuf_rep sb2 t"
  shows "makes (strbuf_addbuf sb sb2) (s @ t)"
proof (cases "length s + length t < SIZE_MAX")
  case True
  then obtain sb' where sb': "strbuf_grow sb (length t) = Value sb'" "strbuf_room sb' s (length t)"
    using grow_rep [OF assms(1)] by auto
  then show ?thesis
    using append_room [of sb' s t] assms True mem_cells_rep [OF assms(2), of 0 "length t"]
    by (auto simp: strbuf_addbuf_def makes_def rep_len)
qed (use assms in \<open>simp add: strbuf_addbuf_def makes_def rep_grow_Failure rep_len\<close>)

lemma addchars_makes:
  assumes "strbuf_rep sb s"
  shows "makes (strbuf_addchars sb c n) (s @ replicate n c)"
proof (cases "length s + n < SIZE_MAX")
  case True
  then obtain sb' where sb': "strbuf_grow sb n = Value sb'" "strbuf_room sb' s n"
    using grow_rep [OF assms(1)] by auto
  then show ?thesis
    using append_room [of sb' s "replicate n c"] True
    by (auto simp: strbuf_addchars_def makes_def)
qed (use assms in \<open>simp add: strbuf_addchars_def makes_def rep_grow_Failure\<close>)

lemma avail_room: "strbuf_rep sb s \<Longrightarrow> n \<le> strbuf_avail sb \<Longrightarrow> n \<noteq> 0 \<Longrightarrow> strbuf_room sb s n"
  by (erule rep_cases) (auto simp: strbuf_room_def strbuf_avail_def intro!: exI [of _ "Some 0 # t" for t])

lemma addch_makes:
  assumes "strbuf_rep sb s"
  shows "makes (strbuf_addch sb c) (s @ [c])"
proof (cases "strbuf_avail sb = 0 \<and> length s + 1 \<ge> SIZE_MAX")
  case False
  then obtain sb' where sb': "(if strbuf_avail sb = 0 then strbuf_grow sb 1 else Value sb) = Value sb'"
      "strbuf_room sb' s 1"
    using grow_rep [OF assms, of 1] avail_room [OF assms, of 1] by (cases "strbuf_avail sb = 0") auto
  then obtain t where t: "sb' = heap_buf s t" "1 < length t" "length s + length t \<le> SIZE_MAX"
    by (auto elim: room_heap)
  then obtain x y u where u: "t = x # y # u"
    by (cases t; cases "tl t") auto
  then have "heap_buf s t\<lparr>sb_len := length s + 1, sb_buf := Heap (List.map Some (s @ [c]) @ Some 0 # u)\<rparr> =
      heap_buf (s @ [c]) (Some 0 # u)"
    by (simp add: heap_buf_def)
  then have "strbuf_addch sb c = Value (heap_buf (s @ [c]) (Some 0 # u))"
    using sb'(1) t(1) u by (simp add: strbuf_addch_def overwrite_def Let_def)
  moreover have "strbuf_rep (heap_buf (s @ [c]) (Some 0 # u)) (s @ [c])"
    using t u by (intro rep_heap) simp
  ultimately show ?thesis
    by (simp add: makes_Value)
qed (use assms in \<open>simp add: strbuf_addch_def makes_def rep_grow_Failure\<close>)

lemma complete_makes:
  assumes "strbuf_rep sb s"
  shows "makes (strbuf_complete sb c) (if s = [] \<or> last s = c then s else s @ [c])"
  using assms mem_byte_rep [OF assms, of "length s - 1"] addch_makes [OF assms, of c]
  by (auto simp: strbuf_complete_def rep_len last_conv_nth makes_Value)

subsection \<open>Changing in place\<close>

lemma take_overwrite: "i \<le> length b \<Longrightarrow> k \<le> i \<Longrightarrow> take k (overwrite b i c) = take k b"
  by (simp add: overwrite_def min_absorb1)

lemma drop_overwrite: "i \<le> length b \<Longrightarrow> drop i (overwrite b i c) = c @ drop (i + length c) b"
  by (simp add: overwrite_def)

lemma length_overwrite [simp]: "i + length c \<le> length b \<Longrightarrow> length (overwrite b i c) = length b"
  by (simp add: overwrite_def)

lemma overwrite_in_front: "i + length c \<le> length b \<Longrightarrow> overwrite (b @ t) i c = overwrite b i c @ t"
  by (simp add: overwrite_def)

lemma map_overwrite: "List.map f (overwrite b i c) = overwrite (List.map f b) i (List.map f c)"
  by (simp add: overwrite_def take_map drop_map)

lemma overwrite_one: "i < length b \<Longrightarrow> overwrite b i [c] = b[i := c]"
  by (simp add: overwrite_def upd_conv_take_nth_drop)

lemma rep_overwrite:
  assumes "strbuf_rep sb s" "i + length d \<le> length s"
  shows "\<exists>buf. mem_write (sb_buf sb) i (List.map Some d) = Value buf \<and>
    strbuf_rep (sb\<lparr>sb_buf := buf\<rparr>) (overwrite s i d)"
  using assms(1)
proof (cases rule: rep_cases)
  case slop
  then show ?thesis
    using assms(2) by (auto simp: overwrite_def STRBUF_INIT_def strbuf_rep_def)
next
  case (heap t)
  have "strbuf_rep (heap_buf (overwrite s i d) (Some 0 # t)) (overwrite s i d)"
    using assms(2) heap by (intro rep_heap) simp
  moreover have "heap_buf (overwrite s i d) (Some 0 # t) =
      sb\<lparr>sb_buf := Heap (overwrite (List.map Some s @ Some 0 # t) i (List.map Some d))\<rparr>"
    using assms(2) heap by (simp add: heap_buf_def overwrite_in_front map_overwrite)
  ultimately show ?thesis
    using assms(2) heap by auto
qed

text \<open>Cutting the text at \<open>n\<close>: a NUL there, and the length.\<close>

lemma rep_cut:
  assumes "strbuf_rep sb s" "n \<le> length s"
  shows "\<exists>buf. mem_write (sb_buf sb) n [Some 0] = Value buf \<and>
    strbuf_rep (sb\<lparr>sb_len := n, sb_buf := buf\<rparr>) (take n s)"
  using assms(1)
proof (cases rule: rep_cases)
  case slop
  then show ?thesis
    using assms(2) by (auto simp: overwrite_def STRBUF_INIT_def strbuf_rep_def)
next
  case (heap t)
  obtain sb' where "strbuf_setlen sb n = Value sb'" "strbuf_rep sb' (take n s)"
    using setlen_prefix [OF assms] by auto
  then show ?thesis
    using heap assms(2) by (auto simp: strbuf_setlen_def)
qed

definition rtrim :: "byte list \<Rightarrow> byte list" where
  "rtrim s = rev (dropWhile isspace (rev s))"

declare rtrim_len.simps [simp del] ltrim_pos.simps [simp del] tolower_loop.simps [simp del]

lemma rtrim_snoc: "rtrim (s @ [c]) = (if isspace c then rtrim s else s @ [c])"
  by (simp add: rtrim_def)

lemma rtrim_prefix: "rtrim s = take (length (rtrim s)) s"
proof (induction s rule: rev_induct)
  case (snoc c s)
  have "length (rtrim s) \<le> length s"
    by (metis length_rev length_dropWhile_le rtrim_def)
  then show ?case
    using snoc by (simp add: rtrim_snoc)
qed (simp add: rtrim_def)

lemma rtrim_len_rep:
  "strbuf_rep sb s \<Longrightarrow> n \<le> length s \<Longrightarrow> rtrim_len (sb_buf sb) n = Value (length (rtrim (take n s)))"
proof (induction n)
  case (Suc n)
  then show ?case
    by (subst rtrim_len.simps) (simp add: mem_byte_rep take_Suc_conv_app_nth rtrim_snoc)
qed (simp add: rtrim_len.simps rtrim_def)

lemma length_rtrim: "length (rtrim s) \<le> length s"
  by (metis length_take min.cobounded1 rtrim_prefix)

lemma rtrim_makes:
  assumes "strbuf_rep sb s"
  shows "makes (strbuf_rtrim sb) (rtrim s)"
  using rtrim_len_rep [OF assms, of "length s"] rep_cut [OF assms length_rtrim] rtrim_prefix [of s]
  by (auto simp: strbuf_rtrim_def rep_len [OF assms] makes_Value)

lemma ltrim_pos_rep:
  "strbuf_rep sb s \<Longrightarrow> i + n = length s \<Longrightarrow>
   ltrim_pos (sb_buf sb) i n =
     Value (length s - length (dropWhile isspace (drop i s)), length (dropWhile isspace (drop i s)))"
proof (induction n arbitrary: i)
  case (Suc n)
  have "drop i s = s ! i # drop (Suc i) s"
    using Suc.prems(2) by (simp add: Cons_nth_drop_Suc)
  then show ?case
    using Suc.prems Suc.IH [of "Suc i"] by (subst ltrim_pos.simps) (auto simp: mem_byte_rep)
qed (simp add: ltrim_pos.simps)

lemma ltrim_makes:
  assumes "strbuf_rep sb s"
  shows "makes (strbuf_ltrim sb) (dropWhile isspace s)"
proof -
  define t where "t = dropWhile isspace s"
  have t: "length t \<le> length s" "drop (length s - length t) s = t"
    using length_dropWhile_le [of isspace s] length_takeWhile_le [of isspace s]
    by (simp_all add: t_def dropWhile_eq_drop)
  have c: "mem_cells (sb_buf sb) (length s - length t) (length t) = Value (List.map Some t)"
    using mem_cells_rep [OF assms, of "length s - length t" "length t"] t by simp
  obtain buf where buf: "mem_write (sb_buf sb) 0 (List.map Some t) = Value buf"
      "strbuf_rep (sb\<lparr>sb_buf := buf\<rparr>) (overwrite s 0 t)"
    using rep_overwrite [OF assms, of 0 t] t by auto
  obtain buf' where buf': "mem_write buf (length t) [Some 0] = Value buf'"
      "strbuf_rep (sb\<lparr>sb_len := length t, sb_buf := buf'\<rparr>) t"
    using rep_cut [OF buf(2), of "length t"] t by (auto simp: overwrite_def)
  show ?thesis
    using ltrim_pos_rep [OF assms, of 0 "length s"] c buf(1) buf'
    by (simp add: strbuf_ltrim_def rep_len [OF assms] makes_Value t_def [symmetric])
qed

lemma tolower_loop_rep:
  "strbuf_rep sb s \<Longrightarrow> p \<le> length s \<Longrightarrow>
   \<exists>buf. tolower_loop (sb_buf sb) p (length s) = Value buf \<and>
     strbuf_rep (sb\<lparr>sb_buf := buf\<rparr>) (take p s @ List.map tolower (drop p s))"
proof (induction "length s - p" arbitrary: sb s p)
  case 0
  then show ?case
    by (simp add: tolower_loop.simps)
next
  case (Suc n)
  then have p: "p < length s"
    by simp
  obtain buf where buf: "mem_write (sb_buf sb) p [Some (tolower (s ! p))] = Value buf"
      "strbuf_rep (sb\<lparr>sb_buf := buf\<rparr>) (s[p := tolower (s ! p)])"
    using rep_overwrite [OF Suc.prems(1), of p "[tolower (s ! p)]"] p by (auto simp: overwrite_one)
  have "take (Suc p) (s[p := tolower (s ! p)]) @ List.map tolower (drop (Suc p) s) =
      take p s @ List.map tolower (drop p s)"
    using p by (simp add: take_Suc_conv_app_nth Cons_nth_drop_Suc [symmetric])
  then show ?case
    using Suc.hyps(1) [OF _ buf(2), of "Suc p"] Suc.hyps(2) Suc.prems p buf(1)
    by (subst tolower_loop.simps) (simp add: mem_byte_rep)
qed

lemma tolower_makes:
  assumes "strbuf_rep sb s"
  shows "makes (strbuf_tolower sb) (List.map tolower s)"
  using tolower_loop_rep [OF assms, of 0] by (auto simp: strbuf_tolower_def rep_len [OF assms] makes_Value)

subsection \<open>Replacing a part\<close>

lemma splice_beyond:
  assumes "strbuf_rep sb s" "length s < pos + n"
  shows "strbuf_splice sb pos n data dlen = Failure"
  using assms by (auto simp: strbuf_splice_def rep_len)

lemma splice_memory:
  assumes "pos + n \<le> length s" "length d \<le> n + length t"
  defines "b \<equiv> overwrite (List.map Some s @ t) (pos + length d) (List.map Some (drop (pos + n) s))"
  shows "\<exists>u. overwrite b pos (List.map Some d) = List.map Some (take pos s @ d @ drop (pos + n) s) @ u \<and>
    length u + length d = length t + n"
proof (intro exI conjI)
  have l: "length (take pos s @ d @ drop (pos + n) s) = length s + length d - n"
    using assms(1) by simp
  have "take pos b = List.map Some (take pos s)"
    using assms(1,2) by (simp add: b_def take_overwrite take_map)
  moreover have "drop (pos + length d) b = List.map Some (drop (pos + n) s) @
      drop (length s + length d - n) (List.map Some s @ t)"
    using assms(1,2) by (simp add: b_def drop_overwrite) (simp add: add.commute)
  ultimately show "overwrite b pos (List.map Some d) = List.map Some (take pos s @ d @ drop (pos + n) s) @
      drop (length s + length d - n) (List.map Some s @ t)"
    by (simp add: overwrite_def)
  show "length (drop (length s + length d - n) (List.map Some s @ t)) + length d = length t + n"
    using assms(1,2) by simp
qed

lemma splice_makes:
  assumes "strbuf_rep sb s" "pos + n \<le> length s" "dlen \<le> length data"
  shows "makes (strbuf_splice sb pos n data dlen) (take pos s @ take dlen data @ drop (pos + n) s)"
proof -
  define d v where "d = take dlen data" and "v = take pos s @ d @ drop (pos + n) s"
  have lens: "length d = dlen" "length v = length s + dlen - n"
    using assms by (auto simp: d_def v_def)
  have no: "\<not> unsigned_add_overflows pos n"
    using assms(2) rep_small [OF assms(1)] by (simp add: unsigned_add_overflows_def)
  have "makes (strbuf_splice sb pos n data dlen) v"
  proof (cases "dlen \<ge> n \<and> length s + (dlen - n) \<ge> SIZE_MAX")
    case True
    then show ?thesis
      using assms no lens by (auto simp: strbuf_splice_def rep_len makes_def rep_grow_Failure)
  next
    case False
    obtain sb' t where sb': "(if dlen \<ge> n then strbuf_grow sb (dlen - n) else Value sb) = Value sb'"
        "sb' = heap_buf s t" "dlen < n + length t" "length s + length t \<le> SIZE_MAX" "strbuf_rep sb' s"
    proof (cases "dlen \<ge> n")
      case True
      then show thesis
        using False grow_rep [OF assms(1), of "dlen - n"] that
        by (auto simp: strbuf_room_def)
    next
      case less: False
      show thesis
        using assms(1)
      proof (cases rule: rep_cases)
        case (heap t)
        then show thesis
          using that [of sb "Some 0 # t"] less assms(1) by auto
      qed (use less assms in simp)
    qed
    obtain u where u: "overwrite (overwrite (List.map Some s @ t) (pos + dlen) (List.map Some (drop (pos + n) s)))
        pos (List.map Some d) = List.map Some v @ u" "length u + dlen = length t + n"
      using splice_memory [of pos n s d t] assms(2) sb'(3) lens by (auto simp: v_def)
    then obtain x w where w: "u = x # w"
      using sb'(3) by (cases u) auto
    have cells: "mem_cells (sb_buf sb') (pos + n) (length s - pos - n) = Value (List.map Some (drop (pos + n) s))"
      using mem_cells_rep [OF sb'(5), of "pos + n" "length s - pos - n"] assms(2) by simp
    have "strbuf_setlen (sb'\<lparr>sb_buf := Heap (List.map Some v @ u)\<rparr>) (length v) = Value (heap_buf v (Some 0 # w))"
      using sb' u w lens assms(2) by (intro setlen_heap) auto
    then have "strbuf_splice sb pos n data dlen = Value (heap_buf v (Some 0 # w))"
      using assms no sb'(1-4) cells lens u
      by (simp add: strbuf_splice_def rep_len data_bytes_def d_def [symmetric] and_then_assoc)
    moreover have "strbuf_rep (heap_buf v (Some 0 # w)) v"
      using u w lens sb' assms(2) by (intro rep_heap) simp
    ultimately show ?thesis
      by (simp add: makes_Value)
  qed
  then show ?thesis
    by (simp add: v_def d_def)
qed

subsection \<open>Formatted output\<close>

lemma vsnprintf_room:
  assumes "length T < n" "n = length t" "length T < 2 ^ 31"
  shows "\<exists>u. vsnprintf (Heap (List.map Some s @ t)) (length s) n T =
    Value (Heap (List.map Some (s @ T) @ Some 0 # u), int (length T)) \<and> length T + length u + 1 = length t"
  using assms by (auto simp: vsnprintf_def overwrite_def)

lemma vsnprintf_short:
  assumes "n \<le> length T" "n = length t" "t \<noteq> []" "length T < 2 ^ 31"
  shows "\<exists>t'. vsnprintf (Heap (List.map Some s @ t)) (length s) n T =
    Value (Heap (List.map Some s @ t'), int (length T)) \<and> length t' = length t"
  using assms by (auto simp: vsnprintf_def overwrite_def min_absorb2)

lemma avail_heap [simp]: "strbuf_avail (heap_buf s t\<lparr>sb_buf := b\<rparr>) = length t - 1"
  by (cases t) (auto simp: strbuf_avail_def)

lemma avail_heap_buf [simp]: "strbuf_avail (heap_buf s t) = length t - 1"
  by (cases t) (auto simp: strbuf_avail_def)

lemma vaddf_room:
  assumes "length T < length t" "length s + length t \<le> SIZE_MAX" "length T < 2 ^ 31"
  shows "\<exists>sb. and_then (vsnprintf (Heap (List.map Some s @ t)) (length s) (length t) T)
      (\<lambda>(buf, n). if nat n > strbuf_avail (heap_buf s t\<lparr>sb_buf := buf\<rparr>) then Failure
        else strbuf_setlen (heap_buf s t\<lparr>sb_buf := buf\<rparr>) (length s + nat n)) = Value sb \<and> strbuf_rep sb (s @ T)"
proof -
  obtain u where u: "vsnprintf (Heap (List.map Some s @ t)) (length s) (length t) T =
      Value (Heap (List.map Some (s @ T) @ Some 0 # u), int (length T))" "length T + length u + 1 = length t"
    using vsnprintf_room [OF assms(1) refl assms(3)] by blast
  have "strbuf_setlen (heap_buf s t\<lparr>sb_buf := Heap (List.map Some (s @ T) @ Some 0 # u)\<rparr>) (length (s @ T)) =
      Value (heap_buf (s @ T) (Some 0 # u))"
    using u(2) by (intro setlen_heap) simp_all
  moreover have "strbuf_rep (heap_buf (s @ T) (Some 0 # u)) (s @ T)"
    using u(2) assms(2) by (intro rep_heap) simp
  ultimately show ?thesis
    using u by auto
qed

lemma vaddf_grown:
  assumes "strbuf_room sb s 0" "length T < 2 ^ 31"
  shows "makes (and_then (vsnprintf (sb_buf sb) (sb_len sb) (sb_alloc sb - sb_len sb) T) (\<lambda>(buf, n).
     let sb = sb\<lparr>sb_buf := buf\<rparr>
     in if n < 0 then Failure
        else if nat n > strbuf_avail sb then
          and_then (strbuf_grow sb (nat n)) (\<lambda>sb.
          and_then (vsnprintf (sb_buf sb) (sb_len sb) (sb_alloc sb - sb_len sb) T) (\<lambda>(buf, n).
          let sb = sb\<lparr>sb_buf := buf\<rparr>
          in if nat n > strbuf_avail sb then Failure
             else strbuf_setlen sb (sb_len sb + nat n)))
        else strbuf_setlen sb (sb_len sb + nat n))) (s @ T)" (is "makes ?m _")
proof -
  obtain t where t: "sb = heap_buf s t" "t \<noteq> []" "length s + length t \<le> SIZE_MAX"
    using assms(1) by (auto elim: room_heap)
  show ?thesis
  proof (cases "length T < length t")
    case True
    then obtain u where u: "vsnprintf (Heap (List.map Some s @ t)) (length s) (length t) T =
        Value (Heap (List.map Some (s @ T) @ Some 0 # u), int (length T))" "length T + length u + 1 = length t"
      using vsnprintf_room [of T "length t" t s] assms(2) by blast
    then show ?thesis
      using vaddf_room [OF True t(3) assms(2)] t by (auto simp: Let_def strbuf_avail_def makes_Value)
  next
    case False
    then obtain t' where t': "vsnprintf (Heap (List.map Some s @ t)) (length s) (length t) T =
        Value (Heap (List.map Some s @ t'), int (length T))" "length t' = length t"
      using vsnprintf_short [of "length t" T t s] t assms(2) by auto
    then have sb': "heap_buf s t\<lparr>sb_buf := Heap (List.map Some s @ t')\<rparr> = heap_buf s t'"
      by (simp add: heap_buf_def)
    have long: "strbuf_avail (heap_buf s t') < length T"
      using False t' t by (cases t) (auto simp: strbuf_avail_def)
    show ?thesis
    proof (cases "length s + length T < SIZE_MAX")
      case True
      obtain u where u: "strbuf_grow (heap_buf s t') (length T) = Value (heap_buf s (t' @ u))"
          "length T < length (t' @ u)" "length s + length (t' @ u) \<le> SIZE_MAX"
        by (rule grow_heap [of t' s "length T"]) (use t t' True in auto)
      show ?thesis
        using vaddf_room [OF u(2,3) assms(2)] t' t long u(1) by (auto simp: Let_def makes_Value sb' cong: if_cong)
    next
      case nofit: False
      then show ?thesis
        using t' t sb' long by (simp add: Let_def makes_def grow_Failure)
    qed
  qed
qed

lemma vaddf_makes:
  assumes "strbuf_rep sb s" "length T < 2 ^ 31"
  shows "makes (strbuf_vaddf sb T) (s @ T) \<or> strbuf_vaddf sb T = Failure \<and> SIZE_MAX \<le> length s + 64"
proof (cases "strbuf_avail sb = 0 \<and> SIZE_MAX \<le> length s + 64")
  case True
  then show ?thesis
    using rep_grow_Failure [OF assms(1), of 64] by (simp add: strbuf_vaddf_def)
next
  case False
  then obtain sb' where sb': "(if strbuf_avail sb = 0 then strbuf_grow sb 64 else Value sb) = Value sb'"
      "strbuf_room sb' s 0"
    using grow_rep [OF assms(1), of 64] avail_room [OF assms(1), of 1]
    by (cases "strbuf_avail sb = 0") (auto dest: room_0)
  show ?thesis
    using vaddf_grown [OF sb'(2) assms(2)] sb'(1) by (simp add: strbuf_vaddf_def)
qed

lemma vaddf_too_long:
  assumes "strbuf_rep sb s" "length T \<ge> 2 ^ 31"
  shows "strbuf_vaddf sb T = Failure"
proof (cases "strbuf_avail sb = 0")
  case True
  then show ?thesis
    using grow_makes [OF assms(1), of 64] assms(2) by (auto simp: strbuf_vaddf_def vsnprintf_def Let_def split: if_splits)
qed (use assms in \<open>simp add: strbuf_vaddf_def vsnprintf_def Let_def\<close>)

end
