(* ===== verification/Git_Strbuf_Calls.thy ===== *)
theory Git_Strbuf_Calls
  imports Git_Strbuf "HOL-Library.Sublist"
begin

text \<open>
  The contract of \<^verbatim>\<open>strbuf.h\<close>: its invariants, that every operation keeps them and stays inside
  the memory of the buffer, and the text each operation leaves.
\<close>

subsection \<open>The invariants\<close>

text \<open>
  The memory is the shared byte, with nothing allocated; or it has \<open>alloc\<close> bytes, more than
  the length, with a NUL at the length and only written bytes before.
\<close>

definition strbuf_wf :: "strbuf \<Rightarrow> bool" where
  "strbuf_wf sb =
     (case sb_buf sb of
        Slopbuf \<Rightarrow> sb_alloc sb = 0 \<and> sb_len sb = 0
      | Heap b \<Rightarrow> length b = sb_alloc sb \<and> sb_alloc sb \<le> SIZE_MAX \<and> sb_len sb < sb_alloc sb \<and>
          b ! sb_len sb = Some 0 \<and> None \<notin> set (take (sb_len sb) b))"

definition strbuf_text :: "strbuf \<Rightarrow> byte list" where
  "strbuf_text sb = List.map the (take (sb_len sb) (cells_of (sb_buf sb)))"

lemma rep_wf:
  assumes "strbuf_rep sb s"
  shows "strbuf_wf sb" "strbuf_text sb = s"
  using assms by (auto elim!: rep_cases simp: strbuf_wf_def strbuf_text_def nth_append)

lemma map_Some_the: "None \<notin> set c \<Longrightarrow> List.map Some (List.map the c) = c"
  by (induction c) auto

lemma wf_rep: "strbuf_wf sb \<Longrightarrow> strbuf_rep sb (strbuf_text sb)"
proof (cases "sb_buf sb")
  case (Heap b)
  assume wf: "strbuf_wf sb"
  define n where "n = sb_len sb"
  have n: "n < length b" "b ! n = Some 0" "None \<notin> set (take n b)" "length b = sb_alloc sb" "length b \<le> SIZE_MAX"
    using wf Heap by (auto simp: strbuf_wf_def n_def)
  have txt': "strbuf_text sb = List.map the (take n b)"
    using Heap by (simp add: strbuf_text_def n_def)
  have "b = List.map Some (List.map the (take n b)) @ Some 0 # drop (Suc n) b"
    unfolding map_Some_the [OF n(3)] using id_take_nth_drop [OF n(1)] n(2) by simp
  then have "sb = heap_buf (strbuf_text sb) (Some 0 # drop (Suc n) b)"
    using Heap n by (simp add: heap_buf_def txt' min_absorb2 n_def)
  moreover have "strbuf_rep (heap_buf (strbuf_text sb) (Some 0 # drop (Suc n) b)) (strbuf_text sb)"
    using n by (intro rep_heap) (simp add: txt' min_absorb2)
  ultimately show ?thesis
    by simp
next
  case Slopbuf
  assume "strbuf_wf sb"
  then show ?thesis
    using Slopbuf by (auto simp: strbuf_wf_def strbuf_text_def strbuf_rep_def STRBUF_INIT_def)
qed

lemma wf_iff_rep: "strbuf_wf sb \<longleftrightarrow> (\<exists>s. strbuf_rep sb s)"
  using wf_rep rep_wf by blast

subsection \<open>Comparing\<close>

lemma take_less_less: "take n s < take n t \<Longrightarrow> s < (t :: 'a::linorder list)"
proof (induction n arbitrary: s t)
  case (Suc n)
  then show ?case
    by (cases s; cases t) auto
qed simp

lemma prefix_less: "take (length s) t = s \<Longrightarrow> length s < length t \<Longrightarrow> s < (t :: 'a::linorder list)"
proof (induction s arbitrary: t)
  case (Cons a s)
  then show ?case
    by (cases t) auto
next
  case Nil
  then show ?case
    by (cases t) auto
qed

lemma strbuf_cmp_rep:
  assumes "strbuf_rep a s" "strbuf_rep b t" "min (length s) (length t) < 2 ^ 31"
  shows "\<exists>c. strbuf_cmp a b = Value c \<and> sgn c = compare_keys id s t"
proof -
  define n where "n = min (length s) (length t)"
  have n: "to_size (to_int32 (if sb_len a < sb_len b then sb_len a else sb_len b)) = n"
  proof -
    have "n < 2 ^ 31" "n \<le> SIZE_MAX" "(if sb_len a < sb_len b then sb_len a else sb_len b) = n"
      using assms rep_small [OF assms(1)] by (auto simp: rep_len n_def min_def)
    then show ?thesis
      by (simp add: to_int32_small to_size_int)
  qed
  have cmp: "sgn (memcmp (take n s) (take n t) n) = compare_keys id (take n s) (take n t)"
    using memcmp_sgn [of n "take n s" "take n t"] by (simp add: n_def compare_keys_def)
  have "n \<le> length s" "n \<le> length t"
    by (simp_all add: n_def)
  then have v: "strbuf_cmp a b = Value (if memcmp (take n s) (take n t) n \<noteq> 0 then memcmp (take n s) (take n t) n
      else if length s < length t then - 1 else of_bool (length s \<noteq> length t))"
    using mem_bytes_rep [OF assms(1), of 0 n] mem_bytes_rep [OF assms(2), of 0 n]
    by (simp add: strbuf_cmp_def n Let_def) (simp add: rep_len [OF assms(1)] rep_len [OF assms(2)])
  show ?thesis
  proof (cases "take n s = take n t")
    case False
    then have "compare_keys id (take n s) (take n t) = compare_keys id s t"
      using take_less_less [of n s t] take_less_less [of n t s] by (auto simp: compare_keys_def)
    moreover have "compare_keys id (take n s) (take n t) \<noteq> 0"
      using False by (auto simp: compare_keys_def)
    ultimately show ?thesis
      using cmp v by auto
  next
    case True
    have "memcmp (take n s) (take n t) n = 0"
      using cmp True by (simp add: compare_keys_def sgn_0_0)
    moreover have "s = t \<or> length s < length t \<and> s < t \<or> length t < length s \<and> t < s"
      using True prefix_less [of s t] prefix_less [of t s]
      by (cases "length s" "length t" rule: linorder_cases) (auto simp: n_def min_def)
    ultimately show ?thesis
      using v by (auto simp: compare_keys_def)
  qed
qed

lemma memcmp_eq: "length s = n \<Longrightarrow> length t = n \<Longrightarrow> memcmp s t n = 0 \<longleftrightarrow> s = t"
  using cmp_by_keys_zero [of "\<lambda>s t. memcmp s t n" s t "take n"] memcmp_sgn [of n s t] by simp

lemma setlen_len: "strbuf_setlen (sb\<lparr>sb_len := k\<rparr>) n = strbuf_setlen sb n"
  by (simp add: strbuf_setlen_def)

lemma suffix_drop_iff: "suffix t s \<longleftrightarrow> length t \<le> length s \<and> drop (length s - length t) s = t"
  by (auto simp: suffix_def) (metis append_take_drop_id)

lemma strip_suffix_rep:
  assumes "strbuf_rep sb s"
  shows "\<exists>sb'. strbuf_strip_suffix sb t = Value (suffix t s, sb') \<and>
    strbuf_rep sb' (if suffix t s then take (length s - length t) s else s)"
proof -
  have len: "sb\<lparr>sb_len := length s\<rparr> = sb"
    using rep_len [OF assms] by (metis strbuf.surjective strbuf.update_convs(2) strbuf.select_convs(2))
  have rep: "strbuf_rep (sb\<lparr>sb_len := length s\<rparr>) s"
    using assms len by simp
  show ?thesis
  proof (cases "suffix t s")
    case True
    then have "length t \<le> length s" "drop (length s - length t) s = t"
      by (simp_all add: suffix_drop_iff)
    then show ?thesis
      using True assms setlen_prefix [OF assms, of "length s - length t"]
      by (auto simp: strbuf_strip_suffix_def strip_suffix_mem_def rep_len mem_bytes_rep memcmp_eq setlen_len)
  next
    case False
    then show ?thesis
      using assms rep
      by (auto simp: strbuf_strip_suffix_def strip_suffix_mem_def rep_len mem_bytes_rep memcmp_eq suffix_drop_iff
          not_less Let_def)
  qed
qed

subsection \<open>The calls\<close>

text \<open>
  The calls of the interface that change a buffer. \<open>Call_vaddf\<close> names the text its format and
  arguments produce, \<open>Call_attach\<close> the text and the rest of the memory attached.
\<close>

datatype strbuf_op =
  Call_release | Call_detach | Call_attach "byte list" cells | Call_grow nat | Call_setlen nat
| Call_trim | Call_rtrim | Call_ltrim | Call_tolower
| Call_addch byte | Call_addchars byte nat | Call_add "byte list" nat | Call_addstr "byte list"
| Call_addbuf strbuf | Call_complete byte | Call_addf "byte list"
| Call_insert nat "byte list" nat | Call_remove nat nat | Call_splice nat nat "byte list" nat
| Call_strip_suffix "byte list"

fun strbuf_call :: "strbuf_op \<Rightarrow> strbuf \<Rightarrow> strbuf outcome" where
  "strbuf_call Call_release sb = strbuf_release sb"
| "strbuf_call Call_detach sb = and_then (strbuf_detach sb) (\<lambda>(_, _, sb). Value sb)"
| "strbuf_call (Call_attach t d) sb = strbuf_attach sb (List.map Some t @ d) (length t) (length t + length d)"
| "strbuf_call (Call_grow n) sb = strbuf_grow sb n"
| "strbuf_call (Call_setlen n) sb = strbuf_setlen sb n"
| "strbuf_call Call_trim sb = strbuf_trim sb"
| "strbuf_call Call_rtrim sb = strbuf_rtrim sb"
| "strbuf_call Call_ltrim sb = strbuf_ltrim sb"
| "strbuf_call Call_tolower sb = strbuf_tolower sb"
| "strbuf_call (Call_addch c) sb = strbuf_addch sb c"
| "strbuf_call (Call_addchars c n) sb = strbuf_addchars sb c n"
| "strbuf_call (Call_add data n) sb = strbuf_add sb data n"
| "strbuf_call (Call_addstr s) sb = strbuf_addstr sb s"
| "strbuf_call (Call_addbuf sb2) sb = strbuf_addbuf sb sb2"
| "strbuf_call (Call_complete c) sb = strbuf_complete sb c"
| "strbuf_call (Call_addf t) sb = strbuf_addf sb t"
| "strbuf_call (Call_insert pos data n) sb = strbuf_insert sb pos data n"
| "strbuf_call (Call_remove pos n) sb = strbuf_remove sb pos n"
| "strbuf_call (Call_splice pos n data dlen) sb = strbuf_splice sb pos n data dlen"
| "strbuf_call (Call_strip_suffix s) sb = and_then (strbuf_strip_suffix sb s) (\<lambda>(_, sb). Value sb)"

text \<open>
  What the caller owes: the memory it passes has the bytes it says, a buffer it passes is one,
  and \<open>strbuf_setlen\<close> does not make the text longer than what was written.
\<close>

fun call_ok :: "strbuf_op \<Rightarrow> strbuf \<Rightarrow> bool" where
  "call_ok (Call_attach t d) sb \<longleftrightarrow> d \<noteq> [] \<and> length t + length d \<le> SIZE_MAX"
| "call_ok (Call_setlen n) sb \<longleftrightarrow> n \<le> sb_len sb"
| "call_ok (Call_add data n) sb \<longleftrightarrow> n \<le> length data"
| "call_ok (Call_addbuf sb2) sb \<longleftrightarrow> strbuf_wf sb2"
| "call_ok (Call_insert pos data n) sb \<longleftrightarrow> n \<le> length data"
| "call_ok (Call_splice pos n data dlen) sb \<longleftrightarrow> dlen \<le> length data"
| "call_ok _ sb \<longleftrightarrow> True"

text \<open>The text a call leaves, \<open>None\<close> where it has to die.\<close>

definition splice_text :: "nat \<Rightarrow> nat \<Rightarrow> byte list \<Rightarrow> nat \<Rightarrow> byte list \<Rightarrow> byte list option" where
  "splice_text pos n data dlen s =
     (if pos + n \<le> length s then Some (take pos s @ take dlen data @ drop (pos + n) s) else None)"

fun call_text :: "strbuf_op \<Rightarrow> byte list \<Rightarrow> byte list option" where
  "call_text Call_release s = Some []"
| "call_text Call_detach s = Some []"
| "call_text (Call_attach t d) s = Some t"
| "call_text (Call_grow n) s = (if length s + n < SIZE_MAX then Some s else None)"
| "call_text (Call_setlen n) s = Some (take n s)"
| "call_text Call_trim s = Some (dropWhile isspace (rtrim s))"
| "call_text Call_rtrim s = Some (rtrim s)"
| "call_text Call_ltrim s = Some (dropWhile isspace s)"
| "call_text Call_tolower s = Some (List.map tolower s)"
| "call_text (Call_addch c) s = Some (s @ [c])"
| "call_text (Call_addchars c n) s = Some (s @ replicate n c)"
| "call_text (Call_add data n) s = Some (s @ take n data)"
| "call_text (Call_addstr t) s = Some (s @ t)"
| "call_text (Call_addbuf sb2) s = Some (s @ strbuf_text sb2)"
| "call_text (Call_complete c) s = Some (if s = [] \<or> last s = c then s else s @ [c])"
| "call_text (Call_addf t) s = (if length t < 2 ^ 31 then Some (s @ t) else None)"
| "call_text (Call_insert pos data n) s = splice_text pos 0 data n s"
| "call_text (Call_remove pos n) s = splice_text pos n [] 0 s"
| "call_text (Call_splice pos n data dlen) s = splice_text pos n data dlen s"
| "call_text (Call_strip_suffix t) s = Some (if suffix t s then take (length s - length t) s else s)"

text \<open>
  The outcome of a call that should leave \<open>r\<close>: the code dies where there is no such text or it
  does not fit in a \<open>size_t\<close>. Formatting may also die within 64 bytes of that bound, which
  only \<open>tight\<close> allows.
\<close>

definition leaves :: "bool \<Rightarrow> strbuf outcome \<Rightarrow> byte list option \<Rightarrow> bool" where
  "leaves tight m r \<longleftrightarrow>
     (case r of Some t \<Rightarrow> makes m t \<or> tight \<and> m = Failure | None \<Rightarrow> m = Failure)"

lemma leaves_Some: "makes m t \<Longrightarrow> leaves b m (Some t)"
  by (simp add: leaves_def)

lemma splice_leaves:
  assumes "strbuf_rep sb s" "dlen \<le> length data"
  shows "leaves b (strbuf_splice sb pos n data dlen) (splice_text pos n data dlen s)"
  using splice_makes [OF assms(1) _ assms(2), of pos n] splice_beyond [OF assms(1), of pos n data dlen]
  by (auto simp: leaves_def splice_text_def)

lemma trim_makes: "strbuf_rep sb s \<Longrightarrow> makes (strbuf_trim sb) (dropWhile isspace (rtrim s))"
  using rtrim_makes [of sb s] length_rtrim [of s] rep_small [of sb s] ltrim_makes
  by (fastforce simp: strbuf_trim_def makes_def)

lemma call_leaves:
  assumes rep: "strbuf_rep sb s" and ok: "call_ok c sb"
  shows "leaves (SIZE_MAX \<le> length s + 64) (strbuf_call c sb) (call_text c s)"
proof (cases c)
  case Call_release
  then show ?thesis
    using release_makes [OF rep] by (simp add: leaves_def makes_Value)
next
  case Call_detach
  then show ?thesis
    using detach_rep [OF rep] by (auto simp: leaves_def makes_Value)
next
  case (Call_attach t d)
  then show ?thesis
    using attach_makes [OF rep] ok by (simp add: leaves_Some)
next
  case (Call_grow n)
  then show ?thesis
    using grow_makes [OF rep, of n] by (auto simp: leaves_def makes_Value)
next
  case (Call_setlen n)
  then show ?thesis
    using setlen_prefix [OF rep, of n] ok rep_len [OF rep] by (auto simp: leaves_def makes_Value)
next
  case (Call_addf t)
  then show ?thesis
    using vaddf_makes [OF rep, of t] vaddf_too_long [OF rep, of t] by (auto simp: leaves_def strbuf_addf_def)
next
  case (Call_insert pos data n)
  then show ?thesis
    using splice_leaves [OF rep] ok by (simp add: strbuf_insert_def)
next
  case (Call_remove pos n)
  then show ?thesis
    using splice_leaves [OF rep] ok by (simp add: strbuf_remove_def)
next
  case (Call_splice pos n data dlen)
  then show ?thesis
    using splice_leaves [OF rep] ok by simp
next
  case (Call_strip_suffix t)
  then show ?thesis
    using strip_suffix_rep [OF rep, of t] by (auto simp: leaves_def makes_Value)
next
  case (Call_addbuf sb2)
  then show ?thesis
    using addbuf_makes [OF rep] ok wf_rep by (simp add: leaves_Some)
next
  case (Call_add data n)
  then show ?thesis
    using add_makes [OF rep] ok by (simp add: leaves_Some)
next
  case (Call_complete x)
  then show ?thesis
    using complete_makes [OF rep, of x] by (simp only: strbuf_call.simps call_text.simps leaves_Some)
qed (use rep in \<open>auto intro!: leaves_Some trim_makes rtrim_makes ltrim_makes tolower_makes addch_makes
  addchars_makes addstr_makes complete_makes simp del: if_split\<close>)

subsection \<open>Type safety\<close>






text \<open>
  (C27) A buffer implements its text: on a buffer that holds \<open>s\<close>, every call leaves one that
  holds the text the call is specified to make of \<open>s\<close>. The code dies exactly where there is no
  such text (a part outside the buffer, formatted output beyond an \<open>int\<close>) or where the text and
  its NUL exceed a \<open>size_t\<close>; formatting may die 64 bytes earlier.
\<close>
theorem strbuf_refines_text:
  assumes "strbuf_wf sb" "call_ok c sb" "strbuf_text sb = s"
  shows "case call_text c s of
      None \<Rightarrow> strbuf_call c sb = Failure
    | Some t \<Rightarrow>
        if SIZE_MAX \<le> length t then strbuf_call c sb = Failure
        else (\<exists>sb'. strbuf_call c sb = Value sb' \<and> strbuf_wf sb' \<and> strbuf_text sb' = t) \<or>
          SIZE_MAX \<le> length s + 64 \<and> strbuf_call c sb = Failure"
  using call_leaves [OF wf_rep [OF assms(1)] assms(2)] rep_wf unfolding assms(3)
  by (fastforce simp: leaves_def makes_def split: option.splits if_splits)

theorem strbuf_refines_text_witness:
  "\<exists>sb. strbuf_call (Call_splice 0 0 [104, 105, 32] 2) STRBUF_INIT = Value sb \<and> strbuf_text sb = [104, 105]"
  using strbuf_refines_text [of STRBUF_INIT "Call_splice 0 0 [104, 105, 32] 2" "[]"] rep_wf [OF rep_init]
  by (auto simp: splice_text_def SIZE_MAX_def)

end
