(* ===== verification/Git_Strbuf_Text.thy ===== *)
theory Git_Strbuf_Text
  imports Git_Strbuf_Calls Git_Hex
begin

text \<open>
  Clients of the string buffers that write a text piece by piece: format strings, quoting and
  percent-encoding (\<^verbatim>\<open>strbuf.c\<close>), and the decoding of URLs (\<^verbatim>\<open>url.c\<close>). A C string is the list of
  the bytes before its NUL.
\<close>

subsection \<open>The interface of a buffer its clients append to\<close>

text \<open>A loop over the bytes of a text.\<close>

fun fold_outcome :: "('a \<Rightarrow> 'b \<Rightarrow> 'b outcome) \<Rightarrow> 'a list \<Rightarrow> 'b \<Rightarrow> 'b outcome" where
  "fold_outcome f [] b = Value b"
| "fold_outcome f (x # xs) b = and_then (f x b) (fold_outcome f xs)"

text \<open>
  The clients call \<open>put\<close>, which appends, and know of the buffer what it holds; \<open>limit\<close> bounds a
  text.
\<close>

locale text_sink =
  fixes holds :: "'b \<Rightarrow> byte list \<Rightarrow> bool" and limit :: nat and put :: "'b \<Rightarrow> byte list \<Rightarrow> 'b outcome"
  assumes holds_limit: "holds b s \<Longrightarrow> length s < limit"
    and put_holds: "holds b s \<Longrightarrow> length (s @ t) < limit \<Longrightarrow> \<exists>b'. put b t = Value b' \<and> holds b' (s @ t)"
    and put_dies: "holds b s \<Longrightarrow> \<not> length (s @ t) < limit \<Longrightarrow> put b t = Failure"
begin

definition produces :: "'b outcome \<Rightarrow> byte list \<Rightarrow> bool" where
  "produces m s \<longleftrightarrow> (if length s < limit then \<exists>b. m = Value b \<and> holds b s else m = Failure)"

lemma produces_put: "holds b s \<Longrightarrow> produces (put b t) (s @ t)"
  using put_holds put_dies by (auto simp: produces_def)

lemma produces_Value: "holds b s \<Longrightarrow> produces (Value b) s"
  using holds_limit by (auto simp: produces_def)

lemma produces_and_then:
  "produces m s \<Longrightarrow> (\<And>b. holds b s \<Longrightarrow> produces (f b) t) \<Longrightarrow> length s \<le> length t \<Longrightarrow> produces (and_then m f) t"
  by (cases "length s < limit") (auto simp: produces_def)

text \<open>A loop whose steps append the piece \<open>e x\<close> for each \<open>x\<close> appends all the pieces.\<close>

lemma produces_fold:
  assumes "\<And>x b s. x \<in> set xs \<Longrightarrow> holds b s \<Longrightarrow> produces (f x b) (s @ e x)" "holds b s"
  shows "produces (fold_outcome f xs b) (s @ concat (List.map e xs))"
  using assms
proof (induction xs arbitrary: b s)
  case (Cons x xs)
  show ?case
    unfolding fold_outcome.simps
  proof (rule produces_and_then [of _ "s @ e x"])
    fix b' assume "holds b' (s @ e x)"
    then show "produces (fold_outcome f xs b') (s @ concat (List.map e (x # xs)))"
      using Cons.IH [of b' "s @ e x"] Cons.prems(1) by simp
  qed (use Cons.prems in auto)
qed (simp add: produces_Value)

text \<open>Two appends make the append of both.\<close>

lemma produces_put_put: "holds b s \<Longrightarrow> produces (and_then (put b t) (\<lambda>b. put b u)) (s @ t @ u)"
  by (rule produces_and_then [of _ "s @ t"]) (auto intro: produces_put simp flip: append_assoc)

end

interpretation strbuf: text_sink strbuf_rep SIZE_MAX strbuf_addstr
  rewrites "text_sink.produces strbuf_rep SIZE_MAX = makes"
proof -
  show sink: "text_sink strbuf_rep SIZE_MAX strbuf_addstr"
    using addstr_makes by unfold_locales (auto simp: makes_def dest: rep_small)
  show "text_sink.produces strbuf_rep SIZE_MAX = makes"
    by (intro ext) (simp add: text_sink.produces_def [OF sink] makes_def)
qed

lemmas makes_put = strbuf.produces_put strbuf.produces_Value

subsection \<open>Format strings\<close>

function percentquote_loop :: "int \<Rightarrow> int \<Rightarrow> strbuf \<Rightarrow> strbuf \<Rightarrow> strbuf outcome" where
  "percentquote_loop i n src dst =
     (if i < n then
        and_then (mem_byte (sb_buf src) (nat i)) (\<lambda>c.
        and_then (if c = 37 then strbuf_addch dst 37 else Value dst) (\<lambda>dst.
        and_then (strbuf_addch dst c) (\<lambda>dst.
        percentquote_loop (i + 1) n src dst)))
      else Value dst)"
  by auto
termination by (relation "measure (\<lambda>(i, n, _). nat (n - i))") auto

definition strbuf_addbuf_percentquote :: "strbuf \<Rightarrow> strbuf \<Rightarrow> strbuf outcome" where
  "strbuf_addbuf_percentquote dst src = percentquote_loop 0 (to_int32 (sb_len src)) src dst"

type_synonym expand_fn = "strbuf \<Rightarrow> byte list \<Rightarrow> (nat \<times> strbuf) outcome"

lemma length_drop_Cons: "drop n xs = y # ys \<Longrightarrow> length ys < length xs"
  by (metis drop_all impossible_Cons length_drop diff_le_self not_less order.trans list.distinct(1))

text \<open>A callback that skips more than is left of the format sends the loop beyond its end.\<close>

function strbuf_expand :: "strbuf \<Rightarrow> byte list \<Rightarrow> expand_fn \<Rightarrow> strbuf outcome" where
  "strbuf_expand sb format fn =
     (let percent = length (takeWhile (\<lambda>c. c \<noteq> 37) format)
      in and_then (strbuf_add sb format percent) (\<lambda>sb.
         case drop percent format of
           [] \<Rightarrow> Value sb
         | _ # format \<Rightarrow>
             if format \<noteq> [] \<and> hd format = 37 then
               and_then (strbuf_addch sb 37) (\<lambda>sb. strbuf_expand sb (tl format) fn)
             else
               and_then (fn sb format) (\<lambda>(consumed, sb).
               if consumed \<noteq> 0 then
                 (if consumed \<le> length format then strbuf_expand sb (drop consumed format) fn else Fault)
               else and_then (strbuf_addch sb 37) (\<lambda>sb. strbuf_expand sb format fn))))"
  by pat_completeness auto

termination
  by (relation "measure (\<lambda>(sb, format, fn). length format)") (auto dest!: length_drop_Cons)

text \<open>The dictionary ends at an entry without a placeholder, or with an empty one.\<close>

fun strbuf_expand_dict_cb ::
    "strbuf \<Rightarrow> byte list \<Rightarrow> (byte list \<times> byte list option) list \<Rightarrow> (nat \<times> strbuf) outcome" where
  "strbuf_expand_dict_cb sb placeholder [] = Value (0, sb)"
| "strbuf_expand_dict_cb sb placeholder ((p, v) # e) =
     (if p = [] then Value (0, sb)
      else if take (length p) placeholder = p then
        and_then (case v of Some v \<Rightarrow> strbuf_addstr sb v | None \<Rightarrow> Value sb) (\<lambda>sb. Value (length p, sb))
      else strbuf_expand_dict_cb sb placeholder e)"

subsection \<open>XML and URLs\<close>

definition xml_entity :: "byte \<Rightarrow> byte list" where
  "xml_entity c =
     (if c = 34 then [38, 113, 117, 111, 116, 59]
      else if c = 60 then [38, 108, 116, 59]
      else if c = 62 then [38, 103, 116, 59]
      else [38, 97, 109, 112, 59])"

function strbuf_addstr_xml_quoted :: "strbuf \<Rightarrow> byte list \<Rightarrow> strbuf outcome" where
  "strbuf_addstr_xml_quoted buf s =
     (if s \<noteq> [] then
        let n = length (takeWhile (\<lambda>c. c \<notin> {34, 60, 62, 38}) s)
        in and_then (strbuf_add buf s n) (\<lambda>buf.
           case drop n s of
             [] \<Rightarrow> Value buf
           | c # s \<Rightarrow> and_then (strbuf_addstr buf (xml_entity c)) (\<lambda>buf. strbuf_addstr_xml_quoted buf s))
      else Value buf)"
  by auto
termination
  by (relation "measure (\<lambda>(buf, s). length s)") (auto dest!: length_drop_Cons)

definition is_rfc3986_reserved :: "byte \<Rightarrow> bool" where
  "is_rfc3986_reserved ch \<longleftrightarrow>
     ch \<in> {33, 42, 39, 40, 41, 59, 58, 64, 38, 61, 43, 36, 44, 47, 63, 35, 91, 93}"

definition is_rfc3986_unreserved :: "byte \<Rightarrow> bool" where
  "is_rfc3986_unreserved ch \<longleftrightarrow> isalnum ch \<or> ch = 45 \<or> ch = 95 \<or> ch = 46 \<or> ch = 126"

text \<open>
  \<open>%02x\<close> of an \<open>unsigned int\<close>. The \<open>char\<close> the code passes is signed, so it arrives with its
  sign extended.
\<close>

definition hex_digit :: "nat \<Rightarrow> byte" where
  "hex_digit n = of_nat (if n < 10 then 48 + n else 87 + n)"

fun hex_digits :: "nat \<Rightarrow> byte list" where
  "hex_digits n = (if n < 16 then [hex_digit n] else hex_digits (n div 16) @ [hex_digit (n mod 16)])"

definition format_02x :: "u32 \<Rightarrow> byte list" where
  "format_02x w = (let d = hex_digits (unat w) in replicate (2 - length d) 48 @ d)"

definition urlencode_byte :: "bool \<Rightarrow> byte \<Rightarrow> strbuf \<Rightarrow> strbuf outcome" where
  "urlencode_byte reserved ch sb =
     (if is_rfc3986_unreserved ch \<or> \<not> reserved \<and> is_rfc3986_reserved ch then strbuf_addch sb ch
      else strbuf_addf sb (37 # format_02x (scast ch)))"

definition strbuf_add_urlencode :: "strbuf \<Rightarrow> byte list \<Rightarrow> nat \<Rightarrow> bool \<Rightarrow> strbuf outcome" where
  "strbuf_add_urlencode sb s n reserved =
     and_then (strbuf_grow sb n) (\<lambda>sb.
     and_then (data_bytes s n) (\<lambda>s. fold_outcome (urlencode_byte reserved) s sb))"

definition strbuf_addstr_urlencode :: "strbuf \<Rightarrow> byte list \<Rightarrow> bool \<Rightarrow> strbuf outcome" where
  "strbuf_addstr_urlencode sb s reserved = strbuf_add_urlencode sb s (length s) reserved"

subsection \<open>Decoding URLs\<close>

text \<open>Subtraction from an \<open>int\<close>; an overflow is undefined.\<close>

definition int_sub :: "int \<Rightarrow> int \<Rightarrow> int outcome" where
  "int_sub n k = (if n - k < - (2 ^ 31) then Fault else Value (n - k))"

text \<open>
  The detached memory and the rest of the query. \<open>len\<close> is the number of bytes to look at, or
  \<open>-1\<close> for all of the string; then it is counted down below \<open>-1\<close>.
\<close>

function url_decode_loop :: "byte list \<Rightarrow> int \<Rightarrow> byte list \<Rightarrow> strbuf \<Rightarrow> bool \<Rightarrow> (strbuf \<times> byte list) outcome" where
  "url_decode_loop q n stop_at out decode_plus =
     (if n = 0 then Value (out, q)
      else case q of
        [] \<Rightarrow> Value (out, q)
      | c # q1 \<Rightarrow>
          if c \<in> set stop_at then and_then (int_sub n 1) (\<lambda>n. Value (out, q1))
          else
            let val = (if c = 37 then hex2chr (q1 @ [0]) else Some (- 1))
            in case val of
                 None \<Rightarrow> Fault
               | Some val \<Rightarrow>
                   if 0 \<le> val then
                     and_then (strbuf_addch out (of_int val)) (\<lambda>out.
                     and_then (int_sub n 3) (\<lambda>n.
                     url_decode_loop (drop 2 q1) n stop_at out decode_plus))
                   else
                     and_then (strbuf_addch out (if decode_plus \<and> c = 43 then 32 else c)) (\<lambda>out.
                     and_then (int_sub n 1) (\<lambda>n.
                     url_decode_loop q1 n stop_at out decode_plus)))"
  by auto
termination
  by (relation "measure (\<lambda>(q, _). length q)") auto

definition url_decode_internal ::
    "byte list \<Rightarrow> int \<Rightarrow> byte list \<Rightarrow> strbuf \<Rightarrow> bool \<Rightarrow> (buffer \<times> byte list) outcome" where
  "url_decode_internal query n stop_at out decode_plus =
     and_then (url_decode_loop query n stop_at out decode_plus) (\<lambda>(out, q).
     and_then (strbuf_detach out) (\<lambda>(res, _, _). Value (res, q)))"

text \<open>
  A negative length is a large \<open>size_t\<close> to \<open>memchr\<close>, which then reads on behind the string where it has no colon.
\<close>

definition url_decode_mem :: "byte list \<Rightarrow> int \<Rightarrow> buffer outcome" where
  "url_decode_mem url n =
     (let avail = (if n < 0 then url else take (nat n) url);
          colon = length (takeWhile (\<lambda>c. c \<noteq> 58) avail)
      in if n < 0 \<and> 58 \<notin> set url then Fault
         else if colon < length avail \<and> 0 < colon then
           and_then (strbuf_add STRBUF_INIT url colon) (\<lambda>out.
           and_then (int_sub n (int colon)) (\<lambda>n.
           and_then (url_decode_internal (drop colon url) n [] out False) (\<lambda>(res, _). Value res)))
         else and_then (url_decode_internal url n [] STRBUF_INIT False) (\<lambda>(res, _). Value res))"

definition url_decode :: "byte list \<Rightarrow> buffer outcome" where
  "url_decode url = url_decode_mem url (to_int32 (length url))"

definition url_decode_parameter_name :: "byte list \<Rightarrow> (buffer \<times> byte list) outcome" where
  "url_decode_parameter_name query = url_decode_internal query (- 1) [38, 61] STRBUF_INIT True"

definition url_decode_parameter_value :: "byte list \<Rightarrow> (buffer \<times> byte list) outcome" where
  "url_decode_parameter_value query = url_decode_internal query (- 1) [38] STRBUF_INIT True"

definition end_url_with_slash :: "strbuf \<Rightarrow> byte list \<Rightarrow> strbuf outcome" where
  "end_url_with_slash buf url = and_then (strbuf_addstr buf url) (\<lambda>buf. strbuf_complete buf 47)"

definition str_end_url_with_slash :: "byte list \<Rightarrow> buffer outcome" where
  "str_end_url_with_slash url =
     and_then (end_url_with_slash STRBUF_INIT url) (\<lambda>buf.
     and_then (strbuf_detach buf) (\<lambda>(res, _, _). Value res))"

definition is_urlschemechar :: "bool \<Rightarrow> byte \<Rightarrow> bool" where
  "is_urlschemechar first_flag ch =
     (let alphanumeric = sint ch > 0 \<and> isalnum ch; special = ch = 43 \<or> ch = 45 \<or> ch = 46
      in alphanumeric \<or> \<not> first_flag \<and> special)"

fun scheme_rest :: "byte list \<Rightarrow> byte list option" where
  "scheme_rest [] = Some []"
| "scheme_rest (c # url) =
     (if c = 58 then Some (c # url) else if is_urlschemechar False c then scheme_rest url else None)"

text \<open>The first byte of an empty string is its NUL, which is no scheme character.\<close>

definition is_url :: "byte list \<Rightarrow> bool" where
  "is_url url =
     (case url of
        [] \<Rightarrow> is_urlschemechar True 0
      | c # url \<Rightarrow>
          is_urlschemechar True c \<and>
          (case scheme_rest url of None \<Rightarrow> False | Some url \<Rightarrow> take 3 url = [58, 47, 47]))"

declare strbuf_expand.simps [simp del] strbuf_addstr_xml_quoted.simps [simp del] url_decode_loop.simps [simp del]
  percentquote_loop.simps [simp del] hex_digits.simps [simp del]

subsection \<open>What formats expand to\<close>

definition percent_quoted :: "byte list \<Rightarrow> byte list" where
  "percent_quoted t = concat (List.map (\<lambda>c. if c = 37 then [37, 37] else [c]) t)"

lemma percentquote_step:
  assumes "strbuf_rep dst s"
  shows "makes (and_then (if c = 37 then strbuf_addch dst 37 else Value dst) (\<lambda>dst. strbuf_addch dst c))
    (s @ (if c = 37 then [37, 37] else [c]))"
proof (cases "c = 37")
  case True
  show ?thesis
    unfolding if_P [OF True] using True
    by (auto intro!: makes_and_then [OF addch_makes [OF assms]] addch_makes [of _ "s @ [37]", simplified])
qed (use assms in \<open>simp add: addch_makes\<close>)

lemma percentquote_loop_makes:
  assumes "strbuf_rep src t" "strbuf_rep dst s" "i \<le> length t"
  shows "makes (percentquote_loop (int i) (int (length t)) src dst) (s @ percent_quoted (drop i t))"
  using assms(2,3)
proof (induction "length t - i" arbitrary: i dst s)
  case (Suc n)
  then have i: "i < length t"
    by simp
  then have d: "drop i t = t ! i # drop (Suc i) t"
    by (simp add: Cons_nth_drop_Suc)
  let ?q = "if t ! i = 37 then [37, 37] else [t ! i]"
  have step: "percentquote_loop (int i) (int (length t)) src dst =
      and_then (and_then (if t ! i = 37 then strbuf_addch dst 37 else Value dst) (\<lambda>dst. strbuf_addch dst (t ! i)))
        (percentquote_loop (int (Suc i)) (int (length t)) src)"
    using i by (subst percentquote_loop.simps) (simp add: mem_byte_rep [OF assms(1) i] and_then_assoc add.commute)
  show ?case
    unfolding step
  proof (rule makes_and_then [OF percentquote_step [OF Suc.prems(1)]])
    fix sb assume "strbuf_rep sb (s @ ?q)"
    then show "makes (percentquote_loop (int (Suc i)) (int (length t)) src sb) (s @ percent_quoted (drop i t))"
      using Suc.hyps(1) [of "Suc i" sb "s @ ?q"] Suc.hyps(2) i by (simp add: d percent_quoted_def)
  qed (simp add: d percent_quoted_def)
qed (simp add: percentquote_loop.simps percent_quoted_def makes_Value)

lemma addbuf_percentquote_makes:
  assumes "strbuf_rep src t" "strbuf_rep dst s" "length t < 2 ^ 31"
  shows "makes (strbuf_addbuf_percentquote dst src) (s @ percent_quoted t)"
  using percentquote_loop_makes [OF assms(1,2), of 0] assms(3)
  by (simp add: strbuf_addbuf_percentquote_def rep_len [OF assms(1)] to_int32_small)

text \<open>
  A format means its text with each placeholder replaced by what the callback adds; \<open>e\<close> gives
  the length of the placeholder, \<open>0\<close> if there is none, and the text added.
\<close>

function format_text :: "(byte list \<Rightarrow> nat \<times> byte list) \<Rightarrow> byte list \<Rightarrow> byte list" where
  "format_text e [] = []"
| "format_text e (c # f) =
     (if c \<noteq> 37 then c # format_text e f
      else if f \<noteq> [] \<and> hd f = 37 then 37 # format_text e (tl f)
      else snd (e f) @ (if fst (e f) \<noteq> 0 then format_text e (drop (fst (e f)) f) else 37 # format_text e f))"
  by pat_completeness auto
termination
  by (relation "measure (\<lambda>(e, f). length f)") auto

definition callback_adds :: "expand_fn \<Rightarrow> (byte list \<Rightarrow> nat \<times> byte list) \<Rightarrow> bool" where
  "callback_adds fn e \<longleftrightarrow>
     (\<forall>f. fst (e f) \<le> length f \<and>
       (\<forall>sb s. strbuf_rep sb s \<longrightarrow> makes (and_then (fn sb f) (\<lambda>(k, sb). Value sb)) (s @ snd (e f)) \<and>
         (\<forall>k sb'. fn sb f = Value (k, sb') \<longrightarrow> k = fst (e f))))"

lemma format_text_skip:
  "format_text e f = takeWhile (\<lambda>c. c \<noteq> 37) f @ format_text e (drop (length (takeWhile (\<lambda>c. c \<noteq> 37) f)) f)"
  by (induction f) auto

lemma callback_Value:
  assumes "callback_adds fn e" "strbuf_rep sb s"
  shows "length (s @ snd (e f)) < SIZE_MAX \<Longrightarrow>
      \<exists>sb'. fn sb f = Value (fst (e f), sb') \<and> strbuf_rep sb' (s @ snd (e f))"
    and "\<not> length (s @ snd (e f)) < SIZE_MAX \<Longrightarrow> fn sb f = Failure"
proof -
  have "makes (and_then (fn sb f) (\<lambda>(k, sb). Value sb)) (s @ snd (e f))"
      "\<And>k sb'. fn sb f = Value (k, sb') \<Longrightarrow> k = fst (e f)"
    using assms by (auto simp: callback_adds_def)
  then show "length (s @ snd (e f)) < SIZE_MAX \<Longrightarrow>
      \<exists>sb'. fn sb f = Value (fst (e f), sb') \<and> strbuf_rep sb' (s @ snd (e f))"
    and "\<not> length (s @ snd (e f)) < SIZE_MAX \<Longrightarrow> fn sb f = Failure"
    by (cases "fn sb f"; auto simp: makes_def)+
qed

lemma callback_then:
  assumes "callback_adds fn e" "strbuf_rep sb s" "length (s @ snd (e f)) \<le> length t"
    "\<And>sb'. strbuf_rep sb' (s @ snd (e f)) \<Longrightarrow> makes (h (fst (e f)) sb') t"
  shows "makes (and_then (fn sb f) (\<lambda>(k, sb). h k sb)) t"
  using callback_Value [OF assms(1,2), of f] assms(3,4)
  by (cases "length (s @ snd (e f)) < SIZE_MAX") (auto simp: makes_def)

lemma expand_makes:
  assumes "callback_adds fn e"
  shows "strbuf_rep sb s \<Longrightarrow> makes (strbuf_expand sb format fn) (s @ format_text e format)"
proof (induction "length format" arbitrary: sb s format rule: less_induct)
  case less
  define p where "p = takeWhile (\<lambda>c. c \<noteq> 37) format"
  define r where "r = drop (length p) format"
  have txt': "format_text e format = p @ format_text e r"
    unfolding p_def r_def by (rule format_text_skip)
  have p: "take (length p) format = p" "length p \<le> length format"
    unfolding p_def by (simp_all add: takeWhile_eq_take [symmetric] length_takeWhile_le)
  have step: "strbuf_expand sb format fn =
      and_then (strbuf_add sb format (length p)) (\<lambda>sb.
        case r of [] \<Rightarrow> Value sb
        | _ # f \<Rightarrow>
            if f \<noteq> [] \<and> hd f = 37 then and_then (strbuf_addch sb 37) (\<lambda>sb. strbuf_expand sb (tl f) fn)
            else and_then (fn sb f) (\<lambda>(k, sb).
              if k \<noteq> 0 then (if k \<le> length f then strbuf_expand sb (drop k f) fn else Fault)
              else and_then (strbuf_addch sb 37) (\<lambda>sb. strbuf_expand sb f fn)))"
    unfolding p_def r_def by (subst strbuf_expand.simps) (simp only: Let_def)
  have add: "makes (strbuf_add sb format (length p)) (s @ p)"
    using add_makes [OF less.prems p(2)] p(1) by simp
  show ?case
    unfolding step txt'
  proof (rule makes_and_then [OF add], goal_cases)
    case (1 sb1)
    show ?case
    proof (cases r)
      case Nil
      then show ?thesis
        using 1 by (simp add: makes_Value)
    next
      case (Cons c f)
      have c: "c = 37"
        using Cons nth_length_takeWhile [of "\<lambda>c. c \<noteq> 37" format] p(2)
        by (metis drop_eq_Nil hd_drop_conv_nth leI list.distinct(1) list.sel(1) p_def r_def)
      have f: "length f < length format"
        using Cons unfolding r_def by (rule length_drop_Cons)
      have IH: "strbuf_rep sb' s' \<Longrightarrow> length g \<le> length f \<Longrightarrow> makes (strbuf_expand sb' g fn) (s' @ format_text e g)"
        for sb' s' g
        using less.hyps f by simp
      show ?thesis
      proof (cases "f \<noteq> [] \<and> hd f = 37")
        case True
        then show ?thesis
          using IH [of _ "(s @ p) @ [37]" "tl f"] Cons c
          by (auto intro!: makes_and_then [OF addch_makes [OF 1]])
      next
        case False
        then have "format_text e r = snd (e f) @
            (if fst (e f) \<noteq> 0 then format_text e (drop (fst (e f)) f) else 37 # format_text e f)"
          using False Cons c by auto
        moreover have "fst (e f) \<le> length f"
          using assms by (simp add: callback_adds_def)
        ultimately show ?thesis
          using False Cons IH [of _ "(s @ p) @ snd (e f)" "drop (fst (e f)) f"]
            IH [of _ "((s @ p) @ snd (e f)) @ [37]" f]
          by (auto intro!: callback_then [OF assms 1] makes_and_then [OF addch_makes])
      qed
    qed
  qed simp
qed

fun dict_text :: "(byte list \<times> byte list option) list \<Rightarrow> byte list \<Rightarrow> nat \<times> byte list" where
  "dict_text [] f = (0, [])"
| "dict_text ((p, v) # e) f =
     (if p = [] then (0, [])
      else if take (length p) f = p then (length p, case v of Some v \<Rightarrow> v | None \<Rightarrow> [])
      else dict_text e f)"

lemma take_length_eq: "take (length a) f = a \<Longrightarrow> length a \<le> length f"
  by (metis length_take min.cobounded1)

lemma dict_callback: "callback_adds (\<lambda>sb f. strbuf_expand_dict_cb sb f d) (dict_text d)"
proof -
  have "fst (dict_text d f) \<le> length f" for f
    by (induction d) (auto dest: take_length_eq)
  moreover have "makes (and_then (strbuf_expand_dict_cb sb f d) (\<lambda>(k, sb). Value sb)) (s @ snd (dict_text d f)) \<and>
      (\<forall>k sb'. strbuf_expand_dict_cb sb f d = Value (k, sb') \<longrightarrow> k = fst (dict_text d f))"
    if rep: "strbuf_rep sb s" for sb s f
  proof (induction d)
    case (Cons a d)
    obtain p v where a: "a = (p, v)"
      by (cases a)
    have "makes (case v of Some v \<Rightarrow> strbuf_addstr sb v | None \<Rightarrow> Value sb) (s @ (case v of Some v \<Rightarrow> v | None \<Rightarrow> []))"
      using rep by (cases v) (simp_all add: makes_Value addstr_makes)
    then show ?case
      using Cons.IH rep unfolding a
      by (cases "case v of Some v \<Rightarrow> strbuf_addstr sb v | None \<Rightarrow> Value sb") (simp_all add: makes_Value)
  qed (use rep in \<open>simp add: makes_Value\<close>)
  ultimately show ?thesis
    by (simp add: callback_adds_def)
qed

text \<open>A quoted text is a format without placeholders, so no callback is asked about it.\<close>

lemma percent_quoted_skip:
  "percent_quoted t = takeWhile (\<lambda>c. c \<noteq> 37) t @ percent_quoted (dropWhile (\<lambda>c. c \<noteq> 37) t)"
  by (induction t) (auto simp: percent_quoted_def)

lemma takeWhile_percent_quoted: "takeWhile (\<lambda>c. c \<noteq> 37) (percent_quoted t) = takeWhile (\<lambda>c. c \<noteq> 37) t"
  by (induction t) (auto simp: percent_quoted_def)

lemma expand_quoted_callback: "strbuf_expand sb (percent_quoted t) fn = strbuf_expand sb (percent_quoted t) fn'"
proof (induction "length t" arbitrary: sb t rule: less_induct)
  case less
  have d: "drop (length (takeWhile (\<lambda>c. c \<noteq> 37) t)) (percent_quoted t) = percent_quoted (dropWhile (\<lambda>c. c \<noteq> 37) t)"
    by (subst percent_quoted_skip) simp
  show ?case
  proof (cases "dropWhile (\<lambda>c. c \<noteq> 37) t")
    case Nil
    have "drop (length (takeWhile (\<lambda>c. c \<noteq> 37) t)) (percent_quoted t) = []"
      unfolding d Nil by (simp add: percent_quoted_def)
    then show ?thesis
      by (subst (1 2) strbuf_expand.simps) (simp only: takeWhile_percent_quoted Let_def list.case)
  next
    case (Cons c u)
    have c: "c = 37"
      using Cons hd_dropWhile [of "\<lambda>c. c \<noteq> 37" t] by simp
    have u: "length u < length t"
      using Cons length_dropWhile_le [of "\<lambda>c. c \<noteq> 37" t] by simp
    have "percent_quoted (c # u) = 37 # 37 # percent_quoted u"
      using c by (simp add: percent_quoted_def)
    then show ?thesis
      using d Cons less.hyps [OF u]
      by (subst (1 2) strbuf_expand.simps) (simp add: takeWhile_percent_quoted Let_def)
  qed
qed

lemma format_text_quoted: "format_text e (percent_quoted t) = t"
  by (induction t) (auto simp: percent_quoted_def)

lemma expand_percent_quoted:
  assumes "strbuf_rep sb s"
  shows "makes (strbuf_expand sb (percent_quoted t) fn) (s @ t)"
  using expand_makes [OF dict_callback [of "[]"] assms, of "percent_quoted t"]
  unfolding format_text_quoted expand_quoted_callback [of sb t fn "\<lambda>sb f. strbuf_expand_dict_cb sb f []"] .

subsection \<open>Quoting for XML\<close>

definition xml_quoted :: "byte list \<Rightarrow> byte list" where
  "xml_quoted s = concat (List.map (\<lambda>c. if c \<in> {34, 60, 62, 38} then xml_entity c else [c]) s)"

lemma xml_quoted_skip:
  "xml_quoted s = takeWhile (\<lambda>c. c \<notin> {34, 60, 62, 38}) s @
     xml_quoted (drop (length (takeWhile (\<lambda>c. c \<notin> {34, 60, 62, 38}) s)) s)"
  by (induction s) (auto simp: xml_quoted_def)

lemma xml_quoted_makes:
  "strbuf_rep sb t \<Longrightarrow> makes (strbuf_addstr_xml_quoted sb s) (t @ xml_quoted s)"
proof (induction "length s" arbitrary: sb t s rule: less_induct)
  case less
  let ?P = "\<lambda>c :: byte. c \<notin> {34, 60, 62, 38}"
  define p r where "p = takeWhile ?P s" and "r = drop (length p) s"
  have p: "take (length p) s = p" "length p \<le> length s"
    unfolding p_def by (simp_all add: takeWhile_eq_take [symmetric] length_takeWhile_le)
  have q: "xml_quoted s = p @ xml_quoted r"
    unfolding p_def r_def by (rule xml_quoted_skip)
  show ?case
  proof (cases "s = []")
    case False
    have step: "strbuf_addstr_xml_quoted sb s =
        and_then (strbuf_add sb s (length p)) (\<lambda>sb. case r of [] \<Rightarrow> Value sb
          | c # s \<Rightarrow> and_then (strbuf_addstr sb (xml_entity c)) (\<lambda>sb. strbuf_addstr_xml_quoted sb s))"
      using False unfolding p_def r_def by (subst strbuf_addstr_xml_quoted.simps) (simp only: Let_def if_True not_False_eq_True)
    have add: "makes (strbuf_add sb s (length p)) (t @ p)"
      using add_makes [OF less.prems p(2)] p(1) by simp
    show ?thesis
      unfolding step q
    proof (rule makes_and_then [OF add], goal_cases)
      case (1 sb1)
      show ?case
      proof (cases r)
        case Nil
        then show ?thesis
          using 1 by (simp add: makes_Value xml_quoted_def)
      next
        case (Cons c u)
        have "\<not> ?P c"
          using Cons nth_length_takeWhile [of ?P s] p(2)
          by (metis drop_eq_Nil hd_drop_conv_nth leI list.distinct(1) list.sel(1) p_def r_def)
        then have "xml_quoted r = xml_entity c @ xml_quoted u"
          using Cons by (auto simp: xml_quoted_def)
        moreover have "length u < length s"
          using Cons unfolding r_def by (rule length_drop_Cons)
        ultimately show ?thesis
          using Cons less.hyps [of u _ "(t @ p) @ xml_entity c"]
          by (auto intro!: makes_and_then [OF addstr_makes [OF 1]])
      qed
    qed simp
  qed (use less.prems in \<open>simp add: strbuf_addstr_xml_quoted.simps xml_quoted_def makes_Value\<close>)
qed

subsection \<open>Percent-encoding\<close>

definition url_kept :: "bool \<Rightarrow> byte \<Rightarrow> bool" where
  "url_kept reserved c \<longleftrightarrow> is_rfc3986_unreserved c \<or> \<not> reserved \<and> is_rfc3986_reserved c"

definition url_text :: "bool \<Rightarrow> byte list \<Rightarrow> byte list" where
  "url_text reserved s = concat (List.map (\<lambda>c. if url_kept reserved c then [c] else 37 # format_02x (scast c)) s)"

lemma byte_of_nat: "\<exists>n<256. c = (of_nat n :: byte)"
  by (rule exI [of _ "unat c"]) (use unsigned_less [of c, where 'a = nat] in simp)

lemma format_02x_ascii_table:
  "list_all (\<lambda>n. format_02x (scast (of_nat n :: byte)) = [hex_digit (n div 16), hex_digit (n mod 16)] \<and>
     hex2chr [hex_digit (n div 16), hex_digit (n mod 16)] = Some (int n)) [0..<128]"
  by code_simp

text \<open>A byte from 128 on is negative as a \<open>char\<close>, and comes out as eight digits.\<close>

lemma sint_byte: "sint (c :: byte) = (if unat c < 128 then int (unat c) else int (unat c) - 256)"
proof -
  have all: "sint (of_nat m :: byte) = (if m < 128 then int m else int m - 256)" if "m < 256" for m
  proof (cases "m < 128")
    case True
    then show ?thesis
      by (simp add: signed_of_nat signed_take_bit_int_eq_self)
  next
    case False
    then have "sint (of_int (int m - 256) :: byte) = int m - 256"
      using that by (subst signed_of_int) (simp add: signed_take_bit_int_eq_self)
    moreover have "(256 :: byte) = 0"
      by transfer simp
    ultimately show ?thesis
      using False by simp
  qed
  show ?thesis
    using all [of "unat c"] unsigned_less [of c, where 'a = nat] by simp
qed

lemma int_unat_32: "int (unat (w :: u32)) = uint w" "(2 :: int) ^ LENGTH(32) = 4294967296"
  by simp_all

lemma unat_scast_negative:
  assumes "128 \<le> unat (c :: byte)"
  shows "unat (scast c :: u32) = 4294967040 + unat c"
proof -
  have "unat c < 256"
    using unsigned_less [of c, where 'a = nat] by simp
  then have "(int (unat c) - 256) mod 4294967296 = 4294967040 + int (unat c)"
    using assms by (intro int_mod_pos_eq [of _ _ "- 1"]) linarith+
  moreover have s: "sint c = int (unat c) - 256"
    using sint_byte [of c] assms by simp
  have "(of_int (sint c) :: u32) = scast c"
    by simp
  then have "(scast c :: u32) = of_int (int (unat c) - 256)"
    unfolding s by (rule sym)
  then have "int (unat (scast c :: u32)) = (int (unat c) - 256) mod 4294967296"
    using uint_word_of_int [where 'a = 32, of "int (unat c) - 256"] by (metis int_unat_32)
  ultimately show ?thesis
    by linarith
qed

lemma hex_digits_snoc: "0 < a \<Longrightarrow> b < 16 \<Longrightarrow> hex_digits (16 * a + b) = hex_digits a @ [hex_digit b]"
  by (subst hex_digits.simps) simp

lemma format_02x_negative:
  assumes "128 \<le> unat (c :: byte)"
  shows "format_02x (scast c) = [102, 102, 102, 102, 102, 102, hex_digit (unat c div 16), hex_digit (unat c mod 16)]"
proof -
  have c: "unat c < 256"
    using unsigned_less [of c, where 'a = nat] by simp
  have "4294967040 + unat c = 16 * (16 * 16777215 + unat c div 16) + unat c mod 16"
    by simp
  then have "hex_digits (4294967040 + unat c) =
      hex_digits 16777215 @ [hex_digit (unat c div 16), hex_digit (unat c mod 16)]"
    using c by (simp only: hex_digits_snoc) (simp add: hex_digits_snoc)
  moreover have "hex_digits 16777215 = [102, 102, 102, 102, 102, 102]"
    by (simp add: hex_digits.simps hex_digit_def)
  ultimately show ?thesis
    by (simp add: format_02x_def unat_scast_negative [OF assms])
qed

lemma length_format_02x: "length (format_02x (scast (c :: byte))) \<le> 8"
proof (cases "128 \<le> unat c")
  case False
  then show ?thesis
    using format_02x_ascii_table by (auto simp: list_all_iff dest!: bspec [of _ _ "unat c"])
qed (simp add: format_02x_negative)

lemma hex2chr_two: "hex2chr (a # b # s) = hex2chr [a, b]"
  by (simp add: hex2chr_def Let_def)

lemma format_02x_ascii:
  assumes "unat (c :: byte) < 128"
  shows "format_02x (scast c) = [hex_digit (unat c div 16), hex_digit (unat c mod 16)]"
    and "hex2chr (hex_digit (unat c div 16) # hex_digit (unat c mod 16) # s) = Some (int (unat c))"
proof -
  have t: "format_02x (scast c) = [hex_digit (unat c div 16), hex_digit (unat c mod 16)]"
    "hex2chr [hex_digit (unat c div 16), hex_digit (unat c mod 16)] = Some (int (unat c))"
    using format_02x_ascii_table assms by (auto simp: list_all_iff dest!: bspec [of _ _ "unat c"])
  show "format_02x (scast c) = [hex_digit (unat c div 16), hex_digit (unat c mod 16)]"
    by (rule t)
  show "hex2chr (hex_digit (unat c div 16) # hex_digit (unat c mod 16) # s) = Some (int (unat c))"
    using t(2) unfolding hex2chr_two [of _ _ s] .
qed

lemma urlencode_loop_rep:
  assumes "strbuf_rep sb t" "length (t @ url_text reserved s) + 64 < SIZE_MAX"
  shows "\<exists>sb'. fold_outcome (urlencode_byte reserved) s sb = Value sb' \<and> strbuf_rep sb' (t @ url_text reserved s)"
  using assms
proof (induction s arbitrary: sb t)
  case (Cons c s)
  define e where "e = (if url_kept reserved c then [c] else 37 # format_02x (scast c))"
  have u: "url_text reserved (c # s) = e @ url_text reserved s"
    by (simp add: url_text_def e_def)
  have "length e < 2 ^ 31"
    using length_format_02x [of c] by (simp add: e_def)
  then have "makes (urlencode_byte reserved c sb) (t @ e)"
    using addch_makes [OF Cons.prems(1), of c] vaddf_makes [OF Cons.prems(1), of e] Cons.prems(2)
    by (auto simp: urlencode_byte_def url_kept_def e_def strbuf_addf_def split: if_splits)
  then obtain sb' where "urlencode_byte reserved c sb = Value sb'" "strbuf_rep sb' (t @ e)"
    using Cons.prems(2) u by (auto simp: makes_def split: if_splits)
  then show ?case
    using Cons.IH [of sb' "t @ e"] Cons.prems(2) u by simp
qed (auto simp: url_text_def)

lemma urlencode_rep:
  assumes "strbuf_rep sb t" "length (t @ url_text reserved s) + 64 < SIZE_MAX"
  shows "\<exists>sb'. strbuf_addstr_urlencode sb s reserved = Value sb' \<and> strbuf_rep sb' (t @ url_text reserved s)"
proof -
  have "length s \<le> length (url_text reserved s)"
    by (induction s) (auto simp: url_text_def)
  then obtain sb' where "strbuf_grow sb (length s) = Value sb'" "strbuf_rep sb' t"
    using grow_rep [OF assms(1), of "length s"] assms(2) by auto
  then show ?thesis
    using urlencode_loop_rep [of sb' t reserved s] assms(2)
    by (simp add: strbuf_addstr_urlencode_def strbuf_add_urlencode_def data_bytes_def)
qed

text \<open>Decoding gives the bytes back one by one; \<open>n\<close> is negative, so it never ends the loop.\<close>

lemma unreserved_not_reserved [rule_format]: "\<forall>c. is_rfc3986_unreserved c \<longrightarrow> c \<notin> {37, 43, 38, 61}"
  unfolding is_rfc3986_unreserved_def isalnum_def sane_istest_def
  by (rule byte_all) (simp add: upt_rec_numeral word_le_nat_alt sane_ctype_def ctype_masks Let_def)

lemma unreserved_ascii [rule_format]:
  "\<forall>c. is_rfc3986_unreserved c \<or> is_rfc3986_reserved c \<longrightarrow> unat c < 128"
  unfolding is_rfc3986_unreserved_def is_rfc3986_reserved_def isalnum_def sane_istest_def
  by (rule byte_all) (simp add: upt_rec_numeral word_le_nat_alt sane_ctype_def ctype_masks Let_def)

lemma url_decode_loop_rep:
  assumes "strbuf_rep out t" "length t + length s < SIZE_MAX" "n < 0" "set stop_at \<subseteq> {38, 61}"
    "\<forall>c\<in>set s. unat c < 128" "- (2 ^ 31) \<le> n - int (length (url_text True s))"
  shows "\<exists>out'. url_decode_loop (url_text True s) n stop_at out True = Value (out', []) \<and> strbuf_rep out' (t @ s)"
  using assms
proof (induction s arbitrary: out t n)
  case (Cons c s)
  obtain out1 where out1: "strbuf_addch out c = Value out1" "strbuf_rep out1 (t @ [c])"
    using addch_makes [OF Cons.prems(1), of c] Cons.prems(2) by (auto simp: makes_def split: if_splits)
  have IH: "\<exists>out'. url_decode_loop (url_text True s) m stop_at out1 True = Value (out', []) \<and>
      strbuf_rep out' (t @ c # s)" if "m < 0" "- (2 ^ 31) \<le> m - int (length (url_text True s))" for m
    using Cons.IH [OF out1(2) _ that(1)] that(2) Cons.prems by simp
  show ?case
  proof (cases "url_kept True c")
    case True
    then have "c \<notin> {37, 43, 38, 61}"
      using unreserved_not_reserved [of c] by (simp add: url_kept_def)
    moreover have enc: "url_text True (c # s) = c # url_text True s"
      using True by (simp add: url_text_def)
    moreover have "int_sub n 1 = Value (n - 1)"
      using Cons.prems(6) unfolding enc by (simp add: int_sub_def)
    ultimately show ?thesis
      using IH [of "n - 1"] out1(1) Cons.prems(3,4,6) by (subst url_decode_loop.simps) auto
  next
    case False
    then have enc: "url_text True (c # s) =
        37 # hex_digit (unat c div 16) # hex_digit (unat c mod 16) # url_text True s"
      using Cons.prems(5) by (simp add: url_text_def format_02x_ascii)
    moreover have "37 \<notin> set stop_at"
      using Cons.prems(4) by auto
    moreover have "int_sub n 3 = Value (n - 3)"
      using Cons.prems(6) unfolding enc by (simp add: int_sub_def)
    ultimately show ?thesis
      using IH [of "n - 3"] out1(1) Cons.prems(3,5,6)
      by (subst url_decode_loop.simps) (simp add: format_02x_ascii Let_def)
  qed
qed (simp add: url_text_def url_decode_loop.simps)

subsection \<open>Round trips\<close>

text \<open>
  \<open>strbuf_expand\<close> expands a format as specified: text is copied, \<open>%%\<close> gives a percent
  sign, a placeholder of the dictionary its value, and a percent sign before anything else itself.
  A text that \<open>strbuf_addbuf_percentquote\<close> has quoted expands to itself, whatever the callback.
\<close>
theorem strbuf_expand_expands:
  assumes "strbuf_wf sb"
  shows "makes (strbuf_expand sb format (\<lambda>sb f. strbuf_expand_dict_cb sb f dict))
      (strbuf_text sb @ format_text (dict_text dict) format) \<and>
    (strbuf_wf src \<and> sb_len src < 2 ^ 31 \<and> strbuf_addbuf_percentquote STRBUF_INIT src = Value q \<longrightarrow>
      makes (strbuf_expand sb (strbuf_text q) fn) (strbuf_text sb @ strbuf_text src))"
proof (intro conjI impI)
  show "makes (strbuf_expand sb format (\<lambda>sb f. strbuf_expand_dict_cb sb f dict))
      (strbuf_text sb @ format_text (dict_text dict) format)"
    using expand_makes [OF dict_callback wf_rep [OF assms]] .
  assume src: "strbuf_wf src \<and> sb_len src < 2 ^ 31 \<and> strbuf_addbuf_percentquote STRBUF_INIT src = Value q"
  then have "makes (Value q) (percent_quoted (strbuf_text src))"
    using addbuf_percentquote_makes [of src "strbuf_text src" STRBUF_INIT "[]"] wf_rep [of src] rep_len [of src]
    by simp
  then have "strbuf_text q = percent_quoted (strbuf_text src)"
    by (auto simp: makes_def rep_wf split: if_splits)
  then show "makes (strbuf_expand sb (strbuf_text q) fn) (strbuf_text sb @ strbuf_text src)"
    using expand_percent_quoted [OF wf_rep [OF assms]] by simp
qed

theorem strbuf_expand_expands_witness:
  "makes (strbuf_expand STRBUF_INIT [37, 110, 37, 37] (\<lambda>sb f. strbuf_expand_dict_cb sb f [([110], Some [10])])) [10, 37]"
  using strbuf_expand_expands [of STRBUF_INIT "[37, 110, 37, 37]" "[([110], Some [10])]" STRBUF_INIT STRBUF_INIT "\<lambda>sb f. Failure"]
    rep_wf [OF rep_init] by simp

text \<open>
  (C28) A text of ASCII bytes that is percent-encoded with the reserved characters quoted too (without that a plus
  sign would be decoded to a blank), and whose encoding is shorter than 2 GB, is
  decoded to itself by \<open>url_decode_parameter_value\<close>: the memory returned holds the text and a NUL,
  nothing of the query is left, and the count of bytes does not overflow.
\<close>
theorem urlencode_roundtrip:
  assumes "\<forall>c\<in>set s. 0 < unat c \<and> unat c < 128" "length (url_text True s) < 2 ^ 31"
    "strbuf_addstr_urlencode STRBUF_INIT s True = Value sb"
  shows "\<exists>t. url_decode_parameter_value (strbuf_text sb) = Value (Heap (List.map Some s @ Some 0 # t), [])"
proof -
  have small: "length (url_text True s) + 64 < SIZE_MAX"
    using assms(2) by (simp add: SIZE_MAX_def)
  have sb: "strbuf_text sb = url_text True s"
    using urlencode_rep [OF rep_init, of True s] assms(3) small by (auto simp: rep_wf)
  have "length s \<le> length (url_text True s)"
    by (induction s) (auto simp: url_text_def)
  then obtain out where out: "url_decode_loop (url_text True s) (- 1) [38] STRBUF_INIT True = Value (out, [])"
      "strbuf_rep out s"
    using url_decode_loop_rep [OF rep_init, of s "- 1" "[38]"] assms(1,2) small by auto
  then show ?thesis
    using detach_rep [OF out(2)]
    by (auto simp: url_decode_parameter_value_def url_decode_internal_def sb)
qed

theorem urlencode_roundtrip_witness:
  "\<exists>sb t. strbuf_addstr_urlencode STRBUF_INIT [97, 38, 32] True = Value sb \<and>
     url_decode_parameter_value (strbuf_text sb) = Value (Heap (List.map Some [97, 38, 32] @ Some 0 # t), [])"
proof -
  have l: "length (url_text True [97, 38, 32]) < 2 ^ 31"
    using length_format_02x [of 97] length_format_02x [of 38] length_format_02x [of 32]
    by (simp add: url_text_def)
  then obtain sb where "strbuf_addstr_urlencode STRBUF_INIT [97, 38, 32] True = Value sb"
    using urlencode_rep [OF rep_init, of True "[97, 38, 32]"] by (auto simp: SIZE_MAX_def)
  then show ?thesis
    using urlencode_roundtrip [of "[97, 38, 32]" sb] l by auto
qed

text \<open>
  A byte that is not ASCII is encoded with its sign: as \<open>%ffffff\<close> and two digits instead of
  one percent sign and two digits, whatever is asked of the reserved characters.
\<close>
theorem urlencode_sign_extension:
  assumes "strbuf_wf sb" "128 \<le> unat c" "sb_len sb + 80 < SIZE_MAX"
  shows "\<exists>sb'. strbuf_addstr_urlencode sb [c] reserved = Value sb' \<and> strbuf_text sb' =
    strbuf_text sb @ [37, 102, 102, 102, 102, 102, 102, hex_digit (unat c div 16), hex_digit (unat c mod 16)]"
proof -
  have k: "\<not> url_kept reserved c"
    using assms(2) unreserved_ascii [of c] by (auto simp: url_kept_def word_less_nat_alt)
  then have "url_text reserved [c] =
      [37, 102, 102, 102, 102, 102, 102, hex_digit (unat c div 16), hex_digit (unat c mod 16)]"
    by (simp add: url_text_def format_02x_negative [OF assms(2)])
  then show ?thesis
    using urlencode_rep [OF wf_rep [OF assms(1)], of reserved "[c]"] rep_len [OF wf_rep [OF assms(1)]] assms(3)
    by (auto simp: rep_wf)
qed

theorem urlencode_sign_extension_witness:
  "\<exists>sb'. strbuf_addstr_urlencode STRBUF_INIT [200] True = Value sb' \<and>
     strbuf_text sb' = [37, 102, 102, 102, 102, 102, 102, 99, 56]"
  using urlencode_sign_extension [of STRBUF_INIT 200 True] rep_wf [OF rep_init]
  by (auto simp: SIZE_MAX_def hex_digit_def)

end
