(* ===== verification/Git_Strbuf_Lines.thy ===== *)
theory Git_Strbuf_Lines
  imports Git_Strbuf_Text
begin

text \<open>
  Lines in a string buffer (\<^verbatim>\<open>strbuf.c\<close>): splitting a text at a terminator, adding lines with a
  prefix, commenting, and cleaning up the white space of a message.
\<close>

subsection \<open>Splitting\<close>

text \<open>
  The index of the first byte \<open>c\<close>, as \<open>memchr\<close> gives it, and the length of the first line of
  a text that is not empty.
\<close>

definition memchr :: "byte \<Rightarrow> byte list \<Rightarrow> nat option" where
  "memchr c d = (if c \<in> set d then Some (length (takeWhile (\<lambda>x. x \<noteq> c) d)) else None)"

definition piece_len :: "byte \<Rightarrow> byte list \<Rightarrow> nat" where
  "piece_len c d = (case memchr c d of Some e \<Rightarrow> e + 1 | None \<Rightarrow> length d)"

text \<open>
  \<open>len\<close> is an \<open>int\<close>, so a length beyond it is truncated; the loop need not end, and \<open>None\<close> is
  the value of a call that does not return.
\<close>

partial_function (option) split_buf_loop ::
    "byte list \<Rightarrow> nat \<Rightarrow> byte \<Rightarrow> int \<Rightarrow> nat \<Rightarrow> strbuf list outcome option" where
  "split_buf_loop str slen terminator max_nr nr =
     (if slen = 0 then Some (Value [])
      else
        case data_bytes str slen of
          Failure \<Rightarrow> Some Failure
        | Fault \<Rightarrow> Some Fault
        | Value d \<Rightarrow>
            let n = to_size (if max_nr \<le> 0 \<or> int nr + 1 < max_nr then to_int32 (piece_len terminator d)
                             else to_int32 slen)
            in case and_then (strbuf_init n) (\<lambda>t. strbuf_add t str n) of
                 Failure \<Rightarrow> Some Failure
               | Fault \<Rightarrow> Some Fault
               | Value t \<Rightarrow>
                   Option.bind
                     (split_buf_loop (drop n str) ((slen + 2 ^ 64 - n) mod 2 ^ 64) terminator max_nr (nr + 1))
                     (\<lambda>r. Some (and_then r (\<lambda>ret. Value (t # ret)))))"

definition strbuf_split_buf :: "byte list \<Rightarrow> nat \<Rightarrow> byte \<Rightarrow> int \<Rightarrow> strbuf list outcome option" where
  "strbuf_split_buf str slen terminator max_nr = split_buf_loop str slen terminator max_nr 0"

definition strbuf_split_str :: "byte list \<Rightarrow> byte \<Rightarrow> int \<Rightarrow> strbuf list outcome option" where
  "strbuf_split_str str terminator max_nr = strbuf_split_buf str (length str) terminator max_nr"

definition strbuf_split_max :: "strbuf \<Rightarrow> byte \<Rightarrow> int \<Rightarrow> strbuf list outcome option" where
  "strbuf_split_max sb terminator max_nr =
     (case mem_bytes (sb_buf sb) 0 (sb_len sb) of
        Value str \<Rightarrow> strbuf_split_buf str (sb_len sb) terminator max_nr
      | _ \<Rightarrow> Some Fault)"

definition strbuf_split :: "strbuf \<Rightarrow> byte \<Rightarrow> strbuf list outcome option" where
  "strbuf_split sb terminator = strbuf_split_max sb terminator 0"

subsection \<open>Prefixed lines\<close>

text \<open>The piece of the buffer a line is: up to its newline, if it has one.\<close>

function add_lines_loop :: "strbuf \<Rightarrow> byte list \<Rightarrow> byte list option \<Rightarrow> byte list \<Rightarrow> strbuf outcome" where
  "add_lines_loop out prefix1 prefix2 buf =
     (if buf \<noteq> [] then
        let n = piece_len 10 buf;
            pre = (case prefix2 of
                Some p \<Rightarrow> if hd buf = 10 \<or> hd buf = 9 then p else prefix1
              | None \<Rightarrow> prefix1)
        in and_then (strbuf_addstr out pre) (\<lambda>out.
           and_then (strbuf_add out buf n) (\<lambda>out.
           add_lines_loop out prefix1 prefix2 (drop n buf)))
      else Value out)"
  by auto
termination
  by (relation "measure (\<lambda>(_, _, _, buf). length buf)") (auto simp: piece_len_def split: option.splits)

definition add_lines ::
    "strbuf \<Rightarrow> byte list \<Rightarrow> byte list option \<Rightarrow> byte list \<Rightarrow> nat \<Rightarrow> strbuf outcome" where
  "add_lines out prefix1 prefix2 buf n =
     and_then (data_bytes buf n) (\<lambda>d.
     and_then (add_lines_loop out prefix1 prefix2 d) (\<lambda>out. strbuf_complete out 10))"

definition strbuf_add_lines :: "strbuf \<Rightarrow> byte list \<Rightarrow> byte list \<Rightarrow> nat \<Rightarrow> strbuf outcome" where
  "strbuf_add_lines out pre buf n = add_lines out pre None buf n"

text \<open>\<open>comment_line_char\<close> is a global the configuration sets.\<close>

definition strbuf_add_commented_lines :: "byte \<Rightarrow> strbuf \<Rightarrow> byte list \<Rightarrow> nat \<Rightarrow> strbuf outcome" where
  "strbuf_add_commented_lines comment_line_char out buf n =
     add_lines out [comment_line_char, 32] (Some [comment_line_char]) buf n"

definition strbuf_commented_addf :: "byte \<Rightarrow> strbuf \<Rightarrow> byte list \<Rightarrow> strbuf outcome" where
  "strbuf_commented_addf comment_line_char sb t =
     and_then (if sb_len sb \<noteq> 0 then and_then (mem_byte (sb_buf sb) (sb_len sb - 1)) (\<lambda>c. Value (c \<noteq> 10))
               else Value False) (\<lambda>incomplete_line.
     and_then (strbuf_vaddf STRBUF_INIT t) (\<lambda>buf.
     and_then (mem_bytes (sb_buf buf) 0 (sb_len buf)) (\<lambda>d.
     and_then (strbuf_add_commented_lines comment_line_char sb d (sb_len buf)) (\<lambda>sb.
     and_then (if incomplete_line then
                 and_then (mem_write (sb_buf sb) (sb_len sb - 1) [Some 0]) (\<lambda>b.
                 Value (sb\<lparr>sb_len := sb_len sb - 1, sb_buf := b\<rparr>))
               else Value sb) (\<lambda>sb.
     and_then (strbuf_release buf) (\<lambda>_. Value sb))))))"

subsection \<open>Cleaning up white space\<close>

function cleanup :: "byte list \<Rightarrow> nat \<Rightarrow> nat" where
  "cleanup line n = (if n \<noteq> 0 then (if \<not> isspace (line ! (n - 1)) then n else cleanup line (n - 1)) else n)"
  by auto
termination by (relation "measure snd") auto

declare cleanup.simps [simp del]

function stripspace_loop ::
    "byte option \<Rightarrow> nat \<Rightarrow> buffer \<Rightarrow> nat \<Rightarrow> nat \<Rightarrow> nat \<Rightarrow> (buffer \<times> nat) outcome" where
  "stripspace_loop comment sblen b i j empties =
     (if i < sblen then
        and_then (mem_bytes b i (sblen - i)) (\<lambda>d.
        let n = (case memchr 10 d of Some e \<Rightarrow> e + 1 | None \<Rightarrow> sblen - i)
        in if comment = Some (hd d) then stripspace_loop comment sblen b (i + n) j empties
           else
             let newlen = cleanup d n
             in if newlen \<noteq> 0 then
                  and_then (if empties > 0 \<and> j > 0 then
                              and_then (mem_write b j [Some 10]) (\<lambda>b. Value (b, j + 1))
                            else Value (b, j)) (\<lambda>(b, j).
                  and_then (mem_cells b i newlen) (\<lambda>c.
                  and_then (mem_write b j c) (\<lambda>b.
                  and_then (mem_write b (newlen + j) [Some 10]) (\<lambda>b.
                  stripspace_loop comment sblen b (i + n) (j + 1 + newlen) 0))))
                else stripspace_loop comment sblen b (i + n) j (empties + 1))
      else Value (b, j))"
  by auto
termination
  by (relation "measure (\<lambda>(comment, sblen, b, i, j, empties). sblen - i)") (auto split: option.splits)

text \<open>\<open>comment\<close> is \<open>comment_line_char\<close> with \<open>skip_comments\<close>, and \<open>None\<close> without.\<close>

definition strbuf_stripspace :: "byte option \<Rightarrow> strbuf \<Rightarrow> strbuf outcome" where
  "strbuf_stripspace comment sb =
     and_then (strbuf_grow sb 1) (\<lambda>sb.
     and_then (stripspace_loop comment (sb_len sb) (sb_buf sb) 0 0 0) (\<lambda>(b, j).
     strbuf_setlen (sb\<lparr>sb_buf := b\<rparr>) j))"

declare add_lines_loop.simps [simp del] stripspace_loop.simps [simp del]

subsection \<open>Pieces\<close>

lemma memchr_Some:
  assumes "c \<in> set d"
  shows "memchr c d = Some (length (takeWhile (\<lambda>x. x \<noteq> c) d))" "length (takeWhile (\<lambda>x. x \<noteq> c) d) < length d"
proof -
  show "memchr c d = Some (length (takeWhile (\<lambda>x. x \<noteq> c) d))"
    using assms by (simp add: memchr_def)
  show "length (takeWhile (\<lambda>x. x \<noteq> c) d) < length d"
    using assms by (induction d) auto
qed

lemma piece_len_bounds: "d \<noteq> [] \<Longrightarrow> 0 < piece_len c d" "piece_len c d \<le> length d"
  using memchr_Some(2) [of c d] by (auto simp: piece_len_def memchr_def)

lemma take_piece:
  assumes "c \<in> set d"
  shows "take (piece_len c d) d = takeWhile (\<lambda>x. x \<noteq> c) d @ [c]"
proof -
  let ?k = "length (takeWhile (\<lambda>x. x \<noteq> c) d)"
  have "take (Suc ?k) d = take ?k d @ [d ! ?k]"
    using memchr_Some(2) [OF assms] by (rule take_Suc_conv_app_nth)
  also have "d ! ?k = c"
    using nth_length_takeWhile [OF memchr_Some(2) [OF assms]] by simp
  finally show ?thesis
    using assms by (simp add: piece_len_def memchr_Some takeWhile_eq_take [symmetric])
qed

lemma piece_no_nl: "c \<notin> set d \<Longrightarrow> take (piece_len c d) d = d" "c \<notin> set d \<Longrightarrow> drop (piece_len c d) d = []"
  by (simp_all add: piece_len_def memchr_def)

text \<open>The lines of a text, each with its newline, but for the last if the text does not end in one.\<close>

function lines_of :: "byte list \<Rightarrow> byte list list" where
  "lines_of d = (if d = [] then [] else take (piece_len 10 d) d # lines_of (drop (piece_len 10 d) d))"
  by auto
termination
  by (relation "measure length") (auto simp: piece_len_bounds)

declare lines_of.simps [simp del]

lemma concat_lines: "concat (lines_of d) = d"
  by (induction d rule: lines_of.induct) (subst lines_of.simps, simp)

lemma line_nonempty: "l \<in> set (lines_of d) \<Longrightarrow> l \<noteq> []"
proof (induction d rule: lines_of.induct)
  case (1 d)
  then show ?case
    using piece_len_bounds(1) [of d 10] by (subst (asm) (2) lines_of.simps) (auto split: if_splits)
qed

lemma lines_append:
  assumes "10 \<notin> set l"
  shows "lines_of (l @ 10 # d) = (l @ [10]) # lines_of d"
proof -
  have "takeWhile (\<lambda>x. x \<noteq> 10) (l @ 10 # d) = l"
    using assms by (induction l) auto
  then have "piece_len 10 (l @ 10 # d) = length l + 1"
    by (simp add: piece_len_def memchr_def)
  then show ?thesis
    by (subst lines_of.simps) simp
qed

subsection \<open>Prefixed lines\<close>

definition with_prefix :: "byte list \<Rightarrow> byte list option \<Rightarrow> byte list \<Rightarrow> byte list" where
  "with_prefix prefix1 prefix2 l =
     (case prefix2 of Some p \<Rightarrow> if hd l = 10 \<or> hd l = 9 then p else prefix1 | None \<Rightarrow> prefix1) @ l"

definition complete_line :: "byte list \<Rightarrow> byte list" where
  "complete_line s = (if s = [] \<or> last s = 10 then s else s @ [10])"

lemma add_lines_loop_makes:
  "strbuf_rep out s \<Longrightarrow>
   makes (add_lines_loop out p1 p2 d) (s @ concat (List.map (with_prefix p1 p2) (lines_of d)))"
proof (induction d arbitrary: out s rule: lines_of.induct)
  case (1 d)
  show ?case
  proof (cases "d = []")
    case True
    then show ?thesis
      using "1.prems" by (simp add: add_lines_loop.simps lines_of.simps makes_Value)
  next
    case False
    let ?n = "piece_len 10 d"
    let ?p = "case p2 of Some p \<Rightarrow> if hd d = 10 \<or> hd d = 9 then p else p1 | None \<Rightarrow> p1"
    have "with_prefix p1 p2 (take ?n d) = ?p @ take ?n d"
      using False piece_len_bounds(1) [of d 10]
      by (cases d; cases "piece_len 10 d") (simp_all add: with_prefix_def split: option.split)
    then have l: "concat (List.map (with_prefix p1 p2) (lines_of d)) =
        ?p @ take ?n d @ concat (List.map (with_prefix p1 p2) (lines_of (drop ?n d)))"
      using False by (subst lines_of.simps) simp
    have step: "add_lines_loop out p1 p2 d =
        and_then (strbuf_addstr out ?p) (\<lambda>out. and_then (strbuf_add out d ?n) (\<lambda>out.
          add_lines_loop out p1 p2 (drop ?n d)))"
      using False by (subst add_lines_loop.simps) (simp add: Let_def)
    show ?thesis
      unfolding step l
    proof (rule makes_and_then [OF addstr_makes [OF "1.prems"]], goal_cases)
      case (1 sb)
      have "makes (strbuf_add sb d ?n) ((s @ ?p) @ take ?n d)"
        using add_makes [OF 1 piece_len_bounds(2)] .
      then show ?case
        by (rule makes_and_then) (use "1.IH" [OF False] in \<open>auto simp flip: append_assoc\<close>)
    qed simp
  qed
qed

lemma complete_line_makes: "strbuf_rep sb s \<Longrightarrow> makes (strbuf_complete sb 10) (complete_line s)"
  unfolding complete_line_def by (rule complete_makes)

lemma length_complete_line: "length s \<le> length (complete_line s)"
  by (simp add: complete_line_def)

lemma add_lines_makes:
  assumes "strbuf_rep out s" "n \<le> length buf"
  shows "makes (add_lines out p1 p2 buf n)
    (complete_line (s @ concat (List.map (with_prefix p1 p2) (lines_of (take n buf)))))"
  using assms(2) makes_and_then [OF add_lines_loop_makes [OF assms(1)] complete_line_makes length_complete_line]
  by (simp add: add_lines_def data_bytes_def)

subsection \<open>Splitting\<close>

text \<open>The pieces: up to the next terminator, until the limit is reached and the rest is one piece.\<close>

function split_text :: "byte \<Rightarrow> int \<Rightarrow> nat \<Rightarrow> byte list \<Rightarrow> byte list list" where
  "split_text c max_nr nr d =
     (if d = [] then []
      else if max_nr \<le> 0 \<or> int nr + 1 < max_nr then
        take (piece_len c d) d # split_text c max_nr (nr + 1) (drop (piece_len c d) d)
      else [d])"
  by auto
termination
  by (relation "measure (\<lambda>(_, _, _, d). length d)") (auto simp: piece_len_bounds)

declare split_text.simps [simp del]

lemma split_buf_loop_rep:
  assumes "length d < 2 ^ 31"
  shows "\<exists>ts. split_buf_loop (d @ e) (length d) c max_nr nr = Some (Value ts) \<and>
    list_all2 strbuf_rep ts (split_text c max_nr nr d)"
  using assms
proof (induction d arbitrary: nr rule: length_induct)
  case (1 d)
  show ?case
  proof (cases "d = []")
    case True
    then show ?thesis
      by (simp add: split_buf_loop.simps split_text.simps)
  next
    case False
    define n where "n = (if max_nr \<le> 0 \<or> int nr + 1 < max_nr then piece_len c d else length d)"
    have n: "0 < n" "n \<le> length d"
      using False piece_len_bounds(1) [of d c] piece_len_bounds(2) [of c d] by (auto simp: n_def)
    have "piece_len c d < 2 ^ 31" "length d \<le> SIZE_MAX" "piece_len c d \<le> SIZE_MAX"
      using piece_len_bounds(2) [of c d] n "1.prems" by (auto simp: SIZE_MAX_def)
    then have conv: "to_size (if max_nr \<le> 0 \<or> int nr + 1 < max_nr then to_int32 (piece_len c d)
        else to_int32 (length d)) = n"
      using "1.prems" n by (simp add: n_def to_int32_small to_size_int)
    have small: "n < SIZE_MAX" "length d < 2 ^ 64"
      using n "1.prems" by (auto simp: SIZE_MAX_def)
    obtain t0 where t0: "strbuf_init n = Value t0" "strbuf_rep t0 []"
      using init_makes [of n] small by auto
    obtain t where t: "strbuf_add t0 (d @ e) n = Value t" "strbuf_rep t (take n d)"
      using add_makes [OF t0(2), of n "d @ e"] n small by (auto simp: makes_def)
    have rest: "(length d + 2 ^ 64 - n) mod 2 ^ 64 = length (drop n d)"
      using n small by (simp add: mod_if)
    have shorter: "length (drop n d) < length d"
      using n by simp
    obtain ts where ts: "split_buf_loop (drop n d @ e) (length (drop n d)) c max_nr (nr + 1) = Some (Value ts)"
        "list_all2 strbuf_rep ts (split_text c max_nr (nr + 1) (drop n d))"
      using "1.IH" [rule_format, of "drop n d" "nr + 1"] "1.prems" n shorter by auto
    have pieces: "split_text c max_nr nr d = take n d # split_text c max_nr (nr + 1) (drop n d)"
      using False by (subst split_text.simps) (simp add: n_def split_text.simps [of _ _ _ "[]"])
    show ?thesis
      unfolding pieces using False t0(1) t ts n conv rest
      by (subst split_buf_loop.simps) (simp add: data_bytes_def Let_def)
  qed
qed

lemma concat_split_text: "concat (split_text c max_nr nr d) = d"
  by (induction c max_nr nr d rule: split_text.induct) (subst split_text.simps, simp)

subsection \<open>Cleaning up white space\<close>

text \<open>
  The text the loop leaves for the rest \<open>d\<close> of the buffer, when there is output already
  (\<open>started\<close>) and empty lines are pending.
\<close>

function strip_text :: "byte option \<Rightarrow> bool \<Rightarrow> bool \<Rightarrow> byte list \<Rightarrow> byte list" where
  "strip_text comment started pending d =
     (if d = [] then []
      else
        let n = piece_len 10 d; l = rtrim (take n d)
        in if comment = Some (hd d) then strip_text comment started pending (drop n d)
           else if l \<noteq> [] then
             (if pending \<and> started then [10] else []) @ l @ [10] @ strip_text comment True False (drop n d)
           else strip_text comment started True (drop n d))"
  by auto
termination
  by (relation "measure (\<lambda>(_, _, _, d). length d)") (auto simp: piece_len_bounds)

declare strip_text.simps [simp del]

lemma isspace_nl [simp]: "isspace 10"
  by (simp add: isspace_iff)

lemma cleanup_rtrim: "n \<le> length d \<Longrightarrow> cleanup d n = length (rtrim (take n d))"
proof (induction n)
  case (Suc n)
  then show ?case
    by (subst cleanup.simps) (simp add: take_Suc_conv_app_nth rtrim_snoc)
qed (simp add: cleanup.simps rtrim_def)

text \<open>A line is as long as its text and newline together, unless it is the last and has none.\<close>

lemma rtrim_piece:
  assumes "drop (piece_len 10 d) d \<noteq> []"
  shows "length (rtrim (take (piece_len 10 d) d)) < piece_len 10 d"
proof -
  have "10 \<in> set d"
    using assms piece_no_nl(2) [of 10 d] by auto
  then show ?thesis
    using length_rtrim [of "takeWhile (\<lambda>x. x \<noteq> 10) d"]
    by (simp add: take_piece rtrim_snoc) (simp add: piece_len_def memchr_Some(1))
qed

text \<open>
  Writing a line in front: the bytes of \<open>out\<close> are followed by those of \<open>l\<close> and a newline, and
  what lies behind is as it was.
\<close>

lemma write_line:
  assumes "length out + length l < length m" "take (length out) m = List.map Some out"
  shows "\<exists>m'. and_then (mem_write (Heap m) (length out) (List.map Some l)) (\<lambda>b.
        and_then (mem_write b (length l + length out) [Some 10]) f) = f (Heap m') \<and>
      length m' = length m \<and> take (length out + length l + 1) m' = List.map Some (out @ l @ [10]) \<and>
      (\<forall>i\<ge>length out + length l + 1. drop i m' = drop i m)"
proof -
  let ?t = "drop (length out + length l + 1) m"
  have m: "overwrite (overwrite m (length out) (List.map Some l)) (length l + length out) [Some 10] =
      List.map Some (out @ l @ [10]) @ ?t"
    using assms by (simp add: overwrite_def add.commute)
  have "drop i (List.map Some (out @ l @ [10]) @ ?t) = drop i m" if "length out + length l + 1 \<le> i" for i
    using that drop_append [of i "List.map Some (out @ l @ [10])" ?t] by simp
  then show ?thesis
    using assms m by (intro exI [of _ "List.map Some (out @ l @ [10]) @ ?t"]) simp
qed

lemma write_blank:
  assumes "length out + e \<le> i" "i < length m" "take (length out) m = List.map Some out"
  defines "out1 \<equiv> out @ (if e > 0 \<and> out \<noteq> [] then [10] else [])"
  shows "\<exists>m'. (if e > 0 \<and> length out > 0 then
        and_then (mem_write (Heap m) (length out) [Some 10]) (\<lambda>b. Value (b, length out + 1))
      else Value (Heap m, length out)) = Value (Heap m', length out1) \<and>
    length m' = length m \<and> take (length out1) m' = List.map Some out1 \<and> drop i m' = drop i m"
proof (cases "e > 0 \<and> out \<noteq> []")
  case True
  then show ?thesis
    using assms by (auto simp: overwrite_one take_Suc_conv_app_nth)
qed (use assms in auto)

text \<open>
  The loop at \<open>i\<close>: the output \<open>out\<close> is in front, \<open>e\<close> empty lines are pending and took as many
  bytes, the rest \<open>d\<close> of the text is still in place.
\<close>

lemma strip_comment:
  "d \<noteq> [] \<Longrightarrow> comment = Some (hd d) \<Longrightarrow>
   strip_text comment started pending d = strip_text comment started pending (drop (piece_len 10 d) d)"
  by (subst strip_text.simps) (simp add: Let_def)

lemma strip_empty:
  "d \<noteq> [] \<Longrightarrow> comment \<noteq> Some (hd d) \<Longrightarrow> rtrim (take (piece_len 10 d) d) = [] \<Longrightarrow>
   strip_text comment started pending d = strip_text comment started True (drop (piece_len 10 d) d)"
  by (subst strip_text.simps) (simp add: Let_def)

lemma strip_line:
  "d \<noteq> [] \<Longrightarrow> comment \<noteq> Some (hd d) \<Longrightarrow> rtrim (take (piece_len 10 d) d) = l \<Longrightarrow> l \<noteq> [] \<Longrightarrow>
   strip_text comment started pending d =
     (if pending \<and> started then [10] else []) @ l @ [10] @ strip_text comment True False (drop (piece_len 10 d) d)"
  by (subst strip_text.simps) (simp add: Let_def)

lemma strip_nil [simp]: "strip_text comment started pending [] = []"
  by (simp add: strip_text.simps)

lemma stripspace_loop_rep:
  assumes "i + length d = L" "L < length m" "take (length d) (drop i m) = List.map Some d"
    "take (length out) m = List.map Some out" "length out \<le> L + 1" "d \<noteq> [] \<Longrightarrow> length out + e \<le> i"
  shows "\<exists>m' r. stripspace_loop comment L (Heap m) i (length out) e = Value (Heap m', length r) \<and>
    r = out @ strip_text comment (out \<noteq> []) (e > 0) d \<and>
    length m' = length m \<and> length r \<le> L + 1 \<and> take (length r) m' = List.map Some r"
  using assms
proof (induction "length d" arbitrary: d i m out e rule: less_induct)
  case less
  show ?case
  proof (cases "d = []")
    case True
    then show ?thesis
      using less.prems by (simp add: stripspace_loop.simps)
  next
    case False
    define n where "n = piece_len 10 d"
    define l where "l = rtrim (take n d)"
    have n: "0 < n" "n \<le> length d"
      using False piece_len_bounds(1) [of d 10] piece_len_bounds(2) [of 10 d] by (auto simp: n_def)
    have i: "i < L" "i + length d = L" "length out + e \<le> i" "L - i = length d"
      using False less.prems(1,6) by auto
    have l: "length l \<le> n" "drop n d \<noteq> [] \<Longrightarrow> length l < n" "take (length l) d = l"
    proof -
      show "length l \<le> n"
        using length_rtrim [of "take n d"] n by (simp add: l_def)
      then show "take (length l) d = l"
        using rtrim_prefix [of "take n d"] by (simp add: l_def min_absorb1)
    qed (simp add: l_def n_def rtrim_piece)
    have rest: "take (length (drop n d)) (drop (i + n) m') = List.map Some (drop n d)"
      if "drop (i + n) m' = drop (i + n) m" for m'
      using arg_cong [OF less.prems(3), of "drop n"] that
      by (simp add: drop_take drop_map add.commute)
    have read: "mem_bytes (Heap m) i (L - i) = Value d"
      using less.prems(1-3) i by (simp add: mem_bytes_def mem_cells_def)
    have len: "(case memchr 10 d of None \<Rightarrow> L - i | Some k \<Rightarrow> k + 1) = n"
      using i by (simp add: n_def piece_len_def split: option.splits)
    have step: "stripspace_loop comment L (Heap m) i (length out) e =
        (if comment = Some (hd d) then stripspace_loop comment L (Heap m) (i + n) (length out) e
         else if l \<noteq> [] then
           and_then (if e > 0 \<and> length out > 0 then
               and_then (mem_write (Heap m) (length out) [Some 10]) (\<lambda>b. Value (b, length out + 1))
             else Value (Heap m, length out)) (\<lambda>(b, j).
           and_then (mem_cells b i (length l)) (\<lambda>c.
           and_then (mem_write b j c) (\<lambda>b.
           and_then (mem_write b (length l + j) [Some 10]) (\<lambda>b.
           stripspace_loop comment L b (i + n) (j + 1 + length l) 0))))
         else stripspace_loop comment L (Heap m) (i + n) (length out) (e + 1))"
      using i(1) n
      by (subst stripspace_loop.simps) (simp only: read and_then.simps len Let_def cleanup_rtrim l_def if_True length_0_conv)
    have shorter: "length (drop n d) < length d" and at: "i + n + length (drop n d) = L"
      using n i by auto
    show ?thesis
    proof (cases "comment = Some (hd d)")
      case True
      then show ?thesis
        using less.hyps [OF shorter at less.prems(2) rest [OF refl] less.prems(4,5), of e] i
          strip_comment [OF False True] unfolding step by (simp add: n_def)
    next
      case comment: False
      show ?thesis
      proof (cases "l = []")
        case True
        then show ?thesis
          using less.hyps [OF shorter at less.prems(2) rest [OF refl] less.prems(4,5), of "e + 1"] i n comment
            strip_empty [OF False comment] unfolding step by (simp add: n_def l_def)
      next
        case line: False
        define out1 where "out1 = out @ (if e > 0 \<and> out \<noteq> [] then [10] else [])"
        define out2 where "out2 = out1 @ l @ [10]"
        have out1: "length out1 \<le> i" "length out1 \<le> length out + 1"
          using i(3) by (auto simp: out1_def)
        obtain m1 where m1: "(if e > 0 \<and> length out > 0 then
               and_then (mem_write (Heap m) (length out) [Some 10]) (\<lambda>b. Value (b, length out + 1))
             else Value (Heap m, length out)) = Value (Heap m1, length out1)"
          "length m1 = length m" "take (length out1) m1 = List.map Some out1" "drop i m1 = drop i m"
          using write_blank [of out e i m] i less.prems(2,4) unfolding out1_def by auto
        have c: "mem_cells (Heap m1) i (length l) = Value (List.map Some l)"
          using arg_cong [OF less.prems(3), of "take (length l)"] l(1,3) n i(1,2) m1(2,4) less.prems(2)
          by (simp add: mem_cells_def take_map)
        have room: "length out1 + length l < length m1"
          using out1 l(1) n i less.prems(2) m1(2) by linarith
        obtain m2 where m2: "and_then (mem_write (Heap m1) (length out1) (List.map Some l)) (\<lambda>b.
              and_then (mem_write b (length l + length out1) [Some 10])
                (\<lambda>b. stripspace_loop comment L b (i + n) (length out1 + 1 + length l) 0)) =
            stripspace_loop comment L (Heap m2) (i + n) (length out1 + 1 + length l) 0"
          "length m2 = length m1" "take (length out1 + length l + 1) m2 = List.map Some out2"
          "\<And>k. length out1 + length l + 1 \<le> k \<Longrightarrow> drop k m2 = drop k m1"
          using write_line [OF room m1(3), of "\<lambda>b. stripspace_loop comment L b (i + n) (length out1 + 1 + length l) 0"]
          unfolding out2_def by auto
        have out2: "length out2 = length out1 + 1 + length l" "length out2 \<le> L + 1"
            "drop n d \<noteq> [] \<Longrightarrow> length out2 \<le> i + n"
          using out1 l n i by (auto simp: out2_def)
        have tail: "take (length (drop n d)) (drop (i + n) m2) = List.map Some (drop n d)"
        proof (cases "drop n d = []")
          case more: False
          have "drop (i + n) m2 = drop n (drop i m1)"
            using m2(4) [of "i + n"] out2(1,3) more by (simp add: add.commute)
          then show ?thesis
            using rest [of m2] m1(4) by (simp add: add.commute)
        qed simp
        have "strip_text comment (out \<noteq> []) (e > 0) d =
            (if e > 0 \<and> out \<noteq> [] then [10] else []) @ l @ [10] @ strip_text comment True False (drop n d)"
          using strip_line [OF False comment, of l] line by (simp add: n_def l_def)
        moreover have "\<exists>m' r. stripspace_loop comment L (Heap m2) (i + n) (length out2) 0 = Value (Heap m', length r) \<and>
            r = out2 @ strip_text comment (out2 \<noteq> []) (0 < (0 :: nat)) (drop n d) \<and>
            length m' = length m2 \<and> length r \<le> L + 1 \<and> take (length r) m' = List.map Some r"
          using less.prems(2) m1(2) m2(2,3) out2 tail
          by (intro less.hyps [OF shorter at]) (simp_all add: add.commute add.left_commute)
        ultimately show ?thesis
          unfolding step using comment line m1(1,2) c m2(1,2) out2(1)
          by (auto simp: out1_def out2_def add.commute)
      qed
    qed
  qed
qed

lemma stripspace_rep:
  assumes "strbuf_rep sb s" "length s + 1 < SIZE_MAX"
  shows "\<exists>sb'. strbuf_stripspace comment sb = Value sb' \<and> strbuf_rep sb' (strip_text comment False False s)"
proof -
  obtain t where t: "strbuf_grow sb 1 = Value (heap_buf s t)" "1 < length t" "length s + length t \<le> SIZE_MAX"
    using grow_rep [OF assms] by (auto elim: room_heap)
  define r where "r = strip_text comment False False s"
  obtain m' where m': "stripspace_loop comment (length s) (Heap (List.map Some s @ t)) 0 0 0 = Value (Heap m', length r)"
      "length m' = length s + length t" "length r \<le> length s + 1" "take (length r) m' = List.map Some r"
    using stripspace_loop_rep [of 0 s "length s" "List.map Some s @ t" "[]" 0 comment] t(2)
    by (cases t) (auto simp: r_def)
  have "m' = List.map Some r @ m' ! length r # drop (Suc (length r)) m'"
    using m' t(2) by (metis id_take_nth_drop less_le_trans nat_add_left_cancel_less not_less add_le_cancel_left)
  then have "strbuf_setlen (heap_buf s t\<lparr>sb_buf := Heap m'\<rparr>) (length r) =
      Value (heap_buf r (Some 0 # drop (Suc (length r)) m'))"
    using m' t(2) by (intro setlen_heap) simp_all
  moreover have "strbuf_rep (heap_buf r (Some 0 # drop (Suc (length r)) m')) r"
    using m' t(2,3) by (intro rep_heap) simp
  ultimately show ?thesis
    using t(1) m'(1) by (simp add: strbuf_stripspace_def r_def [symmetric])
qed

subsection \<open>What cleaning up means\<close>

text \<open>
  Comment lines are dropped, every line is trimmed at its end, empty lines are removed from the
  beginning and the end and consecutive ones merged, and every line gets a newline.
\<close>

fun merge_empty :: "byte list list \<Rightarrow> byte list list" where
  "merge_empty (l # k # ls) = (if l = [] \<and> k = [] then merge_empty (k # ls) else l # merge_empty (k # ls))"
| "merge_empty ls = ls"

definition drop_end :: "byte list list \<Rightarrow> byte list list" where
  "drop_end ls = rev (dropWhile (\<lambda>l. l = []) (rev ls))"

definition squeeze :: "byte list list \<Rightarrow> byte list list" where
  "squeeze ls = merge_empty (dropWhile (\<lambda>l. l = []) (drop_end ls))"

definition unlines :: "byte list list \<Rightarrow> byte list" where
  "unlines ls = concat (List.map (\<lambda>l. l @ [10]) ls)"

definition tidy :: "byte option \<Rightarrow> byte list \<Rightarrow> byte list" where
  "tidy comment s = unlines (squeeze (List.map rtrim (filter (\<lambda>l. comment \<noteq> Some (hd l)) (lines_of s))))"

text \<open>The loop's view of it, with its two flags.\<close>

fun squeeze_run :: "bool \<Rightarrow> bool \<Rightarrow> byte list list \<Rightarrow> byte list list" where
  "squeeze_run started pending [] = []"
| "squeeze_run started pending (l # ls) =
     (if l = [] then squeeze_run started True ls
      else (if pending \<and> started then [[]] else []) @ l # squeeze_run True False ls)"

lemma drop_end_Cons: "drop_end (l # ls) = (if l = [] \<and> drop_end ls = [] then [] else l # drop_end ls)"
  by (auto simp: drop_end_def dropWhile_append)

lemma squeeze_run_started:
  "squeeze_run True pending ls =
     (if drop_end ls = [] then [] else merge_empty ((if pending then [[]] else []) @ drop_end ls))"
proof (induction ls arbitrary: pending)
  case (Cons l ls)
  show ?case
    by (cases "drop_end ls") (auto simp: Cons.IH drop_end_Cons)
qed (simp add: drop_end_def)

lemma squeeze_run_start: "squeeze_run False pending ls = squeeze ls"
proof (induction ls arbitrary: pending)
  case (Cons l ls)
  show ?case
  proof (cases "l = []")
    case False
    then show ?thesis
      by (cases "drop_end ls") (auto simp: squeeze_def drop_end_Cons squeeze_run_started)
  qed (simp add: Cons.IH, auto simp: squeeze_def drop_end_Cons)
qed (simp add: squeeze_def drop_end_def)

lemma strip_text_lines:
  "strip_text comment started pending d =
   unlines (squeeze_run started pending (List.map rtrim (filter (\<lambda>l. comment \<noteq> Some (hd l)) (lines_of d))))"
proof (induction d arbitrary: started pending rule: lines_of.induct)
  case (1 d)
  let ?n = "piece_len 10 d"
  show ?case
  proof (cases "d = []")
    case False
    have h: "hd (take ?n d) = hd d"
      using piece_len_bounds(1) [OF False, of 10] by (cases d; cases ?n) simp_all
    have l: "lines_of d = take ?n d # lines_of (drop ?n d)"
      using False by (subst lines_of.simps) simp
    show ?thesis
      unfolding l using "1.IH" [OF False] h
      by (cases "comment = Some (hd d)"; subst strip_text.simps) (auto simp: False Let_def unlines_def)
  qed (simp add: strip_text.simps lines_of.simps unlines_def)
qed

lemma strip_tidy: "strip_text comment False False s = tidy comment s"
  by (simp add: strip_text_lines squeeze_run_start tidy_def)

subsection \<open>A clean text is left alone\<close>

fun clean_lines :: "byte list list \<Rightarrow> bool" where
  "clean_lines (l # k # ls) \<longleftrightarrow> \<not> (l = [] \<and> k = []) \<and> clean_lines (k # ls)"
| "clean_lines [l] \<longleftrightarrow> l \<noteq> []"
| "clean_lines [] \<longleftrightarrow> True"

lemma merge_empty_hd: "hd (merge_empty ls) = hd ls" "merge_empty ls = [] \<longleftrightarrow> ls = []"
  by (induction ls rule: merge_empty.induct) auto

lemma clean_merge: "ls = [] \<or> last ls \<noteq> [] \<Longrightarrow> clean_lines (merge_empty ls)"
proof (induction ls rule: merge_empty.induct)
  case (1 l k ls)
  then show ?case
    using merge_empty_hd [of "k # ls"] by (cases "merge_empty (k # ls)") auto
qed auto

lemma merge_clean: "clean_lines ls \<Longrightarrow> merge_empty ls = ls"
  by (induction ls rule: merge_empty.induct) auto

lemma last_clean: "clean_lines ls \<Longrightarrow> ls \<noteq> [] \<Longrightarrow> last ls \<noteq> []"
  by (induction ls rule: clean_lines.induct) auto

lemma drop_end_last: "drop_end ls = [] \<or> last (drop_end ls) \<noteq> []"
  using hd_dropWhile [of "\<lambda>l. l = []" "rev ls"] by (auto simp: drop_end_def last_rev)

lemma drop_end_clean: "clean_lines ls \<Longrightarrow> drop_end ls = ls"
  using last_clean [of ls] by (cases ls rule: rev_cases) (auto simp: drop_end_def)

lemma squeeze_clean:
  "clean_lines (squeeze ls)" "squeeze ls = [] \<or> hd (squeeze ls) \<noteq> []"
proof -
  define k where "k = dropWhile (\<lambda>l. l = []) (drop_end ls)"
  have "k = [] \<or> last k \<noteq> []"
    using drop_end_last [of ls] takeWhile_dropWhile_id [of "\<lambda>l. l = []" "drop_end ls"]
    unfolding k_def by (metis append_is_Nil_conv last_appendR)
  then show "clean_lines (squeeze ls)"
    unfolding squeeze_def k_def [symmetric] by (rule clean_merge)
  show "squeeze ls = [] \<or> hd (squeeze ls) \<noteq> []"
    using hd_dropWhile [of "\<lambda>l. l = []" "drop_end ls"] by (auto simp: squeeze_def merge_empty_hd)
qed

lemma squeeze_idem: "squeeze (squeeze ls) = squeeze ls"
proof -
  have "dropWhile (\<lambda>l. l = []) (squeeze ls) = squeeze ls"
    using squeeze_clean(2) [of ls] by (cases "squeeze ls") auto
  then show ?thesis
    by (subst squeeze_def) (simp add: drop_end_clean squeeze_clean(1) merge_clean)
qed

lemma rtrim_idem: "rtrim (rtrim l) = rtrim l"
  by (simp add: rtrim_def dropWhile_idem)

lemma set_rtrim: "set (rtrim l) \<subseteq> set l"
  by (metis rtrim_prefix set_take_subset)

lemma hd_rtrim: "rtrim l \<noteq> [] \<Longrightarrow> hd (rtrim l) = hd l"
  by (metis hd_take length_greater_0_conv rtrim_prefix)

lemma line_no_nl: "l \<in> set (lines_of d) \<Longrightarrow> 10 \<notin> set (rtrim l)"
proof (induction d rule: lines_of.induct)
  case (1 d)
  have "10 \<notin> set (rtrim (take (piece_len 10 d) d))"
  proof (cases "10 \<in> set d")
    case True
    then show ?thesis
      using set_rtrim [of "takeWhile (\<lambda>x. x \<noteq> 10) d"] by (auto simp: take_piece rtrim_snoc dest: set_takeWhileD)
  next
    case False
    then show ?thesis
      using set_rtrim [of d] by (auto simp: piece_no_nl)
  qed
  then show ?case
    using 1 by (subst (asm) (2) lines_of.simps) (auto split: if_splits)
qed

lemma lines_unlines: "\<forall>l\<in>set ls. 10 \<notin> set l \<Longrightarrow> lines_of (unlines ls) = List.map (\<lambda>l. l @ [10]) ls"
  by (induction ls) (auto simp: unlines_def lines_append, simp add: lines_of.simps)

lemma set_merge_empty: "set (merge_empty ls) \<subseteq> set ls"
  by (induction ls rule: merge_empty.induct) auto

lemma set_squeeze: "set (squeeze ls) \<subseteq> set ls"
  using set_merge_empty [of "dropWhile (\<lambda>l. l = []) (drop_end ls)"]
  by (fastforce simp: squeeze_def drop_end_def dest: set_dropWhileD)

lemma tidy_idem:
  assumes "comment \<noteq> Some 10"
  shows "tidy comment (tidy comment s) = tidy comment s"
proof -
  let ?keep = "\<lambda>l. comment \<noteq> Some (hd l)"
  define ls where "ls = squeeze (List.map rtrim (filter ?keep (lines_of s)))"
  have ls: "\<forall>l\<in>set ls. 10 \<notin> set l \<and> rtrim l = l \<and> ?keep (l @ [10])"
  proof
    fix l assume "l \<in> set ls"
    then obtain k where k: "k \<in> set (lines_of s)" "?keep k" "l = rtrim k"
      using set_squeeze unfolding ls_def by fastforce
    then have "?keep (l @ [10])"
      using hd_rtrim [of k] assms by (cases "l = []") auto
    then show "10 \<notin> set l \<and> rtrim l = l \<and> ?keep (l @ [10])"
      using k by (simp add: line_no_nl rtrim_idem)
  qed
  then have "List.map rtrim (filter ?keep (List.map (\<lambda>l. l @ [10]) ls)) = ls"
    by (induction ls) (auto simp: rtrim_snoc)
  then have "tidy comment (unlines ls) = unlines (squeeze ls)"
    using ls by (simp add: tidy_def lines_unlines)
  then show ?thesis
    unfolding tidy_def [of comment s] by (simp add: ls_def squeeze_idem)
qed

text \<open>
  (C29) Cleaning up in place gives the text its comment describes, never overwriting what is still
  to be read: comment lines go, lines are trimmed at the end, empty lines go at both ends and are
  merged in between, every line ends in a newline. Cleaning up again changes nothing.
\<close>
theorem strbuf_stripspace_tidies:
  assumes "strbuf_wf sb" "sb_len sb + 1 < SIZE_MAX"
  shows "\<exists>sb'. strbuf_stripspace comment sb = Value sb' \<and> strbuf_wf sb' \<and>
    strbuf_text sb' = tidy comment (strbuf_text sb) \<and>
    (comment \<noteq> Some 10 \<longrightarrow> tidy comment (strbuf_text sb') = strbuf_text sb')"
  using stripspace_rep [OF wf_rep [OF assms(1)], of comment] rep_len [OF wf_rep [OF assms(1)]] assms(2)
  by (auto simp: strip_tidy tidy_idem rep_wf)

theorem strbuf_stripspace_tidies_witness:
  "\<exists>sb sb'. strbuf_addstr STRBUF_INIT [10, 97, 32, 10, 10, 10, 98] = Value sb \<and>
     strbuf_stripspace None sb = Value sb' \<and> strbuf_text sb' = tidy None [10, 97, 32, 10, 10, 10, 98]"
proof -
  obtain sb where sb: "strbuf_addstr STRBUF_INIT [10, 97, 32, 10, 10, 10, 98] = Value sb"
      "strbuf_rep sb [10, 97, 32, 10, 10, 10, 98]"
    using addstr_makes [OF rep_init, of "[10, 97, 32, 10, 10, 10, 98]"] by (auto simp: makes_def SIZE_MAX_def)
  then show ?thesis
    using strbuf_stripspace_tidies [of sb None] rep_wf [OF sb(2)] rep_len [OF sb(2)] by (auto simp: SIZE_MAX_def)
qed

subsection \<open>The pieces of a text\<close>

lemma length_split_text: "0 < max_nr \<Longrightarrow> int nr < max_nr \<Longrightarrow> int nr + int (length (split_text c max_nr nr d)) \<le> max_nr"
proof (induction c max_nr nr d rule: split_text.induct)
  case (1 c max_nr nr d)
  then show ?case
    by (subst split_text.simps) auto
qed

lemma split_text_pieces:
  assumes "p \<in> set (split_text c max_nr nr d)" "max_nr \<le> 0"
  shows "p \<noteq> [] \<and> c \<notin> set (butlast p)"
  using assms
proof (induction c max_nr nr d rule: split_text.induct)
  case (1 c max_nr nr d)
  have "take (piece_len c d) d \<noteq> [] \<and> c \<notin> set (butlast (take (piece_len c d) d))" if "d \<noteq> []"
  proof (cases "c \<in> set d")
    case True
    then show ?thesis
      by (auto simp: take_piece dest: set_takeWhileD)
  next
    case False
    then show ?thesis
      using that by (auto simp: piece_no_nl dest: in_set_butlastD)
  qed
  then show ?case
    using 1 by (subst (asm) (2) split_text.simps) (auto split: if_splits)
qed

text \<open>
  \<open>strbuf_split_buf\<close> returns on texts shorter than \<open>2 ^ 31\<close> bytes, and the pieces joined are
  the text. There are at most \<open>max_nr\<close> of them where that is positive; without a limit
  no piece is empty or has a terminator but at its end.
\<close>
theorem strbuf_split_joins:
  assumes "n \<le> length str" "n < 2 ^ 31"
  shows "\<exists>ts. strbuf_split_buf str n terminator max_nr = Some (Value ts) \<and> (\<forall>t\<in>set ts. strbuf_wf t) \<and>
    concat (List.map strbuf_text ts) = take n str \<and>
    (0 < max_nr \<longrightarrow> int (length ts) \<le> max_nr) \<and>
    (max_nr \<le> 0 \<longrightarrow> (\<forall>t\<in>set ts. strbuf_text t \<noteq> [] \<and> terminator \<notin> set (butlast (strbuf_text t))))"
proof -
  let ?p = "split_text terminator max_nr 0 (take n str)"
  obtain ts where ts: "split_buf_loop (take n str @ drop n str) n terminator max_nr 0 = Some (Value ts)"
      "list_all2 strbuf_rep ts ?p"
    using split_buf_loop_rep [of "take n str" "drop n str" terminator max_nr 0] assms by auto
  have p: "List.map strbuf_text ts = ?p" "length ts = length ?p"
    using ts(2) by (auto simp: list_eq_iff_nth_eq list_all2_conv_all_nth rep_wf(2))
  have "\<forall>t\<in>set ts. strbuf_wf t"
    using ts(2) by (fastforce simp: list_all2_conv_all_nth in_set_conv_nth dest: rep_wf(1))
  moreover have "strbuf_text t \<noteq> [] \<and> terminator \<notin> set (butlast (strbuf_text t))"
    if "t \<in> set ts" "max_nr \<le> 0" for t
  proof (rule split_text_pieces [OF _ that(2)])
    show "strbuf_text t \<in> set ?p"
      using that(1) unfolding p(1) [symmetric] by simp
  qed
  ultimately show ?thesis
    using ts(1) p length_split_text [of max_nr 0 terminator "take n str"]
    by (auto simp: strbuf_split_buf_def concat_split_text)
qed

theorem strbuf_split_joins_witness:
  "\<exists>ts. strbuf_split_buf [97, 10, 98] 3 10 0 = Some (Value ts) \<and> concat (List.map strbuf_text ts) = [97, 10, 98]"
  using strbuf_split_joins [of 3 "[97, 10, 98]" 10 0] by auto

end
