(* ===== verification/Git_Wrapper.thy ===== *)
theory Git_Wrapper
  imports Git_Strbuf_Lines
begin

text \<open>
  The loops around the system calls in \<^verbatim>\<open>wrapper.c\<close>, and the functions of \<^verbatim>\<open>strbuf.c\<close> that read a
  file into a buffer through them.

  The operating system is not part of the program: a call is a function of its state, which
  returns the bytes read or the number written, or an \<open>errno\<close>. The loops need not end, so
  they are partial: \<open>None\<close> is a call that never returns.
\<close>

subsection \<open>System calls\<close>

datatype errno = EINTR | EAGAIN | EWOULDBLOCK | ENOSPC | EEXIST | EINVAL | ERANGE | EACCES | Errno nat

type_synonym 'o os_read = "'o \<Rightarrow> nat \<Rightarrow> (byte list + errno) \<times> 'o"
type_synonym 'o os_pread = "'o \<Rightarrow> nat \<Rightarrow> nat \<Rightarrow> (byte list + errno) \<times> 'o"
type_synonym 'o os_write = "'o \<Rightarrow> byte list \<Rightarrow> (nat + errno) \<times> 'o"

definition MAX_IO_SIZE :: nat where "MAX_IO_SIZE = 8 * 1024 * 1024"

text \<open>Whether to try again. \<open>poll\<close> is called before that only to wait, and its result is not looked at.\<close>

definition handle_nonblock :: "errno \<Rightarrow> bool" where
  "handle_nonblock err \<longleftrightarrow> \<not> (err \<noteq> EAGAIN \<and> err \<noteq> EWOULDBLOCK)"

partial_function (option) xread :: "'o os_read \<Rightarrow> 'o \<Rightarrow> nat \<Rightarrow> ((byte list + errno) \<times> 'o) option" where
  "xread rd s n =
     (case rd s (if n > MAX_IO_SIZE then MAX_IO_SIZE else n) of
        (Inl d, s) \<Rightarrow> Some (Inl d, s)
      | (Inr err, s) \<Rightarrow>
          if err = EINTR then xread rd s n
          else if handle_nonblock err then xread rd s n
          else Some (Inr err, s))"

partial_function (option) xwrite :: "'o os_write \<Rightarrow> 'o \<Rightarrow> byte list \<Rightarrow> ((nat + errno) \<times> 'o) option" where
  "xwrite wr s buf =
     (case wr s (if length buf > MAX_IO_SIZE then take MAX_IO_SIZE buf else buf) of
        (Inl n, s) \<Rightarrow> Some (Inl n, s)
      | (Inr err, s) \<Rightarrow>
          if err = EINTR then xwrite wr s buf
          else if handle_nonblock err then xwrite wr s buf
          else Some (Inr err, s))"

partial_function (option) xpread ::
    "'o os_pread \<Rightarrow> 'o \<Rightarrow> nat \<Rightarrow> nat \<Rightarrow> ((byte list + errno) \<times> 'o) option" where
  "xpread rd s n offset =
     (case rd s (if n > MAX_IO_SIZE then MAX_IO_SIZE else n) offset of
        (Inl d, s) \<Rightarrow> Some (Inl d, s)
      | (Inr err, s) \<Rightarrow>
          if err = EAGAIN \<or> err = EINTR then xpread rd s n offset else Some (Inr err, s))"

text \<open>The value returned, and the bytes stored in the buffer, also where the value is \<open>-1\<close>.\<close>

partial_function (option) read_loop ::
    "'o os_read \<Rightarrow> 'o \<Rightarrow> nat \<Rightarrow> int \<Rightarrow> byte list \<Rightarrow> (int \<times> byte list \<times> 'o) option" where
  "read_loop rd s n tot p =
     (if n > 0 then
        Option.bind (xread rd s n) (\<lambda>(loaded, s).
          case loaded of
            Inr _ \<Rightarrow> Some (- 1, p, s)
          | Inl d \<Rightarrow>
              if length d = 0 then Some (tot, p, s)
              else read_loop rd s (n - length d) (tot + int (length d)) (p @ d))
      else Some (tot, p, s))"

definition read_in_full :: "'o os_read \<Rightarrow> 'o \<Rightarrow> nat \<Rightarrow> (int \<times> byte list \<times> 'o) option" where
  "read_in_full rd s n = read_loop rd s n 0 []"

partial_function (option) pread_loop ::
    "'o os_pread \<Rightarrow> 'o \<Rightarrow> nat \<Rightarrow> nat \<Rightarrow> int \<Rightarrow> byte list \<Rightarrow> (int \<times> byte list \<times> 'o) option" where
  "pread_loop rd s n offset tot p =
     (if n > 0 then
        Option.bind (xpread rd s n offset) (\<lambda>(loaded, s).
          case loaded of
            Inr _ \<Rightarrow> Some (- 1, p, s)
          | Inl d \<Rightarrow>
              if length d = 0 then Some (tot, p, s)
              else pread_loop rd s (n - length d) (offset + length d) (tot + int (length d)) (p @ d))
      else Some (tot, p, s))"

definition pread_in_full :: "'o os_pread \<Rightarrow> 'o \<Rightarrow> nat \<Rightarrow> nat \<Rightarrow> (int \<times> byte list \<times> 'o) option" where
  "pread_in_full rd s n offset = pread_loop rd s n offset 0 []"

text \<open>The value returned and \<open>errno\<close> if it is \<open>-1\<close>.\<close>

partial_function (option) write_loop ::
    "'o os_write \<Rightarrow> 'o \<Rightarrow> byte list \<Rightarrow> nat \<Rightarrow> ((nat + errno) \<times> 'o) option" where
  "write_loop wr s p tot =
     (if length p > 0 then
        Option.bind (xwrite wr s p) (\<lambda>(written, s).
          case written of
            Inr err \<Rightarrow> Some (Inr err, s)
          | Inl n \<Rightarrow>
              if n = 0 then Some (Inr ENOSPC, s)
              else write_loop wr s (drop n p) (tot + n))
      else Some (Inl tot, s))"

definition write_in_full :: "'o os_write \<Rightarrow> 'o \<Rightarrow> byte list \<Rightarrow> ((nat + errno) \<times> 'o) option" where
  "write_in_full wr s buf = write_loop wr s buf 0"

subsection \<open>Reading into a buffer\<close>

text \<open>
  The value returned, the buffer and the state; the outer \<open>None\<close> is a call that does not return.
\<close>

partial_function (option) strbuf_read_loop ::
    "'o os_read \<Rightarrow> 'o \<Rightarrow> strbuf \<Rightarrow> nat \<Rightarrow> nat \<Rightarrow> (bool \<times> strbuf \<times> 'o) outcome option" where
  "strbuf_read_loop rd s sb oldlen oldalloc =
     (let want = sb_alloc sb - sb_len sb - 1
      in Option.bind (read_in_full rd s want) (\<lambda>(got, d, s).
         case mem_write (sb_buf sb) (sb_len sb) (List.map Some d) of
           Failure \<Rightarrow> Some Failure
         | Fault \<Rightarrow> Some Fault
         | Value b \<Rightarrow>
             let sb = sb\<lparr>sb_buf := b\<rparr>
             in if got < 0 then
                  Some (and_then (if oldalloc = 0 then strbuf_release sb else strbuf_setlen sb oldlen)
                    (\<lambda>sb. Value (False, sb, s)))
                else
                  let sb = sb\<lparr>sb_len := sb_len sb + nat got\<rparr>
                  in if got < int want then Some (Value (True, sb, s))
                     else
                       case strbuf_grow sb 8192 of
                         Failure \<Rightarrow> Some Failure
                       | Fault \<Rightarrow> Some Fault
                       | Value sb \<Rightarrow> strbuf_read_loop rd s sb oldlen oldalloc))"

definition strbuf_read ::
    "'o os_read \<Rightarrow> 'o \<Rightarrow> strbuf \<Rightarrow> nat \<Rightarrow> (int \<times> strbuf \<times> 'o) outcome option" where
  "strbuf_read rd s sb hint =
     (let oldlen = sb_len sb; oldalloc = sb_alloc sb
      in case strbuf_grow sb (if hint \<noteq> 0 then hint else 8192) of
           Failure \<Rightarrow> Some Failure
         | Fault \<Rightarrow> Some Fault
         | Value sb \<Rightarrow>
             Option.bind (strbuf_read_loop rd s sb oldlen oldalloc) (\<lambda>r.
             Some (and_then r (\<lambda>(ok, sb, s).
               if \<not> ok then Value (- 1, sb, s)
               else and_then (mem_write (sb_buf sb) (sb_len sb) [Some 0]) (\<lambda>b.
                    Value (int (sb_len sb - oldlen), sb\<lparr>sb_buf := b\<rparr>, s))))))"

definition strbuf_read_once ::
    "'o os_read \<Rightarrow> 'o \<Rightarrow> strbuf \<Rightarrow> nat \<Rightarrow> (int \<times> strbuf \<times> 'o) outcome option" where
  "strbuf_read_once rd s sb hint =
     (case strbuf_grow sb (if hint \<noteq> 0 then hint else 8192) of
        Failure \<Rightarrow> Some Failure
      | Fault \<Rightarrow> Some Fault
      | Value sb \<Rightarrow>
          Option.bind (xread rd s (sb_alloc sb - sb_len sb - 1)) (\<lambda>(r, s).
          case r of
            Inr _ \<Rightarrow> Some (Value (- 1, sb, s))
          | Inl d \<Rightarrow>
              Some (if length d > 0 then
                 and_then (mem_write (sb_buf sb) (sb_len sb) (List.map Some d)) (\<lambda>b.
                 and_then (strbuf_setlen (sb\<lparr>sb_buf := b\<rparr>) (sb_len sb + length d)) (\<lambda>sb.
                 Value (int (length d), sb, s)))
               else Value (0, sb, s))))"

text \<open>One byte at a time, until the terminator (\<open>0\<close> is returned) or the end or an error (\<open>EOF\<close>).\<close>

partial_function (option) getwholeline_fd_loop ::
    "'o os_read \<Rightarrow> 'o \<Rightarrow> strbuf \<Rightarrow> byte \<Rightarrow> (int \<times> strbuf \<times> 'o) outcome option" where
  "getwholeline_fd_loop rd s sb term =
     Option.bind (xread rd s 1) (\<lambda>(r, s).
       case r of
         Inr _ \<Rightarrow> Some (Value (- 1, sb, s))
       | Inl d \<Rightarrow>
           case d of
             [] \<Rightarrow> Some (Value (- 1, sb, s))
           | ch # _ \<Rightarrow>
               case strbuf_addch sb ch of
                 Failure \<Rightarrow> Some Failure
               | Fault \<Rightarrow> Some Fault
               | Value sb \<Rightarrow> if ch = term then Some (Value (0, sb, s)) else getwholeline_fd_loop rd s sb term)"

definition strbuf_getwholeline_fd ::
    "'o os_read \<Rightarrow> 'o \<Rightarrow> strbuf \<Rightarrow> byte \<Rightarrow> (int \<times> strbuf \<times> 'o) outcome option" where
  "strbuf_getwholeline_fd rd s sb term =
     (case strbuf_reset sb of
        Failure \<Rightarrow> Some Failure
      | Fault \<Rightarrow> Some Fault
      | Value sb \<Rightarrow> getwholeline_fd_loop rd s sb term)"

subsection \<open>What the loops rely on\<close>

text \<open>
  The documented behaviour of \<open>read\<close> on a file: it returns some of the bytes that follow, at most
  as many as asked for and none only at the end; or an error without consuming anything.
  \<open>retries\<close> bounds how often it can be interrupted or would block in a row; another error is
  possible if \<open>fails\<close>. Likewise for \<open>write\<close>.
\<close>

definition retryable :: "errno \<Rightarrow> bool" where
  "retryable err \<longleftrightarrow> err \<in> {EINTR, EAGAIN, EWOULDBLOCK}"

definition reads_file :: "bool \<Rightarrow> 'o os_read \<Rightarrow> ('o \<Rightarrow> byte list) \<Rightarrow> ('o \<Rightarrow> nat) \<Rightarrow> bool" where
  "reads_file fails rd content retries \<longleftrightarrow>
     (\<forall>s n. n > 0 \<longrightarrow>
       (case rd s n of
          (Inl d, s') \<Rightarrow> content s = d @ content s' \<and> length d \<le> n \<and> (d = [] \<longrightarrow> content s = [])
        | (Inr err, s') \<Rightarrow> content s' = content s \<and>
            (if retryable err then retries s' < retries s else fails)))"

definition writes_file :: "bool \<Rightarrow> 'o os_write \<Rightarrow> ('o \<Rightarrow> byte list) \<Rightarrow> ('o \<Rightarrow> nat) \<Rightarrow> bool" where
  "writes_file fails wr written retries \<longleftrightarrow>
     (\<forall>s buf. buf \<noteq> [] \<longrightarrow>
       (case wr s buf of
          (Inl n, s') \<Rightarrow> n \<le> length buf \<and> written s' = written s @ take n buf \<and> (n = 0 \<longrightarrow> fails)
        | (Inr err, s') \<Rightarrow> written s' = written s \<and>
            (if retryable err then retries s' < retries s else fails)))"

lemma reads_file_read:
  assumes "reads_file fails rd content retries" "n > 0" "rd s n = (Inl d, s')"
  shows "content s = d @ content s'" "length d \<le> n" "d = [] \<Longrightarrow> content s = []"
  using assms(1) [unfolded reads_file_def, rule_format, OF assms(2), of s] assms(3) by auto

lemma reads_file_error:
  assumes "reads_file fails rd content retries" "n > 0" "rd s n = (Inr err, s')"
  shows "content s' = content s" "if retryable err then retries s' < retries s else fails"
  using assms(1) [unfolded reads_file_def, rule_format, OF assms(2), of s] assms(3) by auto

lemma writes_file_written:
  assumes "writes_file fails wr written retries" "buf \<noteq> []" "wr s buf = (Inl n, s')"
  shows "written s' = written s @ take n buf" "n \<le> length buf" "n = 0 \<Longrightarrow> fails"
  using assms(1) [unfolded writes_file_def, rule_format, OF assms(2), of s] assms(3) by auto

lemma writes_file_error:
  assumes "writes_file fails wr written retries" "buf \<noteq> []" "wr s buf = (Inr err, s')"
  shows "written s' = written s" "if retryable err then retries s' < retries s else fails"
  using assms(1) [unfolded writes_file_def, rule_format, OF assms(2), of s] assms(3) by auto

lemma handle_nonblock_iff: "err = EINTR \<or> handle_nonblock err \<longleftrightarrow> retryable err"
  by (auto simp: handle_nonblock_def retryable_def)

subsection \<open>The loops return\<close>

lemma xread_reads:
  assumes f: "reads_file fails rd content retries" and n: "n > 0"
  shows "\<exists>r s'. xread rd s n = Some (r, s') \<and>
    (case r of Inl d \<Rightarrow> content s = d @ content s' \<and> length d \<le> n \<and> (d = [] \<longrightarrow> content s = [])
     | Inr err \<Rightarrow> content s' = content s \<and> fails)"
proof (induction "retries s" arbitrary: s rule: less_induct)
  case less
  define m where "m = (if n > MAX_IO_SIZE then MAX_IO_SIZE else n)"
  have m: "m > 0" "m \<le> n"
    using n by (auto simp: m_def MAX_IO_SIZE_def)
  obtain r s' where r: "rd s m = (r, s')"
    by (cases "rd s m")
  show ?case
  proof (cases r)
    case (Inl d)
    then show ?thesis
      using reads_file_read [OF f m(1), of s d s'] r m(2) by (subst xread.simps) (auto simp flip: m_def)
  next
    case (Inr err)
    have e: "content s' = content s" "if retryable err then retries s' < retries s else fails"
      using reads_file_error [OF f m(1)] r Inr by blast+
    show ?thesis
    proof (cases "retryable err")
      case True
      then have "xread rd s n = xread rd s' n"
        using r Inr handle_nonblock_iff [of err] by (subst xread.simps) (auto simp flip: m_def)
      then show ?thesis
        using less.hyps [of s'] e(2) True unfolding e(1) by simp
    next
      case False
      then show ?thesis
        using r Inr handle_nonblock_iff [of err] e by (subst xread.simps) (auto simp flip: m_def)
    qed
  qed
qed

lemma xwrite_writes:
  assumes f: "writes_file fails wr written retries" and buf: "buf \<noteq> []"
  shows "\<exists>r s'. xwrite wr s buf = Some (r, s') \<and>
    (case r of Inl n \<Rightarrow> n \<le> length buf \<and> written s' = written s @ take n buf \<and> (n = 0 \<longrightarrow> fails)
     | Inr err \<Rightarrow> written s' = written s \<and> fails)"
proof (induction "retries s" arbitrary: s rule: less_induct)
  case less
  define b where "b = (if length buf > MAX_IO_SIZE then take MAX_IO_SIZE buf else buf)"
  have b: "b \<noteq> []" "length b \<le> length buf" "\<And>n. n \<le> length b \<Longrightarrow> take n b = take n buf"
    using buf by (auto simp: b_def MAX_IO_SIZE_def min_absorb1)
  obtain r s' where r: "wr s b = (r, s')"
    by (cases "wr s b")
  show ?case
  proof (cases r)
    case (Inl n)
    then show ?thesis
      using writes_file_written [OF f b(1), of s n s'] r b(2) b(3) [of n]
      by (subst xwrite.simps) (auto simp flip: b_def)
  next
    case (Inr err)
    have e: "written s' = written s" "if retryable err then retries s' < retries s else fails"
      using writes_file_error [OF f b(1)] r Inr by blast+
    show ?thesis
    proof (cases "retryable err")
      case True
      then have "xwrite wr s buf = xwrite wr s' buf"
        using r Inr handle_nonblock_iff [of err] by (subst xwrite.simps) (auto simp flip: b_def)
      then show ?thesis
        using less.hyps [of s'] e(2) True unfolding e(1) by simp
    next
      case False
      then show ?thesis
        using r Inr handle_nonblock_iff [of err] e by (subst xwrite.simps) (auto simp flip: b_def)
    qed
  qed
qed

lemma read_loop_reads:
  assumes f: "reads_file fails rd content retries"
  shows "\<exists>got d s'. read_loop rd s n tot p = Some (got, p @ d, s') \<and> content s = d @ content s' \<and>
    length d \<le> n \<and> (got = tot + int (length d) \<and> (length d < n \<longrightarrow> content s' = []) \<or> fails \<and> got = - 1)"
proof (induction n arbitrary: s tot p rule: less_induct)
  case (less n)
  show ?case
  proof (cases "n > 0")
    case True
    obtain r s1 where r: "xread rd s n = Some (r, s1)"
        "case r of Inl d \<Rightarrow> content s = d @ content s1 \<and> length d \<le> n \<and> (d = [] \<longrightarrow> content s = [])
         | Inr err \<Rightarrow> content s1 = content s \<and> fails"
      using xread_reads [OF f True, of s] by blast
    show ?thesis
    proof (cases r)
      case (Inr err)
      then show ?thesis
        using r True by (subst read_loop.simps) auto
    next
      case (Inl d)
      show ?thesis
      proof (cases "d = []")
        case True
        then show ?thesis
          using r Inl \<open>n > 0\<close> by (subst read_loop.simps) auto
      next
        case False
        then have "n - length d < n"
          using \<open>n > 0\<close> by (cases d) auto
        from less.IH [OF this, of s1 "tot + int (length d)" "p @ d"] obtain got d' s' where
          "read_loop rd s1 (n - length d) (tot + int (length d)) (p @ d) = Some (got, (p @ d) @ d', s')"
          "content s1 = d' @ content s'" "length d' \<le> n - length d"
          "got = tot + int (length d) + int (length d') \<and> (length d' < n - length d \<longrightarrow> content s' = []) \<or>
           fails \<and> got = - 1"
          by blast
        then show ?thesis
          using r Inl False \<open>n > 0\<close>
          by (subst read_loop.simps) (auto intro!: exI [of _ got] exI [of _ "d @ d'"] exI [of _ s'])
      qed
    qed
  qed (simp add: read_loop.simps)
qed

lemma write_loop_writes:
  assumes f: "writes_file fails wr written retries"
  shows "\<exists>r s'. write_loop wr s p tot = Some (r, s') \<and>
    (r = Inl (tot + length p) \<and> written s' = written s @ p \<or>
     fails \<and> (\<exists>err. r = Inr err) \<and> (\<exists>k\<le>length p. written s' = written s @ take k p))"
proof (induction "length p" arbitrary: s p tot rule: less_induct)
  case less
  show ?case
  proof (cases "p = []")
    case False
    obtain r s1 where r: "xwrite wr s p = Some (r, s1)"
        "case r of Inl n \<Rightarrow> n \<le> length p \<and> written s1 = written s @ take n p \<and> (n = 0 \<longrightarrow> fails)
         | Inr err \<Rightarrow> written s1 = written s \<and> fails"
      using xwrite_writes [OF f False, of s] by blast
    show ?thesis
    proof (cases r)
      case (Inr err)
      then show ?thesis
        using r False by (subst write_loop.simps) (auto intro!: exI [of _ 0])
    next
      case (Inl n)
      show ?thesis
      proof (cases "n = 0")
        case True
        then show ?thesis
          using r Inl False by (subst write_loop.simps) (auto intro!: exI [of _ 0])
      next
        case n: False
        then have shorter: "length (drop n p) < length p"
          using False by simp
        have split: "take n p @ take k (drop n p) = take (n + k) p" for k
          by (simp add: take_add)
        have step: "write_loop wr s p tot = write_loop wr s1 (drop n p) (tot + n)"
          using r Inl False n by (subst write_loop.simps) simp
        from less.hyps [OF shorter, of s1 "tot + n"] obtain r' s' where rest:
          "write_loop wr s1 (drop n p) (tot + n) = Some (r', s')"
          "r' = Inl (tot + n + length (drop n p)) \<and> written s' = written s1 @ drop n p \<or>
           fails \<and> (\<exists>err. r' = Inr err) \<and> (\<exists>k\<le>length (drop n p). written s' = written s1 @ take k (drop n p))"
          by blast
        have np: "n \<le> length p" "written s1 = written s @ take n p"
          using r Inl by auto
        from rest(2) show ?thesis
        proof (elim disjE conjE exE)
          fix err k
          assume k: "k \<le> length (drop n p)" "written s' = written s1 @ take k (drop n p)" "fails" "r' = Inr err"
          then have "n + k \<le> length p" "written s' = written s @ take (n + k) p"
            using np by (simp_all add: split)
          then show ?thesis
            unfolding step rest(1) using k by blast
        qed (use rest(1) step np in auto)
      qed
    qed
  qed (simp add: write_loop.simps)
qed

subsection \<open>Reading to the end\<close>

lemma write_heap:
  assumes "length d \<le> length u"
  shows "mem_write (Heap (List.map Some t @ u)) (length t) (List.map Some d) =
    Value (Heap (List.map Some (t @ d) @ drop (length d) u))"
  using assms by (simp add: overwrite_def)

lemma heap_buf_extend:
  "length d \<le> length u \<Longrightarrow>
   heap_buf t u\<lparr>sb_buf := Heap (List.map Some (t @ d) @ drop (length d) u), sb_len := length t + length d\<rparr> =
   heap_buf (t @ d) (drop (length d) u)"
  by (simp add: heap_buf_def)

lemma heap_buf_rewrite:
  "length d \<le> length u \<Longrightarrow>
   heap_buf t u\<lparr>sb_buf := Heap (List.map Some (t @ d) @ drop (length d) u)\<rparr> =
   heap_buf t (List.map Some d @ drop (length d) u)"
  by (simp add: heap_buf_def)

lemma setlen_shorter:
  assumes "n \<le> length t" "u \<noteq> []" "length t + length u \<le> SIZE_MAX"
  shows "\<exists>sb. strbuf_setlen (heap_buf t u) n = Value sb \<and> strbuf_rep sb (take n t)"
proof -
  have "take n t @ drop n t = t"
    by simp
  then have t: "List.map Some t @ u = List.map Some (take n t) @ List.map Some (drop n t) @ u"
    by (metis append.assoc map_append)
  obtain x v where v: "List.map Some (drop n t) @ u = x # v"
    using assms(2) by (cases "List.map Some (drop n t) @ u") auto
  have l: "length t + length u = n + length v + 1"
    using assms(1) arg_cong [OF v, of length] by simp
  have "strbuf_setlen (heap_buf t u) (length (take n t)) = Value (heap_buf (take n t) (Some 0 # v))"
    using assms(1) l t v by (intro setlen_heap) simp_all
  moreover have "strbuf_rep (heap_buf (take n t) (Some 0 # v)) (take n t)"
    using assms l by (intro rep_heap) simp
  ultimately show ?thesis
    using assms(1) by (simp add: min_absorb2)
qed

lemma release_heap: "u \<noteq> [] \<Longrightarrow> strbuf_release (heap_buf t u) = Value STRBUF_INIT"
  by (simp add: strbuf_release_def strbuf_init_def)

lemma strbuf_read_loop_reads:
  assumes f: "reads_file fails rd content retries"
  shows "1 < length u \<Longrightarrow> length t + length u \<le> SIZE_MAX \<Longrightarrow> length t + length (content s) + 8192 < SIZE_MAX \<Longrightarrow>
    oldlen \<le> length t \<Longrightarrow> (oldalloc = 0 \<longrightarrow> oldlen = 0) \<Longrightarrow>
    \<exists>ok sb s'. strbuf_read_loop rd s (heap_buf t u) oldlen oldalloc = Some (Value (ok, sb, s')) \<and>
      (ok \<and> content s' = [] \<and> strbuf_room sb (t @ content s) 0 \<or> \<not> ok \<and> fails \<and> strbuf_rep sb (take oldlen t))"
proof (induction "length (content s)" arbitrary: s t u rule: less_induct)
  case less
  obtain got d s1 where r: "read_in_full rd s (length u - 1) = Some (got, d, s1)"
      "content s = d @ content s1" "length d \<le> length u - 1"
      "got = int (length d) \<and> (length d < length u - 1 \<longrightarrow> content s1 = []) \<or> fails \<and> got = - 1"
    using read_loop_reads [OF f, of s "length u - 1" 0 "[]"] by (auto simp: read_in_full_def)
  define v where "v = drop (length d) u"
  have d: "length d \<le> length u" "v \<noteq> []" "length (t @ d) + length v = length t + length u"
    using r(3) less.prems(1) by (auto simp: v_def)
  note loop = strbuf_read_loop.simps [of rd s "heap_buf t u" oldlen oldalloc]
  show ?case
  proof (cases "got < 0")
    case True
    then have fails
      using r(4) by auto
    obtain sb where "(if oldalloc = 0 then strbuf_release (heap_buf t (List.map Some d @ v))
        else strbuf_setlen (heap_buf t (List.map Some d @ v)) oldlen) = Value sb" "strbuf_rep sb (take oldlen t)"
      using setlen_shorter [of oldlen t "List.map Some d @ v"] release_heap [of "List.map Some d @ v" t]
        less.prems(2,4,5) d by (cases "oldalloc = 0") auto
    then show ?thesis
      using \<open>fails\<close> r(1) d(1) True
      by (auto simp: loop Let_def write_heap [OF d(1)] heap_buf_rewrite [OF d(1), folded v_def] v_def [symmetric]
          simp del: mem_write.simps map_append append_assoc)
  next
    case False
    then have got: "got = int (length d)" "length d < length u - 1 \<longrightarrow> content s1 = []"
      using r(4) by auto
    show ?thesis
    proof (cases "length d < length u - 1")
      case True
      then have "int (length d) < int (length u) - 1"
        using less.prems(1) by linarith
      then have "strbuf_read_loop rd s (heap_buf t u) oldlen oldalloc = Some (Value (True, heap_buf (t @ d) v, s1))"
        using got(1) r(1) by (simp add: loop Let_def write_heap [OF d(1)] heap_buf_extend [OF d(1)] v_def
            del: mem_write.simps map_append append_assoc)
      moreover have "strbuf_room (heap_buf (t @ d) v) (t @ content s) 0" "content s1 = []"
        using True got(2) r(2) d(2,3) less.prems(2) by (auto simp: strbuf_room_def)
      ultimately show ?thesis
        by blast
    next
      case more: False
      have small: "length (t @ d) + 8192 < SIZE_MAX"
        using r(2) less.prems(3) by simp
      obtain w where w: "strbuf_grow (heap_buf (t @ d) v) 8192 = Value (heap_buf (t @ d) (v @ w))"
          "8192 < length (v @ w)" "length (t @ d) + length (v @ w) \<le> SIZE_MAX"
        using grow_heap [of v "t @ d" 8192] d(2,3) less.prems(2) small by metis
      have "length (content s1) < length (content s)"
        using r(2) more less.prems(1) by auto
      then obtain ok sb s' where IH: "strbuf_read_loop rd s1 (heap_buf (t @ d) (v @ w)) oldlen oldalloc = Some (Value (ok, sb, s'))"
          "ok \<and> content s' = [] \<and> strbuf_room sb ((t @ d) @ content s1) 0 \<or> \<not> ok \<and> fails \<and> strbuf_rep sb (take oldlen (t @ d))"
        using less.hyps [of s1 "v @ w" "t @ d"] w(2,3) small r(2) less.prems(3,4,5) by auto
      have "strbuf_read_loop rd s (heap_buf t u) oldlen oldalloc =
          strbuf_read_loop rd s1 (heap_buf (t @ d) (v @ w)) oldlen oldalloc"
        using got r(1) d(1) more w(1)
        by (simp add: loop Let_def write_heap [OF d(1), folded v_def] heap_buf_extend [OF d(1), folded v_def]
            del: mem_write.simps map_append append_assoc)
      then show ?thesis
        using IH r(2) less.prems(4) by auto
    qed
  qed
qed

lemma room_end:
  assumes "strbuf_room sb t 0"
  shows "\<exists>b. mem_write (sb_buf sb) (sb_len sb) [Some 0] = Value b \<and> strbuf_rep (sb\<lparr>sb_buf := b\<rparr>) t"
proof -
  obtain x v where v: "sb = heap_buf t (x # v)" "length t + length (x # v) \<le> SIZE_MAX"
    using assms by (auto simp: strbuf_room_def neq_Nil_conv)
  have eq: "heap_buf t (x # v)\<lparr>sb_buf := Heap (List.map Some t @ Some 0 # v)\<rparr> = heap_buf t (Some 0 # v)"
    by (simp add: heap_buf_def)
  have "strbuf_rep (heap_buf t (Some 0 # v)) t"
    using v by (intro rep_heap) simp
  then show ?thesis
    using v by (auto simp: overwrite_def eq)
qed

lemma strbuf_read_rep:
  assumes f: "reads_file fails rd content retries" and rep: "strbuf_rep sb t"
    and small: "length t + length (content s) + hint + 8192 < SIZE_MAX"
  shows "\<exists>r sb' s'. strbuf_read rd s sb hint = Some (Value (r, sb', s')) \<and>
    (r = int (length (content s)) \<and> content s' = [] \<and> strbuf_rep sb' (t @ content s) \<or>
     fails \<and> r = - 1 \<and> strbuf_rep sb' t)"
proof -
  define h where "h = (if hint \<noteq> 0 then hint else 8192)"
  have h: "h > 0" "length t + h < SIZE_MAX"
    using small by (auto simp: h_def)
  obtain u where u: "strbuf_grow sb h = Value (heap_buf t u)" "h < length u" "length t + length u \<le> SIZE_MAX"
    using grow_rep [OF rep h(2)] by (auto elim: room_heap)
  have old: "sb_len sb \<le> length t" "sb_alloc sb = 0 \<longrightarrow> sb_len sb = 0" "take (sb_len sb) t = t"
    using rep by (auto elim: rep_cases)
  obtain ok sb1 s' where r: "strbuf_read_loop rd s (heap_buf t u) (sb_len sb) (sb_alloc sb) = Some (Value (ok, sb1, s'))"
      "ok \<and> content s' = [] \<and> strbuf_room sb1 (t @ content s) 0 \<or> \<not> ok \<and> fails \<and> strbuf_rep sb1 (take (sb_len sb) t)"
    using strbuf_read_loop_reads [OF f, of u t s "sb_len sb" "sb_alloc sb"] u h small old by auto
  show ?thesis
  proof (cases ok)
    case True
    then obtain b where b: "mem_write (sb_buf sb1) (sb_len sb1) [Some 0] = Value b"
        "strbuf_rep (sb1\<lparr>sb_buf := b\<rparr>) (t @ content s)"
      using r(2) room_end by blast
    have "sb_len sb1 = length (t @ content s)"
      using True r(2) by (auto simp: strbuf_room_def)
    then show ?thesis
      using True r b u(1) rep_len [OF rep] unfolding strbuf_read_def Let_def h_def [symmetric] by auto
  next
    case False
    then show ?thesis
      using r u(1) old(3) unfolding strbuf_read_def Let_def h_def [symmetric] by auto
  qed
qed

text \<open>A line read byte by byte: up to and with the terminator, or all there is.\<close>

lemma getwholeline_fd_loop_rep:
  assumes f: "reads_file fails rd content retries"
  shows "strbuf_rep sb t \<Longrightarrow> length t + length (content s) < SIZE_MAX \<Longrightarrow>
    \<exists>r sb' s' d. getwholeline_fd_loop rd s sb nl = Some (Value (r, sb', s')) \<and> strbuf_rep sb' (t @ d) \<and>
      content s = d @ content s' \<and>
      (r = 0 \<and> d \<noteq> [] \<and> last d = nl \<and> nl \<notin> set (butlast d) \<or>
       r = - 1 \<and> nl \<notin> set d \<and> (content s' = [] \<or> fails))"
proof (induction "length (content s)" arbitrary: s sb t rule: less_induct)
  case less
  obtain r s1 where r: "xread rd s 1 = Some (r, s1)"
      "case r of Inl d \<Rightarrow> content s = d @ content s1 \<and> length d \<le> 1 \<and> (d = [] \<longrightarrow> content s = [])
       | Inr err \<Rightarrow> content s1 = content s \<and> fails"
    using xread_reads [OF f, of 1 s] by auto
  note loop = getwholeline_fd_loop.simps [of rd s sb nl]
  show ?case
  proof (cases r)
    case (Inr err)
    then show ?thesis
      using r less.prems by (auto simp: loop)
  next
    case (Inl d)
    show ?thesis
    proof (cases d)
      case Nil
      then show ?thesis
        using r Inl less.prems by (auto simp: loop)
    next
      case (Cons c cs)
      then have c: "d = [c]" "content s = c # content s1"
        using r Inl by auto
      obtain sb1 where sb1: "strbuf_addch sb c = Value sb1" "strbuf_rep sb1 (t @ [c])"
        using addch_makes [OF less.prems(1), of c] less.prems(2) c(2) by (auto simp: makes_def)
      show ?thesis
      proof (cases "c = nl")
        case True
        then show ?thesis
          using r(1) Inl c sb1 by (auto simp: loop intro!: exI [of _ "[c]"])
      next
        case False
        obtain r' sb' s' d' where IH: "getwholeline_fd_loop rd s1 sb1 nl = Some (Value (r', sb', s'))"
            "strbuf_rep sb' ((t @ [c]) @ d')" "content s1 = d' @ content s'"
            "r' = 0 \<and> d' \<noteq> [] \<and> last d' = nl \<and> nl \<notin> set (butlast d') \<or>
             r' = - 1 \<and> nl \<notin> set d' \<and> (content s' = [] \<or> fails)"
          using less.hyps [of s1 sb1 "t @ [c]"] sb1(2) less.prems(2) c(2) by auto
        have "getwholeline_fd_loop rd s sb nl = getwholeline_fd_loop rd s1 sb1 nl"
          using r(1) Inl c(1) sb1(1) False by (simp add: loop)
        then show ?thesis
          using IH c(2) False by (intro exI [of _ r'] exI [of _ sb'] exI [of _ s'] exI [of _ "c # d'"]) auto
      qed
    qed
  qed
qed

subsection \<open>Progress\<close>

text \<open>
  (C30) Against a file that is only interrupted, or not ready, finitely often in a row,
  \<open>write_in_full\<close> returns, having written every byte once and in order, however small the pieces
  the system takes. If it can fail, the call still returns, and what was written is a beginning
  of the data.
\<close>
theorem write_in_full_writes:
  assumes "writes_file fails wr written retries"
  shows "\<exists>r s'. write_in_full wr s buf = Some (r, s') \<and>
    (r = Inl (length buf) \<and> written s' = written s @ buf \<or>
     fails \<and> (\<exists>err. r = Inr err) \<and> (\<exists>k\<le>length buf. written s' = written s @ take k buf))"
  using write_loop_writes [OF assms, of s buf 0] by (simp add: write_in_full_def)

text \<open>A file that is interrupted before every byte it takes or gives.\<close>

definition slow_write :: "(byte list \<times> nat) os_write" where
  "slow_write s buf = (if snd s > 0 then (Inr EINTR, (fst s, snd s - 1)) else (Inl 1, (fst s @ take 1 buf, 1)))"

definition slow_read :: "(byte list \<times> nat) os_read" where
  "slow_read s n =
     (if snd s > 0 then (Inr EAGAIN, (fst s, snd s - 1)) else (Inl (take 1 (fst s)), (drop 1 (fst s), 1)))"

lemma slow_writes: "writes_file False slow_write fst snd"
  by (auto simp: writes_file_def slow_write_def retryable_def Suc_le_eq)

lemma slow_reads: "reads_file False slow_read fst snd"
  by (auto simp: reads_file_def slow_read_def retryable_def)

theorem write_in_full_writes_witness:
  "\<exists>s'. write_in_full slow_write ([], 1) [104, 105] = Some (Inl 2, s') \<and> fst s' = [104, 105]"
  using write_in_full_writes [OF slow_writes, of "([], 1)" "[104, 105]"] by auto

text \<open>
  A line read through \<open>strbuf_getwholeline_fd\<close> is the text up to and with the next terminator, and \<open>0\<close> is returned; or it is
  what is left, and \<open>EOF\<close> is returned.
\<close>

lemma strbuf_getwholeline_fd_line:
  assumes "reads_file fails rd content retries" "strbuf_wf sb" "length (content s) + 8192 < SIZE_MAX"
  shows "\<exists>r sb' s'. strbuf_getwholeline_fd rd s sb nl = Some (Value (r, sb', s')) \<and> strbuf_wf sb' \<and>
      content s = strbuf_text sb' @ content s' \<and>
      (r = 0 \<and> strbuf_text sb' \<noteq> [] \<and> last (strbuf_text sb') = nl \<and> nl \<notin> set (butlast (strbuf_text sb')) \<or>
       r = - 1 \<and> nl \<notin> set (strbuf_text sb') \<and> (content s' = [] \<or> fails))"
proof -
  obtain sb0 where sb0: "strbuf_reset sb = Value sb0" "strbuf_rep sb0 []"
    using reset_makes [OF wf_rep [OF assms(2)]] by (auto simp: makes_def SIZE_MAX_def)
  obtain r sb' s' d where line: "getwholeline_fd_loop rd s sb0 nl = Some (Value (r, sb', s'))" "strbuf_rep sb' d"
      "content s = d @ content s'"
      "r = 0 \<and> d \<noteq> [] \<and> last d = nl \<and> nl \<notin> set (butlast d) \<or> r = - 1 \<and> nl \<notin> set d \<and> (content s' = [] \<or> fails)"
    using getwholeline_fd_loop_rep [OF assms(1) sb0(2), of s nl] assms(3) by auto
  then show ?thesis
    using sb0(1) rep_wf [OF line(2)]
    by (intro exI [of _ r] exI [of _ sb'] exI [of _ s']) (simp add: strbuf_getwholeline_fd_def)
qed

text \<open>
  \<^verbatim>\<open>strbuf.h\<close> documents that \<open>0\<close> is returned unless there was nothing left before \<open>EOF\<close>, as
  \<open>strbuf_getwholeline\<close> does. The code differs from it for a last line without a terminator: the line is stored, but
  \<open>EOF\<close> is returned, so that a caller that stops there loses it.
\<close>

lemma getwholeline_fd_unterminated:
  assumes "reads_file False rd content retries" "strbuf_wf sb" "length (content s) + 8192 < SIZE_MAX" "nl \<notin> set (content s)"
  shows "\<exists>sb' s'. strbuf_getwholeline_fd rd s sb nl = Some (Value (- 1, sb', s')) \<and>
    strbuf_text sb' = content s \<and> content s' = []"
proof -
  obtain r sb' s' where line: "strbuf_getwholeline_fd rd s sb nl = Some (Value (r, sb', s'))"
      "content s = strbuf_text sb' @ content s'"
      "r = 0 \<and> strbuf_text sb' \<noteq> [] \<and> last (strbuf_text sb') = nl \<or> r = - 1 \<and> content s' = []"
    using strbuf_getwholeline_fd_line [OF assms(1-3), of nl] by auto
  moreover have "last (strbuf_text sb') \<noteq> nl" if "strbuf_text sb' \<noteq> []"
    using assms(4) line(2) last_in_set [OF that] by auto
  ultimately show ?thesis
    by auto
qed

text \<open>
  (C31) Reading a file to its end returns, with everything that was left of it behind the text of
  the buffer, whatever the pieces the system returns and the interruptions. If the system can
  fail, \<open>-1\<close> is returned and the text is unchanged; there is no third outcome, and no access
  outside the buffer.
\<close>
theorem strbuf_read_reads:
  assumes "reads_file fails rd content retries" "strbuf_wf sb"
    "sb_len sb + length (content s) + hint + 8192 < SIZE_MAX"
  shows "\<exists>r sb' s'. strbuf_read rd s sb hint = Some (Value (r, sb', s')) \<and> strbuf_wf sb' \<and>
      (r = int (length (content s)) \<and> content s' = [] \<and> strbuf_text sb' = strbuf_text sb @ content s \<or>
       fails \<and> r = - 1 \<and> strbuf_text sb' = strbuf_text sb)"
proof -
  note rep = wf_rep [OF assms(2)]
  have "length (strbuf_text sb) = sb_len sb"
    using rep_len [OF rep] by simp
  then show ?thesis
    using strbuf_read_rep [OF assms(1) rep, of s hint] assms(3) by (fastforce dest: rep_wf)
qed

theorem strbuf_read_reads_witness:
  "\<exists>sb' s'. strbuf_read slow_read ([104, 105], 1) STRBUF_INIT 0 = Some (Value (2, sb', s')) \<and>
     strbuf_text sb' = [104, 105]"
  using strbuf_read_reads [OF slow_reads, of STRBUF_INIT "([104, 105], 1)" 0] rep_wf [OF rep_init]
  by (auto simp: SIZE_MAX_def)

end
