(* ===== verification/Git_Quote.thy ===== *)
theory Git_Quote
  imports Git_Strbuf_Lines
begin

text \<open>
  Quoting (\<^verbatim>\<open>quote.c\<close>): arguments for the shell and back, file names in C style and back, and string
  literals of other languages. A C string that is only read is the list of the bytes before its
  NUL; the strings that \<open>sq_dequote\<close> rewrites in place are the memory that holds them, read
  and written by index.
\<close>

subsection \<open>Memory\<close>

definition byte_at :: "byte list \<Rightarrow> nat \<Rightarrow> byte outcome" where
  "byte_at b i = (if i < length b then Value (b ! i) else Fault)"

definition byte_put :: "byte list \<Rightarrow> nat \<Rightarrow> byte \<Rightarrow> byte list outcome" where
  "byte_put b i c = (if i < length b then Value (b[i := c]) else Fault)"

lemma byte_at_Value [simp]: "byte_at b i = Value c \<longleftrightarrow> i < length b \<and> b ! i = c"
  by (auto simp: byte_at_def)

lemma byte_put_Value [simp]: "byte_put b i c = Value b' \<longleftrightarrow> i < length b \<and> b' = b[i := c]"
  by (auto simp: byte_put_def)

lemma and_then_cong [fundef_cong]:
  "m = n \<Longrightarrow> (\<And>x. n = Value x \<Longrightarrow> f x = g x) \<Longrightarrow> and_then m f = and_then n g"
  by (cases n) auto

text \<open>The C string at the start of the memory of a buffer.\<close>

fun cstr_cells :: "cells \<Rightarrow> byte list outcome" where
  "cstr_cells [] = Fault"
| "cstr_cells (None # m) = Fault"
| "cstr_cells (Some c # m) =
     (if c = 0 then Value [] else and_then (cstr_cells m) (\<lambda>s. Value (c # s)))"

definition cstr_of :: "buffer \<Rightarrow> byte list outcome" where
  "cstr_of b = cstr_cells (cells_of b)"

definition cstr :: "byte list \<Rightarrow> byte list" where
  "cstr s = takeWhile (\<lambda>c. c \<noteq> 0) s"

subsection \<open>Quoting for the shell\<close>

definition need_bs_quote :: "byte \<Rightarrow> bool" where
  "need_bs_quote c \<longleftrightarrow> c = 39 \<or> c = 33"

definition bs_quote :: "byte \<Rightarrow> strbuf \<Rightarrow> strbuf outcome" where
  "bs_quote c dst =
     and_then (strbuf_addstr dst [39, 92]) (\<lambda>dst.
     and_then (strbuf_addch dst c) (\<lambda>dst. strbuf_addch dst 39))"

text \<open>The bytes up to the next to quote are copied, then the run of bytes to quote is quoted.\<close>

lemma run_progress:
  "src \<noteq> [] \<Longrightarrow> length (dropWhile P (drop (length (takeWhile (\<lambda>c. \<not> P c) src)) src)) < length src"
proof (induction src)
  case (Cons c src)
  then show ?case
    using length_dropWhile_le [of P src] length_dropWhile_le [of P "drop (length (takeWhile (\<lambda>c. \<not> P c) src)) src"]
    by (auto simp: less_Suc_eq_le)
qed simp

function sq_quote_loop :: "strbuf \<Rightarrow> byte list \<Rightarrow> strbuf outcome" where
  "sq_quote_loop dst src =
     (if src \<noteq> [] then
        let n = length (takeWhile (\<lambda>c. \<not> need_bs_quote c) src)
        in and_then (strbuf_add dst src n) (\<lambda>dst.
           and_then (fold_outcome bs_quote (takeWhile need_bs_quote (drop n src)) dst) (\<lambda>dst.
           sq_quote_loop dst (dropWhile need_bs_quote (drop n src))))
      else Value dst)"
  by auto
termination
  by (relation "measure (\<lambda>(_, src). length src)") (simp_all add: run_progress)

text \<open>\<open>src\<close> is \<open>None\<close> for a call on the memory of the buffer itself.\<close>

definition sq_quote_buf :: "strbuf \<Rightarrow> byte list option \<Rightarrow> strbuf outcome" where
  "sq_quote_buf dst src =
     and_then (case src of
         None \<Rightarrow> and_then (strbuf_detach dst) (\<lambda>(to_free, _, dst).
                 and_then (cstr_of to_free) (\<lambda>src. Value (src, dst)))
       | Some src \<Rightarrow> Value (src, dst)) (\<lambda>(src, dst).
     and_then (strbuf_addch dst 39) (\<lambda>dst.
     and_then (sq_quote_loop dst src) (\<lambda>dst. strbuf_addch dst 39)))"

definition sq_quotef :: "strbuf \<Rightarrow> byte list \<Rightarrow> strbuf outcome" where
  "sq_quotef dst t =
     and_then (strbuf_vaddf STRBUF_INIT t) (\<lambda>src.
     and_then (cstr_of (sb_buf src)) (\<lambda>s.
     and_then (sq_quote_buf dst (Some s)) (\<lambda>dst.
     and_then (strbuf_release src) (\<lambda>_. Value dst))))"

definition sq_quote_arg :: "nat \<Rightarrow> byte list \<Rightarrow> strbuf \<Rightarrow> strbuf outcome" where
  "sq_quote_arg maxlen arg dst =
     and_then (strbuf_addch dst 32) (\<lambda>dst.
     and_then (sq_quote_buf dst (Some arg)) (\<lambda>dst.
     if maxlen \<noteq> 0 \<and> sb_len dst > maxlen then Failure else Value dst))"

definition sq_quote_argv :: "strbuf \<Rightarrow> byte list list \<Rightarrow> nat \<Rightarrow> strbuf outcome" where
  "sq_quote_argv dst argv maxlen =
     and_then (strbuf_grow dst 255) (\<lambda>dst. fold_outcome (sq_quote_arg maxlen) argv dst)"

subsection \<open>Reading the quotes back, in place\<close>

text \<open>
  The memory after the call, whether a string is returned (it starts at \<open>arg\<close>), and the place
  \<open>*next\<close> is set to if that is not \<open>NULL\<close>. \<open>nx\<close> tells whether \<open>next\<close> was given.
\<close>

type_synonym dequoted = "byte list \<times> bool \<times> nat option"

function skip_space :: "byte list \<Rightarrow> nat \<Rightarrow> nat outcome" where
  "skip_space b src =
     and_then (byte_at b (src + 1)) (\<lambda>c. if isspace c then skip_space b (src + 1) else Value (src + 1))"
  by auto
termination by (relation "measure (\<lambda>(b, src). length b - src)") auto

definition dequote_default :: "bool \<Rightarrow> byte list \<Rightarrow> nat \<Rightarrow> nat \<Rightarrow> dequoted outcome" where
  "dequote_default nx b src dst =
     and_then (byte_at b src) (\<lambda>c.
     if \<not> nx \<or> \<not> isspace c then Value (b, False, None)
     else and_then (skip_space b src) (\<lambda>src.
          and_then (byte_put b dst 0) (\<lambda>b. Value (b, True, Some src))))"

function dequote_loop :: "bool \<Rightarrow> byte list \<Rightarrow> nat \<Rightarrow> nat \<Rightarrow> dequoted outcome" where
  "dequote_loop nx b src dst =
     and_then (byte_at b (src + 1)) (\<lambda>c.
     if c = 0 then Value (b, False, None)
     else if c \<noteq> 39 then and_then (byte_put b dst c) (\<lambda>b. dequote_loop nx b (src + 1) (dst + 1))
     else
       and_then (byte_at b (src + 2)) (\<lambda>c.
       if c = 0 then and_then (byte_put b dst 0) (\<lambda>b. Value (b, True, None))
       else if c = 92 then
         and_then (byte_at b (src + 3)) (\<lambda>c.
         if need_bs_quote c then
           and_then (byte_at b (src + 4)) (\<lambda>d.
           if d = 39 then and_then (byte_put b dst c) (\<lambda>b. dequote_loop nx b (src + 4) (dst + 1))
           else dequote_default nx b (src + 4) dst)
         else dequote_default nx b (src + 3) dst)
       else dequote_default nx b (src + 2) dst))"
  by auto
termination by (relation "measure (\<lambda>(nx, b, src, dst). length b - src)") auto

definition sq_dequote_step :: "byte list \<Rightarrow> nat \<Rightarrow> bool \<Rightarrow> dequoted outcome" where
  "sq_dequote_step b arg nx =
     and_then (byte_at b arg) (\<lambda>c. if c \<noteq> 39 then Value (b, False, None) else dequote_loop nx b arg arg)"

definition sq_dequote :: "byte list \<Rightarrow> nat \<Rightarrow> dequoted outcome" where
  "sq_dequote b arg = sq_dequote_step b arg False"

lemma and_then_eq_Value: "and_then m f = Value y \<longleftrightarrow> (\<exists>x. m = Value x \<and> f x = Value y)"
  by (cases m) auto

declare skip_space.simps [simp del] dequote_loop.simps [simp del] sq_quote_loop.simps [simp del]

lemma skip_space_increases: "skip_space b src = Value k \<Longrightarrow> src < k \<and> k < length b"
proof (induction b src rule: skip_space.induct)
  case (1 b src)
  then show ?case
    by (subst (asm) (2) skip_space.simps) (fastforce simp: and_then_eq_Value split: if_splits)
qed

lemma dequote_default_next:
  "dequote_default nx b src dst = Value (b', r, k) \<Longrightarrow> length b' = length b \<and> (\<forall>i. k = Some i \<longrightarrow> src < i \<and> i < length b)"
  by (auto simp: dequote_default_def and_then_eq_Value split: if_splits dest!: skip_space_increases)

lemma dequote_loop_next:
  "dequote_loop nx b src dst = Value (b', r, k) \<Longrightarrow> length b' = length b \<and> (\<forall>i. k = Some i \<longrightarrow> src < i \<and> i < length b)"
proof (induction "length b - src" arbitrary: b src dst rule: less_induct)
  case less
  show ?case
    using less.prems
    by (subst (asm) dequote_loop.simps)
      (auto simp: and_then_eq_Value split: if_splits dest!: dequote_default_next less.hyps [rotated])
qed

lemma sq_dequote_step_next:
  "sq_dequote_step b arg nx = Value (b', r, Some k) \<Longrightarrow> length b' = length b \<and> arg < k \<and> k < length b"
  by (auto simp: sq_dequote_step_def and_then_eq_Value split: if_splits dest!: dequote_loop_next)

text \<open>
  The value returned, the memory, and the strings pushed: where each starts, for the array of
  pointers, and its bytes, for the array of copies. The next argument starts behind the last.
\<close>

function dequote_argv_loop :: "byte list \<Rightarrow> nat \<Rightarrow> (int \<times> byte list \<times> (nat \<times> byte list) list) outcome" where
  "dequote_argv_loop b arg =
     and_then (sq_dequote_step b arg True) (\<lambda>(b, dequoted, k).
     if \<not> dequoted then Value (- 1, b, [])
     else
       let s = (arg, cstr (drop arg b))
       in case k of
            None \<Rightarrow> Value (0, b, [s])
          | Some k \<Rightarrow> and_then (dequote_argv_loop b k) (\<lambda>(r, b, ss). Value (r, b, s # ss)))"
  by auto
termination
  by (relation "measure (\<lambda>(b, arg). length b - arg)") (auto dest: sq_dequote_step_next)

definition sq_dequote_to_argv_internal :: "byte list \<Rightarrow> nat \<Rightarrow> (int \<times> byte list \<times> (nat \<times> byte list) list) outcome" where
  "sq_dequote_to_argv_internal b arg =
     and_then (byte_at b arg) (\<lambda>c. if c = 0 then Value (0, b, []) else dequote_argv_loop b arg)"

definition sq_dequote_to_argv :: "byte list \<Rightarrow> nat \<Rightarrow> (int \<times> byte list \<times> nat list) outcome" where
  "sq_dequote_to_argv b arg =
     and_then (sq_dequote_to_argv_internal b arg) (\<lambda>(r, b, ss). Value (r, b, List.map fst ss))"

definition sq_dequote_to_argv_array :: "byte list \<Rightarrow> nat \<Rightarrow> (int \<times> byte list \<times> byte list list) outcome" where
  "sq_dequote_to_argv_array b arg =
     and_then (sq_dequote_to_argv_internal b arg) (\<lambda>(r, b, ss). Value (r, b, List.map snd ss))"

declare dequote_argv_loop.simps [simp del]

subsection \<open>The quoted text\<close>

definition sq_byte :: "byte \<Rightarrow> byte list" where
  "sq_byte c = (if need_bs_quote c then [39, 92, c, 39] else [c])"

definition sq_body :: "byte list \<Rightarrow> byte list" where
  "sq_body s = concat (List.map sq_byte s)"

definition sq_text :: "byte list \<Rightarrow> byte list" where
  "sq_text s = 39 # sq_body s @ [39]"

lemma sq_body_simps [simp]: "sq_body [] = []" "sq_body (c # s) = sq_byte c @ sq_body s"
    "sq_body (s @ t) = sq_body s @ sq_body t"
  by (simp_all add: sq_body_def)

lemma length_sq_body: "length s \<le> length (sq_body s)"
  by (induction s) (auto simp: sq_byte_def)

lemma sq_body_run:
  "sq_body s = takeWhile (\<lambda>c. \<not> need_bs_quote c) s @
     sq_body (drop (length (takeWhile (\<lambda>c. \<not> need_bs_quote c) s)) s)"
  by (induction s) (auto simp: sq_byte_def)

lemma bs_quote_makes:
  assumes "need_bs_quote c" "strbuf_rep dst t"
  shows "makes (bs_quote c dst) (t @ sq_byte c)"
proof -
  have "makes (and_then (strbuf_addch b c) (\<lambda>dst. strbuf_addch dst 39)) (t @ sq_byte c)"
    if "strbuf_rep b (t @ [39, 92])" for b
  proof (rule makes_and_then [OF addch_makes [OF that]])
    fix b' assume "strbuf_rep b' ((t @ [39, 92]) @ [c])"
    then show "makes (strbuf_addch b' 39) (t @ sq_byte c)"
      using addch_makes [of b' "(t @ [39, 92]) @ [c]" 39] assms(1) by (simp add: sq_byte_def)
  qed (use assms(1) in \<open>simp add: sq_byte_def\<close>)
  then show ?thesis
    using assms(1) unfolding bs_quote_def
    by (intro makes_and_then [OF addstr_makes [OF assms(2)]]) (simp_all add: sq_byte_def)
qed

lemma sq_quote_loop_makes: "strbuf_rep dst t \<Longrightarrow> makes (sq_quote_loop dst src) (t @ sq_body src)"
proof (induction "length src" arbitrary: dst t src rule: less_induct)
  case less
  let ?P = "\<lambda>c. \<not> need_bs_quote c"
  define p r q where "p = takeWhile ?P src" and "r = drop (length p) src" and "q = takeWhile need_bs_quote r"
  show ?case
  proof (cases "src = []")
    case False
    have p: "take (length p) src = p" "length p \<le> length src"
      unfolding p_def by (simp_all add: takeWhile_eq_take [symmetric] length_takeWhile_le)
    have rest: "sq_body src = p @ sq_body q @ sq_body (dropWhile need_bs_quote r)"
      using sq_body_run [of src] unfolding p_def [symmetric] r_def [symmetric] q_def
      by (simp flip: sq_body_simps(3))
    have step: "sq_quote_loop dst src = and_then (strbuf_add dst src (length p)) (\<lambda>dst.
        and_then (fold_outcome bs_quote q dst) (\<lambda>dst. sq_quote_loop dst (dropWhile need_bs_quote r)))"
      using False unfolding q_def r_def p_def by (subst sq_quote_loop.simps) (simp only: Let_def if_True not_False_eq_True)
    have shorter: "length (dropWhile need_bs_quote r) < length src"
      using run_progress [OF False] unfolding r_def p_def .
    show ?thesis
      unfolding step rest
    proof (rule makes_and_then)
      show "makes (strbuf_add dst src (length p)) (t @ p)"
        using add_makes [OF less.prems p(2)] p(1) by simp
      fix b assume b: "strbuf_rep b (t @ p)"
      have "makes (fold_outcome bs_quote q b) ((t @ p) @ sq_body q)"
        unfolding sq_body_def using b
        by (intro strbuf.produces_fold bs_quote_makes) (auto simp: q_def dest: set_takeWhileD)
      then show "makes (and_then (fold_outcome bs_quote q b) (\<lambda>dst. sq_quote_loop dst (dropWhile need_bs_quote r)))
          (t @ p @ sq_body q @ sq_body (dropWhile need_bs_quote r))"
        by (rule makes_and_then) (use less.hyps [OF shorter] in \<open>auto simp flip: append_assoc\<close>)
    qed simp
  qed (use less.prems in \<open>simp add: sq_quote_loop.simps makes_Value\<close>)
qed

lemma sq_quote_buf_makes:
  assumes "strbuf_rep dst t"
  shows "makes (sq_quote_buf dst (Some src)) (t @ sq_text src)"
  unfolding sq_quote_buf_def option.case and_then.simps prod.case
proof (rule makes_and_then [OF addch_makes [OF assms]])
  fix b assume b: "strbuf_rep b (t @ [39])"
  show "makes (and_then (sq_quote_loop b src) (\<lambda>dst. strbuf_addch dst 39)) (t @ sq_text src)"
    by (rule makes_and_then [OF sq_quote_loop_makes [OF b]])
      (use addch_makes [of _ "(t @ [39]) @ sq_body src" 39] in \<open>auto simp: sq_text_def\<close>)
qed (simp add: sq_text_def)

lemma sq_quote_argv_makes:
  assumes "strbuf_rep dst t" "length t + 255 < SIZE_MAX"
  shows "makes (sq_quote_argv dst argv 0) (t @ concat (List.map (\<lambda>a. 32 # sq_text a) argv))"
proof -
  obtain b where b: "strbuf_grow dst 255 = Value b" "strbuf_rep b t"
    using grow_rep [OF assms(1), of 255] assms(2) by auto
  have "makes (sq_quote_arg 0 a d) (u @ 32 # sq_text a)" if "strbuf_rep d u" for a d u
    using that sq_quote_buf_makes [of _ "u @ [32]" a]
    by (auto simp: sq_quote_arg_def intro!: makes_and_then [OF addch_makes])
  then show ?thesis
    using b by (simp add: sq_quote_argv_def strbuf.produces_fold)
qed

subsection \<open>Quoted text is read back\<close>

lemma drop_nth: "drop i b = x # r \<Longrightarrow> i < length b \<and> b ! i = x \<and> drop (Suc i) b = r"
  by (metis drop_Suc drop_eq_Nil hd_drop_conv_nth leI list.distinct(1) list.sel(1,3) tl_drop)

lemma drop_drop_eq: "drop i b = x @ r \<Longrightarrow> drop (i + length x) b = r"
  by (metis append_eq_conv_conj drop_drop add.commute)

text \<open>
  At \<open>src\<close>, a quote has been read. What follows the closing quote decides: a NUL ends the string,
  a blank before the next quote separates, and \<open>next\<close> is the place of that quote.
\<close>

definition dequote_ends :: "bool \<Rightarrow> nat \<Rightarrow> byte list \<Rightarrow> nat option \<Rightarrow> bool" where
  "dequote_ends nx e rest k \<longleftrightarrow>
     (\<exists>r. rest = 0 # r \<and> k = None) \<or> (nx \<and> (\<exists>r. rest = 32 # 39 # r \<and> k = Some (e + 1)))"

lemma after_put:
  assumes "length b' = length b" "dst < length b" "take (dst + 1) b' = take (dst + 1) (b[dst := c])"
    "drop (dst + 1) b' = u"
  shows "take dst b' = take dst b" "drop dst b' = c # u"
proof -
  have "take dst b' = take dst (take (dst + 1) b')"
    by simp
  then show "take dst b' = take dst b"
    unfolding assms(3) by simp
  have "b' ! dst = take (dst + 1) b' ! dst"
    by simp
  then have "b' ! dst = c"
    unfolding assms(3) using assms(2) by simp
  then show "drop dst b' = c # u"
    using assms(1,2,4) by (simp add: Cons_nth_drop_Suc [symmetric])
qed

lemma dequote_loop_text:
  assumes "drop (src + 1) b = sq_body s @ 39 # rest" "0 \<notin> set s" "dst \<le> src"
    "dequote_ends nx (src + length (sq_body s) + 2) rest k"
  shows "\<exists>b' r. dequote_loop nx b src dst = Value (b', True, k) \<and> length b' = length b \<and>
    take dst b' = take dst b \<and> drop dst b' = s @ 0 # r \<and>
    drop (src + length (sq_body s) + 2) b' = drop (src + length (sq_body s) + 2) b"
  using assms
proof (induction s arbitrary: src dst b)
  case Nil
  then have b: "src + 1 < length b" "b ! (src + 1) = 39" "drop (src + 2) b = rest"
    using drop_nth [of "src + 1" b 39 rest] by auto
  have upd: "length (b[dst := 0]) = length b" "take dst (b[dst := 0]) = take dst b"
      "drop dst (b[dst := 0]) = 0 # drop (Suc dst) b" "drop (src + 2) (b[dst := 0]) = drop (src + 2) b"
    using b(1) Nil.prems(3) Cons_nth_drop_Suc [of dst b, symmetric]
    by (simp_all add: drop_update_cancel drop_update_swap)
  from Nil.prems(4) consider (nul) r where "rest = 0 # r" "k = None"
    | (blank) r where nx "rest = 32 # 39 # r" "k = Some (src + 3)"
    by (auto simp: dequote_ends_def)
  then show ?case
  proof cases
    case (nul r)
    then have "dequote_loop nx b src dst = Value (b[dst := 0], True, None)"
      using b drop_nth [of "src + 2" b 0 r] Nil.prems(3)
      by (subst dequote_loop.simps) (simp add: byte_at_def byte_put_def)
    then show ?thesis
      using upd \<open>k = None\<close> by simp
  next
    case r: (blank r)
    then have at: "src + 2 < length b" "b ! (src + 2) = 32" "src + 3 < length b" "b ! (src + 3) = 39"
      using b(3) drop_nth [of "src + 2" b 32 "39 # r"] drop_nth [of "src + 3" b 39 r]
      by (auto simp: eval_nat_numeral)
    have three: "Suc (Suc (Suc src)) = src + 3"
      by simp
    have "skip_space b (src + 2) = Value (src + 3)"
      using at by (subst skip_space.simps) (simp add: byte_at_def isspace_iff three)
    then have "dequote_loop nx b src dst = Value (b[dst := 0], True, k)"
      using b r at Nil.prems(3)
      by (subst dequote_loop.simps) (simp add: byte_at_def byte_put_def dequote_default_def isspace_iff)
    then show ?thesis
      using upd by simp
  qed
next
  case (Cons c s)
  define d where "d = (if need_bs_quote c then 4 else 1 :: nat)"
  have l: "length (sq_byte c) = d" "0 < d"
    by (auto simp: d_def sq_byte_def)
  have c: "drop (src + 1) b = sq_byte c @ sq_body s @ 39 # rest" "c \<noteq> 0" "0 \<notin> set s"
    using Cons.prems(1,2) by auto
  have len: "src + 1 + d < length b" "drop (src + 1 + d) b = sq_body s @ 39 # rest"
  proof -
    show "drop (src + 1 + d) b = sq_body s @ 39 # rest"
      using drop_drop_eq [OF c(1)] l by simp
    then show "src + 1 + d < length b"
      by (metis append_is_Nil_conv drop_all leI list.distinct(1))
  qed
  have step: "dequote_loop nx b src dst = dequote_loop nx (b[dst := c]) (src + d) (dst + 1)"
  proof (cases "need_bs_quote c")
    case True
    then have at: "b ! (src + 1) = 39" "b ! (src + 2) = 92" "b ! (src + 3) = c" "b ! (src + 4) = 39"
      using arg_cong [OF c(1), of "\<lambda>x. x ! 0"] arg_cong [OF c(1), of "\<lambda>x. x ! 1"] arg_cong [OF c(1), of "\<lambda>x. x ! 2"]
        arg_cong [OF c(1), of "\<lambda>x. x ! 3"] len(1)
      by (simp_all add: sq_byte_def d_def nth_append eval_nat_numeral)
    then show ?thesis
      using True c(2) len(1) Cons.prems(3)
      by (subst dequote_loop.simps) (simp add: byte_at_def byte_put_def d_def)
  next
    case False
    then have "b ! (src + 1) = c" "c \<noteq> 39"
      using arg_cong [OF c(1), of "\<lambda>x. x ! 0"] len(1) by (auto simp: sq_byte_def d_def need_bs_quote_def)
    then show ?thesis
      using False c(2) len(1) Cons.prems(3)
      by (subst dequote_loop.simps) (simp add: byte_at_def byte_put_def d_def)
  qed
  have total: "src + d + length (sq_body s) + 2 = src + length (sq_body (c # s)) + 2"
    using l by simp
  have "drop (src + d + 1) (b[dst := c]) = sq_body s @ 39 # rest"
    using len(2) Cons.prems(3) by (simp add: drop_update_cancel add.commute add.left_commute)
  moreover have "dequote_ends nx (src + d + length (sq_body s) + 2) rest k" "dst + 1 \<le> src + d"
    using Cons.prems(3,4) l(2) by (simp_all only: total)
  ultimately obtain b' r where IH:
    "dequote_loop nx (b[dst := c]) (src + d) (dst + 1) = Value (b', True, k)" "length b' = length b"
    "take (dst + 1) b' = take (dst + 1) (b[dst := c])" "drop (dst + 1) b' = s @ 0 # r"
    "drop (src + d + length (sq_body s) + 2) b' = drop (src + d + length (sq_body s) + 2) (b[dst := c])"
    using Cons.IH [OF _ c(3), of "src + d" "b[dst := c]" "dst + 1"] by auto
  have "drop (src + length (sq_body (c # s)) + 2) b' = drop (src + length (sq_body (c # s)) + 2) b"
    using IH(5) Cons.prems(3) unfolding total by (simp add: drop_update_cancel)
  then show ?case
    unfolding step using IH(1,2) after_put [OF IH(2) _ IH(3,4)] len(1) Cons.prems(3) by auto
qed

lemma step_text:
  assumes "drop arg b = sq_text s @ rest" "0 \<notin> set s" "dequote_ends nx (arg + length (sq_text s)) rest k"
  shows "\<exists>b' r. sq_dequote_step b arg nx = Value (b', True, k) \<and> length b' = length b \<and>
    take arg b' = take arg b \<and> drop arg b' = s @ 0 # r \<and>
    drop (arg + length (sq_text s)) b' = drop (arg + length (sq_text s)) b"
proof -
  have e: "arg + length (sq_text s) = arg + length (sq_body s) + 2"
    by (simp add: sq_text_def)
  have "arg < length b" "b ! arg = 39" "drop (arg + 1) b = sq_body s @ 39 # rest"
    using drop_nth [of arg b 39 "sq_body s @ 39 # rest"] assms(1) by (auto simp: sq_text_def)
  then show ?thesis
    using dequote_loop_text [of arg b s rest arg nx k] assms(2,3) unfolding e
    by (simp add: sq_dequote_step_def byte_at_def)
qed

fun joined :: "byte list list \<Rightarrow> byte list" where
  "joined [] = []"
| "joined [a] = sq_text a"
| "joined (a # as) = sq_text a @ 32 # joined as"

lemma joined_quote: "argv \<noteq> [] \<Longrightarrow> \<exists>r. joined argv = 39 # r"
  by (cases argv rule: joined.cases) (auto simp: sq_text_def)

lemma joined_argv: "argv \<noteq> [] \<Longrightarrow> concat (List.map (\<lambda>a. 32 # sq_text a) argv) = 32 # joined argv"
  by (induction argv rule: joined.induct) auto

lemma cstr_prefix: "0 \<notin> set s \<Longrightarrow> cstr (s @ 0 # r) = s"
  by (induction s) (auto simp: cstr_def)

text \<open>What lies before \<open>k\<close> is not changed by the calls from \<open>k\<close> on, so each string stays in place.\<close>

lemma take_window: "take n b' = take n b \<Longrightarrow> i + m \<le> n \<Longrightarrow> take m (drop i b') = take m (drop i b)"
  by (metis min.absorb1 take_drop take_take add.commute)

lemma dequote_argv_loop_text:
  assumes "argv \<noteq> []" "drop arg b = joined argv @ 0 # rest" "\<forall>a\<in>set argv. 0 \<notin> set a"
  shows "\<exists>b' ss. dequote_argv_loop b arg = Value (0, b', ss) \<and> take arg b' = take arg b \<and>
    List.map snd ss = argv \<and> List.map (\<lambda>s. cstr (drop (fst s) b')) ss = argv \<and> (\<forall>s\<in>set ss. arg \<le> fst s)"
  using assms
proof (induction argv arbitrary: arg b rule: joined.induct)
  case (2 a)
  obtain b' r where b': "sq_dequote_step b arg True = Value (b', True, None)" "take arg b' = take arg b"
      "drop arg b' = a @ 0 # r"
    using step_text [of arg b a "0 # rest" True None] 2 by (auto simp: dequote_ends_def)
  then show ?case
    using 2 by (subst dequote_argv_loop.simps) (simp add: cstr_prefix)
next
  case (3 a a2 as)
  let ?e = "arg + length (sq_text a)"
  obtain q where q: "joined (a2 # as) = 39 # q"
    using joined_quote by blast
  have d: "drop arg b = sq_text a @ 32 # joined (a2 # as) @ 0 # rest"
    using "3.prems"(2) by simp
  obtain b1 r where b1: "sq_dequote_step b arg True = Value (b1, True, Some (?e + 1))" "length b1 = length b"
      "take arg b1 = take arg b" "drop arg b1 = a @ 0 # r" "drop ?e b1 = drop ?e b"
    using step_text [OF d, of True "Some (?e + 1)"] "3.prems"(3) q by (auto simp: dequote_ends_def)
  have "drop ?e b = 32 # joined (a2 # as) @ 0 # rest"
    using drop_drop_eq [OF d] .
  then have "drop (?e + 1) b1 = joined (a2 # as) @ 0 # rest"
    using b1(5) drop_nth [of ?e b1] by simp
  from "3.IH" [OF _ this] obtain b' ss where IH: "dequote_argv_loop b1 (?e + 1) = Value (0, b', ss)"
      "take (?e + 1) b' = take (?e + 1) b1" "List.map snd ss = a2 # as"
      "List.map (\<lambda>s. cstr (drop (fst s) b')) ss = a2 # as" "\<forall>s\<in>set ss. ?e + 1 \<le> fst s"
    using "3.prems"(3) by auto
  have a: "length a + 2 \<le> length (sq_text a)"
    using length_sq_body [of a] by (simp add: sq_text_def)
  have "take (length a + 1) (drop arg b') = a @ [0]"
    using take_window [OF IH(2), of arg "length a + 1"] a b1(4) by simp
  then have "drop arg b' = a @ 0 # drop (length a + 1) (drop arg b')"
    by (metis append.assoc append_Cons append_Nil append_take_drop_id)
  then have "cstr (drop arg b') = a"
    using "3.prems"(3) by (metis cstr_prefix list.set_intros(1))
  moreover have "take arg b' = take arg b"
    using take_window [OF IH(2), of 0 arg] b1(3) by simp
  moreover have "cstr (drop arg b1) = a"
    using b1(4) "3.prems"(3) by (simp add: cstr_prefix)
  ultimately show ?case
    using b1(1) IH by (subst dequote_argv_loop.simps) auto
qed simp

text \<open>
  (C32) A text quoted for the shell is read back by \<open>sq_dequote\<close> in the memory that holds it, and the
  arguments quoted by \<open>sq_quote_argv\<close>, behind the leading blank, by \<open>sq_dequote_to_argv\<close>: the
  pointers returned point to the arguments when the call is done, and the copies are
  the arguments. No byte outside the memory is read or written.
\<close>
theorem sq_quote_roundtrip:
  assumes "strbuf_wf dst" "sb_len dst + 255 < SIZE_MAX" "argv \<noteq> []" "\<forall>a\<in>set argv. 0 \<notin> set a"
    "sq_quote_argv dst argv 0 = Value q" "a = hd argv"
    "sq_quote_buf dst (Some a) = Value q1"
  shows "(\<exists>t. strbuf_text q = strbuf_text dst @ 32 # t \<and>
      (\<exists>b ptrs. sq_dequote_to_argv (t @ [0]) 0 = Value (0, b, ptrs) \<and> List.map (\<lambda>p. cstr (drop p b)) ptrs = argv) \<and>
      (\<exists>b. sq_dequote_to_argv_array (t @ [0]) 0 = Value (0, b, argv))) \<and>
    (\<exists>t. strbuf_text q1 = strbuf_text dst @ t \<and>
      (\<exists>b. sq_dequote (t @ [0]) 0 = Value (b, True, None) \<and> cstr b = a))"
proof (rule conjI)
  let ?s = "strbuf_text dst"
  note rep = wf_rep [OF assms(1)]
  have "length ?s + 255 < SIZE_MAX"
    using assms(2) rep_len [OF rep] by simp
  then have q: "strbuf_text q = ?s @ 32 # joined argv"
    using sq_quote_argv_makes [OF rep, of argv] assms(5) rep_wf(2) joined_argv [OF assms(3)]
    by (auto simp: makes_def split: if_splits)
  obtain b ss where b: "dequote_argv_loop (joined argv @ [0]) 0 = Value (0, b, ss)" "List.map snd ss = argv"
      "List.map (\<lambda>s. cstr (drop (fst s) b)) ss = argv"
    using dequote_argv_loop_text [of argv 0 "joined argv @ [0]" "[]"] assms(3,4) by auto
  obtain r where "joined argv = 39 # r"
    using joined_quote [OF assms(3)] by blast
  then have "sq_dequote_to_argv_internal (joined argv @ [0]) 0 = Value (0, b, ss)"
    using b(1) by (simp add: sq_dequote_to_argv_internal_def byte_at_def)
  then show "\<exists>t. strbuf_text q = strbuf_text dst @ 32 # t \<and>
      (\<exists>b ptrs. sq_dequote_to_argv (t @ [0]) 0 = Value (0, b, ptrs) \<and> List.map (\<lambda>p. cstr (drop p b)) ptrs = argv) \<and>
      (\<exists>b. sq_dequote_to_argv_array (t @ [0]) 0 = Value (0, b, argv))"
    using q b(2,3) by (auto simp: sq_dequote_to_argv_def sq_dequote_to_argv_array_def comp_def
        intro!: exI [of _ "joined argv"])
  have a: "0 \<notin> set a"
    using assms(3,4,6) by (cases argv) auto
  have "strbuf_text q1 = ?s @ sq_text a"
    using sq_quote_buf_makes [OF rep, of a] assms(7) rep_wf(2) by (auto simp: makes_def split: if_splits)
  moreover obtain b1 r where "sq_dequote_step (sq_text a @ [0]) 0 False = Value (b1, True, None)" "b1 = a @ 0 # r"
    using step_text [of 0 "sq_text a @ [0]" a "[0]" False None] a by (auto simp: dequote_ends_def)
  ultimately show "\<exists>t. strbuf_text q1 = strbuf_text dst @ t \<and>
      (\<exists>b. sq_dequote (t @ [0]) 0 = Value (b, True, None) \<and> cstr b = a)"
    using a by (auto simp: sq_dequote_def cstr_prefix)
qed

theorem sq_quote_roundtrip_witness:
  "\<exists>q. sq_quote_argv STRBUF_INIT [[97, 39, 98], [33]] 0 = Value q \<and>
     (\<exists>t. strbuf_text q = 32 # t \<and> (\<exists>b. sq_dequote_to_argv_array (t @ [0]) 0 = Value (0, b, [[97, 39, 98], [33]])))"
proof -
  obtain q q1 where "sq_quote_argv STRBUF_INIT [[97, 39, 98], [33]] 0 = Value q"
      "sq_quote_buf STRBUF_INIT (Some [97, 39, 98]) = Value q1"
    using sq_quote_argv_makes [OF rep_init, of "[[97, 39, 98], [33]]"] sq_quote_buf_makes [OF rep_init, of "[97, 39, 98]"]
    by (auto simp: makes_def SIZE_MAX_def sq_text_def sq_byte_def need_bs_quote_def)
  then show ?thesis
    using sq_quote_roundtrip [of STRBUF_INIT "[[97, 39, 98], [33]]" q "[97, 39, 98]" q1] rep_wf [OF rep_init]
    by (auto simp: SIZE_MAX_def)
qed

end
