(* ===== verification/Git_Quote_C.thy ===== *)
theory Git_Quote_C
  imports Git_Quote
begin

text \<open>
  C-style quoting of file names and its inverse, and string literals for other languages
  (\<^verbatim>\<open>quote.c\<close>).
\<close>

subsection \<open>The table\<close>

definition sq_lookup :: "int list" where
  "sq_lookup =
     [1, 1, 1, 1, 1, 1, 1, 97] @ [98, 116, 110, 118, 102, 114, 1, 1] @ replicate 16 1 @
     [- 1, - 1, 34, - 1, - 1, - 1, - 1, - 1] @ replicate 16 (- 1) @ replicate 16 (- 1) @ replicate 16 (- 1) @
     [- 1, - 1, - 1, - 1, 92, - 1, - 1, - 1] @ replicate 16 (- 1) @ replicate 8 (- 1) @
     [- 1, - 1, - 1, - 1, - 1, - 1, - 1, 1] @ replicate 128 0"

definition sq_must_quote :: "int \<Rightarrow> byte \<Rightarrow> bool" where
  "sq_must_quote quote_path_fully c \<longleftrightarrow> sq_lookup ! unat c + quote_path_fully > 0"

text \<open>
  The first byte that needs a quote: of a C string with its NUL where \<open>maxlen\<close> is negative, of
  the first \<open>maxlen\<close> bytes otherwise. \<open>name\<close> is the memory the name is in.
\<close>

function next_quote_from :: "int \<Rightarrow> byte list \<Rightarrow> nat \<Rightarrow> int \<Rightarrow> nat \<Rightarrow> nat outcome" where
  "next_quote_from qpf name p maxlen n =
     (if maxlen < 0 \<or> int n < maxlen then
        and_then (byte_at name (p + n)) (\<lambda>c.
        if \<not> sq_must_quote qpf c then next_quote_from qpf name p maxlen (n + 1) else Value n)
      else Value n)"
  by auto
termination by (relation "measure (\<lambda>(_, name, p, _, n). length name - (p + n))") auto

definition next_quote_pos :: "int \<Rightarrow> byte list \<Rightarrow> nat \<Rightarrow> int \<Rightarrow> nat outcome" where
  "next_quote_pos qpf name p maxlen = next_quote_from qpf name p maxlen 0"

subsection \<open>Quoting\<close>

text \<open>
  Where the quoted name goes: a buffer, a file (the bytes written to it), both or neither; and the
  number of bytes.
\<close>

type_synonym quote_out = "strbuf option \<times> byte list option \<times> nat"

definition EMIT :: "byte \<Rightarrow> quote_out \<Rightarrow> quote_out outcome" where
  "EMIT c out =
     (case out of (sb, fp, count') \<Rightarrow>
        and_then (case sb of None \<Rightarrow> Value None | Some b \<Rightarrow> and_then (strbuf_addch b c) (\<lambda>b. Value (Some b))) (\<lambda>sb.
        Value (sb, map_option (\<lambda>f. f @ [c]) fp, count' + 1)))"

definition EMITBUF :: "byte list \<Rightarrow> quote_out \<Rightarrow> quote_out outcome" where
  "EMITBUF s out =
     (case out of (sb, fp, count') \<Rightarrow>
        and_then (case sb of None \<Rightarrow> Value None
                   | Some b \<Rightarrow> and_then (strbuf_add b s (length s)) (\<lambda>b. Value (Some b))) (\<lambda>sb.
        Value (sb, map_option (\<lambda>f. f @ s) fp, count' + length s)))"

definition emit_escape :: "byte \<Rightarrow> quote_out \<Rightarrow> quote_out outcome" where
  "emit_escape ch out =
     (if sq_lookup ! unat ch \<ge> 32 then EMIT (of_int (sq_lookup ! unat ch)) out
      else
        and_then (EMIT ((drop_bit 6 ch AND 3) + 48) out) (\<lambda>out.
        and_then (EMIT ((drop_bit 3 ch AND 7) + 48) out) (\<lambda>out.
        EMIT ((ch AND 7) + 48) out)))"

text \<open>
  The loop at \<open>p\<close>, which is the beginning of the name as long as nothing was quoted. The
  result is the place where the last part begins and its length.
\<close>

function quote_loop ::
    "int \<Rightarrow> byte list \<Rightarrow> bool \<Rightarrow> nat \<Rightarrow> int \<Rightarrow> quote_out \<Rightarrow> (nat \<times> nat \<times> quote_out) outcome" where
  "quote_loop qpf name no_dq p maxlen out =
     and_then (next_quote_pos qpf name p maxlen) (\<lambda>n.
     and_then (if int n = maxlen then Value True
               else if maxlen < 0 then and_then (byte_at name (p + n)) (\<lambda>c. Value (c = 0))
               else Value False) (\<lambda>stop.
     if stop then Value (p, n, out)
     else
       and_then (if \<not> no_dq \<and> p = 0 then EMIT 34 out else Value out) (\<lambda>out.
       and_then (EMITBUF (take n (drop p name)) out) (\<lambda>out.
       and_then (EMIT 92 out) (\<lambda>out.
       and_then (byte_at name (p + n)) (\<lambda>ch.
       and_then (emit_escape ch out) (\<lambda>out.
       quote_loop qpf name no_dq (p + n + 1) (if maxlen \<ge> 0 then maxlen - (int n + 1) else maxlen) out)))))))"
  by auto
termination by (relation "measure (\<lambda>(_, name, _, p, _). length name - p)") auto

definition quote_c_style_counted ::
    "int \<Rightarrow> byte list \<Rightarrow> int \<Rightarrow> strbuf option \<Rightarrow> byte list option \<Rightarrow> bool \<Rightarrow>
     (nat \<times> strbuf option \<times> byte list option) outcome" where
  "quote_c_style_counted qpf name maxlen sb fp no_dq =
     and_then (quote_loop qpf name no_dq 0 maxlen (sb, fp, 0)) (\<lambda>(p, n, out).
     and_then (EMITBUF (take n (drop p name)) out) (\<lambda>out.
     if p = 0 then Value (0, fst out, fst (snd out))
     else and_then (if \<not> no_dq then EMIT 34 out else Value out) (\<lambda>(sb, fp, count').
          Value (count', sb, fp))))"

definition quote_c_style ::
    "int \<Rightarrow> byte list \<Rightarrow> strbuf option \<Rightarrow> byte list option \<Rightarrow> bool \<Rightarrow> (nat \<times> strbuf option \<times> byte list option) outcome" where
  "quote_c_style qpf name sb fp nodq = quote_c_style_counted qpf (name @ [0]) (- 1) sb fp nodq"

definition quote_in :: "int \<Rightarrow> byte list \<Rightarrow> strbuf \<Rightarrow> strbuf outcome" where
  "quote_in qpf name sb = and_then (quote_c_style qpf name (Some sb) None True) (\<lambda>(_, sb, _). Value (the sb))"

definition quote_two_c_style :: "int \<Rightarrow> strbuf \<Rightarrow> byte list \<Rightarrow> byte list \<Rightarrow> bool \<Rightarrow> strbuf outcome" where
  "quote_two_c_style qpf sb pre path nodq =
     and_then (quote_c_style qpf pre None None False) (\<lambda>(n, _).
     and_then (if n \<noteq> 0 then Value True
               else and_then (quote_c_style qpf path None None False) (\<lambda>(n, _). Value (n \<noteq> 0))) (\<lambda>need.
     if need then
       and_then (if \<not> nodq then strbuf_addch sb 34 else Value sb) (\<lambda>sb.
       and_then (quote_in qpf pre sb) (\<lambda>sb.
       and_then (quote_in qpf path sb) (\<lambda>sb.
       if \<not> nodq then strbuf_addch sb 34 else Value sb)))
     else and_then (strbuf_addstr sb pre) (\<lambda>sb. strbuf_addstr sb path)))"

definition write_name_quoted :: "int \<Rightarrow> byte list \<Rightarrow> byte list \<Rightarrow> byte \<Rightarrow> byte list outcome" where
  "write_name_quoted qpf name fp terminator =
     and_then (if terminator \<noteq> 0 then
         and_then (quote_c_style qpf name None (Some fp) False) (\<lambda>(_, _, fp). Value (the fp))
       else Value (fp @ name)) (\<lambda>fp. Value (fp @ [terminator]))"

subsection \<open>Unquoting\<close>

text \<open>
  An escape after its backslash: the byte and what follows, \<open>None\<close> for an error. The memory ends
  with the NUL of the string.
\<close>

definition octal :: "byte \<Rightarrow> bool" where
  "octal c \<longleftrightarrow> \<not> (c < 48 \<or> 55 < c)"

definition unquote_escape :: "byte list \<Rightarrow> (byte \<times> byte list) option outcome" where
  "unquote_escape q =
     (case q of
        [] \<Rightarrow> Fault
      | ch # q \<Rightarrow>
          if ch = 97 then Value (Some (7, q))
          else if ch = 98 then Value (Some (8, q))
          else if ch = 102 then Value (Some (12, q))
          else if ch = 110 then Value (Some (10, q))
          else if ch = 114 then Value (Some (13, q))
          else if ch = 116 then Value (Some (9, q))
          else if ch = 118 then Value (Some (11, q))
          else if ch = 92 \<or> ch = 34 then Value (Some (ch, q))
          else if ch \<in> {48, 49, 50, 51} then
            (case q of
               [] \<Rightarrow> Fault
             | c1 # q \<Rightarrow>
                 if \<not> octal c1 then Value None
                 else
                   case q of
                     [] \<Rightarrow> Fault
                   | c2 # q \<Rightarrow>
                       if \<not> octal c2 then Value None
                       else Value (Some (push_bit 6 (ch - 48) OR push_bit 3 (c1 - 48) OR (c2 - 48), q)))
          else Value None)"

lemma unquote_escape_length: "unquote_escape q = Value (Some (c, r)) \<Longrightarrow> length r < length q"
  by (auto simp: unquote_escape_def split: list.splits if_splits)

text \<open>The buffer, and where the closing quote is followed, \<open>None\<close> for an error.\<close>

function unquote_loop :: "strbuf \<Rightarrow> byte list \<Rightarrow> (strbuf \<times> byte list option) outcome" where
  "unquote_loop sb q =
     (let n = length (takeWhile (\<lambda>c. c \<notin> {34, 92, 0}) q)
      in and_then (strbuf_add sb q n) (\<lambda>sb.
         case drop n q of
           [] \<Rightarrow> Fault
         | c # q \<Rightarrow>
             if c = 34 then Value (sb, Some q)
             else if c = 92 then
               and_then (unquote_escape q) (\<lambda>r.
               case r of
                 None \<Rightarrow> Value (sb, None)
               | Some (ch, q) \<Rightarrow> and_then (strbuf_addch sb ch) (\<lambda>sb. unquote_loop sb q))
             else Value (sb, None)))"
  by auto
termination
  by (relation "measure (\<lambda>(_, q). length q)") (auto dest!: length_drop_Cons unquote_escape_length)

text \<open>The value returned, the buffer, and \<open>*endp\<close>.\<close>

definition unquote_c_style :: "strbuf \<Rightarrow> byte list \<Rightarrow> (int \<times> strbuf \<times> byte list option) outcome" where
  "unquote_c_style sb quoted =
     (let oldlen = sb_len sb
      in case quoted of
           [] \<Rightarrow> Fault
         | c # q \<Rightarrow>
             if c \<noteq> 34 then Value (- 1, sb, None)
             else
               and_then (unquote_loop sb q) (\<lambda>(sb, r).
               case r of
                 Some endp \<Rightarrow> Value (0, sb, Some endp)
               | None \<Rightarrow> and_then (strbuf_setlen sb oldlen) (\<lambda>sb. Value (- 1, sb, None))))"

subsection \<open>Literals of other languages\<close>

definition quoted_bytes :: "(byte \<Rightarrow> strbuf \<Rightarrow> strbuf outcome) \<Rightarrow> byte \<Rightarrow> byte list \<Rightarrow> strbuf \<Rightarrow> strbuf outcome" where
  "quoted_bytes f q src sb =
     and_then (strbuf_addch sb q) (\<lambda>sb.
     and_then (fold_outcome f src sb) (\<lambda>sb. strbuf_addch sb q))"

definition perl_byte :: "byte \<Rightarrow> strbuf \<Rightarrow> strbuf outcome" where
  "perl_byte c sb =
     and_then (if c = 39 \<or> c = 92 then strbuf_addch sb 92 else Value sb) (\<lambda>sb. strbuf_addch sb c)"

definition perl_quote_buf :: "strbuf \<Rightarrow> byte list \<Rightarrow> strbuf outcome" where
  "perl_quote_buf sb src = quoted_bytes perl_byte 39 src sb"

definition python_byte :: "byte \<Rightarrow> strbuf \<Rightarrow> strbuf outcome" where
  "python_byte c sb =
     (if c = 10 then and_then (strbuf_addch sb 92) (\<lambda>sb. strbuf_addch sb 110)
      else and_then (if c = 39 \<or> c = 92 then strbuf_addch sb 92 else Value sb) (\<lambda>sb. strbuf_addch sb c))"

definition python_quote_buf :: "strbuf \<Rightarrow> byte list \<Rightarrow> strbuf outcome" where
  "python_quote_buf sb src = quoted_bytes python_byte 39 src sb"

definition tcl_byte :: "byte \<Rightarrow> strbuf \<Rightarrow> strbuf outcome" where
  "tcl_byte c sb =
     (if c \<in> {91, 93, 123, 125, 36, 92, 34} then and_then (strbuf_addch sb 92) (\<lambda>sb. strbuf_addch sb c)
      else if c = 12 then strbuf_addstr sb [92, 102]
      else if c = 13 then strbuf_addstr sb [92, 114]
      else if c = 10 then strbuf_addstr sb [92, 110]
      else if c = 9 then strbuf_addstr sb [92, 116]
      else if c = 11 then strbuf_addstr sb [92, 118]
      else strbuf_addch sb c)"

definition tcl_quote_buf :: "strbuf \<Rightarrow> byte list \<Rightarrow> strbuf outcome" where
  "tcl_quote_buf sb src = quoted_bytes tcl_byte 34 src sb"

fun regex_rest :: "byte list \<Rightarrow> strbuf \<Rightarrow> strbuf outcome" where
  "regex_rest [] sb = Value sb"
| "regex_rest (c # src) sb =
     and_then
       (if c \<in> {91, 46, 92, 42} then and_then (strbuf_addch sb 92) (\<lambda>sb. strbuf_addch sb c)
        else if c = 36 then
          and_then (if src = [] then strbuf_addch sb 92 else Value sb) (\<lambda>sb. strbuf_addch sb c)
        else strbuf_addch sb c) (regex_rest src)"

definition basic_regex_quote_buf :: "strbuf \<Rightarrow> byte list \<Rightarrow> strbuf outcome" where
  "basic_regex_quote_buf sb src =
     and_then
       (if src \<noteq> [] \<and> hd src = 94 then
          and_then (strbuf_addch sb 92) (\<lambda>sb.
          and_then (strbuf_addch sb (hd src)) (\<lambda>sb. Value (tl src, sb)))
        else Value (src, sb)) (\<lambda>(src, sb).
     and_then
       (if src \<noteq> [] \<and> hd src = 42 then and_then (strbuf_addch sb (hd src)) (\<lambda>sb. Value (tl src, sb))
        else Value (src, sb)) (\<lambda>(src, sb). regex_rest src sb))"

declare next_quote_from.simps [simp del] quote_loop.simps [simp del] unquote_loop.simps [simp del]

subsection \<open>What is written\<close>

text \<open>
  Behind the text \<open>t0\<close> of the buffer, if there is one, and \<open>f0\<close> of the file, both have got the same
  bytes \<open>T\<close>, and those are counted.
\<close>

definition out_at :: "byte list option \<Rightarrow> byte list option \<Rightarrow> byte list \<Rightarrow> quote_out \<Rightarrow> bool" where
  "out_at t0 f0 T out \<longleftrightarrow>
     (case out of (sb, fp, n) \<Rightarrow>
        (case t0 of None \<Rightarrow> sb = None | Some t \<Rightarrow> \<exists>b. sb = Some b \<and> strbuf_rep b (t @ T)) \<and>
        fp = map_option (\<lambda>f. f @ T) f0 \<and> n = length T)"

definition out_fits :: "byte list option \<Rightarrow> byte list \<Rightarrow> bool" where
  "out_fits t0 T \<longleftrightarrow> (case t0 of None \<Rightarrow> True | Some t \<Rightarrow> length (t @ T) < SIZE_MAX)"

lemma out_fits_append: "out_fits t0 (T @ U) \<Longrightarrow> out_fits t0 T"
  by (auto simp: out_fits_def split: option.splits)

lemma map_append_append [simp]:
  "map_option (\<lambda>f. f @ s) (map_option (\<lambda>f. f @ t) f0) = map_option (\<lambda>f. f @ t @ s) f0"
  by (cases f0) auto

lemma EMITBUF_out:
  assumes "out_at t0 f0 T out" "out_fits t0 (T @ s)"
  shows "\<exists>out'. EMITBUF s out = Value out' \<and> out_at t0 f0 (T @ s) out'"
proof (cases t0)
  case (Some t)
  obtain b n where b: "out = (Some b, map_option (\<lambda>f. f @ T) f0, n)" "strbuf_rep b (t @ T)" "n = length T"
    using assms(1) Some by (auto simp: out_at_def)
  then obtain b' where "strbuf_add b s (length s) = Value b'" "strbuf_rep b' (t @ T @ s)"
    using add_makes [OF b(2), of "length s" s] assms(2) Some by (auto simp: makes_def out_fits_def)
  then show ?thesis
    using b Some by (cases f0; auto simp: EMITBUF_def out_at_def)
qed (use assms in \<open>auto simp: EMITBUF_def out_at_def split: option.splits prod.splits\<close>)

lemma EMIT_out:
  assumes "out_at t0 f0 T out" "out_fits t0 (T @ [c])"
  shows "\<exists>out'. EMIT c out = Value out' \<and> out_at t0 f0 (T @ [c]) out'"
proof (cases t0)
  case (Some t)
  obtain b n where b: "out = (Some b, map_option (\<lambda>f. f @ T) f0, n)" "strbuf_rep b (t @ T)" "n = length T"
    using assms(1) Some by (auto simp: out_at_def)
  then obtain b' where "strbuf_addch b c = Value b'" "strbuf_rep b' (t @ T @ [c])"
    using addch_makes [OF b(2), of c] assms(2) Some by (auto simp: makes_def out_fits_def)
  then show ?thesis
    using b Some by (cases f0; auto simp: EMIT_def out_at_def)
qed (use assms in \<open>auto simp: EMIT_def out_at_def split: option.splits prod.splits\<close>)

text \<open>A sequence of calls that write.\<close>

definition writes :: "(quote_out \<Rightarrow> quote_out outcome) \<Rightarrow> byte list \<Rightarrow> bool" where
  "writes f s \<longleftrightarrow> (\<forall>t0 f0 T out. out_at t0 f0 T out \<longrightarrow> out_fits t0 (T @ s) \<longrightarrow>
     (\<exists>out'. f out = Value out' \<and> out_at t0 f0 (T @ s) out'))"

lemma writesD:
  assumes "writes f s" "out_at t0 f0 T out" "out_fits t0 (T @ s)"
  obtains out' where "f out = Value out'" "out_at t0 f0 (T @ s) out'"
  using assms unfolding writes_def by blast

lemma writes_EMIT: "writes (EMIT c) [c]" and writes_EMITBUF: "writes (EMITBUF s) s"
  using EMIT_out EMITBUF_out by (auto simp: writes_def)

lemma writes_Value: "writes Value []"
  by (simp add: writes_def)

lemma writes_then:
  assumes "writes f s" "writes g t"
  shows "writes (\<lambda>out. and_then (f out) g) (s @ t)"
  unfolding writes_def
proof (intro allI impI)
  fix t0 f0 T out assume out: "out_at t0 f0 T out" "out_fits t0 (T @ s @ t)"
  then obtain out1 where "f out = Value out1" "out_at t0 f0 (T @ s) out1"
    using writesD [OF assms(1) out(1)] out_fits_append [of t0 "T @ s" t] by auto
  moreover from this(2) obtain out2 where "g out1 = Value out2" "out_at t0 f0 ((T @ s) @ t) out2"
    by (rule writesD [OF assms(2)]) (use out(2) in simp)
  ultimately show "\<exists>out'. and_then (f out) g = Value out' \<and> out_at t0 f0 (T @ s @ t) out'"
    by simp
qed

definition c_escape :: "byte \<Rightarrow> byte list" where
  "c_escape c =
     (if sq_lookup ! unat c \<ge> 32 then [of_int (sq_lookup ! unat c)]
      else [(drop_bit 6 c AND 3) + 48, (drop_bit 3 c AND 7) + 48, (c AND 7) + 48])"

definition c_byte :: "int \<Rightarrow> byte \<Rightarrow> byte list" where
  "c_byte qpf c = (if sq_must_quote qpf c then 92 # c_escape c else [c])"

definition c_body :: "int \<Rightarrow> byte list \<Rightarrow> byte list" where
  "c_body qpf s = concat (List.map (c_byte qpf) s)"

lemma c_body_simps [simp]: "c_body qpf [] = []" "c_body qpf (c # s) = c_byte qpf c @ c_body qpf s"
    "c_body qpf (s @ t) = c_body qpf s @ c_body qpf t"
  by (simp_all add: c_body_def)

lemma c_body_plain: "\<forall>c\<in>set s. \<not> sq_must_quote qpf c \<Longrightarrow> c_body qpf s = s"
  by (induction s) (auto simp: c_byte_def)

lemma writes_escape: "writes (emit_escape c) (c_escape c)"
proof (cases "sq_lookup ! unat c \<ge> 32")
  case True
  then show ?thesis
    using writes_EMIT [of "of_int (sq_lookup ! unat c)"] by (simp add: emit_escape_def [abs_def] c_escape_def)
next
  case False
  then show ?thesis
    using writes_then [OF writes_EMIT writes_then [OF writes_EMIT writes_EMIT],
        of "(drop_bit 6 c AND 3) + 48" "(drop_bit 3 c AND 7) + 48" "(c AND 7) + 48"]
    by (simp add: emit_escape_def [abs_def] c_escape_def)
qed

subsection \<open>The loop\<close>

text \<open>The name in memory: a C string, or the bytes counted.\<close>

definition name_at :: "byte list \<Rightarrow> byte list \<Rightarrow> nat \<Rightarrow> int \<Rightarrow> bool" where
  "name_at name s p maxlen \<longleftrightarrow>
     maxlen < 0 \<and> 0 \<notin> set s \<and> (\<exists>r. drop p name = s @ 0 # r) \<or> maxlen = int (length s) \<and> (\<exists>r. drop p name = s @ r)"

lemma must_quote_0: "0 \<le> qpf \<Longrightarrow> sq_must_quote qpf 0"
  by (simp add: sq_must_quote_def sq_lookup_def)

lemma next_quote_from_text:
  assumes "0 \<le> qpf"
  shows "name_at name (t @ s) p maxlen \<Longrightarrow> \<forall>c\<in>set t. \<not> sq_must_quote qpf c \<Longrightarrow>
    next_quote_from qpf name p maxlen (length t) =
      Value (length t + length (takeWhile (\<lambda>c. \<not> sq_must_quote qpf c) s))"
proof (induction s arbitrary: t)
  case Nil
  show ?case
  proof (cases "maxlen < 0")
    case True
    then obtain r where "drop p name = t @ 0 # r"
      using Nil by (auto simp: name_at_def)
    then have "p + length t < length name" "name ! (p + length t) = 0"
      using drop_drop_eq [of p name t "0 # r"] drop_nth [of "p + length t" name] by simp_all
    then show ?thesis
      using must_quote_0 [OF assms] by (subst next_quote_from.simps) (simp add: byte_at_def)
  qed (use Nil in \<open>subst next_quote_from.simps, simp add: name_at_def\<close>)
next
  case (Cons c s)
  then obtain r where r: "drop p name = t @ c # r"
    by (auto simp: name_at_def)
  then have c: "p + length t < length name" "name ! (p + length t) = c"
    using drop_drop_eq [of p name t "c # r"] drop_nth [of "p + length t" name] by simp_all
  have more: "maxlen < 0 \<or> int (length t) < maxlen"
    using Cons.prems(1) by (auto simp: name_at_def)
  show ?case
    using c more Cons.prems Cons.IH [of "t @ [c]"] by (subst next_quote_from.simps) (auto simp: byte_at_def)
qed

lemma next_quote_pos_text:
  "0 \<le> qpf \<Longrightarrow> name_at name s p maxlen \<Longrightarrow>
    next_quote_pos qpf name p maxlen = Value (length (takeWhile (\<lambda>c. \<not> sq_must_quote qpf c) s))"
  using next_quote_from_text [of qpf name "[]" s p maxlen] by (simp add: next_quote_pos_def)

lemma name_at_drop: "name_at name (t @ s) p maxlen \<Longrightarrow> name_at name s (p + length t) (if maxlen \<ge> 0 then maxlen - int (length t) else maxlen)"
  using drop_drop_eq [of p name t] by (auto simp: name_at_def)

lemma name_at_take: "name_at name s p maxlen \<Longrightarrow> take (length s) (drop p name) = s"
  by (auto simp: name_at_def)

text \<open>The bytes before the last part are written, and the last part needs no quote.\<close>

definition opens :: "int \<Rightarrow> bool \<Rightarrow> nat \<Rightarrow> byte list \<Rightarrow> byte list" where
  "opens qpf no_dq p s = (if \<not> no_dq \<and> p = 0 \<and> (\<exists>c\<in>set s. sq_must_quote qpf c) then [34] else [])"

lemma quote_loop_text:
  assumes "0 \<le> qpf" "name_at name s p maxlen" "out_at t0 f0 T out" "out_fits t0 (T @ opens qpf no_dq p s @ c_body qpf s)"
  shows "\<exists>s1 s2 out'. quote_loop qpf name no_dq p maxlen out = Value (p + length s1, length s2, out') \<and>
    s = s1 @ s2 \<and> (\<forall>c\<in>set s2. \<not> sq_must_quote qpf c) \<and> (s1 = [] \<or> sq_must_quote qpf (last s1)) \<and>
    out_at t0 f0 (T @ opens qpf no_dq p s1 @ c_body qpf s1) out'"
  using assms(2-)
proof (induction "length s" arbitrary: s p maxlen T out rule: less_induct)
  case less
  define t where "t = takeWhile (\<lambda>c. \<not> sq_must_quote qpf c) s"
  note n = next_quote_pos_text [OF assms(1) less.prems(1), folded t_def]
  have t: "\<forall>c\<in>set t. \<not> sq_must_quote qpf c"
    by (auto simp: t_def dest: set_takeWhileD)
  show ?case
  proof (cases "t = s")
    case True
    have "quote_loop qpf name no_dq p maxlen out = Value (p, length s, out)"
    proof (cases "maxlen < 0")
      case True
      then obtain r where "drop p name = s @ 0 # r"
        using less.prems(1) by (auto simp: name_at_def)
      then have "p + length s < length name" "name ! (p + length s) = 0"
        using drop_drop_eq [of p name s "0 # r"] drop_nth [of "p + length s" name] by simp_all
      then show ?thesis
        using n \<open>t = s\<close> True by (subst quote_loop.simps) (simp add: byte_at_def)
    next
      case False
      then show ?thesis
        using n \<open>t = s\<close> less.prems(1) by (subst quote_loop.simps) (simp add: name_at_def)
    qed
    then show ?thesis
      using t True less.prems(2) by (intro exI [of _ "[]"] exI [of _ s] exI [of _ out]) (simp add: opens_def)
  next
    case False
    then obtain c s' where s: "s = t @ c # s'" and c: "sq_must_quote qpf c"
      unfolding t_def by (metis append_Nil2 takeWhile_dropWhile_id hd_dropWhile list.exhaust_sel)
    let ?o = "if \<not> no_dq \<and> p = 0 then [34] else []" and ?f = "\<lambda>out. if \<not> no_dq \<and> p = 0 then EMIT 34 out else Value out"
    obtain r where "drop p name = t @ c # r" and more: "maxlen < 0 \<or> int (length t) < maxlen"
        and nz: "maxlen < 0 \<longrightarrow> c \<noteq> 0"
      using less.prems(1) s by (auto simp: name_at_def)
    then have at: "p + length t < length name" "name ! (p + length t) = c" "take (length t) (drop p name) = t"
      using drop_drop_eq [of p name t "c # r"] drop_nth [of "p + length t" name] by simp_all
    have stop: "quote_loop qpf name no_dq p maxlen out =
        and_then (?f out) (\<lambda>out. and_then (EMITBUF t out) (\<lambda>out. and_then (EMIT 92 out) (\<lambda>out.
          and_then (emit_escape c out) (\<lambda>out. quote_loop qpf name no_dq (p + length t + 1)
            (if maxlen \<ge> 0 then maxlen - (int (length t) + 1) else maxlen) out))))"
      using n at more nz by (subst quote_loop.simps) (auto simp: byte_at_def)
    have o: "writes ?f ?o"
      using writes_EMIT writes_Value by auto
    let ?w = "?o @ t @ [92] @ c_escape c"
    have w: "?w = opens qpf no_dq p (t @ [c]) @ c_body qpf (t @ [c])"
      using c c_body_plain [OF t] by (simp add: opens_def c_byte_def)
    have wr: "writes (\<lambda>out. and_then (?f out) (\<lambda>out. and_then (EMITBUF t out) (\<lambda>out. and_then (EMIT 92 out)
        (emit_escape c)))) ?w"
      by (intro writes_then o writes_EMIT writes_EMITBUF writes_escape)
    have f: "out_fits t0 ((T @ ?w) @ opens qpf no_dq (p + length t + 1) s' @ c_body qpf s')"
      using less.prems(3) c c_body_plain [OF t] unfolding s by (simp add: opens_def c_byte_def)
    obtain out1 where out1: "and_then (?f out) (\<lambda>out. and_then (EMITBUF t out) (\<lambda>out. and_then (EMIT 92 out)
        (emit_escape c))) = Value out1" "out_at t0 f0 (T @ ?w) out1"
      using writesD [OF wr less.prems(2) out_fits_append [OF f]] .
    have "name_at name s' (p + length t + 1) (if maxlen \<ge> 0 then maxlen - (int (length t) + 1) else maxlen)"
      using name_at_drop [of name "t @ [c]" s' p maxlen] less.prems(1) s by (auto simp: algebra_simps split: if_splits)
    from less.hyps [OF _ this out1(2) f] obtain s1 s2 out' where
      IH: "quote_loop qpf name no_dq (p + length t + 1) (if maxlen \<ge> 0 then maxlen - (int (length t) + 1) else maxlen) out1
          = Value (p + length t + 1 + length s1, length s2, out')" "s' = s1 @ s2"
        "\<forall>c\<in>set s2. \<not> sq_must_quote qpf c" "s1 = [] \<or> sq_must_quote qpf (last s1)"
        "out_at t0 f0 ((T @ ?w) @ opens qpf no_dq (p + length t + 1) s1 @ c_body qpf s1) out'"
      using s by auto
    have "quote_loop qpf name no_dq p maxlen out = and_then (Value out1) (\<lambda>out. quote_loop qpf name no_dq (p + length t + 1)
            (if maxlen \<ge> 0 then maxlen - (int (length t) + 1) else maxlen) out)"
      unfolding stop out1(1) [symmetric] by (simp only: and_then_assoc)
    moreover have "opens qpf no_dq (p + length t + 1) s1 = []" "opens qpf no_dq p (t @ c # s1) = opens qpf no_dq p (t @ [c])"
      using c by (simp_all add: opens_def)
    then have "out_at t0 f0 (T @ opens qpf no_dq p (t @ c # s1) @ c_body qpf (t @ c # s1)) out'"
      using IH(5) unfolding w by simp
    moreover have "t @ c # s1 = [] \<or> sq_must_quote qpf (last (t @ c # s1))"
      using IH(4) c by auto
    moreover note IH(1,2,3) s
    ultimately show ?thesis
      by - (rule exI [of _ "t @ c # s1"], rule exI [of _ s2], rule exI [of _ out'], simp)
  qed
qed

text \<open>Quoted, if there is something to quote.\<close>

definition c_text :: "int \<Rightarrow> bool \<Rightarrow> byte list \<Rightarrow> byte list" where
  "c_text qpf no_dq s = opens qpf no_dq 0 s @ c_body qpf s @ opens qpf no_dq 0 s"

lemma quote_c_style_counted_text:
  assumes "0 \<le> qpf" "name_at name s 0 maxlen" "case sb of None \<Rightarrow> True | Some b \<Rightarrow> strbuf_wf b"
    "case sb of None \<Rightarrow> True | Some b \<Rightarrow> sb_len b + length (c_text qpf no_dq s) < SIZE_MAX"
  shows "\<exists>sb' fp'. quote_c_style_counted qpf name maxlen sb fp no_dq =
      Value (if \<exists>c\<in>set s. sq_must_quote qpf c then length (c_text qpf no_dq s) else 0, sb', fp') \<and>
    fp' = map_option (\<lambda>f. f @ c_text qpf no_dq s) fp \<and>
    (case sb of None \<Rightarrow> sb' = None
     | Some b \<Rightarrow> \<exists>b'. sb' = Some b' \<and> strbuf_rep b' (strbuf_text b @ c_text qpf no_dq s))"
proof -
  let ?t0 = "map_option strbuf_text sb" and ?o = "opens qpf no_dq 0 s"
  have out: "out_at ?t0 fp [] (sb, fp, 0)"
    using assms(3) by (auto simp: out_at_def wf_rep option.map_ident split: option.split)
  have fits: "out_fits ?t0 (?o @ c_body qpf s @ ?o)"
    using assms(3,4) by (auto simp: out_fits_def c_text_def rep_len [OF wf_rep] split: option.split)
  have "out_fits ?t0 ([] @ ?o @ c_body qpf s)"
    using out_fits_append [of ?t0 "?o @ c_body qpf s" ?o] fits by simp
  from quote_loop_text [OF assms(1,2) out this] obtain s1 s2 out1 where
    q: "quote_loop qpf name no_dq 0 maxlen (sb, fp, 0) = Value (length s1, length s2, out1)" and s: "s = s1 @ s2"
      and s2: "\<forall>c\<in>set s2. \<not> sq_must_quote qpf c" and s1: "s1 = [] \<or> sq_must_quote qpf (last s1)"
      and out1: "out_at ?t0 fp (opens qpf no_dq 0 s1 @ c_body qpf s1) out1"
    by auto
  have o: "opens qpf no_dq 0 s1 = ?o" and any: "(\<exists>c\<in>set s. sq_must_quote qpf c) \<longleftrightarrow> s1 \<noteq> []"
    using s s1 s2 by (auto simp: opens_def intro: last_in_set)
  have t: "take (length s2) (drop (length s1) name) = s2"
    using name_at_take [OF name_at_drop [OF assms(2) [unfolded s]]] by simp
  have body: "(opens qpf no_dq 0 s1 @ c_body qpf s1) @ s2 = ?o @ c_body qpf s"
    using s c_body_plain [OF s2] o by simp
  have "out_fits ?t0 ((opens qpf no_dq 0 s1 @ c_body qpf s1) @ s2)"
    unfolding body using out_fits_append [of ?t0 "?o @ c_body qpf s" ?o] fits by simp
  with writes_EMITBUF out1 obtain out2 where out2: "EMITBUF s2 out1 = Value out2" "out_at ?t0 fp (?o @ c_body qpf s) out2"
    unfolding body [symmetric] by (rule writesD)
  show ?thesis
  proof (cases "s1 = []")
    case True
    then have e: "?o = []"
      using any by (auto simp: opens_def)
    then show ?thesis
      using True q t out2 any by (cases sb) (auto simp: quote_c_style_counted_def out_at_def c_text_def e)
  next
    case False
    have "writes (\<lambda>out. if \<not> no_dq then EMIT 34 out else Value out) ?o"
      using False any writes_EMIT writes_Value by (auto simp: opens_def)
    from writesD [OF this out2(2)] fits obtain sb3 fp3 n3 where
      "(if \<not> no_dq then EMIT 34 out2 else Value out2) = Value (sb3, fp3, n3)"
      "out_at ?t0 fp (c_text qpf no_dq s) (sb3, fp3, n3)"
      unfolding c_text_def by (metis append_assoc prod_cases3)
    then show ?thesis
      using False q t out2(1) any by (cases sb) (auto simp: quote_c_style_counted_def out_at_def)
  qed
qed

subsection \<open>Reading it back\<close>

lemma unquote_escape_append:
  "unquote_escape q = Value (Some (c, q')) \<Longrightarrow> unquote_escape (q @ r) = Value (Some (c, q' @ r))"
  by (auto simp: unquote_escape_def split: list.splits if_splits)

lemma unquote_c_escape: "unquote_escape (c_escape c @ r) = Value (Some (c, r))"
proof -
  have "\<forall>n\<in>set [0..<256]. unquote_escape (c_escape (word_of_nat n)) = Value (Some (word_of_nat n, []))"
    by code_simp
  moreover have "unat c < 256"
    using unsigned_less [of c] by simp
  ultimately have "unquote_escape (c_escape c) = Value (Some (c, []))"
    by (auto dest: bspec [of _ _ "unat c"])
  then show ?thesis
    using unquote_escape_append by fastforce
qed

lemma sq_lookup_specials: "sq_lookup ! 0 = 1" "sq_lookup ! 34 = 34" "sq_lookup ! 92 = 92"
  by code_simp+

lemma plain_byte: "0 \<le> qpf \<Longrightarrow> \<not> sq_must_quote qpf c \<Longrightarrow> c \<notin> {34, 92, 0}"
  by (auto simp: sq_must_quote_def sq_lookup_specials)

lemma add_text:
  assumes "strbuf_rep sb t" "length (t @ u) < SIZE_MAX"
  shows "\<exists>sb'. strbuf_add sb (u @ x) (length u) = Value sb' \<and> strbuf_rep sb' (t @ u)"
  using add_makes [OF assms(1), of "length u" "u @ x"] assms(2) by (auto simp: makes_def)

lemma unquote_loop_text:
  "0 \<le> qpf \<Longrightarrow> strbuf_rep sb t \<Longrightarrow> length (t @ s) < SIZE_MAX \<Longrightarrow>
    \<exists>sb'. unquote_loop sb (c_body qpf s @ 34 # r) = Value (sb', Some r) \<and> strbuf_rep sb' (t @ s)"
proof (induction "length s" arbitrary: s sb t rule: less_induct)
  case less
  let ?P = "\<lambda>c. c \<notin> {34, 92, 0 :: byte}"
  define u where "u = takeWhile (\<lambda>c. \<not> sq_must_quote qpf c) s"
  have u: "\<forall>c\<in>set u. \<not> sq_must_quote qpf c"
    by (auto simp: u_def dest: set_takeWhileD)
  then have plain: "\<forall>c\<in>set u. ?P c"
    using plain_byte less.prems(1) by blast
  have run: "takeWhile ?P (u @ q # x) = u" if "q \<in> {34, 92}" for q x
    using plain that by (subst takeWhile_append2) auto
  have "length u \<le> length s"
    unfolding u_def by (rule length_takeWhile_le)
  then have add: "\<exists>sb1. strbuf_add sb (u @ x) (length u) = Value sb1 \<and> strbuf_rep sb1 (t @ u)" for x
    using less.prems(3) by (intro add_text [OF less.prems(2)]) simp
  show ?case
  proof (cases "u = s")
    case True
    then show ?thesis
      using run [of 34 r] add [of "34 # r"] c_body_plain [OF u] by (subst unquote_loop.simps) (auto simp: Let_def)
  next
    case False
    then obtain c s' where s: "s = u @ c # s'" and c: "sq_must_quote qpf c"
      unfolding u_def by (metis append_Nil2 takeWhile_dropWhile_id hd_dropWhile list.exhaust_sel)
    define x where "x = 92 # c_escape c @ c_body qpf s' @ 34 # r"
    obtain sb1 where sb1: "strbuf_add sb (u @ x) (length u) = Value sb1" "strbuf_rep sb1 (t @ u)"
      using add by blast
    have fits: "length ((t @ u) @ [c]) < SIZE_MAX" "length (((t @ u) @ [c]) @ s') < SIZE_MAX" "length s' < length s"
      using less.prems(3) s by auto
    obtain sb2 where sb2: "strbuf_addch sb1 c = Value sb2" "strbuf_rep sb2 ((t @ u) @ [c])"
      using addch_makes [OF sb1(2), of c] fits(1) by (auto simp: makes_def)
    obtain sb3 where sb3: "unquote_loop sb2 (c_body qpf s' @ 34 # r) = Value (sb3, Some r)" "strbuf_rep sb3 (t @ s)"
      using less.hyps [OF fits(3) less.prems(1) sb2(2) fits(2)] s by auto
    have "c_body qpf s @ 34 # r = u @ x"
      using c c_body_plain [OF u] s by (simp add: c_byte_def x_def)
    then show ?thesis
      using run [of 92] sb1(1) sb2(1) sb3 unquote_c_escape [of c]
      by (subst unquote_loop.simps) (simp add: Let_def x_def)
  qed
qed

lemma length_c_text: "length (c_text qpf no_dq s) \<le> length s * 4 + 2"
proof -
  have "length (c_body qpf s) \<le> length s * 4"
    by (induction s) (auto simp: c_byte_def c_escape_def)
  then show ?thesis
    by (auto simp: c_text_def opens_def)
qed

lemma unquote_c_text:
  assumes "0 \<le> qpf" "strbuf_wf dst" "sb_len dst + length s < SIZE_MAX" "\<exists>c\<in>set s. sq_must_quote qpf c"
  shows "\<exists>dst1. unquote_c_style dst (c_text qpf False s @ r) = Value (0, dst1, Some r) \<and>
    strbuf_text dst1 = strbuf_text dst @ s"
proof -
  have "length (strbuf_text dst @ s) < SIZE_MAX"
    using assms(3) rep_len [OF wf_rep [OF assms(2)]] by simp
  from unquote_loop_text [OF assms(1) wf_rep [OF assms(2)] this, of r] obtain dst1 where
    "unquote_loop dst (c_body qpf s @ 34 # r) = Value (dst1, Some r)" "strbuf_rep dst1 (strbuf_text dst @ s)"
    by blast
  then show ?thesis
    using assms(4) rep_wf(2) by (auto simp: unquote_c_style_def c_text_def opens_def)
qed

text \<open>
  (C33) A name quoted in C style is appended to the buffer and to the file alike, nothing at all is
  quoted where the result is 0, and where it is not, it is the number of bytes written and
  \<open>unquote_c_style\<close> reads the name back, appends it to its buffer and points behind the
  closing quote. The same holds for a name that is given with its length.
\<close>
theorem c_quote_roundtrip:
  assumes "0 \<le> qpf" "0 \<notin> set name" "strbuf_wf sb" "strbuf_wf dst"
    "sb_len sb + length name * 4 + 2 < SIZE_MAX" "sb_len dst + length name < SIZE_MAX"
    "quote_c_style qpf name (Some sb) (Some f) False = Value (n, sb1, fp)"
    "quote_c_style_counted qpf (name @ rest) (int (length name)) (Some sb) (Some f) False = Value (n2, sb2, fp2)"
  shows "n2 = n \<and> fp2 = fp \<and> map_option strbuf_text sb2 = map_option strbuf_text sb1 \<and>
    (\<exists>q. fp = Some (f @ q) \<and> map_option strbuf_text sb1 = Some (strbuf_text sb @ q) \<and>
      (n = 0 \<longrightarrow> q = name) \<and>
      (n \<noteq> 0 \<longrightarrow> n = length q \<and>
        (\<exists>dst1. unquote_c_style dst (q @ r) = Value (0, dst1, Some r) \<and> strbuf_text dst1 = strbuf_text dst @ name)))"
proof -
  have "name_at (name @ [0]) name 0 (- 1)" "name_at (name @ rest) name 0 (int (length name))"
    using assms(2) by (auto simp: name_at_def)
  have fits: "sb_len sb + length (c_text qpf False name) < SIZE_MAX"
    using assms(5) length_c_text [of qpf False name] by simp
  let ?q = "c_text qpf False name" and ?m = "\<exists>c\<in>set name. sq_must_quote qpf c"
  have quoted: "k = (if ?m then length ?q else 0) \<and> b = Some (f @ ?q) \<and>
      map_option strbuf_text x = Some (strbuf_text sb @ ?q)"
    if "quote_c_style_counted qpf mem maxlen (Some sb) (Some f) False = Value (k, x, b)" "name_at mem name 0 maxlen"
    for mem maxlen k x b
    using quote_c_style_counted_text [OF assms(1) that(2), of "Some sb" False "Some f"] that(1) assms(3) fits rep_wf(2)
    by auto
  have "name_at (name @ [0]) name 0 (- 1)" "name_at (name @ rest) name 0 (int (length name))"
    using assms(2) by (auto simp: name_at_def)
  note q1 = quoted [OF assms(7) [unfolded quote_c_style_def] this(1)] and q2 = quoted [OF assms(8) this(2)]
  have "?q = name" if "\<not> ?m"
    using that c_body_plain [of name qpf] by (auto simp: c_text_def opens_def)
  then show ?thesis
    using q1 q2 unquote_c_text [OF assms(1,4,6), of r] by (cases ?m) (auto simp: c_text_def opens_def)
qed

theorem c_quote_roundtrip_witness:
  "\<exists>n sb1 f1 q. quote_c_style 1 [97, 10, 200, 34] (Some STRBUF_INIT) (Some [7]) False = Value (n, sb1, Some ([7] @ q)) \<and>
     (\<exists>dst1. unquote_c_style STRBUF_INIT (q @ [33]) = Value (0, dst1, Some [33]) \<and> strbuf_text dst1 = [97, 10, 200, 34])"
proof -
  let ?s = "[97, 10, 200, 34] :: byte list" and ?q = "c_text 1 False [97, 10, 200, 34]"
  have m: "\<exists>c\<in>set ?s. sq_must_quote 1 c"
    by (simp add: sq_must_quote_def sq_lookup_specials)
  have w: "strbuf_wf STRBUF_INIT" "sb_len STRBUF_INIT = 0" "strbuf_text STRBUF_INIT = []"
    using rep_wf [OF rep_init] rep_len [OF rep_init] by auto
  have fits: "length ?q < SIZE_MAX"
    using length_c_text [of 1 False ?s] by (simp add: SIZE_MAX_def)
  obtain n sb1 f1 where q1: "quote_c_style 1 ?s (Some STRBUF_INIT) (Some [7]) False = Value (n, sb1, f1)" "n \<noteq> 0"
    using quote_c_style_counted_text [of 1 "?s @ [0]" ?s "- 1" "Some STRBUF_INIT" False "Some [7]"] m w fits
    by (auto simp: quote_c_style_def name_at_def c_text_def opens_def)
  obtain n2 sb2 f2 where q2: "quote_c_style_counted 1 (?s @ []) (int (length ?s)) (Some STRBUF_INIT) (Some [7]) False = Value (n2, sb2, f2)"
    using quote_c_style_counted_text [of 1 "?s @ []" ?s "int (length ?s)" "Some STRBUF_INIT" False "Some [7]"] w fits
    by (auto simp: name_at_def)
  show ?thesis
    using c_quote_roundtrip [OF _ _ w(1) w(1) _ _ q1(1) q2, of "[33]"] q1 w(2,3) by (auto simp: SIZE_MAX_def)
qed

end
