(* ===== verification/Git_Probe.thy ===== *)
theory Git_Probe
  imports Git_Prelude
begin

text \<open>
  Hash tables with open addressing and linear probing, as \<^verbatim>\<open>object.c\<close> and \<^verbatim>\<open>decorate.c\<close> have them: the
  walk from a slot, what keeps every entry within reach of the slot its key hashes to, and
  that the walk ends in a table that is not full.
\<close>

text \<open>Sequencing code that may not end.\<close>

fun run_then :: "'a outcome option \<Rightarrow> ('a \<Rightarrow> 'b outcome option) \<Rightarrow> 'b outcome option" where
  "run_then (Some (Value x)) f = f x"
| "run_then (Some Failure) f = Some Failure"
| "run_then (Some Fault) f = Some Fault"
| "run_then None f = None"

subsection \<open>Probing\<close>

text \<open>
  From slot \<open>j\<close> on, wrapping at the end, to the first slot whose contents satisfy \<open>stop\<close>. \<open>None\<close> is
  a walk that never ends.
\<close>

partial_function (option) probe :: "('c \<Rightarrow> bool) \<Rightarrow> 'c list \<Rightarrow> nat \<Rightarrow> nat outcome option" where
  "probe stop T j =
     (if j < length T then
        if stop (T ! j) then Some (Value j)
        else probe stop T (if j + 1 \<ge> length T then 0 else j + 1)
      else Some Fault)"

lemma probe_finds:
  assumes "h < length T" "k < length T" "\<forall>m<k. \<not> stop (T ! ((h + m) mod length T))" "stop (T ! ((h + k) mod length T))"
  shows "probe stop T h = Some (Value ((h + k) mod length T))"
  using assms
proof (induction k arbitrary: h)
  case 0
  then show ?case
    by (subst probe.simps) simp
next
  case (Suc k)
  let ?n = "length T"
  define g where "g = (if h + 1 \<ge> length T then 0 else h + 1)"
  have g: "g = (h + 1) mod ?n \<and> g < ?n"
  proof (cases "h + 1 = ?n")
    case True
    then show ?thesis
      by (auto simp: g_def)
  qed (use Suc.prems(1) in \<open>simp add: g_def\<close>)
  have shift: "(g + m) mod ?n = (h + Suc m) mod ?n" for m
    unfolding conjunct1 [OF g] by (simp add: mod_simps)
  have "\<not> stop (T ! h)"
    using Suc.prems(1,3) by (auto dest: spec [of _ 0])
  moreover have "probe stop T g = Some (Value ((g + k) mod ?n))"
  proof (rule Suc.IH)
    show "\<forall>m<k. \<not> stop (T ! ((g + m) mod ?n))"
      using Suc.prems(3) unfolding shift by (metis Suc_less_eq)
  qed (use Suc.prems conjunct2 [OF g] in \<open>simp_all add: shift\<close>)
  moreover have "probe stop T h = probe stop T g" if "\<not> stop (T ! h)"
    using Suc.prems(1) that unfolding g_def by (subst probe.simps) simp
  ultimately show ?case
    unfolding shift by simp
qed

subsection \<open>Reach\<close>

text \<open>Whether every slot from \<open>h\<close> to \<open>j\<close> is taken, and the number of steps between them.\<close>

definition steps :: "nat \<Rightarrow> nat \<Rightarrow> nat \<Rightarrow> nat" where
  "steps n h j = (j + n - h) mod n"

definition reach :: "('c \<Rightarrow> bool) \<Rightarrow> 'c list \<Rightarrow> nat \<Rightarrow> nat \<Rightarrow> bool" where
  "reach free T h j \<longleftrightarrow> (\<forall>m. m < steps (length T) h j \<longrightarrow> \<not> free (T ! ((h + m) mod length T)))"

lemma steps_less: "h < n \<Longrightarrow> steps n h j < n"
  by (simp add: steps_def)

lemma steps_to: "h < n \<Longrightarrow> j < n \<Longrightarrow> (h + steps n h j) mod n = j"
  by (simp add: steps_def mod_simps)

lemma steps_unique: "h < n \<Longrightarrow> k < n \<Longrightarrow> steps n h ((h + k) mod n) = k"
  by (cases "h + k < n") (auto simp: steps_def mod_if split: if_splits)

text \<open>The walk to the first free slot.\<close>

lemma probe_free:
  assumes "h < length T" "\<exists>j<length T. free (T ! j)"
  shows "\<exists>j. probe free T h = Some (Value j) \<and> j < length T \<and> free (T ! j) \<and> reach free T h j"
proof -
  let ?n = "length T"
  obtain i where "i < ?n" "free (T ! i)"
    using assms(2) by blast
  then have "\<exists>k. free (T ! ((h + k) mod ?n)) \<and> k < ?n"
    using steps_to [OF assms(1), of i] steps_less [OF assms(1), of i] by metis
  then have l: "free (T ! ((h + (LEAST k. free (T ! ((h + k) mod ?n)) \<and> k < ?n)) mod ?n))"
      "(LEAST k. free (T ! ((h + k) mod ?n)) \<and> k < ?n) < ?n"
    by (metis (mono_tags, lifting) LeastI)+
  define k where "k = (LEAST k. free (T ! ((h + k) mod ?n)) \<and> k < ?n)"
  have "\<not> free (T ! ((h + m) mod ?n))" if "m < k" for m
    using not_less_Least [of m "\<lambda>k. free (T ! ((h + k) mod ?n)) \<and> k < ?n"] that l(2) unfolding k_def by auto
  then show ?thesis
    using probe_finds [OF assms(1), of k free] l steps_unique [OF assms(1), of k] unfolding k_def [symmetric]
    by (auto simp: reach_def intro: mod_less_divisor)
qed

subsection \<open>The contract of a table\<close>

text \<open>Every entry is within reach of the slot its key hashes to, keys are unique, and a slot is free.\<close>

definition table_ok :: "('c \<Rightarrow> bool) \<Rightarrow> ('c \<Rightarrow> 'k) \<Rightarrow> (nat \<Rightarrow> 'k \<Rightarrow> nat) \<Rightarrow> 'c list \<Rightarrow> bool" where
  "table_ok free key home T \<longleftrightarrow>
     (\<forall>j<length T. \<not> free (T ! j) \<longrightarrow> reach free T (home (length T) (key (T ! j))) j) \<and>
     (\<forall>i<length T. \<forall>j<length T. \<not> free (T ! i) \<longrightarrow> \<not> free (T ! j) \<longrightarrow> key (T ! i) = key (T ! j) \<longrightarrow> i = j) \<and>
     (\<exists>j<length T. free (T ! j))"

lemma table_ok_replicate: "0 < k \<Longrightarrow> free c \<Longrightarrow> table_ok free key home (replicate k c)"
  by (auto simp: table_ok_def)

lemma reach_mono:
  assumes "reach free T h j" "length T' = length T" "\<forall>i<length T. \<not> free (T ! i) \<longrightarrow> \<not> free (T' ! i)"
  shows "reach free T' h j"
  using assms by (cases "T = []") (auto simp: reach_def steps_def)

lemma reach_trans:
  assumes "h < length T" "f < length T" "j < length T" "reach free T h f" "reach free T f j"
  shows "reach free T h j"
  unfolding reach_def
proof (intro allI impI)
  let ?n = "length T"
  fix m assume m: "m < steps ?n h j"
  show "\<not> free (T ! ((h + m) mod ?n))"
  proof (cases "m < steps ?n h f")
    case True
    then show ?thesis
      using assms(4) by (simp add: reach_def)
  next
    case False
    define d where "d = m - steps ?n h f"
    have d: "m = steps ?n h f + d"
      using False by (simp add: d_def)
    have slot: "(h + (steps ?n h f + e)) mod ?n = (f + e) mod ?n" for e
      using steps_to [OF assms(1,2)] by (metis add.assoc mod_add_left_eq)
    have "d < steps ?n f j"
    proof (rule ccontr)
      assume "\<not> d < steps ?n f j"
      then have "steps ?n h f + steps ?n f j \<le> m" "m < ?n"
        using d m steps_less [OF assms(1), of j] by auto
      moreover have "(h + (steps ?n h f + steps ?n f j)) mod ?n = j"
        using slot steps_to [OF assms(2,3)] by simp
      ultimately have "steps ?n h j = steps ?n h f + steps ?n f j"
        using steps_unique [OF assms(1), of "steps ?n h f + steps ?n f j"] by simp
      then show False
        using \<open>steps ?n h f + steps ?n f j \<le> m\<close> m by simp
    qed
    then show ?thesis
      using assms(5) slot [of d] unfolding d by (simp add: reach_def)
  qed
qed

lemma reach_same:
  assumes "length T' = length T" "\<forall>i<length T. free (T' ! i) = free (T ! i)"
  shows "reach free T' h j = reach free T h j"
  using assms by (cases "T = []") (simp_all add: reach_def steps_def)

locale open_addressing =
  fixes free :: "'c \<Rightarrow> bool" and key :: "'c \<Rightarrow> 'k" and home :: "nat \<Rightarrow> 'k \<Rightarrow> nat" and fits :: "nat \<Rightarrow> bool"
  assumes home_less: "fits n \<Longrightarrow> home n k < n"
begin

lemma lookup:
  assumes "fits (length T)" "table_ok free key home T"
  shows "\<exists>j. probe (\<lambda>c. free c \<or> key c = k) T (home (length T) k) = Some (Value j) \<and> j < length T \<and>
    (if \<exists>i<length T. \<not> free (T ! i) \<and> key (T ! i) = k then \<not> free (T ! j) \<and> key (T ! j) = k
     else free (T ! j)) \<and> reach free T (home (length T) k) j"
proof -
  let ?h = "home (length T) k" and ?stop = "\<lambda>c. free c \<or> key c = k"
    and ?E = "\<exists>i<length T. \<not> free (T ! i) \<and> key (T ! i) = k"
  have h: "?h < length T"
    using home_less assms(1) .
  obtain j where j: "probe ?stop T ?h = Some (Value j)" "j < length T" "?stop (T ! j)" "reach ?stop T ?h j"
    using probe_free [OF h, of ?stop] assms(2) by (auto simp: table_ok_def)
  have r: "reach free T ?h j"
    using j(4) by (auto simp: reach_def)
  have "\<not> free (T ! j)" if i: "i < length T" "\<not> free (T ! i)" "key (T ! i) = k" for i
  proof
    assume "free (T ! j)"
    have ri: "reach free T ?h i"
      using assms(2) i by (auto simp: table_ok_def)
    consider "steps (length T) ?h i < steps (length T) ?h j" | "steps (length T) ?h j < steps (length T) ?h i"
      | "steps (length T) ?h i = steps (length T) ?h j"
      by linarith
    then show False
    proof cases
      case 1
      then show ?thesis
        using j(4) steps_to [OF h i(1)] i(2,3) by (auto simp: reach_def)
    next
      case 2
      then show ?thesis
        using ri steps_to [OF h j(2)] \<open>free (T ! j)\<close> by (auto simp: reach_def)
    next
      case 3
      then have "i = j"
        using steps_to [OF h i(1)] steps_to [OF h j(2)] by metis
      then show ?thesis
        using i(2) \<open>free (T ! j)\<close> by simp
    qed
  qed
  then have hit: "?E \<Longrightarrow> \<not> free (T ! j)"
    by blast
  have "if ?E then \<not> free (T ! j) \<and> key (T ! j) = k else free (T ! j)"
  proof (cases ?E)
    case True
    show ?thesis
      unfolding if_P [OF True] using hit [OF True] j(3) by blast
  next
    case False
    then show ?thesis
      unfolding if_not_P [OF False] using j(2,3) by blast
  qed
  then show ?thesis
    by (intro exI [of _ j] conjI j(1,2) r)
qed

lemma insert:
  assumes "table_ok free key home T" "j < length T" "free (T ! j)" "\<not> free c"
    "reach free T (home (length T) (key c)) j" "\<forall>i<length T. \<not> free (T ! i) \<longrightarrow> key (T ! i) \<noteq> key c"
    "\<exists>i<length T. i \<noteq> j \<and> free (T ! i)"
  shows "table_ok free key home (T[j := c])"
proof -
  have m: "reach free T h i \<Longrightarrow> reach free (T[j := c]) h i" for h i
    by (rule reach_mono) (use assms(2-4) in \<open>auto simp: nth_list_update\<close>)
  obtain i where "i < length T" "i \<noteq> j" "free (T ! i)"
    using assms(7) by blast
  then have "\<exists>i<length (T[j := c]). free (T[j := c] ! i)"
    by (intro exI [of _ i]) simp
  moreover have "\<not> free (T[j := c] ! i) \<longrightarrow> reach free (T[j := c]) (home (length T) (key (T[j := c] ! i))) i"
    if "i < length T" for i
    using that assms(1,2,5) m by (cases "i = j") (auto simp: table_ok_def)
  moreover have "i1 = i2" if "i1 < length T" "i2 < length T" "\<not> free (T[j := c] ! i1)" "\<not> free (T[j := c] ! i2)"
    "key (T[j := c] ! i1) = key (T[j := c] ! i2)" for i1 i2
    using that assms(1,2,6) by (cases "i1 = j"; cases "i2 = j") (auto simp: table_ok_def)
  ultimately show ?thesis
    by (simp add: table_ok_def)
qed

lemma replace:
  assumes "table_ok free key home T" "j < length T" "\<not> free (T ! j)" "\<not> free c" "key c = key (T ! j)"
  shows "table_ok free key home (T[j := c])"
proof -
  have m: "reach free T h i \<Longrightarrow> reach free (T[j := c]) h i" for h i
    by (rule reach_mono) (use assms(2-4) in \<open>auto simp: nth_list_update\<close>)
  have "free (T[j := c] ! i) = free (T ! i)" "key (T[j := c] ! i) = key (T ! i)" for i
    using assms(2-5) by (cases "i = j"; simp)+
  then show ?thesis
    using assms(1) m by (simp add: table_ok_def)
qed

lemma move_to_front:
  assumes "fits (length T)" "table_ok free key home T" "i < length T" "\<not> free (T ! i)" "f = home (length T) (key (T ! i))"
  shows "table_ok free key home (T[i := T ! f, f := T ! i])"
proof -
  let ?T = "T[i := T ! f, f := T ! i]"
  define p where "p j = (if j = f then i else if j = i then f else j)" for j
  have f: "f < length T" "reach free T f i"
    using home_less [OF assms(1)] assms(2-5) by (auto simp: table_ok_def)
  have T: "?T ! j = T ! p j" "p j < length T" if "j < length T" for j
    using that assms(3) f(1) by (auto simp: p_def nth_list_update)
  have "\<not> free (T ! f)"
  proof (cases "i = f")
    case False
    then have "steps (length T) f i \<noteq> 0"
      using steps_to [OF f(1) assms(3)] f(1) by (intro notI) simp
    then show ?thesis
      using f by (auto simp: reach_def dest: spec [of _ 0])
  qed (use assms(4) in simp)
  then have same: "\<forall>j<length T. free (?T ! j) = free (T ! j)"
    using T assms(4) by (auto simp: p_def)
  have r: "reach free ?T h j = reach free T h j" for h j
    by (rule reach_same) (use same in simp_all)
  have old: "reach free T (home (length T) (key (T ! j))) j" if "j < length T" "\<not> free (T ! j)" for j
    using assms(2) that by (simp add: table_ok_def)
  have "reach free T (home (length T) (key (?T ! j))) j" if "j < length T" "\<not> free (?T ! j)" for j
  proof -
    consider "j = f" | "j = i" "i \<noteq> f" | "j \<noteq> f" "j \<noteq> i"
      by blast
    then show ?thesis
    proof cases
      case 1
      then have "?T ! j = T ! i"
        using T(1) [OF that(1)] by (simp add: p_def)
      then show ?thesis
        using 1 assms(5) f(1) by (simp add: reach_def steps_def)
    next
      case 2
      then have e: "?T ! j = T ! f"
        using T(1) [OF that(1)] by (simp add: p_def)
      show ?thesis
        unfolding e using 2(1) reach_trans [OF home_less [OF assms(1)] f(1) assms(3) old [OF f(1) \<open>\<not> free (T ! f)\<close>] f(2)]
        by simp
    next
      case 3
      then have "?T ! j = T ! j"
        by simp
      then show ?thesis
        using old [OF that(1)] that(2) by simp
    qed
  qed
  moreover have "j1 = j2" if j: "j1 < length T" "j2 < length T" "\<not> free (?T ! j1)" "\<not> free (?T ! j2)" "key (?T ! j1) = key (?T ! j2)" for j1 j2
  proof -
    have "p j1 = p j2"
      using assms(2) j T unfolding table_ok_def by metis
    then show ?thesis
      by (auto simp: p_def split: if_splits)
  qed
  moreover have "\<exists>j<length T. free (?T ! j)"
    using assms(2) same by (auto simp: table_ok_def)
  ultimately show ?thesis
    using same r unfolding table_ok_def length_list_update by blast
qed

end

end
