(* ===== verification/Git_Object.thy ===== *)
theory Git_Object
  imports Git_Probe Git_Oidmap Git_Strbuf
begin

text \<open>
  The table of all objects in memory (\<^verbatim>\<open>object.c\<close>). An object is at an address; the heap gives what is
  there. The table is an array of addresses, \<open>None\<close> for \<open>NULL\<close>, and found objects are moved to the
  slot where the search for them begins.
\<close>

subsection \<open>Objects and their types\<close>

type_synonym addr = nat

record obj =
  ob_parsed :: bool
  ob_type :: nat
  ob_flags :: u32
  ob_oid :: "byte list"
  ob_index :: nat

record object_store =
  os_heap :: "addr \<Rightarrow> obj"
  obj_hash :: "addr option list"
  nr_objs :: int
  os_commits :: nat

definition object_type_strings :: "byte list option list" where
  "object_type_strings = [None, Some [99, 111, 109, 109, 105, 116], Some [116, 114, 101, 101],
     Some [98, 108, 111, 98], Some [116, 97, 103]]"

definition typename :: "nat \<Rightarrow> byte list option" where
  "typename t = (if t \<ge> length object_type_strings then None else object_type_strings ! t)"

text \<open>
  \<open>str\<close> is a C string, of which \<open>len\<close> bytes are compared. Where \<open>len\<close> is greater than the length of
  a name that matches, the byte looked at is behind the name.
\<close>

fun type_from :: "nat \<Rightarrow> byte list \<Rightarrow> nat \<Rightarrow> nat option" where
  "type_from 0 str i = None"
| "type_from (Suc n) str i =
     (if object_type_strings ! i = Some str then Some i else type_from n str (i + 1))"

definition type_from_string_gently :: "byte list \<Rightarrow> int \<Rightarrow> bool \<Rightarrow> int outcome" where
  "type_from_string_gently str len gentle =
     (let s = (if len < 0 then str else take (nat len) str)
      in case type_from 4 s 1 of
           Some i \<Rightarrow> if len > int (length str) then Fault else Value (int i)
         | None \<Rightarrow> if gentle then Value (- 1) else Failure)"

text \<open>The value returned and the object afterwards; a commit gets a new index.\<close>

definition object_as_type :: "object_store \<Rightarrow> addr \<Rightarrow> nat \<Rightarrow> addr option \<times> object_store" where
  "object_as_type st a ty =
     (if ob_type (os_heap st a) = ty then (Some a, st)
      else if ob_type (os_heap st a) = 0 then
        (let st = (if ty = 1 then st\<lparr>os_heap := (os_heap st)(a := (os_heap st a)\<lparr>ob_index := os_commits st\<rparr>),
                                     os_commits := os_commits st + 1\<rparr> else st)
         in (Some a, st\<lparr>os_heap := (os_heap st)(a := (os_heap st a)\<lparr>ob_type := ty\<rparr>)\<rparr>))
      else (None, st))"

subsection \<open>The table\<close>

definition hash_obj :: "byte list \<Rightarrow> nat \<Rightarrow> nat" where
  "hash_obj sha1 n = unat (oidmap_hash sha1 AND (word_of_nat n - 1))"

definition insert_obj_hash :: "(addr \<Rightarrow> obj) \<Rightarrow> addr \<Rightarrow> addr option list \<Rightarrow> addr option list outcome option" where
  "insert_obj_hash heap obj hash =
     run_then (probe (\<lambda>c. c = None) hash (hash_obj (ob_oid (heap obj)) (length hash))) (\<lambda>j.
     Some (Value (hash[j := Some obj])))"

definition oid_of :: "(addr \<Rightarrow> obj) \<Rightarrow> addr option \<Rightarrow> byte list option" where
  "oid_of heap c = map_option (\<lambda>a. ob_oid (heap a)) c"

definition lookup_object :: "object_store \<Rightarrow> byte list \<Rightarrow> (addr option \<times> object_store) outcome option" where
  "lookup_object st sha1 =
     (let hash = obj_hash st
      in if hash = [] then Some (Value (None, st))
         else
           let first = hash_obj sha1 (length hash)
           in run_then (probe (\<lambda>c. c = None \<or> oid_of (os_heap st) c = Some sha1) hash first) (\<lambda>i.
              Some (Value (hash ! i,
                if hash ! i \<noteq> None \<and> i \<noteq> first
                then st\<lparr>obj_hash := hash[i := hash ! first, first := hash ! i]\<rparr> else st))))"

fun rehash_objects :: "(addr \<Rightarrow> obj) \<Rightarrow> addr option list \<Rightarrow> addr option list \<Rightarrow> addr option list outcome option" where
  "rehash_objects heap [] new = Some (Value new)"
| "rehash_objects heap (None # old) new = rehash_objects heap old new"
| "rehash_objects heap (Some a # old) new = run_then (insert_obj_hash heap a new) (rehash_objects heap old)"

definition grow_object_hash :: "object_store \<Rightarrow> object_store outcome option" where
  "grow_object_hash st =
     (let n = length (obj_hash st); new_size = (if n < 32 then 32 else 2 * n)
      in run_then (rehash_objects (os_heap st) (obj_hash st) (replicate new_size None)) (\<lambda>new.
         Some (Value (st\<lparr>obj_hash := new\<rparr>))))"

text \<open>\<open>o'\<close> is the memory for the new object.\<close>

definition create_object :: "object_store \<Rightarrow> byte list \<Rightarrow> addr \<Rightarrow> (addr \<times> object_store) outcome option" where
  "create_object st sha1 o' =
     (let st = st\<lparr>os_heap := (os_heap st)(o' := (os_heap st o')\<lparr>ob_parsed := False, ob_flags := 0, ob_oid := sha1\<rparr>)\<rparr>
      in run_then (if int (length (obj_hash st)) - 1 \<le> nr_objs st * 2 then grow_object_hash st else Some (Value st)) (\<lambda>st.
         run_then (insert_obj_hash (os_heap st) o' (obj_hash st)) (\<lambda>hash.
         Some (Value (o', st\<lparr>obj_hash := hash, nr_objs := nr_objs st + 1\<rparr>)))))"

text \<open>\<open>fresh\<close> is the memory that \<open>alloc_object_node\<close> returns.\<close>

definition lookup_unknown_object :: "object_store \<Rightarrow> byte list \<Rightarrow> addr \<Rightarrow> (addr \<times> object_store) outcome option" where
  "lookup_unknown_object st sha1 fresh =
     run_then (lookup_object st sha1) (\<lambda>(obj, st).
     case obj of Some a \<Rightarrow> Some (Value (a, st)) | None \<Rightarrow> create_object st sha1 fresh)"

fun clear_flags :: "u32 \<Rightarrow> addr option list \<Rightarrow> (addr \<Rightarrow> obj) \<Rightarrow> addr \<Rightarrow> obj" where
  "clear_flags flags [] heap = heap"
| "clear_flags flags (None # hash) heap = clear_flags flags hash heap"
| "clear_flags flags (Some a # hash) heap =
     clear_flags flags hash (heap(a := (heap a)\<lparr>ob_flags := ob_flags (heap a) AND NOT flags\<rparr>))"

definition clear_object_flags :: "object_store \<Rightarrow> u32 \<Rightarrow> object_store" where
  "clear_object_flags st flags = st\<lparr>os_heap := clear_flags flags (obj_hash st) (os_heap st)\<rparr>"

subsection \<open>The table as a map\<close>

definition table_size :: "nat \<Rightarrow> bool" where
  "table_size n \<longleftrightarrow> (\<exists>b<32. n = 2 ^ b)"

lemma hash_obj_less: "table_size n \<Longrightarrow> hash_obj sha1 n < n"
proof -
  assume "table_size n"
  then obtain b where b: "b < 32" "n = 2 ^ b"
    by (auto simp: table_size_def)
  then have m: "word_of_nat n - 1 = (mask b :: u32)"
    by (simp add: mask_eq_exp_minus_1)
  then have "hash_obj sha1 n = take_bit b (unat (oidmap_hash sha1))"
    by (simp add: hash_obj_def flip: take_bit_eq_mask) (simp add: unsigned_take_bit_eq)
  then show ?thesis
    by (simp add: b(2))
qed

definition obj_home :: "nat \<Rightarrow> byte list option \<Rightarrow> nat" where
  "obj_home n k = (case k of None \<Rightarrow> 0 | Some sha1 \<Rightarrow> hash_obj sha1 n)"

interpretation objs: open_addressing "\<lambda>c. c = None" "oid_of heap" obj_home table_size for heap
proof
  fix n :: nat and k :: "byte list option"
  assume "table_size n"
  then show "obj_home n k < n"
    using hash_obj_less by (auto simp: obj_home_def table_size_def split: option.split)
qed

abbreviation obj_table :: "(addr \<Rightarrow> obj) \<Rightarrow> addr option list \<Rightarrow> bool" where
  "obj_table heap \<equiv> table_ok (\<lambda>c. c = None) (oid_of heap) obj_home"

definition filled :: "'a option list \<Rightarrow> nat" where
  "filled T = length (filter (\<lambda>c. c \<noteq> None) T)"

lemma filled_simps [simp]: "filled [] = 0" "filled (None # T) = filled T" "filled (Some a # T) = filled T + 1"
  by (simp_all add: filled_def)

lemma filled_insert: "j < length T \<Longrightarrow> T ! j = None \<Longrightarrow> filled (T[j := Some a]) = filled T + 1"
proof (induction T arbitrary: j)
  case (Cons c T)
  then show ?case
    by (cases j; cases c) (auto simp: filled_def)
qed simp

lemma filled_free: "filled T < length T \<Longrightarrow> \<exists>j<length T. T ! j = None"
proof (rule ccontr)
  assume "filled T < length T" "\<not> (\<exists>j<length T. T ! j = None)"
  then have "filter (\<lambda>c. c \<noteq> None) T = T"
    by (intro filter_True) (metis in_set_conv_nth)
  then show False
    using \<open>filled T < length T\<close> by (simp add: filled_def)
qed

lemma other_free:
  assumes "filled T + 1 < length T" "j < length T" "T ! j = None"
  shows "\<exists>i<length T. i \<noteq> j \<and> T ! i = None"
proof -
  have "filled (T[j := Some undefined]) < length (T[j := Some undefined])"
    using filled_insert [OF assms(2,3)] assms(1) by simp
  from filled_free [OF this] show ?thesis
    using assms(2) by (auto simp: nth_list_update split: if_splits)
qed

definition entries :: "'a option list \<Rightarrow> 'a set" where
  "entries T = {a. Some a \<in> set T}"

lemma entries_simps [simp]: "entries [] = {}" "entries (None # T) = entries T" "entries (Some a # T) = insert a (entries T)"
    "entries (replicate n None) = {}"
  by (auto simp: entries_def)

lemma entries_insert: "j < length T \<Longrightarrow> T ! j = None \<Longrightarrow> entries (T[j := Some a]) = insert a (entries T)"
proof (induction T arbitrary: j)
  case (Cons c T)
  then show ?case
    by (cases j; cases c) auto
qed simp

lemma insert_obj_ok:
  assumes "table_size (length T)" "obj_table heap T" "filled T + 1 < length T"
    "\<forall>b\<in>entries T. ob_oid (heap b) \<noteq> ob_oid (heap a)"
  shows "\<exists>T'. insert_obj_hash heap a T = Some (Value T') \<and> length T' = length T \<and> obj_table heap T' \<and>
    filled T' = filled T + 1 \<and> entries T' = insert a (entries T)"
proof -
  let ?h = "hash_obj (ob_oid (heap a)) (length T)"
  have "?h < length T"
    using hash_obj_less [OF assms(1)] .
  then obtain j where j: "probe (\<lambda>c. c = None) T ?h = Some (Value j)" "j < length T" "T ! j = None"
      "reach (\<lambda>c. c = None) T ?h j"
    using probe_free [of ?h T "\<lambda>c. c = None"] filled_free assms(3) by (metis add_lessD1)
  have "oid_of heap (T ! i) \<noteq> oid_of heap (Some a)" if "i < length T" "T ! i \<noteq> None" for i
    using assms(4) that nth_mem [OF that(1)] by (cases "T ! i") (auto simp: entries_def oid_of_def)
  moreover have "obj_home (length T) (oid_of heap (Some a)) = ?h"
    by (simp add: obj_home_def oid_of_def)
  ultimately have "obj_table heap (T[j := Some a])"
    using j other_free [OF assms(3) j(2,3)] by (intro objs.insert [OF assms(2)]) auto
  then show ?thesis
    using j filled_insert [OF j(2,3)] entries_insert [OF j(2,3)] by (simp add: insert_obj_hash_def)
qed

lemma rehash_objects_ok:
  "table_size (length T) \<Longrightarrow> obj_table heap T \<Longrightarrow> filled T + filled old < length T \<Longrightarrow>
    inj_on (\<lambda>a. ob_oid (heap a)) (entries T \<union> entries old) \<Longrightarrow> entries T \<inter> entries old = {} \<Longrightarrow>
    distinct (filter (\<lambda>c. c \<noteq> None) old) \<Longrightarrow>
    \<exists>T'. rehash_objects heap old T = Some (Value T') \<and> length T' = length T \<and> obj_table heap T' \<and>
      filled T' = filled T + filled old \<and> entries T' = entries T \<union> entries old"
proof (induction heap old T rule: rehash_objects.induct)
  case (3 heap a old T)
  have new: "\<forall>b\<in>entries T. ob_oid (heap b) \<noteq> ob_oid (heap a)"
    using 3(5,6) by (auto simp: inj_on_def)
  obtain T1 where T1: "insert_obj_hash heap a T = Some (Value T1)" "length T1 = length T" "obj_table heap T1"
      "filled T1 = filled T + 1" "entries T1 = insert a (entries T)"
    using insert_obj_ok [OF 3(2,3) _ new] 3(4) by auto
  have "a \<notin> entries old"
    using 3(7) by (simp add: entries_def)
  then show ?case
    using 3(1) [of T1] 3(2,4,5,6,7) T1 by auto
qed auto

definition store_ok :: "object_store \<Rightarrow> bool" where
  "store_ok st \<longleftrightarrow>
     (if obj_hash st = [] then nr_objs st = 0
      else table_size (length (obj_hash st)) \<and> 32 \<le> length (obj_hash st) \<and> obj_table (os_heap st) (obj_hash st) \<and>
        nr_objs st = int (filled (obj_hash st)) \<and> 2 * filled (obj_hash st) \<le> length (obj_hash st))"

text \<open>The store holds the objects of a map from names to addresses.\<close>

definition holds_objects :: "object_store \<Rightarrow> (byte list \<rightharpoonup> addr) \<Rightarrow> bool" where
  "holds_objects st m \<longleftrightarrow> store_ok st \<and>
     (\<forall>sha1 a. m sha1 = Some a \<longleftrightarrow> a \<in> entries (obj_hash st) \<and> ob_oid (os_heap st a) = sha1)"

lemma obj_table_entries:
  assumes "obj_table heap T"
  shows "inj_on (\<lambda>a. ob_oid (heap a)) (entries T)" "distinct (filter (\<lambda>c. c \<noteq> None) T)"
proof -
  have same: "i = j" if "i < length T" "j < length T" "T ! i \<noteq> None" "T ! j \<noteq> None" "oid_of heap (T ! i) = oid_of heap (T ! j)" for i j
    using assms that by (simp add: table_ok_def)
  show "inj_on (\<lambda>a. ob_oid (heap a)) (entries T)"
  proof (rule inj_onI)
    fix a b assume "a \<in> entries T" "b \<in> entries T" and e: "ob_oid (heap a) = ob_oid (heap b)"
    then obtain i j where "i < length T" "T ! i = Some a" "j < length T" "T ! j = Some b"
      by (auto simp: entries_def in_set_conv_nth)
    then show "a = b"
      using same [of i j] e by (simp add: oid_of_def)
  qed
  have "(\<forall>i<length T. \<forall>j<length T. T ! i \<noteq> None \<longrightarrow> T ! i = T ! j \<longrightarrow> i = j) \<Longrightarrow> distinct (filter (\<lambda>c. c \<noteq> None) T)"
  proof (induction T)
    case (Cons c T)
    have "\<forall>i<length T. \<forall>j<length T. T ! i \<noteq> None \<longrightarrow> T ! i = T ! j \<longrightarrow> i = j"
      using Cons.prems by (metis (no_types, lifting) Suc_inject Suc_less_eq length_Cons nth_Cons_Suc)
    moreover have "c \<notin> set T" if "c \<noteq> None"
      using Cons.prems that by (metis (no_types, lifting) Suc_less_eq in_set_conv_nth length_Cons nat.distinct(1) nth_Cons_0 nth_Cons_Suc zero_less_Suc)
    ultimately show ?case
      using Cons.IH by auto
  qed simp
  then show "distinct (filter (\<lambda>c. c \<noteq> None) T)"
    using same by metis
qed

lemma oid_of_entry: "a \<in> entries T \<longleftrightarrow> (\<exists>i<length T. T ! i = Some a)"
  by (simp add: entries_def in_set_conv_nth)

lemma filled_swap:
  assumes "i < length T" "f < length T"
  shows "filled (T[i := T ! f, f := T ! i]) = filled T" "entries (T[i := T ! f, f := T ! i]) = entries T"
proof -
  have m: "mset (T[i := T ! f, f := T ! i]) = mset T"
    by (rule mset_swap [OF assms(2,1)])
  show "filled (T[i := T ! f, f := T ! i]) = filled T"
    unfolding filled_def size_mset [symmetric] mset_filter m ..
  show "entries (T[i := T ! f, f := T ! i]) = entries T"
    unfolding entries_def mset_eq_setD [OF m] ..
qed

lemma lookup_ok:
  assumes "holds_objects st m"
  shows "\<exists>st'. lookup_object st sha1 = Some (Value (m sha1, st')) \<and> holds_objects st' m \<and> os_heap st' = os_heap st \<and> nr_objs st' = nr_objs st"
proof (cases "obj_hash st = []")
  case True
  then show ?thesis
    using assms by (cases "m sha1") (auto simp: lookup_object_def holds_objects_def)
next
  case False
  let ?T = "obj_hash st" and ?heap = "os_heap st"
  let ?first = "hash_obj sha1 (length ?T)"
  have ok: "table_size (length ?T)" "32 \<le> length ?T" "obj_table ?heap ?T" "nr_objs st = int (filled ?T)" "2 * filled ?T \<le> length ?T"
    using assms False by (auto simp: holds_objects_def store_ok_def)
  have home: "obj_home (length ?T) (Some sha1) = ?first"
    by (simp add: obj_home_def)
  obtain j where j: "probe (\<lambda>c. c = None \<or> oid_of ?heap c = Some sha1) ?T ?first = Some (Value j)" "j < length ?T"
      "if \<exists>i<length ?T. ?T ! i \<noteq> None \<and> oid_of ?heap (?T ! i) = Some sha1
       then ?T ! j \<noteq> None \<and> oid_of ?heap (?T ! j) = Some sha1 else ?T ! j = None"
    using objs.lookup [OF ok(1,3), of "Some sha1"] unfolding home by blast
  have found: "?T ! j = m sha1"
  proof (cases "m sha1")
    case None
    have "\<not> (\<exists>i<length ?T. ?T ! i \<noteq> None \<and> oid_of ?heap (?T ! i) = Some sha1)"
      using assms None by (auto simp: holds_objects_def oid_of_entry oid_of_def) (metis option.distinct(1))
    then show ?thesis
      using j(3) None by simp
  next
    case (Some a)
    then have a: "a \<in> entries ?T" "ob_oid (?heap a) = sha1"
      using assms by (auto simp: holds_objects_def)
    then obtain i where "i < length ?T" "?T ! i = Some a"
      by (auto simp: oid_of_entry)
    then have "\<exists>i<length ?T. ?T ! i \<noteq> None \<and> oid_of ?heap (?T ! i) = Some sha1"
      using a(2) by (auto simp: oid_of_def)
    then have "?T ! j \<noteq> None" "oid_of ?heap (?T ! j) = Some sha1"
      using j(3) by (auto split: if_splits)
    then obtain b where b: "?T ! j = Some b" "ob_oid (?heap b) = sha1"
      by (cases "?T ! j") (auto simp: oid_of_def)
    then have "m sha1 = Some b"
      using assms j(2) by (auto simp: holds_objects_def oid_of_entry)
    then show ?thesis
      using b(1) by simp
  qed
  let ?T' = "?T[j := ?T ! ?first, ?first := ?T ! j]"
  let ?st' = "if ?T ! j \<noteq> None \<and> j \<noteq> ?first then st\<lparr>obj_hash := ?T'\<rparr> else st"
  have "holds_objects ?st' m"
  proof (cases "?T ! j \<noteq> None \<and> j \<noteq> ?first")
    case True
    then have "oid_of ?heap (?T ! j) = Some sha1"
      using j(3) by (auto split: if_splits)
    then have front: "?first = obj_home (length ?T) (oid_of ?heap (?T ! j))"
      using home by simp
    have "obj_table ?heap ?T'"
      using objs.move_to_front [OF ok(1,3) j(2) _ front] True by blast
    moreover have "filled ?T' = filled ?T" "entries ?T' = entries ?T"
      using filled_swap [OF j(2) hash_obj_less [OF ok(1)]] by simp_all
    ultimately show ?thesis
      using True assms False ok by (simp add: holds_objects_def store_ok_def)
  qed (use assms in auto)
  then show ?thesis
    using j(1) found False by (auto simp: lookup_object_def Let_def)
qed

lemma obj_table_heap:
  assumes "\<forall>a\<in>entries T. ob_oid (heap' a) = ob_oid (heap a)"
  shows "obj_table heap' T = obj_table heap T"
proof -
  have "oid_of heap' (T ! j) = oid_of heap (T ! j)" if "j < length T" for j
    using assms that by (cases "T ! j") (auto simp: oid_of_def oid_of_entry)
  then show ?thesis
    by (simp add: table_ok_def)
qed

lemma grow_ok:
  assumes "store_ok st" "int (length (obj_hash st)) - 1 \<le> nr_objs st * 2" "nr_objs st < 2 ^ 28"
  shows "\<exists>T. grow_object_hash st = Some (Value (st\<lparr>obj_hash := T\<rparr>)) \<and> store_ok (st\<lparr>obj_hash := T\<rparr>) \<and>
    entries T = entries (obj_hash st) \<and> 2 * (filled T + 1) \<le> length T \<and> T \<noteq> []"
proof -
  let ?T = "obj_hash st"
  define n where "n = (if length ?T < 32 then 32 else 2 * length ?T)"
  have ok: "?T = [] \<or> table_size (length ?T) \<and> 32 \<le> length ?T \<and> obj_table (os_heap st) ?T" "nr_objs st = int (filled ?T)"
      "2 * filled ?T \<le> length ?T"
    using assms(1) by (auto simp: store_ok_def split: if_splits)
  have small: "length ?T \<le> 2 ^ 29"
    using assms(2,3) by simp
  have n: "table_size n" "32 \<le> n" "2 * (filled ?T + 1) \<le> n"
  proof -
    show "table_size n"
    proof (cases "?T = []")
      case True
      then have "n = 2 ^ 5"
        by (simp add: n_def)
      then show ?thesis
        unfolding table_size_def by (intro exI [of _ 5]) simp
    next
      case False
      then obtain b where b: "length ?T = 2 ^ b" "32 \<le> length ?T"
        using ok(1) by (auto simp: table_size_def)
      then have "(2 :: nat) ^ b \<le> 2 ^ 29"
        using small by simp
      then have "b \<le> 29"
        by (rule power_le_imp_le_exp [rotated]) simp
      then show ?thesis
        using b unfolding table_size_def n_def by (intro exI [of _ "Suc b"]) simp
    qed
  qed (use ok in \<open>auto simp: n_def\<close>)
  have "obj_table (os_heap st) (replicate n None)"
    using n(2) by (intro table_ok_replicate) auto
  moreover have "filled (replicate n None) + filled ?T < length (replicate n None)"
    using n(2,3) by (simp add: filled_def)
  moreover have "inj_on (\<lambda>a. ob_oid (os_heap st a)) (entries ?T) \<and> distinct (filter (\<lambda>c. c \<noteq> None) ?T)"
    using ok(1) obj_table_entries by auto
  ultimately obtain T where T: "rehash_objects (os_heap st) ?T (replicate n None) = Some (Value T)" "length T = n"
      "obj_table (os_heap st) T" "filled T = filled ?T" "entries T = entries ?T"
    using rehash_objects_ok [of "replicate n None" "os_heap st" ?T] n(1) by (auto simp: filled_def)
  then show ?thesis
    using n ok(2) by (intro exI [of _ T]) (auto simp: grow_object_hash_def store_ok_def Let_def simp flip: n_def)
qed

definition new_obj :: "byte list \<Rightarrow> obj \<Rightarrow> obj" where
  "new_obj sha1 ob = ob\<lparr>ob_parsed := False, ob_flags := 0, ob_oid := sha1\<rparr>"

lemma create_ok:
  assumes "holds_objects st m" "m sha1 = None" "fresh \<notin> ran m" "nr_objs st < 2 ^ 28"
  shows "\<exists>st'. create_object st sha1 fresh = Some (Value (fresh, st')) \<and> holds_objects st' (m(sha1 \<mapsto> fresh)) \<and>
    os_heap st' = (os_heap st)(fresh := new_obj sha1 (os_heap st fresh))"
proof -
  let ?heap = "(os_heap st)(fresh := new_obj sha1 (os_heap st fresh))" and ?T = "obj_hash st"
  let ?st = "st\<lparr>os_heap := ?heap\<rparr>"
  have entry: "m k = Some a \<longleftrightarrow> a \<in> entries ?T \<and> ob_oid (os_heap st a) = k" for k a
    using assms(1) by (simp add: holds_objects_def)
  have nf: "fresh \<notin> entries ?T"
    using assms(3) entry by (auto simp: ran_def)
  have st: "store_ok ?st"
    using assms(1) obj_table_heap [of ?T ?heap "os_heap st"] nf by (auto simp: holds_objects_def store_ok_def)
  have "ob_oid (os_heap st b) \<noteq> sha1" if "b \<in> entries ?T" for b
    using entry [of sha1 b] that assms(2) by auto
  then have new: "\<forall>b\<in>entries ?T. ob_oid (?heap b) \<noteq> ob_oid (?heap fresh)"
    using nf by (auto simp: new_obj_def)
  obtain T1 where T1: "(if int (length (obj_hash ?st)) - 1 \<le> nr_objs ?st * 2 then grow_object_hash ?st else Some (Value ?st)) =
      Some (Value (?st\<lparr>obj_hash := T1\<rparr>))" "store_ok (?st\<lparr>obj_hash := T1\<rparr>)" "entries T1 = entries ?T"
      "2 * (filled T1 + 1) \<le> length T1" "T1 \<noteq> []"
  proof (cases "int (length (obj_hash ?st)) - 1 \<le> nr_objs ?st * 2")
    case True
    then show ?thesis
      using grow_ok [OF st True] assms(4) that by auto
  next
    case False
    have "store_ok (?st\<lparr>obj_hash := ?T\<rparr>)" "?T \<noteq> []" "2 * (filled ?T + 1) \<le> length ?T"
      using st False by (auto simp: store_ok_def split: if_splits)
    then show ?thesis
      using that [of ?T] False by simp
  qed
  have ok: "table_size (length T1)" "32 \<le> length T1" "obj_table ?heap T1" "nr_objs st = int (filled T1)"
    using T1(2,5) by (auto simp: store_ok_def)
  obtain T2 where T2: "insert_obj_hash ?heap fresh T1 = Some (Value T2)" "length T2 = length T1" "obj_table ?heap T2"
      "filled T2 = filled T1 + 1" "entries T2 = insert fresh (entries T1)"
    using insert_obj_ok [OF ok(1,3), of fresh] T1(3,4) ok(2) new by auto
  let ?st' = "?st\<lparr>obj_hash := T2, nr_objs := nr_objs st + 1\<rparr>"
  have "create_object st sha1 fresh = Some (Value (fresh, ?st'))"
    using T1(1) T2(1) unfolding create_object_def Let_def new_obj_def by simp
  moreover have "store_ok ?st'"
    using T2 ok T1(4,5) by (auto simp: store_ok_def)
  moreover have "(m(sha1 \<mapsto> fresh)) k = Some a \<longleftrightarrow> a \<in> entries T2 \<and> ob_oid (?heap a) = k" for k a
    using entry [of k a] nf assms(2) by (auto simp: T2(5) T1(3) new_obj_def)
  ultimately show ?thesis
    by (intro exI [of _ ?st']) (simp add: holds_objects_def)
qed

lemma clear_flags_heap:
  "clear_flags flags T heap a =
     (if a \<in> entries T then (heap a)\<lparr>ob_flags := ob_flags (heap a) AND NOT flags\<rparr> else heap a)"
proof (induction flags T heap arbitrary: rule: clear_flags.induct)
  case (3 flags b T heap)
  show ?case
    unfolding clear_flags.simps 3 by (auto simp: and.assoc)
qed simp_all

text \<open>
  (C37) While the object table holds the objects of a map from names to addresses, \<open>lookup_object\<close> ends with the
  address under a name, or \<open>NULL\<close>, and although it moves the object found to the front the table still holds the
  map. \<open>create_object\<close> enters a new object, growing the table where it is half full, and \<open>lookup_unknown_object\<close> returns
  the object there is or enters the new one. No slot outside the table is accessed.
\<close>
theorem object_table_refines_map:
  assumes "holds_objects st m" "nr_objs st < 2 ^ 28" "fresh \<notin> ran m"
  shows "(\<exists>st'. lookup_object st sha1 = Some (Value (m sha1, st')) \<and> holds_objects st' m \<and> os_heap st' = os_heap st) \<and>
    (m sha1 = None \<longrightarrow>
      (\<exists>st'. create_object st sha1 fresh = Some (Value (fresh, st')) \<and> holds_objects st' (m(sha1 \<mapsto> fresh)) \<and>
        os_heap st' = (os_heap st)(fresh := new_obj sha1 (os_heap st fresh)))) \<and>
    (\<exists>st'. lookup_unknown_object st sha1 fresh =
        Some (Value (case m sha1 of Some a \<Rightarrow> a | None \<Rightarrow> fresh, st')) \<and>
      holds_objects st' (case m sha1 of Some a \<Rightarrow> m | None \<Rightarrow> m(sha1 \<mapsto> fresh)))"
proof -
  obtain st1 where st1: "lookup_object st sha1 = Some (Value (m sha1, st1))" "holds_objects st1 m" "os_heap st1 = os_heap st"
      "nr_objs st1 < 2 ^ 28"
    using lookup_ok [OF assms(1), of sha1] assms(2) by auto
  show ?thesis
  proof (cases "m sha1")
    case None
    then show ?thesis
      using st1 create_ok [OF st1(2) None assms(3) st1(4)] create_ok [OF assms(1) None assms(3,2)]
      by (auto simp: lookup_unknown_object_def)
  qed (use st1 in \<open>auto simp: lookup_unknown_object_def\<close>)
qed

theorem object_table_refines_map_witness:
  "\<exists>st'. lookup_unknown_object \<lparr>os_heap = \<lambda>a. \<lparr>ob_parsed = True, ob_type = 0, ob_flags = 5, ob_oid = [], ob_index = 0\<rparr>,
      obj_hash = [], nr_objs = 0, os_commits = 0\<rparr> [1, 2, 3, 4] 17 = Some (Value (17, st')) \<and>
    holds_objects st' [[1, 2, 3, 4] \<mapsto> 17]"
proof -
  let ?st = "\<lparr>os_heap = \<lambda>a. \<lparr>ob_parsed = True, ob_type = 0, ob_flags = 5, ob_oid = [], ob_index = 0\<rparr>,
      obj_hash = [], nr_objs = 0, os_commits = 0\<rparr>"
  have "holds_objects ?st Map.empty"
    by (simp add: holds_objects_def store_ok_def)
  from object_table_refines_map [OF this, of 17 "[1, 2, 3, 4]"] show ?thesis
    by simp
qed

end
