(* ===== verification/Git_Range_Set.thy ===== *)
theory Git_Range_Set
  imports Git_Qsort Git_Strbuf
begin

text \<open>
  Sets of line numbers as lists of ranges (the \<^verbatim>\<open>range_set\<close> functions of \<^verbatim>\<open>line-log.c\<close>). A
  \<open>range_set\<close> is the list of the ranges in use; its capacity is not kept, as allocation succeeds. A
  line number is a C \<open>long\<close>, an integer here: they are counted from files in memory. A failed
  \<open>assert\<close> is \<open>Failure\<close>.
\<close>

subsection \<open>Ranges and sets\<close>

record rng =
  r_start :: int
  r_end :: int

type_synonym range_set = "rng list"

definition rng :: "int \<Rightarrow> int \<Rightarrow> rng" where
  "rng a b = \<lparr>r_start = a, r_end = b\<rparr>"

lemma rng_sel [simp]: "r_start (rng a b) = a" "r_end (rng a b) = b"
  by (simp_all add: rng_def)

definition range_set_init :: range_set where
  "range_set_init = []"

definition range_set_copy :: "range_set \<Rightarrow> range_set" where
  "range_set_copy src = take (length src) src"

text \<open>The destination and the source after the call.\<close>

definition range_set_move :: "range_set \<Rightarrow> range_set \<Rightarrow> range_set \<times> range_set" where
  "range_set_move dst src = (src, [])"

definition range_set_append_unsafe :: "range_set \<Rightarrow> int \<Rightarrow> int \<Rightarrow> range_set outcome" where
  "range_set_append_unsafe rs a b = (if a \<le> b then Value (rs @ [rng a b]) else Failure)"

definition range_set_append :: "range_set \<Rightarrow> int \<Rightarrow> int \<Rightarrow> range_set outcome" where
  "range_set_append rs a b =
     (if rs = [] \<or> r_end (rs ! (length rs - 1)) \<le> a then range_set_append_unsafe rs a b else Failure)"

definition range_cmp :: "rng \<Rightarrow> rng \<Rightarrow> int" where
  "range_cmp r s = (if r_start r = r_start s then 0 else if r_start r < r_start s then - 1 else 1)"

fun check_from :: "rng \<Rightarrow> range_set \<Rightarrow> bool" where
  "check_from p [] = True"
| "check_from p (r # rs) = (r_end p < r_start r \<and> r_start r < r_end r \<and> check_from r rs)"

definition range_set_check_invariants :: "range_set \<Rightarrow> bool" where
  "range_set_check_invariants rs =
     (case rs of [] \<Rightarrow> True | r # rest \<Rightarrow> r_start r < r_end r \<and> check_from r rest)"

subsection \<open>Sorting and merging in place\<close>

text \<open>The output cursor \<open>k\<close> runs behind the input cursor \<open>i\<close> in the same array.\<close>

function merge_ranges_loop :: "nat \<Rightarrow> nat \<Rightarrow> rng list \<Rightarrow> (nat \<times> rng list) outcome" where
  "merge_ranges_loop i k rs =
     (if i < length rs then
        if r_start (rs ! i) = r_end (rs ! i) then merge_ranges_loop (i + 1) k rs
        else if k > length rs then Fault
        else if k > 0 \<and> r_start (rs ! i) \<le> r_end (rs ! (k - 1)) then
          merge_ranges_loop (i + 1) k
            (if r_end (rs ! (k - 1)) < r_end (rs ! i)
             then rs[k - 1 := (rs ! (k - 1))\<lparr>r_end := r_end (rs ! i)\<rparr>] else rs)
        else if k < length rs
        then merge_ranges_loop (i + 1) (k + 1) (rs[k := rng (r_start (rs ! i)) (r_end (rs ! i))])
        else Fault
      else Value (k, rs))"
  by auto
termination by (relation "measure (\<lambda>(i, k, rs). length rs - i)") auto

text \<open>\<open>garbage\<close> is what the memory that \<open>qsort\<close> allocates holds.\<close>

definition sort_and_merge_range_set :: "(nat \<Rightarrow> rng) \<Rightarrow> range_set \<Rightarrow> range_set outcome" where
  "sort_and_merge_range_set garbage rs =
     (case sane_qsort garbage 16 range_cmp rs of
        Value rs \<Rightarrow>
          and_then (merge_ranges_loop 0 0 rs) (\<lambda>(k, rs).
             if k \<le> length rs \<and> range_set_check_invariants (take k rs) then Value (take k rs) else Failure)
      | Failure \<Rightarrow> Failure
      | Fault \<Rightarrow> Fault)"

subsection \<open>Union and difference\<close>

text \<open>A range that is written behind the others or merged with the last.\<close>

definition union_step :: "rng \<Rightarrow> range_set \<Rightarrow> range_set" where
  "union_step new out =
     (if r_start new = r_end new then out
      else if out = [] \<or> r_end (out ! (length out - 1)) < r_start new then out @ [rng (r_start new) (r_end new)]
      else if r_end (out ! (length out - 1)) < r_end new then
        out[length out - 1 := (out ! (length out - 1))\<lparr>r_end := r_end new\<rparr>]
      else out)"

text \<open>The ranges from \<open>i\<close> and from \<open>j\<close> on.\<close>

fun union_loop :: "rng list \<Rightarrow> rng list \<Rightarrow> range_set \<Rightarrow> range_set" where
  "union_loop (x # ra) (y # rb) out =
     (if r_start x < r_start y then union_loop ra (y # rb) (union_step x out)
      else if r_start x > r_start y then union_loop (x # ra) rb (union_step y out)
      else if r_end x < r_end y then union_loop ra (y # rb) (union_step x out)
      else union_loop (x # ra) rb (union_step y out))"
| "union_loop (x # ra) [] out = union_loop ra [] (union_step x out)"
| "union_loop [] (y # rb) out = union_loop [] rb (union_step y out)"
| "union_loop [] [] out = out"

definition range_set_union :: "range_set \<Rightarrow> range_set \<Rightarrow> range_set \<Rightarrow> range_set outcome" where
  "range_set_union out a b = (if out = [] then Value (union_loop a b out) else Failure)"

text \<open>
  The loop over one range of \<open>a\<close>, \<open>None\<close> if it never ends. \<open>bs\<close> are the ranges of \<open>b\<close> from \<open>j\<close> on.
\<close>

partial_function (option) difference_while ::
    "rng list \<Rightarrow> int \<Rightarrow> int \<Rightarrow> range_set \<Rightarrow> (rng list \<times> range_set) outcome option" where
  "difference_while bs s e out =
     (if s < e then
        (case dropWhile (\<lambda>r. s \<ge> r_end r) bs of
           [] \<Rightarrow> Some (and_then (range_set_append out s e) (\<lambda>out. Value ([], out)))
         | r # bs' \<Rightarrow>
             if e < r_start r then Some (and_then (range_set_append out s e) (\<lambda>out. Value (r # bs', out)))
             else if s \<ge> r_start r then difference_while (r # bs') (r_end r) e out
             else if e > r_start r then
               (case if s < r_start r then range_set_append out s (r_start r) else Value out of
                  Value out \<Rightarrow> difference_while (r # bs') (r_end r) e out
                | Failure \<Rightarrow> Some Failure
                | Fault \<Rightarrow> Some Fault)
             else difference_while (r # bs') s e out)
      else Some (Value (bs, out)))"

fun difference_loop :: "rng list \<Rightarrow> rng list \<Rightarrow> range_set \<Rightarrow> range_set outcome option" where
  "difference_loop [] bs out = Some (Value out)"
| "difference_loop (r # ra) bs out =
     (case difference_while bs (r_start r) (r_end r) out of
        None \<Rightarrow> None
      | Some (Value (bs, out)) \<Rightarrow> difference_loop ra bs out
      | Some Failure \<Rightarrow> Some Failure
      | Some Fault \<Rightarrow> Some Fault)"

definition range_set_difference :: "range_set \<Rightarrow> range_set \<Rightarrow> range_set \<Rightarrow> range_set outcome option" where
  "range_set_difference out a b = difference_loop a b out"

declare merge_ranges_loop.simps [simp del]

subsection \<open>The set and its canonical form\<close>

definition lines :: "rng list \<Rightarrow> int set" where
  "lines rs = (\<Union>r\<in>set rs. {r_start r..<r_end r})"

lemma lines_simps [simp]: "lines [] = {}" "lines (r # rs) = {r_start r..<r_end r} \<union> lines rs"
    "lines (rs @ ts) = lines rs \<union> lines ts"
  by (auto simp: lines_def)

text \<open>Not empty, and a gap between one range and the next.\<close>

definition canonical :: "rng list \<Rightarrow> bool" where
  "canonical rs \<longleftrightarrow> (\<forall>r\<in>set rs. r_start r < r_end r) \<and> sorted_wrt (\<lambda>r s. r_end r < r_start s) rs"

text \<open>What \<open>range_set_append\<close> builds: ranges may be empty and may touch.\<close>

definition appended :: "rng list \<Rightarrow> bool" where
  "appended rs \<longleftrightarrow> (\<forall>r\<in>set rs. r_start r \<le> r_end r) \<and> sorted_wrt (\<lambda>r s. r_end r \<le> r_start s) rs"

lemma canonical_simps [simp]: "canonical []"
    "canonical (r # rs) \<longleftrightarrow> r_start r < r_end r \<and> (\<forall>s\<in>set rs. r_end r < r_start s) \<and> canonical rs"
    "canonical (rs @ ts) \<longleftrightarrow> canonical rs \<and> canonical ts \<and> (\<forall>r\<in>set rs. \<forall>s\<in>set ts. r_end r < r_start s)"
  by (auto simp: canonical_def sorted_wrt_append)

lemma appended_simps [simp]: "appended []"
    "appended (r # rs) \<longleftrightarrow> r_start r \<le> r_end r \<and> (\<forall>s\<in>set rs. r_end r \<le> r_start s) \<and> appended rs"
    "appended (rs @ ts) \<longleftrightarrow> appended rs \<and> appended ts \<and> (\<forall>r\<in>set rs. \<forall>s\<in>set ts. r_end r \<le> r_start s)"
  by (auto simp: appended_def sorted_wrt_append)

lemma canonical_appended: "canonical rs \<Longrightarrow> appended rs"
  by (induction rs) (auto simp: less_imp_le)

lemma check_from_canonical: "check_from p rs \<and> r_start p < r_end p \<longleftrightarrow> canonical (p # rs)"
proof (induction rs arbitrary: p)
  case (Cons r rs)
  show ?case
    using Cons.IH [of r] by (fastforce dest: bspec)
qed simp

lemma check_invariants_canonical: "range_set_check_invariants rs \<longleftrightarrow> canonical rs"
  using check_from_canonical by (auto simp: range_set_check_invariants_def split: list.split)

lemma append_text:
  assumes "appended rs" "\<forall>r\<in>set rs. r_end r \<le> a" "a \<le> b"
  shows "range_set_append rs a b = Value (rs @ [rng a b])"
  using assms by (cases rs rule: rev_cases) (auto simp: range_set_append_def range_set_append_unsafe_def)

subsection \<open>Union\<close>

lemma union_step_last:
  "union_step new (out @ [l]) =
     (if r_start new = r_end new then out @ [l]
      else if r_end l < r_start new then out @ [l, rng (r_start new) (r_end new)]
      else if r_end l < r_end new then out @ [l\<lparr>r_end := r_end new\<rparr>]
      else out @ [l])"
  by (simp add: union_step_def)

lemma union_step_ok:
  assumes "canonical out" "r_start new \<le> r_end new" "\<forall>r\<in>set out. r_start r \<le> r_start new"
  shows "canonical (union_step new out) \<and> lines (union_step new out) = lines out \<union> {r_start new..<r_end new} \<and>
    (\<forall>r\<in>set (union_step new out). r_start r \<le> r_start new)"
proof (cases out rule: rev_cases)
  case Nil
  then show ?thesis
    using assms(2) by (auto simp: union_step_def)
next
  case (snoc out' l)
  then show ?thesis
    using assms unfolding snoc union_step_last by (auto simp: less_le_trans)
qed

definition by_start :: "rng list \<Rightarrow> bool" where
  "by_start rs \<longleftrightarrow> (\<forall>r\<in>set rs. r_start r \<le> r_end r) \<and> sorted_wrt (\<lambda>r s. r_start r \<le> r_start s) rs"

lemma by_start_simps [simp]: "by_start []"
    "by_start (r # rs) \<longleftrightarrow> r_start r \<le> r_end r \<and> (\<forall>s\<in>set rs. r_start r \<le> r_start s) \<and> by_start rs"
  by (auto simp: by_start_def)

lemma appended_by_start: "appended rs \<Longrightarrow> by_start rs"
  by (induction rs) (auto intro: order_trans)

text \<open>What is written is in canonical form and begins before what is still to come.\<close>

definition written :: "rng list \<Rightarrow> rng set \<Rightarrow> bool" where
  "written out S \<longleftrightarrow> canonical out \<and> (\<forall>r\<in>set out. \<forall>s\<in>S. r_start r \<le> r_start s)"

lemma written_step:
  assumes "written out S" "x \<in> S" "r_start x \<le> r_end x" "T \<subseteq> S" "\<forall>s\<in>T. r_start x \<le> r_start s"
  shows "written (union_step x out) T" "lines (union_step x out) = lines out \<union> {r_start x..<r_end x}"
proof -
  have ok: "canonical out" "\<forall>r\<in>set out. r_start r \<le> r_start x"
    using assms(1,2) by (auto simp: written_def)
  note step = union_step_ok [OF ok(1) assms(3) ok(2)]
  show "written (union_step x out) T"
    unfolding written_def
  proof (intro conjI ballI)
    fix r t assume "r \<in> set (union_step x out)" "t \<in> T"
    then show "r_start r \<le> r_start t"
      using step assms(5) order_trans by blast
  qed (use step in simp)
  show "lines (union_step x out) = lines out \<union> {r_start x..<r_end x}"
    using step by simp
qed

lemma written_canonical: "written out S \<Longrightarrow> canonical out"
  by (simp add: written_def)

lemma union_loop_ok:
  "by_start a \<Longrightarrow> by_start b \<Longrightarrow> written out (set a \<union> set b) \<Longrightarrow>
    canonical (union_loop a b out) \<and> lines (union_loop a b out) = lines out \<union> lines a \<union> lines b"
proof (induction a b out rule: union_loop.induct)
  case (1 x ra y rb out)
  have x: "written (union_step x out) (set ra \<union> set (y # rb))"
      "lines (union_step x out) = lines out \<union> {r_start x..<r_end x}" if "r_start x \<le> r_start y"
    using 1(5-) that by (intro written_step [of out "set (x # ra) \<union> set (y # rb)"]; fastforce)+
  have y: "written (union_step y out) (set (x # ra) \<union> set rb)"
      "lines (union_step y out) = lines out \<union> {r_start y..<r_end y}" if "r_start y \<le> r_start x"
    using 1(5-) that by (intro written_step [of out "set (x # ra) \<union> set (y # rb)"]; fastforce)+
  have b: "by_start ra" "by_start rb"
    using 1(5,6) by simp_all
  consider "r_start x < r_start y" | "r_start x > r_start y" | "r_start x = r_start y" "r_end x < r_end y"
    | "r_start x = r_start y" "\<not> r_end x < r_end y"
    by linarith
  then show ?case
  proof cases
    case 1
    then show ?thesis
      using "1.IH"(1) [OF 1 b(1) "1.prems"(2)] x by (simp add: Un_ac)
  next
    case 2
    then show ?thesis
      using "1.IH"(2) [OF _ 2 "1.prems"(1) b(2)] y by (simp add: Un_ac)
  next
    case 3
    then show ?thesis
      using "1.IH"(3) [OF _ _ 3(2) b(1) "1.prems"(2)] x by (simp add: Un_ac)
  next
    case 4
    then show ?thesis
      using "1.IH"(4) [OF _ _ 4(2) "1.prems"(1) b(2)] y by (simp add: Un_ac)
  qed
next
  case (2 x ra out)
  then show ?case
    using written_step [of out "set (x # ra)" x "set ra"] by auto
next
  case (3 y rb out)
  then show ?case
    using written_step [of out "set (y # rb)" y "set rb"] by auto
qed (simp add: written_def)

subsection \<open>Sorting and merging\<close>

text \<open>In place, the cursor never overtakes the ranges that are still to be read.\<close>

definition merged :: "rng list \<Rightarrow> rng list \<Rightarrow> rng list" where
  "merged out rs = fold union_step rs out"

lemma union_step_in_place:
  assumes "k \<le> i" "i < length rs"
  shows "union_step (rs ! i) (take k rs) =
    (if r_start (rs ! i) = r_end (rs ! i) then take k rs
     else if k > 0 \<and> r_start (rs ! i) \<le> r_end (rs ! (k - 1)) then
       take k (if r_end (rs ! (k - 1)) < r_end (rs ! i)
               then rs[k - 1 := (rs ! (k - 1))\<lparr>r_end := r_end (rs ! i)\<rparr>] else rs)
     else take (k + 1) (rs[k := rng (r_start (rs ! i)) (r_end (rs ! i))]))"
proof -
  have new: "take (k + 1) (rs[k := x]) = take k rs @ [x]" for x
    using assms by (simp add: take_Suc_update)
  show ?thesis
  proof (cases "k = 0")
    case True
    then show ?thesis
      using new by (simp add: union_step_def)
  next
    case False
    then have "length (take k rs) = k" "take k rs ! (k - 1) = rs ! (k - 1)" "take k rs \<noteq> []"
      using assms by auto
    moreover have "take k (rs[k - 1 := x]) = (take k rs)[k - 1 := x]" for x
      by (rule take_update_swap)
    ultimately show ?thesis
      using False new by (simp add: union_step_def not_le)
  qed
qed

lemma merge_ranges_loop_merged:
  "k \<le> i \<Longrightarrow> i \<le> length rs \<Longrightarrow>
    \<exists>k' rs'. merge_ranges_loop i k rs = Value (k', rs') \<and> k' \<le> length rs' \<and> take k' rs' = merged (take k rs) (drop i rs)"
proof (induction "length rs - i" arbitrary: i k rs)
  case 0
  then show ?case
    by (subst merge_ranges_loop.simps) (simp add: merged_def)
next
  case (Suc n)
  then have i: "i < length rs" and d: "drop i rs = rs ! i # drop (i + 1) rs"
    by (auto simp: Cons_nth_drop_Suc)
  define k' rs' where "k' = (if r_start (rs ! i) = r_end (rs ! i) \<or> k > 0 \<and> r_start (rs ! i) \<le> r_end (rs ! (k - 1)) then k else k + 1)"
    and "rs' = (if r_start (rs ! i) = r_end (rs ! i) then rs
       else if k > 0 \<and> r_start (rs ! i) \<le> r_end (rs ! (k - 1)) then
         (if r_end (rs ! (k - 1)) < r_end (rs ! i)
          then rs[k - 1 := (rs ! (k - 1))\<lparr>r_end := r_end (rs ! i)\<rparr>] else rs)
       else rs[k := rng (r_start (rs ! i)) (r_end (rs ! i))])"
  have l: "merge_ranges_loop i k rs = merge_ranges_loop (i + 1) k' rs'"
    using i Suc.prems(1) by (subst merge_ranges_loop.simps) (simp add: k'_def rs'_def)
  have t: "take k' rs' = union_step (rs ! i) (take k rs)"
    using union_step_in_place [OF Suc.prems(1) i] by (simp add: k'_def rs'_def)
  have "drop (i + 1) rs' = drop (i + 1) rs" "length rs' = length rs" "k' \<le> i + 1"
    using Suc.prems(1) by (auto simp: rs'_def k'_def)
  then show ?case
    using Suc.hyps(1) [of rs' "i + 1" k'] Suc.hyps(2) i unfolding l d t by (simp add: merged_def)
qed

lemma merged_ok:
  "by_start rs \<Longrightarrow> written out (set rs) \<Longrightarrow> canonical (merged out rs) \<and> lines (merged out rs) = lines out \<union> lines rs"
proof (induction rs arbitrary: out)
  case (Cons r rs)
  then show ?case
    using written_step [of out "set (r # rs)" r "set rs"] by (auto simp: merged_def)
qed (simp add: merged_def written_def)

lemma range_cmp_keys: "range_cmp = compare_keys r_start"
  by (intro ext) (simp add: range_cmp_def compare_keys_def)

lemma sort_and_merge_ok:
  assumes "\<forall>r\<in>set rs. r_start r \<le> r_end r" "length rs < 2 ^ 60"
  shows "\<exists>out. sort_and_merge_range_set garbage rs = Value out \<and> canonical out \<and> lines out = lines rs"
proof -
  let ?s = "msort_list range_cmp rs"
  have sort: "sane_qsort garbage 16 range_cmp rs = Value ?s"
    using assms(2) by (intro sane_qsort_eq) simp_all
  have "ordered_by range_cmp ?s"
    unfolding range_cmp_keys by (rule keys.msort_list_ordered) simp
  then have "by_start ?s"
    using assms(1) unfolding ordered_by_def by_start_def
    by (auto simp: range_cmp_def elim!: sorted_wrt_mono_rel [rotated] split: if_splits)
  then have merged: "canonical (merged [] ?s)" "lines (merged [] ?s) = lines rs"
    using merged_ok [of ?s "[]"] by (auto simp: written_def lines_def)
  obtain k rs' where "merge_ranges_loop 0 0 ?s = Value (k, rs')" "k \<le> length rs'" "take k rs' = merged [] ?s"
    using merge_ranges_loop_merged [of 0 0 ?s] by auto
  then show ?thesis
    using sort merged by (auto simp: sort_and_merge_range_set_def check_invariants_canonical)
qed

lemma range_set_union_ok:
  assumes "by_start a" "by_start b"
  shows "\<exists>out. range_set_union [] a b = Value out \<and> canonical out \<and> lines out = lines a \<union> lines b"
  using union_loop_ok [OF assms, of "[]"] by (auto simp: range_set_union_def written_def)

subsection \<open>Difference\<close>

text \<open>
  A range that ends where a range of \<open>b\<close> begins, and whose last line is not in \<open>b\<close>: the loop
  gets there with nothing left to do and does not advance.
\<close>

definition stuck :: "rng list \<Rightarrow> int \<Rightarrow> int \<Rightarrow> bool" where
  "stuck bs s e \<longleftrightarrow> s < e \<and> e - 1 \<notin> lines bs \<and> (\<exists>r\<in>set bs. r_start r = e)"

definition ends_by :: "int \<Rightarrow> rng list \<Rightarrow> bool" where
  "ends_by m out \<longleftrightarrow> appended out \<and> (\<forall>r\<in>set out. r_start r < r_end r \<and> r_end r \<le> m)"

lemma ends_by_append:
  "ends_by m out \<Longrightarrow> m \<le> a \<Longrightarrow> a < b \<Longrightarrow> range_set_append out a b = Value (out @ [rng a b]) \<and> ends_by b (out @ [rng a b])"
  by (subst append_text) (auto simp: ends_by_def intro: order_trans)

lemma ends_by_mono: "ends_by m out \<Longrightarrow> m \<le> n \<Longrightarrow> ends_by n out"
  by (auto simp: ends_by_def)

lemma appended_dropWhile: "appended bs \<Longrightarrow> appended (dropWhile P bs)"
  by (induction bs) auto

lemma dropWhile_ends:
  "s \<le> l \<Longrightarrow> l \<in> lines (dropWhile (\<lambda>r. s \<ge> r_end r) bs) \<longleftrightarrow> l \<in> lines bs"
  "r \<in> set bs \<Longrightarrow> s < r_end r \<Longrightarrow> r \<in> set (dropWhile (\<lambda>r. s \<ge> r_end r) bs)"
  by (induction bs) auto

lemma stuck_dropWhile:
  assumes "appended bs" "stuck bs s e"
  shows "stuck (dropWhile (\<lambda>r. s \<ge> r_end r) bs) s e"
proof -
  obtain r where r: "r \<in> set bs" "r_start r = e" "s < e" "e - 1 \<notin> lines bs"
    using assms(2) by (auto simp: stuck_def)
  then have "s < r_end r"
    using assms(1) by (auto simp: appended_def)
  then show ?thesis
    using dropWhile_ends(1) [of s "e - 1" bs] dropWhile_ends(2) [OF r(1), of s] r by (auto simp: stuck_def)
qed

lemma difference_while_not_stuck:
  assumes "difference_while bs s e out = Some y"
  shows "\<forall>m. appended bs \<longrightarrow> ends_by m out \<longrightarrow> m \<le> s \<longrightarrow> \<not> stuck bs s e"
proof (rule difference_while.raw_induct [where P = "\<lambda>bs s e out y.
      \<forall>m. appended bs \<longrightarrow> ends_by m out \<longrightarrow> m \<le> s \<longrightarrow> \<not> stuck bs s e", OF _ assms], intro allI impI notI)
  fix f bs s e out and y :: "(rng list \<times> range_set) outcome" and m
  assume IH: "\<And>bs s e out (y :: (rng list \<times> range_set) outcome). f bs s e out = Some y \<Longrightarrow>
      \<forall>m. appended bs \<longrightarrow> ends_by m out \<longrightarrow> m \<le> s \<longrightarrow> \<not> stuck bs s e"
    and step: "(if s < e then
        (case dropWhile (\<lambda>r. s \<ge> r_end r) bs of
           [] \<Rightarrow> Some (and_then (range_set_append out s e) (\<lambda>out. Value ([], out)))
         | r # bs' \<Rightarrow>
             if e < r_start r then Some (and_then (range_set_append out s e) (\<lambda>out. Value (r # bs', out)))
             else if s \<ge> r_start r then f (r # bs') (r_end r) e out
             else if e > r_start r then
               (case if s < r_start r then range_set_append out s (r_start r) else Value out of
                  Value out \<Rightarrow> f (r # bs') (r_end r) e out
                | Failure \<Rightarrow> Some Failure
                | Fault \<Rightarrow> Some Fault)
             else f (r # bs') s e out)
      else Some (Value (bs, out))) = Some y"
    and prems: "appended bs" "ends_by m out" "m \<le> s" "stuck bs s e"
  obtain r bs' where d: "dropWhile (\<lambda>r. s \<ge> r_end r) bs = r # bs'" and st: "stuck (r # bs') s e"
    using stuck_dropWhile [OF prems(1,4)] by (cases "dropWhile (\<lambda>r. s \<ge> r_end r) bs") (auto simp: stuck_def)
  have a: "appended (r # bs')"
    using appended_dropWhile [OF prems(1)] d by metis
  have "s < r_end r"
    using hd_dropWhile [of "\<lambda>r. s \<ge> r_end r" bs] d by auto
  have se: "s < e" "e - 1 \<notin> lines (r # bs')" "r_start r \<le> e"
    using st a by (auto simp: stuck_def)
  have "r_start r < e \<Longrightarrow> r_end r < e"
    using se(2) by auto
  moreover have "r_start r < e \<Longrightarrow> stuck (r # bs') (r_end r) e" if "r_end r < e"
    using st that by (auto simp: stuck_def)
  ultimately have inner: "r_start r < e \<Longrightarrow> stuck (r # bs') (r_end r) e"
    by blast
  have no: "f (r # bs') s' e out' \<noteq> Some y" if "ends_by n out'" "n \<le> s'" "stuck (r # bs') s' e" for s' out' n
    using IH [of "r # bs'" s' e out' y] a that by blast
  show False
  proof (cases "r_start r \<le> s")
    case True
    then show ?thesis
      using step d se no [OF ends_by_mono [OF prems(2)], of "r_end r" "r_end r"] inner prems(3) \<open>s < r_end r\<close> by auto
  next
    case False
    then have "range_set_append out s (r_start r) = Value (out @ [rng s (r_start r)])"
        "ends_by (r_start r) (out @ [rng s (r_start r)])"
      using ends_by_append [OF prems(2,3), of "r_start r"] by auto
    then show ?thesis
      using step d se False no [of "r_start r" "out @ [rng s (r_start r)]" "r_end r"] inner a
        no [OF prems(2,3) st] by (auto split: if_splits)
  qed
qed

text \<open>The ranges that can be skipped for all lines from \<open>e\<close> on.\<close>

definition behind :: "rng list \<Rightarrow> rng list \<Rightarrow> int \<Rightarrow> bool" where
  "behind bs' bs e \<longleftrightarrow> appended bs' \<and> set bs' \<subseteq> set bs \<and> (\<forall>l\<ge>e. l \<in> lines bs' \<longleftrightarrow> l \<in> lines bs) \<and>
     (\<forall>r\<in>set bs. r_end r > e \<longrightarrow> r \<in> set bs')"

lemma behind_refl: "appended bs \<Longrightarrow> behind bs bs e"
  by (simp add: behind_def)

lemma behind_trans: "behind bs2 bs1 e \<Longrightarrow> behind bs1 bs s \<Longrightarrow> s \<le> e \<Longrightarrow> behind bs2 bs e"
  unfolding behind_def by (meson order_trans subset_trans le_less_trans)

lemma behind_dropWhile: "appended bs \<Longrightarrow> behind (dropWhile (\<lambda>r. s \<ge> r_end r) bs) bs s"
  using dropWhile_ends [where s = s] by (auto simp: behind_def appended_dropWhile dest: set_dropWhileD)

lemma behind_stuck:
  assumes "behind bs' bs e" "appended bs" "e \<le> s2"
  shows "stuck bs' s2 e2 \<longleftrightarrow> stuck bs s2 e2"
proof (cases "s2 < e2")
  case True
  then have "(\<exists>r\<in>set bs'. r_start r = e2) \<longleftrightarrow> (\<exists>r\<in>set bs. r_start r = e2)"
    using assms by (fastforce simp: behind_def appended_def)
  moreover have "e2 - 1 \<in> lines bs' \<longleftrightarrow> e2 - 1 \<in> lines bs"
    using assms(1,3) True by (auto simp: behind_def)
  ultimately show ?thesis
    by (simp add: stuck_def)
qed (simp add: stuck_def)

text \<open>No range of \<open>b\<close>, an empty one neither, begins inside a range of the difference.\<close>

definition uncut :: "rng list \<Rightarrow> rng \<Rightarrow> bool" where
  "uncut bs r \<longleftrightarrow> (\<forall>t\<in>set bs. \<not> (r_start r < r_start t \<and> r_start t < r_end r))"

lemma behind_uncut: "behind bs' bs e \<Longrightarrow> appended bs \<Longrightarrow> e \<le> r_start r \<Longrightarrow> uncut bs' r \<Longrightarrow> uncut bs r"
  by (fastforce simp: behind_def uncut_def appended_def)

lemma uncut_before: "appended (r # bs) \<Longrightarrow> x \<le> r_start r \<Longrightarrow> uncut (r # bs) (rng s x)"
  by (force simp: uncut_def)

lemma difference_while_ok:
  "appended bs \<Longrightarrow> ends_by m out \<Longrightarrow> m \<le> s \<Longrightarrow> \<not> stuck bs s e \<Longrightarrow>
    \<exists>bs' out'. difference_while bs s e out = Some (Value (bs', out')) \<and> ends_by (max m e) out' \<and>
      lines out' = lines out \<union> ({s..<e} - lines bs) \<and> behind bs' bs e \<and>
      (\<forall>r\<in>set out'. r \<in> set out \<or> s \<le> r_start r \<and> uncut bs r)"
proof (induction "length (filter (\<lambda>r. s < r_end r) bs)" arbitrary: bs s out m rule: less_induct)
  case less
  define ds where "ds = dropWhile (\<lambda>r. s \<ge> r_end r) bs"
  have b: "behind ds bs s"
    unfolding ds_def by (rule behind_dropWhile [OF less.prems(1)])
  show ?case
  proof (cases "s < e")
    case False
    then show ?thesis
      using less.prems behind_refl ends_by_mono [OF less.prems(2)]
      by (subst difference_while.simps) auto
  next
    case se: True
    have app: "range_set_append out s t = Value (out @ [rng s t])" "ends_by t (out @ [rng s t])" if "s < t" for t
      using ends_by_append [OF less.prems(2,3) that] by auto
    have be: "behind ds bs e"
      using b se by (auto simp: behind_def)
    have last: ?thesis if "difference_while bs s e out = Some (Value (ds, out @ [rng s e]))" "{s..<e} \<inter> lines bs = {}"
        "uncut bs (rng s e)"
      using that be ends_by_mono [OF app(2) [OF se], of "max m e"] se by auto
    show ?thesis
    proof (cases ds)
      case Nil
      then have "{s..<e} \<inter> lines bs = {}" "uncut bs (rng s e)"
        using b behind_uncut [OF b less.prems(1), of "rng s e"] by (auto simp: behind_def uncut_def)
      then show ?thesis
        by (rule last [rotated])
          (use Nil se app [OF se] in \<open>subst difference_while.simps, simp flip: ds_def\<close>)
    next
      case (Cons r bs')
      have a: "appended (r # bs')" and r: "r \<in> set bs" "s < r_end r"
        using b Cons hd_dropWhile [of "\<lambda>r. s \<ge> r_end r" bs] unfolding ds_def by (auto simp: behind_def)
      have in_ds: "s \<le> l \<Longrightarrow> l \<in> lines bs \<longleftrightarrow> l \<in> lines (r # bs')" for l
        using b Cons by (auto simp: behind_def)
      have before: "l < r_start r \<Longrightarrow> s \<le> l \<Longrightarrow> l \<notin> lines bs" for l
        using in_ds [of l] a by (auto simp: lines_def appended_def)
      show ?thesis
      proof (cases "e < r_start r")
        case True
        show ?thesis
        proof (rule last)
          show "difference_while bs s e out = Some (Value (ds, out @ [rng s e]))"
            using Cons se app [OF se] True by (subst difference_while.simps) (simp flip: ds_def)
          show "uncut bs (rng s e)"
            using behind_uncut [OF b less.prems(1), of "rng s e"] uncut_before [OF a, of e s] True Cons by simp
        qed (use before True in auto)
      next
        case False
        have "e \<noteq> r_start r \<or> r_start r \<le> s"
          using less.prems(4) se before [of "e - 1"] r(1) by (auto simp: stuck_def)
        then have re: "r_start r < e"
          using False se by auto
        define out1 where "out1 = (if s < r_start r then out @ [rng s (r_start r)] else out)"
        have step: "difference_while bs s e out = difference_while (r # bs') (r_end r) e out1"
          using Cons se app re by (subst difference_while.simps) (simp add: out1_def flip: ds_def)
        have out1: "ends_by (max m (r_start r)) out1" "lines out1 = lines out \<union> {s..<r_start r}"
          using ends_by_mono [OF app(2), of "r_start r" "max m (r_start r)"] ends_by_mono [OF less.prems(2)]
          by (auto simp: out1_def)
        have fewer: "length (filter (\<lambda>t. r_end r < r_end t) (r # bs')) < length (filter (\<lambda>t. s < r_end t) bs)"
        proof -
          have "filter (\<lambda>t. s < r_end t) bs = filter (\<lambda>t. s < r_end t) (r # bs')"
            unfolding Cons [symmetric] ds_def by (induction bs) auto
          moreover have "length (filter (\<lambda>t. r_end r < r_end t) bs') \<le> length (filter (\<lambda>t. s < r_end t) bs')"
            using r(2) by (induction bs') auto
          ultimately show ?thesis
            using r(2) by simp
        qed
        have m: "max m (r_start r) \<le> r_end r"
          using less.prems(3) r(2) a by auto
        have ns: "\<not> stuck (r # bs') (r_end r) e"
          using less.prems(4) behind_stuck [OF b less.prems(1), of "r_end r" e] r Cons by (auto simp: stuck_def)
        from less.hyps [OF fewer a out1(1) m ns] obtain bs2 out2 where
          IH: "difference_while (r # bs') (r_end r) e out1 = Some (Value (bs2, out2))"
            "ends_by (max (max m (r_start r)) e) out2"
            "lines out2 = lines out1 \<union> ({r_end r..<e} - lines (r # bs'))" "behind bs2 (r # bs') e"
            "\<forall>t\<in>set out2. t \<in> set out1 \<or> r_end r \<le> r_start t \<and> uncut (r # bs') t"
          by blast
        have "max (max m (r_start r)) e = max m e"
          using re by auto
        moreover have "lines out2 = lines out \<union> ({s..<e} - lines bs)"
          unfolding IH(3) out1(2) using in_ds before re r a by (auto simp: not_less) 
        moreover have "behind bs2 bs e"
          using behind_trans [OF IH(4) b [unfolded Cons]] se by simp
        moreover have "uncut bs (rng s (r_start r))"
          using behind_uncut [OF b less.prems(1), of "rng s (r_start r)"] uncut_before [OF a, of "r_start r" s] Cons by simp
        then have "\<forall>t\<in>set out2. t \<in> set out \<or> s \<le> r_start t \<and> uncut bs t"
          using IH(5) behind_uncut [OF b less.prems(1)] r(2) Cons by (fastforce simp: out1_def split: if_splits)
        ultimately show ?thesis
          using step IH(1,2) by auto
      qed
    qed
  qed
qed

lemma difference_loop_ok:
  "appended a \<Longrightarrow> appended bs \<Longrightarrow> ends_by m out \<Longrightarrow> \<forall>r\<in>set a. m \<le> r_start r \<Longrightarrow>
    ((\<exists>r\<in>set a. stuck bs (r_start r) (r_end r)) \<longrightarrow> difference_loop a bs out = None) \<and>
    ((\<forall>r\<in>set a. \<not> stuck bs (r_start r) (r_end r)) \<longrightarrow> (\<exists>out'. difference_loop a bs out = Some (Value out') \<and> appended out' \<and>
      (\<forall>r\<in>set out'. r_start r < r_end r) \<and> lines out' = lines out \<union> (lines a - lines bs) \<and>
      (\<forall>r\<in>set out'. r \<in> set out \<or> m \<le> r_start r \<and> uncut bs r)))"
proof (induction a arbitrary: bs out m)
  case Nil
  then show ?case
    by (auto simp: ends_by_def)
next
  case (Cons r a)
  show ?case
  proof (cases "stuck bs (r_start r) (r_end r)")
    case True
    have "difference_while bs (r_start r) (r_end r) out \<noteq> Some y" for y
      using difference_while_not_stuck [of bs "r_start r" "r_end r" out y] True Cons.prems by fastforce
    then have "difference_while bs (r_start r) (r_end r) out = None"
      by (cases "difference_while bs (r_start r) (r_end r) out") auto
    then show ?thesis
      using True by auto
  next
    case False
    have m: "m \<le> r_start r"
      using Cons.prems(4) by simp
    obtain bs1 out1 where s: "difference_while bs (r_start r) (r_end r) out = Some (Value (bs1, out1))"
        "ends_by (max m (r_end r)) out1" "lines out1 = lines out \<union> ({r_start r..<r_end r} - lines bs)"
        "behind bs1 bs (r_end r)" "\<forall>t\<in>set out1. t \<in> set out \<or> r_start r \<le> r_start t \<and> uncut bs t"
      using difference_while_ok [OF Cons.prems(2,3) m False] by blast
    have e: "max m (r_end r) = r_end r" and a: "appended a" "\<forall>t\<in>set a. r_end r \<le> r_start t" "appended bs1"
      using Cons.prems(1) m s(4) by (auto simp: behind_def)
    have "(\<exists>t\<in>set a. stuck bs1 (r_start t) (r_end t)) \<longleftrightarrow> (\<exists>t\<in>set a. stuck bs (r_start t) (r_end t))"
        "(\<forall>t\<in>set a. \<not> stuck bs1 (r_start t) (r_end t)) \<longleftrightarrow> (\<forall>t\<in>set a. \<not> stuck bs (r_start t) (r_end t))"
      using behind_stuck [OF s(4) Cons.prems(2)] a(2) by auto
    moreover have "lines a - lines bs1 = lines a - lines bs"
    proof -
      have "r_end r \<le> l" if "l \<in> lines a" for l
        using that a(2) by (fastforce simp: lines_def)
      then show ?thesis
        using s(4) unfolding behind_def by blast
    qed
    moreover have "lines (r # a) - lines bs = ({r_start r..<r_end r} - lines bs) \<union> (lines a - lines bs)"
      by auto
    moreover have "difference_loop (r # a) bs out = difference_loop a bs1 out1"
      using s(1) by simp
    moreover have pieces: "t \<in> set out \<or> m \<le> r_start t \<and> uncut bs t"
      if "t \<in> set out1 \<or> r_end r \<le> r_start t \<and> uncut bs1 t" for t
      using that s(5) behind_uncut [OF s(4) Cons.prems(2), of t] m e by fastforce
    ultimately show ?thesis
      using Cons.IH [OF a(1,3) s(2) [unfolded e] a(2)] s(3) False by (simp only: list.set ball_simps bex_simps Un_assoc) metis
  qed
qed

text \<open>
  (C34) The ranges of a set are disjoint, sorted and not empty, with a gap between one and the next,
  as \<open>range_set_check_invariants\<close> checks. \<open>sort_and_merge_range_set\<close> establishes this for
  any ranges, in place, without an access outside the array or a failed assertion, and the union of two sets
  does for any that are sorted by their start, and both keep exactly the lines they are given.
\<close>
theorem range_set_invariant:
  assumes "\<forall>r\<in>set rs. r_start r \<le> r_end r" "length rs < 2 ^ 60" "by_start a" "by_start b"
  shows "(\<exists>out. sort_and_merge_range_set garbage rs = Value out \<and> range_set_check_invariants out \<and> lines out = lines rs) \<and>
    (\<exists>out. range_set_union [] a b = Value out \<and> range_set_check_invariants out \<and> lines out = lines a \<union> lines b)"
  using sort_and_merge_ok [OF assms(1,2)] range_set_union_ok [OF assms(3,4)]
  by (simp add: check_invariants_canonical)

theorem range_set_invariant_witness:
  "(\<exists>out. sort_and_merge_range_set (\<lambda>i. rng 9 7) [rng 8 12, rng 1 4, rng 3 3, rng 2 6] = Value out \<and>
      range_set_check_invariants out \<and> lines out = {8..<12} \<union> ({1..<4} \<union> {2..<6}))"
  using conjunct1 [OF range_set_invariant [of "[rng 8 12, rng 1 4, rng 3 3, rng 2 6]" "[]" "[]" "\<lambda>i. rng 9 7"]]
  by simp

text \<open>
  (C35) The difference of two sets returns the lines of the first that are not in the second, in
  ranges that are sorted, disjoint and not empty and that are cut where a range of the second begins, unless a range of the first ends where one of
  the second begins and its last line is not in the second: then the loop never ends. No assertion fails.
\<close>
theorem range_set_difference_decides:
  assumes "appended a" "appended b"
  shows "if \<exists>r\<in>set a. \<exists>s\<in>set b. r_start r < r_end r \<and> r_end r = r_start s \<and> r_end r - 1 \<notin> lines b
    then range_set_difference [] a b = None
    else \<exists>out. range_set_difference [] a b = Some (Value out) \<and> appended out \<and>
      (\<forall>r\<in>set out. r_start r < r_end r) \<and> lines out = lines a - lines b \<and>
      (\<forall>r\<in>set out. \<forall>s\<in>set b. \<not> (r_start r < r_start s \<and> r_start s < r_end r))"
proof -
  let ?m = "case a of [] \<Rightarrow> 0 | r # _ \<Rightarrow> r_start r"
  have "ends_by ?m []" "\<forall>r\<in>set a. ?m \<le> r_start r"
    using assms(1) by (auto simp: ends_by_def intro: order_trans split: list.split)
  note loop = difference_loop_ok [OF assms this]
  have "if \<exists>r\<in>set a. stuck b (r_start r) (r_end r) then range_set_difference [] a b = None
    else \<exists>out. range_set_difference [] a b = Some (Value out) \<and> appended out \<and>
      (\<forall>r\<in>set out. r_start r < r_end r) \<and> lines out = lines a - lines b \<and>
      (\<forall>r\<in>set out. \<forall>s\<in>set b. \<not> (r_start r < r_start s \<and> r_start s < r_end r))"
  proof (cases "\<exists>r\<in>set a. stuck b (r_start r) (r_end r)")
    case True
    then show ?thesis
      using loop by (simp add: range_set_difference_def)
  next
    case False
    then show ?thesis
      using loop unfolding range_set_difference_def uncut_def by (simp only: if_False) auto
  qed
  moreover have "(\<exists>r\<in>set a. stuck b (r_start r) (r_end r)) \<longleftrightarrow>
      (\<exists>r\<in>set a. \<exists>s\<in>set b. r_start r < r_end r \<and> r_end r = r_start s \<and> r_end r - 1 \<notin> lines b)"
    unfolding stuck_def by (rule bex_cong [OF refl]) metis
  ultimately show ?thesis
    by (simp only:)
qed

theorem range_set_difference_decides_witness:
  "(\<exists>out. range_set_difference [] [rng 1 9] [rng 3 5] = Some (Value out) \<and> lines out = {1..<9} - {3..<5}) \<and>
     range_set_difference [] [rng 1 5] [rng 5 9] = None"
  using range_set_difference_decides [of "[rng 1 9]" "[rng 3 5]"] range_set_difference_decides [of "[rng 1 5]" "[rng 5 9]"]
  by auto

end
