(* ===== verification/Git_Line_Log.thy ===== *)
theory Git_Line_Log
  imports Git_Range_Set
begin

text \<open>
  Following line ranges through history (\<^verbatim>\<open>line-log.c\<close>): the hunks of a diff that touch the
  interesting ranges, the ranges in the parent, and the lists of files with their ranges. The
  hunks are what \<^verbatim>\<open>xdi_diff\<close> reports to its callback.
\<close>

subsection \<open>Hunks\<close>

record diff_ranges =
  dr_parent :: range_set
  dr_target :: range_set

definition diff_ranges_init :: diff_ranges where
  "diff_ranges_init = \<lparr>dr_parent = [], dr_target = []\<rparr>"

definition collect_diff_cb :: "int \<times> int \<times> int \<times> int \<Rightarrow> diff_ranges \<Rightarrow> diff_ranges outcome" where
  "collect_diff_cb h d =
     (case h of (start_a, count_a, start_b, count_b) \<Rightarrow>
        and_then (if count_a \<ge> 0 then range_set_append (dr_parent d) start_a (start_a + count_a) else Value (dr_parent d)) (\<lambda>p.
        and_then (if count_b \<ge> 0 then range_set_append (dr_target d) start_b (start_b + count_b) else Value (dr_target d)) (\<lambda>t.
        Value \<lparr>dr_parent = p, dr_target = t\<rparr>)))"

fun collect_diff :: "(int \<times> int \<times> int \<times> int) list \<Rightarrow> diff_ranges \<Rightarrow> diff_ranges outcome" where
  "collect_diff [] d = Value d"
| "collect_diff (h # hs) d = and_then (collect_diff_cb h d) (collect_diff hs)"

definition ranges_overlap :: "rng \<Rightarrow> rng \<Rightarrow> bool" where
  "ranges_overlap a b \<longleftrightarrow> \<not> (r_end a \<le> r_start b \<or> r_end b \<le> r_start a)"

text \<open>
  The ranges of \<open>rs\<close> from the first on that ends at or behind \<open>s\<close>; \<open>None\<close> where there is none and
  the caller returns. Without any range the first is read nevertheless.
\<close>

fun touch_skip :: "rng list \<Rightarrow> int \<Rightarrow> rng list option outcome" where
  "touch_skip [] s = Fault"
| "touch_skip (r # rs) s =
     (if s > r_end r then (if rs = [] then Value None else touch_skip rs s) else Value (Some (r # rs)))"

text \<open>\<open>ps\<close> and \<open>ts\<close> are the two sides of the hunks from \<open>i\<close> on, \<open>rs\<close> the ranges from \<open>j\<close> on.\<close>

fun touched_loop :: "rng list \<Rightarrow> rng list \<Rightarrow> rng list \<Rightarrow> diff_ranges \<Rightarrow> diff_ranges outcome" where
  "touched_loop ps [] rs out = Value out"
| "touched_loop ps (t # ts) rs out =
     and_then (touch_skip rs (r_start t)) (\<lambda>k.
     case k of
       None \<Rightarrow> Value out
     | Some rs \<Rightarrow>
         and_then
           (if ranges_overlap t (hd rs) then
              case ps of
                [] \<Rightarrow> Fault
              | p # _ \<Rightarrow>
                  and_then (range_set_append (dr_parent out) (r_start p) (r_end p)) (\<lambda>po.
                  and_then (range_set_append (dr_target out) (r_start t) (r_end t)) (\<lambda>to.
                  Value \<lparr>dr_parent = po, dr_target = to\<rparr>))
            else Value out) (touched_loop (tl ps) ts rs))"

definition diff_ranges_filter_touched :: "diff_ranges \<Rightarrow> diff_ranges \<Rightarrow> range_set \<Rightarrow> diff_ranges outcome" where
  "diff_ranges_filter_touched out diff rs =
     (if dr_target out \<noteq> [] then Failure else touched_loop (dr_parent diff) (dr_target diff) rs out)"

subsection \<open>Mapping ranges to the parent\<close>

fun shift_skip :: "rng list \<Rightarrow> rng list \<Rightarrow> int \<Rightarrow> int \<Rightarrow> (rng list \<times> rng list \<times> int) outcome" where
  "shift_skip ps [] off s = Value (ps, [], off)"
| "shift_skip ps (t # ts) off s =
     (if s \<ge> r_start t then
        case ps of
          [] \<Rightarrow> Fault
        | p # ps \<Rightarrow> shift_skip ps ts (off + ((r_end p - r_start p) - (r_end t - r_start t))) s
      else Value (ps, t # ts, off))"

fun shift_loop :: "rng list \<Rightarrow> rng list \<Rightarrow> rng list \<Rightarrow> int \<Rightarrow> range_set \<Rightarrow> range_set outcome" where
  "shift_loop [] ps ts off out = Value out"
| "shift_loop (r # src) ps ts off out =
     and_then (shift_skip ps ts off (r_start r)) (\<lambda>(ps, ts, off).
     and_then (range_set_append out (r_start r + off) (r_end r + off)) (shift_loop src ps ts off))"

definition range_set_shift_diff :: "range_set \<Rightarrow> range_set \<Rightarrow> diff_ranges \<Rightarrow> range_set outcome" where
  "range_set_shift_diff out rs diff = shift_loop rs (dr_parent diff) (dr_target diff) 0 out"

text \<open>The new ranges and the hunks touched; \<open>None\<close> if the difference never ends.\<close>

definition range_set_map_across_diff ::
    "range_set \<Rightarrow> range_set \<Rightarrow> diff_ranges \<Rightarrow> (range_set \<times> diff_ranges) outcome option" where
  "range_set_map_across_diff out rs diff =
     (case diff_ranges_filter_touched diff_ranges_init diff rs of
        Value touched \<Rightarrow>
          (case range_set_difference [] rs (dr_target touched) of
             None \<Rightarrow> None
           | Some m \<Rightarrow>
               Some (and_then m (\<lambda>tmp1.
                     and_then (range_set_shift_diff [] tmp1 diff) (\<lambda>tmp2.
                     and_then (range_set_union out tmp2 (dr_parent touched)) (\<lambda>out. Value (out, touched))))))
      | Failure \<Rightarrow> Some Failure
      | Fault \<Rightarrow> Some Fault)"

subsection \<open>Files and their ranges\<close>

text \<open>A list of files; \<open>'p\<close> is the pair of files that the diff machinery compares.\<close>

record 'p line_log_data =
  ll_path :: "byte list"
  ll_ranges :: range_set
  ll_pair :: "'p option"
  ll_diff :: diff_ranges

definition line_log_data_init :: "'p line_log_data" where
  "line_log_data_init = \<lparr>ll_path = [], ll_ranges = range_set_init, ll_pair = None, ll_diff = diff_ranges_init\<rparr>"

text \<open>The index of the file and that of the insertion point.\<close>

fun search_from :: "'p line_log_data list \<Rightarrow> byte list \<Rightarrow> nat \<Rightarrow> nat option \<Rightarrow> nat option \<times> nat option" where
  "search_from [] path i ip = (None, ip)"
| "search_from (p # ps) path i ip =
     (if strcmp (ll_path p) path = 0 then (Some i, ip)
      else search_from ps path (i + 1) (if strcmp (ll_path p) path < 0 then Some i else ip))"

definition search_line_log_data :: "'p line_log_data list \<Rightarrow> byte list \<Rightarrow> nat option \<times> nat option" where
  "search_line_log_data list path = search_from list path 0 None"

definition line_log_data_insert :: "'p line_log_data list \<Rightarrow> byte list \<Rightarrow> int \<Rightarrow> int \<Rightarrow> 'p line_log_data list outcome" where
  "line_log_data_insert list path b e =
     (case search_line_log_data list path of
        (Some i, _) \<Rightarrow>
          and_then (range_set_append_unsafe (ll_ranges (list ! i)) b e) (\<lambda>rs.
          Value (list[i := (list ! i)\<lparr>ll_ranges := rs\<rparr>]))
      | (None, ip) \<Rightarrow>
          and_then (range_set_append [] b e) (\<lambda>rs.
          let p = line_log_data_init\<lparr>ll_path := path, ll_ranges := rs\<rparr>
          in case ip of
               Some i \<Rightarrow> Value (take (i + 1) list @ p # drop (i + 1) list)
             | None \<Rightarrow> Value (p # list)))"

definition line_log_data_copy_one :: "'p line_log_data \<Rightarrow> 'p line_log_data" where
  "line_log_data_copy_one r = line_log_data_init\<lparr>ll_ranges := range_set_copy (ll_ranges r), ll_path := ll_path r\<rparr>"

definition line_log_data_copy :: "'p line_log_data list \<Rightarrow> 'p line_log_data list outcome" where
  "line_log_data_copy r = (if r = [] then Failure else Value (List.map line_log_data_copy_one r))"

definition merge_node :: "'p line_log_data \<Rightarrow> 'p line_log_data option \<Rightarrow> 'p line_log_data outcome" where
  "merge_node src src2 =
     (let d = line_log_data_init\<lparr>ll_path := ll_path src\<rparr>
      in case src2 of
           Some src2 \<Rightarrow>
             and_then (range_set_union (ll_ranges d) (ll_ranges src) (ll_ranges src2)) (\<lambda>rs. Value (d\<lparr>ll_ranges := rs\<rparr>))
         | None \<Rightarrow> Value (d\<lparr>ll_ranges := range_set_copy (ll_ranges src)\<rparr>))"

fun line_log_data_merge ::
    "'p line_log_data list \<Rightarrow> 'p line_log_data list \<Rightarrow> 'p line_log_data list outcome" where
  "line_log_data_merge [] [] = Value []"
| "line_log_data_merge [] (y # b) =
     and_then (merge_node y None) (\<lambda>d. and_then (line_log_data_merge [] b) (\<lambda>ds. Value (d # ds)))"
| "line_log_data_merge (x # a) [] =
     and_then (merge_node x None) (\<lambda>d. and_then (line_log_data_merge a []) (\<lambda>ds. Value (d # ds)))"
| "line_log_data_merge (x # a) (y # b) =
     (if strcmp (ll_path x) (ll_path y) < 0 then
        and_then (merge_node x None) (\<lambda>d. and_then (line_log_data_merge a (y # b)) (\<lambda>ds. Value (d # ds)))
      else if strcmp (ll_path x) (ll_path y) = 0 then
        and_then (merge_node x (Some y)) (\<lambda>d. and_then (line_log_data_merge a b) (\<lambda>ds. Value (d # ds)))
      else
        and_then (merge_node y None) (\<lambda>d. and_then (line_log_data_merge (x # a) b) (\<lambda>ds. Value (d # ds))))"

subsection \<open>The files of a commit\<close>

text \<open>
  A pair of files: their paths and the hunks between them, \<open>None\<close> where the diff cannot be made.
\<close>

record filepair =
  fp_one :: "byte list"
  fp_two :: "byte list"
  fp_hunks :: "(int \<times> int \<times> int \<times> int) list option"

fun find_path :: "'p line_log_data list \<Rightarrow> byte list \<Rightarrow> nat \<Rightarrow> nat option" where
  "find_path [] path i = None"
| "find_path (r # rs) path i = (if strcmp (ll_path r) path = 0 then Some i else find_path rs path (i + 1))"

text \<open>Whether the file changed, the list, and the hunks touched if there was something to compare.\<close>

definition process_diff_filepair ::
    "filepair \<Rightarrow> 'p line_log_data list \<Rightarrow> (bool \<times> 'p line_log_data list \<times> diff_ranges option) outcome option" where
  "process_diff_filepair pair list =
     (case find_path list (fp_two pair) 0 of
        None \<Rightarrow> Some (Value (False, list, None))
      | Some i \<Rightarrow>
          if ll_ranges (list ! i) = [] then Some (Value (False, list, None))
          else case fp_hunks pair of
            None \<Rightarrow> Some Failure
          | Some hs \<Rightarrow>
              (case collect_diff hs diff_ranges_init of
                 Value diff \<Rightarrow>
                   (case range_set_map_across_diff range_set_init (ll_ranges (list ! i)) diff of
                      None \<Rightarrow> None
                    | Some m \<Rightarrow>
                        Some (and_then m (\<lambda>(tmp, touched).
                        Value (dr_parent touched \<noteq> [],
                               list[i := (list ! i)\<lparr>ll_path := fp_one pair, ll_ranges := fst (range_set_move [] tmp)\<rparr>],
                               Some touched))))
               | Failure \<Rightarrow> Some Failure
               | Fault \<Rightarrow> Some Fault))"

fun process_files_loop ::
    "filepair list \<Rightarrow> filepair line_log_data list \<Rightarrow> filepair line_log_data list \<Rightarrow> nat \<Rightarrow>
     (nat \<times> filepair line_log_data list \<times> filepair line_log_data list) outcome option" where
  "process_files_loop [] rout ranges changed = Some (Value (changed, rout, ranges))"
| "process_files_loop (pair # queue) rout ranges changed =
     (case process_diff_filepair pair rout of
        None \<Rightarrow> None
      | Some (Value (c, rout, pairdiff)) \<Rightarrow>
          if c then
            (case find_path ranges (fp_two pair) 0 of
               None \<Rightarrow> Some Failure
             | Some i \<Rightarrow>
                 process_files_loop queue rout
                   (ranges[i := (ranges ! i)\<lparr>ll_pair := Some pair, ll_diff := the pairdiff\<rparr>]) (changed + 1))
          else process_files_loop queue rout ranges changed
      | Some Failure \<Rightarrow> Some Failure
      | Some Fault \<Rightarrow> Some Fault)"

text \<open>The number of files changed, the ranges in the parent, and those of the commit with the diffs.\<close>

definition process_all_files ::
    "filepair list \<Rightarrow> filepair line_log_data list \<Rightarrow>
     (nat \<times> filepair line_log_data list \<times> filepair line_log_data list) outcome option" where
  "process_all_files queue ranges =
     (case line_log_data_copy ranges of
        Value rout \<Rightarrow> process_files_loop queue rout ranges 0
      | Failure \<Rightarrow> Some Failure
      | Fault \<Rightarrow> Some Fault)"

subsection \<open>The hunks touched\<close>

definition touching :: "rng list \<Rightarrow> rng \<times> rng \<Rightarrow> bool" where
  "touching rs h \<longleftrightarrow> (\<exists>r\<in>set rs. ranges_overlap (snd h) r)"

text \<open>No hunk begins where a range ends and reaches the next range.\<close>

definition no_straddle :: "rng list \<Rightarrow> rng list \<Rightarrow> bool" where
  "no_straddle ts rs \<longleftrightarrow> (\<forall>t\<in>set ts. (\<exists>r\<in>set rs. r_end r = r_start t) \<longrightarrow> (\<forall>r\<in>set rs. \<not> ranges_overlap t r))"

lemma touch_skip_ok:
  "canonical rs \<Longrightarrow> rs \<noteq> [] \<Longrightarrow>
    case touch_skip rs s of
      Value None \<Rightarrow> \<forall>r\<in>set rs. r_end r < s
    | Value (Some rs') \<Rightarrow> \<exists>pre. rs = pre @ rs' \<and> (\<forall>r\<in>set pre. r_end r < s) \<and> rs' \<noteq> [] \<and> s \<le> r_end (hd rs')
    | _ \<Rightarrow> False"
proof (induction rs)
  case (Cons r rs)
  show ?case
  proof (cases "s > r_end r \<and> rs \<noteq> []")
    case True
    then show ?thesis
      using Cons by (auto split: outcome.splits option.splits intro: exI [of _ "r # _"])
  qed auto
qed simp

lemma overlap_first:
  assumes "canonical rs" "rs \<noteq> []" "r_start t \<le> r_end (hd rs)" "r_start t \<noteq> r_end (hd rs)" "r_start t \<le> r_end t"
  shows "(\<exists>r\<in>set rs. ranges_overlap t r) \<longleftrightarrow> ranges_overlap t (hd rs)"
  using assms by (cases rs) (fastforce simp: ranges_overlap_def)+

lemma append_next:
  assumes "appended (out @ r # rs)"
  shows "range_set_append out (r_start r) (r_end r) = Value (out @ [rng (r_start r) (r_end r)])"
    "appended ((out @ [rng (r_start r) (r_end r)]) @ rs)"
  using assms append_text [of out "r_start r" "r_end r"] by auto

lemma rng_eta [simp]: "rng (r_start r) (r_end r) = r"
  by (simp add: rng_def)

lemma touched_loop_ok:
  "length ps = length ts \<Longrightarrow> canonical rs \<Longrightarrow> rs \<noteq> [] \<Longrightarrow> no_straddle ts rs \<Longrightarrow>
    appended (dr_parent out @ ps) \<Longrightarrow> appended (dr_target out @ ts) \<Longrightarrow>
    touched_loop ps ts rs out = Value \<lparr>
      dr_parent = dr_parent out @ List.map fst (filter (touching rs) (zip ps ts)),
      dr_target = dr_target out @ List.map snd (filter (touching rs) (zip ps ts))\<rparr>"
proof (induction ts arbitrary: ps rs out)
  case (Cons t ts)
  obtain p ps' where ps: "ps = p # ps'"
    using Cons.prems(1) by (cases ps) auto
  have later: "r_start t \<le> r_start u" if "u \<in> set ts" for u
    using Cons.prems(6) that by (auto intro: order_trans)
  show ?case
  proof (cases "touch_skip rs (r_start t)")
    case (Value k)
    show ?thesis
    proof (cases k)
      case None
      then have "\<forall>r\<in>set rs. r_end r < r_start t"
        using touch_skip_ok [OF Cons.prems(2,3), of "r_start t"] Value by simp
      then have "\<not> touching rs (q, u)" if "u \<in> set (t # ts)" for q u
        using that later by (fastforce simp: touching_def ranges_overlap_def)
      then have "filter (touching rs) (zip ps (t # ts)) = []"
        by (auto simp: filter_empty_conv dest: set_zip_rightD)
      then show ?thesis
        using Value None by (cases out) simp
    next
      case (Some rs')
      then obtain pre where pre: "rs = pre @ rs'" "\<forall>r\<in>set pre. r_end r < r_start t" "rs' \<noteq> []" "r_start t \<le> r_end (hd rs')"
        using touch_skip_ok [OF Cons.prems(2,3), of "r_start t"] Value by auto
      have same: "touching rs (q, u) = touching rs' (q, u)" if "u \<in> set (t # ts)" for q u
        using that later pre(1,2) by (fastforce simp: touching_def ranges_overlap_def)
      have c: "canonical rs'" "no_straddle ts rs'"
        using Cons.prems(2,4) pre(1) by (auto simp: no_straddle_def)
      have hit: "touching rs (p, t) \<longleftrightarrow> ranges_overlap t (hd rs')"
      proof (cases "r_start t = r_end (hd rs')")
        case True
        then have "\<forall>r\<in>set rs. \<not> ranges_overlap t r"
          using Cons.prems(4) pre(1,3) unfolding no_straddle_def by (metis Un_iff hd_in_set list.set_intros(1) set_append)
        then show ?thesis
          using pre(1,3) by (auto simp: touching_def)
      next
        case False
        then show ?thesis
          using same [of t p] overlap_first [OF c(1) pre(3,4)] Cons.prems(6) by (simp add: touching_def)
      qed
      have rest: "filter (touching rs) (zip ps' ts) = filter (touching rs') (zip ps' ts)"
        using same by (intro filter_cong refl) (auto dest: set_zip_rightD)
      have len: "length ps' = length ts"
        using Cons.prems(1) ps by simp
      note IH = Cons.IH [OF len c(1) pre(3) c(2)]
      show ?thesis
      proof (cases "touching rs (p, t)")
        case True
        let ?out = "\<lparr>dr_parent = dr_parent out @ [p], dr_target = dr_target out @ [t]\<rparr>"
        have "range_set_append (dr_parent out) (r_start p) (r_end p) = Value (dr_parent out @ [p])"
            "appended (dr_parent ?out @ ps')" "range_set_append (dr_target out) (r_start t) (r_end t) = Value (dr_target out @ [t])"
            "appended (dr_target ?out @ ts)"
          using append_next [of "dr_parent out" p ps'] append_next [of "dr_target out" t ts] Cons.prems(5,6) ps by simp_all
        then show ?thesis
          using Value Some True hit IH [of ?out] rest ps by simp
      next
        case False
        have "appended (dr_parent out @ ps')" "appended (dr_target out @ ts)"
          using Cons.prems(5,6) ps by auto
        then show ?thesis
          using Value Some False hit IH [of out] rest ps by simp
      qed
    qed
  qed (use touch_skip_ok [OF Cons.prems(2,3), of "r_start t"] in simp_all)
qed simp

subsection \<open>Lines in the parent\<close>

definition growth :: "rng \<times> rng \<Rightarrow> int" where
  "growth h = (r_end (fst h) - r_start (fst h)) - (r_end (snd h) - r_start (snd h))"

definition offset_at :: "(rng \<times> rng) list \<Rightarrow> int \<Rightarrow> int" where
  "offset_at hs l = sum_list (List.map growth (filter (\<lambda>h. r_start (snd h) \<le> l) hs))"

text \<open>Where the parent has a line that no hunk covers.\<close>

definition parent_line :: "diff_ranges \<Rightarrow> int \<Rightarrow> int" where
  "parent_line diff l = l + offset_at (zip (dr_parent diff) (dr_target diff)) l"

lemma offset_at_simps [simp]: "offset_at [] l = 0"
    "offset_at (h # hs) l = (if r_start (snd h) \<le> l then growth h + offset_at hs l else offset_at hs l)"
  by (simp_all add: offset_at_def)

lemma offset_at_none: "\<forall>h\<in>set hs. l < r_start (snd h) \<Longrightarrow> offset_at hs l = 0"
  by (induction hs) auto

lemma offset_at_cong:
  "\<forall>h\<in>set hs. r_start (snd h) \<le> l \<longleftrightarrow> r_start (snd h) \<le> k \<Longrightarrow> offset_at hs l = offset_at hs k"
  by (induction hs) auto

lemma shift_skip_ok:
  "length ps = length ts \<Longrightarrow> appended ts \<Longrightarrow>
    \<exists>ps' ts' off'. shift_skip ps ts off s = Value (ps', ts', off') \<and> length ps' = length ts' \<and> appended ts' \<and>
      off' = off + offset_at (zip ps ts) s \<and>
      (\<forall>l\<ge>s. off' + offset_at (zip ps' ts') l = off + offset_at (zip ps ts) l)"
proof (induction ts arbitrary: ps off)
  case (Cons t ts)
  obtain p ps' where ps: "ps = p # ps'"
    using Cons.prems(1) by (cases ps) auto
  show ?case
  proof (cases "r_start t \<le> s")
    case True
    then show ?thesis
      using Cons.IH [of ps' "off + growth (p, t)"] Cons.prems ps by (fastforce simp: growth_def)
  next
    case False
    then have "offset_at (zip ps (t # ts)) s = 0"
      using Cons.prems(2) by (intro offset_at_none) (fastforce dest: set_zip_rightD)
    then show ?thesis
      using False Cons.prems by auto
  qed
qed simp

definition shifted :: "(int \<Rightarrow> int) \<Rightarrow> rng \<Rightarrow> rng" where
  "shifted f r = rng (r_start r + f (r_start r)) (r_end r + f (r_start r))"

lemma shift_loop_ok:
  "length ps = length ts \<Longrightarrow> appended ts \<Longrightarrow> appended src \<Longrightarrow>
    appended (out @ List.map (shifted (\<lambda>l. off + offset_at (zip ps ts) l)) src) \<Longrightarrow>
    shift_loop src ps ts off out = Value (out @ List.map (shifted (\<lambda>l. off + offset_at (zip ps ts) l)) src)"
proof (induction src arbitrary: ps ts off out)
  case (Cons r src)
  obtain ps' ts' off' where k: "shift_skip ps ts off (r_start r) = Value (ps', ts', off')" "length ps' = length ts'"
      "appended ts'" "off' = off + offset_at (zip ps ts) (r_start r)"
      "\<forall>l\<ge>r_start r. off' + offset_at (zip ps' ts') l = off + offset_at (zip ps ts) l"
    using shift_skip_ok [OF Cons.prems(1,2), of off "r_start r"] by auto
  let ?o = "out @ [rng (r_start r + off') (r_end r + off')]"
  have "r_start r \<le> r_start s" if "s \<in> set src" for s
    using Cons.prems(3) that by (auto intro: order_trans)
  then have m: "List.map (shifted (\<lambda>l. off' + offset_at (zip ps' ts') l)) src =
      List.map (shifted (\<lambda>l. off + offset_at (zip ps ts) l)) src"
    using k(5) by (simp add: shifted_def)
  have a: "appended (out @ rng (r_start r + off') (r_end r + off') # List.map (shifted (\<lambda>l. off + offset_at (zip ps ts) l)) src)"
    using Cons.prems(4) k(4) by (simp add: shifted_def [of _ r])
  then have "shift_loop src ps' ts' off' ?o = Value (?o @ List.map (shifted (\<lambda>l. off + offset_at (zip ps ts) l)) src)"
    using Cons.IH [OF k(2,3), of ?o off'] Cons.prems(3) append_next(2) [OF a] unfolding m by simp
  then show ?case
    using append_next(1) [OF a] k(1,4) by (simp add: shifted_def)
qed simp

lemma sizes_between:
  "appended ts \<Longrightarrow> \<forall>t\<in>set ts. a \<le> r_start t \<and> r_end t \<le> b \<Longrightarrow> a \<le> b \<Longrightarrow>
    sum_list (List.map (\<lambda>t. r_end t - r_start t) ts) \<le> b - a"
proof (induction ts arbitrary: a)
  case (Cons t ts)
  then show ?case
    using Cons.IH [of "r_end t"] by force
qed simp

text \<open>The lines outside the hunks are in the same order in the parent.\<close>

lemma parent_line_mono:
  assumes "length (dr_parent diff) = length (dr_target diff)" "appended (dr_target diff)" "\<forall>p\<in>set (dr_parent diff). r_start p \<le> r_end p"
    "l < l'" "l' \<notin> lines (dr_target diff)"
  shows "parent_line diff l < parent_line diff l'"
proof -
  let ?hs = "zip (dr_parent diff) (dr_target diff)"
  define between where "between = filter (\<lambda>h. l < r_start (snd h) \<and> r_start (snd h) \<le> l') ?hs"
  have "offset_at hs l' = offset_at hs l + sum_list (List.map growth (filter (\<lambda>h. l < r_start (snd h) \<and> r_start (snd h) \<le> l') hs))" for hs
    using assms(4) by (induction hs) auto
  then have diff: "offset_at ?hs l' = offset_at ?hs l + sum_list (List.map growth between)"
    by (simp add: between_def)
  have g: "- (r_end (snd h) - r_start (snd h)) \<le> growth h" if "h \<in> set between" for h
  proof -
    have "fst h \<in> set (dr_parent diff)"
      using that by (auto simp: between_def) (metis prod.collapse set_zip_leftD)
    then show ?thesis
      using assms(3) by (simp add: growth_def)
  qed
  have "List.map snd between = filter (\<lambda>t. l < r_start t \<and> r_start t \<le> l') (dr_target diff)"
    using map_snd_zip [of "dr_parent diff" "dr_target diff"] assms(1) unfolding between_def
    by (metis (mono_tags, lifting) filter_cong filter_map comp_def)
  moreover have "appended (filter P ts)" if "appended ts" for P ts
    using that by (induction ts) auto
  ultimately have "appended (List.map snd between)" "\<forall>t\<in>set (List.map snd between). l + 1 \<le> r_start t \<and> r_end t \<le> l'"
    using assms(2,5) by (auto simp: lines_def not_less)
  then have "sum_list (List.map (\<lambda>t. r_end t - r_start t) (List.map snd between)) \<le> l' - (l + 1)"
    using assms(4) by (intro sizes_between) auto
  moreover have "sum_list (List.map (\<lambda>h. - (r_end (snd h) - r_start (snd h))) between) \<le> sum_list (List.map growth between)"
    using g by (intro sum_list_mono) auto
  moreover have "sum_list (List.map (\<lambda>h. - (r_end (snd h) - r_start (snd h))) between) =
      - sum_list (List.map (\<lambda>t. r_end t - r_start t) (List.map snd between))"
    by (induction between) auto
  ultimately show ?thesis
    using diff by (simp add: parent_line_def)
qed

definition hunks_ok :: "diff_ranges \<Rightarrow> bool" where
  "hunks_ok diff \<longleftrightarrow> length (dr_parent diff) = length (dr_target diff) \<and>
     appended (dr_parent diff) \<and> appended (dr_target diff)"

lemma shift_ok:
  assumes "hunks_ok diff" "appended src" "\<forall>r\<in>set src. r_start r < r_end r"
    "lines src \<inter> lines (dr_target diff) = {}" "\<forall>r\<in>set src. uncut (dr_target diff) r"
  shows "\<exists>out. range_set_shift_diff [] src diff = Value out \<and> appended out \<and> lines out = parent_line diff ` lines src"
proof -
  let ?hs = "zip (dr_parent diff) (dr_target diff)"
  let ?f = "shifted (\<lambda>l. 0 + offset_at ?hs l)"
  have hs: "length (dr_parent diff) = length (dr_target diff)" "appended (dr_target diff)"
      "\<forall>p\<in>set (dr_parent diff). r_start p \<le> r_end p"
    using assms(1) by (auto simp: hunks_ok_def appended_def)
  have same: "offset_at ?hs l = offset_at ?hs (r_start r)" if "r \<in> set src" "r_start r \<le> l" "l < r_end r" for r l
    using that assms(5) by (intro offset_at_cong) (fastforce simp: uncut_def dest: set_zip_rightD)
  have "r_end (?f r) \<le> r_start (?f u)" if "r \<in> set src" "u \<in> set src" "r_end r \<le> r_start u" for r u
  proof -
    have "r_start u \<in> lines src"
      using assms(3) that(2) by (fastforce simp: lines_def)
    then have "r_start u \<notin> lines (dr_target diff)"
      using assms(4) by auto
    then have "parent_line diff (r_end r - 1) < parent_line diff (r_start u)"
      using that by (intro parent_line_mono [OF hs]) auto
    then show ?thesis
      using same [OF that(1), of "r_end r - 1"] assms(3) that(1) by (simp add: parent_line_def shifted_def)
  qed
  moreover have "appended (List.map ?f rs)"
    if "appended rs" "\<forall>r\<in>set rs. \<forall>u\<in>set rs. r_end r \<le> r_start u \<longrightarrow> r_end (?f r) \<le> r_start (?f u)" for rs
    using that by (induction rs) (auto simp: shifted_def)
  ultimately have a: "appended (List.map ?f src)"
    using assms(2) by blast
  have image: "{r_start (?f r)..<r_end (?f r)} = parent_line diff ` {r_start r..<r_end r}" if r: "r \<in> set src" for r
  proof -
    have "parent_line diff ` {r_start r..<r_end r} = (\<lambda>l. l + offset_at ?hs (r_start r)) ` {r_start r..<r_end r}"
    proof (rule image_cong [OF refl])
      fix l assume "l \<in> {r_start r..<r_end r}"
      then show "parent_line diff l = l + offset_at ?hs (r_start r)"
        using same [OF r, of l] by (simp add: parent_line_def)
    qed
    then show ?thesis
      by (simp add: shifted_def)
  qed
  have "lines (List.map ?f src) = (\<Union>r\<in>set src. {r_start (?f r)..<r_end (?f r)})"
    by (simp only: lines_def set_map UN_simps)
  also have "\<dots> = (\<Union>r\<in>set src. parent_line diff ` {r_start r..<r_end r})"
    by (intro SUP_cong refl image)
  also have "\<dots> = parent_line diff ` lines src"
    by (simp only: lines_def image_UN)
  finally show ?thesis
    using shift_loop_ok [OF hs(1,2) assms(2), of "[]" 0] a by (simp add: range_set_shift_diff_def)
qed

lemma appended_filter_zip:
  "appended ps \<Longrightarrow> appended (List.map fst (filter P (zip ps ts)))"
  "appended ts \<Longrightarrow> appended (List.map snd (filter P (zip ps ts)))"
  by (induction ps ts rule: list_induct2') (auto dest: set_zip_leftD set_zip_rightD)

text \<open>A hunk that begins inside a range of a part of a canonical set overlaps the set.\<close>

lemma inside_touches:
  assumes "canonical rs" "{r_start r..<r_end r} \<subseteq> lines rs" "r_start r < r_start t" "r_start t < r_end r" "r_start t \<le> r_end t"
  shows "\<exists>u\<in>set rs. ranges_overlap t u"
proof -
  have "r_start t \<in> lines rs"
    using assms(2-4) by auto
  then obtain u where u: "u \<in> set rs" "r_start u \<le> r_start t" "r_start t < r_end u"
    by (auto simp: lines_def)
  have "r_start t - 1 \<in> lines rs"
    using assms(2-4) by auto
  then obtain v where v: "v \<in> set rs" "r_start v < r_start t" "r_start t \<le> r_end v"
    by (auto simp: lines_def)
  have gap: "a = b \<or> r_end a < r_start b \<or> r_end b < r_start a" if "a \<in> set rs" "b \<in> set rs" for a b
    using assms(1) that by (induction rs) auto
  have "v = u"
    using gap [OF u(1) v(1)] u v assms(1) by (fastforce simp: canonical_def)
  then have "ranges_overlap t u"
    using u v assms(5) unfolding ranges_overlap_def by auto
  then show ?thesis
    using u(1) by blast
qed

text \<open>
  (C36) For ranges in canonical form and the hunks of a diff, where no hunk begins at the end of one range and reaches
  the next, the ranges in the parent are in canonical form again and hold the place that
  the parent has for each line outside the hunks, and the parent's side of the hunks that overlap a range. Exactly
  these hunks are returned. The computation ends, and no assertion fails.
\<close>
theorem map_across_diff_lines:
  assumes "range_set_check_invariants rs" "rs \<noteq> []" "hunks_ok diff" "no_straddle (dr_target diff) rs"
    "hs = filter (touching rs) (zip (dr_parent diff) (dr_target diff))"
  shows "\<exists>out. range_set_map_across_diff [] rs diff =
      Some (Value (out, \<lparr>dr_parent = List.map fst hs, dr_target = List.map snd hs\<rparr>)) \<and>
    range_set_check_invariants out \<and>
    lines out = parent_line diff ` (lines rs - lines (dr_target diff)) \<union> lines (List.map fst hs)"
proof -
  let ?p = "List.map fst hs" and ?t = "List.map snd hs" and ?ts = "dr_target diff"
  have c: "canonical rs" and d: "length (dr_parent diff) = length ?ts" "appended (dr_parent diff)" "appended ?ts"
    using assms(1,3) by (simp_all add: check_invariants_canonical hunks_ok_def)
  have touched: "diff_ranges_filter_touched diff_ranges_init diff rs = Value \<lparr>dr_parent = ?p, dr_target = ?t\<rparr>"
    using touched_loop_ok [OF d(1) c assms(2,4), of diff_ranges_init] d(2,3)
    by (simp add: diff_ranges_filter_touched_def diff_ranges_init_def assms(5))
  have app: "appended ?p" "appended ?t"
    using appended_filter_zip d(2,3) by (auto simp: assms(5))
  have t: "set ?t = {u \<in> set ?ts. \<exists>r\<in>set rs. ranges_overlap u r}"
  proof -
    have "set ?ts = snd ` set (zip (dr_parent diff) ?ts)"
      using map_snd_zip [OF d(1)] by (metis set_map)
    then show ?thesis
      by (auto simp: assms(5) touching_def)
  qed
  have "\<not> (\<exists>r\<in>set rs. \<exists>u\<in>set ?t. r_start r < r_end r \<and> r_end r = r_start u \<and> r_end r - 1 \<notin> lines ?t)"
    using assms(4) unfolding t no_straddle_def by fastforce
  then obtain tmp1 where tmp1: "range_set_difference [] rs ?t = Some (Value tmp1)" "appended tmp1"
      "\<forall>r\<in>set tmp1. r_start r < r_end r" "lines tmp1 = lines rs - lines ?t"
      "\<forall>r\<in>set tmp1. \<forall>u\<in>set ?t. \<not> (r_start r < r_start u \<and> r_start u < r_end r)"
    using range_set_difference_decides [OF canonical_appended [OF c] app(2)] by (simp only: if_False) blast
  have l: "lines tmp1 = lines rs - lines ?ts"
  proof -
    have "lines rs \<inter> lines ?ts \<subseteq> lines ?t"
    proof
      fix x assume "x \<in> lines rs \<inter> lines ?ts"
      then obtain r u where "r \<in> set rs" "u \<in> set ?ts" "r_start r \<le> x" "x < r_end r" "r_start u \<le> x" "x < r_end u"
        by (auto simp: lines_def)
      then have "u \<in> set ?t" "x \<in> {r_start u..<r_end u}"
        unfolding t by (auto simp: ranges_overlap_def intro: bexI [of _ r])
      then show "x \<in> lines ?t"
        unfolding lines_def by blast
    qed
    moreover have "lines ?t \<subseteq> lines ?ts"
      unfolding lines_def using t by blast
    ultimately show ?thesis
      using tmp1(4) by auto
  qed
  have "uncut ?ts r" if r: "r \<in> set tmp1" for r
    unfolding uncut_def
  proof (intro ballI notI)
    fix u assume u: "u \<in> set ?ts" "r_start r < r_start u \<and> r_start u < r_end r"
    have "{r_start r..<r_end r} \<subseteq> lines tmp1"
      using r by (auto simp: lines_def)
    then have "{r_start r..<r_end r} \<subseteq> lines rs"
      using l by blast
    then have "u \<in> set ?t"
      using inside_touches [OF c, of r u] u d(3) unfolding t by (auto simp: appended_def)
    then show False
      using tmp1(5) r u(2) by blast
  qed
  then obtain tmp2 where tmp2: "range_set_shift_diff [] tmp1 diff = Value tmp2" "appended tmp2"
      "lines tmp2 = parent_line diff ` lines tmp1"
    using shift_ok [OF assms(3) tmp1(2,3)] l by auto
  obtain out where "range_set_union [] tmp2 ?p = Value out" "canonical out" "lines out = lines tmp2 \<union> lines ?p"
    using range_set_union_ok [OF appended_by_start [OF tmp2(2)] appended_by_start [OF app(1)]] by blast
  then show ?thesis
    using touched tmp1(1) tmp2 l by (simp add: range_set_map_across_diff_def check_invariants_canonical)
qed

theorem map_across_diff_lines_witness:
  "\<exists>out. range_set_map_across_diff [] [rng 2 6, rng 9 12] \<lparr>dr_parent = [rng 3 3, rng 5 7], dr_target = [rng 3 5, rng 7 8]\<rparr> =
      Some (Value (out, \<lparr>dr_parent = [rng 3 3], dr_target = [rng 3 5]\<rparr>)) \<and> range_set_check_invariants out"
  using map_across_diff_lines [of "[rng 2 6, rng 9 12]" "\<lparr>dr_parent = [rng 3 3, rng 5 7], dr_target = [rng 3 5, rng 7 8]\<rparr>", OF _ _ _ _ refl]
  by (auto simp: range_set_check_invariants_def hunks_ok_def no_straddle_def ranges_overlap_def touching_def)

text \<open>
  Without the condition on the hunks the assertion of \<open>range_set_append\<close> may fail: lines 1 to 5 and 7 to 10 of a
  file to which a commit added the lines 6 to 9.
\<close>
lemma map_across_diff_aborts:
  "range_set_map_across_diff [] [rng 0 5, rng 6 10] \<lparr>dr_parent = [rng 5 5], dr_target = [rng 5 9]\<rparr> = Some Failure"
proof -
  have "\<exists>out. range_set_difference [] [rng 0 5, rng 6 10] [] = Some (Value out) \<and> out = [rng 0 5, rng 6 10]"
    by (simp add: range_set_difference_def difference_while.simps range_set_append_def range_set_append_unsafe_def)
  then show ?thesis
    by (simp add: range_set_map_across_diff_def diff_ranges_filter_touched_def diff_ranges_init_def ranges_overlap_def
        range_set_shift_diff_def range_set_append_def range_set_append_unsafe_def)
qed

subsection \<open>Lists of files\<close>

definition by_path :: "'p line_log_data list \<Rightarrow> bool" where
  "by_path list \<longleftrightarrow> sorted_wrt (\<lambda>x y. ll_path x < ll_path y) list"

definition lines_of :: "'p line_log_data list \<Rightarrow> byte list \<Rightarrow> int set" where
  "lines_of list path = (\<Union>r\<in>{r \<in> set list. ll_path r = path}. lines (ll_ranges r))"

lemma by_path_simps [simp]: "by_path []"
    "by_path (r # rs) \<longleftrightarrow> (\<forall>s\<in>set rs. ll_path r < ll_path s) \<and> by_path rs"
  by (simp_all add: by_path_def)

lemma lines_of_simps [simp]: "lines_of [] path = {}"
    "lines_of (r # rs) path = (if ll_path r = path then lines (ll_ranges r) else {}) \<union> lines_of rs path"
    "lines_of (rs @ us) path = lines_of rs path \<union> lines_of us path"
  by (auto simp: lines_of_def)

lemma range_set_copy_id [simp]: "range_set_copy rs = rs"
  by (simp add: range_set_copy_def)

lemma merge_node_ok:
  assumes "canonical (ll_ranges x)" "\<forall>y\<in>set_option y'. canonical (ll_ranges y)"
  shows "\<exists>d. merge_node x y' = Value d \<and> ll_path d = ll_path x \<and> canonical (ll_ranges d) \<and>
    lines (ll_ranges d) = lines (ll_ranges x) \<union> (case y' of None \<Rightarrow> {} | Some y \<Rightarrow> lines (ll_ranges y))"
proof (cases y')
  case (Some y)
  then obtain rs where "range_set_union [] (ll_ranges x) (ll_ranges y) = Value rs" "canonical rs"
      "lines rs = lines (ll_ranges x) \<union> lines (ll_ranges y)"
    using range_set_union_ok [OF appended_by_start [OF canonical_appended [OF assms(1)]], of "ll_ranges y"] assms(2)
      appended_by_start canonical_appended by auto
  then show ?thesis
    using Some by (simp add: merge_node_def line_log_data_init_def range_set_init_def)
qed (use assms in \<open>simp add: merge_node_def line_log_data_init_def\<close>)

definition files_ok :: "'p line_log_data list \<Rightarrow> bool" where
  "files_ok list \<longleftrightarrow> by_path list \<and> (\<forall>r\<in>set list. canonical (ll_ranges r))"

lemma files_ok_simps [simp]: "files_ok []"
    "files_ok (r # rs) \<longleftrightarrow> (\<forall>s\<in>set rs. ll_path r < ll_path s) \<and> canonical (ll_ranges r) \<and> files_ok rs"
  by (auto simp: files_ok_def)

text \<open>A merged list: its files, and the lines of each.\<close>

definition merges :: "'p line_log_data list \<Rightarrow> 'p line_log_data list \<Rightarrow> 'p line_log_data list outcome \<Rightarrow> bool" where
  "merges a b m \<longleftrightarrow> (\<exists>ds. m = Value ds \<and> files_ok ds \<and> ll_path ` set ds = ll_path ` set a \<union> ll_path ` set b \<and>
     (\<forall>path. lines_of ds path = lines_of a path \<union> lines_of b path))"

lemma merges_Cons:
  assumes "merges a b m" "merge_node x y' = Value d" "ll_path d = ll_path x" "canonical (ll_ranges d)"
    "\<forall>s\<in>set a \<union> set b. ll_path x < ll_path s"
    "lines (ll_ranges d) = L"
  shows "\<exists>ds. and_then (merge_node x y') (\<lambda>d. and_then m (\<lambda>ds. Value (d # ds))) = Value ds \<and> files_ok ds \<and>
    ll_path ` set ds = insert (ll_path x) (ll_path ` set a \<union> ll_path ` set b) \<and>
    (\<forall>path. lines_of ds path = (if ll_path x = path then L else {}) \<union> lines_of a path \<union> lines_of b path)"
proof -
  obtain ds where ds: "m = Value ds" "files_ok ds" "ll_path ` set ds = ll_path ` set a \<union> ll_path ` set b"
      "\<forall>path. lines_of ds path = lines_of a path \<union> lines_of b path"
    using assms(1) by (auto simp: merges_def)
  have "ll_path d < ll_path s" if "s \<in> set ds" for s
  proof -
    have "ll_path s \<in> ll_path ` (set a \<union> set b)"
      using that ds(3) by (metis image_Un image_eqI)
    then show ?thesis
      using assms(3,5) by auto
  qed
  then have "files_ok (d # ds)"
    using ds(2) assms(4) by simp
  moreover have "and_then (merge_node x y') (\<lambda>d. and_then m (\<lambda>ds. Value (d # ds))) = Value (d # ds)"
    using assms(2) ds(1) by simp
  moreover have "\<forall>path. lines_of (d # ds) path =
      (if ll_path x = path then L else {}) \<union> lines_of a path \<union> lines_of b path"
    using ds(4) assms(3,6) by (simp add: Un_assoc)
  moreover have "ll_path ` set (d # ds) = insert (ll_path x) (ll_path ` set a \<union> ll_path ` set b)"
    using ds(3) assms(3) by simp
  ultimately show ?thesis
    by blast
qed

lemma lines_of_later: "\<forall>s\<in>set rs. path < ll_path s \<Longrightarrow> lines_of rs path = {}"
  by (auto simp: lines_of_def)

lemma merge_ok: "files_ok a \<Longrightarrow> files_ok b \<Longrightarrow> merges a b (line_log_data_merge a b)"
proof (induction a b rule: line_log_data_merge.induct)
  case (2 y b)
  obtain d where d: "merge_node y None = Value d" "ll_path d = ll_path y" "canonical (ll_ranges d)"
      "lines (ll_ranges d) = lines (ll_ranges y)"
    using merge_node_ok [of y None] "2.prems" by auto
  have "merges [] b (line_log_data_merge [] b)"
    using 2 by simp
  from merges_Cons [OF this d(1,2,3) _ d(4)] show ?case
    using "2.prems" by (simp add: merges_def split del: if_split)
next
  case (3 x a)
  obtain d where d: "merge_node x None = Value d" "ll_path d = ll_path x" "canonical (ll_ranges d)"
      "lines (ll_ranges d) = lines (ll_ranges x)"
    using merge_node_ok [of x None] "3.prems" by auto
  have "merges a [] (line_log_data_merge a [])"
    using 3 by simp
  from merges_Cons [OF this d(1,2,3) _ d(4)] show ?case
    using "3.prems" by (simp add: merges_def split del: if_split)
next
  case (4 x a y b)
  have ok: "files_ok a" "files_ok b" "canonical (ll_ranges x)" "canonical (ll_ranges y)"
      "\<forall>s\<in>set a. ll_path x < ll_path s" "\<forall>s\<in>set b. ll_path y < ll_path s"
    using "4.prems" by auto
  consider "ll_path x < ll_path y" | "ll_path x = ll_path y" | "ll_path y < ll_path x"
    by fastforce
  then show ?case
  proof cases
    case 1
    obtain d where d: "merge_node x None = Value d" "ll_path d = ll_path x" "canonical (ll_ranges d)"
        "lines (ll_ranges d) = lines (ll_ranges x)"
      using merge_node_ok [of x None] ok by auto
    have m: "merges a (y # b) (line_log_data_merge a (y # b))"
      using "4.IH"(1) 1 ok "4.prems"(2) by (simp add: strcmp_neg)
    have "\<forall>s\<in>set a \<union> set (y # b). ll_path x < ll_path s"
      using 1 ok by (auto intro: less_trans)
    from merges_Cons [OF m d(1,2,3) this d(4)] show ?thesis
      using 1 by (simp add: merges_def strcmp_neg Un_ac insert_commute split del: if_split)
  next
    case 2
    obtain d where d: "merge_node x (Some y) = Value d" "ll_path d = ll_path x" "canonical (ll_ranges d)"
        "lines (ll_ranges d) = lines (ll_ranges x) \<union> lines (ll_ranges y)"
      using merge_node_ok [of x "Some y"] ok by auto
    have m: "merges a b (line_log_data_merge a b)"
      using "4.IH"(2) 2 ok by (simp add: strcmp_neg)
    have "\<forall>s\<in>set a \<union> set b. ll_path x < ll_path s"
      using 2 ok by auto
    from merges_Cons [OF m d(1,2,3) this d(4)] show ?thesis
      using 2 by (simp add: merges_def strcmp_neg Un_ac) auto
  next
    case 3
    obtain d where d: "merge_node y None = Value d" "ll_path d = ll_path y" "canonical (ll_ranges d)"
        "lines (ll_ranges d) = lines (ll_ranges y)"
      using merge_node_ok [of y None] ok by auto
    have n: "\<not> strcmp (ll_path x) (ll_path y) < 0" "strcmp (ll_path x) (ll_path y) \<noteq> 0"
      using 3 by (auto simp: strcmp_neg)
    have m: "merges (x # a) b (line_log_data_merge (x # a) b)"
      using "4.IH"(3) n ok "4.prems"(1) by simp
    have "\<forall>s\<in>set (x # a) \<union> set b. ll_path y < ll_path s"
      using 3 ok by (auto intro: less_trans)
    from merges_Cons [OF m d(1,2,3) this d(4)] show ?thesis
      using n by (simp add: merges_def Un_ac insert_commute split del: if_split)
  qed
qed (simp add: merges_def)

lemma search_from_found:
  "search_from list path i ip = (Some k, j) \<Longrightarrow> i \<le> k \<and> k < i + length list \<and> ll_path (list ! (k - i)) = path"
proof (induction list arbitrary: i ip)
  case (Cons r rs)
  then show ?case
    by (fastforce simp: nth_Cons' split: if_splits)
qed simp

lemma search_from_later: "\<forall>r\<in>set list. path < ll_path r \<Longrightarrow> search_from list path i ip = (None, ip)"
  by (induction list arbitrary: i) (auto simp: strcmp_neg)

lemma search_from_missing:
  "by_path list \<Longrightarrow> search_from list path i ip = (None, k) \<Longrightarrow> path \<notin> ll_path ` set list \<and>
    (\<exists>a b. list = a @ b \<and> (\<forall>r\<in>set a. ll_path r < path) \<and> (\<forall>r\<in>set b. path < ll_path r) \<and>
      k = (if a = [] then ip else Some (i + length a - 1)))"
proof (induction list arbitrary: i ip)
  case (Cons r rs)
  consider "ll_path r = path" | "ll_path r < path" | "path < ll_path r"
    by fastforce
  then show ?case
  proof cases
    case 2
    then have "search_from rs path (i + 1) (Some i) = (None, k)"
      using Cons.prems by (auto simp: strcmp_neg split: if_splits)
    from Cons.IH [OF _ this] obtain a b where "path \<notin> ll_path ` set rs" "rs = a @ b" "\<forall>r\<in>set a. ll_path r < path"
        "\<forall>r\<in>set b. path < ll_path r" "k = (if a = [] then Some i else Some (i + 1 + length a - 1))"
      using Cons.prems(1) by auto
    then show ?thesis
      using 2 by (intro conjI exI [of _ "r # a"] exI [of _ b]) auto
  next
    case 3
    then have "\<forall>u\<in>set (r # rs). path < ll_path u"
      using Cons.prems(1) by (auto intro: less_trans)
    then show ?thesis
      using search_from_later [of "r # rs" path i ip] Cons.prems(2) by (intro conjI exI [of _ "[]"] exI [of _ "r # rs"]) auto
  qed (use Cons.prems in simp)
qed simp

lemma by_path_append: "by_path (a @ b) \<longleftrightarrow> by_path a \<and> by_path b \<and> (\<forall>r\<in>set a. \<forall>s\<in>set b. ll_path r < ll_path s)"
  by (simp add: by_path_def sorted_wrt_append)

lemma insert_ok:
  assumes "by_path list" "b \<le> e"
  shows "\<exists>ds. line_log_data_insert list path b e = Value ds \<and> by_path ds \<and>
    (\<forall>p. lines_of ds p = lines_of list p \<union> (if p = path then {b..<e} else {}))"
proof (cases "search_line_log_data list path")
  case (Pair f k)
  let ?d = "\<lambda>rs. line_log_data_init\<lparr>ll_path := path, ll_ranges := rs\<rparr>"
  show ?thesis
  proof (cases f)
    case (Some n)
    then have n: "n < length list" "ll_path (list ! n) = path"
      using search_from_found [of list path 0 None n k] Pair by (auto simp: search_line_log_data_def)
    then obtain u v y where uv: "list = u @ y # v" "length u = n" and y: "y = list ! n" "ll_path y = path"
      by (metis id_take_nth_drop length_take less_imp_le min.absorb2)
    let ?x = "y\<lparr>ll_ranges := ll_ranges y @ [rng b e]\<rparr>"
    have "line_log_data_insert list path b e = Value (list[n := ?x])"
      using Pair Some assms(2) by (simp add: line_log_data_insert_def range_set_append_unsafe_def y(1))
    moreover have "list[n := ?x] = u @ ?x # v"
      unfolding uv(1) using uv(2) by (metis list_update_length)
    moreover have "by_path (u @ ?x # v)"
      using assms(1) unfolding uv(1) by (auto simp: by_path_append)
    moreover have "lines_of (u @ ?x # v) p = lines_of list p \<union> (if p = path then {b..<e} else {})" for p
      unfolding uv(1) using y(2) by auto
    ultimately show ?thesis
      by metis
  next
    case None
    obtain u v where uv: "list = u @ v" "\<forall>r\<in>set u. ll_path r < path" "\<forall>r\<in>set v. path < ll_path r"
        "k = (if u = [] then None else Some (length u - 1))"
      using search_from_missing [OF assms(1), of path 0 None k] Pair None by (auto simp: search_line_log_data_def)
    have "line_log_data_insert list path b e = Value (u @ ?d [rng b e] # v)"
      using Pair None assms(2) uv(1,4)
      by (cases "u = []") (auto simp: line_log_data_insert_def range_set_append_def range_set_append_unsafe_def Let_def)
    moreover have "by_path (u @ ?d [rng b e] # v)"
      using assms(1) uv by (auto simp: by_path_append)
    ultimately show ?thesis
      using uv(1) by auto
  qed
qed

text \<open>
  The list of files stays sorted by path, one entry for a path. Inserting a range adds its
  lines to those of its file, and merging two lists of files whose ranges are in canonical
  form gives such a list again, with the union of the lines of each file.
\<close>
theorem line_log_files_invariant:
  assumes "by_path list" "b \<le> e" "files_ok x" "files_ok y"
  shows "(\<exists>ds. line_log_data_insert list path b e = Value ds \<and> by_path ds \<and>
      (\<forall>p. lines_of ds p = lines_of list p \<union> (if p = path then {b..<e} else {}))) \<and>
    (\<exists>ds. line_log_data_merge x y = Value ds \<and> files_ok ds \<and> ll_path ` set ds = ll_path ` set x \<union> ll_path ` set y \<and>
      (\<forall>p. lines_of ds p = lines_of x p \<union> lines_of y p))"
  by (rule conjI [OF insert_ok [OF assms(1,2)] merge_ok [OF assms(3,4), unfolded merges_def]])

theorem line_log_files_invariant_witness:
  "\<exists>ds :: nat line_log_data list. line_log_data_merge [line_log_data_init\<lparr>ll_path := [97], ll_ranges := [rng 1 3]\<rparr>]
      [line_log_data_init\<lparr>ll_path := [97], ll_ranges := [rng 2 7]\<rparr>, line_log_data_init\<lparr>ll_path := [98]\<rparr>] = Value ds \<and>
    files_ok ds \<and> lines_of ds [97] = {1..<3} \<union> {2..<7}"
proof -
  let ?x = "[line_log_data_init\<lparr>ll_path := [97], ll_ranges := [rng 1 3]\<rparr>] :: nat line_log_data list"
    and ?y = "[line_log_data_init\<lparr>ll_path := [97], ll_ranges := [rng 2 7]\<rparr>, line_log_data_init\<lparr>ll_path := [98]\<rparr>] :: nat line_log_data list"
  have ok: "files_ok ?x" "files_ok ?y"
    by (simp_all add: line_log_data_init_def range_set_init_def)
  have "by_path ([] :: nat line_log_data list)" "(0 :: int) \<le> 1"
    by simp_all
  from conjunct2 [OF line_log_files_invariant [OF this ok]] obtain ds where ds: "line_log_data_merge ?x ?y = Value ds" "files_ok ds"
      "\<forall>p. lines_of ds p = lines_of ?x p \<union> lines_of ?y p"
    by blast
  then have "lines_of ds [97] = {1..<3} \<union> {2..<7}"
    by (simp add: line_log_data_init_def range_set_init_def)
  then show ?thesis
    using ds(1,2) by blast
qed

end
