(* ===== verification/Git_Decorate.thy ===== *)
theory Git_Decorate
  imports Git_Probe Git_Oidmap Git_Line_Log
begin

text \<open>
  Decorations (\<^verbatim>\<open>decorate.c\<close>): a hash table from the addresses of objects to a pointer each, and the
  line ranges of commits that \<^verbatim>\<open>line-log.c\<close> keeps in one. A pointer is an option, \<open>None\<close> for \<open>NULL\<close>; \<open>oid\<close> gives
  the name of the object at an address.
\<close>

subsection \<open>The table\<close>

type_synonym addr = nat

type_synonym 'v object_decoration = "addr option \<times> 'v option"

record 'v decoration =
  dc_nr :: nat
  dc_hash :: "'v object_decoration list"

definition decoration_init :: "'v decoration" where
  "decoration_init = \<lparr>dc_nr = 0, dc_hash = []\<rparr>"

definition hash_base :: "(addr \<Rightarrow> byte list) \<Rightarrow> addr \<Rightarrow> nat \<Rightarrow> nat" where
  "hash_base oid a n = unat (oidmap_hash (oid a)) mod n"

definition insert_decoration ::
    "(addr \<Rightarrow> byte list) \<Rightarrow> 'v decoration \<Rightarrow> addr \<Rightarrow> 'v option \<Rightarrow> ('v option \<times> 'v decoration) outcome option" where
  "insert_decoration oid n base decoration =
     (let hash = dc_hash n
      in run_then (probe (\<lambda>c. fst c = None \<or> fst c = Some base) hash (hash_base oid base (length hash))) (\<lambda>j.
         if fst (hash ! j) = Some base then
           Some (Value (snd (hash ! j), n\<lparr>dc_hash := hash[j := (Some base, decoration)]\<rparr>))
         else Some (Value (None, \<lparr>dc_nr = dc_nr n + 1, dc_hash = hash[j := (Some base, decoration)]\<rparr>))))"

fun redecorate :: "(addr \<Rightarrow> byte list) \<Rightarrow> 'v object_decoration list \<Rightarrow> 'v decoration \<Rightarrow> 'v decoration outcome option" where
  "redecorate oid [] n = Some (Value n)"
| "redecorate oid ((base, decoration) # old) n =
     (if decoration = None then redecorate oid old n
      else case base of
        None \<Rightarrow> Some Fault
      | Some base \<Rightarrow> run_then (insert_decoration oid n base decoration) (\<lambda>(_, n). redecorate oid old n))"

definition grow_decoration :: "(addr \<Rightarrow> byte list) \<Rightarrow> 'v decoration \<Rightarrow> 'v decoration outcome option" where
  "grow_decoration oid n =
     redecorate oid (dc_hash n)
       \<lparr>dc_nr = 0, dc_hash = replicate ((length (dc_hash n) + 1000) * 3 div 2) (None, None)\<rparr>"

definition add_decoration ::
    "(addr \<Rightarrow> byte list) \<Rightarrow> 'v decoration \<Rightarrow> addr \<Rightarrow> 'v option \<Rightarrow> ('v option \<times> 'v decoration) outcome option" where
  "add_decoration oid n obj decoration =
     run_then (if dc_nr n + 1 > length (dc_hash n) * 2 div 3 then grow_decoration oid n else Some (Value n)) (\<lambda>n.
     insert_decoration oid n obj decoration)"

definition lookup_decoration :: "(addr \<Rightarrow> byte list) \<Rightarrow> 'v decoration \<Rightarrow> addr \<Rightarrow> 'v option outcome option" where
  "lookup_decoration oid n obj =
     (let hash = dc_hash n
      in if hash = [] then Some (Value None)
         else
           run_then (probe (\<lambda>c. fst c = None \<or> fst c = Some obj) hash (hash_base oid obj (length hash))) (\<lambda>j.
           Some (Value (if fst (hash ! j) = Some obj then snd (hash ! j) else None))))"

subsection \<open>The ranges of the commits\<close>

text \<open>A list of files is \<open>NULL\<close> where it is empty.\<close>

definition to_null :: "'a list \<Rightarrow> 'a list option" where
  "to_null xs = (if xs = [] then None else Some xs)"

definition add_line_range ::
    "(addr \<Rightarrow> byte list) \<Rightarrow> 'p line_log_data list decoration \<Rightarrow> addr \<Rightarrow> 'p line_log_data list \<Rightarrow>
     'p line_log_data list decoration outcome option" where
  "add_line_range oid dec commit ranges =
     run_then (lookup_decoration oid dec commit) (\<lambda>old.
     run_then
       (case old of
          Some old \<Rightarrow> if ranges \<noteq> [] then Some (line_log_data_merge old ranges) else Some (Value [])
        | None \<Rightarrow> if ranges \<noteq> [] then Some (line_log_data_copy ranges) else Some (Value [])) (\<lambda>new.
     if new \<noteq> [] then run_then (add_decoration oid dec commit (Some new)) (\<lambda>(_, dec). Some (Value dec))
     else Some (Value dec)))"

definition clear_commit_line_range ::
    "(addr \<Rightarrow> byte list) \<Rightarrow> 'p line_log_data list decoration \<Rightarrow> addr \<Rightarrow> 'p line_log_data list decoration outcome option" where
  "clear_commit_line_range oid dec commit =
     run_then (lookup_decoration oid dec commit) (\<lambda>r.
     if r = None then Some (Value dec)
     else run_then (add_decoration oid dec commit None) (\<lambda>(_, dec). Some (Value dec)))"

definition lookup_line_range ::
    "(addr \<Rightarrow> byte list) \<Rightarrow> 'p line_log_data list decoration \<Rightarrow> addr \<Rightarrow> 'p line_log_data list outcome option" where
  "lookup_line_range oid dec commit =
     run_then (lookup_decoration oid dec commit) (\<lambda>ret.
     let list = (case ret of None \<Rightarrow> [] | Some list \<Rightarrow> list)
     in if list_all (\<lambda>d. range_set_check_invariants (ll_ranges d)) list then Some (Value list) else Some Failure)"

subsection \<open>A map\<close>

abbreviation free_slot :: "'v object_decoration \<Rightarrow> bool" where
  "free_slot c \<equiv> fst c = None"

definition base_home :: "(addr \<Rightarrow> byte list) \<Rightarrow> nat \<Rightarrow> addr option \<Rightarrow> nat" where
  "base_home oid n k = (case k of None \<Rightarrow> 0 | Some a \<Rightarrow> hash_base oid a n)"

interpretation decs: open_addressing "\<lambda>c. fst c = None" fst "base_home oid" "\<lambda>n. 0 < n" for oid
  by unfold_locales (auto simp: base_home_def hash_base_def split: option.split)

definition taken :: "'v object_decoration list \<Rightarrow> nat" where
  "taken T = length (filter (\<lambda>c. fst c \<noteq> None) T)"

definition pairs :: "'v object_decoration list \<Rightarrow> (addr \<times> 'v) set" where
  "pairs T = {(a, v). (Some a, Some v) \<in> set T}"

definition dec_ok :: "(addr \<Rightarrow> byte list) \<Rightarrow> 'v decoration \<Rightarrow> bool" where
  "dec_ok oid n \<longleftrightarrow> (dc_hash n \<noteq> [] \<longrightarrow> table_ok (\<lambda>c. fst c = None) fst (base_home oid) (dc_hash n)) \<and>
     dc_nr n = taken (dc_hash n) \<and> (\<forall>c\<in>set (dc_hash n). fst c = None \<longrightarrow> snd c = None)"

text \<open>The table holds the pointers that are not \<open>NULL\<close>.\<close>

definition holds_decorations :: "(addr \<Rightarrow> byte list) \<Rightarrow> 'v decoration \<Rightarrow> (addr \<rightharpoonup> 'v) \<Rightarrow> bool" where
  "holds_decorations oid n m \<longleftrightarrow> dec_ok oid n \<and> (\<forall>a v. m a = Some v \<longleftrightarrow> (a, v) \<in> pairs (dc_hash n))"

lemma taken_insert: "j < length T \<Longrightarrow> fst (T ! j) = None \<Longrightarrow> taken (T[j := (Some a, d)]) = taken T + 1"
proof (induction T arbitrary: j)
  case (Cons c T)
  then show ?case
    by (cases j) (auto simp: taken_def)
qed simp

lemma taken_replace: "j < length T \<Longrightarrow> fst (T ! j) = Some b \<Longrightarrow> taken (T[j := (Some a, d)]) = taken T"
proof (induction T arbitrary: j)
  case (Cons c T)
  then show ?case
    by (cases j) (auto simp: taken_def)
qed simp

lemma taken_free:
  assumes "taken T < length T"
  shows "\<exists>j<length T. fst (T ! j) = None"
proof (rule ccontr)
  assume "\<not> (\<exists>j<length T. fst (T ! j) = None)"
  then have "filter (\<lambda>c. fst c \<noteq> None) T = T"
    by (intro filter_True) (metis in_set_conv_nth)
  then show False
    using assms by (simp add: taken_def)
qed

lemma other_slot:
  assumes "taken T + 1 < length T" "j < length T" "fst (T ! j) = None"
  shows "\<exists>i<length T. i \<noteq> j \<and> fst (T ! i) = None"
proof -
  have "taken (T[j := (Some 0, None)]) < length (T[j := (Some 0, None)])"
    using taken_insert [OF assms(2,3)] assms(1) by simp
  from taken_free [OF this] show ?thesis
    using assms(2) by (auto simp: nth_list_update split: if_splits)
qed

lemma pairs_update:
  assumes "j < length T" "table_ok (\<lambda>c. fst c = None) fst home T" "fst (T ! j) = None \<or> fst (T ! j) = Some a"
    "\<forall>i<length T. fst (T ! i) = Some a \<longrightarrow> i = j"
  shows "(b, v) \<in> pairs (T[j := (Some a, d)]) \<longleftrightarrow> (if b = a then d = Some v else (b, v) \<in> pairs T)"
proof -
  have "(b, v) \<in> pairs (T[j := (Some a, d)]) \<longleftrightarrow>
      (\<exists>i<length T. (if i = j then (Some a, d) else T ! i) = (Some b, Some v))"
    unfolding pairs_def by (auto simp: in_set_conv_nth nth_list_update)
  also have "\<dots> \<longleftrightarrow> (if b = a then d = Some v else \<exists>i<length T. T ! i = (Some b, Some v))"
  proof (cases "b = a")
    case True
    then show ?thesis
      using assms(1,4) by (auto split: if_splits)
  next
    case False
    have "T ! j \<noteq> (Some b, Some v)"
      using assms(3) False by auto
    then show ?thesis
      using False by (auto split: if_splits)
  qed
  finally show ?thesis
    by (simp add: pairs_def in_set_conv_nth)
qed

lemma insert_decoration_ok:
  assumes "holds_decorations oid n m" "dc_hash n \<noteq> []" "taken (dc_hash n) + 1 < length (dc_hash n)"
  shows "\<exists>n'. insert_decoration oid n a d = Some (Value (m a, n')) \<and> holds_decorations oid n' (m(a := d)) \<and>
    length (dc_hash n') = length (dc_hash n) \<and> taken (dc_hash n') \<le> taken (dc_hash n) + 1"
proof -
  let ?T = "dc_hash n" and ?k = "Some a"
  have ok: "table_ok (\<lambda>c. fst c = None) fst (base_home oid) ?T" "dc_nr n = taken ?T"
      "\<forall>c\<in>set ?T. fst c = None \<longrightarrow> snd c = None" "0 < length ?T"
    using assms(1,2) by (auto simp: holds_decorations_def dec_ok_def)
  have m: "m b = Some v \<longleftrightarrow> (b, v) \<in> pairs ?T" for b v
    using assms(1) by (simp add: holds_decorations_def)
  have home: "base_home oid (length ?T) ?k = hash_base oid a (length ?T)"
    by (simp add: base_home_def)
  obtain j where j: "probe (\<lambda>c. fst c = None \<or> fst c = ?k) ?T (hash_base oid a (length ?T)) = Some (Value j)" "j < length ?T"
      "if \<exists>i<length ?T. fst (?T ! i) \<noteq> None \<and> fst (?T ! i) = ?k then fst (?T ! j) \<noteq> None \<and> fst (?T ! j) = ?k
       else fst (?T ! j) = None" "reach (\<lambda>c. fst c = None) ?T (hash_base oid a (length ?T)) j"
    using decs.lookup [OF ok(4,1), of ?k] unfolding home by blast
  have kind: "fst (?T ! j) = ?k \<or> fst (?T ! j) = None \<and> (\<forall>i<length ?T. fst (?T ! i) \<noteq> ?k)"
    using j(3) by (auto split: if_splits)
  have only: "\<forall>i<length ?T. fst (?T ! i) = ?k \<longrightarrow> i = j"
    using kind ok(1) j(2) by (auto simp: table_ok_def)
  let ?T' = "?T[j := (?k, d)]"
  have pairs: "(m(a := d)) b = Some v \<longleftrightarrow> (b, v) \<in> pairs ?T'" for b v
    using pairs_update [OF j(2) ok(1) _ only, of b v d] kind m [of b v] by auto
  have rest: "\<forall>c\<in>set ?T'. fst c = None \<longrightarrow> snd c = None"
    using ok(3) by (auto dest!: set_update_subset_insert [THEN subsetD])
  show ?thesis
  proof (cases "fst (?T ! j) = ?k")
    case True
    have "table_ok (\<lambda>c. fst c = None) fst (base_home oid) ?T'"
      using decs.replace [OF ok(1) j(2), of "(?k, d)"] True by simp
    moreover have "taken ?T' = taken ?T"
      using taken_replace [OF j(2) True] .
    moreover have "snd (?T ! j) = m a"
    proof -
      have "(?k, snd (?T ! j)) \<in> set ?T"
        using j(2) True by (metis nth_mem prod.collapse)
      then have "snd (?T ! j) = Some v \<Longrightarrow> m a = Some v" for v
        using m [of a v] by (auto simp: pairs_def)
      moreover have "m a = Some v \<Longrightarrow> snd (?T ! j) = Some v" for v
        using m [of a v] only by (auto simp: pairs_def in_set_conv_nth)
      ultimately show ?thesis
        by (cases "m a"; cases "snd (?T ! j)") auto
    qed
    ultimately show ?thesis
      using j(1) True pairs rest ok(2)
      by (auto simp: insert_decoration_def Let_def holds_decorations_def dec_ok_def)
  next
    case False
    then have f: "fst (?T ! j) = None" "\<forall>i<length ?T. fst (?T ! i) \<noteq> ?k"
      using kind by auto
    have "table_ok (\<lambda>c. fst c = None) fst (base_home oid) ?T'"
      using decs.insert [OF ok(1) j(2) f(1), of "(?k, d)"] j(4) f(2) other_slot [OF assms(3) j(2) f(1)] home by simp
    moreover have "taken ?T' = taken ?T + 1"
      using taken_insert [OF j(2) f(1)] .
    moreover have "m a = None"
      using m [of a "the (m a)"] f(2) by (cases "m a") (fastforce simp: pairs_def in_set_conv_nth)+
    ultimately show ?thesis
      using j(1) False pairs rest ok(2)
      by (auto simp: insert_decoration_def Let_def holds_decorations_def dec_ok_def)
  qed
qed

lemma pairs_Cons [simp]: "pairs [] = {}" "pairs ((None, d) # T) = pairs T" "pairs ((b, None) # T) = pairs T"
    "pairs ((Some a, Some v) # T) = insert (a, v) (pairs T)" "pairs (replicate k (None, None)) = {}"
  by (auto simp: pairs_def)

lemma redecorate_ok:
  "holds_decorations oid n m \<Longrightarrow> dc_hash n \<noteq> [] \<Longrightarrow> taken (dc_hash n) + taken old < length (dc_hash n) \<Longrightarrow>
    distinct (List.map fst (filter (\<lambda>c. fst c \<noteq> None) old)) \<Longrightarrow> \<forall>c\<in>set old. fst c = None \<longrightarrow> snd c = None \<Longrightarrow>
    \<forall>a v. (a, v) \<in> pairs old \<longrightarrow> m a = None \<Longrightarrow>
    \<exists>n' m'. redecorate oid old n = Some (Value n') \<and> holds_decorations oid n' m' \<and> length (dc_hash n') = length (dc_hash n) \<and>
      taken (dc_hash n') \<le> taken (dc_hash n) + taken old \<and> (\<forall>a v. m' a = Some v \<longleftrightarrow> m a = Some v \<or> (a, v) \<in> pairs old)"
proof (induction oid old n arbitrary: m rule: redecorate.induct)
  case (1 oid n)
  then show ?case
    by auto
next
  case (2 oid base d old n)
  show ?case
  proof (cases d)
    case None
    have "taken old \<le> taken ((base, d) # old)"
      by (simp add: taken_def)
    then have t: "taken (dc_hash n) + taken old < length (dc_hash n)"
      using "2.prems"(3) by simp
    have o: "distinct (List.map fst (filter (\<lambda>c. fst c \<noteq> None) old))" "\<forall>c\<in>set old. fst c = None \<longrightarrow> snd c = None"
        "\<forall>a v. (a, v) \<in> pairs old \<longrightarrow> m a = None" "redecorate oid ((base, d) # old) n = redecorate oid old n"
        "pairs ((base, d) # old) = pairs old"
      using "2.prems"(4-6) None by (auto split: if_splits)
    show ?thesis
      unfolding o(4,5) using "2.IH"(1) [OF None "2.prems"(1,2) t o(1-3)] \<open>taken old \<le> _\<close> by (meson add_le_mono1 le_trans nat_add_left_cancel_le)
  next
    case (Some v)
    obtain a where a: "base = Some a"
      using "2.prems"(5) Some by (cases base) auto
    have t: "taken ((base, d) # old) = taken old + 1"
      by (simp add: taken_def a)
    obtain n1 where n1: "insert_decoration oid n a d = Some (Value (m a, n1))" "holds_decorations oid n1 (m(a := d))"
        "length (dc_hash n1) = length (dc_hash n)" "taken (dc_hash n1) \<le> taken (dc_hash n) + 1"
      using insert_decoration_ok [OF "2.prems"(1,2), of a d] "2.prems"(3) t by auto
    have other: "b \<noteq> a" if "(b, u) \<in> pairs old" for b u
      using "2.prems"(4) that by (auto simp: a pairs_def) force
    have m: "\<forall>b u. (b, u) \<in> pairs old \<longrightarrow> (m(a := d)) b = None"
      using "2.prems"(6) other by (auto simp: a Some)
    have new: "d \<noteq> None" "dc_hash n1 \<noteq> []" "taken (dc_hash n1) + taken old < length (dc_hash n1)"
        "distinct (List.map fst (filter (\<lambda>c. fst c \<noteq> None) old))" "\<forall>c\<in>set old. fst c = None \<longrightarrow> snd c = None"
      using n1(3,4) "2.prems"(2-5) t Some a by auto
    obtain n2 m2 where n2: "redecorate oid old n1 = Some (Value n2)" "holds_decorations oid n2 m2"
        "length (dc_hash n2) = length (dc_hash n1)" "taken (dc_hash n2) \<le> taken (dc_hash n1) + taken old"
        "\<forall>b u. m2 b = Some u \<longleftrightarrow> (m(a := d)) b = Some u \<or> (b, u) \<in> pairs old"
      using "2.IH"(2) [OF new(1) a n1(2) new(2-5) m] by blast
    have "m a = None"
      using "2.prems"(6) by (simp add: a Some)
    then have "m2 b = Some u \<longleftrightarrow> m b = Some u \<or> (b, u) \<in> pairs ((base, d) # old)" for b u
      using n2(5) by (auto simp: a Some)
    then show ?thesis
      using n1 n2(1-4) t Some a by (intro exI [of _ n2] exI [of _ m2]) auto
  qed
qed

lemma distinct_keys:
  assumes "table_ok (\<lambda>c. fst c = None) fst home T"
  shows "distinct (List.map fst (filter (\<lambda>c. fst c \<noteq> None) T))"
proof -
  have "(\<forall>i<length T. \<forall>j<length T. fst (T ! i) \<noteq> None \<longrightarrow> fst (T ! i) = fst (T ! j) \<longrightarrow> i = j) \<Longrightarrow> ?thesis"
  proof (induction T)
    case (Cons c T)
    have "\<forall>i<length T. \<forall>j<length T. fst (T ! i) \<noteq> None \<longrightarrow> fst (T ! i) = fst (T ! j) \<longrightarrow> i = j"
      using Cons.prems by (metis (no_types, lifting) Suc_inject Suc_less_eq length_Cons nth_Cons_Suc)
    moreover have "fst c \<noteq> fst x" if "fst c \<noteq> None" "x \<in> set T" for x
      using Cons.prems that by (metis (no_types, lifting) Suc_less_eq in_set_conv_nth length_Cons nat.distinct(1) nth_Cons_0 nth_Cons_Suc zero_less_Suc)
    ultimately show ?case
      using Cons.IH by (auto simp: image_iff)
  qed simp
  then show ?thesis
    using assms unfolding table_ok_def by metis
qed

lemma option_ext:
  assumes "\<And>v. x = Some v \<longleftrightarrow> y = Some v"
  shows "x = y"
  using assms by (cases x; cases y) blast+

lemma taken_le: "taken T \<le> length T"
  by (simp add: taken_def)

lemma add_ok:
  assumes "holds_decorations oid n m"
  shows "\<exists>n'. add_decoration oid n a d = Some (Value (m a, n')) \<and> holds_decorations oid n' (m(a := d))"
proof -
  let ?T = "dc_hash n"
  have nr: "dc_nr n = taken ?T"
    using assms by (simp add: holds_decorations_def dec_ok_def)
  obtain n1 where n1: "(if dc_nr n + 1 > length ?T * 2 div 3 then grow_decoration oid n else Some (Value n)) = Some (Value n1)"
      "holds_decorations oid n1 m" "dc_hash n1 \<noteq> []" "taken (dc_hash n1) + 1 < length (dc_hash n1)"
  proof (cases "dc_nr n + 1 > length ?T * 2 div 3")
    case True
    define k where "k = (length ?T + 1000) * 3 div 2"
    let ?new = "\<lparr>dc_nr = 0, dc_hash = replicate k (None, None)\<rparr> :: 'a decoration"
    have k: "length ?T + 1 < k"
      by (simp add: k_def)
    have "table_ok (\<lambda>c. fst c = None) fst (base_home oid) (dc_hash ?new)"
      using k by (simp add: table_ok_replicate)
    then have "holds_decorations oid ?new Map.empty" "dc_hash ?new \<noteq> []" "taken (dc_hash ?new) = 0"
      using k by (simp_all add: holds_decorations_def dec_ok_def taken_def)
    moreover have "distinct (List.map fst (filter (\<lambda>c. fst c \<noteq> None) ?T))"
    proof (cases "?T = []")
      case False
      then show ?thesis
        using assms by (intro distinct_keys [of "base_home oid"]) (simp add: holds_decorations_def dec_ok_def)
    qed simp
    moreover have "\<forall>c\<in>set ?T. fst c = None \<longrightarrow> snd c = None"
      using assms unfolding holds_decorations_def dec_ok_def by blast
    ultimately obtain n' m' where n': "redecorate oid ?T ?new = Some (Value n')" "holds_decorations oid n' m'"
        "length (dc_hash n') = k" "taken (dc_hash n') \<le> taken ?T" "\<forall>a v. m' a = Some v \<longleftrightarrow> (a, v) \<in> pairs ?T"
      using redecorate_ok [of oid ?new Map.empty ?T] taken_le [of ?T] k by auto
    have "m' = m"
    proof
      fix a
      show "m' a = m a"
        by (rule option_ext) (use n'(5) assms in \<open>simp add: holds_decorations_def\<close>)
    qed
    moreover have "dc_hash n' \<noteq> []" "taken (dc_hash n') + 1 < length (dc_hash n')"
      using n'(3,4) taken_le [of ?T] k by auto
    moreover have "grow_decoration oid n = Some (Value n')"
      using n'(1) by (simp add: grow_decoration_def k_def)
    ultimately show ?thesis
      using that [of n'] n'(2) True by simp
  next
    case False
    then have "taken ?T + 1 < length ?T"
      using nr by linarith
    moreover from this have "?T \<noteq> []"
      by auto
    moreover note False
    ultimately show ?thesis
      using that [of n] assms by simp
  qed
  then show ?thesis
    using insert_decoration_ok [OF n1(2-4), of a d] by (auto simp: add_decoration_def)
qed

lemma lookup_dec_ok:
  assumes "holds_decorations oid n m"
  shows "lookup_decoration oid n a = Some (Value (m a))"
proof (cases "dc_hash n = []")
  case True
  then show ?thesis
    using assms by (cases "m a") (auto simp: lookup_decoration_def holds_decorations_def pairs_def)
next
  case False
  let ?T = "dc_hash n" and ?k = "Some a"
  have ok: "table_ok (\<lambda>c. fst c = None) fst (base_home oid) ?T" "0 < length ?T"
    using assms False by (auto simp: holds_decorations_def dec_ok_def)
  have m: "m a = Some v \<longleftrightarrow> (a, v) \<in> pairs ?T" for v
    using assms by (simp add: holds_decorations_def)
  have home: "base_home oid (length ?T) ?k = hash_base oid a (length ?T)"
    by (simp add: base_home_def)
  obtain j where j: "probe (\<lambda>c. fst c = None \<or> fst c = ?k) ?T (hash_base oid a (length ?T)) = Some (Value j)" "j < length ?T"
      "if \<exists>i<length ?T. fst (?T ! i) \<noteq> None \<and> fst (?T ! i) = ?k then fst (?T ! j) \<noteq> None \<and> fst (?T ! j) = ?k
       else fst (?T ! j) = None"
    using decs.lookup [OF ok(2,1), of ?k] unfolding home by blast
  have "(if fst (?T ! j) = ?k then snd (?T ! j) else None) = m a"
  proof (cases "fst (?T ! j) = ?k")
    case True
    then have "m a = Some v \<longleftrightarrow> snd (?T ! j) = Some v" for v
    proof -
      have "i = j" if "i < length ?T" "?T ! i = (?k, Some v)" for i
        using ok(1) that j(2) True by (auto simp: table_ok_def)
      then show ?thesis
        unfolding m pairs_def using j(2) True by (cases "?T ! j") (auto simp: in_set_conv_nth)
    qed
    then have "m a = snd (?T ! j)"
      by (rule option_ext)
    then show ?thesis
      using True by simp
  next
    case f: False
    then have "\<forall>i<length ?T. fst (?T ! i) \<noteq> ?k"
      using j(3) by (auto split: if_splits)
    then have "m a = None"
      using m [of "the (m a)"] by (cases "m a") (fastforce simp: pairs_def in_set_conv_nth)+
    then show ?thesis
      using f by simp
  qed
  then show ?thesis
    using j(1) False by (simp add: lookup_decoration_def Let_def)
qed

text \<open>
  (C38) While a decoration holds the pointers of a map from objects, \<open>lookup_decoration\<close> ends with the pointer of an object, and
  \<open>add_decoration\<close> ends with the old one and holds the map with the new pointer, \<open>NULL\<close> to remove it, growing the
  table where needed.
\<close>
theorem decoration_refines_map:
  assumes "holds_decorations oid n m"
  shows "lookup_decoration oid n a = Some (Value (m a)) \<and>
    (\<exists>n'. add_decoration oid n a d = Some (Value (m a, n')) \<and> holds_decorations oid n' (m(a := d)))"
  using lookup_dec_ok [OF assms] add_ok [OF assms] by simp

theorem decoration_refines_map_witness:
  "\<exists>n'. add_decoration (\<lambda>a. [1, 2, 3, 4]) decoration_init 7 (Some True) = Some (Value (None, n')) \<and>
     holds_decorations (\<lambda>a. [1, 2, 3, 4]) n' [7 \<mapsto> True]"
proof -
  have "holds_decorations (\<lambda>a. [1, 2, 3, 4]) decoration_init Map.empty"
    by (simp add: holds_decorations_def dec_ok_def decoration_init_def taken_def)
  from decoration_refines_map [OF this, of 7 "Some True"] show ?thesis
    by blast
qed

subsection \<open>Line ranges\<close>

definition lines_at :: "(addr \<rightharpoonup> 'p line_log_data list) \<Rightarrow> addr \<Rightarrow> byte list \<Rightarrow> int set" where
  "lines_at m commit path = (case m commit of None \<Rightarrow> {} | Some files \<Rightarrow> lines_of files path)"

text \<open>
  (C39) Adding the ranges of a list of files to a commit gives the commit the union of the lines of each file and no other commit
  anything, with the lists sorted and the ranges in canonical form; looking them up passes its check of the
  invariants; clearing the ranges of a commit leaves those of the others.
\<close>
theorem line_ranges_accumulate:
  assumes "holds_decorations oid dec m" "\<forall>files\<in>ran m. files_ok files" "files_ok files"
  shows "(\<exists>dec' m'. add_line_range oid dec commit files = Some (Value dec') \<and> holds_decorations oid dec' m' \<and>
      (\<forall>files\<in>ran m'. files_ok files) \<and> (\<forall>c. c \<noteq> commit \<longrightarrow> m' c = m c) \<and>
      (\<forall>path. lines_at m' commit path = lines_at m commit path \<union> lines_of files path)) \<and>
    (\<exists>list. lookup_line_range oid dec commit = Some (Value list) \<and> (\<forall>path. lines_of list path = lines_at m commit path)) \<and>
    (\<exists>dec'. clear_commit_line_range oid dec commit = Some (Value dec') \<and> holds_decorations oid dec' (m(commit := None)))"
proof (intro conjI)
  note look = lookup_dec_ok [OF assms(1), of commit]
  define new where "new = (if files = [] then Value []
    else case m commit of Some old \<Rightarrow> line_log_data_merge old files | None \<Rightarrow> line_log_data_copy files)"
  obtain ds where ds: "new = Value ds" "files_ok ds" "files \<noteq> [] \<longrightarrow> ds \<noteq> []"
      "files \<noteq> [] \<longrightarrow> (\<forall>path. lines_of ds path = lines_at m commit path \<union> lines_of files path)" "files = [] \<longrightarrow> ds = []"
  proof (cases "files = []")
    case True
    then show ?thesis
      using that [of "[]"] by (simp add: new_def)
  next
    case False
    show ?thesis
    proof (cases "m commit")
      case None
      let ?ds = "List.map line_log_data_copy_one files"
      have "files_ok ?ds \<and> (\<forall>path. lines_of ?ds path = lines_of files path)"
        using assms(3) by (induction files) (auto simp: line_log_data_copy_one_def)
      then show ?thesis
        using that [of ?ds] None False by (simp add: new_def line_log_data_copy_def lines_at_def)
    next
      case (Some old)
      then have "files_ok old"
        using assms(2) ranI [of m commit old] by simp
      from merge_ok [OF this assms(3)] obtain ds where "line_log_data_merge old files = Value ds" "files_ok ds"
          "ll_path ` set ds = ll_path ` set old \<union> ll_path ` set files" "\<forall>path. lines_of ds path = lines_of old path \<union> lines_of files path"
        unfolding merges_def by blast
      moreover from this(3) have "ds \<noteq> []"
        using False by (metis Un_empty empty_set image_is_empty set_empty2)
      ultimately show ?thesis
        using that [of ds] Some False by (simp add: new_def lines_at_def)
    qed
  qed
  have step: "add_line_range oid dec commit files =
      (if ds \<noteq> [] then run_then (add_decoration oid dec commit (Some ds)) (\<lambda>(_, dec). Some (Value dec)) else Some (Value dec))"
    using look ds(1) by (auto simp: add_line_range_def new_def split: option.splits if_splits)
  show "\<exists>dec' m'. add_line_range oid dec commit files = Some (Value dec') \<and> holds_decorations oid dec' m' \<and>
      (\<forall>files\<in>ran m'. files_ok files) \<and> (\<forall>c. c \<noteq> commit \<longrightarrow> m' c = m c) \<and>
      (\<forall>path. lines_at m' commit path = lines_at m commit path \<union> lines_of files path)"
  proof (cases "files = []")
    case True
    then show ?thesis
      using step ds(5) assms(1,2) by (intro exI [of _ dec] exI [of _ m]) simp
  next
    case False
    obtain dec' where "add_decoration oid dec commit (Some ds) = Some (Value (m commit, dec'))"
        "holds_decorations oid dec' (m(commit \<mapsto> ds))"
      using add_ok [OF assms(1)] by blast
    moreover have "\<forall>files\<in>ran (m(commit \<mapsto> ds)). files_ok files"
      using assms(2) ds(2) by (auto simp: ran_def)
    ultimately show ?thesis
      using step ds(3,4) False by (intro exI [of _ dec'] exI [of _ "m(commit \<mapsto> ds)"]) (simp add: lines_at_def)
  qed
  have "list_all (\<lambda>d. range_set_check_invariants (ll_ranges d)) fs" if "m commit = Some fs" for fs
    using assms(2) that ranI [of m commit fs] by (auto simp: list_all_iff files_ok_def check_invariants_canonical)
  then show "\<exists>list. lookup_line_range oid dec commit = Some (Value list) \<and> (\<forall>path. lines_of list path = lines_at m commit path)"
    using look by (cases "m commit") (auto simp: lookup_line_range_def lines_at_def)
  show "\<exists>dec'. clear_commit_line_range oid dec commit = Some (Value dec') \<and> holds_decorations oid dec' (m(commit := None))"
  proof (cases "m commit")
    case None
    then have "m(commit := None) = m"
      by auto
    then show ?thesis
      using look None assms(1) by (simp add: clear_commit_line_range_def)
  next
    case (Some fs)
    obtain dec' where "add_decoration oid dec commit None = Some (Value (m commit, dec'))"
        "holds_decorations oid dec' (m(commit := None))"
      using add_ok [OF assms(1)] by blast
    then show ?thesis
      using look Some by (simp add: clear_commit_line_range_def)
  qed
qed

text \<open>
  Commit 3 has lines 1 and 2 of file \<open>a\<close>; lines 2 to 6 of it and one line of file \<open>b\<close> are added, looked up, and cleared.
\<close>

theorem line_ranges_accumulate_witness:
  "\<exists>dec dec' dec'' list.
     holds_decorations (\<lambda>a. [1, 2, 3, 4]) dec [3 \<mapsto> [line_log_data_init\<lparr>ll_path := [97], ll_ranges := [rng 1 3]\<rparr> :: nat line_log_data]] \<and>
     add_line_range (\<lambda>a. [1, 2, 3, 4]) dec 3
       [line_log_data_init\<lparr>ll_path := [97], ll_ranges := [rng 2 7]\<rparr>, line_log_data_init\<lparr>ll_path := [98], ll_ranges := [rng 0 1]\<rparr>] =
       Some (Value dec') \<and>
     lookup_line_range (\<lambda>a. [1, 2, 3, 4]) dec' 3 = Some (Value list) \<and> lines_of list [97] = {1..<7} \<and> lines_of list [98] = {0} \<and>
     clear_commit_line_range (\<lambda>a. [1, 2, 3, 4]) dec' 3 = Some (Value dec'') \<and>
     lookup_line_range (\<lambda>a. [1, 2, 3, 4]) dec'' 3 = Some (Value [])"
proof -
  let ?oid = "\<lambda>a :: addr. [1, 2, 3, 4] :: byte list"
  let ?old = "[line_log_data_init\<lparr>ll_path := [97], ll_ranges := [rng 1 3]\<rparr>] :: nat line_log_data list"
    and ?new = "[line_log_data_init\<lparr>ll_path := [97], ll_ranges := [rng 2 7]\<rparr>,
      line_log_data_init\<lparr>ll_path := [98], ll_ranges := [rng 0 1]\<rparr>] :: nat line_log_data list"
  have files: "files_ok ?old" "files_ok ?new" "files_ok []"
    by (simp_all add: line_log_data_init_def range_set_init_def)
  have "holds_decorations ?oid decoration_init (Map.empty :: addr \<rightharpoonup> nat line_log_data list)"
    by (simp add: holds_decorations_def dec_ok_def decoration_init_def taken_def)
  from add_ok [OF this, of 3 "Some ?old"] obtain dec where dec: "holds_decorations ?oid dec [3 \<mapsto> ?old]"
    by auto
  have old: "\<forall>files\<in>ran [3 \<mapsto> ?old]. files_ok files"
    using files(1) by simp
  obtain dec' m' where dec': "add_line_range ?oid dec 3 ?new = Some (Value dec')" "holds_decorations ?oid dec' m'"
      "\<forall>files\<in>ran m'. files_ok files" "\<forall>c. c \<noteq> 3 \<longrightarrow> m' c = [3 \<mapsto> ?old] c"
      "\<forall>path. lines_at m' 3 path = lines_at [3 \<mapsto> ?old] 3 path \<union> lines_of ?new path"
    using conjunct1 [OF line_ranges_accumulate [OF dec old files(2), of 3]] by blast
  obtain list dec'' where list: "lookup_line_range ?oid dec' 3 = Some (Value list)"
      "\<forall>path. lines_of list path = lines_at m' 3 path" and
    dec'': "clear_commit_line_range ?oid dec' 3 = Some (Value dec'')" "holds_decorations ?oid dec'' (m'(3 := None))"
    using conjunct2 [OF line_ranges_accumulate [OF dec'(2,3) files(3), of 3]] by blast
  have "lines_of list [97] = {1..<7}" "lines_of list [98] = {0}"
    using list(2) dec'(5) by (auto simp: lines_at_def line_log_data_init_def range_set_init_def)
  moreover have "lookup_line_range ?oid dec'' 3 = Some (Value [])"
    using lookup_dec_ok [OF dec''(2), of 3] by (simp add: lookup_line_range_def)
  ultimately show ?thesis
    using dec dec'(1) list(1) dec''(1) by blast
qed

end
