(* ===== verification/Git_Utf8.thy ===== *)
theory Git_Utf8
  imports Git_Probe Git_Strbuf_Calls
begin

text \<open>
  Checking that the text of a commit is UTF-8 (\<^verbatim>\<open>commit.c\<close>): \<open>find_invalid_utf8\<close> gives the place of the first
  byte that does not begin a character, and \<open>verify_utf8\<close> takes such a byte as Latin-1 and replaces it.
\<close>

subsection \<open>The code\<close>

text \<open>A byte without its leading ones, and their number less one. The bits are read from the top.\<close>

definition bits_down :: "byte \<Rightarrow> nat" where
  "bits_down c = of_bool (bit c 0) * 128 + of_bool (bit c 1) * 64 + of_bool (bit c 2) * 32 + of_bool (bit c 3) * 16 +
     of_bool (bit c 4) * 8 + of_bool (bit c 5) * 4 + of_bool (bit c 6) * 2 + of_bool (bit c 7)"

lemma bits_down_shift:
  assumes "c AND 0x40 \<noteq> 0"
  shows "bits_down (push_bit 1 c) < bits_down c"
proof -
  have "bit c 6"
    using assms and_exp_eq_0_iff_not_bit [of c 6] by simp
  moreover define d where "d = push_bit 1 c"
  moreover have "bit d n \<longleftrightarrow> 1 \<le> n \<and> n < 8 \<and> bit c (n - 1)" for n
    unfolding d_def bit_push_bit_iff by auto
  then have "bits_down d = of_bool (bit c 0) * 64 + of_bool (bit c 1) * 32 + of_bool (bit c 2) * 16 +
      of_bool (bit c 3) * 8 + of_bool (bit c 4) * 4 + of_bool (bit c 5) * 2 + of_bool (bit c 6)"
    by (simp add: bits_down_def)
  ultimately show ?thesis
    unfolding bits_down_def d_def [symmetric] by simp
qed

function utf8_lead :: "byte \<Rightarrow> nat \<Rightarrow> byte \<times> nat" where
  "utf8_lead c bytes = (if c AND 0x40 \<noteq> 0 then utf8_lead (push_bit 1 c) (bytes + 1) else (c, bytes))"
  by auto
termination by (relation "measure (\<lambda>(c, _). bits_down c)") (auto dest: bits_down_shift)

definition max_codepoint :: "u32 list" where
  "max_codepoint = [0x7f, 0x7ff, 0xffff, 0x10ffff]"

text \<open>The continuation bytes, \<open>None\<close> if one is not.\<close>

fun utf8_rest :: "nat \<Rightarrow> byte list \<Rightarrow> u32 \<Rightarrow> u32 option outcome" where
  "utf8_rest 0 buf codepoint = Value (Some codepoint)"
| "utf8_rest (Suc bytes) [] codepoint = Fault"
| "utf8_rest (Suc bytes) (b # buf) codepoint =
     (if b AND 0xc0 \<noteq> 0x80 then Value None
      else utf8_rest bytes buf (push_bit 6 codepoint OR (ucast b AND 0x3f)))"

definition bad_codepoint :: "nat \<Rightarrow> u32 \<Rightarrow> bool" where
  "bad_codepoint bytes codepoint \<longleftrightarrow>
     codepoint < max_codepoint ! (bytes - 1) + 1 \<or> codepoint > max_codepoint ! bytes \<or>
     codepoint AND 0x1ff800 = 0xd800 \<or> codepoint AND 0xfffe = 0xfffe \<or>
     codepoint \<ge> 0xfdd0 \<and> codepoint \<le> 0xfdef"

function find_invalid_from :: "byte list \<Rightarrow> int \<Rightarrow> int \<Rightarrow> int outcome" where
  "find_invalid_from buf len offset =
     (if len = 0 then Value (- 1)
      else case buf of
        [] \<Rightarrow> Fault
      | c # buf \<Rightarrow>
          if c < 0x80 then find_invalid_from buf (len - 1) (offset + 1)
          else
            let (c, bytes) = utf8_lead c 0
            in if bytes < 1 \<or> 3 < bytes \<or> len - 1 < int bytes then Value offset
               else
                 and_then (utf8_rest bytes buf (drop_bit bytes (ucast (c AND 0x7f)))) (\<lambda>r.
                 case r of
                   None \<Rightarrow> Value offset
                 | Some codepoint \<Rightarrow>
                     if bad_codepoint bytes codepoint then Value offset
                     else find_invalid_from (drop bytes buf) (len - 1 - int bytes) (offset + 1 + int bytes)))"
  by auto
termination by (relation "measure (\<lambda>(buf, _). length buf)") auto

definition find_invalid_utf8 :: "byte list \<Rightarrow> int \<Rightarrow> int outcome" where
  "find_invalid_utf8 buf len = find_invalid_from buf len 0"

lemma run_then_mono [partial_function_mono]:
  assumes "\<And>x. monotone option.le_fun option_ord (\<lambda>f. C f x)"
  shows "monotone option.le_fun option_ord (\<lambda>f. run_then m (C f))"
proof (cases m)
  case (Some r)
  then show ?thesis
    using assms by (cases r) (auto simp: monotone_def flat_ord_def)
qed (simp add: monotone_def flat_ord_def)

text \<open>
  The loop that replaces bytes. A character takes two bytes, so the text can grow too long for a buffer. The
  length of what is left is converted to an \<open>int\<close>.
\<close>

partial_function (option) verify_utf8_loop :: "strbuf \<Rightarrow> nat \<Rightarrow> int \<Rightarrow> (int \<times> strbuf) outcome option" where
  "verify_utf8_loop sb pos ok =
     run_then (Some (and_then (mem_bytes (sb_buf sb) pos (sb_len sb - pos)) (\<lambda>buf.
               find_invalid_utf8 buf (to_int32 (sb_len sb - pos))))) (\<lambda>bad.
     if bad < 0 then Some (Value (ok, sb))
     else
       let pos = pos + nat bad
       in run_then (Some (
            and_then (mem_byte (sb_buf sb) pos) (\<lambda>c.
            and_then (strbuf_remove sb pos 1) (\<lambda>sb.
            strbuf_insert sb pos [0xc0 + drop_bit 6 c, 0x80 + (c AND 0x3f)] 2)))) (\<lambda>sb.
          verify_utf8_loop sb (pos + 2) 0))"

definition verify_utf8 :: "strbuf \<Rightarrow> (int \<times> strbuf) outcome option" where
  "verify_utf8 sb = verify_utf8_loop sb 0 1"

declare utf8_lead.simps [simp del] find_invalid_from.simps [simp del]

subsection \<open>Characters\<close>

definition utf8_encode :: "nat \<Rightarrow> byte list" where
  "utf8_encode cp =
     (if cp < 0x80 then [word_of_nat cp]
      else if cp < 0x800 then [word_of_nat (0xC0 + cp div 64), word_of_nat (0x80 + cp mod 64)]
      else if cp < 0x10000 then
        [word_of_nat (0xE0 + cp div 4096), word_of_nat (0x80 + cp div 64 mod 64), word_of_nat (0x80 + cp mod 64)]
      else
        [word_of_nat (0xF0 + cp div 262144), word_of_nat (0x80 + cp div 4096 mod 64),
         word_of_nat (0x80 + cp div 64 mod 64), word_of_nat (0x80 + cp mod 64)])"

text \<open>Neither a surrogate nor a non-character.\<close>

definition utf8_char :: "nat \<Rightarrow> bool" where
  "utf8_char cp \<longleftrightarrow> cp \<le> 0x10ffff \<and> \<not> (0xd800 \<le> cp \<and> cp \<le> 0xdfff) \<and> cp mod 0x10000 < 0xfffe \<and>
     \<not> (0xfdd0 \<le> cp \<and> cp \<le> 0xfdef)"

lemma byte_bound: "unat b < 256" for b :: byte
  using unsigned_less [of b] by simp

lemma unat_of_byte: "word_of_nat (unat b) = (b :: byte)"
  by simp

lemma utf8_lead_value:
  assumes "\<not> c < 0x80" "utf8_lead c 0 = (c', b)"
  shows "if unat c < 192 then b = 0
    else if unat c < 224 then b = 1 \<and> unat (drop_bit b (ucast (c' AND 0x7f) :: u32)) = unat c - 192
    else if unat c < 240 then b = 2 \<and> unat (drop_bit b (ucast (c' AND 0x7f) :: u32)) = unat c - 224
    else if unat c < 248 then b = 3 \<and> unat (drop_bit b (ucast (c' AND 0x7f) :: u32)) = unat c - 240
    else 3 < b"
proof -
  have table: "\<forall>n\<in>set [128..<256]. case utf8_lead (word_of_nat n) 0 of (c', b) \<Rightarrow>
    if n < 192 then b = 0
    else if n < 224 then b = 1 \<and> unat (drop_bit b (ucast (c' AND 0x7f) :: u32)) = n - 192
    else if n < 240 then b = 2 \<and> unat (drop_bit b (ucast (c' AND 0x7f) :: u32)) = n - 224
    else if n < 248 then b = 3 \<and> unat (drop_bit b (ucast (c' AND 0x7f) :: u32)) = n - 240
    else 3 < b"
    by code_simp
  have "unat c \<in> set [128..<256]"
    unfolding set_upt using assms(1) byte_bound [of c] by (simp add: word_less_nat_alt)
  then show ?thesis
    using table [THEN bspec, of "unat c"] unfolding unat_of_byte assms(2) prod.case by blast
qed

text \<open>Masks of neighbouring bits.\<close>

lemma unat_and_mask:
  "unat (w AND v) = unat w div 2 ^ k mod 2 ^ m * 2 ^ k" if "unat v = 2 ^ k * (2 ^ m - 1)" for w v :: "'a::len word"
proof -
  have "unat (w AND v) = unat w AND push_bit k (mask m)"
    by (simp add: unsigned_and_eq that push_bit_eq_mult mask_eq_exp_minus_1 mult.commute)
  also have "\<dots> = push_bit k (take_bit m (drop_bit k (unat w)))"
    by (rule bit_eqI) (auto simp: bit_and_iff bit_push_bit_iff bit_mask_iff bit_take_bit_iff bit_drop_bit_eq)
  finally show ?thesis
    by (simp add: push_bit_eq_mult take_bit_eq_mod drop_bit_eq_div)
qed

lemma continuation_byte: "b AND 0xc0 = 0x80 \<longleftrightarrow> 128 \<le> unat b \<and> unat b < 192" for b :: byte
  using unat_and_mask [where w = b and v = "0xc0" and k = 6 and m = 2] byte_bound [of b] by (auto simp: word_unat_eq_iff)

lemma bad_codepoint_iff:
  assumes "unat v < 2097152" "b \<in> {1, 2, 3}"
  shows "bad_codepoint b v \<longleftrightarrow> \<not> (utf8_char (unat v) \<and> 
    (if b = 1 then 0x80 \<le> unat v \<and> unat v < 0x800 else if b = 2 then 0x800 \<le> unat v \<and> unat v < 0x10000 else 0x10000 \<le> unat v))"
proof -
  have s: "unat (v AND 0x1ff800) = unat v div 2 ^ 11 mod 2 ^ 10 * 2 ^ 11"
    by (rule unat_and_mask) simp
  have surrogate: "v AND 0x1ff800 = 0xd800 \<longleftrightarrow> 0xd800 \<le> unat v \<and> unat v \<le> 0xdfff"
  proof -
    have "unat v div 2 ^ 11 mod 2 ^ 10 = unat v div 2048"
      using assms(1) by simp
    then show ?thesis
      unfolding word_unat_eq_iff s using div_mult_mod_eq [of "unat v" 2048] mod_less_divisor [of 2048 "unat v"] by simp linarith
  qed
  have n: "unat (v AND 0xfffe) = unat v div 2 ^ 1 mod 2 ^ 15 * 2 ^ 1"
    by (rule unat_and_mask) simp
  have nonchar: "v AND 0xfffe = 0xfffe \<longleftrightarrow> 0xfffe \<le> unat v mod 0x10000"
    using mod_mult2_eq [of "unat v" 2 32768] mod_less_divisor [of 2 "unat v"] unfolding word_unat_eq_iff n by simp linarith
  have others: "v \<ge> 0xfdd0 \<longleftrightarrow> 0xfdd0 \<le> unat v" "v \<le> 0xfdef \<longleftrightarrow> unat v \<le> 0xfdef"
    by (simp_all add: word_le_nat_alt)
  have range: "v < max_codepoint ! (b - 1) + 1 \<longleftrightarrow> unat v < (if b = 1 then 0x80 else if b = 2 then 0x800 else 0x10000)"
    "v > max_codepoint ! b \<longleftrightarrow> (if b = 1 then 0x7ff else if b = 2 then 0xffff else 0x10ffff) < unat v"
    using assms(2) by (elim insertE; simp add: max_codepoint_def word_less_nat_alt)+
  show ?thesis
    using assms(2) unfolding bad_codepoint_def surrogate nonchar others range utf8_char_def
    by (elim insertE; simp) linarith+
qed

lemma utf8_rest_step:
  fixes v :: u32
  assumes "unat v < 2 ^ 26"
  shows "unat (push_bit 6 v OR (ucast b AND 0x3f)) = unat v * 64 + unat (b :: byte) mod 64"
proof -
  have low: "ucast b AND 0x3f = (take_bit 6 (ucast b) :: u32)"
    using take_bit_eq_mask [of 6 "ucast b :: u32"] by (simp add: mask_eq_exp_minus_1)
  have "push_bit 6 v OR take_bit 6 (ucast b) = push_bit 6 v + take_bit 6 (ucast b)"
    by (rule disjunctive_add [symmetric]) (auto simp: bit_simps)
  moreover have "unat (push_bit 6 v) = unat v * 64"
    using assms by (simp add: push_bit_eq_mult unat_mult_lem [THEN iffD1] mult.commute)
  moreover have "unat (take_bit 6 (ucast b) :: u32) = unat b mod 64"
    by (simp add: unsigned_take_bit_eq unsigned_ucast_eq take_bit_eq_mod [of 6 "unat b"])
  moreover have "unat (x + y) = unat x + unat y" if "unat x + unat y < 2 ^ 32" for x y :: u32
    using that by (simp add: unat_word_ariths)
  ultimately show ?thesis
    using assms unfolding low by simp
qed


subsection \<open>One character\<close>

lemma utf8_rest_value:
  assumes "b \<le> length buf" "(unat v + 1) * 64 ^ b \<le> 2 ^ 32"
  shows "\<exists>w. utf8_rest b buf v = Value (if \<forall>x\<in>set (take b buf). 128 \<le> unat x \<and> unat x < 192 then Some w else None) \<and>
    unat w = foldl (\<lambda>n x. n * 64 + unat x mod 64) (unat v) (take b buf)"
  using assms
proof (induction b arbitrary: buf v)
  case (Suc b)
  then obtain x xs where buf: "buf = x # xs"
    by (cases buf) auto
  define w where "w = push_bit 6 v OR (ucast x AND 0x3f)"
  have "(unat v + 1) * 64 \<le> (unat v + 1) * 64 ^ Suc b"
    unfolding power_Suc by (intro mult_le_mono2) simp
  then have "(unat v + 1) * 64 \<le> 2 ^ 32"
    using Suc.prems(2) by (rule order_trans)
  then have w: "unat w = unat v * 64 + unat x mod 64"
    unfolding w_def by (intro utf8_rest_step) simp
  have "(unat w + 1) * 64 ^ b \<le> (unat v + 1) * 64 * 64 ^ b"
  proof (rule mult_le_mono1)
    have "unat x mod 64 < 64"
      by simp
    then show "unat w + 1 \<le> (unat v + 1) * 64"
      unfolding w by simp
  qed
  then have "(unat w + 1) * 64 ^ b \<le> 2 ^ 32"
    using Suc.prems(2) unfolding power_Suc mult.assoc by linarith
  with Suc.IH [of xs w] Suc.prems(1) show ?case
    unfolding buf utf8_rest.simps continuation_byte w_def [symmetric] by (auto simp: w)
qed auto

text \<open>What a byte that is not ASCII announces.\<close>

lemma find_lead:
  assumes "\<not> c < 0x80"
  obtains (bad) "unat c < 192 \<or> 248 \<le> unat c" "\<And>s off. find_invalid_from (c # s) (int (length (c # s))) off = Value off"
  | (lead) b base hi w where "(b, base, hi) \<in> {(1, 192, 224), (2, 224, 240), (3, 240, 248)}" "base \<le> unat c" "unat c < hi"
      "unat (w :: u32) = unat c - base"
      "\<And>s off. find_invalid_from (c # s) (int (length (c # s))) off =
        (if length s < b then Value off
         else and_then (utf8_rest b s w) (\<lambda>r. case r of None \<Rightarrow> Value off | Some v \<Rightarrow>
           if bad_codepoint b v then Value off
           else find_invalid_from (drop b s) (int (length (drop b s))) (off + int (b + 1))))"
proof -
  obtain c' b where l: "utf8_lead c 0 = (c', b)"
    by (cases "utf8_lead c 0") auto
  define w :: u32 where "w = drop_bit b (ucast (c' AND 0x7f))"
  have steps: "find_invalid_from (c # s) (int (length (c # s))) off =
      (if b < 1 \<or> 3 < b \<or> length s < b then Value off
       else and_then (utf8_rest b s w) (\<lambda>r. case r of None \<Rightarrow> Value off | Some v \<Rightarrow>
         if bad_codepoint b v then Value off
         else find_invalid_from (drop b s) (int (length (drop b s))) (off + int (b + 1))))" for s off
    using assms by (subst find_invalid_from.simps)
      (auto simp: l w_def [symmetric] of_nat_diff algebra_simps intro!: arg_cong [of _ _ "and_then _"] ext split: option.split)
  then have steps': "find_invalid_from (c # s) (1 + int (length s)) off =
      (if b < 1 \<or> 3 < b \<or> length s < b then Value off
       else and_then (utf8_rest b s w) (\<lambda>r. case r of None \<Rightarrow> Value off | Some v \<Rightarrow>
         if bad_codepoint b v then Value off
         else find_invalid_from (drop b s) (int (length (drop b s))) (off + int (b + 1))))" for s off
    by simp
  note v = utf8_lead_value [OF assms l, folded w_def]
  consider "unat c < 192 \<or> 248 \<le> unat c" | "192 \<le> unat c" "unat c < 224" | "224 \<le> unat c" "unat c < 240"
    | "240 \<le> unat c" "unat c < 248"
    by linarith
  then show ?thesis
  proof cases
    case 1
    then have "b < 1 \<or> 3 < b"
      using v by (auto split: if_splits)
    with 1 show ?thesis
      by (intro bad) (auto simp: steps')
  next
    case 2
    with v show ?thesis
      by (intro lead [of b 192 224 w]) (auto simp: steps')
  next
    case 3
    with v show ?thesis
      by (intro lead [of b 224 240 w]) (auto simp: steps')
  next
    case 4
    with v show ?thesis
      by (intro lead [of b 240 248 w]) (auto simp: steps')
  qed
qed

definition utf8_text :: "byte list \<Rightarrow> bool" where
  "utf8_text s \<longleftrightarrow> (\<exists>cps. s = concat (List.map utf8_encode cps) \<and> (\<forall>cp\<in>set cps. utf8_char cp))"

definition starts_char :: "byte list \<Rightarrow> bool" where
  "starts_char s \<longleftrightarrow> (\<exists>cp rest. utf8_char cp \<and> s = utf8_encode cp @ rest)"

lemma encode_bytes:
  "cp < 0x80 \<Longrightarrow> utf8_encode cp = [word_of_nat cp]"
  "0x80 \<le> cp \<Longrightarrow> cp < 0x800 \<Longrightarrow> utf8_encode cp = [word_of_nat (0xC0 + cp div 64), word_of_nat (0x80 + cp mod 64)]"
  "0x800 \<le> cp \<Longrightarrow> cp < 0x10000 \<Longrightarrow> utf8_encode cp =
     [word_of_nat (0xE0 + cp div 4096), word_of_nat (0x80 + cp div 64 mod 64), word_of_nat (0x80 + cp mod 64)]"
  "0x10000 \<le> cp \<Longrightarrow> utf8_encode cp =
     [word_of_nat (0xF0 + cp div 262144), word_of_nat (0x80 + cp div 4096 mod 64),
      word_of_nat (0x80 + cp div 64 mod 64), word_of_nat (0x80 + cp mod 64)]"
  by (simp_all add: utf8_encode_def)

lemma find_ascii: "c < 0x80 \<Longrightarrow> find_invalid_from (c # s) (int (length (c # s))) off = find_invalid_from s (int (length s)) (off + 1)"
  by (subst find_invalid_from.simps) simp

lemma ascii_char: "unat c < 0x80 \<Longrightarrow> utf8_encode (unat c) = [c] \<and> utf8_char (unat c)" for c :: byte
  by (simp add: utf8_encode_def utf8_char_def)

lemma mod_high: "k < 64 \<Longrightarrow> (128 + k) mod 64 = k" for k :: nat
  using mod_mult_self2 [of k 64 2] by (simp add: add.commute)

text \<open>The lead byte and the continuation bytes of a code point, read back.\<close>

lemma lead_of:
  assumes "(b, base, hi) \<in> {(1, 192, 224), (2, 224, 240), (3, 240, 248)}" "base \<le> unat c" "unat c < hi"
    "length xs = b" "\<forall>x\<in>set xs. 128 \<le> unat x \<and> unat (x :: byte) < 192"
    "n = foldl (\<lambda>n x. n * 64 + unat x mod 64) (unat (c :: byte) - base) xs"
    "if b = 1 then 0x80 \<le> n \<and> n < 0x800 else if b = 2 then 0x800 \<le> n \<and> n < 0x10000 else 0x10000 \<le> n"
  shows "c # xs = utf8_encode n"
proof -
  have x: "x = word_of_nat (128 + unat x mod 64)" if "128 \<le> unat x" "unat x < 192" for x :: byte
  proof -
    have "unat x = 128 + unat x mod 64"
      using mod_high [of "unat x - 128"] that by simp
    then show ?thesis
      by (metis unat_of_byte)
  qed
  have c: "c = word_of_nat (base + (unat c - base))"
    using assms(2) by simp
  have digit: "(k * 64 + m mod 64) div 64 = k" "(k * 64 + m mod 64) mod 64 = m mod 64" for k m :: nat
    by simp_all
  have div: "n div 4096 = n div 64 div 64" "n div 262144 = n div 64 div 64 div 64"
    by (simp_all add: div_mult2_eq [symmetric])
  consider "b = 1" "base = 192" | "b = 2" "base = 224" | "b = 3" "base = 240"
    using assms(1) by auto
  then show ?thesis
  proof cases
    case 1
    then obtain x where xs: "xs = [x]"
      using assms(4) by (auto simp: length_Suc_conv numeral_eq_Suc)
    have n: "n = (unat c - base) * 64 + unat x mod 64"
      using assms(6) by (simp add: xs)
    have "utf8_encode n = [word_of_nat (base + (unat c - base)), word_of_nat (128 + unat x mod 64)]"
      using assms(7) 1 encode_bytes(2) [of n] unfolding n digit by simp
    with c x [of x] assms(5) xs show ?thesis
      by simp
  next
    case 2
    then obtain x y where xs: "xs = [x, y]"
      using assms(4) by (auto simp: length_Suc_conv numeral_eq_Suc)
    have n: "n = ((unat c - base) * 64 + unat x mod 64) * 64 + unat y mod 64"
      using assms(6) by (simp add: xs)
    have "utf8_encode n = [word_of_nat (base + (unat c - base)), word_of_nat (128 + unat x mod 64), word_of_nat (128 + unat y mod 64)]"
      using assms(7) 2 encode_bytes(3) [of n] unfolding div unfolding n digit by simp
    with c x [of x] x [of y] assms(5) xs show ?thesis
      by simp
  next
    case 3
    then obtain x y z where xs: "xs = [x, y, z]"
      using assms(4) by (auto simp: length_Suc_conv numeral_eq_Suc)
    have n: "n = (((unat c - base) * 64 + unat x mod 64) * 64 + unat y mod 64) * 64 + unat z mod 64"
      using assms(6) by (simp add: xs)
    have "utf8_encode n = [word_of_nat (base + (unat c - base)), word_of_nat (128 + unat x mod 64),
        word_of_nat (128 + unat y mod 64), word_of_nat (128 + unat z mod 64)]"
      using assms(7) 3 encode_bytes(4) [of n] unfolding div unfolding n digit by simp
    with c x [of x] x [of y] x [of z] assms(5) xs show ?thesis
      by simp
  qed
qed

lemma encode_of:
  assumes "utf8_char n" "0x80 \<le> n"
  obtains b base hi c xs where "(b, base, hi) \<in> {(1, 192, 224), (2, 224, 240), (3, 240, 248)}" "base \<le> unat c" "unat c < hi"
    "utf8_encode n = c # xs" "length xs = b" "\<forall>x\<in>set xs. 128 \<le> unat x \<and> unat x < 192"
    "n = foldl (\<lambda>n x. n * 64 + unat x mod 64) (unat c - base) xs"
    "if b = 1 then 0x80 \<le> n \<and> n < 0x800 else if b = 2 then 0x800 \<le> n \<and> n < 0x10000 else 0x10000 \<le> n"
proof -
  have small: "unat (128 + word_of_nat k :: byte) = 128 + k" "unat (192 + word_of_nat k :: byte) = 192 + k" if "k < 64" for k
  proof -
    have "unat (word_of_nat (128 + k) :: byte) = 128 + k" "unat (word_of_nat (192 + k) :: byte) = 192 + k"
      using that by (simp_all only: unsigned_of_nat) (simp_all add: take_bit_nat_eq_self)
    then show "unat (128 + word_of_nat k :: byte) = 128 + k" "unat (192 + word_of_nat k :: byte) = 192 + k"
      by simp_all
  qed
  have head: "unat (224 + word_of_nat k :: byte) = 224 + k" if "k < 16" for k
    using small(2) [of "32 + k"] that by simp
  have head': "unat (240 + word_of_nat k :: byte) = 240 + k" if "k < 8" for k
    using small(2) [of "48 + k"] that by simp
  have low: "(128 + k mod 64) mod 64 = k mod 64" for k :: nat
    by (rule mod_high) simp
  have digits: "n div 64 * 64 + n mod 64 = n" "n div 4096 * 64 + n div 64 mod 64 = n div 64"
    "n div 262144 * 64 + n div 4096 mod 64 = n div 4096"
    using div_mult_mod_eq [of "n div 64" 64] div_mult_mod_eq [of "n div 4096" 64] by (simp_all add: div_mult2_eq [symmetric])
  consider "n < 0x800" | "0x800 \<le> n" "n < 0x10000" | "0x10000 \<le> n"
    by linarith
  then show ?thesis
  proof cases
    case 1
    then have "n div 64 < 32"
      by (simp add: less_mult_imp_div_less)
    with 1 assms(2) show ?thesis
      by (intro that [of 1 192 224 "word_of_nat (192 + n div 64)" "[word_of_nat (128 + n mod 64)]"])
        (simp_all add: encode_bytes(2) small head head' low digits)
  next
    case 2
    then have "n div 4096 < 16"
      by (simp add: less_mult_imp_div_less)
    with 2 show ?thesis
      by (intro that [of 2 224 240 "word_of_nat (224 + n div 4096)" "[word_of_nat (128 + n div 64 mod 64), word_of_nat (128 + n mod 64)]"])
        (simp_all add: encode_bytes(3) small head head' low digits)
  next
    case 3
    have "n div 262144 < 8"
      using assms(1) by (simp add: utf8_char_def less_mult_imp_div_less)
    with 3 show ?thesis
      by (intro that [of 3 240 248 "word_of_nat (240 + n div 262144)" "[word_of_nat (128 + n div 4096 mod 64),
          word_of_nat (128 + n div 64 mod 64), word_of_nat (128 + n mod 64)]"])
        (simp_all add: encode_bytes(4) small head head' low digits)
  qed
qed

abbreviation in_range :: "nat \<Rightarrow> nat \<Rightarrow> bool" where
  "in_range b n \<equiv> if b = 1 then 0x80 \<le> n \<and> n < 0x800 else if b = 2 then 0x800 \<le> n \<and> n < 0x10000 else 0x10000 \<le> n"

abbreviation continued :: "byte list \<Rightarrow> bool" where
  "continued xs \<equiv> \<forall>x\<in>set xs. 128 \<le> unat x \<and> unat x < 192"

abbreviation code_point :: "nat \<Rightarrow> byte list \<Rightarrow> nat" where
  "code_point n xs \<equiv> foldl (\<lambda>n x. n * 64 + unat x mod 64) n xs"

lemma find_lead_step:
  assumes "(b, base, hi) \<in> {(1, 192, 224), (2, 224, 240), (3, 240, 248)}" "base \<le> unat c" "unat c < hi" "b \<le> length s"
  shows "find_invalid_from (c # s) (int (length (c # s))) off =
    (if continued (take b s) \<and> utf8_char (code_point (unat c - base) (take b s)) \<and> in_range b (code_point (unat c - base) (take b s))
     then find_invalid_from (drop b s) (int (length (drop b s))) (off + int (b + 1)) else Value off)"
proof -
  have "\<not> c < 0x80"
    using assms(1,2) by (auto simp: word_less_nat_alt)
  then show ?thesis
  proof (cases rule: find_lead)
    case bad
    then show ?thesis
      using assms(1-3) by auto
  next
    case (lead b' base' hi' w)
    then have eq: "b' = b" "base' = base" "hi' = hi"
      using assms(1-3) by auto
    have w: "unat w + 1 \<le> (if b = 1 then 32 else if b = 2 then 16 else 8)" "b \<in> {1, 2, 3}"
      using lead(1-4) unfolding eq by auto
    then have "(unat w + 1) * 64 ^ b \<le> (if b = 1 then 32 else if b = 2 then 16 else 8) * 64 ^ b"
      by (intro mult_le_mono1)
    also have "\<dots> \<le> 2 ^ 32"
      using w(2) by auto
    finally obtain v where v: "utf8_rest b s w = Value (if continued (take b s) then Some v else None)"
      "unat v = code_point (unat w) (take b s)"
      using utf8_rest_value [OF assms(4)] by blast
    have "code_point n xs < (n + 1) * 64 ^ length xs" for n xs
    proof (induction xs arbitrary: n)
      case (Cons x xs)
      have "n * 64 + unat x mod 64 + 1 \<le> (n + 1) * 64"
        using mod_less_divisor [of 64 "unat x"] by simp
      then have "(n * 64 + unat x mod 64 + 1) * 64 ^ length xs \<le> (n + 1) * 64 * 64 ^ length xs"
        by (rule mult_le_mono1)
      with Cons.IH [of "n * 64 + unat x mod 64"]
      have "code_point (n * 64 + unat x mod 64) xs < (n + 1) * 64 * 64 ^ length xs"
        by (rule less_le_trans)
      then show ?case
        by (simp add: algebra_simps)
    qed simp
    from this [of "unat w" "take b s"] have "unat v < 2097152"
      using w assms(4) unfolding v(2) [symmetric] by auto
    note bad = bad_codepoint_iff [OF this w(2)]
    have "and_then (Value (if K then Some v else None)) (\<lambda>r. case r of None \<Rightarrow> Value off | Some v \<Rightarrow>
           if bad_codepoint b v then Value off else X) =
       (if K \<and> \<not> bad_codepoint b v then X else Value off)" for K X
      by simp
    then have "find_invalid_from (c # s) (int (length (c # s))) off =
      (if continued (take b s) \<and> \<not> bad_codepoint b v
       then find_invalid_from (drop b s) (int (length (drop b s))) (off + int (b + 1)) else Value off)"
      using assms(4) unfolding lead(5) eq v(1) by (simp only: linorder_not_less [symmetric] if_False)
    then show ?thesis
      unfolding bad not_not v(2) lead(4) eq .
  qed
qed

lemma find_char:
  assumes "utf8_char cp"
  shows "find_invalid_from (utf8_encode cp @ s) (int (length (utf8_encode cp @ s))) off =
    find_invalid_from s (int (length s)) (off + int (length (utf8_encode cp)))"
proof (cases "cp < 0x80")
  case True
  then have "(word_of_nat cp :: byte) < 0x80"
    by (simp add: word_less_nat_alt unsigned_of_nat take_bit_nat_eq_self)
  with True show ?thesis
    using find_ascii by (simp add: encode_bytes(1))
next
  case False
  then show ?thesis
  proof (elim encode_of [OF assms leI])
    fix b base hi c xs
    assume "(b, base, hi) \<in> {(1, 192, 224), (2, 224, 240), (3, 240, 248)}" "base \<le> unat c" "unat c < hi"
      "utf8_encode cp = c # xs" "length xs = b" "continued xs" "cp = code_point (unat c - base) xs" "in_range b cp"
    with assms show ?thesis
      using find_lead_step [of b base hi c "xs @ s" off] by (simp only: append_Cons append_eq_conv_conj) auto
  qed
qed

lemma find_none:
  assumes "s \<noteq> []" "\<not> starts_char s"
  shows "find_invalid_from s (int (length s)) off = Value off"
proof -
  obtain c t where s: "s = c # t"
    using assms(1) by (cases s) auto
  have "\<not> c < 0x80"
    using assms(2) ascii_char [of c] unfolding s starts_char_def by (force simp: word_less_nat_alt)
  then show ?thesis
  proof (cases rule: find_lead)
    case bad
    then show ?thesis
      by (simp add: s)
  next
    case (lead b base hi w)
    show ?thesis
    proof (cases "length t < b")
      case True
      then show ?thesis
        unfolding s lead(5) by simp
    next
      case False
      let ?n = "code_point (unat c - base) (take b t)"
      have "\<not> (continued (take b t) \<and> utf8_char ?n \<and> in_range b ?n)"
      proof
        assume ok: "continued (take b t) \<and> utf8_char ?n \<and> in_range b ?n"
        have "c # take b t = utf8_encode ?n"
          by (rule lead_of [OF lead(1-3)]) (use False ok in auto)
        then have "s = utf8_encode ?n @ drop b t"
          by (metis append_Cons append_take_drop_id s)
        with ok assms(2) show False
          unfolding starts_char_def by blast
      qed
      then show ?thesis
        using False unfolding s by (subst find_lead_step [OF lead(1-3)]) auto
    qed
  qed
qed

text \<open>Where the search ends: at the first byte that begins no character.\<close>

lemma utf8_induct [case_names nil char bad]:
  assumes "P []" "\<And>cp s. utf8_char cp \<Longrightarrow> P s \<Longrightarrow> P (utf8_encode cp @ s)"
    "\<And>c s. \<not> starts_char (c # s) \<Longrightarrow> P s \<Longrightarrow> P (c # s)"
  shows "P s"
proof (induction s rule: length_induct)
  case (1 s)
  consider "s = []" | cp t where "utf8_char cp" "s = utf8_encode cp @ t" | c t where "s = c # t" "\<not> starts_char s"
    unfolding starts_char_def by (cases s) auto
  then show ?case
  proof cases
    case (2 cp t)
    then have "length t < length s"
      by (simp add: utf8_encode_def)
    with 1 2 show ?thesis
      using assms(2) by blast
  qed (use 1 assms(1,3) in auto)
qed

lemma find_invalid_utf8_finds:
  "\<exists>good bad. s = good @ bad \<and> utf8_text good \<and>
     (if bad = [] then find_invalid_utf8 s (int (length s)) = Value (- 1)
      else \<not> starts_char bad \<and> find_invalid_utf8 s (int (length s)) = Value (int (length good)))"
proof -
  have "\<exists>good bad. s = good @ bad \<and> utf8_text good \<and>
     (if bad = [] then find_invalid_from s (int (length s)) off = Value (- 1)
      else \<not> starts_char bad \<and> find_invalid_from s (int (length s)) off = Value (off + int (length good)))" for off
  proof (induction s arbitrary: off rule: utf8_induct)
    case nil
    have "utf8_text []"
      by (auto simp: utf8_text_def intro: exI [of _ "[]"])
    then show ?case
      by (intro exI [of _ "[]"]) (simp add: find_invalid_from.simps)
  next
    case (char cp s)
    from char.IH [of "off + int (length (utf8_encode cp))"]
    obtain good bad where "s = good @ bad" "utf8_text good"
       "if bad = [] then find_invalid_from s (int (length s)) (off + int (length (utf8_encode cp))) = Value (- 1)
      else \<not> starts_char bad \<and>
        find_invalid_from s (int (length s)) (off + int (length (utf8_encode cp))) =
          Value (off + int (length (utf8_encode cp)) + int (length good))"
      by blast
    moreover from this char.hyps have "utf8_text (utf8_encode cp @ good)"
      unfolding utf8_text_def by (metis concat.simps(2) list.simps(9) set_ConsD)
    ultimately show ?case
      unfolding find_char [OF char.hyps]
      by (intro exI [of _ "utf8_encode cp @ good"] exI [of _ bad]) auto
  next
    case (bad c s)
    have "utf8_text []"
      by (auto simp: utf8_text_def intro: exI [of _ "[]"])
    with bad show ?case
      using find_none [of "c # s" off] by (intro exI [of _ "[]"] exI [of _ "c # s"]) (simp del: length_Cons)
  qed
  from this [of 0] show ?thesis
    unfolding find_invalid_utf8_def by (simp only: add_0)
qed

subsection \<open>Replacing bytes\<close>

text \<open>The code points of a text in which a byte that begins no character stands for itself, as in Latin-1.\<close>

inductive code_points :: "byte list \<Rightarrow> nat list \<Rightarrow> bool" where
  "code_points [] []"
| "utf8_char cp \<Longrightarrow> code_points s cps \<Longrightarrow> code_points (utf8_encode cp @ s) (cp # cps)"
| "\<not> starts_char (c # s) \<Longrightarrow> code_points s cps \<Longrightarrow> code_points (c # s) (unat c # cps)"

lemma code_points_valid: "code_points s cps \<Longrightarrow> \<forall>cp\<in>set cps. utf8_char cp"
proof (induction rule: code_points.induct)
  case (3 c s cps)
  then show ?case
    using byte_bound [of c] by (simp add: utf8_char_def)
qed simp_all

lemma code_points_text:
  "\<forall>cp\<in>set cps. utf8_char cp \<Longrightarrow> code_points s cps' \<Longrightarrow>
    code_points (concat (List.map utf8_encode cps) @ s) (cps @ cps')"
  by (induction cps) (auto intro: code_points.intros)

lemma latin1_char:
  assumes "\<not> starts_char (c # s)"
  shows "[0xc0 + drop_bit 6 c, 0x80 + (c AND 0x3f)] = utf8_encode (unat c)"
proof -
  have "\<not> unat c < 0x80"
    using ascii_char [of c] assms unfolding starts_char_def by force
  have "c AND 0x3f = take_bit 6 c"
    using take_bit_eq_mask [of 6 c] by (simp add: mask_eq_exp_minus_1)
  moreover have "unat (drop_bit 6 c) = unat c div 64" "unat (take_bit 6 c) = unat c mod 64"
    by (simp_all add: unat_drop_bit_div unsigned_take_bit_eq take_bit_eq_mod [of 6 "unat c"])
  from this [THEN arg_cong, of "word_of_nat :: nat \<Rightarrow> byte"]
  have "drop_bit 6 c = word_of_nat (unat c div 64)" "take_bit 6 c = word_of_nat (unat c mod 64)"
    unfolding unat_of_byte .
  ultimately show ?thesis
    using \<open>\<not> unat c < 0x80\<close> byte_bound [of c] by (simp add: utf8_encode_def)
qed

text \<open>They are unique, as no character is the beginning of another.\<close>

lemma encode_unique:
  assumes "utf8_encode n @ s = utf8_encode m @ t" "utf8_char n" "utf8_char m"
  shows "n = m \<and> s = t"
proof -
  have ascii: "k < 0x80 \<longleftrightarrow> unat (hd (utf8_encode k)) < 0x80" if "utf8_char k" for k
  proof (cases "k < 0x80")
    case True
    then show ?thesis
      by (simp add: encode_bytes(1) unsigned_of_nat take_bit_nat_eq_self)
  next
    case False
    then show ?thesis
      by (elim encode_of [OF that leI]) auto
  qed
  have "hd (utf8_encode n) = hd (utf8_encode m)"
    using arg_cong [OF assms(1), of hd] by (simp add: utf8_encode_def split: if_splits)
  then have same: "n < 0x80 \<longleftrightarrow> m < 0x80"
    using ascii assms(2,3) by simp
  show ?thesis
  proof (cases "n < 0x80")
    case True
    with same assms(1) have "(word_of_nat n :: byte) = word_of_nat m" "s = t"
      by (simp_all add: encode_bytes(1))
    then have "n = m"
      using True same by (simp add: word_unat_eq_iff unsigned_of_nat take_bit_nat_eq_self)
    with \<open>s = t\<close> show ?thesis
      by simp
  next
    case False
    with same have not_m: "\<not> m < 0x80"
      by simp
    obtain b base hi c xs where n: "(b, base, hi) \<in> {(1, 192, 224), (2, 224, 240), (3, 240, 248)}" "base \<le> unat c" "unat c < hi"
      "utf8_encode n = c # xs" "length xs = b" "n = code_point (unat c - base) xs"
      using False by (elim encode_of [OF assms(2) leI])
    obtain b' base' hi' c' xs' where m: "(b', base', hi') \<in> {(1, 192, 224), (2, 224, 240), (3, 240, 248)}" "base' \<le> unat c'"
      "unat c' < hi'" "utf8_encode m = c' # xs'" "length xs' = b'" "m = code_point (unat c' - base') xs'"
      using not_m by (elim encode_of [OF assms(3) leI])
    have "c = c'" "xs @ s = xs' @ t"
      using assms(1) n(4) m(4) by simp_all
    moreover from this have "b = b' \<and> base = base'"
      using n(1-3) m(1-3) by auto
    ultimately show ?thesis
      using n(5,6) m(5,6) by (simp add: append_eq_append_conv)
  qed
qed

lemma code_points_unique: "code_points s cps \<Longrightarrow> code_points s cps' \<Longrightarrow> cps' = cps"
proof (induction arbitrary: cps' rule: code_points.induct)
  case 1
  then show ?case
    by cases (auto simp: utf8_encode_def split: if_splits)
next
  case (2 cp s cps)
  from 2(4) show ?case
  proof cases
    case 1
    then show ?thesis
      by (simp add: utf8_encode_def split: if_splits)
  next
    case (2 cp' s' cps'')
    with encode_unique [of cp s cp' s'] \<open>utf8_char cp\<close> "2.IH" show ?thesis
      by auto
  next
    case (3 c s' cps'')
    with \<open>utf8_char cp\<close> show ?thesis
      unfolding starts_char_def by metis
  qed
next
  case (3 c s cps)
  from 3(4) show ?case
  proof cases
    case (2 cp' s' cps'')
    with 3(1) show ?thesis
      unfolding starts_char_def by metis
  qed (use "3.IH" in auto)
qed

lemma find_text: "utf8_text s \<Longrightarrow> find_invalid_utf8 s (int (length s)) = Value (- 1)"
proof -
  assume "utf8_text s"
  then obtain cps where s: "s = concat (List.map utf8_encode cps)" and "\<forall>cp\<in>set cps. utf8_char cp"
    by (auto simp: utf8_text_def)
  then have "find_invalid_from s (int (length s)) off = Value (- 1)" for off
    unfolding s
  proof (induction cps arbitrary: off)
    case (Cons cp cps)
    then show ?case
      using find_char [of cp "concat (List.map utf8_encode cps)" off] by simp
  qed (simp add: find_invalid_from.simps)
  then show ?thesis
    by (simp add: find_invalid_utf8_def)
qed

lemma verify_utf8_loop_text:
  assumes "strbuf_rep sb (d @ s)" "length s < 2 ^ 31" "length d + 2 * length s < SIZE_MAX"
  shows "\<exists>sb' cps. verify_utf8_loop sb (length d) ok = Some (Value (if utf8_text s then ok else 0, sb')) \<and>
    code_points s cps \<and> strbuf_rep sb' (d @ concat (List.map utf8_encode cps)) \<and> (utf8_text s \<longrightarrow> sb' = sb)"
  using assms
proof (induction "length s" arbitrary: s d sb ok rule: less_induct)
  case less
  obtain good bad where s: "s = good @ bad" and good: "utf8_text good" and
    found: "if bad = [] then find_invalid_utf8 s (int (length s)) = Value (- 1)
      else \<not> starts_char bad \<and> find_invalid_utf8 s (int (length s)) = Value (int (length good))"
    using find_invalid_utf8_finds [of s] by blast
  then obtain cps where cps: "good = concat (List.map utf8_encode cps)" "\<forall>cp\<in>set cps. utf8_char cp"
    by (auto simp: utf8_text_def)
  have read: "and_then (mem_bytes (sb_buf sb) (length d) (sb_len sb - length d)) (\<lambda>buf.
      find_invalid_utf8 buf (to_int32 (sb_len sb - length d))) = find_invalid_utf8 s (int (length s))"
    using less.prems by (simp add: rep_len [OF less.prems(1)] mem_bytes_rep [OF less.prems(1)] to_int32_small)
  show ?case
  proof (cases bad)
    case Nil
    then have "verify_utf8_loop sb (length d) ok = Some (Value (ok, sb))"
      using found by (subst verify_utf8_loop.simps) (simp add: read)
    moreover have "code_points s cps"
      using code_points_text [OF cps(2) code_points.intros(1)] cps(1) s Nil by simp
    ultimately show ?thesis
      using less.prems(1) good s Nil cps(1) by auto
  next
    case (Cons c t)
    then have c: "\<not> starts_char (c # t)" and f: "find_invalid_utf8 s (int (length s)) = Value (int (length good))"
      using found by auto
    then have "\<not> utf8_text s"
      using find_text [of s] by auto
    let ?p = "length d + length good" and ?d = "d @ good @ utf8_encode (unat c)"
    have "mem_byte (sb_buf sb) ?p = Value c"
      using mem_byte_rep [OF less.prems(1), of ?p] by (simp add: s Cons nth_append)
    moreover have "makes (strbuf_remove sb ?p 1) (d @ good @ t)"
      using splice_makes [OF less.prems(1), of ?p 1 0 "[]"] by (simp add: strbuf_remove_def s Cons)
    then obtain sb1 where sb1: "strbuf_remove sb ?p 1 = Value sb1" "strbuf_rep sb1 (d @ good @ t)"
      using less.prems(3) by (auto simp: makes_def s Cons)
    moreover have len: "length (utf8_encode (unat c)) = 2"
      using latin1_char [OF c] by (metis length_Cons list.size(3) numeral_2_eq_2)
    have "makes (strbuf_insert sb1 ?p (utf8_encode (unat c)) 2) (?d @ t)"
      using splice_makes [OF sb1(2), of ?p 0 2 "utf8_encode (unat c)"] by (simp add: strbuf_insert_def len)
    then obtain sb2 where sb2: "strbuf_insert sb1 ?p (utf8_encode (unat c)) 2 = Value sb2" "strbuf_rep sb2 (?d @ t)"
      using less.prems(3) by (auto simp: makes_def s Cons len)
    ultimately have "verify_utf8_loop sb (length d) ok = verify_utf8_loop sb2 (length ?d) 0"
      by (subst verify_utf8_loop.simps) (simp add: read f latin1_char [OF c] len)
    moreover obtain sb' cps' where "verify_utf8_loop sb2 (length ?d) 0 = Some (Value (0, sb'))" "code_points t cps'"
      "strbuf_rep sb' (?d @ concat (List.map utf8_encode cps'))"
      using less.hyps [of t sb2 ?d 0] sb2(2) less.prems(2,3) by (auto simp: s Cons len)
    moreover from this have "code_points s (cps @ unat c # cps')"
      using code_points_text [OF cps(2) code_points.intros(3) [OF c]] cps(1) s Cons by simp
    ultimately show ?thesis
      using \<open>\<not> utf8_text s\<close> by (intro exI [of _ sb'] exI [of _ "cps @ unat c # cps'"]) (simp add: cps(1))
  qed
qed

text \<open>
  (C40) \<open>verify_utf8\<close> ends without an error on every text below 2 GB, also when it is not UTF-8. It returns 1 and leaves the
  buffer alone when the text is a sequence of encoded characters, surrogates and non-characters excluded. Otherwise it returns 0 and the
  buffer holds the encoding of the unique sequence of code points in which every byte that begins no character is taken as
  Latin-1, so that it is then valid.
\<close>

theorem verify_utf8_replaces:
  assumes "strbuf_rep sb s" "length s < 2 ^ 31"
  shows "\<exists>sb' cps. verify_utf8 sb = Some (Value (if utf8_text s then 1 else 0, sb')) \<and> (utf8_text s \<longrightarrow> sb' = sb) \<and>
    strbuf_rep sb' (concat (List.map utf8_encode cps)) \<and> utf8_text (concat (List.map utf8_encode cps)) \<and>
    code_points s cps \<and> (\<forall>cps'. code_points s cps' \<longrightarrow> cps' = cps)"
proof -
  obtain sb' cps where "verify_utf8 sb = Some (Value (if utf8_text s then 1 else 0, sb'))"
    "code_points s cps" "strbuf_rep sb' (concat (List.map utf8_encode cps))" "utf8_text s \<longrightarrow> sb' = sb"
    using verify_utf8_loop_text [of sb "[]" s 1] assms unfolding verify_utf8_def by (auto simp: SIZE_MAX_def)
  moreover from this have "utf8_text (concat (List.map utf8_encode cps))"
    unfolding utf8_text_def using code_points_valid by blast
  ultimately show ?thesis
    using code_points_unique by blast
qed

text \<open>A Latin-1 byte before an encoded one.\<close>

lemma verify_utf8_replaces_witness:
  "\<exists>sb'. verify_utf8 (heap_buf [0x67, 0xFC, 0xC3, 0xBC] [Some 0]) = Some (Value (0, sb')) \<and>
     strbuf_rep sb' [0x67, 0xC3, 0xBC, 0xC3, 0xBC]"
proof -
  have chars: "utf8_char 0x67" "utf8_char 0xFC" "utf8_encode 0x67 = [0x67]" "utf8_encode 0xFC = [0xC3, 0xBC]"
    by (simp_all add: utf8_char_def utf8_encode_def)
  have "\<not> starts_char (0xFC # xs)" for xs
  proof
    assume "starts_char (0xFC # xs)"
    then obtain cp rest where cp: "utf8_char cp" "0xFC # xs = utf8_encode cp @ rest"
      by (auto simp: starts_char_def)
    show False
    proof (cases "cp < 0x80")
      case True
      with cp(2) show ?thesis
        using True by (simp add: encode_bytes(1) word_unat_eq_iff unsigned_of_nat take_bit_nat_eq_self)
    next
      case False
      then show ?thesis
        using cp(2) by (elim encode_of [OF cp(1) leI]) auto
    qed
  qed
  then have "code_points (utf8_encode 0x67 @ 0xFC # utf8_encode 0xFC @ []) [0x67, unat (0xFC :: byte), 0xFC]"
    by (intro code_points.intros chars)
  then have points: "code_points [0x67, 0xFC, 0xC3, 0xBC] [0x67, 0xFC, 0xFC]"
    by (simp add: chars)
  have rep: "strbuf_rep (heap_buf [0x67, 0xFC, 0xC3, 0xBC] [Some 0]) [0x67, 0xFC, 0xC3, 0xBC]"
    unfolding strbuf_rep_def by (intro disjI2 exI [of _ "[]"]) (simp add: SIZE_MAX_def)
  obtain sb' cps where "verify_utf8 (heap_buf [0x67, 0xFC, 0xC3, 0xBC] [Some 0]) =
      Some (Value (if utf8_text [0x67, 0xFC, 0xC3, 0xBC] then 1 else 0, sb'))"
    "strbuf_rep sb' (concat (List.map utf8_encode cps))" "utf8_text [0x67, 0xFC, 0xC3, 0xBC] \<longrightarrow> sb' = heap_buf [0x67, 0xFC, 0xC3, 0xBC] [Some 0]"
    "\<forall>cps'. code_points [0x67, 0xFC, 0xC3, 0xBC] cps' \<longrightarrow> cps' = cps"
    using verify_utf8_replaces [OF rep] by auto
  with points have "verify_utf8 (heap_buf [0x67, 0xFC, 0xC3, 0xBC] [Some 0]) =
      Some (Value (if utf8_text [0x67, 0xFC, 0xC3, 0xBC] then 1 else 0, sb'))" "strbuf_rep sb' [0x67, 0xC3, 0xBC, 0xC3, 0xBC]"
    using chars by force+
  moreover have "sb' \<noteq> heap_buf [0x67, 0xFC, 0xC3, 0xBC] [Some 0]"
    using rep_inj [OF rep] \<open>strbuf_rep sb' [0x67, 0xC3, 0xBC, 0xC3, 0xBC]\<close> by auto
  ultimately show ?thesis
    using \<open>utf8_text [0x67, 0xFC, 0xC3, 0xBC] \<longrightarrow> sb' = heap_buf [0x67, 0xFC, 0xC3, 0xBC] [Some 0]\<close> by auto
qed

end
