(* ===== verification/Spec2Isabelle.thy ===== *)
theory Spec2Isabelle
  imports Git_Varint Git_Delta_Roundtrip Git_Ancestry Git_Topo_Sort Git_Sha1_Lookup Git_Hex Git_Base85 Git_String_List
    Git_Ewah_Merge Git_Ewah_Io Git_Bitmap Git_Oidmap Git_Wildmatch_Match Git_Sha1 Git_Wrapper Git_Quote_C Git_Object Git_Decorate Git_Utf8
begin

text \<open>
  A verification of the core of git, version 2.15.0, whose sources are under
  \<^verbatim>\<open>src/git-2.15.0\<close>. All file names below are relative to that directory.

  \<^bold>\<open>The program and the parts modelled.\<close> Git stores objects under the names that a hash of their contents
  gives them, finds its way through the history of commits, and compares and transforms contents. The
  development models the algorithms and data structures these tasks are built from, each translated from its
  C code and verified against a specification of its own, in the order of the dependencies:

  \<^item> \<^bold>\<open>Foundations.\<close> \<^verbatim>\<open>Git_Prelude\<close> names the machine types and the outcome of code that runs on raw memory
    (\<open>Value\<close>; \<open>Failure\<close> where the code dies; \<open>Fault\<close> where it would access memory it must not). \<^verbatim>\<open>Git_Order\<close>
    states the contract of comparison callbacks as a locale and what sorting means, \<^verbatim>\<open>Git_Strings\<close> interprets it
    for \<open>strcmp\<close>, \<open>memcmp\<close> and \<open>hashcmp\<close>. \<^verbatim>\<open>Git_Bswap\<close> is \<^verbatim>\<open>compat/bswap.h\<close>, \<^verbatim>\<open>Git_Ctype\<close> is \<^verbatim>\<open>ctype.c\<close>,
    \<^verbatim>\<open>Git_Bits\<close> the bit counting of \<^verbatim>\<open>ewah/ewok.h\<close>.
  \<^item> \<^bold>\<open>Sorting and searching.\<close> \<^verbatim>\<open>Git_Mergesort\<close> (\<^verbatim>\<open>mergesort.c\<close>, linked lists behind two callbacks), \<^verbatim>\<open>Git_Qsort\<close>
    (\<^verbatim>\<open>compat/qsort.c\<close>, \<^verbatim>\<open>compat/qsort_s.c\<close>), \<^verbatim>\<open>Git_Prio_Queue\<close> (\<^verbatim>\<open>prio-queue.c\<close>), \<^verbatim>\<open>Git_Sha1_Lookup\<close>
    (\<^verbatim>\<open>sha1-lookup.c\<close> and \<^verbatim>\<open>sha1-array.c\<close>).
  \<^item> \<^bold>\<open>Containers.\<close> \<^verbatim>\<open>Git_Hashmap\<close> and \<^verbatim>\<open>Git_Hashmap_Map\<close> (\<^verbatim>\<open>hashmap.c\<close>), \<^verbatim>\<open>Git_Oidmap\<close> (\<^verbatim>\<open>oidmap.c\<close>, \<^verbatim>\<open>oidset.c\<close>, the
    interned strings), \<^verbatim>\<open>Git_Probe\<close> (open addressing), \<^verbatim>\<open>Git_Object\<close> (the table of all objects of \<^verbatim>\<open>object.c\<close>) and
    \<^verbatim>\<open>Git_Decorate\<close> (\<^verbatim>\<open>decorate.c\<close>), \<^verbatim>\<open>Git_String_List\<close> (\<^verbatim>\<open>string-list.c\<close>), \<^verbatim>\<open>Git_Strbuf\<close>, \<^verbatim>\<open>Git_Strbuf_Calls\<close>,
    \<^verbatim>\<open>Git_Strbuf_Text\<close> and \<^verbatim>\<open>Git_Strbuf_Lines\<close> (\<^verbatim>\<open>strbuf.c\<close>, \<^verbatim>\<open>strbuf.h\<close>, \<^verbatim>\<open>url.c\<close>), and the bitmaps below.
  \<^item> \<^bold>\<open>History.\<close> \<^verbatim>\<open>Git_Commit\<close> (commits, lists and marks of \<^verbatim>\<open>commit.c\<close>), \<^verbatim>\<open>Git_Merge_Base\<close> (the merge-base
    routines), \<^verbatim>\<open>Git_Paint\<close> (correctness of \<open>paint_down_to_common\<close>), \<^verbatim>\<open>Git_Ancestry\<close> (what is returned), and
    \<^verbatim>\<open>Git_Topo_Sort\<close> (\<open>sort_in_topological_order\<close>). They use the priority queue and the list sort.
  \<^item> \<^bold>\<open>Deltas.\<close> \<^verbatim>\<open>Git_Rabin\<close> and \<^verbatim>\<open>Git_Delta_Index\<close> and \<^verbatim>\<open>Git_Delta_Create\<close> (\<^verbatim>\<open>diff-delta.c\<close>), \<^verbatim>\<open>Git_Delta_Patch\<close>
    (\<^verbatim>\<open>patch-delta.c\<close>, \<^verbatim>\<open>delta.h\<close>), \<^verbatim>\<open>Git_Delta_Roundtrip\<close> (a delta applied gives the target).
  \<^item> \<^bold>\<open>Names and encodings.\<close> \<^verbatim>\<open>Git_Varint\<close> (\<^verbatim>\<open>varint.c\<close>), \<^verbatim>\<open>Git_Hex\<close> (\<^verbatim>\<open>hex.c\<close>), \<^verbatim>\<open>Git_Base85\<close> (\<^verbatim>\<open>base85.c\<close>),
    \<^verbatim>\<open>Git_Sha1\<close> (\<^verbatim>\<open>block-sha1/sha1.c\<close>), \<^verbatim>\<open>Git_Quote\<close> and \<^verbatim>\<open>Git_Quote_C\<close> (\<^verbatim>\<open>quote.c\<close>),
    \<^verbatim>\<open>Git_Utf8\<close> (the check and repair of commit texts in \<^verbatim>\<open>commit.c\<close>).
  \<^item> \<^bold>\<open>Bitmaps.\<close> \<^verbatim>\<open>Git_Ewah_Word\<close>, \<^verbatim>\<open>Git_Ewah\<close>, \<^verbatim>\<open>Git_Ewah_Ops\<close>, \<^verbatim>\<open>Git_Ewah_Read\<close>, \<^verbatim>\<open>Git_Ewah_Merge\<close>, \<^verbatim>\<open>Git_Ewah_Io\<close>
    (the compressed bitmaps of \<^verbatim>\<open>ewah/\<close>) and \<^verbatim>\<open>Git_Bitmap\<close> (\<^verbatim>\<open>ewah/bitmap.c\<close>).
  \<^item> \<^bold>\<open>Matching.\<close> \<^verbatim>\<open>Git_Wildmatch\<close> and \<^verbatim>\<open>Git_Wildmatch_Match\<close> (\<^verbatim>\<open>wildmatch.c\<close>).
  \<^item> \<^bold>\<open>Line ranges.\<close> \<^verbatim>\<open>Git_Range_Set\<close> and \<^verbatim>\<open>Git_Line_Log\<close> (\<^verbatim>\<open>line-log.c\<close>); the ranges of
    each commit are kept as decorations (\<^verbatim>\<open>Git_Decorate\<close>).
  \<^item> \<^bold>\<open>System calls.\<close> \<^verbatim>\<open>Git_Wrapper\<close> (the reading and writing loops of \<^verbatim>\<open>wrapper.c\<close> and the functions of
    \<^verbatim>\<open>strbuf.c\<close> on them).

  \<^bold>\<open>How the code is represented.\<close> A structure is a record, with the field names of the code where they are free; a
  C function is a definition of the same name, and a loop is a recursive function named after it, whose
  arguments are the variables the loop changes. Words keep their width (\<open>Word\<close>) where the code relies on
  wrap-around, shifts or masks; counters and sizes are natural numbers or integers where the theorems
  bound them. Memory that is read through a pointer is the list of the bytes from there to the end of the
  allocation, so that an access outside it is visible as \<open>Fault\<close> or \<open>None\<close>. A C string that is only
  read is the list of the bytes before its NUL. Memory that was allocated and not written holds arbitrary values: these
  are arguments (\<open>garbage\<close>) or cells without a value. Assertions and \<open>die\<close> are \<open>Failure\<close>.
  Objects that are shared, such as commits and linked lists, are addresses into an explicit store.
  Loops that may not end are partial functions into an option, and what is claimed of them includes
  that they end.

  \<^bold>\<open>What is a parameter.\<close> The repository that commits are read from (a function from a commit to what
  parsing it gives); the date of an author line in the topological sort; the system calls \<open>read\<close>, \<open>pread\<close>
  and \<open>write\<close> as functions on a state, with the hypotheses \<open>reads_file\<close> and \<open>writes_file\<close> that
  state what POSIX promises of them (\<open>poll\<close>, which only waits and whose result is ignored, is left out); the functions that EWAH serialization writes and reads bytes with; the
  text that \<open>vsnprintf\<close> makes; the callbacks of the code (comparison, iteration, expansion), under the contracts
  that the headers of the sources document, each a locale with an interpretation for the callbacks git passes.

  \<^bold>\<open>Interfaces.\<close> Where components rely on a contract it is a locale, interpreted by the operations of the
  model that provide it: \<open>comparator_on\<close> (comparison callbacks, used by all sorts and searches), \<open>sorted_lookup\<close>
  (binary search in sorted arrays, for object names and string lists), \<open>bag\<close> (the priority queue as the history walks use
  it), \<open>hashmap_keys\<close> and \<open>hashmap_entry_keys\<close> (comparison functions of hash tables), \<open>open_addressing\<close>
  (tables probed from a hashed slot, used by the object table and the decorations), \<open>text_sink\<close>
  (writing a text piece by piece into a string buffer, used by quoting, percent-encoding and the line functions) and
  \<open>codec\<close> (encoders with their decoders).

  \<^bold>\<open>What is shown.\<close> For every component the lemmas establish a well-formedness invariant and that each operation
  keeps it, and then the result of each operation in terms of an abstract value: a set for object arrays and bitmaps,
  a finite map for hash tables and string lists, a text for string buffers, a set of lines for range sets, the reachability
  relation for the history. On top of these are the properties, each marked with its number (C\<open>n\<close>): merge bases are the best common
  ancestors, the sort order is topological, deltas and encodings can be read back, the sorts are stable sorts,
  tables refine maps and sets, the matcher decides a declarative matching relation, SHA-1 fed in pieces is the SHA-1 of FIPS 180-4, the loops
  around system calls end with all bytes moved.

  \<^bold>\<open>Bounds and assumptions.\<close> Allocation succeeds (git dies otherwise). The machine has 8-bit bytes, 64-bit
  \<open>size_t\<close> and little-endian words where the sources distinguish. Counters of type \<open>int\<close> stay below \<open>2^31\<close>; sizes
  below \<open>2^64\<close> and results of type \<open>ssize_t\<close> below \<open>2^63\<close>, with the bound in the theorem where it matters; priority queues
  below \<open>2^30\<close> entries, decorations below \<open>2^29\<close>; EWAH bitmaps below \<open>2^31\<close> words; hash tables
  below \<open>2^29\<close> entries. Where the code checks a size itself (\<open>unsigned_add_overflows\<close>, \<open>MAX_IO_SIZE\<close>, \<open>st_mult\<close>) the
  check is part of the model. No model uses fuel: recursion is structural, has a proved measure, or is a partial function.

  \<^bold>\<open>Not modelled.\<close> What mostly talks to the outside world or passes data on: the commands under \<^verbatim>\<open>builtin/\<close>, transport and
  protocols, configuration, the terminal, file system and process wrappers; the large subsystems whose correctness
  is relative to a file format or an external program and that would need their own development (index and
  unpack-trees, packfile access, refs backends, revision walking, diff and apply, merge-recursive, notes,
  submodules); vendored code (\<^verbatim>\<open>compat/regex\<close>, \<^verbatim>\<open>compat/nedmalloc\<close>, \<^verbatim>\<open>compat/poll\<close>, \<^verbatim>\<open>sha1dc\<close>, \<^verbatim>\<open>xdiff\<close>, \<^verbatim>\<open>kwset.c\<close>);
  the web application around the sources of git, which is not C. The manifest lists each with its reason, and
  for the partly modelled components which functions are missing.

  \<^bold>\<open>Findings.\<close> Modelling showed several defects of the code; each is stated as a theorem or lemma next to the
  definitions: \<open>ewah_or\<close> loses runs of ones (\<^verbatim>\<open>Git_Ewah_Merge\<close>), \<open>strbuf_add_urlencode\<close> extends the sign of
  bytes above 127 (\<^verbatim>\<open>Git_Strbuf_Text\<close>), a hunk between two line ranges is overlooked and an assertion fails
  (\<^verbatim>\<open>Git_Line_Log\<close>), \<open>range_set_difference\<close> need not end (\<^verbatim>\<open>Git_Range_Set\<close>), \<open>strbuf_getwholeline_fd\<close> returns
  \<open>EOF\<close> with a last line that has no terminator (\<^verbatim>\<open>Git_Wrapper\<close>). The others are in the manifest.
\<close>

end
